(* ===== verification/Prelude.thy ===== *)
theory Prelude
  imports Main "HOL-Library.Word"
begin

text \<open>
  Shared material of the development: the machine types of the ARMv7-M port, the result
  type of code that may halt or loop, and the generic facts on lists, words and results
  that the component theories use.

  \<^item> Machine types (\<open>os/common/ports/ARMCMx/compilers/GCC/chtypes.h\<close>): \<open>msg_t\<close> is an
    \<open>int32_t\<close>, pointers, \<open>eventmask_t\<close>, \<open>systime_t\<close> and \<open>sysinterval_t\<close> are 32 bits
    wide; all of them are \<open>32 word\<close> here. A pointer is the address it holds, \<open>NULL\<close> is 0.
  \<^item> \<open>'a kres\<close> is what a piece of kernel or driver code does: it finishes with a value
    (\<open>Ok\<close>), it calls \<open>chSysHalt(reason)\<close> (\<open>Halt\<close>, from a failed check or assertion; both
    are enabled in \<open>source/cfg/chconf.h\<close>), it never leaves a loop (\<open>Diverge\<close>), or it uses
    memory in a way the language leaves undefined (\<open>Undef\<close>).
\<close>

unbundle bit_operations_syntax

section \<open>Machine types\<close>

type_synonym byte = "8 word"
type_synonym u16 = "16 word"
type_synonym u32 = "32 word"
type_synonym ptr = "32 word"
type_synonym msg_t = "32 word"

abbreviation NULL :: ptr where "NULL \<equiv> 0"

section \<open>Results of code that may halt\<close>

datatype 'a kres = Halt string | Diverge | Undef | Ok 'a

definition kbind :: "'a kres \<Rightarrow> ('a \<Rightarrow> 'b kres) \<Rightarrow> 'b kres" where
  "kbind r f = (case r of Halt e \<Rightarrow> Halt e | Diverge \<Rightarrow> Diverge | Undef \<Rightarrow> Undef | Ok x \<Rightarrow> f x)"

definition kguard :: "bool \<Rightarrow> string \<Rightarrow> 'b kres \<Rightarrow> 'b kres" where
  "kguard c e r = (if c then r else Halt e)"

definition ok_and :: "('a \<Rightarrow> bool) \<Rightarrow> 'a kres \<Rightarrow> bool" where
  "ok_and P r = (case r of Ok x \<Rightarrow> P x | _ \<Rightarrow> False)"

definition if_ok :: "('a \<Rightarrow> bool) \<Rightarrow> 'a kres \<Rightarrow> bool" where
  "if_ok P r = (case r of Ok x \<Rightarrow> P x | _ \<Rightarrow> True)"

lemma kbind_simps [simp]:
  "kbind (Ok x) f = f x"
  "kbind (Halt e) f = Halt e"
  "kbind Diverge f = Diverge"
  "kbind Undef f = Undef"
  by (simp_all add: kbind_def)

lemma kguard_simps [simp]:
  "c \<Longrightarrow> kguard c e r = r"
  "\<not> c \<Longrightarrow> kguard c e r = Halt e"
  by (simp_all add: kguard_def)

lemma kguard_Ok [simp]: "kguard c e r = Ok x \<longleftrightarrow> c \<and> r = Ok x"
  by (simp add: kguard_def)

lemma kguard_not_Halt: "kguard c e r = Halt e' \<longleftrightarrow> (\<not> c \<and> e = e') \<or> (c \<and> r = Halt e')"
  by (auto simp: kguard_def)

lemma kbind_Ok [simp]: "kbind r f = Ok y \<longleftrightarrow> (\<exists>x. r = Ok x \<and> f x = Ok y)"
  by (cases r) auto

lemma kbind_assoc: "kbind (kbind r f) g = kbind r (\<lambda>x. kbind (f x) g)"
  by (cases r) auto

lemma ok_and_simps [simp]:
  "ok_and P (Ok x) = P x" "ok_and P (Halt e) = False" "ok_and P Diverge = False"
  "ok_and P Undef = False"
  by (simp_all add: ok_and_def)

lemma if_ok_simps [simp]:
  "if_ok P (Ok x) = P x" "if_ok P (Halt e) = True" "if_ok P Diverge = True"
  "if_ok P Undef = True"
  by (simp_all add: if_ok_def)

lemma ok_and_iff: "ok_and P r \<longleftrightarrow> (\<exists>x. r = Ok x \<and> P x)"
  by (cases r) auto

lemma if_okI: "(\<And>x. r = Ok x \<Longrightarrow> P x) \<Longrightarrow> if_ok P r"
  by (cases r) auto

lemma if_okD: "if_ok P r \<Longrightarrow> r = Ok x \<Longrightarrow> P x"
  by simp

lemma if_ok_kbind: "if_ok Q r \<Longrightarrow> (\<And>x. Q x \<Longrightarrow> if_ok P (f x)) \<Longrightarrow> if_ok P (kbind r f)"
  by (cases r) auto

lemma ok_and_kbind: "ok_and Q r \<Longrightarrow> (\<And>x. Q x \<Longrightarrow> ok_and P (f x)) \<Longrightarrow> ok_and P (kbind r f)"
  by (cases r) auto

lemma if_ok_kguard: "(c \<Longrightarrow> if_ok P r) \<Longrightarrow> if_ok P (kguard c e r)"
  by (cases c) auto

lemma ok_and_kguard: "c \<Longrightarrow> ok_and P r \<Longrightarrow> ok_and P (kguard c e r)"
  by simp

lemma ok_and_mono: "ok_and P r \<Longrightarrow> (\<And>x. P x \<Longrightarrow> Q x) \<Longrightarrow> ok_and Q r"
  by (cases r) auto

section \<open>Words\<close>

lemma unat_less32: "unat (w :: u32) < 2 ^ 32"
  using unsigned_less [of w] by simp

lemma unat_less16: "unat (w :: u16) < 2 ^ 16"
  using unsigned_less [of w] by simp

lemma unat_plus_less: "unat a + unat b < 2 ^ 32 \<Longrightarrow> unat (a + b :: u32) = unat a + unat b"
  by (simp add: unat_word_ariths)

lemma word_minus_max: "d \<le> (n::u32) \<Longrightarrow> n \<noteq> - 1 \<Longrightarrow> n - d \<noteq> - 1"
  by (metis word_order.extremum_unique word_sub_le)

section \<open>Lists\<close>

lemma remove1_append_notin: "x \<notin> set xs \<Longrightarrow> remove1 x (xs @ ys) = xs @ remove1 x ys"
  by (induction xs) auto

lemma takeWhile_dropWhile_set:
  "set (takeWhile P xs) \<union> set (dropWhile P xs) = set xs"
  by (metis set_append takeWhile_dropWhile_id)

lemma dropWhile_mono_last:
  "dropWhile P xs = y # ys \<Longrightarrow> \<not> P y"
  by (metis dropWhile_eq_Cons_conv)

text \<open>
  \<open>insort_wrt P x xs\<close> puts \<open>x\<close> in front of the first element that does not satisfy \<open>P\<close>:
  the position at which the kernel's priority insertions stop.
\<close>

definition insort_wrt :: "('a \<Rightarrow> bool) \<Rightarrow> 'a \<Rightarrow> 'a list \<Rightarrow> 'a list" where
  "insort_wrt P x xs = takeWhile P xs @ x # dropWhile P xs"

lemma insort_wrt_simps [simp]:
  "insort_wrt P x [] = [x]"
  "insort_wrt P x (y # ys) = (if P y then y # insort_wrt P x ys else x # y # ys)"
  by (simp_all add: insort_wrt_def)

lemma set_insort_wrt [simp]: "set (insort_wrt P x xs) = insert x (set xs)"
  by (induction xs) auto

lemma distinct_insort_wrt [simp]:
  "distinct (insort_wrt P x xs) \<longleftrightarrow> x \<notin> set xs \<and> distinct xs"
  by (induction xs) auto

lemma length_insort_wrt [simp]: "length (insort_wrt P x xs) = Suc (length xs)"
  by (induction xs) auto

lemma insort_wrt_not_Nil [simp]: "insort_wrt P x xs \<noteq> []" "[] \<noteq> insort_wrt P x xs"
  by (simp_all add: insort_wrt_def)

lemma hd_insort_wrt: "hd (insort_wrt P x xs) = (if xs \<noteq> [] \<and> P (hd xs) then hd xs else x)"
  by (cases xs) auto

lemma insort_wrt_cong:
  "(\<And>y. y \<in> set xs \<Longrightarrow> P y = Q y) \<Longrightarrow> insort_wrt P x xs = insort_wrt Q x xs"
  by (induction xs) auto

lemma remove1_insort_wrt: "x \<notin> set xs \<Longrightarrow> remove1 x (insort_wrt P x xs) = xs"
  by (induction xs) auto

lemma sorted_wrt_remove1: "sorted_wrt R xs \<Longrightarrow> sorted_wrt R (remove1 x xs)"
  by (induction xs) (auto dest: set_remove1_subset[THEN subsetD])

lemma sorted_wrt_insort_ge:
  fixes f :: "'a \<Rightarrow> 'b::linorder"
  assumes "sorted_wrt (\<lambda>a b. f a \<ge> f b) xs"
  shows "sorted_wrt (\<lambda>a b. f a \<ge> f b) (insort_wrt (\<lambda>y. f y \<ge> f x) x xs)"
    and "sorted_wrt (\<lambda>a b. f a \<ge> f b) (insort_wrt (\<lambda>y. f y > f x) x xs)"
  using assms by (induction xs) (auto intro: order_trans less_imp_le)

end
