(* ===== verification/Kernel.thy ===== *)
theory Kernel
  imports Prelude
begin

text \<open>
  The state of the ChibiOS/RT kernel (\<open>ch_system_t\<close> and the objects the kernel code
  reaches through pointers) and the guards of \<open>chdebug.c\<close>.

  \<^item> A thread, semaphore, mutex, mailbox or thread reference lives at an address; the
    kernel record maps each address to the object there, so that two pointers to the same
    object alias as they do in the code.
  \<^item> The state-specific union \<open>u\<close> of \<open>thread_t\<close> is one 32-bit word (\<open>t_u\<close>): writing one
    member overwrites the others, reading a member other than the last one written gives
    that word, as on the target.
  \<^item> A thread list is represented by the list of its threads (theory \<open>TQueues\<close> relates the
    two); \<open>queues\<close> maps each list header to it. \<open>queue_dequeue tp\<close> unlinks the thread from
    whatever list it is in.
  \<^item> A blocking call is split where it gives the processor away. The first part returns
    \<open>Asleep\<close> with the kernel state right after the context switch; the part that runs when
    the thread is scheduled again is a definition of its own, whose name ends in
    \<open>_resume\<close>. \<open>Returned v\<close> means that the call returns \<open>v\<close> to its caller.
\<close>

section \<open>Constants and types\<close>

datatype tstate =
    CH_STATE_READY | CH_STATE_CURRENT | CH_STATE_WTSTART | CH_STATE_SUSPENDED
  | CH_STATE_QUEUED | CH_STATE_WTSEM | CH_STATE_WTMTX | CH_STATE_WTCOND
  | CH_STATE_SLEEPING | CH_STATE_WTEXIT | CH_STATE_WTOREVT | CH_STATE_WTANDEVT
  | CH_STATE_SNDMSGQ | CH_STATE_SNDMSG | CH_STATE_WTMSG | CH_STATE_FINAL

definition MSG_OK :: msg_t where "MSG_OK = 0"
definition MSG_TIMEOUT :: msg_t where "MSG_TIMEOUT = - 1"
definition MSG_RESET :: msg_t where "MSG_RESET = - 2"

definition NOPRIO :: nat where "NOPRIO = 0"
definition IDLEPRIO :: nat where "IDLEPRIO = 1"
definition LOWPRIO :: nat where "LOWPRIO = 2"
definition NORMALPRIO :: nat where "NORMALPRIO = 128"
definition HIGHPRIO :: nat where "HIGHPRIO = 255"

definition TIME_IMMEDIATE :: u32 where "TIME_IMMEDIATE = 0"
definition TIME_INFINITE :: u32 where "TIME_INFINITE = - 1"

lemma msg_distinct [simp]:
  "MSG_OK \<noteq> MSG_TIMEOUT" "MSG_TIMEOUT \<noteq> MSG_OK" "MSG_OK \<noteq> MSG_RESET" "MSG_RESET \<noteq> MSG_OK"
  "MSG_TIMEOUT \<noteq> MSG_RESET" "MSG_RESET \<noteq> MSG_TIMEOUT"
  by (simp_all add: MSG_OK_def MSG_TIMEOUT_def MSG_RESET_def)

lemma time_distinct [simp]: "TIME_IMMEDIATE \<noteq> TIME_INFINITE" "TIME_INFINITE \<noteq> TIME_IMMEDIATE"
  by (simp_all add: TIME_IMMEDIATE_def TIME_INFINITE_def)

record thread =
  t_prio :: nat
  t_state :: tstate
  t_flags :: byte
  t_refs :: byte
  t_u :: u32
  t_epending :: u32
  t_mtxlist :: ptr
  t_realprio :: nat
  t_wabase :: ptr
  t_mpool :: ptr
  t_name :: string

record mutex =
  m_owner :: ptr
  m_next :: ptr

record mailbox =
  mb_buffer :: "msg_t list"
  mb_wrptr :: nat
  mb_rdptr :: nat
  mb_cnt :: nat
  mb_reset :: bool

text \<open>
  Headers of thread lists: the ready list, the queue that is the first member of a
  semaphore, mutex or condition variable (or a bare \<open>threads_queue_t\<close>) at an address, the
  message queue and the termination waiting list of a thread, the writers' and readers'
  queues of a mailbox.
\<close>

datatype qref = RLIST | TQ ptr | MSGQ ptr | WAITING ptr | MBQW ptr | MBQR ptr

text \<open>
  Virtual timers: a timer object at an address, or the one that \<open>chSchGoSleepTimeoutS\<close>
  keeps on the stack of a sleeping thread.
\<close>

datatype vtref = VT ptr | SLEEPVT ptr

datatype vtfunc = VT_NULL | VT_WAKEUP | VT_CALLBACK ptr

text \<open>Calls to the memory allocators, which hold no state of the kernel record.\<close>

datatype alloc_call = HEAP_FREE ptr | POOL_FREE ptr ptr

record kernel =
  threads :: "ptr \<Rightarrow> thread"
  queues :: "qref \<Rightarrow> ptr list"
  currp :: ptr
  registry :: "ptr list"
  isr_cnt :: int
  lock_cnt :: int
  sem_cnt :: "ptr \<Rightarrow> int"
  mtxs :: "ptr \<Rightarrow> mutex"
  trefs :: "ptr \<Rightarrow> ptr"
  mboxes :: "ptr \<Rightarrow> mailbox"
  vt_list :: "(vtref \<times> u32) list"
  vt_lasttime :: u32
  vt_func :: "vtref \<Rightarrow> vtfunc"
  vt_par :: "vtref \<Rightarrow> ptr"
  vt_alarm :: "u32 option"
  st_clock :: "nat \<Rightarrow> u32"
  st_reads :: nat
  alloc_log :: "alloc_call list"

datatype 'a wait = Returned 'a | Asleep

text \<open>
  No thread at any address, every list empty, every counter zero: the memory of the kernel
  before \<open>chSysInit\<close>.
\<close>

definition no_thread :: thread where
  "no_thread = \<lparr>t_prio = 0, t_state = CH_STATE_FINAL, t_flags = 0, t_refs = 0, t_u = 0, t_epending = 0,
     t_mtxlist = NULL, t_realprio = 0, t_wabase = NULL, t_mpool = NULL, t_name = []\<rparr>"

definition kernel_reset :: kernel where
  "kernel_reset = \<lparr>threads = (\<lambda>_. no_thread), queues = (\<lambda>_. []), currp = NULL, registry = [],
     isr_cnt = 0, lock_cnt = 0, sem_cnt = (\<lambda>_. 0), mtxs = (\<lambda>_. \<lparr>m_owner = NULL, m_next = NULL\<rparr>),
     trefs = (\<lambda>_. NULL),
     mboxes = (\<lambda>_. \<lparr>mb_buffer = [], mb_wrptr = 0, mb_rdptr = 0, mb_cnt = 0, mb_reset = False\<rparr>),
     vt_list = [], vt_lasttime = 0, vt_func = (\<lambda>_. VT_NULL), vt_par = (\<lambda>_. NULL), vt_alarm = None,
     st_clock = (\<lambda>_. 0), st_reads = 0, alloc_log = []\<rparr>"

section \<open>Access to threads and lists\<close>

abbreviation th :: "kernel \<Rightarrow> ptr \<Rightarrow> thread" where "th k tp \<equiv> threads k tp"
abbreviation prio_of :: "kernel \<Rightarrow> ptr \<Rightarrow> nat" where "prio_of k tp \<equiv> t_prio (threads k tp)"
abbreviation state_of :: "kernel \<Rightarrow> ptr \<Rightarrow> tstate" where "state_of k tp \<equiv> t_state (threads k tp)"
abbreviation rdymsg_of :: "kernel \<Rightarrow> ptr \<Rightarrow> u32" where "rdymsg_of k tp \<equiv> t_u (threads k tp)"

definition upd_th :: "ptr \<Rightarrow> (thread \<Rightarrow> thread) \<Rightarrow> kernel \<Rightarrow> kernel" where
  "upd_th tp f k = k\<lparr>threads := (threads k)(tp := f (threads k tp))\<rparr>"

definition upd_q :: "qref \<Rightarrow> (ptr list \<Rightarrow> ptr list) \<Rightarrow> kernel \<Rightarrow> kernel" where
  "upd_q q f k = k\<lparr>queues := (queues k)(q := f (queues k q))\<rparr>"

definition set_state :: "tstate \<Rightarrow> ptr \<Rightarrow> kernel \<Rightarrow> kernel" where
  "set_state st tp k = upd_th tp (t_state_update (\<lambda>_. st)) k"

definition set_u :: "u32 \<Rightarrow> ptr \<Rightarrow> kernel \<Rightarrow> kernel" where
  "set_u v tp k = upd_th tp (t_u_update (\<lambda>_. v)) k"

definition set_prio :: "nat \<Rightarrow> ptr \<Rightarrow> kernel \<Rightarrow> kernel" where
  "set_prio p tp k = upd_th tp (t_prio_update (\<lambda>_. p)) k"

definition q_insert :: "ptr \<Rightarrow> qref \<Rightarrow> kernel \<Rightarrow> kernel" where
  "q_insert tp q k = upd_q q (\<lambda>xs. xs @ [tp]) k"

definition q_prio_insert :: "ptr \<Rightarrow> qref \<Rightarrow> kernel \<Rightarrow> kernel" where
  "q_prio_insert tp q k = upd_q q (insort_wrt (\<lambda>y. prio_of k y \<ge> prio_of k tp) tp) k"

definition q_push :: "ptr \<Rightarrow> qref \<Rightarrow> kernel \<Rightarrow> kernel" where
  "q_push tp q k = upd_q q (\<lambda>xs. tp # xs) k"

definition q_dequeue :: "ptr \<Rightarrow> kernel \<Rightarrow> kernel" where
  "q_dequeue tp k = k\<lparr>queues := (\<lambda>q. remove1 tp (queues k q))\<rparr>"

definition q_first_out :: "qref \<Rightarrow> kernel \<Rightarrow> (ptr \<times> kernel) kres" where
  "q_first_out q k = (case queues k q of [] \<Rightarrow> Undef | tp # tps \<Rightarrow> Ok (tp, upd_q q (\<lambda>_. tps) k))"

definition q_last_out :: "qref \<Rightarrow> kernel \<Rightarrow> (ptr \<times> kernel) kres" where
  "q_last_out q k =
     (case queues k q of [] \<Rightarrow> Undef | xs \<Rightarrow> Ok (last xs, upd_q q (\<lambda>_. butlast xs) k))"

definition firstprio :: "kernel \<Rightarrow> nat" where
  "firstprio k = (case queues k RLIST of [] \<Rightarrow> NOPRIO | tp # _ \<Rightarrow> prio_of k tp)"

section \<open>Guards of the debug module\<close>

definition chDbgCheckClassI :: "kernel \<Rightarrow> 'a kres \<Rightarrow> 'a kres" where
  "chDbgCheckClassI k r = (if isr_cnt k < 0 \<or> lock_cnt k \<le> 0 then Halt ''SV#10'' else r)"

definition chDbgCheckClassS :: "kernel \<Rightarrow> 'a kres \<Rightarrow> 'a kres" where
  "chDbgCheckClassS k r = (if isr_cnt k \<noteq> 0 \<or> lock_cnt k \<le> 0 then Halt ''SV#11'' else r)"

definition dbg_check_disable :: "kernel \<Rightarrow> kernel kres" where
  "dbg_check_disable k = (if isr_cnt k \<noteq> 0 \<or> lock_cnt k \<noteq> 0 then Halt ''SV#1'' else Ok k)"

definition dbg_check_suspend :: "kernel \<Rightarrow> kernel kres" where
  "dbg_check_suspend k = (if isr_cnt k \<noteq> 0 \<or> lock_cnt k \<noteq> 0 then Halt ''SV#2'' else Ok k)"

definition dbg_check_enable :: "kernel \<Rightarrow> kernel kres" where
  "dbg_check_enable k = (if isr_cnt k \<noteq> 0 \<or> lock_cnt k \<noteq> 0 then Halt ''SV#3'' else Ok k)"

definition dbg_check_lock :: "kernel \<Rightarrow> kernel kres" where
  "dbg_check_lock k =
     (if isr_cnt k \<noteq> 0 \<or> lock_cnt k \<noteq> 0 then Halt ''SV#4'' else Ok (k\<lparr>lock_cnt := 1\<rparr>))"

definition dbg_check_unlock :: "kernel \<Rightarrow> kernel kres" where
  "dbg_check_unlock k =
     (if isr_cnt k \<noteq> 0 \<or> lock_cnt k \<le> 0 then Halt ''SV#5'' else Ok (k\<lparr>lock_cnt := 0\<rparr>))"

definition dbg_check_lock_from_isr :: "kernel \<Rightarrow> kernel kres" where
  "dbg_check_lock_from_isr k =
     (if isr_cnt k \<le> 0 \<or> lock_cnt k \<noteq> 0 then Halt ''SV#6'' else Ok (k\<lparr>lock_cnt := 1\<rparr>))"

definition dbg_check_unlock_from_isr :: "kernel \<Rightarrow> kernel kres" where
  "dbg_check_unlock_from_isr k =
     (if isr_cnt k \<le> 0 \<or> lock_cnt k \<le> 0 then Halt ''SV#7'' else Ok (k\<lparr>lock_cnt := 0\<rparr>))"

definition dbg_check_enter_isr :: "kernel \<Rightarrow> kernel kres" where
  "dbg_check_enter_isr k =
     (if isr_cnt k < 0 \<or> lock_cnt k \<noteq> 0 then Halt ''SV#8'' else Ok (k\<lparr>isr_cnt := isr_cnt k + 1\<rparr>))"

definition dbg_check_leave_isr :: "kernel \<Rightarrow> kernel kres" where
  "dbg_check_leave_isr k =
     (if isr_cnt k \<le> 0 \<or> lock_cnt k \<noteq> 0 then Halt ''SV#9'' else Ok (k\<lparr>isr_cnt := isr_cnt k - 1\<rparr>))"

definition chSysLock :: "kernel \<Rightarrow> kernel kres" where
  "chSysLock k = dbg_check_lock k"

definition chSysUnlock :: "kernel \<Rightarrow> kernel kres" where
  "chSysUnlock k =
     kbind (dbg_check_unlock k) (\<lambda>k.
     kguard (queues k RLIST = [] \<or> prio_of k (currp k) \<ge> prio_of k (hd (queues k RLIST)))
       ''chSysUnlock'' (Ok k))"

definition chSysLockFromISR :: "kernel \<Rightarrow> kernel kres" where
  "chSysLockFromISR k = dbg_check_lock_from_isr k"

definition chSysUnlockFromISR :: "kernel \<Rightarrow> kernel kres" where
  "chSysUnlockFromISR k = dbg_check_unlock_from_isr k"


section \<open>Frame and update facts\<close>

lemma upd_th_threads [simp]: "threads (upd_th tp f k) = (threads k)(tp := f (threads k tp))"
  by (simp add: upd_th_def)

lemma upd_q_queues [simp]: "queues (upd_q q f k) = (queues k)(q := f (queues k q))"
  by (simp add: upd_q_def)

lemma q_dequeue_queues [simp]: "queues (q_dequeue tp k) = (\<lambda>q. remove1 tp (queues k q))"
  by (simp add: q_dequeue_def)

lemma upd_th_frame [simp]:
  "queues (upd_th tp f k) = queues k"
  "currp (upd_th tp f k) = currp k"
  "registry (upd_th tp f k) = registry k"
  "isr_cnt (upd_th tp f k) = isr_cnt k"
  "lock_cnt (upd_th tp f k) = lock_cnt k"
  "sem_cnt (upd_th tp f k) = sem_cnt k"
  "mtxs (upd_th tp f k) = mtxs k"
  "trefs (upd_th tp f k) = trefs k"
  "mboxes (upd_th tp f k) = mboxes k"
  "vt_list (upd_th tp f k) = vt_list k"
  "vt_lasttime (upd_th tp f k) = vt_lasttime k"
  "vt_func (upd_th tp f k) = vt_func k"
  "vt_par (upd_th tp f k) = vt_par k"
  "vt_alarm (upd_th tp f k) = vt_alarm k"
  "st_clock (upd_th tp f k) = st_clock k"
  "st_reads (upd_th tp f k) = st_reads k"
  "alloc_log (upd_th tp f k) = alloc_log k"
  by (simp_all add: upd_th_def)

lemma upd_q_frame [simp]:
  "threads (upd_q q f k) = threads k"
  "currp (upd_q q f k) = currp k"
  "registry (upd_q q f k) = registry k"
  "isr_cnt (upd_q q f k) = isr_cnt k"
  "lock_cnt (upd_q q f k) = lock_cnt k"
  "sem_cnt (upd_q q f k) = sem_cnt k"
  "mtxs (upd_q q f k) = mtxs k"
  "trefs (upd_q q f k) = trefs k"
  "mboxes (upd_q q f k) = mboxes k"
  "vt_list (upd_q q f k) = vt_list k"
  "vt_lasttime (upd_q q f k) = vt_lasttime k"
  "vt_func (upd_q q f k) = vt_func k"
  "vt_par (upd_q q f k) = vt_par k"
  "vt_alarm (upd_q q f k) = vt_alarm k"
  "st_clock (upd_q q f k) = st_clock k"
  "st_reads (upd_q q f k) = st_reads k"
  "alloc_log (upd_q q f k) = alloc_log k"
  by (simp_all add: upd_q_def)

lemma q_dequeue_frame [simp]:
  "threads (q_dequeue tp k) = threads k"
  "currp (q_dequeue tp k) = currp k"
  "registry (q_dequeue tp k) = registry k"
  "isr_cnt (q_dequeue tp k) = isr_cnt k"
  "lock_cnt (q_dequeue tp k) = lock_cnt k"
  "sem_cnt (q_dequeue tp k) = sem_cnt k"
  "mtxs (q_dequeue tp k) = mtxs k"
  "trefs (q_dequeue tp k) = trefs k"
  "mboxes (q_dequeue tp k) = mboxes k"
  "vt_list (q_dequeue tp k) = vt_list k"
  "vt_lasttime (q_dequeue tp k) = vt_lasttime k"
  "vt_func (q_dequeue tp k) = vt_func k"
  "vt_par (q_dequeue tp k) = vt_par k"
  "vt_alarm (q_dequeue tp k) = vt_alarm k"
  "st_clock (q_dequeue tp k) = st_clock k"
  "st_reads (q_dequeue tp k) = st_reads k"
  "alloc_log (q_dequeue tp k) = alloc_log k"
  by (simp_all add: q_dequeue_def)

lemmas set_field_defs [simp] =
  set_state_def set_u_def set_prio_def q_insert_def q_prio_insert_def q_push_def

lemmas dbg_defs = dbg_check_disable_def dbg_check_suspend_def dbg_check_enable_def
  dbg_check_lock_def dbg_check_unlock_def dbg_check_lock_from_isr_def
  dbg_check_unlock_from_isr_def dbg_check_enter_isr_def dbg_check_leave_isr_def

lemmas sys_defs = chSysLock_def chSysUnlock_def chSysLockFromISR_def chSysUnlockFromISR_def

section \<open>Contexts\<close>

text \<open>
  \<open>thd_ctx k\<close>: a thread inside a critical section, where S-class calls are allowed.
  \<open>isr_ctx k\<close>: an interrupt handler inside a critical section. I-class calls are allowed
  in both (\<open>i_ctx\<close>).
\<close>

definition thd_ctx :: "kernel \<Rightarrow> bool" where
  "thd_ctx k = (isr_cnt k = 0 \<and> lock_cnt k = 1)"

definition isr_ctx :: "kernel \<Rightarrow> bool" where
  "isr_ctx k = (isr_cnt k > 0 \<and> lock_cnt k = 1)"

definition i_ctx :: "kernel \<Rightarrow> bool" where
  "i_ctx k = (isr_cnt k \<ge> 0 \<and> lock_cnt k > 0)"

lemma i_ctxI [intro, simp]: "thd_ctx k \<Longrightarrow> i_ctx k" "isr_ctx k \<Longrightarrow> i_ctx k"
  by (simp_all add: thd_ctx_def isr_ctx_def i_ctx_def)

lemma chDbgCheckClassI_i [simp]: "i_ctx k \<Longrightarrow> chDbgCheckClassI k r = r"
  by (simp add: chDbgCheckClassI_def i_ctx_def)

lemma chDbgCheckClassI_Ok [simp]: "chDbgCheckClassI k r = Ok x \<longleftrightarrow> i_ctx k \<and> r = Ok x"
  by (auto simp: chDbgCheckClassI_def i_ctx_def)

lemma chDbgCheckClassS_thd [simp]: "thd_ctx k \<Longrightarrow> chDbgCheckClassS k r = r"
  by (simp add: chDbgCheckClassS_def thd_ctx_def)

lemma chDbgCheckClassS_OkD: "chDbgCheckClassS k r = Ok x \<Longrightarrow> r = Ok x"
  by (auto simp: chDbgCheckClassS_def split: if_splits)

lemma ctx_upd [simp]:
  "thd_ctx (upd_th tp f k) = thd_ctx k" "thd_ctx (upd_q q g k) = thd_ctx k"
  "thd_ctx (q_dequeue tp k) = thd_ctx k"
  "isr_ctx (upd_th tp f k) = isr_ctx k" "isr_ctx (upd_q q g k) = isr_ctx k"
  "isr_ctx (q_dequeue tp k) = isr_ctx k"
  "i_ctx (upd_th tp f k) = i_ctx k" "i_ctx (upd_q q g k) = i_ctx k"
  "i_ctx (q_dequeue tp k) = i_ctx k"
  by (simp_all add: thd_ctx_def isr_ctx_def i_ctx_def)

lemma ctx_rec [simp]:
  "thd_ctx (k\<lparr>currp := t\<rparr>) = thd_ctx k" "i_ctx (k\<lparr>currp := t\<rparr>) = i_ctx k"
  "thd_ctx (k\<lparr>sem_cnt := c\<rparr>) = thd_ctx k" "i_ctx (k\<lparr>sem_cnt := c\<rparr>) = i_ctx k"
  "thd_ctx (k\<lparr>mtxs := m\<rparr>) = thd_ctx k" "i_ctx (k\<lparr>mtxs := m\<rparr>) = i_ctx k"
  "thd_ctx (k\<lparr>trefs := r\<rparr>) = thd_ctx k" "i_ctx (k\<lparr>trefs := r\<rparr>) = i_ctx k"
  "thd_ctx (k\<lparr>mboxes := b\<rparr>) = thd_ctx k" "i_ctx (k\<lparr>mboxes := b\<rparr>) = i_ctx k"
  "thd_ctx (k\<lparr>threads := ts\<rparr>) = thd_ctx k" "i_ctx (k\<lparr>threads := ts\<rparr>) = i_ctx k"
  "thd_ctx (k\<lparr>queues := qs\<rparr>) = thd_ctx k" "i_ctx (k\<lparr>queues := qs\<rparr>) = i_ctx k"
  "thd_ctx (k\<lparr>registry := g\<rparr>) = thd_ctx k" "i_ctx (k\<lparr>registry := g\<rparr>) = i_ctx k"
  "thd_ctx (k\<lparr>vt_list := vl\<rparr>) = thd_ctx k" "i_ctx (k\<lparr>vt_list := vl\<rparr>) = i_ctx k"
  "thd_ctx (k\<lparr>vt_lasttime := vt\<rparr>) = thd_ctx k" "i_ctx (k\<lparr>vt_lasttime := vt\<rparr>) = i_ctx k"
  "thd_ctx (k\<lparr>vt_func := vf\<rparr>) = thd_ctx k" "i_ctx (k\<lparr>vt_func := vf\<rparr>) = i_ctx k"
  "thd_ctx (k\<lparr>vt_par := vp\<rparr>) = thd_ctx k" "i_ctx (k\<lparr>vt_par := vp\<rparr>) = i_ctx k"
  "thd_ctx (k\<lparr>vt_alarm := va\<rparr>) = thd_ctx k" "i_ctx (k\<lparr>vt_alarm := va\<rparr>) = i_ctx k"
  "thd_ctx (k\<lparr>st_reads := n\<rparr>) = thd_ctx k" "i_ctx (k\<lparr>st_reads := n\<rparr>) = i_ctx k"
  "thd_ctx (k\<lparr>alloc_log := al\<rparr>) = thd_ctx k" "i_ctx (k\<lparr>alloc_log := al\<rparr>) = i_ctx k"
  by (simp_all add: thd_ctx_def i_ctx_def)

section \<open>The scheduling invariant\<close>

definition queued_state :: "tstate \<Rightarrow> bool" where
  "queued_state st = (st \<in> {CH_STATE_QUEUED, CH_STATE_WTSEM, CH_STATE_WTMTX, CH_STATE_WTCOND,
                          CH_STATE_SNDMSGQ, CH_STATE_WTEXIT})"

text \<open>
  \<open>sched_inv k\<close>: the ready list holds exactly the threads in state \<open>CH_STATE_READY\<close>, in
  descending priority order; the current thread is the only one in state
  \<open>CH_STATE_CURRENT\<close>; no thread is in two lists or twice in one; a thread in any other
  list is in one of the states in which the kernel queues threads; live threads have a
  priority above \<open>NOPRIO\<close>, and there is no thread at \<open>NULL\<close>.
  \<open>sched_order k\<close>: no ready thread has a higher priority than the running one.
\<close>

definition sched_inv :: "kernel \<Rightarrow> bool" where
  "sched_inv k \<longleftrightarrow>
     sorted_wrt (\<lambda>a b. prio_of k a \<ge> prio_of k b) (queues k RLIST) \<and>
     (\<forall>q. distinct (queues k q)) \<and>
     (\<forall>q q' t. t \<in> set (queues k q) \<longrightarrow> t \<in> set (queues k q') \<longrightarrow> q = q') \<and>
     (\<forall>t. t \<in> set (queues k RLIST) \<longleftrightarrow> state_of k t = CH_STATE_READY) \<and>
     (\<forall>q t. q \<noteq> RLIST \<longrightarrow> t \<in> set (queues k q) \<longrightarrow> queued_state (state_of k t)) \<and>
     (\<forall>t. state_of k t = CH_STATE_CURRENT \<longleftrightarrow> t = currp k) \<and>
     (\<forall>t. state_of k t \<noteq> CH_STATE_FINAL \<longrightarrow> prio_of k t > 0) \<and>
     state_of k NULL = CH_STATE_FINAL"

definition sched_order :: "kernel \<Rightarrow> bool" where
  "sched_order k = (\<forall>t\<in>set (queues k RLIST). prio_of k t \<le> prio_of k (currp k))"

text \<open>The idle thread never leaves the set of runnable threads.\<close>

definition idle_runnable :: "ptr \<Rightarrow> kernel \<Rightarrow> bool" where
  "idle_runnable i k = (state_of k i \<in> {CH_STATE_READY, CH_STATE_CURRENT})"

lemma queued_state_simps [simp]:
  "queued_state CH_STATE_QUEUED" "queued_state CH_STATE_WTSEM" "queued_state CH_STATE_WTMTX"
  "queued_state CH_STATE_WTCOND" "queued_state CH_STATE_SNDMSGQ" "queued_state CH_STATE_WTEXIT"
  "\<not> queued_state CH_STATE_READY" "\<not> queued_state CH_STATE_CURRENT" "\<not> queued_state CH_STATE_FINAL"
  "\<not> queued_state CH_STATE_WTSTART" "\<not> queued_state CH_STATE_SUSPENDED"
  "\<not> queued_state CH_STATE_SLEEPING" "\<not> queued_state CH_STATE_WTOREVT"
  "\<not> queued_state CH_STATE_WTANDEVT" "\<not> queued_state CH_STATE_SNDMSG" "\<not> queued_state CH_STATE_WTMSG"
  by (simp_all add: queued_state_def)

lemma sched_invI:
  assumes "sorted_wrt (\<lambda>a b. prio_of k a \<ge> prio_of k b) (queues k RLIST)"
    and "\<And>q. distinct (queues k q)"
    and "\<And>q q' t. t \<in> set (queues k q) \<Longrightarrow> t \<in> set (queues k q') \<Longrightarrow> q = q'"
    and "\<And>t. t \<in> set (queues k RLIST) \<longleftrightarrow> state_of k t = CH_STATE_READY"
    and "\<And>q t. q \<noteq> RLIST \<Longrightarrow> t \<in> set (queues k q) \<Longrightarrow> queued_state (state_of k t)"
    and "\<And>t. state_of k t = CH_STATE_CURRENT \<longleftrightarrow> t = currp k"
    and "\<And>t. state_of k t \<noteq> CH_STATE_FINAL \<Longrightarrow> prio_of k t > 0"
    and "state_of k NULL = CH_STATE_FINAL"
  shows "sched_inv k"
  using assms unfolding sched_inv_def by blast

lemma sched_invD:
  assumes "sched_inv k"
  shows "sorted_wrt (\<lambda>a b. prio_of k a \<ge> prio_of k b) (queues k RLIST)"
    and "distinct (queues k q)"
    and "t \<in> set (queues k q) \<Longrightarrow> t \<in> set (queues k q') \<Longrightarrow> q = q'"
    and "t \<in> set (queues k RLIST) \<longleftrightarrow> state_of k t = CH_STATE_READY"
    and "q \<noteq> RLIST \<Longrightarrow> t \<in> set (queues k q) \<Longrightarrow> queued_state (state_of k t)"
    and "state_of k t = CH_STATE_CURRENT \<longleftrightarrow> t = currp k"
    and "state_of k t \<noteq> CH_STATE_FINAL \<Longrightarrow> prio_of k t > 0"
    and "state_of k NULL = CH_STATE_FINAL"
  using assms unfolding sched_inv_def by blast+

text \<open>Fields the invariant does not look at can change freely.\<close>

lemma sched_inv_cong:
  assumes "sched_inv k" and "queues k' = queues k" and "currp k' = currp k"
    and "\<And>t. state_of k' t = state_of k t" and "\<And>t. prio_of k' t = prio_of k t"
  shows "sched_inv k'"
  using assms unfolding sched_inv_def by simp

lemma sched_inv_rec [simp]:
  "sched_inv (k\<lparr>sem_cnt := c\<rparr>) = sched_inv k" "sched_inv (k\<lparr>mtxs := m\<rparr>) = sched_inv k"
  "sched_inv (k\<lparr>trefs := r\<rparr>) = sched_inv k" "sched_inv (k\<lparr>mboxes := b\<rparr>) = sched_inv k"
  "sched_inv (k\<lparr>registry := g\<rparr>) = sched_inv k" "sched_inv (k\<lparr>lock_cnt := l\<rparr>) = sched_inv k"
  "sched_inv (k\<lparr>isr_cnt := l\<rparr>) = sched_inv k"
  "sched_inv (k\<lparr>vt_list := vl\<rparr>) = sched_inv k" "sched_inv (k\<lparr>vt_lasttime := vt\<rparr>) = sched_inv k"
  "sched_inv (k\<lparr>vt_func := vf\<rparr>) = sched_inv k" "sched_inv (k\<lparr>vt_par := vp\<rparr>) = sched_inv k"
  "sched_inv (k\<lparr>vt_alarm := va\<rparr>) = sched_inv k" "sched_inv (k\<lparr>st_reads := n\<rparr>) = sched_inv k"
  "sched_inv (k\<lparr>alloc_log := al\<rparr>) = sched_inv k"
  by (simp_all add: sched_inv_def)

lemma sched_order_rec [simp]:
  "sched_order (k\<lparr>sem_cnt := c\<rparr>) = sched_order k" "sched_order (k\<lparr>mtxs := m\<rparr>) = sched_order k"
  "sched_order (k\<lparr>trefs := r\<rparr>) = sched_order k" "sched_order (k\<lparr>mboxes := b\<rparr>) = sched_order k"
  "sched_order (k\<lparr>registry := g\<rparr>) = sched_order k" "sched_order (k\<lparr>lock_cnt := l\<rparr>) = sched_order k"
  "sched_order (k\<lparr>isr_cnt := l\<rparr>) = sched_order k"
  "sched_order (k\<lparr>vt_list := vl\<rparr>) = sched_order k" "sched_order (k\<lparr>vt_lasttime := vt\<rparr>) = sched_order k"
  "sched_order (k\<lparr>vt_func := vf\<rparr>) = sched_order k" "sched_order (k\<lparr>vt_par := vp\<rparr>) = sched_order k"
  "sched_order (k\<lparr>vt_alarm := va\<rparr>) = sched_order k" "sched_order (k\<lparr>st_reads := n\<rparr>) = sched_order k"
  "sched_order (k\<lparr>alloc_log := al\<rparr>) = sched_order k"
  by (simp_all add: sched_order_def)

lemma upd_u_same [simp]:
  "t_state (((threads k)(tp := t_u_update f (threads k tp))) t) = state_of k t"
  "t_prio (((threads k)(tp := t_u_update f (threads k tp))) t) = prio_of k t"
  by auto

lemma sched_inv_set_u [simp]: "sched_inv (upd_th tp (t_u_update f) k) = sched_inv k"
  unfolding sched_inv_def upd_th_threads upd_th_frame upd_u_same ..

lemma sched_order_set_u [simp]: "sched_order (upd_th tp (t_u_update f) k) = sched_order k"
  unfolding sched_order_def upd_th_threads upd_th_frame upd_u_same ..

end
