(* ===== verification/VTimers.thy ===== *)
theory VTimers
  imports Kernel
begin

text \<open>
  Virtual timers (\<open>os/rt/src/chvt.c\<close>, \<open>os/rt/include/chvt.h\<close>) in the tick-less mode the
  firmware is built with (\<open>CH_CFG_ST_TIMEDELTA\<close> = 2, 32-bit system time and intervals), on
  top of the system timer driver (\<open>os/hal/src/hal_st.c\<close>).

  The delta list is \<open>vt_list\<close>: the armed timers with their \<open>delta\<close> fields, all 32-bit words.
  Its header has the delta \<open>-1\<close>. Every read of the free running counter takes the next
  sample of \<open>st_clock\<close>. \<open>vt_alarm\<close> is the alarm comparator, \<open>None\<close> while stopped.
  The loop of \<open>chVTDoTickI\<close> runs callbacks that may arm timers again, so that it is bounded
  by a fuel argument; \<open>chVTDoTickI_expires\<close> shows that the number of armed timers plus
  two is enough when the callbacks leave the timers alone.
\<close>

section \<open>System time and the alarm\<close>

definition CH_CFG_ST_TIMEDELTA :: u32 where "CH_CFG_ST_TIMEDELTA = 2"

definition chTimeAddX :: "u32 \<Rightarrow> u32 \<Rightarrow> u32" where
  "chTimeAddX systime interval = systime + interval"

definition chTimeDiffX :: "u32 \<Rightarrow> u32 \<Rightarrow> u32" where
  "chTimeDiffX start stop = stop - start"

definition chTimeIsInRangeX :: "u32 \<Rightarrow> u32 \<Rightarrow> u32 \<Rightarrow> bool" where
  "chTimeIsInRangeX time start stop = (time - start < stop - start)"

definition stIsAlarmActive :: "kernel \<Rightarrow> bool" where
  "stIsAlarmActive k = (vt_alarm k \<noteq> None)"

definition stStartAlarm :: "u32 \<Rightarrow> kernel \<Rightarrow> kernel kres" where
  "stStartAlarm abstime k =
     kguard (\<not> stIsAlarmActive k) ''stStartAlarm'' (Ok (k\<lparr>vt_alarm := Some abstime\<rparr>))"

definition stStopAlarm :: "kernel \<Rightarrow> kernel" where
  "stStopAlarm k = k\<lparr>vt_alarm := None\<rparr>"

definition stSetAlarm :: "u32 \<Rightarrow> kernel \<Rightarrow> kernel kres" where
  "stSetAlarm abstime k =
     kguard (stIsAlarmActive k) ''stSetAlarm'' (Ok (k\<lparr>vt_alarm := Some abstime\<rparr>))"

definition stGetAlarm :: "kernel \<Rightarrow> u32 kres" where
  "stGetAlarm k = (case vt_alarm k of None \<Rightarrow> Halt ''stGetAlarm'' | Some a \<Rightarrow> Ok a)"

definition stGetCounter :: "kernel \<Rightarrow> u32 \<times> kernel" where
  "stGetCounter k = (st_clock k (st_reads k), k\<lparr>st_reads := Suc (st_reads k)\<rparr>)"

definition chVTGetSystemTimeX :: "kernel \<Rightarrow> u32 \<times> kernel" where
  "chVTGetSystemTimeX k = stGetCounter k"

section \<open>The delta list\<close>

definition hd_delta :: "(vtref \<times> u32) list \<Rightarrow> u32" where
  "hd_delta xs = (case xs of [] \<Rightarrow> - 1 | (_, d) # _ \<Rightarrow> d)"

fun compress_loop :: "u32 \<Rightarrow> (vtref \<times> u32) list \<Rightarrow> u32 \<times> (vtref \<times> u32) list" where
  "compress_loop deltanow [] = (deltanow, [])"
| "compress_loop deltanow ((v, d) # xs) =
     (if d < deltanow
      then let (r, ys) = compress_loop (deltanow - d) xs in (r, (v, 0) # ys)
      else (deltanow, (v, d - deltanow) # xs))"

definition vt_list_compress :: "u32 \<Rightarrow> kernel \<Rightarrow> kernel" where
  "vt_list_compress deltanow k =
     (let (r, ys) = compress_loop deltanow (vt_list k)
      in k\<lparr>vt_list := ys, vt_lasttime := vt_lasttime k + r\<rparr>)"

definition vt_init :: "kernel \<Rightarrow> kernel" where
  "vt_init k = k\<lparr>vt_list := [], vt_lasttime := 0\<rparr>"

text \<open>
  The scan of \<open>chVTDoSetI\<close> and the insertion in front of the timer where it stops. A timer
  that is already armed is caught by the assertion if the scan passes it; otherwise its
  links would be overwritten while it is in the list.
\<close>

fun vt_insert :: "vtref \<Rightarrow> u32 \<Rightarrow> (vtref \<times> u32) list \<Rightarrow> (vtref \<times> u32) list kres" where
  "vt_insert v delta [] = Ok [(v, delta)]"
| "vt_insert v delta ((p, d) # xs) =
     (if d < delta
      then kguard (p \<noteq> v) ''chVTDoSetI''
             (kbind (vt_insert v (delta - d) xs) (\<lambda>ys. Ok ((p, d) # ys)))
      else if v \<in> fst ` set ((p, d) # xs) then Undef
      else Ok ((v, delta) # (p, d - delta) # xs))"

definition chVTDoSetI :: "vtref \<Rightarrow> u32 \<Rightarrow> vtfunc \<Rightarrow> ptr \<Rightarrow> kernel \<Rightarrow> kernel kres" where
  "chVTDoSetI vtp delay0 fn par k =
     chDbgCheckClassI k (
     kguard (vtp \<noteq> VT NULL \<and> fn \<noteq> VT_NULL \<and> delay0 \<noteq> TIME_IMMEDIATE) ''chVTDoSetI'' (
     let k = k\<lparr>vt_par := (vt_par k)(vtp := par), vt_func := (vt_func k)(vtp := fn)\<rparr>;
         (now, k) = chVTGetSystemTimeX k;
         delay = (if delay0 < CH_CFG_ST_TIMEDELTA then CH_CFG_ST_TIMEDELTA else delay0)
     in if vt_list k = []
        then stStartAlarm (chTimeAddX now delay) (k\<lparr>vt_lasttime := now, vt_list := [(vtp, delay)]\<rparr>)
        else
          let deltanow = chTimeDiffX (vt_lasttime k) now;
              delta = deltanow + delay
          in kbind (if delta < deltanow then Ok (delta - deltanow, vt_list_compress deltanow k)
                    else if delta < hd_delta (vt_list k)
                    then kbind (stSetAlarm (chTimeAddX (vt_lasttime k) delta) k) (\<lambda>k. Ok (delta, k))
                    else Ok (delta, k))
               (\<lambda>(delta, k). kbind (vt_insert vtp delta (vt_list k)) (\<lambda>l. Ok (k\<lparr>vt_list := l\<rparr>)))))"

fun vt_unlink :: "vtref \<Rightarrow> (vtref \<times> u32) list \<Rightarrow> (vtref \<times> u32) list" where
  "vt_unlink v [] = []"
| "vt_unlink v ((p, d) # xs) =
     (if p = v then (case xs of [] \<Rightarrow> [] | (q, e) # ys \<Rightarrow> (q, e + d) # ys)
      else (p, d) # vt_unlink v xs)"

definition chVTDoResetI :: "vtref \<Rightarrow> kernel \<Rightarrow> kernel kres" where
  "chVTDoResetI vtp k =
     chDbgCheckClassI k (
     kguard (vtp \<noteq> VT NULL) ''chVTDoResetI'' (
     kguard (vt_func k vtp \<noteq> VT_NULL) ''chVTDoResetI'' (
     if vtp \<notin> fst ` set (vt_list k) then Undef
     else
       let first = (fst (hd (vt_list k)) = vtp);
           k = k\<lparr>vt_list := vt_unlink vtp (vt_list k), vt_func := (vt_func k)(vtp := VT_NULL)\<rparr>
       in if \<not> first then Ok k
          else if vt_list k = [] then Ok (stStopAlarm k)
          else
            let (now, k) = chVTGetSystemTimeX k;
                nowdelta = chTimeDiffX (vt_lasttime k) now
            in if nowdelta \<ge> hd_delta (vt_list k) then Ok k
               else
                 let delta = hd_delta (vt_list k) - nowdelta;
                     delta = (if delta < CH_CFG_ST_TIMEDELTA then nowdelta + CH_CFG_ST_TIMEDELTA
                              else nowdelta + delta)
                 in stSetAlarm (chTimeAddX (vt_lasttime k) delta) k)))"

definition chVTIsArmedI :: "vtref \<Rightarrow> kernel \<Rightarrow> bool kres" where
  "chVTIsArmedI vtp k = chDbgCheckClassI k (Ok (vt_func k vtp \<noteq> VT_NULL))"

definition chVTObjectInit :: "vtref \<Rightarrow> kernel \<Rightarrow> kernel" where
  "chVTObjectInit vtp k = k\<lparr>vt_func := (vt_func k)(vtp := VT_NULL)\<rparr>"

definition chVTResetI :: "vtref \<Rightarrow> kernel \<Rightarrow> kernel kres" where
  "chVTResetI vtp k =
     kbind (chVTIsArmedI vtp k) (\<lambda>armed. if armed then chVTDoResetI vtp k else Ok k)"

definition chVTSetI :: "vtref \<Rightarrow> u32 \<Rightarrow> vtfunc \<Rightarrow> ptr \<Rightarrow> kernel \<Rightarrow> kernel kres" where
  "chVTSetI vtp delay fn par k = kbind (chVTResetI vtp k) (chVTDoSetI vtp delay fn par)"

definition chVTGetTimersStateI :: "kernel \<Rightarrow> (u32 option \<times> kernel) kres" where
  "chVTGetTimersStateI k =
     chDbgCheckClassI k (
     if vt_list k = [] then Ok (None, k)
     else let (now, k) = chVTGetSystemTimeX k
          in Ok (Some (hd_delta (vt_list k) + CH_CFG_ST_TIMEDELTA - chTimeDiffX (vt_lasttime k) now), k))"

section \<open>The ticker\<close>

text \<open>
  \<open>vt_outer\<close> is one turn of the \<open>while (true)\<close> loop of \<open>chVTDoTickI\<close> (it reads the time and
  leaves the loop when the first timer is not due), \<open>vt_inner\<close> one turn of the
  \<open>do ... while\<close> loop inside it. \<open>cb fn par\<close> is the callback.
\<close>

fun vt_outer :: "nat \<Rightarrow> (vtfunc \<Rightarrow> ptr \<Rightarrow> kernel \<Rightarrow> kernel kres) \<Rightarrow> kernel
                 \<Rightarrow> (u32 \<times> u32 \<times> kernel) kres"
  and vt_inner :: "nat \<Rightarrow> (vtfunc \<Rightarrow> ptr \<Rightarrow> kernel \<Rightarrow> kernel kres) \<Rightarrow> u32 \<Rightarrow> kernel
                 \<Rightarrow> (u32 \<times> u32 \<times> kernel) kres" where
  "vt_outer 0 cb k = Diverge"
| "vt_outer (Suc n) cb k =
     (let (now, k) = chVTGetSystemTimeX k;
          nowdelta = chTimeDiffX (vt_lasttime k) now
      in if nowdelta < hd_delta (vt_list k) then Ok (now, nowdelta, k)
         else vt_inner n cb nowdelta k)"
| "vt_inner 0 cb nowdelta k = Diverge"
| "vt_inner (Suc n) cb nowdelta k =
     (case vt_list k of
        [] \<Rightarrow> Undef
      | (vtp, d) # xs \<Rightarrow>
          let nowdelta = nowdelta - d;
              fn = vt_func k vtp;
              k = k\<lparr>vt_lasttime := vt_lasttime k + d, vt_list := xs,
                    vt_func := (vt_func k)(vtp := VT_NULL)\<rparr>;
              k = (if xs = [] then stStopAlarm k else k)
          in kbind (chSysUnlockFromISR k) (\<lambda>k.
             kbind (if fn = VT_NULL then Undef else cb fn (vt_par k vtp) k) (\<lambda>k.
             kbind (chSysLockFromISR k) (\<lambda>k.
             if hd_delta (vt_list k) \<le> nowdelta then vt_inner n cb nowdelta k
             else vt_outer n cb k))))"

definition chVTDoTickI ::
  "nat \<Rightarrow> (vtfunc \<Rightarrow> ptr \<Rightarrow> kernel \<Rightarrow> kernel kres) \<Rightarrow> kernel \<Rightarrow> kernel kres" where
  "chVTDoTickI fuel cb k =
     chDbgCheckClassI k (
     kbind (vt_outer fuel cb k) (\<lambda>(now, nowdelta, k).
       case vt_list k of
         [] \<Rightarrow> Ok k
       | (vtp, d) # xs \<Rightarrow>
           let k = k\<lparr>vt_lasttime := vt_lasttime k + nowdelta, vt_list := (vtp, d - nowdelta) # xs\<rparr>;
               delta = d - nowdelta - chTimeDiffX (vt_lasttime k) now;
               delta = (if delta < CH_CFG_ST_TIMEDELTA then CH_CFG_ST_TIMEDELTA else delta)
           in kbind (stSetAlarm (chTimeAddX now delta) k) (\<lambda>k.
              let (now', k) = chVTGetSystemTimeX k
              in kguard (chTimeDiffX (vt_lasttime k) now' \<le>
                         chTimeDiffX (vt_lasttime k) (chTimeAddX now delta)) ''chVTDoTickI'' (Ok k))))"

section \<open>The delta list as a list of expiration times\<close>

text \<open>
  \<open>offs 0 xs\<close>: the armed timers with their distance from \<open>lasttime\<close> as natural numbers.
  \<open>deadlines k\<close>: the armed timers with the system time at which they expire.
\<close>

fun offs :: "nat \<Rightarrow> (vtref \<times> u32) list \<Rightarrow> (vtref \<times> nat) list" where
  "offs n [] = []"
| "offs n ((v, d) # xs) = (v, n + unat d) # offs (n + unat d) xs"

definition total :: "(vtref \<times> u32) list \<Rightarrow> nat" where
  "total xs = sum_list (map (\<lambda>(v, d). unat d) xs)"

definition deadlines :: "kernel \<Rightarrow> (vtref \<times> u32) list" where
  "deadlines k = map (\<lambda>(v, n). (v, vt_lasttime k + of_nat n)) (offs 0 (vt_list k))"

text \<open>
  \<open>vt_inv k\<close>: no timer is in the list twice, the distances do not wrap around, a timer has
  a callback exactly while it is in the list, and the alarm runs exactly while the list is
  not empty.
\<close>

definition vt_inv :: "kernel \<Rightarrow> bool" where
  "vt_inv k \<longleftrightarrow>
     distinct (map fst (vt_list k)) \<and> total (vt_list k) < 2 ^ 32 \<and>
     VT NULL \<notin> fst ` set (vt_list k) \<and>
     (\<forall>v. vt_func k v \<noteq> VT_NULL \<longleftrightarrow> v \<in> fst ` set (vt_list k)) \<and>
     (vt_alarm k = None \<longleftrightarrow> vt_list k = [])"

lemma total_simps [simp]: "total [] = 0" "total ((v, d) # xs) = unat d + total xs"
  by (simp_all add: total_def)

lemma map_fst_offs [simp]: "map fst (offs n xs) = map fst xs"
  by (induction xs arbitrary: n) auto

lemma offs_Nil_iff [simp]: "offs n xs = [] \<longleftrightarrow> xs = []"
  by (cases xs) auto

lemma set_fst_offs: "fst ` set (offs n xs) = fst ` set xs"
  by (metis list.set_map map_fst_offs)

lemma sorted_offs: "sorted (map snd (offs n xs)) \<and> (\<forall>p\<in>set (offs n xs). n \<le> snd p)"
  by (induction xs arbitrary: n) (fastforce)+

lemma offs_le_total: "p \<in> set (offs n xs) \<Longrightarrow> snd p \<le> n + total xs"
  by (induction xs arbitrary: n) fastforce+

lemma unat_sub_le: "(d::u32) \<le> e \<Longrightarrow> unat (e - d) = unat e - unat d"
  by (rule unat_sub)

lemma vt_insert_offs:
  assumes "v \<notin> fst ` set xs"
  shows "\<exists>ys. vt_insert v delta xs = Ok ys \<and>
    offs n ys = insort_wrt (\<lambda>p. snd p < n + unat delta) (v, n + unat delta) (offs n xs) \<and>
    total ys = max (total xs) (unat delta)"
  using assms
proof (induction v delta xs arbitrary: n rule: vt_insert.induct)
  case (2 v delta p d xs)
  show ?case
  proof (cases "d < delta")
    case True
    then have le: "unat (delta - d) = unat delta - unat d" "unat d < unat delta"
      by (simp_all add: unat_sub_le less_imp_le flip: word_less_nat_alt)
    from 2 True obtain ys where ys: "vt_insert v (delta - d) xs = Ok ys"
      "offs (n + unat d) ys = insort_wrt (\<lambda>p. snd p < n + unat d + unat (delta - d))
         (v, n + unat d + unat (delta - d)) (offs (n + unat d) xs)"
      "total ys = max (total xs) (unat (delta - d))"
      by (auto dest!: meta_spec [where x = "n + unat d"])
    from True le ys 2(2) show ?thesis by auto
  next
    case False
    then have "unat (d - delta) = unat d - unat delta" "unat delta \<le> unat d"
      by (simp_all add: unat_sub_le not_less flip: word_le_nat_alt)
    with False 2(2) show ?thesis by auto
  qed
qed auto

lemma vt_insert_split:
  "vt_insert v delta xs = Ok ys \<Longrightarrow> \<exists>as bs. map fst xs = as @ bs \<and> map fst ys = as @ v # bs"
proof (induction v delta xs arbitrary: ys rule: vt_insert.induct)
  case (2 v delta p d xs)
  show ?case
  proof (cases "d < delta")
    case True
    with 2 obtain zs as bs where "ys = (p, d) # zs" "map fst xs = as @ bs" "map fst zs = as @ v # bs"
      by auto
    then show ?thesis by (intro exI [of _ "p # as"] exI [of _ bs]) simp
  next
    case False
    with 2 have "ys = (v, delta) # (p, d - delta) # xs" by (auto split: if_splits)
    then show ?thesis by (metis append_Nil fst_conv list.simps(9))
  qed
qed auto

lemma vt_insert_set:
  assumes "vt_insert v delta xs = Ok ys"
  shows "fst ` set ys = insert v (fst ` set xs)" and "ys \<noteq> []"
    and "distinct (map fst ys) \<longleftrightarrow> distinct (map fst xs) \<and> v \<notin> fst ` set xs"
proof -
  obtain as bs where *: "map fst xs = as @ bs" "map fst ys = as @ v # bs"
    using vt_insert_split [OF assms] by blast
  then have "fst ` set xs = set as \<union> set bs" "fst ` set ys = insert v (set as \<union> set bs)"
    by (simp_all flip: list.set_map)
  then show "fst ` set ys = insert v (fst ` set xs)"
    "distinct (map fst ys) \<longleftrightarrow> distinct (map fst xs) \<and> v \<notin> fst ` set xs"
    by (auto simp: *)
  from *(2) show "ys \<noteq> []" by auto
qed

lemma total_unlink: "total (vt_unlink v xs) \<le> total xs"
proof (induction v xs rule: vt_unlink.induct)
  case (2 v p d xs)
  show ?case
  proof (cases "p = v")
    case True
    then show ?thesis by (auto split: list.split simp: unat_word_ariths)
  qed (use 2 in auto)
qed auto

lemma vt_unlink_offs:
  "distinct (map fst xs) \<Longrightarrow> total xs < 2 ^ 32 \<Longrightarrow>
   offs n (vt_unlink v xs) = filter (\<lambda>p. fst p \<noteq> v) (offs n xs)"
proof (induction v xs arbitrary: n rule: vt_unlink.induct)
  case (2 v p d xs)
  show ?case
  proof (cases "p = v")
    case True
    have keep: "filter (\<lambda>p. fst p \<noteq> v) (offs m xs) = offs m xs" for m
      using 2(2) True by (auto simp: filter_id_conv simp flip: set_fst_offs [of m xs])
    show ?thesis
    proof (cases xs)
      case (Cons a ys)
      obtain q e where a: "a = (q, e)" by force
      have "unat (e + d) = unat e + unat d"
        using 2(3) Cons a by (simp add: unat_word_ariths)
      then show ?thesis using True Cons a keep [of "n + unat d"] by (simp add: ac_simps)
    qed (use True in simp)
  qed (use 2 in auto)
qed auto

lemma map_fst_unlink: "map fst (vt_unlink v xs) = remove1 v (map fst xs)"
  by (induction v xs rule: vt_unlink.induct) (auto split: list.split)

lemma vt_unlink_set: "distinct (map fst xs) \<Longrightarrow> fst ` set (vt_unlink v xs) = fst ` set xs - {v}"
  by (metis list.set_map map_fst_unlink set_remove1_eq)

lemma vt_unlink_distinct: "distinct (map fst xs) \<Longrightarrow> distinct (map fst (vt_unlink v xs))"
  by (simp add: map_fst_unlink distinct_remove1)

section \<open>Arming and disarming\<close>

text \<open>The delay that is really used: never below the minimum safe delta.\<close>

definition safe_delay :: "u32 \<Rightarrow> u32" where
  "safe_delay delay = (if delay < CH_CFG_ST_TIMEDELTA then CH_CFG_ST_TIMEDELTA else delay)"

definition now_of :: "kernel \<Rightarrow> u32" where
  "now_of k = st_clock k (st_reads k)"

lemma vt_invD:
  assumes "vt_inv k"
  shows "distinct (map fst (vt_list k))" "total (vt_list k) < 2 ^ 32"
    "VT NULL \<notin> fst ` set (vt_list k)" "vt_func k v \<noteq> VT_NULL \<longleftrightarrow> v \<in> fst ` set (vt_list k)"
    "vt_alarm k = None \<longleftrightarrow> vt_list k = []"
  using assms by (simp_all add: vt_inv_def)

lemmas st_defs = stStartAlarm_def stSetAlarm_def stStopAlarm_def stIsAlarmActive_def
  stGetCounter_def chVTGetSystemTimeX_def chTimeAddX_def chTimeDiffX_def

lemma set_insort_deadline:
  assumes "offs 0 ys = insort_wrt P (v, n) (offs 0 xs)"
  shows "(\<lambda>(v, n). (v, (b::u32) + of_nat n)) ` set (offs 0 ys) =
         insert (v, b + of_nat n) ((\<lambda>(v, n). (v, b + of_nat n)) ` set (offs 0 xs))"
  using assms by simp

text \<open>The expiration times again, in 32-bit arithmetic.\<close>

fun dl :: "u32 \<Rightarrow> (vtref \<times> u32) list \<Rightarrow> (vtref \<times> u32) list" where
  "dl b [] = []"
| "dl b ((v, d) # xs) = (v, b + d) # dl (b + d) xs"

lemma dl_offs: "map (\<lambda>(v, n). (v, b + of_nat n)) (offs n xs) = dl (b + of_nat n) xs"
  by (induction xs arbitrary: n) (auto simp: ac_simps)

lemma deadlines_dl: "deadlines k = dl (vt_lasttime k) (vt_list k)"
  using dl_offs [of "vt_lasttime k" 0 "vt_list k"] by (simp add: deadlines_def)

lemma compress_due:
  assumes "dn \<le> hd_delta xs" and "xs \<noteq> []" and "total xs < 2 ^ 32"
  obtains l where "compress_loop dn xs = (dn, l)" and "map fst l = map fst xs"
    and "total l < 2 ^ 32" and "\<And>b. dl (b + dn) l = dl b xs"
proof -
  obtain v d ys where "xs = (v, d) # ys" using assms(2) by (metis list.exhaust surj_pair)
  moreover from this have le: "dn \<le> d" "\<not> d < dn" using assms(1) by (simp_all add: hd_delta_def not_less)
  ultimately show thesis
    using assms(3) that [of "(v, d - dn) # ys"] by (simp add: unat_sub_le [OF le(1)])
qed

lemma chVTDoSetI_inserts:
  assumes inv: "vt_inv k" and ctx: "i_ctx k" and v: "vt_func k v = VT_NULL" "v \<noteq> VT NULL"
    and fn: "fn \<noteq> VT_NULL" and delay: "delay \<noteq> TIME_IMMEDIATE"
    and range: "vt_list k = [] \<or> now_of k - vt_lasttime k \<le> hd_delta (vt_list k) \<or>
      unat (now_of k - vt_lasttime k) + unat (safe_delay delay) < 2 ^ 32"
  obtains k' where "chVTDoSetI v delay fn par k = Ok k'" and "vt_inv k'"
    and "set (deadlines k') = insert (v, now_of k + safe_delay delay) (set (deadlines k))"
    and "vt_func k' = (vt_func k)(v := fn)" and "vt_par k' = (vt_par k)(v := par)"
    and "threads k' = threads k" and "queues k' = queues k"
proof (cases "vt_list k = []")
  case True
  define k' where "k' = k\<lparr>vt_par := (vt_par k)(v := par), vt_func := (vt_func k)(v := fn),
    st_reads := Suc (st_reads k), vt_lasttime := now_of k, vt_list := [(v, safe_delay delay)],
    vt_alarm := Some (now_of k + safe_delay delay)\<rparr>"
  have "chVTDoSetI v delay fn par k = Ok k'"
    using assms True vt_invD(5) [OF inv]
    by (simp add: chVTDoSetI_def st_defs safe_delay_def now_of_def k'_def)
  moreover have "vt_inv k'"
    using True vt_invD(4) [OF inv] v fn unat_less32 [of "safe_delay delay"]
    by (auto simp: vt_inv_def k'_def)
  ultimately show thesis
    using True that by (simp add: deadlines_def k'_def)
next
  case False
  define dn where "dn = now_of k - vt_lasttime k"
  define delta where "delta = dn + safe_delay delay"
  have vn: "v \<notin> fst ` set (vt_list k)" using v vt_invD(4) [OF inv] by blast
  obtain e k1 where pre:
    "chVTDoSetI v delay fn par k = kbind (vt_insert v e (vt_list k1)) (\<lambda>l. Ok (k1\<lparr>vt_list := l\<rparr>))"
    "vt_lasttime k1 + e = now_of k + safe_delay delay" "deadlines k1 = deadlines k"
    "map fst (vt_list k1) = map fst (vt_list k)" "total (vt_list k1) < 2 ^ 32"
    "vt_func k1 = (vt_func k)(v := fn)" "vt_par k1 = (vt_par k)(v := par)"
    "vt_alarm k1 \<noteq> None" "threads k1 = threads k" "queues k1 = queues k"
  proof (cases "delta < dn")
    case True
    then have "dn \<le> hd_delta (vt_list k)"
      using range False unat_plus_less [of dn "safe_delay delay"]
      by (auto simp: dn_def delta_def word_less_nat_alt)
    then obtain l where l: "compress_loop dn (vt_list k) = (dn, l)" "map fst l = map fst (vt_list k)"
      "total l < 2 ^ 32" "\<And>b. dl (b + dn) l = dl b (vt_list k)"
      using compress_due False vt_invD(2) [OF inv] by metis
    define k1 where "k1 = k\<lparr>vt_par := (vt_par k)(v := par), vt_func := (vt_func k)(v := fn),
      st_reads := Suc (st_reads k), vt_list := l, vt_lasttime := vt_lasttime k + dn\<rparr>"
    have "chVTDoSetI v delay fn par k =
        kbind (vt_insert v (safe_delay delay) (vt_list k1)) (\<lambda>l. Ok (k1\<lparr>vt_list := l\<rparr>))"
      using ctx v fn delay False True l(1)
      unfolding k1_def delta_def dn_def now_of_def safe_delay_def
      by (simp add: chVTDoSetI_def vt_list_compress_def st_defs Let_def)
    moreover have "vt_lasttime k + dn = now_of k" by (simp add: dn_def)
    ultimately show thesis
      using that [of "safe_delay delay" k1] l(2,3) l(4) [of "vt_lasttime k"] vt_invD(5) [OF inv] False
      by (simp add: k1_def deadlines_dl)
  next
    case no: False
    define k1 where "k1 = k\<lparr>vt_par := (vt_par k)(v := par), vt_func := (vt_func k)(v := fn),
      st_reads := Suc (st_reads k),
      vt_alarm := (if delta < hd_delta (vt_list k) then Some (vt_lasttime k + delta) else vt_alarm k)\<rparr>"
    have "chVTDoSetI v delay fn par k =
        kbind (vt_insert v delta (vt_list k1)) (\<lambda>l. Ok (k1\<lparr>vt_list := l\<rparr>))"
      using ctx v fn delay False no vt_invD(5) [OF inv]
      unfolding k1_def delta_def dn_def now_of_def safe_delay_def
      by (simp add: chVTDoSetI_def st_defs Let_def)
    then show thesis
      using that [of delta k1] vt_invD(2,5) [OF inv] False
      by (simp add: k1_def deadlines_def) (simp add: delta_def dn_def)
  qed
  have same: "fst ` set (vt_list k1) = fst ` set (vt_list k)" using pre(4) by (metis list.set_map)
  with vn have vn1: "v \<notin> fst ` set (vt_list k1)" by simp
  obtain ys where ys: "vt_insert v e (vt_list k1) = Ok ys"
    "offs 0 ys = insort_wrt (\<lambda>p. snd p < unat e) (v, unat e) (offs 0 (vt_list k1))"
    "total ys = max (total (vt_list k1)) (unat e)"
    using vt_insert_offs [OF vn1, of e 0] by auto
  have "vt_inv (k1\<lparr>vt_list := ys\<rparr>)"
    using vt_insert_set [OF ys(1)] inv vn1 v fn pre(4-8) same ys(3) unat_less32 [of e]
    by (auto simp: vt_inv_def)
  moreover have "set (deadlines (k1\<lparr>vt_list := ys\<rparr>)) =
      insert (v, now_of k + safe_delay delay) (set (deadlines k))"
    unfolding pre(2,3) [symmetric] using ys(2) by (simp add: deadlines_def)
  ultimately show thesis
    using that pre ys(1) by simp
qed

lemma chVTDoResetI_removes:
  assumes inv: "vt_inv k" and ctx: "i_ctx k" and v: "vt_func k v \<noteq> VT_NULL"
  obtains k' where "chVTDoResetI v k = Ok k'" and "vt_inv k'"
    and "deadlines k' = filter (\<lambda>p. fst p \<noteq> v) (deadlines k)"
    and "vt_func k' = (vt_func k)(v := VT_NULL)"
    and "threads k' = threads k" and "queues k' = queues k"
proof -
  have mem: "v \<in> fst ` set (vt_list k)" and vn: "v \<noteq> VT NULL" using v vt_invD(3,4) [OF inv] by blast+
  define k1 where "k1 = k\<lparr>vt_list := vt_unlink v (vt_list k), vt_func := (vt_func k)(v := VT_NULL)\<rparr>"
  have core: "distinct (map fst (vt_list k1))" "total (vt_list k1) < 2 ^ 32"
    "fst ` set (vt_list k1) = fst ` set (vt_list k) - {v}"
    using inv total_unlink [of v "vt_list k"]
    by (simp_all add: k1_def vt_unlink_distinct vt_unlink_set vt_inv_def)
  have *: "vt_inv (k1\<lparr>st_reads := r, vt_alarm := a\<rparr>)" if "a = None \<longleftrightarrow> vt_list k1 = []" for r a
    using core that inv by (auto simp: vt_inv_def k1_def)
  have dl: "deadlines (k1\<lparr>st_reads := r, vt_alarm := a\<rparr>) = filter (\<lambda>p. fst p \<noteq> v) (deadlines k)" for r a
    using vt_unlink_offs [of "vt_list k" 0 v] inv
    by (simp add: deadlines_def k1_def vt_inv_def filter_map comp_def case_prod_unfold)
  have al: "vt_alarm k \<noteq> None" using vt_invD(5) [OF inv] mem by auto
  have "\<exists>r a. chVTDoResetI v k = Ok (k1\<lparr>st_reads := r, vt_alarm := a\<rparr>) \<and> (a = None \<longleftrightarrow> vt_list k1 = [])"
  proof (cases "fst (hd (vt_list k)) = v")
    case False
    then have "chVTDoResetI v k = Ok (k1\<lparr>st_reads := st_reads k, vt_alarm := vt_alarm k\<rparr>)"
      using ctx v vn mem by (auto simp: chVTDoResetI_def k1_def)
    moreover have "vt_list k1 \<noteq> []"
      using False mem by (cases "vt_list k") (auto simp: k1_def)
    ultimately show ?thesis
      using al by (intro exI [of _ "st_reads k"] exI [of _ "vt_alarm k"]) simp
  next
    case True
    show ?thesis
    proof (cases "vt_list k1 = []")
      case empty: True
      then have "chVTDoResetI v k = Ok (k1\<lparr>st_reads := st_reads k, vt_alarm := None\<rparr>)"
        using True ctx v vn mem by (auto simp: chVTDoResetI_def st_defs k1_def)
      then show ?thesis using empty by blast
    next
      case nonempty: False
      let ?now = "st_clock k (st_reads k)"
      define a where "a = (if ?now - vt_lasttime k \<ge> hd_delta (vt_list k1) then vt_alarm k
        else Some (vt_lasttime k + (if hd_delta (vt_list k1) - (?now - vt_lasttime k) < CH_CFG_ST_TIMEDELTA
          then ?now - vt_lasttime k + CH_CFG_ST_TIMEDELTA
          else ?now - vt_lasttime k + (hd_delta (vt_list k1) - (?now - vt_lasttime k)))))"
      have "chVTDoResetI v k = Ok (k1\<lparr>st_reads := Suc (st_reads k), vt_alarm := a\<rparr>)"
        using True nonempty ctx v vn mem al
        by (simp add: chVTDoResetI_def st_defs Let_def k1_def a_def)
      moreover have "a \<noteq> None" using al by (simp add: a_def)
      ultimately show ?thesis using nonempty by blast
    qed
  qed
  then obtain r a where "chVTDoResetI v k = Ok (k1\<lparr>st_reads := r, vt_alarm := a\<rparr>)"
    "a = None \<longleftrightarrow> vt_list k1 = []" by blast
  then show thesis using that * dl by (simp add: k1_def)
qed

section \<open>Expiration\<close>

text \<open>
  What a tick consumes: \<open>expire nowdelta lasttime xs\<close> drops the timers that are due
  \<open>nowdelta\<close> ticks after \<open>lasttime\<close>, and advances \<open>lasttime\<close> to the last of them.
\<close>

fun expire :: "u32 \<Rightarrow> u32 \<Rightarrow> (vtref \<times> u32) list \<Rightarrow> u32 \<times> (vtref \<times> u32) list" where
  "expire nd b [] = (b, [])"
| "expire nd b ((v, d) # xs) = (if d \<le> nd then expire (nd - d) (b + d) xs else (b, (v, d) # xs))"

lemma expire_deadlines:
  assumes "expire nd b xs = (b', ys)" and "unat nd0 = m + unat nd" and "b = c + of_nat m"
  shows "dl b' ys = map (\<lambda>(v, n). (v, c + of_nat n)) (filter (\<lambda>p. unat nd0 < snd p) (offs m xs))"
  using assms
proof (induction nd b xs arbitrary: m rule: expire.induct)
  case (2 nd b v d xs)
  show ?case
  proof (cases "d \<le> nd")
    case True
    then have "unat (nd - d) = unat nd - unat d" "unat d \<le> unat nd"
      by (simp_all add: unat_sub_le flip: word_le_nat_alt)
    with 2(1) [OF True, of "m + unat d"] 2(2-4) True show ?thesis by (simp add: ac_simps)
  next
    case False
    then have lt: "unat nd0 < m + unat d"
      using 2(3) by (simp add: word_le_nat_alt)
    then have "filter (\<lambda>p. unat nd0 < snd p) (offs (m + unat d) xs) = offs (m + unat d) xs"
      using sorted_offs [of "m + unat d" xs] by (fastforce simp: filter_id_conv)
    then show ?thesis
      using 2 False lt dl_offs [of c "m + unat d" xs] by (auto simp: ac_simps)
  qed
qed auto

lemma expire_suffix: "expire nd b xs = (b', ys) \<Longrightarrow> \<exists>zs. xs = zs @ ys"
  by (induction nd b xs rule: expire.induct) (auto split: if_splits)

lemma expire_stops: "expire nd b xs = (b', ys) \<Longrightarrow> ys \<noteq> [] \<Longrightarrow> b + nd - b' < hd_delta ys"
  by (induction nd b xs rule: expire.induct)
    (auto simp: hd_delta_def not_le algebra_simps split: if_splits)

abbreviation armed :: "kernel \<Rightarrow> vtref set" where "armed k \<equiv> fst ` set (vt_list k)"

lemma armed_deadlines: "armed k = fst ` set (deadlines k)"
  by (simp add: deadlines_def image_image case_prod_unfold set_fst_offs)

definition vt_same :: "kernel \<Rightarrow> kernel \<Rightarrow> bool" where
  "vt_same k k' \<longleftrightarrow> vt_list k' = vt_list k \<and> vt_lasttime k' = vt_lasttime k \<and> vt_func k' = vt_func k \<and>
     vt_par k' = vt_par k \<and> vt_alarm k' = vt_alarm k \<and> st_clock k' = st_clock k \<and>
     isr_cnt k' = isr_cnt k \<and> lock_cnt k' = lock_cnt k"

text \<open>
  The contract of a timer callback: from a \<open>good\<close> state, a call that is \<open>due\<close> finishes, leaves
  the timers alone, changes only the thread it is given, has its effect (\<open>served\<close>), and
  neither undoes the effect of an earlier callback nor prevents a later one.
\<close>

locale tick_callback =
  fixes cb :: "vtfunc \<Rightarrow> ptr \<Rightarrow> kernel \<Rightarrow> kernel kres"
    and good :: "kernel \<Rightarrow> bool"
    and due :: "vtfunc \<Rightarrow> ptr \<Rightarrow> kernel \<Rightarrow> bool"
    and served :: "vtfunc \<Rightarrow> ptr \<Rightarrow> kernel \<Rightarrow> bool"
  assumes run: "good k \<Longrightarrow> due fn par k \<Longrightarrow> fn \<noteq> VT_NULL \<Longrightarrow> isr_cnt k > 0 \<Longrightarrow> lock_cnt k = 0 \<Longrightarrow>
      \<exists>k'. cb fn par k = Ok k' \<and> good k' \<and> served fn par k' \<and> vt_same k k' \<and>
        (\<forall>t. t \<noteq> par \<longrightarrow> threads k' t = threads k t) \<and>
        (\<forall>f p. due f p k \<longrightarrow> due f p k') \<and> (\<forall>f p. served f p k \<longrightarrow> served f p k')"
    and frame: "threads k' = threads k \<Longrightarrow> queues k' = queues k \<Longrightarrow> currp k' = currp k \<Longrightarrow>
      good k' = good k \<and> due f p k' = due f p k \<and> served f p k' = served f p k"
begin

definition ticked :: "u32 \<Rightarrow> kernel \<Rightarrow> kernel \<Rightarrow> bool" where
  "ticked now k k' \<longleftrightarrow>
     (vt_lasttime k', vt_list k') = expire (now - vt_lasttime k) (vt_lasttime k) (vt_list k) \<and>
     good k' \<and> isr_ctx k' \<and> (\<forall>n. st_clock k' n = now) \<and> vt_par k' = vt_par k \<and>
     (\<forall>v. vt_func k' v = (if v \<in> armed k - armed k' then VT_NULL else vt_func k v)) \<and>
     vt_alarm k' = (if vt_list k' = [] then None else vt_alarm k) \<and>
     (\<forall>v\<in>armed k - armed k'. served (vt_func k v) (vt_par k v) k') \<and>
     (\<forall>f p. served f p k \<longrightarrow> served f p k') \<and>
     (\<forall>t. t \<notin> vt_par k ` (armed k - armed k') \<longrightarrow> threads k' t = threads k t)"

definition tickable :: "u32 \<Rightarrow> kernel \<Rightarrow> bool" where
  "tickable now k \<longleftrightarrow> good k \<and> isr_ctx k \<and> (\<forall>n. st_clock k n = now) \<and> now - vt_lasttime k \<noteq> - 1 \<and>
     distinct (map fst (vt_list k)) \<and>
     (\<forall>v\<in>armed k. vt_func k v \<noteq> VT_NULL \<and> due (vt_func k v) (vt_par k v) k)"

text \<open>One consumed timer: the callback runs with the system unlocked.\<close>

lemma consume:
  assumes "tickable now k" and "vt_list k = (v, d) # xs" and "d \<le> now - vt_lasttime k"
  obtains k2 where
    "\<And>n. vt_inner (Suc n) cb (now - vt_lasttime k) k =
       (if hd_delta xs \<le> now - vt_lasttime k2 then vt_inner n cb (now - vt_lasttime k2) k2
        else vt_outer n cb k2)"
    and "tickable now k2" and "vt_list k2 = xs" and "vt_lasttime k2 = vt_lasttime k + d"
    and "vt_par k2 = vt_par k" and "vt_func k2 = (vt_func k)(v := VT_NULL)"
    and "vt_alarm k2 = (if xs = [] then None else vt_alarm k)"
    and "served (vt_func k v) (vt_par k v) k2" and "\<forall>f p. served f p k \<longrightarrow> served f p k2"
    and "\<forall>t. t \<noteq> vt_par k v \<longrightarrow> threads k2 t = threads k t"
proof -
  define k1 where "k1 = k\<lparr>vt_lasttime := vt_lasttime k + d, vt_list := xs,
    vt_func := (vt_func k)(v := VT_NULL), vt_alarm := (if xs = [] then None else vt_alarm k), lock_cnt := 0\<rparr>"
  have fr: "good k1" "due f p k1 = due f p k" "served f p k1 = served f p k" for f p
    using frame [of k1 k f p] assms(1) by (auto simp: k1_def tickable_def)
  have "due (vt_func k v) (vt_par k v) k1" "vt_func k v \<noteq> VT_NULL" "isr_cnt k1 > 0" "lock_cnt k1 = 0"
    using assms fr by (auto simp: tickable_def isr_ctx_def k1_def)
  from run [OF fr(1) this] obtain k' where k': "cb (vt_func k v) (vt_par k v) k1 = Ok k'" "good k'"
    "served (vt_func k v) (vt_par k v) k'" "vt_same k1 k'"
    "\<forall>t. t \<noteq> vt_par k v \<longrightarrow> threads k' t = threads k1 t" "\<forall>f p. due f p k1 \<longrightarrow> due f p k'"
    "\<forall>f p. served f p k1 \<longrightarrow> served f p k'" by blast
  have fr2: "good (k'\<lparr>lock_cnt := 1\<rparr>)" "due f p (k'\<lparr>lock_cnt := 1\<rparr>) = due f p k'"
    "served f p (k'\<lparr>lock_cnt := 1\<rparr>) = served f p k'" for f p
    using frame [of "k'\<lparr>lock_cnt := 1\<rparr>" k' f p] k'(2) by auto
  have xs: "v \<notin> fst ` set xs" using assms(1,2) by (simp add: tickable_def)
  have "vt_inner (Suc n) cb (now - vt_lasttime k) k =
      (if hd_delta xs \<le> now - vt_lasttime (k'\<lparr>lock_cnt := 1\<rparr>)
       then vt_inner n cb (now - vt_lasttime (k'\<lparr>lock_cnt := 1\<rparr>)) (k'\<lparr>lock_cnt := 1\<rparr>)
       else vt_outer n cb (k'\<lparr>lock_cnt := 1\<rparr>))" for n
    using assms k'(1,4) \<open>vt_func k v \<noteq> VT_NULL\<close>
    by (auto simp: chSysUnlockFromISR_def chSysLockFromISR_def dbg_defs isr_ctx_def tickable_def
        stStopAlarm_def vt_same_def k1_def Let_def algebra_simps)
  moreover have "now - (vt_lasttime k + d) \<noteq> - 1"
    using word_minus_max [of d "now - vt_lasttime k"] assms(1,3)
    by (simp add: tickable_def algebra_simps)
  then have "tickable now (k'\<lparr>lock_cnt := 1\<rparr>)"
    using assms(1,2) k' fr fr2 xs
    by (auto simp: tickable_def vt_same_def isr_ctx_def k1_def algebra_simps)
  ultimately show thesis
    using that [of "k'\<lparr>lock_cnt := 1\<rparr>"] k' fr fr2 assms(2)
    by (simp add: vt_same_def k1_def)
qed

lemma ticked_none:
  assumes "tickable now k" and "now - vt_lasttime k < hd_delta (vt_list k)"
    and "vt_alarm k = None \<or> vt_list k \<noteq> []"
  shows "ticked now k (k\<lparr>st_reads := r\<rparr>)"
    and "vt_outer (Suc n) cb k = Ok (now, now - vt_lasttime k, k\<lparr>st_reads := Suc (st_reads k)\<rparr>)"
proof -
  have "expire (now - vt_lasttime k) (vt_lasttime k) (vt_list k) = (vt_lasttime k, vt_list k)"
    using assms(2) by (cases "vt_list k") (auto simp: hd_delta_def)
  then show "ticked now k (k\<lparr>st_reads := r\<rparr>)"
    using assms frame [of "k\<lparr>st_reads := r\<rparr>" k]
    by (auto simp: ticked_def tickable_def isr_ctx_def)
  show "vt_outer (Suc n) cb k = Ok (now, now - vt_lasttime k, k\<lparr>st_reads := Suc (st_reads k)\<rparr>)"
    using assms by (simp add: tickable_def st_defs)
qed

lemma ticked_step:
  assumes "ticked now k2 k'" and "vt_list k = (v, d) # vt_list k2" and "d \<le> now - vt_lasttime k"
    and "v \<notin> armed k2" and "vt_lasttime k2 = vt_lasttime k + d"
    and "vt_par k2 = vt_par k" and "vt_func k2 = (vt_func k)(v := VT_NULL)"
    and "vt_alarm k2 = (if vt_list k2 = [] then None else vt_alarm k)"
    and "served (vt_func k v) (vt_par k v) k2" and "\<forall>f p. served f p k \<longrightarrow> served f p k2"
    and "\<forall>t. t \<noteq> vt_par k v \<longrightarrow> threads k2 t = threads k t"
  shows "ticked now k k'"
proof -
  obtain zs where zs: "vt_list k2 = zs @ vt_list k'"
    using assms(1) expire_suffix unfolding ticked_def by metis
  have "armed k - armed k' = insert v (armed k2 - armed k')" "v \<notin> armed k'"
    using assms(2,4) zs by auto
  moreover have "expire (now - vt_lasttime k) (vt_lasttime k) (vt_list k) =
      expire (now - vt_lasttime k2) (vt_lasttime k2) (vt_list k2)"
    using assms(2,3,5) by (simp add: algebra_simps)
  moreover have "vt_func k w = vt_func k2 w" if "w \<in> armed k2 - armed k'" for w
    using that assms(4,7) by auto
  ultimately show ?thesis
    using assms(1,6-11) zs unfolding ticked_def by auto
qed

lemma inner_expires:
  assumes "tickable now k" and "vt_list k \<noteq> []" and "hd_delta (vt_list k) \<le> now - vt_lasttime k"
    and "length (vt_list k) < n"
  shows "\<exists>k'. vt_inner n cb (now - vt_lasttime k) k = Ok (now, now - vt_lasttime k', k') \<and> ticked now k k'"
  using assms
proof (induction "vt_list k" arbitrary: k n)
  case (Cons a xs)
  obtain v d where a: "a = (v, d)" by force
  have "Suc (length xs) < n" using Cons(6) by (simp flip: Cons(2))
  then obtain m where n: "n = Suc (Suc m)" "length xs < Suc m"
    by (cases n; cases "n - 1") auto
  have d: "d \<le> now - vt_lasttime k" and vl: "vt_list k = (v, d) # xs"
    using Cons(2,5) a by (auto simp: hd_delta_def dest: sym)
  obtain k2 where k2: "\<And>n. vt_inner (Suc n) cb (now - vt_lasttime k) k =
       (if hd_delta xs \<le> now - vt_lasttime k2 then vt_inner n cb (now - vt_lasttime k2) k2
        else vt_outer n cb k2)"
    "tickable now k2" "vt_list k2 = xs" "vt_lasttime k2 = vt_lasttime k + d"
    "vt_par k2 = vt_par k" "vt_func k2 = (vt_func k)(v := VT_NULL)"
    "vt_alarm k2 = (if xs = [] then None else vt_alarm k)"
    "served (vt_func k v) (vt_par k v) k2" "\<forall>f p. served f p k \<longrightarrow> served f p k2"
    "\<forall>t. t \<noteq> vt_par k v \<longrightarrow> threads k2 t = threads k t"
    by (rule consume [OF Cons(3) vl d]) (rule that; assumption)
  have vn: "v \<notin> armed k2" using Cons(3) vl k2(3) by (simp add: tickable_def)
  have step: "ticked now k2 k' \<Longrightarrow> ticked now k k'" for k'
    using ticked_step [of now k2 k' k v d] vl d vn k2 by simp
  show ?case
  proof (cases "hd_delta xs \<le> now - vt_lasttime k2")
    case True
    have "xs \<noteq> []"
      using True k2(2) by (auto simp: hd_delta_def tickable_def word_order.extremum_unique)
    then have "\<exists>k'. vt_inner (Suc m) cb (now - vt_lasttime k2) k2 = Ok (now, now - vt_lasttime k', k') \<and>
        ticked now k2 k'"
      using Cons(1) [of k2 "Suc m"] k2(2,3) True n(2) by simp
    then show ?thesis using k2(1) [of "Suc m"] True n(1) step by auto
  next
    case False
    then show ?thesis
      using k2(1) [of "Suc m"] ticked_none [of now k2] k2(2,3,7) n(1) step by (auto simp: not_le)
  qed
qed simp

lemma outer_expires:
  assumes "tickable now k" and "vt_alarm k = None \<or> vt_list k \<noteq> []" and "length (vt_list k) + 1 < n"
  shows "\<exists>k'. vt_outer n cb k = Ok (now, now - vt_lasttime k', k') \<and> ticked now k k'"
proof -
  obtain m where n: "n = Suc m" "length (vt_list k) < m" using assms(3) by (cases n) auto
  show ?thesis
  proof (cases "now - vt_lasttime k < hd_delta (vt_list k)")
    case True
    then show ?thesis using ticked_none [OF assms(1) True assms(2)] n(1) by auto
  next
    case False
    let ?k = "k\<lparr>st_reads := Suc (st_reads k)\<rparr>"
    have t: "tickable now ?k"
      using assms(1) frame [of ?k k] by (auto simp: tickable_def isr_ctx_def)
    have "vt_list k \<noteq> []"
      using False assms(1) by (auto simp: hd_delta_def tickable_def word_order.not_eq_extremum)
    with inner_expires [OF t, of m] False n obtain k' where
      "vt_inner m cb (now - vt_lasttime k) ?k = Ok (now, now - vt_lasttime k', k')" "ticked now ?k k'"
      by (auto simp: not_less)
    moreover from this(2) have "ticked now k k'"
      using frame [of ?k k] unfolding ticked_def by simp
    ultimately show ?thesis
      using n(1) False assms(1) by (simp add: tickable_def st_defs)
  qed
qed

lemma ticked_inv:
  assumes "ticked now k k'" and "vt_inv k"
  shows "vt_inv k'" and "armed k' \<subseteq> armed k"
    and "deadlines k' = map (\<lambda>(v, n). (v, vt_lasttime k + of_nat n))
           (filter (\<lambda>p. unat (now - vt_lasttime k) < snd p) (offs 0 (vt_list k)))"
    and "vt_list k' \<noteq> [] \<Longrightarrow> now - vt_lasttime k' < hd_delta (vt_list k')"
proof -
  have ex: "expire (now - vt_lasttime k) (vt_lasttime k) (vt_list k) = (vt_lasttime k', vt_list k')"
    using assms(1) by (simp add: ticked_def)
  then show "deadlines k' = map (\<lambda>(v, n). (v, vt_lasttime k + of_nat n))
           (filter (\<lambda>p. unat (now - vt_lasttime k) < snd p) (offs 0 (vt_list k)))"
    using expire_deadlines [OF ex, of "now - vt_lasttime k" 0 "vt_lasttime k"] by (simp add: deadlines_dl)
  show "vt_list k' \<noteq> [] \<Longrightarrow> now - vt_lasttime k' < hd_delta (vt_list k')"
    using expire_stops [OF ex] by simp
  obtain zs where zs: "vt_list k = zs @ vt_list k'" using expire_suffix [OF ex] by blast
  then show "armed k' \<subseteq> armed k" by auto
  show "vt_inv k'"
    using assms zs by (auto simp: vt_inv_def ticked_def total_def)
qed

lemma tick:
  assumes "tickable now k" and "vt_inv k" and "length (vt_list k) + 1 < n"
  obtains k' where "chVTDoTickI n cb k = Ok k'" and "vt_inv k'" and "good k'"
    and "deadlines k' = map (\<lambda>(v, n). (v, vt_lasttime k + of_nat n))
           (filter (\<lambda>p. unat (now - vt_lasttime k) < snd p) (offs 0 (vt_list k)))"
    and "\<And>v. v \<in> armed k - armed k' \<Longrightarrow> served (vt_func k v) (vt_par k v) k' \<and> vt_func k' v = VT_NULL"
    and "\<And>v. v \<in> armed k' \<Longrightarrow> vt_func k' v = vt_func k v"
    and "\<And>t. t \<notin> vt_par k ` (armed k - armed k') \<Longrightarrow> threads k' t = threads k t"
    and "armed k' \<subseteq> armed k"
proof -
  obtain k1 where k1: "vt_outer n cb k = Ok (now, now - vt_lasttime k1, k1)" "ticked now k k1"
    using outer_expires [OF assms(1) _ assms(3)] vt_invD(5) [OF assms(2)] by blast
  note inv = ticked_inv [OF k1(2) assms(2)]
  have ctx: "i_ctx k" using assms(1) by (simp add: tickable_def)
  show thesis
  proof (cases "vt_list k1")
    case Nil
    then have "chVTDoTickI n cb k = Ok k1" using ctx k1(1) by (simp add: chVTDoTickI_def)
    then show thesis using that [of k1] inv k1(2) by (simp add: ticked_def)
  next
    case (Cons a xs)
    obtain v d where a: "a = (v, d)" by force
    let ?nd = "now - vt_lasttime k1"
    have nd: "?nd < d" "\<not> d < ?nd" using inv(4) Cons a by (auto simp: hd_delta_def)
    define e r where "e = now + safe_delay (d + vt_lasttime k1 - now)"
      and "r = Suc (st_reads k1)"
    moreover have "vt_alarm k1 \<noteq> None" "\<And>n. st_clock k1 n = now"
      using Cons vt_invD(5) [OF inv(1)] k1(2) by (simp_all add: ticked_def)
    ultimately have e: "chVTDoTickI n cb k =
        Ok (k1\<lparr>vt_lasttime := now, vt_list := (v, d - ?nd) # xs, vt_alarm := Some e, st_reads := r\<rparr>)"
      using ctx k1(1) Cons a by (simp add: chVTDoTickI_def st_defs safe_delay_def Let_def)
    let ?k = "k1\<lparr>vt_lasttime := now, vt_list := (v, d - ?nd) # xs, vt_alarm := Some e, st_reads := r\<rparr>"
    have "unat (d - ?nd) \<le> unat d" using nd by (simp add: unat_sub_le)
    then have "vt_inv ?k" using inv(1) Cons a by (simp add: vt_inv_def)
    moreover have "deadlines ?k = deadlines k1" using Cons a by (simp add: deadlines_dl add.commute)
    moreover have "good ?k" "\<And>f p. served f p ?k = served f p k1" using frame [of ?k k1] k1(2) by (auto simp: ticked_def)
    moreover have "fst ` set ((v, d - ?nd) # xs) = armed k1" using Cons a by simp
    ultimately show thesis using that [of ?k] inv(2,3) k1(2) e by (auto simp: ticked_def)
  qed
qed

end

section \<open>Properties\<close>


text \<open>
  Disarming an armed timer removes exactly that timer; every other timer keeps its
  place and its expiration time.
\<close>

theorem chVTDoResetI_keeps_others:
  assumes "vt_inv k" and "i_ctx k" and "vt_func k v \<noteq> VT_NULL"
  shows "\<exists>k'. chVTDoResetI v k = Ok k' \<and> vt_inv k' \<and>
    deadlines k' = filter (\<lambda>p. fst p \<noteq> v) (deadlines k) \<and> vt_func k' = (vt_func k)(v := VT_NULL)"
  by (rule chVTDoResetI_removes [OF assms]) blast

text \<open>A delta list with two armed timers, which expire at 110 and 150; the time is 105.\<close>

definition demo_timers :: kernel where
  "demo_timers = kernel_reset\<lparr>lock_cnt := 1, st_clock := (\<lambda>_. 105), vt_lasttime := 100,
     vt_list := [(VT 16, 10), (VT 32, 40)], vt_alarm := Some 110,
     vt_func := (\<lambda>v. if v = VT 16 \<or> v = VT 32 then VT_CALLBACK 8 else VT_NULL)\<rparr>"

lemma demo_timers_inv: "vt_inv demo_timers" "i_ctx demo_timers"
  by (auto simp: demo_timers_def vt_inv_def kernel_reset_def i_ctx_def)


theorem chVTDoResetI_keeps_others_witness:
  "\<exists>k'. chVTDoResetI (VT 16) demo_timers = Ok k' \<and> vt_inv k' \<and> deadlines k' = [(VT 32, 150)]"
proof -
  have "vt_func demo_timers (VT 16) \<noteq> VT_NULL" by (simp add: demo_timers_def)
  from chVTDoResetI_keeps_others [OF demo_timers_inv this] show ?thesis
    by (auto simp: deadlines_def demo_timers_def)
qed

text \<open>
  When the delta list is compressed while a timer is overdue, the base time moves
  behind the present by the deltas that were consumed: here the timer at 16 is overdue by
  15 ticks, the timer at 32 ends up with an expiration time 10 ticks too early (1090 for 1100),
  and so does the one being armed, whose delay of 4294967285 ticks should end at
  125 + 4294967285 = 114 (modulo the counter width) but is recorded as 104.
\<close>

theorem vt_list_compress_early:
  "let k = kernel_reset\<lparr>lock_cnt := 1, st_clock := (\<lambda>_. 125), vt_lasttime := 100,
      vt_list := [(VT 16, 10), (VT 32, 990)], vt_alarm := Some 110,
      vt_func := (\<lambda>v. if v = VT 16 \<or> v = VT 32 then VT_CALLBACK 8 else VT_NULL)\<rparr>
   in vt_inv k \<and> deadlines k = [(VT 16, 110), (VT 32, 1100)] \<and> 125 + (4294967285::u32) = 114 \<and>
      ok_and (\<lambda>k'. (VT 32, 1090) \<in> set (deadlines k') \<and> (VT 48, 104) \<in> set (deadlines k') \<and>
        (VT 32, 1100) \<notin> set (deadlines k'))
      (chVTDoSetI (VT 48) 4294967285 (VT_CALLBACK 8) 7 k)"
  by (auto simp: Let_def vt_inv_def kernel_reset_def i_ctx_def deadlines_def chVTDoSetI_def
      TIME_IMMEDIATE_def CH_CFG_ST_TIMEDELTA_def st_defs vt_list_compress_def)

end
