(* ===== verification/Scheduler.thy ===== *)
theory Scheduler
  imports VTimers
begin

text \<open>
  The scheduler (\<open>os/rt/src/chschd.c\<close> and the inline part in \<open>os/rt/include/chschd.h\<close>), with
  \<open>CH_CFG_TIME_QUANTUM\<close> = 0 (no round robin) and empty hooks.

  The scan of the ready list in \<open>chSchReadyI\<close> stops at the header only because the priority
  \<open>NOPRIO\<close> of the header is below that of the thread; for a thread of priority \<open>NOPRIO\<close> it
  never stops. Taking the first thread out of an empty list is undefined.
  The lemmas show that each operation keeps the scheduling invariant \<open>sched_inv\<close>, which of
  them re-establish \<open>sched_order\<close>, and that no check fails in the contexts the operation is
  documented for. \<open>wakeup\<close> is shown to be a timer callback in the sense of the locale of
  theory \<open>VTimers\<close>.
\<close>

section \<open>Operations\<close>

definition scheduler_init :: "kernel \<Rightarrow> kernel" where
  "scheduler_init k = k\<lparr>queues := (queues k)(RLIST := []), registry := []\<rparr>"

definition chSchReadyI :: "ptr \<Rightarrow> kernel \<Rightarrow> kernel kres" where
  "chSchReadyI tp k =
     chDbgCheckClassI k (
     kguard (tp \<noteq> NULL) ''chSchReadyI'' (
     kguard (state_of k tp \<noteq> CH_STATE_READY \<and> state_of k tp \<noteq> CH_STATE_FINAL) ''chSchReadyI'' (
     let k = set_state CH_STATE_READY tp k
     in if prio_of k tp = NOPRIO then Diverge
        else Ok (upd_q RLIST (insort_wrt (\<lambda>cp. prio_of k cp \<ge> prio_of k tp) tp) k))))"

definition chSchReadyAheadI :: "ptr \<Rightarrow> kernel \<Rightarrow> kernel kres" where
  "chSchReadyAheadI tp k =
     chDbgCheckClassI k (
     kguard (tp \<noteq> NULL) ''chSchReadyAheadI'' (
     kguard (state_of k tp \<noteq> CH_STATE_READY \<and> state_of k tp \<noteq> CH_STATE_FINAL) ''chSchReadyAheadI'' (
     let k = set_state CH_STATE_READY tp k
     in Ok (upd_q RLIST (insort_wrt (\<lambda>cp. prio_of k cp > prio_of k tp) tp) k))))"

definition make_current :: "ptr \<Rightarrow> kernel \<Rightarrow> kernel" where
  "make_current tp k = set_state CH_STATE_CURRENT tp (k\<lparr>currp := tp\<rparr>)"

definition chSchGoSleepS :: "tstate \<Rightarrow> kernel \<Rightarrow> kernel kres" where
  "chSchGoSleepS newstate k =
     chDbgCheckClassS k (
     kbind (q_first_out RLIST (set_state newstate (currp k) k)) (\<lambda>(ntp, k). Ok (make_current ntp k)))"

definition chSemFastWaitI :: "ptr \<Rightarrow> kernel \<Rightarrow> kernel kres" where
  "chSemFastWaitI sp k = chDbgCheckClassI k (Ok (k\<lparr>sem_cnt := (sem_cnt k)(sp := sem_cnt k sp - 1)\<rparr>))"

definition chSemFastSignalI :: "ptr \<Rightarrow> kernel \<Rightarrow> kernel kres" where
  "chSemFastSignalI sp k = chDbgCheckClassI k (Ok (k\<lparr>sem_cnt := (sem_cnt k)(sp := sem_cnt k sp + 1)\<rparr>))"

definition wakeup :: "ptr \<Rightarrow> kernel \<Rightarrow> kernel kres" where
  "wakeup tp k =
     kbind (chSysLockFromISR k) (\<lambda>k.
     if state_of k tp = CH_STATE_READY then chSysUnlockFromISR k
     else
       kbind (case state_of k tp of
                CH_STATE_SUSPENDED \<Rightarrow> Ok (k\<lparr>trefs := (trefs k)(rdymsg_of k tp := NULL)\<rparr>)
              | CH_STATE_WTSEM \<Rightarrow>
                  kbind (chSemFastSignalI (rdymsg_of k tp) k) (\<lambda>k. Ok (q_dequeue tp k))
              | CH_STATE_QUEUED \<Rightarrow> Ok (q_dequeue tp k)
              | CH_STATE_WTCOND \<Rightarrow> Ok (q_dequeue tp k)
              | _ \<Rightarrow> Ok k) (\<lambda>k.
       kbind (chSchReadyI tp (set_u MSG_TIMEOUT tp k)) chSysUnlockFromISR))"

definition chSchGoSleepTimeoutS :: "tstate \<Rightarrow> u32 \<Rightarrow> kernel \<Rightarrow> kernel kres" where
  "chSchGoSleepTimeoutS newstate timeout k =
     chDbgCheckClassS k (
     if TIME_INFINITE \<noteq> timeout
     then kbind (chVTDoSetI (SLEEPVT (currp k)) timeout VT_WAKEUP (currp k) k) (chSchGoSleepS newstate)
     else chSchGoSleepS newstate k)"

definition chSchGoSleepTimeoutS_resume :: "u32 \<Rightarrow> kernel \<Rightarrow> (msg_t \<times> kernel) kres" where
  "chSchGoSleepTimeoutS_resume timeout k =
     kbind (if TIME_INFINITE \<noteq> timeout
            then kbind (chVTIsArmedI (SLEEPVT (currp k)) k) (\<lambda>armed.
                 if armed then chVTDoResetI (SLEEPVT (currp k)) k else Ok k)
            else Ok k)
       (\<lambda>k. Ok (rdymsg_of k (currp k), k))"

definition chSchWakeupS :: "ptr \<Rightarrow> msg_t \<Rightarrow> kernel \<Rightarrow> kernel kres" where
  "chSchWakeupS ntp msg k =
     chDbgCheckClassS k (
     kguard (queues k RLIST = [] \<or> prio_of k (currp k) \<ge> prio_of k (hd (queues k RLIST)))
       ''chSchWakeupS'' (
     let otp = currp k; k = set_u msg ntp k
     in if prio_of k ntp \<le> prio_of k otp then chSchReadyI ntp k
        else kbind (chSchReadyAheadI otp k) (\<lambda>k. Ok (make_current ntp k))))"

definition chSchDoRescheduleBehind :: "kernel \<Rightarrow> kernel kres" where
  "chSchDoRescheduleBehind k =
     (let otp = currp k
      in kbind (q_first_out RLIST k) (\<lambda>(ntp, k). chSchReadyI otp (make_current ntp k)))"

definition chSchDoRescheduleAhead :: "kernel \<Rightarrow> kernel kres" where
  "chSchDoRescheduleAhead k =
     (let otp = currp k
      in kbind (q_first_out RLIST k) (\<lambda>(ntp, k). chSchReadyAheadI otp (make_current ntp k)))"

definition chSchDoReschedule :: "kernel \<Rightarrow> kernel kres" where
  "chSchDoReschedule k =
     (let otp = currp k
      in kbind (q_first_out RLIST k) (\<lambda>(ntp, k). chSchReadyAheadI otp (make_current ntp k)))"

definition chSchIsRescRequiredI :: "kernel \<Rightarrow> bool kres" where
  "chSchIsRescRequiredI k = chDbgCheckClassI k (Ok (firstprio k > prio_of k (currp k)))"

definition chSchRescheduleS :: "kernel \<Rightarrow> kernel kres" where
  "chSchRescheduleS k =
     chDbgCheckClassS k (
     kbind (chSchIsRescRequiredI k) (\<lambda>b. if b then chSchDoRescheduleAhead k else Ok k))"

definition chSchIsPreemptionRequired :: "kernel \<Rightarrow> bool" where
  "chSchIsPreemptionRequired k = (firstprio k > prio_of k (currp k))"

definition chSchCanYieldS :: "kernel \<Rightarrow> bool kres" where
  "chSchCanYieldS k = chDbgCheckClassS k (Ok (firstprio k \<ge> prio_of k (currp k)))"

definition chSchDoYieldS :: "kernel \<Rightarrow> kernel kres" where
  "chSchDoYieldS k =
     chDbgCheckClassS k (
     kbind (chSchCanYieldS k) (\<lambda>b. if b then chSchDoRescheduleBehind k else Ok k))"

definition chSchPreemption :: "kernel \<Rightarrow> kernel kres" where
  "chSchPreemption k = (if firstprio k > prio_of k (currp k) then chSchDoRescheduleAhead k else Ok k)"

section \<open>Making a thread ready\<close>

definition limbo :: "ptr \<Rightarrow> kernel \<Rightarrow> bool" where
  "limbo tp k \<longleftrightarrow> (\<forall>q. tp \<notin> set (queues k q)) \<and>
     state_of k tp \<notin> {CH_STATE_READY, CH_STATE_CURRENT, CH_STATE_FINAL}"

definition ready_behind :: "ptr \<Rightarrow> kernel \<Rightarrow> kernel" where
  "ready_behind tp k =
     upd_q RLIST (insort_wrt (\<lambda>cp. prio_of k cp \<ge> prio_of k tp) tp) (set_state CH_STATE_READY tp k)"

definition ready_ahead :: "ptr \<Rightarrow> kernel \<Rightarrow> kernel" where
  "ready_ahead tp k =
     upd_q RLIST (insort_wrt (\<lambda>cp. prio_of k cp > prio_of k tp) tp) (set_state CH_STATE_READY tp k)"

lemma upd_state_prio [simp]:
  "t_prio (((threads k)(tp := t_state_update f (threads k tp))) t) = prio_of k t"
  by simp

lemma ready_frame [simp]:
  "currp (ready_behind tp k) = currp k" "currp (ready_ahead tp k) = currp k"
  "prio_of (ready_behind tp k) t = prio_of k t" "prio_of (ready_ahead tp k) t = prio_of k t"
  "t_u (threads (ready_behind tp k) t) = t_u (threads k t)"
  "t_u (threads (ready_ahead tp k) t) = t_u (threads k t)"
  "state_of (ready_behind tp k) t = (if t = tp then CH_STATE_READY else state_of k t)"
  "state_of (ready_ahead tp k) t = (if t = tp then CH_STATE_READY else state_of k t)"
  "thd_ctx (ready_behind tp k) = thd_ctx k" "thd_ctx (ready_ahead tp k) = thd_ctx k"
  "i_ctx (ready_behind tp k) = i_ctx k" "i_ctx (ready_ahead tp k) = i_ctx k"
  "isr_ctx (ready_behind tp k) = isr_ctx k" "isr_ctx (ready_ahead tp k) = isr_ctx k"
  by (simp_all add: ready_behind_def ready_ahead_def)

lemma ready_queues:
  "queues (ready_behind tp k) = (queues k)(RLIST := insort_wrt (\<lambda>cp. prio_of k cp \<ge> prio_of k tp) tp (queues k RLIST))"
  "queues (ready_ahead tp k) = (queues k)(RLIST := insort_wrt (\<lambda>cp. prio_of k cp > prio_of k tp) tp (queues k RLIST))"
  by (simp_all add: ready_behind_def ready_ahead_def)

lemma chSchReadyI_eq:
  assumes "i_ctx k" and "tp \<noteq> NULL" and "state_of k tp \<noteq> CH_STATE_READY" and "state_of k tp \<noteq> CH_STATE_FINAL"
    and "prio_of k tp > 0"
  shows "chSchReadyI tp k = Ok (ready_behind tp k)"
  using assms by (simp add: chSchReadyI_def ready_behind_def NOPRIO_def del: fun_upd_apply)

lemma chSchReadyAheadI_eq:
  assumes "i_ctx k" and "tp \<noteq> NULL" and "state_of k tp \<noteq> CH_STATE_READY" and "state_of k tp \<noteq> CH_STATE_FINAL"
  shows "chSchReadyAheadI tp k = Ok (ready_ahead tp k)"
  using assms by (simp add: chSchReadyAheadI_def ready_ahead_def del: fun_upd_apply)

lemma limboD:
  assumes "limbo tp k" and "sched_inv k"
  shows "tp \<noteq> NULL" "tp \<noteq> currp k" "prio_of k tp > 0" "tp \<notin> set (queues k q)"
    "state_of k tp \<noteq> CH_STATE_READY" "state_of k tp \<noteq> CH_STATE_FINAL"
  using assms sched_invD(8) [OF assms(2)] sched_invD(6) [OF assms(2), of tp] sched_invD(7) [OF assms(2), of tp]
  by (auto simp: limbo_def)

lemma sched_inv_insert_ready:
  assumes inv: "sched_inv k" and tp: "limbo tp k"
    and q: "queues k' = (queues k)(RLIST := xs)" and xs: "set xs = insert tp (set (queues k RLIST))"
      "distinct xs" "sorted_wrt (\<lambda>a b. prio_of k a \<ge> prio_of k b) xs"
    and st: "\<And>t. state_of k' t = (if t = tp then CH_STATE_READY else state_of k t)"
    and pr: "\<And>t. prio_of k' t = prio_of k t" and cur: "currp k' = currp k"
  shows "sched_inv k'"
proof (rule sched_invI)
  note lim = limboD [OF tp inv]
  show "sorted_wrt (\<lambda>a b. prio_of k' a \<ge> prio_of k' b) (queues k' RLIST)" using xs(3) q pr by simp
  show "distinct (queues k' p)" for p using sched_invD(2) [OF inv] q xs(2) by simp
  show "p = p'" if "t \<in> set (queues k' p)" "t \<in> set (queues k' p')" for p p' t
    using that sched_invD(3) [OF inv] q xs(1) lim(4) by (auto split: if_splits)
  show "t \<in> set (queues k' RLIST) \<longleftrightarrow> state_of k' t = CH_STATE_READY" for t
    using sched_invD(4) [OF inv] q xs(1) st by auto
  show "queued_state (state_of k' t)" if "p \<noteq> RLIST" "t \<in> set (queues k' p)" for p t
    using that sched_invD(5) [OF inv] q st lim(4) by auto
  show "state_of k' t = CH_STATE_CURRENT \<longleftrightarrow> t = currp k'" for t
    using sched_invD(6) [OF inv] st cur lim(2) by auto
  show "prio_of k' t > 0" if "state_of k' t \<noteq> CH_STATE_FINAL" for t
    using that sched_invD(7) [OF inv] st pr lim(3) by (auto split: if_splits)
  show "state_of k' NULL = CH_STATE_FINAL" using sched_invD(8) [OF inv] st lim(1) by auto
qed

lemma sched_inv_ready [simp, intro]:
  assumes "sched_inv k" and "limbo tp k"
  shows "sched_inv (ready_behind tp k)" and "sched_inv (ready_ahead tp k)"
proof -
  note facts = sched_invD(1,2) [OF assms(1)] limboD(4) [OF assms(2,1), of RLIST]
  show "sched_inv (ready_behind tp k)"
    by (rule sched_inv_insert_ready [OF assms ready_queues(1)])
      (use facts sorted_wrt_insort_ge(1) [where f = "prio_of k"] in auto)
  show "sched_inv (ready_ahead tp k)"
    by (rule sched_inv_insert_ready [OF assms ready_queues(2)])
      (use facts sorted_wrt_insort_ge(2) [where f = "prio_of k"] in auto)
qed

lemma chSchReadyI_ok:
  assumes "sched_inv k" and "limbo tp k" and "i_ctx k"
  shows "chSchReadyI tp k = Ok (ready_behind tp k)"
  using assms limboD [OF assms(2,1)] by (intro chSchReadyI_eq) auto

section \<open>Giving the processor away\<close>

lemma make_current_frame [simp]:
  "queues (make_current tp k) = queues k" "currp (make_current tp k) = tp"
  "prio_of (make_current tp k) t = prio_of k t"
  "t_u (threads (make_current tp k) t) = t_u (threads k t)"
  "state_of (make_current tp k) t = (if t = tp then CH_STATE_CURRENT else state_of k t)"
  "thd_ctx (make_current tp k) = thd_ctx k" "i_ctx (make_current tp k) = i_ctx k"
  by (simp_all add: make_current_def)

text \<open>
  \<open>go_sleep st k\<close>: the state after the current thread has gone to sleep in state \<open>st\<close>.
\<close>

definition go_sleep :: "tstate \<Rightarrow> kernel \<Rightarrow> kernel" where
  "go_sleep st k = make_current (hd (queues k RLIST))
     (upd_q RLIST (\<lambda>_. tl (queues k RLIST)) (set_state st (currp k) k))"

lemma chSchGoSleepS_eq:
  "thd_ctx k \<Longrightarrow> queues k RLIST \<noteq> [] \<Longrightarrow> chSchGoSleepS st k = Ok (go_sleep st k)"
  by (cases "queues k RLIST") (auto simp: chSchGoSleepS_def q_first_out_def go_sleep_def)

lemma go_sleep_frame [simp]:
  "queues (go_sleep st k) = (queues k)(RLIST := tl (queues k RLIST))"
  "currp (go_sleep st k) = hd (queues k RLIST)"
  "prio_of (go_sleep st k) t = prio_of k t"
  "t_u (threads (go_sleep st k) t) = t_u (threads k t)"
  "state_of (go_sleep st k) t =
     (if t = hd (queues k RLIST) then CH_STATE_CURRENT else if t = currp k then st else state_of k t)"
  "thd_ctx (go_sleep st k) = thd_ctx k" "i_ctx (go_sleep st k) = i_ctx k"
  by (simp_all add: go_sleep_def)

text \<open>
  The invariant with the current thread already entered in the list of an object (\<open>enq\<close>),
  or in no list: the state just before \<open>chSchGoSleepS\<close>.
\<close>

definition enq_ok :: "kernel \<Rightarrow> kernel \<Rightarrow> tstate \<Rightarrow> bool" where
  "enq_ok k k1 st \<longleftrightarrow>
     currp k1 = currp k \<and> (\<forall>t. state_of k1 t = state_of k t \<and> prio_of k1 t = prio_of k t) \<and>
     (queues k1 = queues k \<and> st \<notin> {CH_STATE_READY, CH_STATE_CURRENT} \<or>
      (\<exists>q xs. q \<noteq> RLIST \<and> queues k1 = (queues k)(q := xs) \<and> distinct xs \<and>
         set xs = insert (currp k) (set (queues k q)) \<and> queued_state st))"

lemma currp_not_queued: "sched_inv k \<Longrightarrow> currp k \<notin> set (queues k q)"
  using sched_invD(4) [of k "currp k"] sched_invD(5) [of k q "currp k"] sched_invD(6) [of k "currp k"]
  by (cases "q = RLIST") auto

lemma sched_inv_go_sleep:
  assumes inv: "sched_inv k" and enq: "enq_ok k k1 st" and ne: "queues k RLIST \<noteq> []"
  shows "sched_inv (go_sleep st k1)" and "sched_order (go_sleep st k1)"
proof -
  obtain n ns where r: "queues k RLIST = n # ns" using ne by (cases "queues k RLIST") auto
  have stq: "st \<notin> {CH_STATE_READY, CH_STATE_CURRENT}"
    and sp: "currp k1 = currp k" "\<And>t. state_of k1 t = state_of k t" "\<And>t. prio_of k1 t = prio_of k t"
    and rl: "queues k1 RLIST = n # ns"
    using enq r by (auto simp: enq_ok_def)
  have qs: "distinct (queues k1 q)" "t \<in> set (queues k1 q) \<Longrightarrow> t \<in> set (queues k q) \<or> (t = currp k \<and> queued_state st \<and> q \<noteq> RLIST)"
    for q t using enq sched_invD(2) [OF inv] by (auto simp: enq_ok_def split: if_splits)
  have uniq: "q = q'" if "t \<in> set (queues k1 q)" "t \<in> set (queues k1 q')" for q q' t
    using that enq sched_invD(3) [OF inv] currp_not_queued [OF inv]
    by (auto simp: enq_ok_def split: if_splits)
  have n: "n \<noteq> currp k" "state_of k n = CH_STATE_READY" "n \<notin> set ns"
    using currp_not_queued [OF inv, of RLIST] sched_invD(4) [OF inv, of n] sched_invD(2) [OF inv, of RLIST] r by auto
  have nq: "n \<notin> set (queues k1 q)" if "q \<noteq> RLIST" for q
    using uniq [of n q RLIST] that rl by auto
  show "sched_inv (go_sleep st k1)"
  proof (rule sched_invI)
    show "sorted_wrt (\<lambda>a b. prio_of (go_sleep st k1) a \<ge> prio_of (go_sleep st k1) b) (queues (go_sleep st k1) RLIST)"
      using sched_invD(1) [OF inv] r rl sp by simp
    show "distinct (queues (go_sleep st k1) q)" for q using qs(1) [of q] rl by (auto split: if_splits)
    show "q = q'" if "t \<in> set (queues (go_sleep st k1) q)" "t \<in> set (queues (go_sleep st k1) q')" for q q' t
      using that uniq [of t q q'] rl by (auto split: if_splits)
    show "t \<in> set (queues (go_sleep st k1) RLIST) \<longleftrightarrow> state_of (go_sleep st k1) t = CH_STATE_READY" for t
      using sched_invD(4) [OF inv, of t] r rl n stq sp currp_not_queued [OF inv, of RLIST] by auto
    show "queued_state (state_of (go_sleep st k1) t)" if "q \<noteq> RLIST" "t \<in> set (queues (go_sleep st k1) q)" for q t
      using that qs(2) [of t q] sched_invD(5) [OF inv, of q t] currp_not_queued [OF inv, of q] nq rl sp n by auto
    show "state_of (go_sleep st k1) t = CH_STATE_CURRENT \<longleftrightarrow> t = currp (go_sleep st k1)" for t
      using sched_invD(6) [OF inv, of t] sp stq rl by auto
    show "prio_of (go_sleep st k1) t > 0" if "state_of (go_sleep st k1) t \<noteq> CH_STATE_FINAL" for t
      using that sched_invD(7) [OF inv, of t] sched_invD(7) [OF inv, of n] sched_invD(6) [OF inv, of t] sp rl n
      by (auto split: if_splits)
    show "state_of (go_sleep st k1) NULL = CH_STATE_FINAL"
      using sched_invD(8) [OF inv] sched_invD(6) [OF inv, of NULL] n rl sp by auto
  qed
  show "sched_order (go_sleep st k1)"
    using sched_invD(1) [OF inv] r rl sp by (simp add: sched_order_def)
qed

section \<open>Rescheduling\<close>

definition switch_ahead :: "kernel \<Rightarrow> kernel" where
  "switch_ahead k = ready_ahead (currp k) (go_sleep CH_STATE_SLEEPING k)"

definition switch_behind :: "kernel \<Rightarrow> kernel" where
  "switch_behind k = ready_behind (currp k) (go_sleep CH_STATE_SLEEPING k)"

lemma upd_th_twice: "upd_th tp f (upd_th tp g k) = upd_th tp (f \<circ> g) k"
  by (simp add: upd_th_def)

lemma upd_th_commute: "tp \<noteq> t \<Longrightarrow> upd_th tp f (upd_th t g k) = upd_th t g (upd_th tp f k)"
  by (simp add: upd_th_def fun_upd_twist)

lemma ready_over_state:
  "hd (queues k RLIST) = n \<Longrightarrow> n \<noteq> currp k \<Longrightarrow>
   set_state CH_STATE_READY (currp k) (go_sleep st k) =
   set_state CH_STATE_READY (currp k) (make_current n (upd_q RLIST (\<lambda>_. tl (queues k RLIST)) k))"
  by (auto simp: go_sleep_def make_current_def upd_th_def upd_q_def fun_upd_twist)

lemma DoReschedule_eq:
  assumes "sched_inv k" and "queues k RLIST \<noteq> []" and "i_ctx k"
  shows "chSchDoRescheduleAhead k = Ok (switch_ahead k)" and "chSchDoReschedule k = Ok (switch_ahead k)"
    and "chSchDoRescheduleBehind k = Ok (switch_behind k)"
proof -
  obtain n ns where r: "queues k RLIST = n # ns" using assms(2) by (cases "queues k RLIST") auto
  let ?m = "make_current n (upd_q RLIST (\<lambda>_. ns) k)"
  have c: "currp k \<noteq> n" "currp k \<noteq> NULL" "state_of k (currp k) = CH_STATE_CURRENT" "prio_of k (currp k) > 0"
    using currp_not_queued [OF assms(1), of RLIST] r sched_invD(6) [OF assms(1), of "currp k"]
      sched_invD(8) [OF assms(1)] sched_invD(7) [OF assms(1), of "currp k"] by auto
  have st: "set_state CH_STATE_READY (currp k) ?m =
      set_state CH_STATE_READY (currp k) (go_sleep CH_STATE_SLEEPING k)"
    using ready_over_state [of k n CH_STATE_SLEEPING] c(1) r by simp
  then have "ready_ahead (currp k) ?m = switch_ahead k" "ready_behind (currp k) ?m = switch_behind k"
    unfolding switch_ahead_def switch_behind_def ready_ahead_def ready_behind_def by simp_all
  moreover have "chSchReadyAheadI (currp k) ?m = Ok (ready_ahead (currp k) ?m)"
    "chSchReadyI (currp k) ?m = Ok (ready_behind (currp k) ?m)"
    using c assms(3) by (auto intro!: chSchReadyAheadI_eq chSchReadyI_eq)
  ultimately show "chSchDoRescheduleAhead k = Ok (switch_ahead k)"
    "chSchDoReschedule k = Ok (switch_ahead k)" "chSchDoRescheduleBehind k = Ok (switch_behind k)"
    using r by (simp_all add: chSchDoRescheduleAhead_def chSchDoReschedule_def chSchDoRescheduleBehind_def q_first_out_def)
qed

lemma switch_frame [simp]:
  "currp (switch_ahead k) = hd (queues k RLIST)" "currp (switch_behind k) = hd (queues k RLIST)"
  "prio_of (switch_ahead k) t = prio_of k t" "prio_of (switch_behind k) t = prio_of k t"
  "t_u (threads (switch_ahead k) t) = t_u (threads k t)" "t_u (threads (switch_behind k) t) = t_u (threads k t)"
  "thd_ctx (switch_ahead k) = thd_ctx k" "thd_ctx (switch_behind k) = thd_ctx k"
  by (simp_all add: switch_ahead_def switch_behind_def)

lemma switch_inv:
  assumes inv: "sched_inv k" and ne: "queues k RLIST \<noteq> []"
    and le: "prio_of k (currp k) \<le> prio_of k (hd (queues k RLIST))"
  shows "sched_inv (switch_ahead k)" "sched_inv (switch_behind k)"
    and "sched_order (switch_ahead k)" "sched_order (switch_behind k)"
proof -
  let ?s = "go_sleep CH_STATE_SLEEPING k"
  have enq: "enq_ok k k CH_STATE_SLEEPING" by (simp add: enq_ok_def)
  note s = sched_inv_go_sleep [OF inv enq ne]
  have "currp k \<noteq> hd (queues k RLIST)" by (metis currp_not_queued [OF inv] hd_in_set [OF ne])
  then have "limbo (currp k) ?s"
    using currp_not_queued [OF inv] ne
    by (auto simp: limbo_def dest: list.set_sel(2))
  then show "sched_inv (switch_ahead k)" "sched_inv (switch_behind k)"
    unfolding switch_ahead_def switch_behind_def using s(1) by auto
  show "sched_order (switch_ahead k)" "sched_order (switch_behind k)"
    using s(2) le by (auto simp: sched_order_def switch_ahead_def switch_behind_def ready_queues)
qed

text \<open>\<open>resched k\<close>: the state after \<open>chSchRescheduleS\<close>.\<close>

definition resched :: "kernel \<Rightarrow> kernel" where
  "resched k = (if firstprio k > prio_of k (currp k) then switch_ahead k else k)"

lemma firstprio_gt:
  "firstprio k > p \<Longrightarrow> queues k RLIST \<noteq> [] \<and> prio_of k (hd (queues k RLIST)) > p"
  by (auto simp: firstprio_def NOPRIO_def split: list.splits)

lemma firstprio_order:
  "sched_inv k \<Longrightarrow> firstprio k \<le> prio_of k (currp k) \<longleftrightarrow> sched_order k"
  using sched_invD(1) [of k]
  by (cases "queues k RLIST") (auto simp: firstprio_def sched_order_def NOPRIO_def)

lemma chSchRescheduleS_eq:
  assumes "sched_inv k" and "thd_ctx k"
  shows "chSchRescheduleS k = Ok (resched k)"
  using assms DoReschedule_eq(1) [OF assms(1)] firstprio_gt [of "prio_of k (currp k)" k]
  by (auto simp: chSchRescheduleS_def chSchIsRescRequiredI_def resched_def)

lemma resched_inv:
  assumes "sched_inv k"
  shows "sched_inv (resched k)" and "sched_order (resched k)" and "thd_ctx (resched k) = thd_ctx k"
proof -
  show "sched_inv (resched k)" "sched_order (resched k)"
    using switch_inv [OF assms] firstprio_gt [of "prio_of k (currp k)" k] firstprio_order [OF assms] assms
    by (auto simp: resched_def not_less)
  show "thd_ctx (resched k) = thd_ctx k" by (simp add: resched_def)
qed

lemma chSchPreemption_eq:
  assumes "sched_inv k" and "i_ctx k"
  shows "chSchPreemption k = Ok (resched k)"
  using assms DoReschedule_eq(1) [OF assms(1)] firstprio_gt [of "prio_of k (currp k)" k]
  by (auto simp: chSchPreemption_def resched_def)

lemma chSchDoYieldS_ok:
  assumes "sched_inv k" and "thd_ctx k" and "sched_order k"
  obtains k' where "chSchDoYieldS k = Ok k'" and "sched_inv k'" and "sched_order k'" and "thd_ctx k'"
proof (cases "firstprio k \<ge> prio_of k (currp k)")
  case True
  then have ne: "queues k RLIST \<noteq> []" "prio_of k (currp k) \<le> prio_of k (hd (queues k RLIST))"
    using sched_invD(6,7) [OF assms(1), of "currp k"]
    by (auto simp: firstprio_def NOPRIO_def split: list.splits)
  then show thesis
    using True that [of "switch_behind k"] assms DoReschedule_eq(3) [OF assms(1)] switch_inv [OF assms(1)]
    by (simp add: chSchDoYieldS_def chSchCanYieldS_def)
qed (use that assms in \<open>simp add: chSchDoYieldS_def chSchCanYieldS_def\<close>)

section \<open>Waking a thread up\<close>

lemma limbo_set_u [simp]: "limbo tp (upd_th t (t_u_update f) k) = limbo tp k"
  unfolding limbo_def upd_th_threads upd_th_frame upd_u_same ..

text \<open>\<open>wake ntp msg k\<close>: the state after \<open>chSchWakeupS\<close>.\<close>

definition wake :: "ptr \<Rightarrow> msg_t \<Rightarrow> kernel \<Rightarrow> kernel" where
  "wake ntp msg k =
     (if prio_of k ntp \<le> prio_of k (currp k) then ready_behind ntp (set_u msg ntp k)
      else make_current ntp (ready_ahead (currp k) (set_u msg ntp k)))"

lemma sched_inv_swap:
  assumes inv: "sched_inv k" and lim: "limbo ntp k"
  shows "sched_inv (make_current ntp (set_state CH_STATE_SLEEPING (currp k) k))"
    and "limbo (currp k) (make_current ntp (set_state CH_STATE_SLEEPING (currp k) k))"
proof -
  let ?k = "make_current ntp (set_state CH_STATE_SLEEPING (currp k) k)"
  note l = limboD [OF lim inv]
  have st: "state_of ?k t = (if t = ntp then CH_STATE_CURRENT else if t = currp k then CH_STATE_SLEEPING
      else state_of k t)" for t by simp
  show "limbo (currp k) ?k"
    using currp_not_queued [OF inv] l(2) by (auto simp: limbo_def)
  have pr: "prio_of ?k t = prio_of k t" and q: "queues ?k = queues k" and cur: "currp ?k = ntp" for t
    by (simp_all del: fun_upd_apply)
  have cc: "prio_of k (currp k) > 0" "currp k \<noteq> NULL"
    using sched_invD(6,7) [OF inv, of "currp k"] sched_invD(8) [OF inv] by auto
  show "sched_inv ?k"
  proof (rule sched_invI)
    show "t \<in> set (queues ?k RLIST) \<longleftrightarrow> state_of ?k t = CH_STATE_READY" for t
      using sched_invD(4) [OF inv, of t] currp_not_queued [OF inv, of RLIST] l(4) [of RLIST] st q by auto
    show "queued_state (state_of ?k t)" if "p \<noteq> RLIST" "t \<in> set (queues ?k p)" for p t
      using that sched_invD(5) [OF inv, of p t] currp_not_queued [OF inv, of p] l(4) [of p] st q by auto
    show "state_of ?k t = CH_STATE_CURRENT \<longleftrightarrow> t = currp ?k" for t
      using sched_invD(6) [OF inv, of t] st cur by auto
    show "prio_of ?k t > 0" if "state_of ?k t \<noteq> CH_STATE_FINAL" for t
      using that sched_invD(7) [OF inv, of t] st pr l(3) cc by (auto split: if_splits)
    show "state_of ?k NULL = CH_STATE_FINAL" using sched_invD(8) [OF inv] st l(1) cc by auto
  qed (use sched_invD(1,2) [OF inv] sched_invD(3) [OF inv] in \<open>simp_all only: pr q\<close>)
qed

lemma swap_ready:
  "ntp \<noteq> currp k \<Longrightarrow> make_current ntp (ready_ahead (currp k) k) =
     ready_ahead (currp k) (make_current ntp (set_state CH_STATE_SLEEPING (currp k) k))"
  by (rule kernel.equality) (simp_all add: ready_queues del: fun_upd_apply, simp_all add: ready_ahead_def make_current_def fun_upd_twist)

lemma wake_inv:
  assumes inv: "sched_inv k" and lim: "limbo ntp k" and ord: "sched_order k"
  shows "sched_inv (wake ntp msg k)" and "sched_order (wake ntp msg k)"
    and "thd_ctx (wake ntp msg k) = thd_ctx k"
proof -
  let ?k = "set_u msg ntp k"
  have k: "sched_inv ?k" "limbo ntp ?k" using inv lim by simp_all
  have "ntp \<noteq> currp k" using limboD(2) [OF lim inv] .
  then show "sched_inv (wake ntp msg k)"
    using k sched_inv_swap [OF k] swap_ready [of ntp ?k] by (auto simp: wake_def)
  show "sched_order (wake ntp msg k)"
    using ord by (auto simp: wake_def sched_order_def ready_queues)
  show "thd_ctx (wake ntp msg k) = thd_ctx k" by (simp add: wake_def)
qed

lemma sched_order_hd:
  "sched_order k \<Longrightarrow> queues k RLIST = [] \<or> prio_of k (hd (queues k RLIST)) \<le> prio_of k (currp k)"
  by (cases "queues k RLIST") (auto simp: sched_order_def)

lemma chSchWakeupS_eq:
  assumes "sched_inv k" and "limbo ntp k" and "sched_order k" and "thd_ctx k"
  shows "chSchWakeupS ntp msg k = Ok (wake ntp msg k)"
proof -
  note l = limboD [OF assms(2,1)]
  have c: "currp k \<noteq> NULL" "state_of k (currp k) = CH_STATE_CURRENT"
    using sched_invD(6) [OF assms(1), of "currp k"] sched_invD(8) [OF assms(1)] by auto
  let ?k = "set_u msg ntp k"
  have "chSchReadyI ntp ?k = Ok (ready_behind ntp ?k)"
    using assms(4) l by (intro chSchReadyI_eq) auto
  moreover have "chSchReadyAheadI (currp k) ?k = Ok (ready_ahead (currp k) ?k)"
    using assms(4) c l by (intro chSchReadyAheadI_eq) auto
  ultimately show ?thesis
    using assms sched_order_hd [OF assms(3)]
    by (auto simp: chSchWakeupS_def wake_def Let_def)
qed

lemma q_dequeue_inv:
  assumes inv: "sched_inv k" and st: "state_of k tp \<noteq> CH_STATE_READY"
  shows "sched_inv (q_dequeue tp k)" and "tp \<notin> set (queues (q_dequeue tp k) q)"
proof -
  show "sched_inv (q_dequeue tp k)"
    by (rule sched_invI)
      (use sched_invD [OF inv] st in \<open>auto simp: sorted_wrt_remove1 set_remove1_eq split: if_splits\<close>)
  show "tp \<notin> set (queues (q_dequeue tp k) q)" using sched_invD(2) [OF inv] by simp
qed

lemma q_dequeue_limbo:
  assumes "sched_inv k" and "state_of k tp \<notin> {CH_STATE_READY, CH_STATE_CURRENT, CH_STATE_FINAL}"
  shows "limbo tp (q_dequeue tp k)"
  using q_dequeue_inv(2) [OF assms(1)] assms(2) by (auto simp: limbo_def)

lemma q_dequeue_upd:
  assumes "sched_inv k" and "t \<in> set (queues k q)"
  shows "q_dequeue t k = upd_q q (\<lambda>_. remove1 t (queues k q)) k"
proof -
  have "remove1 t (queues k p) = queues k p" if "p \<noteq> q" for p
    using that sched_invD(3) [OF assms(1), of t p q] assms(2) by (auto intro: remove1_idem)
  then show ?thesis by (auto simp: q_dequeue_def upd_q_def fun_eq_iff)
qed

text \<open>Taking a waiting thread out of the list of an object.\<close>

lemma unqueue:
  assumes inv: "sched_inv k" and q: "q \<noteq> RLIST" and t: "t \<in> set (queues k q)"
    and xs: "xs = remove1 t (queues k q)"
  shows "sched_inv (upd_q q (\<lambda>_. xs) k)" and "limbo t (upd_q q (\<lambda>_. xs) k)"
proof -
  have "queued_state (state_of k t)" using sched_invD(5) [OF inv q t] .
  then have st: "state_of k t \<notin> {CH_STATE_READY, CH_STATE_CURRENT, CH_STATE_FINAL}" by auto
  then show "sched_inv (upd_q q (\<lambda>_. xs) k)" "limbo t (upd_q q (\<lambda>_. xs) k)"
    using q_dequeue_inv(1) [OF inv, of t] q_dequeue_limbo [OF inv st] unfolding q_dequeue_upd [OF inv t] xs by auto
qed

lemma unqueue_first:
  assumes "sched_inv k" and "q \<noteq> RLIST" and "queues k q = t # ts"
  shows "sched_inv (upd_q q (\<lambda>_. ts) k)" and "limbo t (upd_q q (\<lambda>_. ts) k)"
proof -
  have "t \<in> set (queues k q)" "ts = remove1 t (queues k q)" by (simp_all add: assms(3))
  then show "sched_inv (upd_q q (\<lambda>_. ts) k)" "limbo t (upd_q q (\<lambda>_. ts) k)"
    by (rule unqueue [OF assms(1,2)])+
qed

lemma remove1_last: "distinct xs \<Longrightarrow> xs \<noteq> [] \<Longrightarrow> remove1 (last xs) xs = butlast xs"
  by (induction xs) auto

lemma unqueue_last:
  assumes "sched_inv k" and "q \<noteq> RLIST" and "queues k q \<noteq> []"
  shows "sched_inv (upd_q q (\<lambda>_. butlast (queues k q)) k)"
    and "limbo (last (queues k q)) (upd_q q (\<lambda>_. butlast (queues k q)) k)"
proof -
  have "last (queues k q) \<in> set (queues k q)" "butlast (queues k q) = remove1 (last (queues k q)) (queues k q)"
    using assms(3) sched_invD(2) [OF assms(1), of q] by (simp_all add: remove1_last)
  then show "sched_inv (upd_q q (\<lambda>_. butlast (queues k q)) k)"
    "limbo (last (queues k q)) (upd_q q (\<lambda>_. butlast (queues k q)) k)"
    by (rule unqueue [OF assms(1,2)])+
qed

text \<open>\<open>chSchWakeupS\<close> is \<open>chSchReadyI\<close> followed by \<open>chSchRescheduleS\<close>.\<close>

lemma insort_wrt_first: "(\<And>y. y \<in> set xs \<Longrightarrow> \<not> P y) \<Longrightarrow> insort_wrt P x xs = x # xs"
  by (cases xs) auto

lemma wake_eq_resched:
  assumes inv: "sched_inv k" and lim: "limbo ntp k" and ord: "sched_order k"
  shows "wake ntp msg k = resched (ready_behind ntp (set_u msg ntp k))"
proof -
  let ?u = "set_u msg ntp k" let ?r = "ready_behind ntp ?u"
  have u: "sched_inv ?u" "limbo ntp ?u" "sched_order ?u" using assms by simp_all
  have ne: "ntp \<noteq> currp k" using limboD(2) [OF lim inv] .
  show ?thesis
  proof (cases "prio_of k ntp \<le> prio_of k (currp k)")
    case True
    then have "sched_order ?r" using ord by (auto simp: sched_order_def ready_queues)
    then have "firstprio ?r \<le> prio_of ?r (currp ?r)"
      using firstprio_order [OF sched_inv_ready(1) [OF u(1,2)]] by simp
    then show ?thesis using True by (simp add: wake_def resched_def)
  next
    case False
    then have r: "queues ?r RLIST = ntp # queues k RLIST"
      using ord by (auto simp: ready_queues sched_order_def intro!: insort_wrt_first)
    then have f: "firstprio ?r > prio_of ?r (currp ?r)" using False ne by (simp add: firstprio_def)
    have rr: "?r = upd_q RLIST (\<lambda>_. ntp # queues k RLIST) (set_state CH_STATE_READY ntp ?u)"
      using r by (simp add: ready_behind_def upd_q_def)
    have "switch_ahead ?r = make_current ntp (ready_ahead (currp k) ?u)"
      unfolding rr using ne
      by (intro kernel.equality)
        (simp_all add: switch_ahead_def ready_queues del: fun_upd_apply,
         simp_all add: ready_ahead_def go_sleep_def make_current_def fun_upd_twist,
         auto intro!: arg_cong [where f = "\<lambda>x. (queues k)(RLIST := x)"] insort_wrt_cong)
    then show ?thesis using False f by (simp add: wake_def resched_def)
  qed
qed

section \<open>Timeouts\<close>

text \<open>The function a virtual timer calls; \<open>user\<close> stands for callbacks of the application.\<close>

definition vt_call :: "(ptr \<Rightarrow> ptr \<Rightarrow> kernel \<Rightarrow> kernel kres) \<Rightarrow> vtfunc \<Rightarrow> ptr \<Rightarrow> kernel \<Rightarrow> kernel kres" where
  "vt_call user fn par k =
     (case fn of VT_NULL \<Rightarrow> Undef | VT_WAKEUP \<Rightarrow> wakeup par k | VT_CALLBACK f \<Rightarrow> user f par k)"

text \<open>The states in which a thread can be while its timeout is pending.\<close>

definition timed_state :: "tstate \<Rightarrow> bool" where
  "timed_state st = (st \<notin> {CH_STATE_CURRENT, CH_STATE_FINAL, CH_STATE_WTMTX, CH_STATE_SNDMSGQ, CH_STATE_WTEXIT})"

lemma isr_lock:
  "isr_cnt k > 0 \<Longrightarrow> lock_cnt k = 0 \<Longrightarrow> chSysLockFromISR k = Ok (k\<lparr>lock_cnt := 1\<rparr>)"
  "isr_cnt k > 0 \<Longrightarrow> lock_cnt k > 0 \<Longrightarrow> chSysUnlockFromISR k = Ok (k\<lparr>lock_cnt := 0\<rparr>)"
  by (simp_all add: sys_defs dbg_defs)

text \<open>
  \<open>wakeup\<close> takes the thread out of the list it waits in, gives its unit back to a semaphore,
  clears the reference of a suspended thread, and makes it ready with \<open>MSG_TIMEOUT\<close>.
\<close>

definition unwait :: "ptr \<Rightarrow> kernel \<Rightarrow> kernel" where
  "unwait tp k =
     k\<lparr>trefs := (if state_of k tp = CH_STATE_SUSPENDED then (trefs k)(rdymsg_of k tp := NULL) else trefs k),
       sem_cnt := (if state_of k tp = CH_STATE_WTSEM
                  then (sem_cnt k)(rdymsg_of k tp := sem_cnt k (rdymsg_of k tp) + 1) else sem_cnt k),
       queues := (if state_of k tp \<in> {CH_STATE_WTSEM, CH_STATE_QUEUED, CH_STATE_WTCOND}
                  then queues (q_dequeue tp k) else queues k)\<rparr>"

lemma unwait_frame [simp]:
  "threads (unwait tp k) = threads k" "currp (unwait tp k) = currp k"
  "isr_cnt (unwait tp k) = isr_cnt k" "lock_cnt (unwait tp k) = lock_cnt k"
  "vt_same k (unwait tp k)"
  by (simp_all add: unwait_def vt_same_def)

lemma unwait_inv:
  assumes "sched_inv k" and "timed_state (state_of k tp)" and "state_of k tp \<noteq> CH_STATE_READY"
  shows "sched_inv (unwait tp k)" and "limbo tp (unwait tp k)"
proof -
  show "sched_inv (unwait tp k)"
    using assms(1) q_dequeue_inv(1) [OF assms(1,3)]
    by (auto simp: unwait_def q_dequeue_def intro: sched_inv_cong)
  have "tp \<notin> set (queues k q)" if "state_of k tp \<notin> {CH_STATE_WTSEM, CH_STATE_QUEUED, CH_STATE_WTCOND}" for q
    using that assms sched_invD(5) [OF assms(1), of q tp] sched_invD(4) [OF assms(1), of tp]
    by (cases "q = RLIST") (auto simp: timed_state_def queued_state_def)
  then show "limbo tp (unwait tp k)"
    using q_dequeue_inv(2) [OF assms(1,3)] assms(2,3)
    by (auto simp: limbo_def unwait_def timed_state_def)
qed

lemma wakeup_eq:
  assumes "sched_inv k" and "timed_state (state_of k tp)" and "isr_cnt k > 0" and "lock_cnt k = 0"
  shows "wakeup tp k = Ok (if state_of k tp = CH_STATE_READY then k
    else ready_behind tp (set_u MSG_TIMEOUT tp (unwait tp k)))"
proof (cases "state_of k tp = CH_STATE_READY")
  case False
  let ?l = "k\<lparr>lock_cnt := 1\<rparr>"
  let ?m = "set_u MSG_TIMEOUT tp (unwait tp ?l)"
  have l: "sched_inv ?l" "timed_state (state_of ?l tp)" "state_of ?l tp \<noteq> CH_STATE_READY" "i_ctx ?l"
    using assms False by (simp_all add: i_ctx_def)
  have m: "sched_inv ?m" "limbo tp ?m" "i_ctx ?m" "isr_cnt ?m > 0" "lock_cnt ?m > 0"
    using unwait_inv [OF l(1-3)] assms(3) by (simp_all add: i_ctx_def)
  have "wakeup tp k = kbind (chSchReadyI tp ?m) chSysUnlockFromISR"
    using assms(3,4) l(4) False
    by (cases "state_of k tp")
      (simp_all add: wakeup_def isr_lock unwait_def chSemFastSignalI_def q_dequeue_def)
  also have "\<dots> = Ok ((ready_behind tp ?m)\<lparr>lock_cnt := 0\<rparr>)"
    using chSchReadyI_ok [OF m(1-3)] m(4,5) by (simp add: isr_lock ready_behind_def)
  also have "(ready_behind tp ?m)\<lparr>lock_cnt := 0\<rparr> = ready_behind tp (set_u MSG_TIMEOUT tp (unwait tp k))"
    using assms(4)
    by (intro kernel.equality) (simp_all add: ready_behind_def unwait_def q_dequeue_def)
  finally show ?thesis using False by simp
qed (use assms in \<open>simp add: wakeup_def isr_lock\<close>)

text \<open>
  \<open>wakeup\<close> as a timer callback. \<open>k0\<close> is the kernel before the tick: a thread that was not
  ready there is woken with \<open>MSG_TIMEOUT\<close>.
\<close>

definition may_wake :: "kernel \<Rightarrow> vtfunc \<Rightarrow> ptr \<Rightarrow> kernel \<Rightarrow> bool" where
  "may_wake k0 fn tp k \<longleftrightarrow> fn = VT_WAKEUP \<and> timed_state (state_of k tp) \<and>
     (state_of k tp = CH_STATE_READY \<longrightarrow> state_of k0 tp = CH_STATE_READY \<or> rdymsg_of k tp = MSG_TIMEOUT)"

definition woken :: "kernel \<Rightarrow> vtfunc \<Rightarrow> ptr \<Rightarrow> kernel \<Rightarrow> bool" where
  "woken k0 fn tp k \<longleftrightarrow> state_of k tp = CH_STATE_READY \<and>
     (state_of k0 tp = CH_STATE_READY \<or> rdymsg_of k tp = MSG_TIMEOUT)"

lemma timed_state_ready [simp]: "timed_state CH_STATE_READY"
  by (simp add: timed_state_def)

lemma wakeup_contract:
  assumes "sched_inv k" and "may_wake k0 fn tp k" and "isr_cnt k > 0" and "lock_cnt k = 0"
  shows "\<exists>k'. vt_call user fn tp k = Ok k' \<and> sched_inv k' \<and> woken k0 fn tp k' \<and> vt_same k k' \<and>
    (\<forall>t. t \<noteq> tp \<longrightarrow> threads k' t = threads k t) \<and>
    (\<forall>f p. may_wake k0 f p k \<longrightarrow> may_wake k0 f p k') \<and> (\<forall>f p. woken k0 f p k \<longrightarrow> woken k0 f p k')"
proof (cases "state_of k tp = CH_STATE_READY")
  case True
  then show ?thesis
    using assms wakeup_eq [OF assms(1) _ assms(3,4), of tp]
    by (auto simp: vt_call_def may_wake_def woken_def vt_same_def)
next
  case False
  let ?k = "ready_behind tp (set_u MSG_TIMEOUT tp (unwait tp k))"
  have t: "timed_state (state_of k tp)" using assms(2) by (simp add: may_wake_def)
  have "sched_inv ?k" using unwait_inv [OF assms(1) t False] by (simp add: sched_inv_ready)
  moreover have "vt_call user fn tp k = Ok ?k"
    using wakeup_eq [OF assms(1) t assms(3,4)] False assms(2) by (simp add: vt_call_def may_wake_def)
  moreover have "vt_same k ?k" by (simp add: vt_same_def ready_behind_def unwait_def)
  moreover have th: "threads ?k t = (if t = tp then threads k tp \<lparr>t_u := MSG_TIMEOUT, t_state := CH_STATE_READY\<rparr>
      else threads k t)" for t by (simp add: ready_behind_def)
  ultimately show ?thesis
    using False by (intro exI [of _ ?k]) (auto simp: th may_wake_def woken_def)
qed

interpretation wk: tick_callback "vt_call user" sched_inv "may_wake k0" "woken k0" for user k0
proof unfold_locales
  fix k k' :: kernel and fn f :: vtfunc and par p :: ptr
  show "\<exists>k'. vt_call user fn par k = Ok k' \<and> sched_inv k' \<and> woken k0 fn par k' \<and> vt_same k k' \<and>
      (\<forall>t. t \<noteq> par \<longrightarrow> threads k' t = threads k t) \<and>
      (\<forall>f p. may_wake k0 f p k \<longrightarrow> may_wake k0 f p k') \<and> (\<forall>f p. woken k0 f p k \<longrightarrow> woken k0 f p k')"
    if "sched_inv k" "may_wake k0 fn par k" "isr_cnt k > 0" "lock_cnt k = 0"
    using wakeup_contract that by blast
  show "sched_inv k' = sched_inv k \<and> may_wake k0 f p k' = may_wake k0 f p k \<and> woken k0 f p k' = woken k0 f p k"
    if "threads k' = threads k" "queues k' = queues k" "currp k' = currp k"
    using that sched_inv_cong [of k k'] sched_inv_cong [of k' k] by (auto simp: may_wake_def woken_def)
qed

section \<open>What the scheduler leaves alone\<close>

lemma ready_behind_others [simp]:
  "sem_cnt (ready_behind tp k) = sem_cnt k"
  "mtxs (ready_behind tp k) = mtxs k"
  "trefs (ready_behind tp k) = trefs k"
  "mboxes (ready_behind tp k) = mboxes k"
  "registry (ready_behind tp k) = registry k"
  "vt_list (ready_behind tp k) = vt_list k"
  "vt_func (ready_behind tp k) = vt_func k"
  "vt_par (ready_behind tp k) = vt_par k"
  "vt_lasttime (ready_behind tp k) = vt_lasttime k"
  "vt_alarm (ready_behind tp k) = vt_alarm k"
  "isr_cnt (ready_behind tp k) = isr_cnt k"
  "lock_cnt (ready_behind tp k) = lock_cnt k"
  "st_clock (ready_behind tp k) = st_clock k"
  "st_reads (ready_behind tp k) = st_reads k"
  by (simp_all add: ready_behind_def)

lemma ready_ahead_others [simp]:
  "sem_cnt (ready_ahead tp k) = sem_cnt k"
  "mtxs (ready_ahead tp k) = mtxs k"
  "trefs (ready_ahead tp k) = trefs k"
  "mboxes (ready_ahead tp k) = mboxes k"
  "registry (ready_ahead tp k) = registry k"
  "vt_list (ready_ahead tp k) = vt_list k"
  "vt_func (ready_ahead tp k) = vt_func k"
  "vt_par (ready_ahead tp k) = vt_par k"
  "vt_lasttime (ready_ahead tp k) = vt_lasttime k"
  "vt_alarm (ready_ahead tp k) = vt_alarm k"
  "isr_cnt (ready_ahead tp k) = isr_cnt k"
  "lock_cnt (ready_ahead tp k) = lock_cnt k"
  "st_clock (ready_ahead tp k) = st_clock k"
  "st_reads (ready_ahead tp k) = st_reads k"
  by (simp_all add: ready_ahead_def)

lemma make_current_others [simp]:
  "sem_cnt (make_current tp k) = sem_cnt k"
  "mtxs (make_current tp k) = mtxs k"
  "trefs (make_current tp k) = trefs k"
  "mboxes (make_current tp k) = mboxes k"
  "registry (make_current tp k) = registry k"
  "vt_list (make_current tp k) = vt_list k"
  "vt_func (make_current tp k) = vt_func k"
  "vt_par (make_current tp k) = vt_par k"
  "vt_lasttime (make_current tp k) = vt_lasttime k"
  "vt_alarm (make_current tp k) = vt_alarm k"
  "isr_cnt (make_current tp k) = isr_cnt k"
  "lock_cnt (make_current tp k) = lock_cnt k"
  "st_clock (make_current tp k) = st_clock k"
  "st_reads (make_current tp k) = st_reads k"
  by (simp_all add: make_current_def)

lemma go_sleep_others [simp]:
  "sem_cnt (go_sleep st k) = sem_cnt k"
  "mtxs (go_sleep st k) = mtxs k"
  "trefs (go_sleep st k) = trefs k"
  "mboxes (go_sleep st k) = mboxes k"
  "registry (go_sleep st k) = registry k"
  "vt_list (go_sleep st k) = vt_list k"
  "vt_func (go_sleep st k) = vt_func k"
  "vt_par (go_sleep st k) = vt_par k"
  "vt_lasttime (go_sleep st k) = vt_lasttime k"
  "vt_alarm (go_sleep st k) = vt_alarm k"
  "isr_cnt (go_sleep st k) = isr_cnt k"
  "lock_cnt (go_sleep st k) = lock_cnt k"
  "st_clock (go_sleep st k) = st_clock k"
  "st_reads (go_sleep st k) = st_reads k"
  by (simp_all add: go_sleep_def)

lemma wake_others [simp]:
  "sem_cnt (wake tp msg k) = sem_cnt k"
  "mtxs (wake tp msg k) = mtxs k"
  "trefs (wake tp msg k) = trefs k"
  "mboxes (wake tp msg k) = mboxes k"
  "registry (wake tp msg k) = registry k"
  "vt_list (wake tp msg k) = vt_list k"
  "vt_func (wake tp msg k) = vt_func k"
  "vt_par (wake tp msg k) = vt_par k"
  "vt_lasttime (wake tp msg k) = vt_lasttime k"
  "vt_alarm (wake tp msg k) = vt_alarm k"
  "isr_cnt (wake tp msg k) = isr_cnt k"
  "lock_cnt (wake tp msg k) = lock_cnt k"
  "st_clock (wake tp msg k) = st_clock k"
  "st_reads (wake tp msg k) = st_reads k"
  by (simp_all add: wake_def)

lemma resched_others [simp]:
  "sem_cnt (resched k) = sem_cnt k"
  "mtxs (resched k) = mtxs k"
  "trefs (resched k) = trefs k"
  "mboxes (resched k) = mboxes k"
  "registry (resched k) = registry k"
  "vt_list (resched k) = vt_list k"
  "vt_func (resched k) = vt_func k"
  "vt_par (resched k) = vt_par k"
  "vt_lasttime (resched k) = vt_lasttime k"
  "vt_alarm (resched k) = vt_alarm k"
  "isr_cnt (resched k) = isr_cnt k"
  "lock_cnt (resched k) = lock_cnt k"
  "st_clock (resched k) = st_clock k"
  "st_reads (resched k) = st_reads k"
  by (simp_all add: resched_def switch_ahead_def)

lemma sched_queues [simp]:
  "q \<noteq> RLIST \<Longrightarrow> queues (ready_behind tp k) q = queues k q"
  "q \<noteq> RLIST \<Longrightarrow> queues (ready_ahead tp k) q = queues k q"
  "q \<noteq> RLIST \<Longrightarrow> queues (wake tp msg k) q = queues k q"
  "q \<noteq> RLIST \<Longrightarrow> queues (resched k) q = queues k q"
  by (simp_all add: ready_queues wake_def resched_def switch_ahead_def)

lemma sched_prios [simp]:
  "prio_of (wake tp msg k) t = prio_of k t" "prio_of (resched k) t = prio_of k t"
  by (simp_all add: wake_def resched_def)

lemma resched_u [simp]: "t_u (threads (resched k) t) = t_u (threads k t)"
  by (simp add: resched_def)

lemma wake_u [simp]: "t_u (threads (wake tp msg k) t) = (if t = tp then msg else t_u (threads k t))"
  by (simp add: wake_def)

lemma wake_state:
  "sched_inv k \<Longrightarrow> limbo tp k \<Longrightarrow> state_of (wake tp msg k) tp \<in> {CH_STATE_READY, CH_STATE_CURRENT}"
  "t \<noteq> tp \<Longrightarrow> t \<noteq> currp k \<Longrightarrow> state_of (wake tp msg k) t = state_of k t"
  by (simp_all add: wake_def)

lemma resched_state:
  "t \<noteq> currp k \<Longrightarrow> t \<notin> set (queues k RLIST) \<Longrightarrow> state_of (resched k) t = state_of k t"
  using firstprio_gt [of "prio_of k (currp k)" k] hd_in_set [of "queues k RLIST"]
  by (auto simp: resched_def switch_ahead_def)

section \<open>Kernel services\<close>

text \<open>
  The API functions enter the critical zone, run an S-class body and leave it. A body that
  switches to another thread is followed by the \<open>chSysUnlock\<close> of that thread, which left it
  pending in its own blocked call; the state change is the same. \<open>locked_wait\<close> does the same
  for a body that may put the caller to sleep; the \<open>chSysUnlock\<close> of the sleeper is part of the
  resumed half of the call.
\<close>

definition locked :: "(kernel \<Rightarrow> kernel kres) \<Rightarrow> kernel \<Rightarrow> kernel kres" where
  "locked body k = kbind (chSysLock k) (\<lambda>k. kbind (body k) chSysUnlock)"

definition locked_wait :: "(kernel \<Rightarrow> ('a wait \<times> kernel) kres) \<Rightarrow> kernel \<Rightarrow> ('a wait \<times> kernel) kres" where
  "locked_wait body k =
     kbind (chSysLock k) (\<lambda>k. kbind (body k) (\<lambda>(r, k).
       case r of Asleep \<Rightarrow> Ok (Asleep, k)
       | Returned v \<Rightarrow> kbind (chSysUnlock k) (\<lambda>k. Ok (Returned v, k))))"

definition unlock_resume :: "'a \<Rightarrow> kernel \<Rightarrow> ('a \<times> kernel) kres" where
  "unlock_resume v k = kbind (chSysUnlock k) (\<lambda>k. Ok (v, k))"

definition thread_idle_ctx :: "kernel \<Rightarrow> bool" where
  "thread_idle_ctx k \<longleftrightarrow> isr_cnt k = 0 \<and> lock_cnt k = 0"

lemma chSysLock_ok: "thread_idle_ctx k \<Longrightarrow> chSysLock k = Ok (k\<lparr>lock_cnt := 1\<rparr>) \<and> thd_ctx (k\<lparr>lock_cnt := 1\<rparr>)"
  by (simp add: thread_idle_ctx_def sys_defs dbg_defs thd_ctx_def)

lemma chSysUnlock_ok:
  "thd_ctx k \<Longrightarrow> sched_order k \<Longrightarrow> chSysUnlock k = Ok (k\<lparr>lock_cnt := 0\<rparr>) \<and> thread_idle_ctx (k\<lparr>lock_cnt := 0\<rparr>)"
  using sched_order_hd [of k] by (simp add: thread_idle_ctx_def sys_defs dbg_defs thd_ctx_def)

text \<open>
  A service: from a consistent scheduler with no pending reschedule, inside the critical zone
  of a thread, the body finishes in such a state again.
\<close>

definition sched_ok :: "kernel \<Rightarrow> bool" where
  "sched_ok k \<longleftrightarrow> sched_inv k \<and> sched_order k"

lemma sched_ok_lock [simp]: "sched_ok (k\<lparr>lock_cnt := n\<rparr>) = sched_ok k"
  by (simp add: sched_ok_def)

lemma locked_Ok:
  assumes "thread_idle_ctx k" and "body (k\<lparr>lock_cnt := 1\<rparr>) = Ok k1" and "sched_ok k1" and "thd_ctx k1"
  shows "locked body k = Ok (k1\<lparr>lock_cnt := 0\<rparr>)" and "thread_idle_ctx (k1\<lparr>lock_cnt := 0\<rparr>)"
  using chSysLock_ok [OF assms(1)] chSysUnlock_ok [OF assms(4)] assms(2,3)
  by (simp_all add: locked_def sched_ok_def)

locale s_service =
  fixes body :: "kernel \<Rightarrow> kernel kres" and pre :: "kernel \<Rightarrow> bool"
  assumes body_ok: "sched_ok k \<Longrightarrow> thd_ctx k \<Longrightarrow> pre k \<Longrightarrow> \<exists>k'. body k = Ok k' \<and> sched_ok k' \<and> thd_ctx k'"
    and pre_lock: "pre (k\<lparr>lock_cnt := n\<rparr>) = pre k"
begin

lemma api_ok:
  assumes "sched_ok k" and "thread_idle_ctx k" and "pre k"
  shows "\<exists>k'. locked body k = Ok k' \<and> sched_ok k' \<and> thread_idle_ctx k'"
proof -
  obtain k1 where k1: "body (k\<lparr>lock_cnt := 1\<rparr>) = Ok k1" "sched_ok k1" "thd_ctx k1"
    using body_ok [of "k\<lparr>lock_cnt := 1\<rparr>"] chSysLock_ok [OF assms(2)] assms pre_lock by auto
  then show ?thesis
    using locked_Ok [where body = body, OF assms(2) k1] by (intro exI [of _ "k1\<lparr>lock_cnt := 0\<rparr>"]) simp
qed

end

text \<open>Yielding and rescheduling are services without a precondition.\<close>

interpretation yield: s_service chSchDoYieldS "\<lambda>_. True"
  by unfold_locales (use chSchDoYieldS_ok in \<open>force simp: sched_ok_def\<close>)+

interpretation resc: s_service chSchRescheduleS "\<lambda>_. True"
  by unfold_locales (auto simp: sched_ok_def chSchRescheduleS_eq resched_inv)

section \<open>Properties\<close>

text \<open>A running thread at 16, the idle thread at 32 ready, a thread at 48 suspended.\<close>

definition demo_kernel :: kernel where
  "demo_kernel = kernel_reset\<lparr>
     threads := (\<lambda>_. no_thread)(16 := no_thread\<lparr>t_prio := 128, t_state := CH_STATE_CURRENT\<rparr>,
       32 := no_thread\<lparr>t_prio := 1, t_state := CH_STATE_READY\<rparr>,
       48 := no_thread\<lparr>t_prio := 200, t_state := CH_STATE_SUSPENDED, t_u := 64\<rparr>),
     queues := (\<lambda>_. [])(RLIST := [32]), currp := 16, lock_cnt := 1, trefs := (\<lambda>_. NULL)(64 := 48)\<rparr>"

lemma demo_kernel_ok:
  "sched_inv demo_kernel" "sched_order demo_kernel" "thd_ctx demo_kernel" "limbo 48 demo_kernel"
  by (auto simp: demo_kernel_def kernel_reset_def no_thread_def sched_inv_def sched_order_def thd_ctx_def
      limbo_def split: if_splits)

text \<open>
  C25: going to sleep gives the processor to the ready thread of highest priority that has
  been ready longest (the head of the ready list), keeps the scheduling invariant and
  leaves no ready thread with a higher priority than the running one.
\<close>

theorem chSchGoSleepS_switches:
  assumes "sched_inv k" and "thd_ctx k" and "queues k RLIST \<noteq> []"
    and "st \<notin> {CH_STATE_READY, CH_STATE_CURRENT}"
  shows "\<exists>k'. chSchGoSleepS st k = Ok k' \<and> sched_inv k' \<and> sched_order k' \<and> thd_ctx k' \<and>
    currp k' = hd (queues k RLIST) \<and> state_of k' (currp k) = st \<and> queues k' RLIST = tl (queues k RLIST)"
proof -
  have "enq_ok k k st" using assms(4) by (simp add: enq_ok_def)
  moreover have "currp k \<noteq> hd (queues k RLIST)"
    by (metis assms(1,3) currp_not_queued hd_in_set)
  ultimately show ?thesis
    using chSchGoSleepS_eq [OF assms(2,3), of st] sched_inv_go_sleep [OF assms(1) _ assms(3), of k st] assms(2)
    by simp
qed

theorem chSchGoSleepS_switches_witness:
  "\<exists>k'. chSchGoSleepS CH_STATE_SLEEPING demo_kernel = Ok k' \<and> sched_inv k' \<and> currp k' = 32"
proof -
  have "queues demo_kernel RLIST = [32]" by (simp add: demo_kernel_def)
  with chSchGoSleepS_switches [OF demo_kernel_ok(1,3), of CH_STATE_SLEEPING] show ?thesis by auto
qed

text \<open>
  \<open>chSchWakeupS\<close> is equivalent to \<open>chSchReadyI\<close> followed by \<open>chSchRescheduleS\<close>, for a thread
  that waits outside every list while no ready thread outranks the running one.
\<close>

theorem chSchWakeupS_equiv:
  assumes "sched_inv k" and "sched_order k" and "thd_ctx k" and "limbo ntp k"
  shows "chSchWakeupS ntp msg k = kbind (chSchReadyI ntp (set_u msg ntp k)) chSchRescheduleS"
proof -
  have u: "sched_inv (set_u msg ntp k)" "limbo ntp (set_u msg ntp k)" "i_ctx (set_u msg ntp k)"
    using assms by simp_all
  then show ?thesis
    using chSchWakeupS_eq [OF assms(1,4,2,3)] wake_eq_resched [OF assms(1,4,2)] assms(3)
      chSchReadyI_ok [OF u] chSchRescheduleS_eq [OF sched_inv_ready(1) [OF u(1,2)]] by simp
qed

theorem chSchWakeupS_equiv_witness:
  "chSchWakeupS 48 MSG_OK demo_kernel =
     kbind (chSchReadyI 48 (set_u MSG_OK 48 demo_kernel)) chSchRescheduleS \<and>
   ok_and (\<lambda>k. currp k = 48 \<and> queues k RLIST = [16, 32]) (chSchWakeupS 48 MSG_OK demo_kernel)"
proof
  show "chSchWakeupS 48 MSG_OK demo_kernel =
     kbind (chSchReadyI 48 (set_u MSG_OK 48 demo_kernel)) chSchRescheduleS"
    by (rule chSchWakeupS_equiv [OF demo_kernel_ok])
  show "ok_and (\<lambda>k. currp k = 48 \<and> queues k RLIST = [16, 32]) (chSchWakeupS 48 MSG_OK demo_kernel)"
    unfolding chSchWakeupS_eq [OF demo_kernel_ok(1,4,2,3)]
    by (simp add: wake_def ready_queues demo_kernel_def kernel_reset_def no_thread_def)
qed

text \<open>
  After \<open>chSchRescheduleS\<close> the running thread has the highest priority of all runnable
  threads, and the invariant is kept; the call never fails.
\<close>

theorem chSchRescheduleS_order:
  assumes "sched_inv k" and "thd_ctx k"
  shows "\<exists>k'. chSchRescheduleS k = Ok k' \<and> sched_inv k' \<and> sched_order k' \<and> thd_ctx k' \<and>
    (\<forall>t. prio_of k' t = prio_of k t)"
  using chSchRescheduleS_eq [OF assms] resched_inv [OF assms(1)] assms(2) by (auto simp: resched_def)

theorem chSchRescheduleS_order_witness:
  "\<exists>k'. chSchRescheduleS demo_kernel = Ok k' \<and> sched_order k'"
  using chSchRescheduleS_order [OF demo_kernel_ok(1,3)] by blast

text \<open>
  A thread of priority \<open>NOPRIO\<close> passes the checks of \<open>chSchReadyI\<close>, but the scan of the
  ready list never ends, since the header of the list has the same priority.
\<close>

theorem chSchReadyI_noprio:
  assumes "i_ctx k" and "tp \<noteq> NULL" and "state_of k tp \<notin> {CH_STATE_READY, CH_STATE_FINAL}"
    and "prio_of k tp = NOPRIO"
  shows "chSchReadyI tp k = Diverge"
  using assms by (simp add: chSchReadyI_def)

theorem chSchReadyI_noprio_witness:
  "chSchReadyI 80 (upd_th 80 (\<lambda>_. no_thread\<lparr>t_state := CH_STATE_WTSTART\<rparr>) demo_kernel) = Diverge"
  by (rule chSchReadyI_noprio) (simp_all add: demo_kernel_def i_ctx_def kernel_reset_def no_thread_def NOPRIO_def)

text \<open>
  C30: one call of \<open>chVTDoTickI\<close> with enough fuel returns; it wakes exactly the sleeping
  threads whose timeout is due, with \<open>MSG_TIMEOUT\<close> unless they were ready already, leaves
  every other thread and the other timers' expiration times as they were, and keeps the
  invariants of the timers and of the scheduler.
\<close>

theorem chVTDoTickI_expires:
  assumes "sched_inv k" and "vt_inv k" and "isr_ctx k" and "\<And>n. st_clock k n = now"
    and "now - vt_lasttime k \<noteq> - 1"
    and "\<And>v. v \<in> armed k \<Longrightarrow> vt_func k v = VT_WAKEUP \<and> timed_state (state_of k (vt_par k v))"
    and "length (vt_list k) + 1 < fuel"
  shows "\<exists>k'. chVTDoTickI fuel (vt_call user) k = Ok k' \<and> vt_inv k' \<and> sched_inv k' \<and>
    deadlines k' = map (\<lambda>(v, n). (v, vt_lasttime k + of_nat n))
      (filter (\<lambda>p. unat (now - vt_lasttime k) < snd p) (offs 0 (vt_list k))) \<and>
    (\<forall>v\<in>armed k - armed k'. state_of k' (vt_par k v) = CH_STATE_READY \<and>
      (state_of k (vt_par k v) = CH_STATE_READY \<or> rdymsg_of k' (vt_par k v) = MSG_TIMEOUT)) \<and>
    (\<forall>t. t \<notin> vt_par k ` (armed k - armed k') \<longrightarrow> threads k' t = threads k t)"
proof -
  have "wk.tickable k now k"
    using assms vt_invD(1,4) [OF assms(2)] by (auto simp: wk.tickable_def may_wake_def)
  then obtain k' where k': "chVTDoTickI fuel (vt_call user) k = Ok k'" "vt_inv k'" "sched_inv k'"
    "deadlines k' = map (\<lambda>(v, n). (v, vt_lasttime k + of_nat n))
      (filter (\<lambda>p. unat (now - vt_lasttime k) < snd p) (offs 0 (vt_list k)))"
    "\<And>v. v \<in> armed k - armed k' \<Longrightarrow> woken k (vt_func k v) (vt_par k v) k'"
    "\<And>t. t \<notin> vt_par k ` (armed k - armed k') \<Longrightarrow> threads k' t = threads k t"
    using wk.tick [OF _ assms(2,7), of k now user] by metis
  show ?thesis
    by (rule exI [of _ k']) (use k' in \<open>simp add: woken_def\<close>)
qed

text \<open>
  The thread at 48 sleeps on a semaphore with a timeout that expires at 110, the one at 80
  with one that expires at 150; the time is 112.
\<close>

definition demo_sleepers :: kernel where
  "demo_sleepers = kernel_reset\<lparr>
     threads := (\<lambda>_. no_thread)(16 := no_thread\<lparr>t_prio := 128, t_state := CH_STATE_CURRENT\<rparr>,
       48 := no_thread\<lparr>t_prio := 200, t_state := CH_STATE_WTSEM, t_u := 64\<rparr>,
       80 := no_thread\<lparr>t_prio := 100, t_state := CH_STATE_SLEEPING\<rparr>),
     queues := (\<lambda>_. [])(TQ 64 := [48]), sem_cnt := (\<lambda>_. 0)(64 := - 1), currp := 16, isr_cnt := 1, lock_cnt := 1,
     st_clock := (\<lambda>_. 112), vt_lasttime := 100, vt_list := [(SLEEPVT 48, 10), (SLEEPVT 80, 40)],
     vt_alarm := Some 110,
     vt_func := (\<lambda>v. if v = SLEEPVT 48 \<or> v = SLEEPVT 80 then VT_WAKEUP else VT_NULL),
     vt_par := (\<lambda>v. case v of SLEEPVT t \<Rightarrow> t | VT _ \<Rightarrow> NULL)\<rparr>"

theorem chVTDoTickI_expires_witness:
  "\<exists>k'. chVTDoTickI 4 (vt_call (\<lambda>_ _. Ok)) demo_sleepers = Ok k' \<and> deadlines k' = [(SLEEPVT 80, 150)] \<and>
    threads k' 80 = threads demo_sleepers 80"
proof -
  have "sched_inv demo_sleepers" "vt_inv demo_sleepers" "isr_ctx demo_sleepers"
    by (auto simp: demo_sleepers_def kernel_reset_def no_thread_def sched_inv_def vt_inv_def isr_ctx_def
        split: if_splits)
  moreover have "\<And>n. st_clock demo_sleepers n = 112" "112 - vt_lasttime demo_sleepers \<noteq> - 1"
    "length (vt_list demo_sleepers) + 1 < 4"
    "\<And>v. v \<in> armed demo_sleepers \<Longrightarrow>
      vt_func demo_sleepers v = VT_WAKEUP \<and> timed_state (state_of demo_sleepers (vt_par demo_sleepers v))"
    by (auto simp: demo_sleepers_def timed_state_def)
  ultimately obtain k' where k': "chVTDoTickI 4 (vt_call (\<lambda>_ _. Ok)) demo_sleepers = Ok k'"
    "deadlines k' = map (\<lambda>(v, n). (v, vt_lasttime demo_sleepers + of_nat n))
      (filter (\<lambda>p. unat (112 - vt_lasttime demo_sleepers) < snd p) (offs 0 (vt_list demo_sleepers)))"
    "\<forall>t. t \<notin> vt_par demo_sleepers ` (armed demo_sleepers - armed k') \<longrightarrow> threads k' t = threads demo_sleepers t"
    using chVTDoTickI_expires [of demo_sleepers 112 4 "\<lambda>_ _. Ok"] by blast
  have dk: "deadlines k' = [(SLEEPVT 80, 150)]"
    using k'(2) by (simp add: demo_sleepers_def)
  then have "armed k' = {SLEEPVT 80}"
    using armed_deadlines [of k'] by simp
  then have "80 \<notin> vt_par demo_sleepers ` (armed demo_sleepers - armed k')"
    by (auto simp: demo_sleepers_def)
  with k' dk show ?thesis by blast
qed

end
