(* ===== verification/Semaphores.thy ===== *)
theory Semaphores
  imports Scheduler
begin

text \<open>
  Counting semaphores (\<open>os/rt/src/chsem.c\<close>), with FIFO queues
  (\<open>CH_CFG_USE_SEMAPHORES_PRIORITY\<close> is \<open>FALSE\<close>).

  A semaphore at address \<open>sp\<close> is its counter \<open>sem_cnt k sp\<close> and its queue \<open>queues k (TQ sp)\<close>.
  The invariant \<open>sem_inv\<close> says that a negative counter counts the waiting threads, and that
  these wait in state \<open>CH_STATE_WTSEM\<close> for this semaphore. The abstract semaphore is the pair
  of the available units and the waiting threads; each operation is shown to act on it as
  specified, and to be a kernel service. The counter is a mathematical integer: the signed
  overflow after \<open>2 ^ 31\<close> signals is not modelled.
\<close>

section \<open>Operations\<close>

definition sem_consistent :: "ptr \<Rightarrow> kernel \<Rightarrow> bool" where
  "sem_consistent sp k \<longleftrightarrow> (sem_cnt k sp \<ge> 0 \<and> queues k (TQ sp) = []) \<or>
     (sem_cnt k sp < 0 \<and> queues k (TQ sp) \<noteq> [])"

definition set_cnt :: "ptr \<Rightarrow> int \<Rightarrow> kernel \<Rightarrow> kernel" where
  "set_cnt sp n k = k\<lparr>sem_cnt := (sem_cnt k)(sp := n)\<rparr>"

definition chSemObjectInit :: "ptr \<Rightarrow> int \<Rightarrow> kernel \<Rightarrow> kernel kres" where
  "chSemObjectInit sp n k =
     kguard (sp \<noteq> NULL \<and> n \<ge> 0) ''chSemObjectInit'' (Ok (set_cnt sp n (upd_q (TQ sp) (\<lambda>_. []) k)))"

text \<open>
  The loops that empty a queue carry the number of turns they may still take; the callers
  start them with the length of the queue.
\<close>

fun release_lifo :: "nat \<Rightarrow> ptr \<Rightarrow> msg_t \<Rightarrow> kernel \<Rightarrow> kernel kres" where
  "release_lifo n sp msg k =
     (if queues k (TQ sp) = [] then Ok k
      else case n of 0 \<Rightarrow> Diverge
      | Suc m \<Rightarrow> kbind (q_last_out (TQ sp) k) (\<lambda>(tp, k).
                 kbind (chSchReadyI tp k) (\<lambda>k. release_lifo m sp msg (set_u msg tp k))))"

definition chSemResetWithMessageI :: "ptr \<Rightarrow> int \<Rightarrow> msg_t \<Rightarrow> kernel \<Rightarrow> kernel kres" where
  "chSemResetWithMessageI sp n msg k =
     chDbgCheckClassI k (
     kguard (sp \<noteq> NULL \<and> n \<ge> 0) ''chSemResetWithMessageI'' (
     kguard (sem_consistent sp k) ''chSemResetWithMessageI'' (
     release_lifo (length (queues k (TQ sp))) sp msg (set_cnt sp n k))))"

definition chSemResetWithMessage :: "ptr \<Rightarrow> int \<Rightarrow> msg_t \<Rightarrow> kernel \<Rightarrow> kernel kres" where
  "chSemResetWithMessage sp n msg =
     locked (\<lambda>k. kbind (chSemResetWithMessageI sp n msg k) chSchRescheduleS)"

definition chSemReset :: "ptr \<Rightarrow> int \<Rightarrow> kernel \<Rightarrow> kernel kres" where
  "chSemReset sp n = chSemResetWithMessage sp n MSG_RESET"

definition chSemResetI :: "ptr \<Rightarrow> int \<Rightarrow> kernel \<Rightarrow> kernel kres" where
  "chSemResetI sp n = chSemResetWithMessageI sp n MSG_RESET"

definition chSemWaitS :: "ptr \<Rightarrow> kernel \<Rightarrow> (msg_t wait \<times> kernel) kres" where
  "chSemWaitS sp k =
     chDbgCheckClassS k (
     kguard (sp \<noteq> NULL) ''chSemWaitS'' (
     kguard (sem_consistent sp k) ''chSemWaitS'' (
     let k = set_cnt sp (sem_cnt k sp - 1) k
     in if sem_cnt k sp < 0
        then kbind (chSchGoSleepS CH_STATE_WTSEM (q_insert (currp k) (TQ sp) (set_u sp (currp k) k)))
               (\<lambda>k. Ok (Asleep, k))
        else Ok (Returned MSG_OK, k))))"

definition chSemWaitS_resume :: "kernel \<Rightarrow> (msg_t \<times> kernel) kres" where
  "chSemWaitS_resume k = Ok (rdymsg_of k (currp k), k)"

definition chSemWait :: "ptr \<Rightarrow> kernel \<Rightarrow> (msg_t wait \<times> kernel) kres" where
  "chSemWait sp = locked_wait (chSemWaitS sp)"

definition chSemWait_resume :: "kernel \<Rightarrow> (msg_t \<times> kernel) kres" where
  "chSemWait_resume k = kbind (chSemWaitS_resume k) (\<lambda>(msg, k). unlock_resume msg k)"

definition chSemWaitTimeoutS :: "ptr \<Rightarrow> u32 \<Rightarrow> kernel \<Rightarrow> (msg_t wait \<times> kernel) kres" where
  "chSemWaitTimeoutS sp timeout k =
     chDbgCheckClassS k (
     kguard (sp \<noteq> NULL) ''chSemWaitTimeoutS'' (
     kguard (sem_consistent sp k) ''chSemWaitTimeoutS'' (
     let k = set_cnt sp (sem_cnt k sp - 1) k
     in if sem_cnt k sp < 0
        then if TIME_IMMEDIATE = timeout then Ok (Returned MSG_TIMEOUT, set_cnt sp (sem_cnt k sp + 1) k)
             else kbind (chSchGoSleepTimeoutS CH_STATE_WTSEM timeout
                          (q_insert (currp k) (TQ sp) (set_u sp (currp k) k)))
                    (\<lambda>k. Ok (Asleep, k))
        else Ok (Returned MSG_OK, k))))"

definition chSemWaitTimeoutS_resume :: "u32 \<Rightarrow> kernel \<Rightarrow> (msg_t \<times> kernel) kres" where
  "chSemWaitTimeoutS_resume timeout k = chSchGoSleepTimeoutS_resume timeout k"

definition chSemWaitTimeout :: "ptr \<Rightarrow> u32 \<Rightarrow> kernel \<Rightarrow> (msg_t wait \<times> kernel) kres" where
  "chSemWaitTimeout sp timeout = locked_wait (chSemWaitTimeoutS sp timeout)"

definition chSemWaitTimeout_resume :: "u32 \<Rightarrow> kernel \<Rightarrow> (msg_t \<times> kernel) kres" where
  "chSemWaitTimeout_resume timeout k =
     kbind (chSemWaitTimeoutS_resume timeout k) (\<lambda>(msg, k). unlock_resume msg k)"

text \<open>The part of \<open>chSemSignal\<close> inside the critical zone.\<close>

definition sem_signal_body :: "ptr \<Rightarrow> kernel \<Rightarrow> kernel kres" where
  "sem_signal_body sp k =
     kguard (sem_consistent sp k) ''chSemSignal'' (
     let k = set_cnt sp (sem_cnt k sp + 1) k
     in if sem_cnt k sp \<le> 0 then kbind (q_first_out (TQ sp) k) (\<lambda>(tp, k). chSchWakeupS tp MSG_OK k)
        else Ok k)"

definition chSemSignal :: "ptr \<Rightarrow> kernel \<Rightarrow> kernel kres" where
  "chSemSignal sp k = kguard (sp \<noteq> NULL) ''chSemSignal'' (locked (sem_signal_body sp) k)"

definition chSemSignalI :: "ptr \<Rightarrow> kernel \<Rightarrow> kernel kres" where
  "chSemSignalI sp k =
     chDbgCheckClassI k (
     kguard (sp \<noteq> NULL) ''chSemSignalI'' (
     kguard (sem_consistent sp k) ''chSemSignalI'' (
     let k = set_cnt sp (sem_cnt k sp + 1) k
     in if sem_cnt k sp \<le> 0
        then kbind (q_first_out (TQ sp) k) (\<lambda>(tp, k). chSchReadyI tp (set_u MSG_OK tp k))
        else Ok k)))"

fun add_counter_loop :: "nat \<Rightarrow> ptr \<Rightarrow> kernel \<Rightarrow> kernel kres" where
  "add_counter_loop 0 sp k = Ok k"
| "add_counter_loop (Suc n) sp k =
     (let k = set_cnt sp (sem_cnt k sp + 1) k
      in kbind (if sem_cnt k sp \<le> 0
                then kbind (q_first_out (TQ sp) k) (\<lambda>(tp, k).
                     kbind (chSchReadyI tp k) (\<lambda>k. Ok (set_u MSG_OK tp k)))
                else Ok k) (add_counter_loop n sp))"

definition chSemAddCounterI :: "ptr \<Rightarrow> int \<Rightarrow> kernel \<Rightarrow> kernel kres" where
  "chSemAddCounterI sp n k =
     chDbgCheckClassI k (
     kguard (sp \<noteq> NULL \<and> n > 0) ''chSemAddCounterI'' (
     kguard (sem_consistent sp k) ''chSemAddCounterI'' (add_counter_loop (nat n) sp k)))"

definition chSemSignalWait :: "ptr \<Rightarrow> ptr \<Rightarrow> kernel \<Rightarrow> (msg_t wait \<times> kernel) kres" where
  "chSemSignalWait sps spw k =
     kguard (sps \<noteq> NULL \<and> spw \<noteq> NULL) ''chSemSignalWait'' (
     locked_wait (\<lambda>k.
       kguard (sem_consistent sps k) ''chSemSignalWait'' (
       kguard (sem_consistent spw k) ''chSemSignalWait'' (
       let k = set_cnt sps (sem_cnt k sps + 1) k
       in kbind (if sem_cnt k sps \<le> 0
                 then kbind (q_first_out (TQ sps) k) (\<lambda>(tp, k).
                      kbind (chSchReadyI tp k) (\<lambda>k. Ok (set_u MSG_OK tp k)))
                 else Ok k) (\<lambda>k.
          let k = set_cnt spw (sem_cnt k spw - 1) k
          in if sem_cnt k spw < 0
             then kbind (chSchGoSleepS CH_STATE_WTSEM (set_u spw (currp k) (q_insert (currp k) (TQ spw) k)))
                    (\<lambda>k. Ok (Asleep, k))
             else kbind (chSchRescheduleS k) (\<lambda>k. Ok (Returned MSG_OK, k)))))) k)"

definition chSemSignalWait_resume :: "kernel \<Rightarrow> (msg_t \<times> kernel) kres" where
  "chSemSignalWait_resume k = unlock_resume (rdymsg_of k (currp k)) k"

definition chSemGetCounterI :: "ptr \<Rightarrow> kernel \<Rightarrow> int kres" where
  "chSemGetCounterI sp k = chDbgCheckClassI k (Ok (sem_cnt k sp))"

section \<open>Invariant and abstract state\<close>

definition sem_inv :: "ptr \<Rightarrow> kernel \<Rightarrow> bool" where
  "sem_inv sp k \<longleftrightarrow> int (length (queues k (TQ sp))) = max 0 (- sem_cnt k sp) \<and>
     (\<forall>t\<in>set (queues k (TQ sp)). state_of k t = CH_STATE_WTSEM \<and> rdymsg_of k t = sp)"

definition sem_abs :: "ptr \<Rightarrow> kernel \<Rightarrow> nat \<times> ptr list" where
  "sem_abs sp k = (nat (sem_cnt k sp), queues k (TQ sp))"

text \<open>The specification: the units and the waiting threads.\<close>

fun spec_signal :: "nat \<times> ptr list \<Rightarrow> nat \<times> ptr list" where
  "spec_signal (u, []) = (Suc u, [])"
| "spec_signal (u, t # ts) = (u, ts)"

fun spec_wait :: "ptr \<Rightarrow> nat \<times> ptr list \<Rightarrow> nat \<times> ptr list" where
  "spec_wait t (0, ts) = (0, ts @ [t])"
| "spec_wait t (Suc u, ts) = (u, ts)"

lemma set_cnt_frame [simp]:
  "threads (set_cnt sp n k) = threads k" "queues (set_cnt sp n k) = queues k" "currp (set_cnt sp n k) = currp k"
  "sem_cnt (set_cnt sp n k) = (sem_cnt k)(sp := n)" "thd_ctx (set_cnt sp n k) = thd_ctx k"
  "i_ctx (set_cnt sp n k) = i_ctx k" "sched_inv (set_cnt sp n k) = sched_inv k"
  "sched_order (set_cnt sp n k) = sched_order k"
  "mtxs (set_cnt sp n k) = mtxs k" "trefs (set_cnt sp n k) = trefs k" "mboxes (set_cnt sp n k) = mboxes k"
  by (simp_all add: set_cnt_def)

lemma sem_inv_consistent: "sem_inv sp k \<Longrightarrow> sem_consistent sp k"
  by (cases "queues k (TQ sp)") (auto simp: sem_inv_def sem_consistent_def max_def split: if_splits)

lemma sem_lock [simp]:
  "sem_inv sp (k\<lparr>lock_cnt := n\<rparr>) = sem_inv sp k" "sem_abs sp (k\<lparr>lock_cnt := n\<rparr>) = sem_abs sp k"
  by (simp_all add: sem_inv_def sem_abs_def)

lemma sem_inv_cases:
  assumes "sem_inv sp k"
  obtains (free) "sem_cnt k sp \<ge> 0" "queues k (TQ sp) = []"
    | (waiting) t ts where "sem_cnt k sp < 0" "queues k (TQ sp) = t # ts"
        "int (length ts) = - sem_cnt k sp - 1" "state_of k t = CH_STATE_WTSEM"
  using assms by (cases "queues k (TQ sp)") (auto simp: sem_inv_def max_def split: if_splits)

section \<open>Signalling\<close>

text \<open>\<open>pop sp k\<close>: the semaphore after a signal has taken its first waiter out.\<close>

lemma pop_first:
  assumes inv: "sched_inv k" and sem: "sem_inv sp k" and q: "queues k (TQ sp) = t # ts"
  defines "k1 \<equiv> upd_q (TQ sp) (\<lambda>_. ts) (set_cnt sp (sem_cnt k sp + 1) k)"
  shows "q_first_out (TQ sp) (set_cnt sp (sem_cnt k sp + 1) k) = Ok (t, k1)"
    and "sched_inv k1" and "limbo t k1" and "sem_inv sp k1" and "sem_abs sp k1 = spec_signal (sem_abs sp k)"
proof -
  show "q_first_out (TQ sp) (set_cnt sp (sem_cnt k sp + 1) k) = Ok (t, k1)"
    using q by (simp add: q_first_out_def k1_def)
  show "sched_inv k1" "limbo t k1"
    using unqueue_first [of "set_cnt sp (sem_cnt k sp + 1) k" "TQ sp" t ts] inv q by (simp_all add: k1_def)
  show "sem_inv sp k1" using sem q by (auto simp: sem_inv_def k1_def max_def split: if_splits)
  show "sem_abs sp k1 = spec_signal (sem_abs sp k)"
    using sem q by (auto simp: sem_abs_def k1_def sem_inv_def max_def split: if_splits)
qed

lemma sem_inv_wake:
  assumes "sem_inv sp k" and "limbo t k" and "sched_inv k"
  shows "sem_inv sp (wake t msg k)" and "sem_abs sp (wake t msg k) = sem_abs sp k"
proof -
  have "t \<notin> set (queues k (TQ sp))" "currp k \<notin> set (queues k (TQ sp))"
    using limboD(4) [OF assms(2,3)] currp_not_queued [OF assms(3)] by blast+
  then have "\<And>x. x \<in> set (queues k (TQ sp)) \<Longrightarrow> x \<noteq> t \<and> x \<noteq> currp k" by blast
  then show "sem_inv sp (wake t msg k)"
    using assms(1) by (auto simp: sem_inv_def wake_state(2))
  show "sem_abs sp (wake t msg k) = sem_abs sp k" by (simp add: sem_abs_def)
qed

lemma sem_inv_ready:
  assumes "sem_inv sp k" and "limbo t k" and "sched_inv k"
  shows "sem_inv sp (ready_behind t k)" and "sem_abs sp (ready_behind t k) = sem_abs sp k"
  using assms limboD(4) [OF assms(2,3), of "TQ sp"] by (auto simp: sem_inv_def sem_abs_def)

lemma sem_inv_set_u:
  "t \<notin> set (queues k (TQ sp)) \<Longrightarrow> sem_inv sp (set_u v t k) = sem_inv sp k"
  by (auto simp: sem_inv_def)

lemma sem_signal_body_ok:
  assumes "sched_ok k" and "thd_ctx k" and "sem_inv sp k"
  shows "\<exists>k'. sem_signal_body sp k = Ok k' \<and> sched_ok k' \<and> thd_ctx k' \<and> sem_inv sp k' \<and>
    sem_abs sp k' = spec_signal (sem_abs sp k) \<and>
    (\<forall>t ts. queues k (TQ sp) = t # ts \<longrightarrow>
       state_of k' t \<in> {CH_STATE_READY, CH_STATE_CURRENT} \<and> rdymsg_of k' t = MSG_OK)"
  using assms(3)
proof (cases rule: sem_inv_cases)
  case free
  then show ?thesis
    using assms sem_inv_consistent [OF assms(3)]
    by (auto simp: sem_signal_body_def sched_ok_def sem_inv_def sem_abs_def max_def nat_add_distrib)
next
  case (waiting t ts)
  have inv: "sched_inv k" "sched_order k" using assms(1) by (simp_all add: sched_ok_def)
  note p = pop_first [OF inv(1) assms(3) waiting(2)]
  let ?k1 = "upd_q (TQ sp) (\<lambda>_. ts) (set_cnt sp (sem_cnt k sp + 1) k)"
  have o: "sched_order ?k1" "thd_ctx ?k1" using inv assms(2) by (auto simp: sched_order_def)
  have "sem_signal_body sp k = Ok (wake t MSG_OK ?k1)"
    using waiting p(1) sem_inv_consistent [OF assms(3)] chSchWakeupS_eq [OF p(2,3) o]
    by (simp add: sem_signal_body_def)
  then show ?thesis
    using wake_inv [OF p(2,3) o(1)] o(2) sem_inv_wake [OF p(4,3,2)] p(5) wake_state(1) [OF p(2,3)] waiting(2)
    by (auto simp: sched_ok_def)
qed

interpretation sem_signal: s_service "sem_signal_body sp" "sem_inv sp" for sp
proof unfold_locales
  show "\<exists>k'. sem_signal_body sp k = Ok k' \<and> sched_ok k' \<and> thd_ctx k'"
    if "sched_ok k" "thd_ctx k" "sem_inv sp k" for k
    using sem_signal_body_ok [OF that] by blast
qed (simp add: sem_inv_def)

lemma chSemSignalI_ok:
  assumes inv: "sched_inv k" and "i_ctx k" and "sem_inv sp k" and "sp \<noteq> NULL"
  shows "\<exists>k'. chSemSignalI sp k = Ok k' \<and> sched_inv k' \<and> i_ctx k' \<and> sem_inv sp k' \<and>
    sem_abs sp k' = spec_signal (sem_abs sp k) \<and>
    (\<forall>t ts. queues k (TQ sp) = t # ts \<longrightarrow> state_of k' t = CH_STATE_READY \<and> rdymsg_of k' t = MSG_OK)"
  using assms(3)
proof (cases rule: sem_inv_cases)
  case free
  then show ?thesis
    using assms sem_inv_consistent [OF assms(3)]
    by (auto simp: chSemSignalI_def sem_inv_def sem_abs_def max_def nat_add_distrib)
next
  case (waiting t ts)
  note p = pop_first [OF inv(1) assms(3) waiting(2)]
  let ?k1 = "set_u MSG_OK t (upd_q (TQ sp) (\<lambda>_. ts) (set_cnt sp (sem_cnt k sp + 1) k))"
  have q: "sched_inv ?k1" "limbo t ?k1" "i_ctx ?k1" "sem_inv sp ?k1" 
    using p assms(2) sem_inv_set_u [OF limboD(4) [OF p(3,2)], of sp] by simp_all
  have "chSemSignalI sp k = Ok (ready_behind t ?k1)"
    using waiting p(1) sem_inv_consistent [OF assms(3)] chSchReadyI_ok [OF q(1-3)] assms(2,4)
    by (simp add: chSemSignalI_def)
  then show ?thesis
    using sched_inv_ready(1) [OF q(1,2)] q(3) sem_inv_ready [OF q(4,2,1)] p(5) waiting(2)
    by (auto simp: sem_abs_def)
qed

section \<open>Waiting\<close>

lemma enq_sem:
  assumes "sched_inv k"
  shows "enq_ok k (q_insert (currp k) (TQ sp) (set_u sp (currp k) (set_cnt sp n k))) CH_STATE_WTSEM"
proof -
  have "currp k \<notin> set (queues k (TQ sp))" using currp_not_queued [OF assms] .
  then show ?thesis
    using sched_invD(2) [OF assms, of "TQ sp"] unfolding enq_ok_def
    by (intro conjI disjI2 exI [of _ "TQ sp"] exI [of _ "queues k (TQ sp) @ [currp k]"]) auto
qed

text \<open>The state after the current thread has gone to sleep on the semaphore.\<close>

definition sem_sleep :: "ptr \<Rightarrow> kernel \<Rightarrow> kernel" where
  "sem_sleep sp k = go_sleep CH_STATE_WTSEM
     (q_insert (currp k) (TQ sp) (set_u sp (currp k) (set_cnt sp (sem_cnt k sp - 1) k)))"

lemma sem_sleep_ok:
  assumes inv: "sched_inv k" and sem: "sem_inv sp k" and cnt: "sem_cnt k sp \<le> 0" and ne: "queues k RLIST \<noteq> []"
  shows "sched_ok (sem_sleep sp k)" and "sem_inv sp (sem_sleep sp k)"
    and "sem_abs sp (sem_sleep sp k) = spec_wait (currp k) (sem_abs sp k)"
    and "currp (sem_sleep sp k) = hd (queues k RLIST)"
    and "thd_ctx (sem_sleep sp k) = thd_ctx k"
proof -
  show "sched_ok (sem_sleep sp k)"
    using sched_inv_go_sleep [OF inv enq_sem [OF inv] ne] by (simp add: sched_ok_def sem_sleep_def)
  have hd: "hd (queues k RLIST) \<notin> set (queues k (TQ sp))" "hd (queues k RLIST) \<noteq> currp k"
    using sched_invD(3) [OF inv, of _ RLIST "TQ sp"] hd_in_set [OF ne] currp_not_queued [OF inv, of RLIST] by auto
  show "sem_inv sp (sem_sleep sp k)"
    using sem cnt hd currp_not_queued [OF inv, of "TQ sp"] by (auto simp: sem_inv_def sem_sleep_def max_def)
  show "sem_abs sp (sem_sleep sp k) = spec_wait (currp k) (sem_abs sp k)"
    using cnt by (simp add: sem_abs_def sem_sleep_def)
qed (simp_all add: sem_sleep_def)

lemma chSemWaitS_eq:
  assumes "sched_inv k" and "thd_ctx k" and "sem_inv sp k" and "sp \<noteq> NULL" and "queues k RLIST \<noteq> []"
  shows "chSemWaitS sp k = Ok (if sem_cnt k sp > 0 then (Returned MSG_OK, set_cnt sp (sem_cnt k sp - 1) k)
    else (Asleep, sem_sleep sp k))"
  using assms sem_inv_consistent [OF assms(3)]
    chSchGoSleepS_eq [of "q_insert (currp k) (TQ sp) (set_u sp (currp k) (set_cnt sp (sem_cnt k sp - 1) k))" CH_STATE_WTSEM]
  by (auto simp: chSemWaitS_def sem_sleep_def)

section \<open>Resetting\<close>

declare release_lifo.simps [simp del]

lemma release_lifo_ok:
  assumes "sched_inv k" and "i_ctx k" and "length (queues k (TQ sp)) \<le> n"
  shows "\<exists>k'. release_lifo n sp msg k = Ok k' \<and> sched_inv k' \<and> queues k' (TQ sp) = [] \<and> sem_cnt k' = sem_cnt k \<and>
    currp k' = currp k \<and> isr_cnt k' = isr_cnt k \<and> lock_cnt k' = lock_cnt k \<and>
    (\<forall>t\<in>set (queues k (TQ sp)). state_of k' t = CH_STATE_READY \<and> rdymsg_of k' t = msg) \<and>
    (\<forall>t. t \<notin> set (queues k (TQ sp)) \<longrightarrow> threads k' t = threads k t) \<and>
    (\<forall>q. q \<noteq> RLIST \<longrightarrow> q \<noteq> TQ sp \<longrightarrow> queues k' q = queues k q)"
  using assms
proof (induction n arbitrary: k)
  case 0
  then show ?case by (simp add: release_lifo.simps [of 0])
next
  case (Suc n)
  show ?case
  proof (cases "queues k (TQ sp) = []")
    case True
    then show ?thesis using Suc by (simp add: release_lifo.simps [of "Suc n"])
  next
    case False
    let ?xs = "queues k (TQ sp)"
    let ?t = "last ?xs" let ?k1 = "upd_q (TQ sp) (\<lambda>_. butlast ?xs) k"
    let ?k2 = "set_u msg ?t (ready_behind ?t ?k1)"
    have k1: "sched_inv ?k1" "limbo ?t ?k1" "i_ctx ?k1"
      using unqueue_last [OF Suc(2) _ False] Suc(3) by simp_all
    have k2: "sched_inv ?k2" "i_ctx ?k2" "queues ?k2 (TQ sp) = butlast ?xs"
      "length (queues ?k2 (TQ sp)) \<le> n"
      using k1 Suc(4) by auto
    have rl: "release_lifo (Suc n) sp msg k = release_lifo n sp msg ?k2"
      using False chSchReadyI_ok [OF k1]
      by (cases ?xs) (simp_all add: release_lifo.simps [of "Suc n"] q_last_out_def)
    have set: "set ?xs = insert ?t (set (butlast ?xs))"
      using False by (metis append_butlast_last_id insert_is_Un list.simps(15) set_append sup_commute empty_set)
    have t: "?t \<notin> set (butlast ?xs)"
      using sched_invD(2) [OF Suc(2), of "TQ sp"] False by (metis append_butlast_last_id distinct_append distinct.simps(2) not_distinct_conv_prefix)
    from Suc(1) [OF k2(1,2,4)] obtain k' where k': "release_lifo n sp msg ?k2 = Ok k'" "sched_inv k'"
      "queues k' (TQ sp) = []" "sem_cnt k' = sem_cnt ?k2" "currp k' = currp ?k2" "isr_cnt k' = isr_cnt ?k2"
      "lock_cnt k' = lock_cnt ?k2"
      "\<forall>t\<in>set (butlast ?xs). state_of k' t = CH_STATE_READY \<and> rdymsg_of k' t = msg"
      "\<forall>t. t \<notin> set (butlast ?xs) \<longrightarrow> threads k' t = threads ?k2 t"
      "\<forall>q. q \<noteq> RLIST \<longrightarrow> q \<noteq> TQ sp \<longrightarrow> queues k' q = queues ?k2 q"
      unfolding k2(3) by blast
    have th: "threads ?k2 t = (if t = ?t then (threads k t)\<lparr>t_state := CH_STATE_READY, t_u := msg\<rparr> else threads k t)" for t
      by (simp add: ready_behind_def)
    show ?thesis
      using k' set t rl th by (intro exI [of _ k']) auto
  qed
qed

lemma thd_ctx_cong: "isr_cnt k' = isr_cnt k \<Longrightarrow> lock_cnt k' = lock_cnt k \<Longrightarrow> thd_ctx k' = thd_ctx k"
  by (simp add: thd_ctx_def)

lemma i_ctx_cong: "isr_cnt k' = isr_cnt k \<Longrightarrow> lock_cnt k' = lock_cnt k \<Longrightarrow> i_ctx k' = i_ctx k"
  by (simp add: i_ctx_def)

lemma chSemResetWithMessageI_ok:
  assumes "sched_inv k" and "i_ctx k" and "sem_inv sp k" and "sp \<noteq> NULL" and "n \<ge> 0"
  obtains k' where "chSemResetWithMessageI sp n msg k = Ok k'" and "sched_inv k'" and "queues k' (TQ sp) = []"
    and "sem_cnt k' = (sem_cnt k)(sp := n)" and "currp k' = currp k"
    and "isr_cnt k' = isr_cnt k" and "lock_cnt k' = lock_cnt k"
    and "\<forall>t\<in>set (queues k (TQ sp)). state_of k' t = CH_STATE_READY \<and> rdymsg_of k' t = msg"
    and "\<forall>t. t \<notin> set (queues k (TQ sp)) \<longrightarrow> threads k' t = threads k t"
  using release_lifo_ok [of "set_cnt sp n k" sp "length (queues k (TQ sp))" msg] assms
    sem_inv_consistent [OF assms(3)] that
  by (auto simp: chSemResetWithMessageI_def set_cnt_def)

lemma sem_reset_body_ok:
  assumes "sched_ok k" and "thd_ctx k" and "sem_inv sp k" and "sp \<noteq> NULL" and "n \<ge> 0"
  shows "\<exists>k'. kbind (chSemResetWithMessageI sp n msg k) chSchRescheduleS = Ok k' \<and> sched_ok k' \<and> thd_ctx k' \<and>
    sem_inv sp k' \<and> sem_abs sp k' = (nat n, []) \<and>
    (\<forall>t\<in>set (queues k (TQ sp)). state_of k' t \<in> {CH_STATE_READY, CH_STATE_CURRENT} \<and> rdymsg_of k' t = msg)"
proof -
  have s: "sched_inv k" "i_ctx k" using assms(1,2) by (simp_all add: sched_ok_def)
  obtain k1 where k1: "chSemResetWithMessageI sp n msg k = Ok k1" "sched_inv k1" "queues k1 (TQ sp) = []"
    "sem_cnt k1 = (sem_cnt k)(sp := n)" "currp k1 = currp k" "isr_cnt k1 = isr_cnt k" "lock_cnt k1 = lock_cnt k"
    "\<forall>t\<in>set (queues k (TQ sp)). state_of k1 t = CH_STATE_READY \<and> rdymsg_of k1 t = msg"
    by (rule chSemResetWithMessageI_ok [OF s assms(3-5)]) (rule that; assumption)
  have "thd_ctx k1" using thd_ctx_cong [OF k1(6,7)] assms(2) by simp
  moreover have "state_of (resched k1) t \<in> {CH_STATE_READY, CH_STATE_CURRENT}" if "state_of k1 t = CH_STATE_READY" for t
    using that by (simp add: resched_def switch_ahead_def)
  ultimately show ?thesis
    using k1 chSchRescheduleS_eq [OF k1(2)] resched_inv [OF k1(2)] assms(5)
    by (auto simp: sched_ok_def sem_inv_def sem_abs_def)
qed

interpretation sem_reset: s_service "\<lambda>k. kbind (chSemResetWithMessageI sp n msg k) chSchRescheduleS"
  "\<lambda>k. sem_inv sp k \<and> sp \<noteq> NULL \<and> n \<ge> 0" for sp n msg
proof unfold_locales
  show "\<exists>k'. kbind (chSemResetWithMessageI sp n msg k) chSchRescheduleS = Ok k' \<and> sched_ok k' \<and> thd_ctx k'"
    if "sched_ok k" "thd_ctx k" "sem_inv sp k \<and> sp \<noteq> NULL \<and> n \<ge> 0" for k
    using sem_reset_body_ok [OF that(1,2), of sp n msg] that(3) by blast
qed (simp add: sem_inv_def)

section \<open>Adding units\<close>

lemma add_counter_ok:
  assumes "sched_inv k" and "i_ctx k" and "sem_inv sp k"
  shows "\<exists>k'. add_counter_loop n sp k = Ok k' \<and> sched_inv k' \<and> i_ctx k' \<and> sem_inv sp k' \<and>
    sem_abs sp k' = (spec_signal ^^ n) (sem_abs sp k)"
  using assms
proof (induction n arbitrary: k)
  case (Suc n)
  let ?c = "set_cnt sp (sem_cnt k sp + 1) k"
  obtain k1 where k1: "(if sem_cnt ?c sp \<le> 0 then kbind (q_first_out (TQ sp) ?c) (\<lambda>(tp, k).
        kbind (chSchReadyI tp k) (\<lambda>k. Ok (set_u MSG_OK tp k))) else Ok ?c) = Ok k1"
    "sched_inv k1" "i_ctx k1" "sem_inv sp k1" "sem_abs sp k1 = spec_signal (sem_abs sp k)"
    using Suc(4)
  proof (cases rule: sem_inv_cases)
    case free
    then show thesis using that [of ?c] Suc(2-4) by (auto simp: sem_inv_def sem_abs_def max_def nat_add_distrib)
  next
    case (waiting t ts)
    note p = pop_first [OF Suc(2,4) waiting(2)]
    let ?p = "upd_q (TQ sp) (\<lambda>_. ts) ?c"
    have "i_ctx ?p" using Suc(3) by simp
    note r = chSchReadyI_ok [OF p(2,3) this] sched_inv_ready(1) [OF p(2,3)] sem_inv_ready [OF p(4,3,2)]
    have "t \<notin> set (queues (ready_behind t ?p) (TQ sp))" using limboD(4) [OF p(3,2), of "TQ sp"] by simp
    then show thesis
      using that [of "set_u MSG_OK t (ready_behind t ?p)"] waiting p(1,5) r Suc(3) sem_inv_set_u
      by (simp add: sem_abs_def)
  qed
  then show ?case
    using Suc(1) [OF k1(2-4)] by (simp add: funpow_Suc_right del: funpow.simps)
qed simp

section \<open>Properties\<close>

text \<open>A semaphore at 64 without units, on which the thread at 48 waits.\<close>

definition demo_sem :: kernel where
  "demo_sem = demo_kernel\<lparr>
     threads := (threads demo_kernel)(48 := no_thread\<lparr>t_prio := 200, t_state := CH_STATE_WTSEM, t_u := 64\<rparr>),
     queues := (\<lambda>_. [])(RLIST := [32], TQ 64 := [48]), sem_cnt := (\<lambda>_. 0)(64 := - 1), trefs := (\<lambda>_. NULL)\<rparr>"

lemma demo_sem_ok: "sched_ok demo_sem" "thd_ctx demo_sem" "sem_inv 64 demo_sem"
  by (auto simp: demo_sem_def demo_kernel_def kernel_reset_def no_thread_def sched_ok_def sched_inv_def
      sched_order_def thd_ctx_def sem_inv_def split: if_splits)

text \<open>
  \<open>chSemSignal\<close> implements the abstract signal. If threads wait, the one that has waited
  longest leaves the queue and becomes runnable with \<open>MSG_OK\<close> (its unit is handed over);
  otherwise the semaphore has one unit more. No check of the kernel fails, the caller ends
  outside the critical zone and no ready thread outranks the running one.
\<close>

theorem chSemSignal_refines:
  assumes "sched_ok k" and "thread_idle_ctx k" and "sem_inv sp k" and "sp \<noteq> NULL"
  shows "\<exists>k'. chSemSignal sp k = Ok k' \<and> sched_ok k' \<and> thread_idle_ctx k' \<and> sem_inv sp k' \<and>
    sem_abs sp k' = spec_signal (sem_abs sp k) \<and>
    (\<forall>t ts. queues k (TQ sp) = t # ts \<longrightarrow>
       state_of k' t \<in> {CH_STATE_READY, CH_STATE_CURRENT} \<and> rdymsg_of k' t = MSG_OK)"
proof -
  let ?k = "k\<lparr>lock_cnt := 1\<rparr>"
  note l = chSysLock_ok [OF assms(2)]
  have "sched_ok ?k" "thd_ctx ?k" "sem_inv sp ?k" using assms l by (simp_all add: sem_inv_def)
  from sem_signal_body_ok [OF this] obtain k1 where k1: "sem_signal_body sp ?k = Ok k1" "sched_ok k1" "thd_ctx k1"
    "sem_inv sp k1" "sem_abs sp k1 = spec_signal (sem_abs sp k)"
    "\<forall>t ts. queues k (TQ sp) = t # ts \<longrightarrow>
       state_of k1 t \<in> {CH_STATE_READY, CH_STATE_CURRENT} \<and> rdymsg_of k1 t = MSG_OK"
    by auto
  show ?thesis
    using locked_Ok [where body = "sem_signal_body sp", OF assms(2) k1(1-3)] k1 assms(4)
    by (intro exI [of _ "k1\<lparr>lock_cnt := 0\<rparr>"]) (simp add: chSemSignal_def)
qed

theorem chSemSignal_refines_witness:
  "\<exists>k'. chSemSignal 64 (demo_sem\<lparr>lock_cnt := 0\<rparr>) = Ok k' \<and> sem_abs 64 k' = (0, []) \<and> rdymsg_of k' 48 = MSG_OK"
proof -
  let ?k = "demo_sem\<lparr>lock_cnt := 0\<rparr>"
  have "sched_ok ?k" "thread_idle_ctx ?k" "sem_inv 64 ?k" "(64::ptr) \<noteq> NULL"
    using demo_sem_ok by (simp_all add: thread_idle_ctx_def thd_ctx_def sem_inv_def)
  moreover have "queues ?k (TQ 64) = [48]" "sem_abs 64 ?k = (0, [48])" by (simp_all add: demo_sem_def sem_abs_def)
  ultimately show ?thesis using chSemSignal_refines [of ?k 64] by fastforce
qed

text \<open>
  \<open>chSemWaitS\<close> implements the abstract wait. With a unit available it takes it and returns
  \<open>MSG_OK\<close> at once; otherwise the caller goes to sleep at the end of the queue and the head of
  the ready list runs. The invariants are kept.
\<close>

theorem chSemWaitS_refines:
  assumes "sched_ok k" and "thd_ctx k" and "sem_inv sp k" and "sp \<noteq> NULL" and "queues k RLIST \<noteq> []"
  shows "\<exists>r k'. chSemWaitS sp k = Ok (r, k') \<and> sched_ok k' \<and> thd_ctx k' \<and> sem_inv sp k' \<and>
    sem_abs sp k' = spec_wait (currp k) (sem_abs sp k) \<and>
    (sem_cnt k sp > 0 \<longrightarrow> r = Returned MSG_OK \<and> currp k' = currp k) \<and>
    (sem_cnt k sp \<le> 0 \<longrightarrow> r = Asleep \<and> currp k' = hd (queues k RLIST) \<and> state_of k' (currp k) = CH_STATE_WTSEM)"
proof (cases "sem_cnt k sp > 0")
  case True
  then have "queues k (TQ sp) = []" "nat (sem_cnt k sp) = Suc (nat (sem_cnt k sp - 1))"
    using assms(3) by (auto simp: sem_inv_def)
  then show ?thesis
    using True assms chSemWaitS_eq [of k sp] by (simp add: sched_ok_def sem_inv_def sem_abs_def)
next
  case False
  have inv: "sched_inv k" "currp k \<noteq> hd (queues k RLIST)"
    using assms(1) currp_not_queued [of k RLIST] hd_in_set [OF assms(5)] by (auto simp: sched_ok_def)
  have "state_of (sem_sleep sp k) (currp k) = CH_STATE_WTSEM" using inv(2) by (simp add: sem_sleep_def)
  then show ?thesis
    using False chSemWaitS_eq [OF inv(1) assms(2-5)] sem_sleep_ok [OF inv(1) assms(3) _ assms(5)] assms(2) by simp
qed

theorem chSemWaitS_refines_witness:
  "\<exists>r k'. chSemWaitS 64 demo_sem = Ok (r, k') \<and> r = Asleep \<and> sem_abs 64 k' = (0, [48, 16]) \<and> currp k' = 32"
proof -
  have "queues demo_sem RLIST = [32]" "sem_abs 64 demo_sem = (0, [48])" "currp demo_sem = 16"
    "sem_cnt demo_sem 64 \<le> 0" by (simp_all add: demo_sem_def demo_kernel_def sem_abs_def)
  then show ?thesis using chSemWaitS_refines [OF demo_sem_ok] by force
qed

text \<open>
  \<open>chSemResetWithMessage\<close> releases every waiting thread with the given message, leaves the
  semaphore with \<open>n\<close> units and an empty queue, and is a kernel service: no check fails and no
  ready thread outranks the running one at the end.
\<close>

theorem chSemReset_releases:
  assumes "sched_ok k" and "thread_idle_ctx k" and "sem_inv sp k" and "sp \<noteq> NULL" and "n \<ge> 0"
  shows "\<exists>k'. chSemResetWithMessage sp n msg k = Ok k' \<and> sched_ok k' \<and> thread_idle_ctx k' \<and>
    sem_inv sp k' \<and> sem_abs sp k' = (nat n, []) \<and>
    (\<forall>t\<in>set (queues k (TQ sp)). state_of k' t \<in> {CH_STATE_READY, CH_STATE_CURRENT} \<and> rdymsg_of k' t = msg)"
proof -
  let ?k = "k\<lparr>lock_cnt := 1\<rparr>"
  note l = chSysLock_ok [OF assms(2)]
  have "sched_ok ?k" "thd_ctx ?k" "sem_inv sp ?k" using assms l by (simp_all add: sem_inv_def)
  from sem_reset_body_ok [OF this assms(4,5), of msg] obtain k1 where k1:
    "kbind (chSemResetWithMessageI sp n msg ?k) chSchRescheduleS = Ok k1" "sched_ok k1" "thd_ctx k1"
    "sem_inv sp k1" "sem_abs sp k1 = (nat n, [])"
    "\<forall>t\<in>set (queues k (TQ sp)). state_of k1 t \<in> {CH_STATE_READY, CH_STATE_CURRENT} \<and> rdymsg_of k1 t = msg"
    by (auto simp del: kbind_Ok)
  show ?thesis
    using locked_Ok [where body = "\<lambda>k. kbind (chSemResetWithMessageI sp n msg k) chSchRescheduleS", OF assms(2) k1(1-3)]
      k1(2-)
    by (intro exI [of _ "k1\<lparr>lock_cnt := 0\<rparr>"]) (simp add: chSemResetWithMessage_def)
qed

theorem chSemReset_releases_witness:
  "\<exists>k'. chSemResetWithMessage 64 2 MSG_RESET (demo_sem\<lparr>lock_cnt := 0\<rparr>) = Ok k' \<and> sem_abs 64 k' = (2, []) \<and>
    rdymsg_of k' 48 = MSG_RESET"
proof -
  let ?k = "demo_sem\<lparr>lock_cnt := 0\<rparr>"
  have "sched_ok ?k" "thread_idle_ctx ?k" "sem_inv 64 ?k" "(64::ptr) \<noteq> NULL" "(2::int) \<ge> 0"
    using demo_sem_ok by (simp_all add: thread_idle_ctx_def thd_ctx_def sem_inv_def)
  moreover have "queues ?k (TQ 64) = [48]" by (simp add: demo_sem_def)
  ultimately show ?thesis using chSemReset_releases [of ?k 64 2 MSG_RESET] by fastforce
qed

text \<open>
  When the timeout of a thread that waits for a semaphore expires, \<open>wakeup\<close> takes it out of
  the queue wherever it is, gives back the unit it had asked for, and makes it ready with
  \<open>MSG_TIMEOUT\<close>; the available units and the order of the other waiters do not change.
\<close>

theorem wakeup_leaves_semaphore:
  assumes "sched_inv k" and "sem_inv sp k" and "tp \<in> set (queues k (TQ sp))" and "isr_cnt k > 0" and "lock_cnt k = 0"
  shows "\<exists>k'. wakeup tp k = Ok k' \<and> sched_inv k' \<and> sem_inv sp k' \<and>
    sem_abs sp k' = (fst (sem_abs sp k), remove1 tp (queues k (TQ sp))) \<and>
    state_of k' tp = CH_STATE_READY \<and> rdymsg_of k' tp = MSG_TIMEOUT"
proof -
  have st: "state_of k tp = CH_STATE_WTSEM" "rdymsg_of k tp = sp" using assms(2,3) by (auto simp: sem_inv_def)
  have len: "length (queues k (TQ sp)) > 0" using assms(3) by (cases "queues k (TQ sp)") auto
  have neg: "sem_cnt k sp < 0" "int (length (queues k (TQ sp))) = - sem_cnt k sp"
    using assms(2) len unfolding sem_inv_def by linarith+
  have tm: "timed_state (state_of k tp)" using st by (simp add: timed_state_def)
  let ?k = "ready_behind tp (set_u MSG_TIMEOUT tp (unwait tp k))"
  have q: "queues (unwait tp k) (TQ sp) = remove1 tp (queues k (TQ sp))"
    "sem_cnt (unwait tp k) sp = sem_cnt k sp + 1" using st by (simp_all add: unwait_def)
  have "wakeup tp k = Ok ?k" using wakeup_eq [OF assms(1) tm assms(4,5)] st by simp
  moreover have "sched_inv ?k"
    using unwait_inv [OF assms(1) tm] st by (simp add: sched_inv_ready)
  moreover have "sem_inv sp ?k"
    using assms(2,3) q len neg sched_invD(2) [OF assms(1), of "TQ sp"]
    by (auto simp: sem_inv_def length_remove1 of_nat_diff)
  moreover have "sem_abs sp ?k = (fst (sem_abs sp k), remove1 tp (queues k (TQ sp)))"
    using q neg by (simp add: sem_abs_def)
  ultimately show ?thesis by (intro exI [of _ ?k]) simp
qed

theorem wakeup_leaves_semaphore_witness:
  "\<exists>k'. wakeup 48 (demo_sem\<lparr>isr_cnt := 1, lock_cnt := 0\<rparr>) = Ok k' \<and> sem_abs 64 k' = (0, []) \<and>
    rdymsg_of k' 48 = MSG_TIMEOUT"
proof -
  let ?k = "demo_sem\<lparr>isr_cnt := 1, lock_cnt := 0\<rparr>"
  have "sched_inv ?k" "sem_inv 64 ?k" using demo_sem_ok by (simp_all add: sched_ok_def sem_inv_def)
  moreover have "queues ?k (TQ 64) = [48]" "fst (sem_abs 64 ?k) = 0" by (simp_all add: demo_sem_def sem_abs_def)
  ultimately show ?thesis using wakeup_leaves_semaphore [of ?k 64 48] by force
qed

end
