(* ===== verification/Mutexes.thy ===== *)
theory Mutexes
  imports Semaphores
begin

text \<open>
  Mutexes with priority inheritance (\<open>os/rt/src/chmtx.c\<close>, \<open>os/rt/include/chmtx.h\<close>), without
  recursive locking (\<open>CH_CFG_USE_MUTEXES_RECURSIVE\<close> is \<open>FALSE\<close>).

  A mutex at address \<open>mp\<close> is its \<open>owner\<close> and \<open>next\<close> fields (\<open>mtxs k mp\<close>) and its priority
  ordered queue \<open>queues k (TQ mp)\<close>. The loops of the code follow pointers: \<open>boost\<close> goes from a
  mutex owner to the owner of the mutex it waits for, \<open>scan_prio\<close> and \<open>unlock_all_loop\<close> along
  the list of owned mutexes. They carry the number of turns they may still take, and are
  started with the number of addresses, \<open>2 ^ 32\<close>. \<open>boost_terminates\<close> shows that this is always
  enough for \<open>boost\<close>, whatever the shape of the wait graph, since each turn raises the priority
  of a thread that was below that of the caller.

  \<open>mtx_inv M\<close> is the invariant of the set \<open>M\<close> of mutexes, whose central part is that the
  owner of a mutex has at least the priority of every thread that waits for it.
\<close>

section \<open>Operations\<close>

definition max_turns :: nat where "max_turns = 2 ^ 32"

definition mtx_owner :: "kernel \<Rightarrow> ptr \<Rightarrow> ptr" where
  "mtx_owner k mp = m_owner (mtxs k mp)"

definition mtx_next :: "kernel \<Rightarrow> ptr \<Rightarrow> ptr" where
  "mtx_next k mp = m_next (mtxs k mp)"

definition upd_mtx :: "ptr \<Rightarrow> (mutex \<Rightarrow> mutex) \<Rightarrow> kernel \<Rightarrow> kernel" where
  "upd_mtx mp f k = k\<lparr>mtxs := (mtxs k)(mp := f (mtxs k mp))\<rparr>"

definition chMtxObjectInit :: "ptr \<Rightarrow> kernel \<Rightarrow> kernel kres" where
  "chMtxObjectInit mp k =
     kguard (mp \<noteq> NULL) ''chMtxObjectInit'' (
     Ok (upd_mtx mp (m_owner_update (\<lambda>_. NULL)) (upd_q (TQ mp) (\<lambda>_. []) k)))"

text \<open>
  The priority inheritance loop: \<open>boost n ctp tp k\<close> raises \<open>tp\<close> to the priority of \<open>ctp\<close> and
  goes on with the owner of the mutex \<open>tp\<close> waits for.
\<close>

fun boost :: "nat \<Rightarrow> ptr \<Rightarrow> ptr \<Rightarrow> kernel \<Rightarrow> kernel kres" where
  "boost n ctp tp k =
     (if tp = NULL then Undef
      else if \<not> prio_of k tp < prio_of k ctp then Ok k
      else case n of 0 \<Rightarrow> Diverge
      | Suc m \<Rightarrow>
          let k = set_prio (prio_of k ctp) tp k
          in case state_of k tp of
               CH_STATE_WTMTX \<Rightarrow>
                 let k = q_prio_insert tp (TQ (rdymsg_of k tp)) (q_dequeue tp k)
                 in boost m ctp (mtx_owner k (rdymsg_of k tp)) k
             | CH_STATE_WTCOND \<Rightarrow> Ok (q_prio_insert tp (TQ (rdymsg_of k tp)) (q_dequeue tp k))
             | CH_STATE_READY \<Rightarrow> chSchReadyI tp (q_dequeue tp (set_state CH_STATE_CURRENT tp k))
             | _ \<Rightarrow> Ok k)"

definition mtx_acquire :: "ptr \<Rightarrow> kernel \<Rightarrow> kernel" where
  "mtx_acquire mp k =
     (let ctp = currp k
      in upd_th ctp (t_mtxlist_update (\<lambda>_. mp))
           (upd_mtx mp (\<lambda>m. m\<lparr>m_owner := ctp, m_next := t_mtxlist (threads k ctp)\<rparr>) k))"

definition chMtxLockS :: "ptr \<Rightarrow> kernel \<Rightarrow> (unit wait \<times> kernel) kres" where
  "chMtxLockS mp k =
     (let ctp = currp k
      in chDbgCheckClassS k (
         kguard (mp \<noteq> NULL) ''chMtxLockS'' (
         if mtx_owner k mp \<noteq> NULL
         then kbind (boost max_turns ctp (mtx_owner k mp) k) (\<lambda>k.
              kbind (chSchGoSleepS CH_STATE_WTMTX (set_u mp ctp (q_prio_insert ctp (TQ mp) k)))
                (\<lambda>k. Ok (Asleep, k)))
         else Ok (Returned (), mtx_acquire mp k))))"

definition chMtxLockS_resume :: "ptr \<Rightarrow> kernel \<Rightarrow> (unit \<times> kernel) kres" where
  "chMtxLockS_resume mp k =
     kguard (mtx_owner k mp = currp k) ''chMtxLockS'' (
     kguard (t_mtxlist (threads k (currp k)) = mp) ''chMtxLockS'' (Ok ((), k)))"

definition chMtxLock :: "ptr \<Rightarrow> kernel \<Rightarrow> (unit wait \<times> kernel) kres" where
  "chMtxLock mp = locked_wait (chMtxLockS mp)"

definition chMtxLock_resume :: "ptr \<Rightarrow> kernel \<Rightarrow> (unit \<times> kernel) kres" where
  "chMtxLock_resume mp k = kbind (chMtxLockS_resume mp k) (\<lambda>(_, k). unlock_resume () k)"

definition chMtxTryLockS :: "ptr \<Rightarrow> kernel \<Rightarrow> (bool \<times> kernel) kres" where
  "chMtxTryLockS mp k =
     chDbgCheckClassS k (
     kguard (mp \<noteq> NULL) ''chMtxTryLockS'' (
     if mtx_owner k mp \<noteq> NULL then Ok (False, k) else Ok (True, mtx_acquire mp k)))"

definition chMtxTryLock :: "ptr \<Rightarrow> kernel \<Rightarrow> (bool \<times> kernel) kres" where
  "chMtxTryLock mp k =
     kbind (chSysLock k) (\<lambda>k. kbind (chMtxTryLockS mp k) (\<lambda>(b, k). unlock_resume b k))"

definition chMtxQueueNotEmptyS :: "ptr \<Rightarrow> kernel \<Rightarrow> bool kres" where
  "chMtxQueueNotEmptyS mp k = chDbgCheckClassS k (Ok (queues k (TQ mp) \<noteq> []))"

fun scan_prio :: "nat \<Rightarrow> ptr \<Rightarrow> nat \<Rightarrow> kernel \<Rightarrow> nat kres" where
  "scan_prio n lmp newprio k =
     (if lmp = NULL then Ok newprio
      else case n of 0 \<Rightarrow> Diverge
      | Suc m \<Rightarrow>
          kbind (chMtxQueueNotEmptyS lmp k) (\<lambda>ne.
          let p = prio_of k (hd (queues k (TQ lmp)))
          in scan_prio m (mtx_next k lmp) (if ne \<and> p > newprio then p else newprio) k))"

text \<open>
  The mutex goes to its first waiter: the block shared by \<open>chMtxUnlock\<close>, \<open>chMtxUnlockS\<close> and
  \<open>chMtxUnlockAllS\<close>.
\<close>

definition mtx_hand_over :: "ptr \<Rightarrow> kernel \<Rightarrow> kernel kres" where
  "mtx_hand_over mp k =
     kbind (q_first_out (TQ mp) k) (\<lambda>(tp, k).
     chSchReadyI tp
       (upd_th tp (t_mtxlist_update (\<lambda>_. mp))
         (upd_mtx mp (\<lambda>m. m\<lparr>m_owner := tp, m_next := t_mtxlist (threads k tp)\<rparr>) k)))"

text \<open>
  The common part of \<open>chMtxUnlock\<close> and \<open>chMtxUnlockS\<close>; \<open>fin\<close> is what follows after a thread was
  made ready (a reschedule in the first, nothing in the second).
\<close>

definition mtx_release :: "string \<Rightarrow> (kernel \<Rightarrow> kernel kres) \<Rightarrow> ptr \<Rightarrow> kernel \<Rightarrow> kernel kres" where
  "mtx_release fname fin mp k =
     (let ctp = currp k
      in kguard (t_mtxlist (threads k ctp) \<noteq> NULL) fname (
         kguard (mtx_owner k (t_mtxlist (threads k ctp)) = ctp) fname (
         kguard (t_mtxlist (threads k ctp) = mp) fname (
         let k = upd_th ctp (t_mtxlist_update (\<lambda>_. mtx_next k mp)) k
         in kbind (chMtxQueueNotEmptyS mp k) (\<lambda>ne.
            if ne
            then kbind (scan_prio max_turns (t_mtxlist (threads k ctp)) (t_realprio (threads k ctp)) k) (\<lambda>newprio.
                 kbind (mtx_hand_over mp (set_prio newprio ctp k)) fin)
            else Ok (upd_mtx mp (m_owner_update (\<lambda>_. NULL)) k))))))"

definition chMtxUnlock :: "ptr \<Rightarrow> kernel \<Rightarrow> kernel kres" where
  "chMtxUnlock mp k =
     kguard (mp \<noteq> NULL) ''chMtxUnlock'' (locked (mtx_release ''chMtxUnlock'' chSchRescheduleS mp) k)"

definition chMtxUnlockS :: "ptr \<Rightarrow> kernel \<Rightarrow> kernel kres" where
  "chMtxUnlockS mp k =
     chDbgCheckClassS k (
     kguard (mp \<noteq> NULL) ''chMtxUnlockS'' (mtx_release ''chMtxUnlockS'' Ok mp k))"

fun unlock_all_loop :: "nat \<Rightarrow> ptr \<Rightarrow> kernel \<Rightarrow> kernel kres" where
  "unlock_all_loop n ctp k =
     (if t_mtxlist (threads k ctp) = NULL then Ok k
      else case n of 0 \<Rightarrow> Diverge
      | Suc m \<Rightarrow>
          let mp = t_mtxlist (threads k ctp);
              k = upd_th ctp (t_mtxlist_update (\<lambda>_. mtx_next k mp)) k
          in kbind (chMtxQueueNotEmptyS mp k) (\<lambda>ne.
             kbind (if ne then mtx_hand_over mp k
                    else Ok (upd_mtx mp (m_owner_update (\<lambda>_. NULL)) k)) (unlock_all_loop m ctp)))"

definition chMtxUnlockAllS :: "kernel \<Rightarrow> kernel kres" where
  "chMtxUnlockAllS k =
     (let ctp = currp k
      in if t_mtxlist (threads k ctp) \<noteq> NULL
         then kbind (unlock_all_loop max_turns ctp k) (\<lambda>k.
              chSchRescheduleS (set_prio (t_realprio (threads k ctp)) ctp k))
         else Ok k)"

definition chMtxUnlockAll :: "kernel \<Rightarrow> kernel kres" where
  "chMtxUnlockAll = locked chMtxUnlockAllS"

definition chMtxGetOwnerI :: "ptr \<Rightarrow> kernel \<Rightarrow> ptr kres" where
  "chMtxGetOwnerI mp k = chDbgCheckClassI k (Ok (mtx_owner k mp))"

definition chMtxGetNextMutexX :: "kernel \<Rightarrow> ptr" where
  "chMtxGetNextMutexX k = t_mtxlist (threads k (currp k))"

declare boost.simps [simp del] scan_prio.simps [simp del] unlock_all_loop.simps [simp del]

section \<open>The inheritance loop ends\<close>

text \<open>Threads that a caller of priority \<open>p\<close> could still raise.\<close>

definition below :: "nat \<Rightarrow> kernel \<Rightarrow> ptr set" where
  "below p k = {t. prio_of k t < p}"

lemma card_below_le: "card (below p k) \<le> 2 ^ 32"
proof -
  have "card (below p k) \<le> card (UNIV :: ptr set)" by (intro card_mono) (auto simp: finite_code)
  also have "\<dots> = 2 ^ 32" by (simp add: card_word)
  finally show ?thesis .
qed

lemma below_raise:
  assumes "prio_of k tp < prio_of k ctp"
  shows "below (prio_of k ctp) (set_prio (prio_of k ctp) tp k) = below (prio_of k ctp) k - {tp}"
    and "card (below (prio_of k ctp) (set_prio (prio_of k ctp) tp k)) < card (below (prio_of k ctp) k)"
proof -
  show *: "below (prio_of k ctp) (set_prio (prio_of k ctp) tp k) = below (prio_of k ctp) k - {tp}"
    by (auto simp: below_def split: if_splits)
  have "tp \<in> below (prio_of k ctp) k" using assms by (simp add: below_def)
  then show "card (below (prio_of k ctp) (set_prio (prio_of k ctp) tp k)) < card (below (prio_of k ctp) k)"
    unfolding * by (intro card_Diff1_less) auto
qed

lemma prio_frames [simp]:
  "prio_of (q_prio_insert t q k) x = prio_of k x" "prio_of (q_dequeue t k) x = prio_of k x"
  by simp_all

lemma below_frames [simp]:
  "below p (upd_q q f k) = below p k" "below p (q_dequeue t k) = below p k"
  by (simp_all add: below_def)

lemma chSchReadyI_not_Diverge: "prio_of k tp > 0 \<Longrightarrow> chSchReadyI tp k \<noteq> Diverge"
  by (auto simp: chSchReadyI_def chDbgCheckClassI_def kguard_def NOPRIO_def)

lemma boost_ends: "card (below (prio_of k ctp) k) \<le> n \<Longrightarrow> boost n ctp tp k \<noteq> Diverge"
proof (induction n arbitrary: tp k)
  case 0
  then have "\<not> prio_of k tp < prio_of k ctp" by (auto simp: below_def)
  then show ?case by (simp add: boost.simps [of 0])
next
  case (Suc n)
  show ?case
  proof (cases "tp \<noteq> NULL \<and> prio_of k tp < prio_of k ctp")
    case True
    let ?k = "set_prio (prio_of k ctp) tp k"
    have ctp: "prio_of ?k ctp = prio_of k ctp" using True by auto
    have less: "card (below (prio_of k ctp) ?k) \<le> n" using below_raise(2) [of k tp ctp] True Suc(2) by simp
    have rec: "boost n ctp t (q_prio_insert tp q (q_dequeue tp ?k)) \<noteq> Diverge" for t q
      using Suc(1) [of "q_prio_insert tp q (q_dequeue tp ?k)" t] less ctp by simp
    have rdy: "chSchReadyI tp (q_dequeue tp (set_state CH_STATE_CURRENT tp ?k)) \<noteq> Diverge"
      using True by (intro chSchReadyI_not_Diverge) simp
    show ?thesis
      using True rec rdy
      by (simp add: boost.simps [of "Suc n"] Let_def split: tstate.splits)
  qed (auto simp: boost.simps [of "Suc n"])
qed

section \<open>The inheritance invariant\<close>

definition mtx_queues :: "ptr set \<Rightarrow> kernel \<Rightarrow> bool" where
  "mtx_queues M k \<longleftrightarrow> NULL \<notin> M \<and>
     (\<forall>m\<in>M. mtx_owner k m = NULL \<longrightarrow> queues k (TQ m) = []) \<and>
     (\<forall>m\<in>M. \<forall>t\<in>set (queues k (TQ m)). state_of k t = CH_STATE_WTMTX \<and> rdymsg_of k t = m) \<and>
     (\<forall>m\<in>M. sorted_wrt (\<lambda>a b. prio_of k a \<ge> prio_of k b) (queues k (TQ m))) \<and>
     (\<forall>t. state_of k t = CH_STATE_WTMTX \<longrightarrow> rdymsg_of k t \<in> M \<and> t \<in> set (queues k (TQ (rdymsg_of k t)))) \<and>
     (\<forall>t. state_of k t = CH_STATE_WTCOND \<longrightarrow> rdymsg_of k t \<notin> M \<and> t \<in> set (queues k (TQ (rdymsg_of k t))))"

text \<open>
  \<open>inherits M k\<close>: the owner of a mutex has at least the priority of every waiter.
  \<open>inherits_but M tp p k\<close>: the same, except that waiters of mutexes that \<open>tp\<close> owns may have a
  priority up to \<open>p\<close> (what holds while the inheritance loop is at \<open>tp\<close>).
\<close>

definition inherits :: "ptr set \<Rightarrow> kernel \<Rightarrow> bool" where
  "inherits M k \<longleftrightarrow> (\<forall>m\<in>M. \<forall>t\<in>set (queues k (TQ m)). prio_of k t \<le> prio_of k (mtx_owner k m))"

definition inherits_but :: "ptr set \<Rightarrow> ptr \<Rightarrow> nat \<Rightarrow> kernel \<Rightarrow> bool" where
  "inherits_but M tp p k \<longleftrightarrow> (\<forall>m\<in>M. \<forall>t\<in>set (queues k (TQ m)).
     prio_of k t \<le> prio_of k (mtx_owner k m) \<or> (mtx_owner k m = tp \<and> prio_of k t \<le> p))"

lemma mtx_queuesD:
  assumes "mtx_queues M k"
  shows "NULL \<notin> M" "m \<in> M \<Longrightarrow> mtx_owner k m = NULL \<Longrightarrow> queues k (TQ m) = []"
    "m \<in> M \<Longrightarrow> t \<in> set (queues k (TQ m)) \<Longrightarrow> state_of k t = CH_STATE_WTMTX \<and> rdymsg_of k t = m"
    "m \<in> M \<Longrightarrow> sorted_wrt (\<lambda>a b. prio_of k a \<ge> prio_of k b) (queues k (TQ m))"
    "state_of k t = CH_STATE_WTMTX \<Longrightarrow> rdymsg_of k t \<in> M \<and> t \<in> set (queues k (TQ (rdymsg_of k t)))"
    "state_of k t = CH_STATE_WTCOND \<Longrightarrow> rdymsg_of k t \<notin> M \<and> t \<in> set (queues k (TQ (rdymsg_of k t)))"
  using assms unfolding mtx_queues_def by blast+

text \<open>
  One turn of the loop: the priority of \<open>tp\<close> becomes \<open>p\<close>, the lists hold the same threads, and the
  ready list and the queues of the mutexes are in order again.
\<close>

definition raised :: "ptr set \<Rightarrow> nat \<Rightarrow> ptr \<Rightarrow> kernel \<Rightarrow> kernel \<Rightarrow> bool" where
  "raised M p tp k k' \<longleftrightarrow> currp k' = currp k \<and> mtxs k' = mtxs k \<and> isr_cnt k' = isr_cnt k \<and> lock_cnt k' = lock_cnt k \<and>
     (\<forall>t. state_of k' t = state_of k t \<and> rdymsg_of k' t = rdymsg_of k t \<and>
        t_mtxlist (threads k' t) = t_mtxlist (threads k t) \<and> t_realprio (threads k' t) = t_realprio (threads k t) \<and>
        prio_of k' t = (if t = tp then p else prio_of k t)) \<and>
     (\<forall>q. set (queues k' q) = set (queues k q) \<and> distinct (queues k' q)) \<and>
     (\<forall>q. q = RLIST \<or> (\<exists>m\<in>M. q = TQ m) \<longrightarrow> sorted_wrt (\<lambda>a b. prio_of k' a \<ge> prio_of k' b) (queues k' q))"

lemma raised_inv:
  assumes r: "raised M p tp k k'" and p: "p > 0"
  shows "sched_inv k \<Longrightarrow> sched_inv k'" and "mtx_queues M k \<Longrightarrow> mtx_queues M k'"
proof -
  have f: "state_of k' t = state_of k t" "rdymsg_of k' t = rdymsg_of k t" "set (queues k' q) = set (queues k q)"
    "distinct (queues k' q)" "prio_of k' t = (if t = tp then p else prio_of k t)"
    "currp k' = currp k" "mtx_owner k' m = mtx_owner k m" for t q m
    using r by (auto simp: raised_def mtx_owner_def)
  have so: "sorted_wrt (\<lambda>a b. prio_of k' a \<ge> prio_of k' b) (queues k' q)" if "q = RLIST \<or> (\<exists>m\<in>M. q = TQ m)" for q
    using r that unfolding raised_def by blast
  have e: "queues k' q = [] \<longleftrightarrow> queues k q = []" for q using f(3) [of q] by (metis set_empty)
  show "sched_inv k'" if inv: "sched_inv k"
  proof (rule sched_invI)
    show "prio_of k' t > 0" if "state_of k' t \<noteq> CH_STATE_FINAL" for t
      using that sched_invD(7) [OF inv, of t] f(1,5) p by simp
  qed (use so [of RLIST] f sched_invD(3-6,8) [OF inv] in simp_all)
  show "mtx_queues M k'" if "mtx_queues M k"
    using that so unfolding mtx_queues_def f(1,2,3,7) e by blast
qed

lemma sorted_reinsert:
  fixes f g :: "'a \<Rightarrow> nat"
  assumes "sorted_wrt (\<lambda>a b. f a \<ge> f b) xs" and "x \<notin> set xs" and "\<And>y. y \<noteq> x \<Longrightarrow> g y = f y"
  shows "sorted_wrt (\<lambda>a b. g a \<ge> g b) (insort_wrt (\<lambda>y. g y \<ge> g x) x xs)"
proof -
  have "g y = f y" if "y \<in> set xs" for y using assms(2,3) that by metis
  then have "sorted_wrt (\<lambda>a b. g a \<ge> g b) xs"
    using sorted_wrt_mono_rel [of xs "\<lambda>a b. f a \<ge> f b" "\<lambda>a b. g a \<ge> g b"] assms(1) by auto
  then show ?thesis by (rule sorted_wrt_insort_ge)
qed

text \<open>The three kinds of turns.\<close>

lemma raised_requeue:
  assumes inv: "sched_inv k" and mem: "tp \<in> set (queues k (TQ q))" and mq: "mtx_queues M k"
  shows "raised M p tp k (q_prio_insert tp (TQ q) (q_dequeue tp (set_prio p tp k)))"
proof -
  let ?k = "q_prio_insert tp (TQ q) (q_dequeue tp (set_prio p tp k))"
  have oth: "r \<noteq> TQ q \<Longrightarrow> tp \<notin> set (queues k r)" for r
    using sched_invD(3) [OF inv, of tp r "TQ q"] mem by auto
  have d: "distinct (queues k r)" for r using sched_invD(2) [OF inv] .
  have pr: "prio_of ?k t = (if t = tp then p else prio_of k t)" for t by simp
  have qs: "queues ?k r = (if r = TQ q then insort_wrt (\<lambda>y. prio_of ?k y \<ge> prio_of ?k tp) tp (remove1 tp (queues k r))
      else queues k r)" for r
    using oth [of r] by (auto simp: remove1_idem intro!: insort_wrt_cong)
  have so: "sorted_wrt (\<lambda>a b. prio_of k a \<ge> prio_of k b) (queues k r)" if "r = RLIST \<or> (\<exists>m\<in>M. r = TQ m)" for r
    using that sched_invD(1) [OF inv] mtx_queuesD(4) [OF mq] by auto
  have "sorted_wrt (\<lambda>a b. prio_of ?k a \<ge> prio_of ?k b) (queues ?k r)" if r: "r = RLIST \<or> (\<exists>m\<in>M. r = TQ m)" for r
  proof (cases "r = TQ q")
    case True
    then show ?thesis
      unfolding qs using sorted_reinsert [of "prio_of k" "remove1 tp (queues k r)" tp "prio_of ?k"]
        so [OF r] d [of r] pr by (simp add: sorted_wrt_remove1 del: set_field_defs)
  next
    case False
    then show ?thesis
      unfolding qs using so [OF r] oth [OF False] pr
      by (auto simp del: set_field_defs intro: sorted_wrt_mono_rel [rotated])
  qed
  then show ?thesis
    using qs mem d unfolding raised_def
    by (auto simp del: set_field_defs simp: pr set_remove1_eq) (simp_all)
qed

lemma raised_plain:
  assumes inv: "sched_inv k" and st: "state_of k tp \<notin> {CH_STATE_READY, CH_STATE_WTMTX}" and mq: "mtx_queues M k"
  shows "raised M p tp k (set_prio p tp k)"
proof -
  have so: "sorted_wrt (\<lambda>a b. prio_of k a \<ge> prio_of k b) (queues k r) \<and> tp \<notin> set (queues k r)"
    if "r = RLIST \<or> (\<exists>m\<in>M. r = TQ m)" for r
    using that sched_invD(1,4) [OF inv] mtx_queuesD(3,4) [OF mq] st by auto
  have "sorted_wrt (\<lambda>a b. prio_of (set_prio p tp k) a \<ge> prio_of (set_prio p tp k) b) (queues k r)"
    if "r = RLIST \<or> (\<exists>m\<in>M. r = TQ m)" for r
    using so [OF that] by (auto intro: sorted_wrt_mono_rel [rotated])
  then show ?thesis
    using sched_invD(2) [OF inv] unfolding raised_def by (auto simp del: set_field_defs) simp_all
qed

lemma raised_ready:
  assumes inv: "sched_inv k" and st: "state_of k tp = CH_STATE_READY" and mq: "mtx_queues M k"
    and p: "p > 0" and ctx: "i_ctx k"
  shows "\<exists>k'. chSchReadyI tp (q_dequeue tp (set_state CH_STATE_CURRENT tp (set_prio p tp k))) = Ok k' \<and> raised M p tp k k'"
proof -
  let ?k = "q_dequeue tp (set_state CH_STATE_CURRENT tp (set_prio p tp k))"
  have nn: "tp \<noteq> NULL" using st sched_invD(8) [OF inv] by auto
  have mem: "tp \<in> set (queues k RLIST)" using st sched_invD(4) [OF inv] by simp
  have oth: "r \<noteq> RLIST \<Longrightarrow> tp \<notin> set (queues k r)" for r
    using sched_invD(3) [OF inv, of tp r RLIST] mem by auto
  have pr: "prio_of ?k t = (if t = tp then p else prio_of k t)" for t by simp
  have ok: "chSchReadyI tp ?k = Ok (ready_behind tp ?k)"
    using nn p ctx by (intro chSchReadyI_eq) simp_all
  have qs: "queues (ready_behind tp ?k) r = (if r = RLIST
      then insort_wrt (\<lambda>y. prio_of ?k y \<ge> prio_of ?k tp) tp (remove1 tp (queues k r)) else queues k r)" for r
    using oth [of r] by (simp add: ready_queues remove1_idem)
  have d: "distinct (queues k r)" for r using sched_invD(2) [OF inv] .
  have "sorted_wrt (\<lambda>a b. prio_of ?k a \<ge> prio_of ?k b) (queues (ready_behind tp ?k) r)"
    if r: "r = RLIST \<or> (\<exists>m\<in>M. r = TQ m)" for r
  proof (cases "r = RLIST")
    case True
    then show ?thesis
      unfolding qs using sorted_reinsert [of "prio_of k" "remove1 tp (queues k r)" tp "prio_of ?k"]
        sched_invD(1) [OF inv] d [of r] pr by (simp add: sorted_wrt_remove1 del: set_field_defs)
  next
    case False
    then have "sorted_wrt (\<lambda>a b. prio_of k a \<ge> prio_of k b) (queues k r)" using r mtx_queuesD(4) [OF mq] by auto
    then show ?thesis
      unfolding qs using oth [OF False] False pr
      by (auto simp del: set_field_defs intro: sorted_wrt_mono_rel [rotated])
  qed
  then have "raised M p tp k (ready_behind tp ?k)"
    using qs mem d st pr unfolding raised_def
    by (auto simp del: set_field_defs simp: set_remove1_eq) (simp_all add: ready_behind_def)
  then show ?thesis using ok by blast
qed

lemma inherits_but_step:
  assumes "inherits_but M tp p k" and "raised M p tp k k'" and "prio_of k tp \<le> p"
  shows "state_of k tp \<noteq> CH_STATE_WTMTX \<Longrightarrow> mtx_queues M k \<Longrightarrow> inherits M k'"
    and "state_of k tp = CH_STATE_WTMTX \<Longrightarrow> mtx_queues M k \<Longrightarrow> inherits_but M (mtx_owner k (rdymsg_of k tp)) p k'"
proof -
  have f: "set (queues k' q) = set (queues k q)" "prio_of k' t = (if t = tp then p else prio_of k t)"
    "mtx_owner k' m = mtx_owner k m" for t q m using assms(2) by (auto simp: raised_def mtx_owner_def)
  show "inherits M k'" if "state_of k tp \<noteq> CH_STATE_WTMTX" "mtx_queues M k"
    using that assms(1,3) mtx_queuesD(3) [OF that(2)] unfolding inherits_def inherits_but_def f by fastforce
  show "inherits_but M (mtx_owner k (rdymsg_of k tp)) p k'" if "state_of k tp = CH_STATE_WTMTX" "mtx_queues M k"
    unfolding inherits_but_def f
  proof (intro ballI)
    fix m t assume mt: "m \<in> M" "t \<in> set (queues k (TQ m))"
    then have "rdymsg_of k t = m" "prio_of k t \<le> prio_of k (mtx_owner k m) \<or> mtx_owner k m = tp \<and> prio_of k t \<le> p"
      using mtx_queuesD(3) [OF that(2)] assms(1) by (auto simp: inherits_but_def)
    then show "(if t = tp then p else prio_of k t) \<le> (if mtx_owner k m = tp then p else prio_of k (mtx_owner k m)) \<or>
        mtx_owner k m = mtx_owner k (rdymsg_of k tp) \<and> (if t = tp then p else prio_of k t) \<le> p"
      using assms(3) by auto
  qed
qed

text \<open>What the whole loop does.\<close>

definition boosted :: "ptr \<Rightarrow> kernel \<Rightarrow> kernel \<Rightarrow> bool" where
  "boosted ctp k k' \<longleftrightarrow> currp k' = currp k \<and> mtxs k' = mtxs k \<and> isr_cnt k' = isr_cnt k \<and> lock_cnt k' = lock_cnt k \<and>
     (\<forall>t. state_of k' t = state_of k t \<and> rdymsg_of k' t = rdymsg_of k t \<and>
        t_mtxlist (threads k' t) = t_mtxlist (threads k t) \<and> t_realprio (threads k' t) = t_realprio (threads k t) \<and>
        (prio_of k' t = prio_of k t \<or> prio_of k t < prio_of k ctp \<and> prio_of k' t = prio_of k ctp)) \<and>
     (\<forall>q. set (queues k' q) = set (queues k q))"

lemma boost_ok:
  assumes "sched_inv k" and "i_ctx k" and "mtx_queues M k" and "inherits_but M tp (prio_of k ctp) k"
    and "tp \<noteq> NULL" and "card (below (prio_of k ctp) k) \<le> n"
  shows "\<exists>k'. boost n ctp tp k = Ok k' \<and> sched_inv k' \<and> mtx_queues M k' \<and> inherits M k' \<and> boosted ctp k k' \<and>
    prio_of k' tp \<ge> prio_of k ctp"
  using assms
proof (induction n arbitrary: tp k)
  case 0
  then have le: "\<not> prio_of k tp < prio_of k ctp" by (auto simp: below_def)
  then have "inherits M k" using 0(4) by (force simp: inherits_def inherits_but_def)
  then show ?case using 0 le by (simp add: boost.simps [of 0] boosted_def not_less)
next
  case (Suc n)
  let ?p = "prio_of k ctp"
  show ?case
  proof (cases "prio_of k tp < ?p")
    case False
    then have "inherits M k" using Suc(5) by (force simp: inherits_def inherits_but_def)
    then show ?thesis using Suc False by (simp add: boost.simps [of "Suc n"] boosted_def not_less)
  next
    case True
    then have p: "?p > 0" "tp \<noteq> ctp" by auto
    have fin: ?thesis if "boost (Suc n) ctp tp k = Ok k'" "raised M ?p tp k k'" "state_of k tp \<noteq> CH_STATE_WTMTX" for k'
    proof -
      have "boosted ctp k k'" "prio_of k' tp = ?p" using that(2) True by (auto simp: raised_def boosted_def)
      then show ?thesis
        using that raised_inv [OF that(2) p(1)] inherits_but_step(1) [OF Suc(5) that(2)] True Suc(2,4) by auto
    qed
    consider (mtx) "state_of k tp = CH_STATE_WTMTX" | (cond) "state_of k tp = CH_STATE_WTCOND"
      | (ready) "state_of k tp = CH_STATE_READY"
      | (other) "state_of k tp \<notin> {CH_STATE_WTMTX, CH_STATE_WTCOND, CH_STATE_READY}" by blast
    then show ?thesis
    proof cases
      case mtx
      let ?q = "rdymsg_of k tp"
      let ?k = "q_prio_insert tp (TQ ?q) (q_dequeue tp (set_prio ?p tp k))"
      have q: "?q \<in> M" "tp \<in> set (queues k (TQ ?q))" using mtx_queuesD(5) [OF Suc(4) mtx] by auto
      have r: "raised M ?p tp k ?k" using raised_requeue [OF Suc(2) q(2) Suc(4)] .
      have ctp: "prio_of ?k ctp = ?p" using p by simp
      have own: "mtx_owner k ?q \<noteq> NULL" using mtx_queuesD(2) [OF Suc(4) q(1)] q(2) by auto
      have less: "card (below ?p ?k) \<le> n" using below_raise(2) [OF True] Suc(7) by simp
      have i: "i_ctx ?k" using Suc(3) by simp
      have eq: "boost (Suc n) ctp tp k = boost n ctp (mtx_owner k ?q) ?k"
        using True mtx Suc(6) by (simp add: boost.simps [of "Suc n"] mtx_owner_def Let_def)
      have "inherits_but M (mtx_owner k ?q) (prio_of ?k ctp) ?k"
        unfolding ctp using inherits_but_step(2) [OF Suc(5) r] True mtx Suc(4) by (simp add: less_imp_le)
      from Suc(1) [OF raised_inv(1) [OF r p(1) Suc(2)] i raised_inv(2) [OF r p(1) Suc(4)] this own]
      obtain k' where k': "boost n ctp (mtx_owner k ?q) ?k = Ok k'" "sched_inv k'" "mtx_queues M k'" "inherits M k'"
        "boosted ctp ?k k'" using less ctp by (auto simp del: set_field_defs)
      have "boosted ctp k k'" using k'(5) r ctp True unfolding boosted_def raised_def by metis
      moreover have "prio_of k' tp = ?p"
        using k'(5) r ctp unfolding boosted_def raised_def by (metis less_irrefl)
      ultimately show ?thesis using eq k' by auto
    next
      case cond
      let ?q = "rdymsg_of k tp"
      have "tp \<in> set (queues k (TQ ?q))" using mtx_queuesD(6) [OF Suc(4) cond] by auto
      from fin [OF _ raised_requeue [OF Suc(2) this Suc(4)]] show ?thesis
        using True cond Suc(6) by (simp add: boost.simps [of "Suc n"])
    next
      case ready
      obtain k' where "chSchReadyI tp (q_dequeue tp (set_state CH_STATE_CURRENT tp (set_prio ?p tp k))) = Ok k'"
        "raised M ?p tp k k'" using raised_ready [OF Suc(2) ready Suc(4) p(1) Suc(3)] by blast
      with fin [of k'] show ?thesis
        using True ready Suc(6) by (simp add: boost.simps [of "Suc n"])
    next
      case other
      then have "raised M ?p tp k (set_prio ?p tp k)" using raised_plain [OF Suc(2) _ Suc(4)] by simp
      moreover have "boost (Suc n) ctp tp k = Ok (set_prio ?p tp k)"
        using True other Suc(6) by (cases "state_of k tp") (simp_all add: boost.simps [of "Suc n"])
      ultimately show ?thesis using fin [of "set_prio ?p tp k"] other by blast
    qed
  qed
qed

section \<open>Owned mutexes\<close>

text \<open>\<open>mchain k p ms\<close>: following the \<open>next\<close> fields from \<open>p\<close> visits the mutexes \<open>ms\<close>.\<close>

fun mchain :: "kernel \<Rightarrow> ptr \<Rightarrow> ptr list \<Rightarrow> bool" where
  "mchain k p [] = (p = NULL)"
| "mchain k p (m # ms) = (p = m \<and> m \<noteq> NULL \<and> mchain k (mtx_next k m) ms)"

definition owned :: "ptr set \<Rightarrow> kernel \<Rightarrow> bool" where
  "owned M k \<longleftrightarrow> (\<forall>t. t \<noteq> NULL \<longrightarrow> (\<exists>ms. mchain k (t_mtxlist (threads k t)) ms \<and> distinct ms \<and>
     set ms = {m \<in> M. mtx_owner k m = t}))"

definition mtx_inv :: "ptr set \<Rightarrow> kernel \<Rightarrow> bool" where
  "mtx_inv M k \<longleftrightarrow> mtx_queues M k \<and> inherits M k \<and> owned M k \<and>
     (\<forall>t. state_of k t \<noteq> CH_STATE_FINAL \<longrightarrow> t_realprio (threads k t) > 0)"

lemma mchain_cong: "(\<And>m. m \<in> set ms \<Longrightarrow> mtx_next k' m = mtx_next k m) \<Longrightarrow> mchain k' p ms = mchain k p ms"
  by (induction ms arbitrary: p) auto

lemma owned_cong:
  assumes "owned M k" and "mtxs k' = mtxs k" and "\<And>t. t_mtxlist (threads k' t) = t_mtxlist (threads k t)"
  shows "owned M k'"
proof -
  have f: "mtx_next k' m = mtx_next k m" "mtx_owner k' m = mtx_owner k m" for m
    using assms(2) by (simp_all add: mtx_next_def mtx_owner_def)
  have "mchain k' p ms = mchain k p ms" for p ms by (rule mchain_cong) (simp add: f)
  then show ?thesis using assms(1) unfolding owned_def f assms(3) by simp
qed

lemma upd_mtx_frame [simp]:
  "threads (upd_mtx m f k) = threads k" "queues (upd_mtx m f k) = queues k" "currp (upd_mtx m f k) = currp k"
  "mtxs (upd_mtx m f k) = (mtxs k)(m := f (mtxs k m))"
  "thd_ctx (upd_mtx m f k) = thd_ctx k" "i_ctx (upd_mtx m f k) = i_ctx k"
  "sched_inv (upd_mtx m f k) = sched_inv k" "sched_order (upd_mtx m f k) = sched_order k"
  "isr_cnt (upd_mtx m f k) = isr_cnt k" "lock_cnt (upd_mtx m f k) = lock_cnt k"
  by (simp_all add: upd_mtx_def)

lemma upd_mtxlist_same [simp]:
  "t_state (((threads k)(tp := t_mtxlist_update f (threads k tp))) t) = state_of k t"
  "t_prio (((threads k)(tp := t_mtxlist_update f (threads k tp))) t) = prio_of k t"
  "t_u (((threads k)(tp := t_mtxlist_update f (threads k tp))) t) = rdymsg_of k t"
  "t_realprio (((threads k)(tp := t_mtxlist_update f (threads k tp))) t) = t_realprio (threads k t)"
  by auto

lemma sched_upd_mtxlist [simp]:
  "sched_inv (upd_th tp (t_mtxlist_update f) k) = sched_inv k"
  "sched_order (upd_th tp (t_mtxlist_update f) k) = sched_order k"
  "limbo t (upd_th tp (t_mtxlist_update f) k) = limbo t k"
  unfolding sched_inv_def sched_order_def limbo_def upd_th_threads upd_th_frame upd_mtxlist_same by (rule refl)+

text \<open>
  Passing a mutex: \<open>give mp tp k\<close> makes \<open>tp\<close> the owner of \<open>mp\<close> and puts it in front of the list
  of mutexes that \<open>tp\<close> owns; \<open>drop ctp mp k\<close> takes \<open>mp\<close> off the front of the list of \<open>ctp\<close>.
\<close>

definition give :: "ptr \<Rightarrow> ptr \<Rightarrow> kernel \<Rightarrow> kernel" where
  "give mp tp k = upd_th tp (t_mtxlist_update (\<lambda>_. mp))
     (upd_mtx mp (\<lambda>m. m\<lparr>m_owner := tp, m_next := t_mtxlist (threads k tp)\<rparr>) k)"

lemma give_frame [simp]:
  "state_of (give mp tp k) t = state_of k t" "prio_of (give mp tp k) t = prio_of k t"
  "rdymsg_of (give mp tp k) t = rdymsg_of k t" "t_realprio (threads (give mp tp k) t) = t_realprio (threads k t)"
  "queues (give mp tp k) = queues k" "currp (give mp tp k) = currp k"
  "mtx_owner (give mp tp k) m = (if m = mp then tp else mtx_owner k m)"
  "mtx_next (give mp tp k) m = (if m = mp then t_mtxlist (threads k tp) else mtx_next k m)"
  "t_mtxlist (threads (give mp tp k) t) = (if t = tp then mp else t_mtxlist (threads k t))"
  "thd_ctx (give mp tp k) = thd_ctx k" "i_ctx (give mp tp k) = i_ctx k" "sched_inv (give mp tp k) = sched_inv k"
  "sched_order (give mp tp k) = sched_order k" "limbo t (give mp tp k) = limbo t k"
  "isr_cnt (give mp tp k) = isr_cnt k" "lock_cnt (give mp tp k) = lock_cnt k"
  by (simp_all add: give_def mtx_owner_def mtx_next_def limbo_def)

text \<open>\<open>owned_but M ctp mp k\<close>: the lists are right, except that \<open>mp\<close> is in nobody's list.\<close>

definition owned_but :: "ptr set \<Rightarrow> ptr \<Rightarrow> kernel \<Rightarrow> bool" where
  "owned_but M mp k \<longleftrightarrow> (\<forall>t. t \<noteq> NULL \<longrightarrow> (\<exists>ms. mchain k (t_mtxlist (threads k t)) ms \<and> distinct ms \<and>
     set ms = {m \<in> M. m \<noteq> mp \<and> mtx_owner k m = t}))"

lemma owned_give:
  assumes "owned_but M mp k" and "mp \<in> M" and "tp \<noteq> NULL" and "NULL \<notin> M"
  shows "owned M (give mp tp k)"
  unfolding owned_def
proof (intro allI impI)
  fix t assume "t \<noteq> (NULL :: ptr)"
  then obtain ms where ms: "mchain k (t_mtxlist (threads k t)) ms" "distinct ms"
    "set ms = {m \<in> M. m \<noteq> mp \<and> mtx_owner k m = t}" using assms(1) unfolding owned_but_def by blast
  have c: "mchain (give mp tp k) p ms = mchain k p ms" for p using ms(3) by (intro mchain_cong) auto
  show "\<exists>ms. mchain (give mp tp k) (t_mtxlist (threads (give mp tp k) t)) ms \<and> distinct ms \<and>
      set ms = {m \<in> M. mtx_owner (give mp tp k) m = t}"
  proof (cases "t = tp")
    case True
    have "mp \<noteq> NULL" using assms(2,4) by auto
    then show ?thesis using ms True c assms(2) by (intro exI [of _ "mp # ms"]) auto
  next
    case False
    then show ?thesis using ms c by (intro exI [of _ ms]) auto
  qed
qed

lemma owned_free:
  assumes "owned M k" and "mtx_owner k mp = NULL"
  shows "owned_but M mp k"
proof -
  have "{m \<in> M. m \<noteq> mp \<and> mtx_owner k m = t} = {m \<in> M. mtx_owner k m = t}" if "t \<noteq> NULL" for t
    using that assms(2) by auto
  then show ?thesis using assms(1) unfolding owned_def owned_but_def by simp
qed

lemma owned_drop:
  assumes "owned M k" and "mp \<in> M" and "ctp \<noteq> NULL" and "t_mtxlist (threads k ctp) = mp" and "mp \<noteq> NULL"
  shows "owned_but M mp (upd_th ctp (t_mtxlist_update (\<lambda>_. mtx_next k mp)) k)"
    and "mtx_owner k mp = ctp"
proof -
  obtain ms where ms: "mchain k mp ms" "distinct ms" "set ms = {m \<in> M. mtx_owner k m = ctp}"
    using assms(1,3,4) unfolding owned_def by blast
  then obtain ms' where ms': "ms = mp # ms'" using assms(5) by (cases ms) auto
  with ms show own: "mtx_owner k mp = ctp" by auto
  let ?k = "upd_th ctp (t_mtxlist_update (\<lambda>_. mtx_next k mp)) k"
  have c: "mchain ?k p l = mchain k p l" for p l by (rule mchain_cong) (simp add: mtx_next_def)
  show "owned_but M mp ?k"
    unfolding owned_but_def
  proof (intro allI impI)
    fix t assume t: "t \<noteq> (NULL :: ptr)"
    show "\<exists>ms. mchain ?k (t_mtxlist (threads ?k t)) ms \<and> distinct ms \<and> set ms = {m \<in> M. m \<noteq> mp \<and> mtx_owner ?k m = t}"
    proof (cases "t = ctp")
      case True
      then show ?thesis using ms ms' c by (intro exI [of _ ms']) (auto simp: mtx_owner_def)
    next
      case False
      obtain l where "mchain k (t_mtxlist (threads k t)) l" "distinct l" "set l = {m \<in> M. mtx_owner k m = t}"
        using assms(1) t unfolding owned_def by blast
      then show ?thesis using False own c by (intro exI [of _ l]) (auto simp: mtx_owner_def)
    qed
  qed
qed

section \<open>Locking\<close>

lemma mtx_queuesI:
  assumes "NULL \<notin> M" and "\<And>m. m \<in> M \<Longrightarrow> mtx_owner k m = NULL \<Longrightarrow> queues k (TQ m) = []"
    and "\<And>m t. m \<in> M \<Longrightarrow> t \<in> set (queues k (TQ m)) \<Longrightarrow> state_of k t = CH_STATE_WTMTX \<and> rdymsg_of k t = m"
    and "\<And>m. m \<in> M \<Longrightarrow> sorted_wrt (\<lambda>a b. prio_of k a \<ge> prio_of k b) (queues k (TQ m))"
    and "\<And>t. state_of k t = CH_STATE_WTMTX \<Longrightarrow> rdymsg_of k t \<in> M \<and> t \<in> set (queues k (TQ (rdymsg_of k t)))"
    and "\<And>t. state_of k t = CH_STATE_WTCOND \<Longrightarrow> rdymsg_of k t \<notin> M \<and> t \<in> set (queues k (TQ (rdymsg_of k t)))"
  shows "mtx_queues M k"
  using assms unfolding mtx_queues_def by blast

lemma acquire_give: "mtx_acquire mp k = give mp (currp k) k"
  by (simp add: mtx_acquire_def give_def Let_def)

lemma mtx_inv_acquire:
  assumes inv: "mtx_inv M k" and mp: "mp \<in> M" "mtx_owner k mp = NULL" and cur: "currp k \<noteq> NULL"
  shows "mtx_inv M (give mp (currp k) k)"
proof -
  have q: "mtx_queues M k" "inherits M k" "owned M k" using inv by (simp_all add: mtx_inv_def)
  have e: "queues k (TQ mp) = []" using mtx_queuesD(2) [OF q(1) mp] .
  have "mtx_queues M (give mp (currp k) k)"
    using mtx_queuesD [OF q(1)] by (intro mtx_queuesI) (auto split: if_splits simp: e)
  moreover have "inherits M (give mp (currp k) k)" using q(2) e by (auto simp: inherits_def)
  ultimately show ?thesis
    using owned_give [OF owned_free [OF q(3) mp(2)] mp(1) cur mtx_queuesD(1) [OF q(1)]] inv by (simp add: mtx_inv_def)
qed

text \<open>The state after the current thread has gone to sleep on a mutex.\<close>

definition mtx_sleep :: "ptr \<Rightarrow> kernel \<Rightarrow> kernel" where
  "mtx_sleep mp k = go_sleep CH_STATE_WTMTX (set_u mp (currp k) (q_prio_insert (currp k) (TQ mp) k))"

lemma mtx_sleep_frame [simp]:
  "state_of (mtx_sleep mp k) t = (if t = hd (queues k RLIST) then CH_STATE_CURRENT
     else if t = currp k then CH_STATE_WTMTX else state_of k t)"
  "rdymsg_of (mtx_sleep mp k) t = (if t = currp k then mp else rdymsg_of k t)"
  "prio_of (mtx_sleep mp k) t = prio_of k t"
  "t_realprio (threads (mtx_sleep mp k) t) = t_realprio (threads k t)"
  "t_mtxlist (threads (mtx_sleep mp k) t) = t_mtxlist (threads k t)"
  "mtxs (mtx_sleep mp k) = mtxs k" "mtx_owner (mtx_sleep mp k) m = mtx_owner k m"
  "currp (mtx_sleep mp k) = hd (queues k RLIST)"
  "queues (mtx_sleep mp k) (TQ m) = (if m = mp
     then insort_wrt (\<lambda>y. prio_of k y \<ge> prio_of k (currp k)) (currp k) (queues k (TQ m)) else queues k (TQ m))"
  "thd_ctx (mtx_sleep mp k) = thd_ctx k"
  by (simp_all add: mtx_sleep_def mtx_owner_def) (simp_all add: go_sleep_def make_current_def)

lemma mtx_sleep_ok:
  assumes inv: "sched_inv k" and ne: "queues k RLIST \<noteq> []" and mtx: "mtx_inv M k" and mp: "mp \<in> M"
    and own: "mtx_owner k mp \<noteq> NULL" and pr: "prio_of k (currp k) \<le> prio_of k (mtx_owner k mp)"
  shows "sched_ok (mtx_sleep mp k)" and "mtx_inv M (mtx_sleep mp k)"
proof -
  let ?c = "currp k" let ?n = "hd (queues k RLIST)" let ?s = "mtx_sleep mp k"
  have c: "?c \<notin> set (queues k q)" for q using currp_not_queued [OF inv] .
  have enq: "enq_ok k (set_u mp ?c (q_prio_insert ?c (TQ mp) k)) CH_STATE_WTMTX"
    unfolding enq_ok_def using c [of "TQ mp"] sched_invD(2) [OF inv, of "TQ mp"]
    by (intro conjI disjI2 exI [of _ "TQ mp"]
        exI [of _ "insort_wrt (\<lambda>y. prio_of k y \<ge> prio_of k ?c) ?c (queues k (TQ mp))"]) auto
  show "sched_ok ?s"
    using sched_inv_go_sleep [OF inv enq ne] by (simp add: sched_ok_def mtx_sleep_def)
  have q: "mtx_queues M k" "inherits M k" "owned M k" using mtx by (simp_all add: mtx_inv_def)
  have n: "state_of k ?n = CH_STATE_READY" "?n \<noteq> ?c" "?n \<notin> set (queues k (TQ m))" for m
    using sched_invD(4) [OF inv, of ?n] hd_in_set [OF ne] c [of RLIST] sched_invD(3) [OF inv, of ?n RLIST "TQ m"] by auto
  have cs: "state_of k ?c = CH_STATE_CURRENT" using sched_invD(6) [OF inv] by simp
  have sub: "set (queues ?s (TQ m)) \<subseteq> insert ?c (set (queues k (TQ m)))" "set (queues k (TQ m)) \<subseteq> set (queues ?s (TQ m))"
    "?c \<in> set (queues ?s (TQ mp))" for m by auto
  have "mtx_queues M ?s"
  proof (rule mtx_queuesI)
    show "NULL \<notin> M" using mtx_queuesD(1) [OF q(1)] .
    show "queues ?s (TQ m) = []" if "m \<in> M" "mtx_owner ?s m = NULL" for m
      using that own mtx_queuesD(2) [OF q(1) that(1)] by auto
    show "state_of ?s t = CH_STATE_WTMTX \<and> rdymsg_of ?s t = m" if "m \<in> M" "t \<in> set (queues ?s (TQ m))" for m t
      using that mtx_queuesD(3) [OF q(1), of m t] n(2) n(3) [of m] c [of "TQ m"] by (auto split: if_splits)
    show "sorted_wrt (\<lambda>a b. prio_of ?s a \<ge> prio_of ?s b) (queues ?s (TQ m))" if "m \<in> M" for m
      using mtx_queuesD(4) [OF q(1) that] sorted_wrt_insort_ge(1) [of "prio_of k" "queues k (TQ m)" ?c] by auto
    show "rdymsg_of ?s t \<in> M \<and> t \<in> set (queues ?s (TQ (rdymsg_of ?s t)))" if "state_of ?s t = CH_STATE_WTMTX" for t
      using that mtx_queuesD(5) [OF q(1), of t] mp by (auto split: if_splits)
    show "rdymsg_of ?s t \<notin> M \<and> t \<in> set (queues ?s (TQ (rdymsg_of ?s t)))" if "state_of ?s t = CH_STATE_WTCOND" for t
      using that mtx_queuesD(6) [OF q(1), of t] mp by (auto split: if_splits)
  qed
  moreover have "inherits M ?s" using q(2) pr unfolding inherits_def by auto
  moreover have "owned M ?s" by (rule owned_cong [OF q(3)]) simp_all
  moreover have "t_realprio (threads ?s t) > 0" if "state_of ?s t \<noteq> CH_STATE_FINAL" for t
    using that mtx n(1) cs by (auto simp: mtx_inv_def split: if_splits)
  ultimately show "mtx_inv M ?s" by (simp add: mtx_inv_def)
qed

lemma chMtxLockS_ok:
  assumes ok: "sched_ok k" and ctx: "thd_ctx k" and mtx: "mtx_inv M k" and mp: "mp \<in> M" and ne: "queues k RLIST \<noteq> []"
  shows "mtx_owner k mp = NULL \<Longrightarrow> chMtxLockS mp k = Ok (Returned (), give mp (currp k) k)"
    and "mtx_owner k mp \<noteq> NULL \<Longrightarrow> \<exists>k1. boosted (currp k) k k1 \<and> chMtxLockS mp k = Ok (Asleep, mtx_sleep mp k1) \<and>
      sched_ok (mtx_sleep mp k1) \<and> mtx_inv M (mtx_sleep mp k1) \<and> thd_ctx (mtx_sleep mp k1) \<and>
      prio_of k1 (mtx_owner k mp) \<ge> prio_of k (currp k)"
proof -
  have inv: "sched_inv k" using ok by (simp add: sched_ok_def)
  have q: "mtx_queues M k" "inherits M k" "owned M k" using mtx by (simp_all add: mtx_inv_def)
  have nn: "mp \<noteq> NULL" using mp mtx_queuesD(1) [OF q(1)] by auto
  show "chMtxLockS mp k = Ok (Returned (), give mp (currp k) k)" if "mtx_owner k mp = NULL"
    using that ctx nn by (simp add: chMtxLockS_def acquire_give)
  assume own: "mtx_owner k mp \<noteq> NULL"
  have "inherits_but M (mtx_owner k mp) (prio_of k (currp k)) k"
    using q(2) by (auto simp: inherits_def inherits_but_def)
  from boost_ok [OF inv i_ctxI(1) [OF ctx] q(1) this own card_below_le] obtain k1 where
    k1: "boost max_turns (currp k) (mtx_owner k mp) k = Ok k1" "sched_inv k1" "mtx_queues M k1" "inherits M k1"
    "boosted (currp k) k k1" "prio_of k1 (mtx_owner k mp) \<ge> prio_of k (currp k)"
    unfolding max_turns_def by blast
  have f: "currp k1 = currp k" "mtxs k1 = mtxs k" "set (queues k1 RLIST) = set (queues k RLIST)"
    "prio_of k1 (currp k) = prio_of k (currp k)" "state_of k1 t = state_of k t"
    "t_mtxlist (threads k1 t) = t_mtxlist (threads k t)" "t_realprio (threads k1 t) = t_realprio (threads k t)" for t
    using k1(5) by (auto simp: boosted_def)
  have ow: "mtx_owner k1 mp = mtx_owner k mp" using f(2) by (simp add: mtx_owner_def)
  have ctx1: "thd_ctx k1" using thd_ctx_cong [of k1 k] k1(5) ctx by (simp add: boosted_def)
  have ne1: "queues k1 RLIST \<noteq> []" using f(3) ne by (metis set_empty)
  have m1: "mtx_inv M k1"
    using k1 f mtx owned_cong [OF q(3) f(2), of ] by (simp add: mtx_inv_def)
  have pr: "prio_of k1 (currp k1) \<le> prio_of k1 (mtx_owner k1 mp)" using k1(6) f ow by simp
  have "chSchGoSleepS CH_STATE_WTMTX (set_u mp (currp k) (q_prio_insert (currp k) (TQ mp) k1)) = Ok (mtx_sleep mp k1)"
    using chSchGoSleepS_eq ctx1 ne1 f(1) by (simp add: mtx_sleep_def)
  then have "chMtxLockS mp k = Ok (Asleep, mtx_sleep mp k1)"
    using own ctx nn k1(1) by (simp add: chMtxLockS_def Let_def del: set_field_defs)
  then show "\<exists>k1. boosted (currp k) k k1 \<and> chMtxLockS mp k = Ok (Asleep, mtx_sleep mp k1) \<and>
      sched_ok (mtx_sleep mp k1) \<and> mtx_inv M (mtx_sleep mp k1) \<and> thd_ctx (mtx_sleep mp k1) \<and>
      prio_of k1 (mtx_owner k mp) \<ge> prio_of k (currp k)"
    using k1 mtx_sleep_ok [OF k1(2) ne1 m1 mp _ pr] own ow ctx1 by (intro exI [of _ k1]) simp
qed

section \<open>Unlocking\<close>

text \<open>The priority that the scan over the owned mutexes finds.\<close>

fun scan_val :: "kernel \<Rightarrow> nat \<Rightarrow> ptr list \<Rightarrow> nat" where
  "scan_val k p [] = p"
| "scan_val k p (m # ms) = scan_val k
     (if queues k (TQ m) \<noteq> [] \<and> prio_of k (hd (queues k (TQ m))) > p then prio_of k (hd (queues k (TQ m))) else p) ms"

lemma scan_prio_eq:
  "mchain k lmp ms \<Longrightarrow> length ms \<le> n \<Longrightarrow> thd_ctx k \<Longrightarrow> scan_prio n lmp p k = Ok (scan_val k p ms)"
proof (induction ms arbitrary: n lmp p)
  case Nil
  then show ?case by (simp add: scan_prio.simps)
next
  case (Cons m ms)
  then obtain n' where "n = Suc n'" by (cases n) auto
  then show ?case using Cons by (simp add: scan_prio.simps [of "Suc n'"] chMtxQueueNotEmptyS_def)
qed

lemma scan_val_bound:
  "p \<le> scan_val k p ms \<and> (\<forall>m\<in>set ms. queues k (TQ m) \<noteq> [] \<longrightarrow> prio_of k (hd (queues k (TQ m))) \<le> scan_val k p ms)"
  by (induction k p ms rule: scan_val.induct) (auto split: if_splits)

lemma scan_val_attained:
  "scan_val k p ms = p \<or> (\<exists>m\<in>set ms. queues k (TQ m) \<noteq> [] \<and> scan_val k p ms = prio_of k (hd (queues k (TQ m))))"
proof (induction k p ms rule: scan_val.induct)
  case (2 k p m ms)
  then show ?case by (auto split: if_splits)
qed simp

lemma length_ptrs: "distinct (xs :: ptr list) \<Longrightarrow> length xs \<le> 2 ^ 32"
proof -
  assume "distinct xs"
  then have "length xs = card (set xs)" by (simp add: distinct_card)
  also have "\<dots> \<le> card (UNIV :: ptr set)" by (intro card_mono) (auto simp: finite_code)
  also have "\<dots> = 2 ^ 32" by (simp add: card_word)
  finally show ?thesis .
qed

text \<open>\<open>handed mp t ts p k\<close>: \<open>mp\<close> has passed from the current thread to \<open>t\<close>, leaving the waiters \<open>ts\<close>.\<close>

definition undone :: "ptr \<Rightarrow> kernel \<Rightarrow> kernel" where
  "undone mp k = upd_th (currp k) (t_mtxlist_update (\<lambda>_. mtx_next k mp)) k"

definition handed :: "ptr \<Rightarrow> ptr \<Rightarrow> ptr list \<Rightarrow> nat \<Rightarrow> kernel \<Rightarrow> kernel" where
  "handed mp t ts p k = ready_behind t (give mp t (upd_q (TQ mp) (\<lambda>_. ts) (set_prio p (currp k) (undone mp k))))"

lemma undone_frame [simp]:
  "state_of (undone mp k) t = state_of k t" "prio_of (undone mp k) t = prio_of k t"
  "rdymsg_of (undone mp k) t = rdymsg_of k t" "t_realprio (threads (undone mp k) t) = t_realprio (threads k t)"
  "queues (undone mp k) = queues k" "currp (undone mp k) = currp k" "mtxs (undone mp k) = mtxs k"
  "mtx_owner (undone mp k) m = mtx_owner k m" "mtx_next (undone mp k) m = mtx_next k m"
  "thd_ctx (undone mp k) = thd_ctx k" "i_ctx (undone mp k) = i_ctx k" "sched_inv (undone mp k) = sched_inv k"
  "sched_order (undone mp k) = sched_order k"
  by (simp_all add: undone_def mtx_owner_def mtx_next_def)

lemma handed_frame [simp]:
  "state_of (handed mp t ts p k) x = (if x = t then CH_STATE_READY else state_of k x)"
  "prio_of (handed mp t ts p k) x = (if x = currp k then p else prio_of k x)"
  "rdymsg_of (handed mp t ts p k) x = rdymsg_of k x"
  "queues (handed mp t ts p k) (TQ m) = (if m = mp then ts else queues k (TQ m))"
  "mtx_owner (handed mp t ts p k) m = (if m = mp then t else mtx_owner k m)"
  "currp (handed mp t ts p k) = currp k" "thd_ctx (handed mp t ts p k) = thd_ctx k"
  "t_realprio (threads (handed mp t ts p k) x) = t_realprio (threads k x)"
proof -
  show "mtx_owner (handed mp t ts p k) m = (if m = mp then t else mtx_owner k m)"
    by (simp add: handed_def mtx_owner_def give_def undone_def)
  show "t_realprio (threads (handed mp t ts p k) x) = t_realprio (threads k x)"
    by (simp add: handed_def ready_behind_def give_def undone_def)
qed (simp_all add: handed_def)

lemma mtx_inv_undone:
  assumes "mtx_inv M k" and "mp \<in> M" and "t_mtxlist (threads k (currp k)) = mp" and "currp k \<noteq> NULL"
  shows "mtx_queues M (undone mp k)" and "inherits M (undone mp k)" and "owned_but M mp (undone mp k)"
    and "mtx_owner k mp = currp k"
proof -
  have q: "mtx_queues M k" "inherits M k" "owned M k" using assms(1) by (simp_all add: mtx_inv_def)
  have nn: "mp \<noteq> NULL" using assms(2) mtx_queuesD(1) [OF q(1)] by auto
  show "mtx_queues M (undone mp k)" using mtx_queuesD [OF q(1)] by (intro mtx_queuesI) simp_all
  show "inherits M (undone mp k)" using q(2) by (simp add: inherits_def)
  show "owned_but M mp (undone mp k)" "mtx_owner k mp = currp k"
    using owned_drop [OF q(3) assms(2,4,3) nn] by (simp_all add: undone_def)
qed

lemma owned_but_cong:
  assumes "owned_but M mp k" and "mtxs k' = mtxs k" and "\<And>t. t_mtxlist (threads k' t) = t_mtxlist (threads k t)"
  shows "owned_but M mp k'"
proof -
  have f: "mtx_next k' m = mtx_next k m" "mtx_owner k' m = mtx_owner k m" for m
    using assms(2) by (simp_all add: mtx_next_def mtx_owner_def)
  have "mchain k' p ms = mchain k p ms" for p ms by (rule mchain_cong) (simp add: f)
  then show ?thesis using assms(1) unfolding owned_but_def f assms(3) by simp
qed

lemma mtx_inv_unowned:
  assumes "mtx_inv M k" and "mp \<in> M" and "t_mtxlist (threads k (currp k)) = mp" and "currp k \<noteq> NULL"
    and "queues k (TQ mp) = []"
  shows "mtx_inv M (upd_mtx mp (m_owner_update (\<lambda>_. NULL)) (undone mp k))"
proof -
  let ?k = "upd_mtx mp (m_owner_update (\<lambda>_. NULL)) (undone mp k)"
  note u = mtx_inv_undone [OF assms(1-4)]
  have o: "mtx_owner ?k m = (if m = mp then NULL else mtx_owner k m)" "mtx_next ?k m = mtx_next k m" for m
    by (simp_all add: mtx_owner_def mtx_next_def)
  have "mchain ?k p ms = mchain (undone mp k) p ms" for p ms by (rule mchain_cong) (simp add: o)
  moreover have "{m \<in> M. mtx_owner ?k m = t} = {m \<in> M. m \<noteq> mp \<and> mtx_owner k m = t}" if "t \<noteq> NULL" for t
    using that by (auto simp: o)
  ultimately have "owned M ?k" using u(3) unfolding owned_but_def owned_def by simp
  moreover have "mtx_queues M ?k" using mtx_queuesD [OF u(1)] assms(5) by (intro mtx_queuesI) (auto simp: o split: if_splits)
  moreover have "inherits M ?k" using u(2) assms(5) by (auto simp: inherits_def o)
  ultimately show ?thesis using assms(1) by (simp add: mtx_inv_def)
qed

lemma handed_ok:
  assumes inv: "sched_inv k" and mtx: "mtx_inv M k" and mp: "mp \<in> M"
    and ml: "t_mtxlist (threads k (currp k)) = mp" and q: "queues k (TQ mp) = t # ts"
    and p: "p > 0" "\<forall>m\<in>M. \<forall>x\<in>set (queues k (TQ m)). m \<noteq> mp \<and> mtx_owner k m = currp k \<longrightarrow> prio_of k x \<le> p"
  shows "sched_inv (handed mp t ts p k)" and "mtx_inv M (handed mp t ts p k)"
    and "i_ctx k \<Longrightarrow> mtx_hand_over mp (set_prio p (currp k) (undone mp k)) = Ok (handed mp t ts p k)"
proof -
  let ?c = "currp k" let ?h = "handed mp t ts p k"
  have c: "?c \<noteq> NULL" "state_of k ?c = CH_STATE_CURRENT"
    using sched_invD(6) [OF inv, of ?c] sched_invD(8) [OF inv] by auto
  note u = mtx_inv_undone [OF mtx mp ml c(1)]
  note mq = mtx_queuesD [OF u(1)]
  have ui: "sched_inv (undone mp k)" using inv by simp
  have r: "raised M p ?c (undone mp k) (set_prio p ?c (undone mp k))"
    using c by (intro raised_plain [OF ui _ u(1)]) simp
  note r = raised_inv(1) [OF r p(1) ui] raised_inv(2) [OF r p(1) u(1)]
  let ?k1 = "set_prio p ?c (undone mp k)" let ?k2 = "upd_q (TQ mp) (\<lambda>_. ts) ?k1"
  have q1: "queues ?k1 (TQ mp) = t # ts" using q by simp
  have k2: "sched_inv ?k2" "limbo t ?k2" using unqueue_first [OF r(1) _ q1] by simp_all
  have tn: "t \<noteq> ?c" "t \<noteq> NULL" using limboD(1,2) [OF k2(2,1)] by simp_all
  have dist: "t \<notin> set ts" "t \<notin> set (queues k (TQ m))" if "m \<noteq> mp" for m
    using sched_invD(2) [OF inv, of "TQ mp"] q sched_invD(3) [OF inv, of t "TQ mp" "TQ m"] that by auto
  have tts: "t \<notin> set ts" using sched_invD(2) [OF inv, of "TQ mp"] q by simp
  have cq: "?c \<notin> set (queues k r)" for r using currp_not_queued [OF inv] .
  show "sched_inv ?h" unfolding handed_def using k2 by (simp add: sched_inv_ready)
  show "mtx_hand_over mp ?k1 = Ok ?h" if "i_ctx k"
  proof -
    have "mtx_hand_over mp ?k1 = chSchReadyI t (give mp t ?k2)"
      using q1 unfolding mtx_hand_over_def q_first_out_def give_def by simp
    also have "\<dots> = Ok (ready_behind t (give mp t ?k2))" using k2 that by (intro chSchReadyI_ok) simp_all
    finally show ?thesis by (simp add: handed_def)
  qed
  have "owned_but M mp ?k2" by (rule owned_but_cong [OF u(3)]) simp_all
  then have "owned M (give mp t ?k2)" using owned_give [of M mp ?k2 t] mp tn(2) mq(1) by blast
  then have "owned M ?h" unfolding handed_def by (rule owned_cong) (simp_all add: ready_behind_def)
  moreover have "mtx_queues M ?h"
  proof (rule mtx_queuesI)
    show "NULL \<notin> M" by (rule mq(1))
    show "queues ?h (TQ m) = []" if "m \<in> M" "mtx_owner ?h m = NULL" for m
      using that tn mq(2) [of m] by (auto split: if_splits)
    show "state_of ?h x = CH_STATE_WTMTX \<and> rdymsg_of ?h x = m" if "m \<in> M" "x \<in> set (queues ?h (TQ m))" for m x
      using that mq(3) [of m x] q tts dist(2) [of m] by (auto split: if_splits)
    show "sorted_wrt (\<lambda>a b. prio_of ?h a \<ge> prio_of ?h b) (queues ?h (TQ m))" if m: "m \<in> M" for m
    proof -
      have "sorted_wrt (\<lambda>a b. prio_of k a \<ge> prio_of k b) (queues ?h (TQ m))" "?c \<notin> set (queues ?h (TQ m))"
        using mq(4) [OF m] cq [of "TQ m"] q cq [of "TQ mp"] by (auto split: if_splits)
      then show ?thesis by (auto intro: sorted_wrt_mono_rel [rotated])
    qed
    show "rdymsg_of ?h x \<in> M \<and> x \<in> set (queues ?h (TQ (rdymsg_of ?h x)))" if "state_of ?h x = CH_STATE_WTMTX" for x
      using that mq(5) [of x] q by (auto split: if_splits)
    show "rdymsg_of ?h x \<notin> M \<and> x \<in> set (queues ?h (TQ (rdymsg_of ?h x)))" if "state_of ?h x = CH_STATE_WTCOND" for x
      using that mq(6) [of x] q mp by (auto split: if_splits)
  qed
  moreover have "inherits M ?h"
    unfolding inherits_def
  proof (intro ballI)
    fix m x assume m: "m \<in> M" and x: "x \<in> set (queues ?h (TQ m))"
    have xc: "x \<noteq> ?c" using x cq [of "TQ m"] cq [of "TQ mp"] q by (auto split: if_splits)
    show "prio_of ?h x \<le> prio_of ?h (mtx_owner ?h m)"
    proof (cases "m = mp")
      case True
      then show ?thesis using x mq(4) [OF mp] q tn(1) xc by auto
    next
      case False
      then show ?thesis
        using x m xc p(2) u(2) by (auto simp: inherits_def)
    qed
  qed
  ultimately show "mtx_inv M ?h" using mtx c q1 mq(3) [OF mp, of t] q by (auto simp: mtx_inv_def)
qed

lemma mtx_release_ok:
  assumes inv: "sched_inv k" and ctx: "thd_ctx k" and mtx: "mtx_inv M k" and mp: "mp \<in> M"
    and ml: "t_mtxlist (threads k (currp k)) = mp"
  shows "queues k (TQ mp) = [] \<Longrightarrow>
      mtx_release f fin mp k = Ok (upd_mtx mp (m_owner_update (\<lambda>_. NULL)) (undone mp k))"
    and "queues k (TQ mp) = t # ts \<Longrightarrow> \<exists>p. mtx_release f fin mp k = fin (handed mp t ts p k) \<and>
      sched_inv (handed mp t ts p k) \<and> mtx_inv M (handed mp t ts p k) \<and> p \<ge> t_realprio (threads k (currp k)) \<and>
      (p = t_realprio (threads k (currp k)) \<or>
       (\<exists>m\<in>M. m \<noteq> mp \<and> mtx_owner k m = currp k \<and> queues k (TQ m) \<noteq> [] \<and> p = prio_of k (hd (queues k (TQ m)))))"
proof -
  let ?c = "currp k"
  have c: "?c \<noteq> NULL" "state_of k ?c = CH_STATE_CURRENT"
    using sched_invD(6) [OF inv, of ?c] sched_invD(8) [OF inv] by auto
  note u = mtx_inv_undone [OF mtx mp ml c(1)]
  have nn: "mp \<noteq> NULL" using mp mtx_queuesD(1) [OF u(1)] by auto
  have base: "mtx_release f fin mp k = (if queues k (TQ mp) \<noteq> []
      then kbind (scan_prio max_turns (t_mtxlist (threads (undone mp k) ?c)) (t_realprio (threads k ?c)) (undone mp k))
        (\<lambda>p. kbind (mtx_hand_over mp (set_prio p ?c (undone mp k))) fin)
      else Ok (upd_mtx mp (m_owner_update (\<lambda>_. NULL)) (undone mp k)))"
    using ml nn u(4) ctx by (simp add: mtx_release_def chMtxQueueNotEmptyS_def undone_def Let_def)
  show "mtx_release f fin mp k = Ok (upd_mtx mp (m_owner_update (\<lambda>_. NULL)) (undone mp k))"
    if "queues k (TQ mp) = []" using base that by simp
  assume q: "queues k (TQ mp) = t # ts"
  obtain ms where ms: "mchain (undone mp k) (t_mtxlist (threads (undone mp k) ?c)) ms" "distinct ms"
    "set ms = {m \<in> M. m \<noteq> mp \<and> mtx_owner k m = ?c}" using u(3) c(1) unfolding owned_but_def by auto
  define p where "p = scan_val (undone mp k) (t_realprio (threads k ?c)) ms"
  have sc: "scan_prio max_turns (t_mtxlist (threads (undone mp k) ?c)) (t_realprio (threads k ?c)) (undone mp k) = Ok p"
    unfolding p_def max_turns_def using scan_prio_eq [OF ms(1) length_ptrs [OF ms(2)]] ctx by simp
  note b = scan_val_bound [of "t_realprio (threads k ?c)" "undone mp k" ms, folded p_def]
  have "t_realprio (threads k ?c) > 0" using mtx c by (simp add: mtx_inv_def)
  then have p0: "p > 0" using b by simp
  have "prio_of k x \<le> p" if "m \<in> M" "m \<noteq> mp" "mtx_owner k m = ?c" "x \<in> set (queues k (TQ m))" for m x
  proof -
    have "prio_of k x \<le> prio_of k (hd (queues k (TQ m)))"
      using mtx_queuesD(4) [OF u(1) that(1)] that(4) by (cases "queues k (TQ m)") auto
    also have "\<dots> \<le> p" using b that ms(3) by auto
    finally show ?thesis .
  qed
  then have le: "\<forall>m\<in>M. \<forall>x\<in>set (queues k (TQ m)). m \<noteq> mp \<and> mtx_owner k m = ?c \<longrightarrow> prio_of k x \<le> p" by blast
  note h = handed_ok [OF inv mtx mp ml q p0 le]
  have "mtx_release f fin mp k = fin (handed mp t ts p k)" using base q sc h(3) ctx by simp
  moreover have "p = t_realprio (threads k ?c) \<or> (\<exists>m\<in>M. m \<noteq> mp \<and> mtx_owner k m = ?c \<and> queues k (TQ m) \<noteq> [] \<and>
      p = prio_of k (hd (queues k (TQ m))))"
    using scan_val_attained [of "undone mp k" "t_realprio (threads k ?c)" ms] ms(3) unfolding p_def by auto
  ultimately show "\<exists>p. mtx_release f fin mp k = fin (handed mp t ts p k) \<and>
      sched_inv (handed mp t ts p k) \<and> mtx_inv M (handed mp t ts p k) \<and> p \<ge> t_realprio (threads k ?c) \<and>
      (p = t_realprio (threads k ?c) \<or> (\<exists>m\<in>M. m \<noteq> mp \<and> mtx_owner k m = ?c \<and> queues k (TQ m) \<noteq> [] \<and>
        p = prio_of k (hd (queues k (TQ m)))))"
    using h(1,2) b by blast
qed

lemma mtx_inv_cong:
  assumes "mtx_inv M k" and "mtxs k' = mtxs k" and "\<And>m. queues k' (TQ m) = queues k (TQ m)"
    and "\<And>t. prio_of k' t = prio_of k t" "\<And>t. rdymsg_of k' t = rdymsg_of k t"
    "\<And>t. t_mtxlist (threads k' t) = t_mtxlist (threads k t)" "\<And>t. t_realprio (threads k' t) = t_realprio (threads k t)"
    and "\<And>t. state_of k' t = state_of k t \<or>
      state_of k t \<in> {CH_STATE_READY, CH_STATE_CURRENT} \<and> state_of k' t \<in> {CH_STATE_READY, CH_STATE_CURRENT}"
  shows "mtx_inv M k'"
proof -
  have s: "state_of k' t = CH_STATE_WTMTX \<longleftrightarrow> state_of k t = CH_STATE_WTMTX"
    "state_of k' t = CH_STATE_WTCOND \<longleftrightarrow> state_of k t = CH_STATE_WTCOND"
    "state_of k' t = CH_STATE_FINAL \<longleftrightarrow> state_of k t = CH_STATE_FINAL" for t
    using assms(8) [of t] by auto
  have o: "mtx_owner k' m = mtx_owner k m" for m using assms(2) by (simp add: mtx_owner_def)
  have "owned M k'" using owned_cong [of M k k'] assms(1,2,6) by (simp add: mtx_inv_def)
  then show ?thesis
    using assms(1) unfolding mtx_inv_def mtx_queues_def inherits_def s o assms(3-7) by blast
qed

lemma resched_thread [simp]:
  "t_mtxlist (threads (resched k) t) = t_mtxlist (threads k t)"
  "t_realprio (threads (resched k) t) = t_realprio (threads k t)"
  by (simp_all add: resched_def switch_ahead_def ready_ahead_def go_sleep_def make_current_def)

lemma resched_states:
  "sched_inv k \<Longrightarrow> state_of (resched k) t = state_of k t \<or>
     state_of k t \<in> {CH_STATE_READY, CH_STATE_CURRENT} \<and> state_of (resched k) t \<in> {CH_STATE_READY, CH_STATE_CURRENT}"
  using firstprio_gt [of "prio_of k (currp k)" k] sched_invD(4) [of k t] sched_invD(6) [of k t]
    hd_in_set [of "queues k RLIST"]
  by (auto simp: resched_def switch_ahead_def)

lemma mtx_inv_resched: "sched_inv k \<Longrightarrow> mtx_inv M k \<Longrightarrow> mtx_inv M (resched k)"
  by (rule mtx_inv_cong [of M k]) (use resched_states in auto)

text \<open>The body of \<open>chMtxUnlock\<close>.\<close>

lemma unlock_body_ok:
  assumes "sched_ok k" and "thd_ctx k" and "mtx_inv M k" and "mp \<in> M" and "t_mtxlist (threads k (currp k)) = mp"
  shows "\<exists>k'. mtx_release ''chMtxUnlock'' chSchRescheduleS mp k = Ok k' \<and> sched_ok k' \<and> thd_ctx k' \<and> mtx_inv M k' \<and>
    (queues k (TQ mp) = [] \<longrightarrow> mtx_owner k' mp = NULL \<and> currp k' = currp k) \<and>
    (\<forall>t ts. queues k (TQ mp) = t # ts \<longrightarrow> mtx_owner k' mp = t \<and> t_mtxlist (threads k' t) = mp \<and>
       queues k' (TQ mp) = ts \<and> state_of k' t \<in> {CH_STATE_READY, CH_STATE_CURRENT})"
proof -
  have inv: "sched_inv k" "sched_order k" using assms(1) by (simp_all add: sched_ok_def)
  have cur: "currp k \<noteq> NULL" using sched_invD(6) [OF inv(1), of "currp k"] sched_invD(8) [OF inv(1)] by auto
  note rel = mtx_release_ok [OF inv(1) assms(2-5)]
  show ?thesis
  proof (cases "queues k (TQ mp)")
    case Nil
    then show ?thesis
      using rel(1) inv assms(2) mtx_inv_unowned [OF assms(3-5) cur Nil]
      by (intro exI [of _ "upd_mtx mp (m_owner_update (\<lambda>_. NULL)) (undone mp k)"])
        (simp add: sched_ok_def mtx_owner_def)
  next
    case (Cons t ts)
    obtain p where p: "mtx_release ''chMtxUnlock'' chSchRescheduleS mp k = chSchRescheduleS (handed mp t ts p k)"
      "sched_inv (handed mp t ts p k)" "mtx_inv M (handed mp t ts p k)"
      using rel(2) [OF Cons, of "''chMtxUnlock''" chSchRescheduleS] by blast
    let ?h = "handed mp t ts p k"
    have c: "thd_ctx ?h" using assms(2) by simp
    have ml: "t_mtxlist (threads ?h t) = mp" by (simp add: handed_def ready_behind_def)
    show ?thesis
      using p(1) chSchRescheduleS_eq [OF p(2) c] resched_inv [OF p(2)] c mtx_inv_resched [OF p(2,3)] Cons
        resched_states [OF p(2), of t] ml
      by (intro exI [of _ "resched ?h"]) (auto simp: sched_ok_def mtx_owner_def [of "resched _"] simp flip: mtx_owner_def)
  qed
qed

interpretation mtx_unlock: s_service "mtx_release ''chMtxUnlock'' chSchRescheduleS mp"
  "\<lambda>k. mtx_inv M k \<and> mp \<in> M \<and> t_mtxlist (threads k (currp k)) = mp" for M mp
proof unfold_locales
  show "\<exists>k'. mtx_release ''chMtxUnlock'' chSchRescheduleS mp k = Ok k' \<and> sched_ok k' \<and> thd_ctx k'"
    if "sched_ok k" "thd_ctx k" "mtx_inv M k \<and> mp \<in> M \<and> t_mtxlist (threads k (currp k)) = mp" for k
    using unlock_body_ok [OF that(1,2)] that(3) by blast
  show "(mtx_inv M (k\<lparr>lock_cnt := n\<rparr>) \<and> mp \<in> M \<and> t_mtxlist (threads (k\<lparr>lock_cnt := n\<rparr>) (currp (k\<lparr>lock_cnt := n\<rparr>))) = mp) =
      (mtx_inv M k \<and> mp \<in> M \<and> t_mtxlist (threads k (currp k)) = mp)" for k n
    using mtx_inv_cong [of M k "k\<lparr>lock_cnt := n\<rparr>"] mtx_inv_cong [of M "k\<lparr>lock_cnt := n\<rparr>" k] by auto
qed

lemma mtx_inv_lock [simp]: "mtx_inv M (k\<lparr>lock_cnt := n\<rparr>) = mtx_inv M k"
  using mtx_inv_cong [of M k "k\<lparr>lock_cnt := n\<rparr>"] mtx_inv_cong [of M "k\<lparr>lock_cnt := n\<rparr>" k] by auto

section \<open>Properties\<close>

text \<open>
  The priority inheritance loop of \<open>chMtxLockS\<close> ends for every wait graph, a cyclic one
  included.
\<close>

theorem boost_terminates: "boost max_turns ctp tp k \<noteq> Diverge"
  unfolding max_turns_def by (rule boost_ends) (rule card_below_le)

text \<open>
  C26: locking. A free mutex is taken at once. Otherwise the caller goes to sleep, and the
  priority inheritance protocol holds: the owner of every mutex has at least the priority of
  each of its waiters, along the whole chain of owners that wait themselves; the queues of
  the mutexes and the ready list are in priority order after the raises. No check fails.
\<close>

theorem chMtxLockS_inherits:
  assumes "sched_ok k" and "thd_ctx k" and "mtx_inv M k" and "mp \<in> M" and "queues k RLIST \<noteq> []"
  shows "\<exists>r k'. chMtxLockS mp k = Ok (r, k') \<and> sched_ok k' \<and> thd_ctx k' \<and> mtx_inv M k' \<and>
    (mtx_owner k mp = NULL \<longrightarrow> r = Returned () \<and> mtx_owner k' mp = currp k \<and> currp k' = currp k) \<and>
    (mtx_owner k mp \<noteq> NULL \<longrightarrow> r = Asleep \<and> mtx_owner k' mp = mtx_owner k mp \<and>
       currp k \<in> set (queues k' (TQ mp)) \<and> prio_of k' (mtx_owner k mp) \<ge> prio_of k (currp k))"
proof (cases "mtx_owner k mp = NULL")
  case True
  have inv: "sched_inv k" using assms(1) by (simp add: sched_ok_def)
  have cur: "currp k \<noteq> NULL" using sched_invD(6) [OF inv, of "currp k"] sched_invD(8) [OF inv] by auto
  show ?thesis
    using True chMtxLockS_ok(1) [OF assms True] mtx_inv_acquire [OF assms(3,4) True cur] assms(1,2)
    by (simp add: sched_ok_def)
next
  case False
  obtain k1 where k1: "boosted (currp k) k k1" "chMtxLockS mp k = Ok (Asleep, mtx_sleep mp k1)"
    "sched_ok (mtx_sleep mp k1)" "mtx_inv M (mtx_sleep mp k1)" "thd_ctx (mtx_sleep mp k1)"
    "prio_of k1 (mtx_owner k mp) \<ge> prio_of k (currp k)" using chMtxLockS_ok(2) [OF assms False] by blast
  have "currp k1 = currp k" "mtx_owner k1 mp = mtx_owner k mp" using k1(1) by (simp_all add: boosted_def mtx_owner_def)
  then show ?thesis using False k1 by (intro exI [of _ Asleep] exI [of _ "mtx_sleep mp k1"]) simp
qed


text \<open>
  The thread at 48 owns the mutex at 64; the running thread at 16 has a higher priority.
\<close>

definition demo_mtx :: kernel where
  "demo_mtx = kernel_reset\<lparr>
     threads := (\<lambda>_. no_thread)(16 := no_thread\<lparr>t_prio := 128, t_realprio := 128, t_state := CH_STATE_CURRENT\<rparr>,
       32 := no_thread\<lparr>t_prio := 1, t_realprio := 1, t_state := CH_STATE_READY\<rparr>,
       48 := no_thread\<lparr>t_prio := 100, t_realprio := 100, t_state := CH_STATE_READY, t_mtxlist := 64\<rparr>),
     queues := (\<lambda>_. [])(RLIST := [48, 32]), currp := 16, lock_cnt := 1,
     mtxs := (\<lambda>_. \<lparr>m_owner = NULL, m_next = NULL\<rparr>)(64 := \<lparr>m_owner = 48, m_next = NULL\<rparr>)\<rparr>"

lemma demo_mtx_ok: "sched_ok demo_mtx" "thd_ctx demo_mtx" "mtx_inv {64} demo_mtx"
proof -
  show "sched_ok demo_mtx" "thd_ctx demo_mtx"
    by (auto simp: demo_mtx_def kernel_reset_def no_thread_def sched_ok_def sched_inv_def sched_order_def
        thd_ctx_def split: if_splits)
  have "mtx_queues {64} demo_mtx" "inherits {64} demo_mtx"
    by (auto simp: demo_mtx_def kernel_reset_def no_thread_def mtx_queues_def inherits_def mtx_owner_def)
  moreover have "owned {64} demo_mtx"
    unfolding owned_def
  proof (intro allI impI)
    fix t :: ptr assume "t \<noteq> NULL"
    then show "\<exists>ms. mchain demo_mtx (t_mtxlist (threads demo_mtx t)) ms \<and> distinct ms \<and>
        set ms = {m \<in> {64}. mtx_owner demo_mtx m = t}"
      by (intro exI [of _ "if t = 48 then [64] else []"])
        (auto simp: demo_mtx_def kernel_reset_def no_thread_def mtx_owner_def mtx_next_def)
  qed
  ultimately show "mtx_inv {64} demo_mtx"
    by (auto simp: mtx_inv_def demo_mtx_def no_thread_def)
qed

theorem chMtxLockS_inherits_witness:
  "\<exists>r k'. chMtxLockS 64 demo_mtx = Ok (r, k') \<and> r = Asleep \<and> prio_of k' 48 \<ge> 128 \<and> mtx_inv {64} k'"
proof -
  have "queues demo_mtx RLIST \<noteq> []" "mtx_owner demo_mtx 64 = 48" "prio_of demo_mtx (currp demo_mtx) = 128"
    by (simp_all add: demo_mtx_def mtx_owner_def)
  then show ?thesis using chMtxLockS_inherits [OF demo_mtx_ok] by fastforce
qed


end
