(* ===== verification/Threads.thy ===== *)
theory Threads
  imports Mutexes
begin

text \<open>
  Threads and the registry (\<open>os/rt/src/chthreads.c\<close>, \<open>os/rt/include/chthreads.h\<close>,
  \<open>os/rt/src/chregistry.c\<close>).

  The sizes that the compiler and the port fix (the alignments, the smallest working area and
  the space the thread structure takes at its top) are the fields of a \<open>port_cfg\<close>. The initial
  register context of a thread (\<open>PORT_SETUP_CONTEXT\<close>) is not part of the kernel state. The
  registry list is \<open>registry k\<close>, oldest thread first. Giving a working area back to the heap or
  to a pool is recorded in \<open>alloc_log\<close>.
\<close>

section \<open>The registry\<close>

definition reg_insert :: "ptr \<Rightarrow> kernel \<Rightarrow> kernel" where
  "reg_insert tp k = k\<lparr>registry := registry k @ [tp]\<rparr>"

definition reg_remove :: "ptr \<Rightarrow> kernel \<Rightarrow> kernel" where
  "reg_remove tp k = k\<lparr>registry := remove1 tp (registry k)\<rparr>"

definition CH_FLAG_MODE_MASK :: byte where "CH_FLAG_MODE_MASK = 3"
definition CH_FLAG_MODE_STATIC :: byte where "CH_FLAG_MODE_STATIC = 0"
definition CH_FLAG_MODE_HEAP :: byte where "CH_FLAG_MODE_HEAP = 1"
definition CH_FLAG_MODE_MPOOL :: byte where "CH_FLAG_MODE_MPOOL = 2"
definition CH_FLAG_TERMINATE :: byte where "CH_FLAG_TERMINATE = 4"

definition inc_refs :: "ptr \<Rightarrow> kernel \<Rightarrow> kernel" where
  "inc_refs tp k = upd_th tp (t_refs_update (\<lambda>r. r + 1)) k"

definition release_body :: "ptr \<Rightarrow> kernel \<Rightarrow> kernel kres" where
  "release_body tp k =
     kguard (t_refs (threads k tp) > 0) ''chThdRelease'' (
     let k = upd_th tp (t_refs_update (\<lambda>r. r - 1)) k
     in Ok (if t_refs (threads k tp) = 0 \<and> state_of k tp = CH_STATE_FINAL then reg_remove tp k else k))"

definition chThdRelease :: "ptr \<Rightarrow> kernel \<Rightarrow> kernel kres" where
  "chThdRelease tp k =
     kbind (locked (release_body tp) k) (\<lambda>k'.
     Ok (if t_refs (threads k' tp) = 0 \<and> state_of k' tp = CH_STATE_FINAL
         then let m = t_flags (threads k' tp) AND CH_FLAG_MODE_MASK
              in if m = CH_FLAG_MODE_HEAP
                 then k'\<lparr>alloc_log := alloc_log k' @ [HEAP_FREE (t_wabase (threads k' tp))]\<rparr>
                 else if m = CH_FLAG_MODE_MPOOL
                 then k'\<lparr>alloc_log := alloc_log k' @ [POOL_FREE (t_mpool (threads k' tp)) (t_wabase (threads k' tp))]\<rparr>
                 else k'
         else k'))"

definition chThdAddRef :: "ptr \<Rightarrow> kernel \<Rightarrow> kernel kres" where
  "chThdAddRef tp =
     locked (\<lambda>k. kguard (t_refs (threads k tp) < 255) ''chThdAddRef'' (Ok (inc_refs tp k)))"

text \<open>With an empty registry the header itself would be taken for a thread.\<close>

definition chRegFirstThread :: "kernel \<Rightarrow> (ptr \<times> kernel) kres" where
  "chRegFirstThread k =
     kbind (chSysLock k) (\<lambda>k.
     case registry k of [] \<Rightarrow> Undef
     | tp # _ \<Rightarrow> unlock_resume tp (inc_refs tp k))"

fun next_newer :: "ptr \<Rightarrow> ptr list \<Rightarrow> ptr" where
  "next_newer tp (a # b # xs) = (if a = tp then b else next_newer tp (b # xs))"
| "next_newer tp _ = NULL"

definition chRegNextThread :: "ptr \<Rightarrow> kernel \<Rightarrow> (ptr \<times> kernel) kres" where
  "chRegNextThread tp k =
     kbind (chSysLock k) (\<lambda>k.
     let ntp = next_newer tp (registry k)
     in kbind (if ntp = NULL then Ok k
               else kguard (t_refs (threads k ntp) < 255) ''chRegNextThread'' (Ok (inc_refs ntp k))) (\<lambda>k.
        kbind (chSysUnlock k) (\<lambda>k.
        kbind (chThdRelease tp k) (\<lambda>k. Ok (ntp, k)))))"

text \<open>
  The scans of the registry: \<open>reg_scan n P ctp\<close> runs the loop with at most \<open>n\<close> more threads to look
  at; the callers allow as many as the registry holds.
\<close>

fun reg_scan :: "nat \<Rightarrow> (kernel \<Rightarrow> ptr \<Rightarrow> bool) \<Rightarrow> ptr \<Rightarrow> kernel \<Rightarrow> (ptr \<times> kernel) kres" where
  "reg_scan 0 P ctp k = Diverge"
| "reg_scan (Suc n) P ctp k =
     (if P k ctp then Ok (ctp, k)
      else kbind (chRegNextThread ctp k) (\<lambda>(ctp, k).
           if ctp = NULL then Ok (NULL, k) else reg_scan n P ctp k))"

definition reg_find :: "(kernel \<Rightarrow> ptr \<Rightarrow> bool) \<Rightarrow> kernel \<Rightarrow> (ptr \<times> kernel) kres" where
  "reg_find P k = kbind (chRegFirstThread k) (\<lambda>(ctp, k). reg_scan (length (registry k)) P ctp k)"

definition chRegFindThreadByName :: "string \<Rightarrow> kernel \<Rightarrow> (ptr \<times> kernel) kres" where
  "chRegFindThreadByName name = reg_find (\<lambda>k tp. t_name (threads k tp) = name)"

definition chRegFindThreadByPointer :: "ptr \<Rightarrow> kernel \<Rightarrow> (ptr \<times> kernel) kres" where
  "chRegFindThreadByPointer tp = reg_find (\<lambda>k ctp. ctp = tp)"

definition chRegFindThreadByWorkingArea :: "ptr \<Rightarrow> kernel \<Rightarrow> (ptr \<times> kernel) kres" where
  "chRegFindThreadByWorkingArea wa = reg_find (\<lambda>k tp. t_wabase (threads k tp) = wa)"

section \<open>Creation\<close>

record port_cfg =
  pc_wa_align :: u32
  pc_stack_align :: u32
  pc_wa_min :: u32
  pc_thread_size :: u32

record thread_descriptor =
  td_name :: string
  td_wbase :: ptr
  td_wend :: ptr
  td_prio :: nat
  td_funcp :: ptr
  td_arg :: ptr

definition MEM_IS_ALIGNED :: "u32 \<Rightarrow> u32 \<Rightarrow> bool" where
  "MEM_IS_ALIGNED p a = (p AND (a - 1) = 0)"

definition thread_init :: "ptr \<Rightarrow> string \<Rightarrow> nat \<Rightarrow> kernel \<Rightarrow> kernel" where
  "thread_init tp name prio k =
     upd_q (MSGQ tp) (\<lambda>_. []) (upd_q (WAITING tp) (\<lambda>_. []) (reg_insert tp
       (upd_th tp (\<lambda>t. t\<lparr>t_prio := prio, t_state := CH_STATE_WTSTART, t_flags := CH_FLAG_MODE_STATIC,
          t_realprio := prio, t_mtxlist := NULL, t_epending := 0, t_refs := 1, t_name := name\<rparr>) k)))"

definition chThdCreateSuspendedI :: "port_cfg \<Rightarrow> thread_descriptor \<Rightarrow> kernel \<Rightarrow> (ptr \<times> kernel) kres" where
  "chThdCreateSuspendedI pc td k =
     chDbgCheckClassI k (
     kguard (MEM_IS_ALIGNED (td_wbase td) (pc_wa_align pc) \<and> MEM_IS_ALIGNED (td_wend td) (pc_stack_align pc) \<and>
             td_wend td > td_wbase td \<and> td_wend td - td_wbase td \<ge> pc_wa_min pc) ''chThdCreateSuspendedI'' (
     kguard (td_prio td \<le> HIGHPRIO \<and> td_funcp td \<noteq> NULL) ''chThdCreateSuspendedI'' (
     let tp = td_wend td - pc_thread_size pc
     in Ok (tp, thread_init tp (td_name td) (td_prio td) (upd_th tp (t_wabase_update (\<lambda>_. td_wbase td)) k)))))"

definition wa_free :: "string \<Rightarrow> ptr \<Rightarrow> kernel \<Rightarrow> kernel kres" where
  "wa_free fname wa k =
     kbind (chRegFindThreadByWorkingArea wa k) (\<lambda>(tp, k). kguard (tp = NULL) fname (Ok k))"

definition chThdCreateSuspended :: "port_cfg \<Rightarrow> thread_descriptor \<Rightarrow> kernel \<Rightarrow> (ptr \<times> kernel) kres" where
  "chThdCreateSuspended pc td k =
     kbind (wa_free ''chThdCreateSuspended'' (td_wbase td) k) (\<lambda>k.
     kbind (chSysLock k) (\<lambda>k.
     kbind (chThdCreateSuspendedI pc td k) (\<lambda>(tp, k). unlock_resume tp k)))"

definition chThdCreateI :: "port_cfg \<Rightarrow> thread_descriptor \<Rightarrow> kernel \<Rightarrow> (ptr \<times> kernel) kres" where
  "chThdCreateI pc td k =
     kbind (chThdCreateSuspendedI pc td k) (\<lambda>(tp, k). kbind (chSchReadyI tp k) (\<lambda>k. Ok (tp, k)))"

definition chThdCreate :: "port_cfg \<Rightarrow> thread_descriptor \<Rightarrow> kernel \<Rightarrow> (ptr \<times> kernel) kres" where
  "chThdCreate pc td k =
     kbind (wa_free ''chThdCreate'' (td_wbase td) k) (\<lambda>k.
     kbind (chSysLock k) (\<lambda>k.
     kbind (chThdCreateSuspendedI pc td k) (\<lambda>(tp, k).
     kbind (chSchWakeupS tp MSG_OK k) (unlock_resume tp))))"

definition chThdCreateStatic ::
  "port_cfg \<Rightarrow> ptr \<Rightarrow> u32 \<Rightarrow> nat \<Rightarrow> ptr \<Rightarrow> kernel \<Rightarrow> (ptr \<times> kernel) kres" where
  "chThdCreateStatic pc wsp sz prio pf k =
     kguard (wsp \<noteq> NULL \<and> MEM_IS_ALIGNED wsp (pc_wa_align pc) \<and> sz \<ge> pc_wa_min pc \<and>
             MEM_IS_ALIGNED sz (pc_stack_align pc) \<and> prio \<le> HIGHPRIO \<and> pf \<noteq> NULL) ''chThdCreateStatic'' (
     kbind (wa_free ''chThdCreateStatic'' wsp k) (\<lambda>k.
     kbind (chSysLock k) (\<lambda>k.
     let tp = wsp + sz - pc_thread_size pc;
         k = thread_init tp ''noname'' prio (upd_th tp (t_wabase_update (\<lambda>_. wsp)) k)
     in kbind (chSchWakeupS tp MSG_OK k) (unlock_resume tp))))"

definition chThdStart :: "ptr \<Rightarrow> kernel \<Rightarrow> kernel kres" where
  "chThdStart tp =
     locked (\<lambda>k. kguard (state_of k tp = CH_STATE_WTSTART) ''chThdStart'' (chSchWakeupS tp MSG_OK k))"

definition chThdStartI :: "ptr \<Rightarrow> kernel \<Rightarrow> kernel kres" where
  "chThdStartI tp k = kguard (state_of k tp = CH_STATE_WTSTART) ''chThdStartI'' (chSchReadyI tp k)"

section \<open>Termination\<close>

fun exit_loop :: "nat \<Rightarrow> ptr \<Rightarrow> kernel \<Rightarrow> kernel kres" where
  "exit_loop n tp k =
     (if queues k (WAITING tp) = [] then Ok k
      else case n of 0 \<Rightarrow> Diverge
      | Suc m \<Rightarrow> kbind (q_first_out (WAITING tp) k) (\<lambda>(t, k). kbind (chSchReadyI t k) (exit_loop m tp)))"

definition chThdExitS :: "msg_t \<Rightarrow> kernel \<Rightarrow> kernel kres" where
  "chThdExitS msg k =
     (let tp = currp k; k = set_u msg tp k
      in kbind (exit_loop (length (queues k (WAITING tp))) tp k) (\<lambda>k.
         chSchGoSleepS CH_STATE_FINAL
           (if t_refs (threads k tp) = 0 \<and> t_flags (threads k tp) AND CH_FLAG_MODE_MASK = CH_FLAG_MODE_STATIC
            then reg_remove tp k else k)))"

definition chThdExit :: "msg_t \<Rightarrow> kernel \<Rightarrow> kernel kres" where
  "chThdExit msg k = kbind (chSysLock k) (chThdExitS msg)"

definition chThdWait_resume :: "ptr \<Rightarrow> kernel \<Rightarrow> (msg_t \<times> kernel) kres" where
  "chThdWait_resume tp k =
     (let msg = rdymsg_of k tp
      in kbind (chSysUnlock k) (\<lambda>k. kbind (chThdRelease tp k) (\<lambda>k. Ok (msg, k))))"

definition chThdWait :: "ptr \<Rightarrow> kernel \<Rightarrow> (msg_t wait \<times> kernel) kres" where
  "chThdWait tp k =
     kguard (tp \<noteq> NULL) ''chThdWait'' (
     kbind (chSysLock k) (\<lambda>k.
     kguard (tp \<noteq> currp k) ''chThdWait'' (
     kguard (t_refs (threads k tp) > 0) ''chThdWait'' (
     if state_of k tp \<noteq> CH_STATE_FINAL
     then kbind (chSchGoSleepS CH_STATE_WTEXIT (q_push (currp k) (WAITING tp) k)) (\<lambda>k. Ok (Asleep, k))
     else kbind (chThdWait_resume tp k) (\<lambda>(m, k). Ok (Returned m, k))))))"

definition chThdTerminate :: "ptr \<Rightarrow> kernel \<Rightarrow> kernel kres" where
  "chThdTerminate tp = locked (\<lambda>k. Ok (upd_th tp (t_flags_update (\<lambda>f. f OR CH_FLAG_TERMINATE)) k))"

definition chThdTerminatedX :: "ptr \<Rightarrow> kernel \<Rightarrow> bool" where
  "chThdTerminatedX tp k = (state_of k tp = CH_STATE_FINAL)"

definition chThdShouldTerminateX :: "kernel \<Rightarrow> bool" where
  "chThdShouldTerminateX k = (t_flags (threads k (currp k)) AND CH_FLAG_TERMINATE \<noteq> 0)"

section \<open>Priority, sleeping, yielding\<close>

definition set_priority_body :: "nat \<Rightarrow> kernel \<Rightarrow> kernel kres" where
  "set_priority_body newprio k =
     (let c = currp k;
          k = (if prio_of k c = t_realprio (threads k c) \<or> newprio > prio_of k c then set_prio newprio c k else k)
      in chSchRescheduleS (upd_th c (t_realprio_update (\<lambda>_. newprio)) k))"

definition chThdSetPriority :: "nat \<Rightarrow> kernel \<Rightarrow> (nat \<times> kernel) kres" where
  "chThdSetPriority newprio k =
     kguard (newprio \<le> HIGHPRIO) ''chThdSetPriority'' (
     kbind (locked (set_priority_body newprio) k) (\<lambda>k'. Ok (t_realprio (threads k (currp k)), k')))"

definition chThdSleepS :: "u32 \<Rightarrow> kernel \<Rightarrow> kernel kres" where
  "chThdSleepS ticks k =
     kguard (ticks \<noteq> TIME_IMMEDIATE) ''chThdSleepS'' (chSchGoSleepTimeoutS CH_STATE_SLEEPING ticks k)"

definition chThdSleepS_resume :: "u32 \<Rightarrow> kernel \<Rightarrow> kernel kres" where
  "chThdSleepS_resume ticks k = kbind (chSchGoSleepTimeoutS_resume ticks k) (\<lambda>(_, k). Ok k)"

definition chThdSleep :: "u32 \<Rightarrow> kernel \<Rightarrow> (unit wait \<times> kernel) kres" where
  "chThdSleep time = locked_wait (\<lambda>k. kbind (chThdSleepS time k) (\<lambda>k. Ok (Asleep, k)))"

definition chThdSleep_resume :: "u32 \<Rightarrow> kernel \<Rightarrow> kernel kres" where
  "chThdSleep_resume time k = kbind (chThdSleepS_resume time k) chSysUnlock"

definition chThdSleepUntil :: "u32 \<Rightarrow> kernel \<Rightarrow> (unit wait \<times> kernel) kres" where
  "chThdSleepUntil time =
     locked_wait (\<lambda>k.
       let (now, k) = chVTGetSystemTimeX k; interval = chTimeDiffX now time
       in if interval > 0 then kbind (chThdSleepS interval k) (\<lambda>k. Ok (Asleep, k)) else Ok (Returned (), k))"

definition chThdSleepUntilWindowed :: "u32 \<Rightarrow> u32 \<Rightarrow> kernel \<Rightarrow> (u32 wait \<times> kernel) kres" where
  "chThdSleepUntilWindowed prev nxt =
     locked_wait (\<lambda>k.
       let (time, k) = chVTGetSystemTimeX k
       in if chTimeIsInRangeX time prev nxt
          then kbind (chThdSleepS (chTimeDiffX time nxt) k) (\<lambda>k. Ok (Asleep, k))
          else Ok (Returned nxt, k))"

definition chThdSleepUntilWindowed_resume :: "u32 \<Rightarrow> u32 \<Rightarrow> kernel \<Rightarrow> (u32 \<times> kernel) kres" where
  "chThdSleepUntilWindowed_resume ticks nxt k =
     kbind (chThdSleepS_resume ticks k) (\<lambda>k. unlock_resume nxt k)"

definition chThdYield :: "kernel \<Rightarrow> kernel kres" where
  "chThdYield = locked chSchDoYieldS"

section \<open>References and queues\<close>

definition set_tref :: "ptr \<Rightarrow> ptr \<Rightarrow> kernel \<Rightarrow> kernel" where
  "set_tref trp tp k = k\<lparr>trefs := (trefs k)(trp := tp)\<rparr>"

definition chThdSuspendS :: "ptr \<Rightarrow> kernel \<Rightarrow> kernel kres" where
  "chThdSuspendS trp k =
     kguard (trefs k trp = NULL) ''chThdSuspendS'' (
     chSchGoSleepS CH_STATE_SUSPENDED (set_u trp (currp k) (set_tref trp (currp k) k)))"

definition chThdSuspendS_resume :: "kernel \<Rightarrow> (msg_t \<times> kernel) kres" where
  "chThdSuspendS_resume k = Ok (rdymsg_of k (currp k), k)"

definition chThdSuspendTimeoutS :: "ptr \<Rightarrow> u32 \<Rightarrow> kernel \<Rightarrow> (msg_t wait \<times> kernel) kres" where
  "chThdSuspendTimeoutS trp timeout k =
     kguard (trefs k trp = NULL) ''chThdSuspendTimeoutS'' (
     if TIME_IMMEDIATE = timeout then Ok (Returned MSG_TIMEOUT, k)
     else kbind (chSchGoSleepTimeoutS CH_STATE_SUSPENDED timeout (set_u trp (currp k) (set_tref trp (currp k) k)))
            (\<lambda>k. Ok (Asleep, k)))"

definition chThdResumeI :: "ptr \<Rightarrow> msg_t \<Rightarrow> kernel \<Rightarrow> kernel kres" where
  "chThdResumeI trp msg k =
     (if trefs k trp \<noteq> NULL
      then let tp = trefs k trp
           in kguard (state_of k tp = CH_STATE_SUSPENDED) ''chThdResumeI'' (
              chSchReadyI tp (set_u msg tp (set_tref trp NULL k)))
      else Ok k)"

definition chThdResumeS :: "ptr \<Rightarrow> msg_t \<Rightarrow> kernel \<Rightarrow> kernel kres" where
  "chThdResumeS trp msg k =
     (if trefs k trp \<noteq> NULL
      then let tp = trefs k trp
           in kguard (state_of k tp = CH_STATE_SUSPENDED) ''chThdResumeS'' (
              chSchWakeupS tp msg (set_tref trp NULL k))
      else Ok k)"

definition chThdResume :: "ptr \<Rightarrow> msg_t \<Rightarrow> kernel \<Rightarrow> kernel kres" where
  "chThdResume trp msg = locked (chThdResumeS trp msg)"

definition chThdEnqueueTimeoutS :: "qref \<Rightarrow> u32 \<Rightarrow> kernel \<Rightarrow> (msg_t wait \<times> kernel) kres" where
  "chThdEnqueueTimeoutS tqp timeout k =
     (if TIME_IMMEDIATE = timeout then Ok (Returned MSG_TIMEOUT, k)
      else kbind (chSchGoSleepTimeoutS CH_STATE_QUEUED timeout (q_insert (currp k) tqp k))
             (\<lambda>k. Ok (Asleep, k)))"

definition chThdDoDequeueNextI :: "qref \<Rightarrow> msg_t \<Rightarrow> kernel \<Rightarrow> kernel kres" where
  "chThdDoDequeueNextI tqp msg k =
     kguard (queues k tqp \<noteq> []) ''chThdDoDequeueNextI'' (
     kbind (q_first_out tqp k) (\<lambda>(tp, k).
     kguard (state_of k tp = CH_STATE_QUEUED) ''chThdDoDequeueNextI'' (
     chSchReadyI tp (set_u msg tp k))))"

definition chThdDequeueNextI :: "qref \<Rightarrow> msg_t \<Rightarrow> kernel \<Rightarrow> kernel kres" where
  "chThdDequeueNextI tqp msg k = (if queues k tqp \<noteq> [] then chThdDoDequeueNextI tqp msg k else Ok k)"

fun dequeue_all_loop :: "nat \<Rightarrow> qref \<Rightarrow> msg_t \<Rightarrow> kernel \<Rightarrow> kernel kres" where
  "dequeue_all_loop n tqp msg k =
     (if queues k tqp = [] then Ok k
      else case n of 0 \<Rightarrow> Diverge
      | Suc m \<Rightarrow> kbind (chThdDoDequeueNextI tqp msg k) (dequeue_all_loop m tqp msg))"

definition chThdDequeueAllI :: "qref \<Rightarrow> msg_t \<Rightarrow> kernel \<Rightarrow> kernel kres" where
  "chThdDequeueAllI tqp msg k = dequeue_all_loop (length (queues k tqp)) tqp msg k"

definition chThdQueueObjectInit :: "qref \<Rightarrow> kernel \<Rightarrow> kernel" where
  "chThdQueueObjectInit tqp k = upd_q tqp (\<lambda>_. []) k"

definition chThdQueueIsEmptyI :: "qref \<Rightarrow> kernel \<Rightarrow> bool kres" where
  "chThdQueueIsEmptyI tqp k = chDbgCheckClassI k (Ok (queues k tqp = []))"

definition chThdGetPriorityX :: "kernel \<Rightarrow> nat" where
  "chThdGetPriorityX k = prio_of k (currp k)"

declare exit_loop.simps [simp del] dequeue_all_loop.simps [simp del]

section \<open>Suspending and resuming\<close>

lemma suspended_limbo:
  assumes "sched_inv k" and "state_of k tp = CH_STATE_SUSPENDED"
  shows "limbo tp k"
proof -
  have "tp \<notin> set (queues k q)" for q
    using sched_invD(4) [OF assms(1), of tp] sched_invD(5) [OF assms(1), of q tp] assms(2) by (cases "q = RLIST") auto
  then show ?thesis using assms(2) by (simp add: limbo_def)
qed

lemma set_tref_frame [simp]:
  "threads (set_tref r t k) = threads k" "queues (set_tref r t k) = queues k" "currp (set_tref r t k) = currp k"
  "trefs (set_tref r t k) = (trefs k)(r := t)" "sched_inv (set_tref r t k) = sched_inv k"
  "sched_order (set_tref r t k) = sched_order k" "thd_ctx (set_tref r t k) = thd_ctx k"
  "i_ctx (set_tref r t k) = i_ctx k" "limbo x (set_tref r t k) = limbo x k"
  "isr_cnt (set_tref r t k) = isr_cnt k" "lock_cnt (set_tref r t k) = lock_cnt k"
  by (simp_all add: set_tref_def limbo_def)

lemma chThdResumeS_ok:
  assumes "sched_ok k" and "thd_ctx k" and "trefs k trp = NULL \<or> state_of k (trefs k trp) = CH_STATE_SUSPENDED"
  shows "chThdResumeS trp msg k =
      Ok (if trefs k trp = NULL then k else wake (trefs k trp) msg (set_tref trp NULL k))"
    and "sched_ok (if trefs k trp = NULL then k else wake (trefs k trp) msg (set_tref trp NULL k))"
proof -
  have inv: "sched_inv k" "sched_order k" using assms(1) by (simp_all add: sched_ok_def)
  let ?k = "set_tref trp NULL k"
  have "limbo (trefs k trp) ?k" if "trefs k trp \<noteq> NULL"
    using suspended_limbo [OF inv(1)] assms(3) that by simp
  then show "chThdResumeS trp msg k = Ok (if trefs k trp = NULL then k else wake (trefs k trp) msg ?k)"
    "sched_ok (if trefs k trp = NULL then k else wake (trefs k trp) msg ?k)"
    using chSchWakeupS_eq [of ?k "trefs k trp" msg] wake_inv [of ?k "trefs k trp" msg] inv assms
    by (auto simp: chThdResumeS_def sched_ok_def)
qed

interpretation thd_resume: s_service "chThdResumeS trp msg"
  "\<lambda>k. trefs k trp = NULL \<or> state_of k (trefs k trp) = CH_STATE_SUSPENDED" for trp msg
proof unfold_locales
  show "\<exists>k'. chThdResumeS trp msg k = Ok k' \<and> sched_ok k' \<and> thd_ctx k'"
    if "sched_ok k" "thd_ctx k" "trefs k trp = NULL \<or> state_of k (trefs k trp) = CH_STATE_SUSPENDED" for k
    using chThdResumeS_ok [OF that] that(2) by (simp add: thd_ctx_def)
qed simp

section \<open>Waking the threads of a queue\<close>

lemma chThdDoDequeueNextI_ok:
  fixes msg :: msg_t
  assumes inv: "sched_inv k" and "i_ctx k" and "q \<noteq> RLIST" and q: "queues k q = t # ts"
    and "state_of k t = CH_STATE_QUEUED"
  defines "k' \<equiv> ready_behind t (set_u msg t (upd_q q (\<lambda>_. ts) k))"
  shows "chThdDoDequeueNextI q msg k = Ok k'" and "sched_inv k'"
proof -
  note u = unqueue_first [OF inv assms(3) q]
  let ?k = "set_u msg t (upd_q q (\<lambda>_. ts) k)"
  have k: "sched_inv ?k" "limbo t ?k" "i_ctx ?k" using u assms(2) by simp_all
  show "chThdDoDequeueNextI q msg k = Ok k'"
    using q assms(5) chSchReadyI_ok [OF k] by (simp add: chThdDoDequeueNextI_def q_first_out_def k'_def)
  show "sched_inv k'" using k(1,2) by (simp add: k'_def sched_inv_ready)
qed

lemma dequeue_all_ok:
  assumes "sched_inv k" and "i_ctx k" and "q \<noteq> RLIST" and "length (queues k q) \<le> n"
    and "\<forall>t\<in>set (queues k q). state_of k t = CH_STATE_QUEUED"
  shows "\<exists>k'. dequeue_all_loop n q msg k = Ok k' \<and> sched_inv k' \<and> queues k' q = [] \<and>
    isr_cnt k' = isr_cnt k \<and> lock_cnt k' = lock_cnt k \<and> currp k' = currp k \<and> mboxes k' = mboxes k \<and>
    (\<forall>t\<in>set (queues k q). state_of k' t = CH_STATE_READY \<and> rdymsg_of k' t = msg) \<and>
    (\<forall>t. t \<notin> set (queues k q) \<longrightarrow> threads k' t = threads k t) \<and>
    (\<forall>p. p \<noteq> RLIST \<longrightarrow> p \<noteq> q \<longrightarrow> queues k' p = queues k p)"
  using assms
proof (induction n arbitrary: k)
  case 0
  then show ?case by (simp add: dequeue_all_loop.simps [of 0])
next
  case (Suc n)
  show ?case
  proof (cases "queues k q")
    case Nil
    then show ?thesis using Suc by (simp add: dequeue_all_loop.simps [of "Suc n"])
  next
    case (Cons t ts)
    let ?k2 = "ready_behind t (set_u msg t (upd_q q (\<lambda>_. ts) k))"
    have st: "state_of k t = CH_STATE_QUEUED" using Suc(6) Cons by simp
    note d = chThdDoDequeueNextI_ok [OF Suc(2-4) Cons st, of msg]
    have tt: "t \<notin> set ts" using sched_invD(2) [OF Suc(2), of q] Cons by simp
    have th: "threads ?k2 x = (if x = t then (threads k t)\<lparr>t_u := msg, t_state := CH_STATE_READY\<rparr> else threads k x)" for x
      by (simp add: ready_behind_def)
    have k2: "queues ?k2 q = ts" "i_ctx ?k2" using Suc(3,4) by simp_all
    have "length (queues ?k2 q) \<le> n" using Suc(5) Cons Suc(4) by simp
    moreover have "\<forall>t\<in>set (queues ?k2 q). state_of ?k2 t = CH_STATE_QUEUED"
      unfolding k2 using Suc(6) Cons tt by auto
    ultimately obtain k' where k': "dequeue_all_loop n q msg ?k2 = Ok k'" "sched_inv k'" "queues k' q = []"
      "isr_cnt k' = isr_cnt ?k2" "lock_cnt k' = lock_cnt ?k2" "currp k' = currp ?k2" "mboxes k' = mboxes ?k2"
      "\<forall>t\<in>set ts. state_of k' t = CH_STATE_READY \<and> rdymsg_of k' t = msg"
      "\<forall>x. x \<notin> set ts \<longrightarrow> threads k' x = threads ?k2 x"
      "\<forall>p. p \<noteq> RLIST \<longrightarrow> p \<noteq> q \<longrightarrow> queues k' p = queues ?k2 p"
      using Suc(1) [OF d(2) k2(2) Suc(4)] unfolding k2(1) by blast
    have "dequeue_all_loop (Suc n) q msg k = Ok k'"
      using Cons d(1) k'(1) by (simp add: dequeue_all_loop.simps [of "Suc n"])
    then show ?thesis using k' Cons tt th by (intro exI [of _ k']) auto
  qed
qed

section \<open>Termination of a thread\<close>

lemma exit_loop_ok:
  assumes "sched_inv k" and "i_ctx k" and "length (queues k (WAITING tp)) \<le> n"
  shows "\<exists>k'. exit_loop n tp k = Ok k' \<and> sched_inv k' \<and> queues k' (WAITING tp) = [] \<and> currp k' = currp k \<and>
    isr_cnt k' = isr_cnt k \<and> lock_cnt k' = lock_cnt k \<and> (queues k RLIST \<noteq> [] \<longrightarrow> queues k' RLIST \<noteq> []) \<and>
    (\<forall>t\<in>set (queues k (WAITING tp)). state_of k' t = CH_STATE_READY) \<and>
    (\<forall>t. rdymsg_of k' t = rdymsg_of k t) \<and>
    (\<forall>t. t \<notin> set (queues k (WAITING tp)) \<longrightarrow> threads k' t = threads k t)"
  using assms
proof (induction n arbitrary: k)
  case 0
  then show ?case by (simp add: exit_loop.simps [of 0])
next
  case (Suc n)
  show ?case
  proof (cases "queues k (WAITING tp)")
    case Nil
    then show ?thesis using Suc by (simp add: exit_loop.simps [of "Suc n"])
  next
    case (Cons t ts)
    note u = unqueue_first [OF Suc(2) _ Cons]
    let ?u = "upd_q (WAITING tp) (\<lambda>_. ts) k" let ?k2 = "ready_behind t ?u"
    have k2: "sched_inv ?k2" "i_ctx ?k2" "queues ?k2 (WAITING tp) = ts" "length ts \<le> n"
      using u Suc(3,4) Cons by (auto intro: sched_inv_ready)
    have tt: "t \<notin> set ts" using sched_invD(2) [OF Suc(2), of "WAITING tp"] Cons by simp
    have ok: "exit_loop (Suc n) tp k = exit_loop n tp ?k2"
      using Cons chSchReadyI_ok [of ?u t] u Suc(3) by (simp add: exit_loop.simps [of "Suc n"] q_first_out_def)
    have th: "threads ?k2 x = (if x = t then (threads k t)\<lparr>t_state := CH_STATE_READY\<rparr> else threads k x)" for x
      by (simp add: ready_behind_def)
    have rl: "queues ?k2 RLIST \<noteq> []" by (simp add: ready_queues)
    obtain k' where k': "exit_loop n tp ?k2 = Ok k'" "sched_inv k'" "queues k' (WAITING tp) = []" "currp k' = currp ?k2"
      "isr_cnt k' = isr_cnt ?k2" "lock_cnt k' = lock_cnt ?k2" "queues k' RLIST \<noteq> []"
      "\<forall>t\<in>set ts. state_of k' t = CH_STATE_READY" "\<forall>t. rdymsg_of k' t = rdymsg_of ?k2 t"
      "\<forall>x. x \<notin> set ts \<longrightarrow> threads k' x = threads ?k2 x"
      using Suc(1) [OF k2(1,2)] k2(3,4) rl by auto
    then show ?thesis using ok Cons tt th by (intro exI [of _ k']) auto
  qed
qed

lemma reg_remove_frame [simp]:
  "threads (reg_remove tp k) = threads k" "queues (reg_remove tp k) = queues k" "currp (reg_remove tp k) = currp k"
  "sched_inv (reg_remove tp k) = sched_inv k" "thd_ctx (reg_remove tp k) = thd_ctx k"
  by (simp_all add: reg_remove_def)

section \<open>Properties\<close>

text \<open>
  \<open>chThdResume\<close> on a reference that holds a suspended thread clears the reference and makes
  the thread runnable with the given message; on an empty reference it does nothing. It is a
  kernel service: no check fails and no ready thread outranks the running one.
\<close>

theorem chThdResume_delivers:
  assumes "sched_ok k" and "thread_idle_ctx k" and "trefs k trp = NULL \<or> state_of k (trefs k trp) = CH_STATE_SUSPENDED"
  shows "\<exists>k'. chThdResume trp msg k = Ok k' \<and> sched_ok k' \<and> thread_idle_ctx k' \<and> trefs k' trp = NULL \<and>
    (trefs k trp = NULL \<longrightarrow> threads k' = threads k \<and> queues k' = queues k) \<and>
    (trefs k trp \<noteq> NULL \<longrightarrow> rdymsg_of k' (trefs k trp) = msg \<and>
       state_of k' (trefs k trp) \<in> {CH_STATE_READY, CH_STATE_CURRENT})"
proof -
  let ?k = "k\<lparr>lock_cnt := 1\<rparr>" let ?t = "trefs k trp"
  let ?r = "if ?t = NULL then ?k else wake ?t msg (set_tref trp NULL ?k)"
  have k: "sched_ok ?k" "thd_ctx ?k" "trefs ?k trp = NULL \<or> state_of ?k (trefs ?k trp) = CH_STATE_SUSPENDED"
    using assms chSysLock_ok [OF assms(2)] by simp_all
  have r: "chThdResumeS trp msg ?k = Ok ?r" "sched_ok ?r" using chThdResumeS_ok [OF k, of msg] by (simp_all split: if_splits)
  have "thd_ctx ?r" using k(2) by (simp add: thd_ctx_def)
  note l = locked_Ok [where body = "chThdResumeS trp msg", OF assms(2) r this]
  have "?t \<noteq> NULL \<Longrightarrow> state_of ?r ?t \<in> {CH_STATE_READY, CH_STATE_CURRENT}"
    using wake_state(1) [of "set_tref trp NULL ?k" ?t msg] suspended_limbo [of k ?t] assms(1,3)
    by (auto simp: sched_ok_def limbo_def)
  then show ?thesis
    using l r(2) unfolding chThdResume_def
    by (intro exI [of _ "?r\<lparr>lock_cnt := 0\<rparr>"]) auto
qed

theorem chThdResume_delivers_witness:
  "\<exists>k'. chThdResume 64 MSG_OK (demo_kernel\<lparr>lock_cnt := 0\<rparr>) = Ok k' \<and> trefs k' 64 = NULL \<and> rdymsg_of k' 48 = MSG_OK"
proof -
  let ?k = "demo_kernel\<lparr>lock_cnt := 0\<rparr>"
  have "sched_ok ?k" "thread_idle_ctx ?k" "trefs ?k 64 = 48" "state_of ?k (trefs ?k 64) = CH_STATE_SUSPENDED"
    using demo_kernel_ok by (simp_all add: sched_ok_def thread_idle_ctx_def thd_ctx_def demo_kernel_def no_thread_def)
  then show ?thesis using chThdResume_delivers [of ?k 64 MSG_OK] by fastforce
qed

text \<open>
  C34: a thread that ends stores its exit code, makes every thread ready that waits for its
  termination, goes into the final state and gives the processor to the head of the ready
  list; the scheduler stays consistent and the thread is in no list any more.
\<close>

theorem chThdExitS_wakes_waiters:
  assumes "sched_ok k" and "thd_ctx k" and "queues k RLIST \<noteq> []"
  shows "\<exists>k'. chThdExitS msg k = Ok k' \<and> sched_ok k' \<and> thd_ctx k' \<and> state_of k' (currp k) = CH_STATE_FINAL \<and>
    rdymsg_of k' (currp k) = msg \<and> queues k' (WAITING (currp k)) = [] \<and>
    (\<forall>t\<in>set (queues k (WAITING (currp k))). state_of k' t \<in> {CH_STATE_READY, CH_STATE_CURRENT})"
proof -
  let ?c = "currp k" let ?u = "set_u msg ?c k"
  have inv: "sched_inv k" "sched_inv ?u" "i_ctx ?u" using assms by (simp_all add: sched_ok_def)
  obtain k1 where k1: "exit_loop (length (queues ?u (WAITING ?c))) ?c ?u = Ok k1" "sched_inv k1"
    "queues k1 (WAITING ?c) = []" "currp k1 = ?c" "isr_cnt k1 = isr_cnt k" "lock_cnt k1 = lock_cnt k"
    "queues k1 RLIST \<noteq> []" "\<forall>t\<in>set (queues k (WAITING ?c)). state_of k1 t = CH_STATE_READY"
    "\<forall>t. rdymsg_of k1 t = rdymsg_of ?u t"
    using exit_loop_ok [OF inv(2,3) order_refl, of ?c] assms(3) by auto
  define k2 where "k2 = (if t_refs (threads k1 ?c) = 0 \<and>
      t_flags (threads k1 ?c) AND CH_FLAG_MODE_MASK = CH_FLAG_MODE_STATIC then reg_remove ?c k1 else k1)"
  have k2: "sched_inv k2" "thd_ctx k2" "queues k2 = queues k1" "currp k2 = ?c" "threads k2 = threads k1"
    using k1(2,4) thd_ctx_cong [OF k1(5,6)] assms(2) by (auto simp: k2_def)
  have "enq_ok k2 k2 CH_STATE_FINAL" by (simp add: enq_ok_def)
  note s = sched_inv_go_sleep [OF k2(1) this] chSchGoSleepS_eq [OF k2(2), of CH_STATE_FINAL]
  have c: "?c \<noteq> hd (queues k2 RLIST)"
    using currp_not_queued [OF k2(1), of RLIST] hd_in_set [of "queues k2 RLIST"] k1(7) k2(3,4) by auto
  have "chThdExitS msg k = Ok (go_sleep CH_STATE_FINAL k2)"
    using k1(1,7) s(3) k2(3) by (simp add: chThdExitS_def Let_def flip: k2_def)
  moreover have "t \<noteq> ?c" if "state_of k1 t = CH_STATE_READY" for t
    using that sched_invD(6) [OF k1(2), of ?c] k1(4) by auto
  ultimately show ?thesis
    using s(1,2) k1 k2 c by (intro exI [of _ "go_sleep CH_STATE_FINAL k2"]) (auto simp: sched_ok_def)
qed

theorem chThdExitS_wakes_waiters_witness:
  "\<exists>k'. chThdExitS 7 (upd_q (WAITING 16) (\<lambda>_. [80]) (upd_th 80
      (\<lambda>_. no_thread\<lparr>t_prio := 50, t_state := CH_STATE_WTEXIT\<rparr>) demo_kernel)) = Ok k' \<and>
    state_of k' 16 = CH_STATE_FINAL \<and> rdymsg_of k' 16 = 7 \<and> state_of k' 80 \<in> {CH_STATE_READY, CH_STATE_CURRENT}"
proof -
  let ?k = "upd_q (WAITING 16) (\<lambda>_. [80]) (upd_th 80
      (\<lambda>_. no_thread\<lparr>t_prio := 50, t_state := CH_STATE_WTEXIT\<rparr>) demo_kernel)"
  have "sched_ok ?k" "thd_ctx ?k" "queues ?k RLIST \<noteq> []" "currp ?k = 16" "queues ?k (WAITING 16) = [80]"
    by (auto simp: demo_kernel_def kernel_reset_def no_thread_def sched_ok_def sched_inv_def sched_order_def
        thd_ctx_def split: if_splits)
  then show ?thesis using chThdExitS_wakes_waiters [of ?k 7] by fastforce
qed

text \<open>The running thread at 16 owns the mutex at 64, the thread at 48 waits for it.\<close>

definition demo_lower :: kernel where
  "demo_lower = kernel_reset\<lparr>
     threads := (\<lambda>_. no_thread)(16 := no_thread\<lparr>t_prio := 128, t_realprio := 128, t_state := CH_STATE_CURRENT, t_mtxlist := 64\<rparr>,
       32 := no_thread\<lparr>t_prio := 1, t_realprio := 1, t_state := CH_STATE_READY\<rparr>,
       48 := no_thread\<lparr>t_prio := 100, t_realprio := 100, t_state := CH_STATE_WTMTX, t_u := 64\<rparr>),
     queues := (\<lambda>_. [])(RLIST := [32], TQ 64 := [48]), currp := 16,
     mtxs := (\<lambda>_. \<lparr>m_owner = NULL, m_next = NULL\<rparr>)(64 := \<lparr>m_owner = 16, m_next = NULL\<rparr>)\<rparr>"

text \<open>
  \<open>chThdSetPriority\<close> can break priority inheritance. The running thread of priority 128 owns a
  mutex for which a thread of priority 100 waits; all invariants hold. Lowering its own
  priority to 50 succeeds, and the owner then runs at 50, below its waiter.
\<close>

theorem chThdSetPriority_breaks_inheritance:
  "sched_ok demo_lower \<and> thread_idle_ctx demo_lower \<and> mtx_inv {64} demo_lower \<and>
   ok_and (\<lambda>(old, k'). old = 128 \<and> currp k' = 16 \<and> \<not> inherits {64} k' \<and> prio_of k' 16 < prio_of k' 48)
     (chThdSetPriority 50 demo_lower)"
proof (intro conjI)
  show "sched_ok demo_lower" "thread_idle_ctx demo_lower"
    by (auto simp: demo_lower_def kernel_reset_def no_thread_def sched_ok_def sched_inv_def sched_order_def
        thread_idle_ctx_def split: if_splits)
  have "mtx_queues {64} demo_lower" "inherits {64} demo_lower"
    by (auto simp: demo_lower_def kernel_reset_def no_thread_def mtx_queues_def inherits_def mtx_owner_def)
  moreover have "owned {64} demo_lower"
    unfolding owned_def
  proof (intro allI impI)
    fix t :: ptr assume "t \<noteq> NULL"
    then show "\<exists>ms. mchain demo_lower (t_mtxlist (threads demo_lower t)) ms \<and> distinct ms \<and>
        set ms = {m \<in> {64}. mtx_owner demo_lower m = t}"
      by (intro exI [of _ "if t = 16 then [64] else []"])
        (auto simp: demo_lower_def kernel_reset_def no_thread_def mtx_owner_def mtx_next_def)
  qed
  ultimately show "mtx_inv {64} demo_lower" by (auto simp: mtx_inv_def demo_lower_def no_thread_def)
  show "ok_and (\<lambda>(old, k'). old = 128 \<and> currp k' = 16 \<and> \<not> inherits {64} k' \<and> prio_of k' 16 < prio_of k' 48)
     (chThdSetPriority 50 demo_lower)"
    by (simp add: chThdSetPriority_def HIGHPRIO_def locked_def sys_defs dbg_defs set_priority_body_def Let_def
        demo_lower_def kernel_reset_def no_thread_def chSchRescheduleS_def chDbgCheckClassS_def
        chSchIsRescRequiredI_def chDbgCheckClassI_def firstprio_def inherits_def mtx_owner_def)
qed

end
