(* ===== verification/Messages.thy ===== *)
theory Messages
  imports Threads
begin

text \<open>
  Synchronous messages (\<open>os/rt/src/chmsg.c\<close>, \<open>os/rt/include/chmsg.h\<close>), with FIFO queues.

  The sender waits in the message queue of the receiver (\<open>MSGQ tp\<close>, state \<open>CH_STATE_SNDMSGQ\<close>) with
  the message in its union \<open>u\<close>; the receiver takes it out of the queue (state \<open>CH_STATE_SNDMSG\<close>),
  reads the message and releases it with a reply.
\<close>

section \<open>Operations\<close>

definition chMsgIsPendingI :: "ptr \<Rightarrow> kernel \<Rightarrow> bool kres" where
  "chMsgIsPendingI tp k = chDbgCheckClassI k (Ok (queues k (MSGQ tp) \<noteq> []))"

text \<open>The sender stores its message and enters the queue of the receiver.\<close>

definition msg_enter :: "ptr \<Rightarrow> msg_t \<Rightarrow> kernel \<Rightarrow> kernel" where
  "msg_enter tp msg k = q_insert (currp k) (MSGQ tp) (set_u msg (currp k) k)"

definition chMsgSend :: "ptr \<Rightarrow> msg_t \<Rightarrow> kernel \<Rightarrow> (msg_t wait \<times> kernel) kres" where
  "chMsgSend tp msg k =
     kguard (tp \<noteq> NULL) ''chMsgSend'' (
     locked_wait (\<lambda>k.
       let k = msg_enter tp msg k
       in kbind (if state_of k tp = CH_STATE_WTMSG then chSchReadyI tp k else Ok k) (\<lambda>k.
          kbind (chSchGoSleepS CH_STATE_SNDMSGQ k) (\<lambda>k. Ok (Asleep, k)))) k)"

definition chMsgSend_resume :: "kernel \<Rightarrow> (msg_t \<times> kernel) kres" where
  "chMsgSend_resume k = unlock_resume (rdymsg_of k (currp k)) k"

definition msg_take :: "kernel \<Rightarrow> (ptr \<times> kernel) kres" where
  "msg_take k =
     kbind (q_first_out (MSGQ (currp k)) k) (\<lambda>(tp, k). Ok (tp, set_state CH_STATE_SNDMSG tp k))"

definition chMsgWaitS :: "kernel \<Rightarrow> (ptr wait \<times> kernel) kres" where
  "chMsgWaitS k =
     chDbgCheckClassS k (
     kbind (chMsgIsPendingI (currp k) k) (\<lambda>pending.
     if \<not> pending then kbind (chSchGoSleepS CH_STATE_WTMSG k) (\<lambda>k. Ok (Asleep, k))
     else kbind (msg_take k) (\<lambda>(tp, k). Ok (Returned tp, k))))"

definition chMsgWaitS_resume :: "kernel \<Rightarrow> (ptr \<times> kernel) kres" where
  "chMsgWaitS_resume k = msg_take k"

definition chMsgWaitTimeoutS :: "u32 \<Rightarrow> kernel \<Rightarrow> (ptr wait \<times> kernel) kres" where
  "chMsgWaitTimeoutS timeout k =
     chDbgCheckClassS k (
     kbind (chMsgIsPendingI (currp k) k) (\<lambda>pending.
     if \<not> pending then kbind (chSchGoSleepTimeoutS CH_STATE_WTMSG timeout k) (\<lambda>k. Ok (Asleep, k))
     else kbind (msg_take k) (\<lambda>(tp, k). Ok (Returned tp, k))))"

definition chMsgWaitTimeoutS_resume :: "u32 \<Rightarrow> kernel \<Rightarrow> (ptr \<times> kernel) kres" where
  "chMsgWaitTimeoutS_resume timeout k =
     kbind (chSchGoSleepTimeoutS_resume timeout k) (\<lambda>(msg, k).
     if msg \<noteq> MSG_OK then Ok (NULL, k) else msg_take k)"

definition chMsgPollS :: "kernel \<Rightarrow> (ptr \<times> kernel) kres" where
  "chMsgPollS k =
     kbind (chMsgIsPendingI (currp k) k) (\<lambda>pending. if pending then msg_take k else Ok (NULL, k))"

definition chMsgGet :: "ptr \<Rightarrow> kernel \<Rightarrow> msg_t kres" where
  "chMsgGet tp k = kguard (state_of k tp = CH_STATE_SNDMSG) ''chMsgGet'' (Ok (rdymsg_of k tp))"

definition chMsgReleaseS :: "ptr \<Rightarrow> msg_t \<Rightarrow> kernel \<Rightarrow> kernel kres" where
  "chMsgReleaseS tp msg k = chDbgCheckClassS k (chSchWakeupS tp msg k)"

definition chMsgRelease :: "ptr \<Rightarrow> msg_t \<Rightarrow> kernel \<Rightarrow> kernel kres" where
  "chMsgRelease tp msg =
     locked (\<lambda>k. kguard (state_of k tp = CH_STATE_SNDMSG) ''chMsgRelease'' (chMsgReleaseS tp msg k))"

definition chMsgWait :: "kernel \<Rightarrow> (ptr wait \<times> kernel) kres" where
  "chMsgWait = locked_wait chMsgWaitS"

definition chMsgWait_resume :: "kernel \<Rightarrow> (ptr \<times> kernel) kres" where
  "chMsgWait_resume k = kbind (chMsgWaitS_resume k) (\<lambda>(tp, k). unlock_resume tp k)"

definition chMsgWaitTimeout :: "u32 \<Rightarrow> kernel \<Rightarrow> (ptr wait \<times> kernel) kres" where
  "chMsgWaitTimeout timeout = locked_wait (chMsgWaitTimeoutS timeout)"

definition chMsgWaitTimeout_resume :: "u32 \<Rightarrow> kernel \<Rightarrow> (ptr \<times> kernel) kres" where
  "chMsgWaitTimeout_resume timeout k = kbind (chMsgWaitTimeoutS_resume timeout k) (\<lambda>(tp, k). unlock_resume tp k)"

definition chMsgPoll :: "kernel \<Rightarrow> (ptr \<times> kernel) kres" where
  "chMsgPoll k = kbind (chSysLock k) (\<lambda>k. kbind (chMsgPollS k) (\<lambda>(tp, k). unlock_resume tp k))"

section \<open>Sending\<close>

lemma msg_enter_frame [simp]:
  "currp (msg_enter tp msg k) = currp k" "state_of (msg_enter tp msg k) t = state_of k t"
  "prio_of (msg_enter tp msg k) t = prio_of k t"
  "queues (msg_enter tp msg k) = (queues k)(MSGQ tp := queues k (MSGQ tp) @ [currp k])"
  "rdymsg_of (msg_enter tp msg k) t = (if t = currp k then msg else rdymsg_of k t)"
  "thd_ctx (msg_enter tp msg k) = thd_ctx k" "i_ctx (msg_enter tp msg k) = i_ctx k"
  by (simp_all add: msg_enter_def)

lemma msg_enter_enq:
  assumes "sched_inv k"
  shows "enq_ok k (msg_enter tp msg k) CH_STATE_SNDMSGQ"
    and "enq_ok (ready_behind t k) (ready_behind t (msg_enter tp msg k)) CH_STATE_SNDMSGQ"
proof -
  have d: "distinct (queues k (MSGQ tp) @ [currp k])"
    "set (queues k (MSGQ tp) @ [currp k]) = insert (currp k) (set (queues k (MSGQ tp)))"
    using sched_invD(2) [OF assms, of "MSGQ tp"] currp_not_queued [OF assms, of "MSGQ tp"] by auto
  show "enq_ok k (msg_enter tp msg k) CH_STATE_SNDMSGQ"
    unfolding enq_ok_def using d by (intro conjI disjI2 exI [of _ "MSGQ tp"] exI [of _ "queues k (MSGQ tp) @ [currp k]"]) simp_all
  show "enq_ok (ready_behind t k) (ready_behind t (msg_enter tp msg k)) CH_STATE_SNDMSGQ"
    unfolding enq_ok_def using d
    by (intro conjI disjI2 exI [of _ "MSGQ tp"] exI [of _ "queues k (MSGQ tp) @ [currp k]"])
      (auto simp: ready_queues fun_upd_twist)
qed

lemma waiting_limbo:
  assumes "sched_inv k" and "state_of k tp = CH_STATE_WTMSG"
  shows "limbo tp k"
proof -
  have "tp \<notin> set (queues k q)" for q
    using assms sched_invD(4) [OF assms(1), of tp] sched_invD(5) [OF assms(1), of q tp] by (cases "q = RLIST") auto
  then show ?thesis using assms(2) by (simp add: limbo_def)
qed

text \<open>The body of \<open>chMsgSend\<close>: the sender ends asleep, whether or not the receiver was waiting.\<close>

definition msg_ready :: "ptr \<Rightarrow> kernel \<Rightarrow> kernel" where
  "msg_ready tp k = (if state_of k tp = CH_STATE_WTMSG then ready_behind tp k else k)"

lemma msg_ready_inv:
  assumes "sched_inv k"
  shows "sched_inv (msg_ready tp k)"
    and "enq_ok (msg_ready tp k) (msg_ready tp (msg_enter tp msg k)) CH_STATE_SNDMSGQ"
  using assms waiting_limbo [OF assms, of tp] msg_enter_enq [OF assms] by (auto simp: msg_ready_def)

lemma msg_ready_frame [simp]:
  "currp (msg_ready tp k) = currp k" "thd_ctx (msg_ready tp k) = thd_ctx k"
  "queues (msg_ready tp k) (MSGQ q) = queues k (MSGQ q)" "t_u (threads (msg_ready tp k) t) = t_u (threads k t)"
  "queues (msg_ready tp (msg_enter q m k)) RLIST = queues (msg_ready tp k) RLIST"
  by (auto simp: msg_ready_def ready_queues)

lemma chMsgSend_eq:
  assumes "sched_inv k" and "thread_idle_ctx k" and "tp \<noteq> NULL" and "queues (msg_ready tp k) RLIST \<noteq> []"
  shows "chMsgSend tp msg k =
    Ok (Asleep, go_sleep CH_STATE_SNDMSGQ (msg_ready tp (msg_enter tp msg (k\<lparr>lock_cnt := 1\<rparr>))))"
proof -
  let ?l = "k\<lparr>lock_cnt := 1\<rparr>" let ?e = "msg_enter tp msg ?l"
  have l: "sched_inv ?l" "thd_ctx ?l" using assms(1) chSysLock_ok [OF assms(2)] by simp_all
  have "(if state_of ?e tp = CH_STATE_WTMSG then chSchReadyI tp ?e else Ok ?e) = Ok (msg_ready tp ?e)"
    using l limboD(3) [OF waiting_limbo [OF l(1)] l(1), of tp] assms(3)
    by (auto simp: msg_ready_def intro!: chSchReadyI_eq)
  moreover have "queues (msg_ready tp ?e) RLIST \<noteq> []"
    using assms(4) unfolding msg_ready_frame by (auto simp: msg_ready_def ready_queues)
  then have "chSchGoSleepS CH_STATE_SNDMSGQ (msg_ready tp ?e) = Ok (go_sleep CH_STATE_SNDMSGQ (msg_ready tp ?e))"
    using l(2) by (intro chSchGoSleepS_eq) simp_all
  ultimately show ?thesis
    using assms(3) chSysLock_ok [OF assms(2)]
    by (simp add: chMsgSend_def locked_wait_def Let_def del: kbind_Ok msg_enter_frame)
qed

lemma chMsgSend_ok:
  fixes msg :: msg_t
  assumes "sched_ok k" and "thread_idle_ctx k" and "tp \<noteq> NULL" and "state_of k tp = CH_STATE_WTMSG"
  defines "k' \<equiv> go_sleep CH_STATE_SNDMSGQ (msg_ready tp (msg_enter tp msg (k\<lparr>lock_cnt := 1\<rparr>)))"
  shows "chMsgSend tp msg k = Ok (Asleep, k')" and "sched_ok k'" and "thd_ctx k'"
    and "queues k' (MSGQ tp) = queues k (MSGQ tp) @ [currp k]" and "rdymsg_of k' (currp k) = msg"
    and "state_of k' (currp k) = CH_STATE_SNDMSGQ" and "state_of k' tp \<in> {CH_STATE_READY, CH_STATE_CURRENT}"
proof -
  let ?l = "k\<lparr>lock_cnt := 1\<rparr>" let ?r = "msg_ready tp ?l" let ?e = "msg_ready tp (msg_enter tp msg ?l)"
  have l: "sched_inv ?l" "thd_ctx ?l" using assms(1) chSysLock_ok [OF assms(2)] by (simp_all add: sched_ok_def)
  note r = msg_ready_inv [OF l(1), of tp]
  have ne: "queues ?r RLIST \<noteq> []" "queues (msg_ready tp k) RLIST \<noteq> []"
    using assms(4) by (simp_all add: msg_ready_def ready_queues)
  have hd: "hd (queues ?e RLIST) \<noteq> currp k"
    using currp_not_queued [OF r(1), of RLIST] hd_in_set [OF ne(1)] by auto
  have c: "tp \<noteq> currp k" using assms(1,4) sched_invD(6) [of k tp] by (auto simp: sched_ok_def)
  have st: "state_of ?e tp = CH_STATE_READY" using assms(4) by (simp add: msg_ready_def)
  show "sched_ok k'" unfolding k'_def using sched_inv_go_sleep [OF r(1) r(2) ne(1)] by (simp add: sched_ok_def)
  show "chMsgSend tp msg k = Ok (Asleep, k')"
    unfolding k'_def using assms(1) by (intro chMsgSend_eq [OF _ assms(2,3) ne(2)]) (simp add: sched_ok_def)
  show "thd_ctx k'" "queues k' (MSGQ tp) = queues k (MSGQ tp) @ [currp k]" "rdymsg_of k' (currp k) = msg"
    "state_of k' (currp k) = CH_STATE_SNDMSGQ" "state_of k' tp \<in> {CH_STATE_READY, CH_STATE_CURRENT}"
    using l(2) hd c st by (simp_all add: k'_def)
qed

section \<open>Receiving\<close>

lemma msg_take_eq:
  "queues k (MSGQ (currp k)) = tp # tps \<Longrightarrow>
   msg_take k = Ok (tp, set_state CH_STATE_SNDMSG tp (upd_q (MSGQ (currp k)) (\<lambda>_. tps) k))"
  by (simp add: msg_take_def q_first_out_def)

lemma msg_take_ok:
  assumes inv: "sched_ok k" and q: "queues k (MSGQ (currp k)) = tp # tps"
  defines "k' \<equiv> set_state CH_STATE_SNDMSG tp (upd_q (MSGQ (currp k)) (\<lambda>_. tps) k)"
  shows "sched_ok k'" and "limbo tp k'" and "chMsgGet tp k' = Ok (rdymsg_of k tp)"
proof -
  let ?k = "upd_q (MSGQ (currp k)) (\<lambda>_. tps) k"
  have s: "sched_inv k" "sched_order k" using inv by (simp_all add: sched_ok_def)
  note u = unqueue_first [OF s(1) _ q]
  have l: "sched_inv ?k" "limbo tp ?k" using u by simp_all
  have n: "tp \<noteq> currp k" using limboD(2) [OF l(2,1)] by simp
  have k': "queues k' = queues ?k" "currp k' = currp k" "\<And>t. prio_of k' t = prio_of k t"
    "\<And>t. state_of k' t = (if t = tp then CH_STATE_SNDMSG else state_of k t)"
    by (simp_all add: k'_def)
  show "limbo tp k'" using limboD(4) [OF l(2,1)] k' by (simp add: limbo_def)
  have "sched_inv k'"
  proof (rule sched_invI)
    show "sorted_wrt (\<lambda>a b. prio_of k' a \<ge> prio_of k' b) (queues k' RLIST)" using sched_invD(1) [OF l(1)] k' by simp
    show "distinct (queues k' p)" for p using sched_invD(2) [OF l(1)] k' by simp
    show "p = p'" if "t \<in> set (queues k' p)" "t \<in> set (queues k' p')" for p p' t
      by (rule sched_invD(3) [OF l(1), of t]) (use that k'(1) in simp_all)
    show "t \<in> set (queues k' RLIST) \<longleftrightarrow> state_of k' t = CH_STATE_READY" for t
      using sched_invD(4) [OF l(1), of t] limboD(4) [OF l(2,1), of RLIST] k' by (cases "t = tp") simp_all
    show "queued_state (state_of k' t)" if "p \<noteq> RLIST" "t \<in> set (queues k' p)" for p t
      using that sched_invD(5) [OF l(1), of p t] limboD(4) [OF l(2,1), of p] k' by (cases "t = tp") simp_all
    show "state_of k' t = CH_STATE_CURRENT \<longleftrightarrow> t = currp k'" for t
      using sched_invD(6) [OF s(1), of t] n k' by auto
    show "prio_of k' t > 0" if "state_of k' t \<noteq> CH_STATE_FINAL" for t
      using that sched_invD(7) [OF s(1), of t] limboD(3) [OF l(2,1)] k' by (cases "t = tp") simp_all
    show "state_of k' NULL = CH_STATE_FINAL" using sched_invD(8) [OF s(1)] limboD(1) [OF l(2,1)] k' by simp
  qed
  moreover have "sched_order k'" using s(2) k' by (simp add: sched_order_def)
  ultimately show "sched_ok k'" by (simp add: sched_ok_def)
  show "chMsgGet tp k' = Ok (rdymsg_of k tp)" by (simp add: chMsgGet_def k'_def)
qed

section \<open>Properties\<close>

text \<open>
  \<open>chMsgSend\<close> to a thread that waits for a message: the sender goes to sleep at the end of the
  message queue of the receiver with the message stored, the receiver becomes runnable, no check
  fails and no ready thread outranks the running one.
\<close>

theorem chMsgSend_delivers:
  assumes "sched_ok k" and "thread_idle_ctx k" and "tp \<noteq> NULL" and "state_of k tp = CH_STATE_WTMSG"
  shows "\<exists>k'. chMsgSend tp msg k = Ok (Asleep, k') \<and> sched_ok k' \<and> thd_ctx k' \<and>
    queues k' (MSGQ tp) = queues k (MSGQ tp) @ [currp k] \<and> rdymsg_of k' (currp k) = msg \<and>
    state_of k' (currp k) = CH_STATE_SNDMSGQ \<and> state_of k' tp \<in> {CH_STATE_READY, CH_STATE_CURRENT}"
  using chMsgSend_ok [OF assms] by blast

text \<open>The thread at 48 waits for a message, the one at 80 has sent 7 to the running thread.\<close>

definition demo_msg :: kernel where
  "demo_msg = demo_kernel\<lparr>
     threads := (threads demo_kernel)(48 := no_thread\<lparr>t_prio := 200, t_state := CH_STATE_WTMSG, t_u := 0\<rparr>,
       80 := no_thread\<lparr>t_prio := 100, t_state := CH_STATE_SNDMSGQ, t_u := 7\<rparr>),
     queues := (\<lambda>_. [])(RLIST := [32], MSGQ 16 := [80]), trefs := (\<lambda>_. NULL)\<rparr>"

lemma demo_msg_ok: "sched_ok demo_msg" "thd_ctx demo_msg"
  by (auto simp: demo_msg_def demo_kernel_def kernel_reset_def no_thread_def sched_ok_def sched_inv_def
      sched_order_def thd_ctx_def split: if_splits)

theorem chMsgSend_delivers_witness:
  "\<exists>k'. chMsgSend 48 5 (demo_msg\<lparr>lock_cnt := 0\<rparr>) = Ok (Asleep, k') \<and> queues k' (MSGQ 48) = [16] \<and>
    rdymsg_of k' 16 = 5 \<and> state_of k' 16 = CH_STATE_SNDMSGQ"
proof -
  let ?k = "demo_msg\<lparr>lock_cnt := 0\<rparr>"
  have "sched_ok ?k" "thread_idle_ctx ?k" using demo_msg_ok by (simp_all add: thread_idle_ctx_def thd_ctx_def)
  moreover have "state_of ?k 48 = CH_STATE_WTMSG" "currp ?k = 16" "queues ?k (MSGQ 48) = []"
    by (simp_all add: demo_msg_def demo_kernel_def no_thread_def)
  ultimately show ?thesis using chMsgSend_delivers [of ?k 48 5] by auto
qed

text \<open>
  \<open>chMsgWaitS\<close> with messages pending returns the sender that has waited longest, taken out of
  the queue; \<open>chMsgGet\<close> then reads the message that thread has sent, and \<open>chMsgReleaseS\<close> makes it
  runnable again with the reply.
\<close>

theorem chMsgWaitS_takes:
  assumes "sched_ok k" and "thd_ctx k" and "queues k (MSGQ (currp k)) = tp # tps"
  shows "\<exists>k1. chMsgWaitS k = Ok (Returned tp, k1) \<and> sched_ok k1 \<and> thd_ctx k1 \<and>
    queues k1 (MSGQ (currp k)) = tps \<and> chMsgGet tp k1 = Ok (rdymsg_of k tp) \<and>
    (\<exists>k2. chMsgReleaseS tp reply k1 = Ok k2 \<and> sched_ok k2 \<and> rdymsg_of k2 tp = reply \<and>
       state_of k2 tp \<in> {CH_STATE_READY, CH_STATE_CURRENT})"
proof -
  let ?k = "set_state CH_STATE_SNDMSG tp (upd_q (MSGQ (currp k)) (\<lambda>_. tps) k)"
  note t = msg_take_ok [OF assms(1,3)]
  have k: "sched_inv ?k" "sched_order ?k" "thd_ctx ?k" using t(1) assms(2) by (simp_all add: sched_ok_def)
  have "chMsgWaitS k = Ok (Returned tp, ?k)"
    using assms msg_take_eq [OF assms(3)] by (simp add: chMsgWaitS_def chMsgIsPendingI_def del: kbind_Ok)
  moreover have "chMsgReleaseS tp reply ?k = Ok (wake tp reply ?k)"
    unfolding chMsgReleaseS_def chDbgCheckClassS_thd [OF k(3)] by (rule chSchWakeupS_eq [OF k(1) t(2) k(2,3)])
  moreover have "sched_ok (wake tp reply ?k)" "rdymsg_of (wake tp reply ?k) tp = reply"
    using wake_inv [OF k(1) t(2) k(2)] unfolding sched_ok_def by (blast, simp)
  moreover have "queues ?k (MSGQ (currp k)) = tps" by simp
  ultimately show ?thesis
    using t(1,3) k(3) wake_state(1) [OF k(1) t(2), of reply] by blast
qed

theorem chMsgWaitS_takes_witness:
  "\<exists>k1. chMsgWaitS demo_msg = Ok (Returned 80, k1) \<and> chMsgGet 80 k1 = Ok 7 \<and>
    (\<exists>k2. chMsgReleaseS 80 9 k1 = Ok k2 \<and> rdymsg_of k2 80 = 9)"
proof -
  have "queues demo_msg (MSGQ (currp demo_msg)) = [80]" "rdymsg_of demo_msg 80 = 7"
    by (simp_all add: demo_msg_def demo_kernel_def)
  then show ?thesis using chMsgWaitS_takes [OF demo_msg_ok, of 80 "[]" 9] by auto
qed

text \<open>A thread whose last wait timed out, and a ready thread of lower priority.\<close>

definition demo_stale :: kernel where
  "demo_stale = kernel_reset\<lparr>
     threads := (\<lambda>_. no_thread)(16 := no_thread\<lparr>t_prio := 128, t_state := CH_STATE_CURRENT, t_u := MSG_TIMEOUT\<rparr>,
       32 := no_thread\<lparr>t_prio := 64, t_state := CH_STATE_READY\<rparr>),
     queues := (\<lambda>_. [])(RLIST := [32]), currp := 16, lock_cnt := 1\<rparr>"

text \<open>
  \<open>chMsgWaitTimeoutS\<close> can return \<open>NULL\<close> although a message has arrived. A thread whose last
  wait ended with a timeout waits for a message without a time limit; another thread sends to it
  and wakes it up with \<open>chSchReadyI\<close>, which does not write the wakeup message; the receiver reads
  the stale \<open>MSG_TIMEOUT\<close>, returns \<open>NULL\<close>, and the sender stays in its queue.
\<close>

theorem chMsgWaitTimeoutS_stale:
  "ok_and (\<lambda>(r1, k1). r1 = Asleep \<and> currp k1 = 32 \<and>
     ok_and (\<lambda>(r2, k2). r2 = Asleep \<and> currp k2 = 16 \<and>
       ok_and (\<lambda>(tp, k3). tp = NULL \<and> queues k3 (MSGQ 16) = [32] \<and> rdymsg_of k3 32 = 5)
         (chMsgWaitTimeoutS_resume TIME_INFINITE k2))
       (chMsgSend 16 5 (k1\<lparr>lock_cnt := 0\<rparr>)))
     (chMsgWaitTimeoutS TIME_INFINITE demo_stale)"
  by (simp add: chMsgWaitTimeoutS_def chMsgWaitTimeoutS_resume_def chMsgSend_def chMsgIsPendingI_def demo_stale_def
      kernel_reset_def no_thread_def chDbgCheckClassS_def chDbgCheckClassI_def chSchGoSleepTimeoutS_def
      chSchGoSleepTimeoutS_resume_def chSchGoSleepS_def q_first_out_def make_current_def upd_th_def upd_q_def
      locked_wait_def sys_defs dbg_defs msg_enter_def chSchReadyI_def NOPRIO_def)

end
