(* ===== verification/CondVars.thy ===== *)
theory CondVars
  imports Mutexes
begin

text \<open>
  Condition variables (\<open>os/rt/src/chcond.c\<close>), with timeouts.

  A condition variable is the priority queue \<open>TQ cp\<close>. A wait releases the mutex the caller locked
  last and sleeps; when the thread is woken up it takes the mutex again, which may put it to sleep
  a second time. So a wait has three parts: \<open>chCondWaitS\<close> up to the first sleep,
  \<open>chCondWaitS_resume\<close> up to the second one, and \<open>chCondWaitS_relocked\<close>. The local variables \<open>mp\<close> and
  \<open>msg\<close> that live across the sleeps are arguments of the later parts.
\<close>

section \<open>Operations\<close>

definition chCondObjectInit :: "ptr \<Rightarrow> kernel \<Rightarrow> kernel kres" where
  "chCondObjectInit cp k = kguard (cp \<noteq> NULL) ''chCondObjectInit'' (Ok (upd_q (TQ cp) (\<lambda>_. []) k))"

definition cond_signal_body :: "ptr \<Rightarrow> kernel \<Rightarrow> kernel kres" where
  "cond_signal_body cp k =
     (if queues k (TQ cp) \<noteq> []
      then kbind (q_first_out (TQ cp) k) (\<lambda>(tp, k). chSchWakeupS tp MSG_OK k)
      else Ok k)"

definition chCondSignal :: "ptr \<Rightarrow> kernel \<Rightarrow> kernel kres" where
  "chCondSignal cp k = kguard (cp \<noteq> NULL) ''chCondSignal'' (locked (cond_signal_body cp) k)"

definition chCondSignalI :: "ptr \<Rightarrow> kernel \<Rightarrow> kernel kres" where
  "chCondSignalI cp k =
     chDbgCheckClassI k (
     kguard (cp \<noteq> NULL) ''chCondSignalI'' (
     if queues k (TQ cp) \<noteq> []
     then kbind (q_first_out (TQ cp) k) (\<lambda>(tp, k). chSchReadyI tp (set_u MSG_OK tp k))
     else Ok k))"

fun cond_broadcast_loop :: "nat \<Rightarrow> ptr \<Rightarrow> kernel \<Rightarrow> kernel kres" where
  "cond_broadcast_loop n cp k =
     (if queues k (TQ cp) = [] then Ok k
      else case n of 0 \<Rightarrow> Diverge
      | Suc m \<Rightarrow>
          kbind (q_first_out (TQ cp) k) (\<lambda>(tp, k).
          kbind (chSchReadyI tp k) (\<lambda>k. cond_broadcast_loop m cp (set_u MSG_RESET tp k))))"

definition chCondBroadcastI :: "ptr \<Rightarrow> kernel \<Rightarrow> kernel kres" where
  "chCondBroadcastI cp k =
     chDbgCheckClassI k (
     kguard (cp \<noteq> NULL) ''chCondBroadcastI'' (cond_broadcast_loop (length (queues k (TQ cp))) cp k))"

definition chCondBroadcast :: "ptr \<Rightarrow> kernel \<Rightarrow> kernel kres" where
  "chCondBroadcast cp = locked (\<lambda>k. kbind (chCondBroadcastI cp k) chSchRescheduleS)"

definition chCondWaitS :: "ptr \<Rightarrow> kernel \<Rightarrow> (msg_t wait \<times> kernel) kres" where
  "chCondWaitS cp k =
     (let ctp = currp k; mp = chMtxGetNextMutexX k
      in chDbgCheckClassS k (
         kguard (cp \<noteq> NULL) ''chCondWaitS'' (
         kguard (mp \<noteq> NULL) ''chCondWaitS'' (
         kbind (chMtxUnlockS mp k) (\<lambda>k.
         kbind (chSchGoSleepS CH_STATE_WTCOND (q_prio_insert ctp (TQ cp) (set_u cp ctp k))) (\<lambda>k.
         Ok (Asleep, k)))))))"

definition relock :: "ptr \<Rightarrow> msg_t \<Rightarrow> kernel \<Rightarrow> (msg_t wait \<times> kernel) kres" where
  "relock mp msg k =
     kbind (chMtxLockS mp k) (\<lambda>(r, k). case r of Returned _ \<Rightarrow> Ok (Returned msg, k) | Asleep \<Rightarrow> Ok (Asleep, k))"

definition chCondWaitS_resume :: "ptr \<Rightarrow> kernel \<Rightarrow> (msg_t wait \<times> kernel) kres" where
  "chCondWaitS_resume mp k = relock mp (rdymsg_of k (currp k)) k"

definition chCondWaitS_relocked :: "ptr \<Rightarrow> msg_t \<Rightarrow> kernel \<Rightarrow> (msg_t \<times> kernel) kres" where
  "chCondWaitS_relocked mp msg k = kbind (chMtxLockS_resume mp k) (\<lambda>(_, k). Ok (msg, k))"

definition chCondWait :: "ptr \<Rightarrow> kernel \<Rightarrow> (msg_t wait \<times> kernel) kres" where
  "chCondWait cp = locked_wait (chCondWaitS cp)"

definition unlock_if_returned :: "(msg_t wait \<times> kernel) kres \<Rightarrow> (msg_t wait \<times> kernel) kres" where
  "unlock_if_returned r =
     kbind r (\<lambda>(w, k). case w of Asleep \<Rightarrow> Ok (Asleep, k)
       | Returned m \<Rightarrow> kbind (chSysUnlock k) (\<lambda>k. Ok (Returned m, k)))"

definition chCondWait_resume :: "ptr \<Rightarrow> kernel \<Rightarrow> (msg_t wait \<times> kernel) kres" where
  "chCondWait_resume mp k = unlock_if_returned (chCondWaitS_resume mp k)"

definition chCondWait_relocked :: "ptr \<Rightarrow> msg_t \<Rightarrow> kernel \<Rightarrow> (msg_t \<times> kernel) kres" where
  "chCondWait_relocked mp msg k = kbind (chCondWaitS_relocked mp msg k) (\<lambda>(m, k). unlock_resume m k)"

definition chCondWaitTimeoutS :: "ptr \<Rightarrow> u32 \<Rightarrow> kernel \<Rightarrow> (msg_t wait \<times> kernel) kres" where
  "chCondWaitTimeoutS cp timeout k =
     (let mp = chMtxGetNextMutexX k
      in chDbgCheckClassS k (
         kguard (cp \<noteq> NULL \<and> timeout \<noteq> TIME_IMMEDIATE) ''chCondWaitTimeoutS'' (
         kguard (mp \<noteq> NULL) ''chCondWaitTimeoutS'' (
         kbind (chMtxUnlockS mp k) (\<lambda>k.
         kbind (chSchGoSleepTimeoutS CH_STATE_WTCOND timeout
                  (q_prio_insert (currp k) (TQ cp) (set_u cp (currp k) k))) (\<lambda>k.
         Ok (Asleep, k)))))))"

definition chCondWaitTimeoutS_resume :: "ptr \<Rightarrow> u32 \<Rightarrow> kernel \<Rightarrow> (msg_t wait \<times> kernel) kres" where
  "chCondWaitTimeoutS_resume mp timeout k =
     kbind (chSchGoSleepTimeoutS_resume timeout k) (\<lambda>(msg, k).
     if msg \<noteq> MSG_TIMEOUT then relock mp msg k else Ok (Returned msg, k))"

definition chCondWaitTimeout :: "ptr \<Rightarrow> u32 \<Rightarrow> kernel \<Rightarrow> (msg_t wait \<times> kernel) kres" where
  "chCondWaitTimeout cp timeout = locked_wait (chCondWaitTimeoutS cp timeout)"

definition chCondWaitTimeout_resume :: "ptr \<Rightarrow> u32 \<Rightarrow> kernel \<Rightarrow> (msg_t wait \<times> kernel) kres" where
  "chCondWaitTimeout_resume mp timeout k = unlock_if_returned (chCondWaitTimeoutS_resume mp timeout k)"

declare cond_broadcast_loop.simps [simp del]

section \<open>Signalling\<close>

lemma cond_signal_ok:
  assumes "sched_ok k" and "thd_ctx k"
  shows "\<exists>k'. cond_signal_body cp k = Ok k' \<and> sched_ok k' \<and> thd_ctx k' \<and>
    queues k' (TQ cp) = tl (queues k (TQ cp)) \<and>
    (queues k (TQ cp) \<noteq> [] \<longrightarrow> rdymsg_of k' (hd (queues k (TQ cp))) = MSG_OK \<and>
       state_of k' (hd (queues k (TQ cp))) \<in> {CH_STATE_READY, CH_STATE_CURRENT})"
proof (cases "queues k (TQ cp)")
  case Nil
  then show ?thesis using assms by (simp add: cond_signal_body_def)
next
  case (Cons t ts)
  have inv: "sched_inv k" "sched_order k" using assms(1) by (simp_all add: sched_ok_def)
  let ?k = "upd_q (TQ cp) (\<lambda>_. ts) k"
  note u = unqueue_first [OF inv(1) _ Cons]
  have k: "sched_inv ?k" "limbo t ?k" "sched_order ?k" "thd_ctx ?k"
    using u inv(2) assms(2) by (simp_all add: sched_order_def)
  have "cond_signal_body cp k = Ok (wake t MSG_OK ?k)"
    using Cons chSchWakeupS_eq [OF k] by (simp add: cond_signal_body_def q_first_out_def)
  then show ?thesis
    using wake_inv [OF k(1-3)] k(4) wake_state(1) [OF k(1,2)] Cons by (simp add: sched_ok_def)
qed

interpretation cond_signal: s_service "cond_signal_body cp" "\<lambda>_. True" for cp
proof unfold_locales
  show "\<exists>k'. cond_signal_body cp k = Ok k' \<and> sched_ok k' \<and> thd_ctx k'" if "sched_ok k" "thd_ctx k" True for k
    using cond_signal_ok [OF that(1,2), of cp] by blast
qed simp

lemma cond_broadcast_ok:
  assumes "sched_inv k" and "i_ctx k" and "length (queues k (TQ cp)) \<le> n"
  shows "\<exists>k'. cond_broadcast_loop n cp k = Ok k' \<and> sched_inv k' \<and> queues k' (TQ cp) = [] \<and> currp k' = currp k \<and>
    isr_cnt k' = isr_cnt k \<and> lock_cnt k' = lock_cnt k \<and>
    (\<forall>t\<in>set (queues k (TQ cp)). state_of k' t = CH_STATE_READY \<and> rdymsg_of k' t = MSG_RESET) \<and>
    (\<forall>t. t \<notin> set (queues k (TQ cp)) \<longrightarrow> threads k' t = threads k t)"
  using assms
proof (induction n arbitrary: k)
  case 0
  then show ?case by (simp add: cond_broadcast_loop.simps [of 0])
next
  case (Suc n)
  show ?case
  proof (cases "queues k (TQ cp)")
    case Nil
    then show ?thesis using Suc by (simp add: cond_broadcast_loop.simps [of "Suc n"])
  next
    case (Cons t ts)
    let ?k1 = "upd_q (TQ cp) (\<lambda>_. ts) k" let ?k2 = "set_u MSG_RESET t (ready_behind t ?k1)"
    note u = unqueue_first [OF Suc(2) _ Cons]
    have k1: "sched_inv ?k1" "limbo t ?k1" "i_ctx ?k1" using u Suc(3) by simp_all
    have k2: "sched_inv ?k2" "i_ctx ?k2" "queues ?k2 (TQ cp) = ts" "length (queues ?k2 (TQ cp)) \<le> n"
      using k1 Suc(4) Cons by auto
    have tt: "t \<notin> set ts" using sched_invD(2) [OF Suc(2), of "TQ cp"] Cons by simp
    have th: "threads ?k2 x = (if x = t then (threads k t)\<lparr>t_state := CH_STATE_READY, t_u := MSG_RESET\<rparr> else threads k x)" for x
      by (simp add: ready_behind_def)
    obtain k' where k': "cond_broadcast_loop n cp ?k2 = Ok k'" "sched_inv k'" "queues k' (TQ cp) = []" "currp k' = currp ?k2"
      "isr_cnt k' = isr_cnt ?k2" "lock_cnt k' = lock_cnt ?k2"
      "\<forall>t\<in>set ts. state_of k' t = CH_STATE_READY \<and> rdymsg_of k' t = MSG_RESET"
      "\<forall>x. x \<notin> set ts \<longrightarrow> threads k' x = threads ?k2 x"
      using Suc(1) [OF k2(1,2,4)] unfolding k2(3) by blast
    have "cond_broadcast_loop (Suc n) cp k = Ok k'"
      using Cons chSchReadyI_ok [OF k1] k'(1)
      by (simp add: cond_broadcast_loop.simps [of "Suc n"] q_first_out_def)
    then show ?thesis using k' Cons tt th by (intro exI [of _ k']) auto
  qed
qed

section \<open>Waiting\<close>

definition cond_sleep :: "ptr \<Rightarrow> kernel \<Rightarrow> kernel" where
  "cond_sleep cp k = go_sleep CH_STATE_WTCOND (q_prio_insert (currp k) (TQ cp) (set_u cp (currp k) k))"

lemma q_prio_insert_set_u:
  "q_prio_insert tp q (set_u v t k) = set_u v t (q_prio_insert tp q k)"
proof -
  have "prio_of (set_u v t k) x = prio_of k x" for x by simp
  then show ?thesis by (simp only: q_prio_insert_def) (simp add: upd_q_def upd_th_def)
qed

lemma cond_sleep_alt:
  "cond_sleep cp k = go_sleep CH_STATE_WTCOND (set_u cp (currp k) (q_prio_insert (currp k) (TQ cp) k))"
  unfolding cond_sleep_def q_prio_insert_set_u ..

lemma cond_sleep_frame [simp]:
  "state_of (cond_sleep cp k) t = (if t = hd (queues k RLIST) then CH_STATE_CURRENT
     else if t = currp k then CH_STATE_WTCOND else state_of k t)"
  "rdymsg_of (cond_sleep cp k) t = (if t = currp k then cp else rdymsg_of k t)"
  "prio_of (cond_sleep cp k) t = prio_of k t"
  "t_realprio (threads (cond_sleep cp k) t) = t_realprio (threads k t)"
  "t_mtxlist (threads (cond_sleep cp k) t) = t_mtxlist (threads k t)"
  "mtxs (cond_sleep cp k) = mtxs k" "mtx_owner (cond_sleep cp k) m = mtx_owner k m"
  "currp (cond_sleep cp k) = hd (queues k RLIST)"
  "queues (cond_sleep cp k) (TQ m) = (if m = cp
     then insort_wrt (\<lambda>y. prio_of k y \<ge> prio_of k (currp k)) (currp k) (queues k (TQ m)) else queues k (TQ m))"
  "thd_ctx (cond_sleep cp k) = thd_ctx k"
  by (simp_all add: cond_sleep_alt mtx_owner_def) (simp_all add: go_sleep_def make_current_def)

lemma cond_sleep_ok:
  assumes inv: "sched_inv k" and ne: "queues k RLIST \<noteq> []" and mtx: "mtx_inv M k" and cp: "cp \<notin> M"
  shows "sched_ok (cond_sleep cp k)" and "mtx_inv M (cond_sleep cp k)"
proof -
  let ?c = "currp k" let ?n = "hd (queues k RLIST)" let ?s = "cond_sleep cp k"
  have c: "?c \<notin> set (queues k q)" for q using currp_not_queued [OF inv] .
  have enq: "enq_ok k (set_u cp ?c (q_prio_insert ?c (TQ cp) k)) CH_STATE_WTCOND"
    unfolding enq_ok_def using c [of "TQ cp"] sched_invD(2) [OF inv, of "TQ cp"]
    by (intro conjI disjI2 exI [of _ "TQ cp"]
        exI [of _ "insort_wrt (\<lambda>y. prio_of k y \<ge> prio_of k ?c) ?c (queues k (TQ cp))"]) auto
  show "sched_ok ?s"
    using sched_inv_go_sleep [OF inv enq ne] by (simp add: sched_ok_def cond_sleep_alt)
  have q: "mtx_queues M k" "inherits M k" "owned M k" using mtx by (simp_all add: mtx_inv_def)
  have n: "state_of k ?n = CH_STATE_READY" "?n \<noteq> ?c" "?n \<notin> set (queues k (TQ m))" for m
    using sched_invD(4) [OF inv, of ?n] hd_in_set [OF ne] c [of RLIST] sched_invD(3) [OF inv, of ?n RLIST "TQ m"] by auto
  have cs: "state_of k ?c = CH_STATE_CURRENT" using sched_invD(6) [OF inv] by simp
  have qm: "queues ?s (TQ m) = queues k (TQ m)" if "m \<in> M" for m using that cp by auto
  have sub: "set (queues k (TQ m)) \<subseteq> set (queues ?s (TQ m))" "?c \<in> set (queues ?s (TQ cp))" for m by auto
  have "mtx_queues M ?s"
  proof (rule mtx_queuesI)
    show "NULL \<notin> M" using mtx_queuesD(1) [OF q(1)] .
    show "queues ?s (TQ m) = []" if "m \<in> M" "mtx_owner ?s m = NULL" for m
      using that mtx_queuesD(2) [OF q(1) that(1)] qm [OF that(1)] by simp
    show "state_of ?s t = CH_STATE_WTMTX \<and> rdymsg_of ?s t = m" if "m \<in> M" "t \<in> set (queues ?s (TQ m))" for m t
    proof -
      have t: "t \<in> set (queues k (TQ m))" using that qm by simp
      then have "t \<noteq> ?n" "t \<noteq> ?c" using n(3) [of m] c [of "TQ m"] by auto
      then show ?thesis using mtx_queuesD(3) [OF q(1) that(1) t] by simp
    qed
    show "sorted_wrt (\<lambda>a b. prio_of ?s a \<ge> prio_of ?s b) (queues ?s (TQ m))" if "m \<in> M" for m
      using mtx_queuesD(4) [OF q(1) that] qm [OF that] by simp
    show "rdymsg_of ?s t \<in> M \<and> t \<in> set (queues ?s (TQ (rdymsg_of ?s t)))" if "state_of ?s t = CH_STATE_WTMTX" for t
      using that mtx_queuesD(5) [OF q(1), of t] by (auto split: if_splits)
    show "rdymsg_of ?s t \<notin> M \<and> t \<in> set (queues ?s (TQ (rdymsg_of ?s t)))" if "state_of ?s t = CH_STATE_WTCOND" for t
      using that mtx_queuesD(6) [OF q(1), of t] cp by (auto split: if_splits)
  qed
  moreover have "inherits M ?s" using q(2) qm unfolding inherits_def by simp
  moreover have "owned M ?s" by (rule owned_cong [OF q(3)]) simp_all
  moreover have "t_realprio (threads ?s t) > 0" if "state_of ?s t \<noteq> CH_STATE_FINAL" for t
    using that mtx n(1) cs by (auto simp: mtx_inv_def split: if_splits)
  ultimately show "mtx_inv M ?s" by (simp add: mtx_inv_def)
qed

text \<open>Releasing the mutex without rescheduling, as the waits do.\<close>

lemma chMtxUnlockS_ok:
  assumes inv: "sched_inv k" and ctx: "thd_ctx k" and mtx: "mtx_inv M k" and mp: "mp \<in> M"
    and ml: "t_mtxlist (threads k (currp k)) = mp" and ne: "queues k RLIST \<noteq> []"
  obtains k' where "chMtxUnlockS mp k = Ok k'" and "sched_inv k'" and "thd_ctx k'" and "mtx_inv M k'"
    and "currp k' = currp k" and "queues k' RLIST \<noteq> []" and "\<And>c. c \<noteq> mp \<Longrightarrow> queues k' (TQ c) = queues k (TQ c)"
    and "mtx_owner k' mp = (case queues k (TQ mp) of [] \<Rightarrow> NULL | t # _ \<Rightarrow> t)"
proof -
  have nn: "mp \<noteq> NULL" using mtx mp by (auto simp: mtx_inv_def mtx_queues_def)
  have cur: "currp k \<noteq> NULL" using sched_invD(6) [OF inv, of "currp k"] sched_invD(8) [OF inv] by auto
  note rel = mtx_release_ok [OF inv ctx mtx mp ml]
  have eq: "chMtxUnlockS mp k = mtx_release ''chMtxUnlockS'' Ok mp k" using ctx nn by (simp add: chMtxUnlockS_def)
  show thesis
  proof (cases "queues k (TQ mp)")
    case Nil
    show thesis
      by (rule that [of "upd_mtx mp (m_owner_update (\<lambda>_. NULL)) (undone mp k)"])
        (use Nil eq rel(1) mtx_inv_unowned [OF mtx mp ml cur Nil] inv ctx ne in \<open>simp_all add: mtx_owner_def\<close>)
  next
    case (Cons t ts)
    obtain p where p: "mtx_release ''chMtxUnlockS'' Ok mp k = Ok (handed mp t ts p k)"
      "sched_inv (handed mp t ts p k)" "mtx_inv M (handed mp t ts p k)" using rel(2) [OF Cons] by blast
    have "queues (handed mp t ts p k) RLIST \<noteq> []" by (simp add: handed_def ready_queues)
    then show thesis
      by (intro that [of "handed mp t ts p k"]) (use Cons eq p ctx in simp_all)
  qed
qed

section \<open>Properties\<close>

text \<open>
  \<open>chCondWaitS\<close> releases the mutex the caller locked last and puts the caller to sleep on the
  condition variable in one step: the mutex is free, or belongs to its waiter of highest priority;
  the caller is in the queue of the condition variable; the scheduler and the inheritance
  protocol stay consistent and no check fails.
\<close>

theorem chCondWaitS_releases:
  assumes "sched_ok k" and "thd_ctx k" and "mtx_inv M k" and "mp \<in> M" and "t_mtxlist (threads k (currp k)) = mp"
    and "cp \<notin> M" and "cp \<noteq> NULL" and "queues k RLIST \<noteq> []"
  shows "\<exists>k'. chCondWaitS cp k = Ok (Asleep, k') \<and> sched_ok k' \<and> thd_ctx k' \<and> mtx_inv M k' \<and>
    mtx_owner k' mp = (case queues k (TQ mp) of [] \<Rightarrow> NULL | t # _ \<Rightarrow> t) \<and>
    set (queues k' (TQ cp)) = insert (currp k) (set (queues k (TQ cp))) \<and>
    state_of k' (currp k) = CH_STATE_WTCOND \<and> rdymsg_of k' (currp k) = cp"
proof -
  have inv: "sched_inv k" using assms(1) by (simp add: sched_ok_def)
  obtain k1 where k1: "chMtxUnlockS mp k = Ok k1" "sched_inv k1" "thd_ctx k1" "mtx_inv M k1" "currp k1 = currp k"
    "queues k1 RLIST \<noteq> []" "\<And>c. c \<noteq> mp \<Longrightarrow> queues k1 (TQ c) = queues k (TQ c)"
    "mtx_owner k1 mp = (case queues k (TQ mp) of [] \<Rightarrow> NULL | t # _ \<Rightarrow> t)"
    by (rule chMtxUnlockS_ok [OF inv assms(2-5,8)]) (rule that; assumption)
  have nn: "mp \<noteq> NULL" "cp \<noteq> mp" using assms(3,4,6) by (auto simp: mtx_inv_def mtx_queues_def)
  have hd: "hd (queues k1 RLIST) \<noteq> currp k"
    using currp_not_queued [OF k1(2), of RLIST] hd_in_set [OF k1(6)] k1(5) by auto
  have "chSchGoSleepS CH_STATE_WTCOND (q_prio_insert (currp k) (TQ cp) (set_u cp (currp k) k1)) = Ok (cond_sleep cp k1)"
    using chSchGoSleepS_eq k1(3,5,6) by (simp add: cond_sleep_def)
  then have "chCondWaitS cp k = Ok (Asleep, cond_sleep cp k1)"
    using assms(2,5,7) nn(1) k1(1)
    by (simp add: chCondWaitS_def chMtxGetNextMutexX_def Let_def del: kbind_Ok set_field_defs)
  then show ?thesis
    using cond_sleep_ok [OF k1(2,6,4) assms(6)] k1 hd nn(2)
    by (intro exI [of _ "cond_sleep cp k1"]) simp
qed

text \<open>The running thread at 16 owns the mutex at 64 and is about to wait on the condition at 96.\<close>

definition demo_cond :: kernel where
  "demo_cond = kernel_reset\<lparr>
     threads := (\<lambda>_. no_thread)(16 := no_thread\<lparr>t_prio := 128, t_realprio := 128, t_state := CH_STATE_CURRENT, t_mtxlist := 64\<rparr>,
       32 := no_thread\<lparr>t_prio := 1, t_realprio := 1, t_state := CH_STATE_READY\<rparr>,
       48 := no_thread\<lparr>t_prio := 100, t_realprio := 100, t_state := CH_STATE_WTCOND, t_u := 96\<rparr>),
     queues := (\<lambda>_. [])(RLIST := [32], TQ 96 := [48]), currp := 16, lock_cnt := 1,
     mtxs := (\<lambda>_. \<lparr>m_owner = NULL, m_next = NULL\<rparr>)(64 := \<lparr>m_owner = 16, m_next = NULL\<rparr>)\<rparr>"

lemma demo_cond_ok: "sched_ok demo_cond" "thd_ctx demo_cond" "mtx_inv {64} demo_cond"
proof -
  show "sched_ok demo_cond" "thd_ctx demo_cond"
    by (auto simp: demo_cond_def kernel_reset_def no_thread_def sched_ok_def sched_inv_def sched_order_def
        thd_ctx_def split: if_splits)
  have "mtx_queues {64} demo_cond" "inherits {64} demo_cond"
    by (auto simp: demo_cond_def kernel_reset_def no_thread_def mtx_queues_def inherits_def mtx_owner_def)
  moreover have "owned {64} demo_cond"
    unfolding owned_def
  proof (intro allI impI)
    fix t :: ptr assume "t \<noteq> NULL"
    then show "\<exists>ms. mchain demo_cond (t_mtxlist (threads demo_cond t)) ms \<and> distinct ms \<and>
        set ms = {m \<in> {64}. mtx_owner demo_cond m = t}"
      by (intro exI [of _ "if t = 16 then [64] else []"])
        (auto simp: demo_cond_def kernel_reset_def no_thread_def mtx_owner_def mtx_next_def)
  qed
  ultimately show "mtx_inv {64} demo_cond"
    by (auto simp: mtx_inv_def demo_cond_def no_thread_def)
qed

theorem chCondWaitS_releases_witness:
  "\<exists>k'. chCondWaitS 96 demo_cond = Ok (Asleep, k') \<and> mtx_owner k' 64 = NULL \<and> set (queues k' (TQ 96)) = {16, 48}"
proof -
  have f: "t_mtxlist (threads demo_cond (currp demo_cond)) = 64" "queues demo_cond RLIST \<noteq> []"
    "queues demo_cond (TQ 64) = []" "queues demo_cond (TQ 96) = [48]" "currp demo_cond = 16"
    by (simp_all add: demo_cond_def)
  have "(96::ptr) \<notin> {64}" "(96::ptr) \<noteq> NULL" by simp_all
  then show ?thesis using chCondWaitS_releases [OF demo_cond_ok _ f(1) _ _ f(2), of 96] f by auto
qed

text \<open>
  \<open>chCondBroadcast\<close> wakes every thread that waits on the condition variable, each with
  \<open>MSG_RESET\<close>; \<open>chCondSignal\<close> wakes the first one with \<open>MSG_OK\<close>. Both end outside the critical zone
  with no ready thread above the running one.
\<close>

theorem chCondBroadcast_wakes:
  assumes "sched_ok k" and "thread_idle_ctx k" and "cp \<noteq> NULL"
  shows "(\<exists>k'. chCondBroadcast cp k = Ok k' \<and> sched_ok k' \<and> thread_idle_ctx k' \<and> queues k' (TQ cp) = [] \<and>
      (\<forall>t\<in>set (queues k (TQ cp)). state_of k' t \<in> {CH_STATE_READY, CH_STATE_CURRENT} \<and> rdymsg_of k' t = MSG_RESET)) \<and>
    (\<exists>k'. chCondSignal cp k = Ok k' \<and> sched_ok k' \<and> thread_idle_ctx k' \<and> queues k' (TQ cp) = tl (queues k (TQ cp)) \<and>
      (queues k (TQ cp) \<noteq> [] \<longrightarrow> rdymsg_of k' (hd (queues k (TQ cp))) = MSG_OK))"
proof -
  let ?k = "k\<lparr>lock_cnt := 1\<rparr>"
  have l: "sched_ok ?k" "thd_ctx ?k" "sched_inv ?k" "i_ctx ?k"
    using assms(1) chSysLock_ok [OF assms(2)] by (simp_all add: sched_ok_def)
  obtain k1 where k1: "chCondBroadcastI cp ?k = Ok k1" "sched_inv k1" "queues k1 (TQ cp) = []"
    "isr_cnt k1 = isr_cnt ?k" "lock_cnt k1 = lock_cnt ?k"
    "\<forall>t\<in>set (queues k (TQ cp)). state_of k1 t = CH_STATE_READY \<and> rdymsg_of k1 t = MSG_RESET"
    using cond_broadcast_ok [OF l(3,4), of cp "length (queues k (TQ cp))"] assms(3) l(4)
    by (auto simp: chCondBroadcastI_def)
  have c: "thd_ctx k1" using thd_ctx_cong [OF k1(4,5)] l(2) by simp
  have b: "kbind (chCondBroadcastI cp ?k) chSchRescheduleS = Ok (resched k1)"
    using k1(1) chSchRescheduleS_eq [OF k1(2) c] by simp
  have ok: "sched_ok (resched k1)" "thd_ctx (resched k1)" using resched_inv [OF k1(2)] c by (simp_all add: sched_ok_def)
  have st: "state_of (resched k1) t \<in> {CH_STATE_READY, CH_STATE_CURRENT}" if "state_of k1 t = CH_STATE_READY" for t
    using resched_states [OF k1(2), of t] that by auto
  have "\<exists>k'. chCondBroadcast cp k = Ok k' \<and> sched_ok k' \<and> thread_idle_ctx k' \<and> queues k' (TQ cp) = [] \<and>
      (\<forall>t\<in>set (queues k (TQ cp)). state_of k' t \<in> {CH_STATE_READY, CH_STATE_CURRENT} \<and> rdymsg_of k' t = MSG_RESET)"
    using locked_Ok [where body = "\<lambda>k. kbind (chCondBroadcastI cp k) chSchRescheduleS", OF assms(2) b ok] ok k1(3,6) st
    by (intro exI [of _ "(resched k1)\<lparr>lock_cnt := 0\<rparr>"]) (simp add: chCondBroadcast_def)
  moreover obtain k2 where k2: "cond_signal_body cp ?k = Ok k2" "sched_ok k2" "thd_ctx k2" "queues k2 (TQ cp) = tl (queues k (TQ cp))"
    "queues k (TQ cp) \<noteq> [] \<longrightarrow> rdymsg_of k2 (hd (queues k (TQ cp))) = MSG_OK"
    using cond_signal_ok [OF l(1,2), of cp] by auto
  moreover have "\<exists>k'. chCondSignal cp k = Ok k' \<and> sched_ok k' \<and> thread_idle_ctx k' \<and> queues k' (TQ cp) = tl (queues k (TQ cp)) \<and>
      (queues k (TQ cp) \<noteq> [] \<longrightarrow> rdymsg_of k' (hd (queues k (TQ cp))) = MSG_OK)"
    using locked_Ok [where body = "cond_signal_body cp", OF assms(2) k2(1-3)] k2 assms(3)
    by (intro exI [of _ "k2\<lparr>lock_cnt := 0\<rparr>"]) (simp add: chCondSignal_def)
  ultimately show ?thesis by blast
qed

theorem chCondBroadcast_wakes_witness:
  "\<exists>k'. chCondBroadcast 96 (demo_cond\<lparr>lock_cnt := 0\<rparr>) = Ok k' \<and> queues k' (TQ 96) = [] \<and> rdymsg_of k' 48 = MSG_RESET"
proof -
  let ?k = "demo_cond\<lparr>lock_cnt := 0\<rparr>"
  have "sched_ok ?k" "thread_idle_ctx ?k" "(96::ptr) \<noteq> NULL"
    using demo_cond_ok by (simp_all add: thread_idle_ctx_def thd_ctx_def)
  moreover have "queues ?k (TQ 96) = [48]" by (simp add: demo_cond_def)
  ultimately show ?thesis using chCondBroadcast_wakes [of ?k 96] by auto
qed

end
