(* ===== verification/HalDrivers.thy ===== *)
theory HalDrivers
  imports Scheduler
begin

text \<open>
  The portable layers of the timer, ADC and DAC drivers (\<open>os/hal/src/hal_gpt.c\<close>, \<open>hal_adc.c\<close>,
  \<open>hal_dac.c\<close> and the interrupt code in their headers), as the firmware configures them: no
  waiting API and no mutual exclusion API, so the drivers change nothing of the kernel state but
  the critical zone they run in.

  A driver object is a record. What the low level driver does to the peripheral is recorded in
  the order of the calls (\<open>gpt_lld\<close>, \<open>adc_lld\<close>, \<open>dac_lld\<close>). The interrupt code takes the callback of
  the conversion group as an argument; the group says whether there is one.

  The locale \<open>conversion_driver\<close> states the contract that the ADC and the DAC driver share.
\<close>

section \<open>Critical zones\<close>

definition hal_locked :: "('d \<Rightarrow> kernel \<Rightarrow> 'd kres) \<Rightarrow> 'd \<Rightarrow> kernel \<Rightarrow> ('d \<times> kernel) kres" where
  "hal_locked body d k =
     kbind (chSysLock k) (\<lambda>k. kbind (body d k) (\<lambda>d. kbind (chSysUnlock k) (\<lambda>k. Ok (d, k))))"

text \<open>A thread that runs outside a critical zone, with a consistent scheduler.\<close>

definition running :: "kernel \<Rightarrow> bool" where
  "running k \<longleftrightarrow> sched_ok k \<and> thread_idle_ctx k"

lemma hal_locked_eq:
  assumes "running k"
  shows "hal_locked body d k = kbind (body d (k\<lparr>lock_cnt := 1\<rparr>)) (\<lambda>d. Ok (d, k))"
proof -
  have l: "chSysLock k = Ok (k\<lparr>lock_cnt := 1\<rparr>)" "thd_ctx (k\<lparr>lock_cnt := 1\<rparr>)" "sched_order (k\<lparr>lock_cnt := 1\<rparr>)"
    using chSysLock_ok assms by (simp_all add: running_def sched_ok_def)
  have "k\<lparr>lock_cnt := 0\<rparr> = k" using assms by (simp add: running_def thread_idle_ctx_def)
  then have "chSysUnlock (k\<lparr>lock_cnt := 1\<rparr>) = Ok k" using chSysUnlock_ok [OF l(2,3)] by simp
  then show ?thesis using l by (cases "body d (k\<lparr>lock_cnt := 1\<rparr>)") (simp_all add: hal_locked_def)
qed

lemma running_i_ctx [simp]: "running k \<Longrightarrow> i_ctx (k\<lparr>lock_cnt := 1\<rparr>)"
  by (simp add: running_def thread_idle_ctx_def i_ctx_def)

section \<open>General purpose timers\<close>

datatype gptstate = GPT_UNINIT | GPT_STOP | GPT_READY | GPT_CONTINUOUS | GPT_ONESHOT

datatype gpt_lld_call = gpt_lld_start | gpt_lld_stop | gpt_lld_start_timer u32 | gpt_lld_stop_timer
  | gpt_lld_change_interval u32 | gpt_lld_polled_delay u32

record GPTConfig =
  gpt_frequency :: nat
  gpt_has_callback :: bool

record GPTDriver =
  gpt_state :: gptstate
  gpt_config :: "GPTConfig option"
  gpt_lld :: "gpt_lld_call list"

definition gpt_do :: "gpt_lld_call \<Rightarrow> GPTDriver \<Rightarrow> GPTDriver" where
  "gpt_do c d = d\<lparr>gpt_lld := gpt_lld d @ [c]\<rparr>"

definition gptObjectInit :: "GPTDriver \<Rightarrow> GPTDriver" where
  "gptObjectInit d = d\<lparr>gpt_state := GPT_STOP, gpt_config := None\<rparr>"

definition gptStart :: "GPTConfig \<Rightarrow> GPTDriver \<Rightarrow> kernel \<Rightarrow> (GPTDriver \<times> kernel) kres" where
  "gptStart config = hal_locked (\<lambda>d k.
     kguard (gpt_state d \<in> {GPT_STOP, GPT_READY}) ''gptStart'' (
     Ok ((gpt_do gpt_lld_start (d\<lparr>gpt_config := Some config\<rparr>))\<lparr>gpt_state := GPT_READY\<rparr>)))"

definition gptStop :: "GPTDriver \<Rightarrow> kernel \<Rightarrow> (GPTDriver \<times> kernel) kres" where
  "gptStop = hal_locked (\<lambda>d k.
     kguard (gpt_state d \<in> {GPT_STOP, GPT_READY}) ''gptStop'' (
     Ok ((gpt_do gpt_lld_stop d)\<lparr>gpt_config := None, gpt_state := GPT_STOP\<rparr>)))"

definition gptChangeInterval :: "u32 \<Rightarrow> GPTDriver \<Rightarrow> kernel \<Rightarrow> (GPTDriver \<times> kernel) kres" where
  "gptChangeInterval interval = hal_locked (\<lambda>d k.
     kguard (gpt_state d = GPT_CONTINUOUS) ''gptChangeInterval'' (
     Ok (gpt_do (gpt_lld_change_interval interval) d)))"

definition gptStartContinuousI :: "u32 \<Rightarrow> GPTDriver \<Rightarrow> kernel \<Rightarrow> GPTDriver kres" where
  "gptStartContinuousI interval d k =
     chDbgCheckClassI k (
     kguard (gpt_state d = GPT_READY) ''gptStartContinuousI'' (
     Ok (gpt_do (gpt_lld_start_timer interval) (d\<lparr>gpt_state := GPT_CONTINUOUS\<rparr>))))"

definition gptStartContinuous :: "u32 \<Rightarrow> GPTDriver \<Rightarrow> kernel \<Rightarrow> (GPTDriver \<times> kernel) kres" where
  "gptStartContinuous interval = hal_locked (gptStartContinuousI interval)"

definition gptStartOneShotI :: "u32 \<Rightarrow> GPTDriver \<Rightarrow> kernel \<Rightarrow> GPTDriver kres" where
  "gptStartOneShotI interval d k =
     chDbgCheckClassI k (
     case gpt_config d of None \<Rightarrow> Undef | Some c \<Rightarrow>
     kguard (gpt_has_callback c) ''gptStartOneShotI'' (
     kguard (gpt_state d = GPT_READY) ''gptStartOneShotI'' (
     Ok (gpt_do (gpt_lld_start_timer interval) (d\<lparr>gpt_state := GPT_ONESHOT\<rparr>)))))"

definition gptStartOneShot :: "u32 \<Rightarrow> GPTDriver \<Rightarrow> kernel \<Rightarrow> (GPTDriver \<times> kernel) kres" where
  "gptStartOneShot interval = hal_locked (gptStartOneShotI interval)"

definition gptStopTimerI :: "GPTDriver \<Rightarrow> kernel \<Rightarrow> GPTDriver kres" where
  "gptStopTimerI d k =
     chDbgCheckClassI k (
     kguard (gpt_state d \<in> {GPT_READY, GPT_CONTINUOUS, GPT_ONESHOT}) ''gptStopTimerI'' (
     Ok (gpt_do gpt_lld_stop_timer (d\<lparr>gpt_state := GPT_READY\<rparr>))))"

definition gptStopTimer :: "GPTDriver \<Rightarrow> kernel \<Rightarrow> (GPTDriver \<times> kernel) kres" where
  "gptStopTimer = hal_locked gptStopTimerI"

definition gptPolledDelay :: "u32 \<Rightarrow> GPTDriver \<Rightarrow> GPTDriver kres" where
  "gptPolledDelay interval d =
     kguard (gpt_state d = GPT_READY) ''gptPolledDelay'' (
     Ok ((gpt_do (gpt_lld_polled_delay interval) (d\<lparr>gpt_state := GPT_ONESHOT\<rparr>))\<lparr>gpt_state := GPT_READY\<rparr>))"

section \<open>Analog to digital converters\<close>

datatype adcstate = ADC_UNINIT | ADC_STOP | ADC_READY | ADC_ACTIVE | ADC_COMPLETE | ADC_ERROR

datatype adc_lld_call = adc_lld_start | adc_lld_stop | adc_lld_start_conversion | adc_lld_stop_conversion

record ADCConversionGroup =
  adc_circular :: bool
  adc_num_channels :: nat
  adc_has_end_cb :: bool
  adc_has_error_cb :: bool

record ADCDriver =
  adc_state :: adcstate
  adc_config :: bool
  adc_samples :: ptr
  adc_depth :: u32
  adc_grpp :: "ADCConversionGroup option"
  adc_lld :: "adc_lld_call list"

definition adc_do :: "adc_lld_call \<Rightarrow> ADCDriver \<Rightarrow> ADCDriver" where
  "adc_do c d = d\<lparr>adc_lld := adc_lld d @ [c]\<rparr>"

definition adcObjectInit :: "ADCDriver \<Rightarrow> ADCDriver" where
  "adcObjectInit d =
     d\<lparr>adc_state := ADC_STOP, adc_config := False, adc_samples := NULL, adc_depth := 0, adc_grpp := None\<rparr>"

definition adcStart :: "ADCDriver \<Rightarrow> kernel \<Rightarrow> (ADCDriver \<times> kernel) kres" where
  "adcStart = hal_locked (\<lambda>d k.
     kguard (adc_state d \<in> {ADC_STOP, ADC_READY}) ''adcStart'' (
     Ok ((adc_do adc_lld_start (d\<lparr>adc_config := True\<rparr>))\<lparr>adc_state := ADC_READY\<rparr>)))"

definition adcStop :: "ADCDriver \<Rightarrow> kernel \<Rightarrow> (ADCDriver \<times> kernel) kres" where
  "adcStop = hal_locked (\<lambda>d k.
     kguard (adc_state d \<in> {ADC_STOP, ADC_READY}) ''adcStop'' (
     Ok ((adc_do adc_lld_stop d)\<lparr>adc_config := False, adc_state := ADC_STOP\<rparr>)))"

definition depth_ok :: "u32 \<Rightarrow> bool" where
  "depth_ok depth \<longleftrightarrow> depth = 1 \<or> depth AND 1 = 0"

definition adcStartConversionI ::
  "ADCConversionGroup \<Rightarrow> ptr \<Rightarrow> u32 \<Rightarrow> ADCDriver \<Rightarrow> kernel \<Rightarrow> ADCDriver kres" where
  "adcStartConversionI grpp samples depth d k =
     chDbgCheckClassI k (
     kguard (samples \<noteq> NULL \<and> depth > 0 \<and> depth_ok depth) ''adcStartConversionI'' (
     kguard (adc_state d \<in> {ADC_READY, ADC_ERROR}) ''adcStartConversionI'' (
     Ok (adc_do adc_lld_start_conversion
       (d\<lparr>adc_samples := samples, adc_depth := depth, adc_grpp := Some grpp, adc_state := ADC_ACTIVE\<rparr>)))))"

definition adcStartConversion ::
  "ADCConversionGroup \<Rightarrow> ptr \<Rightarrow> u32 \<Rightarrow> ADCDriver \<Rightarrow> kernel \<Rightarrow> (ADCDriver \<times> kernel) kres" where
  "adcStartConversion grpp samples depth = hal_locked (adcStartConversionI grpp samples depth)"

definition adc_end :: "ADCDriver \<Rightarrow> ADCDriver" where
  "adc_end d =
     (if adc_state d \<noteq> ADC_READY
      then (adc_do adc_lld_stop_conversion d)\<lparr>adc_grpp := None, adc_state := ADC_READY\<rparr> else d)"

definition adcStopConversion :: "ADCDriver \<Rightarrow> kernel \<Rightarrow> (ADCDriver \<times> kernel) kres" where
  "adcStopConversion = hal_locked (\<lambda>d k.
     kguard (adc_state d \<in> {ADC_READY, ADC_ACTIVE}) ''adcStopConversion'' (Ok (adc_end d)))"

definition adcStopConversionI :: "ADCDriver \<Rightarrow> kernel \<Rightarrow> ADCDriver kres" where
  "adcStopConversionI d k =
     chDbgCheckClassI k (
     kguard (adc_state d \<in> {ADC_READY, ADC_ACTIVE, ADC_COMPLETE}) ''adcStopConversionI'' (Ok (adc_end d)))"

definition adcIsBufferComplete :: "ADCDriver \<Rightarrow> bool" where
  "adcIsBufferComplete d = (adc_state d = ADC_COMPLETE)"

definition adc_isr_half_code ::
  "(ADCDriver \<Rightarrow> 's \<Rightarrow> (ADCDriver \<times> 's) kres) \<Rightarrow> ADCDriver \<Rightarrow> 's \<Rightarrow> (ADCDriver \<times> 's) kres" where
  "adc_isr_half_code end_cb d s =
     (case adc_grpp d of None \<Rightarrow> Undef | Some g \<Rightarrow> if adc_has_end_cb g then end_cb d s else Ok (d, s))"

definition adc_isr_full_code ::
  "(ADCDriver \<Rightarrow> 's \<Rightarrow> (ADCDriver \<times> 's) kres) \<Rightarrow> ADCDriver \<Rightarrow> 's \<Rightarrow> (ADCDriver \<times> 's) kres" where
  "adc_isr_full_code end_cb d s =
     (case adc_grpp d of None \<Rightarrow> Undef | Some g \<Rightarrow>
        if adc_circular g
        then if adc_has_end_cb g
             then kbind (end_cb (d\<lparr>adc_state := ADC_COMPLETE\<rparr>) s) (\<lambda>(d, s).
                  Ok (if adc_state d = ADC_COMPLETE then d\<lparr>adc_state := ADC_ACTIVE\<rparr> else d, s))
             else Ok (d, s)
        else let d = adc_do adc_lld_stop_conversion d
             in if adc_has_end_cb g
                then kbind (end_cb (d\<lparr>adc_state := ADC_COMPLETE\<rparr>) s) (\<lambda>(d, s).
                     Ok (if adc_state d = ADC_COMPLETE then d\<lparr>adc_state := ADC_READY, adc_grpp := None\<rparr> else d, s))
                else Ok (d\<lparr>adc_state := ADC_READY, adc_grpp := None\<rparr>, s))"

definition adc_isr_error_code ::
  "(ADCDriver \<Rightarrow> 's \<Rightarrow> (ADCDriver \<times> 's) kres) \<Rightarrow> ADCDriver \<Rightarrow> 's \<Rightarrow> (ADCDriver \<times> 's) kres" where
  "adc_isr_error_code error_cb d0 s =
     (let d = adc_do adc_lld_stop_conversion d0
      in case adc_grpp d of None \<Rightarrow> Undef | Some g \<Rightarrow>
        if adc_has_error_cb g
        then kbind (error_cb (d\<lparr>adc_state := ADC_ERROR\<rparr>) s) (\<lambda>(d, s).
             Ok (if adc_state d = ADC_ERROR then d\<lparr>adc_state := ADC_READY, adc_grpp := None\<rparr> else d, s))
        else Ok (d\<lparr>adc_state := ADC_READY, adc_grpp := None\<rparr>, s))"

section \<open>Digital to analog converters\<close>

datatype dacstate = DAC_UNINIT | DAC_STOP | DAC_READY | DAC_ACTIVE | DAC_COMPLETE | DAC_ERROR

datatype dac_lld_call = dac_lld_start | dac_lld_stop | dac_lld_put_channel nat u16 | dac_lld_start_conversion
  | dac_lld_stop_conversion

record DACConversionGroup =
  dac_num_channels :: nat
  dac_has_end_cb :: bool
  dac_has_error_cb :: bool

record DACDriver =
  dac_state :: dacstate
  dac_config :: bool
  dac_samples :: ptr
  dac_depth :: u32
  dac_grpp :: "DACConversionGroup option"
  dac_lld :: "dac_lld_call list"

definition DAC_MAX_CHANNELS :: nat where "DAC_MAX_CHANNELS = 2"

definition dac_do :: "dac_lld_call \<Rightarrow> DACDriver \<Rightarrow> DACDriver" where
  "dac_do c d = d\<lparr>dac_lld := dac_lld d @ [c]\<rparr>"

definition dacObjectInit :: "DACDriver \<Rightarrow> DACDriver" where
  "dacObjectInit d = d\<lparr>dac_state := DAC_STOP, dac_config := False\<rparr>"

definition dacStart :: "DACDriver \<Rightarrow> kernel \<Rightarrow> (DACDriver \<times> kernel) kres" where
  "dacStart = hal_locked (\<lambda>d k.
     kguard (dac_state d \<in> {DAC_STOP, DAC_READY}) ''dacStart'' (
     Ok ((dac_do dac_lld_start (d\<lparr>dac_config := True\<rparr>))\<lparr>dac_state := DAC_READY\<rparr>)))"

definition dacStop :: "DACDriver \<Rightarrow> kernel \<Rightarrow> (DACDriver \<times> kernel) kres" where
  "dacStop = hal_locked (\<lambda>d k.
     kguard (dac_state d \<in> {DAC_STOP, DAC_READY}) ''dacStop'' (
     Ok ((dac_do dac_lld_stop d)\<lparr>dac_config := False, dac_state := DAC_STOP\<rparr>)))"

definition dacPutChannelX :: "nat \<Rightarrow> u16 \<Rightarrow> DACDriver \<Rightarrow> DACDriver kres" where
  "dacPutChannelX channel sample d =
     kguard (channel < DAC_MAX_CHANNELS) ''dacPutChannelX'' (
     kguard (dac_state d = DAC_READY) ''dacPutChannelX'' (Ok (dac_do (dac_lld_put_channel channel sample) d)))"

definition dacStartConversionI ::
  "DACConversionGroup \<Rightarrow> ptr \<Rightarrow> u32 \<Rightarrow> DACDriver \<Rightarrow> kernel \<Rightarrow> DACDriver kres" where
  "dacStartConversionI grpp samples depth d k =
     chDbgCheckClassI k (
     kguard (samples \<noteq> NULL \<and> depth_ok depth) ''dacStartConversionI'' (
     kguard (dac_state d \<in> {DAC_READY, DAC_COMPLETE, DAC_ERROR}) ''dacStartConversionI'' (
     Ok (dac_do dac_lld_start_conversion
       (d\<lparr>dac_samples := samples, dac_depth := depth, dac_grpp := Some grpp, dac_state := DAC_ACTIVE\<rparr>)))))"

definition dacStartConversion ::
  "DACConversionGroup \<Rightarrow> ptr \<Rightarrow> u32 \<Rightarrow> DACDriver \<Rightarrow> kernel \<Rightarrow> (DACDriver \<times> kernel) kres" where
  "dacStartConversion grpp samples depth = hal_locked (dacStartConversionI grpp samples depth)"

definition dac_end :: "DACDriver \<Rightarrow> DACDriver" where
  "dac_end d =
     (if dac_state d \<noteq> DAC_READY
      then (dac_do dac_lld_stop_conversion d)\<lparr>dac_grpp := None, dac_state := DAC_READY\<rparr> else d)"

definition dacStopConversion :: "DACDriver \<Rightarrow> kernel \<Rightarrow> (DACDriver \<times> kernel) kres" where
  "dacStopConversion = hal_locked (\<lambda>d k.
     kguard (dac_state d \<in> {DAC_READY, DAC_ACTIVE}) ''dacStopConversion'' (Ok (dac_end d)))"

definition dacStopConversionI :: "DACDriver \<Rightarrow> kernel \<Rightarrow> DACDriver kres" where
  "dacStopConversionI d k =
     chDbgCheckClassI k (
     kguard (dac_state d \<in> {DAC_READY, DAC_ACTIVE, DAC_COMPLETE}) ''dacStopConversionI'' (Ok (dac_end d)))"

definition dacIsBufferComplete :: "DACDriver \<Rightarrow> bool" where
  "dacIsBufferComplete d = (dac_state d = DAC_COMPLETE)"

definition dac_isr_half_code ::
  "(DACDriver \<Rightarrow> 's \<Rightarrow> (DACDriver \<times> 's) kres) \<Rightarrow> DACDriver \<Rightarrow> 's \<Rightarrow> (DACDriver \<times> 's) kres" where
  "dac_isr_half_code end_cb d s =
     (case dac_grpp d of None \<Rightarrow> Undef | Some g \<Rightarrow> if dac_has_end_cb g then end_cb d s else Ok (d, s))"

definition dac_isr_full_code ::
  "(DACDriver \<Rightarrow> 's \<Rightarrow> (DACDriver \<times> 's) kres) \<Rightarrow> DACDriver \<Rightarrow> 's \<Rightarrow> (DACDriver \<times> 's) kres" where
  "dac_isr_full_code end_cb d s =
     (case dac_grpp d of None \<Rightarrow> Undef | Some g \<Rightarrow>
        if dac_has_end_cb g
        then kbind (end_cb (d\<lparr>dac_state := DAC_COMPLETE\<rparr>) s) (\<lambda>(d, s).
             Ok (if dac_state d = DAC_COMPLETE then d\<lparr>dac_state := DAC_ACTIVE\<rparr> else d, s))
        else Ok (d, s))"

definition dac_isr_error_code ::
  "(DACDriver \<Rightarrow> 's \<Rightarrow> (DACDriver \<times> 's) kres) \<Rightarrow> DACDriver \<Rightarrow> 's \<Rightarrow> (DACDriver \<times> 's) kres" where
  "dac_isr_error_code error_cb d0 s =
     (let d = dac_do dac_lld_stop_conversion d0
      in case dac_grpp d of None \<Rightarrow> Undef | Some g \<Rightarrow>
        kbind (if dac_has_error_cb g
               then kbind (error_cb (d\<lparr>dac_state := DAC_ERROR\<rparr>) s) (\<lambda>(d, s).
                    Ok (if dac_state d = DAC_ERROR then d\<lparr>dac_state := DAC_READY\<rparr> else d, s))
               else Ok (d, s)) (\<lambda>(d, s). Ok (d\<lparr>dac_grpp := None\<rparr>, s)))"

section \<open>The contract of a conversion driver\<close>

text \<open>
  \<open>start\<close> begins a circular conversion, \<open>stop\<close> ends it. \<open>valid\<close> are the arguments the checks accept.
\<close>

locale conversion_driver =
  fixes start :: "'g \<Rightarrow> ptr \<Rightarrow> u32 \<Rightarrow> 'd \<Rightarrow> kernel \<Rightarrow> ('d \<times> kernel) kres"
    and stop :: "'d \<Rightarrow> kernel \<Rightarrow> ('d \<times> kernel) kres"
    and valid :: "ptr \<Rightarrow> u32 \<Rightarrow> bool" and ready :: "'d \<Rightarrow> bool" and active :: "'d \<Rightarrow> bool"
  assumes start_ready: "running k \<Longrightarrow> ready d \<Longrightarrow> valid a n \<Longrightarrow> \<exists>d'. start g a n d k = Ok (d', k) \<and> active d'"
    and start_active: "running k \<Longrightarrow> active d \<Longrightarrow> \<exists>e. start g a n d k = Halt e"
    and start_invalid: "running k \<Longrightarrow> \<not> valid a n \<Longrightarrow> \<exists>e. start g a n d k = Halt e"
    and stop_ok: "running k \<Longrightarrow> ready d \<or> active d \<Longrightarrow> \<exists>d'. stop d k = Ok (d', k) \<and> ready d'"
    and stop_ready: "running k \<Longrightarrow> ready d \<Longrightarrow> stop d k = Ok (d, k)"
    and not_both: "\<not> (ready d \<and> active d)"
begin

text \<open>Starting succeeds exactly when the driver is ready and the arguments are valid.\<close>

lemma start_iff:
  assumes "running k" and "ready d \<or> active d"
  shows "(\<exists>r. start g a n d k = Ok r) \<longleftrightarrow> ready d \<and> valid a n"
  using start_ready [OF assms(1)] start_active [OF assms(1)] start_invalid [OF assms(1)] assms(2) not_both [of d]
  by (metis kres.distinct(5))

text \<open>A stopped conversion can be started again.\<close>

lemma restart:
  assumes "running k" and "active d" and "valid a n"
  shows "\<exists>d1 d2. stop d k = Ok (d1, k) \<and> start g a n d1 k = Ok (d2, k) \<and> active d2"
  using stop_ok [OF assms(1)] start_ready [OF assms(1) _ assms(3)] assms(2) by blast

end

definition adc_ready :: "ADCDriver \<Rightarrow> bool" where "adc_ready d \<longleftrightarrow> adc_state d = ADC_READY"
definition adc_active :: "ADCDriver \<Rightarrow> bool" where "adc_active d \<longleftrightarrow> adc_state d = ADC_ACTIVE \<and> adc_grpp d \<noteq> None"
definition adc_valid :: "ptr \<Rightarrow> u32 \<Rightarrow> bool" where "adc_valid a n \<longleftrightarrow> a \<noteq> NULL \<and> n > 0 \<and> depth_ok n"

definition dac_ready :: "DACDriver \<Rightarrow> bool" where "dac_ready d \<longleftrightarrow> dac_state d = DAC_READY"
definition dac_active :: "DACDriver \<Rightarrow> bool" where "dac_active d \<longleftrightarrow> dac_state d = DAC_ACTIVE \<and> dac_grpp d \<noteq> None"
definition dac_valid :: "ptr \<Rightarrow> u32 \<Rightarrow> bool" where "dac_valid a n \<longleftrightarrow> a \<noteq> NULL \<and> depth_ok n"

interpretation adc: conversion_driver adcStartConversion adcStopConversion adc_valid adc_ready adc_active
  by unfold_locales
    (auto simp: adcStartConversion_def adcStopConversion_def hal_locked_eq adcStartConversionI_def adc_valid_def
      adc_ready_def adc_active_def adc_do_def adc_end_def kguard_def)

interpretation dac: conversion_driver dacStartConversion dacStopConversion dac_valid dac_ready dac_active
  by unfold_locales
    (auto simp: dacStartConversion_def dacStopConversion_def hal_locked_eq dacStartConversionI_def dac_valid_def
      dac_ready_def dac_active_def dac_do_def dac_end_def kguard_def)

text \<open>The interrupt code leaves a circular conversion active if the callback does not stop it.\<close>

lemma adc_full_active:
  assumes "adc_active d" and "adc_circular (the (adc_grpp d))" and "adc_has_end_cb (the (adc_grpp d))"
    and "cb (d\<lparr>adc_state := ADC_COMPLETE\<rparr>) s = Ok (d\<lparr>adc_state := ADC_COMPLETE\<rparr>, s')"
  shows "adc_isr_full_code cb d s = Ok (d, s')"
  using assms by (auto simp: adc_isr_full_code_def adc_active_def)

lemma dac_full_active:
  assumes "dac_active d" and "dac_has_end_cb (the (dac_grpp d))"
    and "cb (d\<lparr>dac_state := DAC_COMPLETE\<rparr>) s = Ok (d\<lparr>dac_state := DAC_COMPLETE\<rparr>, s')"
  shows "dac_isr_full_code cb d s = Ok (d, s')"
  using assms by (auto simp: dac_isr_full_code_def dac_active_def)

lemma gpt_start_eq:
  assumes "running k"
  shows "gptStartContinuous n d k =
    (if gpt_state d = GPT_READY
     then Ok (gpt_do (gpt_lld_start_timer n) (d\<lparr>gpt_state := GPT_CONTINUOUS\<rparr>), k) else Halt ''gptStartContinuousI'')"
  using assms by (simp add: gptStartContinuous_def hal_locked_eq gptStartContinuousI_def kguard_def)

lemma gpt_stop_eq:
  assumes "running k"
  shows "gptStopTimer d k =
    (if gpt_state d \<in> {GPT_READY, GPT_CONTINUOUS, GPT_ONESHOT}
     then Ok (gpt_do gpt_lld_stop_timer (d\<lparr>gpt_state := GPT_READY\<rparr>), k) else Halt ''gptStopTimerI'')"
  using assms by (simp add: gptStopTimer_def hal_locked_eq gptStopTimerI_def kguard_def)

section \<open>Properties\<close>

text \<open>
  Starting a conversion on a driver that is ready or converting succeeds exactly when it is
  ready and the buffer is valid (not \<open>NULL\<close>, and for the ADC not empty; one sample or an even number
  of samples); in every other case the check halts the system. This holds for the ADC and the
  DAC driver.
\<close>

theorem conversion_start_iff:
  assumes "running k" and "adc_ready da \<or> adc_active da" and "dac_ready dd \<or> dac_active dd"
  shows "((\<exists>r. adcStartConversion ga a n da k = Ok r) \<longleftrightarrow> adc_ready da \<and> adc_valid a n) \<and>
    ((\<exists>r. dacStartConversion gd a n dd k = Ok r) \<longleftrightarrow> dac_ready dd \<and> dac_valid a n)"
  using adc.start_iff [OF assms(1,2)] dac.start_iff [OF assms(1,3)] by simp

definition demo_adc :: ADCDriver where
  "demo_adc = \<lparr>adc_state = ADC_READY, adc_config = True, adc_samples = NULL, adc_depth = 0, adc_grpp = None, adc_lld = []\<rparr>"

definition demo_dac :: DACDriver where
  "demo_dac = \<lparr>dac_state = DAC_READY, dac_config = True, dac_samples = NULL, dac_depth = 0, dac_grpp = None, dac_lld = []\<rparr>"

lemma demo_running: "running (demo_kernel\<lparr>lock_cnt := 0\<rparr>)"
  using demo_kernel_ok by (simp add: running_def sched_ok_def thread_idle_ctx_def thd_ctx_def)

theorem conversion_start_iff_witness:
  "(\<exists>r. adcStartConversion \<lparr>adc_circular = True, adc_num_channels = 1, adc_has_end_cb = True, adc_has_error_cb = False\<rparr>
      0x20008000 8192 demo_adc (demo_kernel\<lparr>lock_cnt := 0\<rparr>) = Ok r) \<and>
   \<not> (\<exists>r. dacStartConversion \<lparr>dac_num_channels = 1, dac_has_end_cb = True, dac_has_error_cb = False\<rparr>
      0x2000C000 7 demo_dac (demo_kernel\<lparr>lock_cnt := 0\<rparr>) = Ok r)"
  using conversion_start_iff [OF demo_running, of demo_adc demo_dac]
  by (simp add: demo_adc_def demo_dac_def adc_ready_def dac_ready_def adc_valid_def dac_valid_def depth_ok_def)

end
