(* ===== verification/Fifo.thy ===== *)
theory Fifo
  imports Prelude
begin

text \<open>
  Bounded first-in first-out buffers: the contract that clients of a mailbox rely on (locale
  \<open>bounded_fifo\<close>), and the arithmetic of ring buffers that mailboxes and queues of I/O buffers share.
\<close>

section \<open>The contract\<close>

locale bounded_fifo =
  fixes inv :: "'s \<Rightarrow> bool" and cap :: "'s \<Rightarrow> nat" and items :: "'s \<Rightarrow> 'a list"
    and put :: "'a \<Rightarrow> 's \<Rightarrow> 's" and get :: "'s \<Rightarrow> 'a \<times> 's"
  assumes bound: "inv s \<Longrightarrow> length (items s) \<le> cap s"
    and put_inv: "inv s \<Longrightarrow> length (items s) < cap s \<Longrightarrow> inv (put x s)"
    and put_cap: "inv s \<Longrightarrow> length (items s) < cap s \<Longrightarrow> cap (put x s) = cap s"
    and put_items: "inv s \<Longrightarrow> length (items s) < cap s \<Longrightarrow> items (put x s) = items s @ [x]"
    and get_inv: "inv s \<Longrightarrow> items s \<noteq> [] \<Longrightarrow> inv (snd (get s))"
    and get_cap: "inv s \<Longrightarrow> items s \<noteq> [] \<Longrightarrow> cap (snd (get s)) = cap s"
    and get_items: "inv s \<Longrightarrow> items s \<noteq> [] \<Longrightarrow> items s = fst (get s) # items (snd (get s))"
begin

text \<open>A sequence of puts followed by a sequence of gets returns the items in order.\<close>

fun puts :: "'a list \<Rightarrow> 's \<Rightarrow> 's" where
  "puts [] s = s"
| "puts (x # xs) s = puts xs (put x s)"

fun gets :: "nat \<Rightarrow> 's \<Rightarrow> 'a list \<times> 's" where
  "gets 0 s = ([], s)"
| "gets (Suc n) s = (let (x, s) = get s; (xs, s) = gets n s in (x # xs, s))"

lemma puts_items:
  "inv s \<Longrightarrow> length (items s) + length xs \<le> cap s \<Longrightarrow>
   inv (puts xs s) \<and> cap (puts xs s) = cap s \<and> items (puts xs s) = items s @ xs"
proof (induction xs arbitrary: s)
  case (Cons x xs)
  then have "length (items s) < cap s" by simp
  note p = put_inv [OF Cons(2) this, of x] put_cap [OF Cons(2) this, of x] put_items [OF Cons(2) this, of x]
  show ?case using Cons(1) [OF p(1)] Cons(3) p(2,3) by simp
qed simp

lemma gets_items:
  "inv s \<Longrightarrow> n \<le> length (items s) \<Longrightarrow>
   fst (gets n s) = take n (items s) \<and> inv (snd (gets n s)) \<and> items (snd (gets n s)) = drop n (items s)"
proof (induction n arbitrary: s)
  case (Suc n)
  then have ne: "items s \<noteq> []" by auto
  note g = get_inv [OF Suc(2) ne] get_items [OF Suc(2) ne]
  have len: "n \<le> length (items (snd (get s)))" using Suc(3) g(2) by (metis Suc_le_mono length_Cons)
  have t: "take (Suc n) (items s) = fst (get s) # take n (items (snd (get s)))"
    "drop (Suc n) (items s) = drop n (items (snd (get s)))" by (subst g(2), simp)+
  show ?case using Suc(1) [OF g(1) len] unfolding t by (simp add: case_prod_unfold Let_def)
qed simp

lemma fifo_order:
  assumes "inv s" and "items s = []" and "length xs \<le> cap s"
  shows "fst (gets (length xs) (puts xs s)) = xs" and "items (snd (gets (length xs) (puts xs s))) = []"
  using puts_items [OF assms(1), of xs] gets_items [of "puts xs s" "length xs"] assms(2,3) by simp_all

end

section \<open>Ring buffers\<close>

definition ring_items :: "'a list \<Rightarrow> nat \<Rightarrow> nat \<Rightarrow> 'a list" where
  "ring_items buf rd n = map (\<lambda>i. buf ! ((rd + i) mod length buf)) [0..<n]"

lemma length_ring_items [simp]: "length (ring_items buf rd n) = n"
  by (simp add: ring_items_def)

lemma ring_items_0 [simp]: "ring_items buf rd 0 = []"
  by (simp add: ring_items_def)

lemma wrap_mod: "w < n \<Longrightarrow> (if Suc w \<ge> n then 0 else Suc w) = Suc w mod n"
  by (simp add: mod_Suc)

lemma unwrap_mod: "(r::nat) < n \<Longrightarrow> (if r = 0 then n - 1 else r - 1) = (r + n - 1) mod n"
  by (cases r) simp_all

lemma mod_neq:
  fixes rd i c n :: nat
  assumes "i < c" and "c < n"
  shows "(rd + c) mod n \<noteq> (rd + i) mod n"
proof
  assume "(rd + c) mod n = (rd + i) mod n"
  moreover have "rd + i \<le> rd + c" using assms by simp
  ultimately have "n dvd (rd + c) - (rd + i)" using mod_eq_dvd_iff_nat by blast
  then have "n dvd c - i" by simp
  then show False using assms by (auto dest: dvd_imp_le)
qed

lemma ring_put:
  assumes "c < length buf"
  shows "ring_items (buf[(rd + c) mod length buf := x]) rd (Suc c) = ring_items buf rd c @ [x]"
proof -
  have "(rd + c) mod length buf \<noteq> (rd + i) mod length buf" if "i < c" for i using mod_neq [OF that assms] .
  moreover have "(rd + c) mod length buf < length buf" using assms by (intro mod_less_divisor) auto
  ultimately show ?thesis by (auto simp: ring_items_def)
qed

text \<open>The cell behind the last item is free to be written.\<close>

lemma ring_items_free:
  assumes "c < length buf"
  shows "ring_items (buf[(rd + c) mod length buf := x]) rd c = ring_items buf rd c"
proof -
  have "(rd + c) mod length buf \<noteq> (rd + i) mod length buf" if "i < c" for i using mod_neq [OF that assms] .
  then show ?thesis by (auto simp: ring_items_def)
qed

text \<open>The write position is the read position exactly if the ring is empty or full.\<close>

lemma ring_full:
  fixes rd c n :: nat
  assumes "rd < n" and "c \<le> n"
  shows "(rd + c) mod n = rd \<longleftrightarrow> c = 0 \<or> c = n"
  using mod_neq [of 0 c n rd] assms by (cases "c = n") auto

lemma ring_get:
  assumes "c > 0" and "rd < length buf"
  shows "ring_items buf rd c = buf ! rd # ring_items buf (Suc rd mod length buf) (c - 1)"
proof -
  obtain d where c: "c = Suc d" using assms(1) by (cases c) auto
  have "[0..<Suc d] = 0 # map Suc [0..<d]" by (simp add: upt_conv_Cons map_Suc_upt)
  moreover have "(rd + Suc i) mod length buf = (Suc rd mod length buf + i) mod length buf" for i
    by (simp add: mod_simps)
  ultimately show ?thesis using assms(2) unfolding ring_items_def c by (simp add: comp_def del: upt_Suc)
qed

lemma ring_put_ahead:
  assumes "c < length buf" and "rd < length buf"
  shows "ring_items (buf[(rd + length buf - 1) mod length buf := x]) ((rd + length buf - 1) mod length buf) (Suc c) =
    x # ring_items buf rd c"
proof -
  let ?n = "length buf" let ?r = "(rd + ?n - 1) mod ?n"
  have r: "?r < ?n" using assms by (intro mod_less_divisor) auto
  have s: "Suc ?r mod ?n = rd"
  proof -
    have "Suc (rd + ?n - 1) = rd + ?n" using assms by simp
    then have "Suc ?r mod ?n = (rd + ?n) mod ?n" using mod_Suc_eq [of "rd + ?n - 1" ?n] by simp
    then show ?thesis using assms by simp
  qed
  have "ring_items (buf[?r := x]) ?r (Suc c) = x # ring_items (buf[?r := x]) rd c"
    using ring_get [of "Suc c" ?r "buf[?r := x]"] r s by simp
  moreover have "?r \<noteq> (rd + i) mod ?n" if "i < c" for i
  proof -
    have "(rd + (?n - 1)) mod ?n \<noteq> (rd + i) mod ?n" using that assms by (intro mod_neq) auto
    then show ?thesis using assms by (simp add: add_diff_assoc)
  qed
  ultimately show ?thesis by (auto simp: ring_items_def)
qed

end
