(* ===== verification/Mailboxes.thy ===== *)
theory Mailboxes
  imports Threads Fifo
begin

text \<open>
  Mailboxes (\<open>os/oslib/src/chmboxes.c\<close>, \<open>os/oslib/include/chmboxes.h\<close>): a ring buffer of
  messages with a queue of waiting writers and one of waiting readers. The pointers into the
  buffer are offsets from its start; \<open>top\<close> is its length.

  The blocking calls are loops around a sleep. \<open>put_turn\<close> (for posts, given the way the message is stored) and \<open>fetch_turn\<close> are
  the code from the head of the loop to the return or the sleep; the resumed half of a call
  evaluates the wakeup message and either leaves the loop or takes the next turn.
  The ring buffer is shown to be a bounded FIFO in the sense of theory \<open>Fifo\<close>.
\<close>

section \<open>The ring buffer\<close>

definition mb_put :: "msg_t \<Rightarrow> mailbox \<Rightarrow> mailbox" where
  "mb_put msg m =
     m\<lparr>mb_buffer := (mb_buffer m)[mb_wrptr m := msg],
       mb_wrptr := (if Suc (mb_wrptr m) \<ge> length (mb_buffer m) then 0 else Suc (mb_wrptr m)),
       mb_cnt := mb_cnt m + 1\<rparr>"

definition mb_put_ahead :: "msg_t \<Rightarrow> mailbox \<Rightarrow> mailbox" where
  "mb_put_ahead msg m =
     (let rd = (if mb_rdptr m = 0 then length (mb_buffer m) - 1 else mb_rdptr m - 1)
      in m\<lparr>mb_rdptr := rd, mb_buffer := (mb_buffer m)[rd := msg], mb_cnt := mb_cnt m + 1\<rparr>)"

definition mb_get :: "mailbox \<Rightarrow> msg_t \<times> mailbox" where
  "mb_get m =
     (mb_buffer m ! mb_rdptr m,
      m\<lparr>mb_rdptr := (if Suc (mb_rdptr m) \<ge> length (mb_buffer m) then 0 else Suc (mb_rdptr m)),
        mb_cnt := mb_cnt m - 1\<rparr>)"

section \<open>Operations\<close>

definition upd_mb :: "ptr \<Rightarrow> (mailbox \<Rightarrow> mailbox) \<Rightarrow> kernel \<Rightarrow> kernel" where
  "upd_mb mbp f k = k\<lparr>mboxes := (mboxes k)(mbp := f (mboxes k mbp))\<rparr>"

definition chMBObjectInit :: "ptr \<Rightarrow> msg_t list \<Rightarrow> kernel \<Rightarrow> kernel kres" where
  "chMBObjectInit mbp buf k =
     kguard (mbp \<noteq> NULL \<and> length buf > 0) ''chMBObjectInit'' (
     Ok (upd_q (MBQR mbp) (\<lambda>_. []) (upd_q (MBQW mbp) (\<lambda>_. [])
       (upd_mb mbp (\<lambda>_. \<lparr>mb_buffer = buf, mb_wrptr = 0, mb_rdptr = 0, mb_cnt = 0, mb_reset = False\<rparr>) k))))"

definition chMBGetSizeI :: "ptr \<Rightarrow> kernel \<Rightarrow> nat" where
  "chMBGetSizeI mbp k = length (mb_buffer (mboxes k mbp))"

definition chMBGetUsedCountI :: "ptr \<Rightarrow> kernel \<Rightarrow> nat kres" where
  "chMBGetUsedCountI mbp k = chDbgCheckClassI k (Ok (mb_cnt (mboxes k mbp)))"

definition chMBGetFreeCountI :: "ptr \<Rightarrow> kernel \<Rightarrow> nat kres" where
  "chMBGetFreeCountI mbp k =
     chDbgCheckClassI k (kbind (chMBGetUsedCountI mbp k) (\<lambda>used. Ok (chMBGetSizeI mbp k - used)))"

definition chMBPeekI :: "ptr \<Rightarrow> kernel \<Rightarrow> msg_t kres" where
  "chMBPeekI mbp k = chDbgCheckClassI k (Ok (mb_buffer (mboxes k mbp) ! mb_rdptr (mboxes k mbp)))"

definition chMBResumeX :: "ptr \<Rightarrow> kernel \<Rightarrow> kernel" where
  "chMBResumeX mbp k = upd_mb mbp (mb_reset_update (\<lambda>_. False)) k"

definition chMBResetI :: "ptr \<Rightarrow> kernel \<Rightarrow> kernel kres" where
  "chMBResetI mbp k =
     chDbgCheckClassI k (
     kguard (mbp \<noteq> NULL) ''chMBResetI'' (
     kbind (chThdDequeueAllI (MBQW mbp) MSG_RESET
              (upd_mb mbp (\<lambda>m. m\<lparr>mb_wrptr := 0, mb_rdptr := 0, mb_cnt := 0, mb_reset := True\<rparr>) k))
       (chThdDequeueAllI (MBQR mbp) MSG_RESET)))"

definition chMBReset :: "ptr \<Rightarrow> kernel \<Rightarrow> kernel kres" where
  "chMBReset mbp = locked (\<lambda>k. kbind (chMBResetI mbp k) chSchRescheduleS)"

definition chMBPostI :: "ptr \<Rightarrow> msg_t \<Rightarrow> kernel \<Rightarrow> (msg_t \<times> kernel) kres" where
  "chMBPostI mbp msg k =
     chDbgCheckClassI k (
     kguard (mbp \<noteq> NULL) ''chMBPostI'' (
     if mb_reset (mboxes k mbp) then Ok (MSG_RESET, k)
     else kbind (chMBGetFreeCountI mbp k) (\<lambda>free.
       if free > 0
       then kbind (chThdDequeueNextI (MBQR mbp) MSG_OK (upd_mb mbp (mb_put msg) k)) (\<lambda>k. Ok (MSG_OK, k))
       else Ok (MSG_TIMEOUT, k))))"

definition chMBPostAheadI :: "ptr \<Rightarrow> msg_t \<Rightarrow> kernel \<Rightarrow> (msg_t \<times> kernel) kres" where
  "chMBPostAheadI mbp msg k =
     chDbgCheckClassI k (
     kguard (mbp \<noteq> NULL) ''chMBPostAheadI'' (
     if mb_reset (mboxes k mbp) then Ok (MSG_RESET, k)
     else kbind (chMBGetFreeCountI mbp k) (\<lambda>free.
       if free > 0
       then kbind (chThdDequeueNextI (MBQR mbp) MSG_OK (upd_mb mbp (mb_put_ahead msg) k)) (\<lambda>k. Ok (MSG_OK, k))
       else Ok (MSG_TIMEOUT, k))))"

definition chMBFetchI :: "ptr \<Rightarrow> kernel \<Rightarrow> ((msg_t \<times> msg_t option) \<times> kernel) kres" where
  "chMBFetchI mbp k =
     chDbgCheckClassI k (
     kguard (mbp \<noteq> NULL) ''chMBFetchI'' (
     if mb_reset (mboxes k mbp) then Ok ((MSG_RESET, None), k)
     else kbind (chMBGetUsedCountI mbp k) (\<lambda>used.
       if used > 0
       then let (m, mb) = mb_get (mboxes k mbp)
            in kbind (chThdDequeueNextI (MBQW mbp) MSG_OK (upd_mb mbp (\<lambda>_. mb) k)) (\<lambda>k. Ok ((MSG_OK, Some m), k))
       else Ok ((MSG_TIMEOUT, None), k))))"

text \<open>One turn of the loops of the blocking operations; \<open>put\<close> is the way the message is stored.\<close>

definition put_turn ::
  "(msg_t \<Rightarrow> mailbox \<Rightarrow> mailbox) \<Rightarrow> ptr \<Rightarrow> msg_t \<Rightarrow> u32 \<Rightarrow> kernel \<Rightarrow> (msg_t wait \<times> kernel) kres" where
  "put_turn put mbp msg timeout k =
     (if mb_reset (mboxes k mbp) then Ok (Returned MSG_RESET, k)
      else kbind (chMBGetFreeCountI mbp k) (\<lambda>free.
        if free > 0
        then kbind (chThdDequeueNextI (MBQR mbp) MSG_OK (upd_mb mbp (put msg) k)) (\<lambda>k.
             kbind (chSchRescheduleS k) (\<lambda>k. Ok (Returned MSG_OK, k)))
        else chThdEnqueueTimeoutS (MBQW mbp) timeout k))"

definition put_resume ::
  "(msg_t \<Rightarrow> mailbox \<Rightarrow> mailbox) \<Rightarrow> ptr \<Rightarrow> msg_t \<Rightarrow> u32 \<Rightarrow> kernel \<Rightarrow> (msg_t wait \<times> kernel) kres" where
  "put_resume put mbp msg timeout k =
     kbind (chSchGoSleepTimeoutS_resume timeout k) (\<lambda>(rdymsg, k).
     if rdymsg = MSG_OK then put_turn put mbp msg timeout k else Ok (Returned rdymsg, k))"

definition chMBPostTimeoutS :: "ptr \<Rightarrow> msg_t \<Rightarrow> u32 \<Rightarrow> kernel \<Rightarrow> (msg_t wait \<times> kernel) kres" where
  "chMBPostTimeoutS mbp msg timeout k =
     chDbgCheckClassS k (kguard (mbp \<noteq> NULL) ''chMBPostTimeoutS'' (put_turn mb_put mbp msg timeout k))"

definition chMBPostAheadTimeoutS :: "ptr \<Rightarrow> msg_t \<Rightarrow> u32 \<Rightarrow> kernel \<Rightarrow> (msg_t wait \<times> kernel) kres" where
  "chMBPostAheadTimeoutS mbp msg timeout k =
     chDbgCheckClassS k (kguard (mbp \<noteq> NULL) ''chMBPostAheadTimeoutS'' (put_turn mb_put_ahead mbp msg timeout k))"

definition chMBPostTimeout :: "ptr \<Rightarrow> msg_t \<Rightarrow> u32 \<Rightarrow> kernel \<Rightarrow> (msg_t wait \<times> kernel) kres" where
  "chMBPostTimeout mbp msg timeout = locked_wait (chMBPostTimeoutS mbp msg timeout)"

definition chMBPostAheadTimeout :: "ptr \<Rightarrow> msg_t \<Rightarrow> u32 \<Rightarrow> kernel \<Rightarrow> (msg_t wait \<times> kernel) kres" where
  "chMBPostAheadTimeout mbp msg timeout = locked_wait (chMBPostAheadTimeoutS mbp msg timeout)"

definition fetch_turn :: "ptr \<Rightarrow> u32 \<Rightarrow> kernel \<Rightarrow> ((msg_t \<times> msg_t option) wait \<times> kernel) kres" where
  "fetch_turn mbp timeout k =
     (if mb_reset (mboxes k mbp) then Ok (Returned (MSG_RESET, None), k)
      else kbind (chMBGetUsedCountI mbp k) (\<lambda>used.
        if used > 0
        then let (m, mb) = mb_get (mboxes k mbp)
             in kbind (chThdDequeueNextI (MBQW mbp) MSG_OK (upd_mb mbp (\<lambda>_. mb) k)) (\<lambda>k.
                kbind (chSchRescheduleS k) (\<lambda>k. Ok (Returned (MSG_OK, Some m), k)))
        else kbind (chThdEnqueueTimeoutS (MBQR mbp) timeout k) (\<lambda>(r, k).
             case r of Returned rdymsg \<Rightarrow> Ok (Returned (rdymsg, None), k) | Asleep \<Rightarrow> Ok (Asleep, k))))"

definition chMBFetchTimeoutS :: "ptr \<Rightarrow> u32 \<Rightarrow> kernel \<Rightarrow> ((msg_t \<times> msg_t option) wait \<times> kernel) kres" where
  "chMBFetchTimeoutS mbp timeout k =
     chDbgCheckClassS k (kguard (mbp \<noteq> NULL) ''chMBFetchTimeoutS'' (fetch_turn mbp timeout k))"

definition chMBFetchTimeoutS_resume :: "ptr \<Rightarrow> u32 \<Rightarrow> kernel \<Rightarrow> ((msg_t \<times> msg_t option) wait \<times> kernel) kres" where
  "chMBFetchTimeoutS_resume mbp timeout k =
     kbind (chSchGoSleepTimeoutS_resume timeout k) (\<lambda>(rdymsg, k).
     if rdymsg = MSG_OK then fetch_turn mbp timeout k else Ok (Returned (rdymsg, None), k))"

definition chMBFetchTimeout :: "ptr \<Rightarrow> u32 \<Rightarrow> kernel \<Rightarrow> ((msg_t \<times> msg_t option) wait \<times> kernel) kres" where
  "chMBFetchTimeout mbp timeout = locked_wait (chMBFetchTimeoutS mbp timeout)"

section \<open>The ring buffer is a bounded FIFO\<close>

definition mb_ok :: "mailbox \<Rightarrow> bool" where
  "mb_ok m \<longleftrightarrow> mb_rdptr m < length (mb_buffer m) \<and> mb_cnt m \<le> length (mb_buffer m) \<and>
     mb_wrptr m = (mb_rdptr m + mb_cnt m) mod length (mb_buffer m)"

definition mb_items :: "mailbox \<Rightarrow> msg_t list" where
  "mb_items m = ring_items (mb_buffer m) (mb_rdptr m) (mb_cnt m)"

abbreviation mb_cap :: "mailbox \<Rightarrow> nat" where "mb_cap m \<equiv> length (mb_buffer m)"

lemma length_mb_items [simp]: "length (mb_items m) = mb_cnt m"
  by (simp add: mb_items_def)

lemma mb_items_Nil [simp]: "mb_items m = [] \<longleftrightarrow> mb_cnt m = 0"
  by (metis length_0_conv length_mb_items)

lemma mb_put_ok:
  assumes "mb_ok m" and "mb_cnt m < mb_cap m"
  shows "mb_ok (mb_put x m)" and "mb_items (mb_put x m) = mb_items m @ [x]" and "mb_cap (mb_put x m) = mb_cap m"
proof -
  have w: "mb_wrptr m < mb_cap m" "mb_wrptr m = (mb_rdptr m + mb_cnt m) mod mb_cap m"
    using assms by (auto simp: mb_ok_def intro: mod_less_divisor)
  show "mb_ok (mb_put x m)"
    using assms w wrap_mod [OF w(1)] by (simp add: mb_ok_def mb_put_def mod_Suc_eq)
  show "mb_items (mb_put x m) = mb_items m @ [x]"
    using ring_put [OF assms(2), of "mb_rdptr m" x] w by (simp add: mb_items_def mb_put_def)
qed (simp add: mb_put_def)

lemma mb_put_ahead_ok:
  assumes "mb_ok m" and "mb_cnt m < mb_cap m"
  shows "mb_ok (mb_put_ahead x m)" and "mb_items (mb_put_ahead x m) = x # mb_items m"
    and "mb_cap (mb_put_ahead x m) = mb_cap m"
proof -
  let ?n = "mb_cap m" let ?r = "(mb_rdptr m + ?n - 1) mod ?n"
  have rd: "mb_rdptr m < ?n" using assms by (simp add: mb_ok_def)
  have r: "mb_rdptr (mb_put_ahead x m) = ?r" "mb_buffer (mb_put_ahead x m) = (mb_buffer m)[?r := x]"
    using unwrap_mod [OF rd] by (simp_all add: mb_put_ahead_def Let_def)
  have "(?r + Suc (mb_cnt m)) mod ?n = (mb_rdptr m + ?n - 1 + Suc (mb_cnt m)) mod ?n" by (rule mod_add_left_eq)
  also have "mb_rdptr m + ?n - 1 + Suc (mb_cnt m) = mb_rdptr m + mb_cnt m + ?n" using rd by simp
  finally have "(?r + Suc (mb_cnt m)) mod ?n = mb_wrptr m" using assms by (simp add: mb_ok_def)
  moreover have "?r < ?n" using rd by (intro mod_less_divisor) auto
  ultimately show "mb_ok (mb_put_ahead x m)"
    using assms r by (simp add: mb_ok_def) (simp add: mb_put_ahead_def Let_def)
  show "mb_items (mb_put_ahead x m) = x # mb_items m"
    using ring_put_ahead [OF assms(2) rd, of x] r unfolding mb_items_def by (simp add: mb_put_ahead_def Let_def)
  show "mb_cap (mb_put_ahead x m) = ?n" using r(2) by simp
qed

lemma mb_get_ok:
  assumes "mb_ok m" and "mb_cnt m > 0"
  shows "mb_ok (snd (mb_get m))" and "mb_items m = fst (mb_get m) # mb_items (snd (mb_get m))"
    and "mb_cap (snd (mb_get m)) = mb_cap m"
proof -
  let ?n = "mb_cap m"
  have rd: "mb_rdptr m < ?n" using assms by (simp add: mb_ok_def)
  have "(Suc (mb_rdptr m) mod ?n + (mb_cnt m - 1)) mod ?n = (mb_rdptr m + mb_cnt m) mod ?n"
    using assms(2) mod_add_left_eq [of "Suc (mb_rdptr m)" ?n "mb_cnt m - 1"] by simp
  moreover have "Suc (mb_rdptr m) mod ?n < ?n" using rd by (intro mod_less_divisor) auto
  moreover have "mb_cnt m - Suc 0 \<le> ?n" using assms(1) by (auto simp: mb_ok_def)
  ultimately show "mb_ok (snd (mb_get m))"
    using assms wrap_mod [OF rd] by (simp add: mb_ok_def mb_get_def)
  show "mb_items m = fst (mb_get m) # mb_items (snd (mb_get m))"
    using ring_get [OF assms(2) rd] wrap_mod [OF rd] by (simp add: mb_items_def mb_get_def)
qed (simp add: mb_get_def)

interpretation mbf: bounded_fifo mb_ok mb_cap mb_items mb_put mb_get
  by unfold_locales (use mb_put_ok mb_get_ok in \<open>auto simp: mb_ok_def [of _]\<close>)

section \<open>Mailboxes in the kernel\<close>

definition mbox_inv :: "ptr \<Rightarrow> kernel \<Rightarrow> bool" where
  "mbox_inv mbp k \<longleftrightarrow> mbp \<noteq> NULL \<and> mb_ok (mboxes k mbp) \<and>
     (\<forall>t\<in>set (queues k (MBQR mbp)) \<union> set (queues k (MBQW mbp)). state_of k t = CH_STATE_QUEUED)"

lemma upd_mb_frame [simp]:
  "threads (upd_mb m f k) = threads k" "queues (upd_mb m f k) = queues k" "currp (upd_mb m f k) = currp k"
  "mboxes (upd_mb m f k) = (mboxes k)(m := f (mboxes k m))"
  "thd_ctx (upd_mb m f k) = thd_ctx k" "i_ctx (upd_mb m f k) = i_ctx k" "isr_ctx (upd_mb m f k) = isr_ctx k"
  "sched_inv (upd_mb m f k) = sched_inv k" "sched_order (upd_mb m f k) = sched_order k"
  "isr_cnt (upd_mb m f k) = isr_cnt k" "lock_cnt (upd_mb m f k) = lock_cnt k"
  by (simp_all add: upd_mb_def isr_ctx_def)

text \<open>\<open>dequeued q msg k\<close>: the first thread of the queue, if any, has been made ready.\<close>

definition dequeued :: "qref \<Rightarrow> msg_t \<Rightarrow> kernel \<Rightarrow> kernel" where
  "dequeued q msg k = (case queues k q of [] \<Rightarrow> k
     | t # ts \<Rightarrow> ready_behind t (set_u msg t (upd_q q (\<lambda>_. ts) k)))"

lemma chThdDequeueNextI_eq:
  assumes "sched_inv k" and "i_ctx k" and "q \<noteq> RLIST" and "\<forall>t\<in>set (queues k q). state_of k t = CH_STATE_QUEUED"
  shows "chThdDequeueNextI q msg k = Ok (dequeued q msg k)" and "sched_inv (dequeued q msg k)"
proof -
  have "chThdDequeueNextI q msg k = Ok (dequeued q msg k) \<and> sched_inv (dequeued q msg k)"
  proof (cases "queues k q")
    case Nil
    then show ?thesis using assms(1) by (simp add: chThdDequeueNextI_def dequeued_def)
  next
    case (Cons t ts)
    then show ?thesis
      using chThdDoDequeueNextI_ok [OF assms(1-3) Cons, of msg] assms(4)
      by (simp add: chThdDequeueNextI_def dequeued_def)
  qed
  then show "chThdDequeueNextI q msg k = Ok (dequeued q msg k)" "sched_inv (dequeued q msg k)" by auto
qed

lemma dequeued_frame [simp]:
  "mboxes (dequeued q msg k) = mboxes k" "currp (dequeued q msg k) = currp k"
  "thd_ctx (dequeued q msg k) = thd_ctx k" "i_ctx (dequeued q msg k) = i_ctx k"
  "isr_cnt (dequeued q msg k) = isr_cnt k" "lock_cnt (dequeued q msg k) = lock_cnt k"
  by (simp_all add: dequeued_def split: list.split)

lemma dequeued_queues:
  "p \<noteq> RLIST \<Longrightarrow> queues (dequeued q msg k) p = (if p = q then tl (queues k q) else queues k p)"
  by (auto simp: dequeued_def split: list.split)

lemma dequeued_state:
  "state_of (dequeued q msg k) t =
     (if queues k q \<noteq> [] \<and> t = hd (queues k q) then CH_STATE_READY else state_of k t)"
  by (auto simp: dequeued_def split: list.split)

lemma mbox_inv_dequeued:
  assumes "sched_inv k" and "mbox_inv mbp k" and "q \<in> {MBQR mbp, MBQW mbp}"
  shows "mbox_inv mbp (dequeued q msg k)"
proof (cases "queues k q")
  case Nil
  then show ?thesis using assms(2) by (simp add: dequeued_def)
next
  case (Cons t ts)
  have "t \<notin> set ts" using sched_invD(2) [OF assms(1), of q] Cons by simp
  moreover have "t \<notin> set (queues k p)" if "p \<noteq> q" for p
    using sched_invD(3) [OF assms(1), of t p q] Cons that by auto
  ultimately show ?thesis
    using assms(2,3) Cons by (auto simp: mbox_inv_def dequeued_queues dequeued_state)
qed

lemma mbox_inv_upd_mb: "mbox_inv mbp k \<Longrightarrow> mb_ok (f (mboxes k mbp)) \<Longrightarrow> mbox_inv mbp (upd_mb mbp f k)"
  by (simp add: mbox_inv_def)

lemma chMBPostI_eq:
  assumes "sched_inv k" and "i_ctx k" and "mbox_inv mbp k"
  shows "chMBPostI mbp msg k =
    Ok (if mb_reset (mboxes k mbp) then (MSG_RESET, k)
        else if mb_cnt (mboxes k mbp) < mb_cap (mboxes k mbp)
        then (MSG_OK, dequeued (MBQR mbp) MSG_OK (upd_mb mbp (mb_put msg) k))
        else (MSG_TIMEOUT, k))"
  using assms chThdDequeueNextI_eq(1) [of "upd_mb mbp (mb_put msg) k" "MBQR mbp" MSG_OK]
  by (simp add: chMBPostI_def chMBGetFreeCountI_def chMBGetUsedCountI_def chMBGetSizeI_def mbox_inv_def)

lemma chMBFetchI_eq:
  assumes "sched_inv k" and "i_ctx k" and "mbox_inv mbp k"
  shows "chMBFetchI mbp k =
    Ok (if mb_reset (mboxes k mbp) then ((MSG_RESET, None), k)
        else if mb_cnt (mboxes k mbp) > 0
        then ((MSG_OK, Some (fst (mb_get (mboxes k mbp)))),
              dequeued (MBQW mbp) MSG_OK (upd_mb mbp (\<lambda>_. snd (mb_get (mboxes k mbp))) k))
        else ((MSG_TIMEOUT, None), k))"
  using assms chThdDequeueNextI_eq(1) [of "upd_mb mbp (\<lambda>_. snd (mb_get (mboxes k mbp))) k" "MBQW mbp" MSG_OK]
  by (simp add: chMBFetchI_def chMBGetUsedCountI_def mbox_inv_def case_prod_unfold Let_def)

lemma chThdDequeueAllI_mb:
  assumes "sched_inv k" and "i_ctx k" and "q \<noteq> RLIST" and "\<forall>t\<in>set (queues k q). state_of k t = CH_STATE_QUEUED"
  obtains k' where "chThdDequeueAllI q msg k = Ok k'" "sched_inv k'" "queues k' q = []" "mboxes k' = mboxes k"
    "isr_cnt k' = isr_cnt k" "lock_cnt k' = lock_cnt k" "currp k' = currp k"
    "\<forall>t\<in>set (queues k q). state_of k' t = CH_STATE_READY \<and> rdymsg_of k' t = msg"
    "\<forall>t. t \<notin> set (queues k q) \<longrightarrow> threads k' t = threads k t"
    "\<forall>p. p \<noteq> RLIST \<longrightarrow> p \<noteq> q \<longrightarrow> queues k' p = queues k p"
  using dequeue_all_ok [OF assms(1-3) order_refl assms(4), of msg] unfolding chThdDequeueAllI_def by metis

lemma chMBResetI_ok:
  assumes inv: "sched_inv k" and ctx: "i_ctx k" and mb: "mbox_inv mbp k"
  shows "\<exists>k'. chMBResetI mbp k = Ok k' \<and> sched_inv k' \<and> mbox_inv mbp k' \<and> isr_cnt k' = isr_cnt k \<and> lock_cnt k' = lock_cnt k \<and>
    mb_items (mboxes k' mbp) = [] \<and> mb_reset (mboxes k' mbp) \<and> mb_cap (mboxes k' mbp) = mb_cap (mboxes k mbp) \<and>
    queues k' (MBQR mbp) = [] \<and> queues k' (MBQW mbp) = [] \<and> currp k' = currp k \<and>
    (\<forall>t\<in>set (queues k (MBQR mbp)) \<union> set (queues k (MBQW mbp)).
       state_of k' t = CH_STATE_READY \<and> rdymsg_of k' t = MSG_RESET)"
proof -
  let ?k = "upd_mb mbp (\<lambda>m. m\<lparr>mb_wrptr := 0, mb_rdptr := 0, mb_cnt := 0, mb_reset := True\<rparr>) k"
  have k: "sched_inv ?k" "i_ctx ?k" "\<forall>t\<in>set (queues ?k (MBQW mbp)). state_of ?k t = CH_STATE_QUEUED"
    using assms by (auto simp: mbox_inv_def)
  have nr: "MBQW mbp \<noteq> RLIST" "MBQR mbp \<noteq> RLIST" by simp_all
  obtain k1 where k1: "chThdDequeueAllI (MBQW mbp) MSG_RESET ?k = Ok k1" "sched_inv k1" "queues k1 (MBQW mbp) = []"
    "mboxes k1 = mboxes ?k" "isr_cnt k1 = isr_cnt ?k" "lock_cnt k1 = lock_cnt ?k" "currp k1 = currp ?k"
    "\<forall>t\<in>set (queues ?k (MBQW mbp)). state_of k1 t = CH_STATE_READY \<and> rdymsg_of k1 t = MSG_RESET"
    "\<forall>t. t \<notin> set (queues ?k (MBQW mbp)) \<longrightarrow> threads k1 t = threads ?k t"
    "\<forall>p. p \<noteq> RLIST \<longrightarrow> p \<noteq> MBQW mbp \<longrightarrow> queues k1 p = queues ?k p"
    by (rule chThdDequeueAllI_mb [OF k(1,2) nr(1) k(3)]) (rule that; assumption)
  have r: "queues k1 (MBQR mbp) = queues k (MBQR mbp)" using k1(10) by simp
  have dis: "t \<notin> set (queues k (MBQW mbp))" if "t \<in> set (queues k (MBQR mbp))" for t
    using sched_invD(3) [OF inv, of t "MBQR mbp" "MBQW mbp"] that by auto
  have q1: "i_ctx k1" "\<forall>t\<in>set (queues k1 (MBQR mbp)). state_of k1 t = CH_STATE_QUEUED"
    using i_ctx_cong [of k1 k] ctx k1(5,6) r dis k1(9) mb by (auto simp: mbox_inv_def)
  obtain k2 where k2: "chThdDequeueAllI (MBQR mbp) MSG_RESET k1 = Ok k2" "sched_inv k2" "queues k2 (MBQR mbp) = []"
    "mboxes k2 = mboxes k1" "isr_cnt k2 = isr_cnt k1" "lock_cnt k2 = lock_cnt k1" "currp k2 = currp k1"
    "\<forall>t\<in>set (queues k1 (MBQR mbp)). state_of k2 t = CH_STATE_READY \<and> rdymsg_of k2 t = MSG_RESET"
    "\<forall>t. t \<notin> set (queues k1 (MBQR mbp)) \<longrightarrow> threads k2 t = threads k1 t"
    "\<forall>p. p \<noteq> RLIST \<longrightarrow> p \<noteq> MBQR mbp \<longrightarrow> queues k2 p = queues k1 p"
    by (rule chThdDequeueAllI_mb [OF k1(2) q1(1) nr(2) q1(2)]) (rule that; assumption)
  have "queues k2 (MBQW mbp) = []" using k2(10) k1(3) by simp
  moreover have "chMBResetI mbp k = Ok k2" using k1(1) k2(1) ctx mb by (simp add: chMBResetI_def mbox_inv_def)
  moreover have "state_of k2 t = CH_STATE_READY \<and> rdymsg_of k2 t = MSG_RESET"
    if "t \<in> set (queues k (MBQR mbp)) \<union> set (queues k (MBQW mbp))" for t
    using that k1(8) k2(8,9) r dis by auto
  moreover have "mb_cap (mboxes k mbp) > 0" using mb by (auto simp: mbox_inv_def mb_ok_def)
  ultimately show ?thesis using k1(4-7) k2 mb by (intro exI [of _ k2]) (auto simp: mbox_inv_def mb_ok_def)
qed

section \<open>Properties\<close>

text \<open>
  \<open>chMBPostI\<close> on every branch. In reset state and with a full buffer it changes nothing and
  returns \<open>MSG_RESET\<close> or \<open>MSG_TIMEOUT\<close>; otherwise the message is appended behind the ones
  already there and the reader that has waited longest becomes ready with \<open>MSG_OK\<close>.
\<close>

theorem chMBPostI_appends:
  assumes "sched_inv k" and "i_ctx k" and "mbox_inv mbp k"
  shows "\<exists>r k'. chMBPostI mbp msg k = Ok (r, k') \<and> sched_inv k' \<and> mbox_inv mbp k' \<and>
    (mb_reset (mboxes k mbp) \<longrightarrow> r = MSG_RESET \<and> k' = k) \<and>
    (\<not> mb_reset (mboxes k mbp) \<and> length (mb_items (mboxes k mbp)) = mb_cap (mboxes k mbp) \<longrightarrow> r = MSG_TIMEOUT \<and> k' = k) \<and>
    (\<not> mb_reset (mboxes k mbp) \<and> length (mb_items (mboxes k mbp)) < mb_cap (mboxes k mbp) \<longrightarrow>
       r = MSG_OK \<and> mb_items (mboxes k' mbp) = mb_items (mboxes k mbp) @ [msg] \<and>
       queues k' (MBQR mbp) = tl (queues k (MBQR mbp)) \<and>
       (queues k (MBQR mbp) \<noteq> [] \<longrightarrow> state_of k' (hd (queues k (MBQR mbp))) = CH_STATE_READY))"
proof -
  have mb: "mb_ok (mboxes k mbp)" "mb_cnt (mboxes k mbp) \<le> mb_cap (mboxes k mbp)"
    using assms(3) by (simp_all add: mbox_inv_def mb_ok_def)
  let ?u = "upd_mb mbp (mb_put msg) k" let ?k = "dequeued (MBQR mbp) MSG_OK ?u"
  show ?thesis
  proof (cases "mb_cnt (mboxes k mbp) < mb_cap (mboxes k mbp)")
    case True
    note p = mb_put_ok [OF mb(1) True, of msg]
    have u: "mbox_inv mbp ?u" using mbox_inv_upd_mb [OF assms(3), of "mb_put msg"] p(1) .
    then have "sched_inv ?k" "mbox_inv mbp ?k"
      using chThdDequeueNextI_eq(2) [of ?u "MBQR mbp" MSG_OK] mbox_inv_dequeued [of ?u mbp "MBQR mbp" MSG_OK] assms
      by (auto simp: mbox_inv_def)
    then show ?thesis
      using chMBPostI_eq [OF assms, of msg] True p(2) assms by (simp add: dequeued_queues dequeued_state)
  next
    case False
    then show ?thesis using chMBPostI_eq [OF assms, of msg] assms mb by auto
  qed
qed


text \<open>
  \<open>chMBFetchI\<close> on every branch. In reset state and with no message it changes nothing and
  returns \<open>MSG_RESET\<close> or \<open>MSG_TIMEOUT\<close>; otherwise it returns the oldest message, removes exactly
  that one, and the writer that has waited longest becomes ready.
\<close>

theorem chMBFetchI_oldest:
  assumes "sched_inv k" and "i_ctx k" and "mbox_inv mbp k"
  shows "\<exists>r m k'. chMBFetchI mbp k = Ok ((r, m), k') \<and> sched_inv k' \<and> mbox_inv mbp k' \<and>
    (mb_reset (mboxes k mbp) \<longrightarrow> r = MSG_RESET \<and> m = None \<and> k' = k) \<and>
    (\<not> mb_reset (mboxes k mbp) \<and> mb_items (mboxes k mbp) = [] \<longrightarrow> r = MSG_TIMEOUT \<and> m = None \<and> k' = k) \<and>
    (\<forall>x xs. \<not> mb_reset (mboxes k mbp) \<and> mb_items (mboxes k mbp) = x # xs \<longrightarrow>
       r = MSG_OK \<and> m = Some x \<and> mb_items (mboxes k' mbp) = xs \<and> queues k' (MBQW mbp) = tl (queues k (MBQW mbp)))"
proof -
  have mb: "mb_ok (mboxes k mbp)" using assms(3) by (simp add: mbox_inv_def)
  let ?u = "upd_mb mbp (\<lambda>_. snd (mb_get (mboxes k mbp))) k" let ?k = "dequeued (MBQW mbp) MSG_OK ?u"
  show ?thesis
  proof (cases "mb_cnt (mboxes k mbp) > 0")
    case True
    note g = mb_get_ok [OF mb True]
    have u: "mbox_inv mbp ?u" using mbox_inv_upd_mb [OF assms(3), of "\<lambda>_. snd (mb_get (mboxes k mbp))"] g(1) .
    then have "sched_inv ?k" "mbox_inv mbp ?k"
      using chThdDequeueNextI_eq(2) [of ?u "MBQW mbp" MSG_OK] mbox_inv_dequeued [of ?u mbp "MBQW mbp" MSG_OK] assms
      by (auto simp: mbox_inv_def)
    then show ?thesis
      using chMBFetchI_eq [OF assms] True g(2) assms by (auto simp: dequeued_queues)
  next
    case False
    then have "mb_items (mboxes k mbp) = []" by simp
    then show ?thesis using False chMBFetchI_eq [OF assms] assms by (auto simp del: mb_items_Nil)
  qed
qed

text \<open>
  \<open>chMBResetI\<close> discards all messages, keeps the capacity, and makes every waiting reader and
  writer ready with \<open>MSG_RESET\<close>; until \<open>chMBResumeX\<close> the mailbox answers \<open>MSG_RESET\<close>, and after it the
  mailbox accepts messages again.
\<close>

theorem chMBResetI_resets:
  assumes "sched_inv k" and "i_ctx k" and "mbox_inv mbp k"
  shows "\<exists>k'. chMBResetI mbp k = Ok k' \<and> sched_inv k' \<and> mbox_inv mbp k' \<and> mb_items (mboxes k' mbp) = [] \<and>
    mb_cap (mboxes k' mbp) = mb_cap (mboxes k mbp) \<and>
    (\<forall>t\<in>set (queues k (MBQR mbp)) \<union> set (queues k (MBQW mbp)).
       state_of k' t = CH_STATE_READY \<and> rdymsg_of k' t = MSG_RESET) \<and>
    chMBPostI mbp msg k' = Ok (MSG_RESET, k') \<and>
    (\<exists>k''. chMBPostI mbp msg (chMBResumeX mbp k') = Ok (MSG_OK, k'') \<and> mb_items (mboxes k'' mbp) = [msg])"
proof -
  obtain k' where k': "chMBResetI mbp k = Ok k'" "sched_inv k'" "mbox_inv mbp k'" "isr_cnt k' = isr_cnt k"
    "lock_cnt k' = lock_cnt k" "mb_items (mboxes k' mbp) = []" "mb_reset (mboxes k' mbp)"
    "mb_cap (mboxes k' mbp) = mb_cap (mboxes k mbp)"
    "\<forall>t\<in>set (queues k (MBQR mbp)) \<union> set (queues k (MBQW mbp)).
       state_of k' t = CH_STATE_READY \<and> rdymsg_of k' t = MSG_RESET" using chMBResetI_ok [OF assms] by blast
  have ctx: "i_ctx k'" using i_ctx_cong [OF k'(4,5)] assms(2) by simp
  let ?m = "(mboxes k' mbp)\<lparr>mb_reset := False\<rparr>"
  have m: "mb_ok ?m" "mb_cnt ?m < mb_cap ?m" "mb_items ?m = []"
    using k'(3) mb_items_Nil [of "mboxes k' mbp"] k'(6) by (auto simp: mbox_inv_def mb_ok_def)
  have r: "sched_inv (chMBResumeX mbp k')" "i_ctx (chMBResumeX mbp k')" "mbox_inv mbp (chMBResumeX mbp k')"
    "mboxes (chMBResumeX mbp k') mbp = ?m"
    using k'(2,3) ctx m(1) by (simp_all add: chMBResumeX_def mbox_inv_def)
  have "\<exists>k''. chMBPostI mbp msg (chMBResumeX mbp k') = Ok (MSG_OK, k'') \<and> mb_items (mboxes k'' mbp) = [msg]"
    using chMBPostI_eq [OF r(1-3), of msg] r(4) m mb_put_ok(2) [OF m(1,2), of msg] by simp
  moreover have "chMBPostI mbp msg k' = Ok (MSG_RESET, k')"
    using chMBPostI_eq [OF k'(2) ctx k'(3), of msg] k'(7) by simp
  ultimately show ?thesis using k' by (intro exI [of _ k']) blast
qed

text \<open>A mailbox of two messages at 64, holding one; the thread at 48 waits as a reader.\<close>

definition demo_mbox :: kernel where
  "demo_mbox = upd_mb 64 (\<lambda>_. \<lparr>mb_buffer = [5, 0], mb_wrptr = 1, mb_rdptr = 0, mb_cnt = 1, mb_reset = False\<rparr>)
     (upd_q (MBQR 64) (\<lambda>_. [48]) (upd_th 48 (t_state_update (\<lambda>_. CH_STATE_QUEUED)) demo_kernel))"

lemma demo_mbox_ok: "sched_inv demo_mbox" "i_ctx demo_mbox" "mbox_inv 64 demo_mbox"
  by (auto simp: demo_mbox_def demo_kernel_def kernel_reset_def no_thread_def sched_inv_def i_ctx_def
      mbox_inv_def mb_ok_def split: if_splits)

theorem chMBPostI_appends_witness:
  "\<exists>r k'. chMBPostI 64 9 demo_mbox = Ok (r, k') \<and> r = MSG_OK \<and> mb_items (mboxes k' 64) = [5, 9] \<and>
    state_of k' 48 = CH_STATE_READY"
proof -
  have "\<not> mb_reset (mboxes demo_mbox 64)" "mb_items (mboxes demo_mbox 64) = [5]" "mb_cap (mboxes demo_mbox 64) = 2"
    "queues demo_mbox (MBQR 64) = [48]" by (simp_all add: demo_mbox_def mb_items_def ring_items_def)
  then show ?thesis using chMBPostI_appends [OF demo_mbox_ok, of 9] by auto
qed


theorem chMBFetchI_oldest_witness:
  "\<exists>r m k'. chMBFetchI 64 demo_mbox = Ok ((r, m), k') \<and> r = MSG_OK \<and> m = Some 5 \<and> mb_items (mboxes k' 64) = []"
proof -
  have "\<not> mb_reset (mboxes demo_mbox 64)" "mb_items (mboxes demo_mbox 64) = [5]"
    by (simp_all add: demo_mbox_def mb_items_def ring_items_def)
  then show ?thesis using chMBFetchI_oldest [OF demo_mbox_ok] by auto
qed

theorem chMBResetI_resets_witness:
  "\<exists>k'. chMBResetI 64 demo_mbox = Ok k' \<and> mb_items (mboxes k' 64) = [] \<and> rdymsg_of k' 48 = MSG_RESET"
proof -
  have "queues demo_mbox (MBQR 64) = [48]" by (simp add: demo_mbox_def)
  then show ?thesis using chMBResetI_resets [OF demo_mbox_ok, of 9] by auto
qed

end
