(* ===== verification/IoBuffers.thy ===== *)
theory IoBuffers
  imports HalDrivers Mailboxes
begin

text \<open>
  Queues of I/O buffers (\<open>os/hal/src/hal_buffers.c\<close>, \<open>os/hal/include/hal_buffers.h\<close>), which carry the
  serial stream over USB. The memory of a queue is an array of buffers of \<open>bsize\<close> bytes, whose first
  four hold the number of bytes in use: a pair of that number and the data here. The pointers
  \<open>bwrptr\<close> and \<open>brdptr\<close> are the numbers of the buffers they point at, \<open>ptr\<close> is the offset in the data of
  the current buffer (\<open>None\<close> for \<open>NULL\<close>), \<open>top\<close> the offset of its boundary.

  The callback that a queue calls when a buffer is released or posted is recorded by counting its
  calls. A blocking call is split at its sleep; \<open>Waiting bs\<close> is a read that has taken \<open>bs\<close> so far and
  sleeps, with the state of the critical zone it was in.

  The bytes in an input queue are shown to be a stream: what is posted comes out in order,
  however the reads cut it up (\<open>in_stream\<close>); likewise for an output queue (\<open>out_stream\<close>).
\<close>

section \<open>State\<close>

record bqueue =
  bq_waiting :: ptr
  bq_suspended :: bool
  bq_bcounter :: nat
  bq_bwrptr :: nat
  bq_brdptr :: nat
  bq_bsize :: nat
  bq_slots :: "(nat \<times> byte list) list"
  bq_ptr :: "nat option"
  bq_top :: nat
  bq_notified :: nat

datatype 'a io_result = Done 'a | Waiting 'a

definition BUFFERS_CHUNKS_SIZE :: nat where "BUFFERS_CHUNKS_SIZE = 64"

definition bqSizeX :: "bqueue \<Rightarrow> nat" where "bqSizeX q = length (bq_slots q)"
definition bqSpaceI :: "bqueue \<Rightarrow> nat" where "bqSpaceI q = bq_bcounter q"
definition bqIsSuspendedX :: "bqueue \<Rightarrow> bool" where "bqIsSuspendedX q = bq_suspended q"

definition bqSuspendI :: "bqueue \<Rightarrow> kernel \<Rightarrow> (bqueue \<times> kernel) kres" where
  "bqSuspendI q k =
     kbind (chThdDequeueAllI (TQ (bq_waiting q)) MSG_RESET k) (\<lambda>k. Ok (q\<lparr>bq_suspended := True\<rparr>, k))"

definition bqResumeX :: "bqueue \<Rightarrow> bqueue" where
  "bqResumeX q = q\<lparr>bq_suspended := False\<rparr>"

definition bq_next :: "nat \<Rightarrow> bqueue \<Rightarrow> nat" where
  "bq_next i q = (if Suc i \<ge> length (bq_slots q) then 0 else Suc i)"

definition bq_notify :: "bqueue \<Rightarrow> bqueue" where
  "bq_notify q = q\<lparr>bq_notified := Suc (bq_notified q)\<rparr>"

section \<open>Input queues\<close>

definition ibqIsEmptyI :: "bqueue \<Rightarrow> bool" where
  "ibqIsEmptyI q = (bqSpaceI q = 0)"

definition ibqIsFullI :: "bqueue \<Rightarrow> bool" where
  "ibqIsFullI q = (bq_bwrptr q = bq_brdptr q \<and> bq_bcounter q \<noteq> 0)"

text \<open>The memory \<open>bp\<close> is given as the buffers it holds.\<close>

definition ibqObjectInit ::
  "ptr \<Rightarrow> bool \<Rightarrow> (nat \<times> byte list) list \<Rightarrow> nat \<Rightarrow> kernel \<Rightarrow> (bqueue \<times> kernel) kres" where
  "ibqObjectInit ibqp suspended slots sz k =
     kguard (ibqp \<noteq> NULL \<and> sz \<ge> 2) ''ibqObjectInit'' (
     Ok (\<lparr>bq_waiting = ibqp, bq_suspended = suspended, bq_bcounter = 0, bq_bwrptr = 0, bq_brdptr = 0, bq_bsize = sz + 4,
          bq_slots = slots, bq_ptr = None, bq_top = 0, bq_notified = 0\<rparr>, chThdQueueObjectInit (TQ ibqp) k))"

definition ibqResetI :: "bqueue \<Rightarrow> kernel \<Rightarrow> (bqueue \<times> kernel) kres" where
  "ibqResetI q k =
     chDbgCheckClassI k (
     kbind (chThdDequeueAllI (TQ (bq_waiting q)) MSG_RESET k) (\<lambda>k.
     Ok (q\<lparr>bq_bcounter := 0, bq_brdptr := 0, bq_bwrptr := 0, bq_ptr := None, bq_top := 0\<rparr>, k)))"

definition ibqGetEmptyBufferI :: "bqueue \<Rightarrow> kernel \<Rightarrow> nat option kres" where
  "ibqGetEmptyBufferI q k = chDbgCheckClassI k (Ok (if ibqIsFullI q then None else Some (bq_bwrptr q)))"

definition ibqPostFullBufferI :: "nat \<Rightarrow> bqueue \<Rightarrow> kernel \<Rightarrow> (bqueue \<times> kernel) kres" where
  "ibqPostFullBufferI sz q k =
     chDbgCheckClassI k (
     kguard (sz > 0 \<and> sz \<le> bq_bsize q - 4) ''ibqPostFullBufferI'' (
     kguard (\<not> ibqIsFullI q) ''ibqPostFullBufferI'' (
     let q = q\<lparr>bq_slots := (bq_slots q)[bq_bwrptr q := (sz, snd (bq_slots q ! bq_bwrptr q))]\<rparr>;
         q = q\<lparr>bq_bcounter := Suc (bq_bcounter q), bq_bwrptr := bq_next (bq_bwrptr q) q\<rparr>
     in kbind (chThdDequeueNextI (TQ (bq_waiting q)) MSG_OK k) (\<lambda>k. Ok (q, k)))))"

text \<open>The head of the waiting loop: a buffer is there, or the queue is suspended, or the thread sleeps.\<close>

definition ibq_acquire :: "u32 \<Rightarrow> bqueue \<Rightarrow> kernel \<Rightarrow> (msg_t wait \<times> bqueue \<times> kernel) kres" where
  "ibq_acquire timeout q k =
     (if ibqIsEmptyI q
      then if bq_suspended q then Ok (Returned MSG_RESET, q, k)
           else kbind (chThdEnqueueTimeoutS (TQ (bq_waiting q)) timeout k) (\<lambda>(w, k). Ok (w, q, k))
      else Ok (Returned MSG_OK, q\<lparr>bq_ptr := Some 0, bq_top := fst (bq_slots q ! bq_brdptr q)\<rparr>, k))"

definition ibqGetFullBufferTimeoutS :: "u32 \<Rightarrow> bqueue \<Rightarrow> kernel \<Rightarrow> (msg_t wait \<times> bqueue \<times> kernel) kres" where
  "ibqGetFullBufferTimeoutS timeout q k = chDbgCheckClassS k (ibq_acquire timeout q k)"

definition ibqGetFullBufferTimeoutS_resume ::
  "u32 \<Rightarrow> bqueue \<Rightarrow> kernel \<Rightarrow> (msg_t wait \<times> bqueue \<times> kernel) kres" where
  "ibqGetFullBufferTimeoutS_resume timeout q k =
     kbind (chSchGoSleepTimeoutS_resume timeout k) (\<lambda>(msg, k).
     if sint msg < sint MSG_OK then Ok (Returned msg, q, k) else ibq_acquire timeout q k)"

definition ibqGetFullBufferTimeout :: "u32 \<Rightarrow> bqueue \<Rightarrow> kernel \<Rightarrow> (msg_t wait \<times> bqueue \<times> kernel) kres" where
  "ibqGetFullBufferTimeout timeout q k =
     kbind (chSysLock k) (\<lambda>k. kbind (ibqGetFullBufferTimeoutS timeout q k) (\<lambda>(w, q, k).
     case w of Asleep \<Rightarrow> Ok (Asleep, q, k)
     | Returned msg \<Rightarrow> kbind (chSysUnlock k) (\<lambda>k. Ok (Returned msg, q, k))))"

definition ibqReleaseEmptyBufferS :: "bqueue \<Rightarrow> kernel \<Rightarrow> bqueue kres" where
  "ibqReleaseEmptyBufferS q k =
     chDbgCheckClassS k (
     kguard (\<not> ibqIsEmptyI q) ''ibqReleaseEmptyBufferS'' (
     Ok (bq_notify (q\<lparr>bq_bcounter := bq_bcounter q - 1, bq_brdptr := bq_next (bq_brdptr q) q, bq_ptr := None\<rparr>))))"

definition ibqReleaseEmptyBuffer :: "bqueue \<Rightarrow> kernel \<Rightarrow> (bqueue \<times> kernel) kres" where
  "ibqReleaseEmptyBuffer = hal_locked ibqReleaseEmptyBufferS"

text \<open>The bytes at \<open>ptr\<close>; the buffer goes back when its boundary is reached.\<close>

definition ibq_take :: "nat \<Rightarrow> bqueue \<Rightarrow> kernel \<Rightarrow> (byte list \<times> bqueue) kres" where
  "ibq_take c q k =
     (case bq_ptr q of None \<Rightarrow> Undef
      | Some p \<Rightarrow>
          let bs = take c (drop p (snd (bq_slots q ! bq_brdptr q))); q = q\<lparr>bq_ptr := Some (p + c)\<rparr>
          in kbind (if p + c \<ge> bq_top q then ibqReleaseEmptyBufferS q k else Ok q) (\<lambda>q. Ok (bs, q)))"

definition ibqGetTimeout_rest :: "bqueue \<Rightarrow> kernel \<Rightarrow> (msg_t wait \<times> bqueue \<times> kernel) kres" where
  "ibqGetTimeout_rest q k =
     kbind (ibq_take 1 q k) (\<lambda>(bs, q). kbind (chSysUnlock k) (\<lambda>k. Ok (Returned (ucast (hd bs)), q, k)))"

definition ibqGetTimeout :: "u32 \<Rightarrow> bqueue \<Rightarrow> kernel \<Rightarrow> (msg_t wait \<times> bqueue \<times> kernel) kres" where
  "ibqGetTimeout timeout q k =
     kbind (chSysLock k) (\<lambda>k.
     if bq_ptr q = None
     then kbind (ibqGetFullBufferTimeoutS timeout q k) (\<lambda>(w, q, k).
          case w of Asleep \<Rightarrow> Ok (Asleep, q, k)
          | Returned msg \<Rightarrow> if msg \<noteq> MSG_OK then kbind (chSysUnlock k) (\<lambda>k. Ok (Returned msg, q, k))
                            else ibqGetTimeout_rest q k)
     else ibqGetTimeout_rest q k)"

definition bq_chunk :: "nat \<Rightarrow> bqueue \<Rightarrow> nat" where
  "bq_chunk left q =
     (let p = (case bq_ptr q of None \<Rightarrow> 0 | Some p \<Rightarrow> p);
          sz = (if bq_top q - p > left then left else bq_top q - p)
      in if sz > BUFFERS_CHUNKS_SIZE then BUFFERS_CHUNKS_SIZE else sz)"

text \<open>
  The loop of \<open>ibqReadTimeout\<close>, entered in the critical zone; \<open>acc\<close> is what has been copied (\<open>r\<close> is its
  length). \<open>ibq_copy\<close> is the part behind the acquisition of a buffer. Every turn copies at least one
  byte or ends the call, so \<open>n\<close> turns are enough.
\<close>

definition ibq_copy ::
  "(byte list \<Rightarrow> bqueue \<Rightarrow> kernel \<Rightarrow> (byte list io_result \<times> bqueue \<times> kernel) kres) \<Rightarrow> nat \<Rightarrow> byte list \<Rightarrow>
     msg_t wait \<times> bqueue \<times> kernel \<Rightarrow> (byte list io_result \<times> bqueue \<times> kernel) kres" where
  "ibq_copy again n acc = (\<lambda>(w, q, k).
     case w of Asleep \<Rightarrow> Ok (Waiting acc, q, k)
     | Returned msg \<Rightarrow>
         if msg \<noteq> MSG_OK then kbind (chSysUnlock k) (\<lambda>k. Ok (Done acc, q, k))
         else kbind (ibq_take (bq_chunk (n - length acc) q) q k) (\<lambda>(bs, q).
              kbind (chSysUnlock k) (\<lambda>k.
              if length (acc @ bs) \<ge> n then Ok (Done (acc @ bs), q, k)
              else kbind (chSysLock k) (again (acc @ bs) q))))"

fun ibq_read :: "nat \<Rightarrow> u32 \<Rightarrow> nat \<Rightarrow> byte list \<Rightarrow> bqueue \<Rightarrow> kernel \<Rightarrow> (byte list io_result \<times> bqueue \<times> kernel) kres" where
  "ibq_read 0 timeout n acc q k = Diverge"
| "ibq_read (Suc f) timeout n acc q k =
     kbind (if bq_ptr q = None then ibqGetFullBufferTimeoutS timeout q k else Ok (Returned MSG_OK, q, k))
       (ibq_copy (ibq_read f timeout n) n acc)"

definition ibqReadTimeout :: "nat \<Rightarrow> u32 \<Rightarrow> bqueue \<Rightarrow> kernel \<Rightarrow> (byte list io_result \<times> bqueue \<times> kernel) kres" where
  "ibqReadTimeout n timeout q k =
     kguard (n > 0) ''ibqReadTimeout'' (kbind (chSysLock k) (ibq_read n timeout n [] q))"

text \<open>The sleeping read is woken: it goes on with its message.\<close>

definition ibqReadTimeout_resume ::
  "nat \<Rightarrow> u32 \<Rightarrow> byte list \<Rightarrow> bqueue \<Rightarrow> kernel \<Rightarrow> (byte list io_result \<times> bqueue \<times> kernel) kres" where
  "ibqReadTimeout_resume n timeout acc q k =
     kbind (ibqGetFullBufferTimeoutS_resume timeout q k) (ibq_copy (ibq_read n timeout n) n acc)"

section \<open>Output queues\<close>

definition obqIsEmptyI :: "bqueue \<Rightarrow> bool" where
  "obqIsEmptyI q = (bq_bwrptr q = bq_brdptr q \<and> bq_bcounter q \<noteq> 0)"

definition obqIsFullI :: "bqueue \<Rightarrow> bool" where
  "obqIsFullI q = (bqSpaceI q = 0)"

definition obqObjectInit ::
  "ptr \<Rightarrow> bool \<Rightarrow> (nat \<times> byte list) list \<Rightarrow> nat \<Rightarrow> kernel \<Rightarrow> (bqueue \<times> kernel) kres" where
  "obqObjectInit obqp suspended slots sz k =
     kguard (obqp \<noteq> NULL \<and> sz \<ge> 2) ''obqObjectInit'' (
     Ok (\<lparr>bq_waiting = obqp, bq_suspended = suspended, bq_bcounter = length slots, bq_bwrptr = 0, bq_brdptr = 0,
          bq_bsize = sz + 4, bq_slots = slots, bq_ptr = None, bq_top = 0, bq_notified = 0\<rparr>, chThdQueueObjectInit (TQ obqp) k))"

definition obqResetI :: "bqueue \<Rightarrow> kernel \<Rightarrow> (bqueue \<times> kernel) kres" where
  "obqResetI q k =
     chDbgCheckClassI k (
     kbind (chThdDequeueAllI (TQ (bq_waiting q)) MSG_RESET k) (\<lambda>k.
     Ok (q\<lparr>bq_bcounter := bqSizeX q, bq_brdptr := 0, bq_bwrptr := 0, bq_ptr := None, bq_top := 0\<rparr>, k)))"

definition obqGetFullBufferI :: "bqueue \<Rightarrow> kernel \<Rightarrow> (nat \<times> byte list) option kres" where
  "obqGetFullBufferI q k = chDbgCheckClassI k (Ok (if obqIsEmptyI q then None else Some (bq_slots q ! bq_brdptr q)))"

definition obqReleaseEmptyBufferI :: "bqueue \<Rightarrow> kernel \<Rightarrow> (bqueue \<times> kernel) kres" where
  "obqReleaseEmptyBufferI q k =
     chDbgCheckClassI k (
     kguard (\<not> obqIsEmptyI q) ''obqReleaseEmptyBufferI'' (
     kbind (chThdDequeueNextI (TQ (bq_waiting q)) MSG_OK k) (\<lambda>k.
     Ok (q\<lparr>bq_bcounter := Suc (bq_bcounter q), bq_brdptr := bq_next (bq_brdptr q) q\<rparr>, k))))"

definition obq_acquire :: "u32 \<Rightarrow> bqueue \<Rightarrow> kernel \<Rightarrow> (msg_t wait \<times> bqueue \<times> kernel) kres" where
  "obq_acquire timeout q k =
     (if obqIsFullI q
      then if bq_suspended q then Ok (Returned MSG_RESET, q, k)
           else kbind (chThdEnqueueTimeoutS (TQ (bq_waiting q)) timeout k) (\<lambda>(w, k). Ok (w, q, k))
      else Ok (Returned MSG_OK, q\<lparr>bq_ptr := Some 0, bq_top := bq_bsize q - 4\<rparr>, k))"

definition obqGetEmptyBufferTimeoutS :: "u32 \<Rightarrow> bqueue \<Rightarrow> kernel \<Rightarrow> (msg_t wait \<times> bqueue \<times> kernel) kres" where
  "obqGetEmptyBufferTimeoutS timeout q k = chDbgCheckClassS k (obq_acquire timeout q k)"

definition obqGetEmptyBufferTimeoutS_resume ::
  "u32 \<Rightarrow> bqueue \<Rightarrow> kernel \<Rightarrow> (msg_t wait \<times> bqueue \<times> kernel) kres" where
  "obqGetEmptyBufferTimeoutS_resume timeout q k =
     kbind (chSchGoSleepTimeoutS_resume timeout k) (\<lambda>(msg, k).
     if sint msg < sint MSG_OK then Ok (Returned msg, q, k) else obq_acquire timeout q k)"

definition obqGetEmptyBufferTimeout :: "u32 \<Rightarrow> bqueue \<Rightarrow> kernel \<Rightarrow> (msg_t wait \<times> bqueue \<times> kernel) kres" where
  "obqGetEmptyBufferTimeout timeout q k =
     kbind (chSysLock k) (\<lambda>k. kbind (obqGetEmptyBufferTimeoutS timeout q k) (\<lambda>(w, q, k).
     case w of Asleep \<Rightarrow> Ok (Asleep, q, k)
     | Returned msg \<Rightarrow> kbind (chSysUnlock k) (\<lambda>k. Ok (Returned msg, q, k))))"

text \<open>The current buffer, with the number of bytes it holds, becomes the last of the full ones.\<close>

definition obq_post :: "nat \<Rightarrow> bqueue \<Rightarrow> bqueue" where
  "obq_post sz q =
     (let q = q\<lparr>bq_slots := (bq_slots q)[bq_bwrptr q := (sz, snd (bq_slots q ! bq_bwrptr q))]\<rparr>
      in q\<lparr>bq_bcounter := bq_bcounter q - 1, bq_bwrptr := bq_next (bq_bwrptr q) q, bq_ptr := None\<rparr>)"

definition obqPostFullBufferS :: "nat \<Rightarrow> bqueue \<Rightarrow> kernel \<Rightarrow> bqueue kres" where
  "obqPostFullBufferS sz q k =
     chDbgCheckClassS k (
     kguard (sz > 0 \<and> sz \<le> bq_bsize q - 4) ''obqPostFullBufferS'' (
     kguard (\<not> obqIsFullI q) ''obqPostFullBufferS'' (Ok (bq_notify (obq_post sz q)))))"

definition obqPostFullBuffer :: "nat \<Rightarrow> bqueue \<Rightarrow> kernel \<Rightarrow> (bqueue \<times> kernel) kres" where
  "obqPostFullBuffer sz = hal_locked (obqPostFullBufferS sz)"

definition obq_store :: "byte list \<Rightarrow> bqueue \<Rightarrow> kernel \<Rightarrow> bqueue kres" where
  "obq_store bs q k =
     (case bq_ptr q of None \<Rightarrow> Undef
      | Some p \<Rightarrow>
          let (sz, d) = bq_slots q ! bq_bwrptr q;
              q = q\<lparr>bq_slots := (bq_slots q)[bq_bwrptr q := (sz, take p d @ bs @ drop (p + length bs) d)],
                    bq_ptr := Some (p + length bs)\<rparr>
          in if p + length bs \<ge> bq_top q then obqPostFullBufferS (bq_bsize q - 4) q k else Ok q)"

definition obqPutTimeout_rest :: "byte \<Rightarrow> bqueue \<Rightarrow> kernel \<Rightarrow> (msg_t wait \<times> bqueue \<times> kernel) kres" where
  "obqPutTimeout_rest b q k =
     kbind (obq_store [b] q k) (\<lambda>q. kbind (chSysUnlock k) (\<lambda>k. Ok (Returned MSG_OK, q, k)))"

definition obqPutTimeout :: "byte \<Rightarrow> u32 \<Rightarrow> bqueue \<Rightarrow> kernel \<Rightarrow> (msg_t wait \<times> bqueue \<times> kernel) kres" where
  "obqPutTimeout b timeout q k =
     kbind (chSysLock k) (\<lambda>k.
     if bq_ptr q = None
     then kbind (obqGetEmptyBufferTimeoutS timeout q k) (\<lambda>(w, q, k).
          case w of Asleep \<Rightarrow> Ok (Asleep, q, k)
          | Returned msg \<Rightarrow> if msg \<noteq> MSG_OK then kbind (chSysUnlock k) (\<lambda>k. Ok (Returned msg, q, k))
                            else obqPutTimeout_rest b q k)
     else obqPutTimeout_rest b q k)"

text \<open>The loop of \<open>obqWriteTimeout\<close>; \<open>bs\<close> are the bytes still to be written, \<open>w\<close> counts the others.\<close>

definition obq_copy ::
  "(nat \<Rightarrow> byte list \<Rightarrow> bqueue \<Rightarrow> kernel \<Rightarrow> (nat io_result \<times> bqueue \<times> kernel) kres) \<Rightarrow> nat \<Rightarrow> byte list \<Rightarrow>
     msg_t wait \<times> bqueue \<times> kernel \<Rightarrow> (nat io_result \<times> bqueue \<times> kernel) kres" where
  "obq_copy again w bs = (\<lambda>(r, q, k).
     case r of Asleep \<Rightarrow> Ok (Waiting w, q, k)
     | Returned msg \<Rightarrow>
         if msg \<noteq> MSG_OK then kbind (chSysUnlock k) (\<lambda>k. Ok (Done w, q, k))
         else let c = bq_chunk (length bs) q
              in kbind (obq_store (take c bs) q k) (\<lambda>q.
                 kbind (chSysUnlock k) (\<lambda>k.
                 if drop c bs = [] then Ok (Done (w + c), q, k)
                 else kbind (chSysLock k) (again (w + c) (drop c bs) q))))"

fun obq_write :: "nat \<Rightarrow> u32 \<Rightarrow> nat \<Rightarrow> byte list \<Rightarrow> bqueue \<Rightarrow> kernel \<Rightarrow> (nat io_result \<times> bqueue \<times> kernel) kres" where
  "obq_write 0 timeout w bs q k = Diverge"
| "obq_write (Suc f) timeout w bs q k =
     kbind (if bq_ptr q = None then obqGetEmptyBufferTimeoutS timeout q k else Ok (Returned MSG_OK, q, k))
       (obq_copy (obq_write f timeout) w bs)"

definition obqWriteTimeout :: "byte list \<Rightarrow> u32 \<Rightarrow> bqueue \<Rightarrow> kernel \<Rightarrow> (nat io_result \<times> bqueue \<times> kernel) kres" where
  "obqWriteTimeout bs timeout q k =
     kguard (length bs > 0) ''obqWriteTimeout'' (kbind (chSysLock k) (obq_write (length bs) timeout 0 bs q))"

definition obqWriteTimeout_resume ::
  "u32 \<Rightarrow> nat \<Rightarrow> byte list \<Rightarrow> bqueue \<Rightarrow> kernel \<Rightarrow> (nat io_result \<times> bqueue \<times> kernel) kres" where
  "obqWriteTimeout_resume timeout w bs q k =
     kbind (obqGetEmptyBufferTimeoutS_resume timeout q k) (obq_copy (obq_write (length bs) timeout) w bs)"

definition obqTryFlushI :: "bqueue \<Rightarrow> kernel \<Rightarrow> (bool \<times> bqueue) kres" where
  "obqTryFlushI q k =
     chDbgCheckClassI k (Ok (
     case bq_ptr q of None \<Rightarrow> (False, q)
     | Some p \<Rightarrow> if obqIsEmptyI q \<and> p > 0 then (True, obq_post p q) else (False, q)))"

definition obqFlush :: "bqueue \<Rightarrow> kernel \<Rightarrow> (bqueue \<times> kernel) kres" where
  "obqFlush = hal_locked (\<lambda>q k.
     case bq_ptr q of None \<Rightarrow> Ok q | Some p \<Rightarrow> if p > 0 then obqPostFullBufferS p q k else Ok q)"

section \<open>The stream in an input queue\<close>

definition slot_bytes :: "nat \<times> byte list \<Rightarrow> byte list" where
  "slot_bytes s = take (fst s) (snd s)"

definition in_slots :: "bqueue \<Rightarrow> (nat \<times> byte list) list" where
  "in_slots q = ring_items (bq_slots q) (bq_brdptr q) (bq_bcounter q)"

definition in_stream :: "bqueue \<Rightarrow> byte list" where
  "in_stream q = drop (case bq_ptr q of None \<Rightarrow> 0 | Some p \<Rightarrow> p) (concat (map slot_bytes (in_slots q)))"

definition slot_ok :: "bqueue \<Rightarrow> nat \<times> byte list \<Rightarrow> bool" where
  "slot_ok q s \<longleftrightarrow> 0 < fst s \<and> fst s \<le> length (snd s)"

definition bq_ok :: "bqueue \<Rightarrow> bool" where
  "bq_ok q \<longleftrightarrow> bq_brdptr q < length (bq_slots q) \<and> bq_bcounter q \<le> length (bq_slots q) \<and> bq_bsize q \<ge> 6 \<and>
     (\<forall>s\<in>set (bq_slots q). length (snd s) = bq_bsize q - 4)"

definition in_inv :: "bqueue \<Rightarrow> bool" where
  "in_inv q \<longleftrightarrow> bq_ok q \<and> bq_bwrptr q = (bq_brdptr q + bq_bcounter q) mod length (bq_slots q) \<and>
     (\<forall>s\<in>set (in_slots q). slot_ok q s) \<and>
     (case bq_ptr q of None \<Rightarrow> True
      | Some p \<Rightarrow> bq_bcounter q > 0 \<and> p < bq_top q \<and> bq_top q = fst (bq_slots q ! bq_brdptr q))"

lemma bq_next_mod: "i < length (bq_slots q) \<Longrightarrow> bq_next i q = Suc i mod length (bq_slots q)"
  using wrap_mod [of i "length (bq_slots q)"] by (simp add: bq_next_def)

lemma in_slots_Cons:
  assumes "in_inv q" and "bq_bcounter q > 0"
  shows "in_slots q = bq_slots q ! bq_brdptr q #
    ring_items (bq_slots q) (bq_next (bq_brdptr q) q) (bq_bcounter q - 1)"
  using ring_get [of "bq_bcounter q" "bq_brdptr q" "bq_slots q"] assms bq_next_mod [of "bq_brdptr q" q]
  by (simp add: in_slots_def in_inv_def bq_ok_def)

lemma in_slots_empty: "bq_bcounter q = 0 \<Longrightarrow> in_slots q = []"
  by (simp add: in_slots_def)

text \<open>Acquiring a buffer does not change the stream.\<close>

lemma ibq_acquire_ok:
  assumes "in_inv q" and "bq_ptr q = None" and "bq_bcounter q > 0"
  obtains q' where "ibq_acquire timeout q k = Ok (Returned MSG_OK, q', k)" and "in_inv q'" and "in_stream q' = in_stream q"
    and "bq_ptr q' = Some 0" and "bq_suspended q' = bq_suspended q" and "bq_waiting q' = bq_waiting q"
proof -
  let ?q = "q\<lparr>bq_ptr := Some 0, bq_top := fst (bq_slots q ! bq_brdptr q)\<rparr>"
  have s: "in_slots ?q = in_slots q" by (simp add: in_slots_def)
  have "slot_ok q (bq_slots q ! bq_brdptr q)" using in_slots_Cons [OF assms(1,3)] assms(1) by (simp add: in_inv_def)
  then have "in_inv ?q" using assms(1,3) unfolding in_inv_def s by (simp add: bq_ok_def slot_ok_def)
  moreover have "in_stream ?q = in_stream q" using assms(2) unfolding in_stream_def s by simp
  moreover have "ibq_acquire timeout q k = Ok (Returned MSG_OK, ?q, k)"
    using assms(3) by (simp add: ibq_acquire_def ibqIsEmptyI_def bqSpaceI_def)
  ultimately show ?thesis using that [of ?q] by simp
qed

text \<open>Taking \<open>c\<close> bytes of the current buffer takes \<open>c\<close> bytes of the stream.\<close>

lemma ibq_take_ok:
  assumes inv: "in_inv q" and "bq_ptr q = Some p" and c: "0 < c" "p + c \<le> bq_top q" and k: "thd_ctx k"
  obtains q' where "ibq_take c q k = Ok (take c (in_stream q), q')" and "in_inv q'"
    and "in_stream q' = drop c (in_stream q)" and "bq_suspended q' = bq_suspended q" and "bq_waiting q' = bq_waiting q"
    and "c \<le> length (in_stream q)"
proof -
  let ?s = "bq_slots q ! bq_brdptr q" let ?rest = "ring_items (bq_slots q) (bq_next (bq_brdptr q) q) (bq_bcounter q - 1)"
  have n: "bq_bcounter q > 0" "bq_top q = fst ?s" using inv assms(2) by (simp_all add: in_inv_def)
  note cons = in_slots_Cons [OF inv n(1)]
  have ok: "fst ?s \<le> length (snd ?s)" using cons inv by (simp add: in_inv_def slot_ok_def)
  have st: "in_stream q = drop p (slot_bytes ?s) @ concat (map slot_bytes ?rest)"
    using assms(2) c n(2) ok unfolding in_stream_def cons by (simp add: slot_bytes_def)
  have l: "length (drop p (slot_bytes ?s)) = fst ?s - p" using ok by (simp add: slot_bytes_def)
  have cl: "c \<le> fst ?s - p" using c n(2) by simp
  have "take c (drop p (slot_bytes ?s)) = take c (drop p (snd ?s))"
    using cl by (simp add: slot_bytes_def drop_take min_def)
  then have tk: "take c (drop p (snd ?s)) = take c (in_stream q)" "c \<le> length (in_stream q)"
    "drop c (in_stream q) = drop (p + c) (slot_bytes ?s) @ concat (map slot_bytes ?rest)"
    using cl l unfolding st by (simp_all add: add.commute)
  show ?thesis
  proof (cases "p + c \<ge> bq_top q")
    case False
    let ?q = "q\<lparr>bq_ptr := Some (p + c)\<rparr>"
    have s: "in_slots ?q = in_slots q" by (simp add: in_slots_def)
    have "in_inv ?q" using inv False n assms(2) unfolding in_inv_def s by (simp add: bq_ok_def slot_ok_def)
    moreover have "in_stream ?q = drop c (in_stream q)" using assms(2) unfolding in_stream_def s by (simp add: add.commute)
    moreover have "ibq_take c q k = Ok (take c (in_stream q), ?q)"
      using False assms(2) tk(1) by (simp add: ibq_take_def Let_def)
    ultimately show ?thesis using that [of ?q] tk(2) by simp
  next
    case True
    let ?q = "bq_notify (q\<lparr>bq_bcounter := bq_bcounter q - 1, bq_brdptr := bq_next (bq_brdptr q) q, bq_ptr := None\<rparr>)"
    have s: "in_slots ?q = ?rest" by (simp add: in_slots_def bq_notify_def)
    have b: "bq_brdptr q < length (bq_slots q)" "bq_bcounter q \<le> length (bq_slots q)" using inv by (simp_all add: in_inv_def bq_ok_def)
    have nx: "bq_next (bq_brdptr q) q = Suc (bq_brdptr q) mod length (bq_slots q)" using bq_next_mod [OF b(1)] .
    have "bq_next (bq_brdptr q) q < length (bq_slots q)" unfolding nx using b by (intro mod_less_divisor) auto
    moreover have "(bq_next (bq_brdptr q) q + (bq_bcounter q - 1)) mod length (bq_slots q) = bq_bwrptr q"
      unfolding nx using inv n(1) mod_add_left_eq [of "Suc (bq_brdptr q)" "length (bq_slots q)" "bq_bcounter q - 1"]
      by (simp add: in_inv_def)
    ultimately have "in_inv ?q" using inv b cons unfolding in_inv_def s by (auto simp: bq_ok_def bq_notify_def slot_ok_def)
    have "drop (p + c) (slot_bytes ?s) = []" using True n(2) by (simp add: slot_bytes_def)
    moreover have "in_stream ?q = concat (map slot_bytes ?rest)" unfolding in_stream_def s by (simp add: bq_notify_def)
    ultimately have "in_stream ?q = drop c (in_stream q)" unfolding tk(3) by simp
    note this \<open>in_inv ?q\<close>
    moreover have "ibq_take c q k = Ok (take c (in_stream q), ?q)"
      using True assms(2) tk(1) k n(1) by (simp add: ibq_take_def Let_def ibqReleaseEmptyBufferS_def ibqIsEmptyI_def bqSpaceI_def bq_next_def bq_notify_def)
    ultimately show ?thesis using that [of ?q] tk(2) by (simp add: bq_notify_def)
  qed
qed


lemma in_stream_Nil:
  assumes "in_inv q"
  shows "in_stream q = [] \<longleftrightarrow> bq_bcounter q = 0" and "in_stream q = [] \<Longrightarrow> bq_ptr q = None"
proof -
  have e: "in_stream q = []" if "bq_bcounter q = 0" using that by (simp add: in_stream_def in_slots_empty)
  have ne: "in_stream q \<noteq> []" if n: "bq_bcounter q > 0"
  proof -
    let ?s = "bq_slots q ! bq_brdptr q"
    have "0 < fst ?s" "fst ?s \<le> length (snd ?s)"
      using in_slots_Cons [OF assms n] assms by (simp_all add: in_inv_def slot_ok_def)
    moreover have "(case bq_ptr q of None \<Rightarrow> 0 | Some p \<Rightarrow> p) < fst ?s"
      using assms calculation by (auto simp: in_inv_def split: option.splits)
    ultimately show ?thesis unfolding in_stream_def in_slots_Cons [OF assms n] by (auto simp: slot_bytes_def)
  qed
  show "in_stream q = [] \<longleftrightarrow> bq_bcounter q = 0" using e ne by auto
  show "bq_ptr q = None" if "in_stream q = []" using that ne assms by (auto simp: in_inv_def split: option.splits)
qed

lemma zone_reenter:
  assumes "running k"
  shows "chSysLock k = Ok (k\<lparr>lock_cnt := 1\<rparr>)" and "thd_ctx (k\<lparr>lock_cnt := 1\<rparr>)" and "chSysUnlock (k\<lparr>lock_cnt := 1\<rparr>) = Ok k"
proof -
  have l: "chSysLock k = Ok (k\<lparr>lock_cnt := 1\<rparr>)" "thd_ctx (k\<lparr>lock_cnt := 1\<rparr>)" "sched_order (k\<lparr>lock_cnt := 1\<rparr>)"
    using chSysLock_ok assms by (simp_all add: running_def sched_ok_def)
  have "k\<lparr>lock_cnt := 0\<rparr> = k" using assms by (simp add: running_def thread_idle_ctx_def)
  then show "chSysLock k = Ok (k\<lparr>lock_cnt := 1\<rparr>)" "thd_ctx (k\<lparr>lock_cnt := 1\<rparr>)" "chSysUnlock (k\<lparr>lock_cnt := 1\<rparr>) = Ok k"
    using l chSysUnlock_ok [OF l(2,3)] by simp_all
qed

lemma bq_chunk_bounds:
  assumes "bq_ptr q = Some p" and "p < bq_top q" and "0 < left"
  shows "0 < bq_chunk left q" and "p + bq_chunk left q \<le> bq_top q" and "bq_chunk left q \<le> left"
  using assms by (auto simp: bq_chunk_def BUFFERS_CHUNKS_SIZE_def Let_def)

text \<open>A buffer is current after the first half of a turn, if the stream is not empty.\<close>

lemma ibq_turn:
  assumes inv: "in_inv q" and r: "running k" and ne: "in_stream q \<noteq> []"
  obtains q' p where "(if bq_ptr q = None then ibqGetFullBufferTimeoutS timeout q (k\<lparr>lock_cnt := 1\<rparr>)
      else Ok (Returned MSG_OK, q, k\<lparr>lock_cnt := 1\<rparr>)) = Ok (Returned MSG_OK, q', k\<lparr>lock_cnt := 1\<rparr>)"
    and "in_inv q'" and "in_stream q' = in_stream q" and "bq_ptr q' = Some p" and "p < bq_top q'"
    and "bq_suspended q' = bq_suspended q"
proof (cases "bq_ptr q")
  case None
  have "bq_bcounter q > 0" using in_stream_Nil(1) [OF inv] ne by auto
  from ibq_acquire_ok [OF inv None this, of timeout "k\<lparr>lock_cnt := 1\<rparr>"] obtain q' where
    q: "ibq_acquire timeout q (k\<lparr>lock_cnt := 1\<rparr>) = Ok (Returned MSG_OK, q', k\<lparr>lock_cnt := 1\<rparr>)" "in_inv q'"
      "in_stream q' = in_stream q" "bq_ptr q' = Some 0" "bq_suspended q' = bq_suspended q" by blast
  have "0 < bq_top q'" using q(2,4) by (simp add: in_inv_def)
  then show ?thesis using that [of q' 0] q None zone_reenter(2) [OF r] by (simp add: ibqGetFullBufferTimeoutS_def)
next
  case (Some p)
  then show ?thesis using that [of q p] inv by (simp add: in_inv_def)
qed

lemma ibq_read_ok:
  assumes "in_inv q" and "running k" and "length acc < n" and "n - length acc \<le> f"
  shows "\<exists>q'. in_inv q' \<and>
    (n - length acc \<le> length (in_stream q) \<longrightarrow> in_stream q' = drop (n - length acc) (in_stream q) \<and>
       ibq_read f timeout n acc q (k\<lparr>lock_cnt := 1\<rparr>) = Ok (Done (acc @ take (n - length acc) (in_stream q)), q', k)) \<and>
    (n - length acc > length (in_stream q) \<and> bq_suspended q \<longrightarrow> in_stream q' = [] \<and>
       ibq_read f timeout n acc q (k\<lparr>lock_cnt := 1\<rparr>) = Ok (Done (acc @ in_stream q), q', k))"
  using assms
proof (induction f arbitrary: q acc)
  case (Suc f)
  note l = zone_reenter [OF Suc(3)]
  show ?case
  proof (cases "in_stream q = []")
    case True
    have z: "bq_bcounter q = 0" "bq_ptr q = None" using in_stream_Nil [OF Suc(2)] True by auto
    have "MSG_RESET \<noteq> MSG_OK" by (simp add: MSG_RESET_def MSG_OK_def)
    then show ?thesis using Suc(2,4) True z l
      by (intro exI [of _ q]) (simp add: ibqGetFullBufferTimeoutS_def ibq_acquire_def ibqIsEmptyI_def bqSpaceI_def ibq_copy_def)
  next
    case False
    let ?l = "k\<lparr>lock_cnt := 1\<rparr>" let ?s = "in_stream q" let ?n = "n - length acc"
    obtain q1 p where t: "(if bq_ptr q = None then ibqGetFullBufferTimeoutS timeout q ?l else Ok (Returned MSG_OK, q, ?l)) =
        Ok (Returned MSG_OK, q1, ?l)" "in_inv q1" "in_stream q1 = ?s" "bq_ptr q1 = Some p" "p < bq_top q1"
        "bq_suspended q1 = bq_suspended q"
      using ibq_turn [OF Suc(2,3) False] by metis
    let ?c = "bq_chunk ?n q1"
    have c: "0 < ?c" "p + ?c \<le> bq_top q1" "?c \<le> ?n" using bq_chunk_bounds [OF t(4,5), of ?n] Suc(4) by simp_all
    from ibq_take_ok [OF t(2,4) c(1,2) l(2)] obtain q2 where
      q2: "ibq_take ?c q1 ?l = Ok (take ?c ?s, q2)" "in_inv q2" "in_stream q2 = drop ?c ?s" "bq_suspended q2 = bq_suspended q"
        "?c \<le> length ?s" using t(3,6) by metis
    let ?acc = "acc @ take ?c ?s"
    have la: "length ?acc = length acc + ?c" using q2(5) by simp
    have rd: "ibq_read (Suc f) timeout n acc q ?l =
        (if length ?acc \<ge> n then Ok (Done ?acc, q2, k) else ibq_read f timeout n ?acc q2 ?l)"
      using t(1) q2(1) l by (simp add: ibq_copy_def)
    show ?thesis
    proof (cases "length ?acc \<ge> n")
      case True
      then have "?c = ?n" using c(3) la by simp
      then show ?thesis using rd True q2 by (intro exI [of _ q2]) simp
    next
      case False
      then have f: "length ?acc < n" "n - length ?acc \<le> f" using Suc(5) c(1) la by simp_all
      have n: "n - length ?acc = ?n - ?c" using la by simp
      have e: "?c + (?n - ?c) = ?n" using c(3) by simp
      have ap: "?acc @ take (?n - ?c) (drop ?c ?s) = acc @ take ?n ?s" "?acc @ drop ?c ?s = acc @ ?s"
        "drop (?n - ?c) (drop ?c ?s) = drop ?n ?s"
        unfolding append_assoc take_add [of ?c "?n - ?c" ?s, unfolded e, symmetric] drop_drop add.commute [of "?n - ?c"] e
        by simp_all
      have le: "?n - ?c \<le> length (drop ?c ?s) \<longleftrightarrow> ?n \<le> length ?s" using c(3) q2(5) by auto
      have r2: "ibq_read (Suc f) timeout n acc q ?l = ibq_read f timeout n ?acc q2 ?l" using rd False by (simp only: if_False)
      from Suc.IH [OF q2(2) Suc(3) f] show ?thesis unfolding n q2(3,4) ap le r2 by (simp only: not_le [symmetric] le)
    qed
  qed
qed simp

text \<open>
  C32: A read of an input queue is a read of the stream of the bytes that have been posted: it takes the
  first \<open>n\<close> bytes and leaves the others, whatever buffers they lie in and whatever chunks the loop
  copies. On a suspended queue that holds less it returns what is there, without sleeping.
\<close>

theorem ibqReadTimeout_stream:
  assumes "in_inv q" and "running k" and "0 < n"
  shows "\<exists>q'. in_inv q' \<and>
    (n \<le> length (in_stream q) \<longrightarrow> in_stream q' = drop n (in_stream q) \<and>
       ibqReadTimeout n timeout q k = Ok (Done (take n (in_stream q)), q', k)) \<and>
    (n > length (in_stream q) \<and> bq_suspended q \<longrightarrow> in_stream q' = [] \<and>
       ibqReadTimeout n timeout q k = Ok (Done (in_stream q), q', k))"
  using ibq_read_ok [OF assms(1,2), of "[]" n n timeout] assms(3) zone_reenter(1) [OF assms(2)] by (simp add: ibqReadTimeout_def)

lemma ibqIsFullI_iff: "in_inv q \<Longrightarrow> ibqIsFullI q \<longleftrightarrow> bq_bcounter q = length (bq_slots q)"
  using ring_full [of "bq_brdptr q" "length (bq_slots q)" "bq_bcounter q"] by (auto simp: ibqIsFullI_def in_inv_def bq_ok_def)

text \<open>The queue after the buffer at the write position has been posted with \<open>sz\<close> bytes.\<close>

definition ibq_posted :: "nat \<Rightarrow> bqueue \<Rightarrow> bqueue" where
  "ibq_posted sz q =
     q\<lparr>bq_slots := (bq_slots q)[bq_bwrptr q := (sz, snd (bq_slots q ! bq_bwrptr q))], bq_bcounter := Suc (bq_bcounter q),
       bq_bwrptr := bq_next (bq_bwrptr q) q\<rparr>"

lemma ibqPostFullBufferI_eq:
  assumes "in_inv q" and "bq_bcounter q < length (bq_slots q)" and "0 < sz" and "sz \<le> bq_bsize q - 4"
    and "sched_inv k" and "i_ctx k" and "\<forall>t\<in>set (queues k (TQ (bq_waiting q))). state_of k t = CH_STATE_QUEUED"
  shows "ibqPostFullBufferI sz q k = Ok (ibq_posted sz q, dequeued (TQ (bq_waiting q)) MSG_OK k)"
  using chThdDequeueNextI_eq(1) [OF assms(5,6) _ assms(7), of MSG_OK] assms(2-4,6) ibqIsFullI_iff [OF assms(1)]
  by (simp add: ibqPostFullBufferI_def ibq_posted_def bq_next_def Let_def)

lemma ibq_posted_ok:
  assumes inv: "in_inv q" and "bq_bcounter q < length (bq_slots q)" and sz: "0 < sz" "sz \<le> bq_bsize q - 4"
  shows "in_inv (ibq_posted sz q)" and "in_stream (ibq_posted sz q) = in_stream q @ take sz (snd (bq_slots q ! bq_bwrptr q))"
proof -
  let ?n = "length (bq_slots q)" let ?x = "(sz, snd (bq_slots q ! bq_bwrptr q))" let ?q = "ibq_posted sz q"
  note d = ibq_posted_def
  have i: "bq_brdptr q < ?n" "bq_bwrptr q = (bq_brdptr q + bq_bcounter q) mod ?n" using inv by (simp_all add: in_inv_def bq_ok_def)
  have w: "bq_bwrptr q < ?n" unfolding i(2) using i(1) by (intro mod_less_divisor) auto
  have sl: "in_slots ?q = in_slots q @ [?x]"
    using ring_put [OF assms(2), of "bq_brdptr q" ?x] i(2) by (simp add: in_slots_def d)
  have nx: "bq_next (bq_bwrptr q) q = (bq_brdptr q + Suc (bq_bcounter q)) mod ?n"
    using bq_next_mod [of "bq_bwrptr q" q] w by (simp add: i(2) mod_Suc_eq)
  have x: "slot_ok q ?x" "length (snd ?x) = bq_bsize q - 4" using sz inv w by (auto simp: slot_ok_def in_inv_def bq_ok_def)
  have rd: "bq_slots ?q ! bq_brdptr q = bq_slots q ! bq_brdptr q" if "bq_bcounter q > 0"
    using mod_neq [OF that assms(2), of "bq_brdptr q"] i by (simp add: d)
  have bo: "bq_ok ?q" using inv assms(2) x w by (auto simp: in_inv_def bq_ok_def d dest!: set_update_subset_insert [THEN subsetD])
  then show "in_inv ?q" using inv rd nx x unfolding in_inv_def sl by (auto simp: slot_ok_def d split: option.splits)
  have p: "bq_ptr ?q = bq_ptr q" by (simp add: d)
  show "in_stream ?q = in_stream q @ take sz (snd (bq_slots q ! bq_bwrptr q))"
  proof (cases "bq_ptr q")
    case None
    then show ?thesis unfolding in_stream_def sl p by (simp add: slot_bytes_def)
  next
    case (Some p)
    then have "bq_bcounter q > 0" "p < fst (bq_slots q ! bq_brdptr q)" using inv by (simp_all add: in_inv_def)
    moreover from this have "p \<le> length (concat (map slot_bytes (in_slots q)))"
      using in_slots_Cons [OF inv] inv by (simp add: in_inv_def slot_ok_def slot_bytes_def)
    ultimately show ?thesis using Some unfolding in_stream_def sl \<open>bq_ptr ?q = bq_ptr q\<close> by (simp add: slot_bytes_def)
  qed
qed

text \<open>The buffer that the driver has filled is put behind the stream; one reader that waits is made ready.\<close>

theorem ibqPostFullBufferI_appends:
  assumes "in_inv q" and "bq_bcounter q < length (bq_slots q)" and "0 < sz" and "sz \<le> bq_bsize q - 4"
    and "sched_inv k" and "i_ctx k" and "\<forall>t\<in>set (queues k (TQ (bq_waiting q))). state_of k t = CH_STATE_QUEUED"
  shows "\<exists>q'. ibqPostFullBufferI sz q k = Ok (q', dequeued (TQ (bq_waiting q)) MSG_OK k) \<and> in_inv q' \<and>
    in_stream q' = in_stream q @ take sz (snd (bq_slots q ! bq_bwrptr q))"
  using ibq_posted_ok [OF assms(1-4)] ibqPostFullBufferI_eq [OF assms] by blast

section \<open>The stream in an output queue\<close>

definition out_slots :: "bqueue \<Rightarrow> (nat \<times> byte list) list" where
  "out_slots q = ring_items (bq_slots q) (bq_brdptr q) (length (bq_slots q) - bq_bcounter q)"

definition out_stream :: "bqueue \<Rightarrow> byte list" where
  "out_stream q = concat (map slot_bytes (out_slots q)) @
     (case bq_ptr q of None \<Rightarrow> [] | Some p \<Rightarrow> take p (snd (bq_slots q ! bq_bwrptr q)))"

definition out_ok :: "bqueue \<Rightarrow> bool" where
  "out_ok q \<longleftrightarrow> bq_ok q \<and> bq_bwrptr q = (bq_brdptr q + (length (bq_slots q) - bq_bcounter q)) mod length (bq_slots q) \<and>
     (\<forall>s\<in>set (out_slots q). slot_ok q s)"

definition out_inv :: "bqueue \<Rightarrow> bool" where
  "out_inv q \<longleftrightarrow> out_ok q \<and>
     (case bq_ptr q of None \<Rightarrow> True | Some p \<Rightarrow> bq_bcounter q > 0 \<and> p < bq_top q \<and> bq_top q = bq_bsize q - 4)"

text \<open>The number of bytes that can be written.\<close>

definition out_room :: "bqueue \<Rightarrow> nat" where
  "out_room q = bq_bcounter q * (bq_bsize q - 4) - (case bq_ptr q of None \<Rightarrow> 0 | Some p \<Rightarrow> p)"

lemma out_ok_wr: "out_ok q \<Longrightarrow> bq_bwrptr q < length (bq_slots q)"
  by (auto simp: out_ok_def bq_ok_def intro!: mod_less_divisor)

lemma out_slots_write:
  assumes "out_ok q" and "bq_bcounter q > 0"
  shows "ring_items ((bq_slots q)[bq_bwrptr q := x]) (bq_brdptr q) (length (bq_slots q) - bq_bcounter q) = out_slots q"
    and "ring_items ((bq_slots q)[bq_bwrptr q := x]) (bq_brdptr q) (length (bq_slots q) - (bq_bcounter q - 1)) = out_slots q @ [x]"
proof -
  let ?n = "length (bq_slots q)"
  have c: "?n - bq_bcounter q < ?n" "?n - (bq_bcounter q - 1) = Suc (?n - bq_bcounter q)" "bq_bwrptr q = (bq_brdptr q + (?n - bq_bcounter q)) mod ?n"
    using assms by (auto simp: out_ok_def bq_ok_def)
  show "ring_items ((bq_slots q)[bq_bwrptr q := x]) (bq_brdptr q) (?n - bq_bcounter q) = out_slots q"
    using ring_items_free [OF c(1), of "bq_brdptr q" x] by (simp add: out_slots_def c(3))
  show "ring_items ((bq_slots q)[bq_bwrptr q := x]) (bq_brdptr q) (?n - (bq_bcounter q - 1)) = out_slots q @ [x]"
    using ring_put [OF c(1), of "bq_brdptr q" x] unfolding out_slots_def c(2) by (simp add: c(3))
qed

lemma obq_post_ok:
  assumes ok: "out_ok q" and c: "bq_bcounter q > 0" and sz: "0 < sz" "sz \<le> bq_bsize q - 4"
  shows "out_inv (obq_post sz q)"
    and "out_stream (obq_post sz q) = concat (map slot_bytes (out_slots q)) @ take sz (snd (bq_slots q ! bq_bwrptr q))"
    and "out_room (obq_post sz q) = (bq_bcounter q - 1) * (bq_bsize q - 4)"
proof -
  let ?n = "length (bq_slots q)" let ?x = "(sz, snd (bq_slots q ! bq_bwrptr q))" let ?q = "obq_post sz q"
  note w = out_ok_wr [OF ok]
  have cn: "bq_bcounter q \<le> ?n" using ok by (simp add: out_ok_def bq_ok_def)
  have sl: "out_slots ?q = out_slots q @ [?x]"
    using out_slots_write(2) [OF ok c, of ?x] by (simp add: out_slots_def obq_post_def Let_def)
  have x: "slot_ok q ?x" "length (snd ?x) = bq_bsize q - 4" using sz ok w by (auto simp: slot_ok_def out_ok_def bq_ok_def)
  have "bq_ok ?q" using ok c x
    by (auto simp: out_ok_def bq_ok_def obq_post_def Let_def dest!: set_update_subset_insert [THEN subsetD])
  moreover have "bq_bwrptr ?q = (bq_brdptr q + (?n - (bq_bcounter q - 1))) mod ?n"
  proof -
    have "bq_bwrptr ?q = Suc (bq_bwrptr q) mod ?n"
      using bq_next_mod [of "bq_bwrptr q" "q\<lparr>bq_slots := (bq_slots q)[bq_bwrptr q := ?x]\<rparr>"] w by (simp add: obq_post_def Let_def)
    also have "\<dots> = Suc (bq_brdptr q + (?n - bq_bcounter q)) mod ?n" using ok by (simp add: out_ok_def mod_Suc_eq)
    also have "Suc (bq_brdptr q + (?n - bq_bcounter q)) = bq_brdptr q + (?n - (bq_bcounter q - 1))"
      using cn c by arith
    finally show ?thesis .
  qed
  ultimately show "out_inv ?q" using ok x unfolding out_inv_def out_ok_def sl by (auto simp: slot_ok_def obq_post_def Let_def)
  show "out_stream ?q = concat (map slot_bytes (out_slots q)) @ take sz (snd (bq_slots q ! bq_bwrptr q))"
    unfolding out_stream_def sl by (simp add: slot_bytes_def obq_post_def Let_def)
  show "out_room ?q = (bq_bcounter q - 1) * (bq_bsize q - 4)" by (simp add: out_room_def obq_post_def Let_def)
qed

lemma bq_notify_out [simp]:
  "out_inv (bq_notify q) = out_inv q" "out_stream (bq_notify q) = out_stream q" "out_room (bq_notify q) = out_room q"
  "bq_suspended (bq_notify q) = bq_suspended q" "bq_ptr (bq_notify q) = bq_ptr q"
  by (simp_all add: bq_notify_def out_inv_def out_ok_def bq_ok_def slot_ok_def out_slots_def out_stream_def out_room_def
      split: option.split)

text \<open>Bytes stored in the current buffer are appended to the stream; a buffer that is full is posted.\<close>

lemma obq_store_ok:
  assumes inv: "out_inv q" and ptr: "bq_ptr q = Some p" and c: "bs \<noteq> []" "p + length bs \<le> bq_top q" and k: "thd_ctx k"
  obtains q' where "obq_store bs q k = Ok q'" and "out_inv q'" and "out_stream q' = out_stream q @ bs"
    and "out_room q = out_room q' + length bs" and "bq_suspended q' = bq_suspended q"
proof -
  let ?d = "snd (bq_slots q ! bq_bwrptr q)" let ?e = "take p ?d @ bs @ drop (p + length bs) ?d"
  let ?x = "(fst (bq_slots q ! bq_bwrptr q), ?e)"
  let ?q = "q\<lparr>bq_slots := (bq_slots q)[bq_bwrptr q := ?x], bq_ptr := Some (p + length bs)\<rparr>"
  have ok: "out_ok q" and n: "bq_bcounter q > 0" "bq_top q = bq_bsize q - 4" using inv ptr by (simp_all add: out_inv_def)
  note w = out_ok_wr [OF ok]
  have d: "length ?d = bq_bsize q - 4" "length ?e = bq_bsize q - 4" using ok w c n by (auto simp: out_ok_def bq_ok_def)
  have s: "out_slots ?q = out_slots q" using out_slots_write(1) [OF ok n(1), of ?x] by (simp add: out_slots_def)
  have ok': "out_ok ?q" using ok d unfolding out_ok_def s
    by (auto simp: bq_ok_def slot_ok_def dest!: set_update_subset_insert [THEN subsetD])
  have at: "bq_slots ?q ! bq_bwrptr q = ?x" using w by simp
  have tk: "take (p + length bs) ?e = take p ?d @ bs" using d c n by simp
  have st: "concat (map slot_bytes (out_slots q)) @ take (p + length bs) ?e = out_stream q @ bs"
    unfolding tk using ptr by (simp add: out_stream_def)
  have rm: "out_room q = bq_bcounter q * (bq_bsize q - 4) - p" "p + length bs \<le> bq_bcounter q * (bq_bsize q - 4)"
    using ptr n c(2) by (simp_all add: out_room_def) (metis le_trans mult_le_mono1 mult_1 Suc_leI One_nat_def)
  show ?thesis
  proof (cases "p + length bs \<ge> bq_top q")
    case False
    have "out_inv ?q" using False n ok' by (simp add: out_inv_def)
    moreover have "out_stream ?q = out_stream q @ bs" unfolding st [symmetric] out_stream_def [of ?q] s using at by simp
    moreover have "out_room ?q + length bs = out_room q" using rm by (simp add: out_room_def)
    moreover have "obq_store bs q k = Ok ?q" using False ptr by (simp add: obq_store_def case_prod_unfold Let_def)
    ultimately show ?thesis using that [of ?q] by simp
  next
    case True
    let ?r = "bq_notify (obq_post (bq_bsize q - 4) ?q)"
    have t: "p + length bs = bq_bsize q - 4" using True c(2) n by simp
    have b: "0 < bq_bsize q - 4" using ok by (simp add: out_ok_def bq_ok_def)
    then have po: "out_inv (obq_post (bq_bsize q - 4) ?q)"
      "out_stream (obq_post (bq_bsize q - 4) ?q) = concat (map slot_bytes (out_slots ?q)) @ take (bq_bsize q - 4) (snd (bq_slots ?q ! bq_bwrptr q))"
      "out_room (obq_post (bq_bsize q - 4) ?q) = (bq_bcounter q - 1) * (bq_bsize q - 4)"
      using obq_post_ok [OF ok', of "bq_bsize q - 4"] n(1) by simp_all
    have "obq_store bs q k = Ok ?r"
      using True ptr k n ok by (simp add: obq_store_def case_prod_unfold Let_def obqPostFullBufferS_def obqIsFullI_def bqSpaceI_def out_ok_def bq_ok_def)
    moreover have "out_inv ?r" "out_stream ?r = out_stream q @ bs" "out_room ?r = (bq_bcounter q - 1) * (bq_bsize q - 4)"
      using po at st t unfolding s by simp_all
    moreover have "bq_bcounter q * (bq_bsize q - 4) = (bq_bcounter q - 1) * (bq_bsize q - 4) + (bq_bsize q - 4)"
      using n(1) by (cases "bq_bcounter q") simp_all
    then have "out_room q = (bq_bcounter q - 1) * (bq_bsize q - 4) + length bs" using rm t by arith
    ultimately show ?thesis using that [of ?r] by (simp add: obq_post_def Let_def)
  qed
qed

lemma obq_turn:
  assumes inv: "out_inv q" and r: "running k" and ne: "out_room q > 0"
  obtains q' p where "(if bq_ptr q = None then obqGetEmptyBufferTimeoutS timeout q (k\<lparr>lock_cnt := 1\<rparr>)
      else Ok (Returned MSG_OK, q, k\<lparr>lock_cnt := 1\<rparr>)) = Ok (Returned MSG_OK, q', k\<lparr>lock_cnt := 1\<rparr>)"
    and "out_inv q'" and "out_stream q' = out_stream q" and "out_room q' = out_room q" and "bq_ptr q' = Some p"
    and "p < bq_top q'" and "bq_suspended q' = bq_suspended q"
proof (cases "bq_ptr q")
  case None
  let ?q = "q\<lparr>bq_ptr := Some 0, bq_top := bq_bsize q - 4\<rparr>"
  have s: "out_slots ?q = out_slots q" by (simp add: out_slots_def)
  have c: "bq_bcounter q > 0" "bq_bsize q \<ge> 6" using ne inv None by (auto simp: out_room_def out_inv_def out_ok_def bq_ok_def)
  then have "out_inv ?q" using inv unfolding out_inv_def out_ok_def s by (simp add: bq_ok_def slot_ok_def)
  moreover have "out_stream ?q = out_stream q" using None unfolding out_stream_def s by simp
  moreover have "out_room ?q = out_room q" using None by (simp add: out_room_def)
  ultimately show ?thesis using that [of ?q 0] c None zone_reenter(2) [OF r]
    by (simp add: obqGetEmptyBufferTimeoutS_def obq_acquire_def obqIsFullI_def bqSpaceI_def)
next
  case (Some p)
  then show ?thesis using that [of q p] inv by (simp add: out_inv_def)
qed

lemma out_room_0:
  assumes "out_inv q" and "out_room q = 0"
  shows "bq_bcounter q = 0" and "bq_ptr q = None"
proof -
  have "6 \<le> bq_bsize q" using assms(1) by (simp add: out_inv_def out_ok_def bq_ok_def)
  moreover have "p < bq_bcounter q * (bq_bsize q - 4)" if "bq_ptr q = Some p" for p
  proof -
    have "p < bq_bsize q - 4" "bq_bcounter q > 0" using that assms(1) by (auto simp: out_inv_def)
    then show ?thesis by (cases "bq_bcounter q") auto
  qed
  ultimately show "bq_ptr q = None" using assms(2) by (cases "bq_ptr q") (auto simp: out_room_def)
  then show "bq_bcounter q = 0" using assms(2) \<open>6 \<le> bq_bsize q\<close> by (simp add: out_room_def)
qed

lemma obq_write_ok:
  assumes "out_inv q" and "running k" and "bs \<noteq> []" and "length bs \<le> f"
  shows "\<exists>q'. out_inv q' \<and>
    (length bs \<le> out_room q \<longrightarrow> out_stream q' = out_stream q @ bs \<and>
       obq_write f timeout w bs q (k\<lparr>lock_cnt := 1\<rparr>) = Ok (Done (w + length bs), q', k)) \<and>
    (length bs > out_room q \<and> bq_suspended q \<longrightarrow> out_stream q' = out_stream q @ take (out_room q) bs \<and>
       obq_write f timeout w bs q (k\<lparr>lock_cnt := 1\<rparr>) = Ok (Done (w + out_room q), q', k))"
  using assms
proof (induction f arbitrary: q bs w)
  case (Suc f)
  note l = zone_reenter [OF Suc(3)]
  let ?l = "k\<lparr>lock_cnt := 1\<rparr>"
  show ?case
  proof (cases "out_room q = 0")
    case True
    have "MSG_RESET \<noteq> MSG_OK" by (simp add: MSG_RESET_def MSG_OK_def)
    then show ?thesis using Suc(2,4) True out_room_0 [OF Suc(2) True] l
      by (intro exI [of _ q]) (simp add: obqGetEmptyBufferTimeoutS_def obq_acquire_def obqIsFullI_def bqSpaceI_def obq_copy_def)
  next
    case False
    then obtain q1 p where t: "(if bq_ptr q = None then obqGetEmptyBufferTimeoutS timeout q ?l else Ok (Returned MSG_OK, q, ?l)) =
        Ok (Returned MSG_OK, q1, ?l)" "out_inv q1" "out_stream q1 = out_stream q" "out_room q1 = out_room q"
        "bq_ptr q1 = Some p" "p < bq_top q1" "bq_suspended q1 = bq_suspended q"
      using obq_turn [OF Suc(2,3)] by (metis neq0_conv)
    let ?c = "bq_chunk (length bs) q1"
    have c: "0 < ?c" "p + ?c \<le> bq_top q1" "?c \<le> length bs" using bq_chunk_bounds [OF t(5,6), of "length bs"] Suc(4) by simp_all
    have tb: "take ?c bs \<noteq> []" "length (take ?c bs) = ?c" using c Suc(4) by auto
    obtain q2 where q2: "obq_store (take ?c bs) q1 ?l = Ok q2" "out_inv q2" "out_stream q2 = out_stream q @ take ?c bs"
        "out_room q = out_room q2 + ?c" "bq_suspended q2 = bq_suspended q"
      using obq_store_ok [OF t(2,5) tb(1) _ l(2)] c(2) tb(2) t(3,4,7) by metis
    have wr: "obq_write (Suc f) timeout w bs q ?l =
        (if drop ?c bs = [] then Ok (Done (w + ?c), q2, k) else obq_write f timeout (w + ?c) (drop ?c bs) q2 ?l)"
      using t(1) q2(1) l by (simp add: obq_copy_def Let_def)
    show ?thesis
    proof (cases "drop ?c bs = []")
      case True
      then have "?c = length bs" using c(3) by simp
      then show ?thesis using wr True q2 by (intro exI [of _ q2]) simp
    next
      case False
      then have f: "length (drop ?c bs) \<le> f" using Suc(5) c(1) by simp
      have w2: "obq_write (Suc f) timeout w bs q ?l = obq_write f timeout (w + ?c) (drop ?c bs) q2 ?l"
        using wr False by (simp only: if_False)
      have le: "length (drop ?c bs) \<le> out_room q2 \<longleftrightarrow> length bs \<le> out_room q" "w + ?c + length (drop ?c bs) = w + length bs"
        "w + ?c + out_room q2 = w + out_room q" using c(3) q2(4) by auto
      have st: "(out_stream q @ take ?c bs) @ drop ?c bs = out_stream q @ bs"
        "(out_stream q @ take ?c bs) @ take (out_room q2) (drop ?c bs) = out_stream q @ take (out_room q) bs"
        unfolding append_assoc q2(4) add.commute [of "out_room q2"] take_add by simp_all
      from Suc.IH [OF q2(2) Suc(3) False f, of "w + ?c"] show ?thesis
        unfolding q2(3,5) st w2 le(2,3) by (simp only: not_le [symmetric] le(1))
    qed
  qed
qed simp

text \<open>
  C33: A write to an output queue appends to the stream of the bytes to be sent. If there is room for all
  of them the call returns their number; on a suspended queue it writes what there is room for and
  returns that number.
\<close>

theorem obqWriteTimeout_stream:
  assumes "out_inv q" and "running k" and "bs \<noteq> []"
  shows "\<exists>q'. out_inv q' \<and>
    (length bs \<le> out_room q \<longrightarrow> out_stream q' = out_stream q @ bs \<and>
       obqWriteTimeout bs timeout q k = Ok (Done (length bs), q', k)) \<and>
    (length bs > out_room q \<and> bq_suspended q \<longrightarrow> out_stream q' = out_stream q @ take (out_room q) bs \<and>
       obqWriteTimeout bs timeout q k = Ok (Done (out_room q), q', k))"
  using obq_write_ok [OF assms, of "length bs" timeout 0] assms(3) zone_reenter(1) [OF assms(2)] by (simp add: obqWriteTimeout_def)

lemma obqIsEmptyI_iff: "out_ok q \<Longrightarrow> obqIsEmptyI q \<longleftrightarrow> bq_bcounter q = length (bq_slots q)"
  using ring_full [of "bq_brdptr q" "length (bq_slots q)" "length (bq_slots q) - bq_bcounter q"]
  by (auto simp: obqIsEmptyI_def out_ok_def bq_ok_def)

text \<open>The queue after the buffer at the read position has been given back.\<close>

definition obq_released :: "bqueue \<Rightarrow> bqueue" where
  "obq_released q = q\<lparr>bq_bcounter := Suc (bq_bcounter q), bq_brdptr := bq_next (bq_brdptr q) q\<rparr>"

lemma obqGetFull_eq:
  assumes "out_inv q" and "i_ctx k"
  shows "obqGetFullBufferI q k = Ok (if bq_bcounter q < length (bq_slots q) then Some (bq_slots q ! bq_brdptr q) else None)"
proof -
  have "out_ok q" "bq_bcounter q \<le> length (bq_slots q)" using assms(1) by (simp_all add: out_inv_def out_ok_def bq_ok_def)
  then show ?thesis using obqIsEmptyI_iff assms(2) by (auto simp: obqGetFullBufferI_def)
qed

lemma obqRelease_eq:
  assumes "out_inv q" and "bq_bcounter q < length (bq_slots q)" and "sched_inv k" and "i_ctx k"
    and "\<forall>t\<in>set (queues k (TQ (bq_waiting q))). state_of k t = CH_STATE_QUEUED"
  shows "obqReleaseEmptyBufferI q k = Ok (obq_released q, dequeued (TQ (bq_waiting q)) MSG_OK k)"
  using assms chThdDequeueNextI_eq(1) [OF assms(3,4) _ assms(5), of MSG_OK] obqIsEmptyI_iff [of q]
  by (simp add: obqReleaseEmptyBufferI_def obq_released_def out_inv_def)

lemma obq_released_ok:
  assumes inv: "out_inv q" and c: "bq_bcounter q < length (bq_slots q)"
  shows "out_inv (obq_released q)" and "out_stream q = slot_bytes (bq_slots q ! bq_brdptr q) @ out_stream (obq_released q)"
    and "0 < fst (bq_slots q ! bq_brdptr q)" and "fst (bq_slots q ! bq_brdptr q) \<le> length (snd (bq_slots q ! bq_brdptr q))"
proof -
  let ?n = "length (bq_slots q)" let ?s = "bq_slots q ! bq_brdptr q" let ?q = "obq_released q"
  have ok: "out_ok q" using inv by (simp add: out_inv_def)
  then have rd: "bq_brdptr q < ?n" "bq_bcounter q \<le> ?n" by (simp_all add: out_ok_def bq_ok_def)
  have sl: "out_slots q = ?s # out_slots ?q"
    using ring_get [of "?n - bq_bcounter q" "bq_brdptr q" "bq_slots q"] c rd bq_next_mod [OF rd(1)]
    by (simp add: out_slots_def obq_released_def)
  have "(Suc (bq_brdptr q) mod ?n + (?n - Suc (bq_bcounter q))) mod ?n = (Suc (bq_brdptr q) + (?n - Suc (bq_bcounter q))) mod ?n"
    by (rule mod_add_left_eq)
  also have "Suc (bq_brdptr q) + (?n - Suc (bq_bcounter q)) = bq_brdptr q + (?n - bq_bcounter q)" using c by simp
  finally have "bq_bwrptr q = (bq_next (bq_brdptr q) q + (?n - Suc (bq_bcounter q))) mod ?n"
    using ok bq_next_mod [OF rd(1)] by (simp add: out_ok_def)
  moreover have "bq_next (bq_brdptr q) q < ?n" using rd by (auto simp: bq_next_def)
  ultimately show "out_inv ?q" using inv c sl unfolding out_inv_def out_ok_def
    by (auto simp: bq_ok_def slot_ok_def obq_released_def split: option.splits)
  show "out_stream q = slot_bytes ?s @ out_stream ?q" unfolding out_stream_def sl by (simp add: obq_released_def split: option.split)
  show "0 < fst ?s" "fst ?s \<le> length (snd ?s)" using ok sl by (simp_all add: out_ok_def slot_ok_def)
qed

text \<open>
  The driver takes the bytes of the stream from the front, a buffer at a time: the buffer that
  \<open>obqGetFullBufferI\<close> returns holds the first bytes, and \<open>obqReleaseEmptyBufferI\<close> removes just these and
  wakes one writer. There is such a buffer unless the only bytes are those of the current buffer.
\<close>

theorem obqGetFullBufferI_front:
  assumes inv: "out_inv q" and k: "sched_inv k" "i_ctx k" "\<forall>t\<in>set (queues k (TQ (bq_waiting q))). state_of k t = CH_STATE_QUEUED"
  shows "(bq_bcounter q = length (bq_slots q) \<longrightarrow> obqGetFullBufferI q k = Ok None) \<and>
    (bq_bcounter q < length (bq_slots q) \<longrightarrow> (\<exists>s q'. obqGetFullBufferI q k = Ok (Some s) \<and> 0 < fst s \<and>
       obqReleaseEmptyBufferI q k = Ok (q', dequeued (TQ (bq_waiting q)) MSG_OK k) \<and> out_inv q' \<and>
       out_stream q = slot_bytes s @ out_stream q'))"
  using obq_released_ok [OF inv] obqRelease_eq [OF inv _ k] obqGetFull_eq [OF inv k(2)] by auto

text \<open>
  A flush posts the current buffer: the stream is the same, and all of it is in posted buffers, which the
  driver can take.
\<close>

theorem obqFlush_posts:
  assumes "out_inv q" and "running k"
  shows "\<exists>q'. obqFlush q k = Ok (q', k) \<and> out_inv q' \<and> out_stream q' = out_stream q \<and>
    out_stream q' = concat (map slot_bytes (out_slots q'))"
proof (cases "\<exists>p. bq_ptr q = Some p \<and> p > 0")
  case True
  then obtain p where p: "bq_ptr q = Some p" "p > 0" by blast
  have o: "out_ok q" "bq_bcounter q > 0" "p < bq_bsize q - 4" using assms(1) p by (simp_all add: out_inv_def)
  have "obqFlush q k = Ok (bq_notify (obq_post p q), k)"
    using p o zone_reenter(2) [OF assms(2)]
    by (simp add: hal_locked_eq [OF assms(2)] obqFlush_def obqPostFullBufferS_def obqIsFullI_def bqSpaceI_def)
  moreover have "out_inv (obq_post p q)" "out_stream (obq_post p q) = out_stream q"
    using obq_post_ok(1,2) [OF o(1,2) p(2)] o(3) p by (simp_all add: out_stream_def)
  moreover have "out_stream (bq_notify (obq_post p q)) = concat (map slot_bytes (out_slots (bq_notify (obq_post p q))))"
    unfolding out_stream_def [of "bq_notify _"] by (simp add: obq_post_def Let_def)
  ultimately show ?thesis by (intro exI [of _ "bq_notify (obq_post p q)"]) simp
next
  case False
  then have "obqFlush q k = Ok (q, k)" by (auto simp: hal_locked_eq [OF assms(2)] obqFlush_def split: option.split)
  moreover have "out_stream q = concat (map slot_bytes (out_slots q))" using False by (auto simp: out_stream_def split: option.split)
  ultimately show ?thesis using assms(1) by auto
qed

text \<open>A new queue is empty, and satisfies its invariant.\<close>

lemma ObjectInit_inv:
  assumes "slots \<noteq> []" and "\<forall>s\<in>set slots. length (snd s) = sz" and "sz \<ge> 2" and "p \<noteq> NULL"
  shows "\<exists>q k'. ibqObjectInit p susp slots sz k = Ok (q, k') \<and> in_inv q \<and> in_stream q = []"
    and "\<exists>q k'. obqObjectInit p susp slots sz k = Ok (q, k') \<and> out_inv q \<and> out_stream q = [] \<and> out_room q = length slots * sz"
  using assms by (auto simp: ibqObjectInit_def obqObjectInit_def in_inv_def out_inv_def out_ok_def bq_ok_def in_slots_def
      out_slots_def in_stream_def out_stream_def out_room_def)

section \<open>Witnesses\<close>

text \<open>Three buffers of four bytes; the first one of the two posted has been read in part.\<close>

definition demo_in :: bqueue where
  "demo_in = \<lparr>bq_waiting = 80, bq_suspended = False, bq_bcounter = 2, bq_bwrptr = 1, bq_brdptr = 2, bq_bsize = 8,
     bq_slots = [(2, [4, 5, 0, 0]), (0, [9, 9, 9, 9]), (4, [1, 2, 3, 7])], bq_ptr = Some 1, bq_top = 4, bq_notified = 0\<rparr>"

definition demo_out :: bqueue where
  "demo_out = \<lparr>bq_waiting = 80, bq_suspended = False, bq_bcounter = 2, bq_bwrptr = 0, bq_brdptr = 2, bq_bsize = 8,
     bq_slots = [(0, [8, 0, 0, 0]), (0, [9, 9, 9, 9]), (3, [1, 2, 3, 7])], bq_ptr = Some 1, bq_top = 4, bq_notified = 0\<rparr>"

lemma demo_in_ok: "in_inv demo_in" "in_stream demo_in = [2, 3, 7, 4, 5]"
  by code_simp+

lemma demo_out_ok: "out_inv demo_out" "out_stream demo_out = [1, 2, 3, 8]" "out_room demo_out = 7"
  by code_simp+

theorem ibqReadTimeout_stream_witness:
  "\<exists>q'. ibqReadTimeout 4 TIME_INFINITE demo_in (demo_kernel\<lparr>lock_cnt := 0\<rparr>) =
     Ok (Done [2, 3, 7, 4], q', demo_kernel\<lparr>lock_cnt := 0\<rparr>) \<and> in_stream q' = [5]"
  using ibqReadTimeout_stream [OF demo_in_ok(1) demo_running, of 4 TIME_INFINITE] demo_in_ok(2)
  by (auto simp: numeral_eq_Suc)

theorem obqWriteTimeout_stream_witness:
  "\<exists>q'. obqWriteTimeout [5, 6, 7, 8, 9] TIME_INFINITE demo_out (demo_kernel\<lparr>lock_cnt := 0\<rparr>) =
     Ok (Done 5, q', demo_kernel\<lparr>lock_cnt := 0\<rparr>) \<and> out_stream q' = [1, 2, 3, 8, 5, 6, 7, 8, 9]"
  using obqWriteTimeout_stream [OF demo_out_ok(1) demo_running, of "[5, 6, 7, 8, 9]" TIME_INFINITE] demo_out_ok(2,3)
  by auto

end
