(* ===== verification/UsbDriver.thy ===== *)
theory UsbDriver
  imports IoBuffers
begin

text \<open>
  The USB device driver (\<open>os/hal/src/hal_usb.c\<close>, \<open>os/hal/include/hal_usb.h\<close>) and the transfer part of the
  low level driver of the target (\<open>os/hal/ports/STM32/LLD/OTGv1/hal_usb_lld.c\<close>), in their
  configuration: the address is set early, the status stage is done in software, no synchronous API.

  \<open>usbsys\<close> is the state of the device \<open>USBD1\<close> and of what its callbacks and buffers belong to: the serial
  driver \<open>SDU1\<close> (theory \<open>SerialUsb\<close>), the line coding and the kernel. The callbacks of \<open>USBConfig\<close> are
  an argument (\<open>usb_config\<close>) of the functions that call them. The state structures of the endpoints are
  reached through references (\<open>ep_ref\<close>); those of the two directions of endpoint zero are one union, so
  they are one object here, whose fields are those of either view.

  A buffer pointer is a buffer (\<open>usb_buf\<close>) and an offset in it. Register accesses are recorded in a
  log (\<open>usb_lld\<close>): an entry \<open>L_fifo ep bs\<close> is a packet written to the FIFO of an endpoint. The FIFO areas
  given to the endpoints are kept in \<open>dieptxf\<close>.
\<close>

section \<open>State\<close>

datatype usbstate = USB_UNINIT | USB_STOP | USB_READY | USB_SELECTED | USB_ACTIVE | USB_SUSPENDED
datatype usbepstatus = EP_STATUS_DISABLED | EP_STATUS_STALLED | EP_STATUS_ACTIVE
datatype usbep0state =
    USB_EP0_STP_WAITING | USB_EP0_IN_TX | USB_EP0_IN_WAITING_TX0 | USB_EP0_IN_SENDING_STS
  | USB_EP0_OUT_WAITING_STS | USB_EP0_OUT_RX | USB_EP0_ERROR
datatype usbevent =
    USB_EVENT_RESET | USB_EVENT_ADDRESS | USB_EVENT_CONFIGURED | USB_EVENT_UNCONFIGURED
  | USB_EVENT_SUSPEND | USB_EVENT_WAKEUP | USB_EVENT_STALLED
datatype sdustate = SDU_UNINIT | SDU_STOP | SDU_READY

datatype usb_buf = B_NULL | B_CONST "byte list" | B_STATUS | B_CONFIGURATION | B_SETUP | B_LINECODING | B_IB nat | B_OB nat

datatype ep_ref = EP0_STATE | EP1_IN | EP1_OUT | EP2_IN

record ep_state =
  es_size :: nat
  es_cnt :: nat
  es_buf :: "usb_buf \<times> nat"
  es_tot :: nat

datatype ep_callback = CB_NULL | CB_ep0setup | CB_ep0in | CB_ep0out
  | CB_sduDataTransmitted | CB_sduDataReceived | CB_sduInterruptTransmitted

datatype ep_mode = USB_EP_MODE_TYPE_CTRL | USB_EP_MODE_TYPE_ISOC | USB_EP_MODE_TYPE_BULK | USB_EP_MODE_TYPE_INTR

record USBEndpointConfig =
  ep_mode :: ep_mode
  setup_cb :: ep_callback
  in_cb :: ep_callback
  out_cb :: ep_callback
  in_maxsize :: nat
  out_maxsize :: nat
  in_state :: "ep_ref option"
  out_state :: "ep_ref option"
  in_multiplier :: nat

datatype usb_lld_call = L_start | L_stop | L_reset | L_set_address byte | L_init_endpoint nat | L_disable_endpoints
  | L_start_in nat nat | L_start_out nat nat | L_fifo nat "byte list"
  | L_stall_in nat | L_stall_out nat | L_clear_in nat | L_clear_out nat | L_wakeup_host

record SerialUSBDriver =
  sdu_state :: sdustate
  sdu_config :: bool
  ibqueue :: bqueue
  obqueue :: bqueue

record usbsys =
  usb_state :: usbstate
  usb_cfg :: bool
  transmitting :: u16
  receiving :: u16
  epc :: "nat \<Rightarrow> USBEndpointConfig option"
  in_params :: "nat \<Rightarrow> bool"
  out_params :: "nat \<Rightarrow> bool"
  ep0state :: usbep0state
  ep0next :: usb_buf
  ep0n :: nat
  ep0endcb :: ptr
  usb_setup :: "byte list"
  usb_status :: u16
  usb_address :: byte
  configuration :: byte
  saved_state :: usbstate
  pmnext :: nat
  dieptxf :: "nat \<Rightarrow> nat \<times> nat"
  ep_states :: "ep_ref \<Rightarrow> ep_state"
  ep0setup_buffer :: "byte list"
  linecoding :: "byte list"
  sdu :: SerialUSBDriver
  usb_lld :: "usb_lld_call list"
  usb_k :: kernel

record usb_config =
  event_cb :: "(usbevent \<Rightarrow> usbsys \<Rightarrow> usbsys kres) option"
  get_descriptor_cb :: "byte \<Rightarrow> byte \<Rightarrow> u16 \<Rightarrow> byte list option"
  requests_hook_cb :: "(usbsys \<Rightarrow> bool \<times> usbsys) option"

definition USB_MAX_ENDPOINTS :: nat where "USB_MAX_ENDPOINTS = 5"
definition EP0_MAX_INSIZE :: nat where "EP0_MAX_INSIZE = 64"
definition EP0_MAX_OUTSIZE :: nat where "EP0_MAX_OUTSIZE = 64"

abbreviation lld_log :: "usb_lld_call \<Rightarrow> usbsys \<Rightarrow> usbsys" where
  "lld_log c s \<equiv> s\<lparr>usb_lld := usb_lld s @ [c]\<rparr>"

abbreviation upd_ib :: "bqueue \<Rightarrow> usbsys \<Rightarrow> usbsys" where
  "upd_ib q s \<equiv> s\<lparr>sdu := (sdu s)\<lparr>ibqueue := q\<rparr>\<rparr>"

abbreviation upd_ob :: "bqueue \<Rightarrow> usbsys \<Rightarrow> usbsys" where
  "upd_ob q s \<equiv> s\<lparr>sdu := (sdu s)\<lparr>obqueue := q\<rparr>\<rparr>"

abbreviation upd_es :: "ep_ref \<Rightarrow> (ep_state \<Rightarrow> ep_state) \<Rightarrow> usbsys \<Rightarrow> usbsys" where
  "upd_es r f s \<equiv> s\<lparr>ep_states := (ep_states s)(r := f (ep_states s r))\<rparr>"

text \<open>The bytes behind a buffer pointer, and writing there; only the buffers of receptions are written.\<close>

definition buf_bytes :: "usbsys \<Rightarrow> usb_buf \<Rightarrow> byte list" where
  "buf_bytes s b = (case b of
     B_NULL \<Rightarrow> []
   | B_CONST bs \<Rightarrow> bs
   | B_STATUS \<Rightarrow> [ucast (usb_status s), ucast (drop_bit 8 (usb_status s))]
   | B_CONFIGURATION \<Rightarrow> [configuration s]
   | B_SETUP \<Rightarrow> usb_setup s
   | B_LINECODING \<Rightarrow> linecoding s
   | B_IB i \<Rightarrow> snd (bq_slots (ibqueue (sdu s)) ! i)
   | B_OB i \<Rightarrow> snd (bq_slots (obqueue (sdu s)) ! i))"

definition overwrite :: "nat \<Rightarrow> 'a list \<Rightarrow> 'a list \<Rightarrow> 'a list" where
  "overwrite off bs xs = take off xs @ bs @ drop (off + length bs) xs"

definition buf_write :: "usb_buf \<Rightarrow> nat \<Rightarrow> byte list \<Rightarrow> usbsys \<Rightarrow> usbsys kres" where
  "buf_write b off bs s =
     (if bs = [] then Ok s
      else if off + length bs > length (buf_bytes s b) then Undef
      else case b of
        B_LINECODING \<Rightarrow> Ok (s\<lparr>linecoding := overwrite off bs (linecoding s)\<rparr>)
      | B_IB i \<Rightarrow> let q = ibqueue (sdu s); (sz, d) = bq_slots q ! i
                  in Ok (upd_ib (q\<lparr>bq_slots := (bq_slots q)[i := (sz, overwrite off bs d)]\<rparr>) s)
      | _ \<Rightarrow> Undef)"

section \<open>The low level driver\<close>

definition otg_ram_reset :: "usbsys \<Rightarrow> usbsys" where
  "otg_ram_reset s = s\<lparr>pmnext := 512 div 4\<rparr>"

definition STM32_OTG1_FIFO_MEM_SIZE :: nat where "STM32_OTG1_FIFO_MEM_SIZE = 320"

definition otg_ram_alloc :: "nat \<Rightarrow> usbsys \<Rightarrow> (nat \<times> usbsys) kres" where
  "otg_ram_alloc sz s =
     kguard (pmnext s + sz \<le> STM32_OTG1_FIFO_MEM_SIZE) ''otg_ram_alloc'' (Ok (pmnext s, s\<lparr>pmnext := pmnext s + sz\<rparr>))"

definition ep0config :: USBEndpointConfig where
  "ep0config = \<lparr>ep_mode = USB_EP_MODE_TYPE_CTRL, setup_cb = CB_ep0setup, in_cb = CB_ep0in, out_cb = CB_ep0out,
     in_maxsize = 0x40, out_maxsize = 0x40, in_state = Some EP0_STATE, out_state = Some EP0_STATE, in_multiplier = 1\<rparr>"

definition usb_lld_reset :: "usbsys \<Rightarrow> usbsys kres" where
  "usb_lld_reset s =
     (let s = (otg_ram_reset (lld_log L_reset s))\<lparr>epc := (epc s)(0 := Some ep0config)\<rparr>
      in kbind (otg_ram_alloc (in_maxsize ep0config div 4) s) (\<lambda>(a, s).
         Ok (s\<lparr>dieptxf := (dieptxf s)(0 := (a, in_maxsize ep0config div 4))\<rparr>)))"

definition usb_lld_set_address :: "usbsys \<Rightarrow> usbsys" where
  "usb_lld_set_address s = lld_log (L_set_address (usb_address s)) s"

definition usb_lld_init_endpoint :: "nat \<Rightarrow> usbsys \<Rightarrow> usbsys kres" where
  "usb_lld_init_endpoint ep s =
     (case epc s ep of None \<Rightarrow> Undef
      | Some c \<Rightarrow>
          let s = lld_log (L_init_endpoint ep) s in
          if in_state c \<noteq> None
          then let fsize = in_maxsize c div 4 * (if in_multiplier c > 1 then in_multiplier c else 1)
               in kbind (otg_ram_alloc fsize s) (\<lambda>(a, s). Ok (s\<lparr>dieptxf := (dieptxf s)(ep := (a, fsize))\<rparr>))
          else Ok (s\<lparr>dieptxf := (dieptxf s)(ep := (0x0400, 0x0200))\<rparr>))"

definition otg_disable_ep :: "usbsys \<Rightarrow> usbsys" where
  "otg_disable_ep s = lld_log L_disable_endpoints s"

definition usb_lld_disable_endpoints :: "usbsys \<Rightarrow> usbsys" where
  "usb_lld_disable_endpoints s = otg_disable_ep (otg_ram_reset s)"

definition usb_lld_start :: "usbsys \<Rightarrow> usbsys" where
  "usb_lld_start s = (if usb_state s = USB_STOP then lld_log L_start s else s)"

definition usb_lld_stop :: "usbsys \<Rightarrow> usbsys" where
  "usb_lld_stop s = (if usb_state s \<noteq> USB_STOP then lld_log L_stop s else s)"

definition usb_lld_start_out :: "nat \<Rightarrow> usbsys \<Rightarrow> usbsys kres" where
  "usb_lld_start_out ep s =
     (case epc s ep of Some c \<Rightarrow> (case out_state c of
        Some r \<Rightarrow>
          let n = es_size (ep_states s r);
              sz = (if ep = 0 \<and> n > EP0_MAX_OUTSIZE then EP0_MAX_OUTSIZE else n)
          in Ok (lld_log (L_start_out ep sz) (upd_es r (\<lambda>e. e\<lparr>es_tot := n, es_size := sz\<rparr>) s))
      | None \<Rightarrow> Undef)
      | None \<Rightarrow> Undef)"

definition usb_lld_start_in :: "nat \<Rightarrow> usbsys \<Rightarrow> usbsys kres" where
  "usb_lld_start_in ep s =
     (case epc s ep of Some c \<Rightarrow> (case in_state c of
        Some r \<Rightarrow>
          let n = es_size (ep_states s r);
              sz = (if ep = 0 \<and> n > EP0_MAX_INSIZE then EP0_MAX_INSIZE else n)
          in Ok (lld_log (L_start_in ep sz) (upd_es r (\<lambda>e. e\<lparr>es_tot := n, es_size := sz\<rparr>) s))
      | None \<Rightarrow> Undef)
      | None \<Rightarrow> Undef)"

definition usb_lld_read_setup :: "nat \<Rightarrow> usbsys \<Rightarrow> usbsys kres" where
  "usb_lld_read_setup ep s = (if ep = 0 then Ok (s\<lparr>usb_setup := ep0setup_buffer s\<rparr>) else Undef)"

text \<open>
  Filling the transmit FIFO: \<open>spaces\<close> are the numbers of free words that the status register shows in
  turn, 0 when they are used up. The handler returns whether all of the transaction is in the FIFO.
\<close>

fun otg_txfifo_handler :: "nat \<Rightarrow> nat list \<Rightarrow> usbsys \<Rightarrow> (bool \<times> usbsys) kres" where
  "otg_txfifo_handler ep spaces s =
     (case epc s ep of Some c \<Rightarrow> (case in_state c of
        Some r \<Rightarrow>
          let e = ep_states s r in
          if es_cnt e \<ge> es_size e then Ok (True, s)
          else let left = es_size e - es_cnt e; n = (if left > in_maxsize c then in_maxsize c else left) in
               case spaces of [] \<Rightarrow> Ok (False, s)
               | sp # spaces' \<Rightarrow>
                   if sp * 4 < n then Ok (False, s)
                   else let (b, off) = es_buf e;
                            s = lld_log (L_fifo ep (take n (drop off (buf_bytes s b)))) s;
                            s = upd_es r (\<lambda>e. e\<lparr>es_buf := (b, off + n), es_cnt := es_cnt e + n\<rparr>) s
                        in otg_txfifo_handler ep spaces' s
      | None \<Rightarrow> Undef)
      | None \<Rightarrow> Undef)"

text \<open>
  A packet of an OUT endpoint is read from the receive FIFO (the case \<open>OUT_DATA\<close> of
  \<open>otg_rxfifo_handler\<close>); what exceeds the transaction is dropped. The room left is a difference of
  unsigned numbers. A SETUP packet is read in the case \<open>SETUP_DATA\<close>.
\<close>

definition otg_rxfifo_out :: "nat \<Rightarrow> byte list \<Rightarrow> usbsys \<Rightarrow> usbsys kres" where
  "otg_rxfifo_out ep bs s =
     (case epc s ep of Some c \<Rightarrow> (case out_state c of
        Some r \<Rightarrow>
          let e = ep_states s r; (b, off) = es_buf e;
              room = unat (of_nat (es_size e) - of_nat (es_cnt e) :: u32)
          in kbind (buf_write b off (take room bs) s) (\<lambda>s.
             Ok (upd_es r (\<lambda>e. e\<lparr>es_buf := (b, off + length bs), es_cnt := es_cnt e + length bs\<rparr>) s))
      | None \<Rightarrow> Undef)
      | None \<Rightarrow> Undef)"

definition otg_rxfifo_setup :: "byte list \<Rightarrow> usbsys \<Rightarrow> usbsys" where
  "otg_rxfifo_setup bs s = s\<lparr>ep0setup_buffer := overwrite 0 (take 8 bs) (ep0setup_buffer s)\<rparr>"

text \<open>What the status word popped from the receive FIFO says, with the data behind it.\<close>

datatype rx_event = Rx_setup_data nat "byte list" | Rx_out_data nat "byte list" | Rx_other

definition otg_rxfifo_handler :: "rx_event \<Rightarrow> usbsys \<Rightarrow> usbsys kres" where
  "otg_rxfifo_handler ev s = (case ev of
     Rx_setup_data ep bs \<Rightarrow> if ep = 0 then Ok (otg_rxfifo_setup bs s) else Undef
   | Rx_out_data ep bs \<Rightarrow> otg_rxfifo_out ep bs s
   | Rx_other \<Rightarrow> Ok s)"

section \<open>The portable driver\<close>

definition get_hword :: "byte \<Rightarrow> byte \<Rightarrow> u16" where
  "get_hword lo hi = ucast lo OR push_bit 8 (ucast hi)"

definition usbGetTransmitStatusI :: "nat \<Rightarrow> usbsys \<Rightarrow> bool" where
  "usbGetTransmitStatusI ep s \<longleftrightarrow> transmitting s AND push_bit ep 1 \<noteq> 0"

definition usbGetReceiveStatusI :: "nat \<Rightarrow> usbsys \<Rightarrow> bool" where
  "usbGetReceiveStatusI ep s \<longleftrightarrow> receiving s AND push_bit ep 1 \<noteq> 0"

definition flag_on :: "nat \<Rightarrow> u16 \<Rightarrow> u16" where
  "flag_on ep w = w OR push_bit ep 1"

definition flag_off :: "nat \<Rightarrow> u16 \<Rightarrow> u16" where
  "flag_off ep w = w AND NOT (push_bit ep 1)"

definition usbSetupTransfer :: "usb_buf \<Rightarrow> nat \<Rightarrow> usbsys \<Rightarrow> usbsys" where
  "usbSetupTransfer buf n s = s\<lparr>ep0next := buf, ep0n := n, ep0endcb := NULL\<rparr>"

definition isr_invoke_event_cb :: "usb_config \<Rightarrow> usbevent \<Rightarrow> usbsys \<Rightarrow> usbsys kres" where
  "isr_invoke_event_cb cfg evt s =
     (if usb_cfg s then case event_cb cfg of None \<Rightarrow> Ok s | Some f \<Rightarrow> f evt s else Undef)"

text \<open>A part of an interrupt handler that is run in a critical zone.\<close>

definition isr_locked :: "(usbsys \<Rightarrow> usbsys kres) \<Rightarrow> usbsys \<Rightarrow> usbsys kres" where
  "isr_locked f s =
     kbind (chSysLockFromISR (usb_k s)) (\<lambda>k. kbind (f (s\<lparr>usb_k := k\<rparr>)) (\<lambda>s.
     kbind (chSysUnlockFromISR (usb_k s)) (\<lambda>k. Ok (s\<lparr>usb_k := k\<rparr>))))"

definition usbObjectInit :: "usbsys \<Rightarrow> usbsys" where
  "usbObjectInit s = s\<lparr>usb_state := USB_STOP, usb_cfg := False,
     in_params := (\<lambda>i. if i < USB_MAX_ENDPOINTS then False else in_params s i),
     out_params := (\<lambda>i. if i < USB_MAX_ENDPOINTS then False else out_params s i), transmitting := 0, receiving := 0\<rparr>"

text \<open>All endpoints up to \<open>USB_MAX_ENDPOINTS\<close> from \<open>i\<close> on are cleared.\<close>

definition clear_epc :: "nat \<Rightarrow> usbsys \<Rightarrow> usbsys" where
  "clear_epc i s = s\<lparr>epc := (\<lambda>ep. if i \<le> ep \<and> ep \<le> USB_MAX_ENDPOINTS then None else epc s ep)\<rparr>"

definition usbStart :: "usbsys \<Rightarrow> usbsys kres" where
  "usbStart s =
     kbind (chSysLock (usb_k s)) (\<lambda>k.
     kguard (usb_state s = USB_STOP \<or> usb_state s = USB_READY) ''usbStart'' (
     let s = usb_lld_start (clear_epc 0 (s\<lparr>usb_k := k, usb_cfg := True\<rparr>))
     in kbind (chSysUnlock k) (\<lambda>k. Ok (s\<lparr>usb_state := USB_READY, usb_k := k\<rparr>))))"

definition usbStop :: "usbsys \<Rightarrow> usbsys kres" where
  "usbStop s =
     kbind (chSysLock (usb_k s)) (\<lambda>k.
     kguard (usb_state s \<in> {USB_STOP, USB_READY, USB_SELECTED, USB_ACTIVE, USB_SUSPENDED}) ''usbStop'' (
     let s = clear_epc 0 ((usb_lld_stop s)\<lparr>usb_cfg := False, usb_state := USB_STOP\<rparr>)
     in kbind (chSchRescheduleS k) (\<lambda>k. kbind (chSysUnlock k) (\<lambda>k. Ok (s\<lparr>usb_k := k\<rparr>)))))"

definition es_zero :: ep_state where
  "es_zero = \<lparr>es_size = 0, es_cnt = 0, es_buf = (B_NULL, 0), es_tot = 0\<rparr>"

definition clear_es :: "ep_ref option \<Rightarrow> usbsys \<Rightarrow> usbsys" where
  "clear_es r s = (case r of None \<Rightarrow> s | Some r \<Rightarrow> upd_es r (\<lambda>_. es_zero) s)"

definition usbInitEndpointI :: "nat \<Rightarrow> USBEndpointConfig \<Rightarrow> usbsys \<Rightarrow> usbsys kres" where
  "usbInitEndpointI ep c s =
     chDbgCheckClassI (usb_k s) (
     kguard (usb_state s = USB_ACTIVE) ''usbInitEndpointI'' (
     kguard (epc s ep = None) ''usbInitEndpointI'' (
     usb_lld_init_endpoint ep (clear_es (out_state c) (clear_es (in_state c) (s\<lparr>epc := (epc s)(ep := Some c)\<rparr>))))))"

definition usbDisableEndpointsI :: "usbsys \<Rightarrow> usbsys kres" where
  "usbDisableEndpointsI s =
     chDbgCheckClassI (usb_k s) (
     kguard (usb_state s = USB_ACTIVE) ''usbDisableEndpointsI'' (
     Ok (usb_lld_disable_endpoints (clear_epc 1 (s\<lparr>transmitting := transmitting s AND 1, receiving := receiving s AND 1\<rparr>)))))"

definition usbStartReceiveI :: "nat \<Rightarrow> usb_buf \<Rightarrow> nat \<Rightarrow> usbsys \<Rightarrow> usbsys kres" where
  "usbStartReceiveI ep buf n s =
     chDbgCheckClassI (usb_k s) (
     kguard (ep \<le> USB_MAX_ENDPOINTS) ''usbStartReceiveI'' (
     kguard (\<not> usbGetReceiveStatusI ep s) ''usbStartReceiveI'' (
     let s = s\<lparr>receiving := flag_on ep (receiving s)\<rparr>
     in case epc s ep of Some c \<Rightarrow> (case out_state c of
          Some r \<Rightarrow> usb_lld_start_out ep (upd_es r (\<lambda>e. e\<lparr>es_buf := (buf, 0), es_size := n, es_cnt := 0\<rparr>) s)
        | None \<Rightarrow> Undef)
        | None \<Rightarrow> Undef)))"

definition usbStartTransmitI :: "nat \<Rightarrow> usb_buf \<Rightarrow> nat \<Rightarrow> usbsys \<Rightarrow> usbsys kres" where
  "usbStartTransmitI ep buf n s =
     chDbgCheckClassI (usb_k s) (
     kguard (ep \<le> USB_MAX_ENDPOINTS) ''usbStartTransmitI'' (
     kguard (\<not> usbGetTransmitStatusI ep s) ''usbStartTransmitI'' (
     let s = s\<lparr>transmitting := flag_on ep (transmitting s)\<rparr>
     in case epc s ep of Some c \<Rightarrow> (case in_state c of
          Some r \<Rightarrow> usb_lld_start_in ep (upd_es r (\<lambda>e. e\<lparr>es_buf := (buf, 0), es_size := n, es_cnt := 0\<rparr>) s)
        | None \<Rightarrow> Undef)
        | None \<Rightarrow> Undef)))"

definition usbStallReceiveI :: "nat \<Rightarrow> usbsys \<Rightarrow> (bool \<times> usbsys) kres" where
  "usbStallReceiveI ep s =
     chDbgCheckClassI (usb_k s) (
     if usbGetReceiveStatusI ep s then Ok (True, s) else Ok (False, lld_log (L_stall_out ep) s))"

definition usbStallTransmitI :: "nat \<Rightarrow> usbsys \<Rightarrow> (bool \<times> usbsys) kres" where
  "usbStallTransmitI ep s =
     chDbgCheckClassI (usb_k s) (
     if usbGetTransmitStatusI ep s then Ok (True, s) else Ok (False, lld_log (L_stall_in ep) s))"

definition usbWakeupHost :: "usbsys \<Rightarrow> usbsys" where
  "usbWakeupHost s = (if usb_state s = USB_SUSPENDED then lld_log L_wakeup_host s else s)"

definition usb_reset :: "usb_config \<Rightarrow> usbsys \<Rightarrow> usbsys kres" where
  "usb_reset cfg s =
     (let s = s\<lparr>usb_state := USB_READY, usb_status := 0, usb_address := 0, configuration := 0, transmitting := 0, receiving := 0\<rparr>;
          s = (clear_epc 0 s)\<lparr>ep0state := USB_EP0_STP_WAITING\<rparr>
      in kbind (usb_lld_reset s) (isr_invoke_event_cb cfg USB_EVENT_RESET))"

definition usb_suspend :: "usb_config \<Rightarrow> usbsys \<Rightarrow> usbsys kres" where
  "usb_suspend cfg s =
     kbind (isr_invoke_event_cb cfg USB_EVENT_SUSPEND (s\<lparr>saved_state := usb_state s, usb_state := USB_SUSPENDED\<rparr>)) (\<lambda>s.
     Ok (s\<lparr>transmitting := 0, receiving := 0\<rparr>))"

definition usb_wakeup :: "usb_config \<Rightarrow> usbsys \<Rightarrow> usbsys kres" where
  "usb_wakeup cfg s = isr_invoke_event_cb cfg USB_EVENT_WAKEUP (s\<lparr>usb_state := saved_state s\<rparr>)"

section \<open>Control requests\<close>

text \<open>
  The codes of \<open>hal_usb.h\<close> are written out: the recipient and type bits of the request type are 0 for
  the device, 1 for an interface, 2 for an endpoint of a standard request.
\<close>

definition set_address :: "usb_config \<Rightarrow> usbsys \<Rightarrow> usbsys kres" where
  "set_address cfg s =
     kbind (isr_invoke_event_cb cfg USB_EVENT_ADDRESS (usb_lld_set_address (s\<lparr>usb_address := usb_setup s ! 2\<rparr>))) (\<lambda>s.
     Ok (s\<lparr>usb_state := USB_SELECTED\<rparr>))"

definition set_configuration :: "usb_config \<Rightarrow> usbsys \<Rightarrow> usbsys kres" where
  "set_configuration cfg s =
     kbind (if usb_state s = USB_ACTIVE
            then kbind (isr_locked usbDisableEndpointsI s) (\<lambda>s.
                 isr_invoke_event_cb cfg USB_EVENT_UNCONFIGURED (s\<lparr>configuration := 0, usb_state := USB_SELECTED\<rparr>))
            else Ok s) (\<lambda>s.
     if usb_setup s ! 2 \<noteq> 0
     then isr_invoke_event_cb cfg USB_EVENT_CONFIGURED (s\<lparr>configuration := usb_setup s ! 2, usb_state := USB_ACTIVE\<rparr>)
     else Ok s)"

text \<open>The status of an endpoint as the registers show it: \<open>hw True\<close> for the IN direction.\<close>

definition get_ep_status :: "(bool \<Rightarrow> nat \<Rightarrow> usbepstatus) \<Rightarrow> usbsys \<Rightarrow> bool \<times> usbsys" where
  "get_ep_status hw s =
     (case hw (usb_setup s ! 4 AND 0x80 \<noteq> 0) (unat (usb_setup s ! 4 AND 0x0F)) of
        EP_STATUS_STALLED \<Rightarrow> (True, usbSetupTransfer (B_CONST [1, 0]) 2 s)
      | EP_STATUS_ACTIVE \<Rightarrow> (True, usbSetupTransfer (B_CONST [0, 0]) 2 s)
      | EP_STATUS_DISABLED \<Rightarrow> (False, s))"

definition ep_halt :: "(nat \<Rightarrow> usb_lld_call) \<Rightarrow> (nat \<Rightarrow> usb_lld_call) \<Rightarrow> usbsys \<Rightarrow> bool \<times> usbsys" where
  "ep_halt call_in call_out s =
     (if usb_setup s ! 2 \<noteq> 0 then (False, s)
      else let ep = unat (usb_setup s ! 4 AND 0x0F);
               s = (if ep \<noteq> 0 then lld_log (if usb_setup s ! 4 AND 0x80 \<noteq> 0 then call_in ep else call_out ep) s else s)
           in (True, usbSetupTransfer B_NULL 0 s))"

definition default_handler ::
  "usb_config \<Rightarrow> (bool \<Rightarrow> nat \<Rightarrow> usbepstatus) \<Rightarrow> usbsys \<Rightarrow> (bool \<times> usbsys) kres" where
  "default_handler cfg hw s =
     (let rtype = usb_setup s ! 0 AND 0x7F; req = usb_setup s ! 1 in
      if rtype = 0 \<and> req = 0 then Ok (True, usbSetupTransfer B_STATUS 2 s)
      else if rtype = 0 \<and> req = 1
      then if usb_setup s ! 2 = 1 then Ok (True, usbSetupTransfer B_NULL 0 (s\<lparr>usb_status := usb_status s AND NOT 2\<rparr>)) else Ok (False, s)
      else if rtype = 0 \<and> req = 3
      then if usb_setup s ! 2 = 1 then Ok (True, usbSetupTransfer B_NULL 0 (s\<lparr>usb_status := usb_status s OR 2\<rparr>)) else Ok (False, s)
      else if rtype = 0 \<and> req = 5
      then kbind (if usb_setup s ! 0 = 0 then set_address cfg s else Ok s) (\<lambda>s. Ok (True, usbSetupTransfer B_NULL 0 s))
      else if (rtype = 0 \<or> rtype = 1) \<and> req = 6
      then if \<not> usb_cfg s then Undef
           else (case get_descriptor_cb cfg (usb_setup s ! 3) (usb_setup s ! 2) (get_hword (usb_setup s ! 4) (usb_setup s ! 5)) of
             None \<Rightarrow> Ok (False, s)
           | Some d \<Rightarrow> Ok (True, usbSetupTransfer (B_CONST d) (length d) s))
      else if rtype = 0 \<and> req = 8 then Ok (True, usbSetupTransfer B_CONFIGURATION 1 s)
      else if rtype = 0 \<and> req = 9 then kbind (set_configuration cfg s) (\<lambda>s. Ok (True, usbSetupTransfer B_NULL 0 s))
      else if rtype = 1 \<and> req = 0 \<or> rtype = 2 \<and> req = 12 then Ok (True, usbSetupTransfer (B_CONST [0, 0]) 2 s)
      else if rtype = 2 \<and> req = 0 then Ok (get_ep_status hw s)
      else if rtype = 2 \<and> req = 1 then Ok (ep_halt L_clear_in L_clear_out s)
      else if rtype = 2 \<and> req = 3 then Ok (ep_halt L_stall_in L_stall_out s)
      else Ok (False, s))"

definition ep0_fail :: "usb_config \<Rightarrow> usbsys \<Rightarrow> usbsys kres" where
  "ep0_fail cfg s =
     kbind (isr_invoke_event_cb cfg USB_EVENT_STALLED (lld_log (L_stall_out 0) (lld_log (L_stall_in 0) s))) (\<lambda>s.
     Ok (s\<lparr>ep0state := USB_EP0_ERROR\<rparr>))"

definition wLength :: "usbsys \<Rightarrow> nat" where
  "wLength s = unat (get_hword (usb_setup s ! 6) (usb_setup s ! 7))"

definition ep0_start :: "usbsys \<Rightarrow> usbsys kres" where
  "ep0_start s =
     (let s = (if ep0n s > wLength s then s\<lparr>ep0n := wLength s\<rparr> else s) in
      if usb_setup s ! 0 AND 0x80 = 0x80
      then if ep0n s \<noteq> 0
           then isr_locked (usbStartTransmitI 0 (ep0next s) (ep0n s)) (s\<lparr>ep0state := USB_EP0_IN_TX\<rparr>)
           else isr_locked (usbStartReceiveI 0 B_NULL 0) (s\<lparr>ep0state := USB_EP0_OUT_WAITING_STS\<rparr>)
      else if ep0n s \<noteq> 0
           then isr_locked (usbStartReceiveI 0 (ep0next s) (ep0n s)) (s\<lparr>ep0state := USB_EP0_OUT_RX\<rparr>)
           else isr_locked (usbStartTransmitI 0 B_NULL 0) (s\<lparr>ep0state := USB_EP0_IN_SENDING_STS\<rparr>))"

definition usb_ep0setup :: "usb_config \<Rightarrow> (bool \<Rightarrow> nat \<Rightarrow> usbepstatus) \<Rightarrow> nat \<Rightarrow> usbsys \<Rightarrow> usbsys kres" where
  "usb_ep0setup cfg hw ep s =
     kbind (usb_lld_read_setup ep (s\<lparr>ep0state := USB_EP0_STP_WAITING\<rparr>)) (\<lambda>s.
     if \<not> usb_cfg s then Undef
     else case (case requests_hook_cb cfg of None \<Rightarrow> (False, s) | Some f \<Rightarrow> f s) of (done, s) \<Rightarrow>
       if done then ep0_start s
       else if usb_setup s ! 0 AND 0x60 \<noteq> 0 then ep0_fail cfg s
       else kbind (default_handler cfg hw s) (\<lambda>(done, s). if done then ep0_start s else ep0_fail cfg s))"

text \<open>The end of a transaction; \<open>ep0endcb\<close> is never set in this configuration.\<close>

definition ep0_done :: "usbsys \<Rightarrow> usbsys kres" where
  "ep0_done s = (if ep0endcb s \<noteq> NULL then Undef else Ok (s\<lparr>ep0state := USB_EP0_STP_WAITING\<rparr>))"

definition ep0_in_over :: "usbsys \<Rightarrow> usbsys kres" where
  "ep0_in_over s = isr_locked (usbStartReceiveI 0 B_NULL 0) (s\<lparr>ep0state := USB_EP0_OUT_WAITING_STS\<rparr>)"

definition usb_ep0in :: "usb_config \<Rightarrow> nat \<Rightarrow> usbsys \<Rightarrow> usbsys kres" where
  "usb_ep0in cfg ep s =
     (case ep0state s of
        USB_EP0_IN_TX \<Rightarrow>
          (case epc s 0 of None \<Rightarrow> Undef
           | Some c \<Rightarrow>
               if ep0n s < wLength s \<and> ep0n s mod in_maxsize c = 0
               then kbind (isr_locked (usbStartTransmitI 0 B_NULL 0) s) (\<lambda>s. Ok (s\<lparr>ep0state := USB_EP0_IN_WAITING_TX0\<rparr>))
               else ep0_in_over s)
      | USB_EP0_IN_WAITING_TX0 \<Rightarrow> ep0_in_over s
      | USB_EP0_IN_SENDING_STS \<Rightarrow> ep0_done s
      | USB_EP0_ERROR \<Rightarrow> ep0_fail cfg s
      | _ \<Rightarrow> Halt ''usb_ep0in'')"

definition usb_ep0out :: "usb_config \<Rightarrow> nat \<Rightarrow> usbsys \<Rightarrow> usbsys kres" where
  "usb_ep0out cfg ep s =
     (case ep0state s of
        USB_EP0_OUT_RX \<Rightarrow> isr_locked (usbStartTransmitI 0 B_NULL 0) (s\<lparr>ep0state := USB_EP0_IN_SENDING_STS\<rparr>)
      | USB_EP0_OUT_WAITING_STS \<Rightarrow>
          (case epc s 0 of None \<Rightarrow> Undef
           | Some c \<Rightarrow> (case out_state c of None \<Rightarrow> Undef
             | Some r \<Rightarrow> if es_cnt (ep_states s r) \<noteq> 0 then Ok s else ep0_done s))
      | USB_EP0_ERROR \<Rightarrow> ep0_fail cfg s
      | _ \<Rightarrow> Halt ''usb_ep0out'')"

end
