(* ===== verification/SerialUsb.thy ===== *)
theory SerialUsb
  imports UsbDriver
begin

text \<open>
  Serial communication over USB (\<open>os/hal/src/hal_serial_usb.c\<close>) with the configuration of the firmware
  (\<open>source/periph/usbcfg.c\<close>), the dispatch of the endpoint callbacks, and the endpoint interrupts of the low level
  driver (\<open>otg_epin_handler\<close>, \<open>otg_epout_handler\<close>), for the endpoints and their data.

  The event source of the serial driver has no listeners in the firmware, so broadcasting flags to
  it has no effect but the check of the context. The descriptors are those of the source, byte by byte.
\<close>

section \<open>The serial driver\<close>

definition SERIAL_USB_BUFFERS_SIZE :: nat where "SERIAL_USB_BUFFERS_SIZE = 256"
definition SERIAL_USB_BUFFERS_NUMBER :: nat where "SERIAL_USB_BUFFERS_NUMBER = 2"
definition USBD1_DATA_REQUEST_EP :: nat where "USBD1_DATA_REQUEST_EP = 1"
definition USBD1_DATA_AVAILABLE_EP :: nat where "USBD1_DATA_AVAILABLE_EP = 1"
definition USBD1_INTERRUPT_REQUEST_EP :: nat where "USBD1_INTERRUPT_REQUEST_EP = 2"

lemmas sdu_consts = SERIAL_USB_BUFFERS_SIZE_def SERIAL_USB_BUFFERS_NUMBER_def USBD1_DATA_REQUEST_EP_def
  USBD1_DATA_AVAILABLE_EP_def USBD1_INTERRUPT_REQUEST_EP_def USB_MAX_ENDPOINTS_def

definition chnAddFlagsI :: "usbsys \<Rightarrow> usbsys kres" where
  "chnAddFlagsI s = chDbgCheckClassI (usb_k s) (Ok s)"

definition sdu_start_receive :: "usbsys \<Rightarrow> (bool \<times> usbsys) kres" where
  "sdu_start_receive s =
     (if \<not> sdu_config (sdu s) then Undef
      else if usb_state s \<noteq> USB_ACTIVE \<or> sdu_state (sdu s) \<noteq> SDU_READY then Ok (True, s)
      else if usbGetReceiveStatusI USBD1_DATA_REQUEST_EP s then Ok (True, s)
      else kbind (ibqGetEmptyBufferI (ibqueue (sdu s)) (usb_k s)) (\<lambda>buf.
        case buf of None \<Rightarrow> Ok (True, s)
        | Some i \<Rightarrow> kbind (usbStartReceiveI USBD1_DATA_AVAILABLE_EP (B_IB i) SERIAL_USB_BUFFERS_SIZE s) (\<lambda>s. Ok (False, s))))"

definition ibnotify :: "usbsys \<Rightarrow> usbsys kres" where
  "ibnotify s = kbind (sdu_start_receive s) (\<lambda>(r, s). Ok s)"

text \<open>The buffer that \<open>obqGetFullBufferI\<close> returns is the one at the read position.\<close>

definition obnotify :: "usbsys \<Rightarrow> usbsys kres" where
  "obnotify s =
     (if \<not> sdu_config (sdu s) then Undef
      else if usb_state s \<noteq> USB_ACTIVE \<or> sdu_state (sdu s) \<noteq> SDU_READY then Ok s
      else if \<not> usbGetTransmitStatusI USBD1_DATA_REQUEST_EP s
      then kbind (obqGetFullBufferI (obqueue (sdu s)) (usb_k s)) (\<lambda>buf.
        case buf of None \<Rightarrow> Halt ''obnotify''
        | Some (n, d) \<Rightarrow> usbStartTransmitI USBD1_DATA_REQUEST_EP (B_OB (bq_brdptr (obqueue (sdu s)))) n s)
      else Ok s)"

text \<open>The memory of the queues is given; \<open>ibq\<close> and \<open>obq\<close> are the addresses of their thread queues.\<close>

definition sduObjectInit :: "ptr \<Rightarrow> ptr \<Rightarrow> (nat \<times> byte list) list \<Rightarrow> (nat \<times> byte list) list \<Rightarrow> usbsys \<Rightarrow> usbsys kres" where
  "sduObjectInit ibq obq ib ob s =
     kbind (ibqObjectInit ibq True ib SERIAL_USB_BUFFERS_SIZE (usb_k s)) (\<lambda>(iq, k).
     kbind (obqObjectInit obq True ob SERIAL_USB_BUFFERS_SIZE k) (\<lambda>(oq, k).
     Ok (s\<lparr>sdu := (sdu s)\<lparr>sdu_state := SDU_STOP, ibqueue := iq, obqueue := oq\<rparr>, usb_k := k\<rparr>)))"

definition sdu_params :: "bool \<Rightarrow> usbsys \<Rightarrow> usbsys" where
  "sdu_params p s =
     s\<lparr>in_params := (in_params s)(USBD1_DATA_REQUEST_EP - 1 := p, USBD1_INTERRUPT_REQUEST_EP - 1 := p),
       out_params := (out_params s)(USBD1_DATA_AVAILABLE_EP - 1 := p)\<rparr>"

definition sduStart :: "usbsys \<Rightarrow> usbsys kres" where
  "sduStart s =
     kbind (chSysLock (usb_k s)) (\<lambda>k.
     kguard (sdu_state (sdu s) = SDU_STOP \<or> sdu_state (sdu s) = SDU_READY) ''sduStart'' (
     kbind (chSysUnlock k) (\<lambda>k.
     Ok ((sdu_params True s)\<lparr>sdu := (sdu s)\<lparr>sdu_config := True, sdu_state := SDU_READY\<rparr>, usb_k := k\<rparr>))))"

definition sdu_reset_queues :: "usbsys \<Rightarrow> usbsys kres" where
  "sdu_reset_queues s =
     kbind (ibqResetI (ibqueue (sdu s)) (usb_k s)) (\<lambda>(iq, k).
     kbind (obqResetI (obqueue (sdu s)) k) (\<lambda>(oq, k). Ok (s\<lparr>sdu := (sdu s)\<lparr>ibqueue := iq, obqueue := oq\<rparr>, usb_k := k\<rparr>)))"

definition sduStop :: "usbsys \<Rightarrow> usbsys kres" where
  "sduStop s =
     (if \<not> sdu_config (sdu s) then Undef
      else kbind (chSysLock (usb_k s)) (\<lambda>k.
        kguard (sdu_state (sdu s) = SDU_STOP \<or> sdu_state (sdu s) = SDU_READY) ''sduStop'' (
        kbind (chnAddFlagsI ((sdu_params False s)\<lparr>sdu := (sdu s)\<lparr>sdu_config := False, sdu_state := SDU_STOP\<rparr>, usb_k := k\<rparr>)) (\<lambda>s.
        kbind (sdu_reset_queues s) (\<lambda>s.
        kbind (chSchRescheduleS (usb_k s)) (\<lambda>k. kbind (chSysUnlock k) (\<lambda>k. Ok (s\<lparr>usb_k := k\<rparr>))))))))"

definition sduSuspendHookI :: "usbsys \<Rightarrow> usbsys kres" where
  "sduSuspendHookI s =
     (if bqIsSuspendedX (ibqueue (sdu s)) \<and> bqIsSuspendedX (obqueue (sdu s)) then Ok s
      else kbind (chnAddFlagsI s) (\<lambda>s.
        kbind (bqSuspendI (ibqueue (sdu s)) (usb_k s)) (\<lambda>(iq, k).
        kbind (bqSuspendI (obqueue (sdu s)) k) (\<lambda>(oq, k).
        Ok (s\<lparr>sdu := (sdu s)\<lparr>ibqueue := iq, obqueue := oq\<rparr>, usb_k := k\<rparr>)))))"

definition sduWakeupHookI :: "usbsys \<Rightarrow> usbsys kres" where
  "sduWakeupHookI s =
     kbind (chnAddFlagsI s) (\<lambda>s.
     Ok (s\<lparr>sdu := (sdu s)\<lparr>ibqueue := bqResumeX (ibqueue (sdu s)), obqueue := bqResumeX (obqueue (sdu s))\<rparr>\<rparr>))"

definition sduConfigureHookI :: "usbsys \<Rightarrow> usbsys kres" where
  "sduConfigureHookI s =
     kbind (ibqResetI (ibqueue (sdu s)) (usb_k s)) (\<lambda>(iq, k).
     kbind (obqResetI (obqueue (sdu s)) k) (\<lambda>(oq, k).
     kbind (chnAddFlagsI (s\<lparr>sdu := (sdu s)\<lparr>ibqueue := bqResumeX iq, obqueue := bqResumeX oq\<rparr>, usb_k := k\<rparr>)) (\<lambda>s.
     kbind (sdu_start_receive s) (\<lambda>(r, s). Ok s))))"

text \<open>The class requests: \<open>CDC_SET_LINE_CODING\<close> 0x20, \<open>CDC_GET_LINE_CODING\<close> 0x21, \<open>CDC_SET_CONTROL_LINE_STATE\<close> 0x22.\<close>

definition sduRequestsHook :: "usbsys \<Rightarrow> bool \<times> usbsys" where
  "sduRequestsHook s =
     (if usb_setup s ! 0 AND 0x60 = 0x20
      then if usb_setup s ! 1 = 0x21 \<or> usb_setup s ! 1 = 0x20 then (True, usbSetupTransfer B_LINECODING 7 s)
           else if usb_setup s ! 1 = 0x22 then (True, usbSetupTransfer B_NULL 0 s)
           else (False, s)
      else (False, s))"

definition sduSOFHookI :: "usbsys \<Rightarrow> usbsys kres" where
  "sduSOFHookI s =
     (if \<not> sdu_config (sdu s) then Undef
      else if usb_state s \<noteq> USB_ACTIVE \<or> sdu_state (sdu s) \<noteq> SDU_READY then Ok s
      else if usbGetTransmitStatusI USBD1_DATA_REQUEST_EP s then Ok s
      else kbind (obqTryFlushI (obqueue (sdu s)) (usb_k s)) (\<lambda>(r, q).
        if r then kbind (obqGetFullBufferI q (usb_k s)) (\<lambda>buf.
               case buf of None \<Rightarrow> Halt ''sduSOFHookI''
               | Some (n, d) \<Rightarrow> usbStartTransmitI USBD1_DATA_REQUEST_EP (B_OB (bq_brdptr q)) n (upd_ob q s))
        else Ok (upd_ob q s)))"

definition sduDataTransmitted_body :: "nat \<Rightarrow> USBEndpointConfig \<Rightarrow> ep_ref \<Rightarrow> usbsys \<Rightarrow> usbsys kres" where
  "sduDataTransmitted_body ep c r s =
     kbind (chnAddFlagsI s) (\<lambda>s.
     let txsize = es_size (ep_states s r) in
     kbind (if txsize > 0 then kbind (obqReleaseEmptyBufferI (obqueue (sdu s)) (usb_k s)) (\<lambda>(q, k). Ok ((upd_ob q s)\<lparr>usb_k := k\<rparr>))
            else Ok s) (\<lambda>s.
     kbind (obqGetFullBufferI (obqueue (sdu s)) (usb_k s)) (\<lambda>buf.
     case buf of Some (n, d) \<Rightarrow> usbStartTransmitI ep (B_OB (bq_brdptr (obqueue (sdu s)))) n s
     | None \<Rightarrow> if txsize > 0 \<and> (of_nat txsize :: u32) AND (of_nat (in_maxsize c) - 1) = 0
               then usbStartTransmitI ep B_SETUP 0 s
               else Ok s)))"

definition sduDataTransmitted :: "nat \<Rightarrow> usbsys \<Rightarrow> usbsys kres" where
  "sduDataTransmitted ep s =
     (if \<not> in_params s (ep - 1) then Ok s
      else case epc s ep of Some c \<Rightarrow> (case in_state c of
             Some r \<Rightarrow> isr_locked (sduDataTransmitted_body ep c r) s
           | None \<Rightarrow> Undef)
           | None \<Rightarrow> Undef)"

definition sduDataReceived_body :: "usbsys \<Rightarrow> usbsys kres" where
  "sduDataReceived_body s =
     (if \<not> sdu_config (sdu s) then Undef
      else case epc s USBD1_DATA_AVAILABLE_EP of Some c \<Rightarrow> (case out_state c of
        Some r \<Rightarrow>
          let n = es_cnt (ep_states s r) in
          kbind (if n > 0
                 then kbind (chnAddFlagsI s) (\<lambda>s.
                      kbind (ibqPostFullBufferI n (ibqueue (sdu s)) (usb_k s)) (\<lambda>(q, k). Ok ((upd_ib q s)\<lparr>usb_k := k\<rparr>)))
                 else Ok s) (\<lambda>s.
          kbind (sdu_start_receive s) (\<lambda>(r, s). Ok s))
      | None \<Rightarrow> Undef)
      | None \<Rightarrow> Undef)"

definition sduDataReceived :: "nat \<Rightarrow> usbsys \<Rightarrow> usbsys kres" where
  "sduDataReceived ep s = (if \<not> out_params s (ep - 1) then Ok s else isr_locked sduDataReceived_body s)"

definition sduInterruptTransmitted :: "nat \<Rightarrow> usbsys \<Rightarrow> usbsys kres" where
  "sduInterruptTransmitted ep s = Ok s"

section \<open>The configuration of the firmware\<close>

abbreviation desc_word :: "u16 \<Rightarrow> byte list" where
  "desc_word w \<equiv> [ucast w, ucast (drop_bit 8 w)]"

definition usb_desc_interface :: "byte \<Rightarrow> byte \<Rightarrow> byte \<Rightarrow> byte \<Rightarrow> byte \<Rightarrow> byte \<Rightarrow> byte \<Rightarrow> byte list" where
  "usb_desc_interface num alt neps cls sub prot i = [9, 4, num, alt, neps, cls, sub, prot, i]"

definition usb_desc_endpoint :: "byte \<Rightarrow> byte \<Rightarrow> u16 \<Rightarrow> byte \<Rightarrow> byte list" where
  "usb_desc_endpoint addr attrs maxsize interval = [7, 5, addr, attrs] @ desc_word maxsize @ [interval]"

definition vcom_device_descriptor :: "byte list" where
  "vcom_device_descriptor =
     [18, 1] @ desc_word 0x0110 @ [0x02, 0x00, 0x00, 0x40] @ desc_word 0x0483 @ desc_word 0x5740 @ desc_word 0x0200 @ [1, 2, 3, 1]"

definition vcom_configuration_descriptor :: "byte list" where
  "vcom_configuration_descriptor =
     [9, 2] @ desc_word 67 @ [0x02, 0x01, 0, 0xC0, 50] @
     usb_desc_interface 0x00 0x00 0x01 0x02 0x02 0x01 0 @
     [5, 0x24, 0x00] @ desc_word 0x0110 @
     [5, 0x24, 0x01, 0x00, 0x01] @
     [4, 0x24, 0x02, 0x02] @
     [5, 0x24, 0x06, 0x00, 0x01] @
     usb_desc_endpoint (2 OR 0x80) 0x03 0x0008 0xFF @
     usb_desc_interface 0x01 0x00 0x02 0x0A 0x00 0x00 0x00 @
     usb_desc_endpoint 1 0x02 0x0040 0x00 @
     usb_desc_endpoint (1 OR 0x80) 0x02 0x0040 0x00"

text \<open>A string descriptor: the length byte as given, the type, and the characters of two bytes each.\<close>

definition usb_string :: "byte \<Rightarrow> string \<Rightarrow> byte list" where
  "usb_string len cs = [len, 3] @ concat (map (\<lambda>c. [of_char c, 0]) cs)"

text \<open>The serial number is the version of the kernel (\<open>CH_KERNEL_MAJOR\<close>, \<open>MINOR\<close>, \<open>PATCH\<close>: 6, 1, 2).\<close>

definition vcom_strings :: "byte list list" where
  "vcom_strings =
     [[4, 3] @ desc_word 0x0409,
      usb_string 38 ''STMicroelectronics'',
      usb_string 56 ''ChibiOS/RT Virtual COM Port'',
      [8, 3, 0x30 + 6, 0, 0x30 + 1, 0, 0x30 + 2, 0]]"

definition get_descriptor :: "byte \<Rightarrow> byte \<Rightarrow> u16 \<Rightarrow> byte list option" where
  "get_descriptor dtype dindex lang =
     (if dtype = 1 then Some vcom_device_descriptor
      else if dtype = 2 then Some vcom_configuration_descriptor
      else if dtype = 3 \<and> dindex < 4 then Some (vcom_strings ! unat dindex)
      else None)"

definition ep1config :: USBEndpointConfig where
  "ep1config = \<lparr>ep_mode = USB_EP_MODE_TYPE_BULK, setup_cb = CB_NULL, in_cb = CB_sduDataTransmitted, out_cb = CB_sduDataReceived,
     in_maxsize = 0x40, out_maxsize = 0x40, in_state = Some EP1_IN, out_state = Some EP1_OUT, in_multiplier = 1\<rparr>"

definition ep2config :: USBEndpointConfig where
  "ep2config = \<lparr>ep_mode = USB_EP_MODE_TYPE_INTR, setup_cb = CB_NULL, in_cb = CB_sduInterruptTransmitted, out_cb = CB_NULL,
     in_maxsize = 0x10, out_maxsize = 0, in_state = Some EP2_IN, out_state = None, in_multiplier = 1\<rparr>"

definition usb_event :: "usbevent \<Rightarrow> usbsys \<Rightarrow> usbsys kres" where
  "usb_event evt s = (case evt of
     USB_EVENT_ADDRESS \<Rightarrow> Ok s
   | USB_EVENT_CONFIGURED \<Rightarrow> isr_locked (\<lambda>s.
       kbind (usbInitEndpointI USBD1_DATA_REQUEST_EP ep1config s) (\<lambda>s.
       kbind (usbInitEndpointI USBD1_INTERRUPT_REQUEST_EP ep2config s) sduConfigureHookI)) s
   | USB_EVENT_RESET \<Rightarrow> isr_locked sduSuspendHookI s
   | USB_EVENT_UNCONFIGURED \<Rightarrow> isr_locked sduSuspendHookI s
   | USB_EVENT_SUSPEND \<Rightarrow> isr_locked sduSuspendHookI s
   | USB_EVENT_WAKEUP \<Rightarrow> isr_locked sduWakeupHookI s
   | USB_EVENT_STALLED \<Rightarrow> Ok s)"

definition sof_handler :: "usbsys \<Rightarrow> usbsys kres" where
  "sof_handler = isr_locked sduSOFHookI"

definition usbcfg :: usb_config where
  "usbcfg = \<lparr>event_cb = Some usb_event, get_descriptor_cb = get_descriptor, requests_hook_cb = Some sduRequestsHook\<rparr>"

section \<open>Interrupts\<close>

definition call_ep :: "(bool \<Rightarrow> nat \<Rightarrow> usbepstatus) \<Rightarrow> ep_callback \<Rightarrow> nat \<Rightarrow> usbsys \<Rightarrow> usbsys kres" where
  "call_ep hw cb ep s = (case cb of
     CB_NULL \<Rightarrow> Ok s
   | CB_ep0setup \<Rightarrow> usb_ep0setup usbcfg hw ep s
   | CB_ep0in \<Rightarrow> usb_ep0in usbcfg ep s
   | CB_ep0out \<Rightarrow> usb_ep0out usbcfg ep s
   | CB_sduDataTransmitted \<Rightarrow> sduDataTransmitted ep s
   | CB_sduDataReceived \<Rightarrow> sduDataReceived ep s
   | CB_sduInterruptTransmitted \<Rightarrow> sduInterruptTransmitted ep s)"

definition isr_invoke_in_cb :: "(bool \<Rightarrow> nat \<Rightarrow> usbepstatus) \<Rightarrow> nat \<Rightarrow> usbsys \<Rightarrow> usbsys kres" where
  "isr_invoke_in_cb hw ep s =
     (case epc s ep of None \<Rightarrow> Undef
      | Some c \<Rightarrow> call_ep hw (in_cb c) ep (s\<lparr>transmitting := flag_off ep (transmitting s)\<rparr>))"

definition isr_invoke_out_cb :: "(bool \<Rightarrow> nat \<Rightarrow> usbepstatus) \<Rightarrow> nat \<Rightarrow> usbsys \<Rightarrow> usbsys kres" where
  "isr_invoke_out_cb hw ep s =
     (case epc s ep of None \<Rightarrow> Undef
      | Some c \<Rightarrow> call_ep hw (out_cb c) ep (s\<lparr>receiving := flag_off ep (receiving s)\<rparr>))"

definition isr_invoke_setup_cb :: "(bool \<Rightarrow> nat \<Rightarrow> usbepstatus) \<Rightarrow> nat \<Rightarrow> usbsys \<Rightarrow> usbsys kres" where
  "isr_invoke_setup_cb hw ep s =
     (case epc s ep of None \<Rightarrow> Undef
      | Some c \<Rightarrow> if setup_cb c = CB_NULL then Undef else call_ep hw (setup_cb c) ep s)"

text \<open>The interrupts of an IN endpoint: \<open>xfrc\<close> transfer complete, \<open>txfe\<close> FIFO empty.\<close>

definition otg_epin_xfrc :: "(bool \<Rightarrow> nat \<Rightarrow> usbepstatus) \<Rightarrow> nat \<Rightarrow> usbsys \<Rightarrow> usbsys kres" where
  "otg_epin_xfrc hw ep s =
     (case epc s ep of Some c \<Rightarrow> (case in_state c of
        Some r \<Rightarrow>
          let e = ep_states s r in
          if es_size e < es_tot e
          then isr_locked (usb_lld_start_in ep) (upd_es r (\<lambda>e. e\<lparr>es_size := es_tot e - es_size e, es_cnt := 0\<rparr>) s)
          else isr_invoke_in_cb hw ep s
      | None \<Rightarrow> Undef)
      | None \<Rightarrow> Undef)"

definition otg_epin_handler :: "(bool \<Rightarrow> nat \<Rightarrow> usbepstatus) \<Rightarrow> bool \<Rightarrow> bool \<Rightarrow> nat list \<Rightarrow> nat \<Rightarrow> usbsys \<Rightarrow> usbsys kres" where
  "otg_epin_handler hw xfrc txfe spaces ep s =
     kbind (if xfrc then otg_epin_xfrc hw ep s else Ok s) (\<lambda>s.
     if txfe then kbind (otg_txfifo_handler ep spaces s) (\<lambda>(r, s). Ok s) else Ok s)"

text \<open>The interrupts of an OUT endpoint: \<open>stup\<close> SETUP phase done, \<open>xfrc\<close> transfer complete.\<close>

definition ep0_out_state :: "usbep0state \<Rightarrow> bool" where
  "ep0_out_state e \<longleftrightarrow> e = USB_EP0_OUT_WAITING_STS \<or> e = USB_EP0_OUT_RX"

definition otg_epout_xfrc :: "(bool \<Rightarrow> nat \<Rightarrow> usbepstatus) \<Rightarrow> nat \<Rightarrow> usbsys \<Rightarrow> usbsys kres" where
  "otg_epout_xfrc hw ep s =
     (case epc s ep of Some c \<Rightarrow> (case out_state c of
        Some r \<Rightarrow>
          let e = ep_states s r in
          if ep = 0 \<and> \<not> ep0_out_state (ep0state s) then Ok s
          else if ep = 0 \<and> es_cnt e mod out_maxsize c = 0 \<and> es_size e < es_tot e
          then isr_locked (usb_lld_start_out ep) (upd_es r (\<lambda>e. e\<lparr>es_size := es_tot e - es_size e, es_cnt := 0\<rparr>) s)
          else isr_invoke_out_cb hw ep s
      | None \<Rightarrow> Undef)
      | None \<Rightarrow> Undef)"

definition otg_epout_handler :: "(bool \<Rightarrow> nat \<Rightarrow> usbepstatus) \<Rightarrow> bool \<Rightarrow> bool \<Rightarrow> nat \<Rightarrow> usbsys \<Rightarrow> usbsys kres" where
  "otg_epout_handler hw stup xfrc ep s =
     kbind (if stup then isr_invoke_setup_cb hw ep s else Ok s) (\<lambda>s.
     if xfrc then otg_epout_xfrc hw ep s else Ok s)"

text \<open>
  The interrupt sources that the status registers show: for each endpoint with a pending interrupt,
  in the order of the numbers, its flags.
\<close>

record otg_irq =
  usbrst :: bool
  wkupint :: bool
  usbsusp :: bool
  sofint :: bool
  rxflvl :: "rx_event option"
  oepint :: "(nat \<times> bool \<times> bool) list"
  iepint :: "(nat \<times> bool \<times> bool \<times> nat list) list"

fun kfold :: "('a \<Rightarrow> usbsys \<Rightarrow> usbsys kres) \<Rightarrow> 'a list \<Rightarrow> usbsys \<Rightarrow> usbsys kres" where
  "kfold f [] s = Ok s"
| "kfold f (x # xs) s = kbind (f x s) (kfold f xs)"

definition isr_invoke_sof_cb :: "usbsys \<Rightarrow> usbsys kres" where
  "isr_invoke_sof_cb s = (if usb_cfg s then sof_handler s else Undef)"

definition usb_lld_serve_interrupt :: "(bool \<Rightarrow> nat \<Rightarrow> usbepstatus) \<Rightarrow> otg_irq \<Rightarrow> usbsys \<Rightarrow> usbsys kres" where
  "usb_lld_serve_interrupt hw i s =
     (if usbrst i then usb_reset usbcfg s
      else kbind (if wkupint i then usb_wakeup usbcfg s else Ok s) (\<lambda>s.
        kbind (if usbsusp i then usb_suspend usbcfg (otg_disable_ep s) else Ok s) (\<lambda>s.
        kbind (if sofint i then isr_invoke_sof_cb s else Ok s) (\<lambda>s.
        kbind (case rxflvl i of None \<Rightarrow> Ok s | Some ev \<Rightarrow> otg_rxfifo_handler ev s) (\<lambda>s.
        kbind (kfold (\<lambda>(ep, stup, xfrc). otg_epout_handler hw stup xfrc ep) (oepint i) s)
          (kfold (\<lambda>(ep, xfrc, txfe, spaces). otg_epin_handler hw xfrc txfe spaces ep) (iepint i)))))))"

section \<open>Contexts and flags\<close>

definition irq :: "kernel \<Rightarrow> bool" where
  "irq k \<longleftrightarrow> isr_cnt k > 0 \<and> lock_cnt k = 0"

lemma irq_lock [simp]:
  assumes "irq k"
  shows "chSysLockFromISR k = Ok (k\<lparr>lock_cnt := 1\<rparr>)" and "i_ctx (k\<lparr>lock_cnt := 1\<rparr>)" and "k\<lparr>lock_cnt := 0\<rparr> = k"
  using assms by (simp_all add: irq_def isr_lock i_ctx_def)

lemma irq_unlock [simp]: "isr_cnt k > 0 \<Longrightarrow> lock_cnt k = 1 \<Longrightarrow> chSysUnlockFromISR k = Ok (k\<lparr>lock_cnt := 0\<rparr>)"
  by (simp add: isr_lock)

lemma isr_locked_eq:
  assumes "irq (usb_k s)"
  shows "isr_locked f s = kbind (f (s\<lparr>usb_k := (usb_k s)\<lparr>lock_cnt := 1\<rparr>\<rparr>)) (\<lambda>s.
     kbind (chSysUnlockFromISR (usb_k s)) (\<lambda>k. Ok (s\<lparr>usb_k := k\<rparr>)))"
  using assms by (simp add: isr_locked_def)

lemma usb_flags [simp]:
  "usbGetTransmitStatusI ep s = bit (transmitting s) ep" "usbGetReceiveStatusI ep s = bit (receiving s) ep"
  by (simp_all only: usbGetTransmitStatusI_def usbGetReceiveStatusI_def bit_iff_and_push_bit_not_eq_0)

lemma bit_flag [simp]:
  "n < 16 \<Longrightarrow> bit (flag_on n w) i \<longleftrightarrow> bit w i \<or> i = n" "bit (flag_off n w) i \<longleftrightarrow> bit w i \<and> i \<noteq> n"
  "\<not> bit (0 :: u16) i"
  using bit_imp_le_length [of w i]
  by (auto simp: flag_on_def flag_off_def bit_or_iff bit_and_iff bit_not_iff bit_exp_iff possible_bit_def)

section \<open>Transactions\<close>

text \<open>The size of the first transaction of a transfer: endpoint zero moves one packet at a time.\<close>

definition first_part :: "nat \<Rightarrow> nat \<Rightarrow> nat" where
  "first_part ep n = (if ep = 0 \<and> n > 64 then 64 else n)"

lemma es_all [simp]:
  "e\<lparr>es_buf := b, es_cnt := c, es_tot := t, es_size := n\<rparr> = \<lparr>es_size = n, es_cnt = c, es_buf = b, es_tot = t\<rparr>"
  "e\<lparr>es_cnt := c, es_tot := t, es_size := n\<rparr> = \<lparr>es_size = n, es_cnt = c, es_buf = es_buf e, es_tot = t\<rparr>"
  by (cases e, simp)+

lemma StartTransmit_eq:
  assumes "i_ctx (usb_k s)" and "ep \<le> 5" and "\<not> bit (transmitting s) ep" and "epc s ep = Some c" and "in_state c = Some r"
  shows "usbStartTransmitI ep buf n s =
    Ok (lld_log (L_start_in ep (first_part ep n)) (s\<lparr>transmitting := flag_on ep (transmitting s),
      ep_states := (ep_states s)(r := \<lparr>es_size = first_part ep n, es_cnt = 0, es_buf = (buf, 0), es_tot = n\<rparr>)\<rparr>))"
  using assms by (simp add: usbStartTransmitI_def usb_lld_start_in_def USB_MAX_ENDPOINTS_def EP0_MAX_INSIZE_def first_part_def)

lemma StartReceive_eq:
  assumes "i_ctx (usb_k s)" and "ep \<le> 5" and "\<not> bit (receiving s) ep" and "epc s ep = Some c" and "out_state c = Some r"
  shows "usbStartReceiveI ep buf n s =
    Ok (lld_log (L_start_out ep (first_part ep n)) (s\<lparr>receiving := flag_on ep (receiving s),
      ep_states := (ep_states s)(r := \<lparr>es_size = first_part ep n, es_cnt = 0, es_buf = (buf, 0), es_tot = n\<rparr>)\<rparr>))"
  using assms by (simp add: usbStartReceiveI_def usb_lld_start_out_def USB_MAX_ENDPOINTS_def EP0_MAX_OUTSIZE_def first_part_def)

text \<open>A busy endpoint cannot be started again.\<close>

lemma Start_busy:
  "i_ctx (usb_k s) \<Longrightarrow> ep \<le> 5 \<Longrightarrow> bit (transmitting s) ep \<Longrightarrow> usbStartTransmitI ep buf n s = Halt ''usbStartTransmitI''"
  "i_ctx (usb_k s) \<Longrightarrow> ep \<le> 5 \<Longrightarrow> bit (receiving s) ep \<Longrightarrow> usbStartReceiveI ep buf n s = Halt ''usbStartReceiveI''"
  by (simp_all add: usbStartTransmitI_def usbStartReceiveI_def USB_MAX_ENDPOINTS_def)

section \<open>Control transfers\<close>

text \<open>
  Endpoint zero is idle: it is configured and no transaction is under way. The flags of the other
  endpoints do not matter.
\<close>

definition ep0_idle :: "usbsys \<Rightarrow> bool" where
  "ep0_idle s \<longleftrightarrow> irq (usb_k s) \<and> usb_cfg s \<and> epc s 0 = Some ep0config \<and> \<not> bit (transmitting s) 0 \<and> \<not> bit (receiving s) 0"

text \<open>The packets written to the FIFO of an endpoint and the sizes of the transactions started on it.\<close>

fun packets :: "nat \<Rightarrow> usb_lld_call list \<Rightarrow> byte list list" where
  "packets ep [] = []"
| "packets ep (L_fifo e bs # cs) = (if e = ep then bs # packets ep cs else packets ep cs)"
| "packets ep (_ # cs) = packets ep cs"

fun in_sizes :: "nat \<Rightarrow> usb_lld_call list \<Rightarrow> nat list" where
  "in_sizes ep [] = []"
| "in_sizes ep (L_start_in e n # cs) = (if e = ep then n # in_sizes ep cs else in_sizes ep cs)"
| "in_sizes ep (_ # cs) = in_sizes ep cs"

lemma packets_append [simp]: "packets ep (xs @ ys) = packets ep xs @ packets ep ys"
  by (induction ep xs rule: packets.induct) simp_all

lemma in_sizes_append [simp]: "in_sizes ep (xs @ ys) = in_sizes ep xs @ in_sizes ep ys"
  by (induction ep xs rule: in_sizes.induct) simp_all

text \<open>
  A round of an IN transfer: the empty FIFO is filled, then the packet has been sent. The FIFO of endpoint zero
  has room for 16 words.
\<close>

definition in_round :: "(bool \<Rightarrow> nat \<Rightarrow> usbepstatus) \<Rightarrow> usbsys \<Rightarrow> usbsys kres" where
  "in_round hw s = kbind (otg_epin_handler hw False True [16] 0 s) (otg_epin_handler hw True False [] 0)"

fun in_rounds :: "nat \<Rightarrow> (bool \<Rightarrow> nat \<Rightarrow> usbepstatus) \<Rightarrow> usbsys \<Rightarrow> usbsys kres" where
  "in_rounds 0 hw s = Ok s"
| "in_rounds (Suc n) hw s = kbind (in_round hw s) (in_rounds n hw)"

definition ep0_sending :: "usb_buf \<Rightarrow> nat \<Rightarrow> nat \<Rightarrow> usbsys \<Rightarrow> bool" where
  "ep0_sending b off left s \<longleftrightarrow> ep_states s EP0_STATE = \<lparr>es_size = first_part 0 left, es_cnt = 0, es_buf = (b, off), es_tot = left\<rparr> \<and>
     irq (usb_k s) \<and> usb_cfg s \<and> epc s 0 = Some ep0config \<and> bit (transmitting s) 0 \<and> \<not> bit (receiving s) 0"

declare otg_txfifo_handler.simps [simp del]

lemma txfifo_done:
  "epc s ep = Some c \<Longrightarrow> in_state c = Some r \<Longrightarrow> es_cnt (ep_states s r) \<ge> es_size (ep_states s r) \<Longrightarrow>
   otg_txfifo_handler ep spaces s = Ok (True, s)"
  by (subst otg_txfifo_handler.simps) (simp add: Let_def)

lemma txfifo_step:
  assumes "epc s ep = Some c" and "in_state c = Some r" and "es_cnt (ep_states s r) < es_size (ep_states s r)"
    and "n = min (in_maxsize c) (es_size (ep_states s r) - es_cnt (ep_states s r))" and "n \<le> sp * 4" and "es_buf (ep_states s r) = (b, off)"
  shows "otg_txfifo_handler ep (sp # spaces) s =
    otg_txfifo_handler ep spaces (upd_es r (\<lambda>e. e\<lparr>es_buf := (b, off + n), es_cnt := es_cnt e + n\<rparr>)
      (lld_log (L_fifo ep (take n (drop off (buf_bytes s b)))) s))"
proof -
  have "(if es_size (ep_states s r) - es_cnt (ep_states s r) > in_maxsize c then in_maxsize c
         else es_size (ep_states s r) - es_cnt (ep_states s r)) = n" using assms(4) by simp
  then show ?thesis using assms(1-3,5,6) by (subst otg_txfifo_handler.simps) (simp add: Let_def del: fun_upd_apply)
qed

text \<open>The FIFO takes the packet of the transaction.\<close>

lemma txfifo_ep0:
  assumes "ep0_sending b off left s" and "left > 0"
  shows "otg_txfifo_handler 0 [16] s =
    Ok (True, lld_log (L_fifo 0 (take (first_part 0 left) (drop off (buf_bytes s b))))
      (s\<lparr>ep_states := (ep_states s)(EP0_STATE := \<lparr>es_size = first_part 0 left, es_cnt = first_part 0 left,
         es_buf = (b, off + first_part 0 left), es_tot = left\<rparr>)\<rparr>))"
proof -
  note d = assms(1) [unfolded ep0_sending_def]
  have f: "0 < first_part 0 left" "first_part 0 left \<le> 64" using assms(2) by (simp_all add: first_part_def)
  have c: "in_state ep0config = Some EP0_STATE" "in_maxsize ep0config = 64" by (simp_all add: ep0config_def)
  let ?f = "first_part 0 left" let ?l = "lld_log (L_fifo 0 (take (first_part 0 left) (drop off (buf_bytes s b)))) s"
  let ?s = "upd_es EP0_STATE (\<lambda>e. e\<lparr>es_buf := (b, off + ?f), es_cnt := es_cnt e + ?f\<rparr>) ?l"
  have "otg_txfifo_handler 0 [16] s = otg_txfifo_handler 0 [] ?s"
    by (rule txfifo_step) (use d f c in auto)
  also have "\<dots> = Ok (True, ?s)" by (rule txfifo_done) (use d c in auto)
  finally show ?thesis using d by simp
qed

lemma buf_bytes_frame [simp]:
  "buf_bytes (s\<lparr>ep_states := es\<rparr>) = buf_bytes s" "buf_bytes (s\<lparr>usb_lld := l\<rparr>) = buf_bytes s"
  "buf_bytes (s\<lparr>transmitting := w\<rparr>) = buf_bytes s" "buf_bytes (s\<lparr>receiving := w\<rparr>) = buf_bytes s"
  "buf_bytes (s\<lparr>ep0state := e\<rparr>) = buf_bytes s" "buf_bytes (s\<lparr>usb_k := k\<rparr>) = buf_bytes s"
  by (auto simp: buf_bytes_def fun_eq_iff split: usb_buf.split)

lemma kbind_Ok_right: "kbind r Ok = r"
  by (cases r) simp_all

lemma in_rounds_0: "in_rounds 0 hw = Ok"
  by (rule ext) simp

lemma in_round_eq:
  assumes "ep0_sending b off left s" and "left > 0"
  shows "in_round hw s = otg_epin_xfrc hw 0 (lld_log (L_fifo 0 (take (first_part 0 left) (drop off (buf_bytes s b))))
      (s\<lparr>ep_states := (ep_states s)(EP0_STATE := \<lparr>es_size = first_part 0 left, es_cnt = first_part 0 left,
         es_buf = (b, off + first_part 0 left), es_tot = left\<rparr>)\<rparr>))"
  using txfifo_ep0 [OF assms] by (simp add: in_round_def otg_epin_handler_def case_prod_unfold kbind_Ok_right)

text \<open>There is more to send: the next packet is started where the last one ended.\<close>

lemma in_round_more:
  assumes "ep0_sending b off left s" and "left > 64"
  obtains s' where "in_round hw s = Ok s'" and "ep0_sending b (off + 64) (left - 64) s'"
    and "s' = s\<lparr>ep_states := ep_states s', usb_lld := usb_lld s'\<rparr>"
    and "usb_lld s' = usb_lld s @ [L_fifo 0 (take 64 (drop off (buf_bytes s b))), L_start_in 0 (first_part 0 (left - 64))]"
proof -
  let ?s = "s\<lparr>ep_states := (ep_states s)(EP0_STATE := \<lparr>es_size = first_part 0 (left - 64), es_cnt = 0,
      es_buf = (b, off + 64), es_tot = left - 64\<rparr>),
    usb_lld := usb_lld s @ [L_fifo 0 (take 64 (drop off (buf_bytes s b))), L_start_in 0 (first_part 0 (left - 64))]\<rparr>"
  note d = assms(1) [unfolded ep0_sending_def]
  have f: "first_part 0 left = 64" using assms(2) by (simp add: first_part_def)
  have "in_round hw s = Ok ?s"
    using in_round_eq [OF assms(1), of hw] assms(2) d
    by (simp add: f otg_epin_xfrc_def ep0config_def Let_def isr_locked_eq irq_def usb_lld_start_in_def EP0_MAX_INSIZE_def first_part_def)
  moreover have "ep0_sending b (off + 64) (left - 64) ?s" using d by (simp add: ep0_sending_def)
  ultimately show ?thesis using that [of ?s] by simp
qed

text \<open>The zero sized packet of the status stage is awaited.\<close>

definition ep0_status :: "usbsys \<Rightarrow> bool" where
  "ep0_status s \<longleftrightarrow> ep0state s = USB_EP0_OUT_WAITING_STS \<and> irq (usb_k s) \<and> usb_cfg s \<and> epc s 0 = Some ep0config \<and>
     \<not> bit (transmitting s) 0 \<and> bit (receiving s) 0 \<and> ep0endcb s = NULL \<and>
     ep_states s EP0_STATE = \<lparr>es_size = 0, es_cnt = 0, es_buf = (B_NULL, 0), es_tot = 0\<rparr>"

lemma ep0_in_over_ok:
  assumes "irq (usb_k s)" and "usb_cfg s" and "epc s 0 = Some ep0config" and "\<not> bit (transmitting s) 0" and "\<not> bit (receiving s) 0"
    and "ep0endcb s = NULL"
  obtains s' where "ep0_in_over s = Ok s'" and "ep0_status s'" and "usb_lld s' = usb_lld s @ [L_start_out 0 0]"
    and "s' = s\<lparr>ep0state := ep0state s', receiving := receiving s', ep_states := ep_states s', usb_lld := usb_lld s'\<rparr>"
    and "receiving s' = flag_on 0 (receiving s)"
proof -
  let ?s = "s\<lparr>ep0state := USB_EP0_OUT_WAITING_STS, receiving := flag_on 0 (receiving s),
     ep_states := (ep_states s)(EP0_STATE := \<lparr>es_size = 0, es_cnt = 0, es_buf = (B_NULL, 0), es_tot = 0\<rparr>),
     usb_lld := usb_lld s @ [L_start_out 0 0]\<rparr>"
  have c: "out_state ep0config = Some EP0_STATE" by (simp add: ep0config_def)
  have "ep0_in_over s = Ok ?s"
    using assms c by (simp add: ep0_in_over_def isr_locked_eq StartReceive_eq [where c = ep0config and r = EP0_STATE] irq_def first_part_def)
  then show ?thesis using that [of ?s] assms by (simp add: ep0_status_def)
qed

lemma status_done:
  assumes "ep0_status s"
  shows "otg_epout_handler hw False True 0 s = Ok (s\<lparr>receiving := flag_off 0 (receiving s), ep0state := USB_EP0_STP_WAITING\<rparr>)"
  using assms
  by (simp add: ep0_status_def otg_epout_handler_def otg_epout_xfrc_def ep0config_def ep0_out_state_def Let_def
      isr_invoke_out_cb_def call_ep_def usb_ep0out_def ep0_done_def)

text \<open>The last packet of the data: a zero sized one follows if the host expects more and cannot see the end.\<close>

lemma in_round_last:
  assumes "ep0_sending b off left s" and "left > 0" and "left \<le> 64" and "ep0state s = USB_EP0_IN_TX" and "ep0endcb s = NULL"
    and "zlp \<longleftrightarrow> ep0n s < wLength s \<and> ep0n s mod 64 = 0"
  obtains s' where "in_rounds (if zlp then 2 else 1) hw s = Ok s'" and "ep0_status s'"
    and "usb_lld s' = usb_lld s @ L_fifo 0 (take left (drop off (buf_bytes s b))) # (if zlp then [L_start_in 0 0] else []) @ [L_start_out 0 0]"
    and "receiving s' = flag_on 0 (receiving s)"
proof -
  let ?f = "L_fifo 0 (take left (drop off (buf_bytes s b)))"
  let ?s = "s\<lparr>ep_states := (ep_states s)(EP0_STATE := \<lparr>es_size = left, es_cnt = left, es_buf = (b, off + left), es_tot = left\<rparr>),
      usb_lld := usb_lld s @ [?f], transmitting := flag_off 0 (transmitting s)\<rparr>"
  note d = assms(1) [unfolded ep0_sending_def]
  have f: "first_part 0 left = left" using assms(3) by (simp add: first_part_def)
  have w: "wLength ?s = wLength s" by (simp add: wLength_def)
  have c: "in_state ep0config = Some EP0_STATE" "in_maxsize ep0config = 64" "in_cb ep0config = CB_ep0in" by (simp_all add: ep0config_def)
  have "in_round hw s = usb_ep0in usbcfg 0 ?s"
    using in_round_eq [OF assms(1,2), of hw] d c by (simp add: f otg_epin_xfrc_def Let_def isr_invoke_in_cb_def call_ep_def)
  then have r: "in_round hw s = (if zlp then kbind (isr_locked (usbStartTransmitI 0 B_NULL 0) ?s) (\<lambda>s. Ok (s\<lparr>ep0state := USB_EP0_IN_WAITING_TX0\<rparr>))
      else ep0_in_over ?s)"
    using d assms(4,6) c w by (simp add: usb_ep0in_def)
  show ?thesis
  proof (cases zlp)
    case False
    obtain s' where "ep0_in_over ?s = Ok s'" "ep0_status s'" "usb_lld s' = usb_lld ?s @ [L_start_out 0 0]"
      "receiving s' = flag_on 0 (receiving ?s)"
      by (rule ep0_in_over_ok [of ?s]) (use d assms(5) in auto)
    then show ?thesis using that [of s'] r False by simp
  next
    case True
    let ?t = "?s\<lparr>ep_states := (ep_states s)(EP0_STATE := \<lparr>es_size = 0, es_cnt = 0, es_buf = (B_NULL, 0), es_tot = 0\<rparr>),
      usb_lld := usb_lld s @ [?f, L_start_in 0 0], transmitting := flag_on 0 (flag_off 0 (transmitting s)),
      ep0state := USB_EP0_IN_WAITING_TX0\<rparr>"
    let ?u = "?t\<lparr>transmitting := flag_off 0 (flag_on 0 (flag_off 0 (transmitting s)))\<rparr>"
    have "in_round hw s = Ok ?t"
      using r True d c by (simp add: isr_locked_eq StartTransmit_eq [where c = ep0config and r = EP0_STATE] irq_def first_part_def)
    moreover have "in_round hw ?t = ep0_in_over ?u"
      using d c txfifo_done [of ?t 0 ep0config EP0_STATE "[16]"]
      by (simp add: in_round_def otg_epin_handler_def otg_epin_xfrc_def Let_def isr_invoke_in_cb_def call_ep_def usb_ep0in_def kbind_Ok_right)
    ultimately have r2: "in_rounds 2 hw s = ep0_in_over ?u" by (simp add: numeral_2_eq_2 in_rounds_0 kbind_Ok_right)
    obtain s' where "ep0_in_over ?u = Ok s'" "ep0_status s'" "usb_lld s' = usb_lld ?u @ [L_start_out 0 0]"
      "receiving s' = flag_on 0 (receiving ?u)"
      by (rule ep0_in_over_ok [of ?u]) (use d assms(5) in auto)
    then show ?thesis using that [of s'] r2 True by simp
  qed
qed

text \<open>The sizes of the packets of \<open>n\<close> bytes: full ones and a rest, and a zero sized one if asked for.\<close>

definition packet_sizes :: "nat \<Rightarrow> bool \<Rightarrow> nat list" where
  "packet_sizes n zlp = replicate (n div 64) 64 @ (if n mod 64 = 0 then [] else [n mod 64]) @ (if zlp then [0] else [])"

lemma packet_sizes_more: "n > 64 \<Longrightarrow> packet_sizes n zlp = 64 # packet_sizes (n - 64) zlp"
proof -
  assume "n > 64"
  then have "n div 64 = Suc ((n - 64) div 64)" "n mod 64 = (n - 64) mod 64" by (simp_all add: le_div_geq le_mod_geq)
  then show ?thesis by (simp add: packet_sizes_def)
qed

lemma packet_sizes_last: "0 < n \<Longrightarrow> n \<le> 64 \<Longrightarrow> packet_sizes n zlp = n # (if zlp then [0] else [])"
  by (cases "n = 64") (simp_all add: packet_sizes_def)

lemma in_rounds_ok:
  assumes "ep0_sending b off left s" and "left > 0" and "ep0state s = USB_EP0_IN_TX" and "ep0endcb s = NULL"
    and "zlp \<longleftrightarrow> ep0n s < wLength s \<and> ep0n s mod 64 = 0"
  shows "\<exists>s' l. in_rounds (length (packet_sizes left zlp)) hw s = Ok s' \<and> ep0_status s' \<and> usb_lld s' = usb_lld s @ l \<and>
    concat (packets 0 l) = take left (drop off (buf_bytes s b)) \<and> receiving s' = flag_on 0 (receiving s) \<and>
    first_part 0 left # in_sizes 0 l = packet_sizes left zlp"
  using assms
proof (induction left arbitrary: off s rule: less_induct)
  case (less left)
  show ?case
  proof (cases "left \<le> 64")
    case True
    obtain s' where "in_rounds (if zlp then 2 else 1) hw s = Ok s'" "ep0_status s'" "receiving s' = flag_on 0 (receiving s)"
      "usb_lld s' = usb_lld s @ L_fifo 0 (take left (drop off (buf_bytes s b))) # (if zlp then [L_start_in 0 0] else []) @ [L_start_out 0 0]"
      using in_round_last [OF less(2,3) True less(4-6), of hw] by blast
    moreover have "length (packet_sizes left zlp) = (if zlp then 2 else 1)" using less(3) True by (simp add: packet_sizes_last)
    ultimately show ?thesis using less(3) True by (auto simp: packet_sizes_last first_part_def simp del: in_rounds.simps)
  next
    case False
    then obtain s1 where s1: "in_round hw s = Ok s1" "ep0_sending b (off + 64) (left - 64) s1"
      "s1 = s\<lparr>ep_states := ep_states s1, usb_lld := usb_lld s1\<rparr>"
      "usb_lld s1 = usb_lld s @ [L_fifo 0 (take 64 (drop off (buf_bytes s b))), L_start_in 0 (first_part 0 (left - 64))]"
      using in_round_more [OF less(2)] by (metis not_le)
    have fr: "ep0state s1 = ep0state s" "ep0endcb s1 = ep0endcb s" "ep0n s1 = ep0n s" "wLength s1 = wLength s"
      "buf_bytes s1 = buf_bytes s" "receiving s1 = receiving s" by (subst s1(3), simp add: wLength_def)+
    obtain s' l where s': "in_rounds (length (packet_sizes (left - 64) zlp)) hw s1 = Ok s'" "ep0_status s'" "usb_lld s' = usb_lld s1 @ l"
      "concat (packets 0 l) = take (left - 64) (drop (off + 64) (buf_bytes s b))" "receiving s' = flag_on 0 (receiving s)"
      "first_part 0 (left - 64) # in_sizes 0 l = packet_sizes (left - 64) zlp"
      using less(1) [OF _ s1(2)] False less(3-6) fr by auto
    let ?l = "[L_fifo 0 (take 64 (drop off (buf_bytes s b))), L_start_in 0 (first_part 0 (left - 64))] @ l"
    have "take 64 (drop off (buf_bytes s b)) @ take (left - 64) (drop (off + 64) (buf_bytes s b)) = take left (drop off (buf_bytes s b))"
      using take_add [of 64 "left - 64" "drop off (buf_bytes s b)"] False by (simp add: add.commute)
    then have "concat (packets 0 ?l) = take left (drop off (buf_bytes s b))" using s'(4) by simp
    moreover have "first_part 0 left # in_sizes 0 ?l = packet_sizes left zlp" using s'(6) False by (simp add: packet_sizes_more first_part_def)
    moreover have "in_rounds (length (packet_sizes left zlp)) hw s = Ok s'" using s1(1) s'(1) False by (simp add: packet_sizes_more)
    moreover have "usb_lld s' = usb_lld s @ ?l" using s'(3) s1(4) by simp
    ultimately show ?thesis using s'(2,5) by blast
  qed
qed

text \<open>
  A control read as the bus sees it: the SETUP packet, the rounds of the data stage, and the status
  stage, in which the host sends a packet of size zero.
\<close>

definition control_read :: "(bool \<Rightarrow> nat \<Rightarrow> usbepstatus) \<Rightarrow> nat \<Rightarrow> byte list \<Rightarrow> usbsys \<Rightarrow> usbsys kres" where
  "control_read hw rounds pkt s =
     kbind (otg_epout_handler hw True False 0 (otg_rxfifo_setup pkt s)) (\<lambda>s.
     kbind (in_rounds rounds hw s) (\<lambda>s.
     kbind (otg_rxfifo_out 0 [] s) (otg_epout_handler hw False True 0)))"

lemma rxfifo_status: "ep0_status s \<Longrightarrow> otg_rxfifo_out 0 [] s = Ok s"
proof -
  assume a: "ep0_status s"
  have "(ep_states s)(EP0_STATE := ep_states s EP0_STATE\<lparr>es_buf := (B_NULL, 0), es_cnt := 0\<rparr>) = ep_states s"
    using a by (auto simp: ep0_status_def fun_eq_iff)
  then show ?thesis using a by (simp add: otg_rxfifo_out_def ep0_status_def ep0config_def buf_write_def)
qed

text \<open>A request whose answer has been set up is started by \<open>ep0_start\<close>.\<close>

lemma ep0_start_in:
  assumes "ep0_idle s" and "usb_setup s ! 0 AND 0x80 = 0x80" and "n = min (ep0n s) (wLength s)" and "n > 0" and "ep0endcb s = NULL"
  obtains s' where "ep0_start s = Ok s'" and "ep0_sending (ep0next s) 0 n s'" and "ep0state s' = USB_EP0_IN_TX" and "ep0n s' = n"
    and "wLength s' = wLength s" and "ep0endcb s' = NULL" and "buf_bytes s' = buf_bytes s" and "receiving s' = receiving s"
    and "usb_lld s' = usb_lld s @ [L_start_in 0 (first_part 0 n)]"
proof -
  let ?s = "s\<lparr>ep0n := n, ep0state := USB_EP0_IN_TX, transmitting := flag_on 0 (transmitting s),
      ep_states := (ep_states s)(EP0_STATE := \<lparr>es_size = first_part 0 n, es_cnt = 0, es_buf = (ep0next s, 0), es_tot = n\<rparr>),
      usb_lld := usb_lld s @ [L_start_in 0 (first_part 0 n)]\<rparr>"
  note d = assms(1) [unfolded ep0_idle_def]
  have c: "in_state ep0config = Some EP0_STATE" by (simp add: ep0config_def)
  have n: "(if ep0n s > wLength s then s\<lparr>ep0n := wLength s\<rparr> else s) = s\<lparr>ep0n := n\<rparr>" using assms(3) by auto
  have "ep0_start s = Ok ?s"
    using d c assms(2,4) unfolding ep0_start_def n
    by (simp add: Let_def isr_locked_eq StartTransmit_eq [where c = ep0config and r = EP0_STATE] irq_def)
  then show ?thesis
  proof (rule that)
    show "ep0_sending (ep0next s) 0 n ?s" using d by (simp add: ep0_sending_def)
    show "buf_bytes ?s = buf_bytes s" by (auto simp: buf_bytes_def fun_eq_iff split: usb_buf.split)
  qed (use assms(5) in \<open>simp_all add: wLength_def\<close>)
qed

text \<open>The request for a descriptor is answered by the default handler.\<close>

lemma setup_get_descriptor:
  assumes "usb_cfg s" and "epc s 0 = Some ep0config" and "length (ep0setup_buffer s) = 8"
    and "pkt = [rt, 6, dindex, dtype, l0, l1, n0, n1]" and "rt = 0x80 \<or> rt = 0x81"
    and "get_descriptor dtype dindex (get_hword l0 l1) = Some d"
  defines "h \<equiv> usbSetupTransfer (B_CONST d) (length d) (s\<lparr>ep0setup_buffer := pkt, ep0state := USB_EP0_STP_WAITING, usb_setup := pkt\<rparr>)"
  shows "otg_epout_handler hw True False 0 (otg_rxfifo_setup pkt s) = ep0_start h"
    and "wLength h = unat (get_hword n0 n1)" and "usb_setup h ! 0 AND 0x80 = 0x80"
proof -
  let ?r = "s\<lparr>ep0setup_buffer := pkt, ep0state := USB_EP0_STP_WAITING, usb_setup := pkt\<rparr>"
  have rt: "rt AND 0x60 = 0" "rt AND 0x7F = 0 \<or> rt AND 0x7F = 1" "rt AND 0x80 = 0x80" using assms(5) by auto
  show "wLength h = unat (get_hword n0 n1)" "usb_setup h ! 0 AND 0x80 = 0x80"
    using assms(4) rt(3) by (simp_all add: h_def wLength_def usbSetupTransfer_def)
  have su: "otg_rxfifo_setup pkt s = s\<lparr>ep0setup_buffer := pkt\<rparr>" using assms(3,4) by (simp add: otg_rxfifo_setup_def overwrite_def)
  have rq: "sduRequestsHook ?r = (False, ?r)" using rt assms(4) by (simp add: sduRequestsHook_def)
  have dh: "default_handler usbcfg hw ?r = Ok (True, h)"
    using rt(2) assms(1,4,6) by (auto simp: default_handler_def Let_def usbcfg_def h_def)
  show "otg_epout_handler hw True False 0 (otg_rxfifo_setup pkt s) = ep0_start h"
    using assms(1,2) rt(1) rq dh assms(4) unfolding su
    by (simp add: otg_epout_handler_def isr_invoke_setup_cb_def ep0config_def call_ep_def usb_ep0setup_def usb_lld_read_setup_def
        usbcfg_def kbind_Ok_right)
qed

text \<open>
  C9: The host reads a descriptor: it gets the first bytes of the descriptor, as many as it asked for, in packets of 64
  bytes and a shorter one at the end if that is less than it asked for; then endpoint zero is idle
  again. This holds for requests to the device and to an interface.
\<close>

theorem control_read_descriptor:
  assumes "ep0_idle s" and "length (ep0setup_buffer s) = 8"
    and "pkt = [rt, 6, dindex, dtype, l0, l1, n0, n1]" and "rt = 0x80 \<or> rt = 0x81"
    and "get_descriptor dtype dindex (get_hword l0 l1) = Some d"
    and "n = min (length d) (unat (get_hword n0 n1))" and "n > 0"
    and "sizes = packet_sizes n (n < unat (get_hword n0 n1) \<and> n mod 64 = 0)"
  shows "\<exists>s' l. control_read hw (length sizes) pkt s = Ok s' \<and> ep0_idle s' \<and> ep0state s' = USB_EP0_STP_WAITING \<and>
    usb_lld s' = usb_lld s @ l \<and> concat (packets 0 l) = take n d \<and> in_sizes 0 l = sizes"
proof -
  let ?h = "usbSetupTransfer (B_CONST d) (length d) (s\<lparr>ep0setup_buffer := pkt, ep0state := USB_EP0_STP_WAITING, usb_setup := pkt\<rparr>)"
  note i = assms(1) [unfolded ep0_idle_def]
  have su: "otg_epout_handler hw True False 0 (otg_rxfifo_setup pkt s) = ep0_start ?h" "wLength ?h = unat (get_hword n0 n1)"
    "usb_setup ?h ! 0 AND 0x80 = 0x80" using setup_get_descriptor [OF _ _ assms(2-5)] i by auto
  have hi: "ep0_idle ?h" "ep0endcb ?h = NULL" "n = min (ep0n ?h) (wLength ?h)"
    using i su(2) assms(3,6) by (simp_all add: ep0_idle_def usbSetupTransfer_def)
  obtain s1 where s1: "ep0_start ?h = Ok s1" "ep0_sending (ep0next ?h) 0 n s1" "ep0state s1 = USB_EP0_IN_TX" "ep0n s1 = n"
    "wLength s1 = wLength ?h" "ep0endcb s1 = NULL" "buf_bytes s1 = buf_bytes ?h" "receiving s1 = receiving ?h"
    "usb_lld s1 = usb_lld ?h @ [L_start_in 0 (first_part 0 n)]"
    using ep0_start_in [OF hi(1) su(3) hi(3) assms(7) hi(2)] by blast
  have bb: "buf_bytes s1 (ep0next ?h) = d" "usb_lld ?h = usb_lld s" "receiving ?h = receiving s"
    using s1(7) by (simp_all add: usbSetupTransfer_def buf_bytes_def)
  obtain s2 l where s2: "in_rounds (length sizes) hw s1 = Ok s2" "ep0_status s2" "usb_lld s2 = usb_lld s1 @ l"
    "concat (packets 0 l) = take n d" "receiving s2 = flag_on 0 (receiving s)" "first_part 0 n # in_sizes 0 l = sizes"
    using in_rounds_ok [OF s1(2) assms(7) s1(3,6) refl, of hw] s1(4,5,8) su(2) assms(8) bb by auto
  let ?e = "s2\<lparr>receiving := flag_off 0 (receiving s2), ep0state := USB_EP0_STP_WAITING\<rparr>"
  have "control_read hw (length sizes) pkt s = Ok ?e"
    using su(1) s1(1) s2(1) rxfifo_status [OF s2(2)] status_done [OF s2(2)] by (simp add: control_read_def)
  moreover have "ep0_idle ?e" using s2(2) by (simp add: ep0_status_def ep0_idle_def)
  moreover have "usb_lld ?e = usb_lld s @ ([L_start_in 0 (first_part 0 n)] @ l)" using s2(3) s1(9) bb(2) by simp
  ultimately show ?thesis using s2(4,6) by (intro exI [of _ ?e] exI [of _ "[L_start_in 0 (first_part 0 n)] @ l"]) simp
qed

lemma ep0_start_busy:
  assumes "irq (usb_k s)" and "bit (transmitting s) 0" and "usb_setup s ! 0 AND 0x80 = 0x80" and "ep0n s \<noteq> 0" and "wLength s \<noteq> 0"
  shows "\<exists>e. ep0_start s = Halt e"
proof -
  have n: "(if ep0n s > wLength s then s\<lparr>ep0n := wLength s\<rparr> else s) = s\<lparr>ep0n := min (ep0n s) (wLength s)\<rparr>" by auto
  show ?thesis unfolding ep0_start_def n using assms by (simp add: Let_def isr_locked_eq Start_busy)
qed


section \<open>Descriptors\<close>

text \<open>A configuration is cut into its descriptors by the length that each one starts with.\<close>

fun desc_split :: "nat \<Rightarrow> byte list \<Rightarrow> byte list list option" where
  "desc_split 0 bs = (if bs = [] then Some [] else None)"
| "desc_split (Suc f) bs =
     (case bs of [] \<Rightarrow> Some []
      | b # _ \<Rightarrow> if b = 0 \<or> unat b > length bs then None
                 else map_option ((#) (take (unat b) bs)) (desc_split f (drop (unat b) bs)))"

text \<open>
  C10: The descriptors are well formed: each has its type in its second byte; the length bytes of the device
  and string descriptors and the total length of the configuration are the numbers of bytes that are sent, and the
  lengths inside the configuration cut it exactly into descriptors, among them two interfaces and the three
  endpoints of the driver, the data endpoints with the packet size the driver uses.
\<close>

theorem descriptors_wf:
  assumes "get_descriptor dtype dindex lang = Some d"
  shows "2 \<le> length d \<and> d ! 1 = dtype \<and> (dtype \<noteq> 2 \<longrightarrow> unat (d ! 0) = length d) \<and>
    (dtype = 2 \<longrightarrow> unat (get_hword (d ! 2) (d ! 3)) = length d \<and> (\<exists>ps. desc_split (length d) d = Some ps \<and> concat ps = d \<and>
       length (filter (\<lambda>p. p ! 1 = 4) ps) = unat (d ! 4) \<and>
       map (\<lambda>p. (p ! 2, unat (get_hword (p ! 4) (p ! 5)))) (filter (\<lambda>p. p ! 1 = 5) ps) =
         [(0x82, 8), (0x01, out_maxsize ep1config), (0x81, in_maxsize ep1config)]))"
proof -
  have str: "\<forall>x\<in>set vcom_strings. 2 \<le> length x \<and> x ! 1 = 3 \<and> unat (x ! 0) = length x"
    by (simp add: vcom_strings_def usb_string_def)
  have dev: "2 \<le> length vcom_device_descriptor \<and> vcom_device_descriptor ! 1 = 1 \<and> unat (vcom_device_descriptor ! 0) = length vcom_device_descriptor"
    by code_simp
  have cfg: "2 \<le> length vcom_configuration_descriptor" "vcom_configuration_descriptor ! 1 = 2" "length vcom_configuration_descriptor = 67"
    "unat (get_hword (vcom_configuration_descriptor ! 2) (vcom_configuration_descriptor ! 3)) = 67" "unat (vcom_configuration_descriptor ! 4) = 2"
    by code_simp+
  have sp: "case desc_split 67 vcom_configuration_descriptor of None \<Rightarrow> False
     | Some ps \<Rightarrow> concat ps = vcom_configuration_descriptor \<and> length (filter (\<lambda>p. p ! 1 = 4) ps) = 2 \<and>
         map (\<lambda>p. (p ! 2, unat (get_hword (p ! 4) (p ! 5)))) (filter (\<lambda>p. p ! 1 = 5) ps) =
           [(0x82, 8), (0x01, out_maxsize ep1config), (0x81, in_maxsize ep1config)]"
    by code_simp
  consider "dtype = 1" "d = vcom_device_descriptor" | "dtype = 2" "d = vcom_configuration_descriptor"
    | "dtype = 3" "dindex < 4" "d = vcom_strings ! unat dindex"
    using assms by (auto simp: get_descriptor_def split: if_splits)
  then show ?thesis
  proof cases
    case 1
    then show ?thesis using dev by simp
  next
    case 2
    then show ?thesis using cfg sp by (auto split: option.splits)
  next
    case 3
    have "length vcom_strings = 4" by (simp add: vcom_strings_def)
    then have "d \<in> set vcom_strings" using 3(2,3) by (auto simp: word_less_nat_alt)
    then show ?thesis using str 3(1) by simp
  qed
qed

section \<open>Witnesses\<close>

text \<open>The configured device in an interrupt handler, with empty queues.\<close>

definition demo_bq :: "ptr \<Rightarrow> nat \<Rightarrow> bqueue" where
  "demo_bq p n = \<lparr>bq_waiting = p, bq_suspended = False, bq_bcounter = n, bq_bwrptr = 0, bq_brdptr = 0, bq_bsize = 260,
     bq_slots = [(0, replicate 256 0), (0, replicate 256 0)], bq_ptr = None, bq_top = 0, bq_notified = 0\<rparr>"

definition demo_usb :: usbsys where
  "demo_usb = \<lparr>usb_state = USB_ACTIVE, usb_cfg = True, transmitting = 0, receiving = 2,
     epc = (\<lambda>_. None)(0 := Some ep0config, 1 := Some ep1config, 2 := Some ep2config), in_params = (\<lambda>i. i < 2), out_params = (\<lambda>i. i < 1),
     ep0state = USB_EP0_STP_WAITING, ep0next = B_NULL, ep0n = 0, ep0endcb = NULL, usb_setup = replicate 8 0, usb_status = 0, usb_address = 5,
     configuration = 1, saved_state = USB_READY, pmnext = 164, dieptxf = (\<lambda>_. (0, 0))(0 := (128, 16), 1 := (144, 16), 2 := (160, 4)),
     ep_states = (\<lambda>_. es_zero)(EP1_OUT := \<lparr>es_size = 256, es_cnt = 0, es_buf = (B_IB 0, 0), es_tot = 256\<rparr>),
     ep0setup_buffer = replicate 8 0, linecoding = [0, 0x96, 0, 0, 0, 0, 8],
     sdu = \<lparr>sdu_state = SDU_READY, sdu_config = True, ibqueue = demo_bq 80 0, obqueue = demo_bq 96 2\<rparr>, usb_lld = [],
     usb_k = demo_kernel\<lparr>isr_cnt := 1, lock_cnt := 0\<rparr>\<rparr>"

lemma demo_usb_irq: "irq (usb_k demo_usb)" "sched_inv (usb_k demo_usb)" "queues (usb_k demo_usb) (TQ p) = []"
proof -
  have k: "usb_k demo_usb = demo_kernel\<lparr>isr_cnt := 1, lock_cnt := 0\<rparr>" by (simp add: demo_usb_def)
  show "irq (usb_k demo_usb)" "sched_inv (usb_k demo_usb)" "queues (usb_k demo_usb) (TQ p) = []"
    using demo_kernel_ok(1) unfolding k by (simp_all add: irq_def) (simp add: demo_kernel_def kernel_reset_def)
qed

lemma demo_usb_sel:
  "usb_cfg demo_usb" "epc demo_usb 0 = Some ep0config" "transmitting demo_usb = 0" "receiving demo_usb = 2" "length (ep0setup_buffer demo_usb) = 8"
  "usb_lld demo_usb = []"
  by (simp_all add: demo_usb_def)

text \<open>The host asks for 255 bytes of the configuration: it gets 67, in two packets.\<close>

theorem control_read_descriptor_witness:
  "\<exists>s' l. control_read (\<lambda>_ _. EP_STATUS_ACTIVE) 2 [0x80, 6, 0, 2, 0, 0, 255, 0] demo_usb = Ok s' \<and> ep0_idle s' \<and>
     usb_lld s' = l \<and> concat (packets 0 l) = vcom_configuration_descriptor \<and> in_sizes 0 l = [64, 3]"
proof -
  have b: "\<not> bit (2 :: u16) 0" by simp
  have i: "ep0_idle demo_usb" using demo_usb_irq(1) demo_usb_sel b by (simp add: ep0_idle_def)
  have l: "length vcom_configuration_descriptor = 67" "unat (get_hword 255 0) = 255" "packet_sizes 67 False = [64, 3]" by code_simp+
  have d: "get_descriptor 2 0 (get_hword 0 0) = Some vcom_configuration_descriptor" by (simp add: get_descriptor_def)
  have m: "67 = min (length vcom_configuration_descriptor) (unat (get_hword 255 0))" unfolding l by simp
  have z: "(67 < unat (get_hword 255 0) \<and> (67::nat) mod 64 = 0) = False" by simp
  from control_read_descriptor [OF i demo_usb_sel(5) refl _ d m _ refl, where rt = "0x80" and hw = "\<lambda>_ _. EP_STATUS_ACTIVE"]
  show ?thesis unfolding z l(3) demo_usb_sel(6) using l(1) by (auto simp: numeral_2_eq_2)
qed


theorem descriptors_wf_witness:
  "unat (vcom_strings ! 1 ! 0) = length (vcom_strings ! 1) \<and> vcom_strings ! 1 ! 1 = 3"
  using descriptors_wf [of 3 1 0 "vcom_strings ! 1"] by (simp add: get_descriptor_def)

end
