(* ===== verification/SerialLink.thy ===== *)
theory SerialLink
  imports SerialUsb
begin

text \<open>
  The serial link as a whole: the threads that read and write the queues of the serial driver, the
  notifications that the queues send it, and the interrupts of its endpoints, as steps on one state.

  A thread enters the queues in critical zones that are cut at the chunks of a read or write; an
  interrupt handler may come between any two of them. \<open>link_exec\<close> is one such step, of a thread or of
  the hardware. The invariant \<open>link_inv\<close> ties the queues to the transactions of the endpoints. It is
  shown that no step halts, and that the link is a pair of streams (\<open>link_streams\<close>): what has been
  put into the FIFO of the IN endpoint and what is still in the queue are, together, the bytes written, and likewise
  for the other direction.
\<close>

section \<open>Queues with their callbacks\<close>

text \<open>The queue \<open>q\<close> replaces that of the driver; if the operation has called the notification, it is run.\<close>

definition out_notified :: "bqueue \<Rightarrow> usbsys \<Rightarrow> usbsys kres" where
  "out_notified q s = (if bq_notified q \<noteq> bq_notified (obqueue (sdu s)) then obnotify (upd_ob q s) else Ok (upd_ob q s))"

definition in_notified :: "bqueue \<Rightarrow> usbsys \<Rightarrow> usbsys kres" where
  "in_notified q s = (if bq_notified q \<noteq> bq_notified (ibqueue (sdu s)) then ibnotify (upd_ib q s) else Ok (upd_ib q s))"

text \<open>
  The steps: a turn of \<open>obqWriteTimeout\<close> on the bytes left, the acquisition of an empty buffer before it,
  \<open>obqFlush\<close>; the same for \<open>ibqReadTimeout\<close>; the interrupts of the IN endpoint, a packet in the receive FIFO, the
  interrupt of the OUT endpoint, and the start of a frame.
\<close>

datatype link_op = Op_write "byte list" | Op_get_empty | Op_flush | Op_read nat | Op_get_full
  | Op_fill "nat list" | Op_in_complete | Op_packet "byte list" | Op_out_complete | Op_sof

datatype link_event = Wrote "byte list" | Got "byte list" | Came "byte list" | Tau

abbreviation with_event :: "link_event \<Rightarrow> usbsys kres \<Rightarrow> (link_event \<times> usbsys) kres" where
  "with_event e r \<equiv> kbind r (\<lambda>s. Ok (e, s))"

definition link_exec :: "(bool \<Rightarrow> nat \<Rightarrow> usbepstatus) \<Rightarrow> link_op \<Rightarrow> usbsys \<Rightarrow> (link_event \<times> usbsys) kres" where
  "link_exec hw op s = (let ib = ibqueue (sdu s); ob = obqueue (sdu s); k = usb_k s in
     case op of
       Op_write bs \<Rightarrow> let c = bq_chunk (length bs) ob in
         with_event (Wrote (take c bs)) (kbind (obq_store (take c bs) ob k) (\<lambda>q. out_notified q s))
     | Op_get_empty \<Rightarrow> with_event Tau (kbind (obqGetEmptyBufferTimeoutS TIME_INFINITE ob k) (\<lambda>(w, q, k). out_notified q (s\<lparr>usb_k := k\<rparr>)))
     | Op_flush \<Rightarrow> with_event Tau (kbind (case bq_ptr ob of None \<Rightarrow> Ok ob | Some p \<Rightarrow> if p > 0 then obqPostFullBufferS p ob k else Ok ob)
         (\<lambda>q. out_notified q s))
     | Op_read n \<Rightarrow> kbind (ibq_take (bq_chunk n ib) ib k) (\<lambda>(bs, q). with_event (Got bs) (in_notified q s))
     | Op_get_full \<Rightarrow> with_event Tau (kbind (ibqGetFullBufferTimeoutS TIME_INFINITE ib k) (\<lambda>(w, q, k). in_notified q (s\<lparr>usb_k := k\<rparr>)))
     | Op_fill spaces \<Rightarrow> with_event Tau (otg_epin_handler hw False True spaces 1 s)
     | Op_in_complete \<Rightarrow> with_event Tau (otg_epin_handler hw True False [] 1 s)
     | Op_packet bs \<Rightarrow> with_event (Came bs) (otg_rxfifo_out 1 bs s)
     | Op_out_complete \<Rightarrow> with_event Tau (otg_epout_handler hw False True 1 s)
     | Op_sof \<Rightarrow> with_event Tau (sof_handler s))"

section \<open>The invariant\<close>

definition tx_ok :: "usbsys \<Rightarrow> bool" where
  "tx_ok s \<longleftrightarrow> (let e = ep_states s EP1_IN; q = obqueue (sdu s) in
     if bit (transmitting s) 1
     then es_size e = es_tot e \<and> es_cnt e \<le> es_size e \<and>
          (es_size e = 0 \<or> out_slots q \<noteq> [] \<and> es_size e = fst (hd (out_slots q)) \<and> es_buf e = (B_OB (bq_brdptr q), es_cnt e))
     else out_slots q = [])"

definition rx_ok :: "usbsys \<Rightarrow> bool" where
  "rx_ok s \<longleftrightarrow> (let e = ep_states s EP1_OUT; q = ibqueue (sdu s) in
     (bit (receiving s) 1 \<longleftrightarrow> bq_bcounter q < length (bq_slots q)) \<and>
     (bit (receiving s) 1 \<longrightarrow> es_size e = 256 \<and> es_tot e = 256 \<and> es_cnt e \<le> 256 \<and> es_buf e = (B_IB (bq_bwrptr q), es_cnt e)))"

definition link_base :: "usbsys \<Rightarrow> bool" where
  "link_base s \<longleftrightarrow> usb_state s = USB_ACTIVE \<and> sdu_state (sdu s) = SDU_READY \<and> sdu_config (sdu s) \<and> in_params s 0 \<and> out_params s 0 \<and>
     epc s 1 = Some ep1config \<and> in_inv (ibqueue (sdu s)) \<and> out_inv (obqueue (sdu s)) \<and>
     bq_bsize (ibqueue (sdu s)) = 260 \<and> bq_bsize (obqueue (sdu s)) = 260"

definition link_inv :: "usbsys \<Rightarrow> bool" where
  "link_inv s \<longleftrightarrow> link_base s \<and> tx_ok s \<and> rx_ok s"

lemmas link_defs = link_inv_def link_base_def

text \<open>The bytes written and not yet in the FIFO, and those received and not yet read.\<close>

definition tx_cnt :: "usbsys \<Rightarrow> nat" where
  "tx_cnt s = (if bit (transmitting s) 1 then es_cnt (ep_states s EP1_IN) else 0)"

definition tx_left :: "usbsys \<Rightarrow> nat" where
  "tx_left s = es_size (ep_states s EP1_IN) - es_cnt (ep_states s EP1_IN)"

definition outgoing :: "usbsys \<Rightarrow> byte list" where
  "outgoing s = drop (tx_cnt s) (out_stream (obqueue (sdu s)))"

definition incoming :: "usbsys \<Rightarrow> byte list" where
  "incoming s = in_stream (ibqueue (sdu s)) @
     (if bit (receiving s) 1 then take (es_cnt (ep_states s EP1_OUT)) (snd (bq_slots (ibqueue (sdu s)) ! bq_bwrptr (ibqueue (sdu s)))) else [])"

definition sent :: "usbsys \<Rightarrow> byte list" where
  "sent s = concat (packets 1 (usb_lld s))"

lemma ep1 [simp]:
  "in_state ep1config = Some EP1_IN" "out_state ep1config = Some EP1_OUT" "in_maxsize ep1config = 64" "out_maxsize ep1config = 64"
  "in_cb ep1config = CB_sduDataTransmitted" "out_cb ep1config = CB_sduDataReceived"
  by (simp_all add: ep1config_def)

lemma out_slots_Nil: "out_inv q \<Longrightarrow> out_slots q = [] \<longleftrightarrow> bq_bcounter q = length (bq_slots q)"
  by (auto simp: out_slots_def out_inv_def out_ok_def bq_ok_def ring_items_def)

lemma out_slots_hd:
  assumes "out_inv q" and "out_slots q \<noteq> []"
  shows "hd (out_slots q) = bq_slots q ! bq_brdptr q" and "fst (hd (out_slots q)) \<le> length (out_stream q)"
    and "0 < fst (hd (out_slots q))" and "fst (hd (out_slots q)) \<le> length (snd (hd (out_slots q)))" 
proof -
  have c: "bq_bcounter q < length (bq_slots q)" using assms out_slots_Nil [OF assms(1)] by (auto simp: out_inv_def out_ok_def bq_ok_def)
  have b: "bq_brdptr q < length (bq_slots q)" using assms(1) by (simp add: out_inv_def out_ok_def bq_ok_def)
  show h: "hd (out_slots q) = bq_slots q ! bq_brdptr q"
    using ring_get [of "length (bq_slots q) - bq_bcounter q" "bq_brdptr q" "bq_slots q"] c b by (simp add: out_slots_def)
  show "fst (hd (out_slots q)) \<le> length (out_stream q)" "0 < fst (hd (out_slots q))" "fst (hd (out_slots q)) \<le> length (snd (hd (out_slots q)))"
    using obq_released_ok(2-4) [OF assms(1) c] unfolding h by (simp_all add: slot_bytes_def)
qed

lemma tx_cnt_le: "link_inv s \<Longrightarrow> tx_cnt s \<le> length (out_stream (obqueue (sdu s)))"
  using out_slots_hd(2) [of "obqueue (sdu s)"] by (auto simp: link_defs tx_ok_def tx_cnt_def Let_def split: if_splits)

section \<open>Writers\<close>

text \<open>What a writer does to the queue: full buffers are added behind the others, exactly when it notifies.\<close>

definition out_grows :: "bqueue \<Rightarrow> bqueue \<Rightarrow> bool" where
  "out_grows q q' \<longleftrightarrow> out_inv q' \<and> bq_brdptr q' = bq_brdptr q \<and> bq_bsize q' = bq_bsize q \<and>
     (\<exists>xs. out_slots q' = out_slots q @ xs \<and> (bq_notified q' = bq_notified q \<longleftrightarrow> xs = []))"

lemma obq_post_slots:
  assumes "out_ok q" and "bq_bcounter q > 0"
  shows "out_slots (obq_post sz q) = out_slots q @ [(sz, snd (bq_slots q ! bq_bwrptr q))]"
  using out_slots_write(2) [OF assms, of "(sz, snd (bq_slots q ! bq_bwrptr q))"] by (simp add: out_slots_def obq_post_def Let_def)

lemma bq_notify_frame [simp]:
  "bq_brdptr (bq_notify q) = bq_brdptr q" "bq_bsize (bq_notify q) = bq_bsize q" "out_slots (bq_notify q) = out_slots q"
  "bq_notified (bq_notify q) = Suc (bq_notified q)"
  by (simp_all add: bq_notify_def out_slots_def)

lemma obq_post_frame [simp]:
  "bq_brdptr (obq_post sz q) = bq_brdptr q" "bq_bsize (obq_post sz q) = bq_bsize q" "bq_notified (obq_post sz q) = bq_notified q"
  by (simp_all add: obq_post_def Let_def)

lemma obq_store_grows:
  assumes "out_inv q" and "bq_ptr q = Some p" and "bs \<noteq> []" and "p + length bs \<le> bq_top q" and "thd_ctx k" and "obq_store bs q k = Ok q'"
  shows "out_grows q q'" and "out_stream q' = out_stream q @ bs"
proof -
  obtain r where r: "obq_store bs q k = Ok r" "out_inv r" "out_stream r = out_stream q @ bs"
    using obq_store_ok [OF assms(1-5)] by metis
  then have q': "out_inv q'" "out_stream q' = out_stream q @ bs" using assms(6) by simp_all
  have ok: "out_ok q" "bq_bcounter q > 0" using assms(1,2) by (simp_all add: out_inv_def)
  let ?x = "(fst (bq_slots q ! bq_bwrptr q), take p (snd (bq_slots q ! bq_bwrptr q)) @ bs @ drop (p + length bs) (snd (bq_slots q ! bq_bwrptr q)))"
  let ?q = "q\<lparr>bq_slots := (bq_slots q)[bq_bwrptr q := ?x], bq_ptr := Some (p + length bs)\<rparr>"
  have s: "out_slots ?q = out_slots q" using out_slots_write(1) [OF ok, of ?x] by (simp add: out_slots_def)
  have "out_slots (obq_post (bq_bsize q - 4) ?q) = out_slots q @ [(bq_bsize q - 4, snd ?x)]"
    using out_slots_write(2) [OF ok, of "(bq_bsize q - 4, snd ?x)"] out_ok_wr [OF ok(1)] by (simp add: out_slots_def obq_post_def Let_def)
  then have "bq_brdptr q' = bq_brdptr q \<and> bq_bsize q' = bq_bsize q \<and>
     (\<exists>xs. out_slots q' = out_slots q @ xs \<and> (bq_notified q' = bq_notified q \<longleftrightarrow> xs = []))"
    using assms(2,6) s ok by (auto simp: obq_store_def Let_def case_prod_unfold obqPostFullBufferS_def kguard_def chDbgCheckClassS_def split: if_splits)
  then show "out_grows q q'" using q'(1) by (simp add: out_grows_def)
  show "out_stream q' = out_stream q @ bs" by (rule q')
qed

lemma get_empty_grows:
  assumes "out_inv q" and "bq_ptr q = None" and "bq_bcounter q > 0" and "thd_ctx k"
  shows "\<exists>q'. obqGetEmptyBufferTimeoutS timeout q k = Ok (Returned MSG_OK, q', k) \<and> out_grows q q' \<and> out_stream q' = out_stream q"
proof -
  let ?q = "q\<lparr>bq_ptr := Some 0, bq_top := bq_bsize q - 4\<rparr>"
  have s: "out_slots ?q = out_slots q" by (simp add: out_slots_def)
  have "6 \<le> bq_bsize q" using assms(1) by (simp add: out_inv_def out_ok_def bq_ok_def)
  then have "out_inv ?q" using assms unfolding out_inv_def out_ok_def s by (simp add: bq_ok_def slot_ok_def)
  then have "out_grows q ?q" using s by (simp add: out_grows_def)
  moreover have "out_stream ?q = out_stream q" using assms(2) unfolding out_stream_def s by simp
  ultimately show ?thesis using assms by (simp add: obqGetEmptyBufferTimeoutS_def obq_acquire_def obqIsFullI_def bqSpaceI_def)
qed

lemma flush_grows:
  assumes "out_inv q" and "thd_ctx k"
  shows "\<exists>q'. (case bq_ptr q of None \<Rightarrow> Ok q | Some p \<Rightarrow> if p > 0 then obqPostFullBufferS p q k else Ok q) = Ok q' \<and>
    out_grows q q' \<and> out_stream q' = out_stream q"
proof (cases "\<exists>p. bq_ptr q = Some p \<and> p > 0")
  case True
  then obtain p where p: "bq_ptr q = Some p" "p > 0" by blast
  have o: "out_ok q" "bq_bcounter q > 0" "p < bq_bsize q - 4" using assms(1) p by (simp_all add: out_inv_def)
  have "out_inv (obq_post p q)" "out_stream (obq_post p q) = out_stream q"
    using obq_post_ok(1,2) [OF o(1,2) p(2)] o(3) p by (simp_all add: out_stream_def)
  then show ?thesis using p o assms(2) obq_post_slots [OF o(1,2), of p]
    by (auto simp: obqPostFullBufferS_def obqIsFullI_def bqSpaceI_def out_grows_def)
next
  case False
  then show ?thesis using assms(1) by (auto simp: out_grows_def split: option.split)
qed

text \<open>Transmission of the buffer at the head is started if none is under way.\<close>

lemma start_head:
  assumes "link_base s" and "rx_ok s" and "out_inv q" and "bq_bsize q = 260" and "out_slots q \<noteq> []" and "i_ctx (usb_k s)" and "\<not> bit (transmitting s) 1"
  defines "e \<equiv> \<lparr>es_size = fst (hd (out_slots q)), es_cnt = 0, es_buf = (B_OB (bq_brdptr q), 0), es_tot = fst (hd (out_slots q))\<rparr>"
  defines "s' \<equiv> lld_log (L_start_in 1 (es_size e)) ((upd_ob q s)\<lparr>transmitting := flag_on 1 (transmitting s), ep_states := (ep_states s)(EP1_IN := e)\<rparr>)"
  shows "obqGetFullBufferI q (usb_k s) = Ok (Some (bq_slots q ! bq_brdptr q))"
    and "usbStartTransmitI 1 (B_OB (bq_brdptr q)) (fst (bq_slots q ! bq_brdptr q)) (upd_ob q s) = Ok s'"
    and "link_inv s'" and "outgoing s' = out_stream q" and "incoming s' = incoming s" and "sent s' = sent s" and "usb_k s' = usb_k s" and "tx_left s' > 0"
proof -
  have i: "epc s 1 = Some ep1config" using assms(1) by (simp add: link_defs)
  have c: "bq_bcounter q < length (bq_slots q)" using out_slots_Nil [OF assms(3)] assms(3,5) by (auto simp: out_inv_def out_ok_def bq_ok_def)
  note h = out_slots_hd [OF assms(3,5)]
  show "obqGetFullBufferI q (usb_k s) = Ok (Some (bq_slots q ! bq_brdptr q))" using obqGetFull_eq [OF assms(3,6)] c by simp
  show "usbStartTransmitI 1 (B_OB (bq_brdptr q)) (fst (bq_slots q ! bq_brdptr q)) (upd_ob q s) = Ok s'"
    using i assms(6,7) by (simp add: StartTransmit_eq [where c = ep1config and r = EP1_IN] s'_def e_def h(1) first_part_def)
  have f: "es_size e = fst (hd (out_slots q))" "es_tot e = es_size e" "es_cnt e = 0" "es_buf e = (B_OB (bq_brdptr q), 0)" by (simp_all add: e_def)
  have "tx_ok s'" using assms(5) f by (simp add: tx_ok_def s'_def)
  moreover have "rx_ok s'" using assms(2) by (simp add: rx_ok_def s'_def Let_def)
  ultimately show "link_inv s'" using assms(1-4) by (simp add: link_defs s'_def)
  show "outgoing s' = out_stream q" using f by (simp add: outgoing_def tx_cnt_def s'_def)
  show "incoming s' = incoming s" by (simp add: incoming_def s'_def)
  show "sent s' = sent s" "usb_k s' = usb_k s" "tx_left s' > 0" using h(3) f by (simp_all add: sent_def tx_left_def s'_def)
qed

lemma out_notified_ok:
  assumes "link_inv s" and "thd_ctx (usb_k s)" and "out_grows (obqueue (sdu s)) q" and "out_stream q = out_stream (obqueue (sdu s)) @ bs"
  shows "\<exists>s'. out_notified q s = Ok s' \<and> link_inv s' \<and> outgoing s' = outgoing s @ bs \<and> incoming s' = incoming s \<and> sent s' = sent s"
proof -
  let ?o = "obqueue (sdu s)"
  obtain xs where xs: "out_slots q = out_slots ?o @ xs" "bq_notified q = bq_notified ?o \<longleftrightarrow> xs = []" using assms(3) by (auto simp: out_grows_def)
  have q: "out_inv q" "bq_brdptr q = bq_brdptr ?o" "bq_bsize q = 260" using assms(1,3) by (simp_all add: out_grows_def link_defs)
  note i = assms(1) [unfolded link_defs]
  have rx: "rx_ok (upd_ob q s)" "incoming (upd_ob q s) = incoming s" "sent (upd_ob q s) = sent s" "tx_cnt (upd_ob q s) = tx_cnt s"
    using i by (simp_all add: rx_ok_def Let_def incoming_def sent_def tx_cnt_def)
  show ?thesis
  proof (cases "bit (transmitting s) 1 \<or> xs = []")
    case True
    then have "tx_ok (upd_ob q s)" using i xs(1) q by (auto simp: tx_ok_def Let_def)
    then have "link_inv (upd_ob q s)" using i q rx(1) by (simp add: link_defs)
    moreover have "outgoing (upd_ob q s) = outgoing s @ bs" using tx_cnt_le [OF assms(1)] assms(4) rx(4) by (simp add: outgoing_def)
    moreover have "out_notified q s = Ok (upd_ob q s)" using True xs(2) i by (auto simp: out_notified_def obnotify_def sdu_consts)
    ultimately show ?thesis using rx by simp
  next
    case False
    then have n: "out_slots q \<noteq> []" "\<not> bit (transmitting s) 1" "xs \<noteq> []" using xs(1) by auto
    note st = start_head [OF _ _ q(1,3) n(1) _ n(2)]
    have "outgoing s @ bs = out_stream q" using n(2) assms(4) by (simp add: outgoing_def tx_cnt_def)
    moreover have "link_base s" "rx_ok s" using assms(1) by (simp_all add: link_inv_def)
    moreover from this have "out_notified q s = usbStartTransmitI 1 (B_OB (bq_brdptr q)) (fst (bq_slots q ! bq_brdptr q)) (upd_ob q s)"
      using n xs(2) i st(1) assms(2) by (auto simp: out_notified_def obnotify_def sdu_consts case_prod_unfold)
    ultimately show ?thesis using st assms(2) by simp
  qed
qed

section \<open>Readers\<close>

text \<open>A reader gives back buffers at the front, exactly when it notifies; it does not write to them.\<close>

definition in_shrinks :: "bqueue \<Rightarrow> bqueue \<Rightarrow> bool" where
  "in_shrinks q q' \<longleftrightarrow> in_inv q' \<and> bq_slots q' = bq_slots q \<and> bq_bwrptr q' = bq_bwrptr q \<and> bq_bsize q' = bq_bsize q \<and>
     (if bq_notified q' = bq_notified q then bq_bcounter q' = bq_bcounter q else bq_bcounter q' < bq_bcounter q)"

lemma ibq_take_shrinks:
  assumes "in_inv q" and "bq_ptr q = Some p" and "0 < c" and "p + c \<le> bq_top q" and "thd_ctx k"
  shows "\<exists>q'. ibq_take c q k = Ok (take c (in_stream q), q') \<and> in_shrinks q q' \<and> in_stream q = take c (in_stream q) @ in_stream q'"
proof -
  obtain q' where q: "ibq_take c q k = Ok (take c (in_stream q), q')" "in_inv q'" "in_stream q' = drop c (in_stream q)"
    using ibq_take_ok [OF assms] by metis
  have "bq_bcounter q > 0" using assms(1,2) by (simp add: in_inv_def)
  then have "in_shrinks q q'" using q(1,2) assms(2,5)
    by (auto simp: in_shrinks_def ibq_take_def Let_def ibqReleaseEmptyBufferS_def ibqIsEmptyI_def bqSpaceI_def bq_notify_def split: if_splits)
  then show ?thesis using q by simp
qed

lemma get_full_shrinks:
  assumes "in_inv q" and "bq_ptr q = None" and "bq_bcounter q > 0" and "thd_ctx k"
  shows "\<exists>q'. ibqGetFullBufferTimeoutS timeout q k = Ok (Returned MSG_OK, q', k) \<and> in_shrinks q q' \<and> in_stream q' = in_stream q"
proof -
  obtain q' where q: "ibq_acquire timeout q k = Ok (Returned MSG_OK, q', k)" "in_inv q'" "in_stream q' = in_stream q"
    using ibq_acquire_ok [OF assms(1-3)] by metis
  then have "in_shrinks q q'" using assms(3) by (auto simp: in_shrinks_def ibq_acquire_def ibqIsEmptyI_def bqSpaceI_def)
  then show ?thesis using q assms(4) by (simp add: ibqGetFullBufferTimeoutS_def)
qed

text \<open>\<open>sdu_start_receive\<close> arms the endpoint, if it is not armed and a buffer is free.\<close>

lemma start_receive_ok:
  assumes "link_base s" and "tx_ok s" and "i_ctx (usb_k s)" and "bit (receiving s) 1 \<Longrightarrow> rx_ok s"
  shows "\<exists>r s'. sdu_start_receive s = Ok (r, s') \<and> link_inv s' \<and> outgoing s' = outgoing s \<and> incoming s' = incoming s \<and> sent s' = sent s \<and>
    usb_k s' = usb_k s"
proof -
  note i = assms(1) [unfolded link_base_def]
  let ?q = "ibqueue (sdu s)"
  have full: "ibqIsFullI ?q \<longleftrightarrow> bq_bcounter ?q = length (bq_slots ?q)" "bq_bcounter ?q \<le> length (bq_slots ?q)"
    using i ibqIsFullI_iff by (simp_all add: in_inv_def bq_ok_def)
  show ?thesis
  proof (cases "bit (receiving s) 1 \<or> bq_bcounter ?q = length (bq_slots ?q)")
    case True
    then have "sdu_start_receive s = Ok (True, s)" using i assms(3) full by (auto simp: sdu_start_receive_def sdu_consts ibqGetEmptyBufferI_def)
    moreover have "rx_ok s" using assms(4) True by (auto simp: rx_ok_def Let_def)
    ultimately show ?thesis using assms(1,2) by (auto simp: link_inv_def)
  next
    case False
    let ?s = "lld_log (L_start_out 1 256) (s\<lparr>receiving := flag_on 1 (receiving s),
      ep_states := (ep_states s)(EP1_OUT := \<lparr>es_size = 256, es_cnt = 0, es_buf = (B_IB (bq_bwrptr ?q), 0), es_tot = 256\<rparr>)\<rparr>)"
    have "sdu_start_receive s = Ok (False, ?s)" using i assms(3) full False
      by (simp add: sdu_start_receive_def sdu_consts ibqGetEmptyBufferI_def StartReceive_eq [where c = ep1config and r = EP1_OUT] first_part_def)
    moreover have "link_inv ?s" using i assms(2) False full(2) by (simp add: link_defs tx_ok_def rx_ok_def)
    moreover have "outgoing ?s = outgoing s" "incoming ?s = incoming s" "sent ?s = sent s"
      using False by (simp_all add: outgoing_def tx_cnt_def incoming_def sent_def)
    ultimately show ?thesis by auto
  qed
qed

lemma in_notified_ok:
  assumes "link_inv s" and "thd_ctx (usb_k s)" and "in_shrinks (ibqueue (sdu s)) q" and "in_stream (ibqueue (sdu s)) = bs @ in_stream q"
  shows "\<exists>s'. in_notified q s = Ok s' \<and> link_inv s' \<and> outgoing s' = outgoing s \<and> incoming s = bs @ incoming s' \<and> sent s' = sent s"
proof -
  let ?q = "ibqueue (sdu s)" let ?s = "upd_ib q s"
  note i = assms(1) [unfolded link_defs] and sh = assms(3) [unfolded in_shrinks_def]
  have base: "link_base ?s" "tx_ok ?s" using i sh by (simp_all add: link_base_def tx_ok_def)
  have fr: "outgoing ?s = outgoing s" "sent ?s = sent s" by (simp_all add: outgoing_def tx_cnt_def sent_def)
  have inc: "incoming s = bs @ incoming ?s" using sh assms(4) by (simp add: incoming_def)
  have le: "bq_bcounter ?q \<le> length (bq_slots ?q)" "bq_bcounter q \<le> bq_bcounter ?q" using i sh by (auto simp: in_inv_def bq_ok_def split: if_splits)
  have rx: "bit (receiving s) 1 \<Longrightarrow> rx_ok ?s" using i sh le by (auto simp: rx_ok_def Let_def)
  show ?thesis
  proof (cases "bq_notified q = bq_notified ?q")
    case True
    then have "rx_ok ?s" using i sh by (simp add: rx_ok_def Let_def)
    then show ?thesis using True base fr inc by (simp add: in_notified_def link_inv_def)
  next
    case False
    obtain r s' where "sdu_start_receive ?s = Ok (r, s')" "link_inv s'" "outgoing s' = outgoing s" "incoming s' = incoming ?s" "sent s' = sent s"
      using start_receive_ok [OF base] rx assms(2) fr by auto
    then show ?thesis using False inc by (auto simp: in_notified_def ibnotify_def)
  qed
qed

section \<open>Interrupts\<close>

text \<open>The context of the interrupts: the threads in the queues of the driver wait there.\<close>

definition link_irq :: "usbsys \<Rightarrow> bool" where
  "link_irq s \<longleftrightarrow> irq (usb_k s) \<and> sched_inv (usb_k s) \<and>
     (\<forall>q\<in>{ibqueue (sdu s), obqueue (sdu s)}. \<forall>t\<in>set (queues (usb_k s) (TQ (bq_waiting q))). state_of (usb_k s) t = CH_STATE_QUEUED)"

text \<open>Filling the FIFO moves bytes from the front of what is outgoing.\<close>

lemma txfifo_ok:
  assumes "link_inv s" and "bit (transmitting s) 1"
  shows "\<exists>r s'. otg_txfifo_handler 1 spaces s = Ok (r, s') \<and> link_inv s' \<and> bit (transmitting s') 1 \<and> incoming s' = incoming s \<and>
    sent s' @ outgoing s' = sent s @ outgoing s \<and> length (outgoing s') \<le> length (outgoing s) \<and>
    (tx_left s > 0 \<and> spaces \<noteq> [] \<and> 16 \<le> hd spaces \<longrightarrow> length (outgoing s') < length (outgoing s))"
  using assms
proof (induction spaces arbitrary: s)
  case Nil
  then have "epc s 1 = Some ep1config" by (simp add: link_defs)
  then show ?case using Nil by (subst otg_txfifo_handler.simps) (auto simp: Let_def)
next
  case (Cons sp spaces)
  note i = Cons(2) [unfolded link_defs] let ?e = "ep_states s EP1_IN" let ?o = "obqueue (sdu s)"
  show ?case
  proof (cases "es_cnt ?e < es_size ?e \<and> min 64 (es_size ?e - es_cnt ?e) \<le> sp * 4")
    case False
    have "otg_txfifo_handler 1 (sp # spaces) s = Ok (es_cnt ?e \<ge> es_size ?e, s)"
      using False i by (subst otg_txfifo_handler.simps) (auto simp: Let_def min_def split: if_splits)
    then show ?thesis using Cons(2,3) False by (auto simp: tx_left_def)
  next
    case True
    define n where "n = min 64 (es_size ?e - es_cnt ?e)"
    let ?s = "upd_es EP1_IN (\<lambda>e. e\<lparr>es_buf := (B_OB (bq_brdptr ?o), es_cnt ?e + n), es_cnt := es_cnt e + n\<rparr>)
      (lld_log (L_fifo 1 (take n (drop (es_cnt ?e) (buf_bytes s (B_OB (bq_brdptr ?o)))))) s)"
    have tx: "out_slots ?o \<noteq> []" "es_size ?e = fst (hd (out_slots ?o))" "es_buf ?e = (B_OB (bq_brdptr ?o), es_cnt ?e)" "es_size ?e = es_tot ?e"
      using i Cons(3) True by (auto simp: tx_ok_def Let_def)
    have h: "hd (out_slots ?o) = bq_slots ?o ! bq_brdptr ?o" "fst (hd (out_slots ?o)) \<le> length (snd (hd (out_slots ?o)))" 
      "out_stream ?o = slot_bytes (hd (out_slots ?o)) @ drop (fst (hd (out_slots ?o))) (out_stream ?o)"
    proof -
      have v: "out_inv ?o" using i by simp
      show "hd (out_slots ?o) = bq_slots ?o ! bq_brdptr ?o" "fst (hd (out_slots ?o)) \<le> length (snd (hd (out_slots ?o)))"
        using out_slots_hd [OF v tx(1)] by simp_all
      moreover have "bq_bcounter ?o < length (bq_slots ?o)" using out_slots_Nil [OF v] v tx(1) by (auto simp: out_inv_def out_ok_def bq_ok_def)
      ultimately show "out_stream ?o = slot_bytes (hd (out_slots ?o)) @ drop (fst (hd (out_slots ?o))) (out_stream ?o)"
        using obq_released_ok(2) [OF v] by (simp add: slot_bytes_def)
    qed
    have step: "otg_txfifo_handler 1 (sp # spaces) s = otg_txfifo_handler 1 spaces ?s"
      by (rule txfifo_step [where c = ep1config]) (use i True tx(3) in \<open>auto simp: n_def\<close>)
    have n: "es_cnt ?e + n \<le> es_size ?e" using True by (auto simp: n_def min_def)
    have inv: "link_inv ?s" using i tx n Cons(3) by (auto simp: link_defs tx_ok_def rx_ok_def Let_def)
    have "take n (drop (es_cnt ?e) (snd (bq_slots ?o ! bq_brdptr ?o))) = take n (drop (es_cnt ?e) (out_stream ?o))"
    proof -
      have "take n (drop (es_cnt ?e) (out_stream ?o)) = take n (drop (es_cnt ?e) (slot_bytes (hd (out_slots ?o))))"
        using n h(2) tx(2) by (subst h(3)) (simp add: slot_bytes_def)
      then show ?thesis using n tx(2) h(1) by (simp add: slot_bytes_def drop_take min_def)
    qed
    then have fifo: "sent ?s = sent s @ take n (outgoing s)" using Cons(3) by (simp add: sent_def outgoing_def tx_cnt_def buf_bytes_def)
    have "outgoing ?s = drop n (outgoing s)" using Cons(3) by (simp add: outgoing_def tx_cnt_def add.commute)
    moreover have "outgoing s \<noteq> []" using Cons(3) True out_slots_hd(2) [of ?o] i tx by (simp add: outgoing_def tx_cnt_def)
    ultimately have st: "sent ?s @ outgoing ?s = sent s @ outgoing s" "incoming ?s = incoming s" "length (outgoing ?s) < length (outgoing s)"
      using fifo True by (simp_all add: incoming_def n_def)
    have "bit (transmitting ?s) 1" using Cons(3) by simp
    from Cons(1) [OF inv this] show ?thesis unfolding step st(1,2) using st(3) by (meson le_less_trans less_imp_le)
  qed
qed

text \<open>The kernel is not part of the link.\<close>

lemma link_k [simp]:
  "link_base (s\<lparr>usb_k := k\<rparr>) = link_base s" "tx_ok (s\<lparr>usb_k := k\<rparr>) = tx_ok s" "rx_ok (s\<lparr>usb_k := k\<rparr>) = rx_ok s"
  "link_inv (s\<lparr>usb_k := k\<rparr>) = link_inv s" "tx_left (s\<lparr>usb_k := k\<rparr>) = tx_left s" "outgoing (s\<lparr>usb_k := k\<rparr>) = outgoing s" "incoming (s\<lparr>usb_k := k\<rparr>) = incoming s"
  "sent (s\<lparr>usb_k := k\<rparr>) = sent s"
  by (simp_all add: link_defs tx_ok_def rx_ok_def outgoing_def tx_cnt_def tx_left_def incoming_def sent_def)

lemma isr_locked_ok:
  assumes "irq (usb_k s)" and "f (s\<lparr>usb_k := (usb_k s)\<lparr>lock_cnt := 1\<rparr>\<rparr>) = Ok s'"
    and "isr_cnt (usb_k s') = isr_cnt (usb_k s)" and "lock_cnt (usb_k s') = 1"
  shows "isr_locked f s = Ok (s'\<lparr>usb_k := (usb_k s')\<lparr>lock_cnt := 0\<rparr>\<rparr>)"
  using assms by (simp add: isr_locked_eq irq_def)

text \<open>The buffer that has been sent is given back, if it was not a packet of size zero.\<close>

lemma sent_release:
  assumes "link_base s" and "i_ctx (usb_k s)" and "sched_inv (usb_k s)"
    and "\<forall>t\<in>set (queues (usb_k s) (TQ (bq_waiting (obqueue (sdu s))))). state_of (usb_k s) t = CH_STATE_QUEUED"
    and "n > 0 \<Longrightarrow> out_slots (obqueue (sdu s)) \<noteq> [] \<and> n = fst (hd (out_slots (obqueue (sdu s))))"
  shows "\<exists>q k. (if n > 0 then kbind (obqReleaseEmptyBufferI (obqueue (sdu s)) (usb_k s)) (\<lambda>(q, k). Ok ((upd_ob q s)\<lparr>usb_k := k\<rparr>)) else Ok s) =
      Ok ((upd_ob q s)\<lparr>usb_k := k\<rparr>) \<and> i_ctx k \<and> out_inv q \<and> bq_bsize q = 260 \<and> out_stream q = drop n (out_stream (obqueue (sdu s))) \<and>
      isr_cnt k = isr_cnt (usb_k s) \<and> lock_cnt k = lock_cnt (usb_k s)"
proof (cases "n > 0")
  case True
  let ?o = "obqueue (sdu s)"
  have v: "out_inv ?o" "bq_bsize ?o = 260" using assms(1) by (simp_all add: link_base_def)
  have c: "bq_bcounter ?o < length (bq_slots ?o)" "n = fst (bq_slots ?o ! bq_brdptr ?o)"
    using out_slots_Nil [OF v(1)] out_slots_hd(1) [OF v(1)] v assms(5) [OF True] by (auto simp: out_inv_def out_ok_def bq_ok_def)
  note r = obq_released_ok [OF v(1) c(1)]
  have "out_stream (obq_released ?o) = drop n (out_stream ?o)" using r(2,4) c(2) by (simp add: slot_bytes_def)
  moreover have "bq_bsize (obq_released ?o) = 260" using v by (simp add: obq_released_def)
  ultimately show ?thesis using True r(1) obqRelease_eq [OF v(1) c(1) assms(3,2,4)] assms(2)
    by (intro exI [of _ "obq_released ?o"] exI [of _ "dequeued (TQ (bq_waiting ?o)) MSG_OK (usb_k s)"]) simp
next
  case False
  then show ?thesis using assms(1,2) by (intro exI [of _ "obqueue (sdu s)"] exI [of _ "usb_k s"]) (simp add: link_base_def)
qed

lemma transmitted_ok:
  assumes "link_base s" and "rx_ok s" and "\<not> bit (transmitting s) 1" and "i_ctx (usb_k s)" and "sched_inv (usb_k s)"
    and "\<forall>t\<in>set (queues (usb_k s) (TQ (bq_waiting (obqueue (sdu s))))). state_of (usb_k s) t = CH_STATE_QUEUED"
    and "n = es_size (ep_states s EP1_IN)" and "n > 0 \<Longrightarrow> out_slots (obqueue (sdu s)) \<noteq> [] \<and> n = fst (hd (out_slots (obqueue (sdu s))))"
  shows "\<exists>s'. sduDataTransmitted_body 1 ep1config EP1_IN s = Ok s' \<and> link_inv s' \<and> outgoing s' = drop n (out_stream (obqueue (sdu s))) \<and>
    incoming s' = incoming s \<and> sent s' = sent s \<and> isr_cnt (usb_k s') = isr_cnt (usb_k s) \<and> lock_cnt (usb_k s') = lock_cnt (usb_k s) \<and>
    (bit (transmitting s') 1 \<and> tx_left s' = 0 \<longrightarrow> n > 0 \<and> es_size (ep_states s' EP1_IN) = 0)"
proof -
  obtain q k where r: "(if n > 0 then kbind (obqReleaseEmptyBufferI (obqueue (sdu s)) (usb_k s)) (\<lambda>(q, k). Ok ((upd_ob q s)\<lparr>usb_k := k\<rparr>)) else Ok s) =
      Ok ((upd_ob q s)\<lparr>usb_k := k\<rparr>)" "i_ctx k" "out_inv q" "bq_bsize q = 260" "out_stream q = drop n (out_stream (obqueue (sdu s)))"
      "isr_cnt k = isr_cnt (usb_k s)" "lock_cnt k = lock_cnt (usb_k s)"
    using sent_release [OF assms(1,4,5,6), of n] assms(8) by blast
  let ?s = "(upd_ob q s)\<lparr>usb_k := k\<rparr>"
  have body: "sduDataTransmitted_body 1 ep1config EP1_IN s = kbind (obqGetFullBufferI q k) (\<lambda>buf.
     case buf of Some (n, d) \<Rightarrow> usbStartTransmitI 1 (B_OB (bq_brdptr q)) n ?s
     | None \<Rightarrow> if n > 0 \<and> (of_nat n :: u32) AND (of_nat (in_maxsize ep1config) - 1) = 0 then usbStartTransmitI 1 B_SETUP 0 ?s else Ok ?s)"
    using r(1) assms(4) unfolding sduDataTransmitted_body_def chnAddFlagsI_def assms(7) by (simp add: Let_def)
  have b: "link_base ?s" "rx_ok ?s" "epc ?s 1 = Some ep1config" "\<not> bit (transmitting ?s) 1" "i_ctx (usb_k ?s)"
    using assms(1-3) r(2-4) by (simp_all add: link_base_def rx_ok_def Let_def)
  have fr: "incoming ?s = incoming s" "sent ?s = sent s" "upd_ob q ?s = ?s" by (simp_all add: incoming_def sent_def)
  show ?thesis
  proof (cases "out_slots q = []")
    case False
    note st = start_head [OF b(1,2) r(3,4) False b(5,4)]
    have "sduDataTransmitted_body 1 ep1config EP1_IN s = usbStartTransmitI 1 (B_OB (bq_brdptr q)) (fst (bq_slots q ! bq_brdptr q)) (upd_ob q ?s)"
      unfolding body fr(3) using st(1) by (simp add: case_prod_unfold)
    then show ?thesis using st(2-8) r(5-7) unfolding fr by simp
  next
    case True
    let ?z = "lld_log (L_start_in 1 0) (?s\<lparr>transmitting := flag_on 1 (transmitting ?s),
      ep_states := (ep_states ?s)(EP1_IN := \<lparr>es_size = 0, es_cnt = 0, es_buf = (B_SETUP, 0), es_tot = 0\<rparr>)\<rparr>)"
    have "obqGetFullBufferI q k = Ok None" using obqGetFull_eq [OF r(3,2)] True out_slots_Nil [OF r(3)] by simp
    moreover have "usbStartTransmitI 1 B_SETUP 0 ?s = Ok ?z" using StartTransmit_eq [OF b(5) _ b(4,3), of EP1_IN B_SETUP 0] by (simp add: first_part_def)
    moreover have "link_inv ?s" "link_inv ?z" using b True by (simp_all add: link_defs tx_ok_def rx_ok_def Let_def)
    moreover have "outgoing ?s = out_stream q" "outgoing ?z = out_stream q" "incoming ?z = incoming s" "sent ?z = sent s"
      using b(4) by (simp_all add: outgoing_def tx_cnt_def incoming_def sent_def)
    ultimately show ?thesis unfolding body using r(5-7) fr b(4) by auto
  qed
qed

lemma in_complete_ok:
  assumes "link_inv s" and "link_irq s" and "bit (transmitting s) 1" and "es_cnt (ep_states s EP1_IN) = es_size (ep_states s EP1_IN)"
  shows "\<exists>s'. otg_epin_handler hw True False [] 1 s = Ok s' \<and> link_inv s' \<and> outgoing s' = outgoing s \<and> incoming s' = incoming s \<and> sent s' = sent s \<and>
    (bit (transmitting s') 1 \<and> tx_left s' = 0 \<longrightarrow> es_size (ep_states s EP1_IN) > 0 \<and> es_size (ep_states s' EP1_IN) = 0)"
proof -
  note i = assms(1) [unfolded link_defs] and k = assms(2) [unfolded link_irq_def]
  let ?n = "es_size (ep_states s EP1_IN)"
  let ?o = "s\<lparr>transmitting := flag_off 1 (transmitting s)\<rparr>" let ?s = "?o\<lparr>usb_k := (usb_k s)\<lparr>lock_cnt := 1\<rparr>\<rparr>"
  have tx: "?n = es_tot (ep_states s EP1_IN)" "?n > 0 \<Longrightarrow> out_slots (obqueue (sdu s)) \<noteq> [] \<and> ?n = fst (hd (out_slots (obqueue (sdu s))))"
    using i assms(3) by (auto simp: tx_ok_def Let_def)
  have b: "link_base ?s" "rx_ok ?s" "i_ctx (usb_k ?s)" "sched_inv (usb_k ?s)" using i k irq_lock(2) by (simp_all add: link_base_def rx_ok_def Let_def)
  obtain s' where s': "sduDataTransmitted_body 1 ep1config EP1_IN ?s = Ok s'" "link_inv s'" "outgoing s' = drop ?n (out_stream (obqueue (sdu s)))"
    "incoming s' = incoming ?s" "sent s' = sent ?s" "isr_cnt (usb_k s') = isr_cnt (usb_k s)" "lock_cnt (usb_k s') = 1"
    "bit (transmitting s') 1 \<and> tx_left s' = 0 \<longrightarrow> ?n > 0 \<and> es_size (ep_states s' EP1_IN) = 0"
    using transmitted_ok [OF b(1,2) _ b(3,4), of ?n] tx(2) k by auto
  have "irq (usb_k ?o)" using k by simp
  from isr_locked_ok [OF this, where f = "sduDataTransmitted_body 1 ep1config EP1_IN" and s' = s']
  have "isr_locked (sduDataTransmitted_body 1 ep1config EP1_IN) ?o = Ok (s'\<lparr>usb_k := (usb_k s')\<lparr>lock_cnt := 0\<rparr>\<rparr>)"
    using s'(1,6,7) by simp
  then have "otg_epin_handler hw True False [] 1 s = Ok (s'\<lparr>usb_k := (usb_k s')\<lparr>lock_cnt := 0\<rparr>\<rparr>)"
    using i tx(1) by (simp add: otg_epin_handler_def otg_epin_xfrc_def Let_def isr_invoke_in_cb_def call_ep_def sduDataTransmitted_def)
  moreover have "outgoing s = drop ?n (out_stream (obqueue (sdu s)))" using assms(3,4) by (simp add: outgoing_def tx_cnt_def)
  moreover have "incoming ?s = incoming s" "sent ?s = sent s" by (simp_all add: incoming_def sent_def)
  ultimately show ?thesis using s' by simp
qed

text \<open>The bytes of a packet are written behind those of the transaction, into a buffer that no reader sees.\<close>

lemma fill_buffer:
  assumes inv: "in_inv q" and c: "bq_bcounter q < length (bq_slots q)" and n: "off + length bs \<le> bq_bsize q - 4"
  defines "w \<equiv> bq_bwrptr q"
  defines "q' \<equiv> q\<lparr>bq_slots := (bq_slots q)[w := (fst (bq_slots q ! w), overwrite off bs (snd (bq_slots q ! w)))]\<rparr>"
  shows "in_inv q'" and "in_stream q' = in_stream q" and "length (snd (bq_slots q ! w)) = bq_bsize q - 4"
    and "take (off + length bs) (snd (bq_slots q' ! w)) = take off (snd (bq_slots q ! w)) @ bs"
proof -
  let ?d = "snd (bq_slots q ! w)"
  have i: "bq_ok q" "w = (bq_brdptr q + bq_bcounter q) mod length (bq_slots q)" using inv by (simp_all add: in_inv_def w_def)
  have w: "w < length (bq_slots q)" unfolding i(2) using c by (intro mod_less_divisor) auto
  show l: "length ?d = bq_bsize q - 4" using i(1) w by (simp add: bq_ok_def)
  then have lo: "length (overwrite off bs ?d) = bq_bsize q - 4" using n by (simp add: overwrite_def)
  have s: "in_slots q' = in_slots q" unfolding in_slots_def q'_def by (simp add: i(2) ring_items_free [OF c])
  have "fst (bq_slots q' ! bq_brdptr q) = fst (bq_slots q ! bq_brdptr q)" using w by (simp add: q'_def nth_list_update)
  moreover have "bq_ok q'" using i(1) lo w by (auto simp: bq_ok_def q'_def dest!: set_update_subset_insert [THEN subsetD])
  ultimately show "in_inv q'" using inv unfolding in_inv_def s by (auto simp: q'_def slot_ok_def split: option.splits)
  show "in_stream q' = in_stream q" unfolding in_stream_def s by (simp add: q'_def)
  show "take (off + length bs) (snd (bq_slots q' ! w)) = take off ?d @ bs" using w l n by (simp add: q'_def overwrite_def)
qed

lemma packet_ok:
  assumes "link_inv s" and "bit (receiving s) 1" and "es_cnt (ep_states s EP1_OUT) + length bs \<le> 256"
  shows "\<exists>s'. otg_rxfifo_out 1 bs s = Ok s' \<and> link_inv s' \<and> outgoing s' = outgoing s \<and> incoming s' = incoming s @ bs \<and> sent s' = sent s"
proof -
  note i = assms(1) [unfolded link_defs]
  let ?e = "ep_states s EP1_OUT" let ?q = "ibqueue (sdu s)" let ?w = "bq_bwrptr ?q" let ?n = "es_cnt ?e"
  have rx: "bq_bcounter ?q < length (bq_slots ?q)" "es_size ?e = 256" "es_tot ?e = 256" "?n \<le> 256" "es_buf ?e = (B_IB ?w, ?n)"
    using i assms(2) by (simp_all add: rx_ok_def Let_def)
  define q where "q = ?q\<lparr>bq_slots := (bq_slots ?q)[?w := (fst (bq_slots ?q ! ?w), overwrite ?n bs (snd (bq_slots ?q ! ?w)))]\<rparr>"
  have f: "in_inv q" "in_stream q = in_stream ?q" "length (snd (bq_slots ?q ! ?w)) = 256"
    "take (?n + length bs) (snd (bq_slots q ! ?w)) = take ?n (snd (bq_slots ?q ! ?w)) @ bs"
    using fill_buffer [of ?q ?n bs] i rx(1) assms(3) by (simp_all add: q_def)
  have "unat (of_nat 256 - of_nat ?n :: u32) = 256 - ?n"
  proof -
    have "(of_nat 256 - of_nat ?n :: u32) = of_nat (256 - ?n)" using rx(4) by (simp add: of_nat_diff)
    then show ?thesis by (simp only: unat_of_nat) simp
  qed
  then have room: "take (unat (of_nat (es_size ?e) - of_nat ?n :: u32)) bs = bs" using assms(3) rx(2) by simp
  let ?s = "upd_es EP1_OUT (\<lambda>e. e\<lparr>es_buf := (B_IB ?w, ?n + length bs), es_cnt := es_cnt e + length bs\<rparr>) (upd_ib q s)"
  have "buf_write (B_IB ?w) ?n bs s = Ok (upd_ib q s)"
  proof (cases "bs = []")
    case True
    have "q = ?q" using True by (simp add: q_def overwrite_def)
    then show ?thesis using True by (simp add: buf_write_def)
  next
    case False
    then show ?thesis using f(3) assms(3) by (simp add: buf_write_def buf_bytes_def case_prod_unfold q_def Let_def)
  qed
  then have "otg_rxfifo_out 1 bs s = Ok ?s" using i rx(5) room by (simp add: otg_rxfifo_out_def Let_def)
  moreover have "tx_ok ?s" using assms(1) by (simp add: link_inv_def tx_ok_def)
  moreover have "rx_ok ?s" using rx assms(2,3) by (simp add: rx_ok_def Let_def) (simp add: q_def)
  moreover have "link_base ?s" using i f(1) by (simp add: link_base_def) (simp add: q_def)
  moreover have "bq_bwrptr q = ?w" by (simp add: q_def)
  then have "incoming ?s = incoming s @ bs" using f(2,4) assms(2) by (simp add: incoming_def)
  moreover have "outgoing ?s = outgoing s" "sent ?s = sent s" by (simp_all add: outgoing_def tx_cnt_def sent_def)
  ultimately show ?thesis unfolding link_inv_def by blast
qed

text \<open>A reception is complete: the buffer is posted if it holds anything, and the next one is armed.\<close>

lemma received_ok:
  assumes "link_base s" and "tx_ok s" and "\<not> bit (receiving s) 1" and "i_ctx (usb_k s)" and "sched_inv (usb_k s)"
    and "\<forall>t\<in>set (queues (usb_k s) (TQ (bq_waiting (ibqueue (sdu s))))). state_of (usb_k s) t = CH_STATE_QUEUED"
    and "n = es_cnt (ep_states s EP1_OUT)" and "n \<le> 256" and "bq_bcounter (ibqueue (sdu s)) < length (bq_slots (ibqueue (sdu s)))"
  shows "\<exists>s'. sduDataReceived_body s = Ok s' \<and> link_inv s' \<and> outgoing s' = outgoing s \<and>
    incoming s' = in_stream (ibqueue (sdu s)) @ take n (snd (bq_slots (ibqueue (sdu s)) ! bq_bwrptr (ibqueue (sdu s)))) \<and> sent s' = sent s \<and>
    isr_cnt (usb_k s') = isr_cnt (usb_k s) \<and> lock_cnt (usb_k s') = lock_cnt (usb_k s)"
proof -
  let ?q = "ibqueue (sdu s)"
  define q where "q = (if n > 0 then ibq_posted n ?q else ?q)"
  define k where "k = (if n > 0 then dequeued (TQ (bq_waiting ?q)) MSG_OK (usb_k s) else usb_k s)"
  let ?s = "(upd_ib q s)\<lparr>usb_k := k\<rparr>"
  note b = assms(1) [unfolded link_base_def]
  have k: "i_ctx k" "isr_cnt k = isr_cnt (usb_k s)" "lock_cnt k = lock_cnt (usb_k s)" using assms(4) by (simp_all add: k_def)
  have q: "in_inv q" "in_stream q = in_stream ?q @ take n (snd (bq_slots ?q ! bq_bwrptr ?q))" "bq_bsize q = 260"
    using ibq_posted_ok [of ?q n] assms(8,9) b by (simp_all add: q_def ibq_posted_def)
  have base: "link_base ?s" "tx_ok ?s" "\<not> bit (receiving ?s) 1" using b q assms(2,3) by (simp_all add: link_base_def tx_ok_def Let_def)
  obtain r s' where s': "sdu_start_receive ?s = Ok (r, s')" "link_inv s'" "outgoing s' = outgoing ?s" "incoming s' = incoming ?s" "sent s' = sent ?s"
    "usb_k s' = k" using start_receive_ok [OF base(1,2)] base(3) k(1) by auto
  have po: "n > 0 \<Longrightarrow> ibqPostFullBufferI n ?q (usb_k s) = Ok (q, k)"
    using ibqPostFullBufferI_eq [of ?q n "usb_k s"] b assms(4-6,8,9) by (simp add: q_def k_def)
  have "sduDataReceived_body s = kbind (if n > 0
      then kbind (chnAddFlagsI s) (\<lambda>s. kbind (ibqPostFullBufferI n (ibqueue (sdu s)) (usb_k s)) (\<lambda>(q, k). Ok ((upd_ib q s)\<lparr>usb_k := k\<rparr>)))
      else Ok s) (\<lambda>s. kbind (sdu_start_receive s) (\<lambda>(r, s). Ok s))"
    using b unfolding assms(7) by (simp add: sduDataReceived_body_def USBD1_DATA_AVAILABLE_EP_def Let_def)
  also have "\<dots> = kbind (sdu_start_receive ?s) (\<lambda>(r, s). Ok s)"
    using po assms(4) by (cases "n > 0") (simp_all add: chnAddFlagsI_def, simp add: q_def k_def)
  finally have "sduDataReceived_body s = Ok s'" using s'(1) by simp
  moreover have "outgoing ?s = outgoing s" "sent ?s = sent s" "incoming ?s = in_stream q"
    using base(3) by (simp_all add: outgoing_def tx_cnt_def sent_def incoming_def)
  ultimately show ?thesis using s' k q(2) by simp
qed

lemma out_complete_ok:
  assumes "link_inv s" and "link_irq s" and "bit (receiving s) 1"
  shows "\<exists>s'. otg_epout_handler hw False True 1 s = Ok s' \<and> link_inv s' \<and> outgoing s' = outgoing s \<and> incoming s' = incoming s \<and> sent s' = sent s"
proof -
  note i = assms(1) [unfolded link_defs] and k = assms(2) [unfolded link_irq_def]
  let ?n = "es_cnt (ep_states s EP1_OUT)"
  let ?o = "s\<lparr>receiving := flag_off 1 (receiving s)\<rparr>" let ?s = "?o\<lparr>usb_k := (usb_k s)\<lparr>lock_cnt := 1\<rparr>\<rparr>"
  have rx: "?n \<le> 256" "bq_bcounter (ibqueue (sdu s)) < length (bq_slots (ibqueue (sdu s)))" using i assms(3) by (simp_all add: rx_ok_def Let_def)
  have b: "link_base ?s" "tx_ok ?s" "\<not> bit (receiving ?s) 1" "i_ctx (usb_k ?s)" "sched_inv (usb_k ?s)"
    using assms(1) i k irq_lock(2) by (simp_all add: link_base_def) (simp add: link_inv_def tx_ok_def)
  obtain s' where s': "sduDataReceived_body ?s = Ok s'" "link_inv s'" "outgoing s' = outgoing ?s"
    "incoming s' = in_stream (ibqueue (sdu s)) @ take ?n (snd (bq_slots (ibqueue (sdu s)) ! bq_bwrptr (ibqueue (sdu s))))"
    "sent s' = sent ?s" "isr_cnt (usb_k s') = isr_cnt (usb_k s)" "lock_cnt (usb_k s') = 1"
    using received_ok [OF b, of ?n] rx k by auto
  have "irq (usb_k ?o)" using k by simp
  from isr_locked_ok [OF this, where f = sduDataReceived_body and s' = s']
  have "isr_locked sduDataReceived_body ?o = Ok (s'\<lparr>usb_k := (usb_k s')\<lparr>lock_cnt := 0\<rparr>\<rparr>)" using s'(1,6,7) by simp
  then have "otg_epout_handler hw False True 1 s = Ok (s'\<lparr>usb_k := (usb_k s')\<lparr>lock_cnt := 0\<rparr>\<rparr>)"
    using i by (simp add: otg_epout_handler_def otg_epout_xfrc_def Let_def isr_invoke_out_cb_def call_ep_def sduDataReceived_def)
  moreover have "outgoing ?s = outgoing s" "sent ?s = sent s" by (simp_all add: outgoing_def tx_cnt_def sent_def)
  moreover have "incoming s' = incoming s" unfolding s'(4) using assms(3) by (simp add: incoming_def)
  ultimately show ?thesis using s' by simp
qed

text \<open>The start of a frame: a buffer that is filled in part is sent if nothing else is.\<close>

lemma sof_ok:
  assumes "link_inv s" and "irq (usb_k s)"
  shows "\<exists>s'. sof_handler s = Ok s' \<and> link_inv s' \<and> outgoing s' = outgoing s \<and> incoming s' = incoming s \<and> sent s' = sent s \<and>
    (outgoing s \<noteq> [] \<and> \<not> bit (transmitting s) 1 \<longrightarrow> bit (transmitting s') 1 \<and> tx_left s' > 0)"
proof -
  note i = assms(1) [unfolded link_defs]
  let ?s = "s\<lparr>usb_k := (usb_k s)\<lparr>lock_cnt := 1\<rparr>\<rparr>" let ?o = "obqueue (sdu s)"
  have c: "i_ctx (usb_k ?s)" using irq_lock(2) [OF assms(2)] by simp
  have "\<exists>s'. sduSOFHookI ?s = Ok s' \<and> link_inv s' \<and> outgoing s' = outgoing s \<and> incoming s' = incoming s \<and> sent s' = sent s \<and>
    (outgoing s \<noteq> [] \<and> \<not> bit (transmitting s) 1 \<longrightarrow> bit (transmitting s') 1 \<and> tx_left s' > 0) \<and> usb_k s' = usb_k ?s"
  proof (cases "\<not> bit (transmitting s) 1 \<and> (\<exists>p. bq_ptr ?o = Some p \<and> p > 0)")
    case False
    have fl: "sduSOFHookI ?s = Ok ?s" using False i c by (auto simp: sduSOFHookI_def sdu_consts obqTryFlushI_def split: option.split)
    moreover have "out_slots ?o = []" if "\<not> bit (transmitting s) 1" using i that by (simp add: tx_ok_def)
    then have "outgoing s = []" if "\<not> bit (transmitting s) 1" using False that
      by (auto simp: outgoing_def out_stream_def split: option.split)
    ultimately show ?thesis using assms(1) by auto
  next
    case True
    then obtain p where p: "\<not> bit (transmitting s) 1" "bq_ptr ?o = Some p" "p > 0" by blast
    have o: "out_ok ?o" "bq_bcounter ?o > 0" "p < 256" "out_slots ?o = []" using i p by (auto simp: out_inv_def tx_ok_def)
    let ?q = "obq_post p ?o"
    have q: "out_inv ?q" "out_stream ?q = out_stream ?o" "bq_bsize ?q = 260" "out_slots ?q \<noteq> []"
      using obq_post_ok(1,2) [OF o(1,2) p(3)] o(3) p(2) i obq_post_slots [OF o(1,2), of p] by (simp_all add: out_stream_def)
    have "obqIsEmptyI ?o" using obqIsEmptyI_iff [OF o(1)] out_slots_Nil [of ?o] o(4) i by simp
    then have tf: "obqTryFlushI ?o (usb_k ?s) = Ok (True, ?q)" using c p by (simp add: obqTryFlushI_def)
    have b: "link_base ?s" "rx_ok ?s" "\<not> bit (transmitting ?s) 1" using assms(1) p(1) by (simp_all add: link_inv_def)
    note st = start_head [OF b(1,2) q(1,3,4) c b(3)]
    have "sduSOFHookI ?s = usbStartTransmitI 1 (B_OB (bq_brdptr ?q)) (fst (bq_slots ?q ! bq_brdptr ?q)) (upd_ob ?q ?s)"
      using i p(1) tf st(1) by (simp add: sduSOFHookI_def sdu_consts case_prod_unfold)
    moreover have "outgoing s = out_stream ?q" using p(1) q(2) by (simp add: outgoing_def tx_cnt_def)
    ultimately show ?thesis using st(2-8) by simp
  qed
  then obtain s' where s': "sduSOFHookI ?s = Ok s'" "link_inv s'" "outgoing s' = outgoing s" "incoming s' = incoming s" "sent s' = sent s"
    "outgoing s \<noteq> [] \<and> \<not> bit (transmitting s) 1 \<longrightarrow> bit (transmitting s') 1 \<and> tx_left s' > 0" "usb_k s' = usb_k ?s" by blast
  have "sof_handler s = Ok (s'\<lparr>usb_k := (usb_k s')\<lparr>lock_cnt := 0\<rparr>\<rparr>)"
    unfolding sof_handler_def by (rule isr_locked_ok [where f = sduSOFHookI and s' = s', OF assms(2)]) (use s'(1,7) in simp_all)
  then show ?thesis using s'(2-6) by simp
qed

section \<open>Runs\<close>

text \<open>
  When a step may happen: a thread is in a critical zone and, to copy, has a current buffer; the FIFO interrupt and
  the completion of a transmission come while one is under way, the latter when all of it is in the FIFO; packets come
  while the endpoint is armed, and not more than the size of its transaction.
\<close>

definition link_enabled :: "link_op \<Rightarrow> usbsys \<Rightarrow> bool" where
  "link_enabled op s = (let ib = ibqueue (sdu s); ob = obqueue (sdu s); k = usb_k s in
     case op of
       Op_write bs \<Rightarrow> thd_ctx k \<and> bq_ptr ob \<noteq> None \<and> bs \<noteq> []
     | Op_get_empty \<Rightarrow> thd_ctx k \<and> bq_ptr ob = None \<and> bq_bcounter ob > 0
     | Op_flush \<Rightarrow> thd_ctx k
     | Op_read n \<Rightarrow> thd_ctx k \<and> bq_ptr ib \<noteq> None \<and> n > 0
     | Op_get_full \<Rightarrow> thd_ctx k \<and> bq_ptr ib = None \<and> bq_bcounter ib > 0
     | Op_fill spaces \<Rightarrow> irq k \<and> bit (transmitting s) 1
     | Op_in_complete \<Rightarrow> link_irq s \<and> bit (transmitting s) 1 \<and> es_cnt (ep_states s EP1_IN) = es_size (ep_states s EP1_IN)
     | Op_packet bs \<Rightarrow> irq k \<and> bit (receiving s) 1 \<and> es_cnt (ep_states s EP1_OUT) + length bs \<le> es_size (ep_states s EP1_OUT)
     | Op_out_complete \<Rightarrow> link_irq s \<and> bit (receiving s) 1
     | Op_sof \<Rightarrow> irq k)"

fun written :: "link_event \<Rightarrow> byte list" where
  "written (Wrote bs) = bs" | "written _ = []"

fun got :: "link_event \<Rightarrow> byte list" where
  "got (Got bs) = bs" | "got _ = []"

fun came :: "link_event \<Rightarrow> byte list" where
  "came (Came bs) = bs" | "came _ = []"

definition link_next :: "usbsys \<Rightarrow> link_event \<Rightarrow> usbsys \<Rightarrow> bool" where
  "link_next s e s' \<longleftrightarrow> link_inv s' \<and> sent s' @ outgoing s' = sent s @ outgoing s @ written e \<and> got e @ incoming s' = incoming s @ came e"

lemma write_step:
  assumes "link_inv s" and "thd_ctx (usb_k s)" and "bq_ptr (obqueue (sdu s)) = Some p" and "bs \<noteq> []"
  shows "\<exists>e s'. link_exec hw (Op_write bs) s = Ok (e, s') \<and> link_next s e s'"
proof -
  let ?o = "obqueue (sdu s)" let ?c = "bq_chunk (length bs) ?o"
  have v: "out_inv ?o" "p < bq_top ?o" using assms(1,3) by (auto simp: link_defs out_inv_def)
  have c: "take ?c bs \<noteq> []" "p + length (take ?c bs) \<le> bq_top ?o" using bq_chunk_bounds [OF assms(3) v(2), of "length bs"] assms(4) by auto
  obtain q where q: "obq_store (take ?c bs) ?o (usb_k s) = Ok q" using obq_store_ok [OF v(1) assms(3) c assms(2)] by metis
  note g = obq_store_grows [OF v(1) assms(3) c assms(2) q]
  from out_notified_ok [OF assms(1,2) g] q show ?thesis by (auto simp: link_exec_def Let_def link_next_def)
qed

lemma read_step:
  assumes "link_inv s" and "thd_ctx (usb_k s)" and "bq_ptr (ibqueue (sdu s)) = Some p" and "n > 0"
  shows "\<exists>e s'. link_exec hw (Op_read n) s = Ok (e, s') \<and> link_next s e s'"
proof -
  let ?q = "ibqueue (sdu s)" let ?c = "bq_chunk n ?q"
  have v: "in_inv ?q" "p < bq_top ?q" using assms(1,3) by (simp_all add: link_defs in_inv_def)
  obtain q where q: "ibq_take ?c ?q (usb_k s) = Ok (take ?c (in_stream ?q), q)" "in_shrinks ?q q" "in_stream ?q = take ?c (in_stream ?q) @ in_stream q"
    using ibq_take_shrinks [OF v(1) assms(3) bq_chunk_bounds(1,2) [OF assms(3) v(2) assms(4)] assms(2)] by blast
  from in_notified_ok [OF assms(1,2) q(2,3)] q(1) show ?thesis by (auto simp: link_exec_def Let_def link_next_def)
qed

lemma link_step_ok:
  assumes "link_inv s" and "link_enabled op s"
  shows "\<exists>e s'. link_exec hw op s = Ok (e, s') \<and> link_next s e s'"
proof (cases op)
  case (Op_write bs)
  then show ?thesis using write_step [OF assms(1)] assms(2) by (auto simp: link_enabled_def Let_def)
next
  case Op_get_empty
  have v: "out_inv (obqueue (sdu s))" using assms(1) by (simp add: link_defs)
  obtain q where "obqGetEmptyBufferTimeoutS TIME_INFINITE (obqueue (sdu s)) (usb_k s) = Ok (Returned MSG_OK, q, usb_k s)"
    "out_grows (obqueue (sdu s)) q" "out_stream q = out_stream (obqueue (sdu s)) @ []" "thd_ctx (usb_k s)"
    using get_empty_grows [OF v] assms(2) Op_get_empty by (auto simp: link_enabled_def Let_def)
  then show ?thesis using out_notified_ok [OF assms(1), of q "[]"] Op_get_empty by (auto simp: link_exec_def link_next_def)
next
  case Op_flush
  have v: "out_inv (obqueue (sdu s))" "thd_ctx (usb_k s)" using assms Op_flush by (simp_all add: link_defs link_enabled_def)
  obtain q where "(case bq_ptr (obqueue (sdu s)) of None \<Rightarrow> Ok (obqueue (sdu s))
      | Some p \<Rightarrow> if p > 0 then obqPostFullBufferS p (obqueue (sdu s)) (usb_k s) else Ok (obqueue (sdu s))) = Ok q"
    "out_grows (obqueue (sdu s)) q" "out_stream q = out_stream (obqueue (sdu s)) @ []" using flush_grows [OF v] by auto
  then show ?thesis using out_notified_ok [OF assms(1) v(2), of q "[]"] Op_flush by (auto simp: link_exec_def link_next_def)
next
  case (Op_read n)
  then show ?thesis using read_step [OF assms(1)] assms(2) by (auto simp: link_enabled_def Let_def)
next
  case Op_get_full
  have v: "in_inv (ibqueue (sdu s))" using assms(1) by (simp add: link_defs)
  obtain q where "ibqGetFullBufferTimeoutS TIME_INFINITE (ibqueue (sdu s)) (usb_k s) = Ok (Returned MSG_OK, q, usb_k s)"
    "in_shrinks (ibqueue (sdu s)) q" "in_stream (ibqueue (sdu s)) = [] @ in_stream q" "thd_ctx (usb_k s)"
    using get_full_shrinks [OF v, of "usb_k s"] assms(2) Op_get_full by (fastforce simp: link_enabled_def Let_def)
  then show ?thesis using in_notified_ok [OF assms(1), of q "[]"] Op_get_full by (auto simp: link_exec_def link_next_def)
next
  case (Op_fill spaces)
  then have "bit (transmitting s) 1" using assms(2) by (simp add: link_enabled_def)
  from txfifo_ok [OF assms(1) this, of spaces] Op_fill show ?thesis by (auto simp: link_exec_def otg_epin_handler_def link_next_def)
next
  case Op_in_complete
  then show ?thesis using in_complete_ok [OF assms(1), of hw] assms(2) by (auto simp: link_exec_def link_enabled_def link_next_def Let_def)
next
  case (Op_packet bs)
  then have "es_cnt (ep_states s EP1_OUT) + length bs \<le> 256" "bit (receiving s) 1"
    using assms by (auto simp: link_enabled_def Let_def link_defs rx_ok_def)
  then show ?thesis using packet_ok [OF assms(1)] Op_packet by (fastforce simp: link_exec_def link_next_def)
next
  case Op_out_complete
  then show ?thesis using out_complete_ok [OF assms(1), of hw] assms(2) by (auto simp: link_exec_def link_enabled_def link_next_def Let_def)
next
  case Op_sof
  then show ?thesis using sof_ok [OF assms(1)] assms(2) by (auto simp: link_exec_def link_enabled_def link_next_def Let_def)
qed

text \<open>A run of the link: before every step, the kernel may have changed in any way.\<close>

inductive link_run :: "(bool \<Rightarrow> nat \<Rightarrow> usbepstatus) \<Rightarrow> usbsys \<Rightarrow> link_event list \<Rightarrow> usbsys \<Rightarrow> bool" for hw where
  link_start: "link_run hw s [] s"
| link_next_step: "link_run hw s es s' \<Longrightarrow> link_enabled op (s'\<lparr>usb_k := k\<rparr>) \<Longrightarrow> link_exec hw op (s'\<lparr>usb_k := k\<rparr>) = Ok (e, s'') \<Longrightarrow>
    link_run hw s (es @ [e]) s''"

lemma link_run_inv: "link_run hw s es s' \<Longrightarrow> link_inv s \<Longrightarrow> link_inv s'"
proof (induction rule: link_run.induct)
  case (link_next_step s es s' op k e s'')
  then show ?case using link_step_ok [of "s'\<lparr>usb_k := k\<rparr>" op hw] by (auto simp: link_next_def)
qed



section \<open>Everything written is sent\<close>

text \<open>A kernel in which an interrupt may be served, whatever queues the driver has.\<close>

definition irq_ready :: "kernel \<Rightarrow> bool" where
  "irq_ready k \<longleftrightarrow> irq k \<and> sched_inv k \<and> (\<forall>p. \<forall>t\<in>set (queues k (TQ p)). state_of k t = CH_STATE_QUEUED)"

text \<open>Runs without the threads: only interrupts, and only those of the transmitting side.\<close>

definition quiet_run :: "(bool \<Rightarrow> nat \<Rightarrow> usbepstatus) \<Rightarrow> usbsys \<Rightarrow> usbsys \<Rightarrow> bool" where
  "quiet_run hw s s' \<longleftrightarrow> link_inv s' \<and> sent s' @ outgoing s' = sent s @ outgoing s \<and> (\<exists>n. link_run hw s (replicate n Tau) s')"

lemma quiet_refl: "link_inv s \<Longrightarrow> quiet_run hw s s"
  unfolding quiet_run_def using link_run.link_start [of hw s] by (auto intro: exI [of _ 0])

lemma quiet_step:
  assumes "quiet_run hw s s'" and "link_enabled op (s'\<lparr>usb_k := k\<rparr>)" and "link_exec hw op (s'\<lparr>usb_k := k\<rparr>) = Ok (Tau, s'')"
  shows "quiet_run hw s s''"
proof -
  obtain n where "link_run hw s (replicate n Tau) s'" "link_inv s'" "sent s' @ outgoing s' = sent s @ outgoing s"
    using assms(1) by (auto simp: quiet_run_def)
  from link_run.link_next_step [OF this(1) assms(2,3)] this(2,3) show ?thesis
    using link_step_ok [of "s'\<lparr>usb_k := k\<rparr>" op hw] assms(2,3)
    by (auto simp: quiet_run_def link_next_def replicate_append_same intro: exI [of _ "Suc n"])
qed

lemma irq_ready_link: "irq_ready k \<Longrightarrow> link_irq (s\<lparr>usb_k := k\<rparr>)"
  by (simp add: irq_ready_def link_irq_def)

text \<open>Some bytes are waiting: then a transaction that has bytes left is reached.\<close>

lemma reach_complete:
  assumes "quiet_run hw s s'" and "irq_ready k" and "bit (transmitting s') 1" and "tx_left s' = 0"
  shows "\<exists>s''. quiet_run hw s s'' \<and> outgoing s'' = outgoing s' \<and>
    (bit (transmitting s'') 1 \<and> tx_left s'' = 0 \<longrightarrow> es_size (ep_states s' EP1_IN) > 0 \<and> es_size (ep_states s'' EP1_IN) = 0)"
proof -
  let ?s = "s'\<lparr>usb_k := k\<rparr>"
  have i: "link_inv ?s" using assms(1) by (simp add: quiet_run_def)
  have e: "es_cnt (ep_states ?s EP1_IN) = es_size (ep_states ?s EP1_IN)"
    using i assms(3,4) by (auto simp: link_inv_def tx_ok_def Let_def tx_left_def)
  obtain s'' where s: "otg_epin_handler hw True False [] 1 ?s = Ok s''" "outgoing s'' = outgoing s'"
    "bit (transmitting s'') 1 \<and> tx_left s'' = 0 \<longrightarrow> es_size (ep_states s' EP1_IN) > 0 \<and> es_size (ep_states s'' EP1_IN) = 0"
    using in_complete_ok [OF i irq_ready_link [OF assms(2)] _ e, of hw] assms(3) by auto
  have "quiet_run hw s s''"
    by (rule quiet_step [OF assms(1), of Op_in_complete k]) (use s e assms(2,3) irq_ready_link in \<open>simp_all add: link_enabled_def link_exec_def\<close>)
  then show ?thesis using s by blast
qed

lemma reach_sof:
  assumes "quiet_run hw s s'" and "irq_ready k" and "outgoing s' \<noteq> []" and "\<not> (bit (transmitting s') 1 \<and> tx_left s' = 0)"
  shows "\<exists>s''. quiet_run hw s s'' \<and> outgoing s'' = outgoing s' \<and> bit (transmitting s'') 1 \<and> tx_left s'' > 0"
proof (cases "bit (transmitting s') 1")
  case True
  then show ?thesis using assms by auto
next
  case False
  let ?s = "s'\<lparr>usb_k := k\<rparr>"
  have i: "link_inv ?s" "irq (usb_k ?s)" using assms(1,2) by (simp_all add: quiet_run_def irq_ready_def)
  obtain s'' where s: "sof_handler ?s = Ok s''" "outgoing s'' = outgoing s'" "bit (transmitting s'') 1 \<and> tx_left s'' > 0"
    using sof_ok [OF i] assms(3) False by auto
  have "quiet_run hw s s''" by (rule quiet_step [OF assms(1), of Op_sof k]) (use s(1) i in \<open>simp_all add: link_enabled_def link_exec_def\<close>)
  then show ?thesis using s by blast
qed

lemma reach_left:
  assumes "quiet_run hw s s'" and "irq_ready k" and "outgoing s' \<noteq> []"
  shows "\<exists>s''. quiet_run hw s s'' \<and> outgoing s'' = outgoing s' \<and> bit (transmitting s'') 1 \<and> tx_left s'' > 0"
proof -
  obtain s1 where s1: "quiet_run hw s s1" "outgoing s1 = outgoing s'" "bit (transmitting s1) 1 \<and> tx_left s1 = 0 \<longrightarrow> es_size (ep_states s1 EP1_IN) = 0"
    using reach_complete [OF assms(1,2)] assms(1) by (cases "bit (transmitting s') 1 \<and> tx_left s' = 0") auto
  obtain s2 where s2: "quiet_run hw s s2" "outgoing s2 = outgoing s'" "\<not> (bit (transmitting s2) 1 \<and> tx_left s2 = 0)"
    using reach_complete [OF s1(1) assms(2)] s1 by (cases "bit (transmitting s1) 1 \<and> tx_left s1 = 0") auto
  from reach_sof [OF s2(1) assms(2) _ s2(3)] assms(3) s2(2) show ?thesis by simp
qed


section \<open>Configuration\<close>

text \<open>Two thread queues are emptied one after the other.\<close>

lemma dequeue_two:
  assumes "sched_inv k" and "i_ctx k" and "\<forall>p\<in>{a, b}. \<forall>t\<in>set (queues k (TQ p)). state_of k t = CH_STATE_QUEUED"
  shows "\<exists>k1 k2. chThdDequeueAllI (TQ a) msg k = Ok k1 \<and> chThdDequeueAllI (TQ b) msg k1 = Ok k2 \<and> i_ctx k1 \<and> i_ctx k2 \<and> sched_inv k2 \<and>
    isr_cnt k2 = isr_cnt k \<and> lock_cnt k2 = lock_cnt k \<and> queues k2 (TQ a) = [] \<and> queues k2 (TQ b) = []"
proof -
  obtain k1 where k1: "chThdDequeueAllI (TQ a) msg k = Ok k1" "sched_inv k1" "queues k1 (TQ a) = []" "isr_cnt k1 = isr_cnt k" "lock_cnt k1 = lock_cnt k"
    "\<forall>t. t \<notin> set (queues k (TQ a)) \<longrightarrow> threads k1 t = threads k t" "\<forall>p. p \<noteq> RLIST \<longrightarrow> p \<noteq> TQ a \<longrightarrow> queues k1 p = queues k p"
    by (rule chThdDequeueAllI_mb [OF assms(1,2), of "TQ a" msg]) (use assms(3) in auto)
  have "t \<notin> set (queues k (TQ a))" "t \<in> set (queues k (TQ b))" if "t \<in> set (queues k1 (TQ b))" for t
    using that k1(3,7) sched_invD(3) [OF assms(1), of t "TQ b" "TQ a"] by (cases "a = b"; auto)+
  then have "\<forall>t\<in>set (queues k1 (TQ b)). state_of k1 t = CH_STATE_QUEUED" using k1(6) assms(3) by simp
  moreover have c: "i_ctx k1" using assms(2) k1(4,5) i_ctx_cong by blast
  ultimately obtain k2 where k2: "chThdDequeueAllI (TQ b) msg k1 = Ok k2" "sched_inv k2" "queues k2 (TQ b) = []" "isr_cnt k2 = isr_cnt k1" "lock_cnt k2 = lock_cnt k1"
    "\<forall>p. p \<noteq> RLIST \<longrightarrow> p \<noteq> TQ b \<longrightarrow> queues k2 p = queues k1 p"
    using chThdDequeueAllI_mb [OF k1(2) c, of "TQ b" msg] by (metis qref.distinct(1) qref.distinct)
  moreover have "i_ctx k2" using c k2(4,5) i_ctx_cong by blast
  moreover have "queues k2 (TQ a) = []" using k1(3) k2(3,6) by (cases "a = b") auto
  ultimately show ?thesis using k1 c by auto
qed

text \<open>The memory of a queue, as \<open>sduObjectInit\<close> lays it out.\<close>

definition bq_shape :: "bqueue \<Rightarrow> bool" where
  "bq_shape q \<longleftrightarrow> bq_slots q \<noteq> [] \<and> bq_bsize q = 260 \<and> (\<forall>x\<in>set (bq_slots q). length (snd x) = 256)"

text \<open>The state in which the endpoints of the serial driver can be set up.\<close>

definition sdu_ready :: "usbsys \<Rightarrow> bool" where
  "sdu_ready s \<longleftrightarrow> usb_cfg s \<and> sdu_state (sdu s) = SDU_READY \<and> sdu_config (sdu s) \<and> in_params s 0 \<and> out_params s 0 \<and>
     bq_shape (ibqueue (sdu s)) \<and> bq_shape (obqueue (sdu s)) \<and> link_irq s"

definition no_endpoints :: "usbsys \<Rightarrow> bool" where
  "no_endpoints s \<longleftrightarrow> epc s 1 = None \<and> epc s 2 = None \<and> \<not> bit (transmitting s) 1 \<and> \<not> bit (receiving s) 1"

definition reset_queue :: "nat \<Rightarrow> bqueue \<Rightarrow> bqueue" where
  "reset_queue n q = q\<lparr>bq_bcounter := n, bq_brdptr := 0, bq_bwrptr := 0, bq_ptr := None, bq_top := 0, bq_suspended := False\<rparr>"

lemma reset_queue_ok:
  assumes "bq_shape q"
  shows "in_inv (reset_queue 0 q)" and "in_stream (reset_queue 0 q) = []"
    and "out_inv (reset_queue (length (bq_slots q)) q)" and "out_stream (reset_queue (length (bq_slots q)) q) = []"
    and "out_slots (reset_queue (length (bq_slots q)) q) = []"
  using assms by (auto simp: bq_shape_def reset_queue_def in_inv_def out_inv_def out_ok_def bq_ok_def in_slots_def out_slots_def in_stream_def out_stream_def)

lemma init_endpoints:
  assumes "i_ctx (usb_k s)" and "usb_state s = USB_ACTIVE" and "epc s 1 = None" and "epc s 2 = None" and "pmnext s + 20 \<le> 320"
  shows "kbind (usbInitEndpointI 1 ep1config s) (usbInitEndpointI 2 ep2config) =
    Ok (s\<lparr>epc := (epc s)(1 := Some ep1config, 2 := Some ep2config),
      ep_states := (ep_states s)(EP1_IN := es_zero, EP1_OUT := es_zero, EP2_IN := es_zero), usb_lld := usb_lld s @ [L_init_endpoint 1, L_init_endpoint 2],
      pmnext := pmnext s + 20, dieptxf := (dieptxf s)(1 := (pmnext s, 16), 2 := (pmnext s + 16, 4))\<rparr>)"
  using assms
  by (simp add: usbInitEndpointI_def usb_lld_init_endpoint_def clear_es_def otg_ram_alloc_def STM32_OTG1_FIFO_MEM_SIZE_def ep1config_def ep2config_def Let_def add.assoc)

lemma configure_hook:
  assumes "sdu_ready s" and "i_ctx k" and "sched_inv k" and "k = (usb_k s)\<lparr>lock_cnt := 1\<rparr>" and "usb_state s = USB_ACTIVE"
    and "epc s 1 = Some ep1config" and "\<not> bit (transmitting s) 1" and "\<not> bit (receiving s) 1"
  shows "\<exists>s'. sduConfigureHookI (s\<lparr>usb_k := k\<rparr>) = Ok s' \<and> link_inv s' \<and> outgoing s' = [] \<and> incoming s' = [] \<and> sent s' = sent s \<and>
    dieptxf s' = dieptxf s \<and> pmnext s' = pmnext s \<and> configuration s' = configuration s \<and> usb_address s' = usb_address s \<and> isr_cnt (usb_k s') = isr_cnt (usb_k s) \<and> lock_cnt (usb_k s') = 1"
proof -
  let ?i = "ibqueue (sdu s)" let ?o = "obqueue (sdu s)" let ?s = "s\<lparr>usb_k := k\<rparr>"
  note a = assms(1) [unfolded sdu_ready_def]
  obtain k1 k2 where k: "chThdDequeueAllI (TQ (bq_waiting ?i)) MSG_RESET k = Ok k1" "chThdDequeueAllI (TQ (bq_waiting ?o)) MSG_RESET k1 = Ok k2"
    "i_ctx k1" "i_ctx k2" "isr_cnt k2 = isr_cnt k" "lock_cnt k2 = lock_cnt k"
    using dequeue_two [OF assms(3,2), of "bq_waiting ?i" "bq_waiting ?o" MSG_RESET] a assms(4) by (auto simp: link_irq_def)
  let ?iq = "reset_queue 0 ?i" let ?oq = "reset_queue (length (bq_slots ?o)) ?o"
  let ?t = "s\<lparr>sdu := (sdu s)\<lparr>ibqueue := ?iq, obqueue := ?oq\<rparr>, usb_k := k2\<rparr>"
  have "sduConfigureHookI ?s = kbind (sdu_start_receive ?t) (\<lambda>(r, s). Ok s)"
    using k assms(2) by (simp add: sduConfigureHookI_def ibqResetI_def obqResetI_def chnAddFlagsI_def bqResumeX_def bqSizeX_def reset_queue_def)
  moreover have sh: "bq_shape ?i" "bq_shape ?o" using a by simp_all
  note r = reset_queue_ok [OF sh(1)] reset_queue_ok [OF sh(2)]
  have b: "link_base ?t" "tx_ok ?t" using a assms(5-7) r sh by (simp_all add: link_base_def tx_ok_def Let_def bq_shape_def) (simp_all add: reset_queue_def)
  obtain x s' where s': "sdu_start_receive ?t = Ok (x, s')" "link_inv s'" "outgoing s' = outgoing ?t" "incoming s' = incoming ?t" "sent s' = sent ?t"
    "usb_k s' = k2" using start_receive_ok [OF b] k(4) assms(8) by auto
  moreover have "outgoing ?t = []" "incoming ?t = []" "sent ?t = sent s"
    using r assms(7,8) by (simp_all add: outgoing_def tx_cnt_def incoming_def sent_def)
  moreover have "dieptxf s' = dieptxf s \<and> pmnext s' = pmnext s \<and> configuration s' = configuration s \<and> usb_address s' = usb_address s"
    using s'(1) a assms(5,6,8) k(4)
    by (auto simp: sdu_start_receive_def sdu_consts ibqGetEmptyBufferI_def StartReceive_eq [where c = ep1config and r = EP1_OUT] split: if_splits)
  ultimately show ?thesis using k(5,6) assms(4) by (simp add: s'(6))
qed

text \<open>The event \<open>USB_EVENT_CONFIGURED\<close> establishes the link: the queues are empty and the OUT endpoint is armed.\<close>

lemma configured_event:
  assumes "sdu_ready s" and "no_endpoints s" and "usb_state s = USB_ACTIVE" and "pmnext s + 20 \<le> 320"
  shows "\<exists>s'. usb_event USB_EVENT_CONFIGURED s = Ok s' \<and> link_inv s' \<and> outgoing s' = [] \<and> incoming s' = [] \<and> sent s' = sent s \<and>
    dieptxf s' = (dieptxf s)(1 := (pmnext s, 16), 2 := (pmnext s + 16, 4)) \<and> pmnext s' = pmnext s + 20 \<and>
    configuration s' = configuration s \<and> usb_address s' = usb_address s"
proof -
  let ?k = "(usb_k s)\<lparr>lock_cnt := 1\<rparr>"
  let ?s = "s\<lparr>epc := (epc s)(1 := Some ep1config, 2 := Some ep2config),
      ep_states := (ep_states s)(EP1_IN := es_zero, EP1_OUT := es_zero, EP2_IN := es_zero), usb_lld := usb_lld s @ [L_init_endpoint 1, L_init_endpoint 2],
      pmnext := pmnext s + 20, dieptxf := (dieptxf s)(1 := (pmnext s, 16), 2 := (pmnext s + 16, 4))\<rparr>"
  let ?f = "\<lambda>s. kbind (usbInitEndpointI USBD1_DATA_REQUEST_EP ep1config s) (\<lambda>s.
       kbind (usbInitEndpointI USBD1_INTERRUPT_REQUEST_EP ep2config s) sduConfigureHookI)"
  note a = assms(1) [unfolded sdu_ready_def] and n = assms(2) [unfolded no_endpoints_def]
  have c: "irq (usb_k s)" "sched_inv ?k" "i_ctx ?k" using a irq_lock(2) by (simp_all add: link_irq_def)
  have r: "sdu_ready ?s" using a by (simp add: sdu_ready_def link_irq_def)
  obtain s' where s': "sduConfigureHookI (?s\<lparr>usb_k := ?k\<rparr>) = Ok s'" "link_inv s'" "outgoing s' = []" "incoming s' = []" "sent s' = sent ?s"
    "dieptxf s' = dieptxf ?s" "pmnext s' = pmnext ?s" "configuration s' = configuration s" "usb_address s' = usb_address s" "isr_cnt (usb_k s') = isr_cnt (usb_k s)" "lock_cnt (usb_k s') = 1"
    using configure_hook [OF r c(3,2)] n assms(3) by auto
  have "kbind (usbInitEndpointI 1 ep1config (s\<lparr>usb_k := ?k\<rparr>)) (usbInitEndpointI 2 ep2config) = Ok (?s\<lparr>usb_k := ?k\<rparr>)"
    by (subst init_endpoints) (use c(3) n assms(3,4) in simp_all)
  then have "?f (s\<lparr>usb_k := ?k\<rparr>) = sduConfigureHookI (?s\<lparr>usb_k := ?k\<rparr>)"
    unfolding sdu_consts kbind_assoc [symmetric] by (simp only: kbind_simps)
  then have "usb_event USB_EVENT_CONFIGURED s = Ok (s'\<lparr>usb_k := (usb_k s')\<lparr>lock_cnt := 0\<rparr>\<rparr>)"
    using isr_locked_ok [where f = ?f and s' = s', OF c(1)] s'(1,10,11) by (simp add: usb_event_def)
  moreover have "sent ?s = sent s" by (simp add: sent_def)
  ultimately show ?thesis using s' by simp
qed

lemma suspended_noop: "bq_suspended q \<Longrightarrow> q\<lparr>bq_suspended := True\<rparr> = q"
  by (cases q) simp

text \<open>The suspend hook: the queues do not block any more and nobody waits in them; their contents stay.\<close>

lemma suspend_hook:
  assumes "link_irq s" and "k = (usb_k s)\<lparr>lock_cnt := 1\<rparr>" and "i_ctx k"
  shows "\<exists>k'. sduSuspendHookI (s\<lparr>usb_k := k\<rparr>) = Ok (s\<lparr>sdu := (sdu s)\<lparr>ibqueue := (ibqueue (sdu s))\<lparr>bq_suspended := True\<rparr>,
      obqueue := (obqueue (sdu s))\<lparr>bq_suspended := True\<rparr>\<rparr>, usb_k := k'\<rparr>) \<and> isr_cnt k' = isr_cnt (usb_k s) \<and> lock_cnt k' = 1 \<and>
      link_irq (s\<lparr>usb_k := k'\<lparr>lock_cnt := 0\<rparr>\<rparr>)"
proof (cases "bq_suspended (ibqueue (sdu s)) \<and> bq_suspended (obqueue (sdu s))")
  case True
  have "s\<lparr>sdu := (sdu s)\<lparr>ibqueue := (ibqueue (sdu s))\<lparr>bq_suspended := True\<rparr>, obqueue := (obqueue (sdu s))\<lparr>bq_suspended := True\<rparr>\<rparr>, usb_k := k\<rparr> = s\<lparr>usb_k := k\<rparr>"
    using True by (simp add: suspended_noop)
  then show ?thesis using True assms by (intro exI [of _ k]) (simp add: sduSuspendHookI_def bqIsSuspendedX_def link_irq_def)
next
  case False
  let ?i = "ibqueue (sdu s)" let ?o = "obqueue (sdu s)"
  have s: "sched_inv k" "\<forall>p\<in>{bq_waiting ?i, bq_waiting ?o}. \<forall>t\<in>set (queues k (TQ p)). state_of k t = CH_STATE_QUEUED"
    using assms(1,2) by (auto simp: link_irq_def)
  from dequeue_two [OF s(1) assms(3) s(2), of MSG_RESET] obtain k1 k2 where
    k: "chThdDequeueAllI (TQ (bq_waiting ?i)) MSG_RESET k = Ok k1" "chThdDequeueAllI (TQ (bq_waiting ?o)) MSG_RESET k1 = Ok k2"
      "sched_inv k2" "isr_cnt k2 = isr_cnt k" "lock_cnt k2 = lock_cnt k" "queues k2 (TQ (bq_waiting ?i)) = []" "queues k2 (TQ (bq_waiting ?o)) = []" by blast
  then have "link_irq (s\<lparr>usb_k := k2\<lparr>lock_cnt := 0\<rparr>\<rparr>)" using assms(1,2) by (simp add: link_irq_def irq_def)
  then show ?thesis using False k assms(2,3)
    by (intro exI [of _ k2]) (auto simp: sduSuspendHookI_def bqIsSuspendedX_def chnAddFlagsI_def bqSuspendI_def)
qed

text \<open>What the events that suspend the driver leave behind.\<close>

definition suspended_queues :: "usbsys \<Rightarrow> kernel \<Rightarrow> usbsys" where
  "suspended_queues s k = s\<lparr>sdu := (sdu s)\<lparr>ibqueue := (ibqueue (sdu s))\<lparr>bq_suspended := True\<rparr>,
      obqueue := (obqueue (sdu s))\<lparr>bq_suspended := True\<rparr>\<rparr>, usb_k := k\<rparr>"

lemma suspend_events:
  assumes "link_irq s" and "usb_cfg s" and "ev \<in> {USB_EVENT_RESET, USB_EVENT_UNCONFIGURED, USB_EVENT_SUSPEND}"
  shows "\<exists>k. isr_invoke_event_cb usbcfg ev s = Ok (suspended_queues s k) \<and> link_irq (s\<lparr>usb_k := k\<rparr>)"
proof -
  let ?l = "(usb_k s)\<lparr>lock_cnt := 1\<rparr>"
  have c: "irq (usb_k s)" "i_ctx ?l" using assms(1) irq_lock(2) by (simp_all add: link_irq_def)
  obtain k where k: "sduSuspendHookI (s\<lparr>usb_k := ?l\<rparr>) = Ok (suspended_queues s k)" "isr_cnt k = isr_cnt (usb_k s)" "lock_cnt k = 1"
      "link_irq (s\<lparr>usb_k := k\<lparr>lock_cnt := 0\<rparr>\<rparr>)"
    using suspend_hook [OF assms(1) refl c(2)] unfolding suspended_queues_def by blast
  have "isr_invoke_event_cb usbcfg ev s = isr_locked sduSuspendHookI s" using assms(2,3) by (auto simp: isr_invoke_event_cb_def usbcfg_def usb_event_def)
  also have "\<dots> = Ok (suspended_queues s (k\<lparr>lock_cnt := 0\<rparr>))"
    using isr_locked_ok [where f = sduSuspendHookI, OF c(1) k(1)] k(2,3) by (simp add: suspended_queues_def)
  finally show ?thesis using k(4) by blast
qed

lemma suspended_queues_sel [simp]:
  "usb_state (suspended_queues s k) = usb_state s" "usb_cfg (suspended_queues s k) = usb_cfg s" "epc (suspended_queues s k) = epc s"
  "transmitting (suspended_queues s k) = transmitting s" "receiving (suspended_queues s k) = receiving s" "pmnext (suspended_queues s k) = pmnext s"
  "dieptxf (suspended_queues s k) = dieptxf s" "usb_setup (suspended_queues s k) = usb_setup s" "sent (suspended_queues s k) = sent s"
  "usb_k (suspended_queues s k) = k" "saved_state (suspended_queues s k) = saved_state s"
  by (simp_all add: suspended_queues_def sent_def)

lemma suspended_ready:
  assumes "sdu_ready s" and "link_irq (s\<lparr>usb_k := k\<rparr>)"
  shows "sdu_ready (suspended_queues s k)"
  using assms by (simp add: sdu_ready_def suspended_queues_def bq_shape_def link_irq_def)

text \<open>The link does not depend on the fields of the control endpoint.\<close>

lemma sdu_ready_frame [simp]:
  "sdu_ready (s\<lparr>usb_setup := p\<rparr>) = sdu_ready s" "sdu_ready (s\<lparr>usb_state := st\<rparr>) = sdu_ready s" "sdu_ready (s\<lparr>usb_address := a\<rparr>) = sdu_ready s"
  "sdu_ready (s\<lparr>configuration := c\<rparr>) = sdu_ready s" "sdu_ready (s\<lparr>usb_lld := l\<rparr>) = sdu_ready s" "sdu_ready (s\<lparr>transmitting := w\<rparr>) = sdu_ready s"
  "sdu_ready (s\<lparr>receiving := w\<rparr>) = sdu_ready s" "sdu_ready (s\<lparr>epc := e\<rparr>) = sdu_ready s" "sdu_ready (s\<lparr>pmnext := n\<rparr>) = sdu_ready s"
  "sdu_ready (s\<lparr>dieptxf := d\<rparr>) = sdu_ready s" "sdu_ready (s\<lparr>usb_status := u\<rparr>) = sdu_ready s" "sdu_ready (s\<lparr>ep0state := z\<rparr>) = sdu_ready s"
  "sdu_ready (s\<lparr>saved_state := st\<rparr>) = sdu_ready s"
  by (simp_all add: sdu_ready_def link_irq_def)

text \<open>The fields that the events of suspension keep, and the state that they leave for a configuration.\<close>

lemma suspended_queues_sel2 [simp]:
  "configuration (suspended_queues s k) = configuration s" "usb_address (suspended_queues s k) = usb_address s"
  by (simp_all add: suspended_queues_def)

lemma configure:
  assumes "sdu_ready s" and "no_endpoints s" and "pmnext s + 20 \<le> 320" and "usb_state s \<noteq> USB_ACTIVE" and "usb_setup s ! 2 \<noteq> 0"
  shows "\<exists>s'. set_configuration usbcfg s = Ok s' \<and> link_inv s' \<and> outgoing s' = [] \<and> incoming s' = [] \<and>
    dieptxf s' = (dieptxf s)(1 := (pmnext s, 16), 2 := (pmnext s + 16, 4)) \<and> configuration s' = usb_setup s ! 2 \<and> usb_address s' = usb_address s"
proof -
  let ?s = "s\<lparr>configuration := usb_setup s ! 2, usb_state := USB_ACTIVE\<rparr>"
  have "sdu_ready ?s" "no_endpoints ?s" "usb_state ?s = USB_ACTIVE" "pmnext ?s + 20 \<le> 320" using assms(1-3) by (simp_all add: no_endpoints_def)
  from configured_event [OF this] show ?thesis
    using assms(1,4,5) by (auto simp: set_configuration_def isr_invoke_event_cb_def usbcfg_def sdu_ready_def)
qed

text \<open>A bus reset disables all endpoints but the control endpoint and suspends the serial driver.\<close>

lemma reset_state:
  assumes "sdu_ready s"
  shows "\<exists>s'. usb_reset usbcfg s = Ok s' \<and> sdu_ready s' \<and> no_endpoints s' \<and> usb_state s' = USB_READY \<and> pmnext s' = 144 \<and> dieptxf s' 0 = (128, 16)"
proof -
  define t where "t = (clear_epc 0 (s\<lparr>usb_state := USB_READY, usb_status := 0, usb_address := 0, configuration := 0, transmitting := 0,
    receiving := 0\<rparr>))\<lparr>ep0state := USB_EP0_STP_WAITING\<rparr>"
  define u where "u = t\<lparr>usb_lld := usb_lld t @ [L_reset], epc := (epc t)(0 := Some ep0config), pmnext := 144, dieptxf := (dieptxf t)(0 := (128, 16))\<rparr>"
  have "usb_lld_reset t = Ok u" by (simp add: usb_lld_reset_def otg_ram_reset_def otg_ram_alloc_def STM32_OTG1_FIFO_MEM_SIZE_def ep0config_def u_def Let_def)
  then have r: "usb_reset usbcfg s = isr_invoke_event_cb usbcfg USB_EVENT_RESET u" by (simp add: usb_reset_def t_def Let_def)
  have u: "sdu_ready u" "epc u 1 = None" "epc u 2 = None" "transmitting u = 0" "receiving u = 0" "usb_state u = USB_READY" "pmnext u = 144" "dieptxf u 0 = (128, 16)"
    using assms by (simp_all add: u_def t_def clear_epc_def USB_MAX_ENDPOINTS_def)
  then have c: "link_irq u" "usb_cfg u" by (simp_all add: sdu_ready_def)
  obtain k where k: "isr_invoke_event_cb usbcfg USB_EVENT_RESET u = Ok (suspended_queues u k)" "link_irq (u\<lparr>usb_k := k\<rparr>)"
    using suspend_events [OF c, of USB_EVENT_RESET] by auto
  then show ?thesis using r u suspended_ready [OF u(1) k(2)] by (simp add: no_endpoints_def)
qed

text \<open>The enumeration by the host: a bus reset, then the requests \<open>SET_ADDRESS\<close> and \<open>SET_CONFIGURATION\<close>.\<close>

definition enumeration :: "byte \<Rightarrow> byte \<Rightarrow> usbsys \<Rightarrow> usbsys kres" where
  "enumeration addr cfg s =
     kbind (usb_reset usbcfg s) (\<lambda>s.
     kbind (set_address usbcfg (s\<lparr>usb_setup := [0, 5, addr, 0, 0, 0, 0, 0]\<rparr>)) (\<lambda>s.
     set_configuration usbcfg (s\<lparr>usb_setup := [0, 9, cfg, 0, 0, 0, 0, 0]\<rparr>)))"

text \<open>
  C8: Whatever state the device was in: once the host has reset, addressed and configured it, the link is up, with empty
  queues, and the FIFO areas of the endpoints lie behind the receive FIFO, do not overlap and fit into the memory.
\<close>

theorem enumeration_links:
  assumes "sdu_ready s" and "cfg \<noteq> 0"
  shows "\<exists>s'. enumeration addr cfg s = Ok s' \<and> link_inv s' \<and> outgoing s' = [] \<and> incoming s' = [] \<and>
    usb_address s' = addr \<and> configuration s' = cfg \<and> 128 \<le> fst (dieptxf s' 0) \<and>
    (\<forall>i<2. fst (dieptxf s' i) + snd (dieptxf s' i) \<le> fst (dieptxf s' (Suc i))) \<and>
    fst (dieptxf s' 2) + snd (dieptxf s' 2) \<le> STM32_OTG1_FIFO_MEM_SIZE"
proof -
  obtain s1 where s1: "usb_reset usbcfg s = Ok s1" "sdu_ready s1" "no_endpoints s1" "pmnext s1 = 144" "dieptxf s1 0 = (128, 16)"
    using reset_state [OF assms(1)] by blast
  let ?a = "s1\<lparr>usb_setup := [0, 5, addr, 0, 0, 0, 0, 0], usb_address := addr, usb_lld := usb_lld s1 @ [L_set_address addr], usb_state := USB_SELECTED\<rparr>"
  let ?c = "?a\<lparr>usb_setup := [0, 9, cfg, 0, 0, 0, 0, 0]\<rparr>"
  have "usb_cfg s1" using s1(2) by (simp add: sdu_ready_def)
  then have a: "set_address usbcfg (s1\<lparr>usb_setup := [0, 5, addr, 0, 0, 0, 0, 0]\<rparr>) = Ok ?a"
    by (simp add: set_address_def usb_lld_set_address_def isr_invoke_event_cb_def usbcfg_def usb_event_def)
  have "sdu_ready ?c" "no_endpoints ?c" "pmnext ?c + 20 \<le> 320" "usb_state ?c \<noteq> USB_ACTIVE" "usb_setup ?c ! 2 \<noteq> 0"
    using s1 assms(2) by (simp_all add: no_endpoints_def)
  from configure [OF this] obtain s' where s': "set_configuration usbcfg ?c = Ok s'" "link_inv s'" "outgoing s' = []" "incoming s' = []"
    "dieptxf s' = (dieptxf s1)(1 := (144, 16), 2 := (160, 4))" "configuration s' = cfg" "usb_address s' = addr" using s1(4) by auto
  have "enumeration addr cfg s = Ok s'" using s1(1) a s'(1) by (simp add: enumeration_def)
  then show ?thesis using s'(2-) s1(5) by (intro exI [of _ s']) (auto simp: less_2_cases_iff STM32_OTG1_FIFO_MEM_SIZE_def)
qed

text \<open>
  A device that is configured already is configured again: \<open>usb_lld_disable_endpoints\<close> resets the allocator of the
  FIFO memory although endpoint zero keeps its area, so the area of endpoint 1 is the very area of endpoint
  zero.
\<close>

theorem reconfiguration_overlaps:
  assumes "link_inv s" and "sdu_ready s" and "dieptxf s 0 = (128, 16)" and "usb_setup s ! 2 \<noteq> 0"
  shows "\<exists>s'. set_configuration usbcfg s = Ok s' \<and> link_inv s' \<and> dieptxf s' 1 = dieptxf s' 0"
proof -
  let ?k = "(usb_k s)\<lparr>lock_cnt := 1\<rparr>"
  define d where "d = s\<lparr>transmitting := transmitting s AND 1, receiving := receiving s AND 1, epc := epc (clear_epc 1 s), pmnext := 128,
    usb_lld := usb_lld s @ [L_disable_endpoints], configuration := 0, usb_state := USB_SELECTED\<rparr>"
  have st: "usb_state s = USB_ACTIVE" using assms(1) by (simp add: link_defs)
  have c: "irq (usb_k s)" "i_ctx ?k" using assms(2) irq_lock(2) by (simp_all add: sdu_ready_def link_irq_def)
  have dis: "kbind (isr_locked usbDisableEndpointsI s) (\<lambda>s. isr_invoke_event_cb usbcfg USB_EVENT_UNCONFIGURED (s\<lparr>configuration := 0, usb_state := USB_SELECTED\<rparr>)) =
      isr_invoke_event_cb usbcfg USB_EVENT_UNCONFIGURED d"
    using st c by (simp add: isr_locked_eq usbDisableEndpointsI_def usb_lld_disable_endpoints_def otg_disable_ep_def otg_ram_reset_def clear_epc_def d_def irq_def
        cong: if_cong)
  have rd: "sdu_ready d" using assms(2) by (simp add: d_def)
  then have rc: "link_irq d" "usb_cfg d" by (simp_all add: sdu_ready_def)
  obtain k where k: "isr_invoke_event_cb usbcfg USB_EVENT_UNCONFIGURED d = Ok (suspended_queues d k)" "link_irq (d\<lparr>usb_k := k\<rparr>)"
    using suspend_events [OF rc, of USB_EVENT_UNCONFIGURED] by auto
  let ?d = "suspended_queues d k"
  have f: "no_endpoints ?d" "pmnext ?d = 128" "usb_state ?d = USB_SELECTED" "usb_setup ?d = usb_setup s" "dieptxf ?d = dieptxf s"
    by (simp_all add: no_endpoints_def d_def clear_epc_def USB_MAX_ENDPOINTS_def bit_and_iff bit_1_iff)
  obtain s' where s': "set_configuration usbcfg ?d = Ok s'" "link_inv s'" "dieptxf s' = (dieptxf s)(1 := (128, 16), 2 := (144, 4))"
    using configure [OF suspended_ready [OF rd k(2)] f(1)] f(2-5) assms(4) by auto
  have "set_configuration usbcfg s = set_configuration usbcfg ?d"
    unfolding set_configuration_def [of usbcfg s] set_configuration_def [of usbcfg ?d] using st dis k(1) f(3,4) assms(4) by auto
  then show ?thesis using s' assms(3) by auto
qed

text \<open>
  The host suspends the bus and wakes the device again. The driver is active and the queues block as
  before, but no transaction is under way any more, and neither the wakeup event nor the serial driver starts one: the
  OUT endpoint is not armed though there is room for data, and full buffers wait though nothing is being sent.
\<close>

theorem wakeup_leaves_link_down:
  assumes "link_inv s" and "link_irq s" and "usb_cfg s"
    and "bq_bcounter (ibqueue (sdu s)) < length (bq_slots (ibqueue (sdu s)))"
    and "susp = \<lparr>usbrst = False, wkupint = False, usbsusp = True, sofint = False, rxflvl = None, oepint = [], iepint = []\<rparr>"
    and "wkup = \<lparr>usbrst = False, wkupint = True, usbsusp = False, sofint = False, rxflvl = None, oepint = [], iepint = []\<rparr>"
  shows "\<exists>s1 s2. usb_lld_serve_interrupt hw susp s = Ok s1 \<and> usb_lld_serve_interrupt hw wkup s1 = Ok s2 \<and> usb_state s2 = USB_ACTIVE \<and>
    \<not> bq_suspended (ibqueue (sdu s2)) \<and> \<not> bq_suspended (obqueue (sdu s2)) \<and> transmitting s2 = 0 \<and> receiving s2 = 0 \<and>
    in_stream (ibqueue (sdu s2)) = in_stream (ibqueue (sdu s)) \<and> out_stream (obqueue (sdu s2)) = out_stream (obqueue (sdu s)) \<and> \<not> link_inv s2"
proof -
  define t where "t = s\<lparr>usb_lld := usb_lld s @ [L_disable_endpoints], saved_state := usb_state s, usb_state := USB_SUSPENDED\<rparr>"
  have st: "usb_state s = USB_ACTIVE" using assms(1) by (simp add: link_defs)
  have rc: "link_irq t" "usb_cfg t" using assms(2,3) by (simp_all add: t_def link_irq_def)
  obtain k where k: "isr_invoke_event_cb usbcfg USB_EVENT_SUSPEND t = Ok (suspended_queues t k)" "link_irq (t\<lparr>usb_k := k\<rparr>)"
    using suspend_events [OF rc, of USB_EVENT_SUSPEND] by auto
  let ?s1 = "(suspended_queues t k)\<lparr>transmitting := 0, receiving := 0\<rparr>"
  have 1: "usb_lld_serve_interrupt hw susp s = Ok ?s1"
    using k(1) by (simp add: usb_lld_serve_interrupt_def assms(5) usb_suspend_def otg_disable_ep_def t_def)
  let ?q = "\<lambda>q. q\<lparr>bq_suspended := False\<rparr>"
  let ?s2 = "?s1\<lparr>usb_state := USB_ACTIVE, sdu := (sdu s)\<lparr>ibqueue := ?q (ibqueue (sdu s)), obqueue := ?q (obqueue (sdu s))\<rparr>\<rparr>"
  have c: "irq k" "i_ctx (k\<lparr>lock_cnt := 1\<rparr>)" using k(2) irq_lock(2) by (simp_all add: link_irq_def)
  have "usb_wakeup usbcfg ?s1 = Ok ?s2"
    using c st assms(3) by (simp add: usb_wakeup_def isr_invoke_event_cb_def usbcfg_def usb_event_def isr_locked_eq sduWakeupHookI_def chnAddFlagsI_def
        bqResumeX_def suspended_queues_def t_def irq_def)
  then have 2: "usb_lld_serve_interrupt hw wkup ?s1 = Ok ?s2" by (simp add: usb_lld_serve_interrupt_def assms(6))
  have "\<not> link_inv ?s2" using assms(4) by (simp add: link_inv_def rx_ok_def Let_def)
  moreover have "in_stream (?q q) = in_stream q" "out_stream (?q q) = out_stream q" for q
    by (simp_all add: in_stream_def out_stream_def in_slots_def out_slots_def split: option.split)
  ultimately show ?thesis using 1 2 by (intro exI [of _ ?s1] exI [of _ ?s2]) simp
qed

section \<open>Witnesses\<close>

lemma demo_link_ok: "link_inv demo_usb" "sdu_ready demo_usb" "link_irq demo_usb" "outgoing demo_usb = []" "incoming demo_usb = []" "sent demo_usb = []"
proof -
  have sh: "bq_shape (demo_bq p n)" for p n by (simp add: bq_shape_def demo_bq_def)
  have r: "demo_bq p n = reset_queue n (demo_bq p n)" "length (bq_slots (demo_bq p n)) = 2" "bq_bsize (demo_bq p n) = 260" for p n
    by (simp_all add: demo_bq_def reset_queue_def)
  have i: "in_inv (demo_bq 80 0)" "in_stream (demo_bq 80 0) = []" using reset_queue_ok(1,2) [OF sh [of 80 0]] r(1) [of 80 0] by simp_all
  have o: "out_inv (demo_bq 96 2)" "out_stream (demo_bq 96 2) = []" "out_slots (demo_bq 96 2) = []"
    using reset_queue_ok(3-5) [OF sh [of 96 2]] r(1) [of 96 2] unfolding r(2) by simp_all
  have f: "usb_state demo_usb = USB_ACTIVE" "sdu demo_usb = \<lparr>sdu_state = SDU_READY, sdu_config = True, ibqueue = demo_bq 80 0, obqueue = demo_bq 96 2\<rparr>"
    "in_params demo_usb 0" "out_params demo_usb 0" "epc demo_usb 1 = Some ep1config" "transmitting demo_usb = 0" "receiving demo_usb = 2" "usb_cfg demo_usb"
    "ep_states demo_usb EP1_OUT = \<lparr>es_size = 256, es_cnt = 0, es_buf = (B_IB 0, 0), es_tot = 256\<rparr>" "usb_lld demo_usb = []"
    by (simp_all add: demo_usb_def)
  have b: "bit (2 :: u16) 1" "\<not> bit (0 :: u16) 1" by (simp_all add: bit_numeral_rec)
  have q: "bq_bcounter (demo_bq p n) = n" "bq_bwrptr (demo_bq p n) = 0" for p n by (simp_all add: demo_bq_def)
  show "link_inv demo_usb" using f b i o r(2,3) q by (simp add: link_defs tx_ok_def rx_ok_def)
  show "link_irq demo_usb" using demo_usb_irq by (simp add: link_irq_def)
  then show "sdu_ready demo_usb" using f sh by (simp add: sdu_ready_def)
  show "outgoing demo_usb = []" "incoming demo_usb = []" "sent demo_usb = []"
    using f b i o by (simp_all add: outgoing_def tx_cnt_def incoming_def sent_def)
qed

abbreviation demo_hw :: "bool \<Rightarrow> nat \<Rightarrow> usbepstatus" where "demo_hw \<equiv> \<lambda>_ _. EP_STATUS_ACTIVE"

text \<open>Two packets come from the host.\<close>

lemma demo_packet:
  assumes "link_run demo_hw demo_usb es s" and "bit (receiving s) 1" and "es_cnt (ep_states s EP1_OUT) + length bs \<le> 256"
  shows "\<exists>s'. link_run demo_hw demo_usb (es @ [Came bs]) s' \<and> incoming s' = incoming s @ bs"
proof -
  let ?s = "s\<lparr>usb_k := usb_k demo_usb\<rparr>"
  have i: "link_inv ?s" using link_run_inv [OF assms(1) demo_link_ok(1)] by simp
  then have e: "link_enabled (Op_packet bs) ?s"
    using assms(2,3) demo_usb_irq(1) by (simp add: link_enabled_def link_inv_def rx_ok_def Let_def)
  obtain s' where s': "otg_rxfifo_out 1 bs ?s = Ok s'" "incoming s' = incoming s @ bs" using packet_ok [OF i, of bs] assms(2,3) by auto
  then have "link_exec demo_hw (Op_packet bs) ?s = Ok (Came bs, s')" by (simp add: link_exec_def)
  from link_run.link_next_step [OF assms(1) e this] s'(2) show ?thesis by blast
qed

lemma demo_run: "\<exists>s'. link_run demo_hw demo_usb [Came [1, 2, 3]] s' \<and> incoming s' = [1, 2, 3]"
proof -
  have "bit (receiving demo_usb) 1" "es_cnt (ep_states demo_usb EP1_OUT) = 0" by (simp_all add: demo_usb_def bit_numeral_rec)
  then show ?thesis using demo_packet [OF link_run.link_start, of "[1, 2, 3]"] demo_link_ok(5) by auto
qed




theorem enumeration_links_witness:
  "\<exists>s'. enumeration 9 1 demo_usb = Ok s' \<and> link_inv s' \<and> usb_address s' = 9 \<and> configuration s' = 1"
  using enumeration_links [OF demo_link_ok(2), of 1 9] by auto

theorem reconfiguration_overlaps_witness:
  "\<exists>s'. set_configuration usbcfg (demo_usb\<lparr>usb_setup := [0, 9, 1, 0, 0, 0, 0, 0]\<rparr>) = Ok s' \<and> dieptxf s' 1 = dieptxf s' 0"
proof -
  have "link_inv (demo_usb\<lparr>usb_setup := [0, 9, 1, 0, 0, 0, 0, 0]\<rparr>)" using demo_link_ok(1) by (simp add: link_defs tx_ok_def rx_ok_def)
  moreover have d: "dieptxf demo_usb 0 = (128, 16)" by (simp add: demo_usb_def)
  ultimately show ?thesis
    using reconfiguration_overlaps [of "demo_usb\<lparr>usb_setup := [0, 9, 1, 0, 0, 0, 0, 0]\<rparr>"] demo_link_ok(2) d by auto
qed

theorem wakeup_leaves_link_down_witness:
  "\<exists>s1 s2. usb_lld_serve_interrupt demo_hw \<lparr>usbrst = False, wkupint = False, usbsusp = True, sofint = False, rxflvl = None, oepint = [], iepint = []\<rparr> demo_usb = Ok s1 \<and>
     usb_lld_serve_interrupt demo_hw \<lparr>usbrst = False, wkupint = True, usbsusp = False, sofint = False, rxflvl = None, oepint = [], iepint = []\<rparr> s1 = Ok s2 \<and>
     usb_state s2 = USB_ACTIVE \<and> receiving s2 = 0"
proof -
  have "bq_bcounter (ibqueue (sdu demo_usb)) < length (bq_slots (ibqueue (sdu demo_usb)))" by (simp add: demo_usb_def demo_bq_def)
  then show ?thesis using wakeup_leaves_link_down [OF demo_link_ok(1,3) demo_usb_sel(1) _ refl refl, of demo_hw] by blast
qed

end
