(* ===== verification/BinSems.thy ===== *)
theory BinSems
  imports Semaphores
begin

text \<open>
  Binary semaphores (\<open>os/oslib/include/chbsem.h\<close>): counting semaphores whose count a signal never raises above one. \<open>bsp\<close> is the address of the
  semaphore, which is the only field of the structure.
\<close>

section \<open>Operations\<close>

definition chBSemObjectInit :: "ptr \<Rightarrow> bool \<Rightarrow> kernel \<Rightarrow> kernel kres" where
  "chBSemObjectInit bsp taken = chSemObjectInit bsp (if taken then 0 else 1)"

definition chBSemWait :: "ptr \<Rightarrow> kernel \<Rightarrow> (msg_t wait \<times> kernel) kres" where
  "chBSemWait bsp = chSemWait bsp"

definition chBSemWaitS :: "ptr \<Rightarrow> kernel \<Rightarrow> (msg_t wait \<times> kernel) kres" where
  "chBSemWaitS bsp k = chDbgCheckClassS k (chSemWaitS bsp k)"

definition chBSemWaitTimeoutS :: "ptr \<Rightarrow> u32 \<Rightarrow> kernel \<Rightarrow> (msg_t wait \<times> kernel) kres" where
  "chBSemWaitTimeoutS bsp timeout k = chDbgCheckClassS k (chSemWaitTimeoutS bsp timeout k)"

definition chBSemWaitTimeout :: "ptr \<Rightarrow> u32 \<Rightarrow> kernel \<Rightarrow> (msg_t wait \<times> kernel) kres" where
  "chBSemWaitTimeout bsp timeout = chSemWaitTimeout bsp timeout"

definition chBSemResetI :: "ptr \<Rightarrow> bool \<Rightarrow> kernel \<Rightarrow> kernel kres" where
  "chBSemResetI bsp taken k = chDbgCheckClassI k (chSemResetI bsp (if taken then 0 else 1) k)"

definition chBSemReset :: "ptr \<Rightarrow> bool \<Rightarrow> kernel \<Rightarrow> kernel kres" where
  "chBSemReset bsp taken = chSemReset bsp (if taken then 0 else 1)"

definition chBSemSignalI :: "ptr \<Rightarrow> kernel \<Rightarrow> kernel kres" where
  "chBSemSignalI bsp k = chDbgCheckClassI k (if sem_cnt k bsp < 1 then chSemSignalI bsp k else Ok k)"

definition chBSemSignal :: "ptr \<Rightarrow> kernel \<Rightarrow> kernel kres" where
  "chBSemSignal bsp = locked (\<lambda>k. kbind (chBSemSignalI bsp k) chSchRescheduleS)"

definition chBSemGetStateI :: "ptr \<Rightarrow> kernel \<Rightarrow> bool kres" where
  "chBSemGetStateI bsp k = chDbgCheckClassI k (Ok (if sem_cnt k bsp > 0 then False else True))"

section \<open>The semaphore is free, or taken with a queue of threads\<close>

datatype bsem = Free | Taken "ptr list"

fun bsem_signal :: "bsem \<Rightarrow> bsem" where
  "bsem_signal Free = Free"
| "bsem_signal (Taken []) = Free"
| "bsem_signal (Taken (t # ts)) = Taken ts"

fun bsem_wait :: "ptr \<Rightarrow> bsem \<Rightarrow> bsem" where
  "bsem_wait t Free = Taken []"
| "bsem_wait t (Taken ts) = Taken (ts @ [t])"

definition bsem_rep :: "ptr \<Rightarrow> bsem \<Rightarrow> kernel \<Rightarrow> bool" where
  "bsem_rep bsp b k \<longleftrightarrow> bsp \<noteq> NULL \<and> sched_inv k \<and> sem_inv bsp k \<and>
     (case b of Free \<Rightarrow> sem_cnt k bsp = 1 \<and> queues k (TQ bsp) = [] | Taken ts \<Rightarrow> sem_cnt k bsp \<le> 0 \<and> queues k (TQ bsp) = ts)"

lemma bsem_rep_abs:
  assumes "bsem_rep bsp b k"
  shows "sem_abs bsp k = (case b of Free \<Rightarrow> (1, []) | Taken ts \<Rightarrow> (0, ts))"
  using assms by (auto simp: bsem_rep_def sem_abs_def split: bsem.splits)

lemma bsem_repI:
  assumes "bsp \<noteq> NULL" and "sched_inv k" and "sem_inv bsp k" and "sem_abs bsp k = (case b of Free \<Rightarrow> (1, []) | Taken ts \<Rightarrow> (0, ts))"
  shows "bsem_rep bsp b k"
  using assms by (auto simp: bsem_rep_def sem_abs_def split: bsem.splits)

lemma bsem_signal_rep:
  assumes "bsem_rep bsp b k" and "i_ctx k"
  shows "\<exists>k'. chBSemSignalI bsp k = Ok k' \<and> i_ctx k' \<and> bsem_rep bsp (bsem_signal b) k' \<and>
    (\<forall>t ts. b = Taken (t # ts) \<longrightarrow> state_of k' t = CH_STATE_READY \<and> rdymsg_of k' t = MSG_OK)"
proof (cases b)
  case Free
  then show ?thesis using assms by (simp add: chBSemSignalI_def bsem_rep_def)
next
  case (Taken ts)
  have r: "bsp \<noteq> NULL" "sched_inv k" "sem_inv bsp k" "sem_cnt k bsp < 1" "queues k (TQ bsp) = ts" using assms(1) Taken by (simp_all add: bsem_rep_def)
  from chSemSignalI_ok [OF r(2) assms(2) r(3,1)] obtain k' where
    k': "chSemSignalI bsp k = Ok k'" "sched_inv k'" "i_ctx k'" "sem_inv bsp k'" "sem_abs bsp k' = spec_signal (sem_abs bsp k)"
      "\<forall>t ts. queues k (TQ bsp) = t # ts \<longrightarrow> state_of k' t = CH_STATE_READY \<and> rdymsg_of k' t = MSG_OK" by blast
  have "bsem_rep bsp (bsem_signal b) k'"
    using k' bsem_rep_abs [OF assms(1)] r(1) Taken by (intro bsem_repI) (cases ts; simp)+
  then show ?thesis using k' r assms(2) Taken by (auto simp: chBSemSignalI_def)
qed

lemma bsem_wait_rep:
  assumes "bsem_rep bsp b k" and "thd_ctx k" and "queues k RLIST \<noteq> []"
  shows "\<exists>k'. chBSemWaitS bsp k = Ok (if b = Free then Returned MSG_OK else Asleep, k') \<and> thd_ctx k' \<and> bsem_rep bsp (bsem_wait (currp k) b) k'"
proof -
  have r: "bsp \<noteq> NULL" "sched_inv k" "sem_inv bsp k" using assms(1) by (simp_all add: bsem_rep_def)
  note e = chSemWaitS_eq [OF r(2) assms(2) r(3,1) assms(3)]
  show ?thesis
  proof (cases b)
    case Free
    then show ?thesis using e assms(1,2) by (auto simp: chBSemWaitS_def bsem_rep_def sem_inv_def)
  next
    case (Taken ts)
    then have c: "sem_cnt k bsp \<le> 0" using assms(1) by (simp add: bsem_rep_def)
    note z = sem_sleep_ok [OF r(2,3) c assms(3)]
    have "bsem_rep bsp (bsem_wait (currp k) b) (sem_sleep bsp k)"
      using z bsem_rep_abs [OF assms(1)] r(1) Taken by (intro bsem_repI) (simp_all add: sched_ok_def)
    then show ?thesis using e z assms(2) c Taken by (auto simp: chBSemWaitS_def)
  qed
qed

lemma bsem_reset_rep:
  assumes "bsem_rep bsp b k" and "i_ctx k"
  shows "\<exists>k'. chBSemResetI bsp taken k = Ok k' \<and> i_ctx k' \<and> bsem_rep bsp (if taken then Taken [] else Free) k'"
proof -
  have r: "bsp \<noteq> NULL" "sched_inv k" "sem_inv bsp k" using assms(1) by (simp_all add: bsem_rep_def)
  obtain k' where k': "chSemResetWithMessageI bsp (if taken then 0 else 1) MSG_RESET k = Ok k'" "sched_inv k'" "queues k' (TQ bsp) = []"
      "sem_cnt k' = (sem_cnt k)(bsp := if taken then 0 else 1)" "isr_cnt k' = isr_cnt k" "lock_cnt k' = lock_cnt k"
    by (rule chSemResetWithMessageI_ok [OF r(2) assms(2) r(3,1), of "if taken then 0 else 1" MSG_RESET]) auto
  have "i_ctx k'" using i_ctx_cong [OF k'(5,6)] assms(2) by simp
  then show ?thesis using k' r assms(2) by (auto simp: chBSemResetI_def chSemResetI_def bsem_rep_def sem_inv_def)
qed

text \<open>Calls of threads and interrupt handlers in any order; the specification runs beside them.\<close>

inductive bsem_step :: "ptr \<Rightarrow> kernel \<times> bsem \<Rightarrow> kernel \<times> bsem \<Rightarrow> bool" for bsp where
  signals: "bsem_step bsp (k, b) (k', bsem_signal b)" if "i_ctx k" "chBSemSignalI bsp k = Ok k'"
| waits: "bsem_step bsp (k, b) (k', bsem_wait (currp k) b)" if "thd_ctx k" "queues k RLIST \<noteq> []" "chBSemWaitS bsp k = Ok (r, k')"
| resets: "bsem_step bsp (k, b) (k', if taken then Taken [] else Free)" if "i_ctx k" "chBSemResetI bsp taken k = Ok k'"

lemma bsem_step_rep: "bsem_step bsp c c' \<Longrightarrow> bsem_rep bsp (snd c) (fst c) \<Longrightarrow> bsem_rep bsp (snd c') (fst c')"
proof (induction rule: bsem_step.induct)
  case (signals k k' b)
  then show ?case using bsem_signal_rep [of bsp b k] by auto
next
  case (waits k r k' b)
  then show ?case using bsem_wait_rep [of bsp b k] by auto
next
  case (resets k taken k' b)
  then show ?case using bsem_reset_rep [of bsp b k taken] by auto
qed

lemma bsem_reach_rep:
  assumes "(bsem_step bsp)\<^sup>*\<^sup>* (k, b) (k', b')" and "bsem_rep bsp b k"
  shows "bsem_rep bsp b' k'"
proof -
  have "bsem_rep bsp (snd (k', b')) (fst (k', b'))" using assms(1)
  proof (induction rule: rtranclp_induct)
    case base
    then show ?case using assms(2) by simp
  next
    case (step y z)
    show ?case using bsem_step_rep [OF step(2,3)] .
  qed
  then show ?thesis by simp
qed

text \<open>
  A binary semaphore is free or taken. In every history of signals, waits and resets its state follows the specification: a signal of a free semaphore does nothing,
  a signal of a taken one gives it to the thread that has waited longest or makes it free, \<open>chBSemGetStateI\<close> reports which of the two it is,
  and no check of a further call fails.
\<close>

theorem binary_semaphore_refines:
  assumes "bsem_rep bsp b k" and "(bsem_step bsp)\<^sup>*\<^sup>* (k, b) (k', b')"
  shows "sem_cnt k' bsp \<le> 1 \<and> (i_ctx k' \<longrightarrow> chBSemGetStateI bsp k' = Ok (b' \<noteq> Free)) \<and>
    (i_ctx k' \<longrightarrow> (\<exists>k''. chBSemSignalI bsp k' = Ok k'' \<and> (\<forall>t ts. b' = Taken (t # ts) \<longrightarrow> state_of k'' t = CH_STATE_READY \<and> queues k'' (TQ bsp) = ts))) \<and>
    (thd_ctx k' \<and> queues k' RLIST \<noteq> [] \<longrightarrow> (\<exists>k''. chBSemWaitS bsp k' = Ok (if b' = Free then Returned MSG_OK else Asleep, k'')))"
proof -
  note r = bsem_reach_rep [OF assms(2,1)]
  have "sem_cnt k' bsp \<le> 1" and s: "sem_cnt k' bsp > 0 \<longleftrightarrow> b' = Free" using r by (auto simp: bsem_rep_def split: bsem.splits)
  moreover have "\<exists>k''. chBSemSignalI bsp k' = Ok k'' \<and> (\<forall>t ts. b' = Taken (t # ts) \<longrightarrow> state_of k'' t = CH_STATE_READY \<and> queues k'' (TQ bsp) = ts)" if "i_ctx k'"
    using bsem_signal_rep [OF r that] by (fastforce simp: bsem_rep_def)
  ultimately show ?thesis using bsem_wait_rep [OF r] by (auto simp: chBSemGetStateI_def)
qed

theorem binary_semaphore_refines_witness:
  "\<exists>k k'. chBSemObjectInit 64 True demo_kernel = Ok k \<and> chBSemSignalI 64 k = Ok k' \<and> chBSemGetStateI 64 k' = Ok False"
proof -
  let ?k = "set_cnt 64 0 (upd_q (TQ 64) (\<lambda>_. []) demo_kernel)"
  have q: "queues demo_kernel (TQ 64) = []" by (simp add: demo_kernel_def kernel_reset_def)
  have i: "chBSemObjectInit 64 True demo_kernel = Ok ?k" by (simp add: chBSemObjectInit_def chSemObjectInit_def)
  have u: "upd_q (TQ 64) (\<lambda>_. []) demo_kernel = demo_kernel" using q by (simp add: upd_q_def fun_upd_idem)
  have c: "i_ctx ?k" and r: "bsem_rep 64 (Taken []) ?k" using demo_kernel_ok q by (simp_all add: u bsem_rep_def sem_inv_def)
  from bsem_signal_rep [OF r c] obtain k' where k': "chBSemSignalI 64 ?k = Ok k'" "i_ctx k'" by blast
  have "(bsem_step 64)\<^sup>*\<^sup>* (?k, Taken []) (k', Free)" using bsem_step.signals [OF c k'(1), of "Taken []"] by simp
  then show ?thesis using i k' binary_semaphore_refines [OF r, of k' Free] by auto
qed

end
