(* ===== verification/MemCore.thy ===== *)
theory MemCore
  imports HalDrivers Threads
begin

text \<open>
  Alignment of addresses (\<open>os/rt/include/chalign.h\<close>) and the core memory manager
  (\<open>os/oslib/src/chmemcore.c\<close>, \<open>os/oslib/include/chmemcore.h\<close>), which hands out memory between two addresses, from either end, and
  never takes it back. Addresses and sizes are 32 bits wide and wrap around, as on the target.

  A request is shown to be served correctly whenever its size, offset and alignment together
  do not exceed the address space (\<open>core_alloc_ok\<close>); beyond that the checks for overflow fail
  (\<open>core_alloc_overflow\<close>).
\<close>

section \<open>Alignment\<close>

definition MEM_ALIGN_MASK :: "u32 \<Rightarrow> u32" where
  "MEM_ALIGN_MASK a = a - 1"

definition MEM_ALIGN_PREV :: "u32 \<Rightarrow> u32 \<Rightarrow> u32" where
  "MEM_ALIGN_PREV p a = p AND NOT (MEM_ALIGN_MASK a)"

definition MEM_ALIGN_NEXT :: "u32 \<Rightarrow> u32 \<Rightarrow> u32" where
  "MEM_ALIGN_NEXT p a = MEM_ALIGN_PREV (p + MEM_ALIGN_MASK a) a"

definition MEM_IS_VALID_ALIGNMENT :: "u32 \<Rightarrow> bool" where
  "MEM_IS_VALID_ALIGNMENT a \<longleftrightarrow> a \<noteq> 0 \<and> a AND (a - 1) = 0"

text \<open>The valid alignments are the powers of two.\<close>

lemma and_pred_power: "x > 0 \<Longrightarrow> x AND (x - 1) = 0 \<Longrightarrow> \<exists>n. x = 2 ^ n" for x :: nat
proof (induction x rule: less_induct)
  case (less x)
  show ?case
  proof (cases "even x")
    case True
    then obtain y where y: "x = 2 * y" by (elim evenE)
    have "x AND (x - 1) = of_bool (odd x \<and> odd (x - 1)) + 2 * ((x div 2) AND ((x - 1) div 2))" by (rule and_rec)
    moreover have "(x - 1) div 2 = y - 1" using y less(2) by simp
    ultimately have "y AND (y - 1) = 0" using less(3) y by simp
    then obtain n where "y = 2 ^ n" using less(1) [of y] y less(2) by auto
    then show ?thesis using y by (intro exI [of _ "Suc n"]) simp
  next
    case False
    then obtain y where y: "x = 2 * y + 1" by (elim oddE)
    have "x AND (x - 1) = of_bool (odd x \<and> odd (x - 1)) + 2 * ((x div 2) AND ((x - 1) div 2))" by (rule and_rec)
    then have "y = 0" using less(3) y by simp
    then show ?thesis using y by (intro exI [of _ 0]) simp
  qed
qed

lemma valid_alignment:
  assumes "MEM_IS_VALID_ALIGNMENT a"
  obtains n where "a = 2 ^ n" and "n < 32" and "unat a = 2 ^ n"
proof -
  have z: "a \<noteq> 0" "a AND (a - 1) = 0" using assms by (simp_all add: MEM_IS_VALID_ALIGNMENT_def)
  have p: "unat a > 0" using z(1) by (simp add: unat_gt_0)
  have "unat (a AND (a - 1)) = unat a AND unat (a - 1)" by (rule unsigned_and_eq)
  moreover have "unat (a - 1) = unat a - 1" using z(1) by (simp add: unat_minus_one)
  ultimately have "unat a AND (unat a - 1) = 0" using z(2) by simp
  then obtain n where n: "unat a = 2 ^ n" using and_pred_power [OF p] by blast
  then have l: "n < 32" using unat_less32 [of a] by (metis nat_power_less_imp_less zero_less_numeral)
  have "a = of_nat (2 ^ n)" using n by (metis of_nat_unat ucast_id)
  then show ?thesis using that [of n] l n by simp
qed

lemma align_prev_power:
  assumes "n < 32"
  shows "unat (MEM_ALIGN_PREV p (2 ^ n)) = unat p div 2 ^ n * 2 ^ n"
proof -
  have "MEM_ALIGN_PREV p (2 ^ n) = push_bit n (drop_bit n p)"
    unfolding MEM_ALIGN_PREV_def MEM_ALIGN_MASK_def
    by (rule bit_word_eqI) (auto simp: bit_simps simp flip: mask_eq_exp_minus_1)
  moreover have "unat (push_bit n (drop_bit n p)) = take_bit 32 (push_bit n (unat p div 2 ^ n))"
    unfolding unsigned_push_bit_eq unsigned_drop_bit_eq using unat_less32 [of p] by (simp add: take_bit_nat_eq_self flip: drop_bit_eq_div)
  moreover have "unat p div 2 ^ n * 2 ^ n < 2 ^ 32" using unat_less32 [of p] by (rule le_less_trans [OF div_times_less_eq_dividend])
  ultimately show ?thesis by (simp add: push_bit_eq_mult take_bit_eq_mod)
qed

lemma align_prev:
  assumes "MEM_IS_VALID_ALIGNMENT a"
  shows "unat (MEM_ALIGN_PREV p a) = unat p div unat a * unat a"
proof -
  obtain n where "a = 2 ^ n" "n < 32" "unat a = 2 ^ n" using valid_alignment [OF assms] .
  then show ?thesis using align_prev_power by metis
qed

lemma unat_valid: "MEM_IS_VALID_ALIGNMENT a \<Longrightarrow> unat a > 0"
  by (simp add: MEM_IS_VALID_ALIGNMENT_def unat_gt_0)

lemma is_aligned_iff:
  assumes "MEM_IS_VALID_ALIGNMENT a"
  shows "MEM_IS_ALIGNED p a \<longleftrightarrow> unat a dvd unat p"
proof -
  obtain n where n: "a = 2 ^ n" "n < 32" "unat a = 2 ^ n" using valid_alignment [OF assms] .
  have "p AND (a - 1) = take_bit n p" for p :: u32 unfolding n(1) by (simp add: take_bit_eq_mask flip: mask_eq_exp_minus_1)
  moreover have "unat (take_bit n p) = unat p mod 2 ^ n" for p :: u32 unfolding unsigned_take_bit_eq by (rule take_bit_eq_mod)
  ultimately have "MEM_IS_ALIGNED p a \<longleftrightarrow> unat p mod unat a = 0" by (simp add: MEM_IS_ALIGNED_def n(3) unat_eq_0 [symmetric])
  then show ?thesis by (simp add: dvd_eq_mod_eq_0)
qed

text \<open>The next aligned address; beyond the end of the address space it wraps around.\<close>

lemma align_mod:
  fixes y a :: nat
  assumes "a dvd m" and "a > 0"
  shows "(y mod m) div a * a = (y div a * a) mod m"
proof -
  obtain c where c: "m = a * c" using assms(1) by blast
  have "(y mod m) div a = y div a mod c" unfolding c mod_mult2_eq using assms(2) by simp
  moreover have "(y div a * a) mod m = (y div a mod c) * a" unfolding c mult.commute [of a c] by (rule mod_mult_mult2)
  ultimately show ?thesis by simp
qed

lemma valid_dvd: "MEM_IS_VALID_ALIGNMENT a \<Longrightarrow> unat a dvd 2 ^ 32"
  using valid_alignment [of a] by (metis le_imp_power_dvd less_imp_le)

lemma align_next_sum:
  assumes "MEM_IS_VALID_ALIGNMENT a"
  shows "unat (MEM_ALIGN_NEXT (x + y) a) = ((unat x + unat y + (unat a - 1)) div unat a * unat a) mod 2 ^ 32"
proof -
  have "unat (a - 1) = unat a - 1" using assms by (simp add: MEM_IS_VALID_ALIGNMENT_def unat_minus_one)
  then have "unat (x + y + (a - 1)) = (unat x + unat y + (unat a - 1)) mod 2 ^ 32" by (simp add: unat_word_ariths mod_simps)
  then show ?thesis
    using align_mod [OF valid_dvd [OF assms] unat_valid [OF assms]] by (simp add: MEM_ALIGN_NEXT_def MEM_ALIGN_MASK_def align_prev [OF assms])
qed

lemmas align_next = align_next_sum [where y = 0, simplified]

lemma div_mult_bounds:
  fixes x a :: nat
  assumes "a > 0"
  shows "x div a * a \<le> x" and "x < x div a * a + a" and "a dvd x div a * a"
  using assms dividend_less_div_times [of a x] by (simp_all add: add.commute)

section \<open>Core memory\<close>

record memcore =
  basemem :: u32
  topmem :: u32

definition core_init :: "u32 \<Rightarrow> u32 \<Rightarrow> memcore" where
  "core_init heap_base heap_end = \<lparr>basemem = heap_base, topmem = heap_end\<rparr>"

definition chCoreAllocFromBaseI :: "u32 \<Rightarrow> u32 \<Rightarrow> u32 \<Rightarrow> memcore \<Rightarrow> kernel \<Rightarrow> (ptr \<times> memcore) kres" where
  "chCoreAllocFromBaseI sz align offset mc k =
     chDbgCheckClassI k (
     kguard (MEM_IS_VALID_ALIGNMENT align) ''chCoreAllocFromBaseI'' (
     let p = MEM_ALIGN_NEXT (basemem mc + offset) align; next = p + sz in
     if next > topmem mc \<or> next < basemem mc then Ok (NULL, mc)
     else Ok (p, mc\<lparr>basemem := next\<rparr>)))"

definition chCoreAllocFromTopI :: "u32 \<Rightarrow> u32 \<Rightarrow> u32 \<Rightarrow> memcore \<Rightarrow> kernel \<Rightarrow> (ptr \<times> memcore) kres" where
  "chCoreAllocFromTopI sz align offset mc k =
     chDbgCheckClassI k (
     kguard (MEM_IS_VALID_ALIGNMENT align) ''chCoreAllocFromTopI'' (
     let p = MEM_ALIGN_PREV (topmem mc - sz) align; prev = p - offset in
     if prev < basemem mc \<or> prev > topmem mc then Ok (NULL, mc)
     else Ok (p, mc\<lparr>topmem := prev\<rparr>)))"

definition chCoreAllocFromBase :: "u32 \<Rightarrow> u32 \<Rightarrow> u32 \<Rightarrow> memcore \<Rightarrow> kernel \<Rightarrow> (ptr \<times> memcore \<times> kernel) kres" where
  "chCoreAllocFromBase sz align offset mc k =
     kbind (chSysLock k) (\<lambda>k. kbind (chCoreAllocFromBaseI sz align offset mc k) (\<lambda>(p, mc).
     kbind (chSysUnlock k) (\<lambda>k. Ok (p, mc, k))))"

definition chCoreAllocFromTop :: "u32 \<Rightarrow> u32 \<Rightarrow> u32 \<Rightarrow> memcore \<Rightarrow> kernel \<Rightarrow> (ptr \<times> memcore \<times> kernel) kres" where
  "chCoreAllocFromTop sz align offset mc k =
     kbind (chSysLock k) (\<lambda>k. kbind (chCoreAllocFromTopI sz align offset mc k) (\<lambda>(p, mc).
     kbind (chSysUnlock k) (\<lambda>k. Ok (p, mc, k))))"

text \<open>The inline functions of \<open>chmemcore.h\<close>, which take memory from the top.\<close>

definition PORT_NATURAL_ALIGN :: u32 where "PORT_NATURAL_ALIGN = 4"

definition chCoreAllocAlignedI :: "u32 \<Rightarrow> u32 \<Rightarrow> memcore \<Rightarrow> kernel \<Rightarrow> (ptr \<times> memcore) kres" where
  "chCoreAllocAlignedI sz align = chCoreAllocFromTopI sz align 0"

definition chCoreAllocAligned :: "u32 \<Rightarrow> u32 \<Rightarrow> memcore \<Rightarrow> kernel \<Rightarrow> (ptr \<times> memcore \<times> kernel) kres" where
  "chCoreAllocAligned sz align = chCoreAllocFromTop sz align 0"

definition chCoreAllocI :: "u32 \<Rightarrow> memcore \<Rightarrow> kernel \<Rightarrow> (ptr \<times> memcore) kres" where
  "chCoreAllocI sz = chCoreAllocFromTopI sz PORT_NATURAL_ALIGN 0"

definition chCoreAlloc :: "u32 \<Rightarrow> memcore \<Rightarrow> kernel \<Rightarrow> (ptr \<times> memcore \<times> kernel) kres" where
  "chCoreAlloc sz = chCoreAllocFromTop sz PORT_NATURAL_ALIGN 0"

definition chCoreGetStatusX :: "memcore \<Rightarrow> u32" where
  "chCoreGetStatusX mc = topmem mc - basemem mc"

text \<open>
  A request that stays within the address space: from either end, the block and the \<open>offset\<close> bytes before it lie in
  the free memory, the block is aligned, and what remains is the free memory before (from the base) or behind it. The
  request is refused only if it does not fit at the place where the allocator would put it.
\<close>

definition core_request :: "u32 \<Rightarrow> u32 \<Rightarrow> u32 \<Rightarrow> bool" where
  "core_request sz align offset \<longleftrightarrow> MEM_IS_VALID_ALIGNMENT align \<and> unat sz + unat align + unat offset \<le> 2 ^ 32"

lemma core_top_ok:
  assumes "core_request sz align offset" and "basemem mc \<le> topmem mc" and "i_ctx k"
  defines "q \<equiv> (unat (topmem mc) - unat sz) div unat align * unat align"
  shows "unat (basemem mc) + unat offset \<le> q \<and> unat sz \<le> unat (topmem mc) \<Longrightarrow>
      \<exists>p. chCoreAllocFromTopI sz align offset mc k = Ok (p, mc\<lparr>topmem := p - offset\<rparr>) \<and> unat p = q \<and> unat (p - offset) = q - unat offset"
    and "\<not> (unat (basemem mc) + unat offset \<le> q \<and> unat sz \<le> unat (topmem mc)) \<Longrightarrow>
      chCoreAllocFromTopI sz align offset mc k = Ok (NULL, mc)"
proof -
  let ?T = "unat (topmem mc)" let ?a = "unat align" let ?p = "MEM_ALIGN_PREV (topmem mc - sz) align"
  have v: "MEM_IS_VALID_ALIGNMENT align" "unat sz + ?a + unat offset \<le> 2 ^ 32" "?a > 0" using assms(1) unat_valid by (simp_all add: core_request_def)
  have le: "unat (basemem mc) \<le> ?T" using assms(2) by (simp add: word_le_nat_alt)
  have p: "unat ?p = unat (topmem mc - sz) div ?a * ?a" using align_prev [OF v(1)] .
  have body: "chCoreAllocFromTopI sz align offset mc k =
      (if ?p - offset < basemem mc \<or> ?p - offset > topmem mc then Ok (NULL, mc) else Ok (?p, mc\<lparr>topmem := ?p - offset\<rparr>))"
    using v(1) assms(3) by (simp add: chCoreAllocFromTopI_def Let_def)
  have d: "unat (x - y) = (if unat y \<le> unat x then unat x - unat y else 2 ^ 32 + unat x - unat y)" for x y :: u32
    by (auto simp: unat_sub_if')
  note b = div_mult_bounds [OF v(3)]
  show "\<exists>p. chCoreAllocFromTopI sz align offset mc k = Ok (p, mc\<lparr>topmem := p - offset\<rparr>) \<and> unat p = q \<and> unat (p - offset) = q - unat offset"
    if c: "unat (basemem mc) + unat offset \<le> q \<and> unat sz \<le> ?T"
  proof -
    have "unat ?p = q" using p c d [of "topmem mc" sz] by (simp add: q_def)
    moreover from this have "unat (?p - offset) = q - unat offset" using d [of ?p offset] c by simp
    moreover have "q \<le> ?T" unfolding q_def using b(1) diff_le_self by (rule order_trans)
    ultimately show ?thesis unfolding body using c by (intro exI [of _ ?p]) (auto simp: word_less_nat_alt)
  qed
  show "chCoreAllocFromTopI sz align offset mc k = Ok (NULL, mc)" if c: "\<not> (unat (basemem mc) + unat offset \<le> q \<and> unat sz \<le> ?T)"
  proof -
    have "unat (?p - offset) < unat (basemem mc) \<or> unat (?p - offset) > ?T"
    proof (cases "unat sz \<le> ?T")
      case True
      then have pq: "unat ?p = q" using p d [of "topmem mc" sz] by (simp add: q_def)
      have l: "?T - unat sz < q + ?a" using b(2) [of "?T - unat sz"] by (simp add: q_def)
      show ?thesis
      proof (cases "unat offset \<le> q")
        case True
        then show ?thesis using d [of ?p offset] pq c \<open>unat sz \<le> ?T\<close> by (simp add: not_le less_diff_conv2)
      next
        case False
        then have "unat (?p - offset) = 2 ^ 32 + q - unat offset" using d [of ?p offset] pq by simp
        then show ?thesis using l v(2) True by linarith
      qed
    next
      case False
      then have e: "unat (topmem mc - sz) = 2 ^ 32 + ?T - unat sz" using d [of "topmem mc" sz] by simp
      have l: "2 ^ 32 + ?T - unat sz < unat ?p + ?a" using b(2) [of "unat (topmem mc - sz)"] unfolding p e .
      then have "unat offset \<le> unat ?p" using v(2) False by linarith
      then have "unat (?p - offset) = unat ?p - unat offset" using d [of ?p offset] by simp
      then show ?thesis using l v(2) False by linarith
    qed
    then show ?thesis unfolding body by (auto simp: word_less_nat_alt)
  qed
qed

lemma core_base_ok:
  assumes "core_request sz align offset" and "basemem mc \<le> topmem mc" and "i_ctx k"
  defines "q \<equiv> (unat (basemem mc) + unat offset + (unat align - 1)) div unat align * unat align"
  shows "q + unat sz \<le> unat (topmem mc) \<Longrightarrow>
      \<exists>p. chCoreAllocFromBaseI sz align offset mc k = Ok (p, mc\<lparr>basemem := p + sz\<rparr>) \<and> unat p = q \<and> unat (p + sz) = q + unat sz"
    and "\<not> q + unat sz \<le> unat (topmem mc) \<Longrightarrow> chCoreAllocFromBaseI sz align offset mc k = Ok (NULL, mc)"
proof -
  let ?B = "unat (basemem mc)" let ?T = "unat (topmem mc)" let ?a = "unat align" let ?p = "MEM_ALIGN_NEXT (basemem mc + offset) align"
  have v: "MEM_IS_VALID_ALIGNMENT align" "unat sz + ?a + unat offset \<le> 2 ^ 32" "?a > 0" using assms(1) unat_valid by (simp_all add: core_request_def)
  have le: "?B \<le> ?T" "?T < 2 ^ 32" using assms(2) unat_less32 by (simp_all only: word_le_nat_alt)
  have body: "chCoreAllocFromBaseI sz align offset mc k =
      (if ?p + sz > topmem mc \<or> ?p + sz < basemem mc then Ok (NULL, mc) else Ok (?p, mc\<lparr>basemem := ?p + sz\<rparr>))"
    using v(1) assms(3) by (simp add: chCoreAllocFromBaseI_def Let_def)
  note b = div_mult_bounds [OF v(3), of "?B + unat offset + (?a - 1)"]
  have qB: "?B + unat offset \<le> q" "q \<le> ?B + unat offset + (?a - 1)" unfolding q_def using b v(3) by linarith+
  have p: "unat ?p = q mod 2 ^ 32" unfolding q_def by (rule align_next_sum [OF v(1)])
  then have n: "unat (?p + sz) = (q + unat sz) mod 2 ^ 32" by (simp add: unat_word_ariths mod_simps)
  show "\<exists>p. chCoreAllocFromBaseI sz align offset mc k = Ok (p, mc\<lparr>basemem := p + sz\<rparr>) \<and> unat p = q \<and> unat (p + sz) = q + unat sz"
    if c: "q + unat sz \<le> ?T"
  proof -
    have "unat ?p = q" "unat (?p + sz) = q + unat sz" using p n c le(2) by simp_all
    then show ?thesis unfolding body using c qB(1) by (intro exI [of _ ?p]) (auto simp: word_less_nat_alt)
  qed
  show "chCoreAllocFromBaseI sz align offset mc k = Ok (NULL, mc)" if c: "\<not> q + unat sz \<le> ?T"
  proof (cases "q + unat sz < 2 ^ 32")
    case True
    then show ?thesis unfolding body using n c by (auto simp: word_less_nat_alt)
  next
    case False
    have "q + unat sz < 2 ^ 32 + ?B" using qB(2) v(2,3) by linarith
    moreover from this have "(q + unat sz) mod 2 ^ 32 = q + unat sz - 2 ^ 32" using False le by (intro mod_nat_eqI) auto
    ultimately have "unat (?p + sz) < ?B" using n False by linarith
    then show ?thesis unfolding body by (auto simp: word_less_nat_alt)
  qed
qed


text \<open>
  The checks against overflow do not see a block of nearly the size of the address space: it is
  "allocated" behind the end of the free memory, which is left as it was.
\<close>

theorem core_alloc_overflow:
  assumes "basemem mc \<le> topmem mc" and "8 dvd unat (topmem mc)" and "i_ctx k"
  shows "chCoreAllocFromTopI 0xFFFFFFF8 8 8 mc k = Ok (topmem mc + 8, mc)"
proof -
  have v: "MEM_IS_VALID_ALIGNMENT 8" by (simp add: MEM_IS_VALID_ALIGNMENT_def)
  have e: "topmem mc - 0xFFFFFFF8 = topmem mc + (8 :: u32)" by simp
  have "unat (topmem mc + 8) = (unat (topmem mc) + 8) mod 2 ^ 32" by (simp add: unat_word_ariths)
  then have "8 dvd unat (topmem mc + 8)" using assms(2) by (simp add: dvd_mod)
  then have "unat (MEM_ALIGN_PREV (topmem mc + 8) 8) = unat (topmem mc + 8)" using align_prev [OF v, of "topmem mc + 8"] by simp
  then have "MEM_ALIGN_PREV (topmem mc + 8) 8 = topmem mc + 8" by (simp add: word_unat_eq_iff)
  then show ?thesis using assms(1,3) v unfolding chCoreAllocFromTopI_def e by (simp add: Let_def not_less [symmetric])
qed

lemma demo_i_ctx [simp]: "i_ctx demo_kernel" by (simp add: i_ctx_def demo_kernel_def kernel_reset_def)


theorem core_alloc_overflow_witness:
  "chCoreAllocFromTopI 0xFFFFFFF8 8 8 (core_init 0x20001000 0x20002000) demo_kernel
     = Ok (0x20002008, core_init 0x20001000 0x20002000)"
  using core_alloc_overflow [of "core_init 0x20001000 0x20002000" "demo_kernel"] by (simp add: core_init_def)

end
