(* ===== verification/Heaps.thy ===== *)
theory Heaps
  imports MemCore Mutexes
begin

text \<open>
  The heap allocator (\<open>os/oslib/src/chmemheaps.c\<close>, \<open>os/oslib/include/chmemheaps.h\<close>): first fit
  with splitting, address ordered free list with merging, behind a mutex, with the core memory
  manager as the provider of the default heap.

  The free list lives in the memory it describes. The model keeps that memory as a map from
  addresses to 32-bit words: a header at \<open>hp\<close> is the words at \<open>hp\<close> and \<open>hp + 4\<close>, read as
  \<open>free.next\<close> and \<open>free.pages\<close> or as \<open>used.heap\<close> and \<open>used.size\<close>, since the two structures of
  \<open>union heap_header\<close> overlap. A heap descriptor at \<open>heapp\<close> has its list header at \<open>heapp + 4\<close>
  and its mutex at \<open>heapp + 12\<close>. The address of \<open>default_heap\<close>, which the linker chooses, is a parameter.

  \<open>free_chain m q bs\<close> relates the words of memory to the list \<open>bs\<close> of free blocks; \<open>alloc_blocks\<close> and
  \<open>free_blocks\<close> say what the operations do to it. The list is determined by the set of free pages
  (\<open>sep_unique\<close>), so that the operations are, up to the choice of the place, the removal and the addition
  of an interval of pages. What the operations do to the list of a heap is \<open>heap_search_list\<close> and
  \<open>heap_free_list\<close>; the theory \<open>HeapClients\<close> builds on them.
\<close>

section \<open>The operations\<close>

datatype memgetfunc2 = NO_PROVIDER | chCoreAllocAlignedWithOffset

record heapsys =
  hmem :: "ptr \<Rightarrow> u32"
  hprov :: "ptr \<Rightarrow> memgetfunc2"
  hcore :: memcore
  hk :: kernel

definition CH_HEAP_ALIGNMENT :: u32 where "CH_HEAP_ALIGNMENT = 8"

definition H_BLOCK :: "ptr \<Rightarrow> ptr" where "H_BLOCK hp = hp + 8"

definition H_NEXT :: "(ptr \<Rightarrow> u32) \<Rightarrow> ptr \<Rightarrow> ptr" where "H_NEXT m hp = m hp"

definition H_PAGES :: "(ptr \<Rightarrow> u32) \<Rightarrow> ptr \<Rightarrow> u32" where "H_PAGES m hp = m (hp + 4)"

definition H_HEAP :: "(ptr \<Rightarrow> u32) \<Rightarrow> ptr \<Rightarrow> ptr" where "H_HEAP m hp = m hp"

definition H_SIZE :: "(ptr \<Rightarrow> u32) \<Rightarrow> ptr \<Rightarrow> u32" where "H_SIZE m hp = m (hp + 4)"

definition H_LIMIT :: "(ptr \<Rightarrow> u32) \<Rightarrow> ptr \<Rightarrow> ptr" where
  "H_LIMIT m hp = H_BLOCK hp + H_PAGES m hp * 8"

text \<open>The difference of two pointers to 8-byte headers is signed, and then read as \<open>size_t\<close>.\<close>

definition NPAGES :: "ptr \<Rightarrow> ptr \<Rightarrow> u32" where
  "NPAGES p1 p2 = signed_drop_bit 3 (p1 - p2)"

definition heap_header :: "ptr \<Rightarrow> ptr" where "heap_header heapp = heapp + 4"

definition heap_mtx :: "ptr \<Rightarrow> ptr" where "heap_mtx heapp = heapp + 12"

definition heap_init :: "ptr \<Rightarrow> heapsys \<Rightarrow> heapsys kres" where
  "heap_init dheap hs =
     (let m = (hmem hs)(heap_header dheap := NULL, heap_header dheap + 4 := 0)
      in kbind (chMtxObjectInit (heap_mtx dheap) (hk hs)) (\<lambda>k.
         Ok (hs\<lparr>hprov := (hprov hs)(dheap := chCoreAllocAlignedWithOffset), hmem := m, hk := k\<rparr>)))"

definition chHeapObjectInit :: "ptr \<Rightarrow> ptr \<Rightarrow> u32 \<Rightarrow> heapsys \<Rightarrow> heapsys kres" where
  "chHeapObjectInit heapp buf sz hs =
     (let hp = MEM_ALIGN_NEXT buf CH_HEAP_ALIGNMENT
      in kguard (heapp \<noteq> NULL \<and> sz > 0) ''chHeapObjectInit'' (
         let sz = sz - (hp - buf);
             m = (hmem hs)(heap_header heapp := hp, heap_header heapp + 4 := 0,
                    hp := NULL, hp + 4 := (sz - 8) div CH_HEAP_ALIGNMENT)
         in kbind (chMtxObjectInit (heap_mtx heapp) (hk hs)) (\<lambda>k.
            Ok (hs\<lparr>hprov := (hprov hs)(heapp := NO_PROVIDER), hmem := m, hk := k\<rparr>))))"

text \<open>
  The part of a free block that a request takes: the block \<open>hp\<close> that follows \<open>qp\<close> in the list is
  split at the aligned header \<open>ahp\<close> and behind the pages requested. The header of the allocated block
  and the memory are returned.
\<close>

definition heap_take :: "ptr \<Rightarrow> ptr \<Rightarrow> ptr \<Rightarrow> u32 \<Rightarrow> (ptr \<Rightarrow> u32) \<Rightarrow> ptr \<times> (ptr \<Rightarrow> u32)" where
  "heap_take qp hp ahp pages m =
     (if ahp > hp
      then let bpages = NPAGES (H_LIMIT m hp) (H_BLOCK ahp);
               m = m(hp + 4 := NPAGES ahp (H_BLOCK hp))
           in (ahp,
               if bpages > pages
               then let fp = H_BLOCK ahp + pages * 8;
                        m = m(fp + 4 := (bpages - pages) - 1);
                        m = m(fp := H_NEXT m hp)
                    in m(hp := fp)
               else m)
      else (hp,
            if H_PAGES m hp = pages then m(qp := H_NEXT m hp)
            else let fp = H_BLOCK hp + pages * 8;
                     m = m(fp := H_NEXT m hp);
                     m = m(fp + 4 := NPAGES (H_LIMIT m hp) (H_BLOCK fp))
                 in m(qp := fp)))"

text \<open>The search loop; \<open>NULL\<close> when the end of the list is reached.\<close>

fun heap_search :: "nat \<Rightarrow> ptr \<Rightarrow> u32 \<Rightarrow> u32 \<Rightarrow> u32 \<Rightarrow> ptr \<Rightarrow> (ptr \<Rightarrow> u32) \<Rightarrow> (ptr \<times> (ptr \<Rightarrow> u32)) kres" where
  "heap_search turns heapp sz pages align qp m =
     (if H_NEXT m qp = NULL then Ok (NULL, m)
      else case turns of 0 \<Rightarrow> Diverge
      | Suc turns \<Rightarrow>
          let hp = H_NEXT m qp;
              ahp = MEM_ALIGN_NEXT (H_BLOCK hp) align - 8
          in if ahp < H_LIMIT m hp \<and> pages \<le> NPAGES (H_LIMIT m hp) (ahp + 8)
             then let (hp, m) = heap_take qp hp ahp pages m
                  in Ok (H_BLOCK hp, m(hp + 4 := sz, hp := heapp))
             else heap_search turns heapp sz pages align hp m)"

definition heap_align :: "u32 \<Rightarrow> u32" where
  "heap_align align = (if align < CH_HEAP_ALIGNMENT then CH_HEAP_ALIGNMENT else align)"

definition heap_pages :: "u32 \<Rightarrow> u32" where
  "heap_pages sz = MEM_ALIGN_NEXT sz CH_HEAP_ALIGNMENT div CH_HEAP_ALIGNMENT"

text \<open>
  \<open>chHeapAllocAligned\<close> in three parts: up to the point where the mutex is taken, from there to its release, and the
  request to the provider. A thread that sleeps on the mutex goes on with the second part; one that is preempted
  when the mutex goes to a waiter, with the third, if it has found no block.
\<close>

definition heap_provide :: "ptr \<Rightarrow> u32 \<Rightarrow> u32 \<Rightarrow> heapsys \<Rightarrow> (ptr \<times> heapsys) kres" where
  "heap_provide heapp sz align hs =
     (case hprov hs heapp of NO_PROVIDER \<Rightarrow> Ok (NULL, hs)
      | chCoreAllocAlignedWithOffset \<Rightarrow>
          kbind (chCoreAllocFromTop (heap_pages sz * CH_HEAP_ALIGNMENT) (heap_align align) 8 (hcore hs) (hk hs)) (\<lambda>(ahp, mc, k).
          let hs = hs\<lparr>hcore := mc, hk := k\<rparr>
          in if ahp \<noteq> NULL
             then let hp = ahp - 8 in Ok (ahp, hs\<lparr>hmem := (hmem hs)(hp := heapp, hp + 4 := sz)\<rparr>)
             else Ok (NULL, hs)))"

definition heap_alloc_locked :: "ptr \<Rightarrow> u32 \<Rightarrow> u32 \<Rightarrow> heapsys \<Rightarrow> (ptr wait \<times> heapsys) kres" where
  "heap_alloc_locked heapp sz align hs =
     kbind (heap_search max_turns heapp sz (heap_pages sz) (heap_align align) (heap_header heapp) (hmem hs)) (\<lambda>(p, m).
     kbind (chMtxUnlock (heap_mtx heapp) (hk hs)) (\<lambda>k.
     let hs' = hs\<lparr>hmem := m, hk := k\<rparr>
     in if p \<noteq> NULL then Ok (Returned p, hs')
        else if currp k \<noteq> currp (hk hs) then Ok (Asleep, hs')
        else kbind (heap_provide heapp sz align hs') (\<lambda>(p, hs). Ok (Returned p, hs))))"

definition chHeapAllocAligned :: "ptr \<Rightarrow> ptr \<Rightarrow> u32 \<Rightarrow> u32 \<Rightarrow> heapsys \<Rightarrow> (ptr wait \<times> heapsys) kres" where
  "chHeapAllocAligned dheap heapp sz align hs =
     kguard (sz > 0 \<and> MEM_IS_VALID_ALIGNMENT align) ''chHeapAllocAligned'' (
     let heapp = (if heapp = NULL then dheap else heapp)
     in kbind (chMtxLock (heap_mtx heapp) (hk hs)) (\<lambda>(r, k).
        case r of Asleep \<Rightarrow> Ok (Asleep, hs\<lparr>hk := k\<rparr>)
        | Returned _ \<Rightarrow> heap_alloc_locked heapp sz align (hs\<lparr>hk := k\<rparr>)))"

definition chHeapAllocAligned_resume :: "ptr \<Rightarrow> ptr \<Rightarrow> u32 \<Rightarrow> u32 \<Rightarrow> heapsys \<Rightarrow> (ptr wait \<times> heapsys) kres" where
  "chHeapAllocAligned_resume dheap heapp sz align hs =
     (let heapp = (if heapp = NULL then dheap else heapp)
      in kbind (chMtxLock_resume (heap_mtx heapp) (hk hs)) (\<lambda>(_, k).
         heap_alloc_locked heapp sz align (hs\<lparr>hk := k\<rparr>)))"

definition chHeapAlloc :: "ptr \<Rightarrow> ptr \<Rightarrow> u32 \<Rightarrow> heapsys \<Rightarrow> (ptr wait \<times> heapsys) kres" where
  "chHeapAlloc dheap heapp sz = chHeapAllocAligned dheap heapp sz CH_HEAP_ALIGNMENT"

definition chHeapGetSize :: "ptr \<Rightarrow> heapsys \<Rightarrow> u32" where
  "chHeapGetSize p hs = H_SIZE (hmem hs) (p - 8)"

text \<open>The block \<open>hp\<close> is linked behind \<open>qp\<close>, and merged with the next and with the previous block.\<close>

definition heap_link :: "ptr \<Rightarrow> ptr \<Rightarrow> (ptr \<Rightarrow> u32) \<Rightarrow> (ptr \<Rightarrow> u32)" where
  "heap_link qp hp m =
     (let m = m(hp := H_NEXT m qp);
          m = m(qp := hp)
      in if H_LIMIT m hp = H_NEXT m hp
         then let m = m(hp + 4 := H_PAGES m hp + (H_PAGES m (H_NEXT m hp) + 1))
              in m(hp := H_NEXT m (H_NEXT m hp))
         else m)"

definition heap_insert :: "ptr \<Rightarrow> ptr \<Rightarrow> (ptr \<Rightarrow> u32) \<Rightarrow> (ptr \<Rightarrow> u32)" where
  "heap_insert qp hp m =
     (let m = heap_link qp hp m
      in if H_LIMIT m qp = hp
         then let m = m(qp + 4 := H_PAGES m qp + (H_PAGES m hp + 1))
              in m(qp := H_NEXT m hp)
         else m)"

fun heap_free_loop :: "nat \<Rightarrow> ptr \<Rightarrow> ptr \<Rightarrow> ptr \<Rightarrow> (ptr \<Rightarrow> u32) \<Rightarrow> (ptr \<Rightarrow> u32) kres" where
  "heap_free_loop turns heapp hp qp m =
     (case turns of 0 \<Rightarrow> Diverge
      | Suc turns \<Rightarrow>
          if qp = NULL then Undef
          else kguard (hp < qp \<or> hp \<ge> H_LIMIT m qp) ''within free block'' (
               if (qp = heap_header heapp \<or> hp > qp) \<and> (H_NEXT m qp = NULL \<or> hp < H_NEXT m qp)
               then Ok (heap_insert qp hp m)
               else heap_free_loop turns heapp hp (H_NEXT m qp) m))"

declare heap_search.simps [simp del] heap_free_loop.simps [simp del]

definition heap_free_locked :: "ptr \<Rightarrow> ptr \<Rightarrow> heapsys \<Rightarrow> heapsys kres" where
  "heap_free_locked heapp hp hs =
     kbind (heap_free_loop max_turns heapp hp (heap_header heapp) (hmem hs)) (\<lambda>m.
     kbind (chMtxUnlock (heap_mtx heapp) (hk hs)) (\<lambda>k. Ok (hs\<lparr>hmem := m, hk := k\<rparr>)))"

definition chHeapFree :: "ptr \<Rightarrow> heapsys \<Rightarrow> (unit wait \<times> heapsys) kres" where
  "chHeapFree p hs =
     kguard (p \<noteq> NULL \<and> MEM_IS_ALIGNED p CH_HEAP_ALIGNMENT) ''chHeapFree'' (
     let hp = p - 8;
         heapp = H_HEAP (hmem hs) hp;
         hs = hs\<lparr>hmem := (hmem hs)(hp + 4 := heap_pages (H_SIZE (hmem hs) hp))\<rparr>
     in kbind (chMtxLock (heap_mtx heapp) (hk hs)) (\<lambda>(r, k).
        case r of Asleep \<Rightarrow> Ok (Asleep, hs\<lparr>hk := k\<rparr>)
        | Returned _ \<Rightarrow> kbind (heap_free_locked heapp hp (hs\<lparr>hk := k\<rparr>)) (\<lambda>hs. Ok (Returned (), hs))))"

definition chHeapFree_resume :: "ptr \<Rightarrow> ptr \<Rightarrow> heapsys \<Rightarrow> (unit \<times> heapsys) kres" where
  "chHeapFree_resume heapp hp hs =
     kbind (chMtxLock_resume (heap_mtx heapp) (hk hs)) (\<lambda>(_, k).
     kbind (heap_free_locked heapp hp (hs\<lparr>hk := k\<rparr>)) (\<lambda>hs. Ok ((), hs)))"

text \<open>The counts of \<open>chHeapStatus\<close>: blocks, pages in all, and pages of the largest block.\<close>

fun heap_count :: "nat \<Rightarrow> u32 \<Rightarrow> u32 \<Rightarrow> u32 \<Rightarrow> ptr \<Rightarrow> (ptr \<Rightarrow> u32) \<Rightarrow> (u32 \<times> u32 \<times> u32) kres" where
  "heap_count turns n tpages lpages qp m =
     (if H_NEXT m qp = NULL then Ok (n, tpages, lpages)
      else case turns of 0 \<Rightarrow> Diverge
      | Suc turns \<Rightarrow>
          let pages = H_PAGES m (H_NEXT m qp)
          in heap_count turns (n + 1) (tpages + pages) (if pages > lpages then pages else lpages) (H_NEXT m qp) m)"

declare heap_count.simps [simp del]

definition heap_status_locked :: "ptr \<Rightarrow> heapsys \<Rightarrow> ((u32 \<times> u32 \<times> u32) \<times> heapsys) kres" where
  "heap_status_locked heapp hs =
     kbind (heap_count max_turns 0 0 0 (heap_header heapp) (hmem hs)) (\<lambda>(n, tpages, lpages).
     kbind (chMtxUnlock (heap_mtx heapp) (hk hs)) (\<lambda>k.
     Ok ((n, tpages * CH_HEAP_ALIGNMENT, lpages * CH_HEAP_ALIGNMENT), hs\<lparr>hk := k\<rparr>)))"

definition chHeapStatus :: "ptr \<Rightarrow> ptr \<Rightarrow> heapsys \<Rightarrow> ((u32 \<times> u32 \<times> u32) wait \<times> heapsys) kres" where
  "chHeapStatus dheap heapp hs =
     (let heapp = (if heapp = NULL then dheap else heapp)
      in kbind (chMtxLock (heap_mtx heapp) (hk hs)) (\<lambda>(r, k).
         case r of Asleep \<Rightarrow> Ok (Asleep, hs\<lparr>hk := k\<rparr>)
         | Returned _ \<Rightarrow> kbind (heap_status_locked heapp (hs\<lparr>hk := k\<rparr>)) (\<lambda>(v, hs). Ok (Returned v, hs))))"

section \<open>Pages\<close>

text \<open>The address of page \<open>a\<close>. The heap lies below address \<open>0x80000000\<close>, that is, below page \<open>2 ^ 28\<close>.\<close>

definition pg :: "nat \<Rightarrow> ptr" where "pg a = of_nat (8 * a)"

lemma unat_pg: "a < 2 ^ 29 \<Longrightarrow> unat (pg a) = 8 * a"
  unfolding pg_def unat_of_nat by simp

lemma pg_add: "pg a + 8 = pg (a + 1)" "pg a + of_nat n * 8 = pg (a + n)" "a > 0 \<Longrightarrow> pg a - 8 = pg (a - 1)"
  by (simp_all add: pg_def of_nat_diff algebra_simps)

lemma pg_less: "a < 2 ^ 29 \<Longrightarrow> b < 2 ^ 29 \<Longrightarrow> pg a < pg b \<longleftrightarrow> a < b"
  by (simp add: word_less_nat_alt unat_pg)

lemma pg_eq: "a < 2 ^ 29 \<Longrightarrow> b < 2 ^ 29 \<Longrightarrow> pg a = pg b \<longleftrightarrow> a = b"
  using unat_pg [of a] unat_pg [of b] by (metis mult_left_cancel zero_neq_numeral)

lemma pg_NULL: "a < 2 ^ 29 \<Longrightarrow> pg a = NULL \<longleftrightarrow> a = 0"
  using pg_eq [of a 0] by (simp add: pg_def)

lemma unat_pg4: "a < 2 ^ 29 \<Longrightarrow> unat (pg a + 4) = 8 * a + 4"
  using unat_pg [of a] by (subst unat_plus_simple [THEN iffD1]) (simp_all add: word_le_nat_alt unat_word_ariths)

lemma pg4_eq: "a < 2 ^ 29 \<Longrightarrow> b < 2 ^ 29 \<Longrightarrow> pg a + 4 = pg b + 4 \<longleftrightarrow> a = b"
  "a < 2 ^ 29 \<Longrightarrow> b < 2 ^ 29 \<Longrightarrow> pg a + 4 \<noteq> pg b" "a < 2 ^ 29 \<Longrightarrow> b < 2 ^ 29 \<Longrightarrow> pg b \<noteq> pg a + 4"
proof -
  show "a < 2 ^ 29 \<Longrightarrow> b < 2 ^ 29 \<Longrightarrow> pg a + 4 = pg b + 4 \<longleftrightarrow> a = b" by (simp add: pg_eq)
  show "a < 2 ^ 29 \<Longrightarrow> b < 2 ^ 29 \<Longrightarrow> pg a + 4 \<noteq> pg b"
    using unat_pg4 [of a] unat_pg [of b] by (auto dest: arg_cong [where f = unat] intro: ccontr) presburger
  then show "a < 2 ^ 29 \<Longrightarrow> b < 2 ^ 29 \<Longrightarrow> pg b \<noteq> pg a + 4" by metis
qed

lemma sint_of_nat_less: "n < 2 ^ 31 \<Longrightarrow> sint (word_of_nat n :: u32) = int n"
  unfolding signed_of_nat by (simp add: signed_take_bit_int_eq_self_iff)

lemma NPAGES_pg:
  assumes "b \<le> a" and "a - b < 2 ^ 28"
  shows "NPAGES (pg a) (pg b) = of_nat (a - b)"
proof -
  have "pg a - pg b = of_nat (8 * (a - b))" using assms(1) by (simp add: pg_def of_nat_diff algebra_simps)
  moreover have "sint (of_nat (8 * (a - b)) :: u32) = int (8 * (a - b))" using assms(2) by (intro sint_of_nat_less) simp
  ultimately have "sint (NPAGES (pg a) (pg b)) = int (a - b)"
    unfolding NPAGES_def by (simp add: sint_signed_drop_bit_eq drop_bit_eq_div del: of_nat_mult)
  moreover have "sint (of_nat (a - b) :: u32) = int (a - b)" using assms(2) by (intro sint_of_nat_less) simp
  ultimately show ?thesis by (metis signed_word_eqI)
qed

lemma H_pg: "H_BLOCK (pg a) = pg (a + 1)" "m (pg a + 4) = of_nat n \<Longrightarrow> H_LIMIT m (pg a) = pg (a + 1 + n)"
  by (simp_all add: H_BLOCK_def H_LIMIT_def H_PAGES_def pg_add)

text \<open>The next multiple of \<open>al\<close>: the alignment of pages.\<close>

definition up :: "nat \<Rightarrow> nat \<Rightarrow> nat" where "up al x = (x + (al - 1)) div al * al"

lemma up_bounds:
  assumes "al > 0"
  shows "x \<le> up al x" and "up al x < x + al" and "al dvd up al x" and "al dvd t \<Longrightarrow> x \<le> t \<Longrightarrow> up al x \<le> t"
proof -
  show "x \<le> up al x" "up al x < x + al" "al dvd up al x"
    unfolding up_def using div_mult_bounds [OF assms, of "x + (al - 1)"] assms by linarith+
  then obtain u where u: "up al x = al * u" "up al x < x + al" by (elim dvdE)
  show "up al x \<le> t" if d: "al dvd t" "x \<le> t"
  proof -
    obtain c where t: "t = al * c" using d(1) by (elim dvdE)
    have "al * u < al * (c + 1)" using u d(2) t by simp
    then have "u < c + 1" by (simp only: mult_less_cancel1)
    then show ?thesis using u t by simp
  qed
qed

lemma up_8: "al > 0 \<Longrightarrow> up (8 * al) (8 * x) = 8 * up al x"
proof -
  assume al: "al > 0"
  have "(8 * x + (8 * al - 1)) div (8 * al) = (8 * x + (8 * al - 1)) div 8 div al" by (rule div_mult2_eq)
  moreover have "8 * x + (8 * al - 1) = 7 + 8 * (x + (al - 1))" using al by simp
  moreover have "(7 + 8 * (x + (al - 1))) div 8 = x + (al - 1)" by simp
  ultimately have "(8 * x + (8 * al - 1)) div (8 * al) = (x + (al - 1)) div al" by metis
  then show ?thesis by (simp add: up_def)
qed

text \<open>\<open>page_align align al\<close>: the alignment is valid, and \<open>al\<close> pages.\<close>

definition page_align :: "u32 \<Rightarrow> nat \<Rightarrow> bool" where
  "page_align align al \<longleftrightarrow> MEM_IS_VALID_ALIGNMENT align \<and> unat align = 8 * al \<and> al > 0 \<and> al dvd 2 ^ 28"

lemma page_alignE:
  assumes "MEM_IS_VALID_ALIGNMENT align"
  obtains al where "page_align (heap_align align) al" and "unat align dvd 8 * al"
proof -
  obtain n where n: "align = 2 ^ n" "n < 32" "unat align = 2 ^ n" using valid_alignment [OF assms] .
  show ?thesis
  proof (cases "n < 3")
    case True
    then have "n = 0 \<or> n = 1 \<or> n = 2" by auto
    then have "page_align (heap_align align) 1" "unat align dvd 8 * 1"
      using n by (auto simp: page_align_def heap_align_def CH_HEAP_ALIGNMENT_def MEM_IS_VALID_ALIGNMENT_def)
    then show ?thesis by (rule that)
  next
    case False
    then obtain i where i: "n = i + 3" by (metis add.commute le_add_diff_inverse not_less)
    have "\<not> align < 8" using n(3) i by (simp add: word_less_nat_alt power_add)
    moreover have "(2 :: nat) ^ i dvd 2 ^ 28" using n(2) i by (intro le_imp_power_dvd) simp
    ultimately have "page_align (heap_align align) (2 ^ i)" "unat align dvd 8 * 2 ^ i"
      using n(2,3) i assms by (auto simp: page_align_def heap_align_def CH_HEAP_ALIGNMENT_def power_add)
    then show ?thesis by (rule that)
  qed
qed

lemma align_pg:
  assumes "page_align align al" and "x \<le> 2 ^ 28"
  shows "MEM_ALIGN_NEXT (pg x) align = pg (up al x)" and "up al x \<le> 2 ^ 28"
proof -
  have al: "MEM_IS_VALID_ALIGNMENT align" "unat align = 8 * al" "al > 0" "al dvd 2 ^ 28" using assms(1) by (simp_all add: page_align_def)
  show le: "up al x \<le> 2 ^ 28" using up_bounds(4) [OF al(3,4) assms(2)] .
  have "unat (pg x) = 8 * x" using assms(2) by (intro unat_pg) simp
  then have "unat (MEM_ALIGN_NEXT (pg x) align) = up (8 * al) (8 * x) mod 2 ^ 32"
    using align_next [OF al(1), of "pg x"] by (simp add: al(2) up_def)
  also have "\<dots> = unat (pg (up al x))" unfolding up_8 [OF al(3)] using le by (subst unat_pg) simp_all
  finally show "MEM_ALIGN_NEXT (pg x) align = pg (up al x)" by (simp add: word_unat_eq_iff)
qed

lemma page_align_8: "page_align 8 1" by (simp add: page_align_def MEM_IS_VALID_ALIGNMENT_def)

text \<open>The pages that a size takes; sizes of the last seven bytes of the address space wrap around.\<close>

lemma heap_pages_eq:
  assumes "unat sz \<le> 2 ^ 32 - 8"
  shows "unat (heap_pages sz) = (unat sz + 7) div 8" and "unat (heap_pages sz * 8) = (unat sz + 7) div 8 * 8"
proof -
  have v: "MEM_IS_VALID_ALIGNMENT 8" by (simp add: MEM_IS_VALID_ALIGNMENT_def)
  have l: "(unat sz + 7) div 8 * 8 < 2 ^ 32" using assms by simp
  have "unat (MEM_ALIGN_NEXT sz 8) = (unat sz + 7) div 8 * 8" using align_next [OF v, of sz] l by simp
  then show *: "unat (heap_pages sz) = (unat sz + 7) div 8" by (simp add: heap_pages_def CH_HEAP_ALIGNMENT_def unat_div)
  show "unat (heap_pages sz * 8) = (unat sz + 7) div 8 * 8" using * l by (simp add: unat_word_ariths)
qed

section \<open>The free list\<close>

text \<open>
  A free block \<open>(a, n)\<close> is the header page \<open>a\<close> and the \<open>n\<close> pages behind it. \<open>free_chain m q bs\<close>: the list that starts
  at the link \<open>q\<close> is \<open>bs\<close>. \<open>sep lo hi bs\<close>: the blocks lie in the pages from \<open>lo\<close> to \<open>hi\<close> in the order of their
  addresses, with at least one page between two of them.
\<close>

fun free_chain :: "(ptr \<Rightarrow> u32) \<Rightarrow> ptr \<Rightarrow> (nat \<times> nat) list \<Rightarrow> bool" where
  "free_chain m q [] \<longleftrightarrow> m q = NULL"
| "free_chain m q ((a, n) # bs) \<longleftrightarrow> m q = pg a \<and> m (pg a + 4) = of_nat n \<and> free_chain m (pg a) bs"

fun sep :: "nat \<Rightarrow> nat \<Rightarrow> (nat \<times> nat) list \<Rightarrow> bool" where
  "sep lo hi [] \<longleftrightarrow> True"
| "sep lo hi ((a, n) # bs) \<longleftrightarrow> lo \<le> a \<and> a + n < hi \<and> sep (a + n + 2) hi bs"

definition pages_of :: "(nat \<times> nat) list \<Rightarrow> nat set" where
  "pages_of bs = (\<Union>(a, n)\<in>set bs. {a..a + n})"

text \<open>The two words of the header in each page of a set.\<close>

definition words :: "nat set \<Rightarrow> ptr set" where
  "words X = pg ` X \<union> (\<lambda>x. pg x + 4) ` X"

lemma pages_of_simps [simp]:
  "pages_of [] = {}" "pages_of ((a, n) # bs) = {a..a + n} \<union> pages_of bs" "pages_of (xs @ ys) = pages_of xs \<union> pages_of ys"
  by (auto simp: pages_of_def)

lemma words_simps [simp]:
  "words {} = {}" "words (X \<union> Y) = words X \<union> words Y" "words (insert x X) = {pg x, pg x + 4} \<union> words X"
  by (auto simp: words_def)

lemma words_mono: "X \<subseteq> Y \<Longrightarrow> words X \<subseteq> words Y"
  by (auto simp: words_def)

lemma words_mem:
  assumes "X \<subseteq> {..<2 ^ 29}" and "a < 2 ^ 29"
  shows "pg a \<in> words X \<longleftrightarrow> a \<in> X" and "pg a + 4 \<in> words X \<longleftrightarrow> a \<in> X"
  using assms by (auto simp: words_def pg_eq pg4_eq subset_iff)

lemma sep_mono: "sep lo hi bs \<Longrightarrow> lo' \<le> lo \<Longrightarrow> sep lo' hi bs"
  by (cases bs) auto

lemma sep_pages: "sep lo hi bs \<Longrightarrow> pages_of bs \<subseteq> {lo..<hi}"
proof (induction lo hi bs rule: sep.induct)
  case (2 lo hi a n bs)
  then show ?case by (fastforce simp: subset_iff)
qed simp

lemma sep_unique:
  "sep lo hi xs \<Longrightarrow> sep lo hi ys \<Longrightarrow> pages_of xs = pages_of ys \<Longrightarrow> xs = ys"
proof (induction lo hi xs arbitrary: ys rule: sep.induct)
  case (1 lo hi)
  then show ?case by (cases ys) auto
next
  case (2 lo hi a n bs)
  then obtain b m cs where ys: "ys = (b, m) # cs" by (cases ys) auto
  have t: "pages_of bs \<subseteq> {a + n + 2..<hi}" "pages_of cs \<subseteq> {b + m + 2..<hi}" using 2(2,3) ys sep_pages by auto
  have eq: "{a..a + n} \<union> pages_of bs = {b..b + m} \<union> pages_of cs" using 2(4) ys by simp
  have "a \<in> {b..b + m} \<union> pages_of cs" unfolding eq [symmetric] by simp
  then have "b \<le> a" using t(2) by auto
  moreover have "b \<in> {a..a + n} \<union> pages_of bs" unfolding eq by simp
  then have "a \<le> b" using t(1) by auto
  ultimately have "a = b" by simp
  moreover have "n = m"
  proof (rule ccontr)
    assume "n \<noteq> m"
    then consider "n < m" | "m < n" by linarith
    then show False
    proof cases
      case 1
      then have "a + n + 1 \<in> {a..a + n} \<union> pages_of bs" using eq \<open>a = b\<close> by auto
      then show False using t(1) by auto
    next
      case 2
      then have "a + m + 1 \<in> {b..b + m} \<union> pages_of cs" using \<open>a = b\<close> unfolding eq [symmetric] by auto
      then show False using t(2) \<open>a = b\<close> by auto
    qed
  qed
  moreover have "pages_of bs = pages_of cs"
  proof -
    have "pages_of bs = ({a..a + n} \<union> pages_of bs) - {a..a + n}" using t(1) by auto
    also have "\<dots> = ({b..b + m} \<union> pages_of cs) - {b..b + m}" using eq \<open>a = b\<close> \<open>n = m\<close> by simp
    also have "\<dots> = pages_of cs" using t(2) by auto
    finally show ?thesis .
  qed
  ultimately show ?case using 2 ys by auto
qed

lemma free_chain_cong:
  assumes "free_chain m q bs" and "m' q' = m q" and "\<And>w. w \<in> words (fst ` set bs) \<Longrightarrow> m' w = m w"
  shows "free_chain m' q' bs"
  using assms
proof (induction bs arbitrary: q q')
  case (Cons x bs)
  obtain a n where x: "x = (a, n)" by (cases x)
  have "free_chain m' (pg a) bs" using Cons(2,4) x by (intro Cons(1) [of "pg a"]) auto
  then show ?case using Cons(2-4) x by auto
qed simp

lemma fst_pages: "fst ` set bs \<subseteq> pages_of bs"
  by (force simp: pages_of_def)

text \<open>First fit, on the list of blocks.\<close>

definition split_block :: "nat \<Rightarrow> nat \<Rightarrow> nat \<Rightarrow> nat \<Rightarrow> (nat \<times> nat) list" where
  "split_block a n b np =
     (if a < b then [(a, b - a - 1)] else []) @ (if b + np < a + n then [(b + np + 1, a + n - b - np - 1)] else [])"

fun alloc_blocks :: "nat \<Rightarrow> nat \<Rightarrow> (nat \<times> nat) list \<Rightarrow> (nat \<times> (nat \<times> nat) list) option" where
  "alloc_blocks al np [] = None"
| "alloc_blocks al np ((a, n) # bs) =
     (let b = up al (a + 1) - 1
      in if b + np \<le> a + n then Some (b, split_block a n b np @ bs)
         else map_option (\<lambda>(b, bs). (b, (a, n) # bs)) (alloc_blocks al np bs))"

lemma split_block_pages:
  assumes "a \<le> b" and "b + np \<le> a + n"
  shows "pages_of (split_block a n b np) \<union> {b..b + np} = {a..a + n}" and "pages_of (split_block a n b np) \<inter> {b..b + np} = {}"
  using assms by (auto simp: split_block_def)

lemma split_block_sep:
  assumes "sep lo hi ((a, n) # bs)" and "a \<le> b" and "b + np \<le> a + n" and "np > 0"
  shows "sep lo hi (split_block a n b np @ bs)"
  using assms by (auto simp: split_block_def elim: sep_mono)

lemma alloc_blocks_ok:
  assumes "alloc_blocks al np bs = Some (b, bs')" and "sep lo hi bs" and "al > 0" and "np > 0"
  shows "sep lo hi bs' \<and> pages_of bs' \<union> {b..b + np} = pages_of bs \<and> pages_of bs' \<inter> {b..b + np} = {} \<and> al dvd b + 1"
  using assms
proof (induction bs arbitrary: lo bs')
  case (Cons x bs)
  obtain a n where x: "x = (a, n)" by (cases x)
  let ?b = "up al (a + 1) - 1"
  have ab: "a \<le> ?b" "?b + 1 = up al (a + 1)" using up_bounds(1) [OF Cons(4), of "a + 1"] by linarith+
  have t: "pages_of bs \<subseteq> {a + n + 2..<hi}" using Cons(3) x sep_pages by auto
  show ?case
  proof (cases "?b + np \<le> a + n")
    case True
    then have r: "b = ?b" "bs' = split_block a n b np @ bs" using Cons(2) x by (auto simp: Let_def)
    have p: "pages_of (split_block a n b np) \<union> {b..b + np} = {a..a + n}" "pages_of (split_block a n b np) \<inter> {b..b + np} = {}"
      using split_block_pages ab(1) True r(1) by metis+
    moreover have "pages_of bs \<inter> {b..b + np} = {}" using t True r(1) by auto
    moreover have "al dvd b + 1" using up_bounds(3) [OF Cons(4)] ab(2) r(1) by simp
    ultimately show ?thesis
      unfolding r(2) using split_block_sep [of lo hi a n bs b np] Cons(3,5) x ab(1) True r(1) by auto
  next
    case False
    then obtain cs where r: "alloc_blocks al np bs = Some (b, cs)" "bs' = (a, n) # cs" using Cons(2) x by (auto simp: Let_def)
    have "sep (a + n + 2) hi cs \<and> pages_of cs \<union> {b..b + np} = pages_of bs \<and> pages_of cs \<inter> {b..b + np} = {} \<and> al dvd b + 1"
      using Cons(1) [OF r(1), of "a + n + 2"] Cons(3-5) x by simp
    moreover from this have "b \<in> pages_of bs" by auto
    ultimately show ?thesis using r(2) Cons(3) x t by auto
  qed
qed simp

text \<open>Words of pages that lie apart are different words.\<close>

lemma free_chain_frame:
  assumes "free_chain m q bs" and "sep lo hi bs" and "hi \<le> 2 ^ 29" and "m' q' = m q" and "\<And>w. w \<in> words {lo..<hi} \<Longrightarrow> m' w = m w"
  shows "free_chain m' q' bs"
  using assms(1,4)
proof (rule free_chain_cong)
  fix w assume "w \<in> words (fst ` set bs)"
  then show "m' w = m w" using words_mono [OF order_trans [OF fst_pages sep_pages [OF assms(2)]]] assms(5) by blast
qed

lemma words_iff:
  assumes "hi \<le> 2 ^ 29" and "a < 2 ^ 29"
  shows "pg a \<in> words {lo..<hi} \<longleftrightarrow> lo \<le> a \<and> a < hi" and "pg a + 4 \<in> words {lo..<hi} \<longleftrightarrow> lo \<le> a \<and> a < hi"
  using words_mem [of "{lo..<hi}" a] assms by (auto simp: subset_iff)

lemma words_icc:
  assumes "hi < 2 ^ 29" and "a < 2 ^ 29"
  shows "pg a \<in> words {lo..hi} \<longleftrightarrow> lo \<le> a \<and> a \<le> hi" and "pg a + 4 \<in> words {lo..hi} \<longleftrightarrow> lo \<le> a \<and> a \<le> hi"
  using words_mem [of "{lo..hi}" a] assms by (auto simp: subset_iff)

lemma of_nat_less: "x < 2 ^ 29 \<Longrightarrow> y < 2 ^ 29 \<Longrightarrow> of_nat x < (of_nat y :: u32) \<longleftrightarrow> x < y"
  by (simp add: word_less_nat_alt unat_of_nat)

lemma of_nat_eq: "x < 2 ^ 29 \<Longrightarrow> y < 2 ^ 29 \<Longrightarrow> of_nat x = (of_nat y :: u32) \<longleftrightarrow> x = y"
  by (simp add: word_unat_eq_iff unat_of_nat)

text \<open>The blocks behind \<open>(a, n)\<close> are still linked when only its words and the link to it have changed.\<close>

lemma free_chain_tail:
  assumes "free_chain m (pg a) bs" and "sep (a + n + 2) hi bs" and "hi \<le> 2 ^ 28" and "a + n < hi" and "lo \<le> a" and "q \<notin> words {lo..<hi}"
    and "m' q' = m (pg a)" and "\<And>w. w \<noteq> q \<Longrightarrow> w \<notin> words {a..a + n} \<Longrightarrow> m' w = m w"
  shows "free_chain m' q' bs"
  using assms(1) assms(2) _ assms(7)
proof (rule free_chain_frame)
  show "hi \<le> 2 ^ 29" using assms(3) by simp
  fix w assume "w \<in> words {a + n + 2..<hi}"
  then obtain x where x: "w = pg x \<or> w = pg x + 4" "a + n + 2 \<le> x" "x < hi" unfolding words_def by fastforce
  then have "w \<notin> words {a..a + n}" using words_icc [of "a + n" x a] assms(3,4) by auto
  moreover have "w \<noteq> q" using words_iff [of hi x lo] x assms(3,5,6) by auto
  ultimately show "m' w = m w" using assms(8) by blast
qed

lemma heap_take_ok:
  assumes ch: "free_chain m q ((a, n) # bs)" and sp: "sep lo hi ((a, n) # bs)" and hi: "hi \<le> 2 ^ 28"
    and b: "a \<le> b" "b + np \<le> a + n" and q: "q \<notin> words {lo..<hi}"
  shows "\<exists>m'. heap_take q (pg a) (pg b) (of_nat np) m = (pg b, m') \<and> free_chain m' q (split_block a n b np @ bs) \<and>
    (\<forall>w. w \<noteq> q \<longrightarrow> w \<notin> words {a..a + n} \<longrightarrow> m' w = m w)"
proof -
  have an: "lo \<le> a" "a + n < hi" "sep (a + n + 2) hi bs" using sp by simp_all
  have m: "m q = pg a" "m (pg a + 4) = of_nat n" "free_chain m (pg a) bs" using ch by simp_all
  have qn: "q \<noteq> pg x" "q \<noteq> pg x + 4" "pg x \<noteq> q" "pg x + 4 \<noteq> q" if "lo \<le> x" "x < hi" for x using q that hi words_iff [of hi x lo] by auto
  note tail = free_chain_tail [OF m(3) an(3) hi an(2,1) q]
  let ?f = "b + np + 1"
  have B: "H_BLOCK (pg x) = pg (x + 1)" for x by (rule H_pg)
  have fp: "H_BLOCK (pg b) + of_nat np * 8 = pg ?f" unfolding B pg_add by (simp add: add_ac)
  have lim: "H_LIMIT m (pg a) = pg (a + 1 + n)" using H_pg(2) m(2) .
  have bp: "NPAGES (pg (a + 1 + n)) (H_BLOCK (pg b)) = of_nat (a + n - b)" unfolding B using NPAGES_pg [of "b + 1" "a + 1 + n"] b an hi by simp
  note lt = an(2) hi b
  note ne = qn [of a] qn [of ?f] pg_eq pg4_eq words_icc
  consider (both) "a < b" "b + np < a + n" | (first) "a < b" "b + np = a + n" | (rest) "a = b" "b + np < a + n" | (all) "a = b" "np = n"
    using b by linarith
  then show ?thesis
  proof cases
    case both
    let ?m = "m(pg a + 4 := of_nat (b - a - 1), pg ?f + 4 := of_nat (a + n - b - np - 1), pg ?f := m (pg a), pg a := pg ?f)"
    have "NPAGES (pg b) (H_BLOCK (pg a)) = of_nat (b - a - 1)" unfolding B using NPAGES_pg [of "a + 1" b] both lt by simp
    moreover have "of_nat (a + n - b) - of_nat np - (1 :: u32) = of_nat (a + n - b - np - 1)" using both by (simp add: of_nat_diff)
    moreover have "pg a < pg b" "(of_nat np :: u32) < of_nat (a + n - b)" using pg_less [of a b] of_nat_less [of np "a + n - b"] both lt by auto
    ultimately have "heap_take q (pg a) (pg b) (of_nat np) m = (pg b, ?m)"
      using bp fp lim both lt by (simp add: heap_take_def Let_def H_NEXT_def pg4_eq del: of_nat_add of_nat_diff)
    moreover have fr: "?m w = m w" if "w \<notin> words {a..a + n}" for w using that both lt by (auto simp: words_def)
    moreover have "free_chain ?m (pg ?f) bs" using both lt by (intro tail fr) (simp_all add: ne)
    moreover have "q \<noteq> pg ?f" "q \<noteq> pg ?f + 4" using qn(1,2) [of ?f] both lt an(1) by auto
    ultimately show ?thesis using both lt m(1) an(1) by (intro exI [of _ ?m]) (simp add: split_block_def ne)
  next
    case first
    let ?m = "m(pg a + 4 := of_nat (b - a - 1))"
    have "NPAGES (pg b) (H_BLOCK (pg a)) = of_nat (b - a - 1)" unfolding B using NPAGES_pg [of "a + 1" b] first lt by simp
    moreover have "pg a < pg b" "\<not> (of_nat np :: u32) < of_nat (a + n - b)" using pg_less [of a b] of_nat_less [of np "a + n - b"] first lt by auto
    ultimately have "heap_take q (pg a) (pg b) (of_nat np) m = (pg b, ?m)"
      using bp lim by (simp add: heap_take_def Let_def)
    moreover have fr: "?m w = m w" if "w \<notin> words {a..a + n}" for w using that first lt by (auto simp: words_def)
    moreover have "free_chain ?m (pg a) bs" by (rule tail) (simp, rule fr)
    ultimately show ?thesis using first lt m(1) an(1) by (intro exI [of _ ?m]) (simp add: split_block_def ne)
  next
    case rest
    let ?m = "m(pg ?f := m (pg a), pg ?f + 4 := of_nat (a + n - b - np - 1), q := pg ?f)"
    have "NPAGES (pg (a + 1 + n)) (H_BLOCK (pg ?f)) = of_nat (a + n - b - np - 1)" unfolding B using NPAGES_pg [of "?f + 1" "a + 1 + n"] rest lt by simp
    moreover have "H_LIMIT (m(pg ?f := m (pg a))) (pg a) = pg (a + 1 + n)" using H_pg(2) m(2) rest lt by (simp add: ne)
    moreover have "(of_nat n :: u32) \<noteq> of_nat np" using of_nat_eq [of n np] rest lt by auto
    ultimately have "heap_take q (pg a) (pg b) (of_nat np) m = (pg b, ?m)"
      using fp m(2) rest by (simp add: heap_take_def Let_def H_NEXT_def H_PAGES_def)
    moreover have fr: "?m w = m w" if "w \<noteq> q" "w \<notin> words {a..a + n}" for w using that rest lt by (auto simp: words_def)
    moreover have qf: "q \<noteq> pg ?f" "q \<noteq> pg ?f + 4" using qn(1,2) [of ?f] rest lt an(1) by auto
    moreover have "free_chain ?m (pg ?f) bs" using rest lt qf by (intro tail fr) (auto simp: ne)
    ultimately show ?thesis using rest lt an(1) by (intro exI [of _ ?m]) (simp add: split_block_def ne)
  next
    case all
    let ?m = "m(q := m (pg a))"
    have "heap_take q (pg a) (pg b) (of_nat np) m = (pg b, ?m)" using all m(2) by (simp add: heap_take_def Let_def H_NEXT_def H_PAGES_def)
    moreover have "free_chain ?m q bs" by (intro tail) simp_all
    ultimately show ?thesis using all by (intro exI [of _ ?m]) (simp add: split_block_def)
  qed
qed

text \<open>The search takes the first block that fits, as \<open>alloc_blocks\<close> says, and writes the owner and the size into its header.\<close>

lemma heap_search_ok:
  assumes "free_chain m q bs" and "sep lo hi bs" and "lo > 0" and "hi \<le> 2 ^ 28" and "q \<notin> words {lo..<hi}"
    and "page_align align al" and "np > 0" and "np < 2 ^ 29" and "length bs \<le> turns"
  shows "case alloc_blocks al np bs of None \<Rightarrow> heap_search turns heapp sz (of_nat np) align q m = Ok (NULL, m)
    | Some (b, bs') \<Rightarrow> \<exists>m'. heap_search turns heapp sz (of_nat np) align q m = Ok (pg (b + 1), m') \<and> free_chain m' q bs' \<and>
        H_HEAP m' (pg b) = heapp \<and> H_SIZE m' (pg b) = sz \<and> (\<forall>w. w \<noteq> q \<longrightarrow> w \<notin> words (pages_of bs) \<longrightarrow> m' w = m w)"
  using assms(1-3,5,9)
proof (induction bs arbitrary: q lo turns)
  case Nil
  then show ?case by (simp add: heap_search.simps H_NEXT_def)
next
  case (Cons x bs)
  obtain a n where x: "x = (a, n)" by (cases x)
  obtain turns' where turns: "turns = Suc turns'" "length bs \<le> turns'" using Cons(6) by (cases turns) auto
  have an: "lo \<le> a" "a > 0" "a + n < hi" "sep (a + n + 2) hi bs" using Cons(3,4) x by auto
  have m: "m q = pg a" "m (pg a + 4) = of_nat n" "free_chain m (pg a) bs" using Cons(2) x by auto
  have al: "al > 0" using assms(6) by (simp add: page_align_def)
  define b where "b = up al (a + 1) - 1"
  have b: "a \<le> b" "b + 1 = up al (a + 1)" using up_bounds(1) [OF al, of "a + 1"] by (auto simp: b_def)
  have le: "b + 1 \<le> 2 ^ 28" using align_pg(2) [OF assms(6), of "a + 1"] an assms(4) b(2) by simp
  have ahp: "MEM_ALIGN_NEXT (H_BLOCK (pg a)) align - 8 = pg b"
    unfolding H_pg using align_pg(1) [OF assms(6), of "a + 1"] an assms(4) pg_add(3) [of "b + 1"] b(2) by simp
  have lim: "H_LIMIT m (pg a) = pg (a + 1 + n)" using H_pg(2) m(2) .
  have nn: "pg a \<noteq> NULL" using pg_NULL [of a] an assms(4) by simp
  have fit: "(pg b < H_LIMIT m (pg a) \<and> of_nat np \<le> NPAGES (H_LIMIT m (pg a)) (pg b + 8)) \<longleftrightarrow> b + np \<le> a + n"
  proof (cases "b < a + 1 + n")
    case True
    then have "NPAGES (H_LIMIT m (pg a)) (pg b + 8) = of_nat (a + n - b)"
      unfolding lim pg_add using NPAGES_pg [of "b + 1" "a + 1 + n"] an assms(4) by simp
    moreover have "pg b < H_LIMIT m (pg a)" unfolding lim using pg_less [of b "a + 1 + n"] True an assms(4) by simp
    moreover have "(of_nat np :: u32) \<le> of_nat (a + n - b) \<longleftrightarrow> np \<le> a + n - b"
      using of_nat_less [of "a + n - b" np] assms(4,8) an by (simp add: not_less [symmetric] del: of_nat_diff)
    ultimately show ?thesis using True by auto
  next
    case False
    then have "\<not> pg b < H_LIMIT m (pg a)" unfolding lim using pg_less [of b "a + 1 + n"] le an assms(4) by simp
    then show ?thesis using False by simp
  qed
  have step: "heap_search turns heapp sz (of_nat np) align q m =
      (if b + np \<le> a + n
       then let (hp, m) = heap_take q (pg a) (pg b) (of_nat np) m in Ok (H_BLOCK hp, m(hp + 4 := sz, hp := heapp))
       else heap_search turns' heapp sz (of_nat np) align (pg a) m)"
    by (subst heap_search.simps) (simp only: H_NEXT_def m(1) nn if_False turns(1) nat.case Let_def ahp fit)
  show ?case
  proof (cases "b + np \<le> a + n")
    case True
    obtain m' where m': "heap_take q (pg a) (pg b) (of_nat np) m = (pg b, m')" "free_chain m' q (split_block a n b np @ bs)"
        "\<And>w. w \<noteq> q \<Longrightarrow> w \<notin> words {a..a + n} \<Longrightarrow> m' w = m w"
      using heap_take_ok [of m q a n bs lo hi b np] Cons(2,3,5) x assms(4) b(1) True by blast
    let ?m = "m'(pg b + 4 := sz, pg b := heapp)" let ?bs = "split_block a n b np @ bs"
    have al: "alloc_blocks al np (x # bs) = Some (b, ?bs)" using True x by (simp add: b_def Let_def)
    note ok = alloc_blocks_ok [OF al Cons(3) \<open>al > 0\<close> assms(7)]
    have bl: "b < hi" "b < 2 ^ 29" "lo \<le> b" using True an b assms(4) by auto
    have "pages_of ?bs \<subseteq> {..<2 ^ 29}" using sep_pages [of lo hi ?bs] ok assms(4) by auto
    then have "pg b \<notin> words (pages_of ?bs)" "pg b + 4 \<notin> words (pages_of ?bs)" using words_mem [of "pages_of ?bs" b] ok bl by auto
    then have "?m w = m' w" if "w \<in> words (fst ` set ?bs)" for w using that words_mono [OF fst_pages [of ?bs]] by auto
    moreover have "?m q = m' q" using Cons(5) words_iff [of hi b lo] bl assms(4) by auto
    ultimately have "free_chain ?m q ?bs" using free_chain_cong [OF m'(2)] by blast
    moreover have "?m w = m w" if "w \<noteq> q" "w \<notin> words (pages_of (x # bs))" for w
    proof -
      have "w \<noteq> pg b" "w \<noteq> pg b + 4" "w \<notin> words {a..a + n}" using that(2) b(1) True x by (auto simp: words_def)
      then show ?thesis using m'(3) [OF that(1)] by simp
    qed
    moreover have "heap_search turns heapp sz (of_nat np) align q m = Ok (pg (b + 1), ?m)"
      unfolding step using True m'(1) H_pg(1) [of b] by simp
    moreover have "H_HEAP ?m (pg b) = heapp" "H_SIZE ?m (pg b) = sz" by (simp_all add: H_HEAP_def H_SIZE_def)
    ultimately show ?thesis unfolding al by (simp only: option.case prod.case) blast
  next
    case False
    have st: "heap_search turns heapp sz (of_nat np) align q m = heap_search turns' heapp sz (of_nat np) align (pg a) m"
      using step False by simp
    have "pg a \<notin> words {a + n + 2..<hi}" using words_iff(1) [of hi a] an assms(4) by simp
    note IH = Cons(1) [OF m(3) an(4) _ this turns(2)]
    have ab: "alloc_blocks al np (x # bs) = map_option (\<lambda>(b, bs). (b, (a, n) # bs)) (alloc_blocks al np bs)"
      using False x by (simp add: b_def Let_def)
    show ?thesis
    proof (cases "alloc_blocks al np bs")
      case None
      then show ?thesis using IH ab st by simp
    next
      case (Some y)
      then obtain c cs where y: "alloc_blocks al np bs = Some (c, cs)" by (cases y) auto
      then obtain m' where m': "heap_search turns' heapp sz (of_nat np) align (pg a) m = Ok (pg (c + 1), m')" "free_chain m' (pg a) cs"
          "H_HEAP m' (pg c) = heapp" "H_SIZE m' (pg c) = sz" "\<And>w. w \<noteq> pg a \<Longrightarrow> w \<notin> words (pages_of bs) \<Longrightarrow> m' w = m w"
        using IH by auto
      have "words (pages_of bs) \<subseteq> words {a + n + 2..<hi}" using words_mono [OF sep_pages [OF an(4)]] .
      moreover have "words {a + n + 2..<hi} \<subseteq> words {lo..<hi}" using an(1) by (intro words_mono) auto
      ultimately have "q \<noteq> pg a" "q \<notin> words (pages_of bs)" "pg a + 4 \<notin> words (pages_of bs)"
        using Cons(5) words_iff [of hi a] an assms(4) by auto
      moreover have "pg a + 4 \<noteq> pg a" by simp
      ultimately have "free_chain m' q ((a, n) # cs)" using m'(2,5) m(1,2) by auto
      moreover have "m' w = m w" if "w \<noteq> q" "w \<notin> words (pages_of (x # bs))" for w
        using that(2) x by (intro m'(5)) (auto simp: words_def)
      ultimately show ?thesis using ab y st m'(1,3,4) by auto
    qed
  qed
qed

subsection \<open>Freeing\<close>

text \<open>A block is linked in front of \<open>bs\<close>, and merged with the first of them if there is no page between.\<close>

lemma heap_link_ok:
  assumes "free_chain m q bs" and "m (pg a + 4) = of_nat n" and "sep (a + n + 1) hi bs" and "lo \<le> a" and "a > 0" and "a + n < hi"
    and "hi \<le> 2 ^ 28" and "q \<notin> words {lo..<hi}"
  shows "\<exists>n' bs'. free_chain (heap_link q (pg a) m) q ((a, n') # bs') \<and> sep lo hi ((a, n') # bs') \<and>
    {a..a + n'} \<union> pages_of bs' = {a..a + n} \<union> pages_of bs \<and>
    (\<forall>w. w \<noteq> q \<longrightarrow> w \<notin> words {a..a + n} \<longrightarrow> heap_link q (pg a) m w = m w)"
proof -
  have q: "q \<noteq> pg a" "q \<noteq> pg a + 4" using assms(4,6,7,8) words_iff [of hi a lo] by auto
  let ?m = "m(pg a := m q, q := pg a)"
  have lim: "H_LIMIT ?m (pg a) = pg (a + 1 + n)" using H_pg(2) assms(2) q by simp
  show ?thesis
  proof (cases bs)
    case Nil
    then have "m q = NULL" using assms(1) by simp
    moreover have "pg (a + 1 + n) \<noteq> NULL" "pg a \<noteq> NULL" using pg_NULL [of "a + 1 + n"] pg_NULL [of a] assms(5-7) by simp_all
    ultimately have "heap_link q (pg a) m = ?m"
      using q lim by (simp add: heap_link_def Let_def H_NEXT_def)
    then show ?thesis using Nil assms(2,4,6) q \<open>m q = NULL\<close> by (intro exI [of _ n] exI [of _ "[]"]) (auto simp: words_def)
  next
    case (Cons y cs)
    then obtain b k where y: "bs = (b, k) # cs" by (cases y) auto
    have b: "m q = pg b" "m (pg b + 4) = of_nat k" "free_chain m (pg b) cs" using assms(1) y by simp_all
    have bk: "a + n < b" "b + k < hi" "sep (b + k + 2) hi cs" using assms(3) y by simp_all
    have ne: "pg b \<noteq> pg a" "pg b + 4 \<noteq> pg a" "pg b \<noteq> pg a + 4" using pg_eq [of b a] pg4_eq [of b a] pg4_eq [of a b] bk assms(7) by auto
    have qb: "q \<noteq> pg b" "q \<noteq> pg b + 4" using assms(4,7,8) words_iff [of hi b lo] bk by auto
    have e: "pg (a + 1 + n) = pg b \<longleftrightarrow> a + n + 1 = b" using pg_eq [of "a + 1 + n" b] bk assms(7) by auto
    have tl: "free_chain m' q' cs" if fr: "m' q' = m (pg b)" "\<And>w. w \<noteq> q \<Longrightarrow> w \<notin> {pg a, pg a + 4} \<Longrightarrow> m' w = m w" for m' q'
      using b(3) bk(3) _ fr(1)
    proof (rule free_chain_frame)
      show "hi \<le> 2 ^ 29" using assms(7) by simp
      show "m' w = m w" if w: "w \<in> words {b + k + 2..<hi}" for w
      proof (rule fr(2))
        show "w \<noteq> q" using w assms(4,8) bk words_mono [of "{b + k + 2..<hi}" "{lo..<hi}"] by auto
        show "w \<notin> {pg a, pg a + 4}" using w words_iff [of hi a "b + k + 2"] bk assms(7) by auto
      qed
    qed
    show ?thesis
    proof (cases "a + n + 1 = b")
      case True
      let ?m2 = "?m(pg a + 4 := of_nat n + (of_nat k + 1), pg a := m (pg b))"
      have "H_LIMIT ?m (pg a) = pg b" using lim e True by simp
      then have l: "heap_link q (pg a) m = ?m2"
        using ne qb b q assms(2) by (simp add: heap_link_def Let_def H_NEXT_def H_PAGES_def)
      have "free_chain ?m2 (pg a) cs" by (rule tl) auto
      then have "free_chain ?m2 q ((a, n + k + 1) # cs)" using q by simp
      moreover have "{a..a + (n + k + 1)} \<union> pages_of cs = {a..a + n} \<union> pages_of bs" using True y by auto
      moreover have "sep lo hi ((a, n + k + 1) # cs)" using bk True assms(4) by (auto simp: add_ac)
      ultimately show ?thesis unfolding l by (intro exI [of _ "n + k + 1"] exI [of _ cs]) (auto simp: words_def)
    next
      case False
      have "H_LIMIT ?m (pg a) \<noteq> pg b" using lim e False by simp
      then have l: "heap_link q (pg a) m = ?m" using q b by (simp add: heap_link_def Let_def H_NEXT_def)
      have "free_chain ?m (pg b) cs" using ne qb by (intro tl) auto
      then have "free_chain ?m q ((a, n) # bs)" using q y b qb ne assms(2) by auto
      moreover have "sep lo hi ((a, n) # bs)" using y bk False assms(4,6) by auto
      ultimately show ?thesis unfolding l by (intro exI [of _ n] exI [of _ bs]) (auto simp: words_def)
    qed
  qed
qed

lemma heap_insert_pg:
  assumes hi: "hi \<le> 2 ^ 28" and a: "a + n < hi" "m (pg a + 4) = of_nat n" and ch: "free_chain m (pg a0) bs" "m (pg a0 + 4) = of_nat n0"
    and sp: "sep lo hi ((a0, n0) # bs)" "a0 + n0 < a" "sep (a + n + 1) hi bs"
  shows "\<exists>n0' bs'. free_chain (heap_insert (pg a0) (pg a) m) (pg a0) bs' \<and> heap_insert (pg a0) (pg a) m (pg a0 + 4) = of_nat n0' \<and>
    sep lo hi ((a0, n0') # bs') \<and> pages_of ((a0, n0') # bs') = pages_of ((a0, n0) # bs) \<union> {a..a + n} \<and>
    (\<forall>w. w \<notin> words ({a0..a0 + n0} \<union> {a..a + n}) \<longrightarrow> heap_insert (pg a0) (pg a) m w = m w)"
proof -
  let ?l = "heap_link (pg a0) (pg a) m"
  have a0: "lo \<le> a0" "a0 < a" "a0 < 2 ^ 29" "a < 2 ^ 29" using sp hi a by auto
  have "pg a0 \<notin> words {a0 + n0 + 1..<hi}" using words_iff(1) [of hi a0] hi a0 by simp
  then obtain n' bs' where l: "free_chain ?l (pg a0) ((a, n') # bs')" "sep (a0 + n0 + 1) hi ((a, n') # bs')"
      "{a..a + n'} \<union> pages_of bs' = {a..a + n} \<union> pages_of bs" "\<And>w. w \<noteq> pg a0 \<Longrightarrow> w \<notin> words {a..a + n} \<Longrightarrow> ?l w = m w"
    using heap_link_ok [OF ch(1) a(2) sp(3), of "a0 + n0 + 1"] sp(2) a(1) hi by auto
  have ne: "pg a0 \<noteq> pg a" "pg a0 \<noteq> pg a + 4" "pg a0 + 4 \<noteq> pg a" "pg a0 + 4 \<noteq> pg a0" "pg a \<noteq> pg a0" "pg a + 4 \<noteq> pg a0"
    using pg_eq [of a0 a] pg4_eq [of a0 a] pg4_eq [of a a0] a0 by auto
  have p0: "?l (pg a0 + 4) = of_nat n0" using l(4) [of "pg a0 + 4"] ch(2) ne words_icc [of "a + n" a0 a] a0 a hi by simp
  have lim: "H_LIMIT ?l (pg a0) = pg (a0 + 1 + n0)" using H_pg(2) p0 .
  have e: "pg (a0 + 1 + n0) = pg a \<longleftrightarrow> a0 + n0 + 1 = a" using pg_eq [of "a0 + 1 + n0" a] sp(2) a0(4) by auto
  show ?thesis
  proof (cases "a0 + n0 + 1 = a")
    case True
    let ?m = "?l(pg a0 + 4 := of_nat n0 + (of_nat n' + 1), pg a0 := ?l (pg a))"
    have i: "heap_insert (pg a0) (pg a) m = ?m"
      using lim e True p0 l(1) ne by (simp add: heap_insert_def Let_def H_NEXT_def H_PAGES_def)
    have "free_chain ?m (pg a0) bs'"
    proof (rule free_chain_frame [where lo = "a + n' + 2" and hi = hi])
      show "free_chain ?l (pg a) bs'" "sep (a + n' + 2) hi bs'" using l(1,2) by simp_all
      show "?m w = ?l w" if "w \<in> words {a + n' + 2..<hi}" for w
        using that words_iff [of hi a0 "a + n' + 2"] hi a0 by auto
    qed (use hi in simp_all)
    moreover have "?m (pg a0 + 4) = of_nat (n0 + n' + 1)" using ne by simp
    moreover have "sep lo hi ((a0, n0 + n' + 1) # bs')" using l(2) True a0(1) by (auto simp: add_ac)
    moreover have "pages_of ((a0, n0 + n' + 1) # bs') = pages_of ((a0, n0) # bs) \<union> {a..a + n}"
    proof -
      have "{a0..a0 + (n0 + n' + 1)} = {a0..a0 + n0} \<union> {a..a + n'}" using True by auto
      then show ?thesis using l(3) by auto
    qed
    moreover have "?m w = m w" if "w \<notin> words ({a0..a0 + n0} \<union> {a..a + n})" for w using that l(4) by (auto simp: words_def)
    ultimately show ?thesis unfolding i by blast
  next
    case False
    then have i: "heap_insert (pg a0) (pg a) m = ?l" using lim e by (simp add: heap_insert_def Let_def)
    have "sep lo hi ((a0, n0) # (a, n') # bs')" using l(2) False sp(1,2) by auto
    moreover have "?l w = m w" if "w \<notin> words ({a0..a0 + n0} \<union> {a..a + n})" for w using that by (intro l(4)) (auto simp: words_def)
    moreover have "pages_of ((a0, n0) # (a, n') # bs') = pages_of ((a0, n0) # bs) \<union> {a..a + n}" using l(3) by auto
    ultimately show ?thesis unfolding i using l(1) p0 by blast
  qed
qed

text \<open>The loop, from a block in front of the one that is freed.\<close>

lemma apart:
  assumes "{a..a + n} \<inter> pages_of ((b, k) # bs) = {}"
  shows "a < b \<Longrightarrow> a + n < b" and "b \<le> a \<Longrightarrow> b + k < a"
proof -
  have "b \<notin> {a..a + n}" "a \<notin> {b..b + k}" using assms by (auto simp: disjoint_iff)
  then show "a < b \<Longrightarrow> a + n < b" "b \<le> a \<Longrightarrow> b + k < a" by auto
qed

lemma heap_free_pg:
  assumes hi: "hi \<le> 2 ^ 28" and a: "a + n < hi" "m (pg a + 4) = of_nat n"
    and "free_chain m (pg a0) bs" and "m (pg a0 + 4) = of_nat n0" and "sep lo hi ((a0, n0) # bs)" and "lo > 0"
    and "a0 + n0 < a" and "{a..a + n} \<inter> pages_of bs = {}" and "length bs < turns"
  shows "\<exists>m' n0' bs'. heap_free_loop turns heapp (pg a) (pg a0) m = Ok m' \<and> free_chain m' (pg a0) bs' \<and> m' (pg a0 + 4) = of_nat n0' \<and>
    sep lo hi ((a0, n0') # bs') \<and> pages_of ((a0, n0') # bs') = pages_of ((a0, n0) # bs) \<union> {a..a + n} \<and>
    (\<forall>w. w \<notin> words (pages_of ((a0, n0) # bs) \<union> {a..a + n}) \<longrightarrow> m' w = m w)"
  using assms(4-)
proof (induction bs arbitrary: a0 n0 lo turns)
  case Nil
  obtain t where t: "turns = Suc t" using Nil(7) by (cases turns) auto
  have l: "a0 + 1 + n0 \<le> a" "a < 2 ^ 29" "a0 > 0" using Nil(3-5) a hi by auto
  have "pg a0 \<noteq> NULL" "\<not> pg a < pg a0" "pg a0 < pg a" "\<not> pg a < pg (a0 + 1 + n0)"
    using pg_NULL [of a0] pg_less [of a a0] pg_less [of a0 a] pg_less [of a "a0 + 1 + n0"] l by auto
  then have "heap_free_loop turns heapp (pg a) (pg a0) m = Ok (heap_insert (pg a0) (pg a) m)"
    unfolding t using H_pg(2) [of m a0 n0] Nil(1,2) by (subst heap_free_loop.simps) (simp add: H_NEXT_def not_less)
  then show ?case using heap_insert_pg [OF hi a Nil(1-3,5)] by auto
next
  case (Cons y bs)
  obtain b k where y: "y = (b, k)" by (cases y)
  obtain t where t: "turns = Suc t" "length bs < t" using Cons(8) by (cases turns) auto
  have bk: "m (pg a0) = pg b" "m (pg b + 4) = of_nat k" "free_chain m (pg b) bs" "a0 + n0 + 2 \<le> b" "b + k < hi" "sep (b + k + 2) hi bs"
    using Cons(2,4) y by auto
  have l: "a0 + 1 + n0 \<le> a" "a < 2 ^ 29" "a0 > 0" "b < 2 ^ 29" using Cons(4-6) y a hi by auto
  have lim: "H_LIMIT m (pg a0) = pg (a0 + 1 + n0)" using H_pg(2) Cons(3) .
  have g: "pg a0 \<noteq> NULL" "\<not> pg a < pg a0" "pg a0 < pg a" "\<not> pg a < pg (a0 + 1 + n0)" "pg b \<noteq> NULL" "pg a < pg b \<longleftrightarrow> a < b"
    using pg_NULL [of a0] pg_NULL [of b] pg_less [of a a0] pg_less [of a0 a] pg_less [of a "a0 + 1 + n0"] pg_less [of a b] l bk(4) by auto
  have step: "heap_free_loop turns heapp (pg a) (pg a0) m =
      (if a < b then Ok (heap_insert (pg a0) (pg a) m) else heap_free_loop t heapp (pg a) (pg b) m)"
    unfolding t using g lim bk(1) by (subst heap_free_loop.simps) (simp add: H_NEXT_def not_less)
  note ap = apart [OF Cons(7) [unfolded y]]
  show ?case
  proof (cases "a < b")
    case True
    then have "sep (a + n + 1) hi (y # bs)" using ap(1) bk y by auto
    then show ?thesis using step True heap_insert_pg [OF hi a Cons(2-4,6)] by auto
  next
    case False
    have "sep (a0 + n0 + 2) hi ((b, k) # bs)" "{a..a + n} \<inter> pages_of bs = {}" using bk Cons(7) y by auto
    with Cons(1) [OF bk(3,2) _ _ _ _ t(2), of "a0 + n0 + 2"] ap(2) False
    obtain m' k' bs' where m': "heap_free_loop t heapp (pg a) (pg b) m = Ok m'" "free_chain m' (pg b) bs'" "m' (pg b + 4) = of_nat k'"
      "sep (a0 + n0 + 2) hi ((b, k') # bs')" "pages_of ((b, k') # bs') = pages_of ((b, k) # bs) \<union> {a..a + n}"
      "\<And>w. w \<notin> words (pages_of ((b, k) # bs) \<union> {a..a + n}) \<Longrightarrow> m' w = m w" by auto
    have "pages_of ((b, k) # bs) \<union> {a..a + n} \<subseteq> {a0 + n0 + 2..<hi}" unfolding m'(5) [symmetric] using sep_pages [OF m'(4)] .
    from words_mono [OF this] have "pg a0 \<notin> words (pages_of ((b, k) # bs) \<union> {a..a + n})" "pg a0 + 4 \<notin> words (pages_of ((b, k) # bs) \<union> {a..a + n})"
      using words_iff [of hi a0 "a0 + n0 + 2"] hi l(1,2) by auto
    then have k: "m' (pg a0) = pg b" "m' (pg a0 + 4) = of_nat n0" using m'(6) bk(1) Cons(3) by simp_all
    have "m' w = m w" if "w \<notin> words (pages_of ((a0, n0) # y # bs) \<union> {a..a + n})" for w using that y by (intro m'(6)) auto
    moreover have "sep lo hi ((a0, n0) # (b, k') # bs')" using Cons(4) m'(4) by auto
    moreover have "pages_of ((a0, n0) # (b, k') # bs') = pages_of ((a0, n0) # y # bs) \<union> {a..a + n}" using m'(5) y by auto
    moreover have "free_chain m' (pg a0) ((b, k') # bs')" using k m' by simp
    moreover have "heap_free_loop turns heapp (pg a) (pg a0) m = Ok m'" using step False m'(1) by simp
    ultimately show ?thesis using k(2) by blast
  qed
qed

subsection \<open>The list of a heap\<close>

text \<open>The descriptor of the heap, 28 bytes long, lies outside of the pages that the heap manages.\<close>

definition heap_outside :: "nat \<Rightarrow> nat \<Rightarrow> ptr \<Rightarrow> bool" where
  "heap_outside lo hi heapp \<longleftrightarrow> 4 dvd unat heapp \<and> 0 < lo \<and> hi \<le> 2 ^ 28 \<and> unat heapp + 28 < 2 ^ 32 \<and>
     (unat heapp + 28 \<le> 8 * lo \<or> 8 * hi \<le> unat heapp)"

definition heap_list :: "nat \<Rightarrow> nat \<Rightarrow> ptr \<Rightarrow> (ptr \<Rightarrow> u32) \<Rightarrow> (nat \<times> nat) list \<Rightarrow> bool" where
  "heap_list lo hi heapp m bs \<longleftrightarrow> heap_outside lo hi heapp \<and> free_chain m (heap_header heapp) bs \<and> sep lo hi bs \<and>
     H_PAGES m (heap_header heapp) = 0"

lemma unat_field: "unat p + c < 2 ^ 32 \<Longrightarrow> unat (p + of_nat c) = unat p + c" for p :: u32
  by (simp add: unat_word_ariths unat_of_nat)

lemma heap_fields:
  assumes "heap_outside lo hi heapp"
  shows "heap_header heapp \<notin> words {lo..<hi}" and "heap_header heapp + 4 \<notin> words {lo..<hi}" and "heap_header heapp \<noteq> NULL"
    and "lo \<le> x \<Longrightarrow> x < hi \<Longrightarrow> pg x < heap_header heapp \<or> heap_header heapp + 8 < pg x"
    and "lo \<le> x \<Longrightarrow> x < hi \<Longrightarrow> heap_header heapp + 8 \<noteq> pg x"
proof -
  have f: "unat (heap_header heapp) = unat heapp + 4" "unat (heap_header heapp + 4) = unat heapp + 8" "unat (heap_header heapp + 8) = unat heapp + 12"
    using assms unat_field [of heapp 4] unat_field [of heapp 8] unat_field [of heapp 12] by (simp_all add: heap_outside_def heap_header_def add.commute [of _ heapp])
  have w: "w \<notin> words {lo..<hi}" if "w \<in> {heap_header heapp, heap_header heapp + 4}" for w
  proof
    assume "w \<in> words {lo..<hi}"
    then obtain x where x: "w = pg x \<or> w = pg x + 4" "lo \<le> x" "x < hi" unfolding words_def by fastforce
    then have "unat w = 8 * x \<or> unat w = 8 * x + 4" using unat_pg [of x] unat_pg4 [of x] assms by (auto simp: heap_outside_def)
    then show False using that f x assms by (auto simp: heap_outside_def)
  qed
  then show "heap_header heapp \<notin> words {lo..<hi}" "heap_header heapp + 4 \<notin> words {lo..<hi}" by simp_all
  show "heap_header heapp \<noteq> NULL" using f(1) by auto
  show "pg x < heap_header heapp \<or> heap_header heapp + 8 < pg x" if "lo \<le> x" "x < hi"
    using that assms f unat_pg [of x] by (auto simp: word_less_nat_alt heap_outside_def)
  show "heap_header heapp + 8 \<noteq> pg x" if "lo \<le> x" "x < hi"
    using that assms f(3) unat_pg [of x] by (auto simp: heap_outside_def)
qed

lemma sep_length: "sep lo hi bs \<Longrightarrow> length bs \<le> hi - lo"
  by (induction lo hi bs rule: sep.induct) auto

lemma heap_free_list:
  assumes l: "heap_list lo hi heapp m bs" and a: "lo \<le> a" "a + n < hi" "m (pg a + 4) = of_nat n" and d: "{a..a + n} \<inter> pages_of bs = {}"
  shows "\<exists>m' bs'. heap_free_loop max_turns heapp (pg a) (heap_header heapp) m = Ok m' \<and> heap_list lo hi heapp m' bs' \<and>
    pages_of bs' = pages_of bs \<union> {a..a + n} \<and>
    (\<forall>w. w \<noteq> heap_header heapp \<longrightarrow> w \<notin> words (pages_of bs \<union> {a..a + n}) \<longrightarrow> m' w = m w)"
proof -
  let ?q = "heap_header heapp"
  have o: "heap_outside lo hi heapp" and ch: "free_chain m ?q bs" and sp: "sep lo hi bs" and p0: "m (?q + 4) = 0"
    using l by (simp_all add: heap_list_def H_PAGES_def)
  have hi: "hi \<le> 2 ^ 28" "lo > 0" "a < 2 ^ 29" using o a by (auto simp: heap_outside_def)
  note f = heap_fields [OF o]
  have lim: "H_LIMIT m' ?q = ?q + 8" if "m' (?q + 4) = 0" for m' using that by (simp add: H_LIMIT_def H_BLOCK_def H_PAGES_def)
  have ok: "pg a < ?q \<or> ?q + 8 \<le> pg a" using f(4) [of a] a by auto
  obtain t where t: "max_turns = Suc t" "length bs < t" using sep_length [OF sp] hi(1) by (simp add: max_turns_def)
  have step: "heap_free_loop max_turns heapp (pg a) ?q m =
      (if m ?q = NULL \<or> pg a < m ?q then Ok (heap_insert ?q (pg a) m) else heap_free_loop t heapp (pg a) (m ?q) m)"
    unfolding t by (subst heap_free_loop.simps) (use f(3) ok lim [of m] p0 in \<open>simp add: H_NEXT_def\<close>)
  have ins: ?thesis if s: "sep (a + n + 1) hi bs" and st: "heap_free_loop max_turns heapp (pg a) ?q m = Ok (heap_insert ?q (pg a) m)"
  proof -
    let ?l = "heap_link ?q (pg a) m"
    obtain n' bs' where r: "free_chain ?l ?q ((a, n') # bs')" "sep lo hi ((a, n') # bs')" "{a..a + n'} \<union> pages_of bs' = {a..a + n} \<union> pages_of bs"
        "\<And>w. w \<noteq> ?q \<Longrightarrow> w \<notin> words {a..a + n} \<Longrightarrow> ?l w = m w"
      using heap_link_ok [OF ch a(3) s a(1) _ a(2) hi(1) f(1)] a(1) hi(2) by auto
    have "words {a..a + n} \<subseteq> words {lo..<hi}" using a by (intro words_mono) auto
    then have q4: "?l (?q + 4) = 0" using r(4) [of "?q + 4"] f(2) p0 by auto
    have "?q + 8 \<noteq> pg a" using f(5) [of a] a by simp
    then have "heap_insert ?q (pg a) m = ?l" using lim [of ?l] q4 by (simp add: heap_insert_def Let_def)
    then show ?thesis using st r q4 o by (intro exI [of _ ?l] exI [of _ "(a, n') # bs'"]) (auto simp: heap_list_def H_PAGES_def)
  qed
  show ?thesis
  proof (cases bs)
    case Nil
    then show ?thesis using ins step ch by simp
  next
    case (Cons y cs)
    then obtain b k where y: "bs = (b, k) # cs" by (cases y) auto
    have b: "m ?q = pg b" "m (pg b + 4) = of_nat k" "free_chain m (pg b) cs" "lo \<le> b" "b + k < hi" "b < 2 ^ 29" "sep (b + k + 2) hi cs"
      using ch sp y hi by auto
    have g: "pg b \<noteq> NULL" "pg a < pg b \<longleftrightarrow> a < b" using pg_NULL [of b] pg_less [of a b] b hi by auto
    note ap = apart [OF d [unfolded y]]
    show ?thesis
    proof (cases "a < b")
      case True
      then have "sep (a + n + 1) hi bs" using y ap(1) b by auto
      then show ?thesis using ins step g True b(1) by simp
    next
      case False
      have "{a..a + n} \<inter> pages_of cs = {}" "length cs < t" "b + k < a" using d y t(2) ap(2) False by auto
      with heap_free_pg [OF hi(1) a(2,3) b(3,2) sp [unfolded y] hi(2), of t heapp]
      obtain m' k' bs' where m': "heap_free_loop t heapp (pg a) (pg b) m = Ok m'" "free_chain m' (pg b) bs'" "m' (pg b + 4) = of_nat k'"
        "sep lo hi ((b, k') # bs')" "pages_of ((b, k') # bs') = pages_of bs \<union> {a..a + n}"
        "\<And>w. w \<notin> words (pages_of bs \<union> {a..a + n}) \<Longrightarrow> m' w = m w" using y by auto
      have "words (pages_of bs \<union> {a..a + n}) \<subseteq> words {lo..<hi}" unfolding m'(5) [symmetric] using words_mono [OF sep_pages [OF m'(4)]] .
      then have "?q \<notin> words (pages_of bs \<union> {a..a + n})" "?q + 4 \<notin> words (pages_of bs \<union> {a..a + n})" using f(1,2) by blast+
      then have "m' ?q = pg b" "m' (?q + 4) = 0" using m'(6) b(1) p0 by (simp_all del: words_simps)
      then have "heap_list lo hi heapp m' ((b, k') # bs')" using m' o by (simp add: heap_list_def H_PAGES_def)
      moreover have "heap_free_loop max_turns heapp (pg a) ?q m = Ok m'" using step m'(1) g False b(1) by simp
      ultimately show ?thesis using m'(5,6) by blast
    qed
  qed
qed

lemma heap_search_list:
  assumes l: "heap_list lo hi heapp m bs" and al: "page_align align al" and np: "np > 0" "np < 2 ^ 29"
  shows "alloc_blocks al np bs = None \<Longrightarrow> heap_search max_turns heapp sz (of_nat np) align (heap_header heapp) m = Ok (NULL, m)"
    and "alloc_blocks al np bs = Some (b, bs') \<Longrightarrow>
      \<exists>m'. heap_search max_turns heapp sz (of_nat np) align (heap_header heapp) m = Ok (pg (b + 1), m') \<and> heap_list lo hi heapp m' bs' \<and>
        H_HEAP m' (pg b) = heapp \<and> H_SIZE m' (pg b) = sz \<and>
        (\<forall>w. w \<noteq> heap_header heapp \<longrightarrow> w \<notin> words (pages_of bs) \<longrightarrow> m' w = m w)"
proof -
  let ?q = "heap_header heapp"
  have o: "heap_outside lo hi heapp" and ch: "free_chain m ?q bs" and sp: "sep lo hi bs" and p0: "m (?q + 4) = 0"
    using l by (simp_all add: heap_list_def H_PAGES_def)
  have hi: "hi \<le> 2 ^ 28" "lo > 0" using o by (auto simp: heap_outside_def)
  have "length bs \<le> max_turns" using sep_length [OF sp] hi(1) by (simp add: max_turns_def)
  note s = heap_search_ok [OF ch sp hi(2,1) heap_fields(1) [OF o] al np this, of heapp sz]
  show "alloc_blocks al np bs = None \<Longrightarrow> heap_search max_turns heapp sz (of_nat np) align ?q m = Ok (NULL, m)" using s by simp
  assume b: "alloc_blocks al np bs = Some (b, bs')"
  then obtain m' where m': "heap_search max_turns heapp sz (of_nat np) align ?q m = Ok (pg (b + 1), m')" "free_chain m' ?q bs'"
      "H_HEAP m' (pg b) = heapp" "H_SIZE m' (pg b) = sz" "\<And>w. w \<noteq> ?q \<Longrightarrow> w \<notin> words (pages_of bs) \<Longrightarrow> m' w = m w" using s by auto
  have "?q + 4 \<notin> words (pages_of bs)" using words_mono [OF sep_pages [OF sp]] heap_fields(2) [OF o] by auto
  then have "m' (?q + 4) = 0" using m'(5) [of "?q + 4"] p0 by simp
  moreover have "sep lo hi bs'" using alloc_blocks_ok [OF b sp _ np(1)] al by (simp add: page_align_def)
  ultimately have "heap_list lo hi heapp m' bs'" using o m'(2) by (simp add: heap_list_def H_PAGES_def)
  then show "\<exists>m'. heap_search max_turns heapp sz (of_nat np) align ?q m = Ok (pg (b + 1), m') \<and> heap_list lo hi heapp m' bs' \<and>
      H_HEAP m' (pg b) = heapp \<and> H_SIZE m' (pg b) = sz \<and> (\<forall>w. w \<noteq> ?q \<longrightarrow> w \<notin> words (pages_of bs) \<longrightarrow> m' w = m w)"
    using m' by blast
qed

end
