(* ===== verification/Creation.thy ===== *)
theory Creation
  imports Threads HalDrivers
begin

text \<open>
  The creation of threads (\<open>chThdCreateStatic\<close>, \<open>chThdCreate\<close> of \<open>os/rt/src/chthreads.c\<close>, which is modelled in theory
  \<open>Threads\<close>). Before a thread is created, the registry is scanned for a thread with the same working area;
  the scan takes a reference to each thread on its way and drops it again (\<open>wa_free_ok\<close>). The new thread is
  registered and made ready, or takes the processor at once when it has the higher priority (\<open>created\<close>).
\<close>

section \<open>References\<close>

lemma refs_same [simp]:
  "t_state (((threads k)(tp := t_refs_update f (threads k tp))) t) = state_of k t"
  "t_prio (((threads k)(tp := t_refs_update f (threads k tp))) t) = prio_of k t"
  "t_wabase (((threads k)(tp := t_refs_update f (threads k tp))) t) = t_wabase (threads k t)"
  by auto

lemma sched_ok_refs [simp]: "sched_ok (upd_th tp (t_refs_update f) k) = sched_ok k"
  unfolding sched_ok_def sched_inv_def sched_order_def upd_th_threads upd_th_frame refs_same ..

lemma running_lock: "running k \<Longrightarrow> chSysLock k = Ok (k\<lparr>lock_cnt := 1\<rparr>)" "running k \<Longrightarrow> thd_ctx (k\<lparr>lock_cnt := 1\<rparr>)"
  using chSysLock_ok [of k] by (simp_all add: running_def)

lemma running_unlock: "sched_ok k \<Longrightarrow> thd_ctx k \<Longrightarrow> chSysUnlock k = Ok (k\<lparr>lock_cnt := 0\<rparr>) \<and> running (k\<lparr>lock_cnt := 0\<rparr>)"
  using chSysUnlock_ok [of k] by (simp add: running_def sched_ok_def)

lemma running_same: "running k \<Longrightarrow> k\<lparr>lock_cnt := 0\<rparr> = k"
  by (simp add: running_def thread_idle_ctx_def)

lemma running_refs [simp]: "running (upd_th tp (t_refs_update f) k) = running k"
  by (simp add: running_def thread_idle_ctx_def)

lemma refs_lock: "upd_th tp f (k\<lparr>lock_cnt := n\<rparr>) = (upd_th tp f k)\<lparr>lock_cnt := n\<rparr>"
  by (simp add: upd_th_def)

lemma chThdRelease_ok:
  assumes "running k" and "t_refs (threads k tp) > 1"
  shows "chThdRelease tp k = Ok (upd_th tp (t_refs_update (\<lambda>r. r - 1)) k)"
proof -
  let ?k = "upd_th tp (t_refs_update (\<lambda>r. r - 1)) (k\<lparr>lock_cnt := 1\<rparr>)"
  have r: "t_refs (threads k tp) > 0" "t_refs (threads k tp) - 1 \<noteq> 0" using assms(2) by (auto simp: word_less_nat_alt)
  have "release_body tp (k\<lparr>lock_cnt := 1\<rparr>) = Ok ?k" using r by (simp add: release_body_def Let_def)
  then have "locked (release_body tp) k = Ok (?k\<lparr>lock_cnt := 0\<rparr>)"
    using locked_Ok(1) [of k "release_body tp" ?k] assms(1) running_lock(2) [OF assms(1)] by (simp add: running_def thd_ctx_def)
  moreover have "?k\<lparr>lock_cnt := 0\<rparr> = upd_th tp (t_refs_update (\<lambda>r. r - 1)) k"
    using running_same [of "upd_th tp (t_refs_update (\<lambda>r. r - 1)) k"] assms(1) by (simp add: refs_lock)
  ultimately show ?thesis using r by (simp add: chThdRelease_def)
qed

lemma refs_id [simp]: "t_refs_update (\<lambda>x. x) t = t"
  by (cases t) simp

lemma refs_back: "upd_th tp (t_refs_update (\<lambda>r. r - 1)) (inc_refs tp k) = k"
  unfolding inc_refs_def upd_th_twice by (simp add: upd_th_def comp_def)

lemma refs_back_other:
  "t \<noteq> tp \<Longrightarrow> upd_th tp (t_refs_update (\<lambda>r. r - 1)) (inc_refs t (inc_refs tp k)) = inc_refs t k"
  unfolding inc_refs_def by (subst upd_th_commute) (simp, simp add: upd_th_twice, simp add: upd_th_def comp_def)

section \<open>Timers leave the threads alone\<close>

definition timers_only :: "kernel \<Rightarrow> kernel \<Rightarrow> bool" where
  "timers_only k k' \<longleftrightarrow> threads k' = threads k \<and> queues k' = queues k \<and> currp k' = currp k \<and> registry k' = registry k \<and>
     isr_cnt k' = isr_cnt k \<and> lock_cnt k' = lock_cnt k \<and> sem_cnt k' = sem_cnt k \<and> mtxs k' = mtxs k \<and> trefs k' = trefs k \<and> mboxes k' = mboxes k"

lemma timers_only_refl [simp]: "timers_only k k"
  by (simp add: timers_only_def)

lemma timers_only_inv:
  "timers_only k k' \<Longrightarrow> sched_inv k' = sched_inv k" "timers_only k k' \<Longrightarrow> sched_order k' = sched_order k"
  "timers_only k k' \<Longrightarrow> thd_ctx k' = thd_ctx k" "timers_only k k' \<Longrightarrow> i_ctx k' = i_ctx k"
  by (simp_all add: timers_only_def sched_inv_def sched_order_def thd_ctx_def i_ctx_def)

lemma timers_only_set: "chVTDoSetI v delay fn par k = Ok k' \<Longrightarrow> timers_only k k'"
  by (auto simp: chVTDoSetI_def timers_only_def chVTGetSystemTimeX_def stGetCounter_def stStartAlarm_def stSetAlarm_def vt_list_compress_def
      Let_def split: if_splits prod.splits)

lemma timers_only_reset: "chVTDoResetI v k = Ok k' \<Longrightarrow> timers_only k k'"
  by (auto simp: chVTDoResetI_def timers_only_def chVTGetSystemTimeX_def stGetCounter_def stStopAlarm_def stSetAlarm_def
      Let_def split: if_splits prod.splits)

lemma chSchGoSleepS_Ok: "thd_ctx k \<Longrightarrow> chSchGoSleepS st k = Ok k' \<Longrightarrow> queues k RLIST \<noteq> [] \<and> k' = go_sleep st k"
  using chSchGoSleepS_eq [of k st] by (cases "queues k RLIST") (auto simp: chSchGoSleepS_def q_first_out_def)

lemma chSchGoSleepTimeoutS_Ok:
  assumes "thd_ctx k" and "chSchGoSleepTimeoutS st timeout k = Ok k'"
  shows "\<exists>k1. timers_only k k1 \<and> queues k RLIST \<noteq> [] \<and> k' = go_sleep st k1"
proof (cases "timeout = TIME_INFINITE")
  case True
  then show ?thesis using assms chSchGoSleepS_Ok [of k st k'] by (intro exI [of _ k]) (auto simp: chSchGoSleepTimeoutS_def)
next
  case False
  then obtain k1 where k1: "chVTDoSetI (SLEEPVT (currp k)) timeout VT_WAKEUP (currp k) k = Ok k1" "chSchGoSleepS st k1 = Ok k'"
    using assms by (auto simp: chSchGoSleepTimeoutS_def)
  have t: "timers_only k k1" using timers_only_set k1(1) .
  then have "thd_ctx k1" using assms(1) by (simp add: timers_only_inv)
  then have "queues k1 RLIST \<noteq> []" "k' = go_sleep st k1" using chSchGoSleepS_Ok [OF _ k1(2)] by simp_all
  moreover have "queues k1 = queues k" using t by (simp add: timers_only_def)
  ultimately show ?thesis using t by (intro exI [of _ k1]) simp
qed

lemma chSchGoSleepTimeoutS_resume_Ok:
  "chSchGoSleepTimeoutS_resume timeout k = Ok (msg, k') \<Longrightarrow> timers_only k k' \<and> msg = rdymsg_of k (currp k)"
  using timers_only_reset [of "SLEEPVT (currp k)" k]
  by (auto simp: chSchGoSleepTimeoutS_resume_def timers_only_def split: if_splits)

section \<open>The scan of the registry\<close>

text \<open>A registered thread has at least one reference, and fewer than the counter can hold.\<close>

definition reg_ok :: "kernel \<Rightarrow> bool" where
  "reg_ok k \<longleftrightarrow> registry k \<noteq> [] \<and> distinct (registry k) \<and> NULL \<notin> set (registry k) \<and>
     (\<forall>t\<in>set (registry k). 0 < t_refs (threads k t) \<and> t_refs (threads k t) < 255)"

lemma next_newer_mid: "distinct (xs @ t # ys) \<Longrightarrow> next_newer t (xs @ t # ys) = (case ys of [] \<Rightarrow> NULL | y # _ \<Rightarrow> y)"
proof (induction xs)
  case (Cons x xs)
  have "x \<noteq> t" "distinct (xs @ t # ys)" using Cons(2) by auto
  moreover obtain a zs where "xs @ t # ys = a # zs" by (cases xs) auto
  ultimately show ?case using Cons(1) by simp
qed (auto split: list.splits)

lemma inc_refs_frame [simp]:
  "registry (inc_refs t k) = registry k" "running (inc_refs t k) = running k"
  "t_wabase (threads (inc_refs t k) x) = t_wabase (threads k x)"
  "t_refs (threads (inc_refs t k) x) = (if x = t then t_refs (threads k x) + 1 else t_refs (threads k x))"
  by (auto simp: inc_refs_def)

lemma byte_succ: "(0 :: byte) < r \<Longrightarrow> r < 255 \<Longrightarrow> 1 < r + 1"
  by (auto simp: word_less_nat_alt unat_word_ariths)

lemma chRegNextThread_ok:
  assumes "running k" and "reg_ok k" and "registry k = xs @ t # ys"
  shows "chRegNextThread t (inc_refs t k) = Ok (case ys of [] \<Rightarrow> (NULL, k) | y # _ \<Rightarrow> (y, inc_refs y k))"
proof -
  let ?k = "inc_refs t k"
  have r: "running ?k" "0 < t_refs (threads k t)" "t_refs (threads k t) < 255" using assms by (auto simp: reg_ok_def)
  have n: "next_newer t (registry k) = (case ys of [] \<Rightarrow> NULL | y # _ \<Rightarrow> y)" using assms(2,3) next_newer_mid by (simp add: reg_ok_def)
  have b: "1 < t_refs (threads k t) + 1" using byte_succ r(2,3) by blast
  show ?thesis
  proof (cases ys)
    case Nil
    have "chThdRelease t ?k = Ok k" using chThdRelease_ok [OF r(1), of t] refs_back b by simp
    moreover have "chSysUnlock (?k\<lparr>lock_cnt := 1\<rparr>) = Ok ?k"
      using running_unlock [of "?k\<lparr>lock_cnt := 1\<rparr>"] running_lock(2) [OF r(1)] running_same [OF r(1)] r(1) by (simp add: running_def)
    ultimately show ?thesis using running_lock(1) [OF r(1)] n Nil by (simp add: chRegNextThread_def Let_def)
  next
    case (Cons y zs)
    have y: "y \<noteq> t" "y \<noteq> NULL" "t_refs (threads k y) < 255" using assms(2,3) Cons by (auto simp: reg_ok_def)
    have r2: "running (inc_refs y ?k)" using r(1) by simp
    have "chThdRelease t (inc_refs y ?k) = Ok (inc_refs y k)"
      using chThdRelease_ok [OF r2, of t] refs_back_other [OF y(1)] b y(1) by simp
    moreover have e: "inc_refs y (?k\<lparr>lock_cnt := 1\<rparr>) = (inc_refs y ?k)\<lparr>lock_cnt := 1\<rparr>" by (simp add: inc_refs_def refs_lock)
    moreover have "chSysUnlock ((inc_refs y ?k)\<lparr>lock_cnt := 1\<rparr>) = Ok (inc_refs y ?k)"
      using running_unlock [of "(inc_refs y ?k)\<lparr>lock_cnt := 1\<rparr>"] running_lock(2) [OF r2] running_same [OF r2] r2 by (simp add: running_def)
    ultimately show ?thesis using running_lock(1) [OF r(1)] n Cons y by (simp add: chRegNextThread_def Let_def)
  qed
qed

lemma reg_scan_none:
  assumes "running k" and "reg_ok k" and "registry k = xs @ t # ys" and "\<forall>x\<in>set (t # ys). t_wabase (threads k x) \<noteq> wa" and "length ys < n"
  shows "reg_scan n (\<lambda>k tp. t_wabase (threads k tp) = wa) t (inc_refs t k) = Ok (NULL, k)"
  using assms(3-5)
proof (induction ys arbitrary: xs t n)
  case Nil
  then show ?case using chRegNextThread_ok [OF assms(1,2) Nil(1)] by (cases n) auto
next
  case (Cons y ys)
  obtain m where m: "n = Suc m" "length ys < m" using Cons(4) by (cases n) auto
  have "y \<noteq> NULL" using assms(2) Cons(2) by (auto simp: reg_ok_def)
  moreover have "reg_scan m (\<lambda>k tp. t_wabase (threads k tp) = wa) y (inc_refs y k) = Ok (NULL, k)"
    using Cons(1) [of "xs @ [t]" y m] Cons(2,3) m(2) by simp
  ultimately show ?case using m(1) chRegNextThread_ok [OF assms(1,2) Cons(2)] Cons(3) by simp
qed

lemma wa_free_ok:
  assumes "running k" and "reg_ok k" and "\<forall>x\<in>set (registry k). t_wabase (threads k x) \<noteq> wa"
  shows "wa_free f wa k = Ok k"
proof -
  obtain t ys where r: "registry k = t # ys" using assms(2) by (cases "registry k") (auto simp: reg_ok_def)
  let ?k = "inc_refs t (k\<lparr>lock_cnt := 1\<rparr>)"
  have e: "?k = (inc_refs t k)\<lparr>lock_cnt := 1\<rparr>" by (simp add: inc_refs_def refs_lock)
  have r2: "running (inc_refs t k)" using assms(1) by simp
  have "chSysUnlock ?k = Ok (inc_refs t k)"
    using running_unlock [of ?k] running_lock(2) [OF r2] running_same [OF r2] r2 unfolding e by (simp add: running_def)
  then have "chRegFirstThread k = Ok (t, inc_refs t k)"
    using running_lock(1) [OF assms(1)] r by (simp add: chRegFirstThread_def unlock_resume_def)
  moreover have "reg_scan (length (registry k)) (\<lambda>k tp. t_wabase (threads k tp) = wa) t (inc_refs t k) = Ok (NULL, k)"
    using reg_scan_none [OF assms(1,2), of "[]" t ys wa "length (registry k)"] r assms(3) by simp
  ultimately show ?thesis by (simp add: wa_free_def chRegFindThreadByWorkingArea_def reg_find_def)
qed

section \<open>A new thread\<close>

text \<open>An address where there is no thread yet.\<close>

definition fresh :: "ptr \<Rightarrow> kernel \<Rightarrow> bool" where
  "fresh tp k \<longleftrightarrow> tp \<noteq> NULL \<and> state_of k tp = CH_STATE_FINAL \<and> tp \<notin> set (registry k) \<and>
     queues k (MSGQ tp) = [] \<and> queues k (WAITING tp) = []"

definition spawn :: "ptr \<Rightarrow> ptr \<Rightarrow> string \<Rightarrow> nat \<Rightarrow> kernel \<Rightarrow> kernel" where
  "spawn wa tp name prio k = thread_init tp name prio (upd_th tp (t_wabase_update (\<lambda>_. wa)) k)"

text \<open>The state after a thread has been created and woken up.\<close>

definition new_thread :: "ptr \<Rightarrow> ptr \<Rightarrow> string \<Rightarrow> nat \<Rightarrow> kernel \<Rightarrow> kernel" where
  "new_thread wa tp name prio k = (wake tp MSG_OK (spawn wa tp name prio (k\<lparr>lock_cnt := 1\<rparr>)))\<lparr>lock_cnt := 0\<rparr>"

lemma spawn_frame [simp]:
  "currp (spawn wa tp name prio k) = currp k" "isr_cnt (spawn wa tp name prio k) = isr_cnt k" "lock_cnt (spawn wa tp name prio k) = lock_cnt k"
  "registry (spawn wa tp name prio k) = registry k @ [tp]"
  "sem_cnt (spawn wa tp name prio k) = sem_cnt k" "mtxs (spawn wa tp name prio k) = mtxs k" "trefs (spawn wa tp name prio k) = trefs k"
  "mboxes (spawn wa tp name prio k) = mboxes k" "vt_list (spawn wa tp name prio k) = vt_list k"
  by (simp_all add: spawn_def thread_init_def reg_insert_def)

lemma spawn_queues: "fresh tp k \<Longrightarrow> queues (spawn wa tp name prio k) = queues k"
  by (rule ext) (auto simp: spawn_def thread_init_def reg_insert_def fresh_def)

lemma spawn_th:
  "threads (spawn wa tp name prio k) = (threads k)(tp := (threads k tp)\<lparr>t_wabase := wa, t_prio := prio, t_state := CH_STATE_WTSTART,
     t_flags := CH_FLAG_MODE_STATIC, t_realprio := prio, t_mtxlist := NULL, t_epending := 0, t_refs := 1, t_name := name\<rparr>)"
  by (simp add: spawn_def thread_init_def reg_insert_def)

lemma spawn_ok:
  assumes "sched_ok k" and "fresh tp k" and "prio > 0"
  shows "sched_ok (spawn wa tp name prio k)" and "limbo tp (spawn wa tp name prio k)"
proof -
  let ?k = "spawn wa tp name prio k"
  have inv: "sched_inv k" and ord: "sched_order k" using assms(1) by (simp_all add: sched_ok_def)
  have f: "tp \<noteq> NULL" "state_of k tp = CH_STATE_FINAL" using assms(2) by (simp_all add: fresh_def)
  have nq: "tp \<notin> set (queues k q)" for q
    using f(2) sched_invD(4) [OF inv, of tp] sched_invD(5) [OF inv, of q tp] by (cases "q = RLIST") auto
  have q: "queues ?k = queues k" using spawn_queues [OF assms(2)] .
  have cur: "currp k \<noteq> tp" using sched_invD(6) [OF inv, of tp] f(2) by auto
  have so: "sorted_wrt (\<lambda>a b. prio_of ?k a \<ge> prio_of ?k b) (queues k RLIST)"
    using sched_invD(1) [OF inv] nq [of RLIST] by (auto simp: spawn_th intro: sorted_wrt_mono_rel [rotated])
  have "sched_inv ?k"
  proof (rule sched_invI)
    show "t \<in> set (queues ?k RLIST) \<longleftrightarrow> state_of ?k t = CH_STATE_READY" for t
      using sched_invD(4) [OF inv, of t] nq [of RLIST] by (auto simp: q spawn_th)
    show "queued_state (state_of ?k t)" if "p \<noteq> RLIST" "t \<in> set (queues ?k p)" for p t
      using that sched_invD(5) [OF inv, of p t] nq [of p] by (auto simp: q spawn_th)
    show "state_of ?k t = CH_STATE_CURRENT \<longleftrightarrow> t = currp ?k" for t
      using sched_invD(6) [OF inv, of t] cur by (auto simp: spawn_th)
    show "prio_of ?k t > 0" if "state_of ?k t \<noteq> CH_STATE_FINAL" for t
      using that sched_invD(7) [OF inv, of t] assms(3) by (auto simp: spawn_th split: if_splits)
    show "state_of ?k NULL = CH_STATE_FINAL" using sched_invD(8) [OF inv] f(1) by (simp add: spawn_th)
  qed (use so sched_invD(2) [OF inv] sched_invD(3) [OF inv] in \<open>simp_all add: q\<close>)
  moreover have "sched_order ?k" using ord cur nq [of RLIST] by (auto simp: sched_order_def q spawn_th)
  ultimately show "sched_ok ?k" by (simp add: sched_ok_def)
  show "limbo tp ?k" using nq by (simp add: limbo_def q spawn_th)
qed

lemma new_thread_ok:
  assumes "running k" and "fresh tp k" and "prio > 0"
  shows "chSchWakeupS tp MSG_OK (spawn wa tp name prio (k\<lparr>lock_cnt := 1\<rparr>)) = Ok ((new_thread wa tp name prio k)\<lparr>lock_cnt := 1\<rparr>)"
    and "unlock_resume tp ((new_thread wa tp name prio k)\<lparr>lock_cnt := 1\<rparr>) = Ok (tp, new_thread wa tp name prio k)"
    and "running (new_thread wa tp name prio k)"
proof -
  let ?s = "spawn wa tp name prio (k\<lparr>lock_cnt := 1\<rparr>)" let ?w = "wake tp MSG_OK ?s"
  have ok: "sched_ok (k\<lparr>lock_cnt := 1\<rparr>)" "fresh tp (k\<lparr>lock_cnt := 1\<rparr>)" using assms by (simp_all add: running_def fresh_def)
  have c: "thd_ctx ?s" using running_lock(2) [OF assms(1)] by (simp add: thd_ctx_def)
  note s = spawn_ok [OF ok assms(3), of wa name]
  have w: "sched_ok ?w" "thd_ctx ?w" using wake_inv [of ?s tp MSG_OK] s c by (simp_all add: sched_ok_def)
  have e: "(new_thread wa tp name prio k)\<lparr>lock_cnt := 1\<rparr> = ?w" using w(2) by (simp add: new_thread_def thd_ctx_def)
  show "chSchWakeupS tp MSG_OK ?s = Ok ((new_thread wa tp name prio k)\<lparr>lock_cnt := 1\<rparr>)"
    unfolding e using s c by (intro chSchWakeupS_eq) (simp_all add: sched_ok_def)
  have u: "chSysUnlock ?w = Ok (?w\<lparr>lock_cnt := 0\<rparr>)" "running (?w\<lparr>lock_cnt := 0\<rparr>)" using running_unlock [OF w] by simp_all
  then show "unlock_resume tp ((new_thread wa tp name prio k)\<lparr>lock_cnt := 1\<rparr>) = Ok (tp, new_thread wa tp name prio k)"
    unfolding e by (simp add: unlock_resume_def new_thread_def)
  show "running (new_thread wa tp name prio k)" using u(2) by (simp add: new_thread_def)
qed

lemma wake_refs [simp]:
  "t_refs (threads (wake tp msg k) t) = t_refs (threads k t)" "t_wabase (threads (wake tp msg k) t) = t_wabase (threads k t)"
  by (simp_all add: wake_def ready_behind_def ready_ahead_def make_current_def)

lemma new_thread_frame [simp]:
  "registry (new_thread wa tp name prio k) = registry k @ [tp]" "mboxes (new_thread wa tp name prio k) = mboxes k"
  "mtxs (new_thread wa tp name prio k) = mtxs k" "trefs (new_thread wa tp name prio k) = trefs k" "vt_list (new_thread wa tp name prio k) = vt_list k"
  "prio_of (new_thread wa tp name prio k) t = (if t = tp then prio else prio_of k t)"
  "t_refs (threads (new_thread wa tp name prio k) t) = (if t = tp then 1 else t_refs (threads k t))"
  "t_wabase (threads (new_thread wa tp name prio k) t) = (if t = tp then wa else t_wabase (threads k t))"
  by (simp_all add: new_thread_def spawn_th)

lemma new_thread_queues: "fresh tp k \<Longrightarrow> q \<noteq> RLIST \<Longrightarrow> queues (new_thread wa tp name prio k) q = queues k q"
  using spawn_queues [of tp "k\<lparr>lock_cnt := 1\<rparr>" wa name prio] by (simp add: new_thread_def fresh_def)

lemma new_thread_reg: "reg_ok k \<Longrightarrow> fresh tp k \<Longrightarrow> reg_ok (new_thread wa tp name prio k)"
  by (auto simp: reg_ok_def fresh_def)

text \<open>A thread that does not have the higher priority waits behind those of its own.\<close>

lemma new_thread_behind:
  assumes "running k" and "fresh tp k" and "prio \<le> prio_of k (currp k)"
  shows "currp (new_thread wa tp name prio k) = currp k"
    and "queues (new_thread wa tp name prio k) RLIST = insort_wrt (\<lambda>cp. prio_of (new_thread wa tp name prio k) cp \<ge> prio) tp (queues k RLIST)"
    and "state_of (new_thread wa tp name prio k) t = (if t = tp then CH_STATE_READY else state_of k t)"
    and "t_u (threads (new_thread wa tp name prio k) t) = (if t = tp then MSG_OK else t_u (threads k t))"
proof -
  let ?s = "spawn wa tp name prio (k\<lparr>lock_cnt := 1\<rparr>)"
  have f: "fresh tp (k\<lparr>lock_cnt := 1\<rparr>)" using assms(2) by (simp add: fresh_def)
  have c: "currp k \<noteq> tp" using sched_invD(6) [of k tp] assms(1,2) by (auto simp: running_def sched_ok_def fresh_def)
  have w: "wake tp MSG_OK ?s = ready_behind tp (set_u MSG_OK tp ?s)" using assms(3) c by (simp add: wake_def spawn_th)
  show "currp (new_thread wa tp name prio k) = currp k" by (simp add: new_thread_def w)
  show "queues (new_thread wa tp name prio k) RLIST = insort_wrt (\<lambda>cp. prio_of (new_thread wa tp name prio k) cp \<ge> prio) tp (queues k RLIST)"
    by (simp add: new_thread_def w ready_queues spawn_queues [OF f] spawn_th)
  show "state_of (new_thread wa tp name prio k) t = (if t = tp then CH_STATE_READY else state_of k t)"
    "t_u (threads (new_thread wa tp name prio k) t) = (if t = tp then MSG_OK else t_u (threads k t))"
    by (simp_all add: new_thread_def w spawn_th)
qed

lemma new_thread_ahead:
  assumes "running k" and "fresh tp k" and "prio_of k (currp k) < prio"
  shows "currp (new_thread wa tp name prio k) = tp"
    and "queues (new_thread wa tp name prio k) RLIST = insort_wrt (\<lambda>cp. prio_of (new_thread wa tp name prio k) cp > prio_of k (currp k)) (currp k) (queues k RLIST)"
    and "state_of (new_thread wa tp name prio k) t = (if t = tp then CH_STATE_CURRENT else if t = currp k then CH_STATE_READY else state_of k t)"
    and "t_u (threads (new_thread wa tp name prio k) t) = (if t = tp then MSG_OK else t_u (threads k t))"
proof -
  let ?s = "spawn wa tp name prio (k\<lparr>lock_cnt := 1\<rparr>)"
  have f: "fresh tp (k\<lparr>lock_cnt := 1\<rparr>)" using assms(2) by (simp add: fresh_def)
  have c: "currp k \<noteq> tp" using sched_invD(6) [of k tp] assms(1,2) by (auto simp: running_def sched_ok_def fresh_def)
  have w: "wake tp MSG_OK ?s = make_current tp (ready_ahead (currp k) (set_u MSG_OK tp ?s))" using assms(3) c by (simp add: wake_def spawn_th)
  show "currp (new_thread wa tp name prio k) = tp" by (simp add: new_thread_def w)
  show "queues (new_thread wa tp name prio k) RLIST = insort_wrt (\<lambda>cp. prio_of (new_thread wa tp name prio k) cp > prio_of k (currp k)) (currp k) (queues k RLIST)"
    using c by (simp add: new_thread_def w ready_queues spawn_queues [OF f] spawn_th)
  show "state_of (new_thread wa tp name prio k) t = (if t = tp then CH_STATE_CURRENT else if t = currp k then CH_STATE_READY else state_of k t)"
    "t_u (threads (new_thread wa tp name prio k) t) = (if t = tp then MSG_OK else t_u (threads k t))"
    by (simp_all add: new_thread_def w spawn_th)
qed

text \<open>
  Creating a thread on a working area that no thread uses: the thread is registered under the name it is given, and
  made ready; it takes the processor at once if its priority is above that of the caller.
\<close>

theorem chThdCreateStatic_starts:
  assumes "running k" and "reg_ok k" and "\<forall>x\<in>set (registry k). t_wabase (threads k x) \<noteq> wsp"
    and "wsp \<noteq> NULL" and "MEM_IS_ALIGNED wsp (pc_wa_align pc)" and "sz \<ge> pc_wa_min pc" and "MEM_IS_ALIGNED sz (pc_stack_align pc)"
    and "0 < prio" and "prio \<le> HIGHPRIO" and "pf \<noteq> NULL"
  defines "tp \<equiv> wsp + sz - pc_thread_size pc"
  assumes "fresh tp k"
  shows "chThdCreateStatic pc wsp sz prio pf k = Ok (tp, new_thread wsp tp ''noname'' prio k) \<and> running (new_thread wsp tp ''noname'' prio k)"
proof -
  note n = new_thread_ok [OF assms(1,12,8), of wsp "''noname''"]
  have "wa_free ''chThdCreateStatic'' wsp k = Ok k" by (rule wa_free_ok [OF assms(1-3)])
  then have "chThdCreateStatic pc wsp sz prio pf k = Ok (tp, new_thread wsp tp ''noname'' prio k)"
    using running_lock(1) [OF assms(1)] n(1,2) assms(4-10)
    by (simp add: chThdCreateStatic_def Let_def flip: tp_def spawn_def)
  then show ?thesis using n(3) by simp
qed

end
