(* ===== verification/Pools.thy ===== *)
theory Pools
  imports Heaps Creation Semaphores
begin

text \<open>
  Memory pools and guarded memory pools (\<open>os/oslib/src/chmempools.c\<close>, \<open>os/oslib/include/chmempools.h\<close>).

  The free objects of a pool are linked through their first word. The memory is that of the heap (\<open>hmem\<close> of
  theory \<open>Heaps\<close>), as are the core memory, from which a pool may take new objects, and the kernel; the descriptors of the
  pools are kept by address. A guarded pool at \<open>gmp\<close> is a semaphore at \<open>gmp\<close>, whose counter is meant to be the
  number of free objects, and a pool at \<open>gmp + 12\<close>.

  \<open>pool_list\<close> relates the links to the list of the free objects; the theorems on histories of clients are about an
  array that has been loaded into a pool: no object is given out twice, and what clients write into their objects does
  not reach the list or the objects of others.
\<close>

section \<open>Operations\<close>

datatype memgetfunc = NO_GETMEM | CORE_ALLOC_ALIGNED_I

record memory_pool =
  mp_next :: ptr
  mp_object_size :: u32
  mp_align :: u32
  mp_provider :: memgetfunc

record poolsys =
  ps_hs :: heapsys
  ps_pools :: "ptr \<Rightarrow> memory_pool"

abbreviation ps_k :: "poolsys \<Rightarrow> kernel" where "ps_k s \<equiv> hk (ps_hs s)"
abbreviation ps_mem :: "poolsys \<Rightarrow> ptr \<Rightarrow> u32" where "ps_mem s \<equiv> hmem (ps_hs s)"

definition set_k :: "kernel \<Rightarrow> poolsys \<Rightarrow> poolsys" where
  "set_k k s = s\<lparr>ps_hs := (ps_hs s)\<lparr>hk := k\<rparr>\<rparr>"

definition set_mem :: "ptr \<Rightarrow> u32 \<Rightarrow> poolsys \<Rightarrow> poolsys" where
  "set_mem p v s = s\<lparr>ps_hs := (ps_hs s)\<lparr>hmem := (ps_mem s)(p := v)\<rparr>\<rparr>"

definition set_core :: "memcore \<Rightarrow> poolsys \<Rightarrow> poolsys" where
  "set_core mc s = s\<lparr>ps_hs := (ps_hs s)\<lparr>hcore := mc\<rparr>\<rparr>"

definition upd_pool :: "ptr \<Rightarrow> (memory_pool \<Rightarrow> memory_pool) \<Rightarrow> poolsys \<Rightarrow> poolsys" where
  "upd_pool mp f s = s\<lparr>ps_pools := (ps_pools s)(mp := f (ps_pools s mp))\<rparr>"

definition chPoolObjectInitAligned :: "ptr \<Rightarrow> u32 \<Rightarrow> u32 \<Rightarrow> memgetfunc \<Rightarrow> poolsys \<Rightarrow> poolsys kres" where
  "chPoolObjectInitAligned mp sz align provider s =
     kguard (mp \<noteq> NULL \<and> sz \<ge> 4 \<and> align \<ge> PORT_NATURAL_ALIGN \<and> MEM_IS_VALID_ALIGNMENT align) ''chPoolObjectInitAligned'' (
     Ok (upd_pool mp (\<lambda>_. \<lparr>mp_next = NULL, mp_object_size = sz, mp_align = align, mp_provider = provider\<rparr>) s))"

definition chPoolObjectInit :: "ptr \<Rightarrow> u32 \<Rightarrow> memgetfunc \<Rightarrow> poolsys \<Rightarrow> poolsys kres" where
  "chPoolObjectInit mp sz provider = chPoolObjectInitAligned mp sz PORT_NATURAL_ALIGN provider"

definition chPoolAllocI :: "ptr \<Rightarrow> poolsys \<Rightarrow> (ptr \<times> poolsys) kres" where
  "chPoolAllocI mp s =
     chDbgCheckClassI (ps_k s) (
     kguard (mp \<noteq> NULL) ''chPoolAllocI'' (
     let objp = mp_next (ps_pools s mp)
     in if objp \<noteq> NULL then Ok (objp, upd_pool mp (mp_next_update (\<lambda>_. ps_mem s objp)) s)
        else case mp_provider (ps_pools s mp) of
          NO_GETMEM \<Rightarrow> Ok (objp, s)
        | CORE_ALLOC_ALIGNED_I \<Rightarrow>
            kbind (chCoreAllocAlignedI (mp_object_size (ps_pools s mp)) (mp_align (ps_pools s mp)) (hcore (ps_hs s)) (ps_k s)) (\<lambda>(objp, mc).
            kguard (MEM_IS_ALIGNED objp (mp_align (ps_pools s mp))) ''chPoolAllocI'' (Ok (objp, set_core mc s)))))"

definition chPoolFreeI :: "ptr \<Rightarrow> ptr \<Rightarrow> poolsys \<Rightarrow> poolsys kres" where
  "chPoolFreeI mp objp s =
     chDbgCheckClassI (ps_k s) (
     kguard (mp \<noteq> NULL \<and> objp \<noteq> NULL \<and> MEM_IS_ALIGNED objp (mp_align (ps_pools s mp))) ''chPoolFreeI'' (
     let s = set_mem objp (mp_next (ps_pools s mp)) s
     in Ok (upd_pool mp (mp_next_update (\<lambda>_. objp)) s)))"

definition ps_lock :: "poolsys \<Rightarrow> poolsys kres" where
  "ps_lock s = kbind (chSysLock (ps_k s)) (\<lambda>k. Ok (set_k k s))"

definition ps_unlock :: "poolsys \<Rightarrow> poolsys kres" where
  "ps_unlock s = kbind (chSysUnlock (ps_k s)) (\<lambda>k. Ok (set_k k s))"

definition chPoolAlloc :: "ptr \<Rightarrow> poolsys \<Rightarrow> (ptr \<times> poolsys) kres" where
  "chPoolAlloc mp s =
     kbind (ps_lock s) (\<lambda>s. kbind (chPoolAllocI mp s) (\<lambda>(objp, s). kbind (ps_unlock s) (\<lambda>s. Ok (objp, s))))"

definition chPoolFree :: "ptr \<Rightarrow> ptr \<Rightarrow> poolsys \<Rightarrow> poolsys kres" where
  "chPoolFree mp objp s = kbind (ps_lock s) (\<lambda>s. kbind (chPoolFreeI mp objp s) ps_unlock)"

definition chPoolAdd :: "ptr \<Rightarrow> ptr \<Rightarrow> poolsys \<Rightarrow> poolsys kres" where
  "chPoolAdd mp objp = chPoolFree mp objp"

definition chPoolAddI :: "ptr \<Rightarrow> ptr \<Rightarrow> poolsys \<Rightarrow> poolsys kres" where
  "chPoolAddI mp objp = chPoolFreeI mp objp"

fun pool_load_loop :: "nat \<Rightarrow> ptr \<Rightarrow> ptr \<Rightarrow> poolsys \<Rightarrow> poolsys kres" where
  "pool_load_loop 0 mp p s = Ok s"
| "pool_load_loop (Suc n) mp p s = kbind (chPoolAdd mp p s) (\<lambda>s. pool_load_loop n mp (p + mp_object_size (ps_pools s mp)) s)"

definition chPoolLoadArray :: "ptr \<Rightarrow> ptr \<Rightarrow> u32 \<Rightarrow> poolsys \<Rightarrow> poolsys kres" where
  "chPoolLoadArray mp p n s = kguard (mp \<noteq> NULL \<and> n \<noteq> 0) ''chPoolLoadArray'' (pool_load_loop (unat n) mp p s)"

section \<open>Guarded pools\<close>

definition gp_pool :: "ptr \<Rightarrow> ptr" where "gp_pool gmp = gmp + 12"

definition chGuardedPoolObjectInitAligned :: "ptr \<Rightarrow> u32 \<Rightarrow> u32 \<Rightarrow> poolsys \<Rightarrow> poolsys kres" where
  "chGuardedPoolObjectInitAligned gmp sz align s =
     kbind (chPoolObjectInitAligned (gp_pool gmp) sz align NO_GETMEM s) (\<lambda>s.
     kbind (chSemObjectInit gmp 0 (ps_k s)) (\<lambda>k. Ok (set_k k s)))"

definition chGuardedPoolObjectInit :: "ptr \<Rightarrow> u32 \<Rightarrow> poolsys \<Rightarrow> poolsys kres" where
  "chGuardedPoolObjectInit gmp sz = chGuardedPoolObjectInitAligned gmp sz PORT_NATURAL_ALIGN"

definition chGuardedPoolAllocTimeoutS :: "ptr \<Rightarrow> u32 \<Rightarrow> poolsys \<Rightarrow> (ptr wait \<times> poolsys) kres" where
  "chGuardedPoolAllocTimeoutS gmp timeout s =
     kbind (chSemWaitTimeoutS gmp timeout (ps_k s)) (\<lambda>(r, k).
     case r of Asleep \<Rightarrow> Ok (Asleep, set_k k s)
     | Returned msg \<Rightarrow>
         if msg \<noteq> MSG_OK then Ok (Returned NULL, set_k k s)
         else kbind (chPoolAllocI (gp_pool gmp) (set_k k s)) (\<lambda>(p, s). Ok (Returned p, s)))"

definition chGuardedPoolAllocTimeoutS_resume :: "ptr \<Rightarrow> u32 \<Rightarrow> poolsys \<Rightarrow> (ptr \<times> poolsys) kres" where
  "chGuardedPoolAllocTimeoutS_resume gmp timeout s =
     kbind (chSemWaitTimeoutS_resume timeout (ps_k s)) (\<lambda>(msg, k).
     if msg \<noteq> MSG_OK then Ok (NULL, set_k k s) else chPoolAllocI (gp_pool gmp) (set_k k s))"

definition chGuardedPoolAllocTimeout :: "ptr \<Rightarrow> u32 \<Rightarrow> poolsys \<Rightarrow> (ptr wait \<times> poolsys) kres" where
  "chGuardedPoolAllocTimeout gmp timeout s =
     kbind (ps_lock s) (\<lambda>s. kbind (chGuardedPoolAllocTimeoutS gmp timeout s) (\<lambda>(r, s).
     case r of Asleep \<Rightarrow> Ok (Asleep, s) | Returned p \<Rightarrow> kbind (ps_unlock s) (\<lambda>s. Ok (Returned p, s))))"

definition chGuardedPoolAllocTimeout_resume :: "ptr \<Rightarrow> u32 \<Rightarrow> poolsys \<Rightarrow> (ptr \<times> poolsys) kres" where
  "chGuardedPoolAllocTimeout_resume gmp timeout s =
     kbind (chGuardedPoolAllocTimeoutS_resume gmp timeout s) (\<lambda>(p, s). kbind (ps_unlock s) (\<lambda>s. Ok (p, s)))"

definition chGuardedPoolAllocI :: "ptr \<Rightarrow> poolsys \<Rightarrow> (ptr \<times> poolsys) kres" where
  "chGuardedPoolAllocI gmp s =
     kbind (chPoolAllocI (gp_pool gmp) s) (\<lambda>(p, s).
     if p \<noteq> NULL
     then kbind (chSemFastWaitI gmp (ps_k s)) (\<lambda>k.
          kbind (chSemGetCounterI gmp k) (\<lambda>n.
          kguard (n \<ge> 0) ''chGuardedPoolAllocI'' (Ok (p, set_k k s))))
     else Ok (p, s))"

definition chGuardedPoolGetCounterI :: "ptr \<Rightarrow> poolsys \<Rightarrow> int kres" where
  "chGuardedPoolGetCounterI gmp s = chSemGetCounterI gmp (ps_k s)"

definition chGuardedPoolFreeI :: "ptr \<Rightarrow> ptr \<Rightarrow> poolsys \<Rightarrow> poolsys kres" where
  "chGuardedPoolFreeI gmp objp s =
     kbind (chPoolFreeI (gp_pool gmp) objp s) (\<lambda>s. kbind (chSemSignalI gmp (ps_k s)) (\<lambda>k. Ok (set_k k s)))"

definition chGuardedPoolFreeS :: "ptr \<Rightarrow> ptr \<Rightarrow> poolsys \<Rightarrow> poolsys kres" where
  "chGuardedPoolFreeS gmp objp s =
     kbind (chGuardedPoolFreeI gmp objp s) (\<lambda>s. kbind (chSchRescheduleS (ps_k s)) (\<lambda>k. Ok (set_k k s)))"

definition chGuardedPoolFree :: "ptr \<Rightarrow> ptr \<Rightarrow> poolsys \<Rightarrow> poolsys kres" where
  "chGuardedPoolFree gmp objp s = kbind (ps_lock s) (\<lambda>s. kbind (chGuardedPoolFreeS gmp objp s) ps_unlock)"

definition chGuardedPoolAdd :: "ptr \<Rightarrow> ptr \<Rightarrow> poolsys \<Rightarrow> poolsys kres" where
  "chGuardedPoolAdd gmp objp = chGuardedPoolFree gmp objp"

definition chGuardedPoolAddI :: "ptr \<Rightarrow> ptr \<Rightarrow> poolsys \<Rightarrow> poolsys kres" where
  "chGuardedPoolAddI gmp objp = chGuardedPoolFreeI gmp objp"

definition chGuardedPoolAddS :: "ptr \<Rightarrow> ptr \<Rightarrow> poolsys \<Rightarrow> poolsys kres" where
  "chGuardedPoolAddS gmp objp = chGuardedPoolFreeS gmp objp"

fun guarded_load_loop :: "nat \<Rightarrow> ptr \<Rightarrow> ptr \<Rightarrow> poolsys \<Rightarrow> poolsys kres" where
  "guarded_load_loop 0 gmp p s = Ok s"
| "guarded_load_loop (Suc n) gmp p s =
     kbind (chGuardedPoolAdd gmp p s) (\<lambda>s. guarded_load_loop n gmp (p + mp_object_size (ps_pools s (gp_pool gmp))) s)"

definition chGuardedPoolLoadArray :: "ptr \<Rightarrow> ptr \<Rightarrow> u32 \<Rightarrow> poolsys \<Rightarrow> poolsys kres" where
  "chGuardedPoolLoadArray gmp p n s = kguard (gmp \<noteq> NULL \<and> n \<noteq> 0) ''chGuardedPoolLoadArray'' (guarded_load_loop (unat n) gmp p s)"

section \<open>The list of the free objects\<close>

fun pool_chain :: "(ptr \<Rightarrow> u32) \<Rightarrow> ptr \<Rightarrow> ptr list \<Rightarrow> bool" where
  "pool_chain m p [] = (p = NULL)"
| "pool_chain m p (x # xs) = (p = x \<and> x \<noteq> NULL \<and> pool_chain m (m x) xs)"

definition pool_list :: "ptr \<Rightarrow> ptr list \<Rightarrow> poolsys \<Rightarrow> bool" where
  "pool_list mp xs s \<longleftrightarrow> pool_chain (ps_mem s) (mp_next (ps_pools s mp)) xs \<and> distinct xs"

lemma pool_chain_upd: "a \<notin> set xs \<Longrightarrow> pool_chain (m(a := v)) p xs = pool_chain m p xs"
  by (induction xs arbitrary: p) auto

lemma ps_frame [simp]:
  "ps_pools (set_k k s) = ps_pools s" "ps_k (set_k k s) = k" "ps_mem (set_k k s) = ps_mem s" "hcore (ps_hs (set_k k s)) = hcore (ps_hs s)"
  "ps_pools (set_mem p v s) = ps_pools s" "ps_k (set_mem p v s) = ps_k s" "ps_mem (set_mem p v s) = (ps_mem s)(p := v)"
  "ps_pools (upd_pool mp f s) = (ps_pools s)(mp := f (ps_pools s mp))" "ps_hs (upd_pool mp f s) = ps_hs s"
  "set_k k (set_k k' s) = set_k k s" "set_k (ps_k s) s = s" "set_k k (upd_pool mp f s) = upd_pool mp f (set_k k s)"
  "set_k k (set_mem p v s) = set_mem p v (set_k k s)"
  by (simp_all add: set_k_def set_mem_def upd_pool_def)

lemma pool_list_k [simp]: "pool_list mp xs (set_k k s) = pool_list mp xs s"
  by (simp add: pool_list_def)

lemma ps_lock_ok: "running (ps_k s) \<Longrightarrow> ps_lock s = Ok (set_k ((ps_k s)\<lparr>lock_cnt := 1\<rparr>) s)"
  using running_lock(1) [of "ps_k s"] by (simp add: ps_lock_def)

lemma ps_unlock_ok:
  assumes "running k" and "ps_k s = k\<lparr>lock_cnt := 1\<rparr>"
  shows "ps_unlock s = Ok (set_k k s)"
  using running_unlock [of "k\<lparr>lock_cnt := 1\<rparr>"] running_lock(2) [OF assms(1)] running_same [OF assms(1)] assms by (simp add: ps_unlock_def running_def)

text \<open>The operations on a pool without provider, by the list.\<close>

definition pool_push :: "ptr \<Rightarrow> ptr \<Rightarrow> poolsys \<Rightarrow> poolsys" where
  "pool_push mp p s = upd_pool mp (mp_next_update (\<lambda>_. p)) (set_mem p (mp_next (ps_pools s mp)) s)"

definition pool_pop :: "ptr \<Rightarrow> poolsys \<Rightarrow> poolsys" where
  "pool_pop mp s = upd_pool mp (mp_next_update (\<lambda>_. ps_mem s (mp_next (ps_pools s mp)))) s"

lemma pool_push_frame [simp]:
  "ps_k (pool_push mp p s) = ps_k s" "set_k k (pool_push mp p s) = pool_push mp p (set_k k s)"
  "mp_object_size (ps_pools (pool_push mp p s) q) = mp_object_size (ps_pools s q)" "mp_align (ps_pools (pool_push mp p s) q) = mp_align (ps_pools s q)"
  "mp_provider (ps_pools (pool_push mp p s) q) = mp_provider (ps_pools s q)"
  by (simp_all add: pool_push_def)

lemma pool_pop_frame [simp]:
  "ps_k (pool_pop mp s) = ps_k s" "set_k k (pool_pop mp s) = pool_pop mp (set_k k s)" "ps_mem (pool_pop mp s) = ps_mem s"
  "mp_object_size (ps_pools (pool_pop mp s) q) = mp_object_size (ps_pools s q)" "mp_align (ps_pools (pool_pop mp s) q) = mp_align (ps_pools s q)"
  "mp_provider (ps_pools (pool_pop mp s) q) = mp_provider (ps_pools s q)"
  by (simp_all add: pool_pop_def)

lemma pool_push_list: "pool_list mp xs s \<Longrightarrow> p \<notin> set xs \<Longrightarrow> p \<noteq> NULL \<Longrightarrow> pool_list mp (p # xs) (pool_push mp p s)"
  by (simp add: pool_list_def pool_push_def pool_chain_upd)

lemma pool_pop_list: "pool_list mp (x # xs) s \<Longrightarrow> mp_next (ps_pools s mp) = x \<and> x \<noteq> NULL \<and> pool_list mp xs (pool_pop mp s)"
  by (auto simp: pool_list_def pool_pop_def)

lemma pool_empty_list: "pool_list mp [] s \<Longrightarrow> mp_next (ps_pools s mp) = NULL"
  by (simp add: pool_list_def)

lemma chPoolAllocI_eq:
  assumes "i_ctx (ps_k s)" and "mp \<noteq> NULL" and "mp_provider (ps_pools s mp) = NO_GETMEM"
  shows "pool_list mp (x # xs) s \<Longrightarrow> chPoolAllocI mp s = Ok (x, pool_pop mp s)" and "pool_list mp [] s \<Longrightarrow> chPoolAllocI mp s = Ok (NULL, s)"
  using assms pool_pop_list [of mp x xs s] pool_empty_list [of mp s] by (auto simp: chPoolAllocI_def pool_pop_def)

lemma chPoolFreeI_eq:
  "i_ctx (ps_k s) \<Longrightarrow> mp \<noteq> NULL \<Longrightarrow> p \<noteq> NULL \<Longrightarrow> MEM_IS_ALIGNED p (mp_align (ps_pools s mp)) \<Longrightarrow> chPoolFreeI mp p s = Ok (pool_push mp p s)"
  by (simp add: chPoolFreeI_def pool_push_def)

lemma chPoolAlloc_eq:
  assumes "running (ps_k s)" and "mp \<noteq> NULL" and "mp_provider (ps_pools s mp) = NO_GETMEM"
  shows "pool_list mp (x # xs) s \<Longrightarrow> chPoolAlloc mp s = Ok (x, pool_pop mp s)" and "pool_list mp [] s \<Longrightarrow> chPoolAlloc mp s = Ok (NULL, s)"
proof -
  let ?s = "set_k ((ps_k s)\<lparr>lock_cnt := 1\<rparr>) s"
  have i: "i_ctx (ps_k ?s)" "mp_provider (ps_pools ?s mp) = NO_GETMEM" using assms by simp_all
  show "chPoolAlloc mp s = Ok (x, pool_pop mp s)" if "pool_list mp (x # xs) s"
    using chPoolAllocI_eq(1) [OF i(1) assms(2) i(2), of x xs] that ps_lock_ok [OF assms(1)] ps_unlock_ok [OF assms(1), of "pool_pop mp ?s"]
    by (simp add: chPoolAlloc_def)
  show "chPoolAlloc mp s = Ok (NULL, s)" if "pool_list mp [] s"
    using chPoolAllocI_eq(2) [OF i(1) assms(2) i(2)] that ps_lock_ok [OF assms(1)] ps_unlock_ok [OF assms(1), of ?s]
    by (simp add: chPoolAlloc_def)
qed

lemma chPoolFree_eq:
  assumes "running (ps_k s)" and "mp \<noteq> NULL" and "p \<noteq> NULL" and "MEM_IS_ALIGNED p (mp_align (ps_pools s mp))"
  shows "chPoolFree mp p s = Ok (pool_push mp p s)"
  using chPoolFreeI_eq [of "set_k ((ps_k s)\<lparr>lock_cnt := 1\<rparr>) s" mp p] assms ps_lock_ok [OF assms(1)]
    ps_unlock_ok [OF assms(1), of "pool_push mp p (set_k ((ps_k s)\<lparr>lock_cnt := 1\<rparr>) s)"]
  by (simp add: chPoolFree_def)

section \<open>An array of objects\<close>

definition pool_objs :: "ptr \<Rightarrow> u32 \<Rightarrow> nat \<Rightarrow> ptr list" where
  "pool_objs base sz n = map (\<lambda>i. base + of_nat i * sz) [0..<n]"

definition array_ok :: "ptr \<Rightarrow> u32 \<Rightarrow> u32 \<Rightarrow> nat \<Rightarrow> bool" where
  "array_ok base sz align n \<longleftrightarrow> base \<noteq> NULL \<and> 4 \<le> sz \<and> PORT_NATURAL_ALIGN \<le> align \<and> MEM_IS_VALID_ALIGNMENT align \<and>
     unat align dvd unat base \<and> unat align dvd unat sz \<and> unat base + n * unat sz \<le> 2 ^ 32"

definition footprint :: "u32 \<Rightarrow> ptr \<Rightarrow> nat set" where
  "footprint sz p = {unat p..<unat p + unat sz}"

lemma obj_unat:
  assumes "array_ok base sz align n" and "i < n"
  shows "unat (base + of_nat i * sz) = unat base + i * unat sz"
proof -
  have sz: "unat sz > 0" using assms(1) by (auto simp: array_ok_def word_le_nat_alt)
  have "i * unat sz + unat sz \<le> n * unat sz" using assms(2) by (metis Suc_leI add.commute mult_Suc mult_le_mono1)
  then have l: "unat base + i * unat sz < 2 ^ 32" using assms(1) sz by (simp add: array_ok_def)
  have "unat (of_nat i :: u32) * unat sz mod 2 ^ 32 = i * unat sz mod 2 ^ 32" by (simp add: unat_of_nat mod_mult_left_eq)
  then show ?thesis using l by (simp add: unat_word_ariths mod_simps)
qed

lemma obj_facts:
  assumes "array_ok base sz align n"
  shows "distinct (pool_objs base sz n)" and "p \<in> set (pool_objs base sz n) \<Longrightarrow> p \<noteq> NULL \<and> MEM_IS_ALIGNED p align"
    and "p \<in> set (pool_objs base sz n) \<Longrightarrow> q \<in> set (pool_objs base sz n) \<Longrightarrow> p \<noteq> q \<Longrightarrow> footprint sz p \<inter> footprint sz q = {}"
    and "p \<in> set (pool_objs base sz n) \<Longrightarrow> footprint sz p \<subseteq> {unat base..<unat base + n * unat sz}"
proof -
  note u = obj_unat [OF assms]
  have sz: "unat sz > 0" "unat base > 0" using assms by (auto simp: array_ok_def word_le_nat_alt unat_gt_0)
  show "distinct (pool_objs base sz n)"
  proof -
    have "inj_on (\<lambda>i. base + of_nat i * sz) {0..<n}"
      by (rule inj_onI) (metis u sz(1) add_left_cancel atLeastLessThan_iff mult_cancel2 not_less0)
    then show ?thesis by (simp add: pool_objs_def distinct_map)
  qed
  show "p \<noteq> NULL \<and> MEM_IS_ALIGNED p align" if pq: "p \<in> set (pool_objs base sz n)"
  proof -
    obtain i where i: "i < n" "p = base + of_nat i * sz" using pq by (auto simp: pool_objs_def)
    have "unat p > 0" "unat align dvd unat p" using u [OF i(1)] i(2) sz(2) assms by (auto simp: array_ok_def)
    then show ?thesis using is_aligned_iff assms by (auto simp: array_ok_def)
  qed
  show "footprint sz p \<inter> footprint sz q = {}" if pq: "p \<in> set (pool_objs base sz n)" "q \<in> set (pool_objs base sz n)" "p \<noteq> q"
  proof -
    obtain i j where i: "i < n" "p = base + of_nat i * sz" and j: "j < n" "q = base + of_nat j * sz" using pq(1,2) by (auto simp: pool_objs_def)
    have "i * unat sz + unat sz \<le> j * unat sz \<or> j * unat sz + unat sz \<le> i * unat sz"
      using pq(3) i(2) j(2) by (cases i j rule: linorder_cases) (auto simp: Suc_le_eq [symmetric] dest: mult_le_mono1 [of _ _ "unat sz"])
    then show ?thesis unfolding footprint_def i(2) j(2) u [OF i(1)] u [OF j(1)] by auto
  qed
  show "footprint sz p \<subseteq> {unat base..<unat base + n * unat sz}" if pq: "p \<in> set (pool_objs base sz n)"
  proof -
    obtain i where i: "i < n" "p = base + of_nat i * sz" using pq by (auto simp: pool_objs_def)
    have "i * unat sz + unat sz \<le> n * unat sz" using i(1) by (metis Suc_leI add.commute mult_Suc mult_le_mono1)
    then show ?thesis unfolding footprint_def i(2) u [OF i(1)] by auto
  qed
qed

lemma array_ok_mono: "array_ok base sz align n \<Longrightarrow> m \<le> n \<Longrightarrow> array_ok base sz align m"
  unfolding array_ok_def by (elim conjE, intro conjI) (assumption+, erule le_trans [rotated], intro add_left_mono mult_le_mono1)

text \<open>The objects are pushed one after the other; the last one is the first to be given out.\<close>

lemma pool_load_loop_ok:
  assumes "array_ok base sz align n" and "mp \<noteq> NULL"
  shows "j + m \<le> n \<Longrightarrow> running (ps_k s) \<Longrightarrow> mp_object_size (ps_pools s mp) = sz \<Longrightarrow> mp_align (ps_pools s mp) = align \<Longrightarrow>
    pool_list mp (rev (pool_objs base sz j)) s \<Longrightarrow>
    \<exists>s'. pool_load_loop m mp (base + of_nat j * sz) s = Ok s' \<and> pool_list mp (rev (pool_objs base sz (j + m))) s' \<and> ps_k s' = ps_k s \<and>
      mp_object_size (ps_pools s' mp) = sz \<and> mp_align (ps_pools s' mp) = align \<and> mp_provider (ps_pools s' mp) = mp_provider (ps_pools s mp)"
proof (induction m arbitrary: j s)
  case (Suc m)
  let ?p = "base + of_nat j * sz"
  note f = obj_facts [OF assms(1)]
  have p: "?p \<in> set (pool_objs base sz n)" using Suc(2) by (auto simp: pool_objs_def)
  have app: "pool_objs base sz (Suc j) = pool_objs base sz j @ [?p]" by (simp add: pool_objs_def)
  have "distinct (pool_objs base sz (Suc j))" using obj_facts(1) [OF array_ok_mono [OF assms(1)]] Suc(2) by simp
  then have nin: "?p \<notin> set (rev (pool_objs base sz j))" using app by simp
  let ?s = "pool_push mp ?p s"
  have a: "chPoolAdd mp ?p s = Ok ?s"
    using chPoolFree_eq [OF Suc(3) assms(2)] f(2) [OF p] Suc(5) by (simp add: chPoolAdd_def)
  have "pool_list mp (rev (pool_objs base sz (Suc j))) ?s" using pool_push_list [OF Suc(6) nin] f(2) [OF p] app by simp
  then obtain s' where s': "pool_load_loop m mp (base + of_nat (Suc j) * sz) ?s = Ok s'" "pool_list mp (rev (pool_objs base sz (Suc j + m))) s'" "ps_k s' = ps_k s"
      "mp_object_size (ps_pools s' mp) = sz" "mp_align (ps_pools s' mp) = align" "mp_provider (ps_pools s' mp) = mp_provider (ps_pools s mp)"
    using Suc(1) [of "Suc j" ?s] Suc(2-5) by auto
  have "base + of_nat (Suc j) * sz = ?p + sz" by (simp add: algebra_simps)
  then have "pool_load_loop (Suc m) mp ?p s = Ok s'" using a s'(1) Suc(4) by (simp add: add.assoc)
  then show ?case using s'(2-6) by (intro exI [of _ s']) simp
qed auto

text \<open>The pool, and what its clients hold of the array.\<close>

definition pool_sys :: "ptr \<Rightarrow> ptr \<Rightarrow> u32 \<Rightarrow> u32 \<Rightarrow> nat \<Rightarrow> poolsys \<Rightarrow> ptr list \<Rightarrow> bool" where
  "pool_sys mp base sz align n s held \<longleftrightarrow> running (ps_k s) \<and> mp_object_size (ps_pools s mp) = sz \<and> mp_align (ps_pools s mp) = align \<and>
     mp_provider (ps_pools s mp) = NO_GETMEM \<and> distinct held \<and>
     (\<exists>free. pool_list mp free s \<and> set free \<union> set held = set (pool_objs base sz n) \<and> set free \<inter> set held = {})"

inductive pool_step :: "ptr \<Rightarrow> u32 \<Rightarrow> poolsys \<times> ptr list \<Rightarrow> poolsys \<times> ptr list \<Rightarrow> bool" for mp sz where
  granted: "pool_step mp sz (s, held) (s', p # held)" if "chPoolAlloc mp s = Ok (p, s')" "p \<noteq> NULL"
| refused: "pool_step mp sz (s, held) (s', held)" if "chPoolAlloc mp s = Ok (NULL, s')"
| freed: "pool_step mp sz (s, held) (s', remove1 p held)" if "p \<in> set held" "chPoolFree mp p s = Ok s'"
| written: "pool_step mp sz (s, held) (set_mem a v s, held)" if "p \<in> set held" "unat a \<in> footprint sz p"

lemma pool_sys_load:
  assumes "array_ok base sz align n" and "mp \<noteq> NULL" and "0 < n" and "n < 2 ^ 32" and "running (ps_k s)"
  shows "\<exists>s0 s1. chPoolObjectInitAligned mp sz align NO_GETMEM s = Ok s0 \<and> chPoolLoadArray mp base (of_nat n) s0 = Ok s1 \<and> pool_sys mp base sz align n s1 []"
proof -
  let ?s = "upd_pool mp (\<lambda>_. \<lparr>mp_next = NULL, mp_object_size = sz, mp_align = align, mp_provider = NO_GETMEM\<rparr>) s"
  have i: "chPoolObjectInitAligned mp sz align NO_GETMEM s = Ok ?s" using assms(1,2) by (simp add: chPoolObjectInitAligned_def array_ok_def)
  have e: "pool_list mp (rev (pool_objs base sz 0)) ?s" by (simp add: pool_list_def pool_objs_def)
  obtain s1 where s1: "pool_load_loop n mp base ?s = Ok s1" "pool_list mp (rev (pool_objs base sz n)) s1" "ps_k s1 = ps_k s"
      "mp_object_size (ps_pools s1 mp) = sz" "mp_align (ps_pools s1 mp) = align" "mp_provider (ps_pools s1 mp) = NO_GETMEM"
    using pool_load_loop_ok [OF assms(1,2), of 0 n ?s] e assms(5) by auto
  have u: "unat (of_nat n :: u32) = n" using assms(4) by (simp add: unat_of_nat)
  then have "(of_nat n :: u32) \<noteq> 0" using assms(3) by auto
  then have "chPoolLoadArray mp base (of_nat n) ?s = Ok s1" using s1(1) assms(2) u by (simp add: chPoolLoadArray_def)
  moreover have "pool_sys mp base sz align n s1 []"
    using s1(2-6) assms(5) by (auto simp: pool_sys_def intro!: exI [of _ "rev (pool_objs base sz n)"])
  ultimately show ?thesis using i by blast
qed

lemma pool_sys_alloc:
  assumes "array_ok base sz align n" and "mp \<noteq> NULL" and "pool_sys mp base sz align n s held"
  shows "\<exists>p s'. chPoolAlloc mp s = Ok (p, s') \<and>
    (if length held = n then p = NULL \<and> s' = s
     else p \<in> set (pool_objs base sz n) - set held \<and> p \<noteq> NULL \<and> pool_sys mp base sz align n s' (p # held))"
proof -
  obtain free where f: "pool_list mp free s" "set free \<union> set held = set (pool_objs base sz n)" "set free \<inter> set held = {}"
    using assms(3) by (auto simp: pool_sys_def)
  have r: "running (ps_k s)" "mp_provider (ps_pools s mp) = NO_GETMEM" "distinct held" using assms(3) by (simp_all add: pool_sys_def)
  have "card (set free) + card (set held) = n"
    using card_Un_disjoint [of "set free" "set held"] f(2,3) distinct_card [OF obj_facts(1) [OF assms(1)]] by (simp add: pool_objs_def)
  then have len: "length held = n \<longleftrightarrow> free = []" using distinct_card [OF r(3)] by auto
  show ?thesis
  proof (cases free)
    case Nil
    then show ?thesis using chPoolAlloc_eq(2) [OF r(1) assms(2) r(2)] f(1) len by simp
  next
    case (Cons x xs)
    have x: "x \<noteq> NULL" "pool_list mp xs (pool_pop mp s)" "x \<notin> set xs" "set free = insert x (set xs)"
      using pool_pop_list [of mp x xs s] f(1) Cons by (simp_all add: pool_list_def)
    have d: "set xs \<union> set (x # held) = set (pool_objs base sz n)" "set xs \<inter> set (x # held) = {}" "distinct (x # held)"
      using x(3,4) f(2,3) r(3) by auto
    have "chPoolAlloc mp s = Ok (x, pool_pop mp s)" using chPoolAlloc_eq(1) [OF r(1) assms(2) r(2)] f(1) Cons by simp
    moreover have "pool_sys mp base sz align n (pool_pop mp s) (x # held)"
      using assms(3) x(2) d unfolding pool_sys_def by simp blast
    moreover have "x \<in> set (pool_objs base sz n) - set held" using x(4) f(2,3) by auto
    ultimately show ?thesis using len Cons x(1) by auto
  qed
qed

lemma pool_sys_free:
  assumes "array_ok base sz align n" and "mp \<noteq> NULL" and "pool_sys mp base sz align n s held" and "p \<in> set held"
  shows "\<exists>s'. chPoolFree mp p s = Ok s' \<and> pool_sys mp base sz align n s' (remove1 p held)"
proof -
  obtain free where f: "pool_list mp free s" "set free \<union> set held = set (pool_objs base sz n)" "set free \<inter> set held = {}"
    using assms(3) by (auto simp: pool_sys_def)
  have p: "p \<noteq> NULL" "MEM_IS_ALIGNED p align" "p \<notin> set free" using obj_facts(2) [OF assms(1)] f(2,3) assms(4) by auto
  have "chPoolFree mp p s = Ok (pool_push mp p s)" using chPoolFree_eq assms(2,3) p(1,2) by (simp add: pool_sys_def)
  moreover have "pool_sys mp base sz align n (pool_push mp p s) (remove1 p held)"
    using assms(3,4) f pool_push_list [OF f(1) p(3,1)] by (auto simp: pool_sys_def intro!: exI [of _ "p # free"])
  ultimately show ?thesis by blast
qed

lemma pool_sys_write:
  assumes "array_ok base sz align n" and "pool_sys mp base sz align n s held" and "p \<in> set held" and "unat a \<in> footprint sz p"
  shows "pool_sys mp base sz align n (set_mem a v s) held"
proof -
  obtain free where f: "pool_list mp free s" "set free \<union> set held = set (pool_objs base sz n)" "set free \<inter> set held = {}"
    using assms(2) by (auto simp: pool_sys_def)
  have "unat sz > 0" using assms(1) by (auto simp: array_ok_def word_le_nat_alt)
  then have "a \<in> set free \<Longrightarrow> unat a \<in> footprint sz a" by (simp add: footprint_def)
  then have "a \<notin> set free" using obj_facts(3) [OF assms(1), of a p] f(2,3) assms(3,4) by auto
  then have "pool_list mp free (set_mem a v s)" using f(1) by (simp add: pool_list_def pool_chain_upd)
  then show ?thesis using assms(2) f by (auto simp: pool_sys_def)
qed

lemma pool_step_sys:
  assumes "array_ok base sz align n" and "mp \<noteq> NULL"
  shows "pool_step mp sz c c' \<Longrightarrow> pool_sys mp base sz align n (fst c) (snd c) \<Longrightarrow> pool_sys mp base sz align n (fst c') (snd c')"
proof (induction rule: pool_step.induct)
  case (granted s p s' held)
  then show ?case using pool_sys_alloc [OF assms, of s held] by (auto split: if_splits)
next
  case (refused s s' held)
  then show ?case using pool_sys_alloc [OF assms, of s held] by (auto split: if_splits)
next
  case (freed p held s s')
  then show ?case using pool_sys_free [OF assms, of s held p] by auto
next
  case (written p held a s v)
  then show ?case using pool_sys_write [OF assms(1), of mp s held p a v] by simp
qed

lemma pool_reach_sys:
  assumes "array_ok base sz align n" and "mp \<noteq> NULL" and "(pool_step mp sz)\<^sup>*\<^sup>* (s, held) (s', held')" and "pool_sys mp base sz align n s held"
  shows "pool_sys mp base sz align n s' held'"
proof -
  have "pool_sys mp base sz align n (fst (s', held')) (snd (s', held'))"
    using assms(3) by (induction rule: rtranclp_induct) (use assms(4) pool_step_sys [OF assms(1,2)] in auto)
  then show ?thesis by simp
qed

section \<open>Guarded pools\<close>

text \<open>With no thread waiting, the semaphore has as many units as the pool has free objects.\<close>

definition gp_sync :: "ptr \<Rightarrow> ptr list \<Rightarrow> poolsys \<Rightarrow> bool" where
  "gp_sync gmp xs s \<longleftrightarrow> gmp \<noteq> NULL \<and> gp_pool gmp \<noteq> NULL \<and> mp_provider (ps_pools s (gp_pool gmp)) = NO_GETMEM \<and>
     pool_list (gp_pool gmp) xs s \<and> sem_inv gmp (ps_k s) \<and> sem_abs gmp (ps_k s) = (length xs, [])"

lemma gp_sync_k:
  "sem_cnt k gmp = sem_cnt (ps_k s) gmp \<Longrightarrow> queues k (TQ gmp) = queues (ps_k s) (TQ gmp) \<Longrightarrow> gp_sync gmp xs (set_k k s) = gp_sync gmp xs s"
  by (auto simp: gp_sync_def sem_inv_def sem_abs_def)

lemma gp_alloc_S:
  assumes "gp_sync gmp (x # xs) s" and "thd_ctx (ps_k s)"
  shows "chGuardedPoolAllocTimeoutS gmp timeout s = Ok (Returned x, pool_pop (gp_pool gmp) (set_k (set_cnt gmp (int (length xs)) (ps_k s)) s))"
    and "gp_sync gmp xs (pool_pop (gp_pool gmp) (set_k (set_cnt gmp (int (length xs)) (ps_k s)) s))"
proof -
  let ?k = "set_cnt gmp (int (length xs)) (ps_k s)"
  have a: "sem_cnt (ps_k s) gmp = int (length xs) + 1" "queues (ps_k s) (TQ gmp) = []" "sem_consistent gmp (ps_k s)" "gmp \<noteq> NULL" "gp_pool gmp \<noteq> NULL"
      "mp_provider (ps_pools s (gp_pool gmp)) = NO_GETMEM" "pool_list (gp_pool gmp) (x # xs) s"
    using assms(1) sem_inv_consistent by (auto simp: gp_sync_def sem_abs_def)
  have "chSemWaitTimeoutS gmp timeout (ps_k s) = Ok (Returned MSG_OK, ?k)"
    using a(1,3,4) assms(2) by (simp add: chSemWaitTimeoutS_def Let_def)
  moreover have "chPoolAllocI (gp_pool gmp) (set_k ?k s) = Ok (x, pool_pop (gp_pool gmp) (set_k ?k s))"
    using chPoolAllocI_eq(1) [of "set_k ?k s" "gp_pool gmp" x xs] a(5-7) assms(2) by simp
  ultimately show "chGuardedPoolAllocTimeoutS gmp timeout s = Ok (Returned x, pool_pop (gp_pool gmp) (set_k ?k s))"
    by (simp add: chGuardedPoolAllocTimeoutS_def)
  show "gp_sync gmp xs (pool_pop (gp_pool gmp) (set_k ?k s))"
    using a pool_pop_list [of "gp_pool gmp" x xs "set_k ?k s"] by (simp add: gp_sync_def sem_inv_def sem_abs_def)
qed

lemma gp_alloc_empty:
  assumes "gp_sync gmp [] s" and "thd_ctx (ps_k s)"
  shows "chGuardedPoolAllocTimeoutS gmp TIME_IMMEDIATE s = Ok (Returned NULL, s)"
proof -
  have a: "sem_cnt (ps_k s) gmp = 0" "sem_consistent gmp (ps_k s)" "gmp \<noteq> NULL"
    using assms(1) sem_inv_consistent by (auto simp: gp_sync_def sem_abs_def sem_inv_def max_def split: if_splits)
  have "set_cnt gmp 0 (set_cnt gmp (- 1) (ps_k s)) = ps_k s" using a(1) by (simp add: set_cnt_def fun_upd_idem)
  then have "chSemWaitTimeoutS gmp TIME_IMMEDIATE (ps_k s) = Ok (Returned MSG_TIMEOUT, ps_k s)"
    using a assms(2) by (simp add: chSemWaitTimeoutS_def Let_def)
  then show ?thesis by (simp add: chGuardedPoolAllocTimeoutS_def)
qed

lemma chSemSignalI_free:
  assumes "i_ctx k" and "sp \<noteq> NULL" and "queues k (TQ sp) = []" and "sem_cnt k sp \<ge> 0"
  shows "chSemSignalI sp k = Ok (set_cnt sp (sem_cnt k sp + 1) k)"
  using assms by (simp add: chSemSignalI_def sem_consistent_def Let_def)

lemma gp_free_I:
  assumes "gp_sync gmp xs s" and "i_ctx (ps_k s)" and "p \<noteq> NULL" and "p \<notin> set xs" and "MEM_IS_ALIGNED p (mp_align (ps_pools s (gp_pool gmp)))"
  defines "s' \<equiv> pool_push (gp_pool gmp) p (set_k (set_cnt gmp (int (length xs) + 1) (ps_k s)) s)"
  shows "chGuardedPoolFreeI gmp p s = Ok s'" and "gp_sync gmp (p # xs) s'"
proof -
  have a: "sem_cnt (ps_k s) gmp = int (length xs)" "queues (ps_k s) (TQ gmp) = []" "gmp \<noteq> NULL" "gp_pool gmp \<noteq> NULL" "pool_list (gp_pool gmp) xs s"
    using assms(1) by (auto simp: gp_sync_def sem_abs_def sem_inv_def max_def split: if_splits)
  have "chPoolFreeI (gp_pool gmp) p s = Ok (pool_push (gp_pool gmp) p s)" using chPoolFreeI_eq assms(2,3,5) a(4) by blast
  then show "chGuardedPoolFreeI gmp p s = Ok s'"
    using chSemSignalI_free [OF assms(2) a(3,2)] a(1) by (simp add: chGuardedPoolFreeI_def s'_def)
  show "gp_sync gmp (p # xs) s'"
    using assms(1) a pool_push_list [OF a(5) assms(4,3)] pool_list_k [of "gp_pool gmp" "p # xs" "set_cnt gmp (int (length xs) + 1) (ps_k s)" "pool_push (gp_pool gmp) p s"]
    by (simp add: gp_sync_def s'_def sem_inv_def sem_abs_def nat_add_distrib)
qed

lemma sem_cnt_lock: "set_cnt sp n (k\<lparr>lock_cnt := l\<rparr>) = (set_cnt sp n k)\<lparr>lock_cnt := l\<rparr>"
  by (simp add: set_cnt_def)

lemma running_cnt [simp]: "running (set_cnt sp n k) = running k"
  by (simp add: running_def sched_ok_def thread_idle_ctx_def) (simp add: set_cnt_def)

lemma resched_same: "sched_ok k \<Longrightarrow> resched k = k"
  using firstprio_order [of k] by (simp add: sched_ok_def resched_def)

lemma ps_cnt_unlock:
  assumes "running (ps_k s)" and "ps_k s' = set_cnt sp n ((ps_k s)\<lparr>lock_cnt := 1\<rparr>)"
  shows "ps_unlock s' = Ok (set_k (set_cnt sp n (ps_k s)) s')"
  using ps_unlock_ok [of "set_cnt sp n (ps_k s)" s'] assms by (simp add: sem_cnt_lock)

section \<open>Properties\<close>

definition demo_pool :: poolsys where
  "demo_pool = \<lparr>ps_hs = \<lparr>hmem = \<lambda>_. 0, hprov = \<lambda>_. NO_PROVIDER, hcore = core_init 0x20001000 0x20002000, hk = demo_kernel\<lparr>lock_cnt := 0\<rparr>\<rparr>,
     ps_pools = \<lambda>_. \<lparr>mp_next = NULL, mp_object_size = 0, mp_align = 0, mp_provider = NO_GETMEM\<rparr>\<rparr>"

lemma demo_pool_running: "running (ps_k demo_pool)"
  using demo_kernel_ok by (simp add: demo_pool_def running_def sched_ok_def thread_idle_ctx_def thd_ctx_def)

lemma demo_array: "array_ok 0x20000000 16 8 4"
  by (simp add: array_ok_def PORT_NATURAL_ALIGN_def MEM_IS_VALID_ALIGNMENT_def word_le_nat_alt)

text \<open>
  C18: A pool that has been loaded with an array of \<open>n\<close> objects, in any history of allocations, releases and writes of its clients
  into the objects they hold: the objects held are distinct objects of the array and do not overlap, and \<open>chPoolAlloc\<close> returns another
  object of the array as long as not all of them are held, and \<open>NULL\<close> from then on.
\<close>

theorem pool_objects_safe:
  assumes "array_ok base sz align n" and "mp \<noteq> NULL" and "0 < n" and "n < 2 ^ 32" and "running (ps_k s)"
    and "chPoolObjectInitAligned mp sz align NO_GETMEM s = Ok s0" and "chPoolLoadArray mp base (of_nat n) s0 = Ok s1"
    and "(pool_step mp sz)\<^sup>*\<^sup>* (s1, []) (s2, held)"
  shows "distinct held \<and> set held \<subseteq> set (pool_objs base sz n) \<and>
    (\<forall>p\<in>set held. \<forall>q\<in>set held. p \<noteq> q \<longrightarrow> footprint sz p \<inter> footprint sz q = {}) \<and>
    (\<exists>p s3. chPoolAlloc mp s2 = Ok (p, s3) \<and> (if length held = n then p = NULL else p \<in> set (pool_objs base sz n) - set held)) \<and>
    (\<forall>p\<in>set held. \<exists>s3. chPoolFree mp p s2 = Ok s3)"
proof -
  have i: "pool_sys mp base sz align n s1 []" using pool_sys_load [OF assms(1-5)] assms(6,7) by auto
  have r: "pool_sys mp base sz align n s2 held" using pool_reach_sys [OF assms(1,2,8) i] .
  then have h: "distinct held" "set held \<subseteq> set (pool_objs base sz n)" by (auto simp: pool_sys_def)
  moreover have "\<forall>p\<in>set held. \<forall>q\<in>set held. p \<noteq> q \<longrightarrow> footprint sz p \<inter> footprint sz q = {}" using obj_facts(3) [OF assms(1)] h(2) by blast
  moreover have "\<exists>p s3. chPoolAlloc mp s2 = Ok (p, s3) \<and> (if length held = n then p = NULL else p \<in> set (pool_objs base sz n) - set held)"
    using pool_sys_alloc [OF assms(1,2) r] by (auto split: if_splits)
  moreover have "\<forall>p\<in>set held. \<exists>s3. chPoolFree mp p s2 = Ok s3" using pool_sys_free [OF assms(1,2) r] by blast
  ultimately show ?thesis by blast
qed

theorem pool_objects_safe_witness:
  "\<exists>s0 s1. chPoolObjectInitAligned 64 16 8 NO_GETMEM demo_pool = Ok s0 \<and> chPoolLoadArray 64 0x20000000 (of_nat 4) s0 = Ok s1 \<and>
     (\<exists>p s3. chPoolAlloc 64 s1 = Ok (p, s3) \<and> p \<in> set (pool_objs 0x20000000 16 4))"
proof -
  obtain s0 s1 where s: "chPoolObjectInitAligned 64 16 8 NO_GETMEM demo_pool = Ok s0" "chPoolLoadArray 64 0x20000000 (of_nat 4) s0 = Ok s1"
    using pool_sys_load [OF demo_array _ _ _ demo_pool_running, of 64] by auto
  have "\<exists>p s3. chPoolAlloc 64 s1 = Ok (p, s3) \<and> p \<in> set (pool_objs 0x20000000 16 4)"
    using pool_objects_safe [OF demo_array _ _ _ demo_pool_running s, of s1 "[]"] by auto
  then show ?thesis using s by blast
qed

text \<open>
  A guarded pool without waiting threads keeps its semaphore at the number of free objects: an allocation takes a free object
  if there is one, and otherwise returns \<open>NULL\<close> at once if it may not wait; a release makes the object available again.
\<close>

theorem guarded_pool_counts:
  assumes "gp_sync gmp xs s" and "running (ps_k s)"
  shows "(\<forall>x ys. xs = x # ys \<longrightarrow> (\<exists>s'. chGuardedPoolAllocTimeout gmp timeout s = Ok (Returned x, s') \<and> gp_sync gmp ys s' \<and> running (ps_k s'))) \<and>
    (xs = [] \<longrightarrow> chGuardedPoolAllocTimeout gmp TIME_IMMEDIATE s = Ok (Returned NULL, s)) \<and>
    (\<forall>p. p \<noteq> NULL \<longrightarrow> p \<notin> set xs \<longrightarrow> MEM_IS_ALIGNED p (mp_align (ps_pools s (gp_pool gmp))) \<longrightarrow>
       (\<exists>s'. chGuardedPoolFree gmp p s = Ok s' \<and> gp_sync gmp (p # xs) s' \<and> running (ps_k s')))"
proof -
  let ?l = "set_k ((ps_k s)\<lparr>lock_cnt := 1\<rparr>) s"
  have l: "gp_sync gmp xs ?l" "thd_ctx (ps_k ?l)" "i_ctx (ps_k ?l)" "sched_ok (ps_k ?l)"
    using assms running_lock(2) [OF assms(2)] by (simp_all add: gp_sync_k running_def)
  have "\<exists>s'. chGuardedPoolAllocTimeout gmp timeout s = Ok (Returned x, s') \<and> gp_sync gmp ys s' \<and> running (ps_k s')" if x: "xs = x # ys" for x ys
  proof -
    let ?s = "pool_pop (gp_pool gmp) (set_k (set_cnt gmp (int (length ys)) (ps_k ?l)) ?l)"
    note g = gp_alloc_S [OF l(1) [unfolded x] l(2)]
    have u: "ps_unlock ?s = Ok (set_k (set_cnt gmp (int (length ys)) (ps_k s)) ?s)" by (rule ps_cnt_unlock [OF assms(2)]) simp
    moreover have "gp_sync gmp ys (set_k (set_cnt gmp (int (length ys)) (ps_k s)) ?s)" using g(2) by (subst gp_sync_k) simp_all
    ultimately show ?thesis using g(1) ps_lock_ok [OF assms(2)] assms(2) by (simp add: chGuardedPoolAllocTimeout_def)
  qed
  moreover have "chGuardedPoolAllocTimeout gmp TIME_IMMEDIATE s = Ok (Returned NULL, s)" if "xs = []"
    using gp_alloc_empty [OF _ l(2), of gmp] l(1) that ps_lock_ok [OF assms(2)] ps_unlock_ok [OF assms(2), of ?l]
    by (simp add: chGuardedPoolAllocTimeout_def)
  moreover have "\<exists>s'. chGuardedPoolFree gmp p s = Ok s' \<and> gp_sync gmp (p # xs) s' \<and> running (ps_k s')"
    if p: "p \<noteq> NULL" "p \<notin> set xs" "MEM_IS_ALIGNED p (mp_align (ps_pools s (gp_pool gmp)))" for p
  proof -
    let ?s = "pool_push (gp_pool gmp) p (set_k (set_cnt gmp (int (length xs) + 1) (ps_k ?l)) ?l)"
    have g: "chGuardedPoolFreeI gmp p ?l = Ok ?s" "gp_sync gmp (p # xs) ?s" using gp_free_I [OF l(1,3) p(1,2)] p(3) by simp_all
    have "sched_ok (ps_k ?s)" "thd_ctx (ps_k ?s)" using l(2,4) by (simp_all add: sched_ok_def)
    then have "chSchRescheduleS (ps_k ?s) = Ok (ps_k ?s)" using chSchRescheduleS_eq [of "ps_k ?s"] resched_same by (simp add: sched_ok_def)
    then have "chGuardedPoolFreeS gmp p ?l = Ok ?s" using g(1) by (simp add: chGuardedPoolFreeS_def)
    moreover have "ps_unlock ?s = Ok (set_k (set_cnt gmp (int (length xs) + 1) (ps_k s)) ?s)" by (rule ps_cnt_unlock [OF assms(2)]) simp
    moreover have "gp_sync gmp (p # xs) (set_k (set_cnt gmp (int (length xs) + 1) (ps_k s)) ?s)" using g(2) by (subst gp_sync_k) simp_all
    ultimately show ?thesis using ps_lock_ok [OF assms(2)] assms(2) by (simp add: chGuardedPoolFree_def)
  qed
  ultimately show ?thesis by blast
qed

text \<open>
  The pool of four objects of 16 bytes at \<open>0x20000000\<close>, guarded, with one object left; and the same pool with none left and the thread at
  80 waiting.
\<close>

definition demo_guarded :: poolsys where
  "demo_guarded = demo_pool\<lparr>ps_pools := (ps_pools demo_pool)(76 := \<lparr>mp_next = 0x20000000, mp_object_size = 16, mp_align = 8, mp_provider = NO_GETMEM\<rparr>),
     ps_hs := (ps_hs demo_pool)\<lparr>hk := set_cnt 64 1 (ps_k demo_pool)\<rparr>\<rparr>"

theorem guarded_pool_counts_witness:
  "gp_sync 64 [0x20000000] demo_guarded \<and> (\<exists>s'. chGuardedPoolAllocTimeout 64 100 demo_guarded = Ok (Returned 0x20000000, s') \<and> gp_sync 64 [] s')"
proof -
  have "queues (ps_k demo_pool) (TQ 64) = []" by (simp add: demo_pool_def demo_kernel_def kernel_reset_def)
  then have g: "gp_sync 64 [0x20000000] demo_guarded"
    by (simp add: gp_sync_def gp_pool_def demo_guarded_def pool_list_def sem_inv_def sem_abs_def) (simp add: demo_pool_def)
  moreover have "running (ps_k demo_guarded)" using demo_pool_running by (simp add: demo_guarded_def)
  ultimately show ?thesis using guarded_pool_counts [of 64 "[0x20000000]" demo_guarded 100] by auto
qed

text \<open>
  An object that is released while threads wait stays in the pool until the first of them, made ready with \<open>MSG_OK\<close>, runs and takes
  it. An allocation by \<open>chGuardedPoolAllocI\<close> in between does not consult the semaphore: it takes the object, and the system halts at
  the assertion that the semaphore is in step with the pool.
\<close>

theorem guarded_pool_handover:
  assumes "sched_inv (ps_k s)" and "isr_ctx (ps_k s)" and "sem_inv gmp (ps_k s)" and "queues (ps_k s) (TQ gmp) = [t]" and "gmp \<noteq> NULL"
    and "gp_pool gmp \<noteq> NULL" and "mp_provider (ps_pools s (gp_pool gmp)) = NO_GETMEM" and "pool_list (gp_pool gmp) [] s"
    and "p \<noteq> NULL" and "MEM_IS_ALIGNED p (mp_align (ps_pools s (gp_pool gmp)))"
  shows "\<exists>s'. chGuardedPoolFreeI gmp p s = Ok s' \<and> state_of (ps_k s') t = CH_STATE_READY \<and> rdymsg_of (ps_k s') t = MSG_OK \<and>
    (\<forall>k. thd_ctx k \<and> currp k = t \<and> rdymsg_of k t = MSG_OK \<longrightarrow>
       (\<exists>s''. chGuardedPoolAllocTimeoutS_resume gmp TIME_INFINITE (set_k k s') = Ok (p, s''))) \<and>
    chGuardedPoolAllocI gmp s' = Halt ''chGuardedPoolAllocI''"
proof -
  let ?s = "pool_push (gp_pool gmp) p s"
  have i: "i_ctx (ps_k s)" using assms(2) by simp
  obtain k where k: "chSemSignalI gmp (ps_k s) = Ok k" "i_ctx k" "sem_inv gmp k" "sem_abs gmp k = spec_signal (sem_abs gmp (ps_k s))"
      "state_of k t = CH_STATE_READY" "rdymsg_of k t = MSG_OK"
    using chSemSignalI_ok [OF assms(1) i assms(3,5)] assms(4) by auto
  have c: "sem_cnt k gmp = 0"
    using assms(3,4) k(3,4) by (auto simp: sem_abs_def sem_inv_def max_def split: if_splits)
  have f: "chGuardedPoolFreeI gmp p s = Ok (set_k k ?s)" using chPoolFreeI_eq [OF i assms(6,9,10)] k(1) by (simp add: chGuardedPoolFreeI_def)
  have l: "pool_list (gp_pool gmp) [p] ?s" using pool_push_list [OF assms(8) _ assms(9)] by simp
  have "chPoolAllocI (gp_pool gmp) (set_k k' ?s) = Ok (p, pool_pop (gp_pool gmp) (set_k k' ?s))" if "i_ctx k'" for k'
    using chPoolAllocI_eq(1) [of "set_k k' ?s" "gp_pool gmp" p "[]"] l that assms(6,7) pool_list_k [of "gp_pool gmp" "[p]" k' ?s]
    by (simp del: pool_push_frame(2) pool_list_k)
  note al = this
  have "chGuardedPoolAllocI gmp (set_k k ?s) = Halt ''chGuardedPoolAllocI''"
    using al [OF k(2)] k(2) c assms(9) by (simp add: chGuardedPoolAllocI_def chSemFastWaitI_def chSemGetCounterI_def)
  moreover have "\<exists>s''. chGuardedPoolAllocTimeoutS_resume gmp TIME_INFINITE (set_k k' (set_k k ?s)) = Ok (p, s'')"
    if "thd_ctx k' \<and> currp k' = t \<and> rdymsg_of k' t = MSG_OK" for k'
    using al [of k'] that by (simp add: chGuardedPoolAllocTimeoutS_resume_def chSemWaitTimeoutS_resume_def chSchGoSleepTimeoutS_resume_def)
  ultimately show ?thesis using f k(5,6) by (intro exI [of _ "set_k k ?s"]) simp
qed

theorem guarded_pool_handover_witness:
  "\<exists>s s'. chGuardedPoolFreeI 64 0x20000000 s = Ok s' \<and> chGuardedPoolAllocI 64 s' = Halt ''chGuardedPoolAllocI''"
proof -
  let ?k = "kernel_reset\<lparr>threads := (\<lambda>_. no_thread)(16 := no_thread\<lparr>t_prio := 128, t_state := CH_STATE_CURRENT\<rparr>,
      80 := no_thread\<lparr>t_prio := 100, t_state := CH_STATE_WTSEM, t_u := 64\<rparr>), queues := (\<lambda>_. [])(TQ 64 := [80]), sem_cnt := (\<lambda>_. 0)(64 := - 1),
      currp := 16, isr_cnt := 1, lock_cnt := 1\<rparr>"
  let ?s = "set_k ?k (demo_pool\<lparr>ps_pools := (ps_pools demo_pool)(76 := \<lparr>mp_next = NULL, mp_object_size = 16, mp_align = 8, mp_provider = NO_GETMEM\<rparr>)\<rparr>)"
  have k: "sched_inv ?k" "isr_ctx ?k" "sem_inv 64 ?k" "queues ?k (TQ 64) = [80]"
    by (auto simp: kernel_reset_def no_thread_def sched_inv_def isr_ctx_def sem_inv_def split: if_splits)
  have p: "gp_pool 64 = 76" "mp_provider (ps_pools ?s 76) = NO_GETMEM" "pool_list 76 [] ?s" "MEM_IS_ALIGNED 0x20000000 (mp_align (ps_pools ?s 76))"
    by (simp_all add: gp_pool_def pool_list_def MEM_IS_ALIGNED_def del: pool_list_k)
  have "\<exists>s'. chGuardedPoolFreeI 64 0x20000000 ?s = Ok s' \<and> chGuardedPoolAllocI 64 s' = Halt ''chGuardedPoolAllocI''"
    using guarded_pool_handover [of ?s 64 80 "0x20000000"] k p unfolding ps_frame by auto
  then show ?thesis by blast
qed

end
