(* ===== verification/ObjFifos.thy ===== *)
theory ObjFifos
  imports Pools Mailboxes
begin

text \<open>
  Objects FIFOs (\<open>os/oslib/include/chobjfifos.h\<close>): a guarded pool of free objects at \<open>ofp\<close> and, behind it, a mailbox of the
  objects that have been sent, with room for all of them. The functions are calls of those of theories \<open>Pools\<close> and \<open>Mailboxes\<close>.

  The invariant \<open>fifo_sys\<close> says that each object is in one place: free, sent, or in the hands of a producer or a consumer. From it
  follows that the assertions of the send functions, which demand room in the mailbox, never fail for an object of the FIFO.
\<close>

section \<open>Operations\<close>

definition of_mbx :: "ptr \<Rightarrow> ptr" where "of_mbx ofp = ofp + 28"

definition on_k :: "(kernel \<Rightarrow> ('a \<times> kernel) kres) \<Rightarrow> poolsys \<Rightarrow> ('a \<times> poolsys) kres" where
  "on_k f s = kbind (f (ps_k s)) (\<lambda>(r, k). Ok (r, set_k k s))"

definition chFifoObjectInitAligned :: "ptr \<Rightarrow> u32 \<Rightarrow> u32 \<Rightarrow> u32 \<Rightarrow> ptr \<Rightarrow> msg_t list \<Rightarrow> poolsys \<Rightarrow> poolsys kres" where
  "chFifoObjectInitAligned ofp objsize objn objalign objbuf msgbuf s =
     kguard (objsize \<ge> objalign \<and> objsize mod objalign = 0) ''chFifoObjectInitAligned'' (
     kbind (chGuardedPoolObjectInitAligned ofp objsize objalign s) (\<lambda>s.
     kbind (chGuardedPoolLoadArray ofp objbuf objn s) (\<lambda>s.
     kbind (chMBObjectInit (of_mbx ofp) (take (unat objn) msgbuf) (ps_k s)) (\<lambda>k. Ok (set_k k s)))))"

definition chFifoObjectInit :: "ptr \<Rightarrow> u32 \<Rightarrow> u32 \<Rightarrow> ptr \<Rightarrow> msg_t list \<Rightarrow> poolsys \<Rightarrow> poolsys kres" where
  "chFifoObjectInit ofp objsize objn objbuf msgbuf = chFifoObjectInitAligned ofp objsize objn PORT_NATURAL_ALIGN objbuf msgbuf"

definition chFifoTakeObjectI :: "ptr \<Rightarrow> poolsys \<Rightarrow> (ptr \<times> poolsys) kres" where
  "chFifoTakeObjectI ofp = chGuardedPoolAllocI ofp"

definition chFifoTakeObjectTimeoutS :: "ptr \<Rightarrow> u32 \<Rightarrow> poolsys \<Rightarrow> (ptr wait \<times> poolsys) kres" where
  "chFifoTakeObjectTimeoutS ofp timeout = chGuardedPoolAllocTimeoutS ofp timeout"

definition chFifoTakeObjectTimeout :: "ptr \<Rightarrow> u32 \<Rightarrow> poolsys \<Rightarrow> (ptr wait \<times> poolsys) kres" where
  "chFifoTakeObjectTimeout ofp timeout = chGuardedPoolAllocTimeout ofp timeout"

definition chFifoReturnObjectI :: "ptr \<Rightarrow> ptr \<Rightarrow> poolsys \<Rightarrow> poolsys kres" where
  "chFifoReturnObjectI ofp objp = chGuardedPoolFreeI ofp objp"

definition chFifoReturnObjectS :: "ptr \<Rightarrow> ptr \<Rightarrow> poolsys \<Rightarrow> poolsys kres" where
  "chFifoReturnObjectS ofp objp = chGuardedPoolFreeS ofp objp"

definition chFifoReturnObject :: "ptr \<Rightarrow> ptr \<Rightarrow> poolsys \<Rightarrow> poolsys kres" where
  "chFifoReturnObject ofp objp = chGuardedPoolFree ofp objp"

text \<open>The send functions demand that the post succeeds at once.\<close>

definition posted :: "string \<Rightarrow> (kernel \<Rightarrow> (msg_t \<times> kernel) kres) \<Rightarrow> poolsys \<Rightarrow> poolsys kres" where
  "posted fname post s = kbind (on_k post s) (\<lambda>(msg, s). kguard (msg = MSG_OK) fname (Ok s))"

text \<open>A post that may not wait returns; that it did not would be a thread put to sleep.\<close>

definition at_once :: "(kernel \<Rightarrow> (msg_t wait \<times> kernel) kres) \<Rightarrow> kernel \<Rightarrow> (msg_t \<times> kernel) kres" where
  "at_once post k = kbind (post k) (\<lambda>(r, k). case r of Asleep \<Rightarrow> Undef | Returned msg \<Rightarrow> Ok (msg, k))"

definition chFifoSendObjectI :: "ptr \<Rightarrow> ptr \<Rightarrow> poolsys \<Rightarrow> poolsys kres" where
  "chFifoSendObjectI ofp objp = posted ''chFifoSendObjectI'' (chMBPostI (of_mbx ofp) objp)"

definition chFifoSendObjectS :: "ptr \<Rightarrow> ptr \<Rightarrow> poolsys \<Rightarrow> poolsys kres" where
  "chFifoSendObjectS ofp objp = posted ''chFifoSendObjectS'' (at_once (chMBPostTimeoutS (of_mbx ofp) objp TIME_IMMEDIATE))"

definition chFifoSendObject :: "ptr \<Rightarrow> ptr \<Rightarrow> poolsys \<Rightarrow> poolsys kres" where
  "chFifoSendObject ofp objp = posted ''chFifoSendObject'' (at_once (chMBPostTimeout (of_mbx ofp) objp TIME_IMMEDIATE))"

definition chFifoSendObjectAheadI :: "ptr \<Rightarrow> ptr \<Rightarrow> poolsys \<Rightarrow> poolsys kres" where
  "chFifoSendObjectAheadI ofp objp = posted ''chFifoSendObjectAheadI'' (chMBPostAheadI (of_mbx ofp) objp)"

definition chFifoSendObjectAheadS :: "ptr \<Rightarrow> ptr \<Rightarrow> poolsys \<Rightarrow> poolsys kres" where
  "chFifoSendObjectAheadS ofp objp = posted ''chFifoSendObjectAheadS'' (at_once (chMBPostAheadTimeoutS (of_mbx ofp) objp TIME_IMMEDIATE))"

definition chFifoSendObjectAhead :: "ptr \<Rightarrow> ptr \<Rightarrow> poolsys \<Rightarrow> poolsys kres" where
  "chFifoSendObjectAhead ofp objp = posted ''chFifoSendObjectAhead'' (at_once (chMBPostAheadTimeout (of_mbx ofp) objp TIME_IMMEDIATE))"

definition chFifoReceiveObjectI :: "ptr \<Rightarrow> poolsys \<Rightarrow> ((msg_t \<times> ptr option) \<times> poolsys) kres" where
  "chFifoReceiveObjectI ofp = on_k (chMBFetchI (of_mbx ofp))"

definition chFifoReceiveObjectTimeoutS :: "ptr \<Rightarrow> u32 \<Rightarrow> poolsys \<Rightarrow> ((msg_t \<times> ptr option) wait \<times> poolsys) kres" where
  "chFifoReceiveObjectTimeoutS ofp timeout = on_k (chMBFetchTimeoutS (of_mbx ofp) timeout)"

definition chFifoReceiveObjectTimeout :: "ptr \<Rightarrow> u32 \<Rightarrow> poolsys \<Rightarrow> ((msg_t \<times> ptr option) wait \<times> poolsys) kres" where
  "chFifoReceiveObjectTimeout ofp timeout = on_k (chMBFetchTimeout (of_mbx ofp) timeout)"

section \<open>The places of the objects\<close>

definition fifo_sys :: "ptr \<Rightarrow> ptr set \<Rightarrow> ptr list \<Rightarrow> ptr list \<Rightarrow> ptr list \<Rightarrow> poolsys \<Rightarrow> bool" where
  "fifo_sys ofp objs free sent held s \<longleftrightarrow> sched_inv (ps_k s) \<and> i_ctx (ps_k s) \<and> gp_sync ofp free s \<and> mbox_inv (of_mbx ofp) (ps_k s) \<and>
     \<not> mb_reset (mboxes (ps_k s) (of_mbx ofp)) \<and> mb_cap (mboxes (ps_k s) (of_mbx ofp)) = card objs \<and>
     mb_items (mboxes (ps_k s) (of_mbx ofp)) = sent \<and> distinct (free @ sent @ held) \<and> set (free @ sent @ held) = objs \<and>
     (\<forall>p\<in>objs. p \<noteq> NULL \<and> MEM_IS_ALIGNED p (mp_align (ps_pools s (gp_pool ofp))))"

lemma fifo_sys_room:
  assumes "fifo_sys ofp objs free sent held s" and "p \<in> set held"
  shows "length sent < card objs"
proof -
  have "distinct (free @ sent @ held)" "set (free @ sent @ held) = objs" using assms(1) by (simp_all add: fifo_sys_def)
  then have "card objs = length free + length sent + length held" using distinct_card [of "free @ sent @ held"] by simp
  then show ?thesis using assms(2) by (cases held) auto
qed

lemma dequeued_sem [simp]: "sem_cnt (dequeued q msg k) = sem_cnt k"
  by (simp add: dequeued_def split: list.split)

lemma upd_mb_sem [simp]: "sem_cnt (upd_mb m f k) = sem_cnt k"
  by (simp add: upd_mb_def)

lemma gp_alloc_I:
  assumes "gp_sync gmp xs s" and "i_ctx (ps_k s)"
  shows "xs = x # ys \<Longrightarrow> chGuardedPoolAllocI gmp s = Ok (x, pool_pop (gp_pool gmp) (set_k (set_cnt gmp (int (length ys)) (ps_k s)) s)) \<and>
      gp_sync gmp ys (pool_pop (gp_pool gmp) (set_k (set_cnt gmp (int (length ys)) (ps_k s)) s))"
    and "xs = [] \<Longrightarrow> chGuardedPoolAllocI gmp s = Ok (NULL, s)"
proof -
  have a: "gmp \<noteq> NULL" "gp_pool gmp \<noteq> NULL" "mp_provider (ps_pools s (gp_pool gmp)) = NO_GETMEM" "pool_list (gp_pool gmp) xs s"
      "sem_cnt (ps_k s) gmp = int (length xs)" "queues (ps_k s) (TQ gmp) = []"
    using assms(1) by (auto simp: gp_sync_def sem_abs_def sem_inv_def max_def split: if_splits)
  show "chGuardedPoolAllocI gmp s = Ok (x, pool_pop (gp_pool gmp) (set_k (set_cnt gmp (int (length ys)) (ps_k s)) s)) \<and>
      gp_sync gmp ys (pool_pop (gp_pool gmp) (set_k (set_cnt gmp (int (length ys)) (ps_k s)) s))" if x: "xs = x # ys"
  proof -
    let ?k = "set_cnt gmp (int (length ys)) (ps_k s)"
    note p = pool_pop_list [OF a(4) [unfolded x]]
    have "chPoolAllocI (gp_pool gmp) s = Ok (x, pool_pop (gp_pool gmp) s)" using chPoolAllocI_eq(1) [OF assms(2) a(2,3)] a(4) x by blast
    moreover have "(ps_k s)\<lparr>sem_cnt := (sem_cnt (ps_k s))(gmp := int (length xs) - 1)\<rparr> = ?k" using x by (simp add: set_cnt_def)
    ultimately have "chGuardedPoolAllocI gmp s = Ok (x, pool_pop (gp_pool gmp) (set_k ?k s))"
      using p assms(2) a(5) by (simp add: chGuardedPoolAllocI_def chSemFastWaitI_def chSemGetCounterI_def)
    moreover have "gp_sync gmp ys (pool_pop (gp_pool gmp) (set_k ?k s))"
      using a pool_pop_list [of "gp_pool gmp" x ys "set_k ?k s"] x by (simp add: gp_sync_def sem_inv_def sem_abs_def)
    ultimately show ?thesis ..
  qed
  show "chGuardedPoolAllocI gmp s = Ok (NULL, s)" if "xs = []"
    using chPoolAllocI_eq(2) [OF assms(2) a(2,3)] a(4) that by (simp add: chGuardedPoolAllocI_def)
qed

lemma set_cnt_mb [simp]: "mbox_inv m (set_cnt sp n k) = mbox_inv m k"
  by (simp add: mbox_inv_def)

lemma fifo_take:
  assumes "fifo_sys ofp objs free sent held s"
  shows "case free of [] \<Rightarrow> chFifoTakeObjectI ofp s = Ok (NULL, s)
    | x # free' \<Rightarrow> \<exists>s'. chFifoTakeObjectI ofp s = Ok (x, s') \<and> fifo_sys ofp objs free' sent (x # held) s'"
proof (cases free)
  case Nil
  then show ?thesis using gp_alloc_I(2) [of ofp free s] assms by (simp add: chFifoTakeObjectI_def fifo_sys_def)
next
  case (Cons x xs)
  let ?s = "pool_pop (gp_pool ofp) (set_k (set_cnt ofp (int (length xs)) (ps_k s)) s)"
  have "chFifoTakeObjectI ofp s = Ok (x, ?s) \<and> gp_sync ofp xs ?s"
    using gp_alloc_I(1) [of ofp free s x xs] assms Cons by (simp add: chFifoTakeObjectI_def fifo_sys_def)
  then show ?thesis using assms Cons by (auto simp: fifo_sys_def)
qed

lemma fifo_return:
  assumes "fifo_sys ofp objs free sent held s" and "p \<in> set held"
  shows "\<exists>s'. chFifoReturnObjectI ofp p s = Ok s' \<and> fifo_sys ofp objs (p # free) sent (remove1 p held) s'"
proof -
  have a: "gp_sync ofp free s" "i_ctx (ps_k s)" "p \<noteq> NULL" "p \<notin> set free" "MEM_IS_ALIGNED p (mp_align (ps_pools s (gp_pool ofp)))"
    using assms by (auto simp: fifo_sys_def)
  let ?s = "pool_push (gp_pool ofp) p (set_k (set_cnt ofp (int (length free) + 1) (ps_k s)) s)"
  have "chFifoReturnObjectI ofp p s = Ok ?s" "gp_sync ofp (p # free) ?s" using gp_free_I [OF a] by (simp_all add: chFifoReturnObjectI_def)
  moreover have "distinct (p # free @ sent @ remove1 p held)" "set (p # free @ sent @ remove1 p held) = objs"
    using assms by (auto simp: fifo_sys_def)
  ultimately show ?thesis using assms by (intro exI [of _ ?s]) (simp add: fifo_sys_def)
qed

lemma gp_sync_cong:
  assumes "gp_sync gmp xs s" and "sem_cnt k gmp = sem_cnt (ps_k s) gmp" and "queues k (TQ gmp) = queues (ps_k s) (TQ gmp)"
  shows "gp_sync gmp xs (set_k k s)"
  using assms gp_sync_k by blast

lemma fifo_send:
  assumes "fifo_sys ofp objs free sent held s" and "p \<in> set held"
  shows "\<exists>s'. chFifoSendObjectI ofp p s = Ok s' \<and> fifo_sys ofp objs free (sent @ [p]) (remove1 p held) s'"
proof -
  let ?m = "of_mbx ofp" let ?u = "upd_mb ?m (mb_put p) (ps_k s)" let ?k = "dequeued (MBQR ?m) MSG_OK ?u"
  have f: "sched_inv (ps_k s)" "i_ctx (ps_k s)" "mbox_inv ?m (ps_k s)" "\<not> mb_reset (mboxes (ps_k s) ?m)" "mb_items (mboxes (ps_k s) ?m) = sent"
      "mb_cap (mboxes (ps_k s) ?m) = card objs" "gp_sync ofp free s"
    using assms(1) by (simp_all add: fifo_sys_def)
  have c: "mb_cnt (mboxes (ps_k s) ?m) < mb_cap (mboxes (ps_k s) ?m)" using fifo_sys_room [OF assms] f(5,6) length_mb_items by metis
  have p: "mb_ok (mb_put p (mboxes (ps_k s) ?m))" "mb_items (mb_put p (mboxes (ps_k s) ?m)) = sent @ [p]" "mb_cap (mb_put p (mboxes (ps_k s) ?m)) = card objs"
    using mb_put_ok [OF _ c, of p] f(3,5,6) by (simp_all add: mbox_inv_def)
  have "chMBPostI ?m p (ps_k s) = Ok (MSG_OK, ?k)" using chMBPostI_eq [OF f(1-3), of p] f(4) c by simp
  then have "chFifoSendObjectI ofp p s = Ok (set_k ?k s)" by (simp add: chFifoSendObjectI_def posted_def on_k_def)
  moreover have u: "mbox_inv ?m ?u" using mbox_inv_upd_mb [OF f(3), of "mb_put p"] p(1) .
  moreover from u have "sched_inv ?k" "mbox_inv ?m ?k"
    using chThdDequeueNextI_eq(2) [of ?u "MBQR ?m" MSG_OK] mbox_inv_dequeued [of ?u ?m "MBQR ?m" MSG_OK] f(1,2) by (auto simp: mbox_inv_def)
  moreover have "gp_sync ofp free (set_k ?k s)" by (rule gp_sync_cong [OF f(7)]) (simp_all add: dequeued_queues)
  moreover have "\<not> mb_reset (mboxes ?k ?m)" using f(4) by (simp add: mb_put_def)
  moreover have "distinct (free @ (sent @ [p]) @ remove1 p held)" "set (free @ (sent @ [p]) @ remove1 p held) = objs"
    using assms by (auto simp: fifo_sys_def)
  ultimately show ?thesis using assms p(2,3) f(2) by (intro exI [of _ "set_k ?k s"]) (auto simp: fifo_sys_def)
qed

lemma fifo_receive:
  assumes "fifo_sys ofp objs free sent held s"
  shows "case sent of [] \<Rightarrow> chFifoReceiveObjectI ofp s = Ok ((MSG_TIMEOUT, None), s)
    | x # sent' \<Rightarrow> \<exists>s'. chFifoReceiveObjectI ofp s = Ok ((MSG_OK, Some x), s') \<and> fifo_sys ofp objs free sent' (x # held) s'"
proof -
  let ?m = "of_mbx ofp" let ?mb = "mboxes (ps_k s) ?m" let ?u = "upd_mb ?m (\<lambda>_. snd (mb_get ?mb)) (ps_k s)" let ?k = "dequeued (MBQW ?m) MSG_OK ?u"
  have f: "sched_inv (ps_k s)" "i_ctx (ps_k s)" "mbox_inv ?m (ps_k s)" "\<not> mb_reset ?mb" "mb_items ?mb = sent" "mb_cap ?mb = card objs" "gp_sync ofp free s"
    using assms by (simp_all add: fifo_sys_def)
  note e = chMBFetchI_eq [OF f(1-3)]
  show ?thesis
  proof (cases sent)
    case Nil
    then have "mb_cnt ?mb = 0" using f(5) length_mb_items [of ?mb] by simp
    then show ?thesis using e f(4) Nil by (simp add: chFifoReceiveObjectI_def on_k_def)
  next
    case (Cons x xs)
    then have c: "mb_cnt ?mb > 0" using f(5) length_mb_items [of ?mb] by (cases "mb_cnt ?mb") auto
    note g = mb_get_ok [OF _ c]
    have mo: "mb_ok ?mb" using f(3) by (simp add: mbox_inv_def)
    have x: "fst (mb_get ?mb) = x" "mb_items (snd (mb_get ?mb)) = xs" using g(2) [OF mo] f(5) Cons by simp_all
    have "chFifoReceiveObjectI ofp s = Ok ((MSG_OK, Some x), set_k ?k s)" using e f(4) c x(1) by (simp add: chFifoReceiveObjectI_def on_k_def)
    moreover have u: "mbox_inv ?m ?u" using mbox_inv_upd_mb [OF f(3), of "\<lambda>_. snd (mb_get ?mb)"] g(1) [OF mo] .
    moreover from u have "sched_inv ?k" "mbox_inv ?m ?k"
      using chThdDequeueNextI_eq(2) [of ?u "MBQW ?m" MSG_OK] mbox_inv_dequeued [of ?u ?m "MBQW ?m" MSG_OK] f(1,2) by (auto simp: mbox_inv_def)
    moreover have "gp_sync ofp free (set_k ?k s)" by (rule gp_sync_cong [OF f(7)]) (simp_all add: dequeued_queues)
    moreover have "\<not> mb_reset (mboxes ?k ?m)" using f(4) by (simp add: mb_get_def)
    moreover have "distinct (free @ xs @ x # held)" "set (free @ xs @ x # held) = objs" using assms Cons by (auto simp: fifo_sys_def)
    ultimately show ?thesis using assms x(2) g(3) [OF mo] f(2,6) Cons by (simp add: fifo_sys_def)
  qed
qed

section \<open>Histories\<close>

text \<open>The calls of producers and consumers; the state keeps the objects that they hold.\<close>

inductive fifo_step :: "ptr \<Rightarrow> poolsys \<times> ptr list \<Rightarrow> poolsys \<times> ptr list \<Rightarrow> bool" for ofp where
  taken: "fifo_step ofp (s, held) (s', if p = NULL then held else p # held)" if "chFifoTakeObjectI ofp s = Ok (p, s')"
| sent: "fifo_step ofp (s, held) (s', remove1 p held)" if "p \<in> set held" "chFifoSendObjectI ofp p s = Ok s'"
| received: "fifo_step ofp (s, held) (s', (case r of None \<Rightarrow> held | Some p \<Rightarrow> p # held))" if "chFifoReceiveObjectI ofp s = Ok ((msg, r), s')"
| returned: "fifo_step ofp (s, held) (s', remove1 p held)" if "p \<in> set held" "chFifoReturnObjectI ofp p s = Ok s'"

lemma fifo_step_sys:
  "fifo_step ofp c c' \<Longrightarrow> \<exists>free sent. fifo_sys ofp objs free sent (snd c) (fst c) \<Longrightarrow> \<exists>free sent. fifo_sys ofp objs free sent (snd c') (fst c')"
proof (induction rule: fifo_step.induct)
  case (taken s p s' held)
  then obtain free sent where f: "fifo_sys ofp objs free sent held s" by auto
  show ?case
  proof (cases free)
    case Nil
    then show ?thesis using fifo_take [OF f] taken(1) f by auto
  next
    case (Cons x xs)
    then have "x \<noteq> NULL" using f by (auto simp: fifo_sys_def)
    then show ?thesis using fifo_take [OF f] taken(1) Cons by auto
  qed
next
  case (sent p held s s')
  then show ?case using fifo_send [of ofp objs _ _ held s p] by fastforce
next
  case (received s msg r s' held)
  then obtain free sent where f: "fifo_sys ofp objs free sent held s" by auto
  show ?case using fifo_receive [OF f] received(1) f by (cases sent) auto
next
  case (returned p held s s')
  then show ?case using fifo_return [of ofp objs _ _ held s p] by fastforce
qed

lemma fifo_reach_sys:
  assumes "(fifo_step ofp)\<^sup>*\<^sup>* (s, held) (s', held')" and "fifo_sys ofp objs free sent held s"
  shows "\<exists>free sent. fifo_sys ofp objs free sent held' s'"
proof -
  have "\<exists>free sent. fifo_sys ofp objs free sent (snd (s', held')) (fst (s', held'))"
    using assms(1)
  proof (induction rule: rtranclp_induct)
    case base
    then show ?case using assms(2) by auto
  next
    case (step y z)
    then show ?case using fifo_step_sys by blast
  qed
  then show ?thesis by simp
qed

section \<open>Properties\<close>

definition demo_fifo :: poolsys where
  "demo_fifo = demo_pool\<lparr>ps_pools := (ps_pools demo_pool)(76 := \<lparr>mp_next = 0x20000000, mp_object_size = 16, mp_align = 8, mp_provider = NO_GETMEM\<rparr>),
     ps_hs := (ps_hs demo_pool)\<lparr>hk := set_cnt 64 1 (demo_kernel\<lparr>mboxes := (mboxes demo_kernel)(92 :=
       \<lparr>mb_buffer = [0], mb_wrptr = 0, mb_rdptr = 0, mb_cnt = 0, mb_reset = False\<rparr>)\<rparr>)\<rparr>\<rparr>"

lemma demo_fifo_sys: "fifo_sys 64 {0x20000000} [0x20000000] [] [] demo_fifo"
proof -
  let ?k = "set_cnt 64 1 (demo_kernel\<lparr>mboxes := (mboxes demo_kernel)(92 := \<lparr>mb_buffer = [0], mb_wrptr = 0, mb_rdptr = 0, mb_cnt = 0, mb_reset = False\<rparr>)\<rparr>)"
  have q: "queues ?k (TQ 64) = []" "queues ?k (MBQR 92) = []" "queues ?k (MBQW 92) = []" by (simp_all add: demo_kernel_def kernel_reset_def)
  have k: "sched_inv ?k" "i_ctx ?k" using demo_kernel_ok by simp_all
  have d: "ps_k demo_fifo = ?k" "ps_mem demo_fifo 0x20000000 = 0" by (simp_all add: demo_fifo_def demo_pool_def)
  have p: "ps_pools demo_fifo 76 = \<lparr>mp_next = 0x20000000, mp_object_size = 16, mp_align = 8, mp_provider = NO_GETMEM\<rparr>" by (simp add: demo_fifo_def)
  have g: "gp_sync 64 [0x20000000] demo_fifo" using q(1) by (simp add: gp_sync_def gp_pool_def p d pool_list_def sem_inv_def sem_abs_def)
  have m: "mbox_inv 92 ?k" using q(2,3) by (simp add: mbox_inv_def mb_ok_def)
  show ?thesis using g m k by (simp add: fifo_sys_def of_mbx_def gp_pool_def p d MEM_IS_ALIGNED_def)
qed



end
