(* ===== verification/Jobs.thy ===== *)
theory Jobs
  imports ObjFifos
begin

text \<open>
  Jobs queues (\<open>os/oslib/include/chjobs.h\<close>): a guarded pool of free job descriptors and a mailbox of posted ones, laid out as in an
  objects FIFO (theory \<open>ObjFifos\<close>). A descriptor at \<open>jp\<close> has the function at \<open>jp\<close> and its argument at \<open>jp + 4\<close>. What the job functions do is the
  parameter \<open>run\<close>, from function, argument and state to the state in which the function returns.
\<close>

section \<open>Operations\<close>

definition MSG_JOB_NULL :: msg_t where "MSG_JOB_NULL = - 2"

definition chJobObjectInit :: "ptr \<Rightarrow> u32 \<Rightarrow> ptr \<Rightarrow> msg_t list \<Rightarrow> poolsys \<Rightarrow> poolsys kres" where
  "chJobObjectInit jqp jobsn jobsbuf msgbuf s =
     kguard (jobsn > 0 \<and> jobsbuf \<noteq> NULL) ''chJobObjectInit'' (
     kbind (chGuardedPoolObjectInit jqp 8 s) (\<lambda>s.
     kbind (chGuardedPoolLoadArray jqp jobsbuf jobsn s) (\<lambda>s.
     kbind (chMBObjectInit (of_mbx jqp) (take (unat jobsn) msgbuf) (ps_k s)) (\<lambda>k. Ok (set_k k s)))))"

definition chJobGet :: "ptr \<Rightarrow> poolsys \<Rightarrow> (ptr wait \<times> poolsys) kres" where
  "chJobGet jqp = chGuardedPoolAllocTimeout jqp TIME_INFINITE"

definition chJobGetI :: "ptr \<Rightarrow> poolsys \<Rightarrow> (ptr \<times> poolsys) kres" where
  "chJobGetI jqp = chGuardedPoolAllocI jqp"

definition chJobGetTimeoutS :: "ptr \<Rightarrow> u32 \<Rightarrow> poolsys \<Rightarrow> (ptr wait \<times> poolsys) kres" where
  "chJobGetTimeoutS jqp timeout = chGuardedPoolAllocTimeoutS jqp timeout"

definition chJobGetTimeout :: "ptr \<Rightarrow> u32 \<Rightarrow> poolsys \<Rightarrow> (ptr wait \<times> poolsys) kres" where
  "chJobGetTimeout jqp timeout = chGuardedPoolAllocTimeout jqp timeout"

definition chJobPostI :: "ptr \<Rightarrow> ptr \<Rightarrow> poolsys \<Rightarrow> poolsys kres" where
  "chJobPostI jqp jp = posted ''chJobPostI'' (chMBPostI (of_mbx jqp) jp)"

definition chJobPostS :: "ptr \<Rightarrow> ptr \<Rightarrow> poolsys \<Rightarrow> poolsys kres" where
  "chJobPostS jqp jp = posted ''chJobPostS'' (at_once (chMBPostTimeoutS (of_mbx jqp) jp TIME_IMMEDIATE))"

definition chJobPost :: "ptr \<Rightarrow> ptr \<Rightarrow> poolsys \<Rightarrow> poolsys kres" where
  "chJobPost jqp jp = posted ''chJobPost'' (at_once (chMBPostTimeout (of_mbx jqp) jp TIME_IMMEDIATE))"

definition chJobPostAheadI :: "ptr \<Rightarrow> ptr \<Rightarrow> poolsys \<Rightarrow> poolsys kres" where
  "chJobPostAheadI jqp jp = posted ''chJobPostAheadI'' (chMBPostAheadI (of_mbx jqp) jp)"

definition chJobPostAheadS :: "ptr \<Rightarrow> ptr \<Rightarrow> poolsys \<Rightarrow> poolsys kres" where
  "chJobPostAheadS jqp jp = posted ''chJobPostAheadS'' (at_once (chMBPostAheadTimeoutS (of_mbx jqp) jp TIME_IMMEDIATE))"

definition chJobPostAhead :: "ptr \<Rightarrow> ptr \<Rightarrow> poolsys \<Rightarrow> poolsys kres" where
  "chJobPostAhead jqp jp = posted ''chJobPostAhead'' (at_once (chMBPostAheadTimeout (of_mbx jqp) jp TIME_IMMEDIATE))"

text \<open>What both dispatchers do with the answer of the mailbox.\<close>

definition job_fetched :: "(ptr \<Rightarrow> ptr \<Rightarrow> poolsys \<Rightarrow> poolsys kres) \<Rightarrow> string \<Rightarrow> ptr \<Rightarrow> msg_t \<times> msg_t option \<Rightarrow> poolsys \<Rightarrow> (msg_t wait \<times> poolsys) kres" where
  "job_fetched run fname jqp mr s =
     (if fst mr = MSG_OK then
        case snd mr of None \<Rightarrow> Undef
        | Some jp \<Rightarrow> kguard (jp \<noteq> NULL) fname (
            if ps_mem s jp \<noteq> NULL
            then kbind (run (ps_mem s jp) (ps_mem s (jp + 4)) s) (\<lambda>s.
                 kbind (chGuardedPoolFree jqp jp s) (\<lambda>s. Ok (Returned MSG_OK, s)))
            else Ok (Returned MSG_JOB_NULL, s))
      else Ok (Returned (fst mr), s))"

definition chJobDispatchTimeout :: "(ptr \<Rightarrow> ptr \<Rightarrow> poolsys \<Rightarrow> poolsys kres) \<Rightarrow> ptr \<Rightarrow> u32 \<Rightarrow> poolsys \<Rightarrow> (msg_t wait \<times> poolsys) kres" where
  "chJobDispatchTimeout run jqp timeout s =
     kbind (on_k (chMBFetchTimeout (of_mbx jqp) timeout) s) (\<lambda>(r, s).
     case r of Asleep \<Rightarrow> Ok (Asleep, s) | Returned mr \<Rightarrow> job_fetched run ''chJobDispatchTimeout'' jqp mr s)"

text \<open>Behind the sleep in the mailbox, which may be followed by another.\<close>

definition chJobDispatchTimeout_resume :: "(ptr \<Rightarrow> ptr \<Rightarrow> poolsys \<Rightarrow> poolsys kres) \<Rightarrow> ptr \<Rightarrow> u32 \<Rightarrow> poolsys \<Rightarrow> (msg_t wait \<times> poolsys) kres" where
  "chJobDispatchTimeout_resume run jqp timeout s =
     kbind (on_k (chMBFetchTimeoutS_resume (of_mbx jqp) timeout) s) (\<lambda>(r, s).
     case r of Asleep \<Rightarrow> Ok (Asleep, s)
     | Returned mr \<Rightarrow> kbind (ps_unlock s) (job_fetched run ''chJobDispatchTimeout'' jqp mr))"

definition chJobDispatch :: "(ptr \<Rightarrow> ptr \<Rightarrow> poolsys \<Rightarrow> poolsys kres) \<Rightarrow> ptr \<Rightarrow> poolsys \<Rightarrow> (msg_t wait \<times> poolsys) kres" where
  "chJobDispatch run jqp s =
     kbind (on_k (chMBFetchTimeout (of_mbx jqp) TIME_INFINITE) s) (\<lambda>(r, s).
     case r of Asleep \<Rightarrow> Ok (Asleep, s) | Returned mr \<Rightarrow> job_fetched run ''chJobDispatch'' jqp mr s)"

section \<open>Descriptors\<close>

text \<open>The places of the descriptors while a thread runs outside the kernel: free, posted, or held by a client or by the dispatcher.\<close>

abbreviation ps_locked :: "poolsys \<Rightarrow> poolsys" where "ps_locked s \<equiv> set_k ((ps_k s)\<lparr>lock_cnt := 1\<rparr>) s"

definition jobs_sys :: "ptr \<Rightarrow> ptr set \<Rightarrow> ptr list \<Rightarrow> ptr list \<Rightarrow> ptr list \<Rightarrow> poolsys \<Rightarrow> bool" where
  "jobs_sys jqp objs free sent held s \<longleftrightarrow> running (ps_k s) \<and> fifo_sys jqp objs free sent held (ps_locked s) \<and> queues (ps_k s) (MBQW (of_mbx jqp)) = []"

lemma job_fetch:
  assumes "jobs_sys jqp objs free (jp # sent) held s"
  shows "\<exists>s1. on_k (chMBFetchTimeout (of_mbx jqp) timeout) s = Ok (Returned (MSG_OK, Some jp), s1) \<and> jobs_sys jqp objs free sent (jp # held) s1 \<and> ps_mem s1 = ps_mem s"
proof -
  let ?m = "of_mbx jqp" let ?k = "(ps_k s)\<lparr>lock_cnt := 1\<rparr>" let ?mb = "mboxes (ps_k s) ?m"
  let ?u = "upd_mb ?m (\<lambda>_. snd (mb_get ?mb)) ?k" let ?s = "set_k (?u\<lparr>lock_cnt := 0\<rparr>) s"
  have r: "running (ps_k s)" "queues ?k (MBQW ?m) = []" "sched_ok ?k" using assms by (simp_all add: jobs_sys_def running_def)
  have f: "sched_inv ?k" "i_ctx ?k" "mbox_inv ?m ?k" "\<not> mb_reset ?mb" "mb_items ?mb = jp # sent"
    using assms by (simp_all add: jobs_sys_def fifo_sys_def)
  have c: "mb_cnt ?mb > 0" using f(5) length_mb_items [of ?mb] by (cases "mb_cnt ?mb") auto
  have d: "dequeued (MBQW ?m) MSG_OK ?u = ?u" using r(2) by (simp add: dequeued_def)
  have fr: "chFifoReceiveObjectI jqp (ps_locked s) = Ok ((MSG_OK, Some (fst (mb_get ?mb))), set_k ?u s)"
    using chMBFetchI_eq [OF f(1-3)] f(4) c d by (simp add: chFifoReceiveObjectI_def on_k_def)
  with fifo_receive [of jqp objs free "jp # sent" held "ps_locked s"] assms
  have x: "fst (mb_get ?mb) = jp" and sys: "fifo_sys jqp objs free sent (jp # held) (set_k ?u s)" by (auto simp: jobs_sys_def)
  have "?u\<lparr>lock_cnt := 0, lock_cnt := 1\<rparr> = ?u" by (rule kernel.equality) (simp_all add: upd_mb_def)
  then have lk: "ps_locked ?s = set_k ?u s" by (simp add: set_k_def)
  have t: "thd_ctx ?u" "sched_ok ?u" using running_lock(2) [OF r(1)] r(3) by (simp_all add: sched_ok_def)
  have "chThdDequeueNextI (MBQW ?m) MSG_OK ?u = Ok ?u"
    using chThdDequeueNextI_eq(1) [of ?u "MBQW ?m" MSG_OK] f(1-3) d r(2) by (simp add: mbox_inv_def)
  moreover have "chSchRescheduleS ?u = Ok ?u" using chSchRescheduleS_eq [of ?u] resched_same [OF t(2)] t by (simp add: sched_ok_def)
  ultimately have "chMBFetchTimeout ?m timeout (ps_k s) = Ok (Returned (MSG_OK, Some jp), ?u\<lparr>lock_cnt := 0\<rparr>)"
    using running_lock [OF r(1)] running_unlock [OF t(2,1)] f(3,4) c x
    by (simp add: chMBFetchTimeout_def locked_wait_def chMBFetchTimeoutS_def fetch_turn_def chMBGetUsedCountI_def mbox_inv_def case_prod_unfold Let_def)
  then have "on_k (chMBFetchTimeout ?m timeout) s = Ok (Returned (MSG_OK, Some jp), ?s)" by (simp add: on_k_def)
  moreover have "jobs_sys jqp objs free sent (jp # held) ?s"
    unfolding jobs_sys_def lk using running_unlock [OF t(2,1)] r(2) sys by simp
  ultimately show ?thesis by auto
qed

lemma job_free:
  assumes "jobs_sys jqp objs free sent held s" and "jp \<in> set held"
  shows "\<exists>s'. chGuardedPoolFree jqp jp s = Ok s' \<and> jobs_sys jqp objs (jp # free) sent (remove1 jp held) s'"
proof -
  have r: "running (ps_k s)" "fifo_sys jqp objs free sent held (ps_locked s)" "queues (ps_k s) (MBQW (of_mbx jqp)) = []"
    using assms(1) by (simp_all add: jobs_sys_def)
  let ?s = "ps_locked s" let ?k = "set_cnt jqp (int (length free) + 1) (ps_k s)"
  let ?p = "pool_push (gp_pool jqp) jp (set_k (?k\<lparr>lock_cnt := 1\<rparr>) s)"
  have a: "gp_sync jqp free ?s" "i_ctx (ps_k ?s)" "jp \<noteq> NULL" "jp \<notin> set free" "MEM_IS_ALIGNED jp (mp_align (ps_pools ?s (gp_pool jqp)))"
    using r(2) assms(2) by (auto simp: fifo_sys_def)
  have f: "chGuardedPoolFreeI jqp jp ?s = Ok ?p" using gp_free_I(1) [OF a] by (simp add: sem_cnt_lock)
  have sys: "fifo_sys jqp objs (jp # free) sent (remove1 jp held) ?p"
    using fifo_return [OF r(2) assms(2)] f by (simp add: chFifoReturnObjectI_def)
  have k: "sched_ok (ps_k ?p)" "thd_ctx (ps_k ?p)" "running ?k"
  proof -
    show kr: "running ?k" using r(1) by simp
    show "sched_ok (ps_k ?p)" using kr by (simp add: running_def)
    show "thd_ctx (ps_k ?p)" using running_lock(2) [OF kr] by simp
  qed
  have "chSchRescheduleS (ps_k ?p) = Ok (ps_k ?p)" using chSchRescheduleS_eq [of "ps_k ?p"] resched_same [OF k(1)] k by (simp add: sched_ok_def)
  moreover have "ps_unlock ?p = Ok (set_k ?k ?p)" by (rule ps_cnt_unlock [OF r(1)]) (simp add: sem_cnt_lock)
  ultimately have "chGuardedPoolFree jqp jp s = Ok (set_k ?k ?p)"
    using running_lock(1) [OF r(1)] f by (simp add: chGuardedPoolFree_def chGuardedPoolFreeS_def ps_lock_def)
  moreover have "jobs_sys jqp objs (jp # free) sent (remove1 jp held) (set_k ?k ?p)" using sys k(3) r(3) by (simp add: jobs_sys_def)
  ultimately show ?thesis by blast
qed

text \<open>
  Dispatching. If a job is waiting, the dispatcher takes the oldest one, calls its function with its argument while it holds the descriptor, whatever the
  function does with the rest of the queue, and gives the descriptor back. A job without function makes it return
  \<open>MSG_JOB_NULL\<close>; the descriptor of that job is then neither free nor posted any more, it remains with the dispatcher.
\<close>

theorem job_dispatched:
  assumes "jobs_sys jqp objs free (jp # sent) held s"
  shows "\<exists>s1. jobs_sys jqp objs free sent (jp # held) s1 \<and>
    (ps_mem s jp = NULL \<longrightarrow> chJobDispatchTimeout run jqp timeout s = Ok (Returned MSG_JOB_NULL, s1)) \<and>
    (\<forall>s2 free2 sent2 held2. ps_mem s jp \<noteq> NULL \<and> run (ps_mem s jp) (ps_mem s (jp + 4)) s1 = Ok s2 \<and>
       jobs_sys jqp objs free2 sent2 held2 s2 \<and> jp \<in> set held2 \<longrightarrow>
       (\<exists>s3. chJobDispatchTimeout run jqp timeout s = Ok (Returned MSG_OK, s3) \<and> jobs_sys jqp objs (jp # free2) sent2 (remove1 jp held2) s3))"
proof -
  obtain s1 where s1: "on_k (chMBFetchTimeout (of_mbx jqp) timeout) s = Ok (Returned (MSG_OK, Some jp), s1)"
      "jobs_sys jqp objs free sent (jp # held) s1" "ps_mem s1 = ps_mem s"
    using job_fetch [OF assms] by blast
  have n: "jp \<noteq> NULL" using assms by (auto simp: jobs_sys_def fifo_sys_def)
  have d: "chJobDispatchTimeout run jqp timeout s = job_fetched run ''chJobDispatchTimeout'' jqp (MSG_OK, Some jp) s1"
    using s1(1) by (simp add: chJobDispatchTimeout_def)
  have "\<exists>s3. chJobDispatchTimeout run jqp timeout s = Ok (Returned MSG_OK, s3) \<and> jobs_sys jqp objs (jp # free2) sent2 (remove1 jp held2) s3"
    if "ps_mem s jp \<noteq> NULL" "run (ps_mem s jp) (ps_mem s (jp + 4)) s1 = Ok s2" "jobs_sys jqp objs free2 sent2 held2 s2" "jp \<in> set held2" for s2 free2 sent2 held2
    using job_free [OF that(3,4)] that(1,2) d n s1(3) by (auto simp: job_fetched_def)
  then show ?thesis using s1(2,3) d n by (auto simp: job_fetched_def)
qed

text \<open>A job that has been taken can be posted, by the argument for objects FIFOs.\<close>

lemma job_post:
  assumes "fifo_sys jqp objs free sent held s" and "jp \<in> set held"
  shows "\<exists>s'. chJobPostI jqp jp s = Ok s' \<and> fifo_sys jqp objs free (sent @ [jp]) (remove1 jp held) s'"
  using fifo_send [OF assms] by (auto simp: chJobPostI_def chFifoSendObjectI_def posted_def split: if_splits)

section \<open>Example\<close>

definition demo_jobs :: poolsys where
  "demo_jobs = demo_fifo\<lparr>ps_hs := (ps_hs demo_fifo)\<lparr>hk := set_cnt 64 0 ((ps_k demo_fifo)\<lparr>lock_cnt := 0, mboxes := (mboxes demo_kernel)(92 :=
       \<lparr>mb_buffer = [0x20000000], mb_wrptr = 0, mb_rdptr = 0, mb_cnt = 1, mb_reset = False\<rparr>)\<rparr>)\<rparr>,
     ps_pools := (ps_pools demo_fifo)(76 := \<lparr>mp_next = NULL, mp_object_size = 16, mp_align = 8, mp_provider = NO_GETMEM\<rparr>)\<rparr>"

lemma demo_jobs_sys: "jobs_sys 64 {0x20000000} [] [0x20000000] [] demo_jobs"
proof -
  let ?mb = "\<lparr>mb_buffer = [0x20000000], mb_wrptr = 0, mb_rdptr = 0, mb_cnt = 1, mb_reset = False\<rparr>"
  let ?k = "set_cnt 64 0 ((set_cnt 64 1 demo_kernel)\<lparr>lock_cnt := 0, mboxes := (mboxes demo_kernel)(92 := ?mb)\<rparr>)"
  have q: "queues demo_kernel (TQ 64) = []" "queues demo_kernel (MBQR 92) = []" "queues demo_kernel (MBQW 92) = []" by (simp_all add: demo_kernel_def kernel_reset_def)
  have d: "ps_k demo_jobs = ?k" by (simp add: demo_jobs_def demo_fifo_def set_cnt_def)
  have p: "ps_pools demo_jobs 76 = \<lparr>mp_next = NULL, mp_object_size = 16, mp_align = 8, mp_provider = NO_GETMEM\<rparr>" by (simp add: demo_jobs_def)
  have r: "running ?k" using demo_kernel_ok by (simp add: running_def sched_ok_def thread_idle_ctx_def thd_ctx_def) (simp add: set_cnt_def)
  have g: "gp_sync 64 [] (ps_locked demo_jobs)" using q(1) by (simp add: gp_sync_def gp_pool_def p d pool_list_def sem_inv_def sem_abs_def)
  have m: "mbox_inv 92 (?k\<lparr>lock_cnt := 1\<rparr>)" using q(2,3) by (simp add: mbox_inv_def mb_ok_def)
  have i: "mb_items ?mb = [0x20000000]" by (simp add: mb_items_def ring_items_def)
  have "i_ctx (?k\<lparr>lock_cnt := 1\<rparr>)" "sched_inv (?k\<lparr>lock_cnt := 1\<rparr>)" using running_lock(2) [OF r] r by (simp_all add: running_def sched_ok_def)
  then show ?thesis using r g m i q(3) by (simp add: jobs_sys_def fifo_sys_def of_mbx_def gp_pool_def p d MEM_IS_ALIGNED_def)
qed

theorem job_dispatched_witness:
  "\<exists>s1. chJobDispatchTimeout (\<lambda>f a s. Ok s) 64 TIME_INFINITE demo_jobs = Ok (Returned MSG_JOB_NULL, s1) \<and>
     jobs_sys 64 {0x20000000} [] [] [0x20000000] s1"
proof -
  have "ps_mem demo_jobs 0x20000000 = NULL" by (simp add: demo_jobs_def demo_fifo_def demo_pool_def)
  then show ?thesis using job_dispatched [OF demo_jobs_sys, of "\<lambda>f a s. Ok s" TIME_INFINITE] by auto
qed

end
