(* ===== verification/Uncontended.thy ===== *)
theory Uncontended
  imports HalDrivers Mutexes
begin

text \<open>
  Mutexes that nobody else wants: the facts that the clients of the object library share. Locking a free mutex
  (\<open>mtx_free\<close>) succeeds at once and unlocking one without waiters does not reschedule, so the
  calling thread goes on in both cases.
\<close>

definition mtx_free :: "ptr \<Rightarrow> kernel \<Rightarrow> bool" where
  "mtx_free mp k \<longleftrightarrow> mp \<noteq> NULL \<and> mtx_owner k mp = NULL \<and> queues k (TQ mp) = []"

text \<open>The mutex is the one the running thread has locked last, and nobody waits for it.\<close>

definition mtx_top :: "ptr \<Rightarrow> kernel \<Rightarrow> bool" where
  "mtx_top mp k \<longleftrightarrow> mp \<noteq> NULL \<and> mtx_owner k mp = currp k \<and> t_mtxlist (threads k (currp k)) = mp \<and> queues k (TQ mp) = []"

definition mtx_drop :: "ptr \<Rightarrow> kernel \<Rightarrow> kernel" where
  "mtx_drop mp k = upd_mtx mp (m_owner_update (\<lambda>_. NULL)) (upd_th (currp k) (t_mtxlist_update (\<lambda>_. mtx_next k mp)) k)"

lemma running_currp: "running k \<Longrightarrow> currp k \<noteq> NULL"
  using sched_invD(6) [of k "currp k"] sched_invD(8) [of k] by (auto simp: running_def sched_ok_def)

lemma mtx_lock_cnt [simp]:
  "mtx_owner (k\<lparr>lock_cnt := n\<rparr>) mp = mtx_owner k mp" "mtx_next (k\<lparr>lock_cnt := n\<rparr>) mp = mtx_next k mp"
  "give mp tp (k\<lparr>lock_cnt := n\<rparr>) = (give mp tp k)\<lparr>lock_cnt := n\<rparr>" "mtx_drop mp (k\<lparr>lock_cnt := n\<rparr>) = (mtx_drop mp k)\<lparr>lock_cnt := n\<rparr>"
  by (simp_all add: mtx_owner_def mtx_next_def give_def mtx_drop_def upd_th_def upd_mtx_def)

lemma give_cnt [simp]: "lock_cnt (give mp tp k) = lock_cnt k" "isr_cnt (give mp tp k) = isr_cnt k"
  "lock_cnt (mtx_drop mp k) = lock_cnt k" "isr_cnt (mtx_drop mp k) = isr_cnt k"
  by (simp_all add: give_def mtx_drop_def)

lemma mtx_drop_frame [simp]:
  "queues (mtx_drop mp k) = queues k" "currp (mtx_drop mp k) = currp k" "state_of (mtx_drop mp k) t = state_of k t"
  "prio_of (mtx_drop mp k) t = prio_of k t" "rdymsg_of (mtx_drop mp k) t = rdymsg_of k t" "trefs (mtx_drop mp k) = trefs k"
  "sched_inv (mtx_drop mp k) = sched_inv k" "sched_order (mtx_drop mp k) = sched_order k"
  "mtx_owner (mtx_drop mp k) m = (if m = mp then NULL else mtx_owner k m)" "mtx_next (mtx_drop mp k) m = mtx_next k m"
  "t_mtxlist (threads (mtx_drop mp k) t) = (if t = currp k then mtx_next k mp else t_mtxlist (threads k t))"
  "trefs (give mp tp k) = trefs k"
  by (simp_all add: mtx_drop_def mtx_owner_def mtx_next_def give_def upd_mtx_def)

lemma running_mtx [simp]: "running (give mp tp k) = running k" "running (mtx_drop mp k) = running k"
  by (simp_all add: running_def sched_ok_def thread_idle_ctx_def)

lemma lock_free:
  assumes "running k" and "mtx_free mp k"
  shows "chMtxLock mp k = Ok (Returned (), give mp (currp k) k)" and "mtx_top mp (give mp (currp k) k)"
proof -
  let ?k = "k\<lparr>lock_cnt := 1\<rparr>"
  have r: "sched_ok k" "thread_idle_ctx k" "mp \<noteq> NULL" "mtx_owner k mp = NULL" "queues k (TQ mp) = []"
    using assms by (auto simp: running_def mtx_free_def)
  have l: "chSysLock k = Ok ?k" "thd_ctx ?k" using chSysLock_ok [OF r(2)] by simp_all
  have u: "chSysUnlock (give mp (currp k) ?k) = Ok ((give mp (currp k) ?k)\<lparr>lock_cnt := 0\<rparr>)"
    using chSysUnlock_ok [of "give mp (currp k) ?k"] l(2) r(1) by (simp add: sched_ok_def thd_ctx_def)
  have "(give mp (currp k) k)\<lparr>lock_cnt := 0\<rparr> = give mp (currp k) k" using r(2) by (simp add: thread_idle_ctx_def)
  then show "chMtxLock mp k = Ok (Returned (), give mp (currp k) k)"
    using l u r by (simp add: chMtxLock_def locked_wait_def chMtxLockS_def Let_def acquire_give)
  show "mtx_top mp (give mp (currp k) k)" using r by (simp add: mtx_top_def)
qed

lemma unlock_top:
  assumes "running k" and "mtx_top mp k"
  shows "chMtxUnlock mp k = Ok (mtx_drop mp k)" and "mtx_free mp (mtx_drop mp k)"
proof -
  let ?k = "k\<lparr>lock_cnt := 1\<rparr>"
  have r: "sched_ok k" "thread_idle_ctx k" using assms by (auto simp: running_def)
  have t: "mp \<noteq> NULL" "mtx_owner k mp = currp k" "t_mtxlist (threads k (currp k)) = mp" "queues k (TQ mp) = []"
    using assms(2) by (auto simp: mtx_top_def)
  have l: "chSysLock k = Ok ?k" "thd_ctx ?k" using chSysLock_ok [OF r(2)] by simp_all
  have rel: "mtx_release ''chMtxUnlock'' chSchRescheduleS mp ?k = Ok (mtx_drop mp ?k)"
    using t l(2) by (simp add: mtx_release_def chMtxQueueNotEmptyS_def Let_def mtx_drop_def del: mtx_lock_cnt(4))
  have d: "sched_ok (mtx_drop mp ?k)" "thd_ctx (mtx_drop mp ?k)" using r(1) l(2) by (simp_all add: sched_ok_def thd_ctx_def)
  have "locked (mtx_release ''chMtxUnlock'' chSchRescheduleS mp) k = Ok ((mtx_drop mp ?k)\<lparr>lock_cnt := 0\<rparr>)"
    using locked_Ok [OF r(2) _ d] rel by simp
  moreover have "(mtx_drop mp k)\<lparr>lock_cnt := 0\<rparr> = mtx_drop mp k" using r(2) by (simp add: thread_idle_ctx_def)
  ultimately show "chMtxUnlock mp k = Ok (mtx_drop mp k)" using t(1) by (simp add: chMtxUnlock_def)
  show "mtx_free mp (mtx_drop mp k)" using t by (simp add: mtx_free_def)
qed

end
