(* ===== verification/HeapClients.thy ===== *)
theory HeapClients
  imports Heaps Uncontended
begin

text \<open>
  A heap together with the threads that allocate from it. \<open>heap_sys lo hi heapp hs used\<close> is the
  invariant of a heap that manages the pages from \<open>lo\<close> to \<open>hi\<close> while its clients hold the blocks \<open>used\<close>:
  no two of these blocks and the free blocks have a page in common, and, without a provider, together
  they are all the pages. \<open>heap_step\<close> is a step of a client: a request, a block given back, or a write to
  the memory of a block that it holds.
\<close>

section \<open>A heap and its clients\<close>

text \<open>The mutex of the heap is free, and the thread that calls runs outside of critical sections.\<close>

definition heap_ready :: "ptr \<Rightarrow> kernel \<Rightarrow> bool" where
  "heap_ready heapp k \<longleftrightarrow> running k \<and> heap_mtx heapp \<noteq> NULL \<and> mtx_owner k (heap_mtx heapp) = NULL \<and> queues k (TQ (heap_mtx heapp)) = []"

lemma heap_mutex:
  assumes "heap_ready heapp k"
  obtains k1 k2 where "chMtxLock (heap_mtx heapp) k = Ok (Returned (), k1)" and "chMtxUnlock (heap_mtx heapp) k1 = Ok k2"
    and "heap_ready heapp k2" and "currp k1 = currp k" and "currp k2 = currp k"
proof -
  let ?mp = "heap_mtx heapp" let ?k1 = "give ?mp (currp k) k"
  have r: "running k" "mtx_free ?mp k" using assms by (auto simp: heap_ready_def mtx_free_def)
  note l = lock_free [OF r]
  note u = unlock_top [of ?k1 ?mp, OF _ l(2)]
  have "heap_ready heapp (mtx_drop ?mp ?k1)" using u(2) r(1) by (simp add: heap_ready_def mtx_free_def)
  then show ?thesis using that [OF l(1) u(1)] r(1) by simp
qed


text \<open>A block that a client holds: the page of its header, and the size that was requested.\<close>

type_synonym held = "nat \<times> u32"

definition size_pages :: "u32 \<Rightarrow> nat" where "size_pages sz = (unat sz + 7) div 8"

definition block_pages :: "held \<Rightarrow> nat set" where
  "block_pages x = {fst x..fst x + size_pages (snd x)}"

definition held_ok :: "nat \<Rightarrow> nat \<Rightarrow> ptr \<Rightarrow> (ptr \<Rightarrow> u32) \<Rightarrow> nat set \<Rightarrow> held \<Rightarrow> bool" where
  "held_ok lo hi heapp m F x \<longleftrightarrow> snd x > 0 \<and> unat (snd x) \<le> 2 ^ 32 - 8 \<and> block_pages x \<subseteq> {lo..<hi} \<and> block_pages x \<inter> F = {} \<and>
     H_HEAP m (pg (fst x)) = heapp \<and> H_SIZE m (pg (fst x)) = snd x"

definition used_pages :: "held list \<Rightarrow> nat set" where "used_pages used = (\<Union>x\<in>set used. block_pages x)"

definition core_region :: "nat \<Rightarrow> nat \<Rightarrow> memcore \<Rightarrow> nat set \<Rightarrow> bool" where
  "core_region lo hi mc P \<longleftrightarrow> basemem mc \<le> topmem mc \<and> 8 * lo \<le> unat (basemem mc) \<and> unat (topmem mc) \<le> 8 * hi \<and>
     (\<forall>x\<in>P. 8 * x + 8 \<le> unat (basemem mc) \<or> unat (topmem mc) \<le> 8 * x)"

definition heap_sys :: "nat \<Rightarrow> nat \<Rightarrow> ptr \<Rightarrow> heapsys \<Rightarrow> (nat \<times> nat) list \<Rightarrow> held list \<Rightarrow> bool" where
  "heap_sys lo hi heapp hs bs used \<longleftrightarrow> heapp \<noteq> NULL \<and> heap_ready heapp (hk hs) \<and> heap_list lo hi heapp (hmem hs) bs \<and>
     (\<forall>x\<in>set used. held_ok lo hi heapp (hmem hs) (pages_of bs) x) \<and>
     sorted_wrt (\<lambda>x y. block_pages x \<inter> block_pages y = {}) used \<and>
     (case hprov hs heapp of NO_PROVIDER \<Rightarrow> pages_of bs \<union> used_pages used = {lo..<hi}
      | chCoreAllocAlignedWithOffset \<Rightarrow> core_region lo hi (hcore hs) (pages_of bs \<union> used_pages used))"

text \<open>Requests whose size, with the header and the alignment, does not exceed the address space.\<close>

definition heap_request :: "u32 \<Rightarrow> u32 \<Rightarrow> bool" where
  "heap_request sz align \<longleftrightarrow> sz > 0 \<and> MEM_IS_VALID_ALIGNMENT align \<and> 8 * size_pages sz + unat (heap_align align) + 8 \<le> 2 ^ 32"

lemma used_pages_simps [simp]: "used_pages [] = {}" "used_pages (x # used) = block_pages x \<union> used_pages used"
  by (auto simp: used_pages_def)

lemma used_pages_disj: "B \<inter> used_pages used = {} \<longleftrightarrow> (\<forall>x\<in>set used. B \<inter> block_pages x = {})"
  by (auto simp: used_pages_def)

lemma used_pages_remove1:
  assumes "sorted_wrt (\<lambda>x y. block_pages x \<inter> block_pages y = {}) used" and "x \<in> set used"
  shows "used_pages used = block_pages x \<union> used_pages (remove1 x used) \<and> block_pages x \<inter> used_pages (remove1 x used) = {}"
  using assms
proof (induction used)
  case (Cons y used)
  show ?case
  proof (cases "x = y")
    case True
    then show ?thesis using Cons(2) by (simp add: used_pages_disj)
  next
    case False
    then have "block_pages y \<inter> block_pages x = {}" "x \<in> set used" using Cons(2,3) by auto
    then show ?thesis using Cons(1,2) False by auto
  qed
qed simp

lemma size_pages_pos: "sz > 0 \<Longrightarrow> size_pages sz > 0"
  by (simp add: size_pages_def word_less_nat_alt div_greater_zero_iff)

lemma heap_pages_size: "unat sz \<le> 2 ^ 32 - 8 \<Longrightarrow> heap_pages sz = of_nat (size_pages sz)"
  unfolding size_pages_def using heap_pages_eq(1) [of sz] by (metis of_nat_unat ucast_id)

lemma requestD:
  assumes "heap_request sz align"
  shows "sz > 0" "MEM_IS_VALID_ALIGNMENT align" "unat sz \<le> 2 ^ 32 - 8" "0 < size_pages sz" "size_pages sz < 2 ^ 29"
proof -
  have a: "sz > 0" "MEM_IS_VALID_ALIGNMENT align" "8 * size_pages sz + unat (heap_align align) + 8 \<le> 2 ^ 32" using assms by (simp_all add: heap_request_def)
  have "unat sz \<le> 8 * size_pages sz" by (simp add: size_pages_def)
  then show "sz > 0" "MEM_IS_VALID_ALIGNMENT align" "unat sz \<le> 2 ^ 32 - 8" "0 < size_pages sz" "size_pages sz < 2 ^ 29"
    using a size_pages_pos by auto
qed

text \<open>The headers of the blocks in use are not among the words that an operation on the free list writes.\<close>

lemma held_frame:
  assumes "held_ok lo hi heapp m F x" and "heap_outside lo hi heapp" and "G \<subseteq> {lo..<hi}" and "block_pages x \<inter> G = {}" and "block_pages x \<inter> F' = {}"
    and "\<And>w. w \<noteq> heap_header heapp \<Longrightarrow> w \<notin> words G \<Longrightarrow> m' w = m w"
  shows "held_ok lo hi heapp m' F' x"
proof -
  have b: "fst x \<in> block_pages x" by (simp add: block_pages_def)
  have hi: "hi \<le> 2 ^ 28" using assms(2) by (simp add: heap_outside_def)
  have l: "lo \<le> fst x" "fst x < hi" "fst x \<notin> G" "fst x < 2 ^ 29" using b assms(1,4) hi by (auto simp: held_ok_def)
  have "G \<subseteq> {..<2 ^ 29}" using assms(3) hi by auto
  then have "pg (fst x) \<notin> words G" "pg (fst x) + 4 \<notin> words G" using words_mem [of G "fst x"] l by auto
  moreover have "pg (fst x) \<noteq> heap_header heapp" "pg (fst x) + 4 \<noteq> heap_header heapp"
    using heap_fields(1) [OF assms(2)] words_iff [of hi "fst x" lo] l hi by auto
  ultimately show ?thesis using assms(1,5,6) by (simp add: held_ok_def H_HEAP_def H_SIZE_def)
qed

section \<open>Requests\<close>

text \<open>The provider of the default heap: a block from the top of the core memory.\<close>

lemma core_top_api:
  assumes "running k"
  shows "chCoreAllocFromTop sz align offset mc k = kbind (chCoreAllocFromTopI sz align offset mc (k\<lparr>lock_cnt := 1\<rparr>)) (\<lambda>(p, mc). Ok (p, mc, k))"
proof -
  have "chSysLock k = Ok (k\<lparr>lock_cnt := 1\<rparr>)" "thd_ctx (k\<lparr>lock_cnt := 1\<rparr>)" "k\<lparr>lock_cnt := 0\<rparr> = k"
    using assms chSysLock_ok [of k] by (auto simp: running_def thread_idle_ctx_def)
  moreover from this have "chSysUnlock (k\<lparr>lock_cnt := 1\<rparr>) = Ok k"
    using assms chSysUnlock_ok [of "k\<lparr>lock_cnt := 1\<rparr>"] by (simp add: running_def sched_ok_def)
  ultimately show ?thesis by (simp add: chCoreAllocFromTop_def)
qed

lemma core_provides:
  assumes c: "core_region lo hi mc P" and r: "heap_request sz align" and al: "page_align (heap_align align) al" and k: "i_ctx k" and lo: "lo > 0" "hi \<le> 2 ^ 28"
  shows "chCoreAllocFromTopI (heap_pages sz * CH_HEAP_ALIGNMENT) (heap_align align) 8 mc k = Ok (NULL, mc) \<or>
    (\<exists>b mc'. chCoreAllocFromTopI (heap_pages sz * CH_HEAP_ALIGNMENT) (heap_align align) 8 mc k = Ok (pg (b + 1), mc') \<and> al dvd b + 1 \<and>
       {b..b + size_pages sz} \<subseteq> {lo..<hi} \<and> {b..b + size_pages sz} \<inter> P = {} \<and> core_region lo hi mc' (P \<union> {b..b + size_pages sz}))"
proof -
  let ?S = "heap_pages sz * CH_HEAP_ALIGNMENT" let ?T = "unat (topmem mc)" let ?np = "size_pages sz"
  have S: "unat ?S = 8 * ?np" using heap_pages_eq(2) [OF requestD(3) [OF r]] by (simp add: CH_HEAP_ALIGNMENT_def size_pages_def)
  have A: "MEM_IS_VALID_ALIGNMENT (heap_align align)" "unat (heap_align align) = 8 * al" "al > 0" using al by (simp_all add: page_align_def)
  have req: "core_request ?S (heap_align align) 8" using r S A(1) by (simp add: core_request_def heap_request_def)
  have cr: "basemem mc \<le> topmem mc" "8 * lo \<le> unat (basemem mc)" "?T \<le> 8 * hi" "\<forall>x\<in>P. 8 * x + 8 \<le> unat (basemem mc) \<or> ?T \<le> 8 * x"
    using c by (simp_all add: core_region_def)
  define q where "q = (?T - 8 * ?np) div (8 * al) * (8 * al)"
  note t = core_top_ok [OF req cr(1) k, unfolded S A(2), folded q_def]
  show ?thesis
  proof (cases "unat (basemem mc) + unat (8 :: u32) \<le> q \<and> 8 * ?np \<le> ?T")
    case False
    then show ?thesis using t(2) by blast
  next
    case True
    then obtain p where p: "chCoreAllocFromTopI ?S (heap_align align) 8 mc k = Ok (p, mc\<lparr>topmem := p - 8\<rparr>)" "unat p = q" "unat (p - 8) = q - 8"
      using t(1) by auto
    define c where "c = (?T - 8 * ?np) div (8 * al) * al"
    define b where "b = c - 1"
    have "q = 8 * c" by (simp add: q_def c_def)
    then have c0: "c = b + 1" and qb: "q = 8 * (b + 1)" using True by (auto simp: b_def)
    have dv: "al dvd b + 1" unfolding c0 [symmetric] by (simp add: c_def)
    have "q \<le> ?T - 8 * ?np" unfolding q_def by (rule div_times_less_eq_dividend)
    then have le: "q + 8 * ?np \<le> ?T" using True by linarith
    have B: "lo \<le> b" "b + ?np < hi" using qb le True cr(2,3) by simp_all
    have pe: "p = pg (b + 1)" using p(2) qb B lo(2) unat_pg [of "b + 1"] by (simp add: word_unat_eq_iff)
    have nb: "8 * y < unat (basemem mc) \<Longrightarrow> False" "?T \<le> 8 * y \<Longrightarrow> False" if "y \<in> {b..b + ?np}" for y using that qb True le by auto
    then have disj: "{b..b + ?np} \<inter> P = {}" using cr(4) by (fastforce simp: disjoint_iff)
    have "unat (topmem (mc\<lparr>topmem := p - 8\<rparr>)) = 8 * b" using p(3) qb by simp
    moreover from this have "8 * b \<le> ?T" "unat (basemem mc) \<le> 8 * b" using qb le True by auto
    ultimately have "core_region lo hi (mc\<lparr>topmem := p - 8\<rparr>) (P \<union> {b..b + ?np})"
      using cr B by (auto simp: core_region_def word_le_nat_alt)
    then show ?thesis using p(1) pe dv B disj by auto
  qed
qed

text \<open>A request to a heap that is not in use by another thread.\<close>

lemma heap_sysD:
  assumes "heap_sys lo hi heapp hs bs used"
  shows "heapp \<noteq> NULL" "heap_ready heapp (hk hs)" "heap_list lo hi heapp (hmem hs) bs" "heap_outside lo hi heapp" "sep lo hi bs"
    "\<And>x. x \<in> set used \<Longrightarrow> held_ok lo hi heapp (hmem hs) (pages_of bs) x"
    "sorted_wrt (\<lambda>x y. block_pages x \<inter> block_pages y = {}) used"
    "lo > 0" "hi \<le> 2 ^ 28" "pages_of bs \<subseteq> {lo..<hi}"
  using assms sep_pages [of lo hi bs] by (auto simp: heap_sys_def heap_list_def heap_outside_def)

lemma heap_used:
  assumes "heap_sys lo hi heapp hs bs used"
  shows "used_pages used \<subseteq> {lo..<hi}" and "pages_of bs \<inter> used_pages used = {}"
proof -
  show "used_pages used \<subseteq> {lo..<hi}" unfolding used_pages_def using heap_sysD(6) [OF assms] by (intro UN_least) (simp add: held_ok_def)
  show "pages_of bs \<inter> used_pages used = {}" unfolding used_pages_disj using heap_sysD(6) [OF assms] by (simp add: held_ok_def Int_commute)
qed

lemma words_disj:
  assumes "X \<subseteq> {..<2 ^ 29}" and "Y \<subseteq> {..<2 ^ 29}" and "X \<inter> Y = {}" and "w \<in> words X"
  shows "w \<notin> words Y"
proof -
  obtain x where x: "x \<in> X" "w = pg x \<or> w = pg x + 4" using assms(4) by (auto simp: words_def)
  then have "x < 2 ^ 29" "x \<notin> Y" using assms(1,3) by auto
  then show ?thesis using x(2) words_mem [OF assms(2), of x] by auto
qed

lemma pages_low: "X \<subseteq> {lo..<hi} \<Longrightarrow> hi \<le> 2 ^ 28 \<Longrightarrow> X \<subseteq> {..<2 ^ 29}" for X :: "nat set"
  by auto

lemma heap_list_frame:
  assumes "heap_list lo hi heapp m bs" and "Y \<subseteq> {lo..<hi}" and "Y \<inter> pages_of bs = {}" and "\<And>w. w \<notin> words Y \<Longrightarrow> m' w = m w"
  shows "heap_list lo hi heapp m' bs"
proof -
  have o: "heap_outside lo hi heapp" "hi \<le> 2 ^ 28" and ch: "free_chain m (heap_header heapp) bs" and sp: "sep lo hi bs"
    using assms(1) by (simp_all add: heap_list_def heap_outside_def)
  have h: "m' (heap_header heapp) = m (heap_header heapp)" "m' (heap_header heapp + 4) = m (heap_header heapp + 4)"
    using assms(4) heap_fields(1,2) [OF o(1)] words_mono [OF assms(2)] by blast+
  have "pages_of bs \<inter> Y = {}" using assms(3) by (simp add: Int_commute)
  from words_disj [OF pages_low [OF sep_pages [OF sp] o(2)] pages_low [OF assms(2) o(2)] this]
  have "m' w = m w" if "w \<in> words (fst ` set bs)" for w
    using that words_mono [OF fst_pages [of bs]] by (intro assms(4)) auto
  then have "free_chain m' (heap_header heapp) bs" using free_chain_cong [of m "heap_header heapp" bs m' "heap_header heapp"] ch h(1) by blast
  then show ?thesis using assms(1) h(2) by (simp add: heap_list_def H_PAGES_def)
qed

lemma new_block:
  assumes "{b..b + size_pages sz} \<inter> used_pages used = {}" and "sorted_wrt (\<lambda>x y. block_pages x \<inter> block_pages y = {}) used"
  shows "sorted_wrt (\<lambda>x y. block_pages x \<inter> block_pages y = {}) ((b, sz) # used)"
  using assms by (simp add: used_pages_disj) (simp add: block_pages_def)

lemma heap_alloc_fit:
  assumes sys: "heap_sys lo hi heapp hs bs used" and r: "heap_request sz align" and al: "page_align (heap_align align) al"
    and fit: "alloc_blocks al (size_pages sz) bs = Some (b, bs')"
  shows "\<exists>hs'. chHeapAllocAligned dheap heapp sz align hs = Ok (Returned (pg (b + 1)), hs') \<and>
    heap_sys lo hi heapp hs' bs' ((b, sz) # used) \<and> hprov hs' = hprov hs \<and> (\<forall>w\<in>words (used_pages used). hmem hs' w = hmem hs w)"
proof -
  note D = heap_sysD [OF sys] and R = requestD [OF r]
  obtain k1 k2 where k: "chMtxLock (heap_mtx heapp) (hk hs) = Ok (Returned (), k1)" "chMtxUnlock (heap_mtx heapp) k1 = Ok k2" "heap_ready heapp k2"
    using heap_mutex [OF D(2)] by blast
  have hp: "heap_pages sz = of_nat (size_pages sz)" by (rule heap_pages_size [OF R(3)])
  note A = alloc_blocks_ok [OF fit D(5) _ R(4)]
  have al0: "al > 0" using al by (simp add: page_align_def)
  obtain m' where m': "heap_search max_turns heapp sz (of_nat (size_pages sz)) (heap_align align) (heap_header heapp) (hmem hs) = Ok (pg (b + 1), m')"
      "heap_list lo hi heapp m' bs'" "H_HEAP m' (pg b) = heapp" "H_SIZE m' (pg b) = sz"
      "\<And>w. w \<noteq> heap_header heapp \<Longrightarrow> w \<notin> words (pages_of bs) \<Longrightarrow> m' w = hmem hs w"
    using heap_search_list(2) [OF D(3) al R(4,5) fit] by blast
  let ?B = "{b..b + size_pages sz}" let ?hs = "hs\<lparr>hmem := m', hk := k2\<rparr>"
  have pg: "?B \<union> pages_of bs' = pages_of bs" "?B \<inter> pages_of bs' = {}" "?B \<subseteq> pages_of bs" "pages_of bs' \<subseteq> pages_of bs" using A al0 by auto
  have "b \<in> {lo..<hi}" using subsetD [OF D(10) subsetD [OF pg(3), of b]] by simp
  then have "b + 1 < 2 ^ 29" using D(9) by simp
  then have nn: "pg (b + 1) \<noteq> NULL" using pg_NULL [of "b + 1"] by simp
  have held: "held_ok lo hi heapp m' (pages_of bs') x" if "x \<in> set used" for x
  proof (rule held_frame [OF D(6) [OF that] D(4,10) _ _ m'(5)])
    show "block_pages x \<inter> pages_of bs = {}" "block_pages x \<inter> pages_of bs' = {}" using D(6) [OF that] pg(4) by (auto simp: held_ok_def)
  qed
  have new: "held_ok lo hi heapp m' (pages_of bs') (b, sz)"
    using R(1,3) pg D(10) m'(3,4) by (auto simp: held_ok_def block_pages_def)
  note up = heap_used(1) [OF sys] and ud = heap_used(2) [OF sys]
  have so: "sorted_wrt (\<lambda>x y. block_pages x \<inter> block_pages y = {}) ((b, sz) # used)" using ud pg(3) D(7) by (intro new_block) auto
  have all: "pages_of bs' \<union> used_pages ((b, sz) # used) = pages_of bs \<union> used_pages used" using pg by (auto simp: block_pages_def)
  have sys': "heap_sys lo hi heapp ?hs bs' ((b, sz) # used)"
    using sys k(3) m'(2) held new so unfolding heap_sys_def all by (simp split: memgetfunc2.splits)
  have data: "m' w = hmem hs w" if "w \<in> words (used_pages used)" for w
  proof (rule m'(5))
    show "w \<noteq> heap_header heapp" using that words_mono [OF up] heap_fields(1) [OF D(4)] by auto
    show "w \<notin> words (pages_of bs)"
      using words_disj [OF pages_low [OF up D(9)] pages_low [OF D(10,9)] _ that] ud by (simp add: Int_commute)
  qed
  have "chHeapAllocAligned dheap heapp sz align hs = Ok (Returned (pg (b + 1)), ?hs)"
    using k m'(1) nn D(1) R(1,2) by (simp add: chHeapAllocAligned_def heap_alloc_locked_def hp)
  then show ?thesis using sys' data by auto
qed

text \<open>When no free block fits, the request goes to the provider, if there is one.\<close>

lemma heap_alloc_nofit:
  assumes sys: "heap_sys lo hi heapp hs bs used" and r: "heap_request sz align" and al: "page_align (heap_align align) al"
    and fit: "alloc_blocks al (size_pages sz) bs = None"
  shows "(\<exists>hs'. chHeapAllocAligned dheap heapp sz align hs = Ok (Returned NULL, hs') \<and> heap_sys lo hi heapp hs' bs used \<and>
      hprov hs' = hprov hs \<and> hmem hs' = hmem hs \<and> (hprov hs heapp \<noteq> NO_PROVIDER \<longrightarrow>
        (\<exists>k. i_ctx k \<and> chCoreAllocFromTopI (heap_pages sz * CH_HEAP_ALIGNMENT) (heap_align align) 8 (hcore hs) k = Ok (NULL, hcore hs)))) \<or>
    (\<exists>b hs'. chHeapAllocAligned dheap heapp sz align hs = Ok (Returned (pg (b + 1)), hs') \<and> heap_sys lo hi heapp hs' bs ((b, sz) # used) \<and>
      al dvd b + 1 \<and> hprov hs heapp \<noteq> NO_PROVIDER \<and> hprov hs' = hprov hs \<and> (\<forall>w\<in>words (used_pages used). hmem hs' w = hmem hs w))"
proof -
  note D = heap_sysD [OF sys] and R = requestD [OF r]
  obtain k1 k2 where k: "chMtxLock (heap_mtx heapp) (hk hs) = Ok (Returned (), k1)" "chMtxUnlock (heap_mtx heapp) k1 = Ok k2" "heap_ready heapp k2"
      "currp k1 = currp (hk hs)" "currp k2 = currp (hk hs)"
    using heap_mutex [OF D(2)] by blast
  have hp: "heap_pages sz = of_nat (size_pages sz)" by (rule heap_pages_size [OF R(3)])
  let ?hs = "hs\<lparr>hmem := hmem hs, hk := k2\<rparr>"
  have s: "chHeapAllocAligned dheap heapp sz align hs = kbind (heap_provide heapp sz align ?hs) (\<lambda>(p, hs). Ok (Returned p, hs))"
    using k heap_search_list(1) [OF D(3) al R(4,5) fit] D(1) R(1,2) by (simp add: chHeapAllocAligned_def heap_alloc_locked_def hp)
  show ?thesis
  proof (cases "hprov hs heapp")
    case NO_PROVIDER
    then have "chHeapAllocAligned dheap heapp sz align hs = Ok (Returned NULL, ?hs)" using s by (simp add: heap_provide_def)
    moreover have "heap_sys lo hi heapp ?hs bs used" using sys k(3) by (simp add: heap_sys_def split: memgetfunc2.splits)
    ultimately show ?thesis using NO_PROVIDER by auto
  next
    case chCoreAllocAlignedWithOffset
    then have c: "core_region lo hi (hcore hs) (pages_of bs \<union> used_pages used)" using sys by (simp add: heap_sys_def)
    have run: "running k2" using k(3) by (simp add: heap_ready_def)
    have p: "heap_provide heapp sz align ?hs = kbind (chCoreAllocFromTopI (heap_pages sz * CH_HEAP_ALIGNMENT) (heap_align align) 8 (hcore hs) (k2\<lparr>lock_cnt := 1\<rparr>))
        (\<lambda>(p, mc). if p \<noteq> NULL then Ok (p, ?hs\<lparr>hcore := mc, hk := k2, hmem := (hmem hs)(p - 8 := heapp, p - 8 + 4 := sz)\<rparr>)
           else Ok (NULL, ?hs\<lparr>hcore := mc, hk := k2\<rparr>))"
      unfolding heap_provide_def using chCoreAllocAlignedWithOffset core_top_api [OF run]
      by (simp add: kbind_assoc Let_def split_def cong: if_cong)
    from core_provides [OF c r al _ D(8,9), of "k2\<lparr>lock_cnt := 1\<rparr>"] run
    consider (none) "chCoreAllocFromTopI (heap_pages sz * CH_HEAP_ALIGNMENT) (heap_align align) 8 (hcore hs) (k2\<lparr>lock_cnt := 1\<rparr>) = Ok (NULL, hcore hs)"
      | (some) b mc' where "chCoreAllocFromTopI (heap_pages sz * CH_HEAP_ALIGNMENT) (heap_align align) 8 (hcore hs) (k2\<lparr>lock_cnt := 1\<rparr>) = Ok (pg (b + 1), mc')"
        "al dvd b + 1" "{b..b + size_pages sz} \<subseteq> {lo..<hi}" "{b..b + size_pages sz} \<inter> (pages_of bs \<union> used_pages used) = {}"
        "core_region lo hi mc' (pages_of bs \<union> used_pages used \<union> {b..b + size_pages sz})"
      by auto
    then show ?thesis
    proof cases
      case none
      then have "chHeapAllocAligned dheap heapp sz align hs = Ok (Returned NULL, ?hs\<lparr>hcore := hcore hs, hk := k2\<rparr>)" using s p by simp
      moreover have "heap_sys lo hi heapp (?hs\<lparr>hcore := hcore hs, hk := k2\<rparr>) bs used" using sys k(3) by (simp add: heap_sys_def split: memgetfunc2.splits)
      moreover have "i_ctx (k2\<lparr>lock_cnt := 1\<rparr>)" using run by simp
      ultimately show ?thesis using none by auto
    next
      case some
      let ?B = "{b..b + size_pages sz}" let ?m = "(hmem hs)(pg b := heapp, pg b + 4 := sz)"
      let ?h = "?hs\<lparr>hcore := mc', hk := k2, hmem := ?m\<rparr>"
      have bl: "b \<in> {lo..<hi}" using subsetD [OF some(3), of b] by simp
      then have b: "b < 2 ^ 29" "b + 1 < 2 ^ 29" using D(9) by auto
      then have "pg (b + 1) \<noteq> NULL" "pg (b + 1) - 8 = pg b" using pg_NULL [of "b + 1"] pg_add(3) [of "b + 1"] by simp_all
      then have ret: "chHeapAllocAligned dheap heapp sz align hs = Ok (Returned (pg (b + 1)), ?h)" using s p some(1) by simp
      note up = heap_used(1) [OF sys]
      have fr: "?m w = hmem hs w" if "w \<noteq> heap_header heapp" "w \<notin> words {b}" for w using that by simp
      have ch: "heap_list lo hi heapp ?m bs"
        using D(3)
      proof (rule heap_list_frame)
        show "{b} \<subseteq> {lo..<hi}" "{b} \<inter> pages_of bs = {}" using bl some(4) by (auto simp: disjoint_iff)
      qed simp
      have held: "held_ok lo hi heapp ?m (pages_of bs) x" if "x \<in> set used" for x
      proof (rule held_frame [OF D(6) [OF that] D(4) _ _ _ fr])
        show "{b} \<subseteq> {lo..<hi}" using bl by simp
        have "b \<notin> used_pages used" using some(4) by (auto simp: disjoint_iff)
        then show "block_pages x \<inter> {b} = {}" using that by (auto simp: used_pages_def)
        show "block_pages x \<inter> pages_of bs = {}" using D(6) [OF that] by (simp add: held_ok_def)
      qed
      have new: "held_ok lo hi heapp ?m (pages_of bs) (b, sz)"
        using R(1,3) some(3,4) by (auto simp: held_ok_def block_pages_def H_HEAP_def H_SIZE_def)
      have so: "sorted_wrt (\<lambda>x y. block_pages x \<inter> block_pages y = {}) ((b, sz) # used)" using some(4) D(7) by (intro new_block) auto
      have all: "pages_of bs \<union> used_pages ((b, sz) # used) = pages_of bs \<union> used_pages used \<union> {b..b + size_pages sz}" by (auto simp: block_pages_def)
      have "heap_sys lo hi heapp ?h bs ((b, sz) # used)"
        using D(1) k(3) ch held new so some(5) chCoreAllocAlignedWithOffset unfolding heap_sys_def all by simp
      moreover have "?m w = hmem hs w" if "w \<in> words (used_pages used)" for w
      proof -
        have "b \<notin> used_pages used" "used_pages used \<subseteq> {..<2 ^ 29}" using some(4) up D(9) by (auto simp: disjoint_iff subset_iff)
        then have "w \<noteq> pg b" "w \<noteq> pg b + 4" using that words_mem [of "used_pages used" b] b by auto
        then show ?thesis by simp
      qed
      ultimately show ?thesis using ret some(2) chCoreAllocAlignedWithOffset by auto
    qed
  qed
qed

section \<open>Giving a block back\<close>

lemma heap_free_sys:
  assumes sys: "heap_sys lo hi heapp hs bs used" and x: "(b, sz) \<in> set used"
  shows "\<exists>hs' bs'. chHeapFree (pg (b + 1)) hs = Ok (Returned (), hs') \<and> heap_sys lo hi heapp hs' bs' (remove1 (b, sz) used) \<and>
    pages_of bs' = pages_of bs \<union> block_pages (b, sz) \<and> hprov hs' = hprov hs \<and>
    (\<forall>w\<in>words (used_pages (remove1 (b, sz) used)). hmem hs' w = hmem hs w)"
proof -
  note D = heap_sysD [OF sys]
  have h: "sz > 0" "unat sz \<le> 2 ^ 32 - 8" "block_pages (b, sz) \<subseteq> {lo..<hi}" "block_pages (b, sz) \<inter> pages_of bs = {}"
    "hmem hs (pg b) = heapp" "hmem hs (pg b + 4) = sz" using D(6) [OF x] by (simp_all add: held_ok_def H_HEAP_def H_SIZE_def)
  let ?np = "size_pages sz" let ?B = "{b..b + ?np}" let ?m = "(hmem hs)(pg b + 4 := of_nat ?np)"
  let ?used = "remove1 (b, sz) used"
  have B: "block_pages (b, sz) = ?B" by (simp add: block_pages_def)
  have bl: "lo \<le> b" "b + ?np < hi" "b < 2 ^ 29" "b + 1 < 2 ^ 29" using subsetD [OF h(3), of b] subsetD [OF h(3), of "b + ?np"] D(9) by (auto simp: B)
  have nn: "pg (b + 1) \<noteq> NULL" "pg (b + 1) - 8 = pg b" using pg_NULL [of "b + 1"] pg_add(3) [of "b + 1"] bl(4) by simp_all
  have ua: "unat (pg (b + 1)) = 8 * (b + 1)" using unat_pg bl(4) .
  have ali: "MEM_IS_ALIGNED (pg (b + 1)) CH_HEAP_ALIGNMENT"
    using is_aligned_iff [of 8 "pg (b + 1)"] ua by (simp add: CH_HEAP_ALIGNMENT_def MEM_IS_VALID_ALIGNMENT_def)
  obtain k1 k2 where k: "chMtxLock (heap_mtx heapp) (hk hs) = Ok (Returned (), k1)" "chMtxUnlock (heap_mtx heapp) k1 = Ok k2" "heap_ready heapp k2"
    using heap_mutex [OF D(2)] by blast
  have "heap_list lo hi heapp ?m bs"
    using D(3)
  proof (rule heap_list_frame)
    show "{b} \<subseteq> {lo..<hi}" "{b} \<inter> pages_of bs = {}" using bl h(4) B by (auto simp: disjoint_iff)
  qed simp
  from heap_free_list [OF this bl(1,2)] h(4)
  obtain m' bs' where m': "heap_free_loop max_turns heapp (pg b) (heap_header heapp) ?m = Ok m'" "heap_list lo hi heapp m' bs'" "pages_of bs' = pages_of bs \<union> ?B"
      "\<And>w. w \<noteq> heap_header heapp \<Longrightarrow> w \<notin> words (pages_of bs \<union> ?B) \<Longrightarrow> m' w = ?m w" unfolding B by auto
  have fr: "m' w = hmem hs w" if "w \<noteq> heap_header heapp" "w \<notin> words (pages_of bs \<union> ?B)" for w
  proof -
    have "pg b + 4 \<in> words (pages_of bs \<union> ?B)" by (auto simp: words_def)
    then have "w \<noteq> pg b + 4" using that(2) by blast
    then show ?thesis using m'(4) [OF that] by simp
  qed
  let ?hs = "hs\<lparr>hmem := m', hk := k2\<rparr>"
  have "chHeapFree (pg (b + 1)) hs = Ok (Returned (), ?hs)"
    using k m'(1) nn ali h(5,6) heap_pages_size [OF h(2)] by (simp add: chHeapFree_def heap_free_locked_def H_HEAP_def H_SIZE_def Let_def)
  moreover note rm = used_pages_remove1 [OF D(7) x, unfolded B]
  note up = heap_used(1) [OF sys] and ud = heap_used(2) [OF sys]
  have ud': "(pages_of bs \<union> ?B) \<inter> used_pages ?used = {}" using ud rm by blast
  have held: "held_ok lo hi heapp m' (pages_of bs') y" if "y \<in> set ?used" for y
  proof (rule held_frame [OF D(6) D(4) _ _ _ fr])
    show "y \<in> set used" using that set_remove1_subset [of "(b, sz)" used] by auto
    show "pages_of bs \<union> ?B \<subseteq> {lo..<hi}" using D(10) h(3) B by auto
    have "block_pages y \<subseteq> used_pages ?used" using that by (auto simp: used_pages_def)
    then show "block_pages y \<inter> (pages_of bs \<union> ?B) = {}" "block_pages y \<inter> pages_of bs' = {}" using ud' m'(3) by auto
  qed
  have all: "pages_of bs' \<union> used_pages ?used = pages_of bs \<union> used_pages used" using m'(3) rm by auto
  have "heap_sys lo hi heapp ?hs bs' ?used"
    using sys k(3) m'(2) held sorted_wrt_remove1 [OF D(7)] unfolding heap_sys_def all by (simp split: memgetfunc2.splits)
  moreover have "m' w = hmem hs w" if w: "w \<in> words (used_pages ?used)" for w
  proof (rule fr)
    have ul: "used_pages ?used \<subseteq> {lo..<hi}" using up rm by auto
    show "w \<noteq> heap_header heapp" using w words_mono [OF ul] heap_fields(1) [OF D(4)] by auto
    show "w \<notin> words (pages_of bs \<union> ?B)"
      using words_disj [OF pages_low [OF ul D(9)] pages_low [OF _ D(9)] _ w, of "pages_of bs \<union> ?B"] ud' D(10) h(3) B by (simp add: Int_commute)
  qed
  ultimately show ?thesis using m'(3) B by auto
qed

section \<open>Initialisation\<close>

text \<open>The pages of a buffer: from the first aligned address to the last whole page.\<close>

definition heap_lo :: "ptr \<Rightarrow> nat" where "heap_lo buf = (unat buf + 7) div 8"

definition heap_hi :: "ptr \<Rightarrow> u32 \<Rightarrow> nat" where "heap_hi buf sz = (unat buf + unat sz) div 8"

definition heap_area :: "ptr \<Rightarrow> ptr \<Rightarrow> u32 \<Rightarrow> bool" where
  "heap_area heapp buf sz \<longleftrightarrow> heapp \<noteq> NULL \<and> unat buf + unat sz \<le> 2 ^ 31 \<and> heap_lo buf < heap_hi buf sz \<and>
     heap_outside (heap_lo buf) (heap_hi buf sz) heapp"

lemma mtx_init_ready:
  assumes "running k" and "heap_mtx heapp \<noteq> NULL" and "queues k (TQ (heap_mtx heapp)) = []"
  shows "\<exists>k'. chMtxObjectInit (heap_mtx heapp) k = Ok k' \<and> heap_ready heapp k'"
proof -
  let ?mp = "heap_mtx heapp"
  let ?k = "upd_mtx ?mp (m_owner_update (\<lambda>_. NULL)) (upd_q (TQ ?mp) (\<lambda>_. []) k)"
  have "upd_q (TQ ?mp) (\<lambda>_. []) k = k" using assms(3) by (simp add: upd_q_def fun_upd_idem)
  then have "running ?k" using assms(1) by (simp add: running_def sched_ok_def thread_idle_ctx_def upd_mtx_def)
  then have "heap_ready heapp ?k" using assms(2) by (simp add: heap_ready_def mtx_owner_def upd_mtx_def)
  then show ?thesis using assms(2) by (simp add: chMtxObjectInit_def)
qed

lemma heap_init_pages:
  assumes "unat buf + unat sz \<le> 2 ^ 31" and "heap_lo buf < heap_hi buf sz"
  shows "MEM_ALIGN_NEXT buf 8 = pg (heap_lo buf)"
    and "(sz - (pg (heap_lo buf) - buf) - 8) div 8 = of_nat (heap_hi buf sz - heap_lo buf - 1)"
proof -
  let ?l = "heap_lo buf" let ?h = "heap_hi buf sz"
  have v: "MEM_IS_VALID_ALIGNMENT 8" by (simp add: MEM_IS_VALID_ALIGNMENT_def)
  have h: "8 * ?h \<le> unat buf + unat sz" "unat buf + unat sz < 8 * ?h + 8" "unat buf \<le> 8 * ?l" "8 * ?l \<le> unat buf + 7" by (auto simp: heap_hi_def heap_lo_def)
  then have l: "?l < 2 ^ 29" "?h < 2 ^ 29" using assms by auto
  have "unat (MEM_ALIGN_NEXT buf 8) = 8 * ?l mod 2 ^ 32" using align_next [OF v, of buf] by (simp add: heap_lo_def mult.commute)
  also have "\<dots> = unat (pg ?l)" using l(1) unat_pg [OF l(1)] by simp
  finally show "MEM_ALIGN_NEXT buf 8 = pg ?l" by (simp add: word_unat_eq_iff)
  have "unat (pg ?l - buf) = 8 * ?l - unat buf" using unat_pg [OF l(1)] h(3) by (simp add: unat_sub word_le_nat_alt)
  moreover from this have "unat (sz - (pg ?l - buf)) = unat sz - (8 * ?l - unat buf)" using h assms(2) by (simp add: unat_sub word_le_nat_alt)
  moreover from this have "unat (sz - (pg ?l - buf) - 8) = unat sz - (8 * ?l - unat buf) - 8" using h assms(2) by (subst unat_sub) (simp_all add: word_le_nat_alt)
  ultimately have "unat ((sz - (pg ?l - buf) - 8) div 8) = (unat sz - (8 * ?l - unat buf) - 8) div 8" by (simp add: unat_div)
  also have "\<dots> = ?h - ?l - 1" using h assms(2) by (intro div_nat_eqI) auto
  also have "\<dots> = unat (of_nat (?h - ?l - 1) :: u32)" using l(2) by (simp add: unat_of_nat)
  finally show "(sz - (pg ?l - buf) - 8) div 8 = of_nat (?h - ?l - 1)" by (simp add: word_unat_eq_iff)
qed

lemma heap_object_init:
  assumes ar: "heap_area heapp buf sz" and k: "running (hk hs)" "queues (hk hs) (TQ (heap_mtx heapp)) = []"
  shows "\<exists>hs'. chHeapObjectInit heapp buf sz hs = Ok hs' \<and> hprov hs' heapp = NO_PROVIDER \<and>
    heap_sys (heap_lo buf) (heap_hi buf sz) heapp hs' [(heap_lo buf, heap_hi buf sz - heap_lo buf - 1)] []"
proof -
  let ?l = "heap_lo buf" let ?h = "heap_hi buf sz" let ?n = "?h - ?l - 1" let ?q = "heap_header heapp"
  have a: "heapp \<noteq> NULL" "unat buf + unat sz \<le> 2 ^ 31" "?l < ?h" "heap_outside ?l ?h heapp" using ar by (simp_all add: heap_area_def)
  have "unat sz \<noteq> 0" using a(3) by (auto simp: heap_lo_def heap_hi_def)
  then have sz: "sz > 0" by (simp add: word_less_nat_alt)
  have hi: "?h \<le> 2 ^ 28" "0 < ?l" "unat heapp + 28 < 2 ^ 32" using a(4) by (simp_all add: heap_outside_def)
  note i = heap_init_pages [OF a(2,3)]
  have "unat (heap_mtx heapp) = unat heapp + 12" using unat_field [of heapp 12] hi(3) by (simp add: heap_mtx_def)
  then have "heap_mtx heapp \<noteq> NULL" by auto
  then obtain k' where k': "chMtxObjectInit (heap_mtx heapp) (hk hs) = Ok k'" "heap_ready heapp k'" using mtx_init_ready k by blast
  let ?m = "(hmem hs)(?q := pg ?l, ?q + 4 := 0, pg ?l := NULL, pg ?l + 4 := of_nat ?n)"
  let ?hs = "hs\<lparr>hprov := (hprov hs)(heapp := NO_PROVIDER), hmem := ?m, hk := k'\<rparr>"
  have "chHeapObjectInit heapp buf sz hs = Ok ?hs"
    using i k'(1) a(1) sz by (simp add: chHeapObjectInit_def CH_HEAP_ALIGNMENT_def Let_def)
  moreover have "heap_list ?l ?h heapp ?m [(?l, ?n)]"
  proof -
    have "?q \<noteq> pg ?l" "?q \<noteq> pg ?l + 4" "?q + 4 \<noteq> pg ?l" "?q + 4 \<noteq> pg ?l + 4"
      using heap_fields(1,2) [OF a(4)] words_iff [of ?h ?l ?l] a(3) hi(1) by auto
    then show ?thesis using a(3,4) by (simp add: heap_list_def H_PAGES_def)
  qed
  moreover have "{?l..?l + ?n} = {?l..<?h}" using a(3) by auto
  ultimately show ?thesis using a(1) k'(2) by (intro exI [of _ ?hs]) (simp add: heap_sys_def)
qed

lemma heap_default_init:
  assumes o: "heap_outside lo hi dheap" "dheap \<noteq> NULL" and k: "running (hk hs)" "queues (hk hs) (TQ (heap_mtx dheap)) = []"
    and c: "hcore hs = core_init heap_base heap_end" "heap_base \<le> heap_end" "8 * lo \<le> unat heap_base" "unat heap_end \<le> 8 * hi"
  shows "\<exists>hs'. heap_init dheap hs = Ok hs' \<and> heap_sys lo hi dheap hs' [] []"
proof -
  have "unat (heap_mtx dheap) = unat dheap + 12" using unat_field [of dheap 12] o by (simp add: heap_mtx_def heap_outside_def)
  then have "heap_mtx dheap \<noteq> NULL" by auto
  then obtain k' where k': "chMtxObjectInit (heap_mtx dheap) (hk hs) = Ok k'" "heap_ready dheap k'" using mtx_init_ready k by blast
  then show ?thesis using o c by (simp add: heap_init_def heap_sys_def heap_list_def H_PAGES_def core_region_def core_init_def Let_def)
qed

section \<open>Steps of the clients\<close>

inductive heap_step :: "ptr \<Rightarrow> ptr \<Rightarrow> heapsys \<times> held list \<Rightarrow> heapsys \<times> held list \<Rightarrow> bool" for dheap heapp where
  refused: "heap_step dheap heapp (hs, used) (hs', used)"
    if "heap_request sz align" "chHeapAllocAligned dheap heapp sz align hs = Ok (Returned NULL, hs')"
| granted: "heap_step dheap heapp (hs, used) (hs', (b, sz) # used)"
    if "heap_request sz align" "chHeapAllocAligned dheap heapp sz align hs = Ok (Returned p, hs')" "p \<noteq> NULL" "b = unat p div 8 - 1"
| freed: "heap_step dheap heapp (hs, used) (hs', remove1 (b, sz) used)"
    if "(b, sz) \<in> set used" "chHeapFree (pg (b + 1)) hs = Ok (Returned (), hs')"
| written: "heap_step dheap heapp (hs, used) (hs\<lparr>hmem := (hmem hs)(w := v)\<rparr>, used)"
    if "(b, sz) \<in> set used" "w \<in> words {b + 1..b + size_pages sz}"

lemma held_page: "held_ok lo hi heapp m F x \<Longrightarrow> fst x \<in> {lo..<hi}"
  unfolding held_ok_def block_pages_def by (elim conjE) (erule subsetD, simp)

lemma unat_block: "b + 1 < 2 ^ 29 \<Longrightarrow> unat (pg (b + 1)) div 8 - 1 = b"
  using unat_pg [of "b + 1"] by simp

lemma heap_alloc_cases:
  assumes sys: "heap_sys lo hi heapp hs bs used" and r: "heap_request sz align"
  obtains (refused) hs' where "chHeapAllocAligned dheap heapp sz align hs = Ok (Returned NULL, hs')" "heap_sys lo hi heapp hs' bs used"
      "hprov hs' = hprov hs" "hmem hs' = hmem hs" "\<And>al. page_align (heap_align align) al \<Longrightarrow> alloc_blocks al (size_pages sz) bs = None"
    | (granted) b bs' hs' where "chHeapAllocAligned dheap heapp sz align hs = Ok (Returned (pg (b + 1)), hs')"
      "heap_sys lo hi heapp hs' bs' ((b, sz) # used)" "hprov hs' = hprov hs" "b + 1 < 2 ^ 29" "unat align dvd unat (pg (b + 1))"
      "\<And>w. w \<in> words (used_pages used) \<Longrightarrow> hmem hs' w = hmem hs w"
proof -
  obtain al where al: "page_align (heap_align align) al" "unat align dvd 8 * al" using page_alignE requestD(2) [OF r] by blast
  have uni: "al' = al" if "page_align (heap_align align) al'" for al' using that al(1) by (simp add: page_align_def)
  have bl: "b + 1 < 2 ^ 29" if "heap_sys lo hi heapp hs' bs' ((b, sz) # used)" for hs' b bs'
  proof -
    have "b \<in> {lo..<hi}" "hi \<le> 2 ^ 28" using held_page [OF heap_sysD(6) [OF that, of "(b, sz)"]] heap_sysD(9) [OF that] by simp_all
    then show ?thesis by simp
  qed
  have dv: "unat align dvd unat (pg (b + 1))" if "al dvd b + 1" "b + 1 < 2 ^ 29" for b
    using that(1) al(2) unat_pg [OF that(2)] by (metis dvd_trans mult_dvd_mono dvd_refl)
  show ?thesis
  proof (cases "alloc_blocks al (size_pages sz) bs")
    case None
    then show ?thesis using heap_alloc_nofit [OF sys r al(1) None] refused granted bl dv uni by metis
  next
    case (Some y)
    then obtain b bs' where y: "alloc_blocks al (size_pages sz) bs = Some (b, bs')" by (cases y) auto
    have "al dvd b + 1" using alloc_blocks_ok [OF y heap_sysD(5) [OF sys]] al(1) requestD(4) [OF r] by (simp add: page_align_def)
    then show ?thesis using heap_alloc_fit [OF sys r al(1) y] granted bl dv by metis
  qed
qed

lemma heap_write_sys:
  assumes sys: "heap_sys lo hi heapp hs bs used" and x: "(b, sz) \<in> set used" and w: "w \<in> words {b + 1..b + size_pages sz}"
  shows "heap_sys lo hi heapp (hs\<lparr>hmem := (hmem hs)(w := v)\<rparr>) bs used"
proof -
  note D = heap_sysD [OF sys] let ?Y = "{b + 1..b + size_pages sz}" let ?m = "(hmem hs)(w := v)"
  have Y: "?Y \<subseteq> block_pages (b, sz)" by (auto simp: block_pages_def)
  have h: "block_pages (b, sz) \<subseteq> {lo..<hi}" "block_pages (b, sz) \<inter> pages_of bs = {}" using D(6) [OF x] by (simp_all add: held_ok_def)
  have "?Y \<subseteq> {lo..<hi}" "?Y \<inter> pages_of bs = {}" using Y h by auto
  then have l: "heap_list lo hi heapp ?m bs" using w by (intro heap_list_frame [OF D(3), of ?Y]) auto
  have "held_ok lo hi heapp ?m (pages_of bs) y" if y: "y \<in> set used" for y
  proof -
    have hy: "held_ok lo hi heapp (hmem hs) (pages_of bs) y" using D(6) [OF y] .
    have "fst y \<notin> ?Y"
    proof (cases "y = (b, sz)")
      case False
      then have "block_pages y \<inter> block_pages (b, sz) = {}" using D(7) x y by (induction used) auto
      moreover have "fst y \<in> block_pages y" by (simp add: block_pages_def)
      ultimately show ?thesis using Y by auto
    qed simp
    moreover have "fst y \<in> {lo..<hi}" using held_page [OF hy] .
    then have "{fst y} \<subseteq> {..<2 ^ 29}" using D(9) by auto
    moreover have "?Y \<subseteq> {..<2 ^ 29}" using pages_low [OF \<open>?Y \<subseteq> {lo..<hi}\<close> D(9)] .
    ultimately have "w \<notin> words {fst y}" using words_disj [OF _ _ _ w, of "{fst y}"] by auto
    then show ?thesis using hy by (auto simp: held_ok_def H_HEAP_def H_SIZE_def)
  qed
  then show ?thesis using sys l unfolding heap_sys_def by (simp split: memgetfunc2.splits)
qed

lemma heap_step_sys:
  assumes "heap_step dheap heapp s s'" and "heap_sys lo hi heapp (fst s) bs (snd s)"
  shows "\<exists>bs'. heap_sys lo hi heapp (fst s') bs' (snd s') \<and> hprov (fst s') = hprov (fst s)"
  using assms
proof cases
  case (refused sz align hs hs' used)
  note r = this
  have sys: "heap_sys lo hi heapp hs bs used" using assms(2) r by simp
  show ?thesis
    using sys r(3)
  proof (cases rule: heap_alloc_cases [where dheap = dheap])
    case (granted b bs' hs'')
    then show ?thesis using r(4) pg_NULL [of "b + 1"] by simp
  qed (use r in auto)
next
  case (granted sz align hs p hs' b used)
  note r = this
  have sys: "heap_sys lo hi heapp hs bs used" using assms(2) r by simp
  show ?thesis
    using sys r(3)
  proof (cases rule: heap_alloc_cases [where dheap = dheap])
    case (granted b' bs' hs'')
    then have "b' = b" "hs'' = hs'" using r(4,6) unat_block [of b'] by simp_all
    then show ?thesis using granted(2,3) r(1,2) by auto
  qed (use r in auto)
next
  case (freed b sz used hs hs')
  then show ?thesis using heap_free_sys [of lo hi heapp hs bs used b sz] assms(2) by auto
next
  case (written b sz used w hs v)
  then show ?thesis using heap_write_sys [of lo hi heapp hs bs used b sz w v] assms(2) by auto
qed

lemma heap_reach_sys:
  assumes "(heap_step dheap heapp)\<^sup>*\<^sup>* s s'" and "heap_sys lo hi heapp (fst s) bs (snd s)"
  shows "\<exists>bs'. heap_sys lo hi heapp (fst s') bs' (snd s') \<and> hprov (fst s') = hprov (fst s)"
  using assms
proof (induction rule: rtranclp_induct)
  case (step y z)
  then show ?case using heap_step_sys [OF step(2)] by auto
qed auto

text \<open>The list of free blocks can be read back from memory.\<close>

lemma free_chain_unique:
  assumes "free_chain m q xs" and "free_chain m q ys" and "sep lo hi xs" and "sep lo' hi' ys" and "0 < lo" "0 < lo'" "hi \<le> 2 ^ 28" "hi' \<le> 2 ^ 28"
  shows "xs = ys"
  using assms
proof (induction xs arbitrary: q ys lo lo')
  case Nil
  then show ?case using pg_NULL by (cases ys) fastforce+
next
  case (Cons x xs)
  obtain a n where x: "x = (a, n)" by (cases x)
  have a: "0 < a" "a + n < hi" "m q = pg a" "pg a \<noteq> NULL" using Cons(2,4,6,8) x pg_NULL [of a] by auto
  then obtain b k zs where ys: "ys = (b, k) # zs" using Cons(3) by (cases ys) auto
  have b: "b + k < hi'" "m q = pg b" using Cons(3,5) ys by auto
  have "a = b" using pg_eq [of a b] a b Cons(8,9) by simp
  moreover have "n = k" using Cons(2,3) x ys \<open>a = b\<close> of_nat_eq [of n k] a(2) b(1) Cons(8,9) by simp
  moreover have "xs = zs" using Cons(1) [of "pg a" zs "a + n + 2" "b + k + 2"] Cons(2-9) x ys \<open>a = b\<close> by simp
  ultimately show ?case using x ys by simp
qed

text \<open>Free pages that would do for a request are found.\<close>

lemma alloc_blocks_none:
  assumes "alloc_blocks al np bs = None" and "sep lo hi bs" and "al > 0" and "al dvd b + 1"
  shows "\<not> {b..b + np} \<subseteq> pages_of bs"
  using assms(1,2)
proof (induction bs arbitrary: lo)
  case (Cons x bs)
  obtain a n where x: "x = (a, n)" by (cases x)
  have t: "pages_of bs \<subseteq> {a + n + 2..<hi}" using Cons(3) x sep_pages by auto
  have nf: "\<not> up al (a + 1) - 1 + np \<le> a + n" and none: "alloc_blocks al np bs = None"
    using Cons(2) x by (auto simp: Let_def split: if_splits)
  show ?case
  proof
    assume s: "{b..b + np} \<subseteq> pages_of (x # bs)"
    show False
    proof (cases "b \<in> {a..a + n}")
      case True
      have "b + np \<le> a + n"
      proof (rule ccontr)
        assume "\<not> b + np \<le> a + n"
        then have "a + n + 1 \<in> pages_of (x # bs)" using True s by (intro subsetD [OF s]) auto
        then show False using t x by auto
      qed
      moreover have "up al (a + 1) \<le> b + 1" using True assms(3,4) by (intro up_bounds(4)) auto
      ultimately show False using nf by linarith
    next
      case False
      have "b \<in> pages_of (x # bs)" using s by (rule subsetD) simp
      then have "b \<in> pages_of bs" using False x by auto
      then have "a + n + 2 \<le> b" using t by auto
      then have "{b..b + np} \<subseteq> pages_of bs" using s x by (fastforce simp: subset_iff)
      then show False using Cons(1) [OF none] Cons(3) x by auto
    qed
  qed
qed simp

text \<open>The counts of \<open>chHeapStatus\<close>.\<close>

lemma heap_count_chain:
  assumes "free_chain m q bs" and "length bs \<le> turns" and "\<forall>(a, n)\<in>set bs. 0 < a \<and> a < 2 ^ 29 \<and> n < 2 ^ 29" and "l < 2 ^ 29"
  shows "heap_count turns c t (of_nat l) q m =
    Ok (c + of_nat (length bs), t + of_nat (sum_list (map snd bs)), of_nat (fold max (map snd bs) l))"
  using assms
proof (induction bs arbitrary: q turns c t l)
  case Nil
  then show ?case by (simp add: heap_count.simps H_NEXT_def)
next
  case (Cons x bs)
  obtain a n where x: "x = (a, n)" by (cases x)
  obtain turns' where t': "turns = Suc turns'" using Cons(3) by (cases turns) auto
  have m: "m q = pg a" "m (pg a + 4) = of_nat n" "free_chain m (pg a) bs" "pg a \<noteq> NULL" "n < 2 ^ 29" using Cons(2,4) x pg_NULL [of a] by auto
  have "(if of_nat n > (of_nat l :: u32) then of_nat n else of_nat l) = (of_nat (max n l) :: u32)" using of_nat_less [of l n] m(5) Cons(5) by auto
  then have "heap_count turns c t (of_nat l) q m = heap_count turns' (c + 1) (t + of_nat n) (of_nat (max n l)) (pg a) m"
    unfolding t' using m by (subst heap_count.simps) (simp add: H_NEXT_def H_PAGES_def Let_def)
  also have "\<dots> = Ok (c + 1 + of_nat (length bs), t + of_nat n + of_nat (sum_list (map snd bs)), of_nat (fold max (map snd bs) (max n l)))"
    using Cons(3-5) x t' m by (intro Cons(1)) auto
  finally show ?case using x by (simp add: add.assoc)
qed

lemma heap_status:
  assumes sys: "heap_sys lo hi heapp hs bs used"
  shows "\<exists>hs'. chHeapStatus dheap heapp hs = Ok (Returned (of_nat (length bs), of_nat (sum_list (map snd bs)) * 8, of_nat (fold max (map snd bs) 0) * 8), hs') \<and>
    hmem hs' = hmem hs"
proof -
  note D = heap_sysD [OF sys]
  obtain k1 k2 where k: "chMtxLock (heap_mtx heapp) (hk hs) = Ok (Returned (), k1)" "chMtxUnlock (heap_mtx heapp) k1 = Ok k2"
    using heap_mutex [OF D(2)] by blast
  have "a + n < hi" "0 < a" if "(a, n) \<in> set bs" for a n
  proof -
    have "a + n \<in> pages_of bs" "a \<in> pages_of bs" using that by (auto simp: pages_of_def intro!: bexI [of _ "(a, n)"])
    then have "a + n \<in> {lo..<hi}" "a \<in> {lo..<hi}" using D(10) by blast+
    then show "a + n < hi" "0 < a" using D(8) by auto
  qed
  then have "\<forall>(a, n)\<in>set bs. 0 < a \<and> a < 2 ^ 29 \<and> n < 2 ^ 29" using D(9) by fastforce
  moreover have "length bs \<le> max_turns" using sep_length [OF D(5)] D(9) by (simp add: max_turns_def)
  moreover have "free_chain (hmem hs) (heap_header heapp) bs" using D(3) by (simp add: heap_list_def)
  ultimately have "heap_count max_turns 0 0 0 (heap_header heapp) (hmem hs) =
      Ok (of_nat (length bs), of_nat (sum_list (map snd bs)), of_nat (fold max (map snd bs) 0))"
    using heap_count_chain [of "hmem hs" "heap_header heapp" bs max_turns 0 0 0] by simp
  then show ?thesis using k D(1) by (simp add: chHeapStatus_def heap_status_locked_def CH_HEAP_ALIGNMENT_def)
qed

section \<open>What the clients of a heap can rely on\<close>

text \<open>The bytes of a block that belong to its client.\<close>

definition block_bytes :: "held \<Rightarrow> nat set" where
  "block_bytes x = {8 * (fst x + 1)..<8 * (fst x + 1) + unat (snd x)}"

lemma block_bytes_page: "i \<in> block_bytes x \<Longrightarrow> i div 8 \<in> block_pages x"
  by (auto simp: block_bytes_def block_pages_def size_pages_def)

lemma bytes_disjoint: "block_pages x \<inter> block_pages y = {} \<Longrightarrow> block_bytes x \<inter> block_bytes y = {}"
  using block_bytes_page by blast


text \<open>
  In every such state, a block that is held can be given back, and a request is answered: with an aligned
  block, or with \<open>NULL\<close>, and then only when no free pages, at any aligned place, would hold the block and its header.
\<close>

theorem heap_answers:
  assumes "heap_area heapp buf sz" and "running (hk hs)" and "queues (hk hs) (TQ (heap_mtx heapp)) = []"
    and "chHeapObjectInit heapp buf sz hs = Ok hs0" and "(heap_step dheap heapp)\<^sup>*\<^sup>* (hs0, []) (hs', used)"
    and "heap_request n align"
  shows "(\<forall>x\<in>set used. \<exists>hs''. chHeapFree (pg (fst x + 1)) hs' = Ok (Returned (), hs'')) \<and>
    (\<exists>p hs''. chHeapAllocAligned dheap heapp n align hs' = Ok (Returned p, hs'') \<and> unat align dvd unat p \<and>
       (p = NULL \<longrightarrow> (\<forall>bs b. free_chain (hmem hs') (heap_header heapp) bs \<and> sep (heap_lo buf) (heap_hi buf sz) bs \<and>
          unat (heap_align align) dvd 8 * (b + 1) \<longrightarrow> \<not> {b..b + size_pages n} \<subseteq> pages_of bs)))"
proof -
  let ?lo = "heap_lo buf" let ?hi = "heap_hi buf sz"
  obtain bs where sys: "heap_sys ?lo ?hi heapp hs' bs used"
    using heap_object_init [OF assms(1-3)] heap_reach_sys [OF assms(5)] assms(4) by fastforce
  note D = heap_sysD [OF sys]
  obtain al where al: "page_align (heap_align align) al" using page_alignE requestD(2) [OF assms(6)] by blast
  have uni: "cs = bs" if "free_chain (hmem hs') (heap_header heapp) cs" "sep ?lo ?hi cs" for cs
    using free_chain_unique [OF that(1), of bs] D(3,5,8,9) that(2) by (auto simp: heap_list_def)
  have "\<exists>hs''. chHeapFree (pg (fst x + 1)) hs' = Ok (Returned (), hs'')" if "x \<in> set used" for x
    using heap_free_sys [OF sys, of "fst x" "snd x"] that by auto
  moreover have "\<exists>p hs''. chHeapAllocAligned dheap heapp n align hs' = Ok (Returned p, hs'') \<and> unat align dvd unat p \<and>
       (p = NULL \<longrightarrow> (\<forall>bs b. free_chain (hmem hs') (heap_header heapp) bs \<and> sep ?lo ?hi bs \<and>
          unat (heap_align align) dvd 8 * (b + 1) \<longrightarrow> \<not> {b..b + size_pages n} \<subseteq> pages_of bs))"
    using sys assms(6)
  proof (cases rule: heap_alloc_cases [where dheap = dheap])
    case (refused hs'')
    have "\<not> {b..b + size_pages n} \<subseteq> pages_of bs" if "unat (heap_align align) dvd 8 * (b + 1)" for b
    proof -
      have "al > 0" "al dvd b + 1" using al that by (simp_all only: page_align_def nat_mult_dvd_cancel1 zero_less_numeral)
      then show ?thesis using alloc_blocks_none [OF refused(5) [OF al] D(5)] by blast
    qed
    then show ?thesis using refused(1) uni by (intro exI [of _ NULL] exI [of _ hs'']) auto
  next
    case (granted b bs' hs'')
    then show ?thesis using pg_NULL [of "b + 1"] by auto
  qed
  ultimately show ?thesis by blast
qed


text \<open>
  C13: When all blocks have been given back, the heap is as it was after its initialisation: one free block, of the size of the
  whole buffer.
\<close>

theorem heap_all_freed:
  assumes "heap_area heapp buf sz" and "running (hk hs)" and "queues (hk hs) (TQ (heap_mtx heapp)) = []"
    and "chHeapObjectInit heapp buf sz hs = Ok hs0" and "(heap_step dheap heapp)\<^sup>*\<^sup>* (hs0, []) (hs', [])"
  defines "pages \<equiv> heap_hi buf sz - heap_lo buf - 1"
  shows "free_chain (hmem hs') (heap_header heapp) [(heap_lo buf, pages)] \<and>
    (\<exists>hs''. chHeapStatus dheap heapp hs' = Ok (Returned (1, of_nat pages * 8, of_nat pages * 8), hs''))"
proof -
  let ?lo = "heap_lo buf" let ?hi = "heap_hi buf sz"
  obtain bs where sys: "heap_sys ?lo ?hi heapp hs' bs []" and pr: "hprov hs' heapp = NO_PROVIDER"
    using heap_object_init [OF assms(1-3)] heap_reach_sys [OF assms(5)] assms(4) by fastforce
  note D = heap_sysD [OF sys]
  have lh: "?lo < ?hi" using assms(1) by (simp add: heap_area_def)
  have "pages_of bs = {?lo..<?hi}" using sys pr by (simp add: heap_sys_def)
  moreover have "pages_of [(?lo, pages)] = {?lo..<?hi}" using lh by (auto simp: pages_def)
  ultimately have "bs = [(?lo, pages)]" using sep_unique [OF D(5), of "[(?lo, pages)]"] lh by (simp add: pages_def)
  then show ?thesis using heap_status [OF sys, of dheap] D(3) by (auto simp: heap_list_def)
qed

text \<open>
  A block that is given back as soon as it was granted leaves the free list as it was before the request, also
  when the request has split a free block in up to three parts; a client's own blocks keep their contents.
\<close>

theorem heap_alloc_free:
  assumes "heap_sys lo hi heapp hs bs used" and "hprov hs heapp = NO_PROVIDER" and "heap_request sz align"
    and "chHeapAllocAligned dheap heapp sz align hs = Ok (Returned p, hs')" and "p \<noteq> NULL"
  shows "\<exists>hs''. chHeapFree p hs' = Ok (Returned (), hs'') \<and> heap_sys lo hi heapp hs'' bs used \<and>
    (\<forall>w\<in>words (used_pages used). hmem hs'' w = hmem hs w)"
  using assms(1,3)
proof (cases rule: heap_alloc_cases [where dheap = dheap])
  case (granted b bs' hs1)
  then have e: "p = pg (b + 1)" "hs1 = hs'" using assms(4) by simp_all
  have sys: "heap_sys lo hi heapp hs' bs' ((b, sz) # used)" using granted(2) e by simp
  note D = heap_sysD [OF assms(1)]
  obtain hs'' bs'' where f: "chHeapFree p hs' = Ok (Returned (), hs'')" "heap_sys lo hi heapp hs'' bs'' used"
      "pages_of bs'' = pages_of bs' \<union> block_pages (b, sz)" "hprov hs'' = hprov hs'" "\<And>w. w \<in> words (used_pages used) \<Longrightarrow> hmem hs'' w = hmem hs' w"
    using heap_free_sys [OF sys, of b sz] e by auto
  have "hprov hs'' heapp = NO_PROVIDER" using f(4) granted(3) e assms(2) by simp
  then have "pages_of bs'' \<union> used_pages used = {lo..<hi}" using f(2) by (simp add: heap_sys_def)
  moreover have "pages_of bs \<union> used_pages used = {lo..<hi}" using assms(1,2) by (simp add: heap_sys_def)
  ultimately have "pages_of bs'' = pages_of bs" using heap_used(2) [OF f(2)] heap_used(2) [OF assms(1)] by blast
  then have "bs'' = bs" using sep_unique heap_sysD(5) [OF f(2)] D(5) by blast
  then show ?thesis using f(1,2,5) granted(6) e by auto
qed (use assms(4,5) in simp)

text \<open>
  A size within seven bytes of the end of the address space is rounded up to zero pages: the first free block
  is "large enough", and a block with no memory behind its header is returned for a request of nearly 4 GB.
\<close>

theorem heap_size_wraps:
  assumes "heap_sys lo hi heapp hs ((a, n) # bs) used" and "unat sz > 2 ^ 32 - 8"
  shows "heap_pages sz = 0 \<and> (\<exists>hs'. chHeapAlloc dheap heapp sz hs = Ok (Returned (pg (a + 1)), hs'))"
proof -
  note D = heap_sysD [OF assms(1)]
  have sz: "sz > 0" using assms(2) by (simp add: word_less_nat_alt)
  have "unat sz + 7 \<ge> 2 ^ 32" "unat sz < 2 ^ 32" using assms(2) unat_less32 [of sz] by simp_all
  then have "(unat sz + 7) div 8 = 2 ^ 29" by (intro div_nat_eqI) auto
  then have "unat (MEM_ALIGN_NEXT sz 8) = 0" using align_next [of 8 sz] by (simp add: MEM_IS_VALID_ALIGNMENT_def)
  then have pages: "heap_pages sz = 0" by (simp add: heap_pages_def CH_HEAP_ALIGNMENT_def unat_eq_0)
  have c: "free_chain (hmem hs) (heap_header heapp) ((a, n) # bs)" "0 < a" "a + n < hi" using D(3,5,8) by (auto simp: heap_list_def)
  obtain m' where t: "heap_take (heap_header heapp) (pg a) (pg a) 0 (hmem hs) = (pg a, m')"
    using heap_take_ok [OF c(1) D(5) D(9) _ _ heap_fields(1) [OF D(4)], of a 0] by auto
  have nn: "pg a \<noteq> NULL" "pg (a + 1) \<noteq> NULL" using pg_NULL [of a] pg_NULL [of "a + 1"] c D(9) by simp_all
  have ahp: "MEM_ALIGN_NEXT (H_BLOCK (pg a)) 8 - 8 = pg a"
    using align_pg(1) [OF page_align_8, of "a + 1"] c D(9) pg_add(3) [of "a + 1"] by (simp add: H_pg up_def)
  have "pg a < H_LIMIT (hmem hs) (pg a)" using c(1) H_pg(2) [of "hmem hs" a n] pg_less [of a "a + 1 + n"] c(3) D(9) by simp
  then have "heap_search max_turns heapp sz 0 8 (heap_header heapp) (hmem hs) = Ok (pg (a + 1), m'(pg a + 4 := sz, pg a := heapp))"
    using c(1) nn(1) ahp t H_pg(1) [of a] by (subst heap_search.simps) (simp add: H_NEXT_def max_turns_def Let_def)
  moreover obtain k1 k2 where "chMtxLock (heap_mtx heapp) (hk hs) = Ok (Returned (), k1)" "chMtxUnlock (heap_mtx heapp) k1 = Ok k2"
    using heap_mutex [OF D(2)] by blast
  ultimately show ?thesis using pages sz D(1) nn(2)
    by (simp add: chHeapAlloc_def chHeapAllocAligned_def heap_alloc_locked_def heap_align_def CH_HEAP_ALIGNMENT_def MEM_IS_VALID_ALIGNMENT_def)
qed

text \<open>A buffer that is too small for one header is accepted, and its heap reaches to the end of the address space.\<close>

theorem heap_init_underflow:
  assumes "heapp \<noteq> NULL" and "8 dvd unat buf" and "0 < unat sz" and "unat sz < 8" and "heap_mtx heapp \<noteq> NULL"
  shows "\<exists>hs'. chHeapObjectInit heapp buf sz hs = Ok hs' \<and> H_PAGES (hmem hs') buf = 0x1FFFFFFF"
proof -
  have v: "MEM_IS_VALID_ALIGNMENT 8" by (simp add: MEM_IS_VALID_ALIGNMENT_def)
  obtain x where x: "unat buf = 8 * x" using assms(2) by (elim dvdE)
  then have "unat (MEM_ALIGN_NEXT buf 8) = unat buf" using align_next [OF v, of buf] unat_less32 [of buf] by simp
  then have hp: "MEM_ALIGN_NEXT buf 8 = buf" by (simp add: word_unat_eq_iff)
  have "unat (sz - 8) = 2 ^ 32 + unat sz - 8" using assms(4) by (simp add: unat_sub_if')
  then have "unat ((sz - 8) div 8) = (2 ^ 32 + unat sz - 8) div 8" by (simp add: unat_div)
  also have "\<dots> = 0x1FFFFFFF" using assms(3,4) by (intro div_nat_eqI) auto
  finally have "(sz - 8) div 8 = 0x1FFFFFFF" by (simp add: word_unat_eq_iff)
  then show ?thesis using assms hp
    by (simp add: chHeapObjectInit_def CH_HEAP_ALIGNMENT_def Let_def chMtxObjectInit_def H_PAGES_def word_less_nat_alt)
qed

section \<open>A heap of 264 bytes\<close>

definition demo_heap :: heapsys where
  "demo_heap = \<lparr>hmem = \<lambda>_. 0, hprov = \<lambda>_. NO_PROVIDER, hcore = core_init 0 0, hk = demo_kernel\<lparr>lock_cnt := 0\<rparr>\<rparr>"

lemma demo_heap_area:
  "heap_area 0x20000000 0x20001004 0x108" "heap_lo 0x20001004 = 0x4000201" "heap_hi 0x20001004 0x108 = 0x4000221"
  "running (hk demo_heap)" "queues (hk demo_heap) (TQ (heap_mtx 0x20000000)) = []"
  by (simp_all add: heap_area_def heap_lo_def heap_hi_def heap_outside_def demo_heap_def demo_running)
    (simp add: demo_kernel_def)

lemma demo_heap_steps:
  obtains hs0 hs1 hs2 where "chHeapObjectInit 0x20000000 0x20001004 0x108 demo_heap = Ok hs0"
    and "chHeapAllocAligned 0 0x20000000 24 8 hs0 = Ok (Returned 0x20001010, hs1)" and "heap_request 24 8"
    and "heap_sys 0x4000201 0x4000221 0x20000000 hs0 [(0x4000201, 31)] []" and "hprov hs0 0x20000000 = NO_PROVIDER"
    and "(heap_step 0 0x20000000)\<^sup>*\<^sup>* (hs0, []) (hs1, [(0x4000201, 24)])" and "(heap_step 0 0x20000000)\<^sup>*\<^sup>* (hs0, []) (hs2, [])"
proof -
  obtain hs0 where h: "chHeapObjectInit 0x20000000 0x20001004 0x108 demo_heap = Ok hs0" "hprov hs0 0x20000000 = NO_PROVIDER"
      "heap_sys 0x4000201 0x4000221 0x20000000 hs0 [(0x4000201, 31)] []"
    using heap_object_init [OF demo_heap_area(1,4,5)] unfolding demo_heap_area by auto
  have r: "heap_request 24 8" by (simp add: heap_request_def MEM_IS_VALID_ALIGNMENT_def size_pages_def heap_align_def CH_HEAP_ALIGNMENT_def)
  have al: "page_align (heap_align 8) 1" using page_align_8 by (simp add: heap_align_def CH_HEAP_ALIGNMENT_def)
  have "alloc_blocks 1 (size_pages 24) [(0x4000201, 31)] = Some (0x4000201, [(0x4000205, 27)])" by (simp add: size_pages_def up_def split_block_def)
  from heap_alloc_fit [OF h(3) r al this, of 0]
  obtain hs1 where a: "chHeapAllocAligned 0 0x20000000 24 8 hs0 = Ok (Returned (pg (0x4000201 + 1)), hs1)"
    and sys: "heap_sys 0x4000201 0x4000221 0x20000000 hs1 [(0x4000205, 27)] [(0x4000201, 24)]" by blast
  have p: "pg (0x4000201 + 1) = 0x20001010" by (simp add: pg_def)
  have s1: "heap_step 0 0x20000000 (hs0, []) (hs1, [(0x4000201, 24)])" 
    using r a
  proof (rule heap_step.granted)
    show "pg (0x4000201 + 1) \<noteq> NULL" using pg_NULL [of "0x4000201 + 1"] by simp
    show "0x4000201 = unat (pg (0x4000201 + 1)) div 8 - 1" using unat_block [of "0x4000201"] by simp
  qed
  from heap_free_sys [OF sys, of "0x4000201" 24] obtain hs2 where "chHeapFree (pg (0x4000201 + 1)) hs1 = Ok (Returned (), hs2)" by auto
  then have "heap_step 0 0x20000000 (hs1, [(0x4000201, 24)]) (hs2, remove1 (0x4000201, 24) [(0x4000201, 24)])" by (intro heap_step.freed) simp_all
  then have s2: "heap_step 0 0x20000000 (hs1, [(0x4000201, 24)]) (hs2, [])" by simp
  show ?thesis
    using that [OF h(1) a [unfolded p] r h(3,2) r_into_rtranclp [of "heap_step 0 0x20000000", OF s1]
        rtranclp.rtrancl_into_rtrancl [OF r_into_rtranclp [of "heap_step 0 0x20000000", OF s1] s2]] .
qed


theorem heap_answers_witness:
  "\<exists>hs0 hs1 hs2. chHeapObjectInit 0x20000000 0x20001004 0x108 demo_heap = Ok hs0 \<and>
     (heap_step 0 0x20000000)\<^sup>*\<^sup>* (hs0, []) (hs1, [(0x4000201, 24)]) \<and> chHeapFree (pg (0x4000201 + 1)) hs1 = Ok (Returned (), hs2)"
proof -
  obtain hs0 hs1 where h: "chHeapObjectInit 0x20000000 0x20001004 0x108 demo_heap = Ok hs0"
      "(heap_step 0 0x20000000)\<^sup>*\<^sup>* (hs0, []) (hs1, [(0x4000201, 24)])" "heap_request 24 8"
    using demo_heap_steps by metis
  from heap_answers [OF demo_heap_area(1,4,5) h] obtain hs2 where "chHeapFree (pg (0x4000201 + 1)) hs1 = Ok (Returned (), hs2)" by auto
  then show ?thesis using h(1,2) by blast
qed

theorem heap_all_freed_witness:
  "\<exists>hs0 hs2 hs3. chHeapObjectInit 0x20000000 0x20001004 0x108 demo_heap = Ok hs0 \<and> (heap_step 0 0x20000000)\<^sup>*\<^sup>* (hs0, []) (hs2, []) \<and>
     chHeapStatus 0 0x20000000 hs2 = Ok (Returned (1, 248, 248), hs3)"
proof -
  obtain hs0 hs2 where h: "chHeapObjectInit 0x20000000 0x20001004 0x108 demo_heap = Ok hs0" "(heap_step 0 0x20000000)\<^sup>*\<^sup>* (hs0, []) (hs2, [])"
    using demo_heap_steps by metis
  from heap_all_freed [OF demo_heap_area(1,4,5) h] show ?thesis using h unfolding demo_heap_area by auto
qed

theorem heap_alloc_free_witness:
  "\<exists>hs0 hs1 hs2. chHeapAllocAligned 0 0x20000000 24 8 hs0 = Ok (Returned 0x20001010, hs1) \<and> chHeapFree 0x20001010 hs1 = Ok (Returned (), hs2) \<and>
     heap_sys 0x4000201 0x4000221 0x20000000 hs2 [(0x4000201, 31)] []"
proof -
  obtain hs0 hs1 where h: "chHeapAllocAligned 0 0x20000000 24 8 hs0 = Ok (Returned 0x20001010, hs1)" "heap_request 24 8"
      "heap_sys 0x4000201 0x4000221 0x20000000 hs0 [(0x4000201, 31)] []" "hprov hs0 0x20000000 = NO_PROVIDER"
    using demo_heap_steps by metis
  from heap_alloc_free [OF h(3,4,2,1)] show ?thesis using h(1) by auto
qed

theorem heap_size_wraps_witness:
  "\<exists>hs0 hs1. chHeapObjectInit 0x20000000 0x20001004 0x108 demo_heap = Ok hs0 \<and>
     chHeapAlloc 0 0x20000000 0xFFFFFFFF hs0 = Ok (Returned (pg (0x4000201 + 1)), hs1)"
proof -
  obtain hs0 where h: "chHeapObjectInit 0x20000000 0x20001004 0x108 demo_heap = Ok hs0" "heap_sys 0x4000201 0x4000221 0x20000000 hs0 [(0x4000201, 31)] []"
    using demo_heap_steps by metis
  from heap_size_wraps [OF h(2), of "0xFFFFFFFF" 0] show ?thesis using h(1) by auto
qed

theorem heap_init_underflow_witness:
  "\<exists>hs'. chHeapObjectInit 0x20000000 0x20001000 4 demo_heap = Ok hs' \<and> H_PAGES (hmem hs') 0x20001000 = 0x1FFFFFFF"
  using heap_init_underflow [of "0x20000000" "0x20001000" 4 demo_heap] by (simp add: heap_mtx_def)


end
