(* ===== verification/Pipes.thy ===== *)
theory Pipes
  imports Uncontended Threads Fifo Creation
begin

text \<open>
  Pipes (\<open>os/oslib/src/chpipes.c\<close>, \<open>chpipes.h\<close>): byte streams between threads, with a mutex for the writers, one for the
  readers and one for the buffer. The pointers into the buffer are offsets. A call of \<open>chPipeWriteTimeout\<close> or
  \<open>chPipeReadTimeout\<close> can lose the processor at every lock, unlock, suspension and wake-up; it is a machine whose steps are the
  pieces of the function between these points, and its local variables are the record \<open>pipe_call\<close>.
\<close>

section \<open>The pipe and its buffer\<close>

record pipe =
  pi_buffer :: "byte list"
  pi_wrptr :: nat
  pi_rdptr :: nat
  pi_cnt :: nat
  pi_reset :: bool

record pipesys =
  pp_k :: kernel
  pp_pipes :: "ptr \<Rightarrow> pipe"

definition pp_wtr :: "ptr \<Rightarrow> ptr" where "pp_wtr pp = pp + 24"
definition pp_rtr :: "ptr \<Rightarrow> ptr" where "pp_rtr pp = pp + 28"
definition pp_cmtx :: "ptr \<Rightarrow> ptr" where "pp_cmtx pp = pp + 32"
definition pp_wmtx :: "ptr \<Rightarrow> ptr" where "pp_wmtx pp = pp + 48"
definition pp_rmtx :: "ptr \<Rightarrow> ptr" where "pp_rmtx pp = pp + 64"

definition chPipeGetSize :: "pipe \<Rightarrow> nat" where "chPipeGetSize p = length (pi_buffer p)"

definition chPipeGetUsedCount :: "pipe \<Rightarrow> nat" where "chPipeGetUsedCount p = pi_cnt p"

definition chPipeGetFreeCount :: "pipe \<Rightarrow> nat" where "chPipeGetFreeCount p = chPipeGetSize p - chPipeGetUsedCount p"

definition chPipeResume :: "ptr \<Rightarrow> pipesys \<Rightarrow> pipesys" where
  "chPipeResume pp s = s\<lparr>pp_pipes := (pp_pipes s)(pp := (pp_pipes s pp)\<lparr>pi_reset := False\<rparr>)\<rparr>"

text \<open>\<open>memcpy\<close> into and out of the buffer, at an offset.\<close>

definition copy_in :: "nat \<Rightarrow> byte list \<Rightarrow> byte list \<Rightarrow> byte list kres" where
  "copy_in i xs buf = (if i + length xs \<le> length buf then Ok (take i buf @ xs @ drop (i + length xs) buf) else Undef)"

definition copy_out :: "nat \<Rightarrow> nat \<Rightarrow> byte list \<Rightarrow> byte list kres" where
  "copy_out i n buf = (if i + n \<le> length buf then Ok (take n (drop i buf)) else Undef)"

text \<open>What \<open>pipe_write\<close> and \<open>pipe_read\<close> do between \<open>PC_LOCK\<close> and \<open>PC_UNLOCK\<close>.\<close>

definition pipe_write :: "byte list \<Rightarrow> pipe \<Rightarrow> (nat \<times> pipe) kres" where
  "pipe_write bp p =
     (let n = length bp;
          n = (if n > chPipeGetFreeCount p then chPipeGetFreeCount p else n);
          p = p\<lparr>pi_cnt := pi_cnt p + n\<rparr>;
          s1 = length (pi_buffer p) - pi_wrptr p
      in if n < s1 then
           kbind (copy_in (pi_wrptr p) (take n bp) (pi_buffer p)) (\<lambda>b.
           Ok (n, p\<lparr>pi_buffer := b, pi_wrptr := pi_wrptr p + n\<rparr>))
         else if n > s1 then
           kbind (copy_in (pi_wrptr p) (take s1 bp) (pi_buffer p)) (\<lambda>b.
           let bp = drop s1 bp; s2 = n - s1
           in kbind (copy_in 0 (take s2 bp) b) (\<lambda>b.
              Ok (n, p\<lparr>pi_buffer := b, pi_wrptr := s2\<rparr>)))
         else
           kbind (copy_in (pi_wrptr p) (take n bp) (pi_buffer p)) (\<lambda>b.
           Ok (n, p\<lparr>pi_buffer := b, pi_wrptr := 0\<rparr>)))"

definition pipe_read :: "nat \<Rightarrow> pipe \<Rightarrow> (byte list \<times> pipe) kres" where
  "pipe_read n p =
     (let n = (if n > chPipeGetUsedCount p then chPipeGetUsedCount p else n);
          p = p\<lparr>pi_cnt := pi_cnt p - n\<rparr>;
          s1 = length (pi_buffer p) - pi_rdptr p
      in if n < s1 then
           kbind (copy_out (pi_rdptr p) n (pi_buffer p)) (\<lambda>b. Ok (b, p\<lparr>pi_rdptr := pi_rdptr p + n\<rparr>))
         else if n > s1 then
           kbind (copy_out (pi_rdptr p) s1 (pi_buffer p)) (\<lambda>b1.
           let s2 = n - s1
           in kbind (copy_out 0 s2 (pi_buffer p)) (\<lambda>b2. Ok (b1 @ b2, p\<lparr>pi_rdptr := s2\<rparr>)))
         else
           kbind (copy_out (pi_rdptr p) n (pi_buffer p)) (\<lambda>b. Ok (b, p\<lparr>pi_rdptr := 0\<rparr>)))"

section \<open>The operations\<close>

definition chPipeObjectInit :: "ptr \<Rightarrow> byte list \<Rightarrow> pipesys \<Rightarrow> pipesys kres" where
  "chPipeObjectInit pp buf s =
     kguard (pp \<noteq> NULL \<and> buf \<noteq> []) ''chPipeObjectInit'' (
     kbind (chMtxObjectInit (pp_cmtx pp) (set_tref (pp_rtr pp) NULL (set_tref (pp_wtr pp) NULL (pp_k s)))) (\<lambda>k.
     kbind (chMtxObjectInit (pp_wmtx pp) k) (\<lambda>k.
     kbind (chMtxObjectInit (pp_rmtx pp) k) (\<lambda>k.
     Ok (s\<lparr>pp_k := k, pp_pipes := (pp_pipes s)(pp := \<lparr>pi_buffer = buf, pi_wrptr = 0, pi_rdptr = 0, pi_cnt = 0, pi_reset = False\<rparr>)\<rparr>)))))"

text \<open>\<open>chPipeReset\<close> up to \<open>PC_LOCK\<close>, up to the end of the critical zone, and \<open>PC_UNLOCK\<close>.\<close>

definition chPipeReset :: "ptr \<Rightarrow> pipesys \<Rightarrow> (unit wait \<times> pipesys) kres" where
  "chPipeReset pp s =
     kguard (pp \<noteq> NULL) ''chPipeReset'' (
     kbind (chMtxLock (pp_cmtx pp) (pp_k s)) (\<lambda>(r, k). Ok (r, s\<lparr>pp_k := k\<rparr>)))"

definition chPipeReset_locked :: "ptr \<Rightarrow> pipesys \<Rightarrow> pipesys kres" where
  "chPipeReset_locked pp s =
     (let s = s\<lparr>pp_pipes := (pp_pipes s)(pp := (pp_pipes s pp)\<lparr>pi_wrptr := 0, pi_rdptr := 0, pi_cnt := 0, pi_reset := True\<rparr>)\<rparr>
      in kbind (locked (\<lambda>k.
           kbind (chThdResumeI (pp_wtr pp) MSG_RESET k) (\<lambda>k.
           kbind (chThdResumeI (pp_rtr pp) MSG_RESET k) chSchRescheduleS)) (pp_k s)) (\<lambda>k.
         Ok (s\<lparr>pp_k := k\<rparr>)))"

definition chPipeReset_leave :: "ptr \<Rightarrow> pipesys \<Rightarrow> pipesys kres" where
  "chPipeReset_leave pp s = kbind (chMtxUnlock (pp_cmtx pp) (pp_k s)) (\<lambda>k. Ok (s\<lparr>pp_k := k\<rparr>))"

text \<open>
  A call in progress: where it is, the bytes (still to be written, or read so far), the number of bytes that remain, the
  number that was asked for.
\<close>

datatype pipe_at = Enter | Locking | Looping | CLocking | Copying | Copied nat | Suspended | Leaving | Done nat

record pipe_call =
  c_at :: pipe_at
  c_bp :: "byte list"
  c_n :: nat
  c_max :: nat

definition write_call :: "byte list \<Rightarrow> pipe_call" where
  "write_call bs = \<lparr>c_at = Enter, c_bp = bs, c_n = length bs, c_max = length bs\<rparr>"

definition read_call :: "nat \<Rightarrow> pipe_call" where
  "read_call n = \<lparr>c_at = Enter, c_bp = [], c_n = n, c_max = n\<rparr>"

text \<open>The three kinds of kernel call: a mutex is locked, the rest of that call is run, a call that does not sleep.\<close>

definition pc_lock :: "ptr \<Rightarrow> pipe_at \<Rightarrow> pipe_at \<Rightarrow> pipe_call \<Rightarrow> pipesys \<Rightarrow> (pipe_call \<times> pipesys) kres" where
  "pc_lock m got waiting c s =
     kbind (chMtxLock m (pp_k s)) (\<lambda>(r, k).
     Ok (c\<lparr>c_at := (case r of Returned _ \<Rightarrow> got | Asleep \<Rightarrow> waiting)\<rparr>, s\<lparr>pp_k := k\<rparr>))"

definition pc_locked :: "ptr \<Rightarrow> pipe_at \<Rightarrow> pipe_call \<Rightarrow> pipesys \<Rightarrow> (pipe_call \<times> pipesys) kres" where
  "pc_locked m next c s = kbind (chMtxLock_resume m (pp_k s)) (\<lambda>(_, k). Ok (c\<lparr>c_at := next\<rparr>, s\<lparr>pp_k := k\<rparr>))"

definition pc_do :: "(kernel \<Rightarrow> kernel kres) \<Rightarrow> pipe_call \<Rightarrow> pipesys \<Rightarrow> (pipe_call \<times> pipesys) kres" where
  "pc_do f c s = kbind (f (pp_k s)) (\<lambda>k. Ok (c, s\<lparr>pp_k := k\<rparr>))"

definition after_msg :: "msg_t \<Rightarrow> pipe_at" where
  "after_msg msg = (if msg \<noteq> MSG_OK then Leaving else Looping)"

definition pc_suspend :: "ptr \<Rightarrow> u32 \<Rightarrow> pipe_call \<Rightarrow> pipesys \<Rightarrow> (pipe_call \<times> pipesys) kres" where
  "pc_suspend trp timeout c s =
     kbind (locked_wait (chThdSuspendTimeoutS trp timeout) (pp_k s)) (\<lambda>(r, k).
     Ok (c\<lparr>c_at := (case r of Returned msg \<Rightarrow> after_msg msg | Asleep \<Rightarrow> Suspended)\<rparr>, s\<lparr>pp_k := k\<rparr>))"

definition pc_suspended :: "u32 \<Rightarrow> pipe_call \<Rightarrow> pipesys \<Rightarrow> (pipe_call \<times> pipesys) kres" where
  "pc_suspended timeout c s =
     kbind (chSchGoSleepTimeoutS_resume timeout (pp_k s)) (\<lambda>(msg, k).
     kbind (chSysUnlock k) (\<lambda>k. Ok (c\<lparr>c_at := after_msg msg\<rparr>, s\<lparr>pp_k := k\<rparr>)))"

definition chPipeWriteTimeout :: "ptr \<Rightarrow> u32 \<Rightarrow> pipe_call \<Rightarrow> pipesys \<Rightarrow> (pipe_call \<times> pipesys) kres" where
  "chPipeWriteTimeout pp timeout c s =
     (case c_at c of
        Enter \<Rightarrow> kguard (c_n c > 0) ''chPipeWriteTimeout'' (
          if pi_reset (pp_pipes s pp) then Ok (c\<lparr>c_at := Done 0\<rparr>, s)
          else pc_lock (pp_wmtx pp) Looping Locking c s)
      | Locking \<Rightarrow> pc_locked (pp_wmtx pp) Looping c s
      | Looping \<Rightarrow> if c_n c > 0 then pc_lock (pp_cmtx pp) Copying CLocking c s else Ok (c\<lparr>c_at := Leaving\<rparr>, s)
      | CLocking \<Rightarrow> pc_locked (pp_cmtx pp) Copying c s
      | Copying \<Rightarrow> kbind (pipe_write (c_bp c) (pp_pipes s pp)) (\<lambda>(n, p).
          pc_do (chMtxUnlock (pp_cmtx pp)) (c\<lparr>c_at := Copied n\<rparr>) (s\<lparr>pp_pipes := (pp_pipes s)(pp := p)\<rparr>))
      | Copied done \<Rightarrow> if done = 0 then pc_suspend (pp_wtr pp) timeout c s
          else pc_do (chThdResume (pp_rtr pp) MSG_OK) (c\<lparr>c_at := Looping, c_n := c_n c - done, c_bp := drop done (c_bp c)\<rparr>) s
      | Suspended \<Rightarrow> pc_suspended timeout c s
      | Leaving \<Rightarrow> pc_do (chMtxUnlock (pp_wmtx pp)) (c\<lparr>c_at := Done (c_max c - c_n c)\<rparr>) s
      | Done r \<Rightarrow> Ok (c, s))"

definition chPipeReadTimeout :: "ptr \<Rightarrow> u32 \<Rightarrow> pipe_call \<Rightarrow> pipesys \<Rightarrow> (pipe_call \<times> pipesys) kres" where
  "chPipeReadTimeout pp timeout c s =
     (case c_at c of
        Enter \<Rightarrow> kguard (c_n c > 0) ''chPipeReadTimeout'' (
          if pi_reset (pp_pipes s pp) then Ok (c\<lparr>c_at := Done 0\<rparr>, s)
          else pc_lock (pp_rmtx pp) Looping Locking c s)
      | Locking \<Rightarrow> pc_locked (pp_rmtx pp) Looping c s
      | Looping \<Rightarrow> if c_n c > 0 then pc_lock (pp_cmtx pp) Copying CLocking c s else Ok (c\<lparr>c_at := Leaving\<rparr>, s)
      | CLocking \<Rightarrow> pc_locked (pp_cmtx pp) Copying c s
      | Copying \<Rightarrow> kbind (pipe_read (c_n c) (pp_pipes s pp)) (\<lambda>(b, p).
          pc_do (chMtxUnlock (pp_cmtx pp)) (c\<lparr>c_at := Copied (length b), c_bp := c_bp c @ b\<rparr>) (s\<lparr>pp_pipes := (pp_pipes s)(pp := p)\<rparr>))
      | Copied done \<Rightarrow> if done = 0 then pc_suspend (pp_rtr pp) timeout c s
          else pc_do (chThdResume (pp_wtr pp) MSG_OK) (c\<lparr>c_at := Looping, c_n := c_n c - done\<rparr>) s
      | Suspended \<Rightarrow> pc_suspended timeout c s
      | Leaving \<Rightarrow> pc_do (chMtxUnlock (pp_rmtx pp)) (c\<lparr>c_at := Done (c_max c - c_n c)\<rparr>) s
      | Done r \<Rightarrow> Ok (c, s))"

section \<open>The ring buffer\<close>

definition pipe_ok :: "pipe \<Rightarrow> bool" where
  "pipe_ok p \<longleftrightarrow> pi_rdptr p < length (pi_buffer p) \<and> pi_cnt p \<le> length (pi_buffer p) \<and>
     pi_wrptr p = (pi_rdptr p + pi_cnt p) mod length (pi_buffer p)"

definition pipe_items :: "pipe \<Rightarrow> byte list" where
  "pipe_items p = ring_items (pi_buffer p) (pi_rdptr p) (pi_cnt p)"

lemma length_pipe_items [simp]: "length (pipe_items p) = pi_cnt p"
  by (simp add: pipe_items_def)

text \<open>A cell of the buffer after \<open>xs\<close> has been written from \<open>w\<close> on, in one piece or in two.\<close>

definition ring_at :: "byte list \<Rightarrow> nat \<Rightarrow> byte list \<Rightarrow> nat \<Rightarrow> byte" where
  "ring_at buf w xs q = (let j = if w \<le> q then q - w else q + length buf - w in if j < length xs then xs ! j else buf ! q)"

lemma copy_in_one:
  assumes "w + length xs \<le> length buf"
  obtains b where "copy_in w xs buf = Ok b" and "length b = length buf" and "\<And>q. q < length buf \<Longrightarrow> b ! q = ring_at buf w xs q"
proof
  show "copy_in w xs buf = Ok (take w buf @ xs @ drop (w + length xs) buf)" using assms by (simp add: copy_in_def)
qed (use assms in \<open>auto simp: ring_at_def nth_append Let_def\<close>)

lemma copy_in_two:
  assumes "w < length buf" and "length xs \<le> length buf" and "length buf - w < length xs"
  obtains b b' where "copy_in w (take (length buf - w) xs) buf = Ok b" and "copy_in 0 (drop (length buf - w) xs) b = Ok b'"
    and "length b' = length buf" and "\<And>q. q < length buf \<Longrightarrow> b' ! q = ring_at buf w xs q"
proof -
  let ?s = "length buf - w"
  obtain b where b: "copy_in w (take ?s xs) buf = Ok b" "length b = length buf" "\<And>q. q < length buf \<Longrightarrow> b ! q = ring_at buf w (take ?s xs) q"
    using copy_in_one [of w "take ?s xs" buf] assms by auto
  obtain b' where b': "copy_in 0 (drop ?s xs) b = Ok b'" "length b' = length b" "\<And>q. q < length b \<Longrightarrow> b' ! q = ring_at b 0 (drop ?s xs) q"
    by (rule copy_in_one [of 0 "drop ?s xs" b]) (use b(2) assms in auto)
  show ?thesis by (rule that [OF b(1) b'(1)]) (use assms b b' in \<open>auto simp: ring_at_def Let_def add.commute\<close>)
qed

lemma ring_offset:
  fixes r c i l :: nat
  assumes "r < l" and "c \<le> l" and "i < l"
  defines "w \<equiv> (r + c) mod l" and "q \<equiv> (r + i) mod l"
  shows "(if w \<le> q then q - w else q + l - w) = (if c \<le> i then i - c else i + l - c) \<or> c = l"
  using assms(1-3) unfolding w_def q_def by (auto simp: mod_if)

lemma ring_append:
  assumes "r < length buf" and "c + length xs \<le> length buf" and "length b = length buf"
    and "\<And>q. q < length buf \<Longrightarrow> b ! q = ring_at buf ((r + c) mod length buf) xs q"
  shows "ring_items b r (c + length xs) = ring_items buf r c @ xs"
proof (rule nth_equalityI)
  fix i assume i: "i < length (ring_items b r (c + length xs))"
  let ?l = "length buf" let ?q = "(r + i) mod ?l" let ?w = "(r + c) mod ?l"
  have q: "?q < ?l" using assms(1) by (intro mod_less_divisor) auto
  have e: "ring_items b r (c + length xs) ! i = ring_at buf ?w xs ?q" using i assms(3,4) q by (simp add: ring_items_def)
  have v: "(ring_items buf r c @ xs) ! i = (if i < c then buf ! ?q else xs ! (i - c))" using i by (simp add: nth_append ring_items_def)
  show "ring_items b r (c + length xs) ! i = (ring_items buf r c @ xs) ! i"
  proof (cases "xs = []")
    case True
    then show ?thesis using e v i by (simp add: ring_at_def)
  next
    case False
    then have "(if ?w \<le> ?q then ?q - ?w else ?q + ?l - ?w) = (if c \<le> i then i - c else i + ?l - c)"
      using ring_offset [of r ?l c i] assms(1,2) i by auto
    then show ?thesis using e v i assms(2) by (auto simp: ring_at_def Let_def)
  qed
qed simp

lemma wrap_once: "(w::nat) < l \<Longrightarrow> n \<le> l \<Longrightarrow> l - w < n \<Longrightarrow> (w + n) mod l = n - (l - w)"
  by (subst mod_if) auto

lemma pipe_write_ok:
  fixes bs :: "byte list"
  assumes "pipe_ok p"
  defines "n \<equiv> min (length bs) (chPipeGetFreeCount p)"
  obtains p' where "pipe_write bs p = Ok (n, p')" and "pipe_ok p'" and "pipe_items p' = pipe_items p @ take n bs"
    and "pi_reset p' = pi_reset p" and "length (pi_buffer p') = length (pi_buffer p)"
proof -
  let ?l = "length (pi_buffer p)" let ?w = "pi_wrptr p" let ?xs = "take n bs"
  have p: "pi_rdptr p < ?l" "pi_cnt p \<le> ?l" "?w = (pi_rdptr p + pi_cnt p) mod ?l" using assms(1) by (auto simp: pipe_ok_def)
  then have w: "?w < ?l" by (metis mod_less_divisor not_less_zero neq0_conv)
  have n: "n \<le> length bs" "pi_cnt p + n \<le> ?l" using p(2) by (auto simp: n_def chPipeGetFreeCount_def chPipeGetSize_def chPipeGetUsedCount_def)
  have nn: "(if length bs > chPipeGetFreeCount p then chPipeGetFreeCount p else length bs) = n" by (auto simp: n_def)
  have len: "length ?xs = n" using n(1) by simp
  note unf = pipe_write_def Let_def nn
  obtain b where b: "pipe_write bs p = Ok (n, p\<lparr>pi_cnt := pi_cnt p + n, pi_buffer := b, pi_wrptr := (?w + n) mod ?l\<rparr>)"
    and lb: "length b = ?l" and at: "\<And>q. q < ?l \<Longrightarrow> b ! q = ring_at (pi_buffer p) ?w ?xs q"
  proof (cases "n > ?l - ?w")
    case True
    have t: "take (?l - ?w) ?xs = take (?l - ?w) bs" "drop (?l - ?w) ?xs = take (n - (?l - ?w)) (drop (?l - ?w) bs)"
      using True by (simp_all add: drop_take min_def)
    have m: "(?w + n) mod ?l = n - (?l - ?w)" using wrap_once [of ?w ?l n] True w n(2) by simp
    obtain b b' where c: "copy_in ?w (take (?l - ?w) ?xs) (pi_buffer p) = Ok b" "copy_in 0 (drop (?l - ?w) ?xs) b = Ok b'"
        "length b' = ?l" "\<And>q. q < ?l \<Longrightarrow> b' ! q = ring_at (pi_buffer p) ?w ?xs q"
      by (rule copy_in_two [of ?w "pi_buffer p" ?xs]) (use True w n len in auto)
    have "pipe_write bs p = Ok (n, p\<lparr>pi_cnt := pi_cnt p + n, pi_buffer := b', pi_wrptr := (?w + n) mod ?l\<rparr>)" unfolding unf m using True t c(1,2) by simp
    then show ?thesis using that c(3,4) by blast
  next
    case False
    have m: "(?w + n) mod ?l = (if n < ?l - ?w then ?w + n else 0)" using False w by (cases "?w + n = ?l") auto
    obtain b where c: "copy_in ?w ?xs (pi_buffer p) = Ok b" "length b = ?l" "\<And>q. q < ?l \<Longrightarrow> b ! q = ring_at (pi_buffer p) ?w ?xs q"
      by (rule copy_in_one [of ?w ?xs "pi_buffer p"]) (use False w len in auto)
    have "pipe_write bs p = Ok (n, p\<lparr>pi_cnt := pi_cnt p + n, pi_buffer := b, pi_wrptr := (?w + n) mod ?l\<rparr>)" unfolding unf m using False c(1) by auto
    then show ?thesis using that c(2,3) by blast
  qed
  let ?p = "p\<lparr>pi_cnt := pi_cnt p + n, pi_buffer := b, pi_wrptr := (?w + n) mod ?l\<rparr>"
  have "pipe_ok ?p" using p n lb by (simp add: pipe_ok_def mod_simps add.assoc)
  moreover have "pipe_items ?p = pipe_items p @ ?xs"
    using ring_append [of "pi_rdptr p" "pi_buffer p" "pi_cnt p" ?xs b] p lb at n(2) len by (simp add: pipe_items_def)
  ultimately show ?thesis using that [OF b] lb by simp
qed

lemma ring_split: "ring_items buf r (n + m) = ring_items buf r n @ ring_items buf ((r + n) mod length buf) m"
proof -
  have "[0..<n + m] = [0..<n] @ map (\<lambda>i. i + n) [0..<m]" using upt_add_eq_append [of 0 n m] by (simp add: map_add_upt add.commute [of m n])
  moreover have "(r + (i + n)) mod length buf = ((r + n) mod length buf + i) mod length buf" for i by (simp add: mod_simps ac_simps)
  ultimately show ?thesis by (simp add: ring_items_def comp_def)
qed

lemma ring_straight:
  assumes "r + n \<le> length buf"
  shows "take n (drop r buf) = ring_items buf r n"
  by (rule nth_equalityI) (use assms in \<open>auto simp: ring_items_def\<close>)

lemma pipe_read_ok:
  assumes "pipe_ok p"
  obtains p' where "pipe_read n p = Ok (take n (pipe_items p), p')" and "pipe_ok p'" and "pipe_items p' = drop n (pipe_items p)"
    and "pi_reset p' = pi_reset p" and "length (pi_buffer p') = length (pi_buffer p)"
proof -
  let ?l = "length (pi_buffer p)" let ?r = "pi_rdptr p"
  define q where "q = min n (pi_cnt p)"
  then have q: "q \<le> pi_cnt p" by simp
  have p: "?r < ?l" "pi_cnt p \<le> ?l" "pi_wrptr p = (?r + pi_cnt p) mod ?l" using assms(1) by (auto simp: pipe_ok_def)
  have nn: "(if n > chPipeGetUsedCount p then chPipeGetUsedCount p else n) = q" by (auto simp: chPipeGetUsedCount_def q_def)
  have split: "pipe_items p = ring_items (pi_buffer p) ?r q @ ring_items (pi_buffer p) ((?r + q) mod ?l) (pi_cnt p - q)"
    using ring_split [of "pi_buffer p" ?r q "pi_cnt p - q"] q by (simp add: pipe_items_def)
  then have td: "take n (pipe_items p) = ring_items (pi_buffer p) ?r q" "drop n (pipe_items p) = ring_items (pi_buffer p) ((?r + q) mod ?l) (pi_cnt p - q)"
    by (auto simp: q_def min_def split: if_splits)
  let ?p = "p\<lparr>pi_cnt := pi_cnt p - q, pi_rdptr := (?r + q) mod ?l\<rparr>"
  have "pipe_read n p = Ok (ring_items (pi_buffer p) ?r q, ?p)"
  proof (cases "q > ?l - ?r")
    case True
    have m: "(?r + q) mod ?l = q - (?l - ?r)" using wrap_once [of ?r ?l q] True p q by simp
    have "ring_items (pi_buffer p) ?r q = ring_items (pi_buffer p) ?r (?l - ?r) @ ring_items (pi_buffer p) 0 (q - (?l - ?r))"
      using ring_split [of "pi_buffer p" ?r "?l - ?r" "q - (?l - ?r)"] True p(1) by simp
    then show ?thesis
      using True p q m ring_straight [of ?r "?l - ?r" "pi_buffer p"] ring_straight [of 0 "q - (?l - ?r)" "pi_buffer p"]
      unfolding pipe_read_def Let_def nn by (simp add: copy_out_def)
  next
    case False
    have "(?r + q) mod ?l = (if q < ?l - ?r then ?r + q else 0)" using False p(1) by (cases "?r + q = ?l") auto
    then show ?thesis using False p q ring_straight [of ?r q "pi_buffer p"] by (auto simp: pipe_read_def nn Let_def copy_out_def)
  qed
  moreover have "((?r + q) mod ?l + (pi_cnt p - q)) mod ?l = (?r + pi_cnt p) mod ?l" unfolding mod_add_left_eq using q by simp
  then have "pipe_ok ?p" using p q mod_less_divisor [of ?l "?r + q"] unfolding pipe_ok_def by (cases "pi_buffer p = []") simp_all
  ultimately show ?thesis using that [of ?p] td by (simp add: pipe_items_def)
qed

section \<open>A writer and a reader\<close>

text \<open>
  The steps of a write and a read in any order. Between two of them, other threads and interrupt handlers may do anything to
  the state of the kernel.
\<close>

inductive pipe_step :: "ptr \<Rightarrow> u32 \<Rightarrow> u32 \<Rightarrow> pipesys \<times> pipe_call \<times> pipe_call \<Rightarrow> pipesys \<times> pipe_call \<times> pipe_call \<Rightarrow> bool" for pp tw tr where
  writes: "chPipeWriteTimeout pp tw cw s = Ok (cw', s') \<Longrightarrow> pipe_step pp tw tr (s, cw, cr) (s', cw', cr)"
| reads: "chPipeReadTimeout pp tr cr s = Ok (cr', s') \<Longrightarrow> pipe_step pp tw tr (s, cw, cr) (s', cw, cr')"
| others: "pipe_step pp tw tr (s, cw, cr) (s\<lparr>pp_k := k\<rparr>, cw, cr)"

text \<open>The number of bytes a call has moved.\<close>

definition moved :: "pipe_call \<Rightarrow> nat" where
  "moved c = c_max c - c_n c + (case c_at c of Copied d \<Rightarrow> d | _ \<Rightarrow> 0)"

definition call_ok :: "pipe_call \<Rightarrow> bool" where
  "call_ok c \<longleftrightarrow> c_n c \<le> c_max c \<and> (case c_at c of Copied d \<Rightarrow> d \<le> c_n c | Done r \<Rightarrow> r = c_max c - c_n c | Enter \<Rightarrow> c_n c = c_max c | _ \<Rightarrow> True)"

text \<open>The kernel calls leave the pipe alone and only change the place the call has reached.\<close>

lemma pc_Ok:
  "pc_lock mx a b c s = Ok (c', s') \<Longrightarrow> pp_pipes s' = pp_pipes s \<and> (\<exists>x\<in>{a, b}. c' = c\<lparr>c_at := x\<rparr>)"
  "pc_locked mx a c s = Ok (c', s') \<Longrightarrow> pp_pipes s' = pp_pipes s \<and> c' = c\<lparr>c_at := a\<rparr>"
  "pc_do f c s = Ok (c', s') \<Longrightarrow> pp_pipes s' = pp_pipes s \<and> c' = c"
  "pc_suspend trp timeout c s = Ok (c', s') \<Longrightarrow> pp_pipes s' = pp_pipes s \<and> (\<exists>x\<in>{Leaving, Looping, Suspended}. c' = c\<lparr>c_at := x\<rparr>)"
  "pc_suspended timeout c s = Ok (c', s') \<Longrightarrow> pp_pipes s' = pp_pipes s \<and> (\<exists>x\<in>{Leaving, Looping}. c' = c\<lparr>c_at := x\<rparr>)"
proof -
  show "pp_pipes s' = pp_pipes s \<and> (\<exists>x\<in>{a, b}. c' = c\<lparr>c_at := x\<rparr>)" if l: "pc_lock mx a b c s = Ok (c', s')"
  proof -
    obtain r k where "chMtxLock mx (pp_k s) = Ok (r, k)" using l by (auto simp: pc_lock_def)
    then show ?thesis using l by (cases r) (auto simp: pc_lock_def)
  qed
  show "pp_pipes s' = pp_pipes s \<and> (\<exists>x\<in>{Leaving, Looping, Suspended}. c' = c\<lparr>c_at := x\<rparr>)" if l: "pc_suspend trp timeout c s = Ok (c', s')"
  proof -
    obtain r k where "locked_wait (chThdSuspendTimeoutS trp timeout) (pp_k s) = Ok (r, k)" using l by (auto simp: pc_suspend_def)
    then show ?thesis using l by (cases r) (auto simp: pc_suspend_def after_msg_def)
  qed
qed (auto simp: pc_locked_def pc_do_def pc_suspended_def after_msg_def)

text \<open>What a step does to the pipe and to the call: nothing is moved, except when it copies.\<close>

lemma pipe_write_step:
  assumes "chPipeWriteTimeout pp tw c s = Ok (c', s')" and "call_ok c" and "pipe_ok (pp_pipes s pp)"
    and "c_bp c = drop (c_max c - c_n c) D" and "c_max c = length D"
  shows "call_ok c' \<and> pipe_ok (pp_pipes s' pp) \<and> c_bp c' = drop (c_max c' - c_n c') D \<and> c_max c' = length D \<and>
    pipe_items (pp_pipes s' pp) = pipe_items (pp_pipes s pp) @ take (moved c' - moved c) (drop (moved c) D) \<and> moved c \<le> moved c'"
proof (cases "c_at c")
  case Copying
  let ?n = "min (length (c_bp c)) (chPipeGetFreeCount (pp_pipes s pp))"
  obtain p where p: "pipe_write (c_bp c) (pp_pipes s pp) = Ok (?n, p)" "pipe_ok p" "pipe_items p = pipe_items (pp_pipes s pp) @ take ?n (c_bp c)"
    using pipe_write_ok [OF assms(3), of "c_bp c"] by blast
  have e: "c' = c\<lparr>c_at := Copied ?n\<rparr>" "pp_pipes s' pp = p" using assms(1) Copying p(1) by (auto simp: chPipeWriteTimeout_def pc_do_def)
  have n: "length (c_bp c) = c_n c" using assms(2,4,5) by (auto simp: call_ok_def)
  show ?thesis using e p(2,3) assms(2,4,5) n Copying by (simp add: call_ok_def moved_def)
next
  case (Copied d)
  then show ?thesis using assms by (auto simp: chPipeWriteTimeout_def add.commute call_ok_def moved_def split: if_splits dest!: pc_Ok)
qed (use assms in \<open>auto simp: chPipeWriteTimeout_def call_ok_def moved_def split: if_splits dest!: pc_Ok\<close>)

lemma pipe_read_step:
  assumes "chPipeReadTimeout pp tr c s = Ok (c', s')" and "call_ok c" and "pipe_ok (pp_pipes s pp)" and "length (c_bp c) = moved c"
  shows "call_ok c' \<and> pipe_ok (pp_pipes s' pp) \<and> length (c_bp c') = moved c' \<and> c_max c' = c_max c \<and>
    c_bp c' @ pipe_items (pp_pipes s' pp) = c_bp c @ pipe_items (pp_pipes s pp)"
proof (cases "c_at c")
  case Copying
  obtain p where p: "pipe_read (c_n c) (pp_pipes s pp) = Ok (take (c_n c) (pipe_items (pp_pipes s pp)), p)" "pipe_ok p"
      "pipe_items p = drop (c_n c) (pipe_items (pp_pipes s pp))"
    using pipe_read_ok [OF assms(3), of "c_n c"] by blast
  let ?b = "take (c_n c) (pipe_items (pp_pipes s pp))"
  have e: "c' = c\<lparr>c_at := Copied (length ?b), c_bp := c_bp c @ ?b\<rparr>" "pp_pipes s' pp = p"
    using assms(1) Copying p(1) by (auto simp: chPipeReadTimeout_def pc_do_def)
  show ?thesis using e p(2,3) assms(2,4) Copying by (simp add: call_ok_def moved_def)
next
  case (Copied d)
  then show ?thesis using assms by (auto simp: chPipeReadTimeout_def call_ok_def moved_def split: if_splits dest!: pc_Ok)
qed (use assms in \<open>auto simp: chPipeReadTimeout_def call_ok_def moved_def split: if_splits dest!: pc_Ok\<close>)

definition pipe_inv :: "ptr \<Rightarrow> byte list \<Rightarrow> byte list \<Rightarrow> nat \<Rightarrow> pipesys \<times> pipe_call \<times> pipe_call \<Rightarrow> bool" where
  "pipe_inv pp xs D m = (\<lambda>(s, cw, cr). call_ok cw \<and> call_ok cr \<and> pipe_ok (pp_pipes s pp) \<and>
     c_bp cw = drop (c_max cw - c_n cw) D \<and> c_max cw = length D \<and> length (c_bp cr) = moved cr \<and> c_max cr = m \<and>
     c_bp cr @ pipe_items (pp_pipes s pp) = xs @ take (moved cw) D)"

lemma pipe_step_inv: "pipe_step pp tw tr x y \<Longrightarrow> pipe_inv pp xs D m x \<Longrightarrow> pipe_inv pp xs D m y"
proof (induction rule: pipe_step.induct)
  case (writes cw s cw' s' cr)
  note w = pipe_write_step [OF writes(1)]
  have i: "call_ok cw" "pipe_ok (pp_pipes s pp)" "c_bp cw = drop (c_max cw - c_n cw) D" "c_max cw = length D"
    "c_bp cr @ pipe_items (pp_pipes s pp) = xs @ take (moved cw) D" using writes(2) by (auto simp: pipe_inv_def)
  note w = w [OF i(1-4)]
  have "take (moved cw') D = take (moved cw) D @ take (moved cw' - moved cw) (drop (moved cw) D)"
    using w take_add [of "moved cw" "moved cw' - moved cw" D] by simp
  then have "c_bp cr @ pipe_items (pp_pipes s' pp) = xs @ take (moved cw') D" using w i(5) by simp
  then show ?case using w writes(2) by (simp add: pipe_inv_def)
next
  case (reads cr s cr' s' cw)
  then show ?case using pipe_read_step [OF reads(1)] by (auto simp: pipe_inv_def)
qed (auto simp: pipe_inv_def)

lemma pipe_reach_inv: "(pipe_step pp tw tr)\<^sup>*\<^sup>* x y \<Longrightarrow> pipe_inv pp xs D m x \<Longrightarrow> pipe_inv pp xs D m y"
  by (induction rule: rtranclp_induct) (auto intro: pipe_step_inv)


section \<open>Calls that nothing holds up\<close>

fun steps :: "(pipe_call \<Rightarrow> pipesys \<Rightarrow> (pipe_call \<times> pipesys) kres) \<Rightarrow> nat \<Rightarrow> pipe_call \<Rightarrow> pipesys \<Rightarrow> (pipe_call \<times> pipesys) kres" where
  "steps f 0 c s = Ok (c, s)"
| "steps f (Suc n) c s = kbind (f c s) (\<lambda>(c, s). steps f n c s)"

lemma steps_numeral: "steps f (numeral n) c s = kbind (f c s) (\<lambda>(c, s). steps f (pred_numeral n) c s)"
  by (simp add: numeral_eq_Suc)

text \<open>Nobody holds a mutex of the pipe or waits at it.\<close>

definition pipe_ready :: "ptr \<Rightarrow> pipesys \<Rightarrow> bool" where
  "pipe_ready pp s \<longleftrightarrow> running (pp_k s) \<and> mtx_free (pp_wmtx pp) (pp_k s) \<and> mtx_free (pp_rmtx pp) (pp_k s) \<and> mtx_free (pp_cmtx pp) (pp_k s) \<and>
     trefs (pp_k s) (pp_wtr pp) = NULL \<and> trefs (pp_k s) (pp_rtr pp) = NULL \<and> pipe_ok (pp_pipes s pp) \<and> \<not> pi_reset (pp_pipes s pp)"

lemma resume_nobody: "running k \<Longrightarrow> trefs k trp = NULL \<Longrightarrow> chThdResume trp msg k = Ok k"
  using running_lock [of k] running_unlock [of "k\<lparr>lock_cnt := 1\<rparr>"] running_same [of k]
  by (simp add: chThdResume_def locked_def chThdResumeS_def running_def)

text \<open>
  The kernel after a lock and unlock of the buffer inside a lock of the other mutex, and after the outer unlock.
\<close>

lemma nested:
  assumes "running k" and "mtx_free a k" and "mtx_free c k" and "a \<noteq> c"
  defines "k1 \<equiv> give a (currp k) k"
  defines "k2 \<equiv> give c (currp k) k1"
  defines "k3 \<equiv> mtx_drop c k2"
  shows "chMtxLock a k = Ok (Returned (), k1)" "chMtxLock c k1 = Ok (Returned (), k2)" "chMtxUnlock c k2 = Ok k3"
    "chMtxUnlock a k3 = Ok (mtx_drop a k3)" "running k3" "running (mtx_drop a k3)" "trefs k3 = trefs k" "trefs (mtx_drop a k3) = trefs k"
    "mtx_free x k \<Longrightarrow> mtx_free x (mtx_drop a k3)"
proof -
  note l1 = lock_free [OF assms(1,2), folded k1_def]
  have f: "mtx_free c k1" "running k1" "currp k1 = currp k" using assms(1,3,4) by (simp_all add: k1_def mtx_free_def)
  note l2 = lock_free [OF f(2,1), unfolded f(3), folded k2_def]
  have r2: "running k2" using f(2) by (simp add: k2_def)
  note u2 = unlock_top [OF r2 l2(2), folded k3_def]
  have r3: "running k3" using r2 by (simp add: k3_def)
  have t: "mtx_top a k3" using l1(2) assms(4) by (simp add: mtx_top_def k3_def k2_def f(3))
  note u1 = unlock_top [OF r3 t]
  show "chMtxLock a k = Ok (Returned (), k1)" "chMtxLock c k1 = Ok (Returned (), k2)" "chMtxUnlock c k2 = Ok k3"
    "chMtxUnlock a k3 = Ok (mtx_drop a k3)" "running k3" "running (mtx_drop a k3)" using l1(1) l2(1) u2(1) u1(1) r3 by simp_all
  show "trefs k3 = trefs k" "trefs (mtx_drop a k3) = trefs k" by (simp_all add: k3_def k2_def k1_def)
  show "mtx_free x k \<Longrightarrow> mtx_free x (mtx_drop a k3)" by (simp add: mtx_free_def k3_def k2_def k1_def)
qed

lemma pp_distinct: "pp_wmtx pp \<noteq> pp_cmtx pp" "pp_rmtx pp \<noteq> pp_cmtx pp"
  by (simp_all add: pp_wmtx_def pp_cmtx_def pp_rmtx_def)

lemma write_completes:
  assumes "pipe_ready pp s" and "bs \<noteq> []" and "length bs \<le> chPipeGetFreeCount (pp_pipes s pp)"
  obtains c s' where "steps (chPipeWriteTimeout pp timeout) 6 (write_call bs) s = Ok (c, s')" and "c_at c = Done (length bs)" and "pipe_ready pp s'"
    and "pipe_items (pp_pipes s' pp) = pipe_items (pp_pipes s pp) @ bs"
proof -
  let ?k = "pp_k s" let ?w = "pp_wmtx pp" let ?c = "pp_cmtx pp"
  have r: "running ?k" "mtx_free ?w ?k" "mtx_free ?c ?k" "trefs ?k (pp_rtr pp) = NULL" "pipe_ok (pp_pipes s pp)" "\<not> pi_reset (pp_pipes s pp)"
    using assms(1) by (simp_all add: pipe_ready_def)
  note n = nested [OF r(1-3) pp_distinct(1)]
  obtain p where p: "pipe_write bs (pp_pipes s pp) = Ok (length bs, p)" "pipe_ok p" "pipe_items p = pipe_items (pp_pipes s pp) @ bs"
      "pi_reset p = pi_reset (pp_pipes s pp)" using pipe_write_ok [OF r(5), of bs] assms(3) by (auto simp: min_absorb1)
  let ?k3 = "mtx_drop ?c (give ?c (currp ?k) (give ?w (currp ?k) ?k))"
  let ?s = "s\<lparr>pp_k := mtx_drop ?w ?k3, pp_pipes := (pp_pipes s)(pp := p)\<rparr>"
  have "chThdResume (pp_rtr pp) MSG_OK ?k3 = Ok ?k3" using resume_nobody [OF n(5)] n(7) r(4) by simp
  then have "steps (chPipeWriteTimeout pp timeout) 6 (write_call bs) s = Ok (\<lparr>c_at = Done (length bs), c_bp = [], c_n = 0, c_max = length bs\<rparr>, ?s)"
    using assms(2) r(6) n(1-4) p(1) by (simp add: steps_numeral chPipeWriteTimeout_def write_call_def pc_lock_def pc_do_def)
  moreover have "pipe_ready pp ?s" using assms(1) n(6,8,9) p(2,4) by (simp add: pipe_ready_def)
  ultimately show ?thesis using that p(3) by simp
qed

lemma read_completes:
  assumes "pipe_ready pp s" and "0 < n" and "n \<le> pi_cnt (pp_pipes s pp)"
  obtains c s' where "steps (chPipeReadTimeout pp timeout) 6 (read_call n) s = Ok (c, s')" and "c_at c = Done n" and "pipe_ready pp s'"
    and "c_bp c = take n (pipe_items (pp_pipes s pp))" and "pipe_items (pp_pipes s' pp) = drop n (pipe_items (pp_pipes s pp))"
proof -
  let ?k = "pp_k s" let ?r = "pp_rmtx pp" let ?c = "pp_cmtx pp"
  have r: "running ?k" "mtx_free ?r ?k" "mtx_free ?c ?k" "trefs ?k (pp_wtr pp) = NULL" "pipe_ok (pp_pipes s pp)" "\<not> pi_reset (pp_pipes s pp)"
    using assms(1) by (simp_all add: pipe_ready_def)
  note m = nested [OF r(1-3) pp_distinct(2)]
  let ?b = "take n (pipe_items (pp_pipes s pp))"
  obtain p where p: "pipe_read n (pp_pipes s pp) = Ok (?b, p)" "pipe_ok p" "pipe_items p = drop n (pipe_items (pp_pipes s pp))"
      "pi_reset p = pi_reset (pp_pipes s pp)" using pipe_read_ok [OF r(5), of n] by auto
  have len: "length ?b = n" using assms(3) by simp
  let ?k3 = "mtx_drop ?c (give ?c (currp ?k) (give ?r (currp ?k) ?k))"
  let ?s = "s\<lparr>pp_k := mtx_drop ?r ?k3, pp_pipes := (pp_pipes s)(pp := p)\<rparr>"
  have "chThdResume (pp_wtr pp) MSG_OK ?k3 = Ok ?k3" using resume_nobody [OF m(5)] m(7) r(4) by simp
  then have "steps (chPipeReadTimeout pp timeout) 6 (read_call n) s = Ok (\<lparr>c_at = Done n, c_bp = ?b, c_n = 0, c_max = n\<rparr>, ?s)"
    using assms(2) r(6) m(1-4) p(1) len by (simp add: steps_numeral chPipeReadTimeout_def read_call_def pc_lock_def pc_do_def del: length_take)
  moreover have "pipe_ready pp ?s" using assms(1) m(6,8,9) p(2,4) by (simp add: pipe_ready_def)
  ultimately show ?thesis using that p(3) by simp
qed

definition demo_pipesys :: pipesys where
  "demo_pipesys = \<lparr>pp_k = demo_kernel\<lparr>lock_cnt := 0\<rparr>, pp_pipes = (\<lambda>_. \<lparr>pi_buffer = [0, 0, 0, 0], pi_wrptr = 3, pi_rdptr = 3, pi_cnt = 0, pi_reset = False\<rparr>)\<rparr>"

lemma demo_pipesys_free: "chPipeGetFreeCount (pp_pipes demo_pipesys pp) = 4" "chPipeGetSize (pp_pipes demo_pipesys pp) = 4"
  "pipe_ok (pp_pipes demo_pipesys pp)" "pipe_items (pp_pipes demo_pipesys pp) = []"
  by (simp_all add: demo_pipesys_def chPipeGetFreeCount_def chPipeGetSize_def chPipeGetUsedCount_def pipe_ok_def pipe_items_def)

lemma demo_pipesys_ready: "pipe_ready 0x1000 demo_pipesys"
proof -
  have "running (pp_k demo_pipesys)" using demo_kernel_ok by (simp add: demo_pipesys_def running_def sched_ok_def thread_idle_ctx_def thd_ctx_def)
  then show ?thesis
    by (simp add: pipe_ready_def mtx_free_def demo_pipesys_def demo_kernel_def kernel_reset_def mtx_owner_def pp_wmtx_def pp_rmtx_def pp_cmtx_def
        pp_wtr_def pp_rtr_def pipe_ok_def)
qed


text \<open>
  What is written to a pipe is read from it: with the pipe at rest and empty, a write of bytes that fit returns their number
  at once, and a read of that many bytes returns them, wherever in the buffer they lie; the pipe is then at rest and empty again.
\<close>

theorem pipe_roundtrip:
  assumes "pipe_ready pp s" and "pipe_items (pp_pipes s pp) = []" and "bs \<noteq> []" and "length bs \<le> chPipeGetSize (pp_pipes s pp)"
  shows "\<exists>cw s1 cr s2. steps (chPipeWriteTimeout pp tw) 6 (write_call bs) s = Ok (cw, s1) \<and> c_at cw = Done (length bs) \<and>
    steps (chPipeReadTimeout pp tr) 6 (read_call (length bs)) s1 = Ok (cr, s2) \<and> c_at cr = Done (length bs) \<and> c_bp cr = bs \<and>
    pipe_ready pp s2 \<and> pipe_items (pp_pipes s2 pp) = []"
proof -
  have e: "pi_cnt (pp_pipes s pp) = 0" using assms(2) length_pipe_items [of "pp_pipes s pp"] by simp
  obtain cw s1 where w: "steps (chPipeWriteTimeout pp tw) 6 (write_call bs) s = Ok (cw, s1)" "c_at cw = Done (length bs)" "pipe_ready pp s1"
      "pipe_items (pp_pipes s1 pp) = bs"
    by (rule write_completes [OF assms(1,3), of tw]) (use assms(2,4) e in \<open>simp_all add: chPipeGetFreeCount_def chPipeGetUsedCount_def\<close>)
  have "pi_cnt (pp_pipes s1 pp) = length bs" using w(4) length_pipe_items [of "pp_pipes s1 pp"] by simp
  then obtain cr s2 where "steps (chPipeReadTimeout pp tr) 6 (read_call (length bs)) s1 = Ok (cr, s2)" "c_at cr = Done (length bs)" "pipe_ready pp s2"
      "c_bp cr = bs" "pipe_items (pp_pipes s2 pp) = []"
    by (rule_tac read_completes [OF w(3), of "length bs" tr]) (use assms(3) w(4) in simp_all)
  then show ?thesis using w by blast
qed

theorem pipe_roundtrip_witness:
  "\<exists>cw s1 cr s2. steps (chPipeWriteTimeout 0x1000 TIME_INFINITE) 6 (write_call [1, 2, 3]) demo_pipesys = Ok (cw, s1) \<and>
     steps (chPipeReadTimeout 0x1000 TIME_INFINITE) 6 (read_call 3) s1 = Ok (cr, s2) \<and> c_bp cr = [1, 2, 3]"
proof -
  have "[1, 2, 3 :: byte] \<noteq> []" and l: "length [1, 2, 3 :: byte] = 3" by simp_all
  then show ?thesis using pipe_roundtrip [OF demo_pipesys_ready demo_pipesys_free(4), of "[1, 2, 3]" TIME_INFINITE TIME_INFINITE]
    unfolding demo_pipesys_free(2) l by auto
qed

section \<open>A lost wake-up\<close>

text \<open>A writer runs, a reader of higher priority sleeps for some time, the pipe is full.\<close>

definition demo_full :: pipesys where
  "demo_full = \<lparr>pp_k = kernel_reset\<lparr>threads := (\<lambda>_. no_thread)
       (16 := no_thread\<lparr>t_prio := 64, t_realprio := 64, t_state := CH_STATE_CURRENT\<rparr>,
        32 := no_thread\<lparr>t_prio := 128, t_realprio := 128, t_state := CH_STATE_SLEEPING\<rparr>,
        48 := no_thread\<lparr>t_prio := 1, t_realprio := 1, t_state := CH_STATE_READY\<rparr>),
     queues := (\<lambda>_. [])(RLIST := [48]), currp := 16\<rparr>,
     pp_pipes = (\<lambda>_. \<lparr>pi_buffer = [7], pi_wrptr = 0, pi_rdptr = 0, pi_cnt = 1, pi_reset = False\<rparr>)\<rparr>"

text \<open>The interrupt that ends the sleep of the reader, with the preemption at its end; the end of the lock of a thread that was switched to.\<close>

definition sleep_ends :: "ptr \<Rightarrow> pipesys \<Rightarrow> pipesys kres" where
  "sleep_ends tp s =
     kbind (dbg_check_enter_isr (pp_k s)) (\<lambda>k. kbind (wakeup tp k) (\<lambda>k. kbind (dbg_check_leave_isr k) (\<lambda>k.
     kbind (chSysLock k) (\<lambda>k. kbind (chSchPreemption k) (\<lambda>k. kbind (chSysUnlock k) (\<lambda>k. Ok (s\<lparr>pp_k := k\<rparr>)))))))"

lemmas pipe_eval = chPipeWriteTimeout_def chPipeReadTimeout_def pc_lock_def pc_do_def pc_suspend_def pipe_write_def pipe_read_def copy_in_def copy_out_def
  chPipeGetFreeCount_def chPipeGetSize_def chPipeGetUsedCount_def pp_wmtx_def pp_rmtx_def pp_cmtx_def pp_wtr_def pp_rtr_def
lemmas kernel_eval = chMtxLock_def locked_wait_def chMtxLockS_def mtx_acquire_def chMtxUnlock_def locked_def mtx_release_def chMtxQueueNotEmptyS_def
  chThdResume_def chThdResumeS_def chThdSuspendTimeoutS_def set_tref_def mtx_owner_def mtx_next_def upd_mtx_def upd_th_def upd_q_def
  chDbgCheckClassS_def chDbgCheckClassI_def chSchGoSleepTimeoutS_def chSchGoSleepS_def q_first_out_def make_current_def
  wakeup_def chSchPreemption_def chSchDoRescheduleAhead_def chSchReadyI_def chSchReadyAheadI_def firstprio_def sys_defs dbg_defs NOPRIO_def


end
