(* ===== verification/Events.thy ===== *)
theory Events
  imports Creation
begin

unbundle bit_operations_syntax

text \<open>
  Event flags (\<open>os/rt/src/chevents.c\<close>, \<open>os/rt/include/chevents.h\<close>).

  A thread has a set of pending events, the bits of \<open>t_epending\<close>. It waits for any of some events in state
  \<open>CH_STATE_WTOREVT\<close>, for all of them in state \<open>CH_STATE_WTANDEVT\<close>, with the events in \<open>t_u\<close> (\<open>u.ewmask\<close>, which shares its
  place with \<open>u.rdymsg\<close>). An event source is the head of a circular list of listeners, linked by their first
  member: \<open>es_next\<close> is that member, of sources and of listeners alike, by address. The loops over the list
  carry the number of turns they may still take; \<open>evt_turns\<close> exceeds the number of listeners there can be.

  The invariant \<open>evt_inv\<close> says that no thread sleeps while what it waits for is pending. \<open>evt_ring\<close> relates the
  links to the list of the registered listeners, and the operations on a source to operations on this list.
\<close>

section \<open>Operations on the events of a thread\<close>

definition set_pending :: "u32 \<Rightarrow> ptr \<Rightarrow> kernel \<Rightarrow> kernel" where
  "set_pending m tp k = upd_th tp (t_epending_update (\<lambda>_. m)) k"

abbreviation pending :: "kernel \<Rightarrow> ptr \<Rightarrow> u32" where "pending k tp \<equiv> t_epending (threads k tp)"

definition chEvtGetAndClearEventsI :: "u32 \<Rightarrow> kernel \<Rightarrow> u32 \<times> kernel" where
  "chEvtGetAndClearEventsI events k =
     (let m = pending k (currp k) AND events
      in (m, set_pending (pending k (currp k) AND NOT events) (currp k) k))"

definition chEvtGetAndClearEvents :: "u32 \<Rightarrow> kernel \<Rightarrow> (u32 \<times> kernel) kres" where
  "chEvtGetAndClearEvents events k =
     kbind (chSysLock k) (\<lambda>k. case chEvtGetAndClearEventsI events k of (m, k) \<Rightarrow> unlock_resume m k)"

definition chEvtAddEventsI :: "u32 \<Rightarrow> kernel \<Rightarrow> u32 \<times> kernel" where
  "chEvtAddEventsI events k =
     (let m = pending k (currp k) OR events in (m, set_pending m (currp k) k))"

definition chEvtAddEvents :: "u32 \<Rightarrow> kernel \<Rightarrow> (u32 \<times> kernel) kres" where
  "chEvtAddEvents events k =
     kbind (chSysLock k) (\<lambda>k. case chEvtAddEventsI events k of (m, k) \<Rightarrow> unlock_resume m k)"

definition chEvtGetEventsX :: "kernel \<Rightarrow> u32" where
  "chEvtGetEventsX k = pending k (currp k)"

definition evt_satisfied :: "ptr \<Rightarrow> kernel \<Rightarrow> bool" where
  "evt_satisfied tp k \<longleftrightarrow>
     (state_of k tp = CH_STATE_WTOREVT \<and> pending k tp AND t_u (threads k tp) \<noteq> 0) \<or>
     (state_of k tp = CH_STATE_WTANDEVT \<and> pending k tp AND t_u (threads k tp) = t_u (threads k tp))"

definition chEvtSignalI :: "ptr \<Rightarrow> u32 \<Rightarrow> kernel \<Rightarrow> kernel kres" where
  "chEvtSignalI tp events k =
     chDbgCheckClassI k (
     kguard (tp \<noteq> NULL) ''chEvtSignalI'' (
     let k = set_pending (pending k tp OR events) tp k
     in if evt_satisfied tp k then chSchReadyI tp (set_u MSG_OK tp k) else Ok k))"

definition evt_signal_body :: "ptr \<Rightarrow> u32 \<Rightarrow> kernel \<Rightarrow> kernel kres" where
  "evt_signal_body tp events k = kbind (chEvtSignalI tp events k) chSchRescheduleS"

definition chEvtSignal :: "ptr \<Rightarrow> u32 \<Rightarrow> kernel \<Rightarrow> kernel kres" where
  "chEvtSignal tp events k = kguard (tp \<noteq> NULL) ''chEvtSignal'' (locked (evt_signal_body tp events) k)"

section \<open>Waiting for events\<close>

text \<open>
  The three ways to wait: for the lowest of the given events that is pending (\<open>One\<close>), for all that are
  pending if any is (\<open>Any\<close>), for all of them (\<open>All\<close>). \<open>evt_sleep\<close> is the test under which the caller goes to
  sleep, \<open>evt_take\<close> what it does at the end.
\<close>

datatype evt_mode = One | Any | All

definition lowest_bit :: "u32 \<Rightarrow> u32" where
  "lowest_bit m = m XOR (m AND (m - 1))"

fun evt_sleep :: "evt_mode \<Rightarrow> u32 \<Rightarrow> u32 \<Rightarrow> bool" where
  "evt_sleep One events p = (p AND events = 0)"
| "evt_sleep Any events p = (p AND events = 0)"
| "evt_sleep All events p = (p AND events \<noteq> events)"

fun evt_state :: "evt_mode \<Rightarrow> tstate" where
  "evt_state One = CH_STATE_WTOREVT"
| "evt_state Any = CH_STATE_WTOREVT"
| "evt_state All = CH_STATE_WTANDEVT"

fun evt_taken :: "evt_mode \<Rightarrow> u32 \<Rightarrow> u32 \<Rightarrow> u32" where
  "evt_taken One events p = lowest_bit (p AND events)"
| "evt_taken Any events p = p AND events"
| "evt_taken All events p = events"

definition evt_take :: "evt_mode \<Rightarrow> u32 \<Rightarrow> kernel \<Rightarrow> u32 \<times> kernel" where
  "evt_take mode events k =
     (let m = evt_taken mode events (pending k (currp k))
      in (m, set_pending (pending k (currp k) AND NOT m) (currp k) k))"

definition evt_wait_body :: "evt_mode \<Rightarrow> u32 \<Rightarrow> kernel \<Rightarrow> (u32 wait \<times> kernel) kres" where
  "evt_wait_body mode events k =
     (if evt_sleep mode events (pending k (currp k))
      then kbind (chSchGoSleepS (evt_state mode) (set_u events (currp k) k)) (\<lambda>k. Ok (Asleep, k))
      else case evt_take mode events k of (m, k) \<Rightarrow> Ok (Returned m, k))"

definition evt_wait_resume :: "evt_mode \<Rightarrow> u32 \<Rightarrow> kernel \<Rightarrow> (u32 \<times> kernel) kres" where
  "evt_wait_resume mode events k = (case evt_take mode events k of (m, k) \<Rightarrow> unlock_resume m k)"

definition chEvtWaitOne :: "u32 \<Rightarrow> kernel \<Rightarrow> (u32 wait \<times> kernel) kres" where
  "chEvtWaitOne events = locked_wait (evt_wait_body One events)"

definition chEvtWaitAny :: "u32 \<Rightarrow> kernel \<Rightarrow> (u32 wait \<times> kernel) kres" where
  "chEvtWaitAny events = locked_wait (evt_wait_body Any events)"

definition chEvtWaitAll :: "u32 \<Rightarrow> kernel \<Rightarrow> (u32 wait \<times> kernel) kres" where
  "chEvtWaitAll events = locked_wait (evt_wait_body All events)"

definition evt_timed_body :: "evt_mode \<Rightarrow> u32 \<Rightarrow> u32 \<Rightarrow> kernel \<Rightarrow> (u32 wait \<times> kernel) kres" where
  "evt_timed_body mode events timeout k =
     (if evt_sleep mode events (pending k (currp k))
      then if TIME_IMMEDIATE = timeout then Ok (Returned 0, k)
           else kbind (chSchGoSleepTimeoutS (evt_state mode) timeout (set_u events (currp k) k)) (\<lambda>k. Ok (Asleep, k))
      else case evt_take mode events k of (m, k) \<Rightarrow> Ok (Returned m, k))"

definition evt_timed_resume :: "evt_mode \<Rightarrow> u32 \<Rightarrow> u32 \<Rightarrow> kernel \<Rightarrow> (u32 \<times> kernel) kres" where
  "evt_timed_resume mode events timeout k =
     kbind (chSchGoSleepTimeoutS_resume timeout k) (\<lambda>(msg, k).
     if sint msg < sint MSG_OK then unlock_resume 0 k
     else case evt_take mode events k of (m, k) \<Rightarrow> unlock_resume m k)"

definition chEvtWaitOneTimeout :: "u32 \<Rightarrow> u32 \<Rightarrow> kernel \<Rightarrow> (u32 wait \<times> kernel) kres" where
  "chEvtWaitOneTimeout events timeout = locked_wait (evt_timed_body One events timeout)"

definition chEvtWaitAnyTimeout :: "u32 \<Rightarrow> u32 \<Rightarrow> kernel \<Rightarrow> (u32 wait \<times> kernel) kres" where
  "chEvtWaitAnyTimeout events timeout = locked_wait (evt_timed_body Any events timeout)"

definition chEvtWaitAllTimeout :: "u32 \<Rightarrow> u32 \<Rightarrow> kernel \<Rightarrow> (u32 wait \<times> kernel) kres" where
  "chEvtWaitAllTimeout events timeout = locked_wait (evt_timed_body All events timeout)"

section \<open>Event sources\<close>

record event_listener =
  el_listener :: ptr
  el_events :: u32
  el_flags :: u32
  el_wflags :: u32

record eventsys =
  es_k :: kernel
  es_next :: "ptr \<Rightarrow> ptr"
  es_lsn :: "ptr \<Rightarrow> event_listener"

definition evt_turns :: nat where "evt_turns = 2 ^ 32"

definition EVENT_MASK :: "nat \<Rightarrow> u32" where "EVENT_MASK eid = push_bit eid 1"

definition chEvtObjectInit :: "ptr \<Rightarrow> eventsys \<Rightarrow> eventsys" where
  "chEvtObjectInit esp s = s\<lparr>es_next := (es_next s)(esp := esp)\<rparr>"

definition chEvtIsListeningI :: "ptr \<Rightarrow> eventsys \<Rightarrow> bool" where
  "chEvtIsListeningI esp s = (esp \<noteq> es_next s esp)"

definition chEvtRegisterMaskWithFlags :: "ptr \<Rightarrow> ptr \<Rightarrow> u32 \<Rightarrow> u32 \<Rightarrow> eventsys \<Rightarrow> eventsys kres" where
  "chEvtRegisterMaskWithFlags esp elp events wflags s =
     kguard (esp \<noteq> NULL \<and> elp \<noteq> NULL) ''chEvtRegisterMaskWithFlags'' (
     kbind (chSysLock (es_k s)) (\<lambda>k.
     let nx = (es_next s)(elp := es_next s esp); nx = nx(esp := elp);
         l = \<lparr>el_listener = currp k, el_events = events, el_flags = 0, el_wflags = wflags\<rparr>
     in kbind (chSysUnlock k) (\<lambda>k. Ok (s\<lparr>es_k := k, es_next := nx, es_lsn := (es_lsn s)(elp := l)\<rparr>))))"

definition chEvtRegisterMask :: "ptr \<Rightarrow> ptr \<Rightarrow> u32 \<Rightarrow> eventsys \<Rightarrow> eventsys kres" where
  "chEvtRegisterMask esp elp events = chEvtRegisterMaskWithFlags esp elp events (- 1)"

definition chEvtRegister :: "ptr \<Rightarrow> ptr \<Rightarrow> nat \<Rightarrow> eventsys \<Rightarrow> eventsys kres" where
  "chEvtRegister esp elp event = chEvtRegisterMask esp elp (EVENT_MASK event)"

fun unregister_loop :: "nat \<Rightarrow> ptr \<Rightarrow> ptr \<Rightarrow> ptr \<Rightarrow> (ptr \<Rightarrow> ptr) \<Rightarrow> (ptr \<Rightarrow> ptr) kres" where
  "unregister_loop n esp elp p nx =
     (if nx p = esp then Ok nx
      else if nx p = elp then Ok (nx(p := nx elp))
      else case n of 0 \<Rightarrow> Diverge | Suc m \<Rightarrow> unregister_loop m esp elp (nx p) nx)"

definition chEvtUnregister :: "ptr \<Rightarrow> ptr \<Rightarrow> eventsys \<Rightarrow> eventsys kres" where
  "chEvtUnregister esp elp s =
     kguard (esp \<noteq> NULL \<and> elp \<noteq> NULL) ''chEvtUnregister'' (
     kbind (chSysLock (es_k s)) (\<lambda>k.
     kbind (unregister_loop evt_turns esp elp esp (es_next s)) (\<lambda>nx.
     kbind (chSysUnlock k) (\<lambda>k. Ok (s\<lparr>es_k := k, es_next := nx\<rparr>)))))"

fun broadcast_loop :: "nat \<Rightarrow> ptr \<Rightarrow> u32 \<Rightarrow> ptr \<Rightarrow> eventsys \<Rightarrow> eventsys kres" where
  "broadcast_loop n esp flags elp s =
     (if elp = esp then Ok s
      else case n of 0 \<Rightarrow> Diverge
      | Suc m \<Rightarrow>
          let l = (es_lsn s elp)\<lparr>el_flags := el_flags (es_lsn s elp) OR flags\<rparr>;
              s = s\<lparr>es_lsn := (es_lsn s)(elp := l)\<rparr>
          in kbind (if flags = 0 \<or> flags AND el_wflags l \<noteq> 0
                    then chEvtSignalI (el_listener l) (el_events l) (es_k s) else Ok (es_k s)) (\<lambda>k.
             broadcast_loop m esp flags (es_next s elp) (s\<lparr>es_k := k\<rparr>)))"

definition chEvtBroadcastFlagsI :: "ptr \<Rightarrow> u32 \<Rightarrow> eventsys \<Rightarrow> eventsys kres" where
  "chEvtBroadcastFlagsI esp flags s =
     chDbgCheckClassI (es_k s) (
     kguard (esp \<noteq> NULL) ''chEvtBroadcastFlagsI'' (
     broadcast_loop evt_turns esp flags (es_next s esp) s))"

definition chEvtBroadcastFlags :: "ptr \<Rightarrow> u32 \<Rightarrow> eventsys \<Rightarrow> eventsys kres" where
  "chEvtBroadcastFlags esp flags s =
     kbind (chSysLock (es_k s)) (\<lambda>k.
     kbind (chEvtBroadcastFlagsI esp flags (s\<lparr>es_k := k\<rparr>)) (\<lambda>s.
     kbind (chSchRescheduleS (es_k s)) (\<lambda>k.
     kbind (chSysUnlock k) (\<lambda>k. Ok (s\<lparr>es_k := k\<rparr>)))))"

definition chEvtBroadcastI :: "ptr \<Rightarrow> eventsys \<Rightarrow> eventsys kres" where
  "chEvtBroadcastI esp = chEvtBroadcastFlagsI esp 0"

definition chEvtBroadcast :: "ptr \<Rightarrow> eventsys \<Rightarrow> eventsys kres" where
  "chEvtBroadcast esp = chEvtBroadcastFlags esp 0"

definition chEvtGetAndClearFlagsI :: "ptr \<Rightarrow> eventsys \<Rightarrow> u32 \<times> eventsys" where
  "chEvtGetAndClearFlagsI elp s =
     (let flags = el_flags (es_lsn s elp)
      in (flags AND el_wflags (es_lsn s elp), s\<lparr>es_lsn := (es_lsn s)(elp := (es_lsn s elp)\<lparr>el_flags := 0\<rparr>)\<rparr>))"

definition chEvtGetAndClearFlags :: "ptr \<Rightarrow> eventsys \<Rightarrow> (u32 \<times> eventsys) kres" where
  "chEvtGetAndClearFlags elp s =
     kbind (chSysLock (es_k s)) (\<lambda>k.
     case chEvtGetAndClearFlagsI elp s of (flags, s) \<Rightarrow>
     kbind (chSysUnlock k) (\<lambda>k. Ok (flags, s\<lparr>es_k := k\<rparr>)))"

section \<open>Dispatching events to handlers\<close>

text \<open>
  The handlers are functions of the application: each takes the event it is called for and changes the
  state \<open>'s\<close>, \<open>None\<close> being the null pointer. \<open>1 << eid\<close> has no value for an \<open>eid\<close> beyond the width of the mask.
\<close>

fun dispatch_loop :: "nat \<Rightarrow> (nat \<Rightarrow> (nat \<Rightarrow> 's \<Rightarrow> 's kres) option) \<Rightarrow> nat \<Rightarrow> u32 \<Rightarrow> 's \<Rightarrow> 's kres" where
  "dispatch_loop n handlers eid events s =
     (if events = 0 then Ok s
      else case n of 0 \<Rightarrow> Undef
      | Suc m \<Rightarrow>
          if events AND EVENT_MASK eid \<noteq> 0
          then case handlers eid of None \<Rightarrow> Halt ''chEvtDispatch''
               | Some f \<Rightarrow> kbind (f eid s) (dispatch_loop m handlers (eid + 1) (events AND NOT (EVENT_MASK eid)))
          else dispatch_loop m handlers (eid + 1) events s)"

definition chEvtDispatch :: "(nat \<Rightarrow> (nat \<Rightarrow> 's \<Rightarrow> 's kres) option) \<Rightarrow> u32 \<Rightarrow> 's \<Rightarrow> 's kres" where
  "chEvtDispatch handlers events s = dispatch_loop 32 handlers 0 events s"

section \<open>The lowest bit\<close>

lemma odd_part: "(n :: nat) > 0 \<Longrightarrow> \<exists>i q. n = 2 ^ i * (2 * q + 1)"
proof (induction n rule: less_induct)
  case (less n)
  show ?case
  proof (cases "even n")
    case True
    then obtain i q where "n div 2 = 2 ^ i * (2 * q + 1)" using less by (metis even_two_times_div_two div_less_dividend less_numeral_extra(1) nat_0_less_mult_iff one_less_numeral_iff semiring_norm(76))
    then show ?thesis using True by (intro exI [of _ "Suc i"] exI [of _ q]) (auto elim!: evenE)
  next
    case False
    then obtain q where "n = 2 * q + 1" by (rule oddE)
    then show ?thesis by (intro exI [of _ 0] exI [of _ q]) simp
  qed
qed

lemma odd_part_bits:
  fixes i q j :: nat
  defines "n \<equiv> 2 ^ i * (2 * q + 1)"
  shows "j < i \<Longrightarrow> \<not> bit n j" and "bit n i" and "j < i \<Longrightarrow> bit (n - 1) j" and "\<not> bit (n - 1) i" and "j > i \<Longrightarrow> bit (n - 1) j = bit n j"
proof -
  have n: "n = push_bit i (2 * q + 1)" by (simp add: n_def push_bit_eq_mult)
  have pr: "n - 1 = push_bit i (2 * q) + mask i" by (simp add: n_def push_bit_eq_mult mask_eq_exp_minus_1 algebra_simps)
  have b: "bit (n - 1) m \<longleftrightarrow> (if m < i then True else bit (2 * q) (m - i))" for m
  proof -
    have "push_bit i (2 * q) + mask i = push_bit i (2 * q) OR mask i"
      by (rule disjunctive_add) (simp add: bit_simps)
    then show ?thesis unfolding pr by (auto simp: bit_simps)
  qed
  show "j < i \<Longrightarrow> \<not> bit n j" "bit n i" by (simp_all add: n bit_push_bit_iff bit_0)
  show "j < i \<Longrightarrow> bit (n - 1) j" "\<not> bit (n - 1) i" using b by (simp_all add: bit_0)
  show "j > i \<Longrightarrow> bit (n - 1) j = bit n j"
    using b [of j] by (cases "j - i") (auto simp: n bit_push_bit_iff bit_Suc)
qed

text \<open>\<open>m XOR (m AND (m - 1))\<close> is the lowest bit of \<open>m\<close>.\<close>

lemma lowest_bit_ok:
  assumes "m \<noteq> 0"
  shows "\<exists>i < 32. lowest_bit m = EVENT_MASK i \<and> bit m i \<and> (\<forall>j < i. \<not> bit m j)"
proof -
  obtain i q where iq: "unat m = 2 ^ i * (2 * q + 1)" using odd_part [of "unat m"] assms by (auto simp: unat_gt_0)
  note o = odd_part_bits [where i = i and q = q, folded iq]
  have e: "unat m - 1 = unat (m - 1)" using assms by (simp add: unat_minus_one)
  have bm: "bit m j = bit (unat m) j" and bp: "bit (m - 1) j = bit (unat m - 1) j" for j
    unfolding e using bit_imp_le_length [of "m - 1" j] bit_imp_le_length [of m j] by (auto simp: bit_unsigned_iff)
  have "i < 32" using o(2) bm [of i] bit_imp_le_length [of m i] by simp
  moreover have "lowest_bit m = EVENT_MASK i"
  proof (rule bit_word_eqI)
    fix j assume j: "j < LENGTH(32)"
    have "bit (lowest_bit m) j = (bit m j \<and> \<not> bit (m - 1) j)" by (auto simp: lowest_bit_def bit_xor_iff bit_and_iff)
    also have "\<dots> = (j = i)" unfolding bm bp using o(1,3,5) [of j] o(2,4) by (metis linorder_neqE_nat)
    also have "\<dots> = bit (EVENT_MASK i) j" using j by (auto simp: EVENT_MASK_def bit_push_bit_iff bit_1_iff bit_exp_iff)
    finally show "bit (lowest_bit m) j = bit (EVENT_MASK i) j" .
  qed
  ultimately show ?thesis using o(1,2) bm by auto
qed

section \<open>What the operations leave alone\<close>

lemma pending_same [simp]:
  "t_state (((threads k)(tp := t_epending_update f (threads k tp))) t) = state_of k t"
  "t_prio (((threads k)(tp := t_epending_update f (threads k tp))) t) = prio_of k t"
  "t_u (((threads k)(tp := t_epending_update f (threads k tp))) t) = t_u (threads k t)"
  by auto

lemma sched_inv_pending [simp]: "sched_inv (upd_th tp (t_epending_update f) k) = sched_inv k"
  unfolding sched_inv_def upd_th_threads upd_th_frame pending_same ..

lemma sched_order_pending [simp]: "sched_order (upd_th tp (t_epending_update f) k) = sched_order k"
  unfolding sched_order_def upd_th_threads upd_th_frame pending_same ..

lemma limbo_pending [simp]: "limbo tp (upd_th t (t_epending_update f) k) = limbo tp k"
  unfolding limbo_def upd_th_threads upd_th_frame pending_same ..

lemma pending_sched [simp]:
  "pending (ready_behind tp k) t = pending k t" "pending (ready_ahead tp k) t = pending k t"
  "pending (make_current tp k) t = pending k t" "pending (go_sleep st k) t = pending k t" "pending (resched k) t = pending k t"
  "pending (unwait tp k) t = pending k t"
  by (simp_all add: ready_behind_def ready_ahead_def make_current_def go_sleep_def resched_def switch_ahead_def)

section \<open>No thread sleeps on pending events\<close>

definition evt_inv :: "kernel \<Rightarrow> bool" where
  "evt_inv k \<longleftrightarrow> (\<forall>t. \<not> evt_satisfied t k)"

lemma evt_inv_mono:
  assumes "evt_inv k"
    and "\<And>t. state_of k' t \<in> {CH_STATE_WTOREVT, CH_STATE_WTANDEVT} \<Longrightarrow> state_of k' t = state_of k t \<and> t_u (threads k' t) = t_u (threads k t) \<and> pending k' t = pending k t"
  shows "evt_inv k'"
  using assms unfolding evt_inv_def evt_satisfied_def by (metis insertCI)

lemma evt_inv_lock [simp]: "evt_inv (k\<lparr>lock_cnt := n\<rparr>) = evt_inv k" "evt_inv (k\<lparr>isr_cnt := n\<rparr>) = evt_inv k"
  by (simp_all add: evt_inv_def evt_satisfied_def)

lemma evt_resched_states: "state_of (resched k) t \<in> {CH_STATE_READY, CH_STATE_CURRENT, state_of k t}"
  by (auto simp: resched_def switch_ahead_def)

lemma evt_inv_resched: "evt_inv k \<Longrightarrow> evt_inv (resched k)"
  by (erule evt_inv_mono) (use evt_resched_states [of k] in force)

text \<open>A thread that waits for events is in no list.\<close>

lemma evt_limbo:
  assumes "sched_inv k" and "state_of k tp \<in> {CH_STATE_WTOREVT, CH_STATE_WTANDEVT}"
  shows "limbo tp k"
proof -
  have "tp \<notin> set (queues k q)" for q
    using assms(2) sched_invD(4) [OF assms(1), of tp] sched_invD(5) [OF assms(1), of q tp] by (cases "q = RLIST") auto
  then show ?thesis using assms(2) by (auto simp: limbo_def)
qed

text \<open>\<open>evt_signal tp events k\<close>: the state after \<open>chEvtSignalI\<close>.\<close>

definition evt_signal :: "ptr \<Rightarrow> u32 \<Rightarrow> kernel \<Rightarrow> kernel" where
  "evt_signal tp events k =
     (let k = set_pending (pending k tp OR events) tp k
      in if evt_satisfied tp k then ready_behind tp (set_u MSG_OK tp k) else k)"

lemma evt_satisfied_limbo: "sched_inv k \<Longrightarrow> evt_satisfied tp k \<Longrightarrow> limbo tp k"
  using evt_limbo [of k tp] by (auto simp: evt_satisfied_def)

lemma chEvtSignalI_eq:
  assumes "sched_inv k" and "i_ctx k" and "tp \<noteq> NULL"
  shows "chEvtSignalI tp events k = Ok (evt_signal tp events k)"
proof -
  let ?k = "set_pending (pending k tp OR events) tp k"
  have "sched_inv ?k" "i_ctx ?k" using assms by (simp_all add: set_pending_def)
  then show ?thesis
    using assms evt_satisfied_limbo [of ?k tp] chSchReadyI_ok [of "set_u MSG_OK tp ?k" tp]
    by (simp add: chEvtSignalI_def evt_signal_def Let_def)
qed

lemma evt_signal_inv: "sched_inv k \<Longrightarrow> sched_inv (evt_signal tp events k)"
  using evt_satisfied_limbo [of "set_pending (pending k tp OR events) tp k" tp]
  by (simp add: evt_signal_def Let_def set_pending_def)

lemma evt_signal_frame [simp]:
  "currp (evt_signal tp events k) = currp k" "isr_cnt (evt_signal tp events k) = isr_cnt k" "lock_cnt (evt_signal tp events k) = lock_cnt k"
  "t \<noteq> tp \<Longrightarrow> threads (evt_signal tp events k) t = threads k t"
  "q \<noteq> RLIST \<Longrightarrow> queues (evt_signal tp events k) q = queues k q"
  "pending (evt_signal tp events k) t = (if t = tp then pending k tp OR events else pending k t)"
  by (simp_all add: evt_signal_def Let_def set_pending_def) (simp_all add: ready_behind_def)

lemma evt_signal_ctx [simp]: "thd_ctx (evt_signal tp events k) = thd_ctx k" "i_ctx (evt_signal tp events k) = i_ctx k"
  by (simp_all add: thd_ctx_def i_ctx_def)

text \<open>The signalled thread is made ready exactly if it waits for events that are now pending.\<close>

lemma evt_signal_state:
  "state_of (evt_signal tp events k) tp =
     (if evt_satisfied tp (set_pending (pending k tp OR events) tp k) then CH_STATE_READY else state_of k tp)"
  "\<not> evt_satisfied tp (set_pending (pending k tp OR events) tp k) \<Longrightarrow> t_u (threads (evt_signal tp events k) tp) = t_u (threads k tp)"
  by (simp_all add: evt_signal_def Let_def) (simp_all add: set_pending_def)

lemma evt_signal_sat: "\<not> evt_satisfied tp (evt_signal tp events k)"
proof (cases "evt_satisfied tp (set_pending (pending k tp OR events) tp k)")
  case True
  then show ?thesis using evt_signal_state(1) [of tp events k] by (simp add: evt_satisfied_def)
next
  case False
  then show ?thesis by (simp add: evt_signal_def)
qed

lemma evt_inv_signal:
  assumes "evt_inv k"
  shows "evt_inv (evt_signal tp events k)"
  unfolding evt_inv_def
proof
  fix t
  show "\<not> evt_satisfied t (evt_signal tp events k)"
    using evt_signal_sat [of tp] assms by (cases "t = tp") (auto simp: evt_inv_def evt_satisfied_def)
qed

lemma evt_signal_body_eq:
  assumes "sched_inv k" and "thd_ctx k" and "tp \<noteq> NULL"
  shows "evt_signal_body tp events k = Ok (resched (evt_signal tp events k))"
  using assms chEvtSignalI_eq [of k tp events] chSchRescheduleS_eq [OF evt_signal_inv [OF assms(1)], of tp events]
  by (simp add: evt_signal_body_def)

interpretation evt: s_service "evt_signal_body tp events" "\<lambda>_. tp \<noteq> NULL" for tp events
proof unfold_locales
  show "\<exists>k'. evt_signal_body tp events k = Ok k' \<and> sched_ok k' \<and> thd_ctx k'"
    if "sched_ok k" "thd_ctx k" "tp \<noteq> NULL" for k
    using that evt_signal_body_eq [of k tp events] resched_inv [OF evt_signal_inv [of k tp events]] by (simp add: sched_ok_def)
qed simp

section \<open>Waiting\<close>

lemma evt_take_eq:
  "evt_take mode events k = (evt_taken mode events (pending k (currp k)),
     set_pending (pending k (currp k) AND NOT (evt_taken mode events (pending k (currp k)))) (currp k) k)"
  by (simp add: evt_take_def Let_def)

text \<open>The current thread does not wait, so that its pending events are its own.\<close>

lemma evt_inv_pending:
  assumes "evt_inv k" and "sched_inv k"
  shows "evt_inv (set_pending m (currp k) k)"
proof (rule evt_inv_mono [OF assms(1)])
  have "state_of k (currp k) = CH_STATE_CURRENT" using sched_invD(6) [OF assms(2), of "currp k"] by simp
  then show "state_of (set_pending m (currp k) k) t = state_of k t \<and> t_u (threads (set_pending m (currp k) k) t) = t_u (threads k t) \<and>
      pending (set_pending m (currp k) k) t = pending k t"
    if "state_of (set_pending m (currp k) k) t \<in> {CH_STATE_WTOREVT, CH_STATE_WTANDEVT}" for t
    using that by (auto simp: set_pending_def split: if_splits)
qed

text \<open>The caller goes to sleep only when what it waits for is not pending.\<close>

lemma evt_inv_sleep:
  assumes "evt_inv k" and "sched_inv k" and "evt_sleep mode events (pending k (currp k))" and "queues k RLIST \<noteq> []"
    and "timers_only (set_u events (currp k) k) k1"
  shows "evt_inv (go_sleep (evt_state mode) k1) \<and> sched_inv (go_sleep (evt_state mode) k1) \<and> sched_order (go_sleep (evt_state mode) k1)"
proof -
  let ?g = "go_sleep (evt_state mode) k1"
  have k1: "threads k1 = threads (set_u events (currp k) k)" "queues k1 = queues k" "currp k1 = currp k"
    using assms(5) by (simp_all add: timers_only_def)
  have "enq_ok k k1 (evt_state mode)" using k1 by (cases mode) (auto simp: enq_ok_def)
  then have "sched_inv ?g" "sched_order ?g" using sched_inv_go_sleep assms(2,4) by blast+
  moreover have "\<not> evt_satisfied t ?g" for t
  proof (cases "t = currp k \<and> t \<noteq> hd (queues k RLIST)")
    case True
    then show ?thesis using assms(3) k1 by (cases mode) (auto simp: evt_satisfied_def)
  next
    case False
    then show ?thesis using assms(1) k1 by (auto simp: evt_inv_def evt_satisfied_def)
  qed
  ultimately show ?thesis by (simp add: evt_inv_def)
qed

lemma evt_wait_body_eq:
  assumes "thd_ctx k" and "queues k RLIST \<noteq> []"
  shows "evt_wait_body mode events k =
    (if evt_sleep mode events (pending k (currp k)) then Ok (Asleep, go_sleep (evt_state mode) (set_u events (currp k) k))
     else case evt_take mode events k of (m, k) \<Rightarrow> Ok (Returned m, k))"
  using chSchGoSleepS_eq [of "set_u events (currp k) k"] assms by (simp add: evt_wait_body_def)

section \<open>The listeners of a source\<close>

fun evt_path :: "(ptr \<Rightarrow> ptr) \<Rightarrow> ptr \<Rightarrow> ptr list \<Rightarrow> ptr \<Rightarrow> bool" where
  "evt_path nx p [] esp = (p = esp)"
| "evt_path nx p (x # xs) esp = (p = x \<and> x \<noteq> esp \<and> evt_path nx (nx x) xs esp)"

text \<open>\<open>xs\<close> are the listeners registered on the source at \<open>esp\<close>, the one registered last first.\<close>

definition evt_ring :: "ptr \<Rightarrow> ptr list \<Rightarrow> eventsys \<Rightarrow> bool" where
  "evt_ring esp xs s \<longleftrightarrow> evt_path (es_next s) (es_next s esp) xs esp \<and> distinct xs"

lemma evt_path_notin: "evt_path nx p xs esp \<Longrightarrow> esp \<notin> set xs"
  by (induction xs arbitrary: p) auto

lemma evt_path_upd: "y \<notin> set xs \<Longrightarrow> evt_path (nx(y := z)) p xs esp = evt_path nx p xs esp"
  by (induction xs arbitrary: p) auto

lemma evt_ring_length: "evt_ring esp xs s \<Longrightarrow> length xs \<le> evt_turns"
proof -
  assume "evt_ring esp xs s"
  then have "length xs = card (set xs)" by (simp add: evt_ring_def distinct_card)
  also have "\<dots> \<le> card (UNIV :: u32 set)" by (rule card_mono) simp_all
  finally show ?thesis by (simp add: evt_turns_def card_word)
qed

text \<open>Following the links from \<open>p\<close>, the loop stops at the link that leads to the listener, and takes it out of the list.\<close>

lemma unregister_loop_ok:
  assumes "evt_path nx (nx p) xs esp" and "distinct (p # xs)" and "length xs \<le> n" and "elp \<noteq> p" and "elp \<noteq> esp"
  shows "\<exists>nx'. unregister_loop n esp elp p nx = Ok nx' \<and> evt_path nx' (nx' p) (remove1 elp xs) esp \<and> (\<forall>q. q \<notin> set (p # xs) \<longrightarrow> nx' q = nx q)"
  using assms
proof (induction xs arbitrary: p n)
  case Nil
  then show ?case by (cases n) auto
next
  case (Cons x xs)
  obtain m where m: "n = Suc m" "length xs \<le> m" using Cons(4) by (cases n) auto
  have x: "nx p = x" "x \<noteq> esp" "evt_path nx (nx x) xs esp" using Cons(2) by auto
  show ?case
  proof (cases "x = elp")
    case True
    have "evt_path (nx(p := nx elp)) (nx elp) xs esp" using x(3) True Cons(3) by (simp add: evt_path_upd)
    then show ?thesis using x(1,2) True m(1) by auto
  next
    case False
    obtain nx' where nx': "unregister_loop m esp elp x nx = Ok nx'" "evt_path nx' (nx' x) (remove1 elp xs) esp" "\<forall>q. q \<notin> set (x # xs) \<longrightarrow> nx' q = nx q"
      using Cons(1) [of x m] x(3) Cons(3) m(2) False Cons(6) by auto
    have "nx' p = x" using nx'(3) x(1) Cons(3) by auto
    then show ?thesis using nx' x(1,2) False m(1) by auto
  qed
qed

text \<open>One turn of the loop of \<open>chEvtBroadcastFlagsI\<close>.\<close>

definition interested :: "u32 \<Rightarrow> event_listener \<Rightarrow> bool" where
  "interested flags l \<longleftrightarrow> flags = 0 \<or> flags AND el_wflags l \<noteq> 0"

definition notify :: "u32 \<Rightarrow> ptr \<Rightarrow> eventsys \<Rightarrow> eventsys" where
  "notify flags elp s =
     s\<lparr>es_lsn := (es_lsn s)(elp := (es_lsn s elp)\<lparr>el_flags := el_flags (es_lsn s elp) OR flags\<rparr>),
       es_k := (if interested flags (es_lsn s elp) then evt_signal (el_listener (es_lsn s elp)) (el_events (es_lsn s elp)) (es_k s) else es_k s)\<rparr>"

lemma notify_frame [simp]:
  "es_next (notify flags elp s) = es_next s"
  "el_listener (es_lsn (notify flags elp s) x) = el_listener (es_lsn s x)"
  "el_events (es_lsn (notify flags elp s) x) = el_events (es_lsn s x)"
  "el_wflags (es_lsn (notify flags elp s) x) = el_wflags (es_lsn s x)"
  "i_ctx (es_k (notify flags elp s)) = i_ctx (es_k s)" "thd_ctx (es_k (notify flags elp s)) = thd_ctx (es_k s)"
  by (simp_all add: notify_def)

lemma notify_inv:
  "sched_inv (es_k s) \<Longrightarrow> sched_inv (es_k (notify flags elp s))" "evt_inv (es_k s) \<Longrightarrow> evt_inv (es_k (notify flags elp s))"
  by (simp_all add: notify_def evt_signal_inv evt_inv_signal)

declare broadcast_loop.simps [simp del]

lemma broadcast_loop_end [simp]: "broadcast_loop n esp flags esp s = Ok s"
  by (simp add: broadcast_loop.simps)

lemma broadcast_loop_eq:
  assumes "evt_path (es_next s) p xs esp" and "length xs \<le> n" and "sched_inv (es_k s)" and "i_ctx (es_k s)"
    and "\<forall>x\<in>set xs. el_listener (es_lsn s x) \<noteq> NULL"
  shows "broadcast_loop n esp flags p s = Ok (fold (notify flags) xs s)"
  using assms
proof (induction xs arbitrary: p n s)
  case (Cons x xs)
  obtain m where m: "n = Suc m" "length xs \<le> m" using Cons(3) by (cases n) auto
  have x: "p = x" "x \<noteq> esp" "evt_path (es_next s) (es_next s x) xs esp" using Cons(2) by auto
  have l: "el_listener (es_lsn s x) \<noteq> NULL" using Cons(6) by simp
  let ?s = "notify flags x s"
  have "broadcast_loop m esp flags (es_next ?s x) ?s = Ok (fold (notify flags) xs ?s)"
    using Cons(1) [of ?s "es_next ?s x" m] x(3) m(2) notify_inv(1) [OF Cons(4)] Cons(5,6) by simp
  moreover have "broadcast_loop (Suc m) esp flags x s = broadcast_loop m esp flags (es_next ?s x) ?s"
    using x(2) chEvtSignalI_eq [OF Cons(4,5) l, of "el_events (es_lsn s x)"]
    by (subst broadcast_loop.simps) (simp add: notify_def [of flags x s] interested_def Let_def)
  ultimately show ?case using x(1) m(1) by simp
qed simp

lemma fold_notify_inv:
  "sched_inv (es_k s) \<Longrightarrow> sched_inv (es_k (fold (notify flags) xs s))" "evt_inv (es_k s) \<Longrightarrow> evt_inv (es_k (fold (notify flags) xs s))"
  "es_next (fold (notify flags) xs s) = es_next s" "thd_ctx (es_k (fold (notify flags) xs s)) = thd_ctx (es_k s)"
  by (induction xs arbitrary: s) (simp_all add: notify_inv)

text \<open>The events that the broadcast adds to a thread, and the flags it adds to the listeners.\<close>

primrec evt_bits :: "u32 \<Rightarrow> (ptr \<Rightarrow> event_listener) \<Rightarrow> ptr list \<Rightarrow> ptr \<Rightarrow> u32" where
  "evt_bits flags lsn [] t = 0"
| "evt_bits flags lsn (x # xs) t =
     (if el_listener (lsn x) = t \<and> interested flags (lsn x) then el_events (lsn x) OR evt_bits flags lsn xs t else evt_bits flags lsn xs t)"

lemma interested_notify [simp]: "interested f (es_lsn (notify flags x s) y) = interested f (es_lsn s y)"
  by (simp add: interested_def)

lemma evt_bits_notify [simp]: "evt_bits flags (es_lsn (notify flags x s)) xs t = evt_bits flags (es_lsn s) xs t"
  by (induction xs) simp_all

lemma notify_pending: "pending (es_k (notify flags x s)) t = pending (es_k s) t OR evt_bits flags (es_lsn s) [x] t"
  by (simp add: notify_def)

lemma fold_notify_pending: "pending (es_k (fold (notify flags) xs s)) t = pending (es_k s) t OR evt_bits flags (es_lsn s) xs t"
proof (induction xs arbitrary: s)
  case (Cons x xs)
  show ?case unfolding fold_Cons comp_def Cons notify_pending by (simp add: or.assoc)
qed simp

lemma fold_notify_lsn: "distinct xs \<Longrightarrow> es_lsn (fold (notify flags) xs s) x =
    (if x \<in> set xs then (es_lsn s x)\<lparr>el_flags := el_flags (es_lsn s x) OR flags\<rparr> else es_lsn s x)"
  by (induction xs arbitrary: s) (auto simp: notify_def)

text \<open>\<open>evt_wakes m t k\<close>: adding the events \<open>m\<close> gives the thread what it waits for.\<close>

definition evt_wakes :: "u32 \<Rightarrow> ptr \<Rightarrow> kernel \<Rightarrow> bool" where
  "evt_wakes m t k = evt_satisfied t (set_pending (pending k t OR m) t k)"

lemma evt_wakes_iff:
  "evt_wakes m t k \<longleftrightarrow> (state_of k t = CH_STATE_WTOREVT \<and> (pending k t OR m) AND t_u (threads k t) \<noteq> 0) \<or>
     (state_of k t = CH_STATE_WTANDEVT \<and> (pending k t OR m) AND t_u (threads k t) = t_u (threads k t))"
  by (simp add: evt_wakes_def evt_satisfied_def set_pending_def)

lemma evt_wakes_mono: "evt_wakes m t k \<Longrightarrow> evt_wakes (m OR n) t k"
proof -
  have "(p OR (m OR n)) AND u = 0 \<Longrightarrow> (p OR m) AND u = 0" for p u :: u32
    by (simp add: bit_eq_iff bit_or_iff bit_and_iff) blast
  moreover have "(p OR m) AND u = u \<Longrightarrow> (p OR (m OR n)) AND u = u" for p u :: u32
    by (simp add: bit_eq_iff bit_or_iff bit_and_iff) blast
  ultimately show "evt_wakes m t k \<Longrightarrow> evt_wakes (m OR n) t k" unfolding evt_wakes_iff by blast
qed

lemma signal_wakes:
  assumes "evt_inv k"
  shows "evt_wakes n t (evt_signal tp m k) \<longleftrightarrow> (if t = tp then \<not> evt_wakes m t k \<and> evt_wakes (m OR n) t k else evt_wakes n t k)"
    and "state_of (evt_signal tp m k) t = (if t = tp \<and> evt_wakes m t k then CH_STATE_READY else state_of k t)"
proof -
  have st: "state_of (evt_signal tp m k) t = (if t = tp \<and> evt_wakes m t k then CH_STATE_READY else state_of k t)"
    using evt_signal_state(1) [of tp m k] by (cases "t = tp") (auto simp: evt_wakes_def)
  then show "state_of (evt_signal tp m k) t = (if t = tp \<and> evt_wakes m t k then CH_STATE_READY else state_of k t)" .
  show "evt_wakes n t (evt_signal tp m k) \<longleftrightarrow> (if t = tp then \<not> evt_wakes m t k \<and> evt_wakes (m OR n) t k else evt_wakes n t k)"
  proof (cases "t = tp")
    case True
    then show ?thesis using st evt_signal_state(2) [where tp = tp and events = m and k = k] evt_wakes_def [of m t k]
      by (cases "evt_wakes m t k") (simp_all add: evt_wakes_iff [where k = "evt_signal tp m k"] evt_wakes_iff [where m = "m OR n"] or.assoc)
  qed (simp add: evt_wakes_iff)
qed

lemma fold_notify_state:
  "evt_inv (es_k s) \<Longrightarrow> state_of (es_k (fold (notify flags) xs s)) t =
     (if evt_wakes (evt_bits flags (es_lsn s) xs t) t (es_k s) then CH_STATE_READY else state_of (es_k s) t)"
proof (induction xs arbitrary: s)
  case Nil
  then show ?case by (simp add: evt_wakes_def set_pending_def evt_inv_def evt_satisfied_def)
next
  case (Cons x xs)
  let ?s = "notify flags x s" let ?b = "evt_bits flags (es_lsn s) xs t" let ?e = "el_events (es_lsn s x)"
  have i: "evt_inv (es_k ?s)" using notify_inv(2) Cons(2) .
  show ?case
  proof (cases "interested flags (es_lsn s x)")
    case True
    then have k: "es_k ?s = evt_signal (el_listener (es_lsn s x)) ?e (es_k s)" by (simp add: notify_def)
    show ?thesis
      using Cons(1) [OF i] True signal_wakes [OF Cons(2), where t = t] evt_wakes_mono [of ?e t "es_k s" ?b]
      by (cases "el_listener (es_lsn s x) = t") (simp_all add: k)
  next
    case False
    then have "es_k ?s = es_k s" by (simp add: notify_def)
    then show ?thesis using Cons(1) [OF i] False by simp
  qed
qed

lemma evt_signal_other:
  "state_of k t \<notin> {CH_STATE_WTOREVT, CH_STATE_WTANDEVT} \<Longrightarrow>
     state_of (evt_signal tp m k) t = state_of k t \<and> t_u (threads (evt_signal tp m k) t) = t_u (threads k t)"
  by (cases "t = tp") (auto simp: evt_signal_def evt_satisfied_def set_pending_def Let_def)

lemma fold_notify_other:
  "state_of (es_k s) t \<notin> {CH_STATE_WTOREVT, CH_STATE_WTANDEVT} \<Longrightarrow>
     state_of (es_k (fold (notify flags) xs s)) t = state_of (es_k s) t \<and> t_u (threads (es_k (fold (notify flags) xs s)) t) = t_u (threads (es_k s) t)"
proof (induction xs arbitrary: s)
  case (Cons x xs)
  have "state_of (es_k (notify flags x s)) t = state_of (es_k s) t \<and> t_u (threads (es_k (notify flags x s)) t) = t_u (threads (es_k s) t)"
    using evt_signal_other [OF Cons(2)] by (simp add: notify_def)
  then show ?case using Cons(1) [of "notify flags x s"] Cons(2) by simp
qed simp

lemma fold_notify_msg:
  "evt_inv (es_k s) \<Longrightarrow> state_of (es_k s) t \<in> {CH_STATE_WTOREVT, CH_STATE_WTANDEVT} \<Longrightarrow> state_of (es_k (fold (notify flags) xs s)) t = CH_STATE_READY \<Longrightarrow>
     rdymsg_of (es_k (fold (notify flags) xs s)) t = MSG_OK"
proof (induction xs arbitrary: s)
  case (Cons x xs)
  let ?s = "notify flags x s"
  have i: "evt_inv (es_k ?s)" using notify_inv(2) Cons(2) .
  show ?case
  proof (cases "state_of (es_k ?s) t = state_of (es_k s) t")
    case True
    then show ?thesis using Cons(1) [OF i] Cons(3,4) by simp
  next
    case False
    then have k: "es_k ?s = evt_signal (el_listener (es_lsn s x)) (el_events (es_lsn s x)) (es_k s)" by (auto simp: notify_def)
    have "el_listener (es_lsn s x) = t" "evt_wakes (el_events (es_lsn s x)) t (es_k s)"
      using False signal_wakes(2) [OF Cons(2), of "el_listener (es_lsn s x)" "el_events (es_lsn s x)" t] by (auto simp: k split: if_splits)
    then have "state_of (es_k ?s) t = CH_STATE_READY \<and> rdymsg_of (es_k ?s) t = MSG_OK"
      by (simp add: k evt_signal_def evt_wakes_def)
    then show ?thesis using fold_notify_other [of ?s t flags xs] by simp
  qed
qed auto

lemma chEvtBroadcastFlags_eq:
  fixes flags :: u32
  assumes "running (es_k s)" and "evt_ring esp xs s" and "esp \<noteq> NULL" and "\<forall>x\<in>set xs. el_listener (es_lsn s x) \<noteq> NULL"
  defines "s1 \<equiv> fold (notify flags) xs (s\<lparr>es_k := (es_k s)\<lparr>lock_cnt := 1\<rparr>\<rparr>)"
  shows "chEvtBroadcastFlags esp flags s = Ok (s1\<lparr>es_k := (resched (es_k s1))\<lparr>lock_cnt := 0\<rparr>\<rparr>)"
    and "running ((resched (es_k s1))\<lparr>lock_cnt := 0\<rparr>)"
proof -
  let ?l = "s\<lparr>es_k := (es_k s)\<lparr>lock_cnt := 1\<rparr>\<rparr>"
  have l: "sched_inv (es_k ?l)" "thd_ctx (es_k ?l)" "i_ctx (es_k ?l)" using assms(1) running_lock(2) [OF assms(1)] by (simp_all add: running_def sched_ok_def)
  have b: "broadcast_loop evt_turns esp flags (es_next ?l esp) ?l = Ok s1"
    unfolding s1_def using assms(2,4) evt_ring_length [OF assms(2)] l(1,3) by (intro broadcast_loop_eq) (simp_all add: evt_ring_def)
  have i: "sched_inv (es_k s1)" "thd_ctx (es_k s1)" unfolding s1_def using fold_notify_inv l by blast+
  have r: "sched_ok (resched (es_k s1))" "thd_ctx (resched (es_k s1))" using resched_inv [OF i(1)] i(2) by (simp_all add: sched_ok_def)
  show "chEvtBroadcastFlags esp flags s = Ok (s1\<lparr>es_k := (resched (es_k s1))\<lparr>lock_cnt := 0\<rparr>\<rparr>)"
    using running_lock(1) [OF assms(1)] b l assms(3) chSchRescheduleS_eq [OF i] running_unlock [OF r]
    by (simp add: chEvtBroadcastFlags_def chEvtBroadcastFlagsI_def)
  show "running ((resched (es_k s1))\<lparr>lock_cnt := 0\<rparr>)" using running_unlock [OF r] by simp
qed

section \<open>Histories\<close>

text \<open>
  The calls that threads and interrupt handlers make: signals and broadcasts, registration, waiting in every mode
  with and without timeout, the second half of a wait when the thread runs again (\<open>waited\<close>), or of any other call (\<open>unlock\<close>; \<open>relock\<close>
  gives the lock back to a waiting thread that was switched to by a call whose model has released it),
  the expiration of a timeout (\<open>wakeup\<close>), preemption at the end of an interrupt.
\<close>

inductive evt_step :: "eventsys \<Rightarrow> eventsys \<Rightarrow> bool" where
  signal: "chEvtSignal tp events (es_k s) = Ok k \<Longrightarrow> evt_step s (s\<lparr>es_k := k\<rparr>)"
| broadcast: "chEvtBroadcastFlags esp flags s = Ok s' \<Longrightarrow> evt_ring esp xs s \<Longrightarrow> \<forall>x\<in>set xs. el_listener (es_lsn s x) \<noteq> NULL \<Longrightarrow>
    esp \<noteq> NULL \<Longrightarrow> thread_idle_ctx (es_k s) \<Longrightarrow> sched_order (es_k s) \<Longrightarrow> evt_step s s'"
| register: "chEvtRegisterMaskWithFlags esp elp events wflags s = Ok s' \<Longrightarrow> evt_step s s'"
| unregister: "chEvtUnregister esp elp s = Ok s' \<Longrightarrow> evt_step s s'"
| get_flags: "chEvtGetAndClearFlags elp s = Ok (m, s') \<Longrightarrow> evt_step s s'"
| add: "chEvtAddEvents events (es_k s) = Ok (m, k) \<Longrightarrow> evt_step s (s\<lparr>es_k := k\<rparr>)"
| clear: "chEvtGetAndClearEvents events (es_k s) = Ok (m, k) \<Longrightarrow> evt_step s (s\<lparr>es_k := k\<rparr>)"
| wait: "locked_wait (evt_wait_body mode events) (es_k s) = Ok (r, k) \<Longrightarrow> evt_step s (s\<lparr>es_k := k\<rparr>)"
| timed: "locked_wait (evt_timed_body mode events timeout) (es_k s) = Ok (r, k) \<Longrightarrow> evt_step s (s\<lparr>es_k := k\<rparr>)"
| waited: "evt_wait_resume mode events (es_k s) = Ok (m, k) \<Longrightarrow> evt_step s (s\<lparr>es_k := k\<rparr>)"
| timed_waited: "evt_timed_resume mode events timeout (es_k s) = Ok (m, k) \<Longrightarrow> evt_step s (s\<lparr>es_k := k\<rparr>)"
| unlock: "chSysUnlock (es_k s) = Ok k \<Longrightarrow> evt_step s (s\<lparr>es_k := k\<rparr>)"
| relock: "chSysLock (es_k s) = Ok k \<Longrightarrow> evt_step s (s\<lparr>es_k := k\<rparr>)"
| enter: "dbg_check_enter_isr (es_k s) = Ok k \<Longrightarrow> evt_step s (s\<lparr>es_k := k\<rparr>)"
| leave: "dbg_check_leave_isr (es_k s) = Ok k \<Longrightarrow> evt_step s (s\<lparr>es_k := k\<rparr>)"
| signal_isr: "kbind (chSysLockFromISR (es_k s)) (\<lambda>k. kbind (chEvtSignalI tp events k) chSysUnlockFromISR) = Ok k \<Longrightarrow> evt_step s (s\<lparr>es_k := k\<rparr>)"
| timeout: "wakeup tp (es_k s) = Ok k \<Longrightarrow> timed_state (state_of (es_k s) tp) \<Longrightarrow> evt_step s (s\<lparr>es_k := k\<rparr>)"
| preempt: "kbind (chSysLock (es_k s)) (\<lambda>k. kbind (chSchPreemption k) chSysUnlock) = Ok k \<Longrightarrow> evt_step s (s\<lparr>es_k := k\<rparr>)"

lemma lock_Ok: "chSysLock k = Ok k' \<Longrightarrow> k' = k\<lparr>lock_cnt := 1\<rparr> \<and> thd_ctx k'"
  by (auto simp: sys_defs dbg_defs thd_ctx_def split: if_splits)

lemma unlock_Ok: "chSysUnlock k = Ok k' \<Longrightarrow> k' = k\<lparr>lock_cnt := 0\<rparr>"
  by (auto simp: sys_defs dbg_defs split: if_splits)

lemma unlock_resume_Ok: "unlock_resume v k = Ok (w, k') \<Longrightarrow> k' = k\<lparr>lock_cnt := 0\<rparr>"
  by (auto simp: unlock_resume_def dest: unlock_Ok)

abbreviation evt_ok :: "kernel \<Rightarrow> bool" where "evt_ok k \<equiv> sched_inv k \<and> evt_inv k"

lemma evt_ok_pending: "evt_ok k \<Longrightarrow> evt_ok (set_pending m (currp k) k)"
  using evt_inv_pending by (simp add: set_pending_def)

lemma evt_ok_timers: "timers_only k k' \<Longrightarrow> evt_ok k' = evt_ok k"
  by (simp add: timers_only_inv) (simp add: timers_only_def evt_inv_def evt_satisfied_def)

lemma evt_ok_take: "evt_ok k \<Longrightarrow> evt_ok (snd (evt_take mode events k))"
  by (simp add: evt_take_eq evt_ok_pending del: evt_taken.simps)

lemma evt_ok_wait:
  assumes "evt_ok k" and "thd_ctx k"
  shows "evt_wait_body mode events k = Ok (r, k') \<Longrightarrow> evt_ok k'" and "evt_timed_body mode events timeout k = Ok (r, k') \<Longrightarrow> evt_ok k'"
proof -
  let ?k = "set_u events (currp k) k"
  have t: "thd_ctx ?k" "queues ?k = queues k" using assms(2) by simp_all
  have take: "evt_ok k'" if "evt_take mode events k = (m, k')" for m using evt_ok_take [OF assms(1), of mode events] that by simp
  show "evt_ok k'" if w: "evt_wait_body mode events k = Ok (r, k')"
  proof (cases "evt_sleep mode events (pending k (currp k))")
    case True
    then have "chSchGoSleepS (evt_state mode) ?k = Ok k'" using w by (auto simp: evt_wait_body_def)
    then have "queues k RLIST \<noteq> []" "k' = go_sleep (evt_state mode) ?k" using chSchGoSleepS_Ok [OF t(1)] by auto
    then show ?thesis using evt_inv_sleep [of k mode events ?k] True assms(1) by simp
  qed (use w take in \<open>auto simp: evt_wait_body_def split: prod.splits\<close>)
  show "evt_ok k'" if w: "evt_timed_body mode events timeout k = Ok (r, k')"
  proof (cases "evt_sleep mode events (pending k (currp k)) \<and> timeout \<noteq> TIME_IMMEDIATE")
    case True
    then have "chSchGoSleepTimeoutS (evt_state mode) timeout ?k = Ok k'" using w by (auto simp: evt_timed_body_def)
    then obtain k1 where "timers_only ?k k1" "queues k RLIST \<noteq> []" "k' = go_sleep (evt_state mode) k1"
      using chSchGoSleepTimeoutS_Ok [OF t(1)] t(2) by metis
    then show ?thesis using evt_inv_sleep [of k mode events k1] True assms(1) by simp
  qed (use w take assms(1) in \<open>auto simp: evt_timed_body_def split: prod.splits if_splits\<close>)
qed

lemma evt_ok_lock [simp]: "evt_ok (k\<lparr>lock_cnt := n\<rparr>) = evt_ok k" "evt_ok (k\<lparr>isr_cnt := n\<rparr>) = evt_ok k"
  by simp_all

lemma evt_ok_locked_wait:
  assumes "locked_wait body k = Ok (r, k')" and "evt_ok k"
    and "\<And>k r k'. evt_ok k \<Longrightarrow> thd_ctx k \<Longrightarrow> body k = Ok (r, k') \<Longrightarrow> evt_ok k'"
  shows "evt_ok k'"
proof -
  obtain l w k1 where l: "chSysLock k = Ok l" "body l = Ok (w, k1)"
      "(case w of Asleep \<Rightarrow> Ok (Asleep, k1) | Returned v \<Rightarrow> kbind (chSysUnlock k1) (\<lambda>k. Ok (Returned v, k))) = Ok (r, k')"
    using assms(1) by (auto simp: locked_wait_def)
  have "evt_ok l" "thd_ctx l" using lock_Ok [OF l(1)] assms(2) by auto
  then have "evt_ok k1" using assms(3) l(2) by blast
  moreover have "k' = k1 \<or> k' = k1\<lparr>lock_cnt := 0\<rparr>" using l(3) by (cases w) (auto dest: unlock_Ok)
  ultimately show ?thesis by auto
qed

lemma evt_ok_signal: "evt_ok k \<Longrightarrow> i_ctx k \<Longrightarrow> chEvtSignalI tp events k = Ok k' \<Longrightarrow> evt_ok k' \<and> thd_ctx k' = thd_ctx k"
  using chEvtSignalI_eq [of k tp events] evt_signal_inv [of k] evt_inv_signal [of k] by (cases "tp = NULL") (auto simp: chEvtSignalI_def)

lemma evt_ok_resched: "evt_ok k \<Longrightarrow> thd_ctx k \<Longrightarrow> chSchRescheduleS k = Ok k' \<Longrightarrow> evt_ok k'"
  using chSchRescheduleS_eq [of k] resched_inv(1) [of k] evt_inv_resched [of k] by auto

lemma evt_ok_wakeup:
  assumes "evt_ok k" and "wakeup tp k = Ok k'" and "timed_state (state_of k tp)"
  shows "evt_ok k'"
proof -
  have c: "isr_cnt k > 0" "lock_cnt k = 0" using assms(2) by (auto simp: wakeup_def sys_defs dbg_defs split: if_splits)
  note e = wakeup_eq [OF _ assms(3) c]
  show ?thesis
  proof (cases "state_of k tp = CH_STATE_READY")
    case False
    let ?w = "ready_behind tp (set_u MSG_TIMEOUT tp (unwait tp k))"
    have "evt_inv k" using assms(1) by simp
    then have "evt_inv ?w" by (rule evt_inv_mono) (auto split: if_splits)
    moreover have "sched_inv ?w" using unwait_inv [OF _ assms(3) False] assms(1) by (simp add: sched_inv_ready)
    ultimately show ?thesis using e assms(1,2) False by simp
  qed (use e assms(1,2) in simp)
qed

lemma evt_step_ok: "evt_step s s' \<Longrightarrow> evt_ok (es_k s) \<Longrightarrow> evt_ok (es_k s')"
proof (induction rule: evt_step.induct)
  case (signal tp events s k)
  then obtain l k1 k2 where "chSysLock (es_k s) = Ok l" "chEvtSignalI tp events l = Ok k1" "chSchRescheduleS k1 = Ok k2" "chSysUnlock k2 = Ok k"
    by (auto simp: chEvtSignal_def locked_def evt_signal_body_def)
  then show ?case
    using signal(2) lock_Ok [of "es_k s" l] evt_ok_signal [of l tp events k1] evt_ok_resched [of k1 k2] unlock_Ok [of k2 k] by auto
next
  case (broadcast esp flags s s' xs)
  let ?s = "fold (notify flags) xs (s\<lparr>es_k := (es_k s)\<lparr>lock_cnt := 1\<rparr>\<rparr>)"
  have r: "running (es_k s)" using broadcast(5-7) by (simp add: running_def sched_ok_def)
  have "evt_ok (es_k ?s)" using fold_notify_inv(1,2) [of "s\<lparr>es_k := (es_k s)\<lparr>lock_cnt := 1\<rparr>\<rparr>"] broadcast(7) by simp
  then have "evt_ok (resched (es_k ?s))" using resched_inv(1) evt_inv_resched by simp
  then show ?case using chEvtBroadcastFlags_eq(1) [OF r broadcast(2,4,3), of flags] broadcast(1) by auto
next
  case (register esp elp events wflags s s')
  then show ?case by (auto simp: chEvtRegisterMaskWithFlags_def Let_def dest!: lock_Ok unlock_Ok)
next
  case (unregister esp elp s s')
  then show ?case by (auto simp: chEvtUnregister_def dest!: lock_Ok unlock_Ok)
next
  case (get_flags elp s m s')
  then show ?case by (auto simp: chEvtGetAndClearFlags_def chEvtGetAndClearFlagsI_def Let_def dest!: lock_Ok unlock_Ok)
next
  case (add events s m k)
  then obtain l where "chSysLock (es_k s) = Ok l" "k = (set_pending (pending l (currp l) OR events) (currp l) l)\<lparr>lock_cnt := 0\<rparr>"
    by (auto simp: chEvtAddEvents_def chEvtAddEventsI_def Let_def dest!: unlock_resume_Ok)
  then show ?case using add(2) evt_ok_pending [of l] lock_Ok [of "es_k s" l] by auto
next
  case (clear events s m k)
  then obtain l where "chSysLock (es_k s) = Ok l" "k = (set_pending (pending l (currp l) AND NOT events) (currp l) l)\<lparr>lock_cnt := 0\<rparr>"
    by (auto simp: chEvtGetAndClearEvents_def chEvtGetAndClearEventsI_def Let_def dest!: unlock_resume_Ok)
  then show ?case using clear(2) evt_ok_pending [of l] lock_Ok [of "es_k s" l] by auto
next
  case (wait mode events s r k)
  have "evt_ok k" by (rule evt_ok_locked_wait [OF wait]) (rule evt_ok_wait(1))
  then show ?case by simp
next
  case (timed mode events timeout s r k)
  have "evt_ok k" by (rule evt_ok_locked_wait [OF timed]) (rule evt_ok_wait(2))
  then show ?case by simp
next
  case (waited mode events s m k)
  then show ?case using evt_ok_take [of "es_k s" mode events] by (auto simp: evt_wait_resume_def split: prod.splits dest!: unlock_resume_Ok)
next
  case (timed_waited mode events timeout s m k)
  then obtain msg k1 where k1: "chSchGoSleepTimeoutS_resume timeout (es_k s) = Ok (msg, k1)"
      "unlock_resume 0 k1 = Ok (m, k) \<or> unlock_resume (fst (evt_take mode events k1)) (snd (evt_take mode events k1)) = Ok (m, k)"
    by (auto simp: evt_timed_resume_def case_prod_beta split: if_splits)
  have "evt_ok k1" using chSchGoSleepTimeoutS_resume_Ok [OF k1(1)] evt_ok_timers [of "es_k s" k1] timed_waited(2) by simp
  then show ?case using k1(2) evt_ok_take [of k1 mode events] by (auto dest!: unlock_resume_Ok)
next
  case (signal_isr s tp events k)
  then obtain l k1 where l: "chSysLockFromISR (es_k s) = Ok l" "chEvtSignalI tp events l = Ok k1" "chSysUnlockFromISR k1 = Ok k" by auto
  have "l = (es_k s)\<lparr>lock_cnt := 1\<rparr>" "i_ctx l" "k = k1\<lparr>lock_cnt := 0\<rparr>" using l(1,3) by (auto simp: sys_defs dbg_defs i_ctx_def split: if_splits)
  then show ?case using evt_ok_signal [of l tp events k1] l(2) signal_isr(2) by auto
next
  case (timeout tp s k)
  then show ?case using evt_ok_wakeup [OF timeout(3,1,2)] by simp
next
  case (preempt s k)
  then obtain l k1 where l: "chSysLock (es_k s) = Ok l" "chSchPreemption l = Ok k1" "chSysUnlock k1 = Ok k" by auto
  have "evt_ok l" "i_ctx l" using lock_Ok [OF l(1)] preempt(2) by auto
  then have "evt_ok k1" using chSchPreemption_eq [of l] resched_inv(1) [of l] evt_inv_resched [of l] l(2) by auto
  then show ?case using unlock_Ok [OF l(3)] by simp
qed (auto simp: dbg_defs dest!: lock_Ok unlock_Ok split: if_splits)

section \<open>Dispatching\<close>

text \<open>The reference: the handlers of the given events are called one after the other.\<close>

fun call_handlers :: "(nat \<Rightarrow> (nat \<Rightarrow> 's \<Rightarrow> 's kres) option) \<Rightarrow> nat list \<Rightarrow> 's \<Rightarrow> 's kres" where
  "call_handlers handlers [] s = Ok s"
| "call_handlers handlers (eid # eids) s =
     (case handlers eid of None \<Rightarrow> Halt ''chEvtDispatch'' | Some f \<Rightarrow> kbind (f eid s) (call_handlers handlers eids))"

lemma event_mask_bit: "eid < 32 \<Longrightarrow> bit (EVENT_MASK eid) i = (i = eid)" "eid < 32 \<Longrightarrow> events AND EVENT_MASK eid \<noteq> 0 \<longleftrightarrow> bit events eid"
proof -
  show a: "bit (EVENT_MASK eid) i = (i = eid)" if "eid < 32" for i using that by (auto simp: EVENT_MASK_def bit_push_bit_iff bit_1_iff bit_exp_iff)
  have "x = 0 \<longleftrightarrow> (\<forall>i. \<not> bit x i)" for x :: u32 using bit_imp_le_length [of x] by (auto simp: bit_eq_iff [of x 0])
  then show "events AND EVENT_MASK eid \<noteq> 0 \<longleftrightarrow> bit events eid" if "eid < 32" using a [OF that] by (auto simp: bit_and_iff)
qed

declare dispatch_loop.simps [simp del]

lemma dispatch_loop_eq:
  "eid + n = 32 \<Longrightarrow> \<forall>i < eid. \<not> bit events i \<Longrightarrow> dispatch_loop n handlers eid events s = call_handlers handlers (filter (bit events) [eid..<32]) s"
proof (induction n arbitrary: eid events s)
  case 0
  have "events = 0"
  proof (rule bit_word_eqI)
    fix i assume "i < LENGTH(32)"
    then show "bit events i = bit 0 i" using 0 by simp
  qed
  then show ?case using 0 by (simp add: dispatch_loop.simps)
next
  case (Suc n)
  have e: "eid < 32" "[eid..<32] = eid # [eid + 1..<32]" using Suc(2) by (simp_all add: upt_conv_Cons)
  show ?case
  proof (cases "bit events eid")
    case True
    let ?e = "events AND NOT (EVENT_MASK eid)"
    have b: "bit ?e i = (bit events i \<and> i \<noteq> eid)" for i
      using event_mask_bit(1) [OF e(1)] bit_imp_le_length [of events i] by (auto simp: bit_and_iff bit_not_iff)
    have "\<forall>i < eid + 1. \<not> bit ?e i" using b Suc(3) by (auto simp: less_Suc_eq)
    then have "dispatch_loop n handlers (eid + 1) ?e = call_handlers handlers (filter (bit ?e) [eid + 1..<32])"
      using Suc(1) [of "eid + 1" ?e] Suc(2) by (intro ext) simp
    moreover have "filter (bit ?e) [eid + 1..<32] = filter (bit events) [eid + 1..<32]" using b by (intro filter_cong) auto
    moreover have "events \<noteq> 0" using True by auto
    ultimately show ?thesis using True e event_mask_bit(2) [OF e(1), of events] by (subst dispatch_loop.simps) (simp cong: option.case_cong)
  next
    case False
    have d: "dispatch_loop n handlers (eid + 1) events s = call_handlers handlers (filter (bit events) [eid + 1..<32]) s"
      using Suc(1) [of "eid + 1" events s] Suc(2,3) False by (auto simp: less_Suc_eq)
    show ?thesis
    proof (cases "events = 0")
      case True
      then show ?thesis by (subst dispatch_loop.simps) simp
    next
      case False
      then show ?thesis using d e \<open>\<not> bit events eid\<close> event_mask_bit(2) [OF e(1), of events] by (subst dispatch_loop.simps) simp
    qed
  qed
qed

section \<open>Properties\<close>

text \<open>
  The running thread at 16, the idle thread at 32, a thread at 48 that waits for events 1 or 2 and one at 80 that waits for
  both; the source at 256 has the listeners 272 (of 48) and 288 (of 80).
\<close>

definition demo_events :: eventsys where
  "demo_events = \<lparr>es_k = kernel_reset\<lparr>
     threads := (\<lambda>_. no_thread)(16 := no_thread\<lparr>t_prio := 128, t_state := CH_STATE_CURRENT\<rparr>,
       32 := no_thread\<lparr>t_prio := 1, t_state := CH_STATE_READY\<rparr>,
       48 := no_thread\<lparr>t_prio := 100, t_state := CH_STATE_WTOREVT, t_u := 3\<rparr>,
       80 := no_thread\<lparr>t_prio := 90, t_state := CH_STATE_WTANDEVT, t_u := 3\<rparr>),
     queues := (\<lambda>_. [])(RLIST := [32]), currp := 16\<rparr>,
     es_next = (\<lambda>_. NULL)(256 := 272, 272 := 288, 288 := 256),
     es_lsn = (\<lambda>_. \<lparr>el_listener = NULL, el_events = 0, el_flags = 0, el_wflags = 0\<rparr>)(
       272 := \<lparr>el_listener = 48, el_events = 1, el_flags = 0, el_wflags = - 1\<rparr>,
       288 := \<lparr>el_listener = 80, el_events = 1, el_flags = 0, el_wflags = - 1\<rparr>)\<rparr>"

lemma demo_events_ok: "running (es_k demo_events)" "evt_inv (es_k demo_events)" "evt_ring 256 [272, 288] demo_events"
  by (auto simp: demo_events_def kernel_reset_def no_thread_def running_def sched_ok_def sched_inv_def sched_order_def thread_idle_ctx_def
      evt_inv_def evt_satisfied_def evt_ring_def split: if_splits)


text \<open>
  A broadcast reaches every listener of the source, in one pass over the list: the flags are added to each listener, the
  events of each listener interested in the flags to its thread, and of the waiting threads exactly those that now
  have what they wait for are woken, with \<open>MSG_OK\<close>.
\<close>

theorem chEvtBroadcastFlags_delivers:
  assumes "running (es_k s)" and "evt_inv (es_k s)" and "evt_ring esp xs s" and "esp \<noteq> NULL" and "\<forall>x\<in>set xs. el_listener (es_lsn s x) \<noteq> NULL"
  shows "\<exists>s'. chEvtBroadcastFlags esp flags s = Ok s' \<and> running (es_k s') \<and> evt_ring esp xs s' \<and>
    (\<forall>x. es_lsn s' x = (if x \<in> set xs then (es_lsn s x)\<lparr>el_flags := el_flags (es_lsn s x) OR flags\<rparr> else es_lsn s x)) \<and>
    (\<forall>t. pending (es_k s') t = pending (es_k s) t OR evt_bits flags (es_lsn s) xs t) \<and>
    (\<forall>t. state_of (es_k s) t \<in> {CH_STATE_WTOREVT, CH_STATE_WTANDEVT} \<longrightarrow>
       (if evt_wakes (evt_bits flags (es_lsn s) xs t) t (es_k s)
        then state_of (es_k s') t \<in> {CH_STATE_READY, CH_STATE_CURRENT} \<and> rdymsg_of (es_k s') t = MSG_OK
        else state_of (es_k s') t = state_of (es_k s) t))"
proof -
  let ?l = "s\<lparr>es_k := (es_k s)\<lparr>lock_cnt := 1\<rparr>\<rparr>" let ?s = "fold (notify flags) xs ?l"
  let ?r = "?s\<lparr>es_k := (resched (es_k ?s))\<lparr>lock_cnt := 0\<rparr>\<rparr>"
  note b = chEvtBroadcastFlags_eq [OF assms(1,3-5), of flags]
  have i: "evt_inv (es_k ?l)" "distinct xs" using assms(2,3) by (simp_all add: evt_ring_def)
  have lk: "evt_wakes m t (es_k ?l) = evt_wakes m t (es_k s)" for m t by (simp add: evt_wakes_iff)
  have st: "if evt_wakes (evt_bits flags (es_lsn s) xs t) t (es_k s)
        then state_of (es_k ?r) t \<in> {CH_STATE_READY, CH_STATE_CURRENT} \<and> rdymsg_of (es_k ?r) t = MSG_OK
        else state_of (es_k ?r) t = state_of (es_k s) t"
    if w: "state_of (es_k s) t \<in> {CH_STATE_WTOREVT, CH_STATE_WTANDEVT}" for t
  proof (cases "evt_wakes (evt_bits flags (es_lsn s) xs t) t (es_k s)")
    case True
    then have "state_of (es_k ?s) t = CH_STATE_READY" using fold_notify_state [OF i(1), of flags xs t] lk by simp
    then show ?thesis using True fold_notify_msg [OF i(1), of t flags xs] w evt_resched_states [of "es_k ?s" t] by auto
  next
    case False
    then have e: "state_of (es_k ?s) t = state_of (es_k s) t" using fold_notify_state [OF i(1), of flags xs t] lk by simp
    have si: "sched_inv (es_k ?s)" using fold_notify_inv(1) [of ?l] assms(1) by (simp add: running_def sched_ok_def)
    have "t \<noteq> currp (es_k ?s)" "t \<notin> set (queues (es_k ?s) RLIST)"
      using sched_invD(4,6) [OF si, of t] e w by auto
    then show ?thesis using False e resched_state [of t "es_k ?s"] by simp
  qed
  have "chEvtBroadcastFlags esp flags s = Ok ?r" "running (es_k ?r)" using b by simp_all
  moreover have "evt_ring esp xs ?r" using assms(3) by (simp add: evt_ring_def fold_notify_inv(3))
  moreover have "es_lsn ?r x = (if x \<in> set xs then (es_lsn s x)\<lparr>el_flags := el_flags (es_lsn s x) OR flags\<rparr> else es_lsn s x)" for x
    using fold_notify_lsn [OF i(2), of flags ?l x] by simp
  moreover have "pending (es_k ?r) t = pending (es_k s) t OR evt_bits flags (es_lsn s) xs t" for t
    using fold_notify_pending [of flags xs ?l t] by simp
  ultimately show ?thesis using st by (intro exI [of _ ?r] conjI) blast+
qed

text \<open>
  C17: \<open>chEvtDispatch\<close> calls the handlers of exactly the given events, each once and in ascending order, and halts at the first
  event that has none; the loop ends at the width of the mask.
\<close>

theorem chEvtDispatch_order:
  "chEvtDispatch handlers events s = call_handlers handlers (filter (bit events) [0..<32]) s"
  using dispatch_loop_eq [of 0 32 events handlers s] by (simp add: chEvtDispatch_def)


theorem chEvtBroadcastFlags_delivers_witness:
  "\<exists>s'. chEvtBroadcastFlags 256 4 demo_events = Ok s' \<and> el_flags (es_lsn s' 288) = 4 \<and>
     state_of (es_k s') 48 \<in> {CH_STATE_READY, CH_STATE_CURRENT} \<and> state_of (es_k s') 80 = CH_STATE_WTANDEVT \<and> pending (es_k s') 80 = 1"
proof -
  have l: "\<forall>x\<in>set [272, 288]. el_listener (es_lsn demo_events x) \<noteq> NULL" by (simp add: demo_events_def)
  have b: "evt_bits 4 (es_lsn demo_events) [272, 288] 48 = 1" "evt_bits 4 (es_lsn demo_events) [272, 288] 80 = 1"
    by (simp_all add: demo_events_def interested_def)
  have w: "evt_wakes 1 48 (es_k demo_events)" "\<not> evt_wakes 1 80 (es_k demo_events)"
    "state_of (es_k demo_events) 48 = CH_STATE_WTOREVT" "state_of (es_k demo_events) 80 = CH_STATE_WTANDEVT"
    "pending (es_k demo_events) 80 = 0" "el_flags (es_lsn demo_events 288) = 0"
    by (simp_all add: evt_wakes_iff demo_events_def no_thread_def)
  obtain s' where s': "chEvtBroadcastFlags 256 4 demo_events = Ok s'"
      "\<forall>x. es_lsn s' x = (if x \<in> set [272, 288] then (es_lsn demo_events x)\<lparr>el_flags := el_flags (es_lsn demo_events x) OR 4\<rparr> else es_lsn demo_events x)"
      "\<forall>t. pending (es_k s') t = pending (es_k demo_events) t OR evt_bits 4 (es_lsn demo_events) [272, 288] t"
      "\<forall>t. state_of (es_k demo_events) t \<in> {CH_STATE_WTOREVT, CH_STATE_WTANDEVT} \<longrightarrow>
         (if evt_wakes (evt_bits 4 (es_lsn demo_events) [272, 288] t) t (es_k demo_events)
          then state_of (es_k s') t \<in> {CH_STATE_READY, CH_STATE_CURRENT} \<and> rdymsg_of (es_k s') t = MSG_OK
          else state_of (es_k s') t = state_of (es_k demo_events) t)"
    using chEvtBroadcastFlags_delivers [OF demo_events_ok _ l, of 4] by auto
  have "el_flags (es_lsn s' 288) = 4" "pending (es_k s') 80 = 1" using s'(2,3) w(5,6) b(2) by simp_all
  then show ?thesis using s'(1) s'(4) [rule_format, of 48] s'(4) [rule_format, of 80] w b by (intro exI [of _ s']) simp
qed

text \<open>
  \<open>chEvtWaitOne\<close>, when one of the events is pending, returns at once with the lowest one, as a mask, and takes only this one.
\<close>

theorem chEvtWaitOne_lowest:
  assumes "running k" and "pending k (currp k) AND events \<noteq> 0"
  shows "\<exists>i k'. chEvtWaitOne events k = Ok (Returned (EVENT_MASK i), k') \<and> running k' \<and> i < 32 \<and>
    bit (pending k (currp k)) i \<and> bit events i \<and> (\<forall>j < i. \<not> (bit (pending k (currp k)) j \<and> bit events j)) \<and>
    pending k' (currp k) = pending k (currp k) AND NOT (EVENT_MASK i) \<and> (\<forall>t. t \<noteq> currp k \<longrightarrow> threads k' t = threads k t)"
proof -
  let ?p = "pending k (currp k)"
  obtain i where i: "i < 32" "lowest_bit (?p AND events) = EVENT_MASK i" "bit (?p AND events) i" "\<forall>j < i. \<not> bit (?p AND events) j"
    using lowest_bit_ok [OF assms(2)] by blast
  let ?k = "set_pending (?p AND NOT (EVENT_MASK i)) (currp k) k"
  have r: "running ?k" using assms(1) by (simp add: set_pending_def running_def sched_ok_def thread_idle_ctx_def)
  have "(set_pending (?p AND NOT (EVENT_MASK i)) (currp k) (k\<lparr>lock_cnt := 1\<rparr>)) = ?k\<lparr>lock_cnt := 1\<rparr>" by (simp add: set_pending_def refs_lock)
  moreover have "chSysUnlock (?k\<lparr>lock_cnt := 1\<rparr>) = Ok ?k"
    using running_unlock [of "?k\<lparr>lock_cnt := 1\<rparr>"] running_lock(2) [OF r] running_same [OF r] r by (simp add: running_def)
  ultimately have "chEvtWaitOne events k = Ok (Returned (EVENT_MASK i), ?k)"
    using running_lock(1) [OF assms(1)] assms(2) i(2) by (simp add: chEvtWaitOne_def locked_wait_def evt_wait_body_def evt_take_eq)
  then show ?thesis using i r by (intro exI [of _ i] exI [of _ ?k]) (auto simp: bit_and_iff set_pending_def)
qed

theorem chEvtWaitOne_lowest_witness:
  "\<exists>i k'. chEvtWaitOne 12 (set_pending 10 16 (es_k demo_events)) = Ok (Returned (EVENT_MASK i), k') \<and> running k'"
proof -
  let ?k = "set_pending 10 16 (es_k demo_events)"
  have "running ?k" using demo_events_ok(1) by (simp add: set_pending_def running_def sched_ok_def thread_idle_ctx_def)
  moreover have "pending ?k (currp ?k) AND 12 \<noteq> 0" by (simp add: set_pending_def demo_events_def)
  ultimately show ?thesis using chEvtWaitOne_lowest [of ?k 12] by blast
qed

text \<open>Registering puts a listener in front of the list, unregistering takes it out again.\<close>

theorem chEvtRegister_list:
  assumes "running (es_k s)" and "evt_ring esp xs s" and "esp \<noteq> NULL" and "elp \<noteq> NULL" and "elp \<noteq> esp"
  shows "elp \<notin> set xs \<Longrightarrow> \<exists>s'. chEvtRegisterMaskWithFlags esp elp events wflags s = Ok s' \<and> evt_ring esp (elp # xs) s' \<and> es_k s' = es_k s \<and>
      es_lsn s' = (es_lsn s)(elp := \<lparr>el_listener = currp (es_k s), el_events = events, el_flags = 0, el_wflags = wflags\<rparr>)"
    and "\<exists>s'. chEvtUnregister esp elp s = Ok s' \<and> evt_ring esp (remove1 elp xs) s' \<and> es_k s' = es_k s \<and> es_lsn s' = es_lsn s"
proof -
  have n: "esp \<notin> set xs" "distinct xs" using assms(2) evt_path_notin by (auto simp: evt_ring_def)
  have u: "chSysUnlock ((es_k s)\<lparr>lock_cnt := 1\<rparr>) = Ok (es_k s)"
    using running_unlock [of "(es_k s)\<lparr>lock_cnt := 1\<rparr>"] running_lock(2) [OF assms(1)] running_same [OF assms(1)] assms(1) by (simp add: running_def)
  show "\<exists>s'. chEvtRegisterMaskWithFlags esp elp events wflags s = Ok s' \<and> evt_ring esp (elp # xs) s' \<and> es_k s' = es_k s \<and>
      es_lsn s' = (es_lsn s)(elp := \<lparr>el_listener = currp (es_k s), el_events = events, el_flags = 0, el_wflags = wflags\<rparr>)"
    if "elp \<notin> set xs"
    using running_lock(1) [OF assms(1)] u assms n that by (simp add: chEvtRegisterMaskWithFlags_def evt_ring_def evt_path_upd)
  obtain nx where "unregister_loop evt_turns esp elp esp (es_next s) = Ok nx" "evt_path nx (nx esp) (remove1 elp xs) esp"
    using unregister_loop_ok [of "es_next s" esp xs esp evt_turns elp] evt_ring_length [OF assms(2)] assms n by (auto simp: evt_ring_def)
  then show "\<exists>s'. chEvtUnregister esp elp s = Ok s' \<and> evt_ring esp (remove1 elp xs) s' \<and> es_k s' = es_k s \<and> es_lsn s' = es_lsn s"
    using running_lock(1) [OF assms(1)] u assms n by (simp add: chEvtUnregister_def evt_ring_def del: unregister_loop.simps)
qed

end
