(* ===== verification/Memory.thy ===== *)
theory Memory
  imports Prelude
begin

text \<open>
  The address space as the application code sees it through casted pointers: one byte per
  address, little endian words as on the ARMv7-M target, addresses that wrap around. The
  functions of the C library that the firmware calls on raw memory (\<open>memcpy\<close>, \<open>memset\<close>) are
  here too; \<open>memcpy\<close> on overlapping areas is undefined.

  A byte of an area is addressed by its distance from the start of the area, computed with
  wrap-around subtraction: \<open>a\<close> lies in the \<open>n\<close> bytes at \<open>base\<close> iff \<open>unat (a - base) < n\<close>.
\<close>

type_synonym mem = "u32 \<Rightarrow> byte"

section \<open>Access\<close>

definition byte_of :: "nat \<Rightarrow> u32 \<Rightarrow> byte" where
  "byte_of i v = ucast (drop_bit (8 * i) v)"

definition load16 :: "mem \<Rightarrow> u32 \<Rightarrow> u16" where
  "load16 m a = ucast (m a) OR push_bit 8 (ucast (m (a + 1)))"

definition load32 :: "mem \<Rightarrow> u32 \<Rightarrow> u32" where
  "load32 m a = ucast (m a) OR push_bit 8 (ucast (m (a + 1))) OR push_bit 16 (ucast (m (a + 2)))
     OR push_bit 24 (ucast (m (a + 3)))"

definition store16 :: "u32 \<Rightarrow> u16 \<Rightarrow> mem \<Rightarrow> mem" where
  "store16 a v m = (\<lambda>x. if unat (x - a) < 2 then byte_of (unat (x - a)) (ucast v) else m x)"

definition store32 :: "u32 \<Rightarrow> u32 \<Rightarrow> mem \<Rightarrow> mem" where
  "store32 a v m = (\<lambda>x. if unat (x - a) < 4 then byte_of (unat (x - a)) v else m x)"

definition move :: "u32 \<Rightarrow> u32 \<Rightarrow> nat \<Rightarrow> mem \<Rightarrow> mem" where
  "move dst src n m = (\<lambda>x. if unat (x - dst) < n then m (src + (x - dst)) else m x)"

definition disjoint :: "u32 \<Rightarrow> nat \<Rightarrow> u32 \<Rightarrow> nat \<Rightarrow> bool" where
  "disjoint a n b l \<longleftrightarrow> n = 0 \<or> l = 0 \<or> (unat (b - a) \<ge> n \<and> unat (a - b) \<ge> l)"

definition memcpy :: "u32 \<Rightarrow> u32 \<Rightarrow> nat \<Rightarrow> mem \<Rightarrow> mem kres" where
  "memcpy dst src n m = (if disjoint dst n src n then Ok (move dst src n m) else Undef)"

definition memset :: "u32 \<Rightarrow> byte \<Rightarrow> nat \<Rightarrow> mem \<Rightarrow> mem" where
  "memset dst v n m = (\<lambda>x. if unat (x - dst) < n then v else m x)"

section \<open>Distances\<close>

lemma unat_of_nat32: "k < 2 ^ 32 \<Longrightarrow> unat (of_nat k :: u32) = k"
  by (simp add: unat_of_nat)

lemma shifted_less:
  fixes y :: u32
  assumes "k + c \<le> 2 ^ 32"
  shows "unat (y - of_nat k) < c \<longleftrightarrow> k \<le> unat y \<and> unat y < k + c"
proof (cases "c = 0")
  case True
  then show ?thesis by simp
next
  case False
  then have k: "unat (of_nat k :: u32) = k" using assms by (simp add: unat_of_nat32)
  have y: "unat y < 2 ^ 32" by (rule unat_less32)
  show ?thesis
    using assms k y by (auto simp: unat_sub_if')
qed

lemma shifted_value:
  fixes y :: u32
  assumes "k \<le> unat y"
  shows "unat (y - of_nat k) = unat y - k"
proof -
  have "unat (of_nat k :: u32) = k" using assms unat_less32 [of y] by (simp add: unat_of_nat32)
  then show ?thesis using assms by (simp add: unat_sub_if')
qed

lemma in_area_iff:
  fixes x :: u32
  assumes "n \<le> 2 ^ 32"
  shows "unat (x - a) < n \<longleftrightarrow> (\<exists>i<n. x = a + of_nat i)"
proof
  assume "unat (x - a) < n"
  then show "\<exists>i<n. x = a + of_nat i" by (intro exI [of _ "unat (x - a)"]) simp
next
  assume "\<exists>i<n. x = a + of_nat i"
  then show "unat (x - a) < n" using assms by (auto simp: unat_of_nat32)
qed

lemma disjointD:
  assumes "disjoint a n b l" and "n \<le> 2 ^ 32" and "l \<le> 2 ^ 32" and "unat (x - a) < n"
  shows "\<not> unat (x - b) < l"
proof
  assume l: "unat (x - b) < l"
  with assms(1,4) have d: "unat (b - a) \<ge> n" "unat (a - b) \<ge> l" by (auto simp: disjoint_def)
  have s: "(x - b) + (b - a) = x - a" by simp
  have "a \<noteq> b" using d assms(4) by auto
  then have "unat a \<noteq> unat b" by (simp add: word_unat_eq_iff)
  then have ab: "unat (b - a) + unat (a - b) = 2 ^ 32"
  proof (cases "unat b \<le> unat a")
    case True
    then have "unat b < unat a" "unat a < 2 ^ 32" using \<open>unat a \<noteq> unat b\<close> unat_less32 [of a] by simp_all
    then show ?thesis by (simp add: unat_sub_if')
  next
    case False
    then have "unat a < unat b" "unat b < 2 ^ 32" using unat_less32 [of b] by simp_all
    then show ?thesis by (simp add: unat_sub_if')
  qed
  show False
  proof (cases "unat (x - b) + unat (b - a) < 2 ^ 32")
    case True
    then have "unat (x - a) = unat (x - b) + unat (b - a)" using unat_plus_less [OF True] unfolding s by simp
    then show False using d assms(4) by simp
  next
    case False
    then show False using ab l d by simp
  qed
qed

lemma disjoint_sym: "disjoint a n b l = disjoint b l a n"
  by (auto simp: disjoint_def)

section \<open>Words in memory\<close>

lemma byte_of_load32: "i < 4 \<Longrightarrow> byte_of i (load32 m a) = m (a + of_nat i)"
proof -
  assume "i < 4"
  then consider "i = 0" | "i = 1" | "i = 2" | "i = 3" by linarith
  then show ?thesis
  proof cases
    case 1 then show ?thesis
      by (intro bit_word_eqI) (auto simp: byte_of_def load32_def bit_simps dest: bit_imp_le_length)
  next
    case 2 then show ?thesis
      by (intro bit_word_eqI) (auto simp: byte_of_def load32_def bit_simps dest: bit_imp_le_length)
  next
    case 3 then show ?thesis
      by (intro bit_word_eqI) (auto simp: byte_of_def load32_def bit_simps dest: bit_imp_le_length)
  next
    case 4 then show ?thesis
      by (intro bit_word_eqI) (auto simp: byte_of_def load32_def bit_simps dest: bit_imp_le_length)
  qed
qed

lemma load32_cong: "(\<And>i. i < 4 \<Longrightarrow> m (a + of_nat i) = m' (a + of_nat i)) \<Longrightarrow> load32 m a = load32 m' a"
proof -
  assume *: "\<And>i. i < 4 \<Longrightarrow> m (a + of_nat i) = m' (a + of_nat i)"
  have "m a = m' a" "m (a + 1) = m' (a + 1)" "m (a + 2) = m' (a + 2)" "m (a + 3) = m' (a + 3)"
    using * [of 0] * [of 1] * [of 2] * [of 3] by simp_all
  then show ?thesis by (simp add: load32_def)
qed

lemma load16_cong: "m a = m' a \<Longrightarrow> m (a + 1) = m' (a + 1) \<Longrightarrow> load16 m a = load16 m' a"
  by (simp add: load16_def)

text \<open>Writing the words that were read at \<open>src\<close> moves their bytes.\<close>

lemma store32_moves:
  assumes "4 * Suc n \<le> 2 ^ 32"
  shows "store32 (dst + 4 * of_nat n) (load32 m (src + 4 * of_nat n)) (move dst src (4 * n) m) =
    move dst src (4 * Suc n) m"
proof
  fix x :: u32
  let ?y = "x - dst"
  have sh: "x - (dst + 4 * of_nat n) = ?y - of_nat (4 * n)" by simp
  have in4: "unat (x - (dst + 4 * of_nat n)) < 4 \<longleftrightarrow> 4 * n \<le> unat ?y \<and> unat ?y < 4 * n + 4"
    unfolding sh by (rule shifted_less) (use assms in simp)
  show "store32 (dst + 4 * of_nat n) (load32 m (src + 4 * of_nat n)) (move dst src (4 * n) m) x =
      move dst src (4 * Suc n) m x"
  proof (cases "unat (x - (dst + 4 * of_nat n)) < 4")
    case True
    let ?i = "unat (x - (dst + 4 * of_nat n))"
    have "src + 4 * of_nat n + of_nat ?i = src + ?y" by simp
    then have "byte_of ?i (load32 m (src + 4 * of_nat n)) = m (src + ?y)"
      using byte_of_load32 [OF True, of m "src + 4 * of_nat n"] by simp
    then show ?thesis using True in4 by (simp add: store32_def move_def)
  next
    case False
    then show ?thesis using in4 by (auto simp: store32_def move_def)
  qed
qed

lemma move_0 [simp]: "move dst src 0 m = m"
  by (simp add: move_def)


section \<open>Loads after stores\<close>

lemma areas_disjoint_iff:
  assumes "n \<le> 2 ^ 32" and "l \<le> 2 ^ 32"
  shows "disjoint a n b l \<longleftrightarrow> (\<forall>x. unat (x - a) < n \<longrightarrow> \<not> unat (x - b) < l)"
proof
  assume "disjoint a n b l"
  then show "\<forall>x. unat (x - a) < n \<longrightarrow> \<not> unat (x - b) < l" using disjointD assms by blast
next
  assume r: "\<forall>x. unat (x - a) < n \<longrightarrow> \<not> unat (x - b) < l"
  show "disjoint a n b l" unfolding disjoint_def using r [rule_format, of a] r [rule_format, of b] by (auto intro!: leI)
qed

lemma disjoint_sub:
  assumes "disjoint a n b l" and "i + c \<le> n" and "j + e \<le> l" and "n \<le> 2 ^ 32" and "l \<le> 2 ^ 32"
  shows "disjoint (a + of_nat i) c (b + of_nat j) e"
proof -
  have s: "x - (y + of_nat k) = (x - y) - of_nat k" for x y :: u32 and k by simp
  have 1: "unat (x - a) < n" if "unat (x - (a + of_nat i)) < c" for x
    using that shifted_less [of i c "x - a"] assms(2,4) unfolding s by auto
  have 2: "unat (x - b) < l" if "unat (x - (b + of_nat j)) < e" for x
    using that shifted_less [of j e "x - b"] assms(3,5) unfolding s by auto
  have "c \<le> 2 ^ 32" "e \<le> 2 ^ 32" using assms by simp_all
  then show ?thesis
    unfolding areas_disjoint_iff [OF \<open>c \<le> 2 ^ 32\<close> \<open>e \<le> 2 ^ 32\<close>] using 1 2 disjointD [OF assms(1,4,5)] by blast
qed

lemma area_member: "i < n \<Longrightarrow> n \<le> 2 ^ 32 \<Longrightarrow> unat (a + of_nat i - a :: u32) < n"
  by (simp add: unat_of_nat32)

lemma word_of_bytes:
  "ucast (byte_of 0 v) OR push_bit 8 (ucast (byte_of 1 v)) OR push_bit 16 (ucast (byte_of 2 v))
     OR push_bit 24 (ucast (byte_of 3 v)) = (v :: u32)"
proof (rule bit_word_eqI)
  fix n assume "n < LENGTH(32)"
  then have "n < 8 \<or> (8 \<le> n \<and> n < 16) \<or> (16 \<le> n \<and> n < 24) \<or> (24 \<le> n \<and> n < 32)" by auto
  then show "bit (ucast (byte_of 0 v) OR push_bit 8 (ucast (byte_of 1 v)) OR push_bit 16 (ucast (byte_of 2 v))
     OR push_bit 24 (ucast (byte_of 3 v)) :: u32) n = bit v n"
    by (auto simp: byte_of_def bit_simps dest: bit_imp_le_length)
qed

lemma half_of_bytes: "ucast (byte_of 0 (ucast v)) OR push_bit 8 (ucast (byte_of 1 (ucast v))) = (v :: u16)"
proof (rule bit_word_eqI)
  fix n assume "n < LENGTH(16)"
  then have "n < 8 \<or> (8 \<le> n \<and> n < 16)" by auto
  then show "bit (ucast (byte_of 0 (ucast v)) OR push_bit 8 (ucast (byte_of 1 (ucast v))) :: u16) n = bit v n"
    by (auto simp: byte_of_def bit_simps dest: bit_imp_le_length)
qed

lemma load32_store32 [simp]: "load32 (store32 a v m) a = v"
  by (simp add: load32_def store32_def word_of_bytes [simplified])

lemma load16_store16 [simp]: "load16 (store16 a v m) a = v"
  by (simp add: load16_def store16_def half_of_bytes [simplified])

text \<open>A load that a store does not reach.\<close>

lemma load32_other:
  assumes "disjoint a 4 b n" and "n \<le> 2 ^ 32" and "\<And>x. \<not> unat (x - b) < n \<Longrightarrow> m' x = m x"
  shows "load32 m' a = load32 m a"
proof (rule load32_cong)
  fix i :: nat assume "i < 4"
  then show "m' (a + of_nat i) = m (a + of_nat i)"
    by (intro assms(3) disjointD [OF assms(1) _ assms(2)]) (use area_member [of i 4 a] in simp_all)
qed

lemma load16_other:
  assumes "disjoint a 2 b n" and "n \<le> 2 ^ 32" and "\<And>x. \<not> unat (x - b) < n \<Longrightarrow> m' x = m x"
  shows "load16 m' a = load16 m a"
proof -
  have "m' (a + of_nat i) = m (a + of_nat i)" if "i < 2" for i
    by (intro assms(3) disjointD [OF assms(1) _ assms(2)]) (use area_member [of i 2 a] that in simp_all)
  from this [of 0] this [of 1] show ?thesis by (intro load16_cong) simp_all
qed

lemma load_store_other:
  "disjoint a 4 b 4 \<Longrightarrow> load32 (store32 b v m) a = load32 m a"
  "disjoint a 4 b 2 \<Longrightarrow> load32 (store16 b w m) a = load32 m a"
  "disjoint a 2 b 4 \<Longrightarrow> load16 (store32 b v m) a = load16 m a"
  by (erule load32_other load16_other; simp add: store32_def store16_def)+

end
