(* ===== verification/Factory.thy ===== *)
theory Factory
  imports ObjFifos HeapClients Pipes Events Memory
begin

text \<open>
  The objects factory (\<open>os/oslib/src/chfactory.c\<close>, \<open>chfactory.h\<close>): named objects with reference counts, in lists that
  run through the objects themselves. The memory is that of the heap (theory \<open>Heaps\<close>), a map from addresses to words: an element at \<open>dep\<close> has its
  link at \<open>dep\<close>, its reference count at \<open>dep + 4\<close>, its name in the two words from \<open>dep + 8\<close> on, and the object behind it
  at \<open>dep + 16\<close>. The address \<open>fac\<close> of \<open>ch_factory\<close> and that of the default heap are parameters; the names are
  byte strings. A call that sleeps, at the mutex of the factory or at that of the heap, returns \<open>Asleep\<close>; \<open>F_CALL_resume\<close> and the functions with the suffix
  \<open>_resume\<close> are what it does behind the sleep.
\<close>

section \<open>Memory layout\<close>

record factorysys =
  fs_ps :: poolsys
  fs_pipes :: "ptr \<Rightarrow> pipe"

abbreviation fs_k :: "factorysys \<Rightarrow> kernel" where "fs_k s \<equiv> ps_k (fs_ps s)"
abbreviation fs_mem :: "factorysys \<Rightarrow> ptr \<Rightarrow> u32" where "fs_mem s \<equiv> ps_mem (fs_ps s)"

definition fs_set_k :: "kernel \<Rightarrow> factorysys \<Rightarrow> factorysys" where
  "fs_set_k k s = s\<lparr>fs_ps := set_k k (fs_ps s)\<rparr>"

definition fs_set_mem :: "(ptr \<Rightarrow> u32) \<Rightarrow> factorysys \<Rightarrow> factorysys" where
  "fs_set_mem m s = s\<lparr>fs_ps := (fs_ps s)\<lparr>ps_hs := (ps_hs (fs_ps s))\<lparr>hmem := m\<rparr>\<rparr>\<rparr>"

definition f_obj_list :: "ptr \<Rightarrow> ptr" where "f_obj_list fac = fac + 16"
definition f_obj_pool :: "ptr \<Rightarrow> ptr" where "f_obj_pool fac = fac + 20"
definition f_buf_list :: "ptr \<Rightarrow> ptr" where "f_buf_list fac = fac + 36"
definition f_sem_list :: "ptr \<Rightarrow> ptr" where "f_sem_list fac = fac + 40"
definition f_sem_pool :: "ptr \<Rightarrow> ptr" where "f_sem_pool fac = fac + 44"
definition f_mbx_list :: "ptr \<Rightarrow> ptr" where "f_mbx_list fac = fac + 60"
definition f_fifo_list :: "ptr \<Rightarrow> ptr" where "f_fifo_list fac = fac + 64"
definition f_pipe_list :: "ptr \<Rightarrow> ptr" where "f_pipe_list fac = fac + 68"

definition CH_CFG_FACTORY_MAX_NAMES_LENGTH :: nat where "CH_CFG_FACTORY_MAX_NAMES_LENGTH = 8"

text \<open>Names: the bytes of an element's name, \<open>strncpy\<close> into it, and the test for equality by \<open>strncmp\<close>.\<close>

definition name_bytes :: "(ptr \<Rightarrow> u32) \<Rightarrow> ptr \<Rightarrow> byte list" where
  "name_bytes m dep = map (\<lambda>i. byte_of i (m (dep + 8))) [0..<4] @ map (\<lambda>i. byte_of i (m (dep + 12))) [0..<4]"

definition pack :: "byte list \<Rightarrow> u32" where
  "pack bs = ucast (bs ! 0) OR push_bit 8 (ucast (bs ! 1)) OR push_bit 16 (ucast (bs ! 2)) OR push_bit 24 (ucast (bs ! 3))"

definition strncpy :: "nat \<Rightarrow> byte list \<Rightarrow> byte list" where
  "strncpy n name = take n (takeWhile (\<lambda>b. b \<noteq> 0) name @ replicate n 0)"

definition store_name :: "byte list \<Rightarrow> ptr \<Rightarrow> (ptr \<Rightarrow> u32) \<Rightarrow> (ptr \<Rightarrow> u32)" where
  "store_name name dep m =
     (let bs = strncpy CH_CFG_FACTORY_MAX_NAMES_LENGTH name
      in m(dep + 8 := pack (take 4 bs), dep + 12 := pack (drop 4 bs)))"

definition char_at :: "byte list \<Rightarrow> byte" where "char_at s = (case s of [] \<Rightarrow> 0 | c # _ \<Rightarrow> c)"

fun strncmp :: "nat \<Rightarrow> byte list \<Rightarrow> byte list \<Rightarrow> bool" where
  "strncmp 0 a b = True"
| "strncmp (Suc n) a b = (char_at a = char_at b \<and> (char_at a = 0 \<or> strncmp n (tl a) (tl b)))"

section \<open>Lists of elements\<close>

definition dyn_list_init :: "ptr \<Rightarrow> factorysys \<Rightarrow> factorysys" where
  "dyn_list_init dlp s = fs_set_mem ((fs_mem s)(dlp := dlp)) s"

fun dyn_find_loop :: "nat \<Rightarrow> byte list \<Rightarrow> ptr \<Rightarrow> ptr \<Rightarrow> (ptr \<Rightarrow> u32) \<Rightarrow> ptr kres" where
  "dyn_find_loop turns name dlp p m =
     (if p = dlp then Ok NULL
      else case turns of 0 \<Rightarrow> Diverge
      | Suc turns \<Rightarrow> if strncmp CH_CFG_FACTORY_MAX_NAMES_LENGTH (name_bytes m p) name then Ok p
                     else dyn_find_loop turns name dlp (m p) m)"

definition dyn_list_find :: "byte list \<Rightarrow> ptr \<Rightarrow> (ptr \<Rightarrow> u32) \<Rightarrow> ptr kres" where
  "dyn_list_find name dlp m = dyn_find_loop max_turns name dlp (m dlp) m"

fun dyn_unlink_loop :: "nat \<Rightarrow> ptr \<Rightarrow> ptr \<Rightarrow> ptr \<Rightarrow> (ptr \<Rightarrow> u32) \<Rightarrow> (ptr \<times> (ptr \<Rightarrow> u32)) kres" where
  "dyn_unlink_loop turns element dlp prev m =
     (if m prev = dlp then Ok (NULL, m)
      else case turns of 0 \<Rightarrow> Diverge
      | Suc turns \<Rightarrow> if m prev = element then Ok (element, m(prev := m element))
                     else dyn_unlink_loop turns element dlp (m prev) m)"

declare dyn_find_loop.simps [simp del] dyn_unlink_loop.simps [simp del]

definition dyn_list_unlink :: "ptr \<Rightarrow> ptr \<Rightarrow> (ptr \<Rightarrow> u32) \<Rightarrow> (ptr \<times> (ptr \<Rightarrow> u32)) kres" where
  "dyn_list_unlink element dlp m = dyn_unlink_loop max_turns element dlp dlp m"

text \<open>The element is initialised and becomes the first of the list.\<close>

definition dyn_link :: "byte list \<Rightarrow> ptr \<Rightarrow> ptr \<Rightarrow> (ptr \<Rightarrow> u32) \<Rightarrow> (ptr \<Rightarrow> u32)" where
  "dyn_link name dlp dep m =
     (let m = store_name name dep m;
          m = m(dep + 4 := 1);
          m = m(dep := m dlp)
      in m(dlp := dep))"

definition dyn_created :: "byte list \<Rightarrow> ptr \<Rightarrow> ptr wait \<Rightarrow> factorysys \<Rightarrow> ptr wait \<times> factorysys" where
  "dyn_created name dlp r s =
     (case r of Asleep \<Rightarrow> (Asleep, s)
      | Returned dep \<Rightarrow> if dep = NULL then (Returned NULL, s)
                        else (Returned dep, fs_set_mem (dyn_link name dlp dep (fs_mem s)) s))"

definition fs_heap :: "(heapsys \<Rightarrow> ('a \<times> heapsys) kres) \<Rightarrow> factorysys \<Rightarrow> ('a \<times> factorysys) kres" where
  "fs_heap f s = kbind (f (ps_hs (fs_ps s))) (\<lambda>(r, hs). Ok (r, s\<lparr>fs_ps := (fs_ps s)\<lparr>ps_hs := hs\<rparr>\<rparr>))"

definition fs_pool :: "(poolsys \<Rightarrow> ('a \<times> poolsys) kres) \<Rightarrow> factorysys \<Rightarrow> ('a \<times> factorysys) kres" where
  "fs_pool f s = kbind (f (fs_ps s)) (\<lambda>(r, ps). Ok (r, s\<lparr>fs_ps := ps\<rparr>))"

definition dyn_create_object_heap :: "ptr \<Rightarrow> byte list \<Rightarrow> ptr \<Rightarrow> u32 \<Rightarrow> factorysys \<Rightarrow> (ptr wait \<times> factorysys) kres" where
  "dyn_create_object_heap dheap name dlp sz s =
     kbind (dyn_list_find name dlp (fs_mem s)) (\<lambda>dep.
     if dep \<noteq> NULL then Ok (Returned NULL, s)
     else kbind (fs_heap (chHeapAlloc dheap NULL sz) s) (\<lambda>(r, s). Ok (dyn_created name dlp r s)))"

definition dyn_create_object_heap_resume :: "ptr \<Rightarrow> byte list \<Rightarrow> ptr \<Rightarrow> u32 \<Rightarrow> factorysys \<Rightarrow> (ptr wait \<times> factorysys) kres" where
  "dyn_create_object_heap_resume dheap name dlp sz s =
     kbind (fs_heap (chHeapAllocAligned_resume dheap NULL sz CH_HEAP_ALIGNMENT) s) (\<lambda>(r, s). Ok (dyn_created name dlp r s))"

definition dyn_release_object_heap :: "ptr \<Rightarrow> ptr \<Rightarrow> factorysys \<Rightarrow> (unit wait \<times> factorysys) kres" where
  "dyn_release_object_heap dep dlp s =
     kguard (dep \<noteq> NULL) ''dyn_release_object_heap'' (
     kguard (fs_mem s (dep + 4) > 0) ''invalid references number'' (
     let m = (fs_mem s)(dep + 4 := fs_mem s (dep + 4) - 1)
     in if m (dep + 4) = 0
        then kbind (dyn_list_unlink dep dlp m) (\<lambda>(dep, m). fs_heap (chHeapFree dep) (fs_set_mem m s))
        else Ok (Returned (), fs_set_mem m s)))"

definition dyn_create_object_pool :: "byte list \<Rightarrow> ptr \<Rightarrow> ptr \<Rightarrow> factorysys \<Rightarrow> (ptr wait \<times> factorysys) kres" where
  "dyn_create_object_pool name dlp mp s =
     kbind (dyn_list_find name dlp (fs_mem s)) (\<lambda>dep.
     if dep \<noteq> NULL then Ok (Returned NULL, s)
     else kbind (fs_pool (chPoolAlloc mp) s) (\<lambda>(dep, s). Ok (dyn_created name dlp (Returned dep) s)))"

definition dyn_release_object_pool :: "ptr \<Rightarrow> ptr \<Rightarrow> ptr \<Rightarrow> factorysys \<Rightarrow> (unit wait \<times> factorysys) kres" where
  "dyn_release_object_pool dep dlp mp s =
     kguard (dep \<noteq> NULL) ''dyn_release_object_pool'' (
     kguard (fs_mem s (dep + 4) > 0) ''invalid references number'' (
     let m = (fs_mem s)(dep + 4 := fs_mem s (dep + 4) - 1)
     in if m (dep + 4) = 0
        then kbind (dyn_list_unlink dep dlp m) (\<lambda>(dep, m).
             fs_pool (\<lambda>ps. kbind (chPoolFree mp dep ps) (\<lambda>ps. Ok (Returned (), ps))) (fs_set_mem m s))
        else Ok (Returned (), fs_set_mem m s)))"

definition dyn_find_object :: "byte list \<Rightarrow> ptr \<Rightarrow> factorysys \<Rightarrow> (ptr wait \<times> factorysys) kres" where
  "dyn_find_object name dlp s =
     kbind (dyn_list_find name dlp (fs_mem s)) (\<lambda>dep.
     Ok (Returned dep, if dep \<noteq> NULL then fs_set_mem ((fs_mem s)(dep + 4 := fs_mem s (dep + 4) + 1)) s else s))"

section \<open>The factory\<close>

definition factory_init :: "ptr \<Rightarrow> factorysys \<Rightarrow> factorysys kres" where
  "factory_init fac s =
     kbind (chMtxObjectInit fac (fs_k s)) (\<lambda>k.
     let s = dyn_list_init (f_obj_list fac) (fs_set_k k s)
     in kbind (chPoolObjectInit (f_obj_pool fac) 20 CORE_ALLOC_ALIGNED_I (fs_ps s)) (\<lambda>ps.
        let s = dyn_list_init (f_sem_list fac) (dyn_list_init (f_buf_list fac) (s\<lparr>fs_ps := ps\<rparr>))
        in kbind (chPoolObjectInit (f_sem_pool fac) 28 CORE_ALLOC_ALIGNED_I (fs_ps s)) (\<lambda>ps.
           Ok (dyn_list_init (f_pipe_list fac) (dyn_list_init (f_fifo_list fac) (dyn_list_init (f_mbx_list fac) (s\<lparr>fs_ps := ps\<rparr>)))))))"

definition F_LOCKED :: "ptr \<Rightarrow> (factorysys \<Rightarrow> ('a wait \<times> factorysys) kres) \<Rightarrow> factorysys \<Rightarrow> ('a wait \<times> factorysys) kres" where
  "F_LOCKED fac body s =
     kbind (body s) (\<lambda>(r, s).
     case r of Asleep \<Rightarrow> Ok (Asleep, s)
     | Returned v \<Rightarrow> kbind (chMtxUnlock fac (fs_k s)) (\<lambda>k. Ok (Returned v, fs_set_k k s)))"

definition F_CALL :: "ptr \<Rightarrow> (factorysys \<Rightarrow> ('a wait \<times> factorysys) kres) \<Rightarrow> factorysys \<Rightarrow> ('a wait \<times> factorysys) kres" where
  "F_CALL fac body s =
     kbind (chMtxLock fac (fs_k s)) (\<lambda>(r, k).
     case r of Asleep \<Rightarrow> Ok (Asleep, fs_set_k k s) | Returned _ \<Rightarrow> F_LOCKED fac body (fs_set_k k s))"

definition F_CALL_resume :: "ptr \<Rightarrow> (factorysys \<Rightarrow> ('a wait \<times> factorysys) kres) \<Rightarrow> factorysys \<Rightarrow> ('a wait \<times> factorysys) kres" where
  "F_CALL_resume fac body s = kbind (chMtxLock_resume fac (fs_k s)) (\<lambda>(_, k). F_LOCKED fac body (fs_set_k k s))"

text \<open>The initialisation of an object that has been created.\<close>

definition init_created :: "(ptr \<Rightarrow> factorysys \<Rightarrow> factorysys kres) \<Rightarrow> ptr wait \<times> factorysys \<Rightarrow> (ptr wait \<times> factorysys) kres" where
  "init_created f rs =
     (case rs of (Asleep, s) \<Rightarrow> Ok (Asleep, s)
      | (Returned p, s) \<Rightarrow> if p \<noteq> NULL then kbind (f p s) (\<lambda>s. Ok (Returned p, s)) else Ok (Returned p, s))"

text \<open>Registered objects.\<close>

definition chFactoryRegisterObject :: "ptr \<Rightarrow> byte list \<Rightarrow> ptr \<Rightarrow> factorysys \<Rightarrow> (ptr wait \<times> factorysys) kres" where
  "chFactoryRegisterObject fac name objp =
     F_CALL fac (\<lambda>s. kbind (dyn_create_object_pool name (f_obj_list fac) (f_obj_pool fac) s)
       (init_created (\<lambda>rop s. Ok (fs_set_mem ((fs_mem s)(rop + 16 := objp)) s))))"

definition chFactoryFindObject :: "ptr \<Rightarrow> byte list \<Rightarrow> factorysys \<Rightarrow> (ptr wait \<times> factorysys) kres" where
  "chFactoryFindObject fac name = F_CALL fac (dyn_find_object name (f_obj_list fac))"

fun find_pointer_loop :: "nat \<Rightarrow> ptr \<Rightarrow> ptr \<Rightarrow> ptr \<Rightarrow> factorysys \<Rightarrow> (ptr wait \<times> factorysys) kres" where
  "find_pointer_loop turns objp dlp rop s =
     (if rop = dlp then Ok (Returned NULL, s)
      else case turns of 0 \<Rightarrow> Diverge
      | Suc turns \<Rightarrow> if fs_mem s (rop + 16) = objp then Ok (Returned rop, fs_set_mem ((fs_mem s)(rop + 4 := fs_mem s (rop + 4) + 1)) s)
                     else find_pointer_loop turns objp dlp (fs_mem s rop) s)"

declare find_pointer_loop.simps [simp del]

text \<open>The head of the list is read before the mutex is taken.\<close>

definition chFactoryFindObjectByPointer :: "ptr \<Rightarrow> ptr \<Rightarrow> factorysys \<Rightarrow> (ptr wait \<times> factorysys) kres" where
  "chFactoryFindObjectByPointer fac objp s =
     (let rop = fs_mem s (f_obj_list fac)
      in F_CALL fac (find_pointer_loop max_turns objp (f_obj_list fac) rop) s)"

definition chFactoryReleaseObject :: "ptr \<Rightarrow> ptr \<Rightarrow> factorysys \<Rightarrow> (unit wait \<times> factorysys) kres" where
  "chFactoryReleaseObject fac rop = F_CALL fac (dyn_release_object_pool rop (f_obj_list fac) (f_obj_pool fac))"

definition chFactoryDuplicateReference :: "ptr \<Rightarrow> factorysys \<Rightarrow> ptr \<times> factorysys" where
  "chFactoryDuplicateReference dep s = (dep, fs_set_mem ((fs_mem s)(dep + 4 := fs_mem s (dep + 4) + 1)) s)"

definition chFactoryGetObject :: "ptr \<Rightarrow> factorysys \<Rightarrow> ptr" where
  "chFactoryGetObject rop s = fs_mem s (rop + 16)"

text \<open>Buffers. \<open>memset\<close> clears the words of its range, and the first bytes of the last one.\<close>

definition memset_zero :: "ptr \<Rightarrow> u32 \<Rightarrow> (ptr \<Rightarrow> u32) \<Rightarrow> (ptr \<Rightarrow> u32)" where
  "memset_zero p n m =
     (\<lambda>a. let d = a - p
          in if d < n \<and> d mod 4 = 0 then (if n - d \<ge> 4 then 0 else m a AND NOT (mask (8 * unat (n - d)))) else m a)"

definition create_buffer_body :: "ptr \<Rightarrow> u32 \<Rightarrow> ptr wait \<times> factorysys \<Rightarrow> (ptr wait \<times> factorysys) kres" where
  "create_buffer_body fac sz = init_created (\<lambda>dbp s. Ok (fs_set_mem (memset_zero (dbp + 16) sz (fs_mem s)) s))"

definition chFactoryCreateBuffer :: "ptr \<Rightarrow> ptr \<Rightarrow> byte list \<Rightarrow> u32 \<Rightarrow> factorysys \<Rightarrow> (ptr wait \<times> factorysys) kres" where
  "chFactoryCreateBuffer dheap fac name sz =
     F_CALL fac (\<lambda>s. kbind (dyn_create_object_heap dheap name (f_buf_list fac) sz s) (create_buffer_body fac sz))"

definition chFactoryCreateBuffer_resume :: "ptr \<Rightarrow> ptr \<Rightarrow> byte list \<Rightarrow> u32 \<Rightarrow> factorysys \<Rightarrow> (ptr wait \<times> factorysys) kres" where
  "chFactoryCreateBuffer_resume dheap fac name sz =
     F_LOCKED fac (\<lambda>s. kbind (dyn_create_object_heap_resume dheap name (f_buf_list fac) sz s) (create_buffer_body fac sz))"

definition chFactoryFindBuffer :: "ptr \<Rightarrow> byte list \<Rightarrow> factorysys \<Rightarrow> (ptr wait \<times> factorysys) kres" where
  "chFactoryFindBuffer fac name = F_CALL fac (dyn_find_object name (f_buf_list fac))"

definition chFactoryReleaseBuffer :: "ptr \<Rightarrow> ptr \<Rightarrow> factorysys \<Rightarrow> (unit wait \<times> factorysys) kres" where
  "chFactoryReleaseBuffer fac dbp = F_CALL fac (dyn_release_object_heap dbp (f_buf_list fac))"

definition chFactoryGetBufferSize :: "ptr \<Rightarrow> factorysys \<Rightarrow> u32" where
  "chFactoryGetBufferSize dbp s = chHeapGetSize dbp (ps_hs (fs_ps s)) - 16"

definition chFactoryGetBuffer :: "ptr \<Rightarrow> ptr" where "chFactoryGetBuffer dbp = dbp + 16"

text \<open>Semaphores.\<close>

definition chFactoryCreateSemaphore :: "ptr \<Rightarrow> byte list \<Rightarrow> int \<Rightarrow> factorysys \<Rightarrow> (ptr wait \<times> factorysys) kres" where
  "chFactoryCreateSemaphore fac name n =
     F_CALL fac (\<lambda>s. kbind (dyn_create_object_pool name (f_sem_list fac) (f_sem_pool fac) s)
       (init_created (\<lambda>dsp s. kbind (chSemObjectInit (dsp + 16) n (fs_k s)) (\<lambda>k. Ok (fs_set_k k s)))))"

definition chFactoryFindSemaphore :: "ptr \<Rightarrow> byte list \<Rightarrow> factorysys \<Rightarrow> (ptr wait \<times> factorysys) kres" where
  "chFactoryFindSemaphore fac name = F_CALL fac (dyn_find_object name (f_sem_list fac))"

definition chFactoryReleaseSemaphore :: "ptr \<Rightarrow> ptr \<Rightarrow> factorysys \<Rightarrow> (unit wait \<times> factorysys) kres" where
  "chFactoryReleaseSemaphore fac dsp = F_CALL fac (dyn_release_object_pool dsp (f_sem_list fac) (f_sem_pool fac))"

definition chFactoryGetSemaphore :: "ptr \<Rightarrow> ptr" where "chFactoryGetSemaphore dsp = dsp + 16"

text \<open>
  Mailboxes, objects FIFOs and pipes: the buffer behind the object holds what the memory holds; as the models of these objects keep their buffers
  apart, its initial contents are read from there.
\<close>

definition words_at :: "(ptr \<Rightarrow> u32) \<Rightarrow> ptr \<Rightarrow> nat \<Rightarrow> u32 list" where
  "words_at m p n = map (\<lambda>i. m (p + 4 * of_nat i)) [0..<n]"

definition create_mailbox_body :: "u32 \<Rightarrow> ptr wait \<times> factorysys \<Rightarrow> (ptr wait \<times> factorysys) kres" where
  "create_mailbox_body n = init_created (\<lambda>dmp s.
     kbind (chMBObjectInit (dmp + 16) (words_at (fs_mem s) (dmp + 56) (unat n)) (fs_k s)) (\<lambda>k. Ok (fs_set_k k s)))"

definition chFactoryCreateMailbox :: "ptr \<Rightarrow> ptr \<Rightarrow> byte list \<Rightarrow> u32 \<Rightarrow> factorysys \<Rightarrow> (ptr wait \<times> factorysys) kres" where
  "chFactoryCreateMailbox dheap fac name n =
     F_CALL fac (\<lambda>s. kbind (dyn_create_object_heap dheap name (f_mbx_list fac) (56 + n * 4) s) (create_mailbox_body n))"

definition chFactoryCreateMailbox_resume :: "ptr \<Rightarrow> ptr \<Rightarrow> byte list \<Rightarrow> u32 \<Rightarrow> factorysys \<Rightarrow> (ptr wait \<times> factorysys) kres" where
  "chFactoryCreateMailbox_resume dheap fac name n =
     F_LOCKED fac (\<lambda>s. kbind (dyn_create_object_heap_resume dheap name (f_mbx_list fac) (56 + n * 4) s) (create_mailbox_body n))"

definition chFactoryFindMailbox :: "ptr \<Rightarrow> byte list \<Rightarrow> factorysys \<Rightarrow> (ptr wait \<times> factorysys) kres" where
  "chFactoryFindMailbox fac name = F_CALL fac (dyn_find_object name (f_mbx_list fac))"

definition chFactoryReleaseMailbox :: "ptr \<Rightarrow> ptr \<Rightarrow> factorysys \<Rightarrow> (unit wait \<times> factorysys) kres" where
  "chFactoryReleaseMailbox fac dmp = F_CALL fac (dyn_release_object_heap dmp (f_mbx_list fac))"

definition chFactoryGetMailbox :: "ptr \<Rightarrow> ptr" where "chFactoryGetMailbox dmp = dmp + 16"

definition create_fifo_body :: "u32 \<Rightarrow> u32 \<Rightarrow> u32 \<Rightarrow> ptr wait \<times> factorysys \<Rightarrow> (ptr wait \<times> factorysys) kres" where
  "create_fifo_body objsize objn objalign = init_created (\<lambda>dofp s.
     let msgbuf = dofp + 84
     in kbind (chFifoObjectInitAligned (dofp + 16) objsize objn objalign (msgbuf + 4 * objn) (words_at (fs_mem s) msgbuf (unat objn)) (fs_ps s)) (\<lambda>ps.
        Ok (s\<lparr>fs_ps := ps\<rparr>)))"

definition chFactoryCreateObjectsFIFO :: "ptr \<Rightarrow> ptr \<Rightarrow> byte list \<Rightarrow> u32 \<Rightarrow> u32 \<Rightarrow> u32 \<Rightarrow> factorysys \<Rightarrow> (ptr wait \<times> factorysys) kres" where
  "chFactoryCreateObjectsFIFO dheap fac name objsize objn objalign =
     F_CALL fac (\<lambda>s. kbind (dyn_create_object_heap dheap name (f_fifo_list fac) (84 + objn * 4 + objn * objsize) s) (create_fifo_body objsize objn objalign))"

definition chFactoryCreateObjectsFIFO_resume :: "ptr \<Rightarrow> ptr \<Rightarrow> byte list \<Rightarrow> u32 \<Rightarrow> u32 \<Rightarrow> u32 \<Rightarrow> factorysys \<Rightarrow> (ptr wait \<times> factorysys) kres" where
  "chFactoryCreateObjectsFIFO_resume dheap fac name objsize objn objalign =
     F_LOCKED fac (\<lambda>s. kbind (dyn_create_object_heap_resume dheap name (f_fifo_list fac) (84 + objn * 4 + objn * objsize) s) (create_fifo_body objsize objn objalign))"

definition chFactoryFindObjectsFIFO :: "ptr \<Rightarrow> byte list \<Rightarrow> factorysys \<Rightarrow> (ptr wait \<times> factorysys) kres" where
  "chFactoryFindObjectsFIFO fac name = F_CALL fac (dyn_find_object name (f_fifo_list fac))"

definition chFactoryReleaseObjectsFIFO :: "ptr \<Rightarrow> ptr \<Rightarrow> factorysys \<Rightarrow> (unit wait \<times> factorysys) kres" where
  "chFactoryReleaseObjectsFIFO fac dofp = F_CALL fac (dyn_release_object_heap dofp (f_fifo_list fac))"

definition chFactoryGetObjectsFIFO :: "ptr \<Rightarrow> ptr" where "chFactoryGetObjectsFIFO dofp = dofp + 16"

definition bytes_at :: "(ptr \<Rightarrow> u32) \<Rightarrow> ptr \<Rightarrow> nat \<Rightarrow> byte list" where
  "bytes_at m p n = map (\<lambda>i. byte_of (i mod 4) (m (p + 4 * of_nat (i div 4)))) [0..<n]"

definition create_pipe_body :: "u32 \<Rightarrow> ptr wait \<times> factorysys \<Rightarrow> (ptr wait \<times> factorysys) kres" where
  "create_pipe_body sz = init_created (\<lambda>dpp s.
     kbind (chPipeObjectInit (dpp + 16) (bytes_at (fs_mem s) (dpp + 96) (unat sz)) \<lparr>pp_k = fs_k s, pp_pipes = fs_pipes s\<rparr>) (\<lambda>pk.
     Ok ((fs_set_k (pp_k pk) s)\<lparr>fs_pipes := pp_pipes pk\<rparr>)))"

definition chFactoryCreatePipe :: "ptr \<Rightarrow> ptr \<Rightarrow> byte list \<Rightarrow> u32 \<Rightarrow> factorysys \<Rightarrow> (ptr wait \<times> factorysys) kres" where
  "chFactoryCreatePipe dheap fac name sz =
     F_CALL fac (\<lambda>s. kbind (dyn_create_object_heap dheap name (f_pipe_list fac) (96 + sz) s) (create_pipe_body sz))"

definition chFactoryCreatePipe_resume :: "ptr \<Rightarrow> ptr \<Rightarrow> byte list \<Rightarrow> u32 \<Rightarrow> factorysys \<Rightarrow> (ptr wait \<times> factorysys) kres" where
  "chFactoryCreatePipe_resume dheap fac name sz =
     F_LOCKED fac (\<lambda>s. kbind (dyn_create_object_heap_resume dheap name (f_pipe_list fac) (96 + sz) s) (create_pipe_body sz))"

definition chFactoryFindPipe :: "ptr \<Rightarrow> byte list \<Rightarrow> factorysys \<Rightarrow> (ptr wait \<times> factorysys) kres" where
  "chFactoryFindPipe fac name = F_CALL fac (dyn_find_object name (f_pipe_list fac))"

definition chFactoryReleasePipe :: "ptr \<Rightarrow> ptr \<Rightarrow> factorysys \<Rightarrow> (unit wait \<times> factorysys) kres" where
  "chFactoryReleasePipe fac dpp = F_CALL fac (dyn_release_object_heap dpp (f_pipe_list fac))"

definition chFactoryGetPipe :: "ptr \<Rightarrow> ptr" where "chFactoryGetPipe dpp = dpp + 16"

section \<open>Names\<close>

lemma byte_of_pack: "i < 4 \<Longrightarrow> byte_of i (pack bs) = bs ! i"
proof -
  assume i: "i < 4"
  have "pack bs = load32 (\<lambda>a. bs ! unat a) 0" by (simp add: pack_def load32_def)
  then show ?thesis using byte_of_load32 [OF i, of "\<lambda>a. bs ! unat a" 0] i by (simp add: unat_of_nat)
qed

lemma length_strncpy [simp]: "length (strncpy n name) = n"
  by (simp add: strncpy_def)

lemma name_stored: "name_bytes (store_name name dep m) dep = strncpy CH_CFG_FACTORY_MAX_NAMES_LENGTH name"
proof -
  let ?bs = "strncpy CH_CFG_FACTORY_MAX_NAMES_LENGTH name"
  have l: "length ?bs = 8" by (simp add: CH_CFG_FACTORY_MAX_NAMES_LENGTH_def)
  have t: "map (\<lambda>i. byte_of i (pack bs)) [0..<4] = bs" if "length bs = 4" for bs
    by (rule nth_equalityI) (use that byte_of_pack in auto)
  have t1: "map (\<lambda>i. byte_of i (pack (take 4 ?bs))) [0..<4] = take 4 ?bs" using l by (intro t) simp
  have t2: "map (\<lambda>i. byte_of i (pack (drop 4 ?bs))) [0..<4] = drop 4 ?bs" using l by (intro t) simp
  show ?thesis by (simp add: name_bytes_def store_name_def Let_def t1 t2)
qed

lemma strncpy_Suc: "strncpy (Suc n) a = char_at a # (if char_at a = 0 then replicate n 0 else strncpy n (tl a))"
  by (cases a) (auto simp: strncpy_def char_at_def simp flip: replicate_append_same)

lemma strncpy_0 [simp]: "strncpy 0 a = []"
  by (simp add: strncpy_def)

text \<open>Two names are the same for \<open>strncmp\<close> exactly if \<open>strncpy\<close> stores the same bytes for them.\<close>

lemma strncmp_strncpy: "strncmp n (strncpy n a) b = (strncpy n a = strncpy n b)"
proof (induction n arbitrary: a b)
  case (Suc n)
  show ?case using Suc [of "tl a" "tl b"] by (auto simp: strncpy_Suc char_at_def)
qed simp

section \<open>Lists of elements\<close>

lemma dyn_find_loop_eq:
  "evt_path m p xs dlp \<Longrightarrow> length xs \<le> n \<Longrightarrow>
   dyn_find_loop n name dlp p m =
     Ok (case find (\<lambda>x. strncmp CH_CFG_FACTORY_MAX_NAMES_LENGTH (name_bytes m x) name) xs of None \<Rightarrow> NULL | Some x \<Rightarrow> x)"
proof (induction xs arbitrary: p n)
  case Nil
  then show ?case by (subst dyn_find_loop.simps) simp
next
  case (Cons x xs)
  then obtain k where "n = Suc k" "length xs \<le> k" by (cases n) auto
  then show ?case using Cons by (subst dyn_find_loop.simps) simp
qed

lemma dyn_unlink_loop_ok:
  assumes "evt_path m (m p) xs dlp" and "distinct (p # xs)" and "length xs \<le> n" and "el \<in> set xs"
  shows "\<exists>m'. dyn_unlink_loop n el dlp p m = Ok (el, m') \<and> evt_path m' (m' p) (remove1 el xs) dlp \<and> (\<forall>q. q \<notin> set (p # xs) \<longrightarrow> m' q = m q)"
  using assms
proof (induction xs arbitrary: p n)
  case (Cons x xs)
  obtain k where k: "n = Suc k" "length xs \<le> k" using Cons(4) by (cases n) auto
  have x: "m p = x" "x \<noteq> dlp" "evt_path m (m x) xs dlp" using Cons(2) by auto
  show ?case
  proof (cases "x = el")
    case True
    have "evt_path (m(p := m el)) (m el) xs dlp" using x(3) True Cons(3) by (simp add: evt_path_upd)
    then show ?thesis using x True k(1) by (subst dyn_unlink_loop.simps) auto
  next
    case False
    obtain m' where m': "dyn_unlink_loop k el dlp x m = Ok (el, m')" "evt_path m' (m' x) (remove1 el xs) dlp" "\<forall>q. q \<notin> set (x # xs) \<longrightarrow> m' q = m q"
      using Cons(1) [of x k] x(3) Cons(3,5) k(2) False by auto
    have "m' p = x" using m'(3) x(1) Cons(3) by auto
    then show ?thesis using m' x False k(1) by (subst dyn_unlink_loop.simps) auto
  qed
qed simp

section \<open>The registry of objects\<close>

text \<open>
  The entries that are registered: the bytes of the name, the element, and the object. \<open>H\<close> are the references that clients hold. The elements and the
  free objects of the pool do not overlap each other, the head of the list, or the memory the core memory manager has still to give.
\<close>

type_synonym entry = "byte list \<times> ptr \<times> ptr"

abbreviation e_rop :: "entry \<Rightarrow> ptr" where "e_rop e \<equiv> fst (snd e)"

definition objs_ok :: "ptr \<Rightarrow> ptr \<Rightarrow> ptr list \<Rightarrow> bool" where
  "objs_ok dlp tm ps \<longleftrightarrow> distinct ps \<and>
     (\<forall>p\<in>set ps. p \<noteq> NULL \<and> 4 dvd unat p \<and> unat p + 20 \<le> 2 ^ 32 \<and> unat tm \<le> unat p \<and> unat dlp \<notin> footprint 20 p) \<and>
     (\<forall>p\<in>set ps. \<forall>q\<in>set ps. p \<noteq> q \<longrightarrow> footprint 20 p \<inter> footprint 20 q = {})"

definition reg_objs :: "ptr \<Rightarrow> factorysys \<Rightarrow> ptr list \<Rightarrow> bool" where
  "reg_objs fac s ps \<longleftrightarrow>
     (let m = fs_mem s; dlp = f_obj_list fac; mp = f_obj_pool fac; mc = hcore (ps_hs (fs_ps s)); p = ps_pools (fs_ps s) mp
      in mp \<noteq> NULL \<and> mp_object_size p = 20 \<and> mp_align p = 4 \<and> mp_provider p = CORE_ALLOC_ALIGNED_I \<and>
         0 < unat (basemem mc) \<and> basemem mc \<le> topmem mc \<and> (unat dlp < unat (basemem mc) \<or> unat (topmem mc) \<le> unat dlp) \<and>
         (\<exists>free. pool_list mp free (fs_ps s) \<and> objs_ok dlp (topmem mc) (free @ ps)))"

definition reg_entries :: "ptr \<Rightarrow> (ptr \<Rightarrow> u32) \<Rightarrow> entry list \<Rightarrow> ptr list \<Rightarrow> bool" where
  "reg_entries dlp m L H \<longleftrightarrow> evt_path m (m dlp) (map e_rop L) dlp \<and>
     (\<forall>(n, p, x)\<in>set L. name_bytes m p = n \<and> m (p + 16) = x \<and> unat (m (p + 4)) = count_list H p) \<and>
     (\<forall>e\<in>set L. \<exists>name. fst e = strncpy CH_CFG_FACTORY_MAX_NAMES_LENGTH name) \<and>
     distinct (map fst L) \<and> set H = e_rop ` set L \<and> length H < 2 ^ 32"

definition reg_inv :: "ptr \<Rightarrow> factorysys \<Rightarrow> entry list \<Rightarrow> ptr list \<Rightarrow> bool" where
  "reg_inv fac s L H \<longleftrightarrow> running (fs_k s) \<and> mtx_free fac (fs_k s) \<and> reg_objs fac s (map e_rop L) \<and> reg_entries (f_obj_list fac) (fs_mem s) L H"

lemma objs_field:
  assumes "objs_ok dlp tm ps" and "p \<in> set ps" and "c \<in> {0, 4, 8, 12, 16}"
  shows "unat (p + c) = unat p + unat c" and "unat c < 20" and "unat (p + c) \<in> footprint 20 p" and "p + c \<noteq> dlp"
proof -
  have c: "unat c < 20" using assms(3) by auto
  have p: "unat p + 20 \<le> 2 ^ 32" "unat dlp \<notin> footprint 20 p" using assms(1,2) by (auto simp: objs_ok_def)
  show u: "unat (p + c) = unat p + unat c" using p(1) c by (intro unat_add_lem [THEN iffD1]) simp
  show f: "unat (p + c) \<in> footprint 20 p" using u c by (simp add: footprint_def)
  show "unat c < 20" by (rule c)
  show "p + c \<noteq> dlp" using f p(2) by auto
qed

lemma objs_apart:
  assumes "objs_ok dlp tm ps" and "p \<in> set ps" and "q \<in> set ps" and "p \<noteq> q" and "c \<in> {0, 4, 8, 12, 16}" and "d \<in> {0, 4, 8, 12, 16}"
  shows "p + c \<noteq> q + d"
proof -
  have "footprint 20 p \<inter> footprint 20 q = {}" using assms(1-4) by (simp add: objs_ok_def)
  then show ?thesis using objs_field(3) [OF assms(1,2,5)] objs_field(3) [OF assms(1,3,6)] by fastforce
qed

lemma objs_neq:
  assumes "objs_ok dlp tm ps" and "p \<in> set ps" and "q \<in> set ps" and "p \<noteq> q \<or> c \<noteq> d" and "c \<in> {0, 4, 8, 12, 16}" and "d \<in> {0, 4, 8, 12, 16}"
  shows "p + c \<noteq> q + d"
  using objs_apart [OF assms(1-3) _ assms(5,6)] assms(4) by (cases "p = q") auto

text \<open>An update of a field of one element, or of the head of the list, leaves the fields of the others alone.\<close>

lemma name_bytes_cong: "m (p + 8) = m' (p + 8) \<Longrightarrow> m (p + 12) = m' (p + 12) \<Longrightarrow> name_bytes m p = name_bytes m' p"
  by (simp add: name_bytes_def)

lemma fs_frame [simp]:
  "fs_mem (fs_set_mem m s) = m" "fs_k (fs_set_mem m s) = fs_k s" "ps_pools (fs_ps (fs_set_mem m s)) = ps_pools (fs_ps s)"
  "hcore (ps_hs (fs_ps (fs_set_mem m s))) = hcore (ps_hs (fs_ps s))"
  "fs_mem (fs_set_k k s) = fs_mem s" "fs_k (fs_set_k k s) = k" "ps_pools (fs_ps (fs_set_k k s)) = ps_pools (fs_ps s)"
  "hcore (ps_hs (fs_ps (fs_set_k k s))) = hcore (ps_hs (fs_ps s))"
  by (simp_all add: fs_set_mem_def fs_set_k_def)

lemma core_frame [simp]: "hcore (ps_hs (set_mem p v ps)) = hcore (ps_hs ps)"
  by (simp add: set_mem_def)

text \<open>The mutex of the factory around a body that leaves the kernel as it was.\<close>

lemma f_call_ok:
  assumes "running (fs_k s)" and "mtx_free fac (fs_k s)" and "body (fs_set_k (give fac (currp (fs_k s)) (fs_k s)) s) = Ok (Returned v, s')"
    and "fs_k s' = give fac (currp (fs_k s)) (fs_k s)"
  shows "\<exists>k. F_CALL fac body s = Ok (Returned v, fs_set_k k s') \<and> running k \<and> mtx_free fac k"
proof -
  let ?k = "give fac (currp (fs_k s)) (fs_k s)"
  note l = lock_free [OF assms(1,2)]
  have r: "running ?k" using assms(1) by simp
  note u = unlock_top [OF r l(2)]
  have "F_CALL fac body s = Ok (Returned v, fs_set_k (mtx_drop fac ?k) s')" using l(1) u(1) assms(3,4) by (simp add: F_CALL_def F_LOCKED_def)
  then show ?thesis using u(2) r by auto
qed

lemma reg_objs_k [simp]: "reg_objs fac (fs_set_k k s) ps = reg_objs fac s ps"
  by (simp add: reg_objs_def fs_set_k_def)

lemma reg_inv_k: "reg_objs fac s (map e_rop L) \<Longrightarrow> reg_entries (f_obj_list fac) (fs_mem s) L H \<Longrightarrow> running k \<Longrightarrow> mtx_free fac k \<Longrightarrow> reg_inv fac (fs_set_k k s) L H"
  by (simp add: reg_inv_def)

lemma find_map: "find P (map f xs) = map_option f (find (P \<circ> f) xs)"
  by (induction xs) auto

lemma pool_chain_cong: "(\<And>x. x \<in> set xs \<Longrightarrow> m x = m' x) \<Longrightarrow> pool_chain m p xs = pool_chain m' p xs"
  by (induction xs arbitrary: p) auto

lemma evt_path_cong: "(\<And>x. x \<in> set xs \<Longrightarrow> m x = m' x) \<Longrightarrow> evt_path m p xs d = evt_path m' p xs d"
  by (induction xs arbitrary: p) auto

lemma reg_objs_distinct: "reg_objs fac s ps \<Longrightarrow> distinct ps \<and> NULL \<notin> set ps"
  by (auto simp: reg_objs_def objs_ok_def Let_def)

lemma reg_entriesD:
  assumes "reg_entries dlp m L H" and "e \<in> set L"
  shows "\<exists>name. fst e = strncpy CH_CFG_FACTORY_MAX_NAMES_LENGTH name" and "name_bytes m (e_rop e) = fst e"
    and "m (e_rop e + 16) = snd (snd e)" and "unat (m (e_rop e + 4)) = count_list H (e_rop e)"
proof -
  have n: "\<forall>e\<in>set L. \<exists>name. fst e = strncpy CH_CFG_FACTORY_MAX_NAMES_LENGTH name"
    and f: "\<forall>e\<in>set L. name_bytes m (e_rop e) = fst e \<and> m (e_rop e + 16) = snd (snd e) \<and> unat (m (e_rop e + 4)) = count_list H (e_rop e)"
    using assms(1) unfolding reg_entries_def case_prod_beta by simp_all
  show "\<exists>name. fst e = strncpy CH_CFG_FACTORY_MAX_NAMES_LENGTH name" using n assms(2) by (rule bspec)
  show "name_bytes m (e_rop e) = fst e" "m (e_rop e + 16) = snd (snd e)" "unat (m (e_rop e + 4)) = count_list H (e_rop e)"
    using bspec [OF f assms(2)] by simp_all
qed

text \<open>The search by name, on the entries.\<close>

lemma reg_find:
  assumes "reg_objs fac s (map e_rop L)" and "reg_entries (f_obj_list fac) (fs_mem s) L H"
  shows "dyn_list_find name (f_obj_list fac) (fs_mem s) =
    Ok (case find (\<lambda>e. fst e = strncpy CH_CFG_FACTORY_MAX_NAMES_LENGTH name) L of None \<Rightarrow> NULL | Some e \<Rightarrow> e_rop e)"
proof -
  let ?m = "fs_mem s" let ?n = CH_CFG_FACTORY_MAX_NAMES_LENGTH
  have path: "evt_path ?m (?m (f_obj_list fac)) (map e_rop L) (f_obj_list fac)" using assms(2) by (simp add: reg_entries_def)
  have len: "length (map e_rop L) \<le> max_turns" using reg_objs_distinct [OF assms(1)] length_ptrs [of "map e_rop L"] by (simp add: max_turns_def)
  have "strncmp ?n (name_bytes ?m (e_rop e)) name = (fst e = strncpy ?n name)" if e: "e \<in> set L" for e
  proof -
    obtain nm where "fst e = strncpy ?n nm" using reg_entriesD(1) [OF assms(2) e] ..
    then show ?thesis using strncmp_strncpy [of ?n nm name] reg_entriesD(2) [OF assms(2) e] by simp
  qed
  then have "find ((\<lambda>x. strncmp ?n (name_bytes ?m x) name) \<circ> e_rop) L = find (\<lambda>e. fst e = strncpy ?n name) L"
    by (intro find_cong [OF refl]) (simp only: comp_apply)
  then have "find (\<lambda>x. strncmp ?n (name_bytes ?m x) name) (map e_rop L) = map_option e_rop (find (\<lambda>e. fst e = strncpy ?n name) L)"
    unfolding find_map by simp
  then show ?thesis unfolding dyn_list_find_def dyn_find_loop_eq [OF path len] by (simp split: option.split)
qed

text \<open>An object from the pool or from the core memory.\<close>

lemma reg_alloc:
  assumes "reg_objs fac s ps" and "running (fs_k s)"
  shows "\<exists>p s'. fs_pool (chPoolAlloc (f_obj_pool fac)) s = Ok (p, s') \<and> fs_mem s' = fs_mem s \<and> fs_k s' = fs_k s \<and>
    (if p = NULL then s' = s else reg_objs fac s' (p # ps))"
proof -
  let ?mp = "f_obj_pool fac" let ?mc = "hcore (ps_hs (fs_ps s))" let ?d = "f_obj_list fac" let ?k = "(fs_k s)\<lparr>lock_cnt := 1\<rparr>"
  obtain free where f: "pool_list ?mp free (fs_ps s)" "objs_ok ?d (topmem ?mc) (free @ ps)" and mp: "?mp \<noteq> NULL"
    and cfg: "mp_object_size (ps_pools (fs_ps s) ?mp) = 20" "mp_align (ps_pools (fs_ps s) ?mp) = 4" "mp_provider (ps_pools (fs_ps s) ?mp) = CORE_ALLOC_ALIGNED_I"
    and core: "0 < unat (basemem ?mc)" "basemem ?mc \<le> topmem ?mc" "unat ?d < unat (basemem ?mc) \<or> unat (topmem ?mc) \<le> unat ?d"
    using assms(1) by (auto simp: reg_objs_def Let_def)
  let ?ps = "set_k ?k (fs_ps s)"
  have lk: "ps_lock (fs_ps s) = Ok ?ps" "i_ctx ?k" using ps_lock_ok assms(2) by simp_all
  have unl: "ps_unlock t = Ok (set_k (fs_k s) t)" if "ps_k t = ?k" for t using ps_unlock_ok [OF assms(2) that] .
  show ?thesis
  proof (cases free)
    case (Cons x xs)
    let ?t = "pool_pop ?mp (fs_ps s)"
    have x: "x \<noteq> NULL" "mp_next (ps_pools (fs_ps s) ?mp) = x" "pool_list ?mp xs ?t" using pool_pop_list [of ?mp x xs "fs_ps s"] f(1) Cons by auto
    have "chPoolAlloc ?mp (fs_ps s) = Ok (x, ?t)"
      using lk unl [of "pool_pop ?mp ?ps"] x(1,2) mp by (simp add: chPoolAlloc_def chPoolAllocI_def pool_pop_def)
    moreover have "objs_ok ?d (topmem ?mc) (xs @ x # ps)" using f(2) Cons by (auto simp: objs_ok_def)
    ultimately show ?thesis using x(1,3) cfg core mp by (auto simp: fs_pool_def reg_objs_def Let_def pool_pop_def intro!: exI [of _ xs])
  next
    case Nil
    have nx: "mp_next (ps_pools (fs_ps s) ?mp) = NULL" using f(1) Nil by (simp add: pool_empty_list)
    have req: "core_request 20 4 0" by (simp add: core_request_def MEM_IS_VALID_ALIGNMENT_def)
    define q where "q = (unat (topmem ?mc) - 20) div 4 * 4"
    note ct = core_top_ok [OF req core(2) lk(2)]
    show ?thesis
    proof (cases "unat (basemem ?mc) \<le> q \<and> 20 \<le> unat (topmem ?mc)")
      case True
      obtain p where p: "chCoreAllocFromTopI 20 4 0 ?mc ?k = Ok (p, ?mc\<lparr>topmem := p\<rparr>)" "unat p = q" using ct(1) True by (auto simp: q_def)
      have b: "q + 20 \<le> unat (topmem ?mc)" "4 dvd q" using True div_mult_bounds [of 4 "unat (topmem ?mc) - 20"] by (auto simp: q_def)
      have n: "p \<noteq> NULL" "MEM_IS_ALIGNED p 4" using p(2) True core(1) b(2) is_aligned_iff [of 4 p] by (auto simp: MEM_IS_VALID_ALIGNMENT_def)
      have "chPoolAlloc ?mp (fs_ps s) = Ok (p, set_core (?mc\<lparr>topmem := p\<rparr>) (fs_ps s))"
        using lk unl [of "set_core (?mc\<lparr>topmem := p\<rparr>) ?ps"] nx mp cfg p(1) n(2)
        by (simp add: chPoolAlloc_def chPoolAllocI_def chCoreAllocAlignedI_def set_core_def set_k_def)
      moreover have "objs_ok ?d p (p # ps)"
      proof -
        have t: "unat (topmem ?mc) < 2 ^ 32" by (rule unat_less32)
        have "unat ?d \<notin> footprint 20 p" using core(3) p(2) b(1) True by (auto simp: footprint_def)
        moreover have old: "unat (topmem ?mc) \<le> unat x" if "x \<in> set ps" for x using f(2) Nil that by (simp add: objs_ok_def)
        moreover have "p \<notin> set ps" using old p(2) b(1) by force
        moreover have "footprint 20 p \<inter> footprint 20 x = {}" if "x \<in> set ps" for x using old [OF that] p(2) b(1) by (auto simp: footprint_def)
        ultimately show ?thesis using f(2) Nil n(1) p(2) b t by (fastforce simp: objs_ok_def)
      qed
      moreover have "basemem ?mc \<le> p" using True p(2) by (simp add: word_le_nat_alt)
      moreover have "unat ?d < unat (basemem ?mc) \<or> unat p \<le> unat ?d" using core(3) p(2) b(1) by auto
      moreover have "pool_list ?mp [] (set_core (?mc\<lparr>topmem := p\<rparr>) (fs_ps s))" using nx by (simp add: pool_list_def set_core_def)
      ultimately show ?thesis using n(1) cfg core(1) mp by (auto simp: fs_pool_def reg_objs_def Let_def set_core_def intro!: exI [of _ "[]"])
    next
      case False
      then have "chCoreAllocFromTopI 20 4 0 ?mc ?k = Ok (NULL, ?mc)" using ct(2) by (auto simp: q_def)
      moreover have "MEM_IS_ALIGNED NULL 4" by (simp add: MEM_IS_ALIGNED_def)
      moreover have "set_core ?mc ?ps = ?ps" by (simp add: set_core_def set_k_def)
      ultimately have "chPoolAlloc ?mp (fs_ps s) = Ok (NULL, fs_ps s)"
        using lk unl [of ?ps] nx mp cfg by (simp add: chPoolAlloc_def chPoolAllocI_def chCoreAllocAlignedI_def)
      then show ?thesis by (simp add: fs_pool_def)
    qed
  qed
qed

text \<open>Changes to the head of the list and to the fields of elements leave the free objects alone.\<close>

lemma reg_objs_mem:
  assumes "reg_objs fac s ps" and "\<And>x. x \<noteq> f_obj_list fac \<Longrightarrow> (\<And>p. p \<in> set ps \<Longrightarrow> unat x \<notin> footprint 20 p) \<Longrightarrow> m' x = fs_mem s x"
  shows "reg_objs fac (fs_set_mem m' s) ps"
proof -
  let ?d = "f_obj_list fac" let ?mp = "f_obj_pool fac"
  obtain free where f: "pool_list ?mp free (fs_ps s)" "objs_ok ?d (topmem (hcore (ps_hs (fs_ps s)))) (free @ ps)"
    using assms(1) by (auto simp: reg_objs_def Let_def)
  have "m' x = fs_mem s x" if "x \<in> set free" for x
  proof (rule assms(2))
    show "x \<noteq> ?d" using objs_field(4) [OF f(2), of x 0] that by simp
    show "unat x \<notin> footprint 20 p" if "p \<in> set ps" for p
    proof -
      have "x \<noteq> p" using f(2) that \<open>x \<in> set free\<close> by (auto simp: objs_ok_def)
      then have "footprint 20 x \<inter> footprint 20 p = {}" using f(2) that \<open>x \<in> set free\<close> by (simp add: objs_ok_def)
      moreover have "unat x \<in> footprint 20 x" by (simp add: footprint_def)
      ultimately show ?thesis by auto
    qed
  qed
  then have "pool_list ?mp free (fs_ps (fs_set_mem m' s))"
    using f(1) pool_chain_cong [of free m' "fs_mem s"] by (simp add: pool_list_def fs_set_mem_def)
  then show ?thesis using assms(1) f(2) by (auto simp: reg_objs_def Let_def)
qed

lemma reg_entries_refs:
  assumes "objs_ok dlp tm (free @ map e_rop L)" and "reg_entries dlp m L H" and "p \<in> e_rop ` set L" and "unat v = count_list H' p"
    and "\<And>q. q \<noteq> p \<Longrightarrow> count_list H' q = count_list H q" and "set H' = set H" and "length H' < 2 ^ 32"
  shows "reg_entries dlp (m(p + 4 := v)) L H'"
proof -
  let ?m = "m(p + 4 := v)" let ?ps = "free @ map e_rop L"
  have p: "p \<in> set ?ps" using assms(3) by auto
  have same: "?m (q + c) = m (q + c)" if "q \<in> e_rop ` set L" "c \<in> {0, 8, 12, 16} \<or> c = 4 \<and> q \<noteq> p" for q c
    using objs_neq [OF assms(1), of q p c 4] that p by auto
  have dlp: "?m dlp = m dlp" using objs_field(4) [OF assms(1) p, of 4] by auto
  have "evt_path ?m (?m dlp) (map e_rop L) dlp" using assms(2) evt_path_cong [of "map e_rop L" ?m m] same [of _ 0] dlp by (auto simp: reg_entries_def)
  moreover have "name_bytes ?m q = n \<and> ?m (q + 16) = x \<and> unat (?m (q + 4)) = count_list H' q" if e: "(n, q, x) \<in> set L" for n q x
  proof -
    have q: "q \<in> e_rop ` set L" using e by force
    have old: "name_bytes m q = n" "m (q + 16) = x" "unat (m (q + 4)) = count_list H q" using reg_entriesD(2-4) [OF assms(2) e] by simp_all
    have "name_bytes ?m q = name_bytes m q" using same [OF q, of 8] same [OF q, of 12] by (intro name_bytes_cong) auto
    moreover have "unat (?m (q + 4)) = count_list H' q" using same [OF q, of 4] old(3) assms(4,5) by (cases "q = p") auto
    ultimately show ?thesis using old(1,2) same [OF q, of 16] by auto
  qed
  ultimately show ?thesis using assms(2,6,7) unfolding reg_entries_def by (simp only: case_prod_beta) auto
qed

lemma reg_objs_free:
  assumes "reg_objs fac s ps"
  obtains free where "objs_ok (f_obj_list fac) (topmem (hcore (ps_hs (fs_ps s)))) (free @ ps)"
  using assms by (auto simp: reg_objs_def Let_def)

lemma refs_changed:
  assumes "reg_objs fac s ps" and "p \<in> set ps"
  shows "reg_objs fac (fs_set_mem ((fs_mem s)(p + 4 := v)) s) ps"
proof (rule reg_objs_mem [OF assms(1)])
  fix x :: ptr assume x: "\<And>q. q \<in> set ps \<Longrightarrow> unat x \<notin> footprint 20 q"
  obtain free where "objs_ok (f_obj_list fac) (topmem (hcore (ps_hs (fs_ps s)))) (free @ ps)" using reg_objs_free [OF assms(1)] .
  then have "unat (p + 4) \<in> footprint 20 p" using objs_field(3) [of _ _ "free @ ps" p 4] assms(2) by auto
  then show "((fs_mem s)(p + 4 := v)) x = fs_mem s x" using x [OF assms(2)] by auto
qed

lemma find_Some_in: "find P xs = Some e \<Longrightarrow> e \<in> set xs \<and> P e"
  by (induction xs) (auto split: if_splits)

text \<open>Finding an object by its name.\<close>

lemma reg_inv_find:
  fixes name :: "byte list"
  assumes "reg_inv fac s L H" and "length H + 1 < 2 ^ 32"
  defines "r \<equiv> find (\<lambda>e. fst e = strncpy CH_CFG_FACTORY_MAX_NAMES_LENGTH name) L"
  shows "\<exists>s'. chFactoryFindObject fac name s = Ok (Returned (case r of None \<Rightarrow> NULL | Some e \<Rightarrow> e_rop e), s') \<and>
    reg_inv fac s' L (case r of None \<Rightarrow> H | Some e \<Rightarrow> e_rop e # H)"
proof -
  have i: "running (fs_k s)" "mtx_free fac (fs_k s)" "reg_objs fac s (map e_rop L)" "reg_entries (f_obj_list fac) (fs_mem s) L H"
    using assms(1) by (simp_all add: reg_inv_def)
  let ?s = "fs_set_k (give fac (currp (fs_k s)) (fs_k s)) s" let ?d = "f_obj_list fac"
  have f: "dyn_list_find name ?d (fs_mem ?s) = Ok (case r of None \<Rightarrow> NULL | Some e \<Rightarrow> e_rop e)"
    using reg_find [OF i(3,4), of name] by (simp add: r_def)
  show ?thesis
  proof (cases r)
    case None
    then have "dyn_find_object name ?d ?s = Ok (Returned NULL, ?s)" using f by (simp add: dyn_find_object_def)
    then obtain k where "F_CALL fac (dyn_find_object name ?d) s = Ok (Returned NULL, fs_set_k k ?s)" "running k" "mtx_free fac k"
      using f_call_ok [OF i(1,2), of "dyn_find_object name ?d" NULL ?s] by auto
    moreover have "reg_inv fac (fs_set_k k ?s) L H" using calculation(2,3) i(3,4) by (intro reg_inv_k) simp_all
    ultimately show ?thesis using None by (auto simp: chFactoryFindObject_def)
  next
    case (Some e)
    let ?p = "e_rop e" let ?m = "(fs_mem s)(?p + 4 := fs_mem s (?p + 4) + 1)"
    have e: "e \<in> set L" using Some find_Some_in [of _ L e] by (simp add: r_def)
    then have p: "?p \<in> set (map e_rop L)" "?p \<noteq> NULL" using reg_objs_distinct [OF i(3)] by force+
    have c: "unat (fs_mem s (?p + 4)) = count_list H ?p" using reg_entriesD(4) [OF i(4) e] .
    then have "unat (fs_mem s (?p + 4)) < 2 ^ 32 - 1" using count_le_length [of H ?p] assms(2) by simp
    then have v: "unat (fs_mem s (?p + 4) + 1) = count_list (?p # H) ?p" using c by (simp add: unat_add_lem [THEN iffD1])
    have b: "dyn_find_object name ?d ?s = Ok (Returned ?p, fs_set_mem ?m ?s)" using f Some p(2) by (simp add: dyn_find_object_def)
    obtain k where k: "F_CALL fac (dyn_find_object name ?d) s = Ok (Returned ?p, fs_set_k k (fs_set_mem ?m ?s))" "running k" "mtx_free fac k"
      using f_call_ok [OF i(1,2), of "dyn_find_object name ?d" ?p] b by auto
    obtain free where o: "objs_ok ?d (topmem (hcore (ps_hs (fs_ps s)))) (free @ map e_rop L)" using reg_objs_free [OF i(3)] .
    have "set H = e_rop ` set L" using i(4) by (simp add: reg_entries_def)
    then have "reg_entries ?d ?m L (?p # H)" using reg_entries_refs [OF o i(4), of ?p _ "?p # H"] v assms(2) e by auto
    moreover have "reg_objs fac (fs_set_mem ?m ?s) (map e_rop L)" using refs_changed [of fac ?s "map e_rop L" ?p] i(3) p(1) by simp
    ultimately have "reg_inv fac (fs_set_k k (fs_set_mem ?m ?s)) L (?p # H)" using k(2,3) by (intro reg_inv_k) simp_all
    then show ?thesis using k(1) Some by (auto simp: chFactoryFindObject_def)
  qed
qed

text \<open>Registering an object.\<close>

lemma linked:
  fixes objp :: ptr
  assumes "objs_ok dlp tm (free @ p # map e_rop L)" and "reg_entries dlp m L H" and "length H + 1 < 2 ^ 32"
    and "strncpy CH_CFG_FACTORY_MAX_NAMES_LENGTH name \<notin> fst ` set L"
  defines "m' \<equiv> (dyn_link name dlp p m)(p + 16 := objp)"
  shows "reg_entries dlp m' ((strncpy CH_CFG_FACTORY_MAX_NAMES_LENGTH name, p, objp) # L) (p # H)"
    and "\<And>x. x \<noteq> dlp \<Longrightarrow> unat x \<notin> footprint 20 p \<Longrightarrow> m' x = m x"
proof -
  let ?ps = "free @ p # map e_rop L" let ?n = "strncpy CH_CFG_FACTORY_MAX_NAMES_LENGTH name"
  have p: "p \<in> set ?ps" by simp
  have d: "p + c \<noteq> dlp" if "c \<in> {0, 4, 8, 12, 16}" for c using objs_field(4) [OF assms(1) p that] .
  note d' = d [of 0, simplified] d [of 4, simplified] d [of 8, simplified] d [of 12, simplified] d [of 16, simplified]
  have u: "unat (p + c) \<in> footprint 20 p" if "c \<in> {0, 4, 8, 12, 16}" for c using objs_field(3) [OF assms(1) p that] .
  show frame: "m' x = m x" if "x \<noteq> dlp" "unat x \<notin> footprint 20 p" for x
  proof -
    have "x \<noteq> p + c" if "c \<in> {0, 4, 8, 12, 16}" for c using u [OF that] \<open>unat x \<notin> footprint 20 p\<close> by auto
    from this [of 0] this [of 4] this [of 8] this [of 12] this [of 16]
    show ?thesis using that(1) by (simp add: m'_def dyn_link_def store_name_def Let_def)
  qed
  have pn: "p \<notin> e_rop ` set L" using assms(1) by (auto simp: objs_ok_def)
  have old: "m' (q + c) = m (q + c)" if "q \<in> e_rop ` set L" "c \<in> {0, 4, 8, 12, 16}" for q c
  proof (rule frame)
    have q: "q \<in> set ?ps" "q \<noteq> p" using that(1) pn by auto
    show "q + c \<noteq> dlp" using objs_field(4) [OF assms(1) q(1) that(2)] .
    have "footprint 20 q \<inter> footprint 20 p = {}" using assms(1) q by (simp add: objs_ok_def)
    then show "unat (q + c) \<notin> footprint 20 p" using objs_field(3) [OF assms(1) q(1) that(2)] by auto
  qed
  have new: "m' dlp = p" "m' p = m dlp" "m' (p + 4) = 1" "m' (p + 16) = objp"
    using d' by (auto simp: m'_def dyn_link_def store_name_def Let_def)
  have "name_bytes m' p = name_bytes (store_name name p m) p"
    using d' by (intro name_bytes_cong) (auto simp: m'_def dyn_link_def Let_def)
  then have nm: "name_bytes m' p = ?n" using name_stored by simp
  have zero: "count_list H p = 0" using assms(2) pn by (auto simp: reg_entries_def count_list_0_iff)
  have path: "evt_path m' (m dlp) (map e_rop L) dlp" using assms(2) old [of _ 0] evt_path_cong [of "map e_rop L" m' m] by (auto simp: reg_entries_def)
  have ent: "name_bytes m' q = n \<and> m' (q + 16) = x \<and> unat (m' (q + 4)) = count_list (p # H) q" if e: "(n, q, x) \<in> set L" for n q x
  proof -
    have q: "q \<in> e_rop ` set L" using e by force
    have "name_bytes m' q = name_bytes m q" using old [OF q, of 8] old [OF q, of 12] by (intro name_bytes_cong) auto
    then show ?thesis using reg_entriesD(2-4) [OF assms(2) e] old [OF q, of 16] old [OF q, of 4] q pn by auto
  qed
  show "reg_entries dlp m' ((?n, p, objp) # L) (p # H)"
    using assms(2-4) new nm zero path ent d'(1) unfolding reg_entries_def by auto
qed

lemma reg_inv_register:
  assumes "reg_inv fac s L H" and "length H + 1 < 2 ^ 32"
  shows "\<exists>p s'. chFactoryRegisterObject fac name objp s = Ok (Returned p, s') \<and>
    (if p = NULL then reg_inv fac s' L H
     else strncpy CH_CFG_FACTORY_MAX_NAMES_LENGTH name \<notin> fst ` set L \<and> reg_inv fac s' ((strncpy CH_CFG_FACTORY_MAX_NAMES_LENGTH name, p, objp) # L) (p # H))"
proof -
  have i: "running (fs_k s)" "mtx_free fac (fs_k s)" "reg_objs fac s (map e_rop L)" "reg_entries (f_obj_list fac) (fs_mem s) L H"
    using assms(1) by (simp_all add: reg_inv_def)
  let ?s = "fs_set_k (give fac (currp (fs_k s)) (fs_k s)) s" let ?d = "f_obj_list fac" let ?n = "strncpy CH_CFG_FACTORY_MAX_NAMES_LENGTH name"
  let ?body = "\<lambda>s. kbind (dyn_create_object_pool name ?d (f_obj_pool fac) s) (init_created (\<lambda>rop s. Ok (fs_set_mem ((fs_mem s)(rop + 16 := objp)) s)))"
  have f: "dyn_list_find name ?d (fs_mem ?s) = Ok (case find (\<lambda>e. fst e = ?n) L of None \<Rightarrow> NULL | Some e \<Rightarrow> e_rop e)"
    using reg_find [OF i(3,4), of name] by simp
  have r: "running (fs_k ?s)" "reg_objs fac ?s (map e_rop L)" using i(1,3) by simp_all
  have same: ?thesis if b: "?body ?s = Ok (Returned NULL, ?s)"
  proof -
    obtain k where k: "F_CALL fac ?body s = Ok (Returned NULL, fs_set_k k ?s)" "running k" "mtx_free fac k"
      using f_call_ok [OF i(1,2), of ?body NULL ?s] b by auto
    have "reg_inv fac (fs_set_k k ?s) L H" using k(2,3) i(3,4) by (intro reg_inv_k) simp_all
    then show ?thesis using k(1) by (auto simp: chFactoryRegisterObject_def)
  qed
  show ?thesis
  proof (cases "find (\<lambda>e. fst e = ?n) L")
    case (Some e)
    then have "e_rop e \<in> set (map e_rop L)" using find_Some_in [of _ L e] by simp
    then have "e_rop e \<noteq> NULL" using reg_objs_distinct [OF i(3)] by metis
    then have "?body ?s = Ok (Returned NULL, ?s)" using f Some by (simp add: dyn_create_object_pool_def init_created_def)
    then show ?thesis by (rule same)
  next
    case None
    obtain p s1 where a: "fs_pool (chPoolAlloc (f_obj_pool fac)) ?s = Ok (p, s1)" "fs_mem s1 = fs_mem ?s" "fs_k s1 = fs_k ?s"
        "if p = NULL then s1 = ?s else reg_objs fac s1 (p # map e_rop L)" using reg_alloc [OF r(2,1)] by auto
    show ?thesis
    proof (cases "p = NULL")
      case True
      then have "?body ?s = Ok (Returned NULL, ?s)" using f None a by (simp add: dyn_create_object_pool_def init_created_def dyn_created_def)
      then show ?thesis by (rule same)
    next
      case False
      let ?m = "(dyn_link name ?d p (fs_mem s))(p + 16 := objp)"
      have new: "?n \<notin> fst ` set L" using None by (auto simp: find_None_iff)
      have o: "reg_objs fac s1 (p # map e_rop L)" using a(4) False by simp
      then obtain free where fr: "objs_ok ?d (topmem (hcore (ps_hs (fs_ps s1)))) (free @ p # map e_rop L)" using reg_objs_free by blast
      note l = linked [OF fr i(4) assms(2) new]
      have "fs_set_mem ?m (fs_set_mem (dyn_link name ?d p (fs_mem s)) s1) = fs_set_mem ?m s1" by (simp add: fs_set_mem_def)
      then have b: "?body ?s = Ok (Returned p, fs_set_mem ?m s1)"
        using f None a(1,2) False by (simp add: dyn_create_object_pool_def init_created_def dyn_created_def)
      obtain k where k: "F_CALL fac ?body s = Ok (Returned p, fs_set_k k (fs_set_mem ?m s1))" "running k" "mtx_free fac k"
        using f_call_ok [OF i(1,2), of ?body p "fs_set_mem ?m s1"] b a(3) by auto
      have "reg_objs fac (fs_set_mem ?m s1) (p # map e_rop L)" using reg_objs_mem [OF o, of ?m] l(2) a(2) by simp
      then have "reg_inv fac (fs_set_k k (fs_set_mem ?m s1)) ((?n, p, objp) # L) (p # H)" using k(2,3) l(1) by (intro reg_inv_k) simp_all
      then show ?thesis using k(1) False new by (auto simp: chFactoryRegisterObject_def)
    qed
  qed
qed

text \<open>Giving a reference back.\<close>

lemma count_remove1: "count_list (remove1 p xs) q = (if q = p then count_list xs q - 1 else count_list xs q)"
  by (induction xs) auto

lemma count_pos: "p \<in> set xs \<longleftrightarrow> 0 < count_list xs p"
  by (metis bot_nat_0.not_eq_extremum count_list_0_iff)

lemma remove1_map_filter: "distinct (map f L) \<Longrightarrow> remove1 p (map f L) = map f (filter (\<lambda>e. f e \<noteq> p) L)"
proof (induction L)
  case (Cons x L)
  have "f e \<noteq> f x" if "e \<in> set L" for e using Cons(2) that by (metis distinct.simps(2) image_eqI list.set_map list.simps(9))
  then have "filter (\<lambda>e. f e \<noteq> f x) L = L" by (simp add: filter_id_conv)
  then show ?case using Cons by auto
qed simp

text \<open>The last reference: the element leaves the list and becomes a free object.\<close>

lemma unlinked:
  assumes "pool_list mp free (fs_ps s)" and "objs_ok dlp tm (free @ map e_rop L)" and "reg_entries dlp (fs_mem s) L H" and "p \<in> set (map e_rop L)"
    and "count_list H p = 1" and "fs_mem s (p + 4) = 1"
  shows "\<exists>m2. dyn_list_unlink p dlp ((fs_mem s)(p + 4 := 0)) = Ok (p, m2) \<and> pool_list mp free (fs_ps (fs_set_mem m2 s)) \<and>
    (\<forall>nx. reg_entries dlp (m2(p := nx)) (filter (\<lambda>e. e_rop e \<noteq> p) L) (remove1 p H))"
proof -
  let ?ps = "free @ map e_rop L" let ?m = "fs_mem s" let ?m1 = "?m(p + 4 := 0)" let ?L = "filter (\<lambda>e. e_rop e \<noteq> p) L"
  have p: "p \<in> set ?ps" using assms(4) by simp
  have dist: "distinct ?ps" using assms(2) by (simp add: objs_ok_def)
  have d: "q + c \<noteq> dlp" if "q \<in> set ?ps" "c \<in> {0, 4, 8, 12, 16}" for q c using objs_field(4) [OF assms(2) that] .
  have d0: "q \<noteq> dlp" if "q \<in> set ?ps" for q using d [OF that, of 0] by simp
  have n4: "q \<noteq> p + 4" if "q \<in> set ?ps" for q using objs_neq [OF assms(2) that p, of 0 4] by simp
  have path: "evt_path ?m1 (?m1 dlp) (map e_rop L) dlp"
    using assms(3) evt_path_cong [of "map e_rop L" ?m1 ?m] n4 d [OF p, of 4] by (auto simp: reg_entries_def)
  have dl: "distinct (dlp # map e_rop L)" "length (map e_rop L) \<le> max_turns"
    using dist d0 length_ptrs [of "map e_rop L"] by (auto simp: max_turns_def)
  obtain m2 where m2: "dyn_unlink_loop max_turns p dlp dlp ?m1 = Ok (p, m2)" "evt_path m2 (m2 dlp) (remove1 p (map e_rop L)) dlp"
      "\<forall>q. q \<notin> set (dlp # map e_rop L) \<longrightarrow> m2 q = ?m1 q"
    using dyn_unlink_loop_ok [OF path dl] assms(4) by blast
  have rm: "remove1 p (map e_rop L) = map e_rop ?L" using dl(1) by (intro remove1_map_filter) simp
  have "m2 x = ?m x" if "x \<in> set free" for x
  proof -
    have "x \<notin> set (map e_rop L)" "x \<noteq> dlp" "x \<noteq> p + 4" using that dist d0 [of x] n4 [of x] by auto
    then show ?thesis using m2(3) by simp
  qed
  then have pl: "pool_list mp free (fs_ps (fs_set_mem m2 s))"
    using assms(1) pool_chain_cong [of free m2 ?m] by (simp add: pool_list_def fs_set_mem_def)
  have field: "(m2(p := nx)) (q + c) = ?m (q + c)" if "q \<in> set (map e_rop ?L)" "c \<in> {4, 8, 12, 16}" for q c nx
  proof -
    have q: "q \<in> set ?ps" "q \<noteq> p" using that(1) by auto
    have "q + c \<noteq> x" if x: "x \<in> set ?ps" for x using objs_neq [OF assms(2) q(1) x, of c 0] \<open>c \<in> {4, 8, 12, 16}\<close> by auto
    moreover have "q + c \<noteq> p + 4" using objs_neq [OF assms(2) q(1) p, of c 4] q(2) that(2) by auto
    moreover have "q + c \<noteq> dlp" using d [OF q(1), of c] that(2) by auto
    ultimately show ?thesis using m2(3) p by (simp add: image_iff) metis
  qed
  have ent: "reg_entries dlp (m2(p := nx)) ?L (remove1 p H)" for nx
  proof -
    let ?m3 = "m2(p := nx)"
    have "evt_path ?m3 (?m3 dlp) (map e_rop ?L) dlp"
      using m2(2) evt_path_upd [of p "map e_rop ?L" m2 nx] d0 [OF p] by (auto simp: rm)
    moreover have "name_bytes ?m3 (e_rop e) = fst e \<and> ?m3 (e_rop e + 16) = snd (snd e) \<and> unat (?m3 (e_rop e + 4)) = count_list (remove1 p H) (e_rop e)"
      if e: "e \<in> set ?L" for e
    proof -
      have q: "e_rop e \<in> set (map e_rop ?L)" and e': "e \<in> set L" "e_rop e \<noteq> p" using e by auto
      have "name_bytes ?m3 (e_rop e) = name_bytes ?m (e_rop e)" using field [OF q, of 8 nx] field [OF q, of 12 nx] by (intro name_bytes_cong) auto
      then show ?thesis using reg_entriesD(2-4) [OF assms(3) e'(1)] field [OF q, of 16 nx] field [OF q, of 4 nx] e'(2) by (simp add: count_remove1)
    qed
    moreover have "\<exists>name. fst e = strncpy CH_CFG_FACTORY_MAX_NAMES_LENGTH name" if "e \<in> set ?L" for e using reg_entriesD(1) [OF assms(3)] that by simp
    moreover have "set (remove1 p H) = e_rop ` set ?L"
    proof -
      have "q \<in> set (remove1 p H) \<longleftrightarrow> q \<in> set H \<and> q \<noteq> p" for q using assms(5) by (cases "q = p") (simp_all add: count_pos count_remove1)
      then show ?thesis using assms(3) by (auto simp: reg_entries_def)
    qed
    moreover have "distinct (map fst ?L)" using assms(3) by (auto simp: reg_entries_def intro: distinct_map_filter)
    moreover have "length (remove1 p H) < 2 ^ 32" using assms(3) length_remove1 [of p H] by (auto simp: reg_entries_def)
    ultimately show ?thesis unfolding reg_entries_def case_prod_beta by simp
  qed
  show ?thesis using m2(1) pl ent by (auto simp: dyn_list_unlink_def)
qed

lemma reg_inv_release:
  assumes "reg_inv fac s L H" and "p \<in> set H"
  shows "\<exists>s'. chFactoryReleaseObject fac p s = Ok (Returned (), s') \<and>
    reg_inv fac s' (if p \<in> set (remove1 p H) then L else filter (\<lambda>e. e_rop e \<noteq> p) L) (remove1 p H)"
proof -
  have i: "running (fs_k s)" "mtx_free fac (fs_k s)" "reg_objs fac s (map e_rop L)" "reg_entries (f_obj_list fac) (fs_mem s) L H"
    using assms(1) by (simp_all add: reg_inv_def)
  let ?s = "fs_set_k (give fac (currp (fs_k s)) (fs_k s)) s" let ?d = "f_obj_list fac" let ?mp = "f_obj_pool fac"
  let ?m1 = "(fs_mem s)(p + 4 := fs_mem s (p + 4) - 1)"
  let ?body = "dyn_release_object_pool p ?d ?mp"
  have p: "p \<in> set (map e_rop L)" using i(4) assms(2) by (auto simp: reg_entries_def)
  then obtain e where e: "e \<in> set L" "e_rop e = p" by auto
  have c: "unat (fs_mem s (p + 4)) = count_list H p" "0 < count_list H p" using reg_entriesD(4) [OF i(4) e(1)] e(2) assms(2) count_pos [of p H] by auto
  have pos: "p \<noteq> NULL" "fs_mem s (p + 4) > 0" using reg_objs_distinct [OF i(3)] p c by (auto simp: word_gt_0)
  have v: "unat (fs_mem s (p + 4) - 1) = count_list (remove1 p H) p" using c by (simp add: count_remove1 unat_sub_if_size word_less_nat_alt)
  have len: "length (remove1 p H) < 2 ^ 32" using i(4) length_remove1 [of p H] by (auto simp: reg_entries_def)
  show ?thesis
  proof (cases "p \<in> set (remove1 p H)")
    case True
    have nz: "fs_mem s (p + 4) - 1 \<noteq> 0" using v True by (auto simp: count_pos)
    have b: "?body ?s = Ok (Returned (), fs_set_mem ?m1 ?s)" using pos nz by (simp add: dyn_release_object_pool_def)
    obtain k where k: "F_CALL fac ?body s = Ok (Returned (), fs_set_k k (fs_set_mem ?m1 ?s))" "running k" "mtx_free fac k"
      using f_call_ok [OF i(1,2), of ?body "()" "fs_set_mem ?m1 ?s"] b by auto
    obtain free where o: "objs_ok ?d (topmem (hcore (ps_hs (fs_ps s)))) (free @ map e_rop L)" using reg_objs_free [OF i(3)] .
    have "x \<in> set H \<Longrightarrow> x \<in> set (remove1 p H)" for x using True in_set_remove1 [of x p H] by (cases "x = p") auto
    then have "set (remove1 p H) = set H" using set_remove1_subset [of p H] by blast
    then have "reg_entries ?d ?m1 L (remove1 p H)"
      using reg_entries_refs [OF o i(4), of p _ "remove1 p H"] v len p by (auto simp: count_remove1)
    moreover have "reg_objs fac (fs_set_mem ?m1 ?s) (map e_rop L)" using refs_changed [of fac ?s "map e_rop L" p] i(3) p by simp
    ultimately have "reg_inv fac (fs_set_k k (fs_set_mem ?m1 ?s)) L (remove1 p H)" using k(2,3) by (intro reg_inv_k) simp_all
    then show ?thesis using k(1) True by (auto simp: chFactoryReleaseObject_def)
  next
    case False
    then have one: "count_list H p = 1" using c(2) by (auto simp: count_pos count_remove1)
    then have z: "fs_mem s (p + 4) = 1" using c(1) by (metis unat_1 word_unat_eq_iff)
    obtain free where fr: "pool_list ?mp free (fs_ps s)" "objs_ok ?d (topmem (hcore (ps_hs (fs_ps s)))) (free @ map e_rop L)"
      and cfg: "?mp \<noteq> NULL" "mp_align (ps_pools (fs_ps s) ?mp) = 4" using i(3) by (auto simp: reg_objs_def Let_def)
    obtain m2 where m2: "dyn_list_unlink p ?d ((fs_mem s)(p + 4 := 0)) = Ok (p, m2)" "pool_list ?mp free (fs_ps (fs_set_mem m2 s))"
        "\<And>nx. reg_entries ?d (m2(p := nx)) (filter (\<lambda>e. e_rop e \<noteq> p) L) (remove1 p H)"
      using unlinked [OF fr i(4) p one z] by auto
    let ?t = "fs_set_mem m2 ?s" let ?q = "?t\<lparr>fs_ps := pool_push ?mp p (fs_ps ?t)\<rparr>"
    have al: "MEM_IS_ALIGNED p 4" using fr(2) p is_aligned_iff [of 4 p] by (auto simp: objs_ok_def MEM_IS_VALID_ALIGNMENT_def)
    have "running (fs_k ?t)" using i(1) by simp
    then have "chPoolFree ?mp p (fs_ps ?t) = Ok (pool_push ?mp p (fs_ps ?t))" using chPoolFree_eq [of "fs_ps ?t" ?mp p] cfg pos(1) al by simp
    then have b: "?body ?s = Ok (Returned (), ?q)" using pos m2(1) z by (simp add: dyn_release_object_pool_def fs_pool_def)
    have kq: "fs_k ?q = fs_k ?s" "fs_mem ?q = m2(p := mp_next (ps_pools (fs_ps s) ?mp))" by (simp_all add: pool_push_def)
    obtain k where k: "F_CALL fac ?body s = Ok (Returned (), fs_set_k k ?q)" "running k" "mtx_free fac k"
      using f_call_ok [OF i(1,2), of ?body "()" ?q] b kq(1) by auto
    have "reg_objs fac ?q (map e_rop (filter (\<lambda>e. e_rop e \<noteq> p) L))"
    proof -
      have "p \<notin> set free" using fr(2) p by (auto simp: objs_ok_def)
      then have "pool_list ?mp (p # free) (pool_push ?mp p (fs_ps (fs_set_mem m2 s)))" using pool_push_list m2(2) pos(1) by blast
      then have "pool_list ?mp (p # free) (fs_ps ?q)" by (simp add: pool_list_def pool_push_def fs_set_mem_def fs_set_k_def)
      moreover have "objs_ok ?d (topmem (hcore (ps_hs (fs_ps s)))) ((p # free) @ map e_rop (filter (\<lambda>e. e_rop e \<noteq> p) L))"
      proof -
        have "set ((p # free) @ map e_rop (filter (\<lambda>e. e_rop e \<noteq> p) L)) \<subseteq> set (free @ map e_rop L)" using p by auto
        moreover have "distinct ((p # free) @ map e_rop (filter (\<lambda>e. e_rop e \<noteq> p) L))"
          using fr(2) \<open>p \<notin> set free\<close> by (auto simp: objs_ok_def intro: distinct_map_filter)
        ultimately show ?thesis using fr(2) unfolding objs_ok_def by blast
      qed
      ultimately show ?thesis using i(3) by (auto simp: reg_objs_def Let_def pool_push_def)
    qed
    then have "reg_inv fac (fs_set_k k ?q) (filter (\<lambda>e. e_rop e \<noteq> p) L) (remove1 p H)" using k(2,3) m2(3) kq(2) by (intro reg_inv_k) simp_all
    then show ?thesis using k(1) False by (auto simp: chFactoryReleaseObject_def)
  qed
qed

text \<open>
  The calls of the clients. A client gives back only references it holds; the number of references does not exceed what a counter can hold.
\<close>

inductive reg_step :: "ptr \<Rightarrow> factorysys \<times> entry list \<times> ptr list \<Rightarrow> factorysys \<times> entry list \<times> ptr list \<Rightarrow> bool" for fac where
  registered: "chFactoryRegisterObject fac name objp s = Ok (Returned p, s') \<Longrightarrow> p \<noteq> NULL \<Longrightarrow> length H + 1 < 2 ^ 32 \<Longrightarrow>
    reg_step fac (s, L, H) (s', (strncpy CH_CFG_FACTORY_MAX_NAMES_LENGTH name, p, objp) # L, p # H)"
| refused: "chFactoryRegisterObject fac name objp s = Ok (Returned NULL, s') \<Longrightarrow> length H + 1 < 2 ^ 32 \<Longrightarrow> reg_step fac (s, L, H) (s', L, H)"
| found: "chFactoryFindObject fac name s = Ok (Returned p, s') \<Longrightarrow> p \<noteq> NULL \<Longrightarrow> length H + 1 < 2 ^ 32 \<Longrightarrow> reg_step fac (s, L, H) (s', L, p # H)"
| missing: "chFactoryFindObject fac name s = Ok (Returned NULL, s') \<Longrightarrow> length H + 1 < 2 ^ 32 \<Longrightarrow> reg_step fac (s, L, H) (s', L, H)"
| released: "p \<in> set H \<Longrightarrow> chFactoryReleaseObject fac p s = Ok (Returned (), s') \<Longrightarrow>
    reg_step fac (s, L, H) (s', if p \<in> set (remove1 p H) then L else filter (\<lambda>e. e_rop e \<noteq> p) L, remove1 p H)"

lemma reg_find_in:
  assumes "reg_inv fac s L H" and "find P L = Some e"
  shows "e_rop e \<noteq> NULL"
proof -
  have "e_rop e \<in> set (map e_rop L)" using find_Some_in [OF assms(2)] by simp
  then show ?thesis using reg_objs_distinct [of fac s "map e_rop L"] assms(1) unfolding reg_inv_def by metis
qed

lemma reg_step_inv: "reg_step fac x y \<Longrightarrow> reg_inv fac (fst x) (fst (snd x)) (snd (snd x)) \<Longrightarrow> reg_inv fac (fst y) (fst (snd y)) (snd (snd y))"
proof (induction rule: reg_step.induct)
  case (registered name objp s p s' H L)
  then show ?case using reg_inv_register [of fac s L H name objp] by auto
next
  case (refused name objp s s' H L)
  then show ?case using reg_inv_register [of fac s L H name objp] by auto
next
  case (found name s p s' H L)
  then show ?case using reg_inv_find [of fac s L H name] by (auto split: option.splits)
next
  case (missing name s s' H L)
  then show ?case using reg_inv_find [of fac s L H name] reg_find_in [of fac s L H] by (auto split: option.splits)
next
  case (released p H s s' L)
  then show ?case using reg_inv_release [of fac s L H p] by auto
qed

lemma reg_reach_inv:
  assumes "(reg_step fac)\<^sup>*\<^sup>* (s, L, H) (s', L', H')" and "reg_inv fac s L H"
  shows "reg_inv fac s' L' H'"
proof -
  have "reg_inv fac (fst (s', L', H')) (fst (snd (s', L', H'))) (snd (snd (s', L', H')))"
    using assms(1) by (induction rule: rtranclp_induct) (use assms(2) reg_step_inv in auto)
  then show ?thesis by simp
qed

text \<open>What \<open>_factory_init\<close> leaves: an empty registry.\<close>

definition core_apart :: "ptr \<Rightarrow> factorysys \<Rightarrow> bool" where
  "core_apart fac s \<longleftrightarrow> (let mc = hcore (ps_hs (fs_ps s)); d = f_obj_list fac
     in 0 < unat (basemem mc) \<and> basemem mc \<le> topmem mc \<and> (unat d < unat (basemem mc) \<or> unat (topmem mc) \<le> unat d))"

lemma factory_init_inv:
  assumes "factory_init fac s = Ok s0" and "core_apart fac s" and "running k" and "mtx_free fac k"
  shows "reg_inv fac (fs_set_k k s0) [] []"
proof (rule reg_inv_k)
  have g: "fac \<noteq> NULL" "f_obj_pool fac \<noteq> NULL" "f_sem_pool fac \<noteq> NULL"
    using assms(1) by (auto simp: factory_init_def chMtxObjectInit_def chPoolObjectInit_def chPoolObjectInitAligned_def Let_def)
  have n: "f_obj_pool fac \<noteq> f_sem_pool fac" by (simp add: f_obj_pool_def f_sem_pool_def)
  have p: "ps_pools (fs_ps s0) (f_obj_pool fac) = \<lparr>mp_next = NULL, mp_object_size = 20, mp_align = 4, mp_provider = CORE_ALLOC_ALIGNED_I\<rparr>"
    and h: "hcore (ps_hs (fs_ps s0)) = hcore (ps_hs (fs_ps s))" and m: "fs_mem s0 (f_obj_list fac) = f_obj_list fac"
    using assms(1) g n by (auto simp: factory_init_def chMtxObjectInit_def chPoolObjectInit_def chPoolObjectInitAligned_def Let_def dyn_list_init_def
      PORT_NATURAL_ALIGN_def MEM_IS_VALID_ALIGNMENT_def f_obj_list_def f_buf_list_def f_sem_list_def f_mbx_list_def f_fifo_list_def f_pipe_list_def)
  show "reg_objs fac s0 (map e_rop [])"
    using assms(2) g(2) p h by (auto simp: reg_objs_def core_apart_def Let_def pool_list_def objs_ok_def intro!: exI [of _ "[]"])
  show "reg_entries (f_obj_list fac) (fs_mem s0) [] []" using m by (simp add: reg_entries_def)
qed (rule assms(3), rule assms(4))

text \<open>
  C22: The registry of objects is a dictionary with reference counts. In every history of registrations, searches and releases after \<open>_factory_init\<close>,
  whatever the pool and the core memory have left: the names are distinct; a search finds the object under a name with the same first eight characters,
  if there is one, and \<open>chFactoryGetObject\<close> returns what was registered; a registration never creates a second entry for a name; and
  a reference that is held belongs to an entry and can be given back.
\<close>

theorem registry_refines:
  assumes "factory_init fac s = Ok s0" and "core_apart fac s" and "running k" and "mtx_free fac k"
    and "(reg_step fac)\<^sup>*\<^sup>* (fs_set_k k s0, [], []) (s1, L, H)" and "length H + 1 < 2 ^ 32"
  shows "distinct (map fst L) \<and> distinct (map e_rop L) \<and>
    (\<exists>s2. chFactoryFindObject fac name s1 =
       Ok (Returned (case find (\<lambda>e. fst e = strncpy 8 name) L of None \<Rightarrow> NULL | Some e \<Rightarrow> e_rop e), s2)) \<and>
    (\<exists>p s2. chFactoryRegisterObject fac name objp s1 = Ok (Returned p, s2) \<and> p \<notin> e_rop ` set L \<and>
       (p \<noteq> NULL \<longrightarrow> strncpy 8 name \<notin> fst ` set L \<and> chFactoryGetObject p s2 = objp)) \<and>
    (\<forall>e\<in>set L. chFactoryGetObject (e_rop e) s1 = snd (snd e) \<and> e_rop e \<noteq> NULL) \<and>
    (\<forall>p\<in>set H. p \<in> e_rop ` set L \<and> (\<exists>s2. chFactoryReleaseObject fac p s1 = Ok (Returned (), s2)))"
proof -
  have i: "reg_inv fac s1 L H" using reg_reach_inv [OF assms(5)] factory_init_inv [OF assms(1-4)] by simp
  then have e: "reg_objs fac s1 (map e_rop L)" "reg_entries (f_obj_list fac) (fs_mem s1) L H" by (simp_all add: reg_inv_def)
  note nn = reg_objs_distinct [OF e(1)]
  have n8: "CH_CFG_FACTORY_MAX_NAMES_LENGTH = 8" by (simp add: CH_CFG_FACTORY_MAX_NAMES_LENGTH_def)
  have d: "distinct (map fst L)" "set H = e_rop ` set L" using e(2) by (auto simp: reg_entries_def)
  obtain p s2 where r: "chFactoryRegisterObject fac name objp s1 = Ok (Returned p, s2)"
      "if p = NULL then reg_inv fac s2 L H else strncpy 8 name \<notin> fst ` set L \<and> reg_inv fac s2 ((strncpy 8 name, p, objp) # L) (p # H)"
    using reg_inv_register [OF i assms(6), of name objp] unfolding n8 by auto
  have "p \<notin> e_rop ` set L \<and> (p \<noteq> NULL \<longrightarrow> strncpy 8 name \<notin> fst ` set L \<and> chFactoryGetObject p s2 = objp)"
  proof (cases "p = NULL")
    case False
    then have j: "reg_inv fac s2 ((strncpy 8 name, p, objp) # L) (p # H)" "strncpy 8 name \<notin> fst ` set L" using r(2) by simp_all
    then have o: "reg_objs fac s2 (map e_rop ((strncpy 8 name, p, objp) # L))"
      and en: "reg_entries (f_obj_list fac) (fs_mem s2) ((strncpy 8 name, p, objp) # L) (p # H)" by (simp_all add: reg_inv_def)
    have "p \<notin> e_rop ` set L" using reg_objs_distinct [OF o] by simp
    then show ?thesis using reg_entriesD(3) [OF en, of "(strncpy 8 name, p, objp)"] j(2) by (simp add: chFactoryGetObject_def)
  qed (use nn in auto)
  moreover have "\<exists>s2. chFactoryFindObject fac name s1 = Ok (Returned (case find (\<lambda>e. fst e = strncpy 8 name) L of None \<Rightarrow> NULL | Some e \<Rightarrow> e_rop e), s2)"
    using reg_inv_find [OF i assms(6), of name] unfolding n8 by blast
  moreover have "\<forall>e\<in>set L. chFactoryGetObject (e_rop e) s1 = snd (snd e) \<and> e_rop e \<noteq> NULL"
    using reg_entriesD(3) [OF e(2)] nn by (auto simp: chFactoryGetObject_def image_iff)
  moreover have "\<forall>p\<in>set H. p \<in> e_rop ` set L \<and> (\<exists>s2. chFactoryReleaseObject fac p s1 = Ok (Returned (), s2))"
    using d(2) reg_inv_release [OF i] by blast
  ultimately show ?thesis using d(1) nn r(1) by blast
qed

definition demo_factory :: factorysys where
  "demo_factory = \<lparr>fs_ps = \<lparr>ps_hs = \<lparr>hmem = (\<lambda>_. 0), hprov = (\<lambda>_. chCoreAllocAlignedWithOffset),
       hcore = \<lparr>basemem = 0x20001000, topmem = 0x20002000\<rparr>, hk = demo_kernel\<lparr>lock_cnt := 0\<rparr>\<rparr>,
     ps_pools = (\<lambda>_. \<lparr>mp_next = NULL, mp_object_size = 0, mp_align = 0, mp_provider = NO_GETMEM\<rparr>)\<rparr>,
     fs_pipes = (\<lambda>_. \<lparr>pi_buffer = [], pi_wrptr = 0, pi_rdptr = 0, pi_cnt = 0, pi_reset = False\<rparr>)\<rparr>"

lemma demo_factory_ok: "running (fs_k demo_factory)" "mtx_free 0x20000000 (fs_k demo_factory)" "core_apart 0x20000000 demo_factory"
proof -
  show "running (fs_k demo_factory)" using demo_kernel_ok by (simp add: demo_factory_def running_def sched_ok_def thread_idle_ctx_def thd_ctx_def)
  show "mtx_free 0x20000000 (fs_k demo_factory)" by (simp add: mtx_free_def demo_factory_def demo_kernel_def kernel_reset_def mtx_owner_def)
  show "core_apart 0x20000000 demo_factory" by (simp add: core_apart_def demo_factory_def f_obj_list_def)
qed

theorem registry_refines_witness:
  "\<exists>s0 s1. factory_init 0x20000000 demo_factory = Ok s0 \<and> chFactoryFindObject 0x20000000 [0x61] (fs_set_k (fs_k demo_factory) s0) = Ok (Returned NULL, s1)"
proof -
  obtain s0 where s0: "factory_init 0x20000000 demo_factory = Ok s0"
    by (simp add: factory_init_def chMtxObjectInit_def chPoolObjectInit_def chPoolObjectInitAligned_def Let_def PORT_NATURAL_ALIGN_def
        MEM_IS_VALID_ALIGNMENT_def f_obj_pool_def f_sem_pool_def)
  show ?thesis using registry_refines [OF s0 demo_factory_ok(3,1,2), of _ "[]" "[]" "[0x61]"] s0 by fastforce
qed

section \<open>Buffers\<close>

lemma heap_search_size:
  "heap_search n heapp sz pages align qp m = Ok (p, m') \<Longrightarrow> p \<noteq> NULL \<Longrightarrow> m' (p - 4) = sz"
proof (induction n arbitrary: qp)
  case 0
  then show ?case by (subst (asm) heap_search.simps) (auto split: if_splits)
next
  case (Suc n)
  then show ?case by (subst (asm) heap_search.simps) (auto simp: Let_def H_BLOCK_def split: if_splits prod.splits)
qed

lemma heap_alloc_size:
  assumes "chHeapAlloc dheap heapp sz hs = Ok (Returned p, hs')" and "p \<noteq> NULL"
  shows "hmem hs' (p - 4) = sz"
proof -
  let ?h = "if heapp = NULL then dheap else heapp"
  obtain r k where k: "chMtxLock (heap_mtx ?h) (hk hs) = Ok (r, k)" using assms(1) by (auto simp: chHeapAlloc_def chHeapAllocAligned_def Let_def)
  have "heap_alloc_locked ?h sz CH_HEAP_ALIGNMENT (hs\<lparr>hk := k\<rparr>) = Ok (Returned p, hs')"
    using assms(1) k by (cases r) (auto simp: chHeapAlloc_def chHeapAllocAligned_def Let_def)
  then obtain h1 where l: "heap_alloc_locked ?h sz CH_HEAP_ALIGNMENT h1 = Ok (Returned p, hs')" ..
  obtain q m k where s: "heap_search max_turns ?h sz (heap_pages sz) (heap_align CH_HEAP_ALIGNMENT) (heap_header ?h) (hmem h1) = Ok (q, m)"
      and r: "q \<noteq> NULL \<and> q = p \<and> hs' = h1\<lparr>hmem := m, hk := k\<rparr> \<or> heap_provide ?h sz CH_HEAP_ALIGNMENT (h1\<lparr>hmem := m, hk := k\<rparr>) = Ok (p, hs')"
    using l by (auto simp: heap_alloc_locked_def Let_def split: if_splits)
  from r show ?thesis
  proof
    assume "q \<noteq> NULL \<and> q = p \<and> hs' = h1\<lparr>hmem := m, hk := k\<rparr>"
    then show ?thesis using heap_search_size [OF s] assms(2) by simp
  next
    assume "heap_provide ?h sz CH_HEAP_ALIGNMENT (h1\<lparr>hmem := m, hk := k\<rparr>) = Ok (p, hs')"
    then show ?thesis using assms(2) by (auto simp: heap_provide_def Let_def split: memgetfunc2.splits if_splits)
  qed
qed

lemma memset_zero_in:
  assumes "unat (a - p) + 4 \<le> unat n" and "(a - p) mod 4 = 0"
  shows "memset_zero p n m a = 0"
proof -
  have "a - p < n" using assms(1) by (simp add: word_less_nat_alt)
  moreover have "4 \<le> n - (a - p)" using assms(1) by (simp add: word_le_nat_alt unat_sub_if' del: diff_diff_eq2 diff_diff_add)
  ultimately show ?thesis using assms(2) by (simp add: memset_zero_def Let_def)
qed

text \<open>What the lock leaves of the result of a body.\<close>

lemma F_CALL_Ok:
  assumes "F_CALL fac body s = Ok (Returned v, s')"
  shows "\<exists>k s1. body (fs_set_k k s) = Ok (Returned v, s1) \<and> fs_mem s' = fs_mem s1"
proof -
  obtain r k where k: "chMtxLock fac (fs_k s) = Ok (r, k)" using assms by (auto simp: F_CALL_def)
  have l: "F_LOCKED fac body (fs_set_k k s) = Ok (Returned v, s')" using assms k by (cases r) (auto simp: F_CALL_def)
  then obtain r1 s1 where b: "body (fs_set_k k s) = Ok (r1, s1)" by (auto simp: F_LOCKED_def)
  then have "r1 = Returned v \<and> fs_mem s' = fs_mem s1" using l by (cases r1) (auto simp: F_LOCKED_def)
  then show ?thesis using b by blast
qed

lemma create_buffer_Ok:
  assumes "chFactoryCreateBuffer dheap fac name sz s = Ok (Returned dbp, s')" and "dbp \<noteq> NULL"
  shows "\<exists>m. m (dbp - 4) = sz \<and> fs_mem s' = memset_zero (dbp + 16) sz (dyn_link name (f_buf_list fac) dbp m)"
proof -
  obtain k s1 where b: "kbind (dyn_create_object_heap dheap name (f_buf_list fac) sz (fs_set_k k s)) (create_buffer_body fac sz) = Ok (Returned dbp, s1)"
      and s': "fs_mem s' = fs_mem s1" using F_CALL_Ok [OF assms(1) [unfolded chFactoryCreateBuffer_def]] by auto
  then obtain r s2 where c: "dyn_create_object_heap dheap name (f_buf_list fac) sz (fs_set_k k s) = Ok (r, s2)"
      "create_buffer_body fac sz (r, s2) = Ok (Returned dbp, s1)" by auto
  have r: "r = Returned dbp" "fs_mem s1 = memset_zero (dbp + 16) sz (fs_mem s2)"
    using c(2) assms(2) by (cases r; auto simp: create_buffer_body_def init_created_def split: if_splits)+
  obtain dep where f: "dyn_list_find name (f_buf_list fac) (fs_mem s) = Ok dep" using c(1) by (auto simp: dyn_create_object_heap_def)
  have "dep = NULL" using c(1) f r(1) assms(2) by (auto simp: dyn_create_object_heap_def split: if_splits)
  then obtain w hs where a: "chHeapAlloc dheap NULL sz (ps_hs (fs_ps (fs_set_k k s))) = Ok (w, hs)"
      and d: "dyn_created name (f_buf_list fac) w ((fs_set_k k s)\<lparr>fs_ps := (fs_ps (fs_set_k k s))\<lparr>ps_hs := hs\<rparr>\<rparr>) = (Returned dbp, s2)"
    using c(1) f r(1) by (auto simp: dyn_create_object_heap_def fs_heap_def)
  have "w = Returned dbp" "fs_mem s2 = dyn_link name (f_buf_list fac) dbp (hmem hs)"
    using d assms(2) by (cases w; auto simp: dyn_created_def split: if_splits)+
  then show ?thesis using heap_alloc_size [of dheap NULL sz _ dbp hs] a assms(2) r(2) s' by metis
qed

text \<open>
  C23: \<open>chFactoryCreateBuffer\<close> writes beyond the block it allocates. The block has as many bytes as were asked for the buffer,
  with no room for the list element in front of it, and the clearing of the buffer starts behind the element:
  the whole header of the block that follows in the heap is set to zero, and \<open>chFactoryGetBufferSize\<close> returns sixteen bytes less than were asked for.
\<close>

theorem buffer_overruns_block:
  assumes "chFactoryCreateBuffer dheap fac name sz s = Ok (Returned dbp, s')" and "dbp \<noteq> NULL"
    and "16 \<le> unat sz" and "8 dvd unat sz" and "unat sz < 2 ^ 31" and "f_buf_list fac \<noteq> dbp - 4"
  shows "chHeapGetSize dbp (ps_hs (fs_ps s')) = sz \<and> chFactoryGetBufferSize dbp s' = sz - 16 \<and>
    heap_pages sz * 8 = sz \<and> fs_mem s' (dbp + sz) = 0 \<and> fs_mem s' (dbp + sz + 4) = 0"
proof -
  obtain m where m: "m (dbp - 4) = sz" "fs_mem s' = memset_zero (dbp + 16) sz (dyn_link name (f_buf_list fac) dbp m)"
    using create_buffer_Ok [OF assms(1,2)] by blast
  have u: "unat (sz - 16) = unat sz - 16" "unat (sz - 12) = unat sz - 12" using assms(3) by (simp_all add: unat_sub word_le_nat_alt)
  have sub: "dbp + sz - (dbp + 16) = sz - 16" "dbp + sz + 4 - (dbp + 16) = sz - 12" by simp_all
  obtain j where j: "unat sz = 8 * j" using assms(4) by auto
  have md: "(sz - 16) mod 4 = 0" "(sz - 12) mod 4 = 0" using u j by (simp_all add: word_unat_eq_iff unat_mod)
  have z: "fs_mem s' (dbp + sz) = 0" "fs_mem s' (dbp + sz + 4) = 0"
    unfolding m(2) by (rule memset_zero_in; use sub u md assms(3) in simp)+
  have "fs_mem s' (dbp - 4) = dyn_link name (f_buf_list fac) dbp m (dbp - 4)"
  proof -
    have "dbp - 4 - (dbp + 16) = (-20 :: u32)" by simp
    moreover have "\<not> (-20 :: u32) < sz" using assms(5) by (simp add: word_less_nat_alt)
    ultimately show ?thesis unfolding m(2) memset_zero_def Let_def by simp
  qed
  also have "\<dots> = sz" using m(1) assms(6) by (auto simp: dyn_link_def store_name_def Let_def)
  finally have size: "chHeapGetSize dbp (ps_hs (fs_ps s')) = sz" by (simp add: chHeapGetSize_def H_SIZE_def)
  have "unat (heap_pages sz * 8) = unat sz" using heap_pages_eq(2) [of sz] assms(5) j by simp
  then have "heap_pages sz * 8 = sz" by (simp add: word_unat_eq_iff)
  then show ?thesis using size z by (simp add: chFactoryGetBufferSize_def)
qed

definition demo_buffers :: factorysys where
  "demo_buffers = fs_set_mem ((\<lambda>_. 1)(0x20000024 := 0x20000024, 0x20000104 := 0)) demo_factory"

lemma demo_buffer_created: "\<exists>s'. chFactoryCreateBuffer 0x20000100 0x20000000 [0x61] 32 demo_buffers = Ok (Returned 0x20001FE0, s')"
proof -
  let ?k = "fs_k demo_factory"
  have r: "running ?k" "mtx_free 0x20000000 ?k" "mtx_free (heap_mtx 0x20000100) ?k"
    using demo_factory_ok(1,2) by (simp_all add: mtx_free_def demo_factory_def demo_kernel_def kernel_reset_def mtx_owner_def heap_mtx_def)
  note n = nested [OF r, simplified heap_mtx_def, simplified]
  let ?k3 = "mtx_drop 0x2000010C (give 0x2000010C (currp ?k) (give 0x20000000 (currp ?k) ?k))"
  have c: "chCoreAllocFromTop 32 8 8 \<lparr>basemem = 0x20001000, topmem = 0x20002000\<rparr> ?k3 = Ok (0x20001FE0, \<lparr>basemem = 0x20001000, topmem = 0x20001FD8\<rparr>, ?k3)"
  proof -
    have r3: "running ?k3" using r(1) by simp
    have "chCoreAllocFromTopI 32 8 8 \<lparr>basemem = 0x20001000, topmem = 0x20002000\<rparr> (?k3\<lparr>lock_cnt := 1\<rparr>) = Ok (0x20001FE0, \<lparr>basemem = 0x20001000, topmem = 0x20001FD8\<rparr>)"
      using n(5) by (simp add: chCoreAllocFromTopI_def MEM_IS_VALID_ALIGNMENT_def MEM_ALIGN_PREV_def MEM_ALIGN_MASK_def Let_def)
    then show ?thesis using r3 by (simp only: core_top_api) simp
  qed
  have k: "fs_k demo_buffers = ?k" "hcore (ps_hs (fs_ps demo_buffers)) = \<lparr>basemem = 0x20001000, topmem = 0x20002000\<rparr>"
      "hprov (ps_hs (fs_ps demo_buffers)) = (\<lambda>_. chCoreAllocAlignedWithOffset)"
      "fs_mem demo_buffers = (\<lambda>_. 1)(0x20000024 := 0x20000024, 0x20000104 := 0)"
    by (simp_all add: demo_buffers_def) (simp_all add: demo_factory_def fs_set_mem_def)
  show ?thesis
    using n(1-4) c k
    by (simp add: chFactoryCreateBuffer_def F_CALL_def F_LOCKED_def dyn_create_object_heap_def dyn_list_find_def dyn_find_loop.simps f_buf_list_def
        fs_heap_def chHeapAlloc_def chHeapAllocAligned_def heap_alloc_locked_def heap_search.simps heap_header_def H_NEXT_def heap_mtx_def Let_def
        CH_HEAP_ALIGNMENT_def MEM_IS_VALID_ALIGNMENT_def heap_provide_def heap_align_def heap_pages_def MEM_ALIGN_NEXT_def MEM_ALIGN_PREV_def MEM_ALIGN_MASK_def
        fs_set_k_def set_k_def dyn_created_def create_buffer_body_def init_created_def fs_set_mem_def)
qed

theorem buffer_overruns_block_witness:
  "\<exists>s'. chFactoryCreateBuffer 0x20000100 0x20000000 [0x61] 32 demo_buffers = Ok (Returned 0x20001FE0, s') \<and>
     fs_mem demo_buffers 0x20002000 = 1 \<and> fs_mem s' 0x20002000 = 0 \<and> chFactoryGetBufferSize 0x20001FE0 s' = 16"
proof -
  obtain s' where s': "chFactoryCreateBuffer 0x20000100 0x20000000 [0x61] 32 demo_buffers = Ok (Returned 0x20001FE0, s')" using demo_buffer_created by blast
  have "fs_mem demo_buffers 0x20002000 = 1" by (simp add: demo_buffers_def)
  then show ?thesis using buffer_overruns_block [OF s'] s' by (simp add: f_buf_list_def)
qed

end
