(* ===== verification/TimeMeasure.thy ===== *)
theory TimeMeasure
  imports Prelude
begin

text \<open>
  Time measurement (\<open>os/rt/src/chtm.c\<close>, \<open>os/rt/include/chtm.h\<close>) and the time window test of
  \<open>os/rt/src/chsys.c\<close>. A reading of the real time counter (\<open>chSysGetRealtimeCounterX\<close>, the cycle
  counter of the core) is an argument; the counter is 32 bits wide and wraps around.
\<close>

record time_measurement =
  tm_best :: u32
  tm_worst :: u32
  tm_last :: u32
  tm_n :: u32
  tm_cumulative :: "64 word"

section \<open>Operations\<close>

definition chTMObjectInit :: time_measurement where
  "chTMObjectInit = \<lparr>tm_best = - 1, tm_worst = 0, tm_last = 0, tm_n = 0, tm_cumulative = 0\<rparr>"

definition tm_stop :: "u32 \<Rightarrow> u32 \<Rightarrow> time_measurement \<Rightarrow> time_measurement" where
  "tm_stop now offset tmp =
     (let tmp = tmp\<lparr>tm_n := tm_n tmp + 1\<rparr>;
          tmp = tmp\<lparr>tm_last := (now - tm_last tmp) - offset\<rparr>;
          tmp = tmp\<lparr>tm_cumulative := tm_cumulative tmp + ucast (tm_last tmp)\<rparr>;
          tmp = (if tm_last tmp > tm_worst tmp then tmp\<lparr>tm_worst := tm_last tmp\<rparr> else tmp)
      in if tm_last tmp < tm_best tmp then tmp\<lparr>tm_best := tm_last tmp\<rparr> else tmp)"

definition chTMStartMeasurementX :: "u32 \<Rightarrow> time_measurement \<Rightarrow> time_measurement" where
  "chTMStartMeasurementX now tmp = tmp\<lparr>tm_last := now\<rparr>"

definition chTMStopMeasurementX :: "u32 \<Rightarrow> u32 \<Rightarrow> time_measurement \<Rightarrow> time_measurement" where
  "chTMStopMeasurementX offset now tmp = tm_stop now offset tmp"

definition chTMChainMeasurementToX ::
  "u32 \<Rightarrow> time_measurement \<Rightarrow> time_measurement \<Rightarrow> time_measurement \<times> time_measurement" where
  "chTMChainMeasurementToX now tmp1 tmp2 =
     (let tmp2 = tmp2\<lparr>tm_last := now\<rparr> in (tm_stop (tm_last tmp2) 0 tmp1, tmp2))"

text \<open>The calibration measures nothing four times; \<open>rt\<close> gives the eight readings it takes.\<close>

definition TM_CALIBRATION_LOOP :: nat where "TM_CALIBRATION_LOOP = 4"

fun calibrate :: "nat \<Rightarrow> (nat \<Rightarrow> u32) \<Rightarrow> nat \<Rightarrow> time_measurement \<Rightarrow> time_measurement" where
  "calibrate 0 rt i tmp = tmp"
| "calibrate (Suc n) rt i tmp =
     calibrate n rt (i + 2) (chTMStopMeasurementX 0 (rt (Suc i)) (chTMStartMeasurementX (rt i) tmp))"

definition tm_init :: "(nat \<Rightarrow> u32) \<Rightarrow> u32" where
  "tm_init rt = tm_best (calibrate TM_CALIBRATION_LOOP rt 0 chTMObjectInit)"

definition chSysIsCounterWithinX :: "u32 \<Rightarrow> u32 \<Rightarrow> u32 \<Rightarrow> bool" where
  "chSysIsCounterWithinX cnt start end' = (cnt - start < end' - start)"

section \<open>Measuring a sequence of intervals\<close>

definition duration :: "u32 \<Rightarrow> u32 \<times> u32 \<Rightarrow> u32" where
  "duration offset p = snd p - fst p - offset"

definition measure_all :: "u32 \<Rightarrow> (u32 \<times> u32) list \<Rightarrow> time_measurement \<Rightarrow> time_measurement" where
  "measure_all offset ps =
     fold (\<lambda>(t0, t1) tmp. chTMStopMeasurementX offset t1 (chTMStartMeasurementX t0 tmp)) ps"

lemma measure_one:
  "chTMStopMeasurementX offset t1 (chTMStartMeasurementX t0 tmp) =
     (let d = duration offset (t0, t1)
      in \<lparr>tm_best = min (tm_best tmp) d, tm_worst = max (tm_worst tmp) d, tm_last = d, tm_n = tm_n tmp + 1,
          tm_cumulative = tm_cumulative tmp + ucast d\<rparr>)"
  by (auto simp: chTMStopMeasurementX_def chTMStartMeasurementX_def tm_stop_def duration_def Let_def min_def max_def)

lemma measure_all_eq:
  "tm_n (measure_all offset ps tmp) = tm_n tmp + of_nat (length ps) \<and>
   tm_best (measure_all offset ps tmp) = fold (\<lambda>p b. min b (duration offset p)) ps (tm_best tmp) \<and>
   tm_worst (measure_all offset ps tmp) = fold (\<lambda>p w. max w (duration offset p)) ps (tm_worst tmp) \<and>
   tm_cumulative (measure_all offset ps tmp) = tm_cumulative tmp + (\<Sum>p\<leftarrow>ps. ucast (duration offset p))"
proof (induction ps arbitrary: tmp)
  case Nil
  show ?case by (simp add: measure_all_def)
next
  case (Cons p ps)
  obtain t0 t1 where p: "p = (t0, t1)" by (cases p)
  let ?t = "chTMStopMeasurementX offset t1 (chTMStartMeasurementX t0 tmp)"
  have "measure_all offset (p # ps) tmp = measure_all offset ps ?t" by (simp add: measure_all_def p)
  then show ?case using Cons [of ?t] by (simp add: measure_one Let_def p algebra_simps)
qed

lemma fold_min_Min:
  fixes f :: "'a \<Rightarrow> 'b::linorder"
  shows "fold (\<lambda>p b. min b (f p)) ps b = Min (insert b (f ` set ps))"
proof (induction ps arbitrary: b)
  case (Cons p ps)
  then show ?case by (cases "ps = []") (simp_all add: min.assoc)
qed simp

lemma fold_max_Max:
  fixes f :: "'a \<Rightarrow> 'b::linorder"
  shows "fold (\<lambda>p b. max b (f p)) ps b = Max (insert b (f ` set ps))"
proof (induction ps arbitrary: b)
  case (Cons p ps)
  then show ?case by (cases "ps = []") (simp_all add: max.assoc)
qed simp

section \<open>Properties\<close>

text \<open>
  An initialised object that measures a non-empty sequence of intervals holds the smallest and
  the largest of their durations, their number and their sum; a duration is exact modulo the
  counter's width, also when the counter wraps around within the interval.
\<close>

theorem measurements_summarised:
  assumes "ps \<noteq> []"
  shows "(let tm = measure_all offset ps chTMObjectInit; ds = map (duration offset) ps
    in tm_best tm = Min (set ds) \<and> tm_worst tm = Max (set ds) \<and> tm_n tm = of_nat (length ps) \<and>
       tm_cumulative tm = (\<Sum>d\<leftarrow>ds. ucast d))"
proof -
  let ?S = "duration offset ` set ps"
  have "Min (insert (- 1) ?S) = Min ?S" "Max (insert 0 ?S) = Max ?S"
    using assms by (simp_all add: min_absorb2 max_absorb2)
  then show ?thesis
    using measure_all_eq [of offset ps chTMObjectInit]
    by (simp add: Let_def chTMObjectInit_def o_def fold_min_Min fold_max_Max del: Min_insert Max_insert)
qed

theorem measurements_summarised_witness:
  "tm_best (measure_all 5 [(0xFFFFFFF0, 0x10), (100, 400)] chTMObjectInit) = 27 \<and>
   tm_worst (measure_all 5 [(0xFFFFFFF0, 0x10), (100, 400)] chTMObjectInit) = 295"
  using measurements_summarised [of "[(0xFFFFFFF0, 0x10), (100, 400)]" 5] by (simp add: Let_def duration_def min_def max_def)

end
