(* ===== verification/TQueues.thy ===== *)
theory TQueues
  imports Prelude
begin

text \<open>
  The kernel's thread lists as the code keeps them: intrusive, circular, doubly linked
  (\<open>threads_queue_t\<close>) or singly linked (\<open>threads_list_t\<close>) lists threaded through the
  \<open>queue.next\<close> and \<open>queue.prev\<close> fields of \<open>thread_t\<close>, with the header standing in the
  circle as one more node (\<open>os/rt/include/chschd.h\<close>, \<open>os/rt/src/chschd.c\<close>). A state is
  the contents of those fields and of \<open>prio\<close> at every address.

  \<open>dll s h xs\<close> says that the header at \<open>h\<close> represents the list \<open>xs\<close>. The lemmas show that
  every operation, on a represented list, computes the expected list operation, keeps the
  circle closed and leaves every node outside it untouched; the locale \<open>queue_rep\<close> states
  that contract and proves what a client of it can rely on. The kernel theories work with
  the represented lists.
\<close>

section \<open>State and operations\<close>

record links =
  nxt :: "ptr \<Rightarrow> ptr"
  prv :: "ptr \<Rightarrow> ptr"
  nprio :: "ptr \<Rightarrow> nat"

definition set_nxt :: "ptr \<Rightarrow> ptr \<Rightarrow> links \<Rightarrow> links" where
  "set_nxt a b s = s\<lparr>nxt := (nxt s)(a := b)\<rparr>"

definition set_prv :: "ptr \<Rightarrow> ptr \<Rightarrow> links \<Rightarrow> links" where
  "set_prv a b s = s\<lparr>prv := (prv s)(a := b)\<rparr>"

definition queue_init :: "ptr \<Rightarrow> links \<Rightarrow> links" where
  "queue_init tqp s = set_prv tqp tqp (set_nxt tqp tqp s)"

definition queue_isempty :: "ptr \<Rightarrow> links \<Rightarrow> bool" where
  "queue_isempty tqp s = (nxt s tqp = tqp)"

definition queue_notempty :: "ptr \<Rightarrow> links \<Rightarrow> bool" where
  "queue_notempty tqp s = (nxt s tqp \<noteq> tqp)"

definition list_init :: "ptr \<Rightarrow> links \<Rightarrow> links" where
  "list_init tlp s = set_nxt tlp tlp s"

definition list_isempty :: "ptr \<Rightarrow> links \<Rightarrow> bool" where
  "list_isempty tlp s = (nxt s tlp = tlp)"

definition list_notempty :: "ptr \<Rightarrow> links \<Rightarrow> bool" where
  "list_notempty tlp s = (nxt s tlp \<noteq> tlp)"

definition list_insert :: "ptr \<Rightarrow> ptr \<Rightarrow> links \<Rightarrow> links" where
  "list_insert tp tlp s = (let s = set_nxt tp (nxt s tlp) s in set_nxt tlp tp s)"

definition list_remove :: "ptr \<Rightarrow> links \<Rightarrow> ptr \<times> links" where
  "list_remove tlp s = (let tp = nxt s tlp in (tp, set_nxt tlp (nxt s tp) s))"

text \<open>The four assignments that end every insertion: \<open>tp\<close> goes in front of \<open>cp\<close>.\<close>

definition link_before :: "ptr \<Rightarrow> ptr \<Rightarrow> links \<Rightarrow> links" where
  "link_before tp cp s =
     (let s = set_nxt tp cp s;
          s = set_prv tp (prv s cp) s;
          s = set_nxt (prv s tp) tp s
      in set_prv cp tp s)"

text \<open>
  The scanning loops. \<open>prio_scan\<close> is the loop of \<open>queue_prio_insert\<close>, which also stops at
  the header; \<open>ready_scan\<close> and \<open>ready_scan_ahead\<close> are those of \<open>chSchReadyI\<close> and
  \<open>chSchReadyAheadI\<close>, which rely on the header's priority \<open>NOPRIO\<close> to stop. Each returns
  the node in front of which the thread is linked, \<open>None\<close> if the loop does not end.
\<close>

partial_function (option) prio_scan :: "links \<Rightarrow> ptr \<Rightarrow> ptr \<Rightarrow> ptr \<Rightarrow> ptr option" where
  "prio_scan s tp tqp cp =
     (let cp = nxt s cp in
      if cp \<noteq> tqp \<and> nprio s cp \<ge> nprio s tp then prio_scan s tp tqp cp else Some cp)"

partial_function (option) ready_scan :: "links \<Rightarrow> ptr \<Rightarrow> ptr \<Rightarrow> ptr option" where
  "ready_scan s tp cp =
     (let cp = nxt s cp in
      if nprio s cp \<ge> nprio s tp then ready_scan s tp cp else Some cp)"

partial_function (option) ready_scan_ahead :: "links \<Rightarrow> ptr \<Rightarrow> ptr \<Rightarrow> ptr option" where
  "ready_scan_ahead s tp cp =
     (let cp = nxt s cp in
      if nprio s cp > nprio s tp then ready_scan_ahead s tp cp else Some cp)"

definition queue_prio_insert :: "ptr \<Rightarrow> ptr \<Rightarrow> links \<Rightarrow> links option" where
  "queue_prio_insert tp tqp s =
     (case prio_scan s tp tqp tqp of None \<Rightarrow> None | Some cp \<Rightarrow> Some (link_before tp cp s))"

definition ready_insert :: "ptr \<Rightarrow> ptr \<Rightarrow> links \<Rightarrow> links option" where
  "ready_insert tp rl s =
     (case ready_scan s tp rl of None \<Rightarrow> None | Some cp \<Rightarrow> Some (link_before tp cp s))"

definition ready_insert_ahead :: "ptr \<Rightarrow> ptr \<Rightarrow> links \<Rightarrow> links option" where
  "ready_insert_ahead tp rl s =
     (case ready_scan_ahead s tp rl of None \<Rightarrow> None | Some cp \<Rightarrow> Some (link_before tp cp s))"

definition queue_insert :: "ptr \<Rightarrow> ptr \<Rightarrow> links \<Rightarrow> links" where
  "queue_insert tp tqp s =
     (let s = set_nxt tp tqp s;
          s = set_prv tp (prv s tqp) s;
          s = set_nxt (prv s tp) tp s
      in set_prv tqp tp s)"

definition queue_fifo_remove :: "ptr \<Rightarrow> links \<Rightarrow> ptr \<times> links" where
  "queue_fifo_remove tqp s =
     (let tp = nxt s tqp;
          s = set_nxt tqp (nxt s tp) s
      in (tp, set_prv (nxt s tqp) tqp s))"

definition queue_lifo_remove :: "ptr \<Rightarrow> links \<Rightarrow> ptr \<times> links" where
  "queue_lifo_remove tqp s =
     (let tp = prv s tqp;
          s = set_prv tqp (prv s tp) s
      in (tp, set_nxt (prv s tqp) tqp s))"

definition queue_dequeue :: "ptr \<Rightarrow> links \<Rightarrow> ptr \<times> links" where
  "queue_dequeue tp s =
     (let s = set_nxt (prv s tp) (nxt s tp) s
      in (tp, set_prv (nxt s tp) (prv s tp) s))"

section \<open>The represented list\<close>

fun chain :: "links \<Rightarrow> ptr list \<Rightarrow> bool" where
  "chain s (a # b # xs) = (nxt s a = b \<and> prv s b = a \<and> chain s (b # xs))"
| "chain s _ = True"

definition dll :: "links \<Rightarrow> ptr \<Rightarrow> ptr list \<Rightarrow> bool" where
  "dll s h xs = (distinct (h # xs) \<and> chain s (h # xs @ [h]))"

fun schain :: "links \<Rightarrow> ptr list \<Rightarrow> bool" where
  "schain s (a # b # xs) = (nxt s a = b \<and> schain s (b # xs))"
| "schain s _ = True"

definition sll :: "links \<Rightarrow> ptr \<Rightarrow> ptr list \<Rightarrow> bool" where
  "sll s h xs = (distinct (h # xs) \<and> schain s (h # xs @ [h]))"

lemma set_links_simps [simp]:
  "nxt (set_nxt a b s) = (nxt s)(a := b)" "prv (set_nxt a b s) = prv s"
  "nprio (set_nxt a b s) = nprio s"
  "nxt (set_prv a b s) = nxt s" "prv (set_prv a b s) = (prv s)(a := b)"
  "nprio (set_prv a b s) = nprio s"
  by (simp_all add: set_nxt_def set_prv_def)

lemma chain_append:
  "chain s (xs @ a # ys) \<longleftrightarrow> chain s (xs @ [a]) \<and> chain s (a # ys)"
proof (induction xs)
  case (Cons x xs)
  then show ?case by (cases xs) auto
qed simp

lemma chain_cong:
  "(\<And>a. a \<in> set (butlast xs) \<Longrightarrow> nxt s a = nxt t a) \<Longrightarrow>
   (\<And>a. a \<in> set (tl xs) \<Longrightarrow> prv s a = prv t a) \<Longrightarrow> chain s xs = chain t xs"
proof (induction xs)
  case (Cons x xs)
  show ?case
  proof (cases xs)
    case (Cons y ys)
    have "chain s xs = chain t xs"
      by (rule Cons.IH) (use Cons Cons.prems in \<open>auto dest: list.set_sel(2)[rotated]\<close>)
    then show ?thesis using Cons Cons.prems by simp
  qed simp
qed simp


section \<open>Splicing a circle\<close>

text \<open>
  Everything the operations do is one of two splices of the circle
  \<open>h, as, bs, h\<close>: linking a node between \<open>as\<close> and \<open>bs\<close>, or unlinking the node between them.
\<close>

lemma circle_ends: "last (h # as) \<in> set (h # as)" "hd (bs @ [h]) \<in> set (bs @ [h])"
  by (simp, cases bs, auto)

lemma dll_split:
  "dll s h (as @ bs) \<longleftrightarrow>
   distinct (h # as @ bs) \<and> chain s (h # as) \<and> chain s (bs @ [h]) \<and>
   nxt s (last (h # as)) = hd (bs @ [h]) \<and> prv s (hd (bs @ [h])) = last (h # as)"
proof -
  obtain ps p where p: "h # as = ps @ [p]" by (cases "h # as" rule: rev_cases) auto
  obtain c cs where c: "bs @ [h] = c # cs" by (cases "bs @ [h]") auto
  have eq: "h # (as @ bs) @ [h] = ps @ p # c # cs"
    using p c by simp
  have "chain s (h # (as @ bs) @ [h]) \<longleftrightarrow> chain s (ps @ [p]) \<and> chain s (p # c # cs)"
    unfolding eq by (rule chain_append)
  then have "dll s h (as @ bs) \<longleftrightarrow> distinct (h # as @ bs) \<and> chain s (ps @ [p]) \<and>
      nxt s p = c \<and> prv s c = p \<and> chain s (c # cs)"
    by (auto simp: dll_def)
  moreover have "last (h # as) = p" "hd (bs @ [h]) = c"
    by (simp_all only: p c last_snoc list.sel)
  ultimately show ?thesis
    by (metis p c)
qed

lemma chain_Cons_snoc:
  "chain s (a # xs @ [h]) \<longleftrightarrow>
   nxt s a = hd (xs @ [h]) \<and> prv s (hd (xs @ [h])) = a \<and> chain s (xs @ [h])"
  by (cases xs) auto

lemma dll_link:
  assumes "dll s h (as @ bs)" and "tp \<notin> set (h # as @ bs)"
    and "nxt s' = (nxt s)(tp := hd (bs @ [h]), last (h # as) := tp)"
    and "prv s' = (prv s)(tp := last (h # as), hd (bs @ [h]) := tp)"
  shows "dll s' h (as @ tp # bs)"
proof -
  note l = circle_ends(1) [of h as] circle_ends(2) [of bs h]
  have d: "distinct (h # as @ bs)" and ca: "chain s (h # as)" and cb: "chain s (bs @ [h])"
    using assms(1) by (simp_all add: dll_split)
  have lb: "last (h # as) \<notin> set (butlast (h # as))" "last (h # as) \<notin> set bs"
    using d by (cases as rule: rev_cases, auto)+
  have hc: "hd (bs @ [h]) \<notin> set as" "hd (bs @ [h]) \<notin> set (tl (bs @ [h]))"
    using d by (cases bs, auto)+
  have "chain s' (h # as)"
    using ca assms(2-4) lb hc by (subst chain_cong [where t = s]) (auto dest: in_set_butlastD)
  moreover have "chain s' (bs @ [h])"
    using cb assms(2-4) lb hc l by (subst chain_cong [where t = s]) (auto dest: list.set_sel(2) [rotated])
  ultimately show ?thesis
    using assms(2-4) d l by (auto simp: dll_split chain_Cons_snoc)
qed

lemma dll_unlink:
  assumes "dll s h (as @ x # bs)"
    and "nxt s' = (nxt s)(last (h # as) := hd (bs @ [h]))"
    and "prv s' = (prv s)(hd (bs @ [h]) := last (h # as))"
  shows "dll s' h (as @ bs)"
proof -
  have d: "distinct (h # as @ x # bs)" and ca: "chain s (h # as)"
    and cb: "chain s (bs @ [h])"
    using assms(1) by (simp_all add: dll_split chain_Cons_snoc)
  have lb: "last (h # as) \<notin> set (butlast (h # as))" "last (h # as) \<notin> set bs"
    using d by (cases as rule: rev_cases, auto)+
  have hc: "hd (bs @ [h]) \<notin> set as" "hd (bs @ [h]) \<notin> set (tl (bs @ [h]))"
    using d by (cases bs, auto)+
  have "chain s' (h # as)"
    using ca assms(2-3) lb hc by (subst chain_cong [where t = s]) (auto dest: in_set_butlastD)
  moreover have "chain s' (bs @ [h])"
    using cb assms(2-3) lb hc
    by (subst chain_cong [where t = s]) (auto dest: list.set_sel(2) [rotated])
  ultimately show ?thesis
    using assms(2-3) d by (auto simp: dll_split)
qed

lemma dll_neighbours:
  assumes "dll s h (as @ x # bs)"
  shows "nxt s x = hd (bs @ [h])" and "prv s x = last (h # as)"
    and "nxt s (last (h # as)) = x" and "prv s (hd (bs @ [h])) = x"
  using assms by (simp_all add: dll_split chain_Cons_snoc)

lemma dll_last: "dll s h xs \<Longrightarrow> nxt s (last (h # xs)) = h"
  using dll_split [of s h xs "[]"] by simp

lemma dll_empty: "dll s h [] \<longleftrightarrow> nxt s h = h \<and> prv s h = h"
  by (auto simp: dll_def)

lemma dll_distinct: "dll s h xs \<Longrightarrow> distinct (h # xs)"
  by (simp add: dll_def)

lemma dll_frame:
  assumes "dll s h xs" and "\<And>a. a \<in> set (h # xs) \<Longrightarrow> nxt s' a = nxt s a \<and> prv s' a = prv s a"
  shows "dll s' h xs"
proof -
  have "chain s' (h # xs @ [h]) = chain s (h # xs @ [h])"
    by (rule chain_cong) (use assms(2) in \<open>auto dest: in_set_butlastD\<close>)
  then show ?thesis using assms(1) by (simp add: dll_def)
qed

section \<open>Insertion and removal refine the list operations\<close>

lemma queue_init_dll: "dll (queue_init tqp s) tqp []"
  by (simp add: queue_init_def dll_empty)

lemma queue_isempty_dll: "dll s h xs \<Longrightarrow> queue_isempty h s = (xs = [])"
  by (cases xs) (auto simp: queue_isempty_def dll_def)

lemma queue_notempty_dll: "dll s h xs \<Longrightarrow> queue_notempty h s = (xs \<noteq> [])"
  using queue_isempty_dll [of s h xs] by (simp add: queue_isempty_def queue_notempty_def)

lemma link_before_dll:
  assumes "dll s h (as @ bs)" and "tp \<notin> set (h # as @ bs)"
  shows "dll (link_before tp (hd (bs @ [h])) s) h (as @ tp # bs)"
proof (rule dll_link [OF assms])
  have ne: "tp \<noteq> hd (bs @ [h])" using assms(2) circle_ends(2) [of bs h] by auto
  have p: "prv s (hd (bs @ [h])) = last (h # as)"
    using assms(1) by (simp add: dll_split)
  show "nxt (link_before tp (hd (bs @ [h])) s)
      = (nxt s)(tp := hd (bs @ [h]), last (h # as) := tp)"
    by (simp add: link_before_def Let_def p)
  show "prv (link_before tp (hd (bs @ [h])) s)
      = (prv s)(tp := last (h # as), hd (bs @ [h]) := tp)"
    by (simp add: link_before_def Let_def p)
qed

lemma link_before_other:
  assumes "dll s h (as @ bs)" and "tp \<notin> set (h # as @ bs)" and "a \<notin> set (tp # h # as @ bs)"
  shows "nxt (link_before tp (hd (bs @ [h])) s) a = nxt s a"
    and "prv (link_before tp (hd (bs @ [h])) s) a = prv s a"
proof -
  have p: "prv s (hd (bs @ [h])) = last (h # as)"
    using assms(1) by (simp add: dll_split)
  have "a \<noteq> last (h # as)" "a \<noteq> hd (bs @ [h])"
    using assms(3) circle_ends(1) [of h as] circle_ends(2) [of bs h] by (auto simp del: last.simps)
  then show "nxt (link_before tp (hd (bs @ [h])) s) a = nxt s a"
    and "prv (link_before tp (hd (bs @ [h])) s) a = prv s a"
    using assms(3) by (simp_all add: link_before_def Let_def p del: last.simps)
qed

lemma queue_insert_link: "queue_insert tp tqp s = link_before tp tqp s"
  by (simp add: queue_insert_def link_before_def)

lemma queue_insert_dll:
  "dll s h xs \<Longrightarrow> tp \<notin> set (h # xs) \<Longrightarrow> dll (queue_insert tp h s) h (xs @ [tp])"
  using link_before_dll [of s h xs "[]" tp] by (simp add: queue_insert_link)

lemma queue_fifo_remove_dll:
  assumes "dll s h (x # xs)"
  shows "fst (queue_fifo_remove h s) = x" and "dll (snd (queue_fifo_remove h s)) h xs"
proof -
  have n: "nxt s h = x" "nxt s x = hd (xs @ [h])"
    using dll_neighbours [of s h "[]" x xs] assms by simp_all
  show "fst (queue_fifo_remove h s) = x"
    by (simp add: queue_fifo_remove_def Let_def n)
  have "dll (snd (queue_fifo_remove h s)) h ([] @ xs)"
    by (rule dll_unlink [where s = s and x = x])
      (use assms n in \<open>simp_all add: queue_fifo_remove_def Let_def\<close>)
  then show "dll (snd (queue_fifo_remove h s)) h xs" by simp
qed

lemma queue_lifo_remove_dll:
  assumes "dll s h (xs @ [x])"
  shows "fst (queue_lifo_remove h s) = x" and "dll (snd (queue_lifo_remove h s)) h xs"
proof -
  have n: "prv s h = x" "prv s x = last (h # xs)"
    using dll_neighbours [of s h xs x "[]"] assms by simp_all
  show "fst (queue_lifo_remove h s) = x"
    by (simp add: queue_lifo_remove_def Let_def n)
  have "dll (snd (queue_lifo_remove h s)) h (xs @ [])"
    by (rule dll_unlink [where s = s and x = x])
      (use assms n in \<open>simp_all add: queue_lifo_remove_def Let_def\<close>)
  then show "dll (snd (queue_lifo_remove h s)) h xs" by simp
qed

lemma queue_dequeue_dll:
  assumes "dll s h (as @ x # bs)"
  shows "fst (queue_dequeue x s) = x" and "dll (snd (queue_dequeue x s)) h (as @ bs)"
proof -
  note n = dll_neighbours(1,2) [OF assms]
  have "x \<noteq> last (h # as)" using dll_distinct [OF assms] by (cases as rule: rev_cases) auto
  then show "dll (snd (queue_dequeue x s)) h (as @ bs)"
    by (intro dll_unlink [OF assms]) (simp_all add: queue_dequeue_def Let_def n)
  show "fst (queue_dequeue x s) = x"
    by (simp add: queue_dequeue_def Let_def)
qed


section \<open>The scanning loops end at the insertion point\<close>

lemma prio_scan_dll:
  "dll s h (as @ bs) \<Longrightarrow>
   prio_scan s tp h (last (h # as)) = Some (hd (dropWhile (\<lambda>y. nprio s y \<ge> nprio s tp) bs @ [h]))"
proof (induction bs arbitrary: as)
  case Nil
  then show ?case using dll_last [of s h as] by (subst prio_scan.simps) (simp add: Let_def)
next
  case (Cons b bs)
  have n: "nxt s (last (h # as)) = b" "b \<noteq> h"
    using dll_neighbours(3) [OF Cons.prems] dll_distinct [OF Cons.prems] by auto
  have "dll s h ((as @ [b]) @ bs)" using Cons.prems by simp
  from Cons.IH [OF this] show ?case
    by (subst prio_scan.simps) (simp add: n Let_def del: last.simps, simp)
qed

lemma ready_scan_dll:
  "dll s h (as @ bs) \<Longrightarrow> nprio s h < nprio s tp \<Longrightarrow>
   ready_scan s tp (last (h # as)) = Some (hd (dropWhile (\<lambda>y. nprio s y \<ge> nprio s tp) bs @ [h]))"
proof (induction bs arbitrary: as)
  case Nil
  then show ?case using dll_last [of s h as] by (subst ready_scan.simps) (simp add: Let_def)
next
  case (Cons b bs)
  have n: "nxt s (last (h # as)) = b"
    using dll_neighbours(3) [OF Cons.prems(1)] by auto
  have "dll s h ((as @ [b]) @ bs)" using Cons.prems by simp
  from Cons.IH [OF this Cons.prems(2)] show ?case
    by (subst ready_scan.simps) (simp add: n Let_def del: last.simps, simp)
qed

lemma ready_scan_ahead_dll:
  "dll s h (as @ bs) \<Longrightarrow> nprio s h \<le> nprio s tp \<Longrightarrow>
   ready_scan_ahead s tp (last (h # as)) = Some (hd (dropWhile (\<lambda>y. nprio s y > nprio s tp) bs @ [h]))"
proof (induction bs arbitrary: as)
  case Nil
  then show ?case using dll_last [of s h as] by (subst ready_scan_ahead.simps) (simp add: Let_def)
next
  case (Cons b bs)
  have n: "nxt s (last (h # as)) = b"
    using dll_neighbours(3) [OF Cons.prems(1)] by auto
  have "dll s h ((as @ [b]) @ bs)" using Cons.prems by simp
  from Cons.IH [OF this Cons.prems(2)] show ?case
    by (subst ready_scan_ahead.simps) (simp add: n Let_def del: last.simps, simp)
qed

lemma link_before_insort:
  assumes "dll s h xs" and "tp \<notin> set (h # xs)"
  shows "dll (link_before tp (hd (dropWhile P xs @ [h])) s) h (insort_wrt P tp xs)"
  unfolding insort_wrt_def by (rule link_before_dll) (use assms in \<open>auto dest: set_takeWhileD set_dropWhileD\<close>)

lemma queue_prio_insert_dll:
  "dll s h xs \<Longrightarrow> tp \<notin> set (h # xs) \<Longrightarrow>
   \<exists>s'. queue_prio_insert tp h s = Some s' \<and>
        dll s' h (insort_wrt (\<lambda>y. nprio s y \<ge> nprio s tp) tp xs)"
  using prio_scan_dll [of s h "[]" xs tp] link_before_insort [of s h xs tp]
  by (simp add: queue_prio_insert_def)

lemma ready_insert_dll:
  "dll s h xs \<Longrightarrow> tp \<notin> set (h # xs) \<Longrightarrow> nprio s h < nprio s tp \<Longrightarrow>
   \<exists>s'. ready_insert tp h s = Some s' \<and>
        dll s' h (insort_wrt (\<lambda>y. nprio s y \<ge> nprio s tp) tp xs)"
  using ready_scan_dll [of s h "[]" xs tp] link_before_insort [of s h xs tp]
  by (simp add: ready_insert_def)

lemma ready_insert_ahead_dll:
  "dll s h xs \<Longrightarrow> tp \<notin> set (h # xs) \<Longrightarrow> nprio s h \<le> nprio s tp \<Longrightarrow>
   \<exists>s'. ready_insert_ahead tp h s = Some s' \<and>
        dll s' h (insort_wrt (\<lambda>y. nprio s y > nprio s tp) tp xs)"
  using ready_scan_ahead_dll [of s h "[]" xs tp] link_before_insort [of s h xs tp]
  by (simp add: ready_insert_ahead_def)


section \<open>The contract of a represented queue\<close>

text \<open>
  \<open>drain rm n s\<close> calls a removal \<open>n\<close> times and collects what it returned: the loops
  \<open>while (queue_notempty(tqp)) ... remove ...\<close> of the kernel.
\<close>

fun drain :: "('s \<Rightarrow> 'a \<times> 's) \<Rightarrow> nat \<Rightarrow> 's \<Rightarrow> 'a list \<times> 's" where
  "drain rm 0 s = ([], s)"
| "drain rm (Suc n) s =
     (case rm s of (x, s') \<Rightarrow> case drain rm n s' of (xs, s'') \<Rightarrow> (x # xs, s''))"

locale queue_rep =
  fixes rep :: "'s \<Rightarrow> 'h \<Rightarrow> 'a list \<Rightarrow> bool"
    and outside :: "'h \<Rightarrow> 'a \<Rightarrow> bool"
    and isempty :: "'h \<Rightarrow> 's \<Rightarrow> bool"
    and enq :: "'a \<Rightarrow> 'h \<Rightarrow> 's \<Rightarrow> 's"
    and deq_first :: "'h \<Rightarrow> 's \<Rightarrow> 'a \<times> 's"
    and deq_last :: "'h \<Rightarrow> 's \<Rightarrow> 'a \<times> 's"
    and unlink :: "'a \<Rightarrow> 's \<Rightarrow> 'a \<times> 's"
  assumes rep_distinct: "rep s h xs \<Longrightarrow> distinct xs"
    and rep_isempty: "rep s h xs \<Longrightarrow> isempty h s \<longleftrightarrow> xs = []"
    and rep_enq: "rep s h xs \<Longrightarrow> outside h x \<Longrightarrow> x \<notin> set xs \<Longrightarrow> rep (enq x h s) h (xs @ [x])"
    and rep_deq_first: "rep s h (x # xs) \<Longrightarrow> \<exists>s'. deq_first h s = (x, s') \<and> rep s' h xs"
    and rep_deq_last: "rep s h (xs @ [x]) \<Longrightarrow> \<exists>s'. deq_last h s = (x, s') \<and> rep s' h xs"
    and rep_unlink: "rep s h (as @ x # bs) \<Longrightarrow> \<exists>s'. unlink x s = (x, s') \<and> rep s' h (as @ bs)"
begin

lemma drain_first:
  "rep s h xs \<Longrightarrow> \<exists>s'. drain (deq_first h) (length xs) s = (xs, s') \<and> isempty h s'"
proof (induction xs arbitrary: s)
  case Nil
  then show ?case by (simp add: rep_isempty)
next
  case (Cons x xs)
  obtain s1 where s1: "deq_first h s = (x, s1)" "rep s1 h xs"
    using rep_deq_first [OF Cons.prems] by blast
  from Cons.IH [OF s1(2)] show ?case by (auto simp: s1(1))
qed

lemma drain_last:
  "rep s h xs \<Longrightarrow> \<exists>s'. drain (deq_last h) (length xs) s = (rev xs, s') \<and> isempty h s'"
proof (induction xs arbitrary: s rule: rev_induct)
  case Nil
  then show ?case by (simp add: rep_isempty)
next
  case (snoc x xs)
  obtain s1 where s1: "deq_last h s = (x, s1)" "rep s1 h xs"
    using rep_deq_last [OF snoc.prems] by blast
  from snoc.IH [OF s1(2)] show ?case by (auto simp: s1(1))
qed

lemma enq_unlink:
  assumes "rep s h xs" and "outside h x" and "x \<notin> set xs"
  shows "\<exists>s'. unlink x (enq x h s) = (x, s') \<and> rep s' h xs"
  using rep_unlink [of "enq x h s" h xs x "[]"] rep_enq [OF assms] by simp

end

interpretation tq: queue_rep dll "\<lambda>h x. x \<noteq> h" queue_isempty queue_insert
  queue_fifo_remove queue_lifo_remove queue_dequeue
proof unfold_locales
  fix s h xs x as bs
  show "dll s h xs \<Longrightarrow> distinct xs" by (simp add: dll_def)
  show "dll s h xs \<Longrightarrow> queue_isempty h s = (xs = [])" by (rule queue_isempty_dll)
  show "dll s h xs \<Longrightarrow> x \<noteq> h \<Longrightarrow> x \<notin> set xs \<Longrightarrow> dll (queue_insert x h s) h (xs @ [x])"
    by (rule queue_insert_dll) auto
  show "dll s h (x # xs) \<Longrightarrow> \<exists>s'. queue_fifo_remove h s = (x, s') \<and> dll s' h xs"
    using queue_fifo_remove_dll [of s h x xs] by (metis prod.collapse)
  show "dll s h (xs @ [x]) \<Longrightarrow> \<exists>s'. queue_lifo_remove h s = (x, s') \<and> dll s' h xs"
    using queue_lifo_remove_dll [of s h xs x] by (metis prod.collapse)
  show "dll s h (as @ x # bs) \<Longrightarrow> \<exists>s'. queue_dequeue x s = (x, s') \<and> dll s' h (as @ bs)"
    using queue_dequeue_dll [of s h as x bs] by (metis prod.collapse)
qed

lemma dll_frame_insort:
  assumes "dll s h xs" and "tp \<notin> set (h # xs)"
    and "dll s g ys" and "set (g # ys) \<inter> set (tp # h # xs) = {}"
  shows "dll (link_before tp (hd (dropWhile P xs @ [h])) s) g ys"
proof (rule dll_frame [OF assms(3)])
  fix a assume "a \<in> set (g # ys)"
  then have "a \<notin> set (tp # h # xs)" using assms(4) by blast
  then show "nxt (link_before tp (hd (dropWhile P xs @ [h])) s) a = nxt s a \<and>
             prv (link_before tp (hd (dropWhile P xs @ [h])) s) a = prv s a"
    using link_before_other [of s h "takeWhile P xs" "dropWhile P xs" tp a] assms(1,2) by simp
qed

section \<open>Properties\<close>

definition prio_sorted :: "links \<Rightarrow> ptr list \<Rightarrow> bool" where
  "prio_sorted s xs = sorted_wrt (\<lambda>a b. nprio s a \<ge> nprio s b) xs"

text \<open>
  C31: on a represented, priority-sorted queue the pointer code of \<open>queue_prio_insert\<close>
  terminates, links the thread behind every thread of higher or equal priority and in front
  of every thread of lower priority, keeps the circle closed and the queue sorted, and
  leaves every other queue of the system exactly as it was.
\<close>

theorem queue_prio_insert_refines:
  assumes "dll s h xs" and "tp \<notin> set (h # xs)" and "prio_sorted s xs"
  shows "\<exists>s' as bs. queue_prio_insert tp h s = Some s' \<and> xs = as @ bs \<and> dll s' h (as @ tp # bs)
    \<and> (\<forall>a\<in>set as. nprio s a \<ge> nprio s tp) \<and> (\<forall>b\<in>set bs. nprio s b < nprio s tp)
    \<and> prio_sorted s' (as @ tp # bs)
    \<and> (\<forall>g ys. dll s g ys \<and> set (g # ys) \<inter> set (tp # h # xs) = {} \<longrightarrow> dll s' g ys)"
proof -
  let ?P = "\<lambda>y. nprio s y \<ge> nprio s tp"
  let ?s = "link_before tp (hd (dropWhile ?P xs @ [h])) s"
  have scan: "queue_prio_insert tp h s = Some ?s"
    using prio_scan_dll [of s h "[]" xs tp] assms(1) by (simp add: queue_prio_insert_def)
  have low: "\<forall>b\<in>set (dropWhile ?P xs). nprio s b < nprio s tp"
  proof (cases "dropWhile ?P xs")
    case (Cons c cs)
    have "nprio s c < nprio s tp" using dropWhile_mono_last [OF Cons] by simp
    moreover have "sorted_wrt (\<lambda>a b. nprio s a \<ge> nprio s b) (c # cs)"
      using assms(3) unfolding prio_sorted_def Cons [symmetric]
      by (metis sorted_wrt_append takeWhile_dropWhile_id)
    ultimately show ?thesis unfolding Cons by (auto intro: le_less_trans)
  next
    case Nil
    show ?thesis unfolding Nil by simp
  qed
  have "prio_sorted ?s (insort_wrt ?P tp xs)"
    using sorted_wrt_insort_ge(1) [of "nprio s" xs tp] assms(3)
    by (simp add: prio_sorted_def link_before_def Let_def)
  then show ?thesis
    using scan low link_before_insort [OF assms(1,2), of ?P] dll_frame_insort [OF assms(1,2), of _ _ ?P]
    by (intro exI [of _ ?s] exI [of _ "takeWhile ?P xs"] exI [of _ "dropWhile ?P xs"])
      (auto simp: insort_wrt_def dest: set_takeWhileD)
qed

definition demo_links :: links where
  "demo_links = \<lparr>nxt = (\<lambda>_. 0)(1 := 2, 2 := 1), prv = (\<lambda>_. 0)(1 := 2, 2 := 1),
                 nprio = (\<lambda>_. 0)(2 := 5, 3 := 7)\<rparr>"

theorem queue_prio_insert_refines_witness:
  "dll demo_links 1 [2] \<and>
   (\<exists>s' as bs. queue_prio_insert 3 1 demo_links = Some s' \<and> [2] = as @ bs \<and> dll s' 1 (as @ 3 # bs))"
proof -
  have "dll demo_links 1 [2]" "3 \<notin> set [1, 2 :: ptr]" "prio_sorted demo_links [2]"
    by (simp_all add: dll_def demo_links_def prio_sorted_def)
  from this(1) queue_prio_insert_refines [OF this] show ?thesis by blast
qed

text \<open>
  Removing threads from the front until the queue is empty returns them in queue order,
  removing them from the back returns them in the opposite order; in both cases every
  queued thread is returned exactly once.
\<close>

theorem queue_drain_order:
  assumes "dll s h xs"
  shows "\<exists>s1 s2. drain (queue_fifo_remove h) (length xs) s = (xs, s1) \<and> queue_isempty h s1 \<and>
                 drain (queue_lifo_remove h) (length xs) s = (rev xs, s2) \<and> queue_isempty h s2"
  using tq.drain_first [OF assms] tq.drain_last [OF assms] by blast

theorem queue_drain_order_witness:
  "dll demo_links 1 [2] \<and> fst (drain (queue_fifo_remove 1) 1 demo_links) = [2]"
proof -
  have h: "dll demo_links 1 [2]" by (simp add: dll_def demo_links_def)
  with queue_drain_order [OF h] show ?thesis by auto
qed

end
