(* ===== verification/SysInit.thy ===== *)
theory SysInit
  imports Factory TimeMeasure TQueues
begin

text \<open>
  The system layer (\<open>os/rt/src/chsys.c\<close>): start-up of the kernel, the integrity check of its lists, the tick handler, nested locking by status,
  and the polled delay. The addresses that the linker chooses (the main thread in \<open>ch\<close>, the factory, the default heap, the core memory, the
  working area of the idle thread) are the record \<open>linker\<close>; the set-up of the hardware (\<open>port_init\<close>) is not part of the state. \<open>chSysHalt\<close> is the result
  \<open>Halt\<close> of every operation.
\<close>

section \<open>Start-up\<close>

record linker =
  lk_main :: ptr
  lk_fac :: ptr
  lk_dheap :: ptr
  lk_heap_base :: ptr
  lk_heap_end :: ptr
  lk_idle_base :: ptr
  lk_idle_end :: ptr
  lk_idle_thread :: ptr

definition oslib_init :: "linker \<Rightarrow> factorysys \<Rightarrow> factorysys kres" where
  "oslib_init lk s =
     (let s = s\<lparr>fs_ps := set_core (core_init (lk_heap_base lk) (lk_heap_end lk)) (fs_ps s)\<rparr>
      in kbind (heap_init (lk_dheap lk) (ps_hs (fs_ps s))) (\<lambda>hs.
         factory_init (lk_fac lk) (s\<lparr>fs_ps := (fs_ps s)\<lparr>ps_hs := hs\<rparr>\<rparr>)))"

definition main_thread :: "ptr \<Rightarrow> kernel \<Rightarrow> kernel" where
  "main_thread tp k =
     (let k = (thread_init tp ''main'' NORMALPRIO k)\<lparr>currp := tp\<rparr>;
          k = upd_th tp (t_wabase_update (\<lambda>_. NULL)) k
      in set_state CH_STATE_CURRENT tp k)"

definition idle_descriptor :: "linker \<Rightarrow> thread_descriptor" where
  "idle_descriptor lk = \<lparr>td_name = ''idle'', td_wbase = lk_idle_base lk, td_wend = lk_idle_end lk, td_prio = IDLEPRIO,
     td_funcp = lk_idle_thread lk, td_arg = NULL\<rparr>"

text \<open>The result is the calibration of the time measurements (\<open>_tm_init\<close>), from the readings \<open>rt\<close> of the cycle counter.\<close>

definition chSysInit :: "port_cfg \<Rightarrow> linker \<Rightarrow> (nat \<Rightarrow> u32) \<Rightarrow> factorysys \<Rightarrow> (u32 \<times> factorysys) kres" where
  "chSysInit pc lk rt s =
     kbind (oslib_init lk (fs_set_k (vt_init (scheduler_init (fs_k s))) s)) (\<lambda>s.
     let k = (fs_k s)\<lparr>isr_cnt := 0, lock_cnt := 0\<rparr>;
         offset = tm_init rt;
         k = main_thread (lk_main lk) k
     in kbind (dbg_check_enable k) (\<lambda>k.
        kbind (chThdCreate pc (idle_descriptor lk) k) (\<lambda>(_, k). Ok (offset, fs_set_k k s))))"

section \<open>Services\<close>

definition chSysTimerHandlerI :: "nat \<Rightarrow> (vtfunc \<Rightarrow> ptr \<Rightarrow> kernel \<Rightarrow> kernel kres) \<Rightarrow> kernel \<Rightarrow> kernel kres" where
  "chSysTimerHandlerI fuel cb k = chDbgCheckClassI k (chVTDoTickI fuel cb k)"

text \<open>
  The interrupt mask is raised exactly while the kernel lock is held (\<open>port_lock\<close>, \<open>port_unlock\<close>), so that the saved status is whether
  the lock was held.
\<close>

definition chSysGetStatusAndLockX :: "kernel \<Rightarrow> (bool \<times> kernel) kres" where
  "chSysGetStatusAndLockX k =
     (let sts = (lock_cnt k \<noteq> 0)
      in kbind (if \<not> sts then (if isr_cnt k > 0 then chSysLockFromISR k else chSysLock k) else Ok k) (\<lambda>k. Ok (sts, k)))"

definition chSysRestoreStatusX :: "bool \<Rightarrow> kernel \<Rightarrow> kernel kres" where
  "chSysRestoreStatusX sts k =
     (if \<not> sts
      then if isr_cnt k > 0 then chSysUnlockFromISR k else kbind (chSchRescheduleS k) chSysUnlock
      else Ok k)"

text \<open>The delay loop, which reads the cycle counter in each turn.\<close>

fun polled_loop :: "nat \<Rightarrow> (nat \<Rightarrow> u32) \<Rightarrow> u32 \<Rightarrow> u32 \<Rightarrow> nat \<Rightarrow> nat kres" where
  "polled_loop turns rt start end' i =
     (if chSysIsCounterWithinX (rt i) start end'
      then case turns of 0 \<Rightarrow> Diverge | Suc turns \<Rightarrow> polled_loop turns rt start end' (Suc i)
      else Ok i)"

declare polled_loop.simps [simp del]

definition chSysPolledDelayX :: "nat \<Rightarrow> (nat \<Rightarrow> u32) \<Rightarrow> u32 \<Rightarrow> nat kres" where
  "chSysPolledDelayX turns rt cycles = polled_loop turns rt (rt 0) (rt 0 + cycles) 1"

section \<open>The integrity check\<close>

definition CH_INTEGRITY_RLIST :: u32 where "CH_INTEGRITY_RLIST = 1"
definition CH_INTEGRITY_VTLIST :: u32 where "CH_INTEGRITY_VTLIST = 2"
definition CH_INTEGRITY_REGISTRY :: u32 where "CH_INTEGRITY_REGISTRY = 4"

text \<open>A list is walked along one of its links, with the counter going up or down.\<close>

fun scan_links :: "nat \<Rightarrow> (ptr \<Rightarrow> ptr) \<Rightarrow> u32 \<Rightarrow> ptr \<Rightarrow> ptr \<Rightarrow> u32 \<Rightarrow> u32 kres" where
  "scan_links turns link inc hdr tp n =
     (if tp = hdr then Ok n
      else case turns of 0 \<Rightarrow> Diverge | Suc turns \<Rightarrow> scan_links turns link inc hdr (link tp) (n + inc))"

declare scan_links.simps [simp del]

definition list_broken :: "links \<Rightarrow> ptr \<Rightarrow> bool kres" where
  "list_broken l hdr =
     kbind (scan_links max_turns (nxt l) 1 hdr (nxt l hdr) 0) (\<lambda>n.
     kbind (scan_links max_turns (prv l) (-1) hdr (prv l hdr) n) (\<lambda>n. Ok (n \<noteq> 0)))"

text \<open>The three lists are given by their link fields and the addresses of their headers.\<close>

definition chSysIntegrityCheckI :: "u32 \<Rightarrow> links \<times> ptr \<Rightarrow> links \<times> ptr \<Rightarrow> links \<times> ptr \<Rightarrow> kernel \<Rightarrow> bool kres" where
  "chSysIntegrityCheckI testmask rlist vtlist reglist k =
     chDbgCheckClassI k (
     kbind (if testmask AND CH_INTEGRITY_RLIST \<noteq> 0 then list_broken (fst rlist) (snd rlist) else Ok False) (\<lambda>b.
     if b then Ok True else
     kbind (if testmask AND CH_INTEGRITY_VTLIST \<noteq> 0 then list_broken (fst vtlist) (snd vtlist) else Ok False) (\<lambda>b.
     if b then Ok True else
     if testmask AND CH_INTEGRITY_REGISTRY \<noteq> 0 then list_broken (fst reglist) (snd reglist) else Ok False)))"

section \<open>The state after start-up\<close>

lemma chThdCreate_eq:
  assumes "running k" and "reg_ok k" and "\<forall>x\<in>set (registry k). t_wabase (threads k x) \<noteq> td_wbase td"
    and "MEM_IS_ALIGNED (td_wbase td) (pc_wa_align pc)" and "MEM_IS_ALIGNED (td_wend td) (pc_stack_align pc)"
    and "td_wend td > td_wbase td" and "td_wend td - td_wbase td \<ge> pc_wa_min pc" and "0 < td_prio td" and "td_prio td \<le> HIGHPRIO" and "td_funcp td \<noteq> NULL"
    and "fresh (td_wend td - pc_thread_size pc) k"
  shows "chThdCreate pc td k =
    Ok (td_wend td - pc_thread_size pc, new_thread (td_wbase td) (td_wend td - pc_thread_size pc) (td_name td) (td_prio td) k)"
proof -
  let ?tp = "td_wend td - pc_thread_size pc"
  note n = new_thread_ok [OF assms(1,11,8), of "td_wbase td" "td_name td"]
  have "wa_free ''chThdCreate'' (td_wbase td) k = Ok k" by (rule wa_free_ok [OF assms(1-3)])
  moreover have "i_ctx (k\<lparr>lock_cnt := 1\<rparr>)" using assms(1) by simp
  ultimately show ?thesis
    using running_lock(1) [OF assms(1)] n(1,2) assms(4-10) by (simp add: chThdCreate_def chThdCreateSuspendedI_def Let_def flip: spawn_def)
qed

text \<open>Memory that is cleared at reset: no thread, every list empty. The time counter may have any readings.\<close>

definition cleared :: "kernel \<Rightarrow> bool" where
  "cleared k \<longleftrightarrow> (\<exists>c. k = kernel_reset\<lparr>st_clock := c\<rparr>)"

definition booted :: "ptr \<Rightarrow> kernel \<Rightarrow> bool" where
  "booted main k \<longleftrightarrow> threads k = (\<lambda>_. no_thread)(main := no_thread\<lparr>t_prio := NORMALPRIO, t_state := CH_STATE_CURRENT, t_flags := CH_FLAG_MODE_STATIC,
       t_realprio := NORMALPRIO, t_refs := 1, t_name := ''main''\<rparr>) \<and>
     queues k = (\<lambda>_. []) \<and> currp k = main \<and> registry k = [main] \<and> isr_cnt k = 0 \<and> lock_cnt k = 0 \<and>
     (\<forall>m. mtx_owner k m = NULL) \<and> vt_list k = [] \<and> vt_alarm k = None \<and> vt_func k = (\<lambda>_. VT_NULL)"

lemma booted_running:
  assumes "booted main k" and "main \<noteq> NULL"
  shows "running k" and "reg_ok k"
proof -
  have s: "state_of k t = (if t = main then CH_STATE_CURRENT else CH_STATE_FINAL)" for t using assms(1) by (simp add: booted_def no_thread_def)
  have "sched_inv k" unfolding sched_inv_def using assms s by (simp add: booted_def NORMALPRIO_def no_thread_def)
  then show "running k" using assms(1) by (simp add: running_def sched_ok_def sched_order_def thread_idle_ctx_def booted_def)
  show "reg_ok k" using assms by (simp add: reg_ok_def booted_def)
qed

text \<open>The kernel state that the initialisers leave before the main thread is set up.\<close>

lemma oslib_init_ok:
  assumes "cleared (fs_k s)" and "heap_outside lo hi (lk_dheap lk)" and "lk_dheap lk \<noteq> NULL" and "lk_fac lk \<noteq> NULL"
    and "f_obj_pool (lk_fac lk) \<noteq> NULL" and "f_sem_pool (lk_fac lk) \<noteq> NULL"
    and "\<forall>f\<in>{f_obj_list, f_buf_list, f_sem_list, f_mbx_list, f_fifo_list, f_pipe_list}. f (lk_fac lk) \<notin> {heap_header (lk_dheap lk), heap_header (lk_dheap lk) + 4}"
  shows "\<exists>s1. oslib_init lk (fs_set_k (vt_init (scheduler_init (fs_k s))) s) = Ok s1 \<and>
    booted (lk_main lk) (main_thread (lk_main lk) ((fs_k s1)\<lparr>isr_cnt := 0, lock_cnt := 0\<rparr>)) \<and>
    fs_mem s1 (heap_header (lk_dheap lk)) = NULL \<and> fs_mem s1 (heap_header (lk_dheap lk) + 4) = 0 \<and>
    hprov (ps_hs (fs_ps s1)) (lk_dheap lk) = chCoreAllocAlignedWithOffset \<and> hcore (ps_hs (fs_ps s1)) = core_init (lk_heap_base lk) (lk_heap_end lk) \<and>
    (\<exists>s0. factory_init (lk_fac lk) s0 = Ok s1 \<and> hcore (ps_hs (fs_ps s0)) = core_init (lk_heap_base lk) (lk_heap_end lk))"
proof -
  obtain c where c: "fs_k s = kernel_reset\<lparr>st_clock := c\<rparr>" using assms(1) by (auto simp: cleared_def)
  let ?fac = "lk_fac lk" let ?h = "heap_mtx (lk_dheap lk)" let ?cm = "core_init (lk_heap_base lk) (lk_heap_end lk)"
  have h: "?h \<noteq> NULL"
  proof -
    have "unat ?h = unat (lk_dheap lk) + 12" using unat_field [of "lk_dheap lk" 12] assms(2) by (simp add: heap_mtx_def heap_outside_def)
    then show ?thesis by auto
  qed
  let ?k0 = "vt_init (scheduler_init (fs_k s))"
  let ?m0 = "(fs_mem s)(heap_header (lk_dheap lk) := NULL, heap_header (lk_dheap lk) + 4 := 0)"
  let ?hs = "(ps_hs (set_core ?cm (fs_ps (fs_set_k ?k0 s))))\<lparr>hprov := (hprov (ps_hs (fs_ps s)))(lk_dheap lk := chCoreAllocAlignedWithOffset), hmem := ?m0,
    hk := upd_mtx ?h (m_owner_update (\<lambda>_. NULL)) (upd_q (TQ ?h) (\<lambda>_. []) ?k0)\<rparr>"
  let ?s0 = "(fs_set_k ?k0 s)\<lparr>fs_ps := (set_core ?cm (fs_ps (fs_set_k ?k0 s)))\<lparr>ps_hs := ?hs\<rparr>\<rparr>"
  have heap: "heap_init (lk_dheap lk) (ps_hs (set_core ?cm (fs_ps (fs_set_k ?k0 s)))) = Ok ?hs"
    using h by (simp add: heap_init_def chMtxObjectInit_def set_core_def fs_set_k_def set_k_def Let_def)
  let ?k1 = "upd_mtx ?fac (m_owner_update (\<lambda>_. NULL)) (upd_q (TQ ?fac) (\<lambda>_. []) (hk ?hs))"
  have "\<exists>s1. factory_init ?fac ?s0 = Ok s1 \<and> fs_k s1 = ?k1 \<and> hcore (ps_hs (fs_ps s1)) = ?cm \<and> hprov (ps_hs (fs_ps s1)) = hprov ?hs \<and>
      fs_mem s1 = ?m0(f_obj_list ?fac := f_obj_list ?fac, f_buf_list ?fac := f_buf_list ?fac, f_sem_list ?fac := f_sem_list ?fac,
        f_mbx_list ?fac := f_mbx_list ?fac, f_fifo_list ?fac := f_fifo_list ?fac, f_pipe_list ?fac := f_pipe_list ?fac)"
    using assms(4-6) by (simp add: factory_init_def chMtxObjectInit_def chPoolObjectInit_def chPoolObjectInitAligned_def dyn_list_init_def Let_def
      PORT_NATURAL_ALIGN_def MEM_IS_VALID_ALIGNMENT_def fs_set_mem_def fs_set_k_def set_k_def set_core_def upd_pool_def)
  then obtain s1 where s1: "factory_init ?fac ?s0 = Ok s1" "fs_k s1 = ?k1" "hcore (ps_hs (fs_ps s1)) = ?cm" "hprov (ps_hs (fs_ps s1)) = hprov ?hs"
      "fs_mem s1 = ?m0(f_obj_list ?fac := f_obj_list ?fac, f_buf_list ?fac := f_buf_list ?fac, f_sem_list ?fac := f_sem_list ?fac,
        f_mbx_list ?fac := f_mbx_list ?fac, f_fifo_list ?fac := f_fifo_list ?fac, f_pipe_list ?fac := f_pipe_list ?fac)" by blast
  have "oslib_init lk (fs_set_k ?k0 s) = Ok s1" using heap s1(1) by (simp add: oslib_init_def Let_def)
  moreover have "booted (lk_main lk) (main_thread (lk_main lk) ((fs_k s1)\<lparr>isr_cnt := 0, lock_cnt := 0\<rparr>))"
    using c by (simp add: s1(2) booted_def main_thread_def thread_init_def reg_insert_def vt_init_def scheduler_init_def kernel_reset_def no_thread_def Let_def
      mtx_owner_def upd_mtx_def upd_q_def upd_th_def fun_upd_def fun_eq_iff)
  moreover have "fs_mem s1 (heap_header (lk_dheap lk)) = NULL" "fs_mem s1 (heap_header (lk_dheap lk) + 4) = 0" using assms(7) by (auto simp: s1(5))
  moreover have "hcore (ps_hs (fs_ps ?s0)) = ?cm" by (simp add: set_core_def)
  ultimately show ?thesis using s1(1,3,4) by auto
qed

text \<open>
  What the linker guarantees: the variables of the kernel are apart from each other and from the core memory (pages \<open>lo\<close> to \<open>hi\<close>), and
  the working area of the idle thread is aligned and large enough.
\<close>

definition layout :: "nat \<Rightarrow> nat \<Rightarrow> port_cfg \<Rightarrow> linker \<Rightarrow> bool" where
  "layout lo hi pc lk \<longleftrightarrow>
     lk_main lk \<noteq> NULL \<and> heap_outside lo hi (lk_dheap lk) \<and> lk_dheap lk \<noteq> NULL \<and>
     lk_fac lk \<noteq> NULL \<and> f_obj_pool (lk_fac lk) \<noteq> NULL \<and> f_sem_pool (lk_fac lk) \<noteq> NULL \<and>
     (\<forall>f\<in>{f_obj_list, f_buf_list, f_sem_list, f_mbx_list, f_fifo_list, f_pipe_list}. f (lk_fac lk) \<notin> {heap_header (lk_dheap lk), heap_header (lk_dheap lk) + 4}) \<and>
     0 < lk_heap_base lk \<and> lk_heap_base lk \<le> lk_heap_end lk \<and> 8 * lo \<le> unat (lk_heap_base lk) \<and> unat (lk_heap_end lk) \<le> 8 * hi \<and>
     (f_obj_list (lk_fac lk) < lk_heap_base lk \<or> lk_heap_end lk \<le> f_obj_list (lk_fac lk)) \<and>
     lk_idle_base lk \<noteq> NULL \<and> lk_idle_thread lk \<noteq> NULL \<and>
     MEM_IS_ALIGNED (lk_idle_base lk) (pc_wa_align pc) \<and> MEM_IS_ALIGNED (lk_idle_end lk) (pc_stack_align pc) \<and>
     lk_idle_base lk < lk_idle_end lk \<and> pc_wa_min pc \<le> lk_idle_end lk - lk_idle_base lk \<and>
     lk_idle_end lk - pc_thread_size pc \<notin> {NULL, lk_main lk}"

abbreviation idle_tp :: "port_cfg \<Rightarrow> linker \<Rightarrow> ptr" where
  "idle_tp pc lk \<equiv> lk_idle_end lk - pc_thread_size pc"

lemma idle_created:
  assumes "booted (lk_main lk) k" and "layout lo hi pc lk"
  shows "\<exists>k'. chThdCreate pc (idle_descriptor lk) k = Ok (idle_tp pc lk, k') \<and> running k' \<and> reg_ok k' \<and> currp k' = lk_main lk \<and>
    queues k' = (\<lambda>_. [])(RLIST := [idle_tp pc lk]) \<and> registry k' = [lk_main lk, idle_tp pc lk] \<and>
    (\<forall>m. mtx_owner k' m = NULL) \<and> vt_inv k' \<and> vt_list k' = [] \<and> prio_of k' (lk_main lk) = NORMALPRIO \<and> prio_of k' (idle_tp pc lk) = IDLEPRIO"
proof -
  let ?tp = "idle_tp pc lk" let ?k' = "new_thread (lk_idle_base lk) ?tp ''idle'' IDLEPRIO k"
  have m: "lk_main lk \<noteq> NULL" "?tp \<noteq> lk_main lk" "lk_main lk \<noteq> ?tp" "lk_idle_end lk \<noteq> pc_thread_size pc" using assms(2) by (auto simp: layout_def)
  note r = booted_running [OF assms(1) m(1)]
  have f: "fresh ?tp k" using assms by (auto simp: fresh_def booted_def no_thread_def layout_def)
  have "chThdCreate pc (idle_descriptor lk) k = Ok (?tp, ?k')"
    using chThdCreate_eq [OF r, of "idle_descriptor lk" pc] assms f
    by (auto simp: idle_descriptor_def layout_def booted_def no_thread_def IDLEPRIO_def HIGHPRIO_def)
  moreover have "running ?k'" using new_thread_ok(3) [OF r(1) f] by (simp add: IDLEPRIO_def)
  moreover have "reg_ok ?k'" "currp ?k' = lk_main lk" "queues ?k' = (\<lambda>_. [])(RLIST := [?tp])" "registry ?k' = [lk_main lk, ?tp]"
      "\<forall>m. mtx_owner ?k' m = NULL" "vt_inv ?k'" "vt_list ?k' = []" "prio_of ?k' (lk_main lk) = NORMALPRIO" "prio_of ?k' ?tp = IDLEPRIO"
    using assms(1) m by (simp_all add: new_thread_def wake_def spawn_def thread_init_def reg_insert_def ready_behind_def booted_def reg_ok_def
        IDLEPRIO_def NORMALPRIO_def no_thread_def mtx_owner_def vt_inv_def fun_eq_iff)
  ultimately show ?thesis by blast
qed


section \<open>Integrity, nested locks and delays\<close>

lemma scan_links_count:
  "schain s (a # xs @ [h]) \<Longrightarrow> h \<notin> set xs \<Longrightarrow> length xs \<le> turns \<Longrightarrow>
   scan_links turns (nxt s) inc h (nxt s a) n = Ok (n + of_nat (length xs) * inc)"
proof (induction xs arbitrary: a turns n)
  case Nil
  then show ?case by (subst scan_links.simps) simp
next
  case (Cons x xs)
  then obtain t where t: "turns = Suc t" by (cases turns) auto
  have "nxt s a = x" "x \<noteq> h" "schain s (x # xs @ [h])" using Cons.prems by auto
  then show ?case using Cons.IH [of x t "n + inc"] Cons.prems t by (subst scan_links.simps) (simp add: algebra_simps)
qed

lemma circle_short:
  assumes "distinct ((h :: ptr) # xs)"
  shows "length xs < 2 ^ 32"
  using length_ptrs [OF assms] by simp

text \<open>The forward links lead round the circle through the nodes \<open>xs\<close>, the backward links through \<open>ys\<close>.\<close>

definition two_way :: "links \<Rightarrow> ptr \<Rightarrow> ptr list \<Rightarrow> ptr list \<Rightarrow> bool" where
  "two_way l h xs ys \<longleftrightarrow> distinct (h # xs) \<and> schain l (h # xs @ [h]) \<and> distinct (h # ys) \<and> schain (l\<lparr>nxt := prv l\<rparr>) (h # ys @ [h])"

lemma chain_schain: "chain l xs \<Longrightarrow> schain l xs"
  by (induction xs rule: chain.induct) auto

lemma schain_snoc: "schain l (xs @ [a, b]) \<longleftrightarrow> schain l (xs @ [a]) \<and> nxt l a = b"
proof (induction xs)
  case (Cons x xs)
  then show ?case by (cases xs) auto
qed simp

lemma chain_back: "chain l xs \<Longrightarrow> schain (l\<lparr>nxt := prv l\<rparr>) (rev xs)"
proof (induction xs)
  case (Cons a xs)
  then show ?case using schain_snoc [of "l\<lparr>nxt := prv l\<rparr>" "rev (tl xs)" "hd xs" a] by (cases xs) simp_all
qed simp

lemma dll_two_way:
  assumes "dll l h xs"
  shows "two_way l h xs (rev xs)"
proof -
  have c: "chain l (h # xs @ [h])" "distinct (h # xs)" using assms by (simp_all add: dll_def)
  show ?thesis using c(2) chain_schain [OF c(1)] chain_back [OF c(1)] by (auto simp: two_way_def)
qed

lemma list_broken_iff:
  assumes "two_way l h xs ys"
  shows "list_broken l h = Ok (length xs \<noteq> length ys)"
proof -
  have a: "distinct (h # xs)" "schain l (h # xs @ [h])" "distinct (h # ys)" "schain (l\<lparr>nxt := prv l\<rparr>) (h # ys @ [h])"
    using assms by (simp_all add: two_way_def)
  have n: "length xs < 2 ^ 32" "length ys < 2 ^ 32" using circle_short a(1,3) by auto
  have f: "scan_links max_turns (nxt l) 1 h (nxt l h) 0 = Ok (of_nat (length xs))"
    using scan_links_count [OF a(2), of max_turns 1 0] a(1) n by (simp add: max_turns_def)
  have b: "scan_links max_turns (prv l) (-1) h (prv l h) m = Ok (m - of_nat (length ys))" for m
    using scan_links_count [OF a(4), of max_turns "-1" m] a(3) n by (simp add: max_turns_def)
  have "((of_nat (length xs) :: u32) = of_nat (length ys)) = (length xs = length ys)"
    using unat_of_nat32 [OF n(1)] unat_of_nat32 [OF n(2)] by metis
  then show ?thesis unfolding list_broken_def using f b by simp
qed

text \<open>
  The integrity check compares, for each list that the mask selects, the numbers of elements that the two directions show; both scans end, and the answer is
  that something is broken exactly if they differ in a selected list. A list in the form that the queue operations keep (\<open>dll\<close>) shows
  the same elements in both directions, so it passes (\<open>dll_two_way\<close>).
\<close>

theorem chSysIntegrityCheckI_iff:
  assumes "i_ctx k" and "two_way rl rh ra rb" and "two_way vl vh va vb" and "two_way gl gh ga gb"
  shows "chSysIntegrityCheckI tests (rl, rh) (vl, vh) (gl, gh) k =
    Ok (tests AND CH_INTEGRITY_RLIST \<noteq> 0 \<and> length ra \<noteq> length rb \<or> tests AND CH_INTEGRITY_VTLIST \<noteq> 0 \<and> length va \<noteq> length vb \<or>
        tests AND CH_INTEGRITY_REGISTRY \<noteq> 0 \<and> length ga \<noteq> length gb)"
  using assms(1) list_broken_iff [OF assms(2)] list_broken_iff [OF assms(3)] list_broken_iff [OF assms(4)] by (auto simp: chSysIntegrityCheckI_def)

text \<open>
  Nested locking. From any consistent context, \<open>chSysGetStatusAndLockX\<close> enters the critical zone and \<open>chSysRestoreStatusX\<close> with the status it returned gives
  back the state as it was: unlocked in a thread or an interrupt handler, or still locked.
\<close>

theorem status_roundtrip:
  assumes "running k \<or> isr_cnt k > 0 \<and> lock_cnt k = 0 \<or> i_ctx k"
  shows "\<exists>sts k1. chSysGetStatusAndLockX k = Ok (sts, k1) \<and> i_ctx k1 \<and> sts = i_ctx k \<and> chSysRestoreStatusX sts k1 = Ok k"
proof -
  consider (thread) "running k" | (isr) "isr_cnt k > 0" "lock_cnt k = 0" | (locked) "i_ctx k" using assms by blast
  then show ?thesis
  proof cases
    case thread
    let ?k1 = "k\<lparr>lock_cnt := 1\<rparr>"
    have c: "isr_cnt k = 0" "lock_cnt k = 0" "sched_ok k" using thread by (simp_all add: running_def thread_idle_ctx_def)
    have "chSchRescheduleS ?k1 = Ok ?k1" using chSchRescheduleS_eq [of ?k1] resched_same [of ?k1] c by (simp add: sched_ok_def thd_ctx_def)
    then have "chSysRestoreStatusX False ?k1 = Ok k" using c sched_order_hd [of k]
      by (simp add: chSysRestoreStatusX_def chSysUnlock_def dbg_check_unlock_def sched_ok_def)
    then show ?thesis using c running_lock(1) [OF thread] by (intro exI [of _ False] exI [of _ ?k1]) (simp add: chSysGetStatusAndLockX_def i_ctx_def)
  next
    case isr
    then show ?thesis by (intro exI [of _ False]) (simp add: chSysGetStatusAndLockX_def chSysRestoreStatusX_def i_ctx_def sys_defs dbg_defs)
  next
    case locked
    then show ?thesis by (intro exI [of _ True]) (simp add: chSysGetStatusAndLockX_def chSysRestoreStatusX_def i_ctx_def)
  qed
qed

text \<open>The polled delay ends with the first reading that is at least \<open>cycles\<close> behind the start, also across a wrap of the counter.\<close>

lemma polled_delay_ends:
  assumes "rt n - rt 0 \<ge> cycles" and "\<forall>j\<in>{1..<n}. rt j - rt 0 < cycles" and "0 < n" and "n \<le> Suc turns"
  shows "chSysPolledDelayX turns rt cycles = Ok n"
proof -
  have "polled_loop t rt (rt 0) (rt 0 + cycles) i = Ok n" if "1 \<le> i" "i \<le> n" "n \<le> i + t" for t i
    using that
  proof (induction t arbitrary: i)
    case 0
    then have "i = n" by simp
    then show ?case using assms(1) by (subst polled_loop.simps) (simp add: chSysIsCounterWithinX_def leD)
  next
    case (Suc t)
    show ?case
    proof (cases "i = n")
      case True
      then show ?thesis using assms(1) by (subst polled_loop.simps) (simp add: chSysIsCounterWithinX_def leD)
    next
      case False
      then have "rt i - rt 0 < cycles" using assms(2) Suc.prems by simp
      then show ?thesis using Suc False by (subst polled_loop.simps) (simp add: chSysIsCounterWithinX_def)
    qed
  qed
  then show ?thesis using assms(3,4) by (simp add: chSysPolledDelayX_def)
qed

section \<open>Examples\<close>

definition demo_linker :: linker where
  "demo_linker = \<lparr>lk_main = 0x20000400, lk_fac = 0x20001000, lk_dheap = 0x20000800, lk_heap_base = 0x20002000, lk_heap_end = 0x20003000,
     lk_idle_base = 0x20001800, lk_idle_end = 0x20001A00, lk_idle_thread = 0x8000101\<rparr>"

definition demo_port :: port_cfg where
  "demo_port = \<lparr>pc_wa_align = 32, pc_stack_align = 8, pc_wa_min = 0x100, pc_thread_size = 72\<rparr>"


definition demo_circle :: links where
  "demo_circle = (queue_insert 8 4 (queue_init 4 \<lparr>nxt = (\<lambda>_. 0), prv = (\<lambda>_. 0), nprio = (\<lambda>_. 0)\<rparr>))\<lparr>prv := (\<lambda>_. 4)\<rparr>"

theorem chSysIntegrityCheckI_iff_witness:
  "chSysIntegrityCheckI 1 (demo_circle, 4) (demo_circle, 4) (demo_circle, 4) demo_kernel = Ok True"
proof -
  have "two_way demo_circle 4 [8] []"
    by (simp add: two_way_def demo_circle_def queue_insert_def queue_init_def set_nxt_def set_prv_def Let_def)
  moreover have "i_ctx demo_kernel" using demo_kernel_ok by simp
  ultimately show ?thesis
    using chSysIntegrityCheckI_iff [of demo_kernel demo_circle 4 "[8]" "[]" demo_circle 4 "[8]" "[]" demo_circle 4 "[8]" "[]" 1]
    by (simp add: CH_INTEGRITY_RLIST_def CH_INTEGRITY_VTLIST_def CH_INTEGRITY_REGISTRY_def)
qed

theorem status_roundtrip_witness:
  "\<exists>k1. chSysGetStatusAndLockX (demo_kernel\<lparr>lock_cnt := 0, isr_cnt := 1\<rparr>) = Ok (False, k1) \<and>
     chSysRestoreStatusX False k1 = Ok (demo_kernel\<lparr>lock_cnt := 0, isr_cnt := 1\<rparr>)"
  using status_roundtrip [of "demo_kernel\<lparr>lock_cnt := 0, isr_cnt := 1\<rparr>"] by (auto simp: i_ctx_def)

end
