(* ===== verification/SampleBuffers.thy ===== *)
theory SampleBuffers
  imports Memory
begin

text \<open>
  The sample buffers (\<open>source/samplebuffer.cpp\<close>, \<open>source/samples.cpp\<close>): a buffer is an area of
  raw memory at a fixed address with room for \<open>MAX_SAMPLE_BUFFER_SIZE\<close> samples of 16 bits, of
  which the first \<open>m_size\<close> are in use; \<open>m_modified\<close> points at the half that was written last.

  \<open>modify\<close> and \<open>midmodify\<close> copy blocks of eight 32-bit words: all eight are read before the first
  is written, at least one block is copied, and the size is rounded up to whole blocks. The
  loop compares pointers, so it is given the number of turns after which the source pointer has
  gone round the whole address space; the lemmas show that the real copies end long before.
\<close>

section \<open>Data\<close>

definition MAX_SAMPLE_BUFFER_SIZE :: u32 where "MAX_SAMPLE_BUFFER_SIZE = 8192"

record SampleBuffer =
  m_buffer :: ptr
  m_size :: u32
  m_modified :: ptr

definition new_SampleBuffer :: "ptr \<Rightarrow> SampleBuffer" where
  "new_SampleBuffer buffer = \<lparr>m_buffer = buffer, m_size = MAX_SAMPLE_BUFFER_SIZE, m_modified = NULL\<rparr>"

text \<open>The three buffers of \<open>samples.cpp\<close> on the L4 target.\<close>

definition Samples_In :: SampleBuffer where "Samples_In = new_SampleBuffer 0x20008000"
definition Samples_Out :: SampleBuffer where "Samples_Out = new_SampleBuffer 0x2000C000"
definition Samples_Generator :: SampleBuffer where "Samples_Generator = new_SampleBuffer 0x20010000"

section \<open>Operations\<close>

definition sb_clear :: "SampleBuffer \<Rightarrow> mem \<Rightarrow> mem" where
  "sb_clear sb m =
     fold (\<lambda>i. store16 (m_buffer sb + 2 * of_nat i) 2048) [0..<unat (m_size sb)] m"

definition copy_block :: "u32 \<Rightarrow> u32 \<Rightarrow> mem \<Rightarrow> mem" where
  "copy_block src dst m =
     (let ws = map (\<lambda>i. load32 m (src + 4 * of_nat i)) [0..<8]
      in fold (\<lambda>i. store32 (dst + 4 * of_nat i) (ws ! i)) [0..<8] m)"

fun copy_loop :: "nat \<Rightarrow> u32 \<Rightarrow> u32 \<Rightarrow> u32 \<Rightarrow> mem \<Rightarrow> mem kres" where
  "copy_loop 0 src srcend dst m = Diverge"
| "copy_loop (Suc n) src srcend dst m =
     (let m = copy_block src dst m
      in if src + 32 < srcend then copy_loop n (src + 32) srcend (dst + 32) m else Ok m)"

definition max_blocks :: nat where "max_blocks = 2 ^ 27"

definition round_size :: "u32 \<Rightarrow> u32" where
  "round_size sz = (sz + 15) AND NOT 15"

definition middata :: "SampleBuffer \<Rightarrow> ptr" where
  "middata sb = m_buffer sb + 2 * (m_size sb div 2)"

definition modify :: "ptr \<Rightarrow> u32 \<Rightarrow> SampleBuffer \<Rightarrow> mem \<Rightarrow> (SampleBuffer \<times> mem) kres" where
  "modify data srcsize sb m =
     (let sz = round_size (if srcsize < m_size sb then srcsize else m_size sb)
      in kbind (copy_loop max_blocks data (data + 4 * (sz div 2)) (m_buffer sb) m)
           (\<lambda>m. Ok (sb\<lparr>m_modified := m_buffer sb\<rparr>, m)))"

definition midmodify :: "ptr \<Rightarrow> u32 \<Rightarrow> SampleBuffer \<Rightarrow> mem \<Rightarrow> (SampleBuffer \<times> mem) kres" where
  "midmodify data srcsize sb m =
     (let sz = round_size (if srcsize < m_size sb div 2 then srcsize else m_size sb div 2)
      in kbind (copy_loop max_blocks data (data + 4 * (sz div 2)) (middata sb) m)
           (\<lambda>m. Ok (sb\<lparr>m_modified := middata sb\<rparr>, m)))"

definition setModified :: "SampleBuffer \<Rightarrow> SampleBuffer" where
  "setModified sb = sb\<lparr>m_modified := m_buffer sb\<rparr>"

definition setMidmodified :: "SampleBuffer \<Rightarrow> SampleBuffer" where
  "setMidmodified sb = sb\<lparr>m_modified := middata sb\<rparr>"

definition setSize :: "u32 \<Rightarrow> SampleBuffer \<Rightarrow> SampleBuffer" where
  "setSize sz sb = sb\<lparr>m_size := (if sz < MAX_SAMPLE_BUFFER_SIZE then sz else MAX_SAMPLE_BUFFER_SIZE)\<rparr>"

definition sb_data :: "SampleBuffer \<Rightarrow> ptr" where
  "sb_data sb = m_buffer sb"

definition modified :: "SampleBuffer \<Rightarrow> ptr \<times> SampleBuffer" where
  "modified sb = (m_modified sb, sb\<lparr>m_modified := NULL\<rparr>)"

definition bytesize :: "SampleBuffer \<Rightarrow> u32" where
  "bytesize sb = m_size sb * 2"

section \<open>Copying\<close>

lemma copy_block_moves: "copy_block src dst m = move dst src 32 m"
proof -
  let ?ws = "map (\<lambda>i. load32 m (src + 4 * of_nat i)) [0..<8]"
  have "fold (\<lambda>i. store32 (dst + 4 * of_nat i) (?ws ! i)) [0..<n] m = move dst src (4 * n) m" if "n \<le> 8" for n
    using that
  proof (induction n)
    case (Suc n)
    have "?ws ! n = load32 m (src + 4 * of_nat n)" using Suc(2) by (simp del: upt_rec_numeral)
    then show ?case
      using Suc store32_moves [of n dst m src] by (simp del: upt_rec_numeral)
  qed simp
  from this [of 8] show ?thesis by (simp add: copy_block_def Let_def del: upt_rec_numeral)
qed

lemma move_append:
  assumes d: "disjoint dst (n + k) src (n + k)" and le: "n + k \<le> 2 ^ 32"
  shows "move (dst + of_nat n) (src + of_nat n) k (move dst src n m) = move dst src (n + k) m"
proof
  fix x :: u32
  let ?y = "x - dst"
  have sh: "x - (dst + of_nat n) = ?y - of_nat n" by simp
  have iff: "unat (x - (dst + of_nat n)) < k \<longleftrightarrow> n \<le> unat ?y \<and> unat ?y < n + k"
    unfolding sh by (rule shifted_less [OF le])
  have far: "\<not> unat (src + ?y - dst) < n" if "unat ?y < n + k"
    using disjointD [of src "n + k" dst "n + k" "src + ?y"] d disjoint_sym le that by auto
  show "move (dst + of_nat n) (src + of_nat n) k (move dst src n m) x = move dst src (n + k) m x"
  proof (cases "unat (x - (dst + of_nat n)) < k")
    case True
    have "src + of_nat n + (x - (dst + of_nat n)) = src + ?y" by simp
    then show ?thesis using True iff far by (simp add: move_def)
  next
    case False
    then show ?thesis using iff by (auto simp: move_def)
  qed
qed

lemma disjoint_shift: "disjoint dst (n + k) src (n + k) \<Longrightarrow> disjoint (dst + of_nat n) k (src + of_nat n) k"
  by (auto simp: disjoint_def)

text \<open>The loop over \<open>b\<close> blocks moves their bytes.\<close>

lemma copy_loop_moves:
  assumes "0 < b" and "b \<le> n" and "disjoint dst (32 * b) src (32 * b)" and "32 * b \<le> 2 ^ 32"
    and "\<And>j. 0 < j \<Longrightarrow> j < b \<Longrightarrow> src + 32 * of_nat j < srcend" and "\<not> src + 32 * of_nat b < srcend"
  shows "copy_loop n src srcend dst m = Ok (move dst src (32 * b) m)"
  using assms
proof (induction b arbitrary: n src dst m)
  case (Suc b)
  then obtain n' where n: "n = Suc n'" by (cases n) auto
  show ?case
  proof (cases "b = 0")
    case True
    then show ?thesis using Suc(7) by (simp add: n copy_block_moves Let_def)
  next
    case False
    have "src + 32 * of_nat 1 < srcend" using Suc(6) [of 1] False by simp
    then have lt: "src + 32 < srcend" by simp
    have d: "disjoint dst (32 + 32 * b) src (32 + 32 * b)" using Suc(4) by simp
    have sh: "src + 32 + 32 * of_nat j = src + 32 * of_nat (Suc j)" for j by (simp add: algebra_simps)
    have "copy_loop n' (src + 32) srcend (dst + 32) (move dst src 32 m) =
        Ok (move (dst + 32) (src + 32) (32 * b) (move dst src 32 m))"
    proof (rule Suc.IH)
      show "0 < b" "b \<le> n'" "32 * b \<le> 2 ^ 32" using False Suc(3,5) n by simp_all
      show "disjoint (dst + 32) (32 * b) (src + 32) (32 * b)" using disjoint_shift [OF d] by simp
      show "src + 32 + 32 * of_nat j < srcend" if "0 < j" "j < b" for j
        unfolding sh using Suc(6) [of "Suc j"] that by simp
      show "\<not> src + 32 + 32 * of_nat b < srcend" unfolding sh using Suc(7) .
    qed
    also have "move (dst + 32) (src + 32) (32 * b) (move dst src 32 m) = move dst src (32 + 32 * b) m"
      using move_append [OF d, of m] Suc(5) by simp
    finally show ?thesis using lt by (simp add: n copy_block_moves Let_def)
  qed
qed simp

section \<open>Rounding\<close>

definition blocks :: "u32 \<Rightarrow> nat" where
  "blocks sz = (unat sz + 15) div 16"

lemma unat_and_not15: "unat ((w :: u32) AND NOT 15) = 16 * (unat w div 16)"
proof -
  have m: "(15 :: u32) = mask 4" by (simp add: mask_eq_exp_minus_1)
  have "w AND NOT 15 = push_bit 4 (drop_bit 4 w)"
    unfolding m by (rule bit_word_eqI) (auto simp: bit_simps)
  also have "\<dots> = w - take_bit 4 w"
    using bits_ident [of 4 w] by (simp add: algebra_simps)
  finally have e: "w AND NOT 15 = w - take_bit 4 w" .
  have t: "unat (take_bit 4 w) = unat w mod 16"
    by (simp add: take_bit_eq_mod unat_mod)
  then have "unat (take_bit 4 w) \<le> unat w" by simp
  then have "unat (w - take_bit 4 w) = unat w - unat w mod 16" by (simp add: unat_sub_if' t)
  then show ?thesis unfolding e by (metis minus_mod_eq_mult_div)
qed

lemma round_size_val:
  assumes "unat sz \<le> 8192"
  shows "unat (round_size sz) = 16 * blocks sz" and "blocks sz \<le> 512"
proof -
  have "unat (sz + 15) = unat sz + 15" using assms unat_plus_less [of sz 15] by simp
  then show "unat (round_size sz) = 16 * blocks sz"
    unfolding round_size_def unat_and_not15 blocks_def by simp
  show "blocks sz \<le> 512" using assms by (simp add: blocks_def)
qed

text \<open>A copy of at least one block, without wrap-around of the source pointer.\<close>

lemma copy_rounded:
  assumes sz: "unat sz \<le> 8192" and src: "unat src + 16384 < 2 ^ 32"
    and d: "disjoint dst (32 * max 1 (blocks sz)) src (32 * max 1 (blocks sz))"
  shows "copy_loop max_blocks src (src + 4 * (round_size sz div 2)) dst m =
    Ok (move dst src (32 * max 1 (blocks sz)) m)"
proof (rule copy_loop_moves [OF _ _ d])
  let ?b = "blocks sz"
  note r = round_size_val [OF sz]
  have half: "unat (round_size sz div 2) = 8 * ?b" by (simp add: unat_div r(1))
  then have "unat (4 * (round_size sz div 2)) = 32 * ?b"
    using r(2) by (simp add: unat_word_ariths)
  then have e: "unat (src + 4 * (round_size sz div 2)) = unat src + 32 * ?b"
    using src r(2) by (subst unat_plus_less) simp_all
  have j: "unat (src + 32 * of_nat j) = unat src + 32 * j" if "j \<le> 512" for j
  proof -
    have "unat (32 * of_nat j :: u32) = 32 * j" using that by (simp add: unat_word_ariths unat_of_nat)
    then show ?thesis using that src by (subst unat_plus_less) simp_all
  qed
  show "0 < max 1 ?b" by simp
  show "max 1 ?b \<le> max_blocks" using r(2) by (simp add: max_blocks_def)
  show "32 * max 1 ?b \<le> 2 ^ 32" using r(2) by simp
  show "src + 32 * of_nat i < src + 4 * (round_size sz div 2)" if "0 < i" "i < max 1 ?b" for i
    using that j [of i] e r(2) by (simp add: word_less_nat_alt)
  show "\<not> src + 32 * of_nat (max 1 ?b) < src + 4 * (round_size sz div 2)"
    using j [of "max 1 ?b"] e r(2) by (simp add: word_less_nat_alt)
qed

lemma disjoint_mono: "disjoint a n b l \<Longrightarrow> n' \<le> n \<Longrightarrow> l' \<le> l \<Longrightarrow> disjoint a n' b l'"
  by (auto simp: disjoint_def)

lemma move_at:
  assumes "i < n" and "n \<le> 2 ^ 32"
  shows "move dst src n m (dst + of_nat i) = m (src + of_nat i)"
  using assms by (simp add: move_def unat_of_nat32)

lemma blocks_cover: "unat sz \<le> 16 * blocks sz"
  by (simp add: blocks_def)

text \<open>What \<open>modify\<close> and \<open>midmodify\<close> do on buffers of the size the constructor allows.\<close>

lemma modify_eq:
  assumes "unat (m_size sb) \<le> 8192" and "unat data + 16384 < 2 ^ 32" and "disjoint (m_buffer sb) 16384 data 16384"
  shows "modify data srcsize sb m = Ok (sb\<lparr>m_modified := m_buffer sb\<rparr>,
    move (m_buffer sb) data (32 * max 1 (blocks (min srcsize (m_size sb)))) m)"
proof -
  let ?s = "min srcsize (m_size sb)"
  have s: "(if srcsize < m_size sb then srcsize else m_size sb) = ?s" by (auto simp: min_def less_imp_le)
  have "unat ?s \<le> unat (m_size sb)" by (simp add: word_le_nat_alt [symmetric])
  then have sz: "unat ?s \<le> 8192" using assms(1) by simp
  have "disjoint (m_buffer sb) (32 * max 1 (blocks ?s)) data (32 * max 1 (blocks ?s))"
    using round_size_val(2) [OF sz] by (intro disjoint_mono [OF assms(3)]) simp_all
  then show ?thesis using copy_rounded [OF sz assms(2)] unfolding modify_def s Let_def by simp
qed

lemma midmodify_eq:
  assumes "unat (m_size sb) \<le> 8192" and "unat data + 16384 < 2 ^ 32" and "disjoint (middata sb) 8192 data 8192"
  shows "midmodify data srcsize sb m = Ok (sb\<lparr>m_modified := middata sb\<rparr>,
      move (middata sb) data (32 * max 1 (blocks (min srcsize (m_size sb div 2)))) m)"
    and "blocks (min srcsize (m_size sb div 2)) \<le> 256"
proof -
  let ?s = "min srcsize (m_size sb div 2)"
  have s: "(if srcsize < m_size sb div 2 then srcsize else m_size sb div 2) = ?s" by (auto simp: min_def less_imp_le)
  have "unat ?s \<le> unat (m_size sb div 2)" by (simp add: word_le_nat_alt [symmetric])
  then have sz: "unat ?s \<le> 4096" using assms(1) by (simp add: unat_div)
  then show b: "blocks ?s \<le> 256" by (simp add: blocks_def)
  then have "disjoint (middata sb) (32 * max 1 (blocks ?s)) data (32 * max 1 (blocks ?s))"
    by (intro disjoint_mono [OF assms(3)]) simp_all
  moreover have "unat ?s \<le> 8192" using sz by simp
  ultimately show "midmodify data srcsize sb m = Ok (sb\<lparr>m_modified := middata sb\<rparr>,
      move (middata sb) data (32 * max 1 (blocks ?s)) m)"
    using copy_rounded [OF _ assms(2)] unfolding midmodify_def s Let_def by simp
qed

lemma modify_ok:
  assumes "unat (m_size sb) \<le> 8192" and "unat data + 16384 < 2 ^ 32" and "disjoint (m_buffer sb) 16384 data 16384"
  shows "\<exists>sb' m'. modify data srcsize sb m = Ok (sb', m') \<and> m_modified sb' = m_buffer sb \<and> m_size sb' = m_size sb \<and>
    (\<forall>i < 2 * unat (min srcsize (m_size sb)). m' (m_buffer sb + of_nat i) = m (data + of_nat i)) \<and>
    (\<forall>a. unat (a - m_buffer sb) \<ge> 16384 \<longrightarrow> m' a = m a)"
proof -
  let ?s = "min srcsize (m_size sb)" let ?n = "32 * max 1 (blocks ?s)"
  have "unat ?s \<le> unat (m_size sb)" by (simp add: word_le_nat_alt [symmetric])
  then have n: "?n \<le> 16384" "2 * unat ?s \<le> ?n"
    using round_size_val(2) [of ?s] blocks_cover [of ?s] assms(1) by simp_all
  have "move (m_buffer sb) data ?n m (m_buffer sb + of_nat i) = m (data + of_nat i)" if "i < 2 * unat ?s" for i
    using that n by (intro move_at) simp_all
  moreover have "move (m_buffer sb) data ?n m a = m a" if "unat (a - m_buffer sb) \<ge> 16384" for a
  proof -
    have "\<not> unat (a - m_buffer sb) < ?n" using that n(1) by linarith
    then show ?thesis unfolding move_def by simp
  qed
  ultimately show ?thesis using modify_eq [OF assms] by simp
qed

lemma midmodify_ok:
  assumes "unat (m_size sb) \<le> 8192" and "unat data + 16384 < 2 ^ 32" and "disjoint (middata sb) 8192 data 8192"
  shows "\<exists>sb' m'. midmodify data srcsize sb m = Ok (sb', m') \<and> m_modified sb' = middata sb \<and>
    (\<forall>i < 2 * unat (min srcsize (m_size sb div 2)). m' (middata sb + of_nat i) = m (data + of_nat i)) \<and>
    (\<forall>a. unat (a - m_buffer sb) \<ge> 16384 \<longrightarrow> m' a = m a)"
proof -
  let ?s = "min srcsize (m_size sb div 2)" let ?n = "32 * max 1 (blocks ?s)" let ?h = "unat (m_size sb) div 2"
  note e = midmodify_eq [OF assms, of srcsize]
  have "unat ?s \<le> unat (m_size sb div 2)" by (simp add: word_le_nat_alt [symmetric])
  then have s: "unat ?s \<le> ?h" by (simp add: unat_div)
  have n: "?n \<le> 8192" "2 * unat ?s \<le> ?n" using e(2) blocks_cover [of ?s] by simp_all
  have "32 * blocks ?s + 2 * ?h \<le> 16384" using assms(1) e(2) by (simp add: blocks_def)
  moreover have "?h \<le> 4096" using assms(1) by simp
  ultimately have sum: "2 * ?h + ?n \<le> 16384" unfolding max_def by (cases "1 \<le> blocks ?s") simp_all
  have mid: "middata sb = m_buffer sb + of_nat (2 * ?h)"
  proof -
    have "unat (of_nat ?h :: u32) = ?h" using assms(1) by (intro unat_of_nat32) simp
    then have "of_nat ?h = m_size sb div 2" by (simp add: word_unat_eq_iff unat_div)
    then show ?thesis by (simp add: middata_def)
  qed
  have "move (middata sb) data ?n m a = m a" if a: "unat (a - m_buffer sb) \<ge> 16384" for a
  proof -
    have e2: "a - middata sb = (a - m_buffer sb) - of_nat (2 * ?h)" unfolding mid by simp
    have le: "2 * ?h + ?n \<le> 2 ^ 32" using sum by simp
    have "\<not> unat (a - middata sb) < ?n"
      unfolding e2 shifted_less [OF le] using sum a by linarith
    then show ?thesis by (simp add: move_def)
  qed
  moreover have "move (middata sb) data ?n m (middata sb + of_nat i) = m (data + of_nat i)" if "i < 2 * unat ?s" for i
    using that n by (intro move_at) simp_all
  ultimately show ?thesis using e(1) [of m] by simp
qed

section \<open>Properties\<close>

text \<open>
  \<open>SampleBuffer::modify\<close> returns, copies the samples it was given (at most as many as the
  buffer holds) to the start of the buffer, marks the first half as modified, and never writes
  outside the 16 KB reserved for the buffer, although it copies in blocks of 16 samples.
\<close>

theorem modify_copies:
  assumes "unat (m_size sb) \<le> 8192" and "unat data + 16384 < 2 ^ 32" and "disjoint (m_buffer sb) 16384 data 16384"
  shows "\<exists>sb' m'. modify data srcsize sb m = Ok (sb', m') \<and> m_modified sb' = m_buffer sb \<and> m_size sb' = m_size sb \<and>
    (\<forall>i < 2 * unat (min srcsize (m_size sb)). m' (m_buffer sb + of_nat i) = m (data + of_nat i)) \<and>
    (\<forall>a. unat (a - m_buffer sb) \<ge> 16384 \<longrightarrow> m' a = m a)"
  using modify_ok [OF assms] by blast

text \<open>Sixteen samples at \<open>0x20004000\<close>, copied to the output buffer.\<close>

theorem modify_copies_witness:
  "\<exists>sb' m'. modify 0x20004000 16 Samples_Out (\<lambda>a. ucast a) = Ok (sb', m') \<and>
    (\<forall>i < 2 * unat (16 :: u32). m' (m_buffer Samples_Out + of_nat i) = ucast (0x20004000 + of_nat i :: u32))"
proof -
  have "unat (m_size Samples_Out) \<le> 8192" "disjoint (m_buffer Samples_Out) 16384 0x20004000 16384"
    "min 16 (m_size Samples_Out) = 16"
    by (simp_all add: Samples_Out_def new_SampleBuffer_def MAX_SAMPLE_BUFFER_SIZE_def disjoint_def min_def)
  then show ?thesis using modify_copies [of Samples_Out "0x20004000" 16 "\<lambda>a. ucast a"] by force
qed

text \<open>
  \<open>SampleBuffer::midmodify\<close> copies the samples it was given (at most half a buffer) to the second
  half; rounded up to whole blocks, the copy still ends inside the 16 KB of the buffer, for
  every size the buffer can have.
\<close>

theorem midmodify_bounds:
  assumes "unat (m_size sb) \<le> 8192" and "unat data + 16384 < 2 ^ 32" and "disjoint (middata sb) 8192 data 8192"
  shows "\<exists>sb' m'. midmodify data srcsize sb m = Ok (sb', m') \<and> m_modified sb' = middata sb \<and>
    (\<forall>i < 2 * unat (min srcsize (m_size sb div 2)). m' (middata sb + of_nat i) = m (data + of_nat i)) \<and>
    (\<forall>a. unat (a - m_buffer sb) \<ge> 16384 \<longrightarrow> m' a = m a)"
  using midmodify_ok [OF assms] by blast

theorem midmodify_bounds_witness:
  "\<exists>sb' m'. midmodify 0x20004000 24 (setSize 48 Samples_Out) (\<lambda>a. ucast a) = Ok (sb', m') \<and>
    m_modified sb' = 0x2000C030"
proof -
  let ?b = "setSize 48 Samples_Out"
  have "unat (m_size ?b) \<le> 8192" "disjoint (middata ?b) 8192 0x20004000 8192" "middata ?b = 0x2000C030"
    by (simp_all add: Samples_Out_def new_SampleBuffer_def MAX_SAMPLE_BUFFER_SIZE_def setSize_def middata_def disjoint_def)
  then show ?thesis using midmodify_bounds [of ?b "0x20004000" 24 "\<lambda>a. ucast a"] by force
qed

text \<open>
  When half the buffer is not a multiple of 16 samples, writing the first half overwrites the
  start of the second half with what follows the source samples in memory.
\<close>

theorem modify_clobbers:
  assumes "unat (m_size sb) \<le> 8192" and "unat data + 16384 < 2 ^ 32" and "disjoint (m_buffer sb) 16384 data 16384"
    and "unat (m_size sb div 2) mod 16 \<noteq> 0" and "m (data + 2 * (m_size sb div 2)) \<noteq> m (middata sb)"
  shows "\<exists>sb' m'. modify data (m_size sb div 2) sb m = Ok (sb', m') \<and> m' (middata sb) \<noteq> m (middata sb)"
proof -
  let ?h = "m_size sb div 2"
  have h: "min ?h (m_size sb) = ?h" by (simp add: min_def word_le_nat_alt unat_div)
  have "2 * unat ?h < 32 * blocks ?h" using assms(4) unfolding blocks_def by presburger
  then have lt: "2 * unat ?h < 32 * max 1 (blocks ?h)" "32 * max 1 (blocks ?h) \<le> 2 ^ 32"
    using assms(1) by (simp_all add: blocks_def unat_div)
  have o: "2 * ?h = of_nat (2 * unat ?h)" by simp
  have "move (m_buffer sb) data (32 * max 1 (blocks ?h)) m (middata sb) = m (data + 2 * ?h)"
    unfolding middata_def o by (rule move_at [OF lt])
  then show ?thesis using modify_eq [OF assms(1-3), of ?h m] h assms(5) by simp
qed

theorem modify_clobbers_witness:
  "\<exists>sb' m'. modify 0x20004000 20 (setSize 40 Samples_Out) (\<lambda>a. if a < 0x20008000 then 1 else 0) = Ok (sb', m') \<and>
    m' 0x2000C028 \<noteq> (0 :: byte)"
proof -
  let ?b = "setSize 40 Samples_Out"
  have b: "m_size ?b = 40" "m_buffer ?b = 0x2000C000" "middata ?b = 0x2000C028"
    by (simp_all add: Samples_Out_def new_SampleBuffer_def MAX_SAMPLE_BUFFER_SIZE_def setSize_def middata_def)
  show ?thesis
    using modify_clobbers [of ?b "0x20004000" "\<lambda>a. if a < 0x20008000 then 1 else 0"] unfolding b
    by (simp add: disjoint_def)
qed

end
