(* ===== verification/ElfLoad.thy ===== *)
theory ElfLoad
  imports Memory
begin

text \<open>
  The loader of algorithm binaries (\<open>source/elfload.cpp\<close>, \<open>source/elf.h\<close>). The file is in a static
  buffer at \<open>fb\<close> (\<open>m_file_buffer\<close>); the header and the program headers are read from memory through
  casted pointers each time they are used, so a segment that is loaded over the buffer changes
  what the rest of the loop reads. \<open>m_entry\<close> is the address of the loaded algorithm, or \<open>NULL\<close>.

  The loop counts with a 16-bit variable; \<open>2 ^ 16\<close> turns are enough, whatever the file holds
  (\<open>load_loop_ends\<close>).
\<close>

section \<open>File format\<close>

definition MAX_ELF_FILE_SIZE :: u32 where "MAX_ELF_FILE_SIZE = 16 * 1024"
definition PT_LOAD :: u32 where "PT_LOAD = 1"

definition e_entry :: "mem \<Rightarrow> u32 \<Rightarrow> u32" where "e_entry m ehdr = load32 m (ehdr + 24)"
definition e_phoff :: "mem \<Rightarrow> u32 \<Rightarrow> u32" where "e_phoff m ehdr = load32 m (ehdr + 28)"
definition e_phentsize :: "mem \<Rightarrow> u32 \<Rightarrow> u16" where "e_phentsize m ehdr = load16 m (ehdr + 42)"
definition e_phnum :: "mem \<Rightarrow> u32 \<Rightarrow> u16" where "e_phnum m ehdr = load16 m (ehdr + 44)"

definition p_type :: "mem \<Rightarrow> u32 \<Rightarrow> u32" where "p_type m phdr = load32 m phdr"
definition p_offset :: "mem \<Rightarrow> u32 \<Rightarrow> u32" where "p_offset m phdr = load32 m (phdr + 4)"
definition p_vaddr :: "mem \<Rightarrow> u32 \<Rightarrow> u32" where "p_vaddr m phdr = load32 m (phdr + 8)"
definition p_filesz :: "mem \<Rightarrow> u32 \<Rightarrow> u32" where "p_filesz m phdr = load32 m (phdr + 16)"
definition p_memsz :: "mem \<Rightarrow> u32 \<Rightarrow> u32" where "p_memsz m phdr = load32 m (phdr + 20)"

definition elf_header :: "byte list" where "elf_header = [0x7F, 0x45, 0x4C, 0x46]"

section \<open>Operations\<close>

definition ptr_from_offset :: "ptr \<Rightarrow> u32 \<Rightarrow> ptr" where
  "ptr_from_offset base off = base + off"

definition elf_unload :: "ptr \<Rightarrow> ptr" where
  "elf_unload entry = NULL"

definition load_segment :: "u32 \<Rightarrow> ptr \<Rightarrow> mem \<Rightarrow> (bool \<times> mem) kres" where
  "load_segment phdr elf_data m =
     (if p_type m phdr = PT_LOAD then
        if p_filesz m phdr = 0
        then Ok (False, memset (p_vaddr m phdr) 0 (unat (p_memsz m phdr)) m)
        else kbind (memcpy (p_vaddr m phdr) (ptr_from_offset elf_data (p_offset m phdr)) (unat (p_filesz m phdr)) m)
               (\<lambda>m. Ok (True, m))
      else Ok (False, m))"

fun load_loop :: "nat \<Rightarrow> u16 \<Rightarrow> u32 \<Rightarrow> bool \<Rightarrow> ptr \<Rightarrow> mem \<Rightarrow> (bool \<times> mem) kres" where
  "load_loop n i phdr loaded elf_data m =
     (if \<not> i < e_phnum m elf_data then Ok (loaded, m)
      else case n of 0 \<Rightarrow> Diverge
      | Suc n' \<Rightarrow>
          kbind (load_segment phdr elf_data m) (\<lambda>(l, m).
          load_loop n' (i + 1) (ptr_from_offset phdr (ucast (e_phentsize m elf_data))) (loaded \<or> l) elf_data m))"

definition loadFromInternalBuffer :: "ptr \<Rightarrow> mem \<Rightarrow> (bool \<times> ptr \<times> mem) kres" where
  "loadFromInternalBuffer fb m =
     (if map (\<lambda>i. m (fb + of_nat i)) [0..<4] \<noteq> elf_header then Ok (False, NULL, m)
      else kbind (load_loop (2 ^ 16) 0 (ptr_from_offset fb (e_phoff m fb)) False fb m) (\<lambda>(loaded, m).
           Ok (loaded, if loaded then e_entry m fb else NULL, m)))"

declare load_loop.simps [simp del]

section \<open>The loop ends\<close>

lemma load_segment_not_Diverge: "load_segment phdr e m \<noteq> Diverge"
  by (auto simp: load_segment_def memcpy_def)

lemma unat_suc16: "i < (j :: u16) \<Longrightarrow> unat (i + 1) = Suc (unat i)"
  using unat_less16 [of j] by (simp add: word_less_nat_alt unat_word_ariths)

lemma load_loop_ends:
  "unat i + n \<ge> 2 ^ 16 - 1 \<Longrightarrow> load_loop n i phdr loaded e m \<noteq> Diverge"
proof (induction n arbitrary: i phdr loaded m)
  case 0
  then have "\<not> i < e_phnum m e" using unat_less16 [of "e_phnum m e"] by (simp add: word_less_nat_alt)
  then show ?case by (simp add: load_loop.simps)
next
  case (Suc n)
  show ?case
  proof (cases "i < e_phnum m e")
    case True
    then have "unat (i + 1) + n \<ge> 2 ^ 16 - 1" using Suc(2) unat_suc16 [OF True] by simp
    then have "load_loop n (i + 1) p l e m' \<noteq> Diverge" for p l m' by (rule Suc.IH)
    then show ?thesis
      using True load_segment_not_Diverge [of phdr e m]
      by (cases "load_segment phdr e m") (auto simp: load_loop.simps [of "Suc n"])
  qed (simp add: load_loop.simps [of "Suc n"])
qed

section \<open>Files that stay out of the way of the buffer\<close>

definition in_file :: "ptr \<Rightarrow> u32 \<Rightarrow> nat \<Rightarrow> bool" where
  "in_file fb a n \<longleftrightarrow> unat (a - fb) + n \<le> 16384"

definition same_file :: "ptr \<Rightarrow> mem \<Rightarrow> mem \<Rightarrow> bool" where
  "same_file fb m m' \<longleftrightarrow> (\<forall>a. unat (a - fb) < 16384 \<longrightarrow> m' a = m a)"

definition phdr_at :: "mem \<Rightarrow> ptr \<Rightarrow> nat \<Rightarrow> u32" where
  "phdr_at m fb i = fb + e_phoff m fb + of_nat i * ucast (e_phentsize m fb)"

text \<open>
  \<open>elf_ok m fb\<close>: the program headers lie inside the buffer; a loadable segment goes to memory
  outside it, and takes its bytes from inside it.
\<close>

definition seg_ok :: "mem \<Rightarrow> ptr \<Rightarrow> u32 \<Rightarrow> bool" where
  "seg_ok m fb p \<longleftrightarrow> (p_type m p = PT_LOAD \<longrightarrow>
     disjoint (p_vaddr m p) (unat (if p_filesz m p = 0 then p_memsz m p else p_filesz m p)) fb 16384 \<and>
     (p_filesz m p \<noteq> 0 \<longrightarrow> in_file fb (fb + p_offset m p) (unat (p_filesz m p))))"

definition elf_ok :: "mem \<Rightarrow> ptr \<Rightarrow> bool" where
  "elf_ok m fb \<longleftrightarrow> map (\<lambda>i. m (fb + of_nat i)) [0..<4] = elf_header \<and>
     (\<forall>i < unat (e_phnum m fb). in_file fb (phdr_at m fb i) 32 \<and> seg_ok m fb (phdr_at m fb i))"

text \<open>The loadable segments of the file, and the effect of one of them on memory.\<close>

definition segments :: "mem \<Rightarrow> ptr \<Rightarrow> u32 list" where
  "segments m fb = filter (\<lambda>p. p_type m p = PT_LOAD) (map (phdr_at m fb) [0..<unat (e_phnum m fb)])"

definition place_segment :: "ptr \<Rightarrow> mem \<Rightarrow> u32 \<Rightarrow> mem \<Rightarrow> mem" where
  "place_segment fb m0 p m =
     (if p_filesz m0 p = 0 then memset (p_vaddr m0 p) 0 (unat (p_memsz m0 p)) m
      else move (p_vaddr m0 p) (fb + p_offset m0 p) (unat (p_filesz m0 p)) m)"

lemma in_file_add:
  assumes "in_file fb a n" and "k + l \<le> n" and "0 < l"
  shows "in_file fb (a + of_nat k) l" and "unat (a + of_nat k - fb) = unat (a - fb) + k"
proof -
  have "unat (a - fb) + k < 2 ^ 32" using assms by (simp add: in_file_def)
  moreover have "unat (of_nat k :: u32) = k" using assms by (intro unat_of_nat32) (simp add: in_file_def)
  ultimately have *: "unat (a - fb + of_nat k) = unat (a - fb) + k" by (subst unat_plus_less) simp_all
  have "a - fb + of_nat k = a + of_nat k - fb" by simp
  with * show e: "unat (a + of_nat k - fb) = unat (a - fb) + k" by simp
  show "in_file fb (a + of_nat k) l" unfolding in_file_def e using assms by (simp add: in_file_def)
qed

lemma same_load32:
  assumes "same_file fb m m'" and "in_file fb a 4"
  shows "load32 m' a = load32 m a"
proof (rule load32_cong)
  fix i :: nat assume "i < 4"
  then have "in_file fb (a + of_nat i) 1" by (intro in_file_add(1) [OF assms(2)]) simp_all
  then show "m' (a + of_nat i) = m (a + of_nat i)" using assms(1) by (simp add: same_file_def in_file_def)
qed

lemma same_load16:
  assumes "same_file fb m m'" and "in_file fb a 2"
  shows "load16 m' a = load16 m a"
proof (rule load16_cong)
  have "in_file fb (a + of_nat 0) 1" "in_file fb (a + of_nat 1) 1" by (intro in_file_add(1) [OF assms(2)]; simp)+
  then show "m' a = m a" "m' (a + 1) = m (a + 1)" using assms(1) by (simp_all add: same_file_def in_file_def)
qed

lemma same_header:
  assumes "same_file fb m m'"
  shows "e_phnum m' fb = e_phnum m fb" "e_phentsize m' fb = e_phentsize m fb" "e_entry m' fb = e_entry m fb"
  using same_load16 [OF assms, of "fb + 44"] same_load16 [OF assms, of "fb + 42"] same_load32 [OF assms, of "fb + 24"]
  by (simp_all add: e_phnum_def e_phentsize_def e_entry_def in_file_def)

lemma same_phdr:
  assumes s: "same_file fb m m'" and f: "in_file fb p 32"
  shows "p_type m' p = p_type m p" "p_offset m' p = p_offset m p" "p_vaddr m' p = p_vaddr m p"
    "p_filesz m' p = p_filesz m p" "p_memsz m' p = p_memsz m p"
proof -
  have "load32 m' (p + of_nat k) = load32 m (p + of_nat k)" if "k + 4 \<le> 32" for k
    by (rule same_load32 [OF s in_file_add(1) [OF f that]]) simp
  from this [of 0] this [of 4] this [of 8] this [of 16] this [of 20]
  show "p_type m' p = p_type m p" "p_offset m' p = p_offset m p" "p_vaddr m' p = p_vaddr m p"
    "p_filesz m' p = p_filesz m p" "p_memsz m' p = p_memsz m p"
    by (simp_all add: p_type_def p_offset_def p_vaddr_def p_filesz_def p_memsz_def)
qed

lemma disjoint_inside:
  assumes "disjoint a n fb 16384" and "in_file fb b l" and "n \<le> 2 ^ 32"
  shows "disjoint a n b l"
proof (cases "l = 0")
  case False
  have "unat (x - fb) < 16384" if "unat (x - b) < l" for x
  proof -
    have l: "unat (x - b) + 1 \<le> l" using that by simp
    have "unat (b + of_nat (unat (x - b)) - fb) = unat (b - fb) + unat (x - b)"
      by (rule in_file_add(2) [OF assms(2) l]) simp
    then show ?thesis using that assms(2) by (simp add: in_file_def)
  qed
  moreover have "l \<le> 2 ^ 32" using assms(2) by (simp add: in_file_def)
  ultimately show ?thesis
    using assms(1,3) areas_disjoint_iff [of n 16384 a fb] areas_disjoint_iff [of n l a b] by auto
qed (simp add: disjoint_def)

text \<open>One segment of such a file: the loader does what the file asks for and leaves the buffer alone.\<close>

lemma load_segment_ok:
  assumes s: "same_file fb m0 m" and f: "in_file fb p 32" and ok: "seg_ok m0 fb p"
  shows "p_type m0 p = PT_LOAD \<Longrightarrow> load_segment p fb m = Ok (p_filesz m0 p \<noteq> 0, place_segment fb m0 p m)"
    and "p_type m0 p \<noteq> PT_LOAD \<Longrightarrow> load_segment p fb m = Ok (False, m)"
    and "p_type m0 p = PT_LOAD \<Longrightarrow> same_file fb m0 (place_segment fb m0 p m)"
proof -
  note e = same_phdr [OF s f]
  let ?n = "unat (if p_filesz m0 p = 0 then p_memsz m0 p else p_filesz m0 p)"
  show "load_segment p fb m = Ok (False, m)" if "p_type m0 p \<noteq> PT_LOAD"
    using that e by (simp add: load_segment_def)
  assume t: "p_type m0 p = PT_LOAD"
  have n: "?n \<le> 2 ^ 32" using unat_less32 less_imp_le by blast
  have d: "disjoint (p_vaddr m0 p) ?n fb 16384" using ok t by (simp add: seg_ok_def)
  show "load_segment p fb m = Ok (p_filesz m0 p \<noteq> 0, place_segment fb m0 p m)"
  proof (cases "p_filesz m0 p = 0")
    case False
    then have "in_file fb (fb + p_offset m0 p) (unat (p_filesz m0 p))" using ok t by (simp add: seg_ok_def)
    then have "disjoint (p_vaddr m0 p) (unat (p_filesz m0 p)) (fb + p_offset m0 p) (unat (p_filesz m0 p))"
      using disjoint_inside d n False by simp
    then show ?thesis using False t e by (simp add: load_segment_def place_segment_def memcpy_def ptr_from_offset_def)
  qed (use t e in \<open>simp add: load_segment_def place_segment_def\<close>)
  show "same_file fb m0 (place_segment fb m0 p m)"
    unfolding same_file_def
  proof (intro allI impI)
    fix a :: u32 assume a: "unat (a - fb) < 16384"
    have "\<not> unat (a - p_vaddr m0 p) < ?n" using disjointD [of fb 16384 "p_vaddr m0 p" ?n a] d n a disjoint_sym by auto
    then have "place_segment fb m0 p m a = m a" by (auto simp: place_segment_def memset_def move_def)
    then show "place_segment fb m0 p m a = m0 a" using s a by (simp add: same_file_def)
  qed
qed

section \<open>The whole file\<close>

definition segs_from :: "mem \<Rightarrow> ptr \<Rightarrow> nat \<Rightarrow> u32 list" where
  "segs_from m fb i = filter (\<lambda>p. p_type m p = PT_LOAD) (map (phdr_at m fb) [i..<unat (e_phnum m fb)])"

lemma segs_from_step:
  "i < unat (e_phnum m fb) \<Longrightarrow> segs_from m fb i =
     (if p_type m (phdr_at m fb i) = PT_LOAD then [phdr_at m fb i] else []) @ segs_from m fb (Suc i)"
  by (simp add: segs_from_def upt_conv_Cons)

lemma phdr_at_Suc: "ptr_from_offset (phdr_at m fb i) (ucast (e_phentsize m fb)) = phdr_at m fb (Suc i)"
  by (simp add: phdr_at_def ptr_from_offset_def algebra_simps)

lemma load_loop_ok:
  assumes "elf_ok m0 fb" and "same_file fb m0 m" and "i \<le> unat (e_phnum m0 fb)" and "unat (e_phnum m0 fb) - i \<le> n"
  shows "load_loop n (of_nat i) (phdr_at m0 fb i) l fb m =
      Ok (l \<or> (\<exists>p\<in>set (segs_from m0 fb i). p_filesz m0 p \<noteq> 0), fold (place_segment fb m0) (segs_from m0 fb i) m) \<and>
    same_file fb m0 (fold (place_segment fb m0) (segs_from m0 fb i) m)"
  using assms
proof (induction n arbitrary: i l m)
  case 0
  then have i: "i = unat (e_phnum m0 fb)" by simp
  then show ?case using 0 by (simp add: load_loop.simps segs_from_def same_header)
next
  case (Suc n)
  note h = same_header [OF Suc(3)]
  have i16: "unat (of_nat i :: u16) = i"
    using Suc(4) unat_less16 [of "e_phnum m0 fb"] by (simp add: unat_of_nat)
  show ?case
  proof (cases "i < unat (e_phnum m0 fb)")
    case False
    then have "i = unat (e_phnum m0 fb)" using Suc(4) by simp
    then show ?thesis using Suc(3) by (simp add: load_loop.simps segs_from_def h)
  next
    case True
    let ?p = "phdr_at m0 fb i"
    have f: "in_file fb ?p 32" "seg_ok m0 fb ?p" using Suc(2) True by (simp_all add: elf_ok_def)
    have lt: "(of_nat i :: u16) < e_phnum m fb" using True i16 h(1) by (simp add: word_less_nat_alt)
    let ?load = "p_type m0 ?p = PT_LOAD"
    let ?m = "if ?load then place_segment fb m0 ?p m else m" let ?l = "?load \<and> p_filesz m0 ?p \<noteq> 0"
    have seg: "load_segment ?p fb m = Ok (?l, ?m)" "same_file fb m0 ?m"
      using load_segment_ok [OF Suc(3) f] Suc(3) by auto
    note IH = Suc.IH [OF Suc(2) seg(2), of "Suc i" "l \<or> ?l"]
    have "load_loop (Suc n) (of_nat i) ?p l fb m = load_loop n (of_nat (Suc i)) (phdr_at m0 fb (Suc i)) (l \<or> ?l) fb ?m"
      using lt seg(1) same_header(2) [OF seg(2)] phdr_at_Suc [of m0 fb i]
      by (simp add: load_loop.simps [of "Suc n"] add.commute del: kbind_Ok)
    then show ?thesis
      using IH True Suc(5) segs_from_step [OF True] by (cases ?load) auto
  qed
qed

section \<open>Properties\<close>

text \<open>
  C38: a file whose program headers lie in the buffer and whose segments are loaded outside of it is
  loaded as the file asks for: every loadable segment is put at its address in the order of the
  program headers (bytes of the file, or zeros for a segment without file contents), all other
  memory is unchanged, and the entry point is set exactly if some segment had file contents.
\<close>

theorem load_places_segments:
  assumes "elf_ok m fb"
  shows "\<exists>loaded entry m'. loadFromInternalBuffer fb m = Ok (loaded, entry, m') \<and>
    m' = fold (place_segment fb m) (segments m fb) m \<and> same_file fb m m' \<and>
    loaded = (\<exists>p\<in>set (segments m fb). p_filesz m p \<noteq> 0) \<and>
    entry = (if loaded then e_entry m fb else NULL)"
proof -
  have "same_file fb m m" by (simp add: same_file_def)
  moreover have "unat (e_phnum m fb) - 0 \<le> 2 ^ 16" using unat_less16 [of "e_phnum m fb"] by simp
  moreover have "phdr_at m fb 0 = ptr_from_offset fb (e_phoff m fb)" by (simp add: phdr_at_def ptr_from_offset_def)
  moreover have "segs_from m fb 0 = segments m fb" by (simp add: segs_from_def segments_def)
  ultimately have l: "load_loop (2 ^ 16) 0 (ptr_from_offset fb (e_phoff m fb)) False fb m =
      Ok (\<exists>p\<in>set (segments m fb). p_filesz m p \<noteq> 0, fold (place_segment fb m) (segments m fb) m)"
    "same_file fb m (fold (place_segment fb m) (segments m fb) m)"
    using load_loop_ok [OF assms, of m 0 "2 ^ 16" False] by simp_all
  have "map (\<lambda>i. m (fb + of_nat i)) [0..<4] = elf_header" using assms by (simp add: elf_ok_def)
  then show ?thesis
    using l same_header(3) [OF l(2)] unfolding loadFromInternalBuffer_def by simp
qed

text \<open>
  A file with one program header at offset 52: 16 bytes at offset 84 are loaded at \<open>0x10000000\<close>; the
  buffer is at \<open>0x20002000\<close>.
\<close>

definition demo_mem :: mem where
  "demo_mem = (\<lambda>a. if a < 0x20000000 then 9 else 0)(0x20002000 := 0x7F, 0x20002001 := 0x45, 0x20002002 := 0x4C,
     0x20002003 := 0x46, 0x20002018 := 1, 0x2000201B := 0x10, 0x2000201C := 52, 0x2000202A := 32, 0x2000202C := 1,
     0x20002034 := 1, 0x20002038 := 84, 0x2000203F := 0x10, 0x20002044 := 16, 0x20002048 := 32, 0x20002059 := 7)"

lemma demo_elf:
  "elf_ok demo_mem 0x20002000" "segments demo_mem 0x20002000 = [0x20002034]" "p_filesz demo_mem 0x20002034 = 16"
  "p_vaddr demo_mem 0x20002034 = 0x10000000" "p_memsz demo_mem 0x20002034 = 32" "p_offset demo_mem 0x20002034 = 84"
proof -
  have e: "e_phnum demo_mem 0x20002000 = 1" "e_phoff demo_mem 0x20002000 = 52" "e_phentsize demo_mem 0x20002000 = 32"
    by (simp_all add: e_phnum_def e_phoff_def e_phentsize_def load16_def load32_def demo_mem_def)
  have p: "phdr_at demo_mem 0x20002000 0 = 0x20002034" by (simp add: phdr_at_def e)
  show f: "p_filesz demo_mem 0x20002034 = 16" "p_vaddr demo_mem 0x20002034 = 0x10000000"
    "p_memsz demo_mem 0x20002034 = 32" "p_offset demo_mem 0x20002034 = 84"
    by (simp_all add: p_filesz_def p_vaddr_def p_memsz_def p_offset_def load32_def demo_mem_def)
  have t: "p_type demo_mem 0x20002034 = PT_LOAD"
    by (simp add: p_type_def PT_LOAD_def load32_def demo_mem_def)
  show "segments demo_mem 0x20002000 = [0x20002034]" by (simp add: segments_def e p t)
  have "map (\<lambda>i. demo_mem (0x20002000 + of_nat i)) [0..<4] = elf_header"
    by (simp add: demo_mem_def elf_header_def upt_rec)
  moreover have "in_file 0x20002000 0x20002034 32" by (simp add: in_file_def)
  moreover have "seg_ok demo_mem 0x20002000 0x20002034" by (simp add: seg_ok_def f disjoint_def in_file_def)
  ultimately show "elf_ok demo_mem 0x20002000" by (simp add: elf_ok_def e p)
qed

theorem load_places_segments_witness:
  "\<exists>entry m'. loadFromInternalBuffer 0x20002000 demo_mem = Ok (True, entry, m') \<and> m' 0x10000005 = 7"
proof -
  obtain loaded entry m' where "loadFromInternalBuffer 0x20002000 demo_mem = Ok (loaded, entry, m')"
    "m' = fold (place_segment 0x20002000 demo_mem) [0x20002034] demo_mem" "loaded"
    using load_places_segments [OF demo_elf(1)] demo_elf(2,3) by auto
  moreover have "place_segment 0x20002000 demo_mem 0x20002034 demo_mem 0x10000005 = 7"
    by (simp add: place_segment_def demo_elf move_def) (simp add: demo_mem_def)
  ultimately show ?thesis by auto
qed

text \<open>
  C39: the loader returns for every file, also for one whose segments overwrite the file buffer
  and change the number of program headers while the loop runs.
\<close>

theorem load_terminates: "loadFromInternalBuffer fb m \<noteq> Diverge"
proof -
  have "load_loop (2 ^ 16) 0 p False fb m \<noteq> Diverge" for p by (rule load_loop_ends) simp
  then show ?thesis
    by (cases "load_loop (2 ^ 16) 0 (ptr_from_offset fb (e_phoff m fb)) False fb m")
      (auto simp: loadFromInternalBuffer_def)
qed

text \<open>
  The part of a segment beyond its file contents (\<open>p_filesz\<close> up to \<open>p_memsz\<close>) is not cleared: for a
  file with one segment that has file contents, it keeps what was in memory before.
\<close>

theorem load_skips_bss:
  assumes "elf_ok m fb" and "segments m fb = [p]" and "p_filesz m p \<noteq> 0"
    and "p_filesz m p \<le> off" and "off < p_memsz m p"
  shows "\<exists>entry m'. loadFromInternalBuffer fb m = Ok (True, entry, m') \<and> m' (p_vaddr m p + off) = m (p_vaddr m p + off)"
proof -
  obtain entry where e: "loadFromInternalBuffer fb m = Ok (True, entry, place_segment fb m p m)"
    using load_places_segments [OF assms(1)] assms(2,3) by auto
  have "place_segment fb m p m (p_vaddr m p + off) = m (p_vaddr m p + off)"
    using assms(3,4) by (simp add: place_segment_def move_def word_le_nat_alt)
  then show ?thesis using e by blast
qed

theorem load_skips_bss_witness:
  "\<exists>entry m'. loadFromInternalBuffer 0x20002000 demo_mem = Ok (True, entry, m') \<and> m' 0x10000014 = 9"
proof -
  have "demo_mem 0x10000014 = 9" by (simp add: demo_mem_def)
  then show ?thesis
    using load_skips_bss [OF demo_elf(1,2), of 20] demo_elf by simp
qed

end
