(* ===== verification/AppError.thy ===== *)
theory AppError
  imports Prelude
begin

text \<open>
  The error manager (\<open>source/error.cpp\<close>, \<open>source/error.hpp\<close>): an array of eight error codes filled from
  the front. The class is called a queue in the source, but \<open>pop\<close> takes the newest error; errors
  that come while the array is full are dropped.

  The locale \<open>bounded_stack\<close> states what such a store promises; the error manager is an instance.
\<close>

section \<open>Bounded stacks\<close>

locale bounded_stack =
  fixes push :: "'e \<Rightarrow> 's \<Rightarrow> 's" and pop :: "'s \<Rightarrow> 'e \<times> 's" and items :: "'s \<Rightarrow> 'e list"
    and cap :: nat and ok :: "'s \<Rightarrow> bool"
  assumes push_ok: "ok s \<Longrightarrow> ok (push e s)" and pop_ok: "ok s \<Longrightarrow> ok (snd (pop s))"
    and push_items: "ok s \<Longrightarrow> items (push e s) = (if length (items s) < cap then e # items s else items s)"
    and pop_items: "ok s \<Longrightarrow> items s = e # es \<Longrightarrow> fst (pop s) = e \<and> items (snd (pop s)) = es"
    and items_cap: "ok s \<Longrightarrow> length (items s) \<le> cap"
begin

fun pops :: "nat \<Rightarrow> 's \<Rightarrow> 'e list \<times> 's" where
  "pops 0 s = ([], s)"
| "pops (Suc n) s = (let (e, s) = pop s; (es, s) = pops n s in (e # es, s))"

lemma pushes:
  "ok s \<Longrightarrow> ok (fold push es s) \<and> items (fold push es s) = rev (take (cap - length (items s)) es) @ items s"
proof (induction es arbitrary: s)
  case (Cons e es)
  have c: "length (items s) \<le> cap" using items_cap [OF Cons(2)] .
  show ?case
  proof (cases "length (items s) < cap")
    case True
    then have "cap - length (items s) = Suc (cap - Suc (length (items s)))" by simp
    then show ?thesis using Cons(1) [OF push_ok [OF Cons(2)], of e] push_items [OF Cons(2), of e] True by auto
  next
    case False
    then show ?thesis using Cons(1) [OF push_ok [OF Cons(2)], of e] push_items [OF Cons(2), of e] c by simp
  qed
qed simp

lemma pops_items: "ok s \<Longrightarrow> n \<le> length (items s) \<Longrightarrow>
   fst (pops n s) = take n (items s) \<and> items (snd (pops n s)) = drop n (items s) \<and> ok (snd (pops n s))"
proof (induction n arbitrary: s)
  case (Suc n)
  then obtain e es where it: "items s = e # es" by (cases "items s") auto
  note p = pop_items [OF Suc(2) it]
  have "n \<le> length (items (snd (pop s)))" using p it Suc(3) by simp
  from Suc.IH [OF pop_ok [OF Suc(2)] this] show ?case using p it by (auto simp: case_prod_unfold)
qed simp

lemma lifo:
  assumes "ok s" and "length (items s) + length es \<le> cap"
  shows "fst (pops (length es) (fold push es s)) = rev es \<and> items (snd (pops (length es) (fold push es s))) = items s"
proof -
  have "take (cap - length (items s)) es = es" using assms(2) by simp
  then show ?thesis using pushes [OF assms(1), of es] pops_items [of "fold push es s" "length es"] by simp
qed

end

section \<open>The error manager\<close>

datatype Error = NoError | BadParam | BadParamSize | BadUserCodeLoad | BadUserCodeSize | NotIdle
  | ConversionAborted | NotRunning

fun error_code :: "Error \<Rightarrow> byte" where
  "error_code NoError = 0"
| "error_code BadParam = 1"
| "error_code BadParamSize = 2"
| "error_code BadUserCodeLoad = 3"
| "error_code BadUserCodeSize = 4"
| "error_code NotIdle = 5"
| "error_code ConversionAborted = 6"
| "error_code NotRunning = 7"

definition MAX_ERROR_QUEUE_SIZE :: nat where "MAX_ERROR_QUEUE_SIZE = 8"

record ErrorManager =
  m_queue :: "Error list"
  m_index :: nat

definition em_init :: ErrorManager where
  "em_init = \<lparr>m_queue = replicate MAX_ERROR_QUEUE_SIZE NoError, m_index = 0\<rparr>"

definition em_add :: "Error \<Rightarrow> ErrorManager \<Rightarrow> ErrorManager" where
  "em_add e em =
     (if m_index em < length (m_queue em)
      then em\<lparr>m_queue := (m_queue em)[m_index em := e], m_index := m_index em + 1\<rparr> else em)"

definition em_assert :: "bool \<Rightarrow> Error \<Rightarrow> ErrorManager \<Rightarrow> bool \<times> ErrorManager" where
  "em_assert c e em = (c, if \<not> c then em_add e em else em)"

definition em_hasError :: "ErrorManager \<Rightarrow> bool" where
  "em_hasError em = (m_index em > 0)"

definition em_pop :: "ErrorManager \<Rightarrow> Error \<times> ErrorManager" where
  "em_pop em =
     (if m_index em = 0 then (NoError, em)
      else (m_queue em ! (m_index em - 1), em\<lparr>m_index := m_index em - 1\<rparr>))"

definition em_ok :: "ErrorManager \<Rightarrow> bool" where
  "em_ok em \<longleftrightarrow> length (m_queue em) = MAX_ERROR_QUEUE_SIZE \<and> m_index em \<le> MAX_ERROR_QUEUE_SIZE"

definition em_items :: "ErrorManager \<Rightarrow> Error list" where
  "em_items em = rev (take (m_index em) (m_queue em))"

lemma em_items_length: "em_ok em \<Longrightarrow> length (em_items em) = m_index em"
  by (simp add: em_ok_def em_items_def)

lemma em_add_items:
  assumes "em_ok em"
  shows "em_items (em_add e em) = (if length (em_items em) < MAX_ERROR_QUEUE_SIZE then e # em_items em else em_items em)"
  using assms em_items_length [OF assms]
  by (auto simp: em_add_def em_items_def em_ok_def take_Suc_conv_app_nth)

lemma em_pop_items:
  assumes "em_ok em" and "em_items em = e # es"
  shows "fst (em_pop em) = e \<and> em_items (snd (em_pop em)) = es"
proof -
  have "m_index em = Suc (length es)" using em_items_length [OF assms(1)] assms(2) by simp
  moreover have "take (Suc (length es)) (m_queue em) = take (length es) (m_queue em) @ [m_queue em ! length es]"
    using assms(1) calculation by (intro take_Suc_conv_app_nth) (simp add: em_ok_def)
  ultimately show ?thesis using assms(2) by (auto simp: em_pop_def em_items_def)
qed

interpretation ems: bounded_stack em_add em_pop em_items MAX_ERROR_QUEUE_SIZE em_ok
proof unfold_locales
  show "em_ok (em_add e s)" if "em_ok s" for e s using that by (auto simp: em_ok_def em_add_def)
  show "em_ok (snd (em_pop s))" if "em_ok s" for s using that by (auto simp: em_ok_def em_pop_def)
qed (simp_all add: em_add_items em_pop_items em_items_length, simp add: em_ok_def)

section \<open>Properties\<close>

text \<open>
  The error manager reports the errors it has room for, newest first: after a sequence of
  errors that fits, the same number of \<open>pop\<close>s gives them in reverse order and leaves the errors
  that were pending before; beyond eight pending errors the new ones are dropped.
\<close>

theorem errors_reported:
  assumes "em_ok em"
  shows "(length (em_items em) + length es \<le> MAX_ERROR_QUEUE_SIZE \<longrightarrow>
      fst (ems.pops (length es) (fold em_add es em)) = rev es \<and>
      em_items (snd (ems.pops (length es) (fold em_add es em))) = em_items em) \<and>
    em_items (fold em_add es em) = rev (take (MAX_ERROR_QUEUE_SIZE - length (em_items em)) es) @ em_items em"
  using ems.lifo [OF assms] ems.pushes [OF assms] by blast

theorem errors_reported_witness:
  "fst (ems.pops (length [NotIdle, BadParam]) (fold em_add [NotIdle, BadParam] em_init)) = [BadParam, NotIdle]"
proof -
  have "em_ok em_init" "em_items em_init = []" by (simp_all add: em_ok_def em_init_def em_items_def)
  then show ?thesis using errors_reported [of em_init "[NotIdle, BadParam]"] by (simp add: MAX_ERROR_QUEUE_SIZE_def)
qed

end
