(* ===== verification/Analog.thy ===== *)
theory Analog
  imports HalDrivers
begin

text \<open>
  The analog front end of the application on the L4 target: the sample clock
  (\<open>source/sclock.cpp\<close>), the ADC (\<open>source/periph/adc.cpp\<close>) and the DAC (\<open>source/periph/dac.cpp\<close>). The
  static members of the three classes and the driver objects they use are the fields of one
  record. The clock counts its users; the timer should run exactly while a conversion is active.

  The pin modes and the low level drivers are outside of the model. \<open>ADC::readAlt\<close> busy-waits for an
  interrupt: \<open>hw\<close> is what the hardware delivers into the static array at \<open>buf\<close>, or that it never does. \<open>ADC::setRate\<close> busy-waits for
  the PLL to stop and to lock again; \<open>pll\<close> says whether it does. The registers and the fields of the
  conversion groups that it writes are fields of the record.
\<close>

section \<open>State\<close>

datatype operation = NoOperation | OpReadHandler | OpReadHandlerMeasure

record analog =
  gptd :: GPTDriver
  adcd :: ADCDriver
  adcd2 :: ADCDriver
  dacd :: "nat \<Rightarrow> DACDriver"
  sc_div :: u32
  sc_runcount :: u32
  m_current_buffer :: ptr
  m_current_buffer_size :: u32
  m_operation :: operation
  dacIsDone :: int
  rcc_cr :: u32
  rcc_pllsai2cfgr :: u32
  group_smpr :: u32
  group_cfgr2 :: u32
  group2_cfgr2 :: u32

section \<open>The sample clock\<close>

definition sc_timer_config :: GPTConfig where
  "sc_timer_config = \<lparr>gpt_frequency = 36000000, gpt_has_callback = False\<rparr>"

definition rate_divs :: "u32 list" where
  "rate_divs = [4500, 2250, 1800, 1125, 750, 375]"

definition SClock_begin :: "analog \<Rightarrow> kernel \<Rightarrow> (analog \<times> kernel) kres" where
  "SClock_begin a k = kbind (gptStart sc_timer_config (gptd a) k) (\<lambda>(d, k). Ok (a\<lparr>gptd := d\<rparr>, k))"

definition SClock_start :: "analog \<Rightarrow> kernel \<Rightarrow> (analog \<times> kernel) kres" where
  "SClock_start a k =
     (let n = sc_runcount a; a = a\<lparr>sc_runcount := n + 1\<rparr>
      in if n = 0
         then kbind (gptStartContinuous (sc_div a) (gptd a) k) (\<lambda>(d, k). Ok (a\<lparr>gptd := d\<rparr>, k))
         else Ok (a, k))"

definition SClock_stop :: "analog \<Rightarrow> kernel \<Rightarrow> (analog \<times> kernel) kres" where
  "SClock_stop a k =
     (let a = a\<lparr>sc_runcount := sc_runcount a - 1\<rparr>
      in if sc_runcount a = 0
         then kbind (gptStopTimer (gptd a) k) (\<lambda>(d, k). Ok (a\<lparr>gptd := d\<rparr>, k))
         else Ok (a, k))"

definition SClock_setRate :: "u32 \<Rightarrow> analog \<Rightarrow> analog kres" where
  "SClock_setRate rate a =
     (if unat rate < length rate_divs then Ok (a\<lparr>sc_div := rate_divs ! unat rate\<rparr>) else Undef)"

fun find_rate :: "u32 \<Rightarrow> u32 list \<Rightarrow> u32 \<Rightarrow> u32" where
  "find_rate d [] i = - 1"
| "find_rate d (x # xs) i = (if x = d then i else find_rate d xs (i + 1))"

definition SClock_getRate :: "analog \<Rightarrow> u32" where
  "SClock_getRate a = find_rate (sc_div a) rate_divs 0"

section \<open>The ADC\<close>

definition adc_group_config :: ADCConversionGroup where
  "adc_group_config = \<lparr>adc_circular = True, adc_num_channels = 1, adc_has_end_cb = True, adc_has_error_cb = False\<rparr>"

definition adc_group_config2 :: ADCConversionGroup where
  "adc_group_config2 = \<lparr>adc_circular = False, adc_num_channels = 2, adc_has_end_cb = True, adc_has_error_cb = False\<rparr>"

definition ADC_begin :: "analog \<Rightarrow> kernel \<Rightarrow> (analog \<times> kernel) kres" where
  "ADC_begin a k =
     kbind (adcStart (adcd a) k) (\<lambda>(d, k).
     kbind (adcStart (adcd2 a) k) (\<lambda>(d2, k). Ok (a\<lparr>adcd := d, adcd2 := d2\<rparr>, k)))"

definition ADC_start :: "ptr \<Rightarrow> u32 \<Rightarrow> operation \<Rightarrow> analog \<Rightarrow> kernel \<Rightarrow> (analog \<times> kernel) kres" where
  "ADC_start buffer count op a k =
     (let a = a\<lparr>m_current_buffer := buffer, m_current_buffer_size := count, m_operation := op\<rparr>
      in kbind (adcStartConversion adc_group_config buffer count (adcd a) k) (\<lambda>(d, k).
         SClock_start (a\<lparr>adcd := d\<rparr>) k))"

definition ADC_stop :: "analog \<Rightarrow> kernel \<Rightarrow> (analog \<times> kernel) kres" where
  "ADC_stop a k =
     kbind (SClock_stop a k) (\<lambda>(a, k).
     kbind (adcStopConversion (adcd a) k) (\<lambda>(d, k).
     Ok (a\<lparr>adcd := d, m_current_buffer := NULL, m_current_buffer_size := 0, m_operation := NoOperation\<rparr>, k)))"

text \<open>The callback of the second conversion group only sets a flag that \<open>readAlt\<close> waits for.\<close>

definition readAltCallback :: "ADCDriver \<Rightarrow> bool \<Rightarrow> (ADCDriver \<times> bool) kres" where
  "readAltCallback d done_flag = Ok (d, True)"

definition ADC_readAlt :: "ptr \<Rightarrow> (nat \<Rightarrow> u16) option \<Rightarrow> u32 \<Rightarrow> analog \<Rightarrow> kernel \<Rightarrow> (u16 \<times> analog \<times> kernel) kres" where
  "ADC_readAlt buf hw i a k =
     (if i > 1 then Ok (0, a, k)
      else kbind (adcStartConversion adc_group_config2 buf 8 (adcd2 a) k) (\<lambda>(d, k).
           case hw of None \<Rightarrow> Diverge
           | Some result \<Rightarrow>
               kbind (adc_isr_full_code readAltCallback d False) (\<lambda>(d, done_flag).
               if \<not> done_flag then Diverge
               else kbind (adcStopConversion d k) (\<lambda>(d, k). Ok (result (unat i), a\<lparr>adcd2 := d\<rparr>, k)))))"

definition rate_presets :: "(u32 \<times> u32 \<times> u32) list" where
  "rate_presets =
     (let SMP_12P5 = 2; SMP_6P5 = 1
      in [(16, 1, SMP_12P5), (16, 0, SMP_12P5), (20, 0, SMP_12P5), (32, 0, SMP_12P5), (48, 0, SMP_12P5), (73, 0, SMP_6P5)])"

definition oversample_8x :: u32 where
  "oversample_8x = 1 OR push_bit 2 2 OR push_bit 5 3"

definition ADC_setRate :: "bool \<Rightarrow> u32 \<Rightarrow> analog \<Rightarrow> analog kres" where
  "ADC_setRate pll rate a =
     (if \<not> unat rate < length rate_presets then Undef
      else let (n, r, smpr) = rate_presets ! unat rate;
               pllnr = push_bit 8 n OR push_bit 25 r;
               on = push_bit 28 1; msk = push_bit 8 0x7F OR push_bit 25 3;
               a = a\<lparr>rcc_cr := rcc_cr a AND NOT on\<rparr>
           in if \<not> pll then Diverge
              else let a = a\<lparr>rcc_pllsai2cfgr := (rcc_pllsai2cfgr a AND NOT msk) OR pllnr\<rparr>;
                       a = a\<lparr>rcc_cr := rcc_cr a OR on\<rparr>
                   in Ok (a\<lparr>group_smpr := push_bit 15 smpr, group_cfgr2 := oversample_8x, group2_cfgr2 := oversample_8x\<rparr>))"

definition ADC_setOperation :: "operation \<Rightarrow> analog \<Rightarrow> analog" where
  "ADC_setOperation op a = a\<lparr>m_operation := op\<rparr>"

definition ADC_conversionCallback ::
  "(operation \<Rightarrow> ptr \<Rightarrow> u32 \<Rightarrow> 's \<Rightarrow> 's kres) \<Rightarrow> analog \<Rightarrow> ADCDriver \<Rightarrow> 's \<Rightarrow> (ADCDriver \<times> 's) kres" where
  "ADC_conversionCallback call a driver s =
     (if m_operation a \<noteq> NoOperation
      then let half_size = m_current_buffer_size a div 2
           in kbind (if adcIsBufferComplete driver
                     then call (m_operation a) (m_current_buffer a + 2 * half_size) half_size s
                     else call (m_operation a) (m_current_buffer a) half_size s) (\<lambda>s. Ok (driver, s))
      else Ok (driver, s))"

section \<open>The DAC\<close>

definition dac_group_config :: DACConversionGroup where
  "dac_group_config = \<lparr>dac_num_channels = 1, dac_has_end_cb = True, dac_has_error_cb = False\<rparr>"

definition set_dac :: "nat \<Rightarrow> DACDriver \<Rightarrow> analog \<Rightarrow> analog" where
  "set_dac c d a = a\<lparr>dacd := (dacd a)(c := d)\<rparr>"

definition DAC_begin :: "analog \<Rightarrow> kernel \<Rightarrow> (analog \<times> kernel) kres" where
  "DAC_begin a k =
     kbind (dacStart (dacd a 0) k) (\<lambda>(d, k).
     kbind (dacStart (dacd a 1) k) (\<lambda>(d2, k). Ok (set_dac 1 d2 (set_dac 0 d a), k)))"

definition DAC_start :: "int \<Rightarrow> ptr \<Rightarrow> u32 \<Rightarrow> analog \<Rightarrow> kernel \<Rightarrow> (analog \<times> kernel) kres" where
  "DAC_start channel buffer count a k =
     (if channel \<ge> 0 \<and> channel < 2
      then let a = (if channel = 1 then a\<lparr>dacIsDone := - 1\<rparr> else a)
           in kbind (dacStartConversion dac_group_config buffer count (dacd a (nat channel)) k) (\<lambda>(d, k).
              SClock_start (set_dac (nat channel) d a) k)
      else Ok (a, k))"

definition DAC_sigGenWantsMore :: "analog \<Rightarrow> int \<times> analog" where
  "DAC_sigGenWantsMore a = (if dacIsDone a \<noteq> - 1 then (dacIsDone a, a\<lparr>dacIsDone := - 1\<rparr>) else (- 1, a))"

definition DAC_isSigGenRunning :: "analog \<Rightarrow> bool" where
  "DAC_isSigGenRunning a = (dac_state (dacd a 1) = DAC_ACTIVE)"

definition DAC_stop :: "int \<Rightarrow> analog \<Rightarrow> kernel \<Rightarrow> (analog \<times> kernel) kres" where
  "DAC_stop channel a k =
     (if channel \<ge> 0 \<and> channel < 2
      then kbind (dacStopConversion (dacd a (nat channel)) k) (\<lambda>(d, k).
           SClock_stop (set_dac (nat channel) d a) k)
      else Ok (a, k))"

definition dacEndCallback :: "nat \<Rightarrow> DACDriver \<Rightarrow> analog \<Rightarrow> (DACDriver \<times> analog) kres" where
  "dacEndCallback channel d a =
     Ok (d, if channel = 1 then a\<lparr>dacIsDone := (if dacIsBufferComplete d then 1 else 0)\<rparr> else a)"

section \<open>The clock and the conversions\<close>

definition users :: "analog \<Rightarrow> nat" where
  "users a = of_bool (adc_active (adcd a)) + of_bool (dac_active (dacd a 0)) + of_bool (dac_active (dacd a 1))"

text \<open>
  \<open>clock_inv a\<close>: every converter is ready or converting, the clock counts the active ones, and the
  timer runs exactly when there are some.
\<close>

definition clock_inv :: "analog \<Rightarrow> bool" where
  "clock_inv a \<longleftrightarrow>
     (adc_ready (adcd a) \<or> adc_active (adcd a)) \<and>
     (\<forall>c<2. dac_ready (dacd a c) \<or> dac_active (dacd a c)) \<and>
     sc_runcount a = of_nat (users a) \<and>
     gpt_state (gptd a) = (if users a = 0 then GPT_READY else GPT_CONTINUOUS)"

lemma users_le: "users a \<le> 3"
  by (simp add: users_def)

lemma runcount_zero:
  assumes "sc_runcount a = of_nat n" and "n \<le> 4"
  shows "sc_runcount a = 0 \<longleftrightarrow> n = 0" and "0 < n \<Longrightarrow> sc_runcount a - 1 = of_nat (n - 1)"
proof -
  have "n \<in> {0, 1, 2, 3, 4}" using assms(2) by auto
  then show "sc_runcount a = 0 \<longleftrightarrow> n = 0" "0 < n \<Longrightarrow> sc_runcount a - 1 = of_nat (n - 1)"
    unfolding assms(1) by auto
qed

text \<open>The clock gains or loses one user; the converters are the caller's business.\<close>

lemma SClock_start_ok:
  assumes "running k" and "sc_runcount a = of_nat n" and "n \<le> 3"
    and "gpt_state (gptd a) = (if n = 0 then GPT_READY else GPT_CONTINUOUS)"
  shows "\<exists>d. SClock_start a k = Ok (a\<lparr>sc_runcount := of_nat (Suc n), gptd := d\<rparr>, k) \<and> gpt_state d = GPT_CONTINUOUS"
proof -
  have z: "sc_runcount a = 0 \<longleftrightarrow> n = 0" using runcount_zero(1) [OF assms(2)] assms(3) by simp
  have s: "of_nat n + 1 = (of_nat (Suc n) :: u32)" by simp
  show ?thesis
  proof (cases "n = 0")
    case True
    then show ?thesis using z assms(2,4) gpt_start_eq [OF assms(1)]
      by (intro exI [of _ "gpt_do (gpt_lld_start_timer (sc_div a)) ((gptd a)\<lparr>gpt_state := GPT_CONTINUOUS\<rparr>)"])
        (simp add: SClock_start_def Let_def gpt_do_def)
  next
    case False
    then have "SClock_start a k = Ok (a\<lparr>sc_runcount := of_nat (Suc n)\<rparr>, k)"
      using z assms(2) s by (simp add: SClock_start_def Let_def add.commute)
    then show ?thesis using False assms(4) by (intro exI [of _ "gptd a"]) simp
  qed
qed

lemma SClock_stop_ok:
  assumes "running k" and "sc_runcount a = of_nat (Suc n)" and "n \<le> 3" and "gpt_state (gptd a) = GPT_CONTINUOUS"
  shows "\<exists>d. SClock_stop a k = Ok (a\<lparr>sc_runcount := of_nat n, gptd := d\<rparr>, k) \<and>
    gpt_state d = (if n = 0 then GPT_READY else GPT_CONTINUOUS)"
proof -
  have s: "sc_runcount a - 1 = of_nat n" using assms(2) by simp
  have z: "(of_nat n :: u32) = 0 \<longleftrightarrow> n = 0"
    using runcount_zero(1) [of "a\<lparr>sc_runcount := of_nat n\<rparr>" n] assms(3) by simp
  show ?thesis
  proof (cases "n = 0")
    case True
    then show ?thesis using s assms(4) gpt_stop_eq [OF assms(1)]
      by (intro exI [of _ "(gpt_do gpt_lld_stop_timer (gptd a))\<lparr>gpt_state := GPT_READY\<rparr>"])
        (simp add: SClock_stop_def Let_def gpt_do_def)
  next
    case False
    then have "SClock_stop a k = Ok (a\<lparr>sc_runcount := of_nat n\<rparr>, k)" using z s by (simp add: SClock_stop_def Let_def)
    then show ?thesis using False assms(4) by (intro exI [of _ "gptd a"]) simp
  qed
qed


lemma clock_inv_iff:
  "clock_inv a \<longleftrightarrow>
    (adc_ready (adcd a) \<or> adc_active (adcd a)) \<and> (dac_ready (dacd a 0) \<or> dac_active (dacd a 0)) \<and>
    (dac_ready (dacd a 1) \<or> dac_active (dacd a 1)) \<and> sc_runcount a = of_nat (users a) \<and>
    gpt_state (gptd a) = (if users a = 0 then GPT_READY else GPT_CONTINUOUS)"
proof -
  have "(\<forall>c<2::nat. P c) \<longleftrightarrow> P 0 \<and> P 1" for P by (auto simp: less_2_cases_iff)
  then show ?thesis by (auto simp: clock_inv_def)
qed

text \<open>
  A converter has just become active, or has just been stopped, in \<open>b\<close>: the clock follows.
\<close>

lemma clock_follows_start:
  assumes "running k" and "clock_inv a" and "users b = Suc (users a)"
    and "sc_runcount b = sc_runcount a" and "gptd b = gptd a"
    and "adc_ready (adcd b) \<or> adc_active (adcd b)" and "\<And>c. c < 2 \<Longrightarrow> dac_ready (dacd b c) \<or> dac_active (dacd b c)"
  obtains b' where "SClock_start b k = Ok (b', k)" and "clock_inv b'" and "users b' = Suc (users a)"
    and "adcd b' = adcd b" and "dacd b' = dacd b"
proof -
  obtain d where d: "SClock_start b k = Ok (b\<lparr>sc_runcount := of_nat (Suc (users a)), gptd := d\<rparr>, k)"
    "gpt_state d = GPT_CONTINUOUS"
    using SClock_start_ok [OF assms(1), of b "users a"] assms(2,4,5) users_le [of a] by (auto simp: clock_inv_def)
  let ?b = "b\<lparr>sc_runcount := of_nat (Suc (users a)), gptd := d\<rparr>"
  have u: "users ?b = Suc (users a)" using assms(3) by (simp add: users_def)
  then have "clock_inv ?b" using assms(6,7) d(2) unfolding clock_inv_def u by simp
  then show ?thesis using that [of ?b] d(1) u by simp
qed

lemma clock_follows_stop:
  assumes "running k" and "clock_inv a" and "users a = Suc n"
    and "sc_runcount b = sc_runcount a" and "gptd b = gptd a"
  obtains d where "SClock_stop b k = Ok (b\<lparr>sc_runcount := of_nat n, gptd := d\<rparr>, k)"
    and "gpt_state d = (if n = 0 then GPT_READY else GPT_CONTINUOUS)"
  using SClock_stop_ok [OF assms(1), of b n] assms(2-5) users_le [of a] by (auto simp: clock_inv_def)

lemma ADC_start_keeps:
  assumes "running k" and "clock_inv a" and "adc_ready (adcd a)" and "adc_valid buffer n"
  obtains a' where "ADC_start buffer n op a k = Ok (a', k)" and "clock_inv a'" and "users a' = Suc (users a)"
    and "adc_active (adcd a')" and "dacd a' = dacd a"
proof -
  obtain d where d: "adcStartConversion adc_group_config buffer n (adcd a) k = Ok (d, k)" "adc_active d"
    using adc.start_ready [OF assms(1,3,4)] by blast
  let ?b = "a\<lparr>m_current_buffer := buffer, m_current_buffer_size := n, m_operation := op, adcd := d\<rparr>"
  have r: "\<not> adc_active (adcd a)" using adc.not_both assms(3) by blast
  have "users ?b = Suc (users a)" using d(2) r by (simp add: users_def)
  then obtain b' where "SClock_start ?b k = Ok (b', k)" "clock_inv b'" "users b' = Suc (users a)" "adcd b' = d" "dacd b' = dacd a"
    using clock_follows_start [OF assms(1,2), of ?b] d(2) assms(2) by (auto simp: clock_inv_def)
  then show ?thesis using that d by (simp add: ADC_start_def Let_def)
qed

lemma ADC_stop_keeps:
  assumes "running k" and "clock_inv a" and "adc_active (adcd a)"
  obtains a' where "ADC_stop a k = Ok (a', k)" and "clock_inv a'" and "users a = Suc (users a')"
    and "adc_ready (adcd a')" and "dacd a' = dacd a"
proof -
  obtain n where n: "users a = Suc n" using assms(3) by (auto simp: users_def)
  obtain d where d: "SClock_stop a k = Ok (a\<lparr>sc_runcount := of_nat n, gptd := d\<rparr>, k)"
    "gpt_state d = (if n = 0 then GPT_READY else GPT_CONTINUOUS)"
    using clock_follows_stop [OF assms(1,2) n] by blast
  obtain e where e: "adcStopConversion (adcd a) k = Ok (e, k)" "adc_ready e"
    using adc.stop_ok [OF assms(1)] assms(3) by blast
  have ne: "\<not> adc_active e" using adc.not_both e(2) by blast
  let ?b = "a\<lparr>sc_runcount := of_nat n, gptd := d, adcd := e, m_current_buffer := NULL, m_current_buffer_size := 0,
    m_operation := NoOperation\<rparr>"
  have u: "users ?b = n" using n assms(3) ne by (simp add: users_def)
  then have "clock_inv ?b" using assms(2) e(2) d(2) unfolding clock_inv_def u by simp
  moreover have "ADC_stop a k = Ok (?b, k)" using d(1) e(1) by (simp add: ADC_stop_def)
  moreover have "adc_ready (adcd ?b)" "dacd ?b = dacd a" using e(2) by simp_all
  ultimately show ?thesis using that n u by metis
qed

lemma DAC_start_keeps:
  assumes "running k" and "clock_inv a" and "c < 2" and "dac_ready (dacd a c)" and "dac_valid buffer n"
  obtains a' where "DAC_start (int c) buffer n a k = Ok (a', k)" and "clock_inv a'" and "users a' = Suc (users a)"
    and "adcd a' = adcd a" and "dac_active (dacd a' c)" and "\<And>i. i \<noteq> c \<Longrightarrow> dacd a' i = dacd a i"
proof -
  obtain d where d: "dacStartConversion dac_group_config buffer n (dacd a c) k = Ok (d, k)" "dac_active d"
    using dac.start_ready [OF assms(1,4,5)] by blast
  let ?a = "if c = 1 then a\<lparr>dacIsDone := - 1\<rparr> else a"
  let ?b = "set_dac c d ?a"
  have r: "\<not> dac_active (dacd a c)" using dac.not_both assms(4) by blast
  have u: "users ?b = Suc (users a)" using d(2) r assms(3) by (auto simp: users_def set_dac_def less_2_cases_iff)
  have f: "sc_runcount ?b = sc_runcount a" "gptd ?b = gptd a" "adc_ready (adcd ?b) \<or> adc_active (adcd ?b)"
    using assms(2) by (auto simp: set_dac_def clock_inv_def)
  have g: "dac_ready (dacd ?b i) \<or> dac_active (dacd ?b i)" if "i < 2" for i
    using assms(2) d(2) that by (auto simp: set_dac_def clock_inv_def)
  obtain b' where b: "SClock_start ?b k = Ok (b', k)" "clock_inv b'" "users b' = Suc (users a)" "adcd b' = adcd ?b" "dacd b' = dacd ?b"
    using clock_follows_start [OF assms(1,2) u f g] by blast
  have "DAC_start (int c) buffer n a k = SClock_start ?b k"
    using assms(3) d(1) by (auto simp: DAC_start_def Let_def)
  then show ?thesis using that [of b'] b d(2) by (simp add: set_dac_def)
qed

lemma DAC_stop_keeps:
  assumes "running k" and "clock_inv a" and "c < 2" and "dac_active (dacd a c)"
  obtains a' where "DAC_stop (int c) a k = Ok (a', k)" and "clock_inv a'" and "users a = Suc (users a')"
    and "adcd a' = adcd a" and "dac_ready (dacd a' c)" and "\<And>i. i \<noteq> c \<Longrightarrow> dacd a' i = dacd a i"
proof -
  obtain n where n: "users a = Suc n" using assms(3,4) by (auto simp: users_def less_2_cases_iff)
  obtain e where e: "dacStopConversion (dacd a c) k = Ok (e, k)" "dac_ready e"
    using dac.stop_ok [OF assms(1)] assms(4) by blast
  have ne: "\<not> dac_active e" using dac.not_both e(2) by blast
  let ?a = "set_dac c e a"
  obtain d where d: "SClock_stop ?a k = Ok (?a\<lparr>sc_runcount := of_nat n, gptd := d\<rparr>, k)"
    "gpt_state d = (if n = 0 then GPT_READY else GPT_CONTINUOUS)"
    using clock_follows_stop [OF assms(1,2) n, of ?a] by (auto simp: set_dac_def)
  let ?b = "?a\<lparr>sc_runcount := of_nat n, gptd := d\<rparr>"
  have u: "users ?b = n" using n assms(3,4) ne by (auto simp: users_def set_dac_def less_2_cases_iff)
  then have "clock_inv ?b" using assms(2) e(2) d(2) unfolding clock_inv_def u by (simp add: set_dac_def)
  moreover have "DAC_stop (int c) a k = Ok (?b, k)" using d(1) e(1) assms(3) by (simp add: DAC_stop_def)
  ultimately show ?thesis using that [of ?b] n u e(2) by (simp add: set_dac_def)
qed


section \<open>Reachable states\<close>

text \<open>
  What the application does with the converters: it starts one with any arguments, it stops one that
  converts, it changes the rate, and the DMA of a DAC raises an interrupt.
\<close>

inductive analog_step :: "kernel \<Rightarrow> analog \<Rightarrow> analog \<Rightarrow> bool" for k where
  start_adc: "ADC_start buffer n op a k = Ok (a', k') \<Longrightarrow> analog_step k a a'"
| stop_adc: "adc_active (adcd a) \<Longrightarrow> ADC_stop a k = Ok (a', k') \<Longrightarrow> analog_step k a a'"
| start_dac: "c < 2 \<Longrightarrow> DAC_start (int c) buffer n a k = Ok (a', k') \<Longrightarrow> analog_step k a a'"
| stop_dac: "c < 2 \<Longrightarrow> dac_active (dacd a c) \<Longrightarrow> DAC_stop (int c) a k = Ok (a', k') \<Longrightarrow> analog_step k a a'"
| rate: "SClock_setRate r a = Ok a' \<Longrightarrow> ADC_setRate pll r a' = Ok a'' \<Longrightarrow> analog_step k a a''"
| half_dac: "c < 2 \<Longrightarrow> dac_isr_half_code (dacEndCallback c) (dacd a c) a = Ok (d, a') \<Longrightarrow> analog_step k a (set_dac c d a')"
| full_dac: "c < 2 \<Longrightarrow> dac_active (dacd a c) \<Longrightarrow> dac_has_end_cb (the (dac_grpp (dacd a c))) \<Longrightarrow>
    dac_isr_full_code (dacEndCallback c) (dacd a c) a = Ok (d, a') \<Longrightarrow> analog_step k a (set_dac c d a')"
| more: "DAC_sigGenWantsMore a = (i, a') \<Longrightarrow> analog_step k a a'"

inductive analog_reach :: "kernel \<Rightarrow> analog \<Rightarrow> bool" for k where
  init: "ADC_begin a k = Ok (b, k1) \<Longrightarrow> DAC_begin b k1 = Ok (c, k2) \<Longrightarrow> SClock_begin c k2 = Ok (d, k3) \<Longrightarrow>
    sc_runcount a = 0 \<Longrightarrow> analog_reach k d"
| step: "analog_reach k a \<Longrightarrow> analog_step k a a' \<Longrightarrow> analog_reach k a'"

lemma clock_inv_frame:
  assumes "clock_inv a" and "gptd b = gptd a" "adcd b = adcd a" "dacd b = dacd a" "sc_runcount b = sc_runcount a"
  shows "clock_inv b"
  using assms by (simp add: clock_inv_def users_def)

lemma set_dac_same: "dacd b = dacd a \<Longrightarrow> d = dacd a c \<Longrightarrow> dacd (set_dac c d b) = dacd a"
  by (simp add: set_dac_def)

lemma set_dac_frame [simp]:
  "gptd (set_dac c d a) = gptd a" "adcd (set_dac c d a) = adcd a" "sc_runcount (set_dac c d a) = sc_runcount a"
  by (simp_all add: set_dac_def)

lemma dacEndCallback_frame:
  assumes "dacEndCallback c d a = Ok (d', a')"
  shows "d' = d \<and> gptd a' = gptd a \<and> adcd a' = adcd a \<and> dacd a' = dacd a \<and> sc_runcount a' = sc_runcount a"
  using assms by (auto simp: dacEndCallback_def)

text \<open>A start that returns was made on a ready converter with valid arguments.\<close>

lemma ADC_start_Ok:
  assumes "running k" and "clock_inv a" and "ADC_start buffer n op a k = Ok r"
  shows "adc_ready (adcd a)" and "adc_valid buffer n"
proof -
  have "\<exists>r. adcStartConversion adc_group_config buffer n (adcd a) k = Ok r"
    using assms(3) by (auto simp: ADC_start_def Let_def)
  then show "adc_ready (adcd a)" "adc_valid buffer n"
    using adc.start_iff [OF assms(1), of "adcd a"] assms(2) by (auto simp: clock_inv_def)
qed

lemma DAC_start_Ok:
  assumes "running k" and "clock_inv a" and "c < 2" and "DAC_start (int c) buffer n a k = Ok r"
  shows "dac_ready (dacd a c)" and "dac_valid buffer n"
proof -
  have "\<exists>r. dacStartConversion dac_group_config buffer n (dacd a c) k = Ok r"
    using assms(3,4) by (auto simp: DAC_start_def Let_def split: if_splits)
  then show "dac_ready (dacd a c)" "dac_valid buffer n"
    using dac.start_iff [OF assms(1), of "dacd a c"] assms(2,3) by (auto simp: clock_inv_def)
qed

lemma analog_step_keeps:
  assumes "running k" and "analog_step k a a'" and "clock_inv a"
  shows "clock_inv a'"
  using assms(2,3)
proof cases
  case (start_adc buffer n op k')
  then show ?thesis using ADC_start_Ok [OF assms(1,3)] ADC_start_keeps [OF assms(1,3), of buffer n op] by fastforce
next
  case (stop_adc k')
  then show ?thesis using ADC_stop_keeps [OF assms(1,3)] by fastforce
next
  case (start_dac c buffer n k')
  then show ?thesis using DAC_start_Ok [OF assms(1,3)] DAC_start_keeps [OF assms(1,3), of c buffer n] by fastforce
next
  case (stop_dac c k')
  then show ?thesis using DAC_stop_keeps [OF assms(1,3), of c] by fastforce
next
  case (rate r b pll)
  then show ?thesis using assms(3)
    by (auto simp: SClock_setRate_def ADC_setRate_def Let_def case_prod_beta intro: clock_inv_frame split: if_splits)
next
  case (half_dac c d b)
  then have "dacEndCallback c (dacd a c) a = Ok (d, b) \<or> (d, b) = (dacd a c, a)"
    by (auto simp: dac_isr_half_code_def split: option.splits if_splits)
  then have "d = dacd a c \<and> gptd b = gptd a \<and> adcd b = adcd a \<and> dacd b = dacd a \<and> sc_runcount b = sc_runcount a"
    using dacEndCallback_frame [of c "dacd a c" a d b] by auto
  then show ?thesis using half_dac(1) set_dac_same [of b a d c] by (auto intro!: clock_inv_frame [OF assms(3)])
next
  case (full_dac c d b)
  let ?d = "(dacd a c)\<lparr>dac_state := DAC_COMPLETE\<rparr>"
  obtain b' where b: "dacEndCallback c ?d a = Ok (?d, b')" by (simp add: dacEndCallback_def)
  then have "(d, b) = (dacd a c, b')" using dac_full_active [of "dacd a c" "dacEndCallback c" a b', OF full_dac(3,4) b] full_dac(5) by simp
  then show ?thesis using full_dac(1) set_dac_same [of b a d c] dacEndCallback_frame [OF b] by (auto intro!: clock_inv_frame [OF assms(3)])
next
  case (more i)
  then show ?thesis using assms(3) by (auto simp: DAC_sigGenWantsMore_def intro: clock_inv_frame split: if_splits)
qed


lemma init_inv:
  assumes "running k" and "ADC_begin a k = Ok (b, k1)" and "DAC_begin b k1 = Ok (c, k2)"
    and "SClock_begin c k2 = Ok (d, k3)" and "sc_runcount a = 0"
  shows "clock_inv d"
proof -
  have 1: "k1 = k \<and> adc_ready (adcd b) \<and> sc_runcount b = 0"
    using assms(2,5) by (auto simp: ADC_begin_def adcStart_def hal_locked_eq [OF assms(1)] kguard_def adc_ready_def split: if_splits)
  have 2: "k2 = k \<and> adcd c = adcd b \<and> sc_runcount c = 0 \<and> dac_ready (dacd c 0) \<and> dac_ready (dacd c 1)"
    using assms(3) 1 by (auto simp: DAC_begin_def dacStart_def hal_locked_eq [OF assms(1)] kguard_def dac_ready_def set_dac_def split: if_splits)
  have 3: "adcd d = adcd c \<and> dacd d = dacd c \<and> sc_runcount d = 0 \<and> gpt_state (gptd d) = GPT_READY"
    using assms(4) 2 by (auto simp: SClock_begin_def gptStart_def hal_locked_eq [OF assms(1)] kguard_def split: if_splits)
  have "users d = 0"
    using 1 2 3 adc.not_both [of "adcd d"] dac.not_both [of "dacd d 0"] dac.not_both [of "dacd d 1"] by (simp add: users_def)
  then show ?thesis using 1 2 3 by (simp add: clock_inv_iff)
qed

lemma analog_reach_inv:
  assumes "analog_reach k a" and "running k"
  shows "clock_inv a"
  using assms(1)
proof induction
  case (init a b k1 c k2 d k3)
  then show ?case using init_inv [OF assms(2)] by blast
next
  case (step a a')
  then show ?case using analog_step_keeps [OF assms(2)] by blast
qed

section \<open>Properties\<close>


definition demo_gpt :: GPTDriver where
  "demo_gpt = \<lparr>gpt_state = GPT_STOP, gpt_config = None, gpt_lld = []\<rparr>"

definition demo_analog :: analog where
  "demo_analog = \<lparr>gptd = demo_gpt, adcd = demo_adc, adcd2 = demo_adc, dacd = (\<lambda>_. demo_dac), sc_div = 1125, sc_runcount = 0,
     m_current_buffer = NULL, m_current_buffer_size = 0, m_operation = NoOperation, dacIsDone = - 1,
     rcc_cr = 0, rcc_pllsai2cfgr = 0, group_smpr = 0, group_cfgr2 = 0, group2_cfgr2 = 0\<rparr>"

lemma demo_analog_begin:
  assumes "running k"
  shows "\<exists>b c d. ADC_begin demo_analog k = Ok (b, k) \<and> DAC_begin b k = Ok (c, k) \<and> SClock_begin c k = Ok (d, k) \<and>
    adc_ready (adcd d)"
  by (auto simp: ADC_begin_def DAC_begin_def SClock_begin_def adcStart_def dacStart_def gptStart_def hal_locked_eq [OF assms]
    kguard_def demo_analog_def demo_adc_def demo_dac_def demo_gpt_def set_dac_def adc_do_def dac_do_def gpt_do_def adc_ready_def)


text \<open>
  C40: stopping the generator when it does not run is not refused: with no converter active it wraps
  the clock's user count to its maximum, and the next conversion is started without a sample clock.
\<close>

theorem stop_underflow:
  assumes "running k" and "clock_inv a" and "users a = 0" and "adc_valid buffer n"
  shows "\<exists>b c. DAC_stop 1 a k = Ok (b, k) \<and> sc_runcount b = - 1 \<and>
    ADC_start buffer n op b k = Ok (c, k) \<and> adc_active (adcd c) \<and> sc_runcount c = 0 \<and> gpt_state (gptd c) = GPT_READY"
proof -
  have z: "sc_runcount a = 0" "gpt_state (gptd a) = GPT_READY" "dac_ready (dacd a 1)" "adc_ready (adcd a)"
    using assms(2,3) by (auto simp: clock_inv_iff users_def)
  let ?b = "a\<lparr>sc_runcount := - 1\<rparr>"
  have b: "DAC_stop 1 a k = Ok (?b, k)"
    using dac.stop_ready [OF assms(1) z(3)] z(1) by (simp add: DAC_stop_def SClock_stop_def set_dac_def Let_def)
  obtain d where d: "adcStartConversion adc_group_config buffer n (adcd a) k = Ok (d, k)" "adc_active d"
    using adc.start_ready [OF assms(1) z(4) assms(4)] by blast
  then show ?thesis using b z(2) by (simp add: ADC_start_def SClock_start_def Let_def)
qed

lemma demo_clock_inv: "clock_inv (demo_analog\<lparr>gptd := demo_gpt\<lparr>gpt_state := GPT_READY\<rparr>\<rparr>)"
  by (simp add: clock_inv_iff users_def demo_analog_def demo_gpt_def demo_adc_def demo_dac_def adc_ready_def dac_ready_def
    adc_active_def dac_active_def)

theorem stop_underflow_witness:
  "\<exists>b c. DAC_stop 1 (demo_analog\<lparr>gptd := demo_gpt\<lparr>gpt_state := GPT_READY\<rparr>\<rparr>) (demo_kernel\<lparr>lock_cnt := 0\<rparr>) =
      Ok (b, demo_kernel\<lparr>lock_cnt := 0\<rparr>) \<and>
    ADC_start 0x20008000 8192 OpReadHandler b (demo_kernel\<lparr>lock_cnt := 0\<rparr>) = Ok (c, demo_kernel\<lparr>lock_cnt := 0\<rparr>) \<and>
    gpt_state (gptd c) = GPT_READY"
proof -
  let ?a = "demo_analog\<lparr>gptd := demo_gpt\<lparr>gpt_state := GPT_READY\<rparr>\<rparr>"
  have "users ?a = 0" by (simp add: users_def demo_analog_def demo_adc_def demo_dac_def adc_active_def dac_active_def)
  moreover have "adc_valid 0x20008000 8192" by (simp add: adc_valid_def depth_ok_def)
  ultimately show ?thesis using stop_underflow [OF demo_running demo_clock_inv] by blast
qed


subsection \<open>Sample rates\<close>

text \<open>
  The rates that \<open>SClock::Rate\<close> names, in Hz; the fields of the registers that set the speed of the
  converter, and the cycles one conversion takes for each sampling time (\<open>hal_adc_lld.h\<close>).
\<close>

definition sample_rates :: "nat list" where
  "sample_rates = [8000, 16000, 20000, 32000, 48000, 96000]"

definition conversion_cycles :: "nat list" where
  "conversion_cycles = [15, 19, 25, 37, 60, 105, 260, 653]"

definition pll_n :: "analog \<Rightarrow> nat" where "pll_n a = unat (drop_bit 8 (rcc_pllsai2cfgr a) AND 0x7F)"
definition pll_div :: "analog \<Rightarrow> nat" where "pll_div a = 2 * (unat (drop_bit 25 (rcc_pllsai2cfgr a) AND 3) + 1)"
definition oversampling :: "analog \<Rightarrow> nat" where "oversampling a = 2 ^ (unat (drop_bit 2 (group_cfgr2 a) AND 7) + 1)"
definition sample_cycles :: "analog \<Rightarrow> nat" where
  "sample_cycles a = conversion_cycles ! unat (drop_bit 15 (group_smpr a) AND 7) * oversampling a"

lemma masked_field:
  "drop_bit 8 ((w AND NOT 0x06007F00) OR v) AND 0x7F = drop_bit 8 v AND (0x7F :: u32)"
  "drop_bit 25 ((w AND NOT 0x06007F00) OR v) AND 3 = drop_bit 25 v AND (3 :: u32)"
  "((w AND NOT 0x06007F00) OR v) AND NOT 0x06007F00 = (w AND NOT 0x06007F00) OR (v AND NOT (0x06007F00 :: u32))"
  by (simp_all add: bit.conj_disj_distrib2 and.assoc)

lemma rate_cases:
  assumes "r < (6 :: u32)"
  shows "r = 0 \<or> r = 1 \<or> r = 2 \<or> r = 3 \<or> r = 4 \<or> r = 5"
proof -
  have "unat r < 6" using assms by (simp add: word_less_nat_alt)
  then have "unat r = 0 \<or> unat r = 1 \<or> unat r = 2 \<or> unat r = 3 \<or> unat r = 4 \<or> unat r = 5" by arith
  then show ?thesis by (simp add: word_unat_eq_iff)
qed

lemma setRate_result:
  assumes "r < 6"
  shows "\<exists>b c. SClock_setRate r a = Ok b \<and> ADC_setRate True r b = Ok c \<and>
    sc_div c = rate_divs ! unat r \<and> (\<exists>n d smp. rate_presets ! unat r = (n, d, smp) \<and>
    rcc_pllsai2cfgr c = (rcc_pllsai2cfgr a AND NOT 0x06007F00) OR (push_bit 8 n OR push_bit 25 d) \<and>
    group_smpr c = push_bit 15 smp \<and> group_cfgr2 c = oversample_8x)"
proof -
  have "unat r < 6" using assms by (simp add: word_less_nat_alt)
  then show ?thesis
    by (cases "rate_presets ! unat r")
      (simp add: SClock_setRate_def ADC_setRate_def rate_divs_def rate_presets_def Let_def)
qed

text \<open>
  For each of the six rates, setting the rate and reading it back gives the same rate; the timer
  divides its 36 MHz clock to exactly the named rate; and the ADC is fast enough: the PLL
  (4 MHz times \<open>N\<close>, between 64 and 344 MHz, divided by its output divider and by 10) completes the eight
  oversampled conversions of a sample within one period of the timer. The other fields of the PLL
  register keep their values.
\<close>

theorem setRate_getRate:
  assumes "r < 6"
  shows "\<exists>b c. SClock_setRate r a = Ok b \<and> ADC_setRate True r b = Ok c \<and> SClock_getRate c = r \<and>
    unat (sc_div c) * sample_rates ! unat r = gpt_frequency sc_timer_config \<and>
    64 \<le> 4 * pll_n c \<and> 4 * pll_n c \<le> 344 \<and>
    sample_rates ! unat r * (pll_div c * 10 * sample_cycles c) \<le> 4000000 * pll_n c \<and>
    rcc_pllsai2cfgr c AND NOT 0x06007F00 = rcc_pllsai2cfgr a AND NOT 0x06007F00"
proof -
  obtain b c n d smp where c: "SClock_setRate r a = Ok b" "ADC_setRate True r b = Ok c"
    "sc_div c = rate_divs ! unat r" "rate_presets ! unat r = (n, d, smp)"
    "rcc_pllsai2cfgr c = (rcc_pllsai2cfgr a AND NOT 0x06007F00) OR (push_bit 8 n OR push_bit 25 d)"
    "group_smpr c = push_bit 15 smp" "group_cfgr2 c = oversample_8x"
    using setRate_result [OF assms] by blast
  let ?v = "push_bit 8 n OR push_bit 25 d"
  have f: "pll_n c = unat (drop_bit 8 ?v AND 0x7F)" "pll_div c = 2 * (unat (drop_bit 25 ?v AND 3) + 1)"
    "rcc_pllsai2cfgr c AND NOT 0x06007F00 = (rcc_pllsai2cfgr a AND NOT 0x06007F00) OR (?v AND NOT 0x06007F00)"
    by (simp_all only: pll_n_def pll_div_def c(5) masked_field)
  have "SClock_getRate c = r \<and> unat (sc_div c) * sample_rates ! unat r = gpt_frequency sc_timer_config \<and>
    64 \<le> 4 * pll_n c \<and> 4 * pll_n c \<le> 344 \<and>
    sample_rates ! unat r * (pll_div c * 10 * sample_cycles c) \<le> 4000000 * pll_n c \<and>
    rcc_pllsai2cfgr c AND NOT 0x06007F00 = rcc_pllsai2cfgr a AND NOT 0x06007F00"
    using rate_cases [OF assms] c(3,4,6,7) unfolding f
    by (elim disjE) (auto simp: SClock_getRate_def rate_divs_def rate_presets_def sample_rates_def sc_timer_config_def
      sample_cycles_def oversampling_def conversion_cycles_def oversample_8x_def)
  then show ?thesis using c(1,2) by blast
qed

theorem setRate_getRate_witness:
  "\<exists>b c. SClock_setRate 5 demo_analog = Ok b \<and> ADC_setRate True 5 b = Ok c \<and> SClock_getRate c = 5 \<and>
    unat (sc_div c) * 96000 = 36000000"
  using setRate_getRate [of 5 demo_analog] by (auto simp: sample_rates_def sc_timer_config_def)

text \<open>
  A rate that is not one of the six reads past the end of the tables of dividers and presets.
\<close>

theorem setRate_out_of_range:
  assumes "6 \<le> r"
  shows "SClock_setRate r a = Undef \<and> ADC_setRate pll r a = Undef"
  using assms by (simp add: SClock_setRate_def ADC_setRate_def rate_divs_def rate_presets_def word_le_nat_alt Let_def)

theorem setRate_out_of_range_witness: "SClock_setRate 6 demo_analog = Undef \<and> ADC_setRate True 6 demo_analog = Undef"
  using setRate_out_of_range [of 6] by simp

end
