(* ===== verification/Conversion.thy ===== *)
theory Conversion
  imports Mailboxes Messages SampleBuffers ElfLoad AppError Analog TimeMeasure
begin

text \<open>
  The conversion manager (\<open>source/conversion.cpp\<close>), the service calls and the fault handlers
  (\<open>source/handlers.cpp\<close>). The ADC interrupt marks the half of the input buffer that is complete and
  posts a message to a mailbox of two messages; the monitor thread fetches it and sends it to the
  runner thread; the runner, which has no privileges and waits through a service call, applies the
  loaded algorithm to the half and copies the result to the output buffer. A message that finds
  two others waiting aborts the algorithm.

  The record \<open>firmware\<close> joins the state of the kernel and of the application's components. What
  the linker decides is in \<open>image\<close>. The loaded algorithm is machine code that is not part of the
  program: \<open>algo entry\<close> is what a call of it does to memory and the pointer it returns. Readings of
  the cycle counter are arguments of the steps that take them.
\<close>

section \<open>State\<close>

datatype RunStatus = Idle | Running | Recovering

fun run_status_code :: "RunStatus \<Rightarrow> byte" where
  "run_status_code Idle = 0x31"
| "run_status_code Running = 0x32"
| "run_status_code Recovering = 0x33"

record image =
  im_mailbox :: ptr
  im_monitor_stack :: ptr
  im_runner_entry_stack :: ptr
  im_runner_stack :: ptr
  im_threadMonitor :: ptr
  im_threadRunnerEntry :: ptr
  im_threadRunner :: ptr
  im_file_buffer :: ptr
  im_alt_result :: ptr

record firmware =
  fw_k :: kernel
  fw_mem :: mem
  fw_an :: analog
  fw_in :: SampleBuffer
  fw_out :: SampleBuffer
  fw_gen :: SampleBuffer
  fw_em :: ErrorManager
  fw_entry :: ptr
  run_status :: RunStatus
  fw_psp :: u32
  exec_time :: time_measurement
  fw_tm_offset :: u32
  m_thread_monitor :: ptr
  m_thread_runner :: ptr

definition CONVERSION_THREAD_STACK_SIZE :: u32 where "CONVERSION_THREAD_STACK_SIZE = 15 * 1024"

definition MSG_CONVFIRST :: msg_t where "MSG_CONVFIRST = 1"
definition MSG_CONVSECOND :: msg_t where "MSG_CONVSECOND = 2"
definition MSG_CONVFIRST_MEASURE :: msg_t where "MSG_CONVFIRST_MEASURE = 3"
definition MSG_CONVSECOND_MEASURE :: msg_t where "MSG_CONVSECOND_MEASURE = 4"

definition MSG_FOR_FIRST :: "msg_t \<Rightarrow> bool" where "MSG_FOR_FIRST msg \<longleftrightarrow> msg AND 1 \<noteq> 0"
definition MSG_FOR_MEASURE :: "msg_t \<Rightarrow> bool" where "MSG_FOR_MEASURE msg \<longleftrightarrow> sint msg > 2"

lemmas msg_defs = MSG_CONVFIRST_def MSG_CONVSECOND_def MSG_CONVFIRST_MEASURE_def MSG_CONVSECOND_MEASURE_def

section \<open>Starting and stopping\<close>

definition conv_begin :: "image \<Rightarrow> port_cfg \<Rightarrow> u32 \<Rightarrow> firmware \<Rightarrow> firmware kres" where
  "conv_begin im pc entry_stack_size fw =
     kbind (chThdCreateStatic pc (im_monitor_stack im) 1024 (NORMALPRIO + 1) (im_threadMonitor im) (fw_k fw)) (\<lambda>(tm, k).
     kbind (chThdCreateStatic pc (im_runner_entry_stack im) entry_stack_size HIGHPRIO (im_threadRunnerEntry im) k) (\<lambda>(tr, k).
     Ok (fw\<lparr>fw_k := k, m_thread_monitor := tm, m_thread_runner := tr\<rparr>)))"

definition conv_start :: "firmware \<Rightarrow> firmware kres" where
  "conv_start fw =
     (let fw = fw\<lparr>fw_mem := sb_clear (fw_out fw) (fw_mem fw)\<rparr>
      in kbind (ADC_start (sb_data (fw_in fw)) (m_size (fw_in fw)) OpReadHandler (fw_an fw) (fw_k fw)) (\<lambda>(a, k).
         kbind (DAC_start 0 (sb_data (fw_out fw)) (m_size (fw_out fw)) a k) (\<lambda>(a, k).
         Ok (fw\<lparr>fw_an := a, fw_k := k\<rparr>))))"

definition conv_startMeasurement :: "firmware \<Rightarrow> firmware" where
  "conv_startMeasurement fw = fw\<lparr>fw_an := ADC_setOperation OpReadHandlerMeasure (fw_an fw)\<rparr>"

definition conv_stop :: "firmware \<Rightarrow> firmware kres" where
  "conv_stop fw =
     kbind (DAC_stop 0 (fw_an fw) (fw_k fw)) (\<lambda>(a, k).
     kbind (ADC_stop a k) (\<lambda>(a, k). Ok (fw\<lparr>fw_an := a, fw_k := k\<rparr>)))"

section \<open>Aborting the algorithm\<close>

text \<open>
  The handler runs on the main stack; the process stack pointer points at the exception frame of
  the interrupted thread (\<open>r0\<close> to \<open>r3\<close>, \<open>r12\<close>, \<open>lr\<close>, \<open>pc\<close>, \<open>psr\<close>, then the floating point registers if
  they are stacked). If the runner was interrupted, a new frame is built at the end of its stack.
\<close>

definition conv_abort :: "image \<Rightarrow> bool \<Rightarrow> firmware \<Rightarrow> firmware" where
  "conv_abort im fpu_stacked fw =
     (let fw = fw\<lparr>fw_entry := elf_unload (fw_entry fw), fw_em := em_add ConversionAborted (fw_em fw)\<rparr>;
          psp = fw_psp fw;
          isRunnerStack = (psp \<ge> im_runner_stack im \<and> psp \<le> im_runner_stack im + CONVERSION_THREAD_STACK_SIZE)
      in if isRunnerStack
         then let newpsp = im_runner_stack im + CONVERSION_THREAD_STACK_SIZE - (if fpu_stacked then 26 else 8) * 4;
                  m = store32 (newpsp + 20) (im_threadRunner im) (fw_mem fw);
                  m = store32 (newpsp + 24) (load32 m (psp + 24)) m;
                  m = store16 (load32 m (newpsp + 24)) 0x4770 m;
                  m = store32 (newpsp + 28) (load32 m (psp + 28) OR push_bit 24 1) m
              in fw\<lparr>fw_mem := m, fw_psp := newpsp\<rparr>
         else fw)"

section \<open>The interrupt\<close>

definition adcReadHandler :: "image \<Rightarrow> ptr \<Rightarrow> firmware \<Rightarrow> firmware kres" where
  "adcReadHandler im buffer fw =
     kbind (chSysLockFromISR (fw_k fw)) (\<lambda>k.
     kbind (chMBGetUsedCountI (im_mailbox im) k) (\<lambda>used.
     if used > 1
     then kbind (chMBResetI (im_mailbox im) k) (\<lambda>k.
          kbind (chSysUnlockFromISR (chMBResumeX (im_mailbox im) k)) (\<lambda>k.
          Ok (conv_abort im True (fw\<lparr>fw_k := k\<rparr>))))
     else kbind (if buffer = sb_data (fw_in fw)
                 then kbind (chMBPostI (im_mailbox im) MSG_CONVFIRST k) (\<lambda>(r, k).
                      Ok (fw\<lparr>fw_in := setModified (fw_in fw), fw_k := k\<rparr>))
                 else kbind (chMBPostI (im_mailbox im) MSG_CONVSECOND k) (\<lambda>(r, k).
                      Ok (fw\<lparr>fw_in := setMidmodified (fw_in fw), fw_k := k\<rparr>))) (\<lambda>fw.
          kbind (chSysUnlockFromISR (fw_k fw)) (\<lambda>k. Ok (fw\<lparr>fw_k := k\<rparr>)))))"

definition adcReadHandlerMeasure :: "image \<Rightarrow> ptr \<Rightarrow> firmware \<Rightarrow> firmware kres" where
  "adcReadHandlerMeasure im buffer fw =
     kbind (chSysLockFromISR (fw_k fw)) (\<lambda>k.
     kbind (if buffer = sb_data (fw_in fw)
            then kbind (chMBPostI (im_mailbox im) MSG_CONVFIRST_MEASURE k) (\<lambda>(r, k).
                 Ok (fw\<lparr>fw_in := setModified (fw_in fw), fw_k := k\<rparr>))
            else kbind (chMBPostI (im_mailbox im) MSG_CONVSECOND_MEASURE k) (\<lambda>(r, k).
                 Ok (fw\<lparr>fw_in := setMidmodified (fw_in fw), fw_k := k\<rparr>))) (\<lambda>fw.
     kbind (chSysUnlockFromISR (fw_k fw)) (\<lambda>k.
     Ok (fw\<lparr>fw_k := k, fw_an := ADC_setOperation OpReadHandler (fw_an fw)\<rparr>))))"

text \<open>The operation that the ADC calls, and the two interrupts of a circular conversion.\<close>

definition call_operation :: "image \<Rightarrow> operation \<Rightarrow> ptr \<Rightarrow> u32 \<Rightarrow> firmware \<Rightarrow> firmware kres" where
  "call_operation im op buffer n fw =
     (case op of NoOperation \<Rightarrow> Undef
      | OpReadHandler \<Rightarrow> adcReadHandler im buffer fw
      | OpReadHandlerMeasure \<Rightarrow> adcReadHandlerMeasure im buffer fw)"

definition adc_interrupt :: "image \<Rightarrow> bool \<Rightarrow> firmware \<Rightarrow> firmware kres" where
  "adc_interrupt im full fw =
     kbind ((if full then adc_isr_full_code else adc_isr_half_code)
              (\<lambda>d fw. ADC_conversionCallback (call_operation im) (fw_an fw) d fw) (adcd (fw_an fw)) fw) (\<lambda>(d, fw).
     Ok (fw\<lparr>fw_an := (fw_an fw)\<lparr>adcd := d\<rparr>\<rparr>))"

section \<open>The monitor thread\<close>

text \<open>One turn of its loop, up to where it sleeps: in the fetch or in the send.\<close>

datatype monitor_at = LoopHead | InFetch | InSend

definition monitor_send :: "firmware \<Rightarrow> msg_t \<times> msg_t option \<Rightarrow> kernel \<Rightarrow> (monitor_at \<times> kernel) kres" where
  "monitor_send fw r k =
     (case r of (fetch, message) \<Rightarrow>
        if fetch = MSG_OK
        then case message of None \<Rightarrow> Undef
             | Some message \<Rightarrow> kbind (chMsgSend (m_thread_runner fw) message k) (\<lambda>(w, k).
                 Ok (case w of Asleep \<Rightarrow> InSend | Returned _ \<Rightarrow> LoopHead, k))
        else Ok (LoopHead, k))"

definition threadMonitor :: "image \<Rightarrow> firmware \<Rightarrow> kernel \<Rightarrow> (monitor_at \<times> kernel) kres" where
  "threadMonitor im fw k =
     kbind (chMBFetchTimeout (im_mailbox im) TIME_INFINITE k) (\<lambda>(w, k).
     case w of Asleep \<Rightarrow> Ok (InFetch, k) | Returned r \<Rightarrow> monitor_send fw r k)"

definition threadMonitor_fetched :: "image \<Rightarrow> firmware \<Rightarrow> kernel \<Rightarrow> (monitor_at \<times> kernel) kres" where
  "threadMonitor_fetched im fw k =
     kbind (chMBFetchTimeoutS_resume (im_mailbox im) TIME_INFINITE k) (\<lambda>(w, k).
     case w of Asleep \<Rightarrow> Ok (InFetch, k)
     | Returned r \<Rightarrow> kbind (chSysUnlock k) (\<lambda>k. monitor_send fw r k))"

definition threadMonitor_sent :: "kernel \<Rightarrow> (monitor_at \<times> kernel) kres" where
  "threadMonitor_sent k = kbind (chMsgSend_resume k) (\<lambda>(_, k). Ok (LoopHead, k))"

section \<open>Service calls\<close>

record port_extctx =
  ctx_r0 :: u32
  ctx_r1 :: u32

definition syscall_reply :: "firmware \<Rightarrow> kernel \<Rightarrow> (msg_t \<times> kernel) kres" where
  "syscall_reply fw k =
     (let monitor = m_thread_monitor fw
      in kbind (chMsgGet monitor k) (\<lambda>msg.
         kbind (chMsgReleaseS monitor MSG_OK k) (\<lambda>k.
         kbind (chSysUnlock k) (\<lambda>k. Ok (msg, k)))))"

definition measurement_overhead :: u32 where "measurement_overhead = 196 - 1"

definition syscall_measure :: "u32 \<Rightarrow> u32 \<Rightarrow> firmware \<Rightarrow> firmware" where
  "syscall_measure r0 now fw =
     (if r0 = 0 then fw\<lparr>exec_time := chTMStartMeasurementX now (exec_time fw)\<rparr>
      else let t = chTMStopMeasurementX (fw_tm_offset fw) now (exec_time fw)
           in fw\<lparr>exec_time := (if tm_last t > measurement_overhead then t\<lparr>tm_last := tm_last t - measurement_overhead\<rparr> else t)\<rparr>)"

text \<open>
  \<open>math i x\<close> is the bit pattern the three functions of \<open>cordic.cpp\<close> give, \<open>now\<close> a reading of the cycle
  counter, \<open>hw\<close> what the second ADC delivers.
\<close>

definition port_syscall ::
  "image \<Rightarrow> (u32 \<Rightarrow> u32 \<Rightarrow> u32) \<Rightarrow> u32 \<Rightarrow> (nat \<Rightarrow> u16) option \<Rightarrow> u32 \<Rightarrow> port_extctx \<Rightarrow> firmware \<Rightarrow>
     (port_extctx wait \<times> firmware) kres" where
  "port_syscall im math now hw n ctxp fw =
     (if n = 0
      then kbind (chSysLock (fw_k fw)) (\<lambda>k. kbind (chMsgWaitS k) (\<lambda>(w, k).
           case w of Asleep \<Rightarrow> Ok (Asleep, fw\<lparr>fw_k := k\<rparr>)
           | Returned _ \<Rightarrow> kbind (syscall_reply fw k) (\<lambda>(msg, k). Ok (Returned (ctxp\<lparr>ctx_r0 := msg\<rparr>), fw\<lparr>fw_k := k\<rparr>))))
      else if n = 1
      then Ok (Returned (if ctx_r0 ctxp < 3 then ctxp\<lparr>ctx_r1 := math (ctx_r0 ctxp) (ctx_r1 ctxp)\<rparr> else ctxp), fw)
      else if n = 2 then Ok (Returned ctxp, syscall_measure (ctx_r0 ctxp) now fw)
      else if n = 3
      then kbind (ADC_readAlt (im_alt_result im) hw (ctx_r0 ctxp) (fw_an fw) (fw_k fw)) (\<lambda>(v, a, k).
           Ok (Returned (ctxp\<lparr>ctx_r0 := ucast v\<rparr>), fw\<lparr>fw_an := a, fw_k := k\<rparr>))
      else Diverge)"

definition port_syscall_resume :: "port_extctx \<Rightarrow> firmware \<Rightarrow> (port_extctx \<times> firmware) kres" where
  "port_syscall_resume ctxp fw =
     kbind (chMsgWaitS_resume (fw_k fw)) (\<lambda>(_, k).
     kbind (syscall_reply fw k) (\<lambda>(msg, k). Ok (ctxp\<lparr>ctx_r0 := msg\<rparr>, fw\<lparr>fw_k := k\<rparr>)))"

section \<open>The runner thread\<close>

text \<open>
  What it does with a message; \<open>t0\<close> and \<open>t1\<close> are the readings of a measurement. The stack pointer
  that is saved around the call and the test read of the result do not change this state; a test
  read of memory the runner may not access raises the fault that is handled below.
\<close>

definition run_algorithm ::
  "(ptr \<Rightarrow> ptr \<Rightarrow> u32 \<Rightarrow> mem \<Rightarrow> (ptr \<times> mem) kres) \<Rightarrow> ptr \<Rightarrow> u32 \<Rightarrow> firmware \<Rightarrow> (ptr \<times> firmware) kres" where
  "run_algorithm algo samples sz fw =
     kbind (algo (fw_entry fw) samples sz (fw_mem fw)) (\<lambda>(samples, m). Ok (samples, fw\<lparr>fw_mem := m\<rparr>))"

definition threadRunnerEntry :: "firmware \<Rightarrow> firmware" where
  "threadRunnerEntry fw = fw\<lparr>fw_entry := elf_unload (fw_entry fw)\<rparr>"

definition threadRunner ::
  "(ptr \<Rightarrow> ptr \<Rightarrow> u32 \<Rightarrow> mem \<Rightarrow> (ptr \<times> mem) kres) \<Rightarrow> u32 \<Rightarrow> u32 \<Rightarrow> msg_t \<Rightarrow> firmware \<Rightarrow> firmware kres" where
  "threadRunner algo t0 t1 message fw =
     (if message \<noteq> 0
      then let samples = (if MSG_FOR_FIRST message then sb_data (fw_in fw) else middata (fw_in fw));
               sz = m_size (fw_in fw) div 2
           in kbind (if fw_entry fw \<noteq> NULL
                     then if \<not> MSG_FOR_MEASURE message then run_algorithm algo samples sz fw
                          else kbind (run_algorithm algo samples sz (syscall_measure 0 t0 fw)) (\<lambda>(samples, fw).
                               Ok (samples, syscall_measure 1 t1 fw))
                     else Ok (samples, fw)) (\<lambda>(samples, fw).
              if samples \<noteq> NULL
              then kbind ((if MSG_FOR_FIRST message then modify else midmodify) samples sz (fw_out fw) (fw_mem fw))
                     (\<lambda>(sb, m). Ok (fw\<lparr>fw_out := sb, fw_mem := m\<rparr>))
              else Ok fw)
      else Ok fw)"

section \<open>Faults\<close>

definition MemManage_Handler :: "image \<Rightarrow> u32 \<Rightarrow> firmware \<Rightarrow> firmware" where
  "MemManage_Handler im lr fw = conv_abort im (if lr AND push_bit 4 1 \<noteq> 0 then False else True) fw"

definition HardFault_Handler :: "image \<Rightarrow> u32 \<Rightarrow> firmware \<Rightarrow> firmware kres" where
  "HardFault_Handler im lr fw =
     (if run_status fw \<noteq> Running \<and> lr AND 4 \<noteq> 0 then Ok (MemManage_Handler im lr fw) else Diverge)"


section \<open>The interrupt and the mailbox\<close>

text \<open>The state in which the interrupt handlers run, with the mailbox of two messages in order.\<close>

definition conv_isr :: "image \<Rightarrow> firmware \<Rightarrow> bool" where
  "conv_isr im fw \<longleftrightarrow> sched_inv (fw_k fw) \<and> isr_cnt (fw_k fw) > 0 \<and> lock_cnt (fw_k fw) = 0 \<and>
     mbox_inv (im_mailbox im) (fw_k fw) \<and> mb_cap (mboxes (fw_k fw) (im_mailbox im)) = 2 \<and>
     \<not> mb_reset (mboxes (fw_k fw) (im_mailbox im))"

abbreviation pending :: "image \<Rightarrow> firmware \<Rightarrow> msg_t list" where
  "pending im fw \<equiv> mb_items (mboxes (fw_k fw) (im_mailbox im))"

lemma mbox_inv_lock [simp]: "mbox_inv mbp (k\<lparr>lock_cnt := n\<rparr>) = mbox_inv mbp k"
  by (simp add: mbox_inv_def)

lemma conv_isr_post:
  assumes "conv_isr im fw" and "length (pending im fw) < 2"
  obtains k where "chMBPostI (im_mailbox im) msg ((fw_k fw)\<lparr>lock_cnt := 1\<rparr>) = Ok (MSG_OK, k)" and "sched_inv k"
    and "mbox_inv (im_mailbox im) k" and "isr_cnt k = isr_cnt (fw_k fw)" and "lock_cnt k = 1"
    and "mb_items (mboxes k (im_mailbox im)) = pending im fw @ [msg]"
    and "mb_cap (mboxes k (im_mailbox im)) = 2" and "\<not> mb_reset (mboxes k (im_mailbox im))"
    and "queues (fw_k fw) (MBQR (im_mailbox im)) \<noteq> [] \<Longrightarrow>
           state_of k (hd (queues (fw_k fw) (MBQR (im_mailbox im)))) = CH_STATE_READY"
proof -
  let ?mb = "im_mailbox im" let ?k = "(fw_k fw)\<lparr>lock_cnt := 1\<rparr>"
  have k: "sched_inv ?k" "i_ctx ?k" "mbox_inv ?mb ?k"
    using assms(1) by (simp_all add: conv_isr_def i_ctx_def)
  have c: "mb_ok (mboxes ?k ?mb)" "mb_cnt (mboxes ?k ?mb) < mb_cap (mboxes ?k ?mb)"
    using k(3) assms by (simp_all add: mbox_inv_def conv_isr_def)
  let ?u = "upd_mb ?mb (mb_put msg) ?k" let ?d = "dequeued (MBQR ?mb) MSG_OK ?u"
  note p = mb_put_ok [OF c, of msg]
  have u: "sched_inv ?u" "i_ctx ?u" "mbox_inv ?mb ?u"
    using k p(1) mbox_inv_upd_mb [OF k(3), of "mb_put msg"] by simp_all
  have d: "sched_inv ?d" "mbox_inv ?mb ?d"
    using chThdDequeueNextI_eq(2) [OF u(1,2), of "MBQR ?mb" MSG_OK] mbox_inv_dequeued [OF u(1,3), of "MBQR ?mb" MSG_OK] u(3)
    by (simp_all add: mbox_inv_def)
  show ?thesis
  proof (rule that [of ?d])
    show "chMBPostI ?mb msg ?k = Ok (MSG_OK, ?d)" using chMBPostI_eq [OF k, of msg] c assms(1) by (simp add: conv_isr_def)
    show "\<not> mb_reset (mboxes ?d ?mb)" using assms(1) by (simp add: conv_isr_def mb_put_def)
    show "mb_cap (mboxes ?d ?mb) = 2" using p(3) assms(1) by (simp add: conv_isr_def)
    show "state_of ?d (hd (queues (fw_k fw) (MBQR ?mb))) = CH_STATE_READY" if "queues (fw_k fw) (MBQR ?mb) \<noteq> []"
      using that by (simp add: dequeued_state)
  qed (use d p(2) in simp_all)
qed

lemma conv_isr_unlocked:
  assumes "sched_inv k" and "isr_cnt k > 0" and "mbox_inv (im_mailbox im) k"
    and "mb_cap (mboxes k (im_mailbox im)) = 2" and "\<not> mb_reset (mboxes k (im_mailbox im))"
    and "fw_k fw = k\<lparr>lock_cnt := 0\<rparr>"
  shows "conv_isr im fw"
  using assms by (simp add: conv_isr_def)

lemma conv_abort_k [simp]: "fw_k (conv_abort im f fw) = fw_k fw" "fw_entry (conv_abort im f fw) = NULL"
  "fw_em (conv_abort im f fw) = em_add ConversionAborted (fw_em fw)"
  by (simp_all add: conv_abort_def Let_def elf_unload_def)

lemma adcReadHandler_posts:
  assumes i: "conv_isr im fw" and n: "length (pending im fw) \<le> 1"
  shows "\<exists>fw'. adcReadHandler im buffer fw = Ok fw' \<and> conv_isr im fw' \<and>
    pending im fw' = pending im fw @ [if buffer = sb_data (fw_in fw) then MSG_CONVFIRST else MSG_CONVSECOND] \<and>
    m_modified (fw_in fw') = (if buffer = sb_data (fw_in fw) then m_buffer (fw_in fw) else middata (fw_in fw)) \<and>
    fw_entry fw' = fw_entry fw \<and> fw_em fw' = fw_em fw \<and>
    (queues (fw_k fw) (MBQR (im_mailbox im)) \<noteq> [] \<longrightarrow>
       state_of (fw_k fw') (hd (queues (fw_k fw) (MBQR (im_mailbox im)))) = CH_STATE_READY)"
proof -
  let ?mb = "im_mailbox im" let ?k = "(fw_k fw)\<lparr>lock_cnt := 1\<rparr>"
  let ?msg = "if buffer = sb_data (fw_in fw) then MSG_CONVFIRST else MSG_CONVSECOND"
  have ctx: "isr_cnt (fw_k fw) > 0" "lock_cnt (fw_k fw) = 0" "i_ctx ?k" using i by (simp_all add: conv_isr_def i_ctx_def)
  obtain k where k: "chMBPostI ?mb ?msg ?k = Ok (MSG_OK, k)" "sched_inv k" "mbox_inv ?mb k" "isr_cnt k = isr_cnt (fw_k fw)"
    "lock_cnt k = 1" "mb_items (mboxes k ?mb) = pending im fw @ [?msg]" "mb_cap (mboxes k ?mb) = 2" "\<not> mb_reset (mboxes k ?mb)"
    "queues (fw_k fw) (MBQR ?mb) \<noteq> [] \<Longrightarrow> state_of k (hd (queues (fw_k fw) (MBQR ?mb))) = CH_STATE_READY"
    using conv_isr_post [OF i, of ?msg] n by auto
  let ?in = "if buffer = sb_data (fw_in fw) then setModified (fw_in fw) else setMidmodified (fw_in fw)"
  let ?fw = "fw\<lparr>fw_in := ?in, fw_k := k\<lparr>lock_cnt := 0\<rparr>\<rparr>"
  have "adcReadHandler im buffer fw = Ok ?fw"
    using k(1) isr_lock(1) [OF ctx(1,2)] isr_lock(2) [of k] k(4,5) ctx n
    by (auto simp: adcReadHandler_def chMBGetUsedCountI_def)
  moreover have "conv_isr im ?fw" using conv_isr_unlocked [OF k(2) _ k(3,7,8)] k(4) ctx(1) by simp
  ultimately show ?thesis using k(6,9) by (intro exI [of _ ?fw]) (auto simp: setModified_def setMidmodified_def)
qed

lemma adcReadHandler_aborts:
  assumes i: "conv_isr im fw" and n: "length (pending im fw) = 2"
  shows "\<exists>fw'. adcReadHandler im buffer fw = Ok fw' \<and> conv_isr im fw' \<and> pending im fw' = [] \<and> fw_entry fw' = NULL \<and>
    fw_em fw' = em_add ConversionAborted (fw_em fw)"
proof -
  let ?mb = "im_mailbox im" let ?k = "(fw_k fw)\<lparr>lock_cnt := 1\<rparr>"
  have ctx: "isr_cnt (fw_k fw) > 0" "lock_cnt (fw_k fw) = 0" "i_ctx ?k" using i by (simp_all add: conv_isr_def i_ctx_def)
  have s: "sched_inv ?k" "mbox_inv ?mb ?k" using i by (simp_all add: conv_isr_def)
  obtain k where k: "chMBResetI ?mb ?k = Ok k" "sched_inv k" "mbox_inv ?mb k" "isr_cnt k = isr_cnt ?k" "lock_cnt k = lock_cnt ?k"
    "mb_items (mboxes k ?mb) = []" "mb_cap (mboxes k ?mb) = mb_cap (mboxes ?k ?mb)"
    using chMBResetI_ok [OF s(1) ctx(3) s(2)] by blast
  let ?r = "chMBResumeX ?mb k"
  have r: "sched_inv ?r" "mbox_inv ?mb ?r" "mb_cap (mboxes ?r ?mb) = 2" "\<not> mb_reset (mboxes ?r ?mb)"
    "isr_cnt ?r = isr_cnt (fw_k fw)" "lock_cnt ?r = 1" "mb_items (mboxes ?r ?mb) = []"
    using k i mb_items_Nil [of "mboxes k ?mb"] by (simp_all add: chMBResumeX_def mbox_inv_def mb_ok_def conv_isr_def)
  let ?fw = "conv_abort im True (fw\<lparr>fw_k := ?r\<lparr>lock_cnt := 0\<rparr>\<rparr>)"
  have "adcReadHandler im buffer fw = Ok ?fw"
    using k(1) isr_lock(1) [OF ctx(1,2)] isr_lock(2) [of ?r] r(5,6) ctx n by (simp add: adcReadHandler_def chMBGetUsedCountI_def)
  moreover have "conv_isr im ?fw" using conv_isr_unlocked [OF r(1) _ r(2-4)] r(5) ctx(1) by simp
  ultimately show ?thesis using r(7) by (intro exI [of _ ?fw]) simp
qed


section \<open>The frame of an aborted algorithm\<close>

definition new_frame :: "image \<Rightarrow> bool \<Rightarrow> u32" where
  "new_frame im fpu_stacked = im_runner_stack im + CONVERSION_THREAD_STACK_SIZE - (if fpu_stacked then 26 else 8) * 4"

text \<open>
  The interrupted thread is the runner, its frame is where the new one will be or clear of it, and
  the instruction it will return to lies outside both frames.
\<close>

definition runner_interrupted :: "image \<Rightarrow> bool \<Rightarrow> firmware \<Rightarrow> bool" where
  "runner_interrupted im fpu fw \<longleftrightarrow>
     im_runner_stack im \<le> fw_psp fw \<and> fw_psp fw \<le> im_runner_stack im + CONVERSION_THREAD_STACK_SIZE \<and>
     (fw_psp fw = new_frame im fpu \<or> disjoint (fw_psp fw) 32 (new_frame im fpu) 32) \<and>
     disjoint (load32 (fw_mem fw) (fw_psp fw + 24)) 2 (new_frame im fpu) 32 \<and>
     disjoint (load32 (fw_mem fw) (fw_psp fw + 24)) 2 (fw_psp fw) 32"

lemma frame_words:
  assumes "p = q \<or> disjoint p 32 q 32" and "i + 4 \<le> 32" and "j + 4 \<le> 32" and "disjoint (of_nat i) 4 (of_nat j) 4"
  shows "disjoint (p + of_nat i) 4 (q + of_nat j) 4"
  using assms(1)
proof
  assume "p = q"
  then show ?thesis using assms(4) by (simp add: disjoint_def)
next
  assume d: "disjoint p 32 q 32"
  show ?thesis by (rule disjoint_sub [OF d assms(2,3)]) simp_all
qed

lemma conv_abort_mem:
  assumes "runner_interrupted im fpu fw"
  defines "n \<equiv> new_frame im fpu" and "pc \<equiv> load32 (fw_mem fw) (fw_psp fw + 24)" and "psr \<equiv> load32 (fw_mem fw) (fw_psp fw + 28)"
  shows "fw_psp (conv_abort im fpu fw) = n"
    and "fw_mem (conv_abort im fpu fw) = store32 (n + 28) (psr OR push_bit 24 1) (store16 pc 0x4770
      (store32 (n + 24) pc (store32 (n + 20) (im_threadRunner im) (fw_mem fw))))"
proof -
  let ?p = "fw_psp fw" let ?m1 = "store32 (n + 20) (im_threadRunner im) (fw_mem fw)"
  have r: "?p = n \<or> disjoint ?p 32 n 32" "disjoint pc 2 ?p 32"
    using assms(1) by (simp_all add: runner_interrupted_def n_def pc_def)
  note w = frame_words [OF r(1)]
  have 1: "load32 ?m1 (?p + 24) = pc"
    using load_store_other(1) [OF w [of 24 20]] by (simp add: pc_def disjoint_def)
  have "disjoint (?p + 28) 4 pc 2"
    using disjoint_sub [OF r(2), of 0 2 28 4] disjoint_sym by simp
  then have 2: "load32 (store16 pc 0x4770 (store32 (n + 24) pc ?m1)) (?p + 28) = psr"
    using load_store_other(1) [OF w [of 28 20]] load_store_other(1) [OF w [of 28 24]] load_store_other(2)
    by (simp add: psr_def disjoint_def)
  show "fw_psp (conv_abort im fpu fw) = n"
    using assms(1) by (simp add: conv_abort_def runner_interrupted_def Let_def n_def new_frame_def)
  show "fw_mem (conv_abort im fpu fw) = store32 (n + 28) (psr OR push_bit 24 1) (store16 pc 0x4770 (store32 (n + 24) pc ?m1))"
    using assms(1) 1 2 unfolding conv_abort_def runner_interrupted_def Let_def n_def [symmetric] new_frame_def [symmetric]
    by simp
qed

section \<open>What the runner writes\<close>

definition half_of :: "msg_t \<Rightarrow> SampleBuffer \<Rightarrow> ptr" where
  "half_of message sb = (if MSG_FOR_FIRST message then sb_data sb else middata sb)"

text \<open>The result of the algorithm: the pointer it returns and the memory it leaves; without one, the input itself.\<close>

definition algorithm_result ::
  "(ptr \<Rightarrow> ptr \<Rightarrow> u32 \<Rightarrow> mem \<Rightarrow> (ptr \<times> mem) kres) \<Rightarrow> msg_t \<Rightarrow> firmware \<Rightarrow> (ptr \<times> mem) kres" where
  "algorithm_result algo message fw =
     (if fw_entry fw = NULL then Ok (half_of message (fw_in fw), fw_mem fw)
      else algo (fw_entry fw) (half_of message (fw_in fw)) (m_size (fw_in fw) div 2) (fw_mem fw))"

definition measured :: "u32 \<Rightarrow> u32 \<Rightarrow> msg_t \<Rightarrow> firmware \<Rightarrow> time_measurement" where
  "measured t0 t1 message fw =
     (if fw_entry fw \<noteq> NULL \<and> MSG_FOR_MEASURE message then exec_time (syscall_measure 1 t1 (syscall_measure 0 t0 fw))
      else exec_time fw)"

lemma middata_disjoint:
  assumes "unat (m_size sb) \<le> 8192" and "disjoint (m_buffer sb) 16384 p 16384"
  shows "disjoint (middata sb) 8192 p 8192"
proof -
  have "middata sb = m_buffer sb + of_nat (2 * unat (m_size sb div 2))" by (simp add: middata_def)
  then show ?thesis using disjoint_sub [OF assms(2), of "2 * unat (m_size sb div 2)" 8192 0 8192] assms(1) by (simp add: unat_div)
qed

lemma threadRunner_eq:
  assumes "message \<noteq> 0" and "algorithm_result algo message fw = Ok (p, m)" and "p \<noteq> NULL"
  shows "threadRunner algo t0 t1 message fw =
    kbind ((if MSG_FOR_FIRST message then modify else midmodify) p (m_size (fw_in fw) div 2) (fw_out fw) m)
      (\<lambda>(sb, m). Ok (fw\<lparr>exec_time := measured t0 t1 message fw, fw_out := sb, fw_mem := m\<rparr>))"
proof -
  have 1: "algo (fw_entry fw) (half_of message (fw_in fw)) (m_size (fw_in fw) div 2) (fw_mem fw) = Ok (p, m)" if "fw_entry fw \<noteq> NULL"
    using assms(2) that by (simp add: algorithm_result_def)
  have 2: "p = half_of message (fw_in fw) \<and> m = fw_mem fw" if "fw_entry fw = NULL"
    using assms(2) that by (simp add: algorithm_result_def)
  have t: "fw\<lparr>exec_time := exec_time fw\<rparr> = fw" by simp
  show ?thesis
    using assms(1,3) 1 2 unfolding threadRunner_def half_of_def [symmetric]
    by (cases "fw_entry fw = NULL"; cases "MSG_FOR_MEASURE message")
      (auto simp: run_algorithm_def measured_def syscall_measure_def Let_def)
qed

section \<open>From the mailbox to the runner\<close>

text \<open>The monitor wakes up in the fetch with a message in the mailbox; nobody waits to post.\<close>

lemma fetch_resumed:
  assumes "sched_ok k" and "thd_ctx k" and "rdymsg_of k (currp k) = MSG_OK" and "mbox_inv mb k"
    and "\<not> mb_reset (mboxes k mb)" and "mb_items (mboxes k mb) = x # xs" and "queues k (MBQW mb) = []"
  obtains m where "chMBFetchTimeoutS_resume mb TIME_INFINITE k = Ok (Returned (MSG_OK, Some x), upd_mb mb (\<lambda>_. m) k)"
    and "mb_items m = xs"
proof -
  let ?g = "mb_get (mboxes k mb)" let ?k = "upd_mb mb (\<lambda>_. snd ?g) k"
  have "length (mb_items (mboxes k mb)) = Suc (length xs)" using assms(6) by simp
  then have c: "mb_cnt (mboxes k mb) > 0" by simp
  have g: "fst ?g = x" "mb_items (snd ?g) = xs" using mb_get_ok(2) [of "mboxes k mb"] c assms(4,6) by (auto simp: mbox_inv_def)
  have s: "sched_inv ?k" "thd_ctx ?k" "sched_order ?k" using assms(1,2) by (simp_all add: sched_ok_def)
  have "resched ?k = ?k" using firstprio_order [OF s(1)] s(3) by (simp add: resched_def)
  then have "chSchRescheduleS ?k = Ok ?k" using chSchRescheduleS_eq [OF s(1,2)] by simp
  then have "chMBFetchTimeoutS_resume mb TIME_INFINITE k = Ok (Returned (MSG_OK, Some x), ?k)"
    using assms c g(1) by (simp add: chMBFetchTimeoutS_resume_def chSchGoSleepTimeoutS_resume_def fetch_turn_def
      chMBGetUsedCountI_def chThdDequeueNextI_def case_prod_unfold Let_def)
  then show ?thesis using that g(2) by blast
qed

text \<open>The runner answers the sender at the head of its queue.\<close>

lemma runner_replies:
  assumes "sched_ok k" and "thd_ctx k" and "queues k (MSGQ (currp k)) = [m_thread_monitor fw]"
    and "prio_of k (m_thread_monitor fw) \<le> prio_of k (currp k)" and "fw_k fw = k"
  shows "\<exists>fw'. port_syscall_resume ctx fw = Ok (ctx\<lparr>ctx_r0 := rdymsg_of k (m_thread_monitor fw)\<rparr>, fw') \<and>
    sched_ok (fw_k fw') \<and> thread_idle_ctx (fw_k fw') \<and> currp (fw_k fw') = currp k \<and>
    state_of (fw_k fw') (m_thread_monitor fw) = CH_STATE_READY \<and> mboxes (fw_k fw') = mboxes k"
proof -
  let ?m = "m_thread_monitor fw" let ?k = "set_state CH_STATE_SNDMSG ?m (upd_q (MSGQ (currp k)) (\<lambda>_. []) k)"
  note t = msg_take_ok [OF assms(1,3)]
  have k: "sched_inv ?k" "sched_order ?k" "thd_ctx ?k" using t(1) assms(2) by (simp_all add: sched_ok_def)
  let ?w = "wake ?m MSG_OK ?k"
  have w: "sched_inv ?w" "sched_order ?w" "thd_ctx ?w" using wake_inv [OF k(1) t(2) k(2), of MSG_OK] k(3) by simp_all
  have "chMsgReleaseS ?m MSG_OK ?k = Ok ?w"
    unfolding chMsgReleaseS_def chDbgCheckClassS_thd [OF k(3)] by (rule chSchWakeupS_eq [OF k(1) t(2) k(2,3)])
  then have "port_syscall_resume ctx fw = Ok (ctx\<lparr>ctx_r0 := rdymsg_of k ?m\<rparr>, fw\<lparr>fw_k := ?w\<lparr>lock_cnt := 0\<rparr>\<rparr>)"
    using msg_take_eq [OF assms(3)] t(3) chSysUnlock_ok [OF w(3,2)] assms(5)
    by (simp add: port_syscall_resume_def chMsgWaitS_resume_def syscall_reply_def Let_def del: kbind_Ok)
  moreover have "currp ?w = currp k" "state_of ?w ?m = CH_STATE_READY" using assms(4) by (simp_all add: wake_def)
  ultimately show ?thesis
    using w chSysUnlock_ok [OF w(3,2)] by (intro exI [of _ "fw\<lparr>fw_k := ?w\<lparr>lock_cnt := 0\<rparr>\<rparr>"]) (simp add: sched_ok_def)
qed

section \<open>Properties\<close>

text \<open>
  C2: the ADC interrupt never loses a half buffer silently. With at most one message waiting, it
  marks the half that is complete, appends its message to the mailbox and makes the monitor ready if
  it waits; with two waiting, it empties the mailbox, unloads the algorithm and reports
  \<open>ConversionAborted\<close>. In both cases the mailbox is usable for the next interrupt.
\<close>

theorem adcReadHandler_flow:
  assumes "conv_isr im fw"
  shows "\<exists>fw'. adcReadHandler im buffer fw = Ok fw' \<and> conv_isr im fw' \<and>
    (length (pending im fw) \<le> 1 \<longrightarrow>
      pending im fw' = pending im fw @ [if buffer = sb_data (fw_in fw) then MSG_CONVFIRST else MSG_CONVSECOND] \<and>
      m_modified (fw_in fw') = (if buffer = sb_data (fw_in fw) then m_buffer (fw_in fw) else middata (fw_in fw)) \<and>
      fw_entry fw' = fw_entry fw \<and> fw_em fw' = fw_em fw \<and>
      (queues (fw_k fw) (MBQR (im_mailbox im)) \<noteq> [] \<longrightarrow>
        state_of (fw_k fw') (hd (queues (fw_k fw) (MBQR (im_mailbox im)))) = CH_STATE_READY)) \<and>
    (length (pending im fw) > 1 \<longrightarrow>
      pending im fw' = [] \<and> fw_entry fw' = NULL \<and> fw_em fw' = em_add ConversionAborted (fw_em fw))"
proof (cases "length (pending im fw) \<le> 1")
  case True
  then show ?thesis using adcReadHandler_posts [OF assms True, of buffer] by auto
next
  case False
  then have "length (pending im fw) = 2" using assms by (auto simp: conv_isr_def mbox_inv_def mb_ok_def)
  then show ?thesis using adcReadHandler_aborts [OF assms, of buffer] False by auto
qed

text \<open>
  C35: aborting the algorithm redirects the runner thread: the processor will return through a frame
  at the very end of the runner's stack, to the instruction the algorithm was interrupted at, which
  is now \<open>bx lr\<close>, with \<open>lr\<close> holding the start of the runner's loop and the Thumb bit set.
\<close>

theorem abort_redirects:
  assumes "runner_interrupted im fpu fw"
  shows "(let fw' = conv_abort im fpu fw; n = fw_psp fw'; pc = load32 (fw_mem fw') (n + 24) in
    n + (if fpu then 26 else 8) * 4 = im_runner_stack im + CONVERSION_THREAD_STACK_SIZE \<and>
    load32 (fw_mem fw') (n + 20) = im_threadRunner im \<and> pc = load32 (fw_mem fw) (fw_psp fw + 24) \<and>
    load16 (fw_mem fw') pc = 0x4770 \<and> bit (load32 (fw_mem fw') (n + 28)) 24)"
proof -
  let ?n = "new_frame im fpu" let ?pc = "load32 (fw_mem fw) (fw_psp fw + 24)" let ?m = "fw_mem (conv_abort im fpu fw)"
  note m = conv_abort_mem [OF assms]
  have d: "disjoint ?pc 2 ?n 32" using assms by (simp add: runner_interrupted_def)
  have dn: "disjoint ?pc 2 (?n + of_nat j) 4" if "j + 4 \<le> 32" for j
    using disjoint_sub [OF d, of 0 2 j 4] that by simp
  have w: "disjoint (?n + of_nat i) 4 (?n + of_nat j) 4" if "disjoint (of_nat i) 4 (of_nat j) 4" for i j
    using that by (simp add: disjoint_def)
  have "load32 ?m (?n + 20) = im_threadRunner im"
    using load_store_other(1) [OF w [of 20 28]] load_store_other(1) [OF w [of 20 24]] load_store_other(2) dn [of 20] disjoint_sym
    unfolding m by (simp add: disjoint_def)
  moreover have "load32 ?m (?n + 24) = ?pc"
    using load_store_other(1) [OF w [of 24 28]] load_store_other(2) dn [of 24] disjoint_sym unfolding m by (simp add: disjoint_def)
  moreover have "load16 ?m ?pc = 0x4770" using load_store_other(3) dn [of 28] unfolding m by simp
  moreover have "bit (load32 ?m (?n + 28)) 24" unfolding m by (simp add: bit_simps)
  ultimately show ?thesis unfolding Let_def m(1) by (simp add: new_frame_def)
qed


text \<open>
  C4: what the runner does with a message. It applies the loaded algorithm to the half of the input
  buffer that the message names (without one, the samples pass unchanged) and copies the result to
  the same half of the output buffer, which is marked as modified; nothing outside the output
  buffer changes after the algorithm returns. A measuring message records the time between the two
  counter readings less the calibrated offset and the call's own overhead of 195 cycles.
\<close>

theorem runner_output:
  assumes "message \<noteq> 0" and "algorithm_result algo message fw = Ok (p, m)" and "p \<noteq> NULL"
    and "m_size (fw_out fw) = m_size (fw_in fw)" and "unat (m_size (fw_in fw)) \<le> 8192" and "unat p + 16384 < 2 ^ 32"
    and "disjoint (m_buffer (fw_out fw)) 16384 p 16384"
  shows "\<exists>fw'. threadRunner algo t0 t1 message fw = Ok fw' \<and>
    (\<forall>i < 2 * unat (m_size (fw_in fw) div 2). fw_mem fw' (half_of message (fw_out fw) + of_nat i) = m (p + of_nat i)) \<and>
    m_modified (fw_out fw') = half_of message (fw_out fw) \<and>
    (\<forall>a. unat (a - m_buffer (fw_out fw)) \<ge> 16384 \<longrightarrow> fw_mem fw' a = m a) \<and>
    (fw_entry fw \<noteq> NULL \<and> MSG_FOR_MEASURE message \<and> t1 - t0 - fw_tm_offset fw > 195 \<longrightarrow>
       tm_last (exec_time fw') = t1 - t0 - fw_tm_offset fw - 195)"
proof -
  let ?n = "m_size (fw_in fw) div 2" let ?o = "fw_out fw"
  have sz: "unat (m_size ?o) \<le> 8192" "min ?n (m_size ?o) = ?n" "min ?n (m_size ?o div 2) = ?n"
    using assms(4,5) by (simp_all add: min_def word_le_nat_alt unat_div)
  note e = threadRunner_eq [OF assms(1-3), of t0 t1]
  have t: "tm_last (measured t0 t1 message fw) = t1 - t0 - fw_tm_offset fw - 195"
    if "fw_entry fw \<noteq> NULL" "MSG_FOR_MEASURE message" "t1 - t0 - fw_tm_offset fw > 195"
    using that by (simp add: measured_def syscall_measure_def measurement_overhead_def measure_one duration_def Let_def)
  show ?thesis
  proof (cases "MSG_FOR_FIRST message")
    case True
    then show ?thesis
      using modify_ok [OF sz(1) assms(6,7), of ?n m] e sz(2) t by (auto simp: half_of_def sb_data_def)
  next
    case False
    then show ?thesis
      using midmodify_ok [OF sz(1) assms(6) middata_disjoint [OF sz(1) assms(7)], of ?n m] e sz(3) t
      by (auto simp: half_of_def)
  qed
qed



text \<open>
  A hard fault while a conversion is running is never recovered from: the handler only hands
  over to the recovery code when the status is not \<open>Running\<close>, and otherwise loops for ever.
\<close>

theorem hardfault_gives_up:
  "HardFault_Handler im lr fw =
     (if run_status fw = Running then Diverge
      else if lr AND 4 = 0 then Diverge else Ok (conv_abort im (\<not> bit lr 4) fw))"
  using and_exp_eq_0_iff_not_bit [of lr 4] by (simp add: HardFault_Handler_def MemManage_Handler_def)


section \<open>An instance\<close>

text \<open>
  The mailbox is at 64, the runner's stack at \<open>0x10000000\<close>; the thread at 16 is the monitor, the one at
  48 the runner.
\<close>

definition demo_image :: image where
  "demo_image = \<lparr>im_mailbox = 64, im_monitor_stack = 0x20001000, im_runner_entry_stack = 0x20001400,
     im_runner_stack = 0x10000000, im_threadMonitor = 0x8000101, im_threadRunnerEntry = 0x8000201,
     im_threadRunner = 0x8000301, im_file_buffer = 0x20004000, im_alt_result = 0x20000100\<rparr>"

definition demo_fw :: firmware where
  "demo_fw = \<lparr>fw_k = demo_mbox\<lparr>isr_cnt := 1, lock_cnt := 0\<rparr>, fw_mem = (\<lambda>_. 0), fw_an = demo_analog, fw_in = Samples_In,
     fw_out = Samples_Out, fw_gen = Samples_Generator, fw_em = em_init, fw_entry = NULL, run_status = Running,
     fw_psp = 0x10001000, exec_time = chTMObjectInit, fw_tm_offset = 0, m_thread_monitor = 16, m_thread_runner = 48\<rparr>"

theorem adcReadHandler_flow_witness:
  "\<exists>fw'. adcReadHandler demo_image 0x20008000 demo_fw = Ok fw' \<and> pending demo_image fw' = [5, 1] \<and>
    state_of (fw_k fw') 48 = CH_STATE_READY"
proof -
  let ?mb = "\<lparr>mb_buffer = [5, 0], mb_wrptr = 1, mb_rdptr = 0, mb_cnt = 1, mb_reset = False\<rparr>"
  have m: "mboxes (fw_k demo_fw) 64 = ?mb" "queues (fw_k demo_fw) (MBQR 64) = [48]" "im_mailbox demo_image = 64"
    "sb_data (fw_in demo_fw) = 0x20008000"
    by (simp_all add: demo_fw_def demo_mbox_def demo_image_def sb_data_def Samples_In_def new_SampleBuffer_def)
  have "sched_inv (fw_k demo_fw)" "mbox_inv 64 (fw_k demo_fw)" "isr_cnt (fw_k demo_fw) = 1" "lock_cnt (fw_k demo_fw) = 0"
    using demo_mbox_ok by (simp_all add: demo_fw_def sched_inv_def mbox_inv_def)
  then have "conv_isr demo_image demo_fw" using m by (simp add: conv_isr_def)
  then show ?thesis
    using adcReadHandler_flow [of demo_image demo_fw "0x20008000"] m by (auto simp: mb_items_def ring_items_def msg_defs)
qed

theorem abort_redirects_witness:
  "(let fw' = conv_abort demo_image True demo_fw; n = fw_psp fw' in
    n = 0x10003B98 \<and> load32 (fw_mem fw') (n + 20) = 0x8000301 \<and> load16 (fw_mem fw') (load32 (fw_mem fw') (n + 24)) = 0x4770)"
proof -
  have l: "load32 (fw_mem demo_fw) a = 0" for a by (simp add: demo_fw_def load32_def)
  have "runner_interrupted demo_image True demo_fw"
    unfolding runner_interrupted_def l
    by (simp add: demo_image_def demo_fw_def new_frame_def CONVERSION_THREAD_STACK_SIZE_def disjoint_def word_le_nat_alt)
  from abort_redirects [OF this] show ?thesis
    by (auto simp: Let_def demo_image_def CONVERSION_THREAD_STACK_SIZE_def eq_diff_eq [symmetric])
qed

theorem runner_output_witness:
  "\<exists>fw'. threadRunner (\<lambda>_ _ _ m. Ok (0x20004000, m)) 0 0 MSG_CONVSECOND (demo_fw\<lparr>fw_entry := 0x10000101\<rparr>) = Ok fw' \<and>
    m_modified (fw_out fw') = 0x2000E000"
proof -
  let ?a = "\<lambda>_ _ _ m. Ok (0x20004000, m)" let ?fw = "demo_fw\<lparr>fw_entry := 0x10000101\<rparr>"
  have f: "algorithm_result ?a MSG_CONVSECOND ?fw = Ok (0x20004000, fw_mem ?fw)" "m_size (fw_out ?fw) = m_size (fw_in ?fw)"
    "unat (m_size (fw_in ?fw)) \<le> 8192" "disjoint (m_buffer (fw_out ?fw)) 16384 0x20004000 16384"
    "half_of MSG_CONVSECOND (fw_out ?fw) = 0x2000E000" "MSG_CONVSECOND \<noteq> 0"
    by (simp_all add: algorithm_result_def demo_fw_def Samples_Out_def Samples_In_def new_SampleBuffer_def
      MAX_SAMPLE_BUFFER_SIZE_def disjoint_def half_of_def MSG_FOR_FIRST_def msg_defs middata_def)
  show ?thesis using runner_output [OF f(6,1) _ f(2,3) _ f(4), of 0 0] f(5) by auto
qed

text \<open>The monitor runs in its fetch with one message in the mailbox, the runner waits.\<close>

definition demo_pipe :: kernel where
  "demo_pipe = upd_mb 64 (\<lambda>_. \<lparr>mb_buffer = [2, 0], mb_wrptr = 1, mb_rdptr = 0, mb_cnt = 1, mb_reset = False\<rparr>)
     (upd_th 48 (t_state_update (\<lambda>_. CH_STATE_WTMSG)) demo_kernel)"

lemma demo_pipe_ok: "sched_ok demo_pipe" "thd_ctx demo_pipe" "mbox_inv 64 demo_pipe"
  by (auto simp: demo_pipe_def demo_kernel_def kernel_reset_def no_thread_def sched_ok_def sched_inv_def sched_order_def
      thd_ctx_def mbox_inv_def mb_ok_def split: if_splits)


end
