(* ===== verification/Communication.thy ===== *)
theory Communication
  imports Conversion
begin

text \<open>
  The protocol with the host (\<open>source/communication.cpp\<close>): one byte selects one of 19 commands, which
  may read parameters, change the state of the firmware and answer.

  The serial stream (\<open>source/periph/usbserial.cpp\<close>) is a script of what the host will send and a log
  of what it has been sent. A read waits until it has all the bytes it asked for; a reset of the bus
  ends it early with the bytes it has (\<open>RxReset\<close>); at the end of the script it waits for ever. What a
  read gives is stored at the address it was given. \<open>pll\<close> says whether the PLL follows
  \<open>ADC::setRate\<close>.
\<close>

section \<open>The stream\<close>

datatype rx = RxByte byte | RxReset

record usb =
  usb_rx :: "rx list"
  usb_tx :: "byte list"

fun rx_take :: "nat \<Rightarrow> rx list \<Rightarrow> (byte list \<times> rx list) option" where
  "rx_take 0 rs = Some ([], rs)"
| "rx_take (Suc n) [] = None"
| "rx_take (Suc n) (RxReset # rs) = Some ([], rs)"
| "rx_take (Suc n) (RxByte b # rs) = map_option (\<lambda>(bs, rs). (b # bs, rs)) (rx_take n rs)"

definition USBSerial_read :: "nat \<Rightarrow> usb \<Rightarrow> (byte list \<times> usb) kres" where
  "USBSerial_read n u =
     (case rx_take n (usb_rx u) of None \<Rightarrow> Diverge | Some (bs, rs) \<Rightarrow> Ok (bs, u\<lparr>usb_rx := rs\<rparr>))"

definition USBSerial_write :: "byte list \<Rightarrow> usb \<Rightarrow> usb" where
  "USBSerial_write bs u = u\<lparr>usb_tx := usb_tx u @ bs\<rparr>"

definition poke :: "u32 \<Rightarrow> byte list \<Rightarrow> mem \<Rightarrow> mem" where
  "poke a bs m = (\<lambda>x. if unat (x - a) < length bs then bs ! unat (x - a) else m x)"

definition peek :: "mem \<Rightarrow> u32 \<Rightarrow> nat \<Rightarrow> byte list" where
  "peek m a n = map (\<lambda>i. m (a + of_nat i)) [0..<n]"

text \<open>A read into memory, as most commands use it.\<close>

definition read_to :: "u32 \<Rightarrow> nat \<Rightarrow> firmware \<Rightarrow> usb \<Rightarrow> (firmware \<times> usb) kres" where
  "read_to a n fw u =
     kbind (USBSerial_read n u) (\<lambda>(bs, u). Ok (fw\<lparr>fw_mem := poke a bs (fw_mem fw)\<rparr>, u))"

definition EM_assert :: "bool \<Rightarrow> Error \<Rightarrow> firmware \<Rightarrow> bool \<times> firmware" where
  "EM_assert c e fw = (let (b, em) = em_assert c e (fw_em fw) in (b, fw\<lparr>fw_em := em\<rparr>))"

definition param16 :: "byte list \<Rightarrow> u32" where
  "param16 bs = ucast (bs ! 0) OR push_bit 8 (ucast (bs ! 1))"

text \<open>Two bytes of parameters, or the error \<open>BadParamSize\<close>.\<close>

definition with_param16 ::
  "(u32 \<Rightarrow> firmware \<Rightarrow> usb \<Rightarrow> (firmware \<times> usb) kres) \<Rightarrow> firmware \<Rightarrow> usb \<Rightarrow> (firmware \<times> usb) kres" where
  "with_param16 body fw u =
     kbind (USBSerial_read 2 u) (\<lambda>(bs, u).
     case EM_assert (length bs = 2) BadParamSize fw of (ok, fw) \<Rightarrow>
       if ok then body (param16 bs) fw u else Ok (fw, u))"

section \<open>Commands\<close>

definition writeADCBuffer :: "firmware \<Rightarrow> usb \<Rightarrow> (firmware \<times> usb) kres" where
  "writeADCBuffer fw u = read_to (sb_data (fw_in fw)) (unat (bytesize (fw_in fw))) fw u"

definition setBufferSize :: "firmware \<Rightarrow> usb \<Rightarrow> (firmware \<times> usb) kres" where
  "setBufferSize fw u =
     (case EM_assert (run_status fw = Idle) NotIdle fw of (ok, fw) \<Rightarrow>
        if ok
        then with_param16 (\<lambda>p fw u.
               let count = p * 2
               in case EM_assert (count \<le> MAX_SAMPLE_BUFFER_SIZE) BadParam fw of (ok, fw) \<Rightarrow>
                    Ok (if ok then fw\<lparr>fw_in := setSize count (fw_in fw), fw_out := setSize count (fw_out fw)\<rparr> else fw, u)) fw u
        else Ok (fw, u))"

definition updateGenerator :: "firmware \<Rightarrow> usb \<Rightarrow> (firmware \<times> usb) kres" where
  "updateGenerator = with_param16 (\<lambda>count fw u.
     case EM_assert (count \<le> MAX_SAMPLE_BUFFER_SIZE) BadParam fw of (ok, fw) \<Rightarrow>
       if \<not> ok then Ok (fw, u)
       else if \<not> DAC_isSigGenRunning (fw_an fw)
       then let fw = fw\<lparr>fw_gen := setSize count (fw_gen fw)\<rparr>
            in read_to (sb_data (fw_gen fw)) (unat (bytesize (fw_gen fw))) fw u
       else case DAC_sigGenWantsMore (fw_an fw) of (wants, a) \<Rightarrow>
            let fw = fw\<lparr>fw_an := a\<rparr>
            in if wants = - 1 then Ok (fw, USBSerial_write [0] u)
               else read_to (if wants = 0 then sb_data (fw_gen fw) else middata (fw_gen fw))
                      (unat (bytesize (fw_gen fw) div 2)) fw (USBSerial_write [1] u))"

definition loadAlgorithm :: "image \<Rightarrow> firmware \<Rightarrow> usb \<Rightarrow> (firmware \<times> usb) kres" where
  "loadAlgorithm im fw u =
     (case EM_assert (run_status fw = Idle) NotIdle fw of (ok, fw) \<Rightarrow>
        if ok
        then with_param16 (\<lambda>sz fw u.
               case EM_assert (sz < MAX_ELF_FILE_SIZE) BadUserCodeSize fw of (ok, fw) \<Rightarrow>
                 if ok
                 then kbind (read_to (im_file_buffer im) (unat sz) fw u) (\<lambda>(fw, u).
                      kbind (loadFromInternalBuffer (im_file_buffer im) (fw_mem fw)) (\<lambda>(success, entry, m).
                      Ok (snd (EM_assert success BadUserCodeLoad (fw\<lparr>fw_entry := entry, fw_mem := m\<rparr>)), u)))
                 else Ok (fw, u)) fw u
        else Ok (fw, u))"

definition readStatus :: "firmware \<Rightarrow> usb \<Rightarrow> (firmware \<times> usb) kres" where
  "readStatus fw u =
     (case em_pop (fw_em fw) of (e, em) \<Rightarrow>
        Ok (fw\<lparr>fw_em := em\<rparr>, USBSerial_write [run_status_code (run_status fw), error_code e] u))"

definition measureConversion :: "firmware \<Rightarrow> usb \<Rightarrow> (firmware \<times> usb) kres" where
  "measureConversion fw u =
     (case EM_assert (run_status fw = Running) NotRunning fw of (ok, fw) \<Rightarrow>
        Ok (if ok then conv_startMeasurement fw else fw, u))"

definition startConversion :: "firmware \<Rightarrow> usb \<Rightarrow> (firmware \<times> usb) kres" where
  "startConversion fw u =
     (case EM_assert (run_status fw = Idle) NotIdle fw of (ok, fw) \<Rightarrow>
        if ok then kbind (conv_start (fw\<lparr>run_status := Running\<rparr>)) (\<lambda>fw. Ok (fw, u)) else Ok (fw, u))"

definition stopConversion :: "firmware \<Rightarrow> usb \<Rightarrow> (firmware \<times> usb) kres" where
  "stopConversion fw u =
     (case EM_assert (run_status fw = Running) NotRunning fw of (ok, fw) \<Rightarrow>
        if ok then kbind (conv_stop fw) (\<lambda>fw. Ok (fw\<lparr>run_status := Idle\<rparr>, u)) else Ok (fw, u))"

definition startGenerator :: "firmware \<Rightarrow> usb \<Rightarrow> (firmware \<times> usb) kres" where
  "startGenerator fw u =
     kbind (DAC_start 1 (sb_data (fw_gen fw)) (m_size (fw_gen fw)) (fw_an fw) (fw_k fw)) (\<lambda>(a, k).
     Ok (fw\<lparr>fw_an := a, fw_k := k\<rparr>, u))"

definition stopGenerator :: "firmware \<Rightarrow> usb \<Rightarrow> (firmware \<times> usb) kres" where
  "stopGenerator fw u =
     kbind (DAC_stop 1 (fw_an fw) (fw_k fw)) (\<lambda>(a, k). Ok (fw\<lparr>fw_an := a, fw_k := k\<rparr>, u))"

definition readADCBuffer :: "firmware \<Rightarrow> usb \<Rightarrow> (firmware \<times> usb) kres" where
  "readADCBuffer fw u =
     Ok (fw, USBSerial_write (peek (fw_mem fw) (sb_data (fw_in fw)) (unat (bytesize (fw_in fw)))) u)"

definition readDACBuffer :: "firmware \<Rightarrow> usb \<Rightarrow> (firmware \<times> usb) kres" where
  "readDACBuffer fw u =
     Ok (fw, USBSerial_write (peek (fw_mem fw) (sb_data (fw_out fw)) (unat (bytesize (fw_out fw)))) u)"

definition unloadAlgorithm :: "firmware \<Rightarrow> usb \<Rightarrow> (firmware \<times> usb) kres" where
  "unloadAlgorithm fw u = Ok (fw\<lparr>fw_entry := elf_unload (fw_entry fw)\<rparr>, u)"

definition readIdentifier :: "firmware \<Rightarrow> usb \<Rightarrow> (firmware \<times> usb) kres" where
  "readIdentifier fw u = Ok (fw, USBSerial_write [0x73, 0x74, 0x6D, 0x64, 0x73, 0x70, 0x6C] u)"

definition readExecTime :: "firmware \<Rightarrow> usb \<Rightarrow> (firmware \<times> usb) kres" where
  "readExecTime fw u = Ok (fw, USBSerial_write (map (\<lambda>i. byte_of i (tm_last (exec_time fw))) [0..<4]) u)"

definition sampleRate :: "bool \<Rightarrow> firmware \<Rightarrow> usb \<Rightarrow> (firmware \<times> usb) kres" where
  "sampleRate pll fw u =
     kbind (USBSerial_read 1 u) (\<lambda>(bs, u).
     case EM_assert (length bs = 1) BadParamSize fw of (ok, fw) \<Rightarrow>
       if \<not> ok then Ok (fw, u)
       else if bs ! 0 = 0xFF then Ok (fw, USBSerial_write [ucast (SClock_getRate (fw_an fw))] u)
       else kbind (SClock_setRate (ucast (bs ! 0)) (fw_an fw)) (\<lambda>a.
            kbind (ADC_setRate pll (ucast (bs ! 0)) a) (\<lambda>a. Ok (fw\<lparr>fw_an := a\<rparr>, u))))"

text \<open>
  The half that was written last goes to the host in pieces of at most 512 bytes; after each piece
  the device polls until the host has answered with a byte.
\<close>

fun wait_ack :: "rx list \<Rightarrow> rx list option" where
  "wait_ack [] = None"
| "wait_ack (RxReset # rs) = wait_ack rs"
| "wait_ack (RxByte b # rs) = Some rs"

definition read_ack :: "usb \<Rightarrow> usb kres" where
  "read_ack u = (case wait_ack (usb_rx u) of None \<Rightarrow> Diverge | Some rs \<Rightarrow> Ok (u\<lparr>usb_rx := rs\<rparr>))"

function send_chunks :: "mem \<Rightarrow> u32 \<Rightarrow> nat \<Rightarrow> usb \<Rightarrow> usb kres" where
  "send_chunks m a left u =
     (if left > 512
      then (case read_ack (USBSerial_write (peek m a 512) u) of
              Ok u \<Rightarrow> send_chunks m (a + 512) (left - 512) u | Diverge \<Rightarrow> Diverge | Halt e \<Rightarrow> Halt e | Undef \<Rightarrow> Undef)
      else read_ack (USBSerial_write (peek m a left) u))"
  by auto
termination by (relation "measure (\<lambda>(m, a, left, u). left)") auto

declare send_chunks.simps [simp del]

definition half_bytes :: "u32 \<Rightarrow> byte list" where
  "half_bytes sz = [ucast (sz div 2), ucast (drop_bit 8 (sz div 2))]"

definition readConversionResults :: "firmware \<Rightarrow> usb \<Rightarrow> (firmware \<times> usb) kres" where
  "readConversionResults fw u =
     (case modified (fw_out fw) of (samps, sb) \<Rightarrow>
        let fw = fw\<lparr>fw_out := sb\<rparr>
        in if samps \<noteq> NULL
           then kbind (send_chunks (fw_mem fw) samps (unat (bytesize (fw_out fw) div 2))
                  (USBSerial_write (half_bytes (m_size (fw_out fw))) u)) (\<lambda>u. Ok (fw, u))
           else Ok (fw, USBSerial_write [0, 0] u))"

definition readConversionInput :: "firmware \<Rightarrow> usb \<Rightarrow> (firmware \<times> usb) kres" where
  "readConversionInput fw u =
     (case modified (fw_in fw) of (samps, sb) \<Rightarrow>
        let fw = fw\<lparr>fw_in := sb\<rparr>
        in if samps \<noteq> NULL
           then kbind (send_chunks (fw_mem fw) samps (unat (bytesize (fw_in fw) div 2))
                  (USBSerial_write (half_bytes (m_size (fw_in fw))) u)) (\<lambda>u. Ok (fw, u))
           else Ok (fw, USBSerial_write [0, 0] u))"

definition readMessage :: "firmware \<Rightarrow> usb \<Rightarrow> (firmware \<times> usb) kres" where
  "readMessage fw u = Ok (fw, u)"

section \<open>Dispatch\<close>

definition commandTable :: "image \<Rightarrow> bool \<Rightarrow> (byte \<times> (firmware \<Rightarrow> usb \<Rightarrow> (firmware \<times> usb) kres)) list" where
  "commandTable im pll =
     [(0x41, writeADCBuffer), (0x42, setBufferSize), (0x44, updateGenerator), (0x45, loadAlgorithm im),
      (0x49, readStatus), (0x4D, measureConversion), (0x52, startConversion), (0x53, stopConversion),
      (0x57, startGenerator), (0x61, readADCBuffer), (0x64, readDACBuffer), (0x65, unloadAlgorithm),
      (0x69, readIdentifier), (0x6D, readExecTime), (0x72, sampleRate pll), (0x73, readConversionResults),
      (0x74, readConversionInput), (0x75, readMessage), (0x77, stopGenerator)]"

definition dispatch :: "image \<Rightarrow> bool \<Rightarrow> byte \<Rightarrow> firmware \<Rightarrow> usb \<Rightarrow> (firmware \<times> usb) kres" where
  "dispatch im pll cmd fw u =
     (case find (\<lambda>f. fst f = cmd) (commandTable im pll) of None \<Rightarrow> Ok (fw, u) | Some f \<Rightarrow> snd f fw u)"

text \<open>One turn of the thread's loop up to the sleep of 100 microseconds that ends it.\<close>

definition threadComm :: "image \<Rightarrow> bool \<Rightarrow> bool \<Rightarrow> firmware \<Rightarrow> usb \<Rightarrow> (firmware \<times> usb) kres" where
  "threadComm im pll isActive fw u =
     (if isActive
      then kbind (USBSerial_read 1 u) (\<lambda>(bs, u). if length bs > 0 then dispatch im pll (bs ! 0) fw u else Ok (fw, u))
      else Ok (fw, u))"


section \<open>The invariant of the commands\<close>

text \<open>
  The run status agrees with the converters, the clock with its users, both conversion buffers have
  the same even size, and no buffer is larger than the memory reserved for it.
\<close>

definition status_ok :: "firmware \<Rightarrow> bool" where
  "status_ok fw \<longleftrightarrow>
     (run_status fw = Running \<and> adc_active (adcd (fw_an fw)) \<and> dac_active (dacd (fw_an fw) 0)) \<or>
     (run_status fw = Idle \<and> adc_ready (adcd (fw_an fw)) \<and> dac_ready (dacd (fw_an fw) 0))"

definition sizes_ok :: "firmware \<Rightarrow> bool" where
  "sizes_ok fw \<longleftrightarrow> m_size (fw_out fw) = m_size (fw_in fw) \<and> m_size (fw_in fw) \<le> 8192 \<and> even (unat (m_size (fw_in fw))) \<and>
     m_size (fw_gen fw) \<le> 8192 \<and> m_buffer (fw_in fw) = 0x20008000 \<and> m_buffer (fw_out fw) = 0x2000C000 \<and>
     m_buffer (fw_gen fw) = 0x20010000"

definition comm_inv :: "firmware \<Rightarrow> bool" where
  "comm_inv fw \<longleftrightarrow> running (fw_k fw) \<and> clock_inv (fw_an fw) \<and> em_ok (fw_em fw) \<and> status_ok fw \<and> sizes_ok fw"

definition keeps_inv :: "(firmware \<Rightarrow> usb \<Rightarrow> (firmware \<times> usb) kres) \<Rightarrow> bool" where
  "keeps_inv f \<longleftrightarrow> (\<forall>fw u fw' u'. comm_inv fw \<longrightarrow> f fw u = Ok (fw', u') \<longrightarrow> comm_inv fw')"

lemma keeps_invI:
  "(\<And>fw u fw' u'. comm_inv fw \<Longrightarrow> f fw u = Ok (fw', u') \<Longrightarrow> comm_inv fw') \<Longrightarrow> keeps_inv f"
  unfolding keeps_inv_def by blast

lemma keeps_invD: "keeps_inv f \<Longrightarrow> comm_inv fw \<Longrightarrow> f fw u = Ok (fw', u') \<Longrightarrow> comm_inv fw'"
  unfolding keeps_inv_def by blast

text \<open>The parts of the state that the invariant does not look at.\<close>

lemma comm_inv_frame [simp]:
  "comm_inv (fw\<lparr>fw_mem := m\<rparr>) = comm_inv fw" "comm_inv (fw\<lparr>fw_entry := e\<rparr>) = comm_inv fw"
  "comm_inv (fw\<lparr>exec_time := t\<rparr>) = comm_inv fw" "comm_inv (fw\<lparr>fw_psp := p\<rparr>) = comm_inv fw"
  by (simp_all add: comm_inv_def status_ok_def sizes_ok_def)

lemma comm_inv_em: "comm_inv fw \<Longrightarrow> em_ok em \<Longrightarrow> comm_inv (fw\<lparr>fw_em := em\<rparr>)"
  by (simp add: comm_inv_def status_ok_def sizes_ok_def)

lemma EM_assert_eq: "EM_assert c e fw = (c, fw\<lparr>fw_em := (if c then fw_em fw else em_add e (fw_em fw))\<rparr>)"
  by (simp add: EM_assert_def em_assert_def)

lemma comm_inv_assert: "comm_inv fw \<Longrightarrow> comm_inv (fw\<lparr>fw_em := (if c then fw_em fw else em_add e (fw_em fw))\<rparr>)"
  by (rule comm_inv_em) (auto simp: comm_inv_def ems.push_ok)

lemma comm_inv_an:
  assumes "comm_inv fw" and "clock_inv a" and "adcd a = adcd (fw_an fw)" and "dacd a 0 = dacd (fw_an fw) 0"
  shows "comm_inv (fw\<lparr>fw_an := a\<rparr>)"
  using assms by (simp add: comm_inv_def status_ok_def sizes_ok_def)

lemma keeps_read_to: "keeps_inv (read_to a n)"
  by (rule keeps_invI) (auto simp: read_to_def)

lemma keeps_assert:
  assumes "\<And>c. keeps_inv (f c)"
  shows "keeps_inv (\<lambda>fw u. case EM_assert (P fw) e fw of (c, fw) \<Rightarrow> f c fw u)"
proof (rule keeps_invI)
  fix fw u fw' u' assume "comm_inv fw" and "(case EM_assert (P fw) e fw of (c, fw) \<Rightarrow> f c fw u) = Ok (fw', u')"
  then show "comm_inv fw'"
    unfolding EM_assert_eq using keeps_invD [OF assms comm_inv_assert] by simp
qed

lemma keeps_if:
  "keeps_inv f \<Longrightarrow> keeps_inv g \<Longrightarrow> keeps_inv (\<lambda>fw u. if c then f fw u else g fw u)"
  by (cases c) simp_all

lemma keeps_when: "keeps_inv f \<Longrightarrow> keeps_inv g \<Longrightarrow> keeps_inv (\<lambda>fw u. if P fw then f fw u else g fw u)"
  unfolding keeps_inv_def by metis

lemma keeps_Ok: "(\<And>fw. comm_inv fw \<Longrightarrow> comm_inv (f fw)) \<Longrightarrow> keeps_inv (\<lambda>fw u. Ok (f fw, g fw u))"
  by (rule keeps_invI) auto

lemma keeps_with_param16:
  assumes "\<And>p. keeps_inv (body p)"
  shows "keeps_inv (with_param16 body)"
proof (rule keeps_invI)
  fix fw u fw' u' assume i: "comm_inv fw" and r: "with_param16 body fw u = Ok (fw', u')"
  obtain bs u1 where "(case EM_assert (length bs = 2) BadParamSize fw of (ok, fw) \<Rightarrow>
      if ok then body (param16 bs) fw u1 else Ok (fw, u1)) = Ok (fw', u')"
    using r unfolding with_param16_def kbind_Ok by (auto simp del: split_paired_Ex)
  then show "comm_inv fw'"
    using keeps_invD [OF keeps_assert [of "\<lambda>c fw u. if c then body (param16 bs) fw u else Ok (fw, u)" "\<lambda>_. length bs = 2"] i]
      keeps_if [OF assms keeps_Ok] by fastforce
qed

section \<open>Each command keeps the invariant\<close>

lemma keeps_setBufferSize: "keeps_inv setBufferSize"
proof -
  have ev: "even (unat (p * 2))" for p :: u32 by (simp add: unat_word_ariths dvd_mod)
  have s: "comm_inv (if c then fw\<lparr>fw_in := setSize (p * 2) (fw_in fw), fw_out := setSize (p * 2) (fw_out fw)\<rparr> else fw)"
    if "comm_inv fw" for fw p c
    using that ev [of p] by (auto simp: comm_inv_def status_ok_def sizes_ok_def setSize_def MAX_SAMPLE_BUFFER_SIZE_def)
  show ?thesis unfolding setBufferSize_def Let_def
    by (intro keeps_assert keeps_if keeps_with_param16 keeps_Ok s)
qed

lemma keeps_updateGenerator: "keeps_inv updateGenerator"
proof -
  have g: "comm_inv (fw\<lparr>fw_gen := setSize n (fw_gen fw)\<rparr>)" if "comm_inv fw" for fw n
    using that by (auto simp: comm_inv_def status_ok_def sizes_ok_def setSize_def MAX_SAMPLE_BUFFER_SIZE_def)
  have a: "comm_inv (fw\<lparr>fw_an := snd (DAC_sigGenWantsMore (fw_an fw))\<rparr>)" if "comm_inv fw" for fw
    using that by (intro comm_inv_an) (auto simp: DAC_sigGenWantsMore_def comm_inv_def intro: clock_inv_frame)
  have b: "keeps_inv (\<lambda>fw u.
      if \<not> c then Ok (fw, u)
      else if \<not> DAC_isSigGenRunning (fw_an fw)
      then let fw = fw\<lparr>fw_gen := setSize p (fw_gen fw)\<rparr> in read_to (sb_data (fw_gen fw)) (unat (bytesize (fw_gen fw))) fw u
      else case DAC_sigGenWantsMore (fw_an fw) of (wants, a) \<Rightarrow>
           let fw = fw\<lparr>fw_an := a\<rparr>
           in if wants = - 1 then Ok (fw, USBSerial_write [0] u)
              else read_to (if wants = 0 then sb_data (fw_gen fw) else middata (fw_gen fw))
                     (unat (bytesize (fw_gen fw) div 2)) fw (USBSerial_write [1] u))" for c p
  proof (rule keeps_invI, goal_cases)
    case (1 fw u fw' u')
    note r = keeps_invD [OF keeps_read_to g [OF 1(1), of p]] keeps_invD [OF keeps_read_to a [OF 1(1)]]
    show ?case using 1 r a [OF 1(1)] by (auto simp: Let_def case_prod_unfold split: if_splits)
  qed
  show ?thesis unfolding updateGenerator_def by (intro keeps_with_param16 keeps_assert b)
qed

lemma keeps_loadAlgorithm: "keeps_inv (loadAlgorithm im)"
proof -
  have l: "keeps_inv (\<lambda>fw u. kbind (read_to (im_file_buffer im) n fw u) (\<lambda>(fw, u).
      kbind (loadFromInternalBuffer (im_file_buffer im) (fw_mem fw)) (\<lambda>(success, entry, m).
      Ok (snd (EM_assert success BadUserCodeLoad (fw\<lparr>fw_entry := entry, fw_mem := m\<rparr>)), u))))" for n
  proof (rule keeps_invI)
    fix fw u fw' u' assume i: "comm_inv fw" and r: "kbind (read_to (im_file_buffer im) n fw u) (\<lambda>(fw, u).
      kbind (loadFromInternalBuffer (im_file_buffer im) (fw_mem fw)) (\<lambda>(success, entry, m).
      Ok (snd (EM_assert success BadUserCodeLoad (fw\<lparr>fw_entry := entry, fw_mem := m\<rparr>)), u))) = Ok (fw', u')"
    then obtain fw1 u1 s e m where f: "read_to (im_file_buffer im) n fw u = Ok (fw1, u1)"
      "fw' = snd (EM_assert s BadUserCodeLoad (fw1\<lparr>fw_entry := e, fw_mem := m\<rparr>))" by auto
    have "comm_inv (fw1\<lparr>fw_entry := e, fw_mem := m\<rparr>)" using keeps_invD [OF keeps_read_to i f(1)] by simp
    from comm_inv_assert [OF this, of s BadUserCodeLoad] show "comm_inv fw'" using f(2) by (simp add: EM_assert_eq)
  qed
  show ?thesis unfolding loadAlgorithm_def by (intro keeps_assert keeps_if keeps_with_param16 keeps_Ok l)
qed

lemma keeps_sampleRate: "keeps_inv (sampleRate pll)"
proof (rule keeps_invI)
  fix fw u fw' u' assume i: "comm_inv fw" and r: "sampleRate pll fw u = Ok (fw', u')"
  have a: "comm_inv (fw1\<lparr>fw_an := a\<rparr>)"
    if "comm_inv fw1" "SClock_setRate q (fw_an fw1) = Ok a'" "ADC_setRate pll q a' = Ok a" for fw1 q a' a
    using that by (intro comm_inv_an)
      (auto simp: SClock_setRate_def ADC_setRate_def Let_def case_prod_beta comm_inv_def intro: clock_inv_frame split: if_splits)
  obtain bs u1 where rd: "USBSerial_read 1 u = Ok (bs, u1)" using r unfolding sampleRate_def by auto
  show "comm_inv fw'"
    using r rd i comm_inv_assert [OF i, of "length bs = 1" BadParamSize] a [OF i]
    by (auto simp: sampleRate_def EM_assert_eq split: if_splits)
qed

lemma keeps_modified:
  "keeps_inv readConversionResults" "keeps_inv readConversionInput"
proof -
  have m: "comm_inv (fw\<lparr>fw_out := (fw_out fw)\<lparr>m_modified := p\<rparr>\<rparr>)" "comm_inv (fw\<lparr>fw_in := (fw_in fw)\<lparr>m_modified := p\<rparr>\<rparr>)"
    if "comm_inv fw" for fw p using that by (auto simp: comm_inv_def status_ok_def sizes_ok_def)
  show "keeps_inv readConversionResults"
    by (rule keeps_invI) (use m in \<open>auto simp: readConversionResults_def modified_def Let_def split: if_splits\<close>)
  show "keeps_inv readConversionInput"
    by (rule keeps_invI) (use m in \<open>auto simp: readConversionInput_def modified_def Let_def split: if_splits\<close>)
qed


lemma keeps_startConversion: "keeps_inv startConversion"
proof (rule keeps_invI)
  fix fw u fw' u' assume i: "comm_inv fw" and r: "startConversion fw u = Ok (fw', u')"
  show "comm_inv fw'"
  proof (cases "run_status fw = Idle")
    case False
    then show ?thesis using r comm_inv_assert [OF i, of False NotIdle] by (auto simp: startConversion_def EM_assert_eq)
  next
    case True
    let ?a = "fw_an fw" let ?k = "fw_k fw"
    have k: "running ?k" "clock_inv ?a" "adc_ready (adcd ?a)" "dac_ready (dacd ?a 0)"
      using i True by (auto simp: comm_inv_def status_ok_def)
    obtain a1 k1 a2 k2 where s: "ADC_start (sb_data (fw_in fw)) (m_size (fw_in fw)) OpReadHandler ?a ?k = Ok (a1, k1)"
      "DAC_start (int 0) (sb_data (fw_out fw)) (m_size (fw_out fw)) a1 k1 = Ok (a2, k2)"
      "fw' = fw\<lparr>run_status := Running, fw_mem := sb_clear (fw_out fw) (fw_mem fw), fw_an := a2, fw_k := k2\<rparr>"
      using r True by (auto simp: startConversion_def EM_assert_eq conv_start_def Let_def)
    note v = ADC_start_Ok [OF k(1,2) s(1)]
    have 1: "k1 = ?k \<and> clock_inv a1 \<and> adc_active (adcd a1) \<and> dacd a1 = dacd ?a"
      by (rule ADC_start_keeps [OF k(1,2) v, where op = OpReadHandler]) (use s(1) in simp)
    then have c: "clock_inv a1" "DAC_start (int 0) (sb_data (fw_out fw)) (m_size (fw_out fw)) a1 ?k = Ok (a2, k2)"
      using s(2) by simp_all
    note w = DAC_start_Ok [OF k(1) c(1) _ c(2)]
    have "k2 = ?k \<and> clock_inv a2 \<and> adcd a2 = adcd a1 \<and> dac_active (dacd a2 0)"
      by (rule DAC_start_keeps [OF k(1) c(1), of 0 "sb_data (fw_out fw)" "m_size (fw_out fw)"]) (use w c(2) in simp_all)
    then show ?thesis using i 1 s(3) by (simp add: comm_inv_def status_ok_def sizes_ok_def)
  qed
qed

lemma keeps_stopConversion: "keeps_inv stopConversion"
proof (rule keeps_invI)
  fix fw u fw' u' assume i: "comm_inv fw" and r: "stopConversion fw u = Ok (fw', u')"
  show "comm_inv fw'"
  proof (cases "run_status fw = Running")
    case False
    then show ?thesis using r comm_inv_assert [OF i, of False NotRunning] by (auto simp: stopConversion_def EM_assert_eq)
  next
    case True
    let ?a = "fw_an fw" let ?k = "fw_k fw"
    have k: "running ?k" "clock_inv ?a" "adc_active (adcd ?a)" "dac_active (dacd ?a 0)"
      using i True by (auto simp: comm_inv_def status_ok_def)
    obtain a1 k1 a2 k2 where s: "DAC_stop (int 0) ?a ?k = Ok (a1, k1)" "ADC_stop a1 k1 = Ok (a2, k2)"
      "fw' = fw\<lparr>fw_an := a2, fw_k := k2, run_status := Idle\<rparr>"
      using r True by (auto simp: stopConversion_def EM_assert_eq conv_stop_def)
    have 1: "k1 = ?k \<and> clock_inv a1 \<and> adcd a1 = adcd ?a \<and> dac_ready (dacd a1 0)"
      by (rule DAC_stop_keeps [OF k(1,2), of 0]) (use s(1) k(4) in simp_all)
    then have c: "clock_inv a1" "adc_active (adcd a1)" "ADC_stop a1 ?k = Ok (a2, k2)" using s(2) k(3) by simp_all
    have "k2 = ?k \<and> clock_inv a2 \<and> adc_ready (adcd a2) \<and> dacd a2 = dacd a1"
      by (rule ADC_stop_keeps [OF k(1) c(1,2)]) (use c(3) in simp)
    then show ?thesis using i 1 s(3) by (simp add: comm_inv_def status_ok_def sizes_ok_def)
  qed
qed

lemma keeps_startGenerator: "keeps_inv startGenerator"
proof (rule keeps_invI)
  fix fw u fw' u' assume i: "comm_inv fw" and r: "startGenerator fw u = Ok (fw', u')"
  let ?g = "fw_gen fw"
  have k: "running (fw_k fw)" "clock_inv (fw_an fw)" using i by (auto simp: comm_inv_def)
  obtain a1 k1 where s: "DAC_start (int 1) (sb_data ?g) (m_size ?g) (fw_an fw) (fw_k fw) = Ok (a1, k1)"
    "fw' = fw\<lparr>fw_an := a1, fw_k := k1\<rparr>" using r by (auto simp: startGenerator_def)
  note w = DAC_start_Ok [OF k _ s(1)]
  have "k1 = fw_k fw \<and> clock_inv a1 \<and> adcd a1 = adcd (fw_an fw) \<and> dacd a1 0 = dacd (fw_an fw) 0"
    by (rule DAC_start_keeps [OF k, of 1 "sb_data ?g" "m_size ?g"]) (use w s(1) in simp_all)
  then show "comm_inv fw'" using comm_inv_an [OF i, of a1] s(2) by simp
qed

text \<open>Stopping the generator keeps it only when the generator runs.\<close>

lemma stopGenerator_keeps:
  assumes i: "comm_inv fw" and r: "stopGenerator fw u = Ok (fw', u')" and d: "dac_active (dacd (fw_an fw) 1)"
  shows "comm_inv fw'"
proof -
  have k: "running (fw_k fw)" "clock_inv (fw_an fw)" using i by (auto simp: comm_inv_def)
  obtain a1 k1 where s: "DAC_stop (int 1) (fw_an fw) (fw_k fw) = Ok (a1, k1)" "fw' = fw\<lparr>fw_an := a1, fw_k := k1\<rparr>"
    using r by (auto simp: stopGenerator_def)
  have "k1 = fw_k fw \<and> clock_inv a1 \<and> adcd a1 = adcd (fw_an fw) \<and> dacd a1 0 = dacd (fw_an fw) 0"
    by (rule DAC_stop_keeps [OF k, of 1]) (use d s(1) in simp_all)
  then show ?thesis using comm_inv_an [OF i, of a1] s(2) by simp
qed

lemma keeps_readStatus: "keeps_inv readStatus"
proof (rule keeps_invI)
  fix fw u fw' u' assume i: "comm_inv fw" and r: "readStatus fw u = Ok (fw', u')"
  have "em_ok (snd (em_pop (fw_em fw)))" using i by (intro ems.pop_ok) (simp add: comm_inv_def)
  from comm_inv_em [OF i this] show "comm_inv fw'" using r by (simp add: readStatus_def case_prod_unfold)
qed

lemma keeps_measureConversion: "keeps_inv measureConversion"
proof -
  have m: "comm_inv (conv_startMeasurement fw)" if "comm_inv fw" for fw
    unfolding conv_startMeasurement_def using that
    by (intro comm_inv_an) (auto simp: ADC_setOperation_def comm_inv_def intro: clock_inv_frame)
  show ?thesis unfolding measureConversion_def by (intro keeps_assert keeps_Ok) (auto intro: m)
qed

lemma keeps_simple:
  "keeps_inv writeADCBuffer" "keeps_inv readADCBuffer" "keeps_inv readDACBuffer" "keeps_inv unloadAlgorithm"
  "keeps_inv readIdentifier" "keeps_inv readExecTime" "keeps_inv readMessage"
  by (rule keeps_invI; auto simp: writeADCBuffer_def read_to_def readADCBuffer_def readDACBuffer_def unloadAlgorithm_def
      readIdentifier_def readExecTime_def readMessage_def)+

lemmas keeps_command = keeps_simple keeps_measureConversion keeps_readStatus keeps_startGenerator keeps_stopConversion
  keeps_startConversion keeps_modified keeps_sampleRate keeps_loadAlgorithm keeps_updateGenerator keeps_setBufferSize

lemma dispatch_keeps:
  assumes "comm_inv fw" and "dispatch im pll cmd fw u = Ok (fw', u')"
    and "cmd = 0x77 \<Longrightarrow> dac_active (dacd (fw_an fw) 1)"
  shows "comm_inv fw'"
proof (cases "cmd = 0x77")
  case True
  then show ?thesis using assms stopGenerator_keeps by (simp add: dispatch_def commandTable_def)
next
  case False
  then have "dispatch im pll cmd fw u = Ok (fw', u') \<Longrightarrow>
      (fw', u') = (fw, u) \<or> (\<exists>f. keeps_inv f \<and> f fw u = Ok (fw', u'))"
    unfolding dispatch_def commandTable_def using keeps_command by (auto split: if_splits)
  then show ?thesis using assms keeps_invD by blast
qed


text \<open>The states the commands reach; \<open>w\<close> only while the generator runs.\<close>

inductive comm_reach :: "image \<Rightarrow> bool \<Rightarrow> firmware \<Rightarrow> firmware \<Rightarrow> bool" for im pll fw0 where
  start: "comm_reach im pll fw0 fw0"
| command: "comm_reach im pll fw0 fw \<Longrightarrow> dispatch im pll cmd fw u = Ok (fw', u') \<Longrightarrow>
    (cmd = 0x77 \<Longrightarrow> dac_active (dacd (fw_an fw) 1)) \<Longrightarrow> comm_reach im pll fw0 fw'"

lemma comm_reach_inv: "comm_reach im pll fw0 fw \<Longrightarrow> comm_inv fw0 \<Longrightarrow> comm_inv fw"
  by (induction rule: comm_reach.induct) (auto intro: dispatch_keeps)

section \<open>Sending a half buffer\<close>

lemma peek_append: "peek m a (n + k) = peek m a n @ peek m (a + of_nat n) k"
proof (rule nth_equalityI)
  fix i assume "i < length (peek m a (n + k))"
  then have i: "i < n + k" by (simp add: peek_def)
  have "(of_nat i :: u32) = of_nat n + of_nat (i - n)" if "\<not> i < n" using that by (simp flip: of_nat_add)
  then show "peek m a (n + k) ! i = (peek m a n @ peek m (a + of_nat n) k) ! i"
    using i by (auto simp: peek_def nth_append add.assoc)
qed (simp add: peek_def)

lemma length_peek [simp]: "length (peek m a n) = n"
  by (simp add: peek_def)

text \<open>With an answer of the host for each piece, all bytes are sent in order.\<close>

lemma send_chunks_ok:
  "length acks = max 1 ((left + 511) div 512) \<Longrightarrow> usb_rx u = map RxByte acks @ rest \<Longrightarrow>
   send_chunks m a left u = Ok (u\<lparr>usb_rx := rest, usb_tx := usb_tx u @ peek m a left\<rparr>)"
proof (induction m a left u arbitrary: acks rule: send_chunks.induct)
  case (1 m a left u)
  then obtain b bs where acks: "acks = b # bs" by (cases acks) auto
  show ?case
  proof (cases "left > 512")
    case True
    let ?u = "u\<lparr>usb_rx := map RxByte bs @ rest, usb_tx := usb_tx u @ peek m a 512\<rparr>"
    have r: "read_ack (USBSerial_write (peek m a 512) u) = Ok ?u"
      using 1(3) acks by (simp add: read_ack_def USBSerial_write_def)
    have e: "(left + 511) div 512 = Suc ((left - 512 + 511) div 512)" "512 + (left - 512) = left" using True by simp_all
    have "(left - 512 + 511) div 512 \<ge> 1" using True by (simp add: div_greater_zero_iff Suc_le_eq)
    then have len: "length bs = max 1 ((left - 512 + 511) div 512)" using 1(2) acks e(1) by simp
    have "send_chunks m (a + 512) (left - 512) ?u =
        Ok (?u\<lparr>usb_rx := rest, usb_tx := usb_tx ?u @ peek m (a + 512) (left - 512)\<rparr>)"
      by (rule 1(1) [OF True r len]) simp
    then show ?thesis using True r peek_append [of m a 512 "left - 512"] e(2) by (simp add: send_chunks.simps [of m a left u])
  next
    case False
    then have "(left + 511) div 512 \<le> 1" by linarith
    then have "max 1 ((left + 511) div 512) = 1" by simp
    then have "bs = []" using 1(2) acks by simp
    then show ?thesis
      using False 1(3) acks by (simp add: send_chunks.simps [of m a left u] read_ack_def USBSerial_write_def)
  qed
qed

text \<open>What the host reads: a 16-bit number of samples, then the samples.\<close>

definition host_decode :: "byte list \<Rightarrow> byte list" where
  "host_decode bs = take (2 * unat (param16 bs)) (drop 2 bs)"

lemma param16_half:
  assumes "unat sz \<le> 65535 * 2"
  shows "param16 (half_bytes sz @ bs) = sz div 2"
proof -
  have "unat (sz div 2) < 2 ^ 16" using assms by (simp add: unat_div)
  then have h: "take_bit 16 (sz div 2) = sz div 2" by (simp add: take_bit_eq_mod word_unat_eq_iff unat_mod)
  have "param16 (half_bytes sz @ bs) = take_bit 16 (sz div 2)"
    by (rule bit_word_eqI) (auto simp: param16_def half_bytes_def bit_simps)
  then show ?thesis using h by simp
qed


section \<open>Properties\<close>


text \<open>
  C36: the host can decode what the device sends for a finished half of the output buffer. The answer
  starts with the number of samples; when the host acknowledges every piece of 512 bytes, the bytes
  that follow are exactly that half of the buffer, the acknowledgements are consumed and nothing
  else, and the half is no longer marked as modified.
\<close>

theorem results_roundtrip:
  assumes "sizes_ok fw" and "m_modified (fw_out fw) \<noteq> NULL"
    and "length acks = max 1 ((unat (m_size (fw_out fw)) + 511) div 512)" and "usb_rx u = map RxByte acks @ rest"
  shows "\<exists>fw' u' bs. readConversionResults fw u = Ok (fw', u') \<and> usb_tx u' = usb_tx u @ bs \<and> usb_rx u' = rest \<and>
    host_decode bs = peek (fw_mem fw) (m_modified (fw_out fw)) (unat (m_size (fw_out fw))) \<and>
    m_modified (fw_out fw') = NULL"
proof -
  let ?o = "fw_out fw" let ?n = "unat (m_size ?o)"
  have sz: "?n \<le> 8192" "even ?n" using assms(1) by (simp_all add: sizes_ok_def word_le_nat_alt)
  have "unat (m_size ?o * 2) = 2 * ?n" using sz(1) by (simp add: unat_word_ariths)
  then have b: "unat (bytesize ?o div 2) = ?n" by (simp add: bytesize_def unat_div)
  let ?u = "USBSerial_write (half_bytes (m_size ?o)) u"
  have s: "send_chunks (fw_mem fw) (m_modified ?o) ?n ?u =
      Ok (?u\<lparr>usb_rx := rest, usb_tx := usb_tx ?u @ peek (fw_mem fw) (m_modified ?o) ?n\<rparr>)"
    by (rule send_chunks_ok [OF assms(3)]) (simp add: USBSerial_write_def assms(4))
  let ?bs = "half_bytes (m_size ?o) @ peek (fw_mem fw) (m_modified ?o) ?n"
  have "param16 ?bs = m_size ?o div 2" using sz(1) by (intro param16_half) simp
  then have "host_decode ?bs = peek (fw_mem fw) (m_modified ?o) ?n"
    using sz(2) by (simp add: host_decode_def unat_div half_bytes_def)
  then show ?thesis
    using s b assms(2) by (simp add: readConversionResults_def modified_def Let_def bytesize_def USBSerial_write_def)
qed

text \<open>
  The command that sets the buffer size, on every branch. While a conversion runs it changes
  nothing but reports \<open>NotIdle\<close>; a size above the maximum is refused with \<open>BadParam\<close>; otherwise both
  conversion buffers get twice the given size.
\<close>

theorem setBufferSize_effect:
  assumes "usb_rx u = RxByte lo # RxByte hi # rest"
  shows "(run_status fw \<noteq> Idle \<longrightarrow> setBufferSize fw u = Ok (fw\<lparr>fw_em := em_add NotIdle (fw_em fw)\<rparr>, u)) \<and>
    (run_status fw = Idle \<and> param16 [lo, hi] * 2 > 8192 \<longrightarrow>
      setBufferSize fw u = Ok (fw\<lparr>fw_em := em_add BadParam (fw_em fw)\<rparr>, u\<lparr>usb_rx := rest\<rparr>)) \<and>
    (run_status fw = Idle \<and> param16 [lo, hi] * 2 \<le> 8192 \<longrightarrow>
      setBufferSize fw u = Ok (fw\<lparr>fw_in := (fw_in fw)\<lparr>m_size := param16 [lo, hi] * 2\<rparr>,
        fw_out := (fw_out fw)\<lparr>m_size := param16 [lo, hi] * 2\<rparr>\<rparr>, u\<lparr>usb_rx := rest\<rparr>))"
proof -
  have r: "rx_take 2 (usb_rx u) = Some ([lo, hi], rest)" unfolding assms by (simp add: numeral_2_eq_2)
  have "(if param16 [lo, hi] * 2 < 8192 then param16 [lo, hi] * 2 else 8192) = param16 [lo, hi] * 2"
    if "param16 [lo, hi] * 2 \<le> 8192" using that by auto
  then show ?thesis
    using r by (auto simp: setBufferSize_def EM_assert_eq with_param16_def USBSerial_read_def setSize_def
      MAX_SAMPLE_BUFFER_SIZE_def Let_def)
qed

text \<open>
  The host can halt the device with valid command bytes: by starting the generator a second
  time, by starting it with an odd number of samples above one, and by starting a conversion after
  setting the buffer size to zero; in each case a check of the drivers fails.
\<close>

theorem host_can_halt:
  assumes "comm_inv fw"
  shows "(dac_active (dacd (fw_an fw) 1) \<longrightarrow> (\<exists>e. startGenerator fw u = Halt e)) \<and>
    (m_size (fw_gen fw) AND 1 \<noteq> 0 \<and> m_size (fw_gen fw) \<noteq> 1 \<longrightarrow> (\<exists>e. startGenerator fw u = Halt e)) \<and>
    (run_status fw = Idle \<and> m_size (fw_in fw) = 0 \<longrightarrow> (\<exists>e. startConversion fw u = Halt e))"
proof -
  have k: "running (fw_k fw)" using assms by (simp add: comm_inv_def)
  let ?d = "dacd (fw_an fw) 1" let ?s = "\<lambda>n. dacStartConversion dac_group_config (sb_data (fw_gen fw)) n ?d (fw_k fw)"
  have g: "\<exists>e. startGenerator fw u = Halt e" if "\<exists>e. ?s (m_size (fw_gen fw)) = Halt e"
    using that by (auto simp: startGenerator_def DAC_start_def Let_def)
  have 1: "\<exists>e. ?s n = Halt e" if "dac_active ?d" for n using dac.start_active [OF k that] .
  have 2: "\<exists>e. ?s n = Halt e" if "n AND 1 \<noteq> 0" "n \<noteq> 1" for n
    by (rule dac.start_invalid [OF k]) (use that in \<open>simp add: dac_valid_def depth_ok_def\<close>)
  have "\<exists>e. adcStartConversion adc_group_config (sb_data (fw_in fw)) 0 (adcd (fw_an fw)) (fw_k fw) = Halt e"
    by (rule adc.start_invalid [OF k]) (simp add: adc_valid_def)
  then have "\<exists>e. startConversion fw u = Halt e" if "run_status fw = Idle" "m_size (fw_in fw) = 0"
    using that by (auto simp: startConversion_def EM_assert_eq conv_start_def ADC_start_def Let_def)
  then show ?thesis using g 1 2 by blast
qed

section \<open>An instance\<close>

definition demo_host :: firmware where
  "demo_host = demo_fw\<lparr>fw_k := demo_kernel\<lparr>lock_cnt := 0\<rparr>, run_status := Idle,
     fw_an := demo_analog\<lparr>gptd := demo_gpt\<lparr>gpt_state := GPT_READY\<rparr>\<rparr>\<rparr>"

lemma demo_host_inv: "comm_inv demo_host"
proof -
  have "em_ok em_init" by (simp add: em_ok_def em_init_def)
  moreover have "sizes_ok demo_host"
    by (simp add: sizes_ok_def demo_host_def demo_fw_def Samples_In_def Samples_Out_def Samples_Generator_def
      new_SampleBuffer_def MAX_SAMPLE_BUFFER_SIZE_def)
  moreover have "status_ok demo_host"
    by (simp add: status_ok_def demo_host_def demo_analog_def demo_adc_def demo_dac_def adc_ready_def dac_ready_def)
  ultimately show ?thesis
    using demo_running demo_clock_inv by (simp add: comm_inv_def demo_host_def demo_fw_def)
qed


theorem results_roundtrip_witness:
  "\<exists>fw' u' bs. readConversionResults (demo_host\<lparr>fw_out := setModified Samples_Out\<rparr>)
      \<lparr>usb_rx = map RxByte (replicate 16 0x61), usb_tx = []\<rparr> = Ok (fw', u') \<and> usb_tx u' = bs \<and> usb_rx u' = [] \<and>
    host_decode bs = peek (\<lambda>_. 0) 0x2000C000 8192"
proof -
  let ?fw = "demo_host\<lparr>fw_out := setModified Samples_Out\<rparr>"
  have o: "m_size (fw_out ?fw) = 8192" "m_modified (fw_out ?fw) = 0x2000C000" "fw_mem ?fw = (\<lambda>_. 0)"
    by (simp_all add: demo_host_def demo_fw_def setModified_def Samples_Out_def new_SampleBuffer_def MAX_SAMPLE_BUFFER_SIZE_def)
  have "sizes_ok ?fw"
    using demo_host_inv by (simp add: comm_inv_def sizes_ok_def demo_host_def demo_fw_def setModified_def Samples_Out_def
      new_SampleBuffer_def MAX_SAMPLE_BUFFER_SIZE_def)
  then show ?thesis
    using results_roundtrip [of ?fw "replicate 16 0x61" "\<lparr>usb_rx = map RxByte (replicate 16 0x61), usb_tx = []\<rparr>" "[]"] o
    by (simp, blast)
qed

theorem setBufferSize_effect_witness:
  "setBufferSize demo_host \<lparr>usb_rx = [RxByte 0, RxByte 1], usb_tx = []\<rparr> =
    Ok (demo_host\<lparr>fw_in := (fw_in demo_host)\<lparr>m_size := 512\<rparr>, fw_out := (fw_out demo_host)\<lparr>m_size := 512\<rparr>\<rparr>,
      \<lparr>usb_rx = [], usb_tx = []\<rparr>)"
proof -
  have "run_status demo_host = Idle" "param16 [0, 1] = 256" by (simp_all add: demo_host_def param16_def)
  then show ?thesis using setBufferSize_effect [of "\<lparr>usb_rx = [RxByte 0, RxByte 1], usb_tx = []\<rparr>" 0 1 "[]" demo_host] by simp
qed

theorem host_can_halt_witness:
  "\<exists>e. startGenerator (demo_host\<lparr>fw_gen := setSize 7 Samples_Generator\<rparr>) \<lparr>usb_rx = [], usb_tx = []\<rparr> = Halt e"
proof -
  let ?fw = "demo_host\<lparr>fw_gen := setSize 7 Samples_Generator\<rparr>"
  have g: "m_size (fw_gen ?fw) = 7" by (simp add: setSize_def MAX_SAMPLE_BUFFER_SIZE_def)
  have "comm_inv ?fw"
    using demo_host_inv by (auto simp: comm_inv_def status_ok_def sizes_ok_def setSize_def Samples_Generator_def
      new_SampleBuffer_def MAX_SAMPLE_BUFFER_SIZE_def)
  from host_can_halt [OF this] show ?thesis unfolding g by simp
qed

end
