(* ===== verification/Spec2Isabelle.thy ===== *)
theory Spec2Isabelle
  imports Messages CondVars SerialLink BinSems Jobs SysInit Communication
begin

text \<open>
  \<^bold>\<open>Verification of the stmdsp firmware.\<close>

  The firmware (\<open>source/\<close>) turns an STM32 board into a signal processor that a host drives over USB.
  A timer paces an ADC that fills a circular buffer of samples; at each half of the buffer an interrupt
  posts a message to a mailbox; a monitor thread of high priority fetches it and sends it on to an
  unprivileged runner thread; the runner calls the algorithm that the host has loaded as an ELF file
  and copies its result into the half of the output buffer that the DAC plays. A communication thread
  reads commands from USB. All of it runs on ChibiOS/RT (\<open>ChibiOS_20.3.2/os/rt\<close>, \<open>os/oslib\<close>, \<open>os/hal\<close>), whose
  kernel is modelled as far as the firmware uses it, in the configuration of \<open>source/cfg/chconf.h\<close>: tick-less
  timers, no round robin, FIFO semaphore and message queues, non-recursive mutexes, debug checks and
  assertions enabled, and for the L4 target.

  \<^bold>\<open>Conventions.\<close> Operations return \<open>kres\<close> (theory \<open>Prelude\<close>): \<open>Ok\<close> a result, \<open>Halt\<close> the failure of a check that
  stops the system, \<open>Undef\<close> an access the language leaves undefined, \<open>Diverge\<close> a loop that does not
  end within its bound. A function named as in the source models that function, whole; helpers that model a
  loop or a branch of it have names of their own. A blocking call is split where it gives
  the processor away: the first part returns \<open>Asleep\<close>, the part behind the sleep has the suffix \<open>_resume\<close>.
  Interleaving is the order in which these parts are called.

  \<^bold>\<open>The kernel.\<close>
  \<^item> \<open>TQueues\<close>: \<open>queue_*\<close> and \<open>list_*\<close> of \<open>chschd.c\<close> and \<open>chschd.h\<close> on link fields, and their refinement to lists
    (locale \<open>queue_rep\<close> states the contract, interpreted on the pointer code).
  \<^item> \<open>Kernel\<close>: the state (\<open>ch_system_t\<close>, threads, mutexes, mailboxes, semaphores, timers by address) and the
    checks of \<open>chdebug.c\<close>.
  \<^item> \<open>VTimers\<close>: \<open>chvt.c\<close>; deadlines of armed timers and which timers a tick runs (locale \<open>tick_callback\<close> says what the
    callbacks may do; the wake-up of a sleeping thread is its interpretation).
  \<^item> \<open>Scheduler\<close>: \<open>chschd.c\<close>; the ready list stays in order of priority, the running thread has the highest
    one, \<open>chSchWakeupS\<close> is \<open>chSchReadyI\<close> followed by \<open>chSchRescheduleS\<close>, timeouts wake exactly the sleepers that are due.
    Locale \<open>s_service\<close> is the pattern of a locked call that reschedules; the calls of the kernel
    below are interpretations of it.
  \<^item> \<open>Semaphores\<close>, \<open>Mutexes\<close>, \<open>CondVars\<close>, \<open>Messages\<close>, \<open>Threads\<close>, \<open>Mailboxes\<close>: the files of the same names
    (\<open>chsem.c\<close>, \<open>chmtx.c\<close>, \<open>chcond.c\<close>, \<open>chmsg.c\<close>, \<open>chthreads.c\<close> with \<open>chregistry.c\<close>, \<open>chmboxes.c\<close>). Semaphores refine an
    abstract counter with a queue, mutexes keep the priority inheritance protocol, mailboxes are
    interpreted as bounded FIFOs (\<open>Fifo\<close>), condition variables release and sleep in one step.
  \<^item> \<open>TimeMeasure\<close>: \<open>chtm.c\<close>.
  \<^item> \<open>Creation\<close>: lemmas on the calls of \<open>chthreads.c\<close> that start threads; a new thread keeps the scheduling invariant.
  \<^item> \<open>Events\<close>: \<open>chevents.c\<close>; a step relation of signals, broadcasts, waits and timeouts loses no event, and the dispatcher is
    equivalent to a walk over the list of events.
  \<^item> \<open>SysInit\<close>: \<open>chsys.c\<close>; \<open>chSysInit\<close> takes cleared memory to the state from which the invariants of the other
    theories start, the integrity check answers as the two directions of the lists say, locking by status nests.

  \<^bold>\<open>The object library\<close> (\<open>os/oslib\<close>), on words of memory.
  \<^item> \<open>MemCore\<close>: \<open>chmemcore.c\<close>; blocks are aligned and inside the free memory.
  \<^item> \<open>Heaps\<close>, \<open>HeapClients\<close>: \<open>chmemheaps.c\<close>; the free list in memory refines a list of page intervals, and over any history
    of clients the blocks that are held are disjoint. \<open>Uncontended\<close> has the lemmas on mutexes that nobody else wants.
  \<^item> \<open>Pools\<close>, \<open>ObjFifos\<close>: \<open>chmempools.c\<close> and \<open>chobjfifos.h\<close>; no object is in two places, and a FIFO of objects, composed of a
    guarded pool and a mailbox, keeps their order.
  \<^item> \<open>BinSems\<close>: \<open>chbsem.h\<close>; a binary semaphore follows the specification of a free or taken one in every history.
  \<^item> \<open>Jobs\<close>: \<open>chjobs.h\<close>; the dispatcher runs the oldest job and gives its descriptor back, except for a job without function.
  \<^item> \<open>Pipes\<close>: \<open>chpipes.c\<close>; reads and writes are machines that lose the processor at every kernel call. All
    interleavings give a stream of bytes; one of them leaves both sides asleep.
  \<^item> \<open>Factory\<close>: \<open>chfactory.c\<close>; the registry of objects refines a dictionary with reference counts; creating a buffer writes over the
    next block of the heap.

  \<^bold>\<open>The drivers.\<close>
  \<^item> \<open>HalDrivers\<close>: the portable layers \<open>hal_gpt.c\<close>, \<open>hal_adc.c\<close>, \<open>hal_dac.c\<close> as state machines, with the interrupt
    code of their headers; locale \<open>conversion_driver\<close> is the contract the two converters share. Calls of the low level
    drivers are logged.
  \<^item> \<open>IoBuffers\<close>: \<open>hal_buffers.c\<close>, the queues of the serial stream over USB. Reading and writing refine a stream
    of bytes.
  \<^item> \<open>UsbDriver\<close>: \<open>hal_usb.c\<close> with the transactions of \<open>hal_usb_lld.c\<close>: the state of the device, endpoint zero, FIFOs.
  \<^item> \<open>SerialUsb\<close>, \<open>SerialLink\<close>: \<open>hal_serial_usb.c\<close> and \<open>usbcfg.c\<close>; the host reads its descriptors, and a step relation over threads,
    packets and interrupts makes the link two streams of bytes that are never stuck.

  \<^bold>\<open>The firmware.\<close>
  \<^item> \<open>Memory\<close>: the memory of the target, little endian, with the C library calls the firmware makes.
  \<^item> \<open>SampleBuffers\<close> (\<open>samplebuffer.cpp\<close>, \<open>samples.cpp\<close>), \<open>ElfLoad\<close> (\<open>elfload.cpp\<close>, \<open>elf.h\<close>), \<open>AppError\<close> (\<open>error.cpp\<close>).
  \<^item> \<open>Analog\<close> (\<open>sclock.cpp\<close>, \<open>periph/adc.cpp\<close>, \<open>periph/dac.cpp\<close>): a step relation over the calls; the sample clock
    runs exactly while a converter is active.
  \<^item> \<open>Conversion\<close> (\<open>conversion.cpp\<close>, \<open>handlers.cpp\<close>): the interrupt handlers, the two threads with the service calls
    between them, the abort of an algorithm that takes too long and the fault handlers. The path of
    a sample is followed from the interrupt to the output buffer.
  \<^item> \<open>Communication\<close> (\<open>communication.cpp\<close>, \<open>periph/usbserial.cpp\<close>): the commands of the host and their dispatch; an
    invariant on all states the host can reach ties the reported status to the state of the converters.

  \<^bold>\<open>Bounds.\<close> The loops over mutex chains, lists of threads, listeners and elements have a bound of \<open>2 ^ 32\<close> turns (\<open>max_turns\<close>, \<open>evt_turns\<close>), more
  than there are addresses; the copy loop of a sample buffer \<open>2 ^ 27\<close> blocks (\<open>max_blocks\<close>), more than the
  rounded size can ask for; the ELF loader \<open>2 ^ 16\<close> headers, as the count is a half-word; the dispatcher of events 32 turns, one per bit;
  the reads and writes of a buffer queue one turn per byte. The pages of a heap are below \<open>2 ^ 28\<close>, as it ends below the top of the address space. That
  these are enough is proved with the properties that say what
  the calls return (\<open>boost_terminates\<close>, \<open>load_terminates\<close>, \<open>ibqReadTimeout_stream\<close>, \<open>obqWriteTimeout_stream\<close>, \<open>chEvtDispatch_order\<close>,
  \<open>registry_refines\<close>, \<open>chSysIntegrityCheckI_iff\<close>).

  \<^bold>\<open>Parameters.\<close> The loaded algorithm (a function on memory that may halt or not end), the addresses the
  linker gives (\<open>image\<close>, \<open>linker\<close>, the default heap, the factory), the readings of counters and alternate inputs, the handlers of events, the status
  and the free space that the USB hardware reports, and the bytes the host sends.

  \<^bold>\<open>Not modelled.\<close> The low level drivers, apart from the transactions of the USB driver, and the
  processor port, which are register accesses and assembly; the H7 target, with its CORDIC unit; the order in which \<open>main.cpp\<close> and \<open>hal.c\<close> call the
  initialisers, which are modelled one by one; the LED thread; object caches, delegates and dynamic threads,
  which the firmware does not use; vendor headers and generated files.
\<close>

end
